(* ===== verification/Redis_Prelude.thy ===== *)
theory Redis_Prelude
  imports Main "HOL-Library.Word" "HOL-Library.Monad_Syntax"
begin

text \<open>
  Shared vocabulary of the development.

  \<^item> Names for the C types the sources use. A \<^verbatim>\<open>char\<close> or \<^verbatim>\<open>unsigned char\<close> is a
    \<open>byte\<close>; fixed-width integers are words of that width, read with \<open>unat\<close> where the source
    type is unsigned and with \<open>sint\<close> where it is signed. The platform is the usual 64-bit one:
    \<^verbatim>\<open>long\<close>, \<^verbatim>\<open>long long\<close> and \<^verbatim>\<open>size_t\<close> have 64 bits, \<^verbatim>\<open>int\<close> has 32.
  \<^item> Memory blocks as lists of bytes, with reads and writes that are \<open>None\<close> when they leave the
    block. A model function that returns \<open>Some\<close> therefore never accessed memory out of bounds.
  \<^item> Collections of rewrite rules used by the component theories.
\<close>

type_synonym byte = "8 word"
type_synonym u16 = "16 word"
type_synonym u32 = "32 word"
type_synonym u64 = "64 word"
type_synonym s64 = "64 word"
type_synonym bytes = "byte list"

named_theorems mem_simps \<open>reads and writes of memory blocks\<close>
named_theorems codec_simps \<open>encoders and decoders of numbers as bytes\<close>

section \<open>Memory blocks\<close>

definition mem_get :: "'a list \<Rightarrow> nat \<Rightarrow> 'a option" where
  "mem_get m i = (if i < length m then Some (m ! i) else None)"

definition mem_put :: "'a list \<Rightarrow> nat \<Rightarrow> 'a \<Rightarrow> 'a list option" where
  "mem_put m i x = (if i < length m then Some (m[i := x]) else None)"

definition mem_read :: "'a list \<Rightarrow> nat \<Rightarrow> nat \<Rightarrow> 'a list option" where
  "mem_read m off n = (if off + n \<le> length m then Some (take n (drop off m)) else None)"

definition mem_write :: "'a list \<Rightarrow> nat \<Rightarrow> 'a list \<Rightarrow> 'a list option" where
  "mem_write m off bs =
     (if off + length bs \<le> length m then Some (take off m @ bs @ drop (off + length bs) m) else None)"

text \<open>\<^verbatim>\<open>memmove\<close> within one block: the source bytes are read before anything is written, so the
  two ranges may overlap.\<close>

definition mem_move :: "'a list \<Rightarrow> nat \<Rightarrow> nat \<Rightarrow> nat \<Rightarrow> 'a list option" where
  "mem_move m dst src n = do { bs \<leftarrow> mem_read m src n; mem_write m dst bs }"

text \<open>\<^verbatim>\<open>realloc\<close>: the common prefix is kept, new bytes are unspecified. The argument \<open>junk\<close> stands
  for whatever the allocator hands out.\<close>

definition mem_resize :: "(nat \<Rightarrow> 'a) \<Rightarrow> 'a list \<Rightarrow> nat \<Rightarrow> 'a list" where
  "mem_resize junk m n = take n m @ map junk [length m ..< n]"

section \<open>Bounds of machine integers\<close>

lemma unat_byte_less [simp]: "unat (b :: byte) < 256"
  using unsigned_less [where 'a = nat, of b] by simp

lemma unat_u16_less: "unat (w :: u16) < 65536"
  using unsigned_less [where 'a = nat, of w] by simp

lemma unat_u32_less: "unat (w :: u32) < 4294967296"
  using unsigned_less [where 'a = nat, of w] by simp

lemma unat_u64_less: "unat (w :: u64) < 18446744073709551616"
  using unsigned_less [where 'a = nat, of w] by simp

lemma unat_word_of_nat_byte [simp]: "unat (word_of_nat v :: byte) = v mod 256"
  by (simp add: unat_of_nat)

lemma unat_ucast_up:
  fixes x :: "'a::len word"
  assumes "LENGTH('a) \<le> LENGTH('b)"
  shows "unat (ucast x :: 'b::len word) = unat x"
proof -
  have "unat x < 2 ^ LENGTH('a)" by simp
  also have "(2::nat) ^ LENGTH('a) \<le> 2 ^ LENGTH('b)" using assms by (simp add: power_increasing)
  finally show ?thesis by (simp add: unsigned_ucast_eq take_bit_nat_eq_self)
qed

text \<open>A two's complement word as its unsigned and its signed reading.\<close>

lemma uint_of_sint:
  fixes w :: "'a::len word"
  shows "uint w = (if sint w < 0 then sint w + 2 ^ LENGTH('a) else sint w)"
proof -
  have u: "uint w = sint w mod 2 ^ LENGTH('a)" by (simp add: uint_sint take_bit_eq_mod)
  have "(2::int) ^ (LENGTH('a) - 1) < 2 ^ LENGTH('a)" by simp
  then have lt: "sint w < 2 ^ LENGTH('a)" using sint_lt [of w] by linarith
  have ge: "- (2 ^ LENGTH('a)) \<le> sint w" using sint_ge [of w] \<open>2 ^ (LENGTH('a) - 1) < 2 ^ LENGTH('a)\<close> by linarith
  show ?thesis
  proof (cases "sint w < 0")
    case True
    have "sint w mod 2 ^ LENGTH('a) = (sint w + 2 ^ LENGTH('a)) mod 2 ^ LENGTH('a)" by simp
    also have "\<dots> = sint w + 2 ^ LENGTH('a)" using True ge by (intro mod_pos_pos_trivial) linarith+
    finally show ?thesis using u True by simp
  next
    case False
    then show ?thesis using u lt by simp
  qed
qed

lemma unat_sint_nonneg: "0 \<le> sint v \<Longrightarrow> unat v = nat (sint v)"
  by (simp add: unat_eq_nat_uint uint_of_sint)

lemma unat_minus_sint_neg:
  fixes v :: "'a::len word"
  assumes "sint v < 0"
  shows "unat (- v) = nat (- sint v)"
proof -
  have "sint v + 2 ^ LENGTH('a) = uint v" using assms by (simp add: uint_of_sint)
  moreover have "uint v \<noteq> 0" using assms by (metis sint_0 uint_0_iff less_irrefl)
  moreover have "uint v < 2 ^ LENGTH('a)" by simp
  ultimately show ?thesis
    by (simp add: unat_eq_nat_uint uint_word_ariths zmod_zminus1_eq_if)
qed

section \<open>Lemmas on memory blocks\<close>

lemma mem_get_eq [mem_simps]: "i < length m \<Longrightarrow> mem_get m i = Some (m ! i)"
  by (simp add: mem_get_def)

lemma mem_get_Some: "mem_get m i = Some x \<longleftrightarrow> i < length m \<and> x = m ! i"
  by (auto simp: mem_get_def)

lemma mem_put_eq [mem_simps]: "i < length m \<Longrightarrow> mem_put m i x = Some (m[i := x])"
  by (simp add: mem_put_def)

lemma mem_read_eq [mem_simps]: "off + n \<le> length m \<Longrightarrow> mem_read m off n = Some (take n (drop off m))"
  by (simp add: mem_read_def)

lemma mem_write_eq [mem_simps]:
  "off + length bs \<le> length m \<Longrightarrow>
   mem_write m off bs = Some (take off m @ bs @ drop (off + length bs) m)"
  by (simp add: mem_write_def)

lemma mem_move_eq [mem_simps]:
  "src + n \<le> length m \<Longrightarrow> dst + n \<le> length m \<Longrightarrow>
   mem_move m dst src n = Some (take dst m @ take n (drop src m) @ drop (dst + n) m)"
  by (simp add: mem_move_def mem_read_def mem_write_def)

lemma length_mem_write: "mem_write m off bs = Some m' \<Longrightarrow> length m' = length m"
  by (auto simp: mem_write_def split: if_splits)

lemma length_mem_put: "mem_put m i x = Some m' \<Longrightarrow> length m' = length m"
  by (auto simp: mem_put_def split: if_splits)

lemma length_mem_resize [simp]: "length (mem_resize junk m n) = n"
  by (simp add: mem_resize_def min_def)

lemma take_mem_resize: "k \<le> length m \<Longrightarrow> k \<le> n \<Longrightarrow> take k (mem_resize junk m n) = take k m"
  by (simp add: mem_resize_def min_def)

lemma mem_resize_shrink: "n \<le> length m \<Longrightarrow> mem_resize junk m n = take n m"
  by (simp add: mem_resize_def)

lemma mem_resize_grow:
  "length m \<le> n \<Longrightarrow> \<exists>tail. mem_resize junk m n = m @ tail \<and> length tail = n - length m"
  by (simp add: mem_resize_def)

section \<open>Arrays of elements of one size\<close>

lemma length_concat_chunks: "\<forall>x\<in>set xss. length x = e \<Longrightarrow> length (concat xss) = length xss * e"
  by (induction xss) auto

lemma take_concat_chunks:
  "\<forall>x\<in>set xss. length x = e \<Longrightarrow> take (k * e) (concat xss) = concat (take k xss)"
proof (induction xss arbitrary: k)
  case (Cons x xss)
  then show ?case by (cases k) auto
qed simp

lemma drop_concat_chunks:
  "\<forall>x\<in>set xss. length x = e \<Longrightarrow> drop (k * e) (concat xss) = concat (drop k xss)"
proof (induction xss arbitrary: k)
  case (Cons x xss)
  then show ?case by (cases k) auto
qed simp

lemma nth_concat_chunks:
  assumes "\<forall>x\<in>set xss. length x = e" "i < length xss"
  shows "take e (drop (i * e) (concat xss)) = xss ! i"
proof -
  have "drop i xss = xss ! i # drop (Suc i) xss" using assms(2) by (simp add: Cons_nth_drop_Suc)
  moreover have "length (xss ! i) = e" using assms by simp
  ultimately show ?thesis by (simp add: drop_concat_chunks [OF assms(1)])
qed

lemma update_concat_chunks:
  assumes "\<forall>x\<in>set xss. length x = e" "i < length xss"
  shows "take (i * e) (concat xss) @ b @ drop (i * e + e) (concat xss) = concat (xss[i := b])"
  using take_concat_chunks [OF assms(1), of i] drop_concat_chunks [OF assms(1), of "Suc i"] assms(2)
  by (simp add: upd_conv_take_nth_drop add.commute)

end
