(* ===== verification/Endian.thy ===== *)
theory Endian
  imports Redis_Prelude
begin

text \<open>
  Models \<^verbatim>\<open>src/endianconv.c\<close> and the macros of \<^verbatim>\<open>src/endianconv.h\<close>.

  The persistent formats of Redis are little endian on every host. A big-endian host stores an
  integer with its most significant byte first, so the code reverses the bytes in place before a
  value is written out and after it is read in; on a little-endian host the \<^verbatim>\<open>...ifbe\<close> macros are
  empty. The host's byte order is the Boolean parameter \<open>be\<close> of the definitions, so the theorems
  hold for both kinds of machine. \<open>host_store\<close> and \<open>host_load\<close> are the processor's own view of an
  integer in memory.
\<close>

section \<open>Numbers as byte strings\<close>

fun le_bytes :: "nat \<Rightarrow> nat \<Rightarrow> bytes" where
  "le_bytes 0 v = []"
| "le_bytes (Suc n) v = word_of_nat v # le_bytes n (v div 256)"

fun le_nat :: "bytes \<Rightarrow> nat" where
  "le_nat [] = 0"
| "le_nat (b # bs) = unat b + 256 * le_nat bs"

definition host_store :: "bool \<Rightarrow> nat \<Rightarrow> 'a::len word \<Rightarrow> bytes" where
  "host_store be n v = (if be then rev (le_bytes n (unat v)) else le_bytes n (unat v))"

definition host_load :: "bool \<Rightarrow> bytes \<Rightarrow> 'a::len word" where
  "host_load be bs = word_of_nat (le_nat (if be then rev bs else bs))"

section \<open>Byte reversal in memory\<close>

text \<open>Each function swaps bytes of the block \<open>x\<close> pairwise, starting at index \<open>p\<close>.\<close>

definition mem_swap :: "bytes \<Rightarrow> nat \<Rightarrow> nat \<Rightarrow> bytes option" where
  "mem_swap x i j = do {
     t \<leftarrow> mem_get x i;
     u \<leftarrow> mem_get x j;
     x \<leftarrow> mem_put x i u;
     mem_put x j t }"

definition memrev16 :: "bytes \<Rightarrow> nat \<Rightarrow> bytes option" where
  "memrev16 x p = mem_swap x p (p + 1)"

definition memrev32 :: "bytes \<Rightarrow> nat \<Rightarrow> bytes option" where
  "memrev32 x p = do {
     x \<leftarrow> mem_swap x p (p + 3);
     mem_swap x (p + 1) (p + 2) }"

definition memrev64 :: "bytes \<Rightarrow> nat \<Rightarrow> bytes option" where
  "memrev64 x p = do {
     x \<leftarrow> mem_swap x p (p + 7);
     x \<leftarrow> mem_swap x (p + 1) (p + 6);
     x \<leftarrow> mem_swap x (p + 2) (p + 5);
     mem_swap x (p + 3) (p + 4) }"

text \<open>The integer versions reverse a local variable in place and return it.\<close>

definition intrev16 :: "bool \<Rightarrow> u16 \<Rightarrow> u16 option" where
  "intrev16 be v = map_option (host_load be) (memrev16 (host_store be 2 v) 0)"

definition intrev32 :: "bool \<Rightarrow> u32 \<Rightarrow> u32 option" where
  "intrev32 be v = map_option (host_load be) (memrev32 (host_store be 4 v) 0)"

definition intrev64 :: "bool \<Rightarrow> u64 \<Rightarrow> u64 option" where
  "intrev64 be v = map_option (host_load be) (memrev64 (host_store be 8 v) 0)"

text \<open>The conditional macros.\<close>

definition memrev16ifbe :: "bool \<Rightarrow> bytes \<Rightarrow> nat \<Rightarrow> bytes option" where
  "memrev16ifbe be x p = (if be then memrev16 x p else Some x)"

definition memrev32ifbe :: "bool \<Rightarrow> bytes \<Rightarrow> nat \<Rightarrow> bytes option" where
  "memrev32ifbe be x p = (if be then memrev32 x p else Some x)"

definition memrev64ifbe :: "bool \<Rightarrow> bytes \<Rightarrow> nat \<Rightarrow> bytes option" where
  "memrev64ifbe be x p = (if be then memrev64 x p else Some x)"

definition intrev32ifbe :: "bool \<Rightarrow> u32 \<Rightarrow> u32 option" where
  "intrev32ifbe be v = (if be then intrev32 be v else Some v)"

section \<open>The little-endian codec\<close>

lemma length_le_bytes [simp]: "length (le_bytes n v) = n"
  by (induction n arbitrary: v) auto

lemma le_nat_le_bytes [codec_simps]: "le_nat (le_bytes n v) = v mod 256 ^ n"
proof (induction n arbitrary: v)
  case 0
  then show ?case by simp
next
  case (Suc n)
  have "v mod (256 * 256 ^ n) = 256 * (v div 256 mod 256 ^ n) + v mod 256"
    by (rule mod_mult2_eq)
  with Suc show ?case by simp
qed

lemma le_nat_less: "le_nat bs < 256 ^ length bs"
proof (induction bs)
  case Nil
  then show ?case by simp
next
  case (Cons b bs)
  have "unat b < 256" by simp
  with Cons have "unat b + 256 * le_nat bs < 256 * 256 ^ length bs" by linarith
  then show ?case by simp
qed

lemma le_bytes_le_nat [codec_simps]: "le_bytes (length bs) (le_nat bs) = bs"
proof (induction bs)
  case Nil
  then show ?case by simp
next
  case (Cons b bs)
  have "unat (word_of_nat (unat b + 256 * le_nat bs) :: byte) = unat b"
    unfolding unat_word_of_nat_byte by simp
  then have "(word_of_nat (unat b + 256 * le_nat bs) :: byte) = b"
    by (simp add: word_unat_eq_iff)
  moreover have "(unat b + 256 * le_nat bs) div 256 = le_nat bs"
    by simp
  ultimately show ?case using Cons by simp
qed

lemma length_host_store [simp]: "length (host_store be n v) = n"
  by (simp add: host_store_def)

lemma host_load_store:
  fixes v :: "'a::len word"
  assumes "LENGTH('a) \<le> 8 * n"
  shows "host_load be (host_store be n v) = v"
proof -
  have "unat v < 2 ^ LENGTH('a)" by (rule unsigned_less)
  also have "(2::nat) ^ LENGTH('a) \<le> 2 ^ (8 * n)" using assms by (simp add: power_increasing)
  also have "(2::nat) ^ (8 * n) = 256 ^ n" by (simp add: power_mult)
  finally have "unat v mod 256 ^ n = unat v" by simp
  then show ?thesis by (simp add: host_load_def host_store_def le_nat_le_bytes)
qed

lemma host_store_load:
  assumes "length bs = n" "8 * n \<le> LENGTH('a)"
  shows "host_store be n (host_load be bs :: 'a::len word) = bs"
proof -
  define cs where "cs = (if be then rev bs else bs)"
  have len: "length cs = n" using assms(1) by (simp add: cs_def)
  have "le_nat cs < 256 ^ n" using le_nat_less [of cs] len by simp
  also have "(256::nat) ^ n = 2 ^ (8 * n)" by (simp add: power_mult)
  also have "(2::nat) ^ (8 * n) \<le> 2 ^ LENGTH('a)" using assms(2) by (simp add: power_increasing)
  finally have "unat (host_load be bs :: 'a word) = le_nat cs"
    by (simp add: host_load_def unat_of_nat cs_def)
  moreover have "le_bytes n (le_nat cs) = cs"
    using le_bytes_le_nat [of cs] len by simp
  ultimately show ?thesis by (auto simp: host_store_def cs_def)
qed

section \<open>The swaps reverse the bytes\<close>

lemma mem_swap_eq:
  "i < length x \<Longrightarrow> j < length x \<Longrightarrow> mem_swap x i j = Some (x[i := x ! j, j := x ! i])"
  by (simp add: mem_swap_def mem_simps)

lemma mem_swap_append:
  "mem_swap (xs @ ys) (length xs + i) (length xs + j) = map_option ((@) xs) (mem_swap ys i j)"
  by (auto simp: mem_swap_def mem_get_def mem_put_def nth_append list_update_append)

lemma memrev16_eq:
  assumes "length bs = 2"
  shows "memrev16 (xs @ bs @ ys) (length xs) = Some (xs @ rev bs @ ys)"
proof -
  from assms obtain a b where "bs = [a, b]" by (auto simp: eval_nat_numeral length_Suc_conv)
  then show ?thesis
    using mem_swap_append [of xs "bs @ ys" 0 1] by (simp add: memrev16_def mem_swap_eq)
qed

lemma memrev32_eq:
  assumes "length bs = 4"
  shows "memrev32 (xs @ bs @ ys) (length xs) = Some (xs @ rev bs @ ys)"
proof -
  from assms obtain a b c d where bs: "bs = [a, b, c, d]"
    by (auto simp: eval_nat_numeral length_Suc_conv)
  show ?thesis
    using mem_swap_append [of xs "[a, b, c, d] @ ys" 0 3]
      mem_swap_append [of xs "[d, b, c, a] @ ys" 1 2]
    by (simp add: bs memrev32_def mem_swap_eq eval_nat_numeral)
qed

lemma memrev64_eq:
  assumes "length bs = 8"
  shows "memrev64 (xs @ bs @ ys) (length xs) = Some (xs @ rev bs @ ys)"
proof -
  from assms obtain a b c d e f g h where bs: "bs = [a, b, c, d, e, f, g, h]"
    by (auto simp: eval_nat_numeral length_Suc_conv)
  show ?thesis
    using mem_swap_append [of xs "[a, b, c, d, e, f, g, h] @ ys" 0 7]
      mem_swap_append [of xs "[h, b, c, d, e, f, g, a] @ ys" 1 6]
      mem_swap_append [of xs "[h, g, c, d, e, f, b, a] @ ys" 2 5]
      mem_swap_append [of xs "[h, g, f, d, e, c, b, a] @ ys" 3 4]
    by (simp add: bs memrev64_def mem_swap_eq eval_nat_numeral)
qed

section \<open>Host-independent storage\<close>

text \<open>Storing an integer in host order and applying the conditional reversal leaves its
  little-endian bytes in memory, whatever the host.\<close>

lemma host_store_rev: "be \<Longrightarrow> rev (host_store be n v) = le_bytes n (unat v)"
  by (simp add: host_store_def)

lemma memrev16ifbe_store:
  "memrev16ifbe be (xs @ host_store be 2 v @ ys) (length xs) = Some (xs @ le_bytes 2 (unat v) @ ys)"
  by (simp add: memrev16ifbe_def memrev16_eq host_store_rev) (simp add: host_store_def)

lemma memrev32ifbe_store:
  "memrev32ifbe be (xs @ host_store be 4 v @ ys) (length xs) = Some (xs @ le_bytes 4 (unat v) @ ys)"
  by (simp add: memrev32ifbe_def memrev32_eq host_store_rev) (simp add: host_store_def)

lemma memrev64ifbe_store:
  "memrev64ifbe be (xs @ host_store be 8 v @ ys) (length xs) = Some (xs @ le_bytes 8 (unat v) @ ys)"
  by (simp add: memrev64ifbe_def memrev64_eq host_store_rev) (simp add: host_store_def)

lemma intrev32_eq: "intrev32 be v = Some (word_of_nat (le_nat (rev (le_bytes 4 (unat v)))))"
  using memrev32_eq [of "host_store be 4 v" "[]" "[]"]
  by (simp add: intrev32_def host_load_def host_store_def)

lemma intrev64_eq: "intrev64 be v = Some (word_of_nat (le_nat (rev (le_bytes 8 (unat v)))))"
  using memrev64_eq [of "host_store be 8 v" "[]" "[]"]
  by (simp add: intrev64_def host_load_def host_store_def)

lemma intrev16_eq: "intrev16 be v = Some (word_of_nat (le_nat (rev (le_bytes 2 (unat v)))))"
  using memrev16_eq [of "host_store be 2 v" "[]" "[]"]
  by (simp add: intrev16_def host_load_def host_store_def)

lemma rev_bytes_involution:
  fixes v :: "'a::len word"
  assumes "LENGTH('a) = 8 * n"
  defines "r \<equiv> \<lambda>v :: 'a word. word_of_nat (le_nat (rev (le_bytes n (unat v))))"
  shows "r (r v) = v"
proof -
  have "r v = host_load True (host_store False n v)" for v
    by (simp add: r_def host_load_def host_store_def)
  moreover have "host_store False n (host_load True bs :: 'a word) = rev bs" if "length bs = n" for bs
    using host_store_load [of "rev bs" n False, where 'a = 'a] that assms(1)
    by (simp add: host_load_def)
  ultimately have "r (r v) = host_load False (host_store False n v)"
    by (simp add: host_load_def)
  then show ?thesis using assms(1) by (simp add: host_load_store)
qed

lemma intrev32ifbe_involution: "Option.bind (intrev32ifbe be v) (intrev32ifbe be) = Some v"
  using rev_bytes_involution [of 4 v] by (simp add: intrev32ifbe_def intrev32_eq)

lemma intrev32ifbe_total: "\<exists>w. intrev32ifbe be v = Some w"
  by (simp add: intrev32ifbe_def intrev32_eq)

end
