(* ===== verification/Util_Num.thy ===== *)
theory Util_Num
  imports Redis_Prelude
begin

text \<open>
  Models the number conversions of \<^verbatim>\<open>src/util.c\<close>: \<^verbatim>\<open>digits10\<close>, \<^verbatim>\<open>sdigits10\<close>, \<^verbatim>\<open>ll2string\<close>,
  \<^verbatim>\<open>string2ll\<close> and \<^verbatim>\<open>string2l\<close>. A C string argument with its length is the list of its bytes; the
  destination buffer of \<^verbatim>\<open>ll2string\<close> is a memory block. The two conversions are proved to be
  inverse to each other on exactly the canonical decimal representations.
\<close>

abbreviation LLONG_MIN :: s64 where "LLONG_MIN \<equiv> 0x8000000000000000"
abbreviation LLONG_MAX :: u64 where "LLONG_MAX \<equiv> 0x7FFFFFFFFFFFFFFF"
abbreviation ULLONG_MAX :: u64 where "ULLONG_MAX \<equiv> 0xFFFFFFFFFFFFFFFF"

section \<open>Printing\<close>

function digits10 :: "u64 \<Rightarrow> u32" where
  "digits10 v =
     (if v < 10 then 1
      else if v < 100 then 2
      else if v < 1000 then 3
      else if v < 1000000000000 then
        (if v < 100000000 then
           (if v < 1000000 then
              (if v < 10000 then 4 else 5 + of_bool (v \<ge> 100000))
            else 7 + of_bool (v \<ge> 10000000))
         else if v < 10000000000 then 9 + of_bool (v \<ge> 1000000000)
         else 11 + of_bool (v \<ge> 100000000000))
      else 12 + digits10 (v div 1000000000000))"
  by pat_completeness auto
termination
proof (relation "measure unat", goal_cases)
  case (2 v)
  then have "1000000000000 \<le> unat v" by (simp add: word_less_nat_alt)
  then have "unat v div 1000000000000 < unat v" by simp
  then show ?case by (simp add: unat_div)
qed simp

declare digits10.simps [simp del]

definition sdigits10 :: "s64 \<Rightarrow> u32" where
  "sdigits10 v =
     (if sint v < 0 then
        let uv = (if v \<noteq> LLONG_MIN then - v else LLONG_MAX + 1) in digits10 uv + 1
      else digits10 v)"

definition ll2string_digits :: bytes where
  "ll2string_digits = map of_char
     (''0001020304050607080910111213141516171819'' @
      ''2021222324252627282930313233343536373839'' @
      ''4041424344454647484950515253545556575859'' @
      ''6061626364656667686970717273747576777879'' @
      ''8081828384858687888990919293949596979899'') @ [0]"

text \<open>The loop of \<^verbatim>\<open>ll2string\<close> that writes two digits per step, from the end of the buffer.\<close>

function ll2string_loop :: "u64 \<Rightarrow> u32 \<Rightarrow> bytes \<Rightarrow> (u64 \<times> u32 \<times> bytes) option" where
  "ll2string_loop value next dst =
     (if value \<ge> 100 then
        (let i = unat (value mod 100) * 2 in
         do { c1 \<leftarrow> mem_get ll2string_digits (i + 1);
              dst \<leftarrow> mem_put dst (unat next) c1;
              c0 \<leftarrow> mem_get ll2string_digits i;
              dst \<leftarrow> mem_put dst (unat (next - 1)) c0;
              ll2string_loop (value div 100) (next - 2) dst })
      else Some (value, next, dst))"
  by pat_completeness auto
termination
proof (relation "measure (unat \<circ> fst)", goal_cases)
  case (2 v)
  then have "100 \<le> unat v" by (simp add: word_le_nat_alt)
  then show ?case by (simp add: unat_div)
qed simp

declare ll2string_loop.simps [simp del]

text \<open>The result pairs the returned length with the new contents of the buffer.\<close>

definition ll2string :: "bytes \<Rightarrow> u64 \<Rightarrow> s64 \<Rightarrow> (u32 \<times> bytes) option" where
  "ll2string dst dstlen svalue =
     (let (value, negative) =
        (if sint svalue < 0 then
           ((if svalue \<noteq> LLONG_MIN then - svalue else LLONG_MAX + 1), 1)
         else (svalue, 0));
        len = digits10 value + negative
      in if unat len \<ge> unat dstlen then Some (0, dst)
         else do {
           let next = len;
           dst \<leftarrow> mem_put dst (unat next) 0;
           let next = next - 1;
           (value, next, dst) \<leftarrow> ll2string_loop value next dst;
           dst \<leftarrow> (if value < 10 then mem_put dst (unat next) (48 + ucast value)
                  else
                    (let i = unat value * 2 in
                     do { c1 \<leftarrow> mem_get ll2string_digits (i + 1);
                          dst \<leftarrow> mem_put dst (unat next) c1;
                          c0 \<leftarrow> mem_get ll2string_digits i;
                          mem_put dst (unat (next - 1)) c0 }));
           dst \<leftarrow> (if negative \<noteq> 0 then mem_put dst 0 45 else Some dst);
           Some (len, dst) })"

section \<open>Parsing\<close>

definition is_digit :: "byte \<Rightarrow> bool" where
  "is_digit c \<longleftrightarrow> 48 \<le> c \<and> c \<le> 57"

text \<open>The digit loop of \<^verbatim>\<open>string2ll\<close>: \<open>None\<close> on overflow, otherwise the value and the bytes that
  were not used.\<close>

fun string2ll_loop :: "u64 \<Rightarrow> bytes \<Rightarrow> (u64 \<times> bytes) option" where
  "string2ll_loop v [] = Some (v, [])"
| "string2ll_loop v (c # p) =
     (if is_digit c then
        if v > ULLONG_MAX div 10 then None
        else
          (let v = v * 10; d = ucast (c - 48) in
           if v > ULLONG_MAX - d then None else string2ll_loop (v + d) p)
      else Some (v, c # p))"

text \<open>\<open>None\<close> is the return value 0; \<open>Some v\<close> is the return value 1 with \<open>v\<close> stored.\<close>

definition string2ll :: "bytes \<Rightarrow> s64 option" where
  "string2ll s =
     (if length s = 0 then None
      else if length s = 1 \<and> hd s = 48 then Some 0
      else
        (let negative = (hd s = 45); p = (if negative then tl s else s) in
         case p of
           [] \<Rightarrow> None
         | c # p \<Rightarrow>
             if 49 \<le> c \<and> c \<le> 57 then
               (case string2ll_loop (ucast (c - 48)) p of
                  None \<Rightarrow> None
                | Some (v, rest) \<Rightarrow>
                    if rest \<noteq> [] then None
                    else if negative then
                      (if v > ucast (- (LLONG_MIN + 1)) + 1 then None else Some (- v))
                    else (if v > LLONG_MAX then None else Some v))
             else None))"

text \<open>\<^verbatim>\<open>string2l\<close> stores a \<^verbatim>\<open>long\<close>, which has the width of a \<^verbatim>\<open>long long\<close> here.\<close>

definition string2l :: "bytes \<Rightarrow> s64 option" where
  "string2l s =
     (case string2ll s of
        None \<Rightarrow> None
      | Some llval \<Rightarrow>
          if sint llval < - (2 ^ 63) \<or> sint llval > 2 ^ 63 - 1 then None else Some llval)"

section \<open>Canonical decimal representations\<close>

fun dec_nat :: "nat \<Rightarrow> bytes" where
  "dec_nat n = (if n < 10 then [48 + word_of_nat n] else dec_nat (n div 10) @ [48 + word_of_nat (n mod 10)])"

declare dec_nat.simps [simp del]

definition dec_int :: "int \<Rightarrow> bytes" where
  "dec_int i = (if i < 0 then 45 # dec_nat (nat (- i)) else dec_nat (nat i))"

definition digit_val :: "byte \<Rightarrow> nat" where
  "digit_val c = unat c - 48"

definition digits_val :: "nat \<Rightarrow> bytes \<Rightarrow> nat" where
  "digits_val = foldl (\<lambda>a c. 10 * a + digit_val c)"

lemma digits_val_simps [simp]:
  "digits_val a [] = a"
  "digits_val a (c # cs) = digits_val (10 * a + digit_val c) cs"
  "digits_val a (cs @ ds) = digits_val (digits_val a cs) ds"
  by (simp_all add: digits_val_def)

lemma digits_val_mono: "a \<le> digits_val a cs"
proof (induction cs arbitrary: a)
  case Nil
  then show ?case by simp
next
  case (Cons c cs)
  have "a \<le> 10 * a + digit_val c" by simp
  also have "\<dots> \<le> digits_val (10 * a + digit_val c) cs" by (rule Cons)
  finally show ?case by simp
qed

lemma unat_digit: "n < 10 \<Longrightarrow> unat (48 + word_of_nat n :: byte) = 48 + n"
  by (simp add: unat_word_ariths)

lemma is_digit_iff: "is_digit c \<longleftrightarrow> 48 \<le> unat c \<and> unat c \<le> 57"
  by (simp add: is_digit_def word_le_nat_alt)

lemma is_digit_digit [simp]: "n < 10 \<Longrightarrow> is_digit (48 + word_of_nat n)"
  by (simp add: is_digit_iff unat_digit)

lemma digit_val_digit [simp]: "n < 10 \<Longrightarrow> digit_val (48 + word_of_nat n) = n"
  by (simp add: digit_val_def unat_digit)

lemma digit_of_val: "is_digit c \<Longrightarrow> 48 + word_of_nat (digit_val c) = c"
  by (simp add: word_unat_eq_iff unat_digit is_digit_iff digit_val_def)

lemma digit_val_less: "is_digit c \<Longrightarrow> digit_val c < 10"
  unfolding is_digit_iff digit_val_def by linarith

lemma digits_val_dec_nat [simp]: "digits_val 0 (dec_nat n) = n"
proof (induction n rule: dec_nat.induct)
  case (1 n)
  then show ?case by (simp add: dec_nat.simps [of n])
qed

lemma is_digit_dec_nat: "c \<in> set (dec_nat n) \<Longrightarrow> is_digit c"
proof (induction n rule: dec_nat.induct)
  case (1 n)
  then show ?case by (auto simp: dec_nat.simps [of n] split: if_splits)
qed

lemma dec_nat_nonempty [simp]: "dec_nat n \<noteq> []"
  by (simp add: dec_nat.simps [of n])

lemma hd_dec_nat: "0 < n \<Longrightarrow> hd (dec_nat n) \<noteq> 48"
proof (induction n rule: dec_nat.induct)
  case (1 n)
  show ?case
  proof (cases "n < 10")
    case True
    with 1 have "unat (48 + word_of_nat n :: byte) \<noteq> unat (48 :: byte)" by (simp add: unat_digit)
    then have "(48 + word_of_nat n :: byte) \<noteq> 48" by metis
    with True show ?thesis by (simp add: dec_nat.simps [of n])
  next
    case False
    with 1 show ?thesis by (simp add: dec_nat.simps [of n])
  qed
qed

text \<open>A digit string without leading zero is the representation of its value.\<close>

lemma dec_nat_digits_val:
  assumes "is_digit c" "c \<noteq> 48" "\<forall>d \<in> set cs. is_digit d"
  shows "dec_nat (digits_val 0 (c # cs)) = c # cs"
  using assms(3)
proof (induction cs rule: rev_induct)
  case Nil
  have "digit_val c < 10" using assms(1) by (rule digit_val_less)
  then show ?case using assms(1) by (simp add: dec_nat.simps digit_of_val)
next
  case (snoc d cs)
  let ?v = "digits_val 0 (c # cs)"
  have d: "is_digit d" "digit_val d < 10" using snoc.prems by (auto simp: digit_val_less)
  have "unat c \<noteq> 48" using assms(2) by (simp add: word_unat_eq_iff)
  then have "0 < digit_val c" using assms(1) by (simp add: is_digit_iff digit_val_def)
  also have "digit_val c \<le> ?v" using digits_val_mono [of "digit_val c" cs] by simp
  finally have "\<not> 10 * ?v + digit_val d < 10" by simp
  moreover have "(10 * ?v + digit_val d) div 10 = ?v" "(10 * ?v + digit_val d) mod 10 = digit_val d"
    using d by simp_all
  moreover have "digits_val 0 (c # cs @ [d]) = 10 * ?v + digit_val d" by simp
  ultimately have "dec_nat (digits_val 0 (c # cs @ [d])) = dec_nat ?v @ [48 + word_of_nat (digit_val d)]"
    by (metis dec_nat.simps)
  with snoc d show ?case by (simp add: digit_of_val)
qed

section \<open>digits10 counts the digits\<close>

lemma length_dec_nat_div: "10 ^ k \<le> n \<Longrightarrow> length (dec_nat n) = k + length (dec_nat (n div 10 ^ k))"
proof (induction k arbitrary: n)
  case 0
  then show ?case by simp
next
  case (Suc k)
  have "(1::nat) \<le> 10 ^ k" by simp
  with Suc.prems have n: "\<not> n < 10" unfolding power_Suc by linarith
  have "10 ^ k \<le> n div 10" using Suc.prems by (simp add: less_eq_div_iff_mult_less_eq mult.commute)
  then have "length (dec_nat (n div 10)) = k + length (dec_nat (n div 10 div 10 ^ k))" by (rule Suc.IH)
  with n show ?case by (simp add: dec_nat.simps [of n] div_mult2_eq)
qed

lemma length_dec_nat_lt10: "n < 10 \<Longrightarrow> length (dec_nat n) = 1"
  by (simp add: dec_nat.simps)

lemma length_dec_nat_interval:
  assumes "10 ^ k \<le> n" "n < 10 ^ Suc k"
  shows "length (dec_nat n) = Suc k"
proof -
  have "n div 10 ^ k < 10" using assms(2) by (simp add: div_less_iff_less_mult)
  then show ?thesis using length_dec_nat_div [OF assms(1)] by (simp add: length_dec_nat_lt10)
qed

lemma length_dec_nat_le: "n < 10 ^ Suc k \<Longrightarrow> length (dec_nat n) \<le> Suc k"
proof (induction k arbitrary: n)
  case 0
  then show ?case by (simp add: length_dec_nat_lt10)
next
  case (Suc k)
  show ?case
  proof (cases "n < 10")
    case True
    then show ?thesis by (simp add: length_dec_nat_lt10)
  next
    case False
    have "n div 10 < 10 ^ Suc k" using Suc.prems by (simp add: div_less_iff_less_mult)
    then have "length (dec_nat (n div 10)) \<le> Suc k" by (rule Suc.IH)
    with False show ?thesis by (simp add: dec_nat.simps [of n])
  qed
qed

lemma lt_num: "c \<le> d \<Longrightarrow> v < c \<Longrightarrow> v < (d :: 'a::linorder)"
  by simp

lemma le_num: "c \<le> d \<Longrightarrow> \<not> v < d \<Longrightarrow> \<not> v < (c :: 'a::linorder)"
  by simp

lemma ge_num: "c \<le> d \<Longrightarrow> \<not> v < d \<Longrightarrow> (c :: 'a::linorder) \<le> v"
  by simp

lemma nge_num: "c \<le> d \<Longrightarrow> v < c \<Longrightarrow> \<not> (d :: 'a::linorder) \<le> v"
  by simp

lemma digits10_small:
  assumes "v < 1000000000000"
  shows "unat (digits10 v) = length (dec_nat (unat v))"
proof -
  have iv: "length (dec_nat (unat v)) = Suc k"
    if "\<not> v < c" "v < d" "unat c = 10 ^ k" "unat d = 10 ^ Suc k" for c d k
    using that by (intro length_dec_nat_interval) (simp_all add: word_less_nat_alt)
  consider "v < 10"
    | "\<not> v < 10" "v < 100"
    | "\<not> v < 100" "v < 1000"
    | "\<not> v < 1000" "v < 10000"
    | "\<not> v < 10000" "v < 100000"
    | "\<not> v < 100000" "v < 1000000"
    | "\<not> v < 1000000" "v < 10000000"
    | "\<not> v < 10000000" "v < 100000000"
    | "\<not> v < 100000000" "v < 1000000000"
    | "\<not> v < 1000000000" "v < 10000000000"
    | "\<not> v < 10000000000" "v < 100000000000"
    | "\<not> v < 100000000000"
    by blast
  then show ?thesis
  proof cases
    case 1
    then show ?thesis
      by (subst digits10.simps) (simp add: length_dec_nat_lt10 word_less_nat_alt)
  next
    case 2
    then show ?thesis using iv [of 10 100 1]
      by (subst digits10.simps) (simp add: lt_num [OF _ 2(2)] nge_num [OF _ 2(2)] le_num [OF _ 2(1)] ge_num [OF _ 2(1)])
  next
    case 3
    then show ?thesis using iv [of 100 1000 2]
      by (subst digits10.simps) (simp add: lt_num [OF _ 3(2)] nge_num [OF _ 3(2)] le_num [OF _ 3(1)] ge_num [OF _ 3(1)])
  next
    case 4
    then show ?thesis using iv [of 1000 10000 3]
      by (subst digits10.simps) (simp add: lt_num [OF _ 4(2)] nge_num [OF _ 4(2)] le_num [OF _ 4(1)] ge_num [OF _ 4(1)])
  next
    case 5
    then show ?thesis using iv [of 10000 100000 4]
      by (subst digits10.simps) (simp add: lt_num [OF _ 5(2)] nge_num [OF _ 5(2)] le_num [OF _ 5(1)] ge_num [OF _ 5(1)])
  next
    case 6
    then show ?thesis using iv [of 100000 1000000 5]
      by (subst digits10.simps) (simp add: lt_num [OF _ 6(2)] nge_num [OF _ 6(2)] le_num [OF _ 6(1)] ge_num [OF _ 6(1)])
  next
    case 7
    then show ?thesis using iv [of 1000000 10000000 6]
      by (subst digits10.simps) (simp add: lt_num [OF _ 7(2)] nge_num [OF _ 7(2)] le_num [OF _ 7(1)] ge_num [OF _ 7(1)])
  next
    case 8
    then show ?thesis using iv [of 10000000 100000000 7]
      by (subst digits10.simps) (simp add: lt_num [OF _ 8(2)] nge_num [OF _ 8(2)] le_num [OF _ 8(1)] ge_num [OF _ 8(1)])
  next
    case 9
    then show ?thesis using iv [of 100000000 1000000000 8]
      by (subst digits10.simps) (simp add: lt_num [OF _ 9(2)] nge_num [OF _ 9(2)] le_num [OF _ 9(1)] ge_num [OF _ 9(1)])
  next
    case 10
    then show ?thesis using iv [of 1000000000 10000000000 9]
      by (subst digits10.simps) (simp add: lt_num [OF _ 10(2)] nge_num [OF _ 10(2)] le_num [OF _ 10(1)] ge_num [OF _ 10(1)])
  next
    case 11
    then show ?thesis using iv [of 10000000000 100000000000 10]
      by (subst digits10.simps) (simp add: lt_num [OF _ 11(2)] nge_num [OF _ 11(2)] le_num [OF _ 11(1)] ge_num [OF _ 11(1)])
  next
    case 12
    then show ?thesis using assms iv [of 100000000000 1000000000000 11]
      by (subst digits10.simps) (simp add: lt_num [OF _ assms] nge_num [OF _ assms] le_num [OF _ 12] ge_num [OF _ 12])
  qed
qed

lemma digits10_length: "unat (digits10 v) = length (dec_nat (unat v))"
proof (cases "v < 1000000000000")
  case True
  then show ?thesis by (rule digits10_small)
next
  case False
  let ?w = "v div 1000000000000"
  have ge: "10 ^ 12 \<le> unat v" using False by (simp add: word_less_nat_alt)
  have w: "unat ?w = unat v div 10 ^ 12" by (simp add: unat_div)
  have "unat v div 10 ^ 12 < 10 ^ Suc 7" using unat_u64_less [of v] by simp
  then have small: "?w < 1000000000000" by (simp add: word_less_nat_alt unat_div)
  have len: "length (dec_nat (unat ?w)) \<le> 8"
    using length_dec_nat_le [of "unat ?w" 7] \<open>unat v div 10 ^ 12 < 10 ^ Suc 7\<close> w by simp
  have "digits10 v = 12 + digits10 ?w"
    by (subst digits10.simps) (simp add: False le_num [OF _ False])
  then have "unat (digits10 v) = 12 + unat (digits10 ?w)"
    using len digits10_small [OF small] by (simp add: unat_word_ariths)
  then show ?thesis
    using length_dec_nat_div [OF ge] digits10_small [OF small] w by simp
qed

lemma digits10_bounds: "1 \<le> unat (digits10 v)" "unat (digits10 v) \<le> 20"
proof -
  show "1 \<le> unat (digits10 v)"
    by (simp add: digits10_length Suc_leI)
  show "unat (digits10 v) \<le> 20"
    using length_dec_nat_le [of "unat v" 19] unat_u64_less [of v] by (simp add: digits10_length)
qed

section \<open>ll2string prints the canonical representation\<close>

lemma dec_nat_100:
  assumes "100 \<le> n"
  shows "dec_nat n = dec_nat (n div 100) @ [48 + word_of_nat (n mod 100 div 10), 48 + word_of_nat (n mod 100 mod 10)]"
proof -
  have "dec_nat n = dec_nat (n div 10) @ [48 + word_of_nat (n mod 10)]"
    using assms by (simp add: dec_nat.simps [of n])
  moreover have "dec_nat (n div 10) = dec_nat (n div 10 div 10) @ [48 + word_of_nat (n div 10 mod 10)]"
    using assms by (simp add: dec_nat.simps [of "n div 10"])
  moreover have "n div 10 div 10 = n div 100" using div_mult2_eq [of n 10 10] by simp
  moreover have "n mod 100 = 10 * (n div 10 mod 10) + n mod 10" using mod_mult2_eq [of n 10 10] by simp
  ultimately show ?thesis by simp
qed

lemma ll2string_digits_length [simp]: "length ll2string_digits = 201"
  by (simp add: ll2string_digits_def)

lemma of_char_digits:
  "of_char (CHR ''0'') = (48 :: byte)" "of_char (CHR ''1'') = (49 :: byte)"
  "of_char (CHR ''2'') = (50 :: byte)" "of_char (CHR ''3'') = (51 :: byte)"
  "of_char (CHR ''4'') = (52 :: byte)" "of_char (CHR ''5'') = (53 :: byte)"
  "of_char (CHR ''6'') = (54 :: byte)" "of_char (CHR ''7'') = (55 :: byte)"
  "of_char (CHR ''8'') = (56 :: byte)" "of_char (CHR ''9'') = (57 :: byte)"
  by simp_all

abbreviation digit_bytes :: bytes where
  "digit_bytes \<equiv> [48, 49, 50, 51, 52, 53, 54, 55, 56, 57]"

lemma ll2string_digits_blocks:
  "ll2string_digits = concat (map (\<lambda>a. concat (map (\<lambda>b. [a, b]) digit_bytes)) digit_bytes) @ [0]"
  by (simp only: ll2string_digits_def append.simps list.map of_char_digits concat.simps refl)

lemma nth_concat_blocks:
  assumes "\<And>x. x \<in> set xs \<Longrightarrow> length (f x) = k" "i < length xs" "j < k"
  shows "concat (map f xs) ! (k * i + j) = f (xs ! i) ! j"
  using assms
proof (induction xs arbitrary: i)
  case Nil
  then show ?case by simp
next
  case (Cons x xs)
  then show ?case by (cases i) (auto simp: nth_append)
qed

lemma digit_bytes_nth: "d < 10 \<Longrightarrow> digit_bytes ! d = 48 + word_of_nat d"
  by (auto simp: less_Suc_eq eval_nat_numeral)

lemma ll2string_digits_nth:
  assumes "i < 100" "j < 2"
  shows "ll2string_digits ! (i * 2 + j) = [48 + word_of_nat (i div 10), 48 + word_of_nat (i mod 10)] ! j"
proof -
  let ?row = "\<lambda>a. concat (map (\<lambda>b. [a, b]) digit_bytes)"
  have row: "length (?row a) = 20" for a by simp
  have "i * 2 + j = 20 * (i div 10) + (2 * (i mod 10) + j)" by presburger
  moreover have "concat (map ?row digit_bytes) ! (20 * (i div 10) + (2 * (i mod 10) + j)) =
      ?row (digit_bytes ! (i div 10)) ! (2 * (i mod 10) + j)"
    using assms row by (intro nth_concat_blocks) auto
  moreover have "?row a ! (2 * (i mod 10) + j) = [a, digit_bytes ! (i mod 10)] ! j" for a
    using assms(2) by (intro nth_concat_blocks) auto
  moreover have "i div 10 < 10" "i mod 10 < 10" using assms(1) by auto
  moreover have "i * 2 + j < length (concat (map ?row digit_bytes))" using assms by simp
  ultimately show ?thesis
    unfolding ll2string_digits_blocks by (simp only: nth_append if_True digit_bytes_nth)
qed

lemma ll2string_digits_get:
  assumes "i < 100"
  shows "mem_get ll2string_digits (i * 2) = Some (48 + word_of_nat (i div 10))"
    "mem_get ll2string_digits (i * 2 + 1) = Some (48 + word_of_nat (i mod 10))"
  using assms ll2string_digits_nth [of i 0] ll2string_digits_nth [of i 1]
  by (simp_all add: mem_get_def)

lemma list_update_pair:
  assumes "0 < k" "k < length xs"
  shows "xs[k := b, k - 1 := a] = take (k - 1) xs @ [a, b] @ drop (Suc k) xs"
proof -
  obtain j where "k = Suc j" using assms(1) by (cases k) auto
  with assms(2) show ?thesis
    by (simp add: upd_conv_take_nth_drop list_update_append take_Suc_conv_app_nth)
qed

lemma ll2string_loop_step:
  assumes "value \<ge> 100" "2 \<le> unat next" "unat next < length dst"
  defines "i \<equiv> unat value mod 100"
  shows "ll2string_loop value next dst = ll2string_loop (value div 100) (next - 2)
     (take (unat next - 1) dst @ [48 + word_of_nat (i div 10), 48 + word_of_nat (i mod 10)] @
      drop (Suc (unat next)) dst)"
proof -
  have i: "unat (value mod 100) = i" "i < 100" by (simp_all add: i_def unat_mod)
  have n1: "unat (next - 1) = unat next - 1"
    using assms(2) by (simp add: unat_sub word_le_nat_alt)
  have "mem_put dst (unat next) b = Some (dst[unat next := b])" for b
    using assms(3) by (simp add: mem_put_eq)
  moreover have "mem_put (dst[unat next := b]) (unat next - 1) a =
      Some (take (unat next - 1) dst @ [a, b] @ drop (Suc (unat next)) dst)" for a b
    using assms list_update_pair [of "unat next" dst b a] by (simp add: mem_put_eq)
  ultimately show ?thesis
    using assms(1) by (subst ll2string_loop.simps)
      (simp only: if_True Let_def i ll2string_digits_get [OF i(2)] n1 Option.bind.simps)
qed

lemma ll2string_loop_correct:
  assumes "unat next < length dst" "length (dec_nat (unat value)) \<le> unat next + 1"
  shows "\<exists>v n d W. ll2string_loop value next dst = Some (v, n, d) \<and> unat v < 100 \<and>
     dec_nat (unat value) = dec_nat (unat v) @ W \<and> unat n + length W = unat next \<and>
     d = take (unat n + 1) dst @ W @ drop (unat next + 1) dst"
  using assms
proof (induction "unat value" arbitrary: "value" "next" dst rule: less_induct)
  case (less val nxt dst)
  show ?case
  proof (cases "val \<ge> 100")
    case False
    then have "unat val < 100" by (simp add: word_le_nat_alt)
    with False show ?thesis using less.prems
      by (simp add: ll2string_loop.simps [of val nxt dst])
  next
    case True
    then have ge: "100 \<le> unat val" by (simp add: word_le_nat_alt)
    let ?i = "unat val mod 100"
    let ?W = "[48 + word_of_nat (?i div 10), 48 + word_of_nat (?i mod 10)] :: bytes"
    define d0 where "d0 = take (unat nxt - 1) dst @ ?W @ drop (Suc (unat nxt)) dst"
    have dec: "dec_nat (unat val) = dec_nat (unat (val div 100)) @ ?W"
      using dec_nat_100 [OF ge] by (simp add: unat_div)
    have "1 \<le> length (dec_nat (unat (val div 100)))" by (simp add: Suc_le_eq)
    moreover have "length (dec_nat (unat val)) = length (dec_nat (unat (val div 100))) + 2"
      unfolding dec by simp
    ultimately have nxt: "2 \<le> unat nxt" and len: "length (dec_nat (unat (val div 100))) \<le> unat nxt - 2 + 1"
      using less.prems(2) by linarith+
    have n2: "unat (nxt - 2) = unat nxt - 2"
      using nxt by (simp add: unat_sub word_le_nat_alt)
    have lt: "unat (val div 100) < unat val" using ge by (simp add: unat_div)
    have "length d0 = length dst" using nxt less.prems(1) by (simp add: d0_def)
    then have "unat nxt - 2 < length d0" using less.prems(1) by simp
    then obtain v n d W where IH: "ll2string_loop (val div 100) (nxt - 2) d0 = Some (v, n, d)" "unat v < 100"
      "dec_nat (unat (val div 100)) = dec_nat (unat v) @ W" "unat n + length W = unat nxt - 2"
      "d = take (unat n + 1) d0 @ W @ drop (unat nxt - 2 + 1) d0"
      using less.hyps [OF lt, of "nxt - 2" d0] len unfolding n2 by blast
    have n: "unat n + 1 \<le> unat nxt - 1" "unat nxt - 1 \<le> length dst" using IH(4) nxt less.prems(1) by simp_all
    have "take (unat n + 1) d0 = take (unat n + 1) dst"
      using n by (simp add: d0_def)
    moreover have "drop (unat nxt - 1) d0 = ?W @ drop (unat nxt + 1) dst"
      using n(2) by (simp add: d0_def)
    moreover have "unat nxt - 2 + 1 = unat nxt - 1" using nxt by simp
    ultimately have "d = take (unat n + 1) dst @ (W @ ?W) @ drop (unat nxt + 1) dst"
      using IH(5) by (simp only: append_assoc)
    moreover have "dec_nat (unat val) = dec_nat (unat v) @ (W @ ?W)" using dec IH(3) by (simp only: append_assoc)
    moreover have "length (W @ ?W) = length W + 2" by simp
    then have "unat n + length (W @ ?W) = unat nxt" using IH(4) nxt by linarith
    moreover have "ll2string_loop val nxt dst = Some (v, n, d)"
      unfolding ll2string_loop_step [OF True nxt less.prems(1)] using IH(1) unfolding d0_def .
    ultimately show ?thesis
      using IH(2) by (intro exI [of _ v] exI [of _ n] exI [of _ d] exI [of _ "W @ ?W"] conjI)
  qed
qed

lemma dec_nat_two: "10 \<le> n \<Longrightarrow> n < 100 \<Longrightarrow> dec_nat n = [48 + word_of_nat (n div 10), 48 + word_of_nat (n mod 10)]"
  by (simp add: dec_nat.simps [of n] dec_nat.simps [of "n div 10"])

lemma ll2string_last_digits:
  fixes v :: u64 and n :: u32
  assumes "unat v < 100" "unat n < length d" "length (dec_nat (unat v)) \<le> unat n + 1"
  shows "(if v < 10 then mem_put d (unat n) (48 + ucast v)
      else (let i = unat v * 2 in
        do { c1 \<leftarrow> mem_get ll2string_digits (i + 1);
             d \<leftarrow> mem_put d (unat n) c1;
             c0 \<leftarrow> mem_get ll2string_digits i;
             mem_put d (unat (n - 1)) c0 })) =
    Some (take (unat n + 1 - length (dec_nat (unat v))) d @ dec_nat (unat v) @ drop (unat n + 1) d)"
proof (cases "v < 10")
  case True
  then have "unat v < 10" by (simp add: word_less_nat_alt)
  then have "dec_nat (unat v) = [48 + ucast v]" by (simp add: dec_nat.simps unsigned_ucast_eq)
  with True show ?thesis using assms(2) by (simp add: mem_put_eq upd_conv_take_nth_drop)
next
  case False
  then have v: "10 \<le> unat v" by (simp add: word_less_nat_alt)
  have dec: "dec_nat (unat v) = [48 + word_of_nat (unat v div 10), 48 + word_of_nat (unat v mod 10)]"
    using v assms(1) by (rule dec_nat_two)
  have n: "0 < unat n" using assms(3) by (simp add: dec)
  then have n1: "unat (n - 1) = unat n - 1" by (simp add: unat_sub word_le_nat_alt)
  show ?thesis
    using False n assms(2) list_update_pair [OF n assms(2)]
    by (simp only: if_False Let_def ll2string_digits_get [OF assms(1)] Option.bind.simps n1 dec)
      (simp add: mem_put_eq)
qed

lemma magnitude_eq: "(if v \<noteq> LLONG_MIN then - v else LLONG_MAX + 1) = - v"
  by simp

lemma sint_s64_bounds: "- 9223372036854775808 \<le> sint (v :: s64)" "sint (v :: s64) < 9223372036854775808"
  using sint_ge [of v] sint_lt [of v] by simp_all

text \<open>The buffer after a successful call: the representation, a terminating zero byte, and the rest
  of the buffer untouched.\<close>

lemma ll2string_digits_written:
  assumes "unat len < length dst" "unat len = length (dec_nat (unat val)) + unat neg" "unat neg \<le> 1"
  shows "\<exists>v n d. ll2string_loop val (len - 1) (dst[unat len := 0]) = Some (v, n, d) \<and> unat v < 100 \<and>
    unat n < length d \<and> length (dec_nat (unat v)) \<le> unat n + 1 \<and>
    take (unat n + 1 - length (dec_nat (unat v))) d @ dec_nat (unat v) @ drop (unat n + 1) d =
    take (unat neg) dst @ dec_nat (unat val) @ 0 # drop (unat len + 1) dst"
proof -
  define dst1 where "dst1 = dst[unat len := 0]"
  have ge1: "1 \<le> length (dec_nat (unat val))" by (simp add: Suc_le_eq)
  then have l1: "unat (len - 1) = unat len - 1" "1 \<le> unat len"
    using assms(2) by (simp_all add: unat_sub word_le_nat_alt)
  have "unat (len - 1) < length dst1" "length (dec_nat (unat val)) \<le> unat (len - 1) + 1"
    using l1 assms by (simp_all add: dst1_def)
  from ll2string_loop_correct [OF this] obtain v n d W where
    L: "ll2string_loop val (len - 1) dst1 = Some (v, n, d)" "unat v < 100"
      "dec_nat (unat val) = dec_nat (unat v) @ W" "unat n + length W = unat (len - 1)"
      "d = take (unat n + 1) dst1 @ W @ drop (unat (len - 1) + 1) dst1" by blast
  let ?k = "length (dec_nat (unat v))"
  have lens: "length (dec_nat (unat val)) = ?k + length W" using L(3) by simp
  have nW: "unat n + length W + 1 = unat len" using L(4) l1 by linarith
  have k: "?k \<le> unat n + 1" "unat n + 1 - ?k = unat neg" using nW lens assms(2) by linarith+
  have len1: "length dst1 = length dst" by (simp add: dst1_def)
  have nl: "unat n < length d" using nW assms(1) unfolding L(5) by (simp add: len1)
  have "drop (unat len) dst1 = 0 # drop (unat len + 1) dst"
    using assms(1) by (simp add: dst1_def upd_conv_take_nth_drop)
  moreover have "drop (unat n + 1) d = W @ drop (unat len) dst1"
    using nW assms(1) l1 unfolding L(5) by (simp add: len1)
  moreover have "take (unat neg) d = take (unat neg) dst"
    using k nW assms(1) unfolding L(5) by (simp add: dst1_def min_def)
  ultimately have "take (unat n + 1 - ?k) d @ dec_nat (unat v) @ drop (unat n + 1) d =
    take (unat neg) dst @ dec_nat (unat val) @ 0 # drop (unat len + 1) dst"
    using L(3) by (simp only: k(2) append_assoc)
  then show ?thesis using L(1,2) nl k(1) unfolding dst1_def by blast
qed

lemma ll2string_correct:
  fixes v :: s64
  assumes "unat dstlen \<le> length dst"
  defines "s \<equiv> dec_int (sint v)"
  shows "ll2string dst dstlen v =
    (if length s < unat dstlen then Some (word_of_nat (length s), s @ 0 # drop (length s + 1) dst)
     else Some (0, dst))"
proof -
  define neg :: u32 where "neg = (if sint v < 0 then 1 else 0)"
  define val where "val = (if sint v < 0 then - v else v)"
  define len where "len = digits10 val + neg"
  have s: "s = (if sint v < 0 then [45] else []) @ dec_nat (unat val)"
    by (simp add: s_def dec_int_def val_def unat_minus_sint_neg unat_sint_nonneg)
  have neg: "unat neg \<le> 1" "unat neg = (if sint v < 0 then 1 else 0)" by (simp_all add: neg_def)
  have len: "unat len = length (dec_nat (unat val)) + unat neg"
    using digits10_bounds(2) [of val] neg(1) by (simp add: len_def unat_word_ariths digits10_length)
  then have "unat len = length s" using s neg(2) by simp
  moreover have "len = word_of_nat (unat len)" by simp
  ultimately have lens: "unat len = length s" "len = word_of_nat (length s)" by simp_all
  have pair: "(if sint v < 0 then ((if v \<noteq> LLONG_MIN then - v else LLONG_MAX + 1), 1) else (v, 0)) = (val, neg)"
    by (simp add: val_def neg_def)
  show ?thesis
  proof (cases "length s < unat dstlen")
    case False
    then show ?thesis
      unfolding ll2string_def pair by (simp add: Let_def len_def [symmetric] lens(1))
  next
    case True
    then have lt: "unat len < length dst" using assms(1) lens(1) by simp
    have guard: "(unat dstlen \<le> unat len) = False" using True lens(1) by simp
    obtain x n d where L: "ll2string_loop val (len - 1) (dst[unat len := 0]) = Some (x, n, d)"
      "unat x < 100" "unat n < length d" "length (dec_nat (unat x)) \<le> unat n + 1"
      "take (unat n + 1 - length (dec_nat (unat x))) d @ dec_nat (unat x) @ drop (unat n + 1) d =
       take (unat neg) dst @ dec_nat (unat val) @ 0 # drop (unat len + 1) dst"
      using ll2string_digits_written [OF lt len neg(1)] by blast
    have tail: "(if x < 10 then mem_put d (unat n) (48 + ucast x)
      else (let i = unat x * 2 in
        do { c1 \<leftarrow> mem_get ll2string_digits (i + 1);
             d \<leftarrow> mem_put d (unat n) c1;
             c0 \<leftarrow> mem_get ll2string_digits i;
             mem_put d (unat (n - 1)) c0 })) =
      Some (take (unat neg) dst @ dec_nat (unat val) @ 0 # drop (unat len + 1) dst)"
      using ll2string_last_digits [OF L(2,3,4)] unfolding L(5) .
    have "ll2string dst dstlen v =
      Option.bind (if neg \<noteq> 0 then mem_put (take (unat neg) dst @ dec_nat (unat val) @ 0 # drop (unat len + 1) dst) 0 45
         else Some (take (unat neg) dst @ dec_nat (unat val) @ 0 # drop (unat len + 1) dst)) (\<lambda>dst. Some (len, dst))"
      unfolding ll2string_def pair case_prod_conv Let_def len_def [symmetric]
      by (simp only: guard if_False mem_put_eq [OF lt] Option.bind.simps L(1) case_prod_conv
          tail [unfolded Let_def])
    also have "\<dots> = Some (len, s @ 0 # drop (length s + 1) dst)"
    proof (cases "sint v < 0")
      case True
      obtain y ys where "dst = y # ys" using lt by (cases dst) auto
      with True len show ?thesis by (simp add: neg_def s mem_put_def)
    next
      case False
      with len show ?thesis by (simp add: neg_def s)
    qed
    finally show ?thesis using True lens(2) by simp
  qed
qed

section \<open>string2ll accepts exactly the canonical representations\<close>

lemma digit_to_u64:
  assumes "is_digit c"
  shows "unat (ucast (c - 48) :: u64) = digit_val c"
proof -
  have "unat (c - 48) = digit_val c"
    using assms by (simp add: unat_sub is_digit_def digit_val_def)
  then show ?thesis by (simp add: unat_ucast_up)
qed

lemma string2ll_loop_digit:
  assumes "is_digit c"
  shows "string2ll_loop v (c # p) =
    (if 10 * unat v + digit_val c < 2 ^ 64 then string2ll_loop (word_of_nat (10 * unat v + digit_val c)) p
     else None)"
proof -
  let ?d = "ucast (c - 48) :: u64"
  have d: "unat ?d = digit_val c" "digit_val c < 10"
    using assms by (simp_all add: digit_to_u64 digit_val_less)
  have g1: "v > ULLONG_MAX div 10 \<longleftrightarrow> 1844674407370955161 < unat v"
    by (simp add: word_less_nat_alt unat_div)
  show ?thesis
  proof (cases "1844674407370955161 < unat v")
    case True
    with g1 have "v > ULLONG_MAX div 10" by blast
    with assms True show ?thesis by (simp only: string2ll_loop.simps if_True) simp
  next
    case False
    with g1 have n1: "(v > ULLONG_MAX div 10) = False" by blast
    from False have "10 * unat v < 2 ^ 64" by simp
    then have v10: "unat (v * 10) = 10 * unat v"
      by (simp add: unat_word_ariths mult.commute)
    have "?d \<le> ULLONG_MAX" using d by (simp add: word_le_nat_alt)
    then have "unat (ULLONG_MAX - ?d) = 18446744073709551615 - digit_val c"
      using d by (simp add: unat_sub)
    then have g2: "v * 10 > ULLONG_MAX - ?d \<longleftrightarrow> \<not> 10 * unat v + digit_val c < 2 ^ 64"
      using d v10 by (simp add: word_less_nat_alt) linarith
    have "v * 10 + ?d = word_of_nat (10 * unat v + digit_val c)"
      using word_arith_nat_add [of "v * 10" ?d] by (simp only: v10 d(1))
    with assms show ?thesis by (simp only: string2ll_loop.simps if_True n1 if_False Let_def g2 split: if_splits) blast
  qed
qed


lemma string2ll_loop_complete:
  assumes "\<forall>c \<in> set cs. is_digit c" "digits_val (unat v) cs < 2 ^ 64"
  shows "string2ll_loop v cs = Some (word_of_nat (digits_val (unat v) cs), [])"
  using assms
proof (induction cs arbitrary: v)
  case Nil
  then show ?case by simp
next
  case (Cons c cs)
  let ?n = "10 * unat v + digit_val c"
  have "?n \<le> digits_val ?n cs" by (rule digits_val_mono)
  then have n: "?n < 2 ^ 64" using Cons.prems(2) unfolding digits_val_simps by linarith
  then have u: "unat (word_of_nat ?n :: u64) = ?n" by (simp only: unat_of_nat) simp
  have "string2ll_loop (word_of_nat ?n) cs = Some (word_of_nat (digits_val ?n cs), [])"
    using Cons.IH [of "word_of_nat ?n"] Cons.prems unfolding u by simp
  then show ?case using Cons.prems(1) n string2ll_loop_digit [of c v cs] by simp
qed

lemma string2ll_loop_sound:
  assumes "string2ll_loop v cs = Some (w, [])"
  shows "(\<forall>c \<in> set cs. is_digit c) \<and> unat w = digits_val (unat v) cs"
  using assms
proof (induction cs arbitrary: v)
  case Nil
  then show ?case by simp
next
  case (Cons c cs)
  let ?n = "10 * unat v + digit_val c"
  have c: "is_digit c" using Cons.prems by (cases "is_digit c") simp_all
  then have n: "?n < 2 ^ 64" and loop: "string2ll_loop (word_of_nat ?n) cs = Some (w, [])"
    using Cons.prems string2ll_loop_digit [OF c, of v cs] by (auto split: if_splits)
  have u: "unat (word_of_nat ?n :: u64) = ?n" using n by (simp only: unat_of_nat) simp
  show ?case using Cons.IH [OF loop] c unfolding u by simp
qed

lemma nonzero_digit_iff: "49 \<le> c \<and> c \<le> 57 \<longleftrightarrow> is_digit c \<and> c \<noteq> (48 :: byte)"
  by (auto simp: is_digit_def word_le_nat_alt word_unat_eq_iff)

text \<open>Parsing an unsigned magnitude that starts with a non-zero digit.\<close>

lemma string2ll_magnitude:
  assumes "49 \<le> c \<and> c \<le> 57"
  shows "string2ll_loop (ucast (c - 48)) p = Some (v, []) \<longleftrightarrow> c # p = dec_nat (unat v) \<and> v \<noteq> 0"
proof
  have c: "is_digit c" "c \<noteq> 48" using assms nonzero_digit_iff by blast+
  have u: "unat (ucast (c - 48) :: u64) = digit_val c" using c(1) by (rule digit_to_u64)
  {
    assume "string2ll_loop (ucast (c - 48)) p = Some (v, [])"
    from string2ll_loop_sound [OF this] have "\<forall>d \<in> set p. is_digit d" "unat v = digits_val 0 (c # p)"
      unfolding u by simp_all
    then have "dec_nat (unat v) = c # p" using dec_nat_digits_val [OF c] by metis
    moreover have "v \<noteq> 0"
    proof
      assume "v = 0"
      then have "c # p = [48]" using \<open>dec_nat (unat v) = c # p\<close> by (simp add: dec_nat.simps)
      with c(2) show False by simp
    qed
    ultimately show "c # p = dec_nat (unat v) \<and> v \<noteq> 0" by simp
  }
  {
    assume *: "c # p = dec_nat (unat v) \<and> v \<noteq> 0"
    then have "\<forall>d \<in> set p. is_digit d" using is_digit_dec_nat by (metis list.set_intros(2))
    moreover have "digits_val (digit_val c) p = unat v"
      using * digits_val_dec_nat [of "unat v"] by (metis digits_val_simps(2) add_0 mult_0_right)
    moreover have "unat v < 2 ^ 64" using unat_u64_less [of v] by simp
    ultimately show "string2ll_loop (ucast (c - 48)) p = Some (v, [])"
      using string2ll_loop_complete [of p "ucast (c - 48)"] unfolding u by simp
  }
qed

lemma sint_uminus_magnitude:
  fixes w :: s64
  assumes "w \<noteq> 0" "unat w \<le> 2 ^ 63"
  shows "sint (- w) = - int (unat w)"
proof -
  have "int (unat w) \<le> int (2 ^ 63)" using assms(2) by (simp only: of_nat_le_iff)
  then have w: "uint w \<noteq> 0" "uint w \<le> 2 ^ 63" "uint w < 2 ^ 64"
    using assms(1) uint_lt2p [of w] by (simp_all add: uint_0_iff)
  then have "uint (- w) = 2 ^ 64 - uint w"
    by (simp add: uint_word_ariths zmod_zminus1_eq_if)
  with w uint_of_sint [of "- w"] sint_s64_bounds [of "- w"] show ?thesis
    by (simp split: if_splits)
qed

lemma sint_magnitude:
  fixes w :: s64
  assumes "unat w < 2 ^ 63"
  shows "sint w = int (unat w)"
proof -
  have "int (unat w) < int (2 ^ 63)" using assms by (simp only: of_nat_less_iff)
  then have "uint w < 2 ^ 63" by simp
  with uint_of_sint [of w] sint_s64_bounds [of w] show ?thesis by (simp split: if_splits)
qed

lemma string2ll_negative:
  "string2ll (45 # c # p) =
    (if 49 \<le> c \<and> c \<le> 57 then
       (case string2ll_loop (ucast (c - 48)) p of
          Some (w, []) \<Rightarrow> if unat w \<le> 2 ^ 63 then Some (- w) else None
        | _ \<Rightarrow> None)
     else None)"
  by (auto simp: string2ll_def word_less_nat_alt split: option.splits list.splits)

lemma string2ll_nonnegative:
  "c \<noteq> 45 \<Longrightarrow> string2ll (c # p) =
    (if p = [] \<and> c = 48 then Some 0
     else if 49 \<le> c \<and> c \<le> 57 then
       (case string2ll_loop (ucast (c - 48)) p of
          Some (w, []) \<Rightarrow> if unat w < 2 ^ 63 then Some w else None
        | _ \<Rightarrow> None)
     else None)"
  by (auto simp: string2ll_def word_less_nat_alt split: option.splits list.splits)

lemma dec_nat_ConsE:
  obtains c p where "dec_nat n = c # p" "c \<noteq> 45" "n \<noteq> 0 \<Longrightarrow> 49 \<le> c \<and> c \<le> 57"
proof -
  obtain c p where cp: "dec_nat n = c # p" using dec_nat_nonempty by (meson neq_Nil_conv)
  then have "is_digit c" using is_digit_dec_nat [of c n] by simp
  then have "c \<noteq> 45" by (auto simp: is_digit_def word_le_nat_alt)
  moreover have "49 \<le> c \<and> c \<le> 57" if "n \<noteq> 0"
    using hd_dec_nat [of n] that cp \<open>is_digit c\<close> nonzero_digit_iff by simp
  ultimately show ?thesis using that cp by blast
qed

lemma string2ll_sound:
  assumes "string2ll s = Some v"
  shows "s = dec_int (sint v)"
proof (cases s)
  case Nil
  with assms show ?thesis by (simp add: string2ll_def)
next
  case (Cons c p)
  show ?thesis
  proof (cases "c = 45")
    case True
    with assms Cons obtain d q where p: "p = d # q" by (cases p) (simp_all add: string2ll_def)
    with assms Cons True obtain w where d: "49 \<le> d \<and> d \<le> 57"
      and w: "string2ll_loop (ucast (d - 48)) q = Some (w, [])" "unat w \<le> 2 ^ 63" "v = - w"
      by (auto simp: string2ll_negative split: if_splits option.splits list.splits)
    have m: "d # q = dec_nat (unat w)" "w \<noteq> 0" using string2ll_magnitude [OF d] w(1) by simp_all
    then have "sint v = - int (unat w)" "0 < unat w" using sint_uminus_magnitude w by (simp_all add: unat_gt_0)
    then have "sint v < 0" "nat (- sint v) = unat w" by linarith+
    then show ?thesis using Cons p True m by (simp add: dec_int_def)
  next
    case False
    then show ?thesis
    proof (cases "p = [] \<and> c = 48")
      case True
      with assms Cons False have "v = 0" by (simp add: string2ll_nonnegative)
      with True Cons show ?thesis by (simp add: dec_int_def dec_nat.simps)
    next
      case nz: False
      with assms Cons False obtain w where d: "49 \<le> c \<and> c \<le> 57"
        and w: "string2ll_loop (ucast (c - 48)) p = Some (w, [])" "unat w < 2 ^ 63" "v = w"
        by (auto simp: string2ll_nonnegative split: if_splits option.splits list.splits)
      have "c # p = dec_nat (unat w)" using string2ll_magnitude [OF d] w(1) by simp
      then show ?thesis using Cons sint_magnitude [OF w(2)] w(3) by (simp add: dec_int_def)
    qed
  qed
qed

lemma string2ll_complete: "string2ll (dec_int (sint v)) = Some v"
proof (cases "sint v < 0")
  case True
  have w: "unat (- v) = nat (- sint v)" using True by (rule unat_minus_sint_neg)
  then have nz: "- v \<noteq> 0" "unat (- v) \<noteq> 0" "unat (- v) \<le> 2 ^ 63"
    using True sint_s64_bounds [of v] by (auto simp: unat_0_iff)
  obtain c p where cp: "dec_nat (unat (- v)) = c # p" "49 \<le> c \<and> c \<le> 57"
    using dec_nat_ConsE nz(2) by metis
  then have "string2ll_loop (ucast (c - 48)) p = Some (- v, [])"
    using string2ll_magnitude [OF cp(2)] nz(1) by simp
  then show ?thesis using cp nz(3) True w by (simp add: dec_int_def string2ll_negative)
next
  case False
  then have u: "unat v = nat (sint v)" by (simp add: unat_sint_nonneg)
  obtain c p where cp: "dec_nat (unat v) = c # p" "c \<noteq> 45" "unat v \<noteq> 0 \<Longrightarrow> 49 \<le> c \<and> c \<le> 57"
    using dec_nat_ConsE by metis
  show ?thesis
  proof (cases "v = 0")
    case True
    then show ?thesis by (simp add: dec_int_def dec_nat.simps string2ll_def)
  next
    case nz: False
    then have d: "49 \<le> c \<and> c \<le> 57" using cp(3) by (simp add: unat_0_iff)
    then have "c \<noteq> 48" using nonzero_digit_iff by blast
    moreover have "string2ll_loop (ucast (c - 48)) p = Some (v, [])"
      using string2ll_magnitude [OF d] nz cp(1) by simp
    moreover have "unat v < 2 ^ 63" using False sint_s64_bounds [of v] u by simp
    ultimately show ?thesis
      using cp False d u by (simp add: dec_int_def string2ll_nonnegative)
  qed
qed

lemma length_dec_int: "length (dec_int (sint (v :: s64))) \<le> 20"
proof (cases "sint v < 0")
  case True
  then show ?thesis
    using length_dec_nat_le [of "nat (- sint v)" 18] sint_s64_bounds(1) [of v] by (simp add: dec_int_def)
next
  case False
  then show ?thesis
    using length_dec_nat_le [of "nat (sint v)" 19] sint_s64_bounds(2) [of v]
    by (simp add: dec_int_def)
qed

section \<open>Properties\<close>

text \<open>C16: \<^verbatim>\<open>string2ll\<close> succeeds exactly on the canonical decimal representation of a 64-bit signed
  integer and then stores that integer: no other string is accepted, and none is misread.\<close>

theorem string2ll_canonical: "string2ll s = Some v \<longleftrightarrow> s = dec_int (sint v)"
  using string2ll_sound string2ll_complete by metis

text \<open>C17: For every 64-bit signed integer and every buffer of at least 21 bytes, \<^verbatim>\<open>ll2string\<close> stays
  within the buffer, returns the number of characters, terminates them with a zero byte, leaves the
  rest of the buffer alone, and \<^verbatim>\<open>string2ll\<close> reads the characters back as the same integer.\<close>

theorem ll2string_string2ll_roundtrip:
  assumes "21 \<le> unat dstlen" "unat dstlen \<le> length dst"
  shows "\<exists>n dst'. ll2string dst dstlen v = Some (n, dst') \<and> length dst' = length dst \<and>
    string2ll (take (unat n) dst') = Some v \<and> dst' ! unat n = 0 \<and>
    drop (unat n + 1) dst' = drop (unat n + 1) dst"
proof -
  let ?s = "dec_int (sint v)"
  have len: "length ?s \<le> 20" by (rule length_dec_int)
  then have "ll2string dst dstlen v = Some (word_of_nat (length ?s), ?s @ 0 # drop (length ?s + 1) dst)"
    using assms ll2string_correct [OF assms(2), of v] by simp
  moreover have "unat (word_of_nat (length ?s) :: u32) = length ?s" using len by (simp add: unat_of_nat)
  ultimately show ?thesis using len assms by (simp add: string2ll_complete)
qed

theorem ll2string_string2ll_roundtrip_witness:
  "\<exists>n dst'. ll2string (replicate 32 7) 32 (- 12345) = Some (n, dst') \<and> length dst' = 32 \<and>
    string2ll (take (unat n) dst') = Some (- 12345) \<and> dst' ! unat n = 0 \<and>
    drop (unat n + 1) dst' = drop (unat n + 1) (replicate 32 7)"
  using ll2string_string2ll_roundtrip [of 32 "replicate 32 7" "- 12345"] by simp

lemma sdigits10_length: "unat (sdigits10 v) = length (dec_int (sint v))"
proof -
  have "unat (digits10 w + 1) = length (dec_nat (unat w)) + 1" for w
    using digits10_bounds(2) [of w] by (simp add: unat_word_ariths digits10_length)
  then show ?thesis
    by (simp add: sdigits10_def dec_int_def Let_def digits10_length unat_minus_sint_neg unat_sint_nonneg
        del: magnitude_eq)
qed

text \<open>C18: \<^verbatim>\<open>digits10\<close> and \<^verbatim>\<open>sdigits10\<close> return the exact number of characters of the decimal
  representation, for every 64-bit value.\<close>

theorem digits10_sdigits10_exact:
  "unat (digits10 u) = length (dec_nat (unat u)) \<and> unat (sdigits10 v) = length (dec_int (sint v))"
  by (simp add: digits10_length sdigits10_length)

end
