(* ===== verification/Util_Match.thy ===== *)
theory Util_Match
  imports Redis_Prelude "HOL-Library.Sublist"
begin

text \<open>
  Models the glob matcher of \<^verbatim>\<open>src/util.c\<close> (\<^verbatim>\<open>stringmatchlen_impl\<close>, \<^verbatim>\<open>stringmatchlen\<close>,
  \<^verbatim>\<open>stringmatch\<close>), used by KEYS, SCAN, PSUBSCRIBE and CONFIG GET.

  A pattern or string pointer with its length is the list of the bytes still to be read. The byte
  after the last one is the terminating zero of a C string, which the code does read (\<open>peek\<close>).
  \<^verbatim>\<open>*skipLongerMatches\<close> is threaded through as a Boolean. \<open>glob\<close> is the reference semantics without
  the early termination.
\<close>

section \<open>The matcher\<close>

definition peek :: "bytes \<Rightarrow> byte" where
  "peek p = (case p of [] \<Rightarrow> 0 | c # _ \<Rightarrow> c)"

text \<open>\<^verbatim>\<open>tolower\<close> of the C library in the default locale, on the value of a (signed) \<^verbatim>\<open>char\<close>.\<close>

definition tolower :: "int \<Rightarrow> int" where
  "tolower c = (if 65 \<le> c \<and> c \<le> 90 then c + 32 else c)"

definition char_eq :: "bool \<Rightarrow> byte \<Rightarrow> byte \<Rightarrow> bool" where
  "char_eq nocase a b = (if nocase then tolower (sint a) = tolower (sint b) else a = b)"

text \<open>A range \<^verbatim>\<open>a-b\<close> of a character class against the character \<open>c\<close>.\<close>

definition in_range :: "bool \<Rightarrow> byte \<Rightarrow> byte \<Rightarrow> byte \<Rightarrow> bool" where
  "in_range nocase a b c =
     (let start = sint a; end = sint b; x = sint c;
          (start, end) = (if start > end then (end, start) else (start, end));
          (start, end, x) = (if nocase then (tolower start, tolower end, tolower x) else (start, end, x))
      in x \<ge> start \<and> x \<le> end)"

text \<open>The inner loop of the case \<^verbatim>\<open>'['\<close>. The result is the value of \<^verbatim>\<open>match\<close> and the pattern after the
  closing bracket; an unclosed class ends with the pattern.\<close>

fun match_class :: "bool \<Rightarrow> byte \<Rightarrow> bool \<Rightarrow> bytes \<Rightarrow> bool \<times> bytes" where
  "match_class nocase c m [] = (m, [])"
| "match_class nocase c m [x] = (if x = 93 then (m, []) else (m \<or> char_eq nocase x c, []))"
| "match_class nocase c m (x # y # p) =
     (if x = 92 then match_class nocase c (m \<or> y = c) p
      else if x = 93 then (m, y # p)
      else case p of
        z # p' \<Rightarrow> if y = 45 then match_class nocase c (m \<or> in_range nocase x z c) p'
                 else match_class nocase c (m \<or> char_eq nocase x c) (y # p)
      | [] \<Rightarrow> match_class nocase c (m \<or> char_eq nocase x c) (y # p))"

text \<open>One round of the switch for every case but \<^verbatim>\<open>'*'\<close>: \<open>None\<close> is \<^verbatim>\<open>return 0\<close>, otherwise the pattern
  after the round. The pattern is not empty and \<open>c\<close> is the current character of the string.\<close>

definition match_elem :: "bool \<Rightarrow> bytes \<Rightarrow> byte \<Rightarrow> bytes option" where
  "match_elem nocase p c =
     (if peek p = 63 then Some (tl p)
      else if peek p = 91 then
        (let p = tl p; neg = (peek p = 94); p = (if neg then tl p else p);
             (m, p) = match_class nocase c False p;
             m = (if neg then \<not> m else m)
         in if \<not> m then None else Some p)
      else
        (let p = (if peek p = 92 \<and> length p \<ge> 2 then tl p else p) in
         if char_eq nocase (peek p) c then Some (tl p) else None))"

text \<open>\<^verbatim>\<open>while (patternLen && pattern[1] == '*')\<close>: the first byte of the argument is a star.\<close>

fun skip_stars :: "bytes \<Rightarrow> bytes" where
  "skip_stars (x # y # p) = (if y = 42 then skip_stars (y # p) else x # y # p)"
| "skip_stars p = p"

declare match_class.simps(3) [simp del]

lemma length_match_class: "length (snd (match_class nocase c m p)) \<le> length p"
proof (induction nocase c m p rule: match_class.induct)
  case (3 nocase c m x y p)
  then show ?case
    by (subst match_class.simps(3)) (auto split: list.splits intro: le_SucI)
qed auto

lemma length_match_elem: "p \<noteq> [] \<Longrightarrow> match_elem nocase p c = Some q \<Longrightarrow> length q < length p"
  using length_match_class [of nocase c False "tl p"] length_match_class [of nocase c False "tl (tl p)"]
  by (cases p) (auto simp: match_elem_def Let_def split: if_splits prod.splits)

lemma length_skip_stars: "length (skip_stars p) \<le> length p"
  by (induction p rule: skip_stars.induct) auto

text \<open>\<open>stringmatchlen_impl\<close> is the function; \<open>match_star\<close> is the loop of its case \<^verbatim>\<open>'*'\<close>, with the
  pattern already advanced past the star. Results: the return value and \<^verbatim>\<open>*skipLongerMatches\<close>.\<close>

function (sequential) stringmatchlen_impl :: "bool \<Rightarrow> bytes \<Rightarrow> bytes \<Rightarrow> bool \<Rightarrow> bool \<times> bool"
  and match_star :: "bool \<Rightarrow> bytes \<Rightarrow> bytes \<Rightarrow> bool \<Rightarrow> bool \<times> bool" where
  "stringmatchlen_impl nocase [] s skip = (s = [], skip)"
| "stringmatchlen_impl nocase (x # p) [] skip = (False, skip)"
| "stringmatchlen_impl nocase (x # p) (c # s) skip =
     (if x = 42 then
        (let p = skip_stars (x # p) in
         if length p = 1 then (True, skip)
         else match_star nocase (tl p) (c # s) skip)
      else case match_elem nocase (x # p) c of
        None \<Rightarrow> (False, skip)
      | Some q \<Rightarrow>
          if s = [] then (dropWhile (\<lambda>x. x = 42) q = [], skip)
          else stringmatchlen_impl nocase q s skip)"
| "match_star nocase p [] skip = (False, True)"
| "match_star nocase p (c # s) skip =
     (let (r, skip) = stringmatchlen_impl nocase p (c # s) skip in
      if r then (True, skip)
      else if skip then (False, skip)
      else match_star nocase p s skip)"
  by pat_completeness auto
termination
proof (relation "measure (\<lambda>x. case x of
    Inl (nocase, p, s, skip) \<Rightarrow> 2 * (length p + length s)
  | Inr (nocase, p, s, skip) \<Rightarrow> 2 * (length p + length s) + 1)", goal_cases)
  case (2 nocase x p c s skip q)
  have "length (skip_stars (x # p)) \<le> length (x # p)" by (rule length_skip_stars)
  then show ?case using 2 by (cases "skip_stars (x # p)") auto
next
  case (3 nocase x p c s skip q)
  then have "length q < length (x # p)" using length_match_elem [of "x # p"] by simp
  then show ?case by simp
qed auto

definition stringmatchlen :: "bytes \<Rightarrow> bytes \<Rightarrow> bool \<Rightarrow> bool" where
  "stringmatchlen p s nocase = fst (stringmatchlen_impl nocase p s False)"

text \<open>\<^verbatim>\<open>stringmatch\<close> measures two C strings with \<^verbatim>\<open>strlen\<close>: the bytes before the first zero byte.\<close>

definition stringmatch :: "bytes \<Rightarrow> bytes \<Rightarrow> bool \<Rightarrow> bool" where
  "stringmatch p s nocase =
     stringmatchlen (takeWhile (\<lambda>c. c \<noteq> 0) p) (takeWhile (\<lambda>c. c \<noteq> 0) s) nocase"

section \<open>Reference semantics\<close>

text \<open>The elements of a pattern: a star, which matches any string, and elements that match exactly one character. A class lists single
  characters, escaped characters and ranges.\<close>

datatype glob_item = Single byte | Escaped byte | Between byte byte

datatype glob_elem = Star | Any_char | Char_elem byte | Class bool "glob_item list"

fun parse_class :: "bytes \<Rightarrow> glob_item list \<times> bytes" where
  "parse_class [] = ([], [])"
| "parse_class [x] = (if x = 93 then ([], []) else ([Single x], []))"
| "parse_class [x, y] =
     (if x = 93 then ([], [y]) else if x = 92 then ([Escaped y], []) else apfst (Cons (Single x)) (parse_class [y]))"
| "parse_class (x # y # z # p) =
     (if x = 93 then ([], y # z # p)
      else if x = 92 then apfst (Cons (Escaped y)) (parse_class (z # p))
      else if y = 45 then apfst (Cons (Between x z)) (parse_class p)
      else apfst (Cons (Single x)) (parse_class (y # z # p)))"

lemma length_parse_class: "length (snd (parse_class p)) \<le> length p"
  by (induction p rule: parse_class.induct) auto

function parse_glob :: "bytes \<Rightarrow> glob_elem list" where
  "parse_glob p =
     (case p of
        [] \<Rightarrow> []
      | x # p \<Rightarrow>
          if x = 42 then Star # parse_glob p
          else if x = 63 then Any_char # parse_glob p
          else if x = 91 then
            if p \<noteq> [] \<and> hd p = 94 then Class True (fst (parse_class (tl p))) # parse_glob (snd (parse_class (tl p)))
            else Class False (fst (parse_class p)) # parse_glob (snd (parse_class p))
          else if x = 92 \<and> p \<noteq> [] then Char_elem (hd p) # parse_glob (tl p)
          else Char_elem x # parse_glob p)"
  by pat_completeness auto
termination
proof (relation "measure length", goal_cases)
  case (4 p x p')
  then show ?case using length_parse_class [of "tl p'"] by simp
next
  case (5 p x p')
  then show ?case using length_parse_class [of p'] by simp
qed auto

declare parse_glob.simps [simp del]

text \<open>Characters are compared by the value of their (signed) \<^verbatim>\<open>char\<close>, in lower case if case is ignored; an escaped character of a class always
  stands for itself.\<close>

definition char_val :: "bool \<Rightarrow> byte \<Rightarrow> int" where
  "char_val nocase c = (if nocase then tolower (sint c) else sint c)"

fun item_matches :: "bool \<Rightarrow> byte \<Rightarrow> glob_item \<Rightarrow> bool" where
  "item_matches nocase c (Single x) \<longleftrightarrow> char_val nocase c = char_val nocase x"
| "item_matches nocase c (Escaped x) \<longleftrightarrow> c = x"
| "item_matches nocase c (Between x y) \<longleftrightarrow>
     (if sint x \<le> sint y then char_val nocase c \<in> {char_val nocase x..char_val nocase y}
      else char_val nocase c \<in> {char_val nocase y..char_val nocase x})"

fun elem_matches :: "bool \<Rightarrow> byte \<Rightarrow> glob_elem \<Rightarrow> bool" where
  "elem_matches nocase c Star \<longleftrightarrow> False"
| "elem_matches nocase c Any_char \<longleftrightarrow> True"
| "elem_matches nocase c (Char_elem x) \<longleftrightarrow> char_val nocase c = char_val nocase x"
| "elem_matches nocase c (Class neg items) \<longleftrightarrow> list_ex (item_matches nocase c) items \<noteq> neg"

fun glob_match :: "bool \<Rightarrow> glob_elem list \<Rightarrow> bytes \<Rightarrow> bool" where
  "glob_match nocase [] s \<longleftrightarrow> s = []"
| "glob_match nocase (e # es) [] \<longleftrightarrow> e = Star \<and> glob_match nocase es []"
| "glob_match nocase (e # es) (c # s) \<longleftrightarrow>
     (if e = Star then glob_match nocase es (c # s) \<or> glob_match nocase (e # es) s
      else elem_matches nocase c e \<and> glob_match nocase es s)"

definition glob :: "bool \<Rightarrow> bytes \<Rightarrow> bytes \<Rightarrow> bool" where
  "glob nocase p s = glob_match nocase (parse_glob p) s"

section \<open>Lemmas on pattern elements\<close>

declare stringmatchlen_impl.simps(3) [simp del]

text \<open>The code scans a class while it matches; the reference reads the pattern first.\<close>

lemma char_eq_val: "char_eq nocase x c \<longleftrightarrow> char_val nocase c = char_val nocase x"
  using word_eq_iff_signed [of c x] by (auto simp: char_eq_def char_val_def)

lemma in_range_item: "in_range nocase x y c \<longleftrightarrow> item_matches nocase c (Between x y)"
  by (auto simp: in_range_def char_val_def Let_def)

lemma match_class_parse:
  "match_class nocase c m p = (m \<or> list_ex (item_matches nocase c) (fst (parse_class p)), snd (parse_class p))"
proof (induction p arbitrary: m rule: parse_class.induct)
  case (2 x)
  then show ?case by (simp add: char_eq_val)
next
  case (3 x y)
  then show ?case by (auto simp: match_class.simps(3) char_eq_val)
next
  case (4 x y z p)
  show ?case using 4
    by (auto simp: match_class.simps(3) [of nocase c m x y "z # p"] parse_class.simps(4) [of x y z p] char_eq_val in_range_item simp del: parse_class.simps)
qed simp

lemma parse_glob_Nil: "parse_glob [] = []"
  by (subst parse_glob.simps) simp

lemma parse_glob_Cons:
  "parse_glob (x # p) =
     (if x = 42 then Star # parse_glob p
      else if x = 63 then Any_char # parse_glob p
      else if x = 91 then
        if p \<noteq> [] \<and> hd p = 94 then Class True (fst (parse_class (tl p))) # parse_glob (snd (parse_class (tl p)))
        else Class False (fst (parse_class p)) # parse_glob (snd (parse_class p))
      else if x = 92 \<and> p \<noteq> [] then Char_elem (hd p) # parse_glob (tl p)
      else Char_elem x # parse_glob p)"
  by (subst parse_glob.simps) simp

lemma peek_Cons: "peek (x # p) = x"
  by (simp add: peek_def)

lemma match_elem_parse:
  assumes "x \<noteq> 42"
  shows "\<exists>e q. parse_glob (x # p) = e # parse_glob q \<and> e \<noteq> Star \<and>
    (\<forall>c. match_elem nocase (x # p) c = (if elem_matches nocase c e then Some q else None))"
proof -
  consider (any) "x = 63" | (neg) "x = 91" "p \<noteq> [] \<and> hd p = 94" | (pos) "x = 91" "\<not> (p \<noteq> [] \<and> hd p = 94)"
    | (esc) "x = 92" "p \<noteq> []" | (char) "x \<noteq> 63" "x \<noteq> 91" "\<not> (x = 92 \<and> p \<noteq> [])" by blast
  then show ?thesis
  proof cases
    case any
    then show ?thesis by (intro exI [of _ Any_char] exI [of _ p]) (simp add: parse_glob_Cons match_elem_def peek_Cons)
  next
    case neg
    then have "peek p = 94" by (cases p) (auto simp: peek_def)
    then have "parse_glob (x # p) = Class True (fst (parse_class (tl p))) # parse_glob (snd (parse_class (tl p)))"
      "match_elem nocase (x # p) c = (if elem_matches nocase c (Class True (fst (parse_class (tl p)))) then Some (snd (parse_class (tl p))) else None)" for c
      using neg by (simp_all add: parse_glob_Cons match_elem_def peek_Cons match_class_parse Let_def)
    then show ?thesis by blast
  next
    case pos
    then have "peek p \<noteq> 94" by (cases p) (auto simp: peek_def)
    then have "parse_glob (x # p) = Class False (fst (parse_class p)) # parse_glob (snd (parse_class p))"
      "match_elem nocase (x # p) c = (if elem_matches nocase c (Class False (fst (parse_class p))) then Some (snd (parse_class p)) else None)" for c
      using pos by (simp_all add: parse_glob_Cons match_elem_def peek_Cons match_class_parse Let_def)
    then show ?thesis by blast
  next
    case esc
    then have "parse_glob (x # p) = Char_elem (hd p) # parse_glob (tl p)"
      "match_elem nocase (x # p) c = (if elem_matches nocase c (Char_elem (hd p)) then Some (tl p) else None)" for c
      by (cases p; simp add: parse_glob_Cons match_elem_def peek_def char_eq_val)+
    then show ?thesis by blast
  next
    case char
    then have "parse_glob (x # p) = Char_elem x # parse_glob p"
      "match_elem nocase (x # p) c = (if elem_matches nocase c (Char_elem x) then Some p else None)" for c
      using assms by (auto simp: parse_glob_Cons match_elem_def peek_Cons char_eq_val)
    then show ?thesis by blast
  qed
qed

lemma glob_Nil [simp]: "glob nocase [] s \<longleftrightarrow> s = []"
  by (simp add: glob_def parse_glob_Nil)

lemma glob_rec:
  "glob nocase (x # p) s =
     (if x = 42 then glob nocase p s \<or> (case s of [] \<Rightarrow> False | c # t \<Rightarrow> glob nocase (x # p) t)
      else case s of
        [] \<Rightarrow> False
      | c # t \<Rightarrow> (case match_elem nocase (x # p) c of None \<Rightarrow> False | Some q \<Rightarrow> glob nocase q t))"
proof (cases "x = 42")
  case True
  then have "parse_glob (x # p) = Star # parse_glob p" by (simp add: parse_glob_Cons)
  then show ?thesis using True by (cases s) (auto simp: glob_def)
next
  case False
  obtain e q where e: "parse_glob (x # p) = e # parse_glob q" "e \<noteq> Star"
    "match_elem nocase (x # p) c = (if elem_matches nocase c e then Some q else None)" for c
    using match_elem_parse [OF False, of p nocase] by blast
  then show ?thesis using False by (cases s) (simp_all add: glob_def)
qed

text \<open>How much of the pattern an element takes does not depend on the character it is tried on.\<close>

lemma snd_match_class: "snd (match_class nocase c m p) = snd (match_class nocase d m' p)"
proof (induction nocase c m p arbitrary: m' rule: match_class.induct)
  case (3 nocase c m x y p)
  show ?case
    unfolding match_class.simps(3) [of nocase c m x y p] match_class.simps(3) [of nocase d m' x y p]
    using 3 by (cases p) auto
qed simp_all

lemma match_elem_rest: "match_elem nocase p c = Some q \<Longrightarrow> match_elem nocase p d = Some q' \<Longrightarrow> q = q'"
  using snd_match_class [of nocase c False "tl p" d False] snd_match_class [of nocase c False "tl (tl p)" d False]
  by (auto simp: match_elem_def Let_def split: if_splits prod.splits)

lemma skip_stars_star: "skip_stars (42 # p) = 42 # dropWhile (\<lambda>x. x = 42) p"
  by (induction p) auto

section \<open>Lemmas on the reference semantics\<close>

lemma glob_star_iff: "glob nocase (42 # p) s \<longleftrightarrow> (\<exists>t. suffix t s \<and> glob nocase p t)"
proof (induction s)
  case Nil
  then show ?case by (simp add: glob_rec)
next
  case (Cons c s)
  have "glob nocase (42 # p) (c # s) \<longleftrightarrow> glob nocase p (c # s) \<or> glob nocase (42 # p) s"
    by (subst glob_rec) simp
  with Cons show ?case by (auto simp: suffix_Cons)
qed

lemma glob_star_star: "glob nocase (42 # 42 # p) s \<longleftrightarrow> glob nocase (42 # p) s"
  unfolding glob_star_iff [of nocase "42 # p"] glob_star_iff [of nocase p] 
  by (meson suffix_order.order_refl suffix_order.trans)

lemma glob_dropWhile: "glob nocase (42 # dropWhile (\<lambda>x. x = 42) p) s \<longleftrightarrow> glob nocase (42 # p) s"
  by (induction p) (auto simp: glob_star_star)

lemma glob_Nil_iff: "glob nocase p [] \<longleftrightarrow> dropWhile (\<lambda>x. x = 42) p = []"
  by (induction p) (auto simp: glob_rec)

lemma glob_elem_Cons:
  "x \<noteq> 42 \<Longrightarrow> glob nocase (x # p) (c # s) \<longleftrightarrow>
    (\<exists>q. match_elem nocase (x # p) c = Some q \<and> glob nocase q s)"
  by (subst glob_rec) (auto split: option.splits)

section \<open>The early termination is sound\<close>

definition impl_ok :: "bool \<Rightarrow> bytes \<Rightarrow> bytes \<Rightarrow> bool \<times> bool \<Rightarrow> bool" where
  "impl_ok nocase p s res \<longleftrightarrow>
     (fst res \<longleftrightarrow> (if s = [] then p = [] else glob nocase p s)) \<and>
     (\<not> fst res \<and> snd res \<longrightarrow> (\<forall>t. suffix t s \<longrightarrow> \<not> glob nocase p t))"

definition star_ok :: "bool \<Rightarrow> bytes \<Rightarrow> bytes \<Rightarrow> bool \<times> bool \<Rightarrow> bool" where
  "star_ok nocase p s res \<longleftrightarrow>
     (fst res \<longleftrightarrow> (\<exists>t. suffix t s \<and> glob nocase p t)) \<and> (\<not> fst res \<longrightarrow> snd res)"

lemma impl_ok_elem:
  assumes "x \<noteq> 42" "match_elem nocase (x # p) c = Some q" "impl_ok nocase q s res" "s \<noteq> []"
  shows "impl_ok nocase (x # p) (c # s) res"
proof -
  have "\<not> glob nocase (x # p) t" if neg: "\<not> fst res \<and> snd res" and t: "suffix t (c # s)" for t
  proof (cases t)
    case Nil
    with assms(1) show ?thesis by (simp add: glob_rec)
  next
    case (Cons d u)
    with t have "suffix u s" by (auto simp: suffix_Cons dest: suffix_ConsD)
    with neg assms(3) have "\<not> glob nocase q u" by (simp add: impl_ok_def)
    then show ?thesis
      using Cons assms(1) match_elem_rest [OF assms(2)] by (auto simp: glob_elem_Cons)
  qed
  moreover have "fst res \<longleftrightarrow> glob nocase (x # p) (c # s)"
    using assms by (simp add: impl_ok_def glob_elem_Cons)
  ultimately show ?thesis by (auto simp: impl_ok_def)
qed

lemma impl_ok_star:
  assumes "skip_stars (42 # p) = 42 # q" "q \<noteq> []" "star_ok nocase q s res" "s \<noteq> []"
  shows "impl_ok nocase (42 # p) s res"
proof -
  have g: "glob nocase (42 # p) t \<longleftrightarrow> (\<exists>u. suffix u t \<and> glob nocase q u)" for t
    using assms(1) glob_dropWhile [of nocase p t] by (simp add: skip_stars_star glob_star_iff)
  show ?thesis
    using assms(3,4) unfolding impl_ok_def star_ok_def g by (meson suffix_order.trans)
qed

lemma stringmatchlen_ok:
  "\<not> skip \<Longrightarrow> impl_ok nocase p s (stringmatchlen_impl nocase p s skip)"
  "\<not> skip' \<Longrightarrow> p' \<noteq> [] \<Longrightarrow> hd p' \<noteq> 42 \<Longrightarrow> star_ok nocase' p' s' (match_star nocase' p' s' skip')"
proof (induction nocase p s skip and nocase' p' s' skip' rule: stringmatchlen_impl_match_star.induct)
  case (1 nocase s skip)
  then show ?case by (auto simp: impl_ok_def)
next
  case (2 nocase x p skip)
  then show ?case by (simp add: impl_ok_def)
next
  case (3 nocase x p c s skip)
  show ?case
  proof (cases "x = 42")
    case True
    define q where "q = dropWhile (\<lambda>x. x = 42) p"
    have q: "skip_stars (42 # p) = 42 # q" by (simp add: q_def skip_stars_star)
    show ?thesis
    proof (cases "q = []")
      case True
      then have "glob nocase (42 # p) (c # s)"
        using glob_dropWhile [of nocase p "c # s"] glob_star_iff [of nocase "[]" "c # s"]
        unfolding q_def [symmetric] by auto
      then show ?thesis using True q \<open>x = 42\<close> by (simp add: stringmatchlen_impl.simps(3) impl_ok_def)
    next
      case False
      then have "hd q \<noteq> 42" using hd_dropWhile [of "\<lambda>x. x = 42" p] by (auto simp: q_def)
      then have "star_ok nocase q (c # s) (match_star nocase q (c # s) skip)"
        using "3.IH"(1) True q False "3.prems" by simp
      from impl_ok_star [OF q False this] show ?thesis
        using True q False by (simp add: stringmatchlen_impl.simps(3))
    qed
  next
    case False
    show ?thesis
    proof (cases "match_elem nocase (x # p) c")
      case None
      with False "3.prems" show ?thesis
        by (simp add: stringmatchlen_impl.simps(3) impl_ok_def glob_elem_Cons)
    next
      case (Some q)
      show ?thesis
      proof (cases "s = []")
        case True
        with False Some "3.prems" show ?thesis
          by (simp add: stringmatchlen_impl.simps(3) impl_ok_def glob_elem_Cons glob_Nil_iff)
      next
        case s: False
        then have "impl_ok nocase q s (stringmatchlen_impl nocase q s skip)"
          using "3.IH"(2) False Some "3.prems" by simp
        from impl_ok_elem [OF False Some this s] show ?thesis
          using False Some s by (simp add: stringmatchlen_impl.simps(3))
      qed
    qed
  qed
next
  case (4 nocase p skip)
  then show ?case by (cases p) (auto simp: star_ok_def glob_Nil_iff)
next
  case (5 nocase p c s skip)
  obtain r sk where res: "stringmatchlen_impl nocase p (c # s) skip = (r, sk)" by fastforce
  have ok: "impl_ok nocase p (c # s) (r, sk)" using "5.IH"(1) "5.prems" res by simp
  show ?case
  proof (cases "r \<or> sk")
    case True
    then show ?thesis using ok res by (auto simp: star_ok_def impl_ok_def)
  next
    case False
    then have "star_ok nocase p s (match_star nocase p s sk)"
      using "5.IH"(2) [OF res [symmetric] refl] "5.prems" by simp
    then show ?thesis using False ok res by (auto simp: star_ok_def impl_ok_def suffix_Cons)
  qed
qed

section \<open>Properties\<close>

text \<open>C19: On a non-empty string \<^verbatim>\<open>stringmatchlen\<close> decides exactly the reference glob semantics, so cutting
  the search short with \<^verbatim>\<open>skipLongerMatches\<close> never loses a match. The empty string is special: the
  main loop is not entered, so only the empty pattern matches it and even the pattern \<^verbatim>\<open>*\<close> does
  not.\<close>

theorem stringmatchlen_glob:
  "stringmatchlen p s nocase \<longleftrightarrow> (if s = [] then p = [] else glob nocase p s)"
  using stringmatchlen_ok(1) [of False nocase p s] by (simp add: stringmatchlen_def impl_ok_def)

text \<open>The pattern \<^verbatim>\<open>*\<close> matches every string but the empty one.\<close>

lemma stringmatchlen_star: "stringmatchlen [42] s nocase \<longleftrightarrow> s \<noteq> []"
  using stringmatchlen_ok(1) [of False nocase "[42]" s] glob_star_iff [of nocase "[]" s]
  by (auto simp: stringmatchlen_def impl_ok_def)

end
