(* ===== verification/Sds.thy ===== *)
theory Sds
  imports Redis_Prelude "HOL-Library.List_Lexorder"
begin

text \<open>
  Models the core of \<^verbatim>\<open>src/sds.c\<close> and \<^verbatim>\<open>src/sds.h\<close>, the dynamic strings used everywhere in Redis.

  An sds is a header followed by a buffer. The record \<open>sds\<close> holds the header's type, its \<^verbatim>\<open>len\<close> and
  \<^verbatim>\<open>alloc\<close> fields and the bytes from the string pointer to the end of the allocation. A field is
  written modulo its width, as the C assignment does; for \<^verbatim>\<open>SDS_TYPE_5\<close> the length lives in the
  upper five bits of the flags byte and there is no \<^verbatim>\<open>alloc\<close> field. Sizes are natural numbers; where
  \<^verbatim>\<open>size_t\<close> arithmetic can wrap, the reduction modulo \<open>2 ^ 64\<close> is written out.

  The allocator is a parameter: it hands out \<open>alloc_slack n\<close> bytes more than the \<open>n\<close> requested,
  filled with arbitrary bytes \<open>alloc_junk\<close>. \<^verbatim>\<open>zmalloc\<close> aborts the process when memory is exhausted, so
  there is always a block. A result \<open>None\<close> is an aborted process (a failed assertion) or an access
  outside of the buffer.
\<close>

section \<open>Data\<close>

datatype sds_type = SDS_TYPE_5 | SDS_TYPE_8 | SDS_TYPE_16 | SDS_TYPE_32 | SDS_TYPE_64

record sds =
  sds_type :: sds_type
  hdr_len :: nat
  hdr_alloc :: nat
  sds_buf :: bytes

record allocator =
  alloc_slack :: "nat \<Rightarrow> nat"
  alloc_junk :: "nat \<Rightarrow> byte"
  use_jemalloc :: bool

fun sds_type_code :: "sds_type \<Rightarrow> nat" where
  "sds_type_code SDS_TYPE_5 = 0"
| "sds_type_code SDS_TYPE_8 = 1"
| "sds_type_code SDS_TYPE_16 = 2"
| "sds_type_code SDS_TYPE_32 = 3"
| "sds_type_code SDS_TYPE_64 = 4"

text \<open>Width of the length field of each header.\<close>

fun sds_type_bits :: "sds_type \<Rightarrow> nat" where
  "sds_type_bits SDS_TYPE_5 = 5"
| "sds_type_bits SDS_TYPE_8 = 8"
| "sds_type_bits SDS_TYPE_16 = 16"
| "sds_type_bits SDS_TYPE_32 = 32"
| "sds_type_bits SDS_TYPE_64 = 64"

fun sdsHdrSize :: "sds_type \<Rightarrow> nat" where
  "sdsHdrSize SDS_TYPE_5 = 1"
| "sdsHdrSize SDS_TYPE_8 = 3"
| "sdsHdrSize SDS_TYPE_16 = 5"
| "sdsHdrSize SDS_TYPE_32 = 9"
| "sdsHdrSize SDS_TYPE_64 = 17"

definition sdsReqType :: "nat \<Rightarrow> sds_type" where
  "sdsReqType string_size =
     (if string_size < 2 ^ 5 then SDS_TYPE_5
      else if string_size < 2 ^ 8 then SDS_TYPE_8
      else if string_size < 2 ^ 16 then SDS_TYPE_16
      else if string_size < 2 ^ 32 then SDS_TYPE_32
      else SDS_TYPE_64)"

fun sdsTypeMaxSize :: "sds_type \<Rightarrow> nat" where
  "sdsTypeMaxSize SDS_TYPE_5 = 2 ^ 5 - 1"
| "sdsTypeMaxSize SDS_TYPE_8 = 2 ^ 8 - 1"
| "sdsTypeMaxSize SDS_TYPE_16 = 2 ^ 16 - 1"
| "sdsTypeMaxSize SDS_TYPE_32 = 2 ^ 32 - 1"
| "sdsTypeMaxSize SDS_TYPE_64 = 2 ^ 64 - 1"

section \<open>Header access\<close>

definition sdslen :: "sds \<Rightarrow> nat" where
  "sdslen s = hdr_len s"

text \<open>The subtraction is done in \<^verbatim>\<open>int\<close> for the two small headers and in the field's own unsigned type
  for the large ones, then converted to \<^verbatim>\<open>size_t\<close>.\<close>

definition wrap_sub :: "nat \<Rightarrow> nat \<Rightarrow> nat \<Rightarrow> nat" where
  "wrap_sub w a b = (a + 2 ^ w - b) mod 2 ^ w"

definition sdsavail :: "sds \<Rightarrow> nat" where
  "sdsavail s =
     (case sds_type s of
        SDS_TYPE_5 \<Rightarrow> 0
      | SDS_TYPE_8 \<Rightarrow> wrap_sub 64 (hdr_alloc s) (hdr_len s)
      | SDS_TYPE_16 \<Rightarrow> wrap_sub 64 (hdr_alloc s) (hdr_len s)
      | SDS_TYPE_32 \<Rightarrow> wrap_sub 32 (hdr_alloc s) (hdr_len s)
      | SDS_TYPE_64 \<Rightarrow> wrap_sub 64 (hdr_alloc s) (hdr_len s))"

definition sdssetlen :: "sds \<Rightarrow> nat \<Rightarrow> sds" where
  "sdssetlen s newlen = s\<lparr>hdr_len := newlen mod 2 ^ sds_type_bits (sds_type s)\<rparr>"

definition sdsinclen :: "sds \<Rightarrow> nat \<Rightarrow> sds" where
  "sdsinclen s inc = s\<lparr>hdr_len := (hdr_len s + inc) mod 2 ^ sds_type_bits (sds_type s)\<rparr>"

definition sdsalloc :: "sds \<Rightarrow> nat" where
  "sdsalloc s = (if sds_type s = SDS_TYPE_5 then hdr_len s else hdr_alloc s)"

definition sdssetalloc :: "sds \<Rightarrow> nat \<Rightarrow> sds" where
  "sdssetalloc s newlen =
     (if sds_type s = SDS_TYPE_5 then s
      else s\<lparr>hdr_alloc := newlen mod 2 ^ sds_type_bits (sds_type s)\<rparr>)"

text \<open>A store \<^verbatim>\<open>s[i] = c\<close> and a copy \<^verbatim>\<open>memcpy(s + i, t, len)\<close> into the buffer.\<close>

definition buf_put :: "sds \<Rightarrow> nat \<Rightarrow> byte \<Rightarrow> sds option" where
  "buf_put s i c = do { b \<leftarrow> mem_put (sds_buf s) i c; Some (s\<lparr>sds_buf := b\<rparr>) }"

definition buf_write :: "sds \<Rightarrow> nat \<Rightarrow> bytes \<Rightarrow> sds option" where
  "buf_write s i t = do { b \<leftarrow> mem_write (sds_buf s) i t; Some (s\<lparr>sds_buf := b\<rparr>) }"

section \<open>Allocation\<close>

text \<open>The contents of a block fresh from the allocator.\<close>

definition fresh_block :: "allocator \<Rightarrow> nat \<Rightarrow> bytes" where
  "fresh_block A n = map (alloc_junk A) [0 ..< n]"

definition assert_opt :: "bool \<Rightarrow> unit option" where
  "assert_opt b = (if b then Some () else None)"

text \<open>What the argument \<^verbatim>\<open>init\<close> points to.\<close>

datatype sds_init = Init bytes | Init_NULL | SDS_NOINIT

text \<open>The inner option is a \<^verbatim>\<open>NULL\<close> return, which only happens when \<^verbatim>\<open>trymalloc\<close> is set and the
  allocator fails (\<open>oom\<close>). \<open>block\<close> is the fresh memory from the string pointer on, already cleared if
  \<^verbatim>\<open>init\<close> is \<^verbatim>\<open>NULL\<close>.\<close>

definition sds_newlen :: "allocator \<Rightarrow> sds_init \<Rightarrow> nat \<Rightarrow> bool \<Rightarrow> bool \<Rightarrow> sds option option" where
  "sds_newlen A init initlen trymalloc oom =
     (let type = sdsReqType initlen;
          type = (if type = SDS_TYPE_5 \<and> initlen = 0 then SDS_TYPE_8 else type);
          hdrlen = sdsHdrSize type
      in do {
        assert_opt ((initlen + hdrlen + 1) mod 2 ^ 64 > initlen);
        if trymalloc \<and> oom then Some None
        else do {
          let request = hdrlen + initlen + 1;
          let usable = request + alloc_slack A request;
          let block = fresh_block A (usable - hdrlen);
          let block = (if init = Init_NULL then replicate (initlen + 1) 0 @ drop (initlen + 1) block else block);
          let usable = usable - hdrlen - 1;
          let usable = (if usable > sdsTypeMaxSize type then sdsTypeMaxSize type else usable);
          let s = \<lparr>sds_type = type, hdr_len = initlen mod 2 ^ sds_type_bits type,
                   hdr_alloc = (if type = SDS_TYPE_5 then 0 else usable mod 2 ^ sds_type_bits type),
                   sds_buf = block\<rparr>;
          s \<leftarrow> (case init of
                 Init t \<Rightarrow> if initlen \<noteq> 0 then do { bs \<leftarrow> mem_read t 0 initlen; buf_write s 0 bs } else Some s
               | _ \<Rightarrow> Some s);
          s \<leftarrow> buf_put s initlen 0;
          Some (Some s) } })"

definition sdsnewlen :: "allocator \<Rightarrow> sds_init \<Rightarrow> nat \<Rightarrow> sds option" where
  "sdsnewlen A init initlen = Option.bind (sds_newlen A init initlen False False) id"

definition sdstrynewlen :: "allocator \<Rightarrow> sds_init \<Rightarrow> nat \<Rightarrow> bool \<Rightarrow> sds option option" where
  "sdstrynewlen A init initlen oom = sds_newlen A init initlen True oom"

definition sdsempty :: "allocator \<Rightarrow> sds option" where
  "sdsempty A = sdsnewlen A (Init []) 0"

definition sdsdup :: "allocator \<Rightarrow> sds \<Rightarrow> sds option" where
  "sdsdup A s = sdsnewlen A (Init (sds_buf s)) (sdslen s)"

definition SDS_MAX_PREALLOC :: nat where
  "SDS_MAX_PREALLOC = 1024 * 1024"

definition sdsMakeRoomFor :: "allocator \<Rightarrow> sds \<Rightarrow> nat \<Rightarrow> sds option" where
  "sdsMakeRoomFor A s addlen =
     (let avail = sdsavail s; oldtype = sds_type s in
      if avail \<ge> addlen then Some s
      else
        (let len = sdslen s;
             newlen = (len + addlen) mod 2 ^ 64;
             reqlen = newlen
         in do {
           assert_opt (newlen > len);
           let newlen = (if newlen < SDS_MAX_PREALLOC then newlen * 2
                         else (newlen + SDS_MAX_PREALLOC) mod 2 ^ 64);
           let type = sdsReqType newlen;
           let type = (if type = SDS_TYPE_5 then SDS_TYPE_8 else type);
           let hdrlen = sdsHdrSize type;
           let request = (hdrlen + newlen + 1) mod 2 ^ 64;
           assert_opt (request > reqlen);
           let usable = request + alloc_slack A request;
           s \<leftarrow> (if oldtype = type then
                  Some (s\<lparr>sds_buf := mem_resize (alloc_junk A) (sds_buf s) (usable - hdrlen)\<rparr>)
                else do {
                  bs \<leftarrow> mem_read (sds_buf s) 0 (len + 1);
                  s \<leftarrow> buf_write (s\<lparr>sds_type := type, sds_buf := fresh_block A (usable - hdrlen)\<rparr>) 0 bs;
                  Some (sdssetlen s len) });
           let usable = usable - hdrlen - 1;
           let usable = (if usable > sdsTypeMaxSize type then sdsTypeMaxSize type else usable);
           Some (sdssetalloc s usable) }))"

text \<open>With jemalloc, \<^verbatim>\<open>je_nallocx(n)\<close> is the size the allocator would use for a request of \<open>n\<close> bytes
  and \<^verbatim>\<open>zmalloc_size\<close> the real size of the present block.\<close>

definition sdsResize :: "allocator \<Rightarrow> sds \<Rightarrow> nat \<Rightarrow> bool \<Rightarrow> sds option" where
  "sdsResize A s newsize would_regrow =
     (let oldtype = sds_type s; oldhdrlen = sdsHdrSize oldtype; len = sdslen s in
      if sdsalloc s = newsize then Some s
      else
        (let len = (if newsize < len then newsize else len);
             type = sdsReqType newsize;
             type = (if would_regrow \<and> type = SDS_TYPE_5 then SDS_TYPE_8 else type);
             hdrlen = sdsHdrSize type;
             use_realloc = (oldtype = type \<or>
               (sds_type_code type < sds_type_code oldtype \<and> sds_type_code type > sds_type_code SDS_TYPE_8));
             newlen = (if use_realloc then (oldhdrlen + newsize + 1) mod 2 ^ 64 else (hdrlen + newsize + 1) mod 2 ^ 64);
             alloc_already_optimal =
               (use_jemalloc A \<and> newlen + alloc_slack A newlen = oldhdrlen + length (sds_buf s));
             real = newlen + alloc_slack A newlen
         in do {
           s \<leftarrow> (if use_realloc \<and> \<not> alloc_already_optimal then
                  Some (s\<lparr>sds_buf := mem_resize (alloc_junk A) (sds_buf s) (real - oldhdrlen)\<rparr>)
                else if \<not> alloc_already_optimal then do {
                  bs \<leftarrow> mem_read (sds_buf s) 0 len;
                  buf_write (s\<lparr>sds_type := type, sds_buf := fresh_block A (real - hdrlen)\<rparr>) 0 bs }
                else Some s);
           s \<leftarrow> buf_put s len 0;
           Some (sdssetalloc (sdssetlen s len) newsize) }))"

definition sdsRemoveFreeSpace :: "allocator \<Rightarrow> sds \<Rightarrow> bool \<Rightarrow> sds option" where
  "sdsRemoveFreeSpace A s would_regrow = sdsResize A s (sdslen s) would_regrow"

definition sdsAllocSize :: "sds \<Rightarrow> nat" where
  "sdsAllocSize s = sdsHdrSize (sds_type s) + sdsalloc s + 1"

section \<open>Operations on the contents\<close>

definition sdsupdatelen :: "sds \<Rightarrow> sds" where
  "sdsupdatelen s = sdssetlen s (length (takeWhile (\<lambda>c. c \<noteq> 0) (sds_buf s)))"

definition sdsclear :: "sds \<Rightarrow> sds option" where
  "sdsclear s = buf_put (sdssetlen s 0) 0 0"

text \<open>The guards of the assertions. Casts of the \<^verbatim>\<open>ssize_t\<close> increment to \<^verbatim>\<open>unsigned int\<close> keep its low 32
  bits.\<close>

definition incr_ok :: "sds \<Rightarrow> int \<Rightarrow> bool" where
  "incr_ok s incr =
     (let oldlen = hdr_len s in
      case sds_type s of
        SDS_TYPE_5 \<Rightarrow> (incr > 0 \<and> int oldlen + incr < 32) \<or> (incr < 0 \<and> int oldlen \<ge> (- incr) mod 2 ^ 32)
      | SDS_TYPE_32 \<Rightarrow> (incr \<ge> 0 \<and> int (wrap_sub 32 (hdr_alloc s) oldlen) \<ge> incr mod 2 ^ 32) \<or>
                       (incr < 0 \<and> int oldlen \<ge> (- incr) mod 2 ^ 32)
      | SDS_TYPE_64 \<Rightarrow> (incr \<ge> 0 \<and> int (wrap_sub 64 (hdr_alloc s) oldlen) \<ge> incr) \<or>
                       (incr < 0 \<and> int oldlen \<ge> - incr)
      | _ \<Rightarrow> (incr \<ge> 0 \<and> int (hdr_alloc s) - int oldlen \<ge> incr) \<or>
             (incr < 0 \<and> int oldlen \<ge> (- incr) mod 2 ^ 32))"

definition sdsIncrLen :: "sds \<Rightarrow> int \<Rightarrow> sds option" where
  "sdsIncrLen s incr = do {
     assert_opt (incr_ok s incr);
     let newlen = int (hdr_len s) + incr;
     let len = (if sds_type s = SDS_TYPE_5 then nat (newlen mod 2 ^ 64)
                else nat (newlen mod 2 ^ sds_type_bits (sds_type s)));
     buf_put (s\<lparr>hdr_len := nat (newlen mod 2 ^ sds_type_bits (sds_type s))\<rparr>) len 0 }"

definition sdsgrowzero :: "allocator \<Rightarrow> sds \<Rightarrow> nat \<Rightarrow> sds option" where
  "sdsgrowzero A s len =
     (let curlen = sdslen s in
      if len \<le> curlen then Some s
      else do {
        s \<leftarrow> sdsMakeRoomFor A s (len - curlen);
        s \<leftarrow> buf_write s curlen (replicate (len - curlen + 1) 0);
        Some (sdssetlen s len) })"

text \<open>The bytes \<open>t\<close> are the \<^verbatim>\<open>len\<close> bytes the source pointer refers to.\<close>

definition sdscatlen :: "allocator \<Rightarrow> sds \<Rightarrow> bytes \<Rightarrow> sds option" where
  "sdscatlen A s t =
     (let curlen = sdslen s; len = length t in
      do {
        s \<leftarrow> sdsMakeRoomFor A s len;
        s \<leftarrow> buf_write s curlen t;
        let s = sdssetlen s (curlen + len);
        buf_put s (curlen + len) 0 })"

definition sdscatsds :: "allocator \<Rightarrow> sds \<Rightarrow> sds \<Rightarrow> sds option" where
  "sdscatsds A s t = do { bs \<leftarrow> mem_read (sds_buf t) 0 (sdslen t); sdscatlen A s bs }"

definition sdscpylen :: "allocator \<Rightarrow> sds \<Rightarrow> bytes \<Rightarrow> sds option" where
  "sdscpylen A s t =
     (let len = length t in
      do {
        s \<leftarrow> (if sdsalloc s < len then sdsMakeRoomFor A s (len - sdslen s) else Some s);
        s \<leftarrow> buf_write s 0 t;
        s \<leftarrow> buf_put s len 0;
        Some (sdssetlen s len) })"

definition sdssubstr :: "sds \<Rightarrow> nat \<Rightarrow> nat \<Rightarrow> sds option" where
  "sdssubstr s start len =
     (let oldlen = sdslen s;
          (start, len) = (if start \<ge> oldlen then (0, 0) else (start, len));
          len = (if len > oldlen - start then oldlen - start else len)
      in do {
        s \<leftarrow> (if len \<noteq> 0 then do { b \<leftarrow> mem_move (sds_buf s) 0 start len; Some (s\<lparr>sds_buf := b\<rparr>) } else Some s);
        s \<leftarrow> buf_put s len 0;
        Some (sdssetlen s len) })"

text \<open>The arguments are \<^verbatim>\<open>ssize_t\<close>; a start that is still negative becomes a huge \<^verbatim>\<open>size_t\<close>.\<close>

definition sdsrange :: "sds \<Rightarrow> int \<Rightarrow> int \<Rightarrow> sds option" where
  "sdsrange s start end =
     (let len = int (sdslen s) in
      if len = 0 then Some s
      else
        (let start = (if start < 0 then len + start else start);
             end = (if end < 0 then len + end else end);
             newlen = (if start > end then 0 else (end - start) + 1)
         in sdssubstr s (nat (start mod 2 ^ 64)) (nat (newlen mod 2 ^ 64))))"

text \<open>\<^verbatim>\<open>strchr(cset, c)\<close> also finds the terminating zero byte of the set.\<close>

definition in_cset :: "bytes \<Rightarrow> byte \<Rightarrow> bool" where
  "in_cset cset c \<longleftrightarrow> c = 0 \<or> c \<in> set cset"

text \<open>\<open>trim_right\<close> is the second loop of \<^verbatim>\<open>sdstrim\<close>: it never moves the end below the start, so one
  character may be left that belongs to the set only if the first loop stopped there.\<close>

function trim_left :: "bytes \<Rightarrow> bytes \<Rightarrow> int \<Rightarrow> int \<Rightarrow> int" where
  "trim_left cset b end sp =
     (if sp \<le> end \<and> in_cset cset (b ! nat sp) then trim_left cset b end (sp + 1) else sp)"
  by pat_completeness auto
termination
  by (relation "measure (\<lambda>(cset, b, end, sp). nat (end + 1 - sp))") auto

function trim_right :: "bytes \<Rightarrow> bytes \<Rightarrow> int \<Rightarrow> int \<Rightarrow> int" where
  "trim_right cset b sp ep =
     (if ep > sp \<and> in_cset cset (b ! nat ep) then trim_right cset b sp (ep - 1) else ep)"
  by pat_completeness auto
termination
  by (relation "measure (\<lambda>(cset, b, sp, ep). nat (ep - sp))") auto

declare trim_left.simps [simp del] trim_right.simps [simp del]

definition sdstrim :: "sds \<Rightarrow> bytes \<Rightarrow> sds option" where
  "sdstrim s cset =
     (let end = int (sdslen s) - 1;
          sp = trim_left cset (sds_buf s) end 0;
          ep = trim_right cset (sds_buf s) sp end;
          len = (if sp > ep then 0 else nat (ep - sp + 1))
      in do {
        s \<leftarrow> (if sp \<noteq> 0 then do { b \<leftarrow> mem_move (sds_buf s) 0 (nat sp) len; Some (s\<lparr>sds_buf := b\<rparr>) }
             else Some s);
        s \<leftarrow> buf_put s len 0;
        Some (sdssetlen s len) })"

text \<open>\<^verbatim>\<open>memcmp\<close> compares as unsigned bytes; only the sign of the result is specified.\<close>

fun memcmp_sgn :: "bytes \<Rightarrow> bytes \<Rightarrow> int" where
  "memcmp_sgn (a # as) (b # bs) = (if a < b then -1 else if a > b then 1 else memcmp_sgn as bs)"
| "memcmp_sgn as bs = 0"

definition sdscmp :: "sds \<Rightarrow> sds \<Rightarrow> int option" where
  "sdscmp s1 s2 =
     (let l1 = sdslen s1; l2 = sdslen s2; minlen = (if l1 < l2 then l1 else l2) in
      do {
        b1 \<leftarrow> mem_read (sds_buf s1) 0 minlen;
        b2 \<leftarrow> mem_read (sds_buf s2) 0 minlen;
        let cmp = memcmp_sgn b1 b2;
        Some (if cmp = 0 then (if l1 > l2 then 1 else if l1 < l2 then -1 else 0) else cmp) })"


section \<open>Invariant and abstraction\<close>

definition sds_ok :: "sds \<Rightarrow> bool" where
  "sds_ok s \<longleftrightarrow> hdr_len s \<le> sdsalloc s \<and> sdsalloc s \<le> sdsTypeMaxSize (sds_type s) \<and>
     sdsalloc s < length (sds_buf s) \<and> sds_buf s ! hdr_len s = 0"

definition sds_str :: "sds \<Rightarrow> bytes" where
  "sds_str s = take (hdr_len s) (sds_buf s)"

named_theorems sds_simps \<open>the primitive operations of an sds\<close>

lemma sdsTypeMaxSize_eq: "sdsTypeMaxSize t = 2 ^ sds_type_bits t - 1"
  by (cases t) simp_all

lemma le_max_size_iff: "n \<le> sdsTypeMaxSize t \<longleftrightarrow> n < 2 ^ sds_type_bits t"
  by (cases t) auto

lemma mod_type_bits [sds_simps]: "n \<le> sdsTypeMaxSize t \<Longrightarrow> n mod 2 ^ sds_type_bits t = n"
  by (simp add: le_max_size_iff)

lemma sdsReqType_fits: "n < 2 ^ 64 \<Longrightarrow> n \<le> sdsTypeMaxSize (sdsReqType n)"
  by (auto simp: sdsReqType_def)

lemma sdsHdrSize_bound: "1 \<le> sdsHdrSize t" "sdsHdrSize t \<le> 17"
  by (cases t; simp)+

lemma max_size_bound: "sdsTypeMaxSize t < 2 ^ 64"
  by (cases t) simp_all

lemma wrap_sub_eq:
  assumes "b \<le> a" "a < 2 ^ w"
  shows "wrap_sub w a b = a - b"
proof -
  have "a + 2 ^ w - b = (a - b) + 2 ^ w" by (rule diff_add_assoc2 [OF assms(1)])
  then show ?thesis unfolding wrap_sub_def using less_imp_diff_less [OF assms(2)]
    by (simp only: mod_add_self2 mod_less)
qed

lemma sdsavail_eq [sds_simps]: "sds_ok s \<Longrightarrow> sdsavail s = sdsalloc s - hdr_len s"
  by (cases "sds_type s") (auto simp: sds_ok_def sdsavail_def sdsalloc_def wrap_sub_eq)

lemma length_sds_str [simp]: "sds_ok s \<Longrightarrow> length (sds_str s) = hdr_len s"
  by (simp add: sds_ok_def sds_str_def)

lemma buf_put_eq [sds_simps]:
  "i < length (sds_buf s) \<Longrightarrow> buf_put s i c = Some (s\<lparr>sds_buf := (sds_buf s)[i := c]\<rparr>)"
  by (simp add: buf_put_def mem_put_eq)

lemma buf_write_eq [sds_simps]:
  "i + length t \<le> length (sds_buf s) \<Longrightarrow>
   buf_write s i t = Some (s\<lparr>sds_buf := take i (sds_buf s) @ t @ drop (i + length t) (sds_buf s)\<rparr>)"
  by (simp add: buf_write_def mem_write_eq)

lemma sdssetlen_eq [sds_simps]: "n \<le> sdsTypeMaxSize (sds_type s) \<Longrightarrow> sdssetlen s n = s\<lparr>hdr_len := n\<rparr>"
  by (simp add: sdssetlen_def mod_type_bits)

section \<open>Growing\<close>

text \<open>The part of the invariant that does not speak of the terminating zero byte; it is what a buffer being
  filled keeps.\<close>

definition sds_fit :: "sds \<Rightarrow> bool" where
  "sds_fit s \<longleftrightarrow> hdr_len s \<le> sdsalloc s \<and> sdsalloc s \<le> sdsTypeMaxSize (sds_type s) \<and> sdsalloc s < length (sds_buf s)"

lemma sds_ok_fit: "sds_ok s \<longleftrightarrow> sds_fit s \<and> sds_buf s ! hdr_len s = 0"
  by (auto simp: sds_ok_def sds_fit_def)

lemma sdsavail_fit: "sds_fit s \<Longrightarrow> sdsavail s = sdsalloc s - hdr_len s"
  by (cases "sds_type s") (auto simp: sds_fit_def sdsavail_def sdsalloc_def wrap_sub_eq)

lemma sds_fit_moved:
  assumes "t \<noteq> SDS_TYPE_5" "hdr_len s + addlen \<le> u" "u \<le> sdsTypeMaxSize t" "u < length b"
  defines "s' \<equiv> s\<lparr>sds_type := t, hdr_alloc := u, sds_buf := b\<rparr>"
  shows "sds_fit s' \<and> addlen \<le> sdsavail s'"
proof -
  have fit: "sds_fit s'" using assms by (simp add: sds_fit_def s'_def sdsalloc_def)
  moreover have "sdsavail s' = u - hdr_len s" using sdsavail_fit [OF fit] assms(1) by (simp add: s'_def sdsalloc_def)
  ultimately show ?thesis using assms(2) by simp
qed

lemma length_fresh_block [simp]: "length (fresh_block A n) = n"
  by (simp add: fresh_block_def)

lemma sds_fit_room:
  assumes ok: "sds_fit s" and len: "hdr_len s + addlen < 2 ^ 63"
  shows "\<exists>s'. sdsMakeRoomFor A s addlen = Some s' \<and> sds_fit s' \<and> addlen \<le> sdsavail s' \<and> hdr_len s' = hdr_len s \<and>
    take (hdr_len s + 1) (sds_buf s') = take (hdr_len s + 1) (sds_buf s)"
proof (cases "sdsavail s \<ge> addlen")
  case True
  then show ?thesis using ok by (simp add: sdsMakeRoomFor_def)
next
  case False
  define n where "n = (if hdr_len s + addlen < SDS_MAX_PREALLOC then (hdr_len s + addlen) * 2
    else hdr_len s + addlen + SDS_MAX_PREALLOC)"
  define t where "t = (if sdsReqType n = SDS_TYPE_5 then SDS_TYPE_8 else sdsReqType n)"
  define r where "r = sdsHdrSize t + n + 1"
  define u where "u = min (n + alloc_slack A r) (sdsTypeMaxSize t)"
  have n: "hdr_len s + addlen \<le> n" "n < 2 ^ 64 - 2 ^ 60"
    using len by (simp_all add: n_def SDS_MAX_PREALLOC_def)
  have t: "t \<noteq> SDS_TYPE_5" "n \<le> sdsTypeMaxSize t"
    using sdsReqType_fits [of n] n(2) by (auto simp: t_def)
  have r: "r mod 2 ^ 64 = r" "hdr_len s + addlen < r"
    using n sdsHdrSize_bound [of t] by (simp_all add: r_def)
  have u: "n \<le> u" "u \<le> sdsTypeMaxSize t" using t by (simp_all add: u_def)
  have okf: "hdr_len s \<le> sdsalloc s" "sdsalloc s < length (sds_buf s)"
    using ok by (simp_all add: sds_fit_def)
  have addlen: "0 < addlen" using False by simp
  have size: "(hdr_len s + addlen) mod 2 ^ 64 = hdr_len s + addlen"
    using len by simp
  have grow: "(if hdr_len s + addlen < SDS_MAX_PREALLOC then (hdr_len s + addlen) * 2
      else (hdr_len s + addlen + SDS_MAX_PREALLOC) mod 2 ^ 64) = n"
    using len by (simp add: n_def SDS_MAX_PREALLOC_def)
  have body: "sdsMakeRoomFor A s addlen = do {
      s \<leftarrow> (if sds_type s = t then
             Some (s\<lparr>sds_buf := mem_resize (alloc_junk A) (sds_buf s) (r + alloc_slack A r - sdsHdrSize t)\<rparr>)
           else do {
             bs \<leftarrow> mem_read (sds_buf s) 0 (hdr_len s + 1);
             s' \<leftarrow> buf_write (s\<lparr>sds_type := t, sds_buf := fresh_block A (r + alloc_slack A r - sdsHdrSize t)\<rparr>) 0 bs;
             Some (sdssetlen s' (hdr_len s)) });
      Some (sdssetalloc s u) }"
    using False addlen r
    unfolding sdsMakeRoomFor_def Let_def sdslen_def size grow t_def [symmetric] r_def [symmetric]
    by (simp add: assert_opt_def u_def min_def r_def not_le cong: if_cong)
  have blen: "r + alloc_slack A r - sdsHdrSize t = n + 1 + alloc_slack A r" by (simp add: r_def)
  have ublen: "u < n + 1 + alloc_slack A r" by (simp add: u_def)
  have len1: "hdr_len s + 1 \<le> n + 1 + alloc_slack A r" "hdr_len s + 1 \<le> length (sds_buf s)"
    using n okf by simp_all
  have umod: "u mod 2 ^ sds_type_bits t = u" using u(2) by (rule mod_type_bits)
  obtain b where b: "length b = n + 1 + alloc_slack A r"
    "take (hdr_len s + 1) b = take (hdr_len s + 1) (sds_buf s)"
    "sdsMakeRoomFor A s addlen = Some (s\<lparr>sds_type := t, hdr_alloc := u, sds_buf := b\<rparr>)"
  proof (cases "sds_type s = t")
    case True
    let ?b = "mem_resize (alloc_junk A) (sds_buf s) (n + 1 + alloc_slack A r)"
    have "sdsMakeRoomFor A s addlen = Some (s\<lparr>sds_type := t, hdr_alloc := u, sds_buf := ?b\<rparr>)"
      unfolding body blen using True t(1) umod by (simp add: sdssetalloc_def)
    then show ?thesis using that [of ?b] len1 by (simp add: take_mem_resize)
  next
    case False
    let ?bs = "take (hdr_len s + 1) (sds_buf s)"
    let ?b = "?bs @ drop (length ?bs) (fresh_block A (n + 1 + alloc_slack A r))"
    have "hdr_len s \<le> sdsTypeMaxSize t" using n t(2) by simp
    then have "sdsMakeRoomFor A s addlen = Some (s\<lparr>sds_type := t, hdr_alloc := u, sds_buf := ?b\<rparr>)"
      unfolding body blen using False t(1) umod len1
      by (simp add: sdssetalloc_def mem_read_eq buf_write_eq sdssetlen_eq)
    then show ?thesis using that [of ?b] len1 by simp
  qed
  have "hdr_len s + addlen \<le> u" using n(1) u(1) by simp
  from sds_fit_moved [OF t(1) this u(2), of b] b ublen show ?thesis by simp
qed

lemma sds_ok_room:
  assumes ok: "sds_ok s" and len: "hdr_len s + addlen < 2 ^ 63"
  shows "\<exists>s'. sdsMakeRoomFor A s addlen = Some s' \<and> sds_ok s' \<and> sds_str s' = sds_str s \<and>
    addlen \<le> sdsavail s'"
proof -
  have fit: "sds_fit s" and z: "sds_buf s ! hdr_len s = 0" using ok by (simp_all add: sds_ok_fit)
  obtain s' where s': "sdsMakeRoomFor A s addlen = Some s'" "sds_fit s'" "addlen \<le> sdsavail s'" "hdr_len s' = hdr_len s"
    "take (hdr_len s + 1) (sds_buf s') = take (hdr_len s + 1) (sds_buf s)"
    using sds_fit_room [OF fit len, of A] by blast
  have "sds_buf s' ! hdr_len s = take (hdr_len s + 1) (sds_buf s') ! hdr_len s" by simp
  also have "\<dots> = 0" unfolding s'(5) using z by simp
  finally have ok': "sds_ok s'" using s'(2,4) by (simp add: sds_ok_fit)
  have "sds_str s' = take (hdr_len s) (take (hdr_len s + 1) (sds_buf s'))" by (simp add: sds_str_def s'(4))
  also have "\<dots> = sds_str s" unfolding s'(5) by (simp add: sds_str_def)
  finally show ?thesis using s'(1,3) ok' by blast
qed

lemma sds_upd_order [simp]: "s\<lparr>sds_buf := b, hdr_len := n\<rparr> = s\<lparr>hdr_len := n, sds_buf := b\<rparr>"
  for s :: sds
  by simp

lemma sds_ok_contents:
  assumes "sds_ok s" "n \<le> sdsalloc s" "length b = length (sds_buf s)" "b ! n = 0"
  shows "sds_ok (s\<lparr>hdr_len := n, sds_buf := b\<rparr>)" "sds_str (s\<lparr>hdr_len := n, sds_buf := b\<rparr>) = take n b"
  using assms by (auto simp: sds_ok_def sds_str_def sdsalloc_def split: if_splits)

lemma sds_ok_alloc:
  assumes "sds_ok s" "n \<le> sdsalloc s"
  shows "n \<le> sdsTypeMaxSize (sds_type s)" "n < length (sds_buf s)"
  using assms by (simp_all add: sds_ok_def)

text \<open>The common end of the operations that change the contents.\<close>

lemma sds_set_contents:
  assumes "sds_ok s" "n \<le> sdsalloc s" "length b = length (sds_buf s)"
  shows "\<exists>s'. do { s \<leftarrow> buf_put (s\<lparr>sds_buf := b\<rparr>) n 0; Some (sdssetlen s n) } = Some s' \<and> sds_ok s' \<and> sds_str s' = take n b"
    and "\<exists>s'. buf_put (sdssetlen (s\<lparr>sds_buf := b\<rparr>) n) n 0 = Some s' \<and> sds_ok s' \<and> sds_str s' = take n b"
proof -
  have n: "n \<le> sdsTypeMaxSize (sds_type s)" "n < length b" using sds_ok_alloc [OF assms(1,2)] assms(3) by simp_all
  let ?s = "s\<lparr>hdr_len := n, sds_buf := b[n := 0]\<rparr>"
  have ok: "sds_ok ?s" "sds_str ?s = take n b"
    using sds_ok_contents [OF assms(1,2), of "b[n := 0]"] assms(3) n by simp_all
  show "\<exists>s'. do { s \<leftarrow> buf_put (s\<lparr>sds_buf := b\<rparr>) n 0; Some (sdssetlen s n) } = Some s' \<and> sds_ok s' \<and> sds_str s' = take n b"
    using n ok by (simp add: buf_put_eq sdssetlen_eq)
  show "\<exists>s'. buf_put (sdssetlen (s\<lparr>sds_buf := b\<rparr>) n) n 0 = Some s' \<and> sds_ok s' \<and> sds_str s' = take n b"
    using n ok by (simp add: buf_put_eq sdssetlen_eq)
qed

lemma alloc_of_avail: "sds_ok s \<Longrightarrow> n \<le> sdsavail s \<Longrightarrow> hdr_len s + n \<le> sdsalloc s"
  using sdsavail_eq [of s] by (auto simp: sds_ok_def)

lemma hdr_len_sds_str: "sds_ok s \<Longrightarrow> sds_ok s' \<Longrightarrow> sds_str s' = sds_str s \<Longrightarrow> hdr_len s' = hdr_len s"
  using length_sds_str by metis

section \<open>Operations on the contents\<close>

lemma sdscatlen_ok:
  assumes ok: "sds_ok s" and len: "hdr_len s + length t < 2 ^ 63"
  shows "\<exists>s'. sdscatlen A s t = Some s' \<and> sds_ok s' \<and> sds_str s' = sds_str s @ t"
proof -
  obtain s1 where s1: "sdsMakeRoomFor A s (length t) = Some s1" "sds_ok s1" "sds_str s1 = sds_str s"
    "length t \<le> sdsavail s1" using sds_ok_room [OF assms] by blast
  have n: "hdr_len s1 = hdr_len s" using hdr_len_sds_str [OF ok s1(2,3)] .
  have room: "hdr_len s + length t \<le> sdsalloc s1" using alloc_of_avail [OF s1(2,4)] n by simp
  let ?b = "take (hdr_len s) (sds_buf s1) @ t @ drop (hdr_len s + length t) (sds_buf s1)"
  have blen: "hdr_len s + length t \<le> length (sds_buf s1)" using sds_ok_alloc [OF s1(2) room] by simp
  then have "length ?b = length (sds_buf s1)" by simp
  from sds_set_contents(2) [OF s1(2) room this] obtain s' where
    "buf_put (sdssetlen (s1\<lparr>sds_buf := ?b\<rparr>) (hdr_len s + length t)) (hdr_len s + length t) 0 = Some s'"
    "sds_ok s'" "sds_str s' = take (hdr_len s + length t) ?b" by blast
  moreover have "take (hdr_len s + length t) ?b = sds_str s @ t"
    using blen unfolding s1(3) [symmetric] by (simp add: sds_str_def n)
  ultimately show ?thesis using s1(1) blen by (simp add: sdscatlen_def Let_def sdslen_def buf_write_eq)
qed

lemma sdscpylen_ok:
  assumes ok: "sds_ok s" and len: "length t < 2 ^ 63"
  shows "\<exists>s'. sdscpylen A s t = Some s' \<and> sds_ok s' \<and> sds_str s' = t"
proof -
  obtain s1 where s1: "(if sdsalloc s < length t then sdsMakeRoomFor A s (length t - sdslen s) else Some s) = Some s1"
    "sds_ok s1" "length t \<le> sdsalloc s1"
  proof (cases "sdsalloc s < length t")
    case True
    have le: "hdr_len s \<le> length t" using ok True by (simp add: sds_ok_def)
    then have "hdr_len s + (length t - sdslen s) < 2 ^ 63" using len by (simp add: sdslen_def)
    from sds_ok_room [OF ok this] obtain s1 where
      s1: "sdsMakeRoomFor A s (length t - sdslen s) = Some s1" "sds_ok s1" "sds_str s1 = sds_str s"
        "length t - sdslen s \<le> sdsavail s1" by blast
    have "length t \<le> sdsalloc s1"
      using alloc_of_avail [OF s1(2,4)] hdr_len_sds_str [OF ok s1(2,3)] le by (simp add: sdslen_def)
    then show ?thesis using that [of s1] s1 True by simp
  qed (use ok that in simp)
  have blen: "length t \<le> length (sds_buf s1)" using sds_ok_alloc [OF s1(2,3)] by simp
  then have "length (t @ drop (length t) (sds_buf s1)) = length (sds_buf s1)" by simp
  from sds_set_contents(1) [OF s1(2,3) this] show ?thesis
    using s1(1) blen by (simp add: sdscpylen_def Let_def buf_write_eq)
qed

lemma sdsgrowzero_ok:
  assumes ok: "sds_ok s" and len: "len < 2 ^ 63"
  shows "\<exists>s'. sdsgrowzero A s len = Some s' \<and> sds_ok s' \<and>
    sds_str s' = sds_str s @ replicate (len - sdslen s) 0"
proof (cases "len \<le> hdr_len s")
  case True
  then show ?thesis using ok by (simp add: sdsgrowzero_def sdslen_def)
next
  case False
  let ?k = "len - hdr_len s"
  have "hdr_len s + ?k < 2 ^ 63" using len False by simp
  from sds_ok_room [OF ok this] obtain s1 where s1: "sdsMakeRoomFor A s ?k = Some s1" "sds_ok s1"
    "sds_str s1 = sds_str s" "?k \<le> sdsavail s1" by blast
  have n: "hdr_len s1 = hdr_len s" using hdr_len_sds_str [OF ok s1(2,3)] .
  have room: "len \<le> sdsalloc s1" using alloc_of_avail [OF s1(2,4)] n False by simp
  note b = sds_ok_alloc [OF s1(2) room]
  let ?b = "take (hdr_len s) (sds_buf s1) @ replicate (?k + 1) 0 @ drop (hdr_len s + (?k + 1)) (sds_buf s1)"
  have "length ?b = length (sds_buf s1)" using b False by simp
  moreover have "?b ! len = 0" using b False by (simp add: nth_append del: replicate_Suc)
  moreover have "take len ?b = sds_str s @ replicate ?k 0"
    using b False unfolding s1(3) [symmetric] by (simp add: sds_str_def n min_def del: replicate_Suc)
  ultimately have "sds_ok (s1\<lparr>hdr_len := len, sds_buf := ?b\<rparr>)"
    "sds_str (s1\<lparr>hdr_len := len, sds_buf := ?b\<rparr>) = sds_str s @ replicate ?k 0"
    using sds_ok_contents [OF s1(2) room, of ?b] by simp_all
  moreover have "buf_write s1 (hdr_len s) (replicate (?k + 1) 0) = Some (s1\<lparr>sds_buf := ?b\<rparr>)"
    using b False buf_write_eq [of "hdr_len s" "replicate (?k + 1) 0" s1] by simp
  moreover have "sdssetlen (s1\<lparr>sds_buf := ?b\<rparr>) len = s1\<lparr>hdr_len := len, sds_buf := ?b\<rparr>"
    using b by (simp add: sdssetlen_eq)
  ultimately show ?thesis using s1(1) False by (simp add: sdsgrowzero_def Let_def sdslen_def del: replicate_Suc)
qed

definition init_bytes :: "sds_init \<Rightarrow> nat \<Rightarrow> bytes \<Rightarrow> bool" where
  "init_bytes init n bs \<longleftrightarrow>
     (case init of Init t \<Rightarrow> n \<le> length t \<and> bs = take n t | Init_NULL \<Rightarrow> bs = replicate n 0 | SDS_NOINIT \<Rightarrow> length bs = n)"

lemma sds_newlen_ok:
  assumes len: "n < 2 ^ 63" and init: "\<And>t. init = Init t \<Longrightarrow> n \<le> length t"
  shows "\<exists>s. sds_newlen A init n trymalloc False = Some (Some s) \<and> sds_ok s \<and> init_bytes init n (sds_str s)"
proof -
  define t where "t = (if sdsReqType n = SDS_TYPE_5 \<and> n = 0 then SDS_TYPE_8 else sdsReqType n)"
  define r where "r = sdsHdrSize t + n + 1"
  define u where "u = min (n + alloc_slack A r) (sdsTypeMaxSize t)"
  define b where "b = (if init = Init_NULL then replicate (n + 1) 0 @ drop (n + 1) (fresh_block A (n + 1 + alloc_slack A r))
    else fresh_block A (n + 1 + alloc_slack A r))"
  define s where "s = \<lparr>sds_type = t, hdr_len = n, hdr_alloc = (if t = SDS_TYPE_5 then 0 else u), sds_buf = b\<rparr>"
  define b' where "b' = (case init of Init x \<Rightarrow> take n x @ drop n b | _ \<Rightarrow> b)"
  have t: "n \<le> sdsTypeMaxSize t" using sdsReqType_fits [of n] len by (auto simp: t_def)
  have u: "n \<le> u" "u \<le> sdsTypeMaxSize t" "u < n + 1 + alloc_slack A r" using t by (simp_all add: u_def)
  have m: "n mod 2 ^ sds_type_bits t = n" "u mod 2 ^ sds_type_bits t = u"
    using mod_type_bits [OF t] mod_type_bits [OF u(2)] .
  have a: "n < (n + sdsHdrSize t + 1) mod 2 ^ 64" using len sdsHdrSize_bound [of t] by simp
  have e: "r + alloc_slack A r - sdsHdrSize t = n + 1 + alloc_slack A r"
    "(if n + 1 + alloc_slack A r - 1 > sdsTypeMaxSize t then sdsTypeMaxSize t else n + 1 + alloc_slack A r - 1) = u"
    by (simp_all add: r_def u_def)
  have lb: "length b = n + 1 + alloc_slack A r" by (simp add: b_def)
  have lb': "length b' = length b" using init lb by (simp add: b'_def split: sds_init.split)
  have new: "sds_newlen A init n trymalloc False = do {
      s \<leftarrow> (case init of Init x \<Rightarrow> if n \<noteq> 0 then do { bs \<leftarrow> mem_read x 0 n; buf_write s 0 bs } else Some s | _ \<Rightarrow> Some s);
      s \<leftarrow> buf_put s n 0;
      Some (Some s) }"
    using a unfolding sds_newlen_def Let_def t_def [symmetric] r_def [symmetric] e b_def [symmetric] m s_def [symmetric]
    by (simp add: assert_opt_def)
  have "(case init of Init x \<Rightarrow> if n \<noteq> 0 then do { bs \<leftarrow> mem_read x 0 n; buf_write s 0 bs } else Some s | _ \<Rightarrow> Some s)
      = Some (s\<lparr>sds_buf := b'\<rparr>)"
    using init lb by (auto simp: b'_def s_def mem_read_eq buf_write_eq split: sds_init.split)
  then have res: "sds_newlen A init n trymalloc False = Some (Some (s\<lparr>sds_buf := b'[n := 0]\<rparr>))"
    using lb lb' unfolding new by (simp add: buf_put_eq)
  have "sds_ok (s\<lparr>sds_buf := b'[n := 0]\<rparr>)"
    using u t lb lb' by (auto simp: sds_ok_def s_def sdsalloc_def)
  moreover have "init_bytes init n (sds_str (s\<lparr>sds_buf := b'[n := 0]\<rparr>))"
    using lb lb' init
    by (simp add: init_bytes_def sds_str_def s_def b'_def b_def split: sds_init.split del: replicate_Suc)
  ultimately show ?thesis using res by blast
qed

lemma sdsnewlen_ok:
  "n < 2 ^ 63 \<Longrightarrow> n \<le> length t \<Longrightarrow> \<exists>s. sdsnewlen A (Init t) n = Some s \<and> sds_ok s \<and> sds_str s = take n t"
  using sds_newlen_ok [of n "Init t" A False] by (auto simp: sdsnewlen_def init_bytes_def)

lemma sdsdup_ok:
  assumes "sds_ok s" "hdr_len s < 2 ^ 63"
  shows "\<exists>s'. sdsdup A s = Some s' \<and> sds_ok s' \<and> sds_str s' = sds_str s"
  using sdsnewlen_ok [of "hdr_len s" "sds_buf s" A] assms
  by (simp add: sdsdup_def sdslen_def sds_str_def sds_ok_def)

lemma sdsempty_ok: "\<exists>s. sdsempty A = Some s \<and> sds_ok s \<and> sds_str s = []"
  using sdsnewlen_ok [of 0 "[]" A] by (simp add: sdsempty_def)

lemma sdsclear_ok:
  assumes "sds_ok s"
  shows "\<exists>s'. sdsclear s = Some s' \<and> sds_ok s' \<and> sds_str s' = []"
  using sds_set_contents(2) [OF assms, of 0 "sds_buf s"] by (simp add: sdsclear_def)

section \<open>Shrinking\<close>

lemma sdssubstr_ok:
  assumes ok: "sds_ok s"
  shows "\<exists>s'. sdssubstr s start len = Some s' \<and> sds_ok s' \<and>
    sds_str s' = (if start < hdr_len s then take len (drop start (sds_str s)) else [])"
proof -
  define st where "st = (if start \<ge> hdr_len s then 0 else start)"
  define l where "l = (if start \<ge> hdr_len s then 0 else min len (hdr_len s - start))"
  define b where "b = take l (drop st (sds_buf s)) @ drop l (sds_buf s)"
  have bnd: "st + l \<le> hdr_len s" "hdr_len s < length (sds_buf s)" "hdr_len s \<le> sdsalloc s"
    using ok by (auto simp: st_def l_def sds_ok_def)
  have lb: "length b = length (sds_buf s)" using bnd by (simp add: b_def)
  have eq: "sdssubstr s start len = do { s \<leftarrow> buf_put (s\<lparr>sds_buf := b\<rparr>) l 0; Some (sdssetlen s l) }"
    using bnd by (auto simp: sdssubstr_def Let_def sdslen_def mem_move_eq st_def l_def b_def min_def not_le)
  obtain s' where s': "sdssubstr s start len = Some s'" "sds_ok s'" "sds_str s' = take l b"
    using sds_set_contents(1) [OF ok _ lb, of l] bnd unfolding eq by auto
  moreover have "take l b = (if start < hdr_len s then take len (drop start (sds_str s)) else [])"
    using bnd by (auto simp: b_def l_def st_def sds_str_def min_def drop_take)
  ultimately show ?thesis by simp
qed


text \<open>The range \<open>start .. end\<close> is inclusive and negative positions count from the end. A start that is out
  of range on either side empties the string.\<close>

lemma sdsrange_ok:
  assumes ok: "sds_ok s" and len: "hdr_len s < 2 ^ 63" and i: "start \<in> {- (2 ^ 63) ..< 2 ^ 63}" "end \<in> {- (2 ^ 63) ..< 2 ^ 63}"
  defines "a \<equiv> (if start < 0 then int (hdr_len s) + start else start)"
    and "z \<equiv> (if end < 0 then int (hdr_len s) + end else end)"
  shows "\<exists>s'. sdsrange s start end = Some s' \<and> sds_ok s' \<and>
    sds_str s' = (if 0 \<le> a \<and> a \<le> z then take (nat (z - a + 1)) (drop (nat a) (sds_str s)) else [])"
proof (cases "hdr_len s = 0")
  case True
  then show ?thesis using ok by (simp add: sdsrange_def sdslen_def sds_str_def)
next
  case False
  define nl where "nl = (if a > z then 0 else z - a + 1)"
  have eq: "sdsrange s start end = sdssubstr s (nat (a mod 2 ^ 64)) (nat (nl mod 2 ^ 64))"
    using False by (simp add: sdsrange_def sdslen_def Let_def a_def z_def nl_def)
  have bnd: "- (2 ^ 63) \<le> a" "a < 2 ^ 63" "z < 2 ^ 63" "- (2 ^ 63) \<le> z" using i len by (auto simp: a_def z_def)
  show ?thesis
  proof (cases "0 \<le> a")
    case True
    then have m: "a mod 2 ^ 64 = a" "nl mod 2 ^ 64 = nl" using bnd by (auto simp: nl_def)
    show ?thesis using sdssubstr_ok [OF ok, of "nat a" "nat nl"] ok True unfolding eq m
      by (auto simp: nl_def split: if_splits)
  next
    case neg: False
    have "a mod 2 ^ 64 = (a + 2 ^ 64) mod 2 ^ 64" by simp
    also have "\<dots> = a + 2 ^ 64" using neg bnd by (intro mod_pos_pos_trivial) simp_all
    finally have "\<not> nat (a mod 2 ^ 64) < hdr_len s" using bnd len by simp
    then show ?thesis using sdssubstr_ok [OF ok, of "nat (a mod 2 ^ 64)" "nat (nl mod 2 ^ 64)"] neg unfolding eq
      by simp
  qed
qed

lemma trim_left_eq:
  assumes "0 \<le> sp" "sp \<le> end + 1" "end < int (length b)"
  shows "trim_left cset b end sp = sp + int (length (takeWhile (in_cset cset) (take (nat (end + 1 - sp)) (drop (nat sp) b))))"
  using assms
proof (induction cset b "end" sp rule: trim_left.induct)
  case (1 cset b "end" sp)
  show ?case
  proof (cases "sp \<le> end")
    case True
    then have "drop (nat sp) b = b ! nat sp # drop (nat (sp + 1)) b"
      using 1(2,4) by (simp add: Cons_nth_drop_Suc nat_add_distrib)
    moreover have "nat (end + 1 - sp) = Suc (nat (end + 1 - (sp + 1)))" using True by simp
    ultimately show ?thesis using 1 True by (subst trim_left.simps) simp
  next
    case False
    then show ?thesis using 1(3) by (subst trim_left.simps) simp
  qed
qed

text \<open>Reference: drop the bytes of the set from both ends.\<close>

definition strip :: "('a \<Rightarrow> bool) \<Rightarrow> 'a list \<Rightarrow> 'a list" where
  "strip P xs = rev (dropWhile P (rev (dropWhile P xs)))"

lemma rev_dropWhile_rev: "rev (dropWhile P (rev ys)) = take (length (dropWhile P (rev ys))) ys"
  by (simp add: dropWhile_eq_drop rev_drop)

lemma trim_right_eq:
  assumes "0 \<le> sp" "sp \<le> ep" "ep < int (length b)" "\<not> in_cset cset (b ! nat sp)"
  shows "trim_right cset b sp ep = sp + int (length (dropWhile (in_cset cset) (rev (take (nat (ep + 1 - sp)) (drop (nat sp) b))))) - 1"
  using assms
proof (induction cset b sp ep rule: trim_right.induct)
  case (1 cset b sp ep)
  have split: "take (nat (ep + 1 - sp)) (drop (nat sp) b) = take (nat (ep - 1 + 1 - sp)) (drop (nat sp) b) @ [b ! nat ep]"
  proof -
    have e: "nat (ep + 1 - sp) = Suc (nat (ep - 1 + 1 - sp))" "nat (ep - 1 + 1 - sp) < length (drop (nat sp) b)"
      "nat sp + nat (ep - sp) = nat ep"
      unfolding length_drop using 1(2-4) by linarith+
    show ?thesis unfolding e(1) take_Suc_conv_app_nth [OF e(2)] using 1(2-4) e(3) by simp
  qed
  show ?case
  proof (cases "ep > sp \<and> in_cset cset (b ! nat ep)")
    case True
    have "trim_right cset b sp ep = trim_right cset b sp (ep - 1)" using True by (subst trim_right.simps) simp
    also have "\<dots> = sp + int (length (dropWhile (in_cset cset) (rev (take (nat (ep - 1 + 1 - sp)) (drop (nat sp) b))))) - 1"
      using True 1 by simp
    finally show ?thesis unfolding split using True by simp
  next
    case False
    then have "\<not> in_cset cset (b ! nat ep)" using 1(3,5) by (cases "ep = sp") auto
    moreover have "trim_right cset b sp ep = ep" by (subst trim_right.simps) (simp only: False if_False)
    ultimately show ?thesis unfolding split using 1(2-4) by simp
  qed
qed

lemma sdstrim_ok:
  assumes ok: "sds_ok s"
  shows "\<exists>s'. sdstrim s cset = Some s' \<and> sds_ok s' \<and> sds_str s' = strip (in_cset cset) (sds_str s)"
proof -
  let ?P = "in_cset cset"
  have bnd: "hdr_len s < length (sds_buf s)" "hdr_len s \<le> sdsalloc s" using ok by (simp_all add: sds_ok_def)
  define e where "e = int (hdr_len s) - 1"
  define k where "k = length (takeWhile ?P (sds_str s))"
  define ys where "ys = dropWhile ?P (sds_str s)"
  define l where "l = length (dropWhile ?P (rev ys))"
  have ys: "ys = drop k (sds_str s)" by (simp add: ys_def k_def dropWhile_eq_drop)
  have k: "k \<le> hdr_len s" using length_takeWhile_le [of ?P "sds_str s"] ok by (simp add: k_def)
  have l: "l \<le> hdr_len s - k" using length_dropWhile_le [of ?P "rev ys"] ok by (simp add: l_def ys)
  have sp: "trim_left cset (sds_buf s) e 0 = int k"
    using bnd by (simp add: trim_left_eq e_def k_def sds_str_def)
  have len: "(let ep = trim_right cset (sds_buf s) (int k) e in if int k > ep then 0 else nat (ep - int k + 1)) = l"
  proof (cases "k < hdr_len s")
    case True
    have nth: "sds_buf s ! k = sds_str s ! k" using True by (simp add: sds_str_def)
    have "\<not> ?P (sds_buf s ! k)" unfolding nth
      using nth_length_takeWhile [of ?P "sds_str s"] True ok by (simp add: k_def)
    moreover have "take (hdr_len s - k) (drop k (sds_buf s)) = ys" by (simp add: ys sds_str_def drop_take)
    ultimately have "trim_right cset (sds_buf s) (int k) e = int k + int l - 1"
      using trim_right_eq [of "int k" e "sds_buf s" cset] True bnd by (simp add: e_def l_def nat_diff_distrib')
    then show ?thesis by simp
  next
    case False
    then have "trim_right cset (sds_buf s) (int k) e = e" using k by (subst trim_right.simps) (simp add: e_def)
    then show ?thesis using False k l by (simp add: e_def)
  qed
  define b where "b = (if k \<noteq> 0 then take l (drop k (sds_buf s)) @ drop l (sds_buf s) else sds_buf s)"
  have eq: "sdstrim s cset = do { s \<leftarrow> buf_put (s\<lparr>sds_buf := b\<rparr>) l 0; Some (sdssetlen s l) }"
    using len k l bnd unfolding sdstrim_def Let_def sdslen_def e_def [symmetric] sp
    by (simp add: b_def mem_move_eq)
  have "length b = length (sds_buf s)" using k l bnd by (simp add: b_def)
  moreover have "l \<le> sdsalloc s" using l bnd by linarith
  ultimately obtain s' where s': "sdstrim s cset = Some s'" "sds_ok s'" "sds_str s' = take l b"
    unfolding eq using sds_set_contents(1) [OF ok] by blast
  have "take l b = take l (drop k (take (hdr_len s) (sds_buf s)))" using k l bnd by (simp add: b_def drop_take)
  also have "\<dots> = take l ys" by (simp add: ys sds_str_def)
  also have "\<dots> = strip ?P (sds_str s)" by (simp add: strip_def l_def rev_dropWhile_rev ys_def [symmetric])
  finally show ?thesis using s' by simp
qed

lemma memcmp_sgn_eq:
  "length xs = length ys \<Longrightarrow> memcmp_sgn xs ys = (if xs = ys then 0 else if xs < ys then -1 else 1)"
  by (induction xs ys rule: list_induct2) (auto simp: Cons_less_Cons)

lemma lex_prefix_compare:
  fixes xs ys :: "'a::linorder list"
  defines "m \<equiv> min (length xs) (length ys)"
  shows "(xs < ys) = (if take m xs = take m ys then length xs < length ys else take m xs < take m ys)"
  unfolding m_def
proof (induction xs arbitrary: ys)
  case Nil then show ?case by (cases ys) auto
next
  case (Cons x xs) then show ?case by (cases ys) (auto simp: Cons_less_Cons)
qed

lemma sdscmp_ok:
  assumes "sds_ok s1" "sds_ok s2"
  shows "sdscmp s1 s2 = Some (if sds_str s1 = sds_str s2 then 0 else if sds_str s1 < sds_str s2 then -1 else 1)"
proof -
  let ?x = "sds_str s1" and ?y = "sds_str s2"
  define m where "m = min (hdr_len s1) (hdr_len s2)"
  have l: "m \<le> length (sds_buf s1)" "m \<le> length (sds_buf s2)" "m \<le> hdr_len s1" "m \<le> hdr_len s2"
    using assms by (auto simp: sds_ok_def m_def)
  have t: "take m (sds_buf s1) = take m ?x" "take m (sds_buf s2) = take m ?y"
    using l by (simp_all add: sds_str_def min_absorb1)
  have e: "(if hdr_len s1 < hdr_len s2 then hdr_len s1 else hdr_len s2) = m" by (simp add: m_def)
  have n: "hdr_len s1 = length ?x" "hdr_len s2 = length ?y" using assms by simp_all
  have le: "length (take m ?x) = length (take m ?y)" using l n by simp
  have "sdscmp s1 s2 = Some (let cmp = memcmp_sgn (take m ?x) (take m ?y) in
      if cmp = 0 then (if hdr_len s1 > hdr_len s2 then 1 else if hdr_len s1 < hdr_len s2 then -1 else 0) else cmp)"
    unfolding sdscmp_def Let_def sdslen_def e by (simp only: mem_read_eq add_0 l drop_0 t bind.simps)
  also have "\<dots> = Some (if take m ?x = take m ?y
      then (if length ?x > length ?y then 1 else if length ?x < length ?y then -1 else 0)
      else if take m ?x < take m ?y then -1 else 1)"
    unfolding memcmp_sgn_eq [OF le] n [symmetric] Let_def by simp
  also have "\<dots> = Some (if ?x = ?y then 0 else if ?x < ?y then -1 else 1)"
  proof -
    have "?x = ?y \<longleftrightarrow> take m ?x = take m ?y \<and> length ?x = length ?y"
      unfolding m_def n by (metis min.idem order_refl take_all)
    moreover have "?x < ?y \<longleftrightarrow> (if take m ?x = take m ?y then length ?x < length ?y else take m ?x < take m ?y)"
      using lex_prefix_compare [of ?x ?y] unfolding m_def n .
    ultimately show ?thesis by (simp only:) auto
  qed
  finally show ?thesis .
qed

lemma sdsReqType_mono: "sds_type_code (sdsReqType n) \<le> sds_type_code t \<Longrightarrow> n < 2 ^ 64 \<Longrightarrow> n \<le> sdsTypeMaxSize t"
  by (cases t) (auto simp: sdsReqType_def split: if_splits)

lemma sds_resize_finish:
  assumes "sds_ok s" "len \<le> newsize" "newsize \<le> sdsTypeMaxSize t" "newsize < length b"
    "take len b = take len (sds_buf s)" "len \<le> hdr_len s"
  defines "s1 \<equiv> s\<lparr>sds_type := t, sds_buf := b\<rparr>"
  shows "\<exists>s'. do { s \<leftarrow> buf_put s1 len 0; Some (sdssetalloc (sdssetlen s len) newsize) } = Some s' \<and> sds_ok s' \<and>
    sds_str s' = take len (sds_str s) \<and> (t \<noteq> SDS_TYPE_5 \<longrightarrow> sdsalloc s' = newsize) \<and> sds_type s' = t"
proof -
  have le: "len \<le> sdsTypeMaxSize t" "len < length b" using assms(2-4) by simp_all
  let ?s = "s\<lparr>sds_type := t, hdr_len := len, hdr_alloc := (if t = SDS_TYPE_5 then hdr_alloc s else newsize), sds_buf := b[len := 0]\<rparr>"
  have "do { s \<leftarrow> buf_put s1 len 0; Some (sdssetalloc (sdssetlen s len) newsize) } = Some ?s"
    using le assms(3) by (cases "t = SDS_TYPE_5") (auto simp: s1_def buf_put_eq sdssetlen_eq sdssetalloc_def mod_type_bits)
  moreover have "sds_ok ?s" using assms(2-4) le by (auto simp: sds_ok_def sdsalloc_def)
  moreover have "take len b = take len (sds_str s)" using assms(5,6) by (simp add: sds_str_def min_absorb1)
  ultimately show ?thesis by (auto simp: sds_str_def sdsalloc_def)
qed

lemma sdsResize_ok:
  assumes ok: "sds_ok s" and je: "use_jemalloc A \<longrightarrow> newsize \<le> sdsalloc s" and len: "newsize < 2 ^ 63"
  shows "\<exists>s'. sdsResize A s newsize would_regrow = Some s' \<and> sds_ok s' \<and> sds_str s' = take newsize (sds_str s) \<and>
    (sds_type s' \<noteq> SDS_TYPE_5 \<longrightarrow> sdsalloc s' = newsize)"
proof (cases "sdsalloc s = newsize")
  case True
  moreover have "take newsize (sds_str s) = sds_str s" using ok True by (simp add: sds_ok_def)
  ultimately show ?thesis using ok by (simp add: sdsResize_def Let_def)
next
  case False
  define l where "l = (if newsize < hdr_len s then newsize else hdr_len s)"
  define t where "t = (if would_regrow \<and> sdsReqType newsize = SDS_TYPE_5 then SDS_TYPE_8 else sdsReqType newsize)"
  define re where "re \<longleftrightarrow> sds_type s = t \<or> (sds_type_code t < sds_type_code (sds_type s) \<and> sds_type_code SDS_TYPE_8 < sds_type_code t)"
  define h where "h = (if re then sdsHdrSize (sds_type s) else sdsHdrSize t)"
  define sl where "sl = alloc_slack A (h + newsize + 1)"
  define opt where "opt \<longleftrightarrow> use_jemalloc A \<and> h + newsize + 1 + sl = sdsHdrSize (sds_type s) + length (sds_buf s)"
  have l: "l \<le> newsize" "l \<le> hdr_len s" "hdr_len s < length (sds_buf s)"
    "take l (sds_str s) = take newsize (sds_str s)"
    using ok by (auto simp: l_def sds_ok_def)
  have t: "newsize \<le> sdsTypeMaxSize t" using sdsReqType_fits [of newsize] len by (auto simp: t_def)
  have h: "1 \<le> h" "h \<le> 17" using sdsHdrSize_bound by (simp_all add: h_def)
  have req: "(if re then (sdsHdrSize (sds_type s) + newsize + 1) mod 2 ^ 64 else (sdsHdrSize t + newsize + 1) mod 2 ^ 64) = h + newsize + 1"
    using h len by (cases re) (auto simp: h_def)
  have real: "h + newsize + 1 + sl - h = newsize + 1 + sl" by simp
  have hs: "re \<Longrightarrow> sdsHdrSize (sds_type s) = h" "\<not> re \<Longrightarrow> sdsHdrSize t = h" by (simp_all add: h_def)
  have body: "sdsResize A s newsize would_regrow = do {
      s \<leftarrow> (if re \<and> \<not> opt then Some (s\<lparr>sds_buf := mem_resize (alloc_junk A) (sds_buf s) (newsize + 1 + sl)\<rparr>)
           else if \<not> opt then do { bs \<leftarrow> mem_read (sds_buf s) 0 l;
                     buf_write (s\<lparr>sds_type := t, sds_buf := fresh_block A (newsize + 1 + sl)\<rparr>) 0 bs }
           else Some s);
      s \<leftarrow> buf_put s l 0;
      Some (sdssetalloc (sdssetlen s l) newsize) }"
    using False unfolding sdsResize_def Let_def sdslen_def t_def [symmetric] l_def [symmetric] re_def [symmetric] req sl_def [symmetric] opt_def [symmetric]
    by (simp add: hs)
  consider (opt) opt | (re) "\<not> opt" re | (copy) "\<not> opt" "\<not> re" by blast
  then show ?thesis
  proof cases
    case opt
    have "newsize \<le> sdsTypeMaxSize (sds_type s)" "newsize < length (sds_buf s)"
      using opt je ok by (auto simp: opt_def sds_ok_def)
    from sds_resize_finish [OF ok l(1) this refl l(2)] show ?thesis using opt l(4) unfolding body by auto
  next
    case re
    have "newsize \<le> sdsTypeMaxSize (sds_type s)"
      using re t sdsReqType_mono [of newsize "sds_type s"] len by (auto simp: re_def t_def split: if_splits)
    from sds_resize_finish [OF ok l(1) this, of "mem_resize (alloc_junk A) (sds_buf s) (newsize + 1 + sl)"]
    show ?thesis using re l unfolding body by (auto simp: take_mem_resize)
  next
    case copy
    let ?bs = "take l (sds_buf s)"
    from sds_resize_finish [OF ok l(1) t, of "?bs @ drop (length ?bs) (fresh_block A (newsize + 1 + sl))"]
    show ?thesis using copy l unfolding body by (auto simp: mem_read_eq buf_write_eq)
  qed
qed

lemma sdsRemoveFreeSpace_ok:
  assumes "sds_ok s" "hdr_len s < 2 ^ 63"
  shows "\<exists>s'. sdsRemoveFreeSpace A s regrow = Some s' \<and> sds_ok s' \<and> sds_str s' = sds_str s"
proof -
  have "hdr_len s \<le> sdsalloc s" using assms(1) by (simp add: sds_ok_def)
  then show ?thesis using sdsResize_ok [OF assms(1) _ assms(2), of A regrow] assms(1)
    by (auto simp: sdsRemoveFreeSpace_def sdslen_def)
qed

lemma sdsResize_optimal:
  assumes ok: "sds_ok s" and ty: "sds_type s = SDS_TYPE_8" and n: "255 < newsize" "newsize < 65536"
    and je: "use_jemalloc A" "5 + newsize + 1 + alloc_slack A (5 + newsize + 1) = 3 + length (sds_buf s)"
  shows "sdsResize A s newsize would_regrow = Some (s\<lparr>hdr_alloc := newsize mod 256\<rparr>)"
proof -
  have ty': "sdsReqType newsize = SDS_TYPE_16" using n by (simp add: sdsReqType_def)
  have okf: "hdr_len s \<le> 255" "hdr_alloc s \<le> 255" "hdr_len s < length (sds_buf s)" "sds_buf s ! hdr_len s = 0"
    using ok ty by (simp_all add: sds_ok_def sdsalloc_def)
  have z: "(sds_buf s)[hdr_len s := 0] = sds_buf s" using okf(4) by (metis list_update_id)
  have e: "(6 + newsize) mod 18446744073709551616 = 6 + newsize" using n by simp
  have m: "\<not> newsize < hdr_len s" "sdsalloc s \<noteq> newsize" "hdr_len s mod 256 = hdr_len s"
    using okf n ty by (simp_all add: sdsalloc_def)
  have opt: "6 + newsize + alloc_slack A (6 + newsize) = 3 + length (sds_buf s)" using je(2) by (simp add: add.commute)
  show ?thesis unfolding sdsResize_def Let_def sdslen_def ty'
    by (simp add: ty m e opt je(1) buf_put_eq okf z sdssetlen_def sdssetalloc_def del: One_nat_def add_Suc_right)
qed

lemma incr_ok_eq:
  assumes ok: "sds_ok s" and ty: "sds_type s \<noteq> SDS_TYPE_5" and i: "- (2 ^ 32) < incr" "incr < 2 ^ 32"
  shows "incr_ok s incr \<longleftrightarrow> 0 \<le> int (hdr_len s) + incr \<and> int (hdr_len s) + incr \<le> int (hdr_alloc s)"
proof -
  have a: "hdr_len s \<le> hdr_alloc s" "hdr_alloc s \<le> sdsTypeMaxSize (sds_type s)"
    using ok ty by (simp_all add: sds_ok_def sdsalloc_def)
  show ?thesis
  proof (cases "incr < 0")
    case True
    then have "(- incr) mod 2 ^ 32 = - incr" using i by simp
    then show ?thesis using a ty True by (cases "sds_type s") (auto simp: incr_ok_def Let_def wrap_sub_eq)
  next
    case False
    then have "incr mod 2 ^ 32 = incr" using i by simp
    then show ?thesis using a ty False by (cases "sds_type s") (auto simp: incr_ok_def Let_def wrap_sub_eq)
  qed
qed

lemma sdsIncrLen_ok:
  assumes ok: "sds_ok s" and ty: "sds_type s \<noteq> SDS_TYPE_5" and i: "- (2 ^ 32) < incr" "incr < 2 ^ 32"
  shows "sdsIncrLen s incr =
    (let n = int (hdr_len s) + incr in
     if 0 \<le> n \<and> n \<le> int (hdr_alloc s) then Some (s\<lparr>hdr_len := nat n, sds_buf := (sds_buf s)[nat n := 0]\<rparr>) else None)"
proof (cases "incr_ok s incr")
  case True
  define n where "n = nat (int (hdr_len s) + incr)"
  have r: "int (hdr_len s) + incr = int n" "n \<le> hdr_alloc s"
    using True incr_ok_eq [OF assms] by (auto simp: n_def nat_le_iff)
  have "n \<le> sdsalloc s" using r ty by (simp add: sdsalloc_def)
  note b = sds_ok_alloc [OF ok this]
  have "int n mod 2 ^ sds_type_bits (sds_type s) = int (n mod 2 ^ sds_type_bits (sds_type s))"
    by (simp add: zmod_int)
  then have "nat (int n mod 2 ^ sds_type_bits (sds_type s)) = n" by (simp only: mod_type_bits [OF b(1)] nat_int)
  then show ?thesis using True b r ty by (simp add: sdsIncrLen_def Let_def assert_opt_def buf_put_eq)
next
  case False
  then show ?thesis using incr_ok_eq [OF assms] by (auto simp: sdsIncrLen_def Let_def assert_opt_def)
qed

section \<open>The append interface\<close>

text \<open>What a client that only appends relies on: every append succeeds while the total stays
  below a bound, keeps the invariant and extends the contents.\<close>

fun append_all :: "('s \<Rightarrow> bytes \<Rightarrow> 's option) \<Rightarrow> 's \<Rightarrow> bytes list \<Rightarrow> 's option" where
  "append_all cat s [] = Some s"
| "append_all cat s (t # ts) = do { s \<leftarrow> cat s t; append_all cat s ts }"

locale string_buffer =
  fixes ok :: "'s \<Rightarrow> bool"
    and str :: "'s \<Rightarrow> bytes"
    and cat :: "'s \<Rightarrow> bytes \<Rightarrow> 's option"
    and bound :: nat
  assumes cat_law: "ok s \<Longrightarrow> length (str s) + length t < bound \<Longrightarrow>
      \<exists>s'. cat s t = Some s' \<and> ok s' \<and> str s' = str s @ t"
begin

lemma append_all_law:
  "ok s \<Longrightarrow> length (str s) + length (concat ts) < bound \<Longrightarrow>
   \<exists>s'. append_all cat s ts = Some s' \<and> ok s' \<and> str s' = str s @ concat ts"
proof (induction ts arbitrary: s)
  case (Cons t ts)
  obtain s1 where "cat s t = Some s1" "ok s1" "str s1 = str s @ t"
    using cat_law [OF Cons.prems(1), of t] Cons.prems(2) by auto
  then show ?case using Cons.IH [of s1] Cons.prems(2) by auto
qed simp

end

interpretation sds_buffer: string_buffer sds_ok sds_str "sdscatlen A" "2 ^ 63" for A
  using sdscatlen_ok length_sds_str by unfold_locales metis

section \<open>Programs over one string\<close>

text \<open>The operations a client applies to a string, what each does to the code's string, what it
  means for the byte sequence, and what it needs: lengths below \<open>2 ^ 63\<close>, and with jemalloc that
  \<^verbatim>\<open>sdsResize\<close> is not asked for more bytes than the string has. The only caller of \<^verbatim>\<open>sdsResize\<close> outside of its tests,
  \<^verbatim>\<open>sdsRemoveFreeSpace\<close>, passes the length of the string.\<close>

datatype sds_op =
    Cat bytes | Cpy bytes | Grow_Zero nat | Make_Room nat | Range int int | Trim bytes | Clear
  | Resize nat bool | Remove_Free bool | Dup

fun sds_step :: "allocator \<Rightarrow> sds_op \<Rightarrow> sds \<Rightarrow> sds option" where
  "sds_step A (Cat t) s = sdscatlen A s t"
| "sds_step A (Cpy t) s = sdscpylen A s t"
| "sds_step A (Grow_Zero n) s = sdsgrowzero A s n"
| "sds_step A (Make_Room n) s = sdsMakeRoomFor A s n"
| "sds_step A (Range i j) s = sdsrange s i j"
| "sds_step A (Trim cset) s = sdstrim s cset"
| "sds_step A Clear s = sdsclear s"
| "sds_step A (Resize n regrow) s = sdsResize A s n regrow"
| "sds_step A (Remove_Free regrow) s = sdsRemoveFreeSpace A s regrow"
| "sds_step A Dup s = sdsdup A s"

definition slice :: "int \<Rightarrow> int \<Rightarrow> 'a list \<Rightarrow> 'a list" where
  "slice i j xs =
     (let a = (if i < 0 then int (length xs) + i else i); z = (if j < 0 then int (length xs) + j else j) in
      if 0 \<le> a \<and> a \<le> z then take (nat (z - a + 1)) (drop (nat a) xs) else [])"

fun str_step :: "sds_op \<Rightarrow> bytes \<Rightarrow> bytes" where
  "str_step (Cat t) xs = xs @ t"
| "str_step (Cpy t) xs = t"
| "str_step (Grow_Zero n) xs = xs @ replicate (n - length xs) 0"
| "str_step (Make_Room n) xs = xs"
| "str_step (Range i j) xs = slice i j xs"
| "str_step (Trim cset) xs = strip (in_cset cset) xs"
| "str_step Clear xs = []"
| "str_step (Resize n regrow) xs = take n xs"
| "str_step (Remove_Free regrow) xs = xs"
| "str_step Dup xs = xs"

fun op_fits :: "allocator \<Rightarrow> sds_op \<Rightarrow> bytes \<Rightarrow> bool" where
  "op_fits A (Cat t) xs \<longleftrightarrow> length xs + length t < 2 ^ 63"
| "op_fits A (Cpy t) xs \<longleftrightarrow> length t < 2 ^ 63"
| "op_fits A (Grow_Zero n) xs \<longleftrightarrow> n < 2 ^ 63"
| "op_fits A (Make_Room n) xs \<longleftrightarrow> length xs + n < 2 ^ 63"
| "op_fits A (Range i j) xs \<longleftrightarrow> i \<in> {- (2 ^ 63) ..< 2 ^ 63} \<and> j \<in> {- (2 ^ 63) ..< 2 ^ 63}"
| "op_fits A (Resize n regrow) xs \<longleftrightarrow> n < 2 ^ 63 \<and> (use_jemalloc A \<longrightarrow> n \<le> length xs)"
| "op_fits A op xs \<longleftrightarrow> True"

fun sds_run :: "allocator \<Rightarrow> sds_op list \<Rightarrow> sds \<Rightarrow> sds option" where
  "sds_run A [] s = Some s"
| "sds_run A (op # ops) s = do { s \<leftarrow> sds_step A op s; sds_run A ops s }"

fun ops_fit :: "allocator \<Rightarrow> sds_op list \<Rightarrow> bytes \<Rightarrow> bool" where
  "ops_fit A [] xs \<longleftrightarrow> length xs < 2 ^ 63"
| "ops_fit A (op # ops) xs \<longleftrightarrow> length xs < 2 ^ 63 \<and> op_fits A op xs \<and> ops_fit A ops (str_step op xs)"

lemma sds_step_refines:
  assumes ok: "sds_ok s" and len: "length (sds_str s) < 2 ^ 63"
    and fits: "op_fits A op (sds_str s)"
  shows "\<exists>s'. sds_step A op s = Some s' \<and> sds_ok s' \<and> sds_str s' = str_step op (sds_str s)"
proof -
  have n: "hdr_len s < 2 ^ 63" using ok len by simp
  have al: "hdr_len s \<le> sdsalloc s" using ok by (simp add: sds_ok_def)
  show ?thesis
  proof (cases op)
    case (Range i j)
    show ?thesis unfolding Range sds_step.simps str_step.simps slice_def Let_def length_sds_str [OF ok]
      by (rule sdsrange_ok [OF ok n]) (use fits Range in simp_all)
  next
    case (Remove_Free regrow)
    then show ?thesis using sdsResize_ok [OF ok _ n, of A regrow] ok al
      by (auto simp: sdsRemoveFreeSpace_def sdslen_def)
  next
    case (Resize k regrow)
    then show ?thesis using sdsResize_ok [OF ok, of A k regrow] fits ok al by auto
  next
    case (Make_Room k)
    then show ?thesis using sds_ok_room [OF ok, of k A] fits ok by auto
  next
    case (Grow_Zero k)
    then show ?thesis using sdsgrowzero_ok [OF ok, of k A] fits ok by (auto simp: sdslen_def)
  next
    case (Cat t)
    then show ?thesis using sdscatlen_ok [OF ok, of t A] fits ok by auto
  qed (use ok n fits sdscpylen_ok [OF ok] sdstrim_ok [OF ok] sdsclear_ok [OF ok] sdsdup_ok [OF ok] in auto)
qed

lemma sds_run_refines:
  "\<lbrakk>sds_ok s; ops_fit A ops (sds_str s)\<rbrakk> \<Longrightarrow>
   \<exists>s'. sds_run A ops s = Some s' \<and> sds_ok s' \<and> sds_str s' = fold str_step ops (sds_str s)"
proof (induction ops arbitrary: s)
  case (Cons op ops)
  then obtain s1 where "sds_step A op s = Some s1" "sds_ok s1" "sds_str s1 = str_step op (sds_str s)"
    using sds_step_refines [of s A op] by auto
  then show ?case using Cons.IH [of s1] Cons.prems by auto
qed simp

section \<open>Properties\<close>

text \<open>C4: Any sequence of operations applied to a fresh empty string (append, overwrite, grow with
  zeroes, make room, cut a range, trim, clear, resize, shrink to fit, duplicate) runs without a
  failed assertion and without leaving the buffer, keeps the header consistent (length within the
  allocation, allocation within the header type and the block, terminating zero in place), and
  leaves exactly the bytes the same operations give on plain byte sequences. This holds for every
  allocator, with and without the jemalloc shortcut of \<^verbatim>\<open>sdsResize\<close>. Lengths must stay below \<open>2 ^ 63\<close>, and with
  jemalloc \<^verbatim>\<open>sdsResize\<close> may only be asked for a size up to the length of the string.\<close>

theorem sds_program_refines:
  assumes "ops_fit A ops []"
  shows "\<exists>s. do { s \<leftarrow> sdsempty A; sds_run A ops s } = Some s \<and> sds_ok s \<and> sds_str s = fold str_step ops []"
proof -
  obtain s where s: "sdsempty A = Some s" "sds_ok s" "sds_str s = []" using sdsempty_ok [of A] by blast
  then show ?thesis using sds_run_refines [OF s(2), of A ops] assms by simp
qed

definition plain_allocator :: allocator where
  "plain_allocator = \<lparr>alloc_slack = (\<lambda>n. 7), alloc_junk = (\<lambda>i. 255), use_jemalloc = False\<rparr>"

definition jemalloc_320 :: allocator where
  "jemalloc_320 = \<lparr>alloc_slack = (\<lambda>n. if n \<le> 320 then 320 - n else 0), alloc_junk = (\<lambda>i. 0), use_jemalloc = True\<rparr>"

theorem sds_program_refines_witness:
  "(\<exists>s. do { s \<leftarrow> sdsempty plain_allocator; sds_run plain_allocator [Cat [32, 65, 66, 32], Trim [32], Grow_Zero 3, Range 1 (-1), Resize 9 False] s } = Some s
     \<and> sds_ok s \<and> sds_str s = [66, 0]) \<and>
   (\<exists>s. do { s \<leftarrow> sdsempty jemalloc_320; sds_run jemalloc_320 [Cat [32, 65, 66, 32], Trim [32], Resize 1 False, Remove_Free True] s } = Some s
     \<and> sds_ok s \<and> sds_str s = [65])"
proof
  let ?ops = "[Cat [32, 65, 66, 32], Trim [32], Grow_Zero 3, Range 1 (-1), Resize 9 False]"
  have str: "fold str_step ?ops [] = [66, 0]" by (simp add: strip_def in_cset_def slice_def)
  have "ops_fit plain_allocator ?ops []" by (simp add: strip_def in_cset_def slice_def plain_allocator_def)
  from sds_program_refines [OF this] show "\<exists>s. do { s \<leftarrow> sdsempty plain_allocator; sds_run plain_allocator ?ops s } = Some s
     \<and> sds_ok s \<and> sds_str s = [66, 0]" unfolding str .
next
  let ?ops = "[Cat [32, 65, 66, 32], Trim [32], Resize 1 False, Remove_Free True]"
  have str: "fold str_step ?ops [] = [65]" by (simp add: strip_def in_cset_def)
  have "ops_fit jemalloc_320 ?ops []" by (simp add: strip_def in_cset_def)
  from sds_program_refines [OF this] show "\<exists>s. do { s \<leftarrow> sdsempty jemalloc_320; sds_run jemalloc_320 ?ops s } = Some s
     \<and> sds_ok s \<and> sds_str s = [65]" unfolding str .
qed

text \<open>C20: With jemalloc, resizing a string whose header has an 8-bit \<^verbatim>\<open>alloc\<close> field to a larger size that
  the allocator would serve from a block of the size already held keeps the header type and stores
  the new size modulo 256. If the string is longer than that remainder, its length now exceeds its
  recorded allocation.\<close>

theorem sdsResize_truncates_alloc:
  assumes "sds_ok s" "sds_type s = SDS_TYPE_8" "255 < newsize" "newsize < 65536" "use_jemalloc A"
    and "5 + newsize + 1 + alloc_slack A (5 + newsize + 1) = 3 + length (sds_buf s)"
    and "newsize mod 256 < sdslen s"
  shows "\<exists>s'. sdsResize A s newsize would_regrow = Some s' \<and> sdsalloc s' = newsize mod 256 \<and> sdsalloc s' < sdslen s' \<and> \<not> sds_ok s'"
  using sdsResize_optimal [OF assms(1-6)] assms(2,7) by (auto simp: sdsalloc_def sdslen_def sds_ok_def)

theorem sdsResize_truncates_alloc_witness:
  "\<exists>s s'. sdsnewlen jemalloc_320 (Init (replicate 200 97)) 200 = Some s \<and> sdslen s = 200 \<and>
     sdsResize jemalloc_320 s 300 False = Some s' \<and> sdsalloc s' = 44 \<and> sdsalloc s' < sdslen s' \<and> \<not> sds_ok s'"
proof -
  let ?A = jemalloc_320 and ?t = "replicate 200 97 :: bytes"
  obtain s where s: "sdsnewlen ?A (Init ?t) 200 = Some s" "sds_ok s" "sds_str s = ?t"
    using sdsnewlen_ok [of 200 ?t ?A] by auto
  have len: "sdslen s = 200" using s(2,3) length_sds_str [of s] by (simp add: sdslen_def)
  have "sds_type s = SDS_TYPE_8 \<and> length (sds_buf s) = 317"
    using s(1) by (simp add: sdsnewlen_def sds_newlen_def Let_def sdsReqType_def assert_opt_def jemalloc_320_def
      mem_read_eq buf_write_eq buf_put_eq split: if_splits) (auto simp: fresh_block_def)
  then have "\<exists>s'. sdsResize ?A s 300 False = Some s' \<and> sdsalloc s' = 300 mod 256 \<and> sdsalloc s' < sdslen s' \<and> \<not> sds_ok s'"
    using s(2) len by (intro sdsResize_truncates_alloc) (simp_all add: jemalloc_320_def)
  then show ?thesis using s(1) len by auto
qed

end
