(* ===== verification/Sds_Text.thy ===== *)
theory Sds_Text
  imports Sds Util_Num "HOL-Library.Sublist"
begin

text \<open>
  Models the functions of \<^verbatim>\<open>src/sds.c\<close> that produce and take apart text: number formatting, \<^verbatim>\<open>sdscatfmt\<close>,
  splitting and joining, the escaped representation \<^verbatim>\<open>sdscatrepr\<close> and the argument parser \<^verbatim>\<open>sdssplitargs\<close>.

  A C string argument is a block of memory that is read byte by byte. The functions of
  \<^verbatim>\<open>ctype.h\<close> are those of the C locale. \<open>None\<close> is a failed assertion or an access out of bounds.
\<close>

section \<open>C strings\<close>

definition isspace :: "byte \<Rightarrow> bool" where
  "isspace c \<longleftrightarrow> c = 32 \<or> (9 \<le> c \<and> c \<le> 13)"

definition isprint :: "byte \<Rightarrow> bool" where
  "isprint c \<longleftrightarrow> 32 \<le> c \<and> c \<le> 126"

definition tolower :: "byte \<Rightarrow> byte" where
  "tolower c = (if 65 \<le> c \<and> c \<le> 90 then c + 32 else c)"

definition toupper :: "byte \<Rightarrow> byte" where
  "toupper c = (if 97 \<le> c \<and> c \<le> 122 then c - 32 else c)"

text \<open>The C string in a block: its bytes up to the first zero byte, which must be in the block.\<close>

fun cstr :: "bytes \<Rightarrow> bytes option" where
  "cstr [] = None"
| "cstr (c # cs) = (if c = 0 then Some [] else do { t \<leftarrow> cstr cs; Some (c # t) })"

definition sdscat :: "allocator \<Rightarrow> sds \<Rightarrow> bytes \<Rightarrow> sds option" where
  "sdscat A s t = do { t \<leftarrow> cstr t; sdscatlen A s t }"

definition sdscpy :: "allocator \<Rightarrow> sds \<Rightarrow> bytes \<Rightarrow> sds option" where
  "sdscpy A s t = do { t \<leftarrow> cstr t; sdscpylen A s t }"

section \<open>Numbers\<close>

definition SDS_LLSTR_SIZE :: nat where
  "SDS_LLSTR_SIZE = 21"

text \<open>The loop that writes the digits in reverse order.\<close>

function rev_digits :: "bytes \<Rightarrow> nat \<Rightarrow> u64 \<Rightarrow> (bytes \<times> nat) option" where
  "rev_digits s p v = do {
     s \<leftarrow> mem_put s p (48 + ucast (v mod 10));
     let v = v div 10;
     if v \<noteq> 0 then rev_digits s (p + 1) v else Some (s, p + 1) }"
  by pat_completeness auto

text \<open>The loop that reverses the text between the positions \<open>i\<close> and \<open>p\<close>.\<close>

function rev_swap :: "bytes \<Rightarrow> nat \<Rightarrow> nat \<Rightarrow> bytes option" where
  "rev_swap s i p =
     (if i < p then do {
        aux \<leftarrow> mem_get s i;
        c \<leftarrow> mem_get s p;
        s \<leftarrow> mem_put s i c;
        s \<leftarrow> mem_put s p aux;
        rev_swap s (i + 1) (p - 1) }
      else Some s)"
  by pat_completeness auto
termination by (relation "measure (\<lambda>(_, i, p). p - i)") auto

lemma u64_div10_less: "v div 10 \<noteq> (0 :: u64) \<Longrightarrow> unat (v div 10) < unat v"
  by (auto simp: unat_div word_unat_eq_iff)

termination rev_digits
  by (relation "measure (\<lambda>(_, _, v). unat v)") (auto simp: u64_div10_less)

declare rev_digits.simps [simp del] rev_swap.simps [simp del]

definition sdsll2str :: "bytes \<Rightarrow> s64 \<Rightarrow> (bytes \<times> nat) option" where
  "sdsll2str s value =
     (let v = (if sint value < 0 then - value else value) in do {
        (s, p) \<leftarrow> rev_digits s 0 v;
        (s, p) \<leftarrow> (if sint value < 0 then do { s \<leftarrow> mem_put s p 45; Some (s, p + 1) } else Some (s, p));
        let l = p;
        s \<leftarrow> mem_put s p 0;
        s \<leftarrow> rev_swap s 0 (p - 1);
        Some (s, l) })"

definition sdsull2str :: "bytes \<Rightarrow> u64 \<Rightarrow> (bytes \<times> nat) option" where
  "sdsull2str s v = do {
     (s, p) \<leftarrow> rev_digits s 0 v;
     let l = p;
     s \<leftarrow> mem_put s p 0;
     s \<leftarrow> rev_swap s 0 (p - 1);
     Some (s, l) }"

definition sdsfromlonglong :: "allocator \<Rightarrow> s64 \<Rightarrow> sds option" where
  "sdsfromlonglong A value = do {
     (buf, len) \<leftarrow> sdsll2str (fresh_block A SDS_LLSTR_SIZE) value;
     sdsnewlen A (Init buf) len }"

section \<open>Formatting\<close>

text \<open>The variable arguments; reading one at another type than it has is undefined.\<close>

datatype fmt_arg = Arg_cstr bytes | Arg_sds sds | Arg_int "32 word" | Arg_ll s64 | Arg_uint u32 | Arg_ull u64

text \<open>\<^verbatim>\<open>if (sdsavail(s) < l) s = sdsMakeRoomFor(s, l); memcpy(s + i, str, l); sdsinclen(s, l); i += l;\<close>\<close>

definition fmt_append :: "allocator \<Rightarrow> sds \<Rightarrow> nat \<Rightarrow> bytes \<Rightarrow> nat \<Rightarrow> (sds \<times> nat) option" where
  "fmt_append A s i str l = do {
     s \<leftarrow> (if sdsavail s < l then sdsMakeRoomFor A s l else Some s);
     bs \<leftarrow> mem_read str 0 l;
     s \<leftarrow> buf_write s i bs;
     Some (sdsinclen s l, i + l) }"

definition fmt_char :: "sds \<Rightarrow> nat \<Rightarrow> byte \<Rightarrow> (sds \<times> nat) option" where
  "fmt_char s i c = do { s \<leftarrow> buf_put s i c; Some (sdsinclen s 1, i + 1) }"

text \<open>The inner switch, on the character \<open>next\<close> after the percent sign. The result holds the arguments left.\<close>

definition fmt_spec :: "allocator \<Rightarrow> sds \<Rightarrow> nat \<Rightarrow> byte \<Rightarrow> fmt_arg list \<Rightarrow> ((sds \<times> nat) \<times> fmt_arg list) option" where
  "fmt_spec A s i next ap =
     (if next = 115 then
        (case ap of Arg_cstr str # ap \<Rightarrow> do { t \<leftarrow> cstr str; r \<leftarrow> fmt_append A s i str (length t); Some (r, ap) } | _ \<Rightarrow> None)
      else if next = 83 then
        (case ap of Arg_sds str # ap \<Rightarrow> do { r \<leftarrow> fmt_append A s i (sds_buf str) (sdslen str); Some (r, ap) } | _ \<Rightarrow> None)
      else if next = 105 \<or> next = 73 then do {
        (num, ap) \<leftarrow> (if next = 105 then (case ap of Arg_int x # ap \<Rightarrow> Some (scast x, ap) | _ \<Rightarrow> None)
                     else (case ap of Arg_ll x # ap \<Rightarrow> Some (x, ap) | _ \<Rightarrow> None));
        (buf, l) \<leftarrow> sdsll2str (fresh_block A SDS_LLSTR_SIZE) num;
        r \<leftarrow> fmt_append A s i buf l;
        Some (r, ap) }
      else if next = 117 \<or> next = 85 then do {
        (unum, ap) \<leftarrow> (if next = 117 then (case ap of Arg_uint x # ap \<Rightarrow> Some (ucast x, ap) | _ \<Rightarrow> None)
                      else (case ap of Arg_ull x # ap \<Rightarrow> Some (x, ap) | _ \<Rightarrow> None));
        (buf, l) \<leftarrow> sdsull2str (fresh_block A SDS_LLSTR_SIZE) unum;
        r \<leftarrow> fmt_append A s i buf l;
        Some (r, ap) }
      else do { r \<leftarrow> fmt_char s i next; Some (r, ap) })"

function fmt_loop :: "allocator \<Rightarrow> sds \<Rightarrow> nat \<Rightarrow> bytes \<Rightarrow> nat \<Rightarrow> fmt_arg list \<Rightarrow> (sds \<times> nat) option" where
  "fmt_loop A s i fmt f ap = do {
     c \<leftarrow> mem_get fmt f;
     if c \<noteq> 0 then do {
       s \<leftarrow> (if sdsavail s = 0 then sdsMakeRoomFor A s 1 else Some s);
       if c = 37 then do {
         next \<leftarrow> mem_get fmt (f + 1);
         ((s, i), ap) \<leftarrow> fmt_spec A s i next ap;
         fmt_loop A s i fmt (f + 1 + 1) ap }
       else do {
         (s, i) \<leftarrow> fmt_char s i c;
         fmt_loop A s i fmt (f + 1) ap } }
     else Some (s, i) }"
  by pat_completeness auto
termination by (relation "measure (\<lambda>(_, _, _, fmt, f, _). length fmt - f)") (auto simp: mem_get_def split: if_splits)

declare fmt_loop.simps [simp del]

definition sdscatfmt :: "allocator \<Rightarrow> sds \<Rightarrow> bytes \<Rightarrow> fmt_arg list \<Rightarrow> sds option" where
  "sdscatfmt A s fmt ap =
     (let initlen = sdslen s in do {
        n \<leftarrow> cstr fmt;
        s \<leftarrow> sdsMakeRoomFor A s (length n * 2);
        (s, i) \<leftarrow> fmt_loop A s initlen fmt 0 ap;
        buf_put s i 0 })"


section \<open>Numbers\<close>

lemma mem_put_mid: "r \<noteq> [] \<Longrightarrow> mem_put (a @ r) (length a) x = Some (a @ x # tl r)"
  by (cases r) (simp_all add: mem_put_def)

lemma mem_get_mid: "mem_get (a @ x # r) (length a) = Some x"
  by (simp add: mem_get_def)

lemma byte_digit: "(48 + ucast (v mod 10) :: byte) = 48 + word_of_nat (unat (v :: u64) mod 10)"
proof -
  have "unat (ucast (v mod 10) :: byte) = unat v mod 10"
    using order.strict_trans [of "unat v mod 10" 10 256] by (simp add: unsigned_ucast_eq unat_mod take_bit_nat_eq_self)
  then have "(ucast (v mod 10) :: byte) = word_of_nat (unat v mod 10)"
    by (metis of_nat_unat ucast_id)
  then show ?thesis by simp
qed

lemma rev_digits_eq:
  "length (dec_nat (unat v)) \<le> length r \<Longrightarrow>
   rev_digits (a @ r) (length a) v =
     Some (a @ rev (dec_nat (unat v)) @ drop (length (dec_nat (unat v))) r, length a + length (dec_nat (unat v)))"
proof (induction "unat v" arbitrary: v a r rule: less_induct)
  case less
  let ?d = "48 + word_of_nat (unat v mod 10) :: byte"
  have r: "r \<noteq> []" using less.prems by auto
  have put: "mem_put (a @ r) (length a) (48 + ucast (v mod 10)) = Some (a @ ?d # tl r)"
    using r by (simp add: mem_put_mid byte_digit)
  show ?case
  proof (cases "v div 10 = 0")
    case True
    then have lt: "unat v < 10" by (simp add: word_unat_eq_iff unat_div)
    then have "dec_nat (unat v) = [?d]" by (simp add: dec_nat.simps)
    then show ?thesis using put True by (subst rev_digits.simps) (simp add: drop_Suc)
  next
    case False
    then have ge: "\<not> unat v < 10" by (simp add: word_unat_eq_iff unat_div)
    then have d: "dec_nat (unat v) = dec_nat (unat (v div 10)) @ [?d]" by (simp add: dec_nat.simps [of "unat v"] unat_div)
    have "rev_digits ((a @ [?d]) @ tl r) (length (a @ [?d])) (v div 10) =
        Some ((a @ [?d]) @ rev (dec_nat (unat (v div 10))) @ drop (length (dec_nat (unat (v div 10)))) (tl r),
          length (a @ [?d]) + length (dec_nat (unat (v div 10))))"
      by (rule less.hyps) (use u64_div10_less [OF False] less.prems d in auto)
    then show ?thesis using put False unfolding d by (subst rev_digits.simps) (simp add: drop_Suc)
  qed
qed

lemma rev_swap_eq: "rev_swap (a @ m @ b) (length a) (length a + length m - 1) = Some (a @ rev m @ b)"
proof (induction "length m" arbitrary: a m b rule: less_induct)
  case less
  show ?case
  proof (cases "length m \<le> 1")
    case True
    then have "rev m = m" by (cases m) auto
    then show ?thesis using True by (subst rev_swap.simps) auto
  next
    case False
    then obtain x m' y where m: "m = x # m' @ [y]" by (metis One_nat_def append_butlast_last_id length_0_conv length_Cons le_refl list.exhaust list.size(3) zero_le)
    let ?p = "length a + length m - 1"
    have p: "?p = Suc (length a + length m')" by (simp add: m)
    have "rev_swap (a @ m @ b) (length a) ?p = rev_swap (a @ y # m' @ x # b) (length a + 1) (?p - 1)"
      unfolding m by (subst rev_swap.simps) (simp add: mem_get_def mem_put_def nth_append list_update_append)
    also have "\<dots> = rev_swap ((a @ [y]) @ m' @ (x # b)) (length (a @ [y])) (length (a @ [y]) + length m' - 1)"
      by (simp add: m)
    also have "\<dots> = Some ((a @ [y]) @ rev m' @ (x # b))" by (rule less.hyps) (simp add: m)
    finally show ?thesis by (simp add: m)
  qed
qed

lemma number_text:
  assumes "l = length ds" "length ds < length s"
  shows "do { s \<leftarrow> mem_put (rev ds @ drop l s) l 0; s \<leftarrow> rev_swap s 0 (l - 1); Some (s, l) } =
    Some (ds @ 0 # drop (l + 1) s, l)"
proof -
  have put: "mem_put (rev ds @ drop l s) l 0 = Some (rev ds @ 0 # drop (l + 1) s)"
    using mem_put_mid [of "drop l s" "rev ds" 0] assms by (simp add: tl_drop drop_Suc)
  have "rev_swap (rev ds @ 0 # drop (l + 1) s) 0 (l - 1) = Some (ds @ 0 # drop (l + 1) s)"
    using rev_swap_eq [of "[]" "rev ds" "0 # drop (l + 1) s"] assms(1) by simp
  then show ?thesis using put by simp
qed

lemma sdsull2str_eq:
  assumes "length (dec_nat (unat v)) < length s"
  shows "sdsull2str s v = Some (dec_nat (unat v) @ 0 # drop (length (dec_nat (unat v)) + 1) s, length (dec_nat (unat v)))"
  using rev_digits_eq [of v s "[]"] number_text [OF refl assms] assms by (simp add: sdsull2str_def)

lemma sdsll2str_eq:
  assumes "length (dec_int (sint v)) < length s"
  shows "sdsll2str s v = Some (dec_int (sint v) @ 0 # drop (length (dec_int (sint v)) + 1) s, length (dec_int (sint v)))"
proof (cases "sint v < 0")
  case True
  let ?d = "dec_nat (unat (- v))"
  have d: "dec_int (sint v) = 45 # ?d" using True by (simp add: dec_int_def unat_minus_sint_neg)
  have "rev_digits s 0 (- v) = Some (rev ?d @ drop (length ?d) s, length ?d)"
    using rev_digits_eq [of "- v" s "[]"] assms d by simp
  moreover have "mem_put (rev ?d @ drop (length ?d) s) (length ?d) 45 = Some (rev (45 # ?d) @ drop (length ?d + 1) s)"
    using mem_put_mid [of "drop (length ?d) s" "rev ?d" 45] assms d by (simp add: tl_drop drop_Suc)
  ultimately show ?thesis
    using True number_text [of "length ?d + 1" "45 # ?d" s] assms d by (simp add: sdsll2str_def Let_def)
next
  case False
  then have "dec_int (sint v) = dec_nat (unat v)" by (simp add: dec_int_def unat_sint_nonneg)
  then show ?thesis using False rev_digits_eq [of v s "[]"] number_text [OF refl, of "dec_nat (unat v)" s] assms
    by (simp add: sdsll2str_def Let_def)
qed

lemma length_dec_u64: "length (dec_nat (unat (v :: u64))) \<le> 20"
  using length_dec_nat_le [of "unat v" 19] unat_u64_less [of v] by simp

section \<open>Formatting\<close>

text \<open>What a format stands for.\<close>

fun convert :: "byte \<Rightarrow> fmt_arg list \<Rightarrow> (bytes \<times> fmt_arg list) option" where
  "convert next ap =
     (if next = 115 then (case ap of Arg_cstr t # ap \<Rightarrow> do { t \<leftarrow> cstr t; Some (t, ap) } | _ \<Rightarrow> None)
      else if next = 83 then (case ap of Arg_sds t # ap \<Rightarrow> Some (sds_str t, ap) | _ \<Rightarrow> None)
      else if next = 105 then (case ap of Arg_int x # ap \<Rightarrow> Some (dec_int (sint x), ap) | _ \<Rightarrow> None)
      else if next = 73 then (case ap of Arg_ll x # ap \<Rightarrow> Some (dec_int (sint x), ap) | _ \<Rightarrow> None)
      else if next = 117 then (case ap of Arg_uint x # ap \<Rightarrow> Some (dec_nat (unat x), ap) | _ \<Rightarrow> None)
      else if next = 85 then (case ap of Arg_ull x # ap \<Rightarrow> Some (dec_nat (unat x), ap) | _ \<Rightarrow> None)
      else Some ([next], ap))"

declare convert.simps [simp del]

fun format :: "bytes \<Rightarrow> fmt_arg list \<Rightarrow> bytes option" where
  "format [] ap = Some []"
| "format [c] ap = (if c = 37 then None else Some [c])"
| "format (c # d # cs) ap =
     (if c = 37 then do { (t, ap) \<leftarrow> convert d ap; u \<leftarrow> format cs ap; Some (t @ u) }
      else do { u \<leftarrow> format (d # cs) ap; Some (c # u) })"

text \<open>The arguments a format leaves, and formats in which a zero byte only occurs behind a percent sign.\<close>

fun args_left :: "bytes \<Rightarrow> fmt_arg list \<Rightarrow> fmt_arg list" where
  "args_left (c # d # cs) ap =
     (if c = 37 then (case convert d ap of Some (t, ap) \<Rightarrow> args_left cs ap | None \<Rightarrow> ap) else args_left (d # cs) ap)"
| "args_left _ ap = ap"

fun text_nonzero :: "bytes \<Rightarrow> bool" where
  "text_nonzero [] \<longleftrightarrow> True"
| "text_nonzero [c] \<longleftrightarrow> c \<noteq> 0"
| "text_nonzero (c # d # cs) \<longleftrightarrow> c \<noteq> 0 \<and> (if c = 37 then text_nonzero cs else text_nonzero (d # cs))"

definition arg_ok :: "fmt_arg \<Rightarrow> bool" where
  "arg_ok a = (case a of Arg_sds s \<Rightarrow> sds_ok s | _ \<Rightarrow> True)"

lemma sds_fit_str: "sds_fit s \<Longrightarrow> length (sds_str s) = hdr_len s"
  by (simp add: sds_fit_def sds_str_def)

lemma sds_fit_grow:
  assumes "sds_fit s" "hdr_len s + n < 2 ^ 63"
  shows "\<exists>s'. sdsMakeRoomFor A s n = Some s' \<and> sds_fit s' \<and> n \<le> sdsavail s' \<and> hdr_len s' = hdr_len s \<and> sds_str s' = sds_str s"
proof -
  obtain s' where s': "sdsMakeRoomFor A s n = Some s'" "sds_fit s'" "n \<le> sdsavail s'" "hdr_len s' = hdr_len s"
    "take (hdr_len s + 1) (sds_buf s') = take (hdr_len s + 1) (sds_buf s)"
    using sds_fit_room [OF assms, of A] by blast
  have "sds_str s' = take (hdr_len s) (take (hdr_len s + 1) (sds_buf s'))" by (simp add: sds_str_def s'(4))
  also have "\<dots> = sds_str s" unfolding s'(5) by (simp add: sds_str_def)
  finally show ?thesis using s' by blast
qed

lemma sds_fit_write:
  assumes "sds_fit s" "length bs \<le> sdsavail s"
  shows "\<exists>s'. do { s \<leftarrow> buf_write s (hdr_len s) bs; Some (sdsinclen s (length bs)) } = Some s' \<and> sds_fit s' \<and>
    hdr_len s' = hdr_len s + length bs \<and> sds_str s' = sds_str s @ bs"
proof -
  let ?n = "hdr_len s + length bs"
  let ?b = "take (hdr_len s) (sds_buf s) @ bs @ drop ?n (sds_buf s)"
  have n: "?n \<le> sdsalloc s" "sdsalloc s < length (sds_buf s)" "sdsalloc s \<le> sdsTypeMaxSize (sds_type s)"
    using assms sdsavail_fit [OF assms(1)] by (auto simp: sds_fit_def)
  then have m: "?n mod 2 ^ sds_type_bits (sds_type s) = ?n" by (intro mod_type_bits) simp
  let ?s = "s\<lparr>hdr_len := ?n, sds_buf := ?b\<rparr>"
  have "do { s \<leftarrow> buf_write s (hdr_len s) bs; Some (sdsinclen s (length bs)) } = Some ?s"
    using n m by (simp add: buf_write_eq sdsinclen_def)
  moreover have "sds_fit ?s" using n assms(1) by (auto simp: sds_fit_def sdsalloc_def split: if_splits)
  moreover have "sds_str ?s = sds_str s @ bs" using n by (simp add: sds_str_def)
  ultimately show ?thesis by (intro exI [of _ ?s]) simp
qed

lemma fmt_append_eq:
  assumes "sds_fit s" "l \<le> length str" "hdr_len s + l < 2 ^ 63"
  shows "\<exists>s'. fmt_append A s (hdr_len s) str l = Some (s', hdr_len s') \<and> sds_fit s' \<and> sds_str s' = sds_str s @ take l str"
proof -
  obtain s1 where s1: "(if sdsavail s < l then sdsMakeRoomFor A s l else Some s) = Some s1" "sds_fit s1" "l \<le> sdsavail s1"
    "hdr_len s1 = hdr_len s" "sds_str s1 = sds_str s"
    using sds_fit_grow [OF assms(1,3), of A] assms(1) by (cases "sdsavail s < l") auto
  have len: "length (take l str) = l" using assms(2) by simp
  obtain s2 where s2: "do { s \<leftarrow> buf_write s1 (hdr_len s1) (take l str); Some (sdsinclen s l) } = Some s2" "sds_fit s2"
    "hdr_len s2 = hdr_len s1 + l" "sds_str s2 = sds_str s1 @ take l str"
    using sds_fit_write [OF s1(2), of "take l str"] s1(3) unfolding len by blast
  have "fmt_append A s (hdr_len s) str l = Some (s2, hdr_len s2)"
    using s1 s2(1,3) assms(2) by (auto simp: fmt_append_def mem_read_eq split: bind_splits)
  then show ?thesis using s2 s1 by auto
qed

lemma fmt_char_eq:
  assumes "sds_fit s" "0 < sdsavail s"
  shows "\<exists>s'. fmt_char s (hdr_len s) c = Some (s', hdr_len s') \<and> sds_fit s' \<and> sds_str s' = sds_str s @ [c]"
proof -
  have lt: "hdr_len s < length (sds_buf s)" using assms sdsavail_fit [OF assms(1)] by (simp add: sds_fit_def)
  have "buf_put s (hdr_len s) c = buf_write s (hdr_len s) [c]"
    using lt by (simp add: buf_put_eq buf_write_eq upd_conv_take_nth_drop)
  then show ?thesis using sds_fit_write [OF assms(1), of "[c]"] assms(2) by (auto simp: fmt_char_def split: bind_splits)
qed

lemma fmt_append_number:
  assumes "sds_fit s" "hdr_len s + length t < 2 ^ 63" "f = Some (t @ 0 # r, length t)"
  shows "\<exists>s'. do { (buf, l) \<leftarrow> f; x \<leftarrow> fmt_append A s (hdr_len s) buf l; Some (x, ap) } = Some ((s', hdr_len s'), ap) \<and> sds_fit s' \<and>
    sds_str s' = sds_str s @ t"
  using fmt_append_eq [OF assms(1), of "length t" "t @ 0 # r" A] assms(2,3) by auto

lemma sint_scast_int: "sint (scast (x :: 32 word) :: s64) = sint x"
  using sint_ge [of x] sint_lt [of x] by (simp add: signed_scast_eq sint_sbintrunc' signed_take_bit_int_eq_self)

lemma cstr_length: "cstr b = Some t \<Longrightarrow> length t < length b \<and> take (length t) b = t"
  by (induction b arbitrary: t) (auto split: if_splits bind_splits)

lemma dec_int_len: "length (dec_int (sint (x :: 32 word))) \<le> 20"
  using length_dec_int [of "scast x"] by (simp add: sint_scast_int)

lemma dec_u32_len: "length (dec_nat (unat (x :: u32))) \<le> 20"
  using length_dec_u64 [of "ucast x"] by (simp add: unat_ucast_up)

lemma fmt_spec_eq:
  assumes "convert next ap = Some (t, ap')" "list_all arg_ok ap" "sds_fit s" "0 < sdsavail s" "hdr_len s + length t < 2 ^ 63"
  shows "\<exists>s'. fmt_spec A s (hdr_len s) next ap = Some ((s', hdr_len s'), ap') \<and> sds_fit s' \<and> sds_str s' = sds_str s @ t \<and>
    list_all arg_ok ap'"
proof -
  let ?buf = "fresh_block A SDS_LLSTR_SIZE"
  have num: "sdsll2str ?buf x = Some (dec_int (sint x) @ 0 # drop (length (dec_int (sint x)) + 1) ?buf, length (dec_int (sint x)))" for x
    by (rule sdsll2str_eq) (use length_dec_int [of x] in \<open>simp add: SDS_LLSTR_SIZE_def\<close>)
  have unum: "sdsull2str ?buf x = Some (dec_nat (unat x) @ 0 # drop (length (dec_nat (unat x)) + 1) ?buf, length (dec_nat (unat x)))" for x
    by (rule sdsull2str_eq) (use length_dec_u64 [of x] in \<open>simp add: SDS_LLSTR_SIZE_def\<close>)
  note fn = fmt_append_number [OF assms(3,5), of _ _ A ap']
  consider (s) b where "next = 115" "ap = Arg_cstr b # ap'" "cstr b = Some t"
    | (S) x where "next = 83" "ap = Arg_sds x # ap'" "t = sds_str x"
    | (i) x where "next = 105" "ap = Arg_int x # ap'" "t = dec_int (sint x)"
    | (I) x where "next = 73" "ap = Arg_ll x # ap'" "t = dec_int (sint x)"
    | (u) x where "next = 117" "ap = Arg_uint x # ap'" "t = dec_nat (unat x)"
    | (U) x where "next = 85" "ap = Arg_ull x # ap'" "t = dec_nat (unat x)"
    | (other) "next \<notin> {115, 83, 105, 73, 117, 85}" "t = [next]" "ap' = ap"
    using assms(1) by (auto simp: convert.simps split: if_splits list.splits fmt_arg.splits bind_splits)
  then show ?thesis
  proof cases
    case s
    then show ?thesis using cstr_length [OF s(3)] fmt_append_eq [OF assms(3) _ assms(5), of b A] assms(2)
      by (auto simp: fmt_spec_def)
  next
    case S
    have x: "sds_ok x" using assms(2) S by (simp add: arg_ok_def)
    then have "sdslen x = length t" "length t \<le> length (sds_buf x)" "take (length t) (sds_buf x) = t"
      by (auto simp: S sdslen_def sds_ok_def sds_str_def)
    then show ?thesis using fmt_append_eq [OF assms(3) _ assms(5), of "sds_buf x" A] assms(2) S
      by (auto simp: fmt_spec_def)
  next
    case i
    then show ?thesis using fn [OF num [of "scast x", unfolded sint_scast_int, folded i(3)]] assms(2) by (auto simp: fmt_spec_def)
  next
    case I
    then show ?thesis using fn [OF num [of x, folded I(3)]] assms(2) by (auto simp: fmt_spec_def)
  next
    case u
    have x: "unat (ucast x :: u64) = unat x" by (simp add: unat_ucast_up)
    then show ?thesis using fn [OF unum [of "ucast x", unfolded x, folded u(3)]] assms(2) u by (auto simp: fmt_spec_def)
  next
    case U
    then show ?thesis using fn [OF unum [of x, folded U(3)]] assms(2) by (auto simp: fmt_spec_def)
  next
    case other
    then show ?thesis using fmt_char_eq [OF assms(3,4), of "next"] assms(2) by (auto simp: fmt_spec_def)
  qed
qed

lemma sds_fit_one:
  assumes "sds_fit s" "hdr_len s + 1 < 2 ^ 63"
  shows "\<exists>s'. (if sdsavail s = 0 then sdsMakeRoomFor A s 1 else Some s) = Some s' \<and> sds_fit s' \<and> 0 < sdsavail s' \<and>
    hdr_len s' = hdr_len s \<and> sds_str s' = sds_str s"
  using sds_fit_grow [OF assms, of A] assms(1) by (cases "sdsavail s = 0") auto

lemma fmt_loop_upto:
  assumes "format fmt ap = Some out" "list_all arg_ok ap" "text_nonzero fmt" "sds_fit s" "hdr_len s + length out + 1 < 2 ^ 63"
  shows "\<exists>s'. fmt_loop A s (hdr_len s) (pre @ fmt @ post) (length pre) ap =
      fmt_loop A s' (hdr_len s') (pre @ fmt @ post) (length pre + length fmt) (args_left fmt ap) \<and> sds_fit s' \<and>
    sds_str s' = sds_str s @ out \<and> list_all arg_ok (args_left fmt ap)"
  using assms
proof (induction fmt ap arbitrary: s pre out rule: format.induct)
  case (1 ap)
  then show ?case by (intro exI [of _ s]) simp
next
  case (2 c ap)
  have c: "c \<noteq> 37" "c \<noteq> 0" "out = [c]" using 2 by (auto split: if_splits)
  obtain s1 where s1: "(if sdsavail s = 0 then sdsMakeRoomFor A s 1 else Some s) = Some s1" "sds_fit s1" "0 < sdsavail s1"
    "hdr_len s1 = hdr_len s" "sds_str s1 = sds_str s" using sds_fit_one [OF 2(4), of A] 2(5) by auto
  obtain s2 where s2: "fmt_char s1 (hdr_len s1) c = Some (s2, hdr_len s2)" "sds_fit s2" "sds_str s2 = sds_str s1 @ [c]"
    using fmt_char_eq [OF s1(2,3)] by blast
  have "fmt_loop A s (hdr_len s) (pre @ [c] @ post) (length pre) ap = fmt_loop A s2 (hdr_len s2) (pre @ [c] @ post) (length pre + 1) ap"
    using s1 s2 c by (subst fmt_loop.simps) (simp add: mem_get_def)
  then show ?case using s1(5) s2(2,3) c(3) 2(2) by auto
next
  case (3 c d cs ap)
  let ?m = "pre @ (c # d # cs) @ post"
  have c0: "c \<noteq> 0" "mem_get ?m (length pre) = Some c" using 3 by (auto simp: mem_get_def)
  have d: "mem_get ?m (length pre + 1) = Some d" by (simp add: mem_get_def nth_append)
  obtain s1 where s1: "(if sdsavail s = 0 then sdsMakeRoomFor A s 1 else Some s) = Some s1" "sds_fit s1" "0 < sdsavail s1"
    "hdr_len s1 = hdr_len s" "sds_str s1 = sds_str s" using sds_fit_one [OF 3(6), of A] 3(7) by auto
  show ?case
  proof (cases "c = 37")
    case True
    obtain t ap' u where u: "convert d ap = Some (t, ap')" "format cs ap' = Some u" "out = t @ u"
      using 3(3) True by (auto split: bind_splits)
    obtain s2 where s2: "fmt_spec A s1 (hdr_len s1) d ap = Some ((s2, hdr_len s2), ap')" "sds_fit s2" "sds_str s2 = sds_str s1 @ t"
      "list_all arg_ok ap'" using fmt_spec_eq [OF u(1) 3(4) s1(2,3), of A] s1(4) 3(7) u(3) by auto
    have h2: "hdr_len s2 = hdr_len s + length t" using sds_fit_str [OF s2(2)] sds_fit_str [OF s1(2)] s2(3) s1(4) by simp
    have "text_nonzero cs" "hdr_len s2 + length u + 1 < 2 ^ 63" using 3(5,7) True u(3) h2 by auto
    from 3(1) [OF True u(1) refl u(2) s2(4) this(1) s2(2) this(2), of "pre @ [c, d]"]
    show ?thesis using s1 s2 u(1,3) c0 d True by (subst fmt_loop.simps) auto
  next
    case False
    obtain u where u: "format (d # cs) ap = Some u" "out = c # u" using 3(3) False by (auto split: bind_splits)
    obtain s2 where s2: "fmt_char s1 (hdr_len s1) c = Some (s2, hdr_len s2)" "sds_fit s2" "sds_str s2 = sds_str s1 @ [c]"
      using fmt_char_eq [OF s1(2,3)] by blast
    have h2: "hdr_len s2 = hdr_len s + 1" using sds_fit_str [OF s2(2)] sds_fit_str [OF s1(2)] s2(3) s1(4) by simp
    have "text_nonzero (d # cs)" "hdr_len s2 + length u + 1 < 2 ^ 63" using 3(5,7) False u(2) h2 by auto
    from 3(2) [OF False u(1) 3(4) this(1) s2(2) this(2), of "pre @ [c]"]
    show ?thesis using s1 s2 u(2) c0 False by (subst fmt_loop.simps) auto
  qed
qed

lemma text_nonzero_set: "0 \<notin> set fmt \<Longrightarrow> text_nonzero fmt"
  by (induction fmt rule: text_nonzero.induct) auto

lemma fmt_loop_end: "fmt_loop A s i (pre @ 0 # rest) (length pre) ap = Some (s, i)"
  by (subst fmt_loop.simps) (simp add: mem_get_def)

lemma fmt_loop_eq:
  assumes "format fmt ap = Some out" "list_all arg_ok ap" "0 \<notin> set fmt" "sds_fit s" "hdr_len s + length out + 1 < 2 ^ 63"
  shows "\<exists>s'. fmt_loop A s (hdr_len s) (pre @ fmt @ 0 # rest) (length pre) ap = Some (s', hdr_len s') \<and> sds_fit s' \<and>
    sds_str s' = sds_str s @ out"
  using fmt_loop_upto [OF assms(1,2) text_nonzero_set [OF assms(3)] assms(4,5), of A pre "0 # rest"]
    fmt_loop_end [of A _ _ "pre @ fmt" rest] by auto

text \<open>A percent sign at the end of a format that is complete without it takes the terminator as its conversion character.\<close>

lemma format_dangling:
  assumes "format fmt ap = Some out" "0 \<notin> set fmt"
  shows "format (fmt @ [37, 0]) ap = Some (out @ [0]) \<and> text_nonzero (fmt @ [37, 0]) \<and> args_left (fmt @ [37, 0]) ap = args_left fmt ap"
  using assms
proof (induction fmt ap arbitrary: out rule: format.induct)
  case (2 c ap)
  then show ?case by (auto simp: convert.simps split: if_splits)
next
  case (3 c d cs ap)
  then show ?case
  proof (cases "c = 37")
    case True
    obtain t ap' u where u: "convert d ap = Some (t, ap')" "format cs ap' = Some u" "out = t @ u"
      using 3(3) True by (auto split: bind_splits)
    then show ?thesis using 3(1) [OF True u(1) refl u(2)] 3(4) True by simp
  next
    case False
    then show ?thesis using 3(2) [OF False] 3(3,4) by (auto split: bind_splits)
  qed
qed (simp add: convert.simps)

lemma sdsfromlonglong_ok: "\<exists>s. sdsfromlonglong A v = Some s \<and> sds_ok s \<and> sds_str s = dec_int (sint v)"
proof -
  let ?d = "dec_int (sint v)"
  have "length ?d < length (fresh_block A SDS_LLSTR_SIZE)" using length_dec_int [of v] by (simp add: SDS_LLSTR_SIZE_def)
  note n = sdsll2str_eq [OF this]
  have "length ?d < 2 ^ 63" by (rule le_less_trans [OF length_dec_int]) simp
  then show ?thesis using n sdsnewlen_ok [of "length ?d" "?d @ 0 # drop (length ?d + 1) (fresh_block A SDS_LLSTR_SIZE)" A]
    by (simp add: sdsfromlonglong_def)
qed

lemma cstr_append: "0 \<notin> set t \<Longrightarrow> cstr (t @ 0 # r) = Some t"
  by (induction t) auto

lemma terminate_fit:
  assumes "sds_fit s"
  shows "\<exists>s'. buf_put s (hdr_len s) 0 = Some s' \<and> sds_ok s' \<and> sds_str s' = sds_str s"
proof -
  have lt: "hdr_len s < length (sds_buf s)" using assms by (simp add: sds_fit_def)
  let ?s = "s\<lparr>sds_buf := (sds_buf s)[hdr_len s := 0]\<rparr>"
  have "sds_ok ?s" "sds_str ?s = sds_str s"
    using assms lt by (auto simp: sds_ok_def sds_fit_def sds_str_def sdsalloc_def split: if_splits)
  then show ?thesis using lt by (simp add: buf_put_eq)
qed

text \<open>C27: The fast formatter appends what its format says. For a format without a dangling percent sign and
  arguments of the types it names, the buffer grows as needed, every access stays inside of it, and the
  string is extended by the text of the format, integers of all widths in decimal, the extreme values included.\<close>

theorem sdscatfmt_correct:
  assumes "sds_ok s" "list_all arg_ok ap" "0 \<notin> set fmt" "format fmt ap = Some out"
    "length (sds_str s) + 2 * length fmt + length out + 1 < 2 ^ 63"
  shows "\<exists>s'. sdscatfmt A s (fmt @ 0 # rest) ap = Some s' \<and> sds_ok s' \<and> sds_str s' = sds_str s @ out"
proof -
  have fit: "sds_fit s" using assms(1) by (simp add: sds_ok_fit)
  obtain s1 where s1: "sdsMakeRoomFor A s (length fmt * 2) = Some s1" "sds_fit s1" "hdr_len s1 = hdr_len s" "sds_str s1 = sds_str s"
    using sds_fit_grow [OF fit, of "length fmt * 2" A] assms(1,5) by auto
  obtain s2 where s2: "fmt_loop A s1 (hdr_len s1) (fmt @ 0 # rest) 0 ap = Some (s2, hdr_len s2)" "sds_fit s2" "sds_str s2 = sds_str s1 @ out"
    using fmt_loop_eq [OF assms(4,2,3) s1(2), of A "[]" rest] assms(1,5) s1(3) by auto
  have "sdscatfmt A s (fmt @ 0 # rest) ap = buf_put s2 (hdr_len s2) 0"
    using s1 s2(1) cstr_append [OF assms(3)] by (simp add: sdscatfmt_def Let_def sdslen_def)
  then show ?thesis using terminate_fit [OF s2(2)] s1(4) s2(3) by auto
qed

definition example_sds :: sds where
  "example_sds = \<lparr>sds_type = SDS_TYPE_8, hdr_len = 1, hdr_alloc = 2, sds_buf = [65, 0, 0]\<rparr>"

theorem sdscatfmt_correct_witness:
  "\<exists>s'. sdscatfmt plain_allocator example_sds ([58, 37, 73, 37, 37, 37, 115] @ 0 # []) [Arg_ll (- 42), Arg_cstr [66, 0]] = Some s' \<and>
     sds_ok s' \<and> sds_str s' = [65, 58, 45, 52, 50, 37, 66]"
proof -
  have d: "dec_int (- 42) = [45, 52, 50]" by (simp add: dec_int_def dec_nat.simps)
  have "format [58, 37, 73, 37, 37, 37, 115] [Arg_ll (- 42), Arg_cstr [66, 0]] = Some [58, 45, 52, 50, 37, 66]"
    by (simp add: convert.simps d)
  then show ?thesis
    using sdscatfmt_correct [of example_sds "[Arg_ll (- 42), Arg_cstr [66, 0]]" "[58, 37, 73, 37, 37, 37, 115]" "[58, 45, 52, 50, 37, 66]" plain_allocator "[]"]
    by (simp add: example_sds_def sds_ok_def sdsalloc_def arg_ok_def sds_str_def)
qed

text \<open>C28: A percent sign at the end of a format makes the formatter run past the end of the format string. For every
  format \<open>F\<close> that is complete without the last percent sign, the formatter takes the terminating zero byte for the conversion character,
  appends it, and goes on with the memory behind it: it appends the text of \<open>F\<close>, a zero byte, and the text that
  the bytes \<open>X\<close> found there stand for as a format, which uses up the arguments \<open>F\<close> has left. If the block ends with the
  terminator, the next read is outside of it; up to there the formatter succeeds, as the first part shows.\<close>

theorem sdscatfmt_dangling_percent:
  assumes "sds_ok s" "list_all arg_ok ap" "0 \<notin> set F" "format F ap = Some u" "0 \<notin> set X" "format X (args_left F ap) = Some v"
    "length (sds_str s) + 2 * length F + length u + length v + 4 < 2 ^ 63"
  shows "(\<exists>s'. sdscatfmt A s (F @ [37, 0] @ X @ 0 # rest) ap = Some s' \<and> sds_ok s' \<and> sds_str s' = sds_str s @ u @ [0] @ v) \<and>
    sdscatfmt A s (F @ [37, 0]) ap = None"
proof -
  have fit: "sds_fit s" using assms(1) by (simp add: sds_ok_fit)
  note dg = format_dangling [OF assms(4,3)]
  let ?F = "F @ [37, 0]"
  have c: "cstr (?F @ r) = Some (F @ [37])" for r using cstr_append [of "F @ [37]" r] assms(3) by simp
  obtain s1 where s1: "sdsMakeRoomFor A s (length (F @ [37]) * 2) = Some s1" "sds_fit s1" "hdr_len s1 = hdr_len s" "sds_str s1 = sds_str s"
    using sds_fit_grow [OF fit, of "length (F @ [37]) * 2" A] assms(1,7) by auto
  have F: "\<exists>s2. fmt_loop A s1 (hdr_len s1) (?F @ r) 0 ap = fmt_loop A s2 (hdr_len s2) (?F @ r) (length ?F) (args_left F ap) \<and>
      sds_fit s2 \<and> sds_str s2 = sds_str s @ u @ [0] \<and> list_all arg_ok (args_left F ap)" for r
    using fmt_loop_upto [of ?F ap "u @ [0]" s1 A "[]" r] dg assms(1,2,7) s1 by auto
  have "mem_get ?F (length ?F) = None" by (simp add: mem_get_def)
  then have "fmt_loop A s2 i ?F (length ?F) ap' = None" for s2 i ap' by (subst fmt_loop.simps) simp
  then have "fmt_loop A s1 (hdr_len s1) ?F 0 ap = None" using F [of "[]"] by auto
  then have none: "sdscatfmt A s ?F ap = None" using c [of "[]"] s1 by (simp add: sdscatfmt_def Let_def sdslen_def)
  obtain s2 where s2: "fmt_loop A s1 (hdr_len s1) (?F @ X @ 0 # rest) 0 ap = fmt_loop A s2 (hdr_len s2) (?F @ X @ 0 # rest) (length ?F) (args_left F ap)"
    "sds_fit s2" "sds_str s2 = sds_str s @ u @ [0]" "list_all arg_ok (args_left F ap)" using F by blast
  have "hdr_len s2 + length v + 1 < 2 ^ 63" using sds_fit_str [OF s2(2)] s2(3) assms(7) by simp
  then obtain s3 where s3: "fmt_loop A s2 (hdr_len s2) (?F @ X @ 0 # rest) (length ?F) (args_left F ap) = Some (s3, hdr_len s3)"
    "sds_fit s3" "sds_str s3 = sds_str s2 @ v" using fmt_loop_eq [OF assms(6) s2(4) assms(5) s2(2)] by blast
  have "sdscatfmt A s (?F @ X @ 0 # rest) ap = buf_put s3 (hdr_len s3) 0"
    using s1 s2(1) s3(1) c [of "X @ 0 # rest"] by (simp add: sdscatfmt_def Let_def sdslen_def)
  then show ?thesis using none terminate_fit [OF s3(2)] s2(3) s3(3) by auto
qed

theorem sdscatfmt_dangling_percent_witness:
  "(\<exists>s'. sdscatfmt plain_allocator example_sds ([58] @ [37, 0] @ [97, 37, 115] @ 0 # []) [Arg_cstr [66, 0]] = Some s' \<and>
     sds_ok s' \<and> sds_str s' = [65, 58, 0, 97, 66]) \<and>
   sdscatfmt plain_allocator example_sds ([58] @ [37, 0]) [Arg_cstr [66, 0]] = None"
proof -
  have "format [97, 37, 115] (args_left [58] [Arg_cstr [66, 0]]) = Some [97, 66]" by (simp add: convert.simps)
  then show ?thesis
    using sdscatfmt_dangling_percent [of example_sds "[Arg_cstr [66, 0]]" "[58]" "[58]" "[97, 37, 115]" "[97, 66]" plain_allocator "[]"]
    by (simp add: example_sds_def sds_ok_def sdsalloc_def arg_ok_def sds_str_def)
qed

end
