(* ===== verification/Sds_Args.thy ===== *)
theory Sds_Args
  imports Sds_Text
begin

text \<open>
  Models splitting and joining, the escaped representation and the argument parser of \<^verbatim>\<open>src/sds.c\<close>, the latter
  being the inline command parser and the configuration file parser. \<^verbatim>\<open>sdscatrepr\<close> and \<^verbatim>\<open>sdssplitargs\<close>
  are proved to be inverse to each other.
\<close>

section \<open>Splitting and joining\<close>

text \<open>A store into the array of tokens, which has room for \<open>slots\<close> of them.\<close>

definition add_token :: "nat \<Rightarrow> sds list \<Rightarrow> sds \<Rightarrow> sds list option" where
  "add_token slots tokens t = (if length tokens < slots then Some (tokens @ [t]) else None)"

text \<open>\<^verbatim>\<open>elements\<close> and \<^verbatim>\<open>slots\<close> are of type \<^verbatim>\<open>int\<close>: doubling \<^verbatim>\<open>slots\<close> beyond \<^verbatim>\<open>INT_MAX\<close> is an overflow.\<close>

definition grow_slots :: "nat \<Rightarrow> nat \<Rightarrow> nat option" where
  "grow_slots slots elements =
     (if slots < elements + 2 then if slots * 2 < 2 ^ 31 then Some (slots * 2) else None else Some slots)"

function split_loop :: "allocator \<Rightarrow> bytes \<Rightarrow> bytes \<Rightarrow> nat \<Rightarrow> nat \<Rightarrow> nat \<Rightarrow> sds list \<Rightarrow> (nat \<times> nat \<times> sds list) option" where
  "split_loop A s sep j start slots tokens =
     (if int j < int (length s) - (int (length sep) - 1) then
        do {
          slots \<leftarrow> grow_slots slots (length tokens);
          c \<leftarrow> mem_get s j;
          sep0 \<leftarrow> mem_get sep 0;
          found \<leftarrow> (if length sep = 1 \<and> c = sep0 then Some True
                   else do { bs \<leftarrow> mem_read s j (length sep); Some (bs = sep) });
          if found then do {
            bs \<leftarrow> mem_read s start (j - start);
            t \<leftarrow> sdsnewlen A (Init bs) (j - start);
            tokens \<leftarrow> add_token slots tokens t;
            split_loop A s sep (j + length sep - 1 + 1) (j + length sep) slots tokens }
          else split_loop A s sep (j + 1) start slots tokens }
      else Some (start, slots, tokens))"
  by pat_completeness auto
termination
proof (relation "measure (\<lambda>(_, s, _, j, _). length s - j)", goal_cases)
  case (2 A s sep j start slots tokens slots' c sep0 found bs t tokens')
  have "j < length s" "0 < length sep" using 2(3,4) by (simp_all add: mem_get_Some)
  then show ?case by (cases sep) auto
next
  case (3 A s sep j start slots tokens slots' c sep0 found)
  have "j < length s" using 3(3) by (simp add: mem_get_Some)
  then show ?case by simp
qed simp

declare split_loop.simps [simp del]

text \<open>The arguments \<open>s\<close> and \<open>sep\<close> are the bytes their pointers and lengths describe. The inner option is the
  \<^verbatim>\<open>NULL\<close> returned for an empty separator.\<close>

definition sdssplitlen :: "allocator \<Rightarrow> bytes \<Rightarrow> bytes \<Rightarrow> sds list option option" where
  "sdssplitlen A s sep =
     (if length sep < 1 then Some None
      else if length s = 0 then Some (Some [])
      else do {
        (start, slots, tokens) \<leftarrow> split_loop A s sep 0 0 5 [];
        bs \<leftarrow> mem_read s start (length s - start);
        t \<leftarrow> sdsnewlen A (Init bs) (length s - start);
        tokens \<leftarrow> add_token slots tokens t;
        Some (Some tokens) })"

fun joinsds_loop :: "allocator \<Rightarrow> bytes \<Rightarrow> sds \<Rightarrow> sds list \<Rightarrow> sds option" where
  "joinsds_loop A sep join [] = Some join"
| "joinsds_loop A sep join (x # xs) = do {
     join \<leftarrow> sdscatsds A join x;
     join \<leftarrow> (if xs \<noteq> [] then sdscatlen A join sep else Some join);
     joinsds_loop A sep join xs }"

definition sdsjoinsds :: "allocator \<Rightarrow> sds list \<Rightarrow> bytes \<Rightarrow> sds option" where
  "sdsjoinsds A argv sep = do { join \<leftarrow> sdsempty A; joinsds_loop A sep join argv }"

fun join_loop :: "allocator \<Rightarrow> bytes \<Rightarrow> sds \<Rightarrow> bytes list \<Rightarrow> sds option" where
  "join_loop A sep join [] = Some join"
| "join_loop A sep join (x # xs) = do {
     join \<leftarrow> sdscat A join x;
     join \<leftarrow> (if xs \<noteq> [] then sdscat A join sep else Some join);
     join_loop A sep join xs }"

definition sdsjoin :: "allocator \<Rightarrow> bytes list \<Rightarrow> bytes \<Rightarrow> sds option" where
  "sdsjoin A argv sep = do { join \<leftarrow> sdsempty A; join_loop A sep join argv }"

section \<open>Character replacement\<close>

fun mapchars_find :: "bytes \<Rightarrow> bytes \<Rightarrow> byte \<Rightarrow> byte" where
  "mapchars_find (f # from) (t # to) c = (if c = f then t else mapchars_find from to c)"
| "mapchars_find _ _ c = c"

definition sdsmapchars :: "sds \<Rightarrow> bytes \<Rightarrow> bytes \<Rightarrow> sds option" where
  "sdsmapchars s from to = do {
     bs \<leftarrow> mem_read (sds_buf s) 0 (sdslen s);
     buf_write s 0 (map (mapchars_find from to) bs) }"

definition sdstolower :: "sds \<Rightarrow> sds option" where
  "sdstolower s = do { bs \<leftarrow> mem_read (sds_buf s) 0 (sdslen s); buf_write s 0 (map tolower bs) }"

definition sdstoupper :: "sds \<Rightarrow> sds option" where
  "sdstoupper s = do { bs \<leftarrow> mem_read (sds_buf s) 0 (sdslen s); buf_write s 0 (map toupper bs) }"

section \<open>The escaped representation\<close>

text \<open>A digit of the conversion \<^verbatim>\<open>%02x\<close>.\<close>

definition hex_char :: "byte \<Rightarrow> byte" where
  "hex_char d = (if d < 10 then 48 + d else 87 + d)"

definition repr_char :: "byte \<Rightarrow> bytes" where
  "repr_char c =
     (if c = 92 \<or> c = 34 then [92, c]
      else if c = 10 then [92, 110]
      else if c = 13 then [92, 114]
      else if c = 9 then [92, 116]
      else if c = 7 then [92, 97]
      else if c = 8 then [92, 98]
      else if isprint c then [c]
      else [92, 120, hex_char (c div 16), hex_char (c mod 16)])"

fun repr_loop :: "allocator \<Rightarrow> sds \<Rightarrow> bytes \<Rightarrow> sds option" where
  "repr_loop A s [] = Some s"
| "repr_loop A s (c # cs) = do { s \<leftarrow> sdscatlen A s (repr_char c); repr_loop A s cs }"

definition sdscatrepr :: "allocator \<Rightarrow> sds \<Rightarrow> bytes \<Rightarrow> sds option" where
  "sdscatrepr A s p = do {
     s \<leftarrow> sdscatlen A s [34];
     s \<leftarrow> repr_loop A s p;
     sdscatlen A s [34] }"

section \<open>The argument parser\<close>

definition is_hex_digit :: "byte \<Rightarrow> bool" where
  "is_hex_digit c \<longleftrightarrow> (48 \<le> c \<and> c \<le> 57) \<or> (97 \<le> c \<and> c \<le> 102) \<or> (65 \<le> c \<and> c \<le> 70)"

definition hex_digit_to_int :: "byte \<Rightarrow> byte" where
  "hex_digit_to_int c =
     (if 48 \<le> c \<and> c \<le> 57 then c - 48
      else if 97 \<le> c \<and> c \<le> 102 then c - 97 + 10
      else if 65 \<le> c \<and> c \<le> 70 then c - 65 + 10
      else 0)"

definition escape_char :: "byte \<Rightarrow> byte" where
  "escape_char c =
     (if c = 110 then 10 else if c = 114 then 13 else if c = 116 then 9 else if c = 98 then 8 else if c = 97 then 7 else c)"

text \<open>\<^verbatim>\<open>*p == '\\' && *(p+1) == 'x' && is_hex_digit(*(p+2)) && is_hex_digit(*(p+3))\<close>, reading no further than
  the first condition that fails.\<close>

definition hex_escape_at :: "bytes \<Rightarrow> nat \<Rightarrow> bool option" where
  "hex_escape_at line p = do {
     c0 \<leftarrow> mem_get line p;
     if c0 \<noteq> 92 then Some False else do {
       c1 \<leftarrow> mem_get line (p + 1);
       if c1 \<noteq> 120 then Some False else do {
         c2 \<leftarrow> mem_get line (p + 2);
         if \<not> is_hex_digit c2 then Some False else do {
           c3 \<leftarrow> mem_get line (p + 3);
           Some (is_hex_digit c3) } } } }"

text \<open>\<^verbatim>\<open>*(p+1) && !isspace(*(p+1))\<close>\<close>

definition text_follows :: "bytes \<Rightarrow> nat \<Rightarrow> bool option" where
  "text_follows line p = do { c \<leftarrow> mem_get line (p + 1); Some (c \<noteq> 0 \<and> \<not> isspace c) }"

text \<open>The states of the flags \<^verbatim>\<open>inq\<close> and \<^verbatim>\<open>insq\<close>, and what a round of the inner loop leads to: a jump to
  \<^verbatim>\<open>err\<close>, or the new position, flags, token and \<^verbatim>\<open>done\<close>.\<close>

datatype quote_mode = Plain | In_quotes | In_single_quotes

datatype token_step = Err | Next nat quote_mode sds bool

definition quotes_round :: "allocator \<Rightarrow> bytes \<Rightarrow> nat \<Rightarrow> sds \<Rightarrow> token_step option" where
  "quotes_round A line p current = do {
     c \<leftarrow> mem_get line p;
     hex \<leftarrow> hex_escape_at line p;
     if hex then do {
       c2 \<leftarrow> mem_get line (p + 2);
       c3 \<leftarrow> mem_get line (p + 3);
       current \<leftarrow> sdscatlen A current [hex_digit_to_int c2 * 16 + hex_digit_to_int c3];
       Some (Next (p + 3) In_quotes current False) }
     else do {
       esc \<leftarrow> (if c = 92 then do { c1 \<leftarrow> mem_get line (p + 1); Some (c1 \<noteq> 0) } else Some False);
       if esc then do {
         c1 \<leftarrow> mem_get line (p + 1);
         current \<leftarrow> sdscatlen A current [escape_char c1];
         Some (Next (p + 1) In_quotes current False) }
       else if c = 34 then do {
         bad \<leftarrow> text_follows line p;
         Some (if bad then Err else Next p In_quotes current True) }
       else if c = 0 then Some Err
       else do { current \<leftarrow> sdscatlen A current [c]; Some (Next p In_quotes current False) } } }"

definition single_round :: "allocator \<Rightarrow> bytes \<Rightarrow> nat \<Rightarrow> sds \<Rightarrow> token_step option" where
  "single_round A line p current = do {
     c \<leftarrow> mem_get line p;
     esc \<leftarrow> (if c = 92 then do { c1 \<leftarrow> mem_get line (p + 1); Some (c1 = 39) } else Some False);
     if esc then do { current \<leftarrow> sdscatlen A current [39]; Some (Next (p + 1) In_single_quotes current False) }
     else if c = 39 then do {
       bad \<leftarrow> text_follows line p;
       Some (if bad then Err else Next p In_single_quotes current True) }
     else if c = 0 then Some Err
     else do { current \<leftarrow> sdscatlen A current [c]; Some (Next p In_single_quotes current False) } }"

definition plain_round :: "allocator \<Rightarrow> bytes \<Rightarrow> nat \<Rightarrow> sds \<Rightarrow> token_step option" where
  "plain_round A line p current = do {
     c \<leftarrow> mem_get line p;
     if c = 32 \<or> c = 10 \<or> c = 13 \<or> c = 9 \<or> c = 0 then Some (Next p Plain current True)
     else if c = 34 then Some (Next p In_quotes current False)
     else if c = 39 then Some (Next p In_single_quotes current False)
     else do { current \<leftarrow> sdscatlen A current [c]; Some (Next p Plain current False) } }"

fun token_round :: "allocator \<Rightarrow> bytes \<Rightarrow> nat \<Rightarrow> quote_mode \<Rightarrow> sds \<Rightarrow> token_step option" where
  "token_round A line p In_quotes current = quotes_round A line p current"
| "token_round A line p In_single_quotes current = single_round A line p current"
| "token_round A line p Plain current = plain_round A line p current"

lemma hex_escape_at_True:
  "hex_escape_at line p = Some True \<Longrightarrow> p + 3 < length line \<and> line ! p = 92 \<and> is_hex_digit (line ! (p + 2)) \<and> is_hex_digit (line ! (p + 3))"
  by (auto simp: hex_escape_at_def mem_get_Some split: if_splits bind_splits)

text \<open>A round that does not end the token leaves the position at a character, which is skipped next.\<close>

lemma plain_round_progress:
  "plain_round A line p current = Some (Next p' q' current' False) \<Longrightarrow> p' = p \<and> p < length line \<and> line ! p \<noteq> 0"
  by (auto simp: plain_round_def mem_get_Some split: bind_splits if_splits)

lemma single_round_progress:
  "single_round A line p current = Some (Next p' q' current' False) \<Longrightarrow> p \<le> p' \<and> p' < length line \<and> line ! p' \<noteq> 0"
  by (auto simp: single_round_def mem_get_Some split: bind_splits if_splits)

lemma quotes_round_progress:
  assumes "quotes_round A line p current = Some (Next p' q' current' False)"
  shows "p \<le> p' \<and> p' < length line \<and> line ! p' \<noteq> 0"
proof (cases "hex_escape_at line p = Some True")
  case True
  have "p + 3 < length line" "line ! (p + 3) \<noteq> 0"
    using hex_escape_at_True [OF True] by (auto simp: is_hex_digit_def)
  then show ?thesis using assms True by (auto simp: quotes_round_def split: bind_splits)
next
  case False
  then show ?thesis using assms by (auto simp: quotes_round_def mem_get_Some split: bind_splits if_splits)
qed

lemma token_round_progress:
  "token_round A line p q current = Some (Next p' q' current' False) \<Longrightarrow> p \<le> p' \<and> p' < length line \<and> line ! p' \<noteq> 0"
  using plain_round_progress single_round_progress quotes_round_progress by (cases q) fastforce+

text \<open>The inner loop. The inner option is \<open>None\<close> for a jump to \<^verbatim>\<open>err\<close>.\<close>

function token_loop :: "allocator \<Rightarrow> bytes \<Rightarrow> nat \<Rightarrow> quote_mode \<Rightarrow> sds \<Rightarrow> (nat \<times> sds) option option" where
  "token_loop A line p q current = do {
     r \<leftarrow> token_round A line p q current;
     case r of
       Err \<Rightarrow> Some None
     | Next p q current fin \<Rightarrow> do {
         c \<leftarrow> mem_get line p;
         let p = (if c \<noteq> 0 then p + 1 else p);
         if fin then Some (Some (p, current)) else token_loop A line p q current } }"
  by pat_completeness auto
termination
  by (relation "measure (\<lambda>(_, line, p, _). length line - p)")
     (auto dest!: token_round_progress simp: mem_get_Some)

declare token_loop.simps [simp del]

function skip_blanks :: "bytes \<Rightarrow> nat \<Rightarrow> nat option" where
  "skip_blanks line p = do {
     c \<leftarrow> mem_get line p;
     if c \<noteq> 0 \<and> isspace c then skip_blanks line (p + 1) else Some p }"
  by pat_completeness auto
termination by (relation "measure (\<lambda>(line, p). length line - p)") (auto simp: mem_get_Some)

declare skip_blanks.simps [simp del]

text \<open>The outer loop. The variable \<^verbatim>\<open>current\<close> is \<^verbatim>\<open>NULL\<close> at the start of every round.\<close>

partial_function (option) args_loop :: "allocator \<Rightarrow> bytes \<Rightarrow> nat \<Rightarrow> sds list \<Rightarrow> sds list option option" where
  "args_loop A line p vector = do {
     p \<leftarrow> skip_blanks line p;
     c \<leftarrow> mem_get line p;
     if c \<noteq> 0 then do {
       current \<leftarrow> sdsempty A;
       r \<leftarrow> token_loop A line p Plain current;
       case r of
         None \<Rightarrow> Some None
       | Some (p, current) \<Rightarrow> args_loop A line p (vector @ [current]) }
     else Some (Some vector) }"

definition sdssplitargs :: "allocator \<Rightarrow> bytes \<Rightarrow> sds list option option" where
  "sdssplitargs A line = args_loop A line 0 []"


section \<open>Escaped text is read back\<close>

definition repr :: "bytes \<Rightarrow> bytes" where
  "repr p = 34 # concat (map repr_char p) @ [34]"

lemma repr_loop_eq:
  assumes "sds_ok s" "length (sds_str s) + length (concat (map repr_char p)) < 2 ^ 63"
  shows "\<exists>s'. repr_loop A s p = Some s' \<and> sds_ok s' \<and> sds_str s' = sds_str s @ concat (map repr_char p)"
  using assms
proof (induction p arbitrary: s)
  case (Cons c p)
  obtain s1 where s1: "sdscatlen A s (repr_char c) = Some s1" "sds_ok s1" "sds_str s1 = sds_str s @ repr_char c"
    using sds_buffer.cat_law [OF Cons.prems(1), of "repr_char c" A] Cons.prems(2) by auto
  then show ?case using Cons.IH [OF s1(2)] Cons.prems(2) by auto
qed simp

lemma sdscatrepr_eq:
  assumes "sds_ok s" "length (sds_str s) + length (repr p) < 2 ^ 63"
  shows "\<exists>s'. sdscatrepr A s p = Some s' \<and> sds_ok s' \<and> sds_str s' = sds_str s @ repr p"
proof -
  have len: "length (repr p) = length (concat (map repr_char p)) + 2" by (simp add: repr_def)
  obtain s1 where s1: "sdscatlen A s [34] = Some s1" "sds_ok s1" "sds_str s1 = sds_str s @ [34]"
    using sds_buffer.cat_law [OF assms(1), of "[34]" A] assms(2) len by auto
  obtain s2 where s2: "repr_loop A s1 p = Some s2" "sds_ok s2" "sds_str s2 = sds_str s1 @ concat (map repr_char p)"
    using repr_loop_eq [OF s1(2), of p A] assms(2) len s1(3) by auto
  obtain s3 where "sdscatlen A s2 [34] = Some s3" "sds_ok s3" "sds_str s3 = sds_str s2 @ [34]"
    using sds_buffer.cat_law [OF s2(2), of "[34]" A] assms(2) len s1(3) s2(3) by auto
  then show ?thesis using s1 s2 by (auto simp: sdscatrepr_def repr_def)
qed

lemma nibbles:
  assumes "unat (d :: byte) < 16"
  shows "is_hex_digit (hex_char d) \<and> hex_digit_to_int (hex_char d) = d"
proof (cases "d < 10")
  case True
  then have "unat d < 10" by (simp add: word_less_nat_alt)
  then have "unat (48 + d) = 48 + unat d" by (simp add: unat_word_ariths)
  then show ?thesis using True by (simp add: hex_char_def is_hex_digit_def hex_digit_to_int_def word_le_nat_alt word_less_nat_alt)
next
  case False
  then have "unat (87 + d) = 87 + unat d" using assms by (simp add: unat_word_ariths)
  then have "97 \<le> 87 + d" "87 + d \<le> 102" "\<not> 87 + d \<le> 57" using False assms by (simp_all add: word_le_nat_alt word_less_nat_alt)
  then show ?thesis using False by (simp add: hex_char_def is_hex_digit_def hex_digit_to_int_def)
qed

lemma hex_char_nz: "unat (d :: byte) < 16 \<Longrightarrow> hex_char d \<noteq> 0"
  using nibbles [of d] by (auto simp: is_hex_digit_def)

lemma byte_nibbles: "unat (c div 16 :: byte) < 16" "unat (c mod 16 :: byte) < 16" "(c div 16) * 16 + c mod 16 = c"
proof -
  show "unat (c div 16) < 16" using less_mult_imp_div_less [of "unat c" 16 16] by (simp add: unat_div)
  show "unat (c mod 16) < 16" by (simp add: unat_mod)
  show "(c div 16) * 16 + c mod 16 = c" by (simp add: word_mod_div_equality)
qed

lemma mem_get_app [simp]: "mem_get (a @ m) (length a + k) = mem_get m k" "mem_get (a @ m) (length a) = mem_get m 0"
  by (simp_all add: mem_get_def nth_append)

lemma mem_get_app_Suc [simp]:
  "mem_get (a @ m) (Suc (length a)) = mem_get m (Suc 0)" "mem_get (a @ m) (Suc (length a + k)) = mem_get m (Suc k)"
  "mem_get (a @ m) (Suc (Suc (length a))) = mem_get m (Suc (Suc 0))"
  using mem_get_app(1) [of a m "Suc 0"] mem_get_app(1) [of a m "Suc k"] mem_get_app(1) [of a m "Suc (Suc 0)"] by simp_all

lemma mem_get_Cons [simp]: "mem_get (x # m) 0 = Some x" "mem_get (x # m) (Suc k) = mem_get m k"
  "mem_get (x # m) (numeral n) = mem_get m (pred_numeral n)"
  by (simp_all add: mem_get_def nth_Cons')

lemma repr_char_cases:
  obtains (esc) e where "repr_char c = [92, e]" "e \<noteq> 120" "e \<noteq> 0" "escape_char e = c"
    | (print) "repr_char c = [c]" "c \<noteq> 92" "c \<noteq> 34" "c \<noteq> 0"
    | (hex) "repr_char c = [92, 120, hex_char (c div 16), hex_char (c mod 16)]"
proof (cases "c \<in> {92, 34, 10, 13, 9, 7, 8}")
  case True
  define e :: byte where "e = (if c = 10 then 110 else if c = 13 then 114 else if c = 9 then 116 else if c = 7 then 97
    else if c = 8 then 98 else c)"
  show ?thesis by (rule esc [of e]) (use True in \<open>auto simp: e_def repr_char_def escape_char_def\<close>)
next
  case False
  moreover have "c \<noteq> 0" if "isprint c" using that by (auto simp: isprint_def)
  ultimately show ?thesis using print hex by (cases "isprint c") (auto simp: repr_char_def)
qed

lemma cat_one:
  assumes "sds_ok cur" "length (sds_str cur) + 1 < 2 ^ 63"
  obtains cur' where "sdscatlen A cur [c] = Some cur'" "sds_ok cur'" "sds_str cur' = sds_str cur @ [c]"
  using sds_buffer.cat_law [OF assms(1), of "[c]" A] assms(2) by auto

lemma quotes_round_char:
  assumes "sds_ok cur" "length (sds_str cur) + 1 < 2 ^ 63"
  shows "\<exists>cur'. quotes_round A (pre @ repr_char c @ rest) (length pre) cur =
      Some (Next (length pre + (length (repr_char c) - 1)) In_quotes cur' False) \<and> sds_ok cur' \<and> sds_str cur' = sds_str cur @ [c]"
proof -
  obtain cur' where cat: "sdscatlen A cur [c] = Some cur'" "sds_ok cur'" "sds_str cur' = sds_str cur @ [c]"
    using cat_one [OF assms] by blast
  let ?line = "pre @ repr_char c @ rest"
  have "quotes_round A ?line (length pre) cur = Some (Next (length pre + (length (repr_char c) - 1)) In_quotes cur' False)"
  proof (cases c rule: repr_char_cases)
    case esc
    have "hex_escape_at ?line (length pre) = Some False" using esc by (simp add: hex_escape_at_def)
    then show ?thesis using esc cat(1) by (simp add: quotes_round_def)
  next
    case print
    have "hex_escape_at ?line (length pre) = Some False" using print by (simp add: hex_escape_at_def)
    then show ?thesis using print cat(1) by (simp add: quotes_round_def)
  next
    case hex
    note n = nibbles [OF byte_nibbles(1), of c] nibbles [OF byte_nibbles(2), of c]
    have g: "mem_get ?line (length pre + 2) = Some (hex_char (c div 16))" "mem_get ?line (length pre + 3) = Some (hex_char (c mod 16))"
      by (simp_all add: hex)
    have "hex_escape_at ?line (length pre) = Some True" using n g by (simp add: hex_escape_at_def hex)
    then show ?thesis using g n cat(1) byte_nibbles(3) [of c] by (simp add: quotes_round_def hex)
  qed
  then show ?thesis using cat by blast
qed

lemma repr_char_last: "repr_char c \<noteq> [] \<and> (repr_char c) ! (length (repr_char c) - 1) \<noteq> 0"
  using hex_char_nz [OF byte_nibbles(2)] by (auto simp: repr_char_def isprint_def)

lemma token_loop_quoted:
  assumes "sds_ok cur" "length (sds_str cur) + length p < 2 ^ 63" "c = 0 \<or> isspace c"
  shows "\<exists>cur'. token_loop A (pre @ concat (map repr_char p) @ 34 # c # rest) (length pre) In_quotes cur =
      Some (Some (length pre + length (concat (map repr_char p)) + 1, cur')) \<and> sds_ok cur' \<and> sds_str cur' = sds_str cur @ p"
  using assms(1,2)
proof (induction p arbitrary: pre cur)
  case Nil
  let ?line = "pre @ 34 # c # rest"
  have "hex_escape_at ?line (length pre) = Some False" by (simp add: hex_escape_at_def)
  moreover have "text_follows ?line (length pre) = Some False" using assms(3) by (auto simp: text_follows_def)
  ultimately have "quotes_round A ?line (length pre) cur = Some (Next (length pre) In_quotes cur True)"
    by (simp add: quotes_round_def)
  then show ?case using Nil by (subst token_loop.simps) simp
next
  case (Cons x p)
  let ?line = "pre @ repr_char x @ concat (map repr_char p) @ 34 # c # rest"
  let ?p = "length pre + (length (repr_char x) - 1)"
  have "length (sds_str cur) + 1 < 2 ^ 63" using Cons.prems(2) by simp
  from quotes_round_char [OF Cons.prems(1) this, of A pre x "concat (map repr_char p) @ 34 # c # rest"]
  obtain cur1 where r: "quotes_round A ?line (length pre) cur = Some (Next ?p In_quotes cur1 False)"
    "sds_ok cur1" "sds_str cur1 = sds_str cur @ [x]" by blast
  obtain k where k: "length (repr_char x) = Suc k" using repr_char_last [of x] by (cases "length (repr_char x)") auto
  have "mem_get ?line (length pre + k) = Some (repr_char x ! k)" "repr_char x ! k \<noteq> 0"
    using repr_char_last [of x] k by (simp_all add: mem_get_def nth_append)
  then have step: "token_loop A ?line (length pre) In_quotes cur = token_loop A ?line (length (pre @ repr_char x)) In_quotes cur1"
    using r(1) k by (subst token_loop.simps) (simp del: mem_get_app)
  obtain cur2 where "token_loop A ((pre @ repr_char x) @ concat (map repr_char p) @ 34 # c # rest) (length (pre @ repr_char x)) In_quotes cur1 =
      Some (Some (length (pre @ repr_char x) + length (concat (map repr_char p)) + 1, cur2))" "sds_ok cur2" "sds_str cur2 = sds_str cur1 @ p"
    using Cons.IH [OF r(2), of "pre @ repr_char x"] Cons.prems(2) r(3) by auto
  then show ?case using step r(3) by auto
qed

lemma token_loop_repr:
  assumes "length p < 2 ^ 62" "c = 0 \<or> isspace c"
  shows "\<exists>cur cur'. sdsempty A = Some cur \<and> token_loop A (pre @ repr p @ c # rest) (length pre) Plain cur =
      Some (Some (length pre + length (repr p), cur')) \<and> sds_ok cur' \<and> sds_str cur' = p"
proof -
  obtain cur where cur: "sdsempty A = Some cur" "sds_ok cur" "sds_str cur = []" using sdsempty_ok [of A] by blast
  let ?line = "pre @ repr p @ c # rest"
  have l: "?line = (pre @ [34]) @ concat (map repr_char p) @ 34 # c # rest" by (simp add: repr_def)
  have "plain_round A ?line (length pre) cur = Some (Next (length pre) In_quotes cur False)"
    by (simp add: plain_round_def repr_def)
  then have "token_loop A ?line (length pre) Plain cur = token_loop A ?line (length (pre @ [34])) In_quotes cur"
    by (subst token_loop.simps) (simp add: repr_def)
  moreover have "length (sds_str cur) + length p < 2 ^ 63" using assms(1) cur(3) by simp
  note token_loop_quoted [OF cur(2) this assms(2), of A "pre @ [34]" rest, folded l]
  ultimately show ?thesis using cur by (auto simp: repr_def)
qed

fun repr_line :: "bytes list \<Rightarrow> bytes" where
  "repr_line [] = []"
| "repr_line (p # ps) = repr p @ (if ps = [] then [] else 32 # repr_line ps)"

lemma skip_blanks_stop: "mem_get line p = Some c \<Longrightarrow> c = 0 \<or> \<not> isspace c \<Longrightarrow> skip_blanks line p = Some p"
  by (subst skip_blanks.simps) auto

lemma skip_blanks_space: "mem_get line p = Some c \<Longrightarrow> c \<noteq> 0 \<Longrightarrow> isspace c \<Longrightarrow> skip_blanks line p = skip_blanks line (p + 1)"
  by (subst skip_blanks.simps) auto

lemma isspace_32: "isspace 32" "\<not> isspace 34" by (simp_all add: isspace_def)

lemma args_loop_repr:
  assumes "\<forall>p\<in>set ps. length p < 2 ^ 62" "list_all sds_ok vec"
  shows "\<exists>ts. args_loop A (pre @ repr_line ps @ 0 # rest) (length pre) vec = Some (Some ts) \<and> list_all sds_ok ts \<and>
    map sds_str ts = map sds_str vec @ ps"
  using assms
proof (induction ps arbitrary: pre vec)
  case Nil
  have "skip_blanks (pre @ 0 # rest) (length pre) = Some (length pre)" by (rule skip_blanks_stop) auto
  then show ?case using Nil by (subst args_loop.simps) simp
next
  case (Cons p ps)
  define c where "c = (if ps = [] then 0 else 32 :: byte)"
  define r where "r = (if ps = [] then rest else repr_line ps @ 0 # rest)"
  let ?line = "pre @ repr p @ c # r"
  have line: "pre @ repr_line (p # ps) @ 0 # rest = ?line" by (simp add: c_def r_def)
  have c: "c = 0 \<or> isspace c" by (simp add: c_def isspace_32)
  have hd: "mem_get ?line (length pre) = Some 34" by (simp add: repr_def)
  then have sb: "skip_blanks ?line (length pre) = Some (length pre)" by (rule skip_blanks_stop) (simp add: isspace_32)
  obtain cur t where t: "sdsempty A = Some cur" "token_loop A ?line (length pre) Plain cur = Some (Some (length pre + length (repr p), t))"
    "sds_ok t" "sds_str t = p"
    using token_loop_repr [OF _ c, of p A pre r] Cons.prems(1) by auto
  have step: "args_loop A ?line (length pre) vec = args_loop A ?line (length (pre @ repr p)) (vec @ [t])"
    using sb hd t(1,2) by (subst args_loop.simps) simp
  have v: "list_all sds_ok (vec @ [t])" using Cons.prems(2) t(3) by simp
  show ?case
  proof (cases "ps = []")
    case True
    have "skip_blanks ?line (length (pre @ repr p)) = Some (length (pre @ repr p))"
      by (rule skip_blanks_stop [of _ _ 0]) (simp_all add: c_def True mem_get_def nth_append)
    then have "args_loop A ?line (length (pre @ repr p)) (vec @ [t]) = Some (Some (vec @ [t]))"
      by (subst args_loop.simps) (simp add: c_def True mem_get_def nth_append)
    then show ?thesis using step v t(4) True line by simp
  next
    case False
    let ?pre = "pre @ repr p @ [32]"
    have l2: "?line = ?pre @ repr_line ps @ 0 # rest" using False by (simp add: c_def r_def)
    have "mem_get ?line (length (pre @ repr p)) = Some 32" using False by (simp add: c_def mem_get_def nth_append)
    then have "skip_blanks ?line (length (pre @ repr p)) = skip_blanks ?line (length ?pre)"
      using skip_blanks_space [of ?line "length (pre @ repr p)" 32] by (simp add: isspace_32)
    then have "args_loop A ?line (length (pre @ repr p)) (vec @ [t]) = args_loop A ?line (length ?pre) (vec @ [t])"
      by (subst (1 2) args_loop.simps) simp
    then show ?thesis using Cons.IH [OF _ v, of ?pre] Cons.prems(1) step l2 line t(4) by auto
  qed
qed

section \<open>The parser ends on every line\<close>

text \<open>A line of \<open>n\<close> characters.\<close>

definition cline :: "bytes \<Rightarrow> nat \<Rightarrow> bool" where
  "cline m n \<longleftrightarrow> n < length m \<and> m ! n = 0 \<and> (\<forall>i<n. m ! i \<noteq> 0) \<and> n < 2 ^ 62"

lemma cline_get: "cline m n \<Longrightarrow> p \<le> n \<Longrightarrow> mem_get m p = Some (m ! p)"
  by (simp add: cline_def mem_get_def)

lemma cline_nz: "cline m n \<Longrightarrow> p \<le> n \<Longrightarrow> m ! p \<noteq> 0 \<longleftrightarrow> p < n"
  by (auto simp: cline_def le_less)

lemma cline_next: "cline m n \<Longrightarrow> p \<le> n \<Longrightarrow> m ! p \<noteq> 0 \<Longrightarrow> mem_get m (p + 1) = Some (m ! (p + 1)) \<and> p + 1 \<le> n"
  using cline_nz [of m n p] cline_get [of m n "p + 1"] by simp

definition step_ok :: "nat \<Rightarrow> nat \<Rightarrow> token_step \<Rightarrow> bool" where
  "step_ok n p r = (case r of Err \<Rightarrow> True
    | Next p' q' cur' fin \<Rightarrow> p \<le> p' \<and> p' \<le> n \<and> sds_ok cur' \<and> length (sds_str cur') \<le> (if fin then p else p + 1))"

lemma cat_step:
  assumes "cline m n" "p \<le> n" "sds_ok cur" "length (sds_str cur) \<le> p" "p \<le> p'" "p' \<le> n"
  shows "\<exists>r. do { cur \<leftarrow> sdscatlen A cur [c]; Some (Next p' q cur False) } = Some r \<and> step_ok n p r"
proof -
  have "length (sds_str cur) + 1 < 2 ^ 63" using assms by (simp add: cline_def)
  then obtain cur' where "sdscatlen A cur [c] = Some cur'" "sds_ok cur'" "sds_str cur' = sds_str cur @ [c]"
    using cat_one [OF assms(3), of A c] by blast
  then show ?thesis using assms(4-6) by (simp add: step_ok_def)
qed

lemma hex_escape_at_total:
  assumes "cline m n" "p \<le> n"
  shows "\<exists>b. hex_escape_at m p = Some b \<and> (b \<longrightarrow> p + 3 \<le> n)"
proof -
  have h: "c \<noteq> 0" if "is_hex_digit c" for c using that by (auto simp: is_hex_digit_def)
  show ?thesis
  proof (cases "m ! p = 92 \<and> m ! (p + 1) = 120 \<and> is_hex_digit (m ! (p + 2))")
    case True
    have 1: "mem_get m (p + 1) = Some 120" "p + 1 \<le> n" using cline_next [OF assms] True by auto
    have 2: "mem_get m (p + 2) = Some (m ! (p + 2))" "p + 2 \<le> n" using cline_next [OF assms(1) 1(2)] True by auto
    have 3: "mem_get m (p + 3) = Some (m ! (p + 3))" "p + 3 \<le> n"
      using cline_next [OF assms(1) 2(2)] True h [of "m ! (p + 2)"] by (auto simp: numeral_3_eq_3)
    show ?thesis using 1 2 3 True cline_get [OF assms] by (simp add: hex_escape_at_def)
  next
    case False
    have 0: "mem_get m p = Some (m ! p)" by (rule cline_get [OF assms])
    show ?thesis
    proof (cases "m ! p = 92 \<and> m ! (p + 1) = 120")
      case True
      have 1: "mem_get m (p + 1) = Some 120" "p + 1 \<le> n" using cline_next [OF assms] True by auto
      have "mem_get m (p + 2) = Some (m ! (p + 2))" using cline_next [OF assms(1) 1(2)] True by auto
      then show ?thesis using 0 1 False True by (intro exI [of _ False]) (simp add: hex_escape_at_def)
    next
      case nx: False
      have "mem_get m (p + 1) = Some (m ! (p + 1))" if "m ! p = 92" using cline_next [OF assms] that by auto
      then show ?thesis using 0 nx by (auto simp: hex_escape_at_def)
    qed
  qed
qed

lemma quotes_round_total:
  assumes c: "cline m n" "p \<le> n" and cur: "sds_ok cur" "length (sds_str cur) \<le> p"
  shows "\<exists>r. quotes_round A m p cur = Some r \<and> step_ok n p r"
proof -
  note cat = cat_step [OF c cur]
  have 0: "mem_get m p = Some (m ! p)" by (rule cline_get [OF c])
  obtain b where b: "hex_escape_at m p = Some b" "b \<longrightarrow> p + 3 \<le> n" using hex_escape_at_total [OF c] by blast
  consider (hex) "b" | (esc) "\<not> b" "m ! p = 92" "m ! (p + 1) \<noteq> 0" | (bs) "\<not> b" "m ! p = 92" "m ! (p + 1) = 0"
    | (quote) "\<not> b" "m ! p = 34" | (nul) "\<not> b" "m ! p = 0" | (plain) "\<not> b" "m ! p \<notin> {92, 34, 0}" by blast
  then show ?thesis
  proof cases
    case hex
    then have "mem_get m (p + 2) = Some (m ! (p + 2))" "mem_get m (p + 3) = Some (m ! (p + 3))" using b(2) cline_get [OF c(1)] by simp_all
    then show ?thesis using 0 b hex cat [of "p + 3"] by (simp add: quotes_round_def)
  next
    case esc
    then show ?thesis using 0 b cline_next [OF c] cat [of "p + 1"] by (simp add: quotes_round_def)
  next
    case bs
    then show ?thesis using 0 b cline_next [OF c] cat [of p] c(2) by (simp add: quotes_round_def)
  next
    case quote
    then show ?thesis using 0 b cline_next [OF c] c(2) cur by (simp add: quotes_round_def text_follows_def step_ok_def)
  next
    case nul
    then show ?thesis using 0 b by (simp add: quotes_round_def step_ok_def)
  next
    case plain
    then show ?thesis using 0 b cat [of p] c(2) by (simp add: quotes_round_def)
  qed
qed

lemma single_round_total:
  assumes c: "cline m n" "p \<le> n" and cur: "sds_ok cur" "length (sds_str cur) \<le> p"
  shows "\<exists>r. single_round A m p cur = Some r \<and> step_ok n p r"
proof -
  note cat = cat_step [OF c cur]
  have 0: "mem_get m p = Some (m ! p)" by (rule cline_get [OF c])
  consider (esc) "m ! p = 92" "m ! (p + 1) = 39" | (bs) "m ! p = 92" "m ! (p + 1) \<noteq> 39"
    | (quote) "m ! p = 39" | (nul) "m ! p = 0" | (plain) "m ! p \<notin> {92, 39, 0}" by blast
  then show ?thesis
  proof cases
    case esc
    then show ?thesis using 0 cline_next [OF c] cat [of "p + 1"] by (simp add: single_round_def)
  next
    case bs
    then show ?thesis using 0 cline_next [OF c] cat [of p] c(2) by (simp add: single_round_def)
  next
    case quote
    then show ?thesis using 0 cline_next [OF c] c(2) cur by (simp add: single_round_def text_follows_def step_ok_def)
  next
    case nul
    then show ?thesis using 0 by (simp add: single_round_def step_ok_def)
  next
    case plain
    then show ?thesis using 0 cat [of p] c(2) by (simp add: single_round_def)
  qed
qed

lemma plain_round_total:
  assumes c: "cline m n" "p \<le> n" and cur: "sds_ok cur" "length (sds_str cur) \<le> p"
  shows "\<exists>r. plain_round A m p cur = Some r \<and> step_ok n p r"
  using cat_step [OF c cur, of p] cline_get [OF c] c(2) cur
  by (auto simp: plain_round_def step_ok_def)

lemma token_round_total:
  assumes "cline m n" "p \<le> n" "sds_ok cur" "length (sds_str cur) \<le> p"
  shows "\<exists>r. token_round A m p q cur = Some r \<and> step_ok n p r"
  using quotes_round_total [OF assms] single_round_total [OF assms] plain_round_total [OF assms] by (cases q) auto

definition stop_ok :: "nat \<Rightarrow> nat \<Rightarrow> (nat \<times> sds) option \<Rightarrow> bool" where
  "stop_ok n p r = (case r of None \<Rightarrow> True | Some (p', cur') \<Rightarrow> p \<le> p' \<and> p' \<le> n \<and> sds_ok cur')"

lemma stop_ok_mono: "stop_ok n p r \<Longrightarrow> p' \<le> p \<Longrightarrow> stop_ok n p' r"
  by (auto simp: stop_ok_def split: option.splits)

lemma token_loop_total:
  assumes "cline m n" "p \<le> n" "sds_ok cur" "length (sds_str cur) \<le> p"
  shows "\<exists>r. token_loop A m p q cur = Some r \<and> stop_ok n p r"
  using assms
proof (induction A m p q cur rule: token_loop.induct)
  case (1 A m p q cur)
  obtain r where r: "token_round A m p q cur = Some r" "step_ok n p r" using token_round_total [OF "1.prems"] by blast
  show ?case
  proof (cases r)
    case Err
    then show ?thesis using r(1) by (subst token_loop.simps) (simp add: stop_ok_def)
  next
    case (Next p' q' cur' fin)
    have p': "p \<le> p'" "p' \<le> n" "sds_ok cur'" "length (sds_str cur') \<le> (if fin then p else p + 1)"
      using r(2) Next by (simp_all add: step_ok_def del: length_sds_str)
    have g: "mem_get m p' = Some (m ! p')" by (rule cline_get [OF "1.prems"(1) p'(2)])
    let ?p = "if m ! p' \<noteq> 0 then p' + 1 else p'"
    have le: "?p \<le> n" "p \<le> ?p" using cline_nz [OF "1.prems"(1) p'(2)] p' by auto
    show ?thesis
    proof (cases fin)
      case True
      then show ?thesis using r(1) Next g le p'(3) by (subst token_loop.simps) (simp add: stop_ok_def)
    next
      case False
      have "m ! p' \<noteq> 0" using token_round_progress [of A m p q cur p' q' cur'] r(1) Next False by simp
      then have "length (sds_str cur') \<le> ?p" using p'(1,4) False by simp
      then have "\<exists>r. token_loop A m ?p q' cur' = Some r \<and> stop_ok n ?p r"
        by (rule "1.IH" [OF r(1) Next g refl False "1.prems"(1) le(1) p'(3)])
      moreover have "token_loop A m p q cur = token_loop A m ?p q' cur'"
        using r(1) Next g False by (subst token_loop.simps) simp
      ultimately show ?thesis using stop_ok_mono [OF _ le(2)] by auto
    qed
  qed
qed

lemma skip_blanks_total:
  assumes "cline m n" "p \<le> n"
  shows "\<exists>p'. skip_blanks m p = Some p' \<and> p \<le> p' \<and> p' \<le> n \<and> (m ! p' = 0 \<or> \<not> isspace (m ! p'))"
  using assms
proof (induction m p rule: skip_blanks.induct)
  case (1 m p)
  have g: "mem_get m p = Some (m ! p)" by (rule cline_get [OF "1.prems"])
  show ?case
  proof (cases "m ! p \<noteq> 0 \<and> isspace (m ! p)")
    case True
    have "\<exists>p'. skip_blanks m (p + 1) = Some p' \<and> p + 1 \<le> p' \<and> p' \<le> n \<and> (m ! p' = 0 \<or> \<not> isspace (m ! p'))"
      by (rule "1.IH" [OF g True "1.prems"(1)]) (use cline_next [OF "1.prems"] True in simp)
    then show ?thesis using g True by (subst skip_blanks.simps) auto
  next
    case False
    then show ?thesis using g "1.prems"(2) by (subst skip_blanks.simps) auto
  qed
qed

text \<open>A token takes at least one character.\<close>

lemma token_loop_advance:
  assumes "cline m n" "p < n" "\<not> isspace (m ! p)" "sds_ok cur" "length (sds_str cur) \<le> p"
  shows "\<exists>r. token_loop A m p Plain cur = Some r \<and> stop_ok n (p + 1) r"
proof -
  have p: "p \<le> n" "m ! p \<noteq> 0" using assms(2) cline_nz [OF assms(1), of p] by simp_all
  have ns: "m ! p \<notin> {32, 10, 13, 9, 0}" using assms(3) p(2) by (auto simp: isspace_def)
  obtain r where r: "plain_round A m p cur = Some r" "step_ok n p r" using plain_round_total [OF assms(1) p(1) assms(4,5)] by blast
  obtain q' cur' where n: "r = Next p q' cur' False"
    using r(1) ns by (auto simp: plain_round_def cline_get [OF assms(1) p(1)] split: if_splits bind_splits)
  have cur': "sds_ok cur'" "length (sds_str cur') \<le> p + 1" using r(2) n by (simp_all add: step_ok_def del: length_sds_str)
  have "token_loop A m p Plain cur = token_loop A m (p + 1) q' cur'"
    using r(1) n cline_get [OF assms(1) p(1)] p(2) by (subst token_loop.simps) simp
  then show ?thesis using token_loop_total [OF assms(1) _ cur', of A q'] assms(2) by simp
qed

lemma args_loop_total:
  assumes "cline m n" "p \<le> n" "list_all sds_ok vec"
  shows "\<exists>r. args_loop A m p vec = Some r \<and> (\<forall>ts. r = Some ts \<longrightarrow> list_all sds_ok ts)"
  using assms(2,3)
proof (induction "n - p" arbitrary: p vec rule: less_induct)
  case less
  obtain p1 where p1: "skip_blanks m p = Some p1" "p \<le> p1" "p1 \<le> n" "m ! p1 = 0 \<or> \<not> isspace (m ! p1)"
    using skip_blanks_total [OF assms(1) less.prems(1)] by blast
  have g: "mem_get m p1 = Some (m ! p1)" by (rule cline_get [OF assms(1) p1(3)])
  show ?case
  proof (cases "m ! p1 = 0")
    case True
    then show ?thesis using p1(1) g less.prems(2) by (subst args_loop.simps) simp
  next
    case False
    then have lt: "p1 < n" using cline_nz [OF assms(1) p1(3)] by simp
    obtain cur where cur: "sdsempty A = Some cur" "sds_ok cur" "sds_str cur = []" using sdsempty_ok [of A] by blast
    obtain r where r: "token_loop A m p1 Plain cur = Some r" "stop_ok n (p1 + 1) r"
      using token_loop_advance [OF assms(1) lt _ cur(2), of A] False p1(4) cur(3) by auto
    show ?thesis
    proof (cases r)
      case None
      then show ?thesis using p1(1) g False cur(1) r(1) by (subst args_loop.simps) simp
    next
      case (Some x)
      obtain p2 t where x: "x = (p2, t)" by (cases x)
      have p2: "p1 + 1 \<le> p2" "p2 \<le> n" "sds_ok t" using r(2) Some x by (simp_all add: stop_ok_def)
      have "\<exists>r. args_loop A m p2 (vec @ [t]) = Some r \<and> (\<forall>ts. r = Some ts \<longrightarrow> list_all sds_ok ts)"
        by (rule less.hyps) (use p2 p1(2) less.prems(2) lt in auto)
      then show ?thesis using p1(1) g False cur(1) r(1) Some x by (subst args_loop.simps) simp
    qed
  qed
qed

section \<open>Splitting and joining\<close>

definition no_sep_between :: "bytes \<Rightarrow> bytes \<Rightarrow> nat \<Rightarrow> nat \<Rightarrow> bool" where
  "no_sep_between s sep a b \<longleftrightarrow> (\<forall>i. a \<le> i \<and> i < b \<longrightarrow> take (length sep) (drop i s) \<noteq> sep)"

lemma piece_without_sep:
  assumes "no_sep_between s sep a b" "a \<le> e" "e \<le> length s" "e < b + length sep"
  shows "\<not> sublist sep (take (e - a) (drop a s))"
proof
  assume "sublist sep (take (e - a) (drop a s))"
  then obtain us vs where uv: "take (e - a) (drop a s) = us @ sep @ vs" by (auto simp: sublist_def)
  have "length (take (e - a) (drop a s)) = e - a" using assms(2,3) by simp
  then have len: "length us + length sep + length vs = e - a" by (simp add: uv)
  have "take (length sep) (drop (a + length us) s) = take (length sep) (drop (length us) (take (e - a) (drop a s)))"
    using len by (simp add: drop_take min_def add.commute)
  also have "\<dots> = sep" by (simp add: uv)
  finally show False using assms(1,2,4) len unfolding no_sep_between_def by auto
qed

definition split_inv :: "bytes \<Rightarrow> bytes \<Rightarrow> nat \<Rightarrow> nat \<Rightarrow> nat \<Rightarrow> sds list \<Rightarrow> bool" where
  "split_inv s sep j start slots tokens \<longleftrightarrow> start \<le> length s \<and> length tokens < slots \<and> (\<exists>k \<le> 28. slots = 5 * 2 ^ k) \<and>
     length tokens * length sep \<le> start \<and>
     (\<forall>t\<in>set tokens. sds_ok t \<and> \<not> sublist sep (sds_str t)) \<and>
     concat (map (\<lambda>t. sds_str t @ sep) tokens) = take start s \<and> no_sep_between s sep start j"

lemma newlen_piece:
  assumes "start \<le> j" "j \<le> length s" "length s < 2 ^ 63"
  shows "\<exists>t. mem_read s start (j - start) = Some (take (j - start) (drop start s)) \<and>
    sdsnewlen A (Init (take (j - start) (drop start s))) (j - start) = Some t \<and> sds_ok t \<and> sds_str t = take (j - start) (drop start s)"
  using sdsnewlen_ok [of "j - start" "take (j - start) (drop start s)" A] assms by (auto simp: mem_read_eq)

text \<open>The array starts with 5 slots and doubles, so \<open>5 * 2 ^ 28\<close> is its largest size an \<^verbatim>\<open>int\<close> can count.\<close>

lemma grow_slots_ok:
  assumes "elements < slots" "k \<le> 28" "slots = 5 * 2 ^ k" "elements + 2 \<le> 5 * 2 ^ 28"
  shows "\<exists>slots'. grow_slots slots elements = Some slots' \<and> elements + 2 \<le> slots' \<and> (\<exists>k \<le> 28. slots' = 5 * 2 ^ k)"
proof (cases "slots < elements + 2")
  case True
  then have "k < 28" using assms by (cases "k = 28") auto
  then have k: "slots * 2 = 5 * 2 ^ Suc k" "Suc k \<le> 28" using assms(3) by simp_all
  have "(2::nat) ^ Suc k \<le> 2 ^ 28" using k(2) by (intro power_increasing) simp_all
  then have "slots * 2 < 2 ^ 31" using k(1) by simp
  moreover have "elements + 2 \<le> slots * 2" using assms(1,3) by simp
  ultimately have "grow_slots slots elements = Some (5 * 2 ^ Suc k)" "elements + 2 \<le> 5 * 2 ^ Suc k"
    using True k(1) by (simp_all add: grow_slots_def)
  then show ?thesis using k(2) by blast
qed (use assms in \<open>auto simp: grow_slots_def\<close>)

lemma split_loop_eq:
  assumes "sep \<noteq> []" "length s < 2 ^ 63" "length s div length sep + 2 \<le> 5 * 2 ^ 28" "split_inv s sep j start slots tokens" "start \<le> j"
  shows "\<exists>start' slots' tokens'. split_loop A s sep j start slots tokens = Some (start', slots', tokens') \<and>
    split_inv s sep (length s + 1 - length sep) start' slots' tokens'"
  using assms
proof (induction A s sep j start slots tokens rule: split_loop.induct)
  case (1 A s sep j start slots tokens)
  note inv = "1.prems"(4) [unfolded split_inv_def]
  show ?case
  proof (cases "int j < int (length s) - (int (length sep) - 1)")
    case False
    then have "length s + 1 - length sep \<le> j" by linarith
    then have "split_inv s sep (length s + 1 - length sep) start slots tokens"
      using inv by (auto simp: split_inv_def no_sep_between_def)
    then show ?thesis using False by (subst split_loop.simps) simp
  next
    case True
    moreover have "0 < length sep" using "1.prems"(1) by simp
    ultimately have jl: "j + length sep \<le> length s" "j < length s" "0 < length sep" by linarith+
    have "length tokens * length sep \<le> length s" using inv by simp
    then have "length tokens \<le> length s div length sep" using jl(3) by (simp add: less_eq_div_iff_mult_less_eq)
    then obtain slots' where sl: "grow_slots slots (length tokens) = Some slots'" "length tokens + 2 \<le> slots'" "\<exists>k \<le> 28. slots' = 5 * 2 ^ k"
      using grow_slots_ok [of "length tokens" slots] inv "1.prems"(3) by auto
    have g: "mem_get s j = Some (s ! j)" "mem_get sep 0 = Some (sep ! 0)" using jl(2,3) by (simp_all add: mem_get_def)
    define found where "found = (take (length sep) (drop j s) = sep)"
    have one: "take (length sep) (drop j s) = sep" if "length sep = 1" "s ! j = sep ! 0"
      using that jl by (cases sep) (auto simp: take_Suc_conv_app_nth)
    have f: "(if length sep = 1 \<and> s ! j = sep ! 0 then Some True else do { bs \<leftarrow> mem_read s j (length sep); Some (bs = sep) }) = Some found"
      using one jl(1) by (auto simp: found_def mem_read_eq)
    show ?thesis
    proof (cases found)
      case ft: True
      let ?t = "take (j - start) (drop start s)"
      obtain t where t: "mem_read s start (j - start) = Some ?t" "sdsnewlen A (Init ?t) (j - start) = Some t" "sds_ok t" "sds_str t = ?t"
        using newlen_piece [of start j s A] jl "1.prems"(2,5) by auto
      have add: "add_token slots' tokens t = Some (tokens @ [t])" using sl(2) by (simp add: add_token_def)
      have "\<not> sublist sep ?t" by (rule piece_without_sep [of s sep start j]) (use inv jl "1.prems"(5) in auto)
      moreover have "take start s @ ?t @ sep = take (j + length sep) s"
      proof -
        have "take (j + length sep) s = take j s @ sep" using ft by (simp add: found_def take_add)
        moreover have "take j s = take start s @ ?t" using "1.prems"(5) take_add [of start "j - start" s] by simp
        ultimately show ?thesis by simp
      qed
      ultimately have inv': "split_inv s sep (j + length sep - 1 + 1) (j + length sep) slots' (tokens @ [t])"
        using inv sl(2,3) jl t(3,4) "1.prems"(5) by (auto simp: split_inv_def no_sep_between_def)
      have "split_loop A s sep j start slots tokens = split_loop A s sep (j + length sep - 1 + 1) (j + length sep) slots' (tokens @ [t])"
        using True sl(1) g f ft t(1,2) add by (subst split_loop.simps) (simp only: if_True bind.bind_lunit if_False)
      then show ?thesis
        using "1.IH"(1) [OF True sl(1) g(1,2) f ft t(1,2) add "1.prems"(1-3) inv'] jl by simp
    next
      case ff: False
      have inv': "split_inv s sep (j + 1) start slots' tokens"
        using inv sl(2,3) jl ff by (auto simp: split_inv_def no_sep_between_def found_def less_Suc_eq)
      have "split_loop A s sep j start slots tokens = split_loop A s sep (j + 1) start slots' tokens"
        using True sl(1) g f ff by (subst split_loop.simps) (simp only: if_True bind.bind_lunit if_False)
      then show ?thesis
        using "1.IH"(2) [OF True sl(1) g(1,2) f ff "1.prems"(1-3) inv'] "1.prems"(5) by simp
    qed
  qed
qed

fun join_with :: "bytes \<Rightarrow> bytes list \<Rightarrow> bytes" where
  "join_with sep [] = []"
| "join_with sep (x # xs) = x @ (if xs = [] then [] else sep @ join_with sep xs)"

lemma join_with_snoc: "join_with sep (xs @ [y]) = concat (map (\<lambda>x. x @ sep) xs) @ y"
  by (induction xs) auto

lemma joinsds_loop_eq:
  assumes "sds_ok s" "list_all sds_ok xs" "length (sds_str s) + length (join_with sep (map sds_str xs)) < 2 ^ 63"
  shows "\<exists>s'. joinsds_loop A sep s xs = Some s' \<and> sds_ok s' \<and> sds_str s' = sds_str s @ join_with sep (map sds_str xs)"
  using assms
proof (induction xs arbitrary: s)
  case (Cons x xs)
  have x: "sds_ok x" "mem_read (sds_buf x) 0 (sdslen x) = Some (sds_str x)"
    using Cons.prems(2) by (auto simp: sds_ok_def sds_str_def sdslen_def mem_read_eq)
  obtain s1 where s1: "sdscatsds A s x = Some s1" "sds_ok s1" "sds_str s1 = sds_str s @ sds_str x"
    using sds_buffer.cat_law [OF Cons.prems(1), of "sds_str x" A] Cons.prems(3) x(2) by (auto simp: sdscatsds_def)
  define t where "t = (if xs = [] then [] else sep)"
  obtain s2 where s2: "(if xs \<noteq> [] then sdscatlen A s1 sep else Some s1) = Some s2" "sds_ok s2" "sds_str s2 = sds_str s1 @ t"
    using sds_buffer.cat_law [OF s1(2), of sep A] Cons.prems(3) s1(2,3) by (cases "xs = []") (auto simp: t_def)
  have "length (sds_str s2) + length (join_with sep (map sds_str xs)) < 2 ^ 63"
    using Cons.prems(3) s1(3) s2(3) by (auto simp: t_def split: if_splits)
  then show ?case using Cons.IH [OF s2(2)] Cons.prems(2) s1 s2 by (auto simp: t_def)
qed simp

text \<open>C26: Splitting and joining are inverse. \<^verbatim>\<open>sdssplitlen\<close> never stores past the end of its array of tokens, every
  token is free of the separator, and \<^verbatim>\<open>sdsjoinsds\<close> with the same separator restores the text. The function counts tokens and
  slots in variables of type \<^verbatim>\<open>int\<close>; no overflow of them occurs as long as the text has room for at most \<open>5 * 2 ^ 28 - 2\<close>
  separators. The slots double from 5, and the next doubling would exceed \<^verbatim>\<open>INT_MAX\<close>.\<close>

theorem sdssplitlen_sdsjoinsds:
  assumes "s \<noteq> []" "sep \<noteq> []" "length s < 2 ^ 63" "length sep < 2 ^ 31" "length s div length sep + 2 \<le> 5 * 2 ^ 28"
  shows "\<exists>ts j. sdssplitlen A s sep = Some (Some ts) \<and> (\<forall>t\<in>set ts. sds_ok t \<and> \<not> sublist sep (sds_str t)) \<and>
    sdsjoinsds A ts sep = Some j \<and> sds_ok j \<and> sds_str j = s"
proof -
  note len = assms(3)
  have "split_inv s sep 0 0 5 []" by (auto simp: split_inv_def no_sep_between_def intro: exI [of _ 0])
  then obtain start slots ts where l: "split_loop A s sep 0 0 5 [] = Some (start, slots, ts)"
    "split_inv s sep (length s + 1 - length sep) start slots ts"
    using split_loop_eq [OF assms(2) len assms(5), of 0 0 5 "[]" A] by auto
  note inv = l(2) [unfolded split_inv_def]
  let ?t = "take (length s - start) (drop start s)"
  obtain t where t: "mem_read s start (length s - start) = Some ?t" "sdsnewlen A (Init ?t) (length s - start) = Some t"
    "sds_ok t" "sds_str t = ?t"
    using newlen_piece [of start "length s" s A] inv len by auto
  have nosep: "\<not> sublist sep ?t"
    by (rule piece_without_sep [of s sep start "length s + 1 - length sep"]) (use inv in auto)
  have split: "sdssplitlen A s sep = Some (Some (ts @ [t]))"
    using assms(1,2) l(1) t(1,2) inv by (cases sep) (auto simp: sdssplitlen_def add_token_def)
  have all: "\<forall>x\<in>set (ts @ [t]). sds_ok x \<and> \<not> sublist sep (sds_str x)" using inv t(3,4) nosep by auto
  have join: "join_with sep (map sds_str (ts @ [t])) = s"
  proof -
    have "join_with sep (map sds_str (ts @ [t])) = concat (map (\<lambda>t. sds_str t @ sep) ts) @ sds_str t"
      by (simp add: join_with_snoc comp_def)
    also have "\<dots> = take start s @ drop start s" using inv t(4) by simp
    finally show ?thesis by simp
  qed
  obtain e where e: "sdsempty A = Some e" "sds_ok e" "sds_str e = []" using sdsempty_ok [of A] by blast
  have "list_all sds_ok (ts @ [t])" using all by (simp add: list_all_iff)
  then obtain j where "joinsds_loop A sep e (ts @ [t]) = Some j" "sds_ok j" "sds_str j = s"
    using joinsds_loop_eq [OF e(2), of "ts @ [t]" sep A] len unfolding join e(3) by auto
  then show ?thesis using split all e(1) by (intro exI [of _ "ts @ [t]"] exI [of _ j]) (simp add: sdsjoinsds_def)
qed

theorem sdssplitlen_sdsjoinsds_witness:
  "\<exists>ts j. sdssplitlen plain_allocator [97, 44, 44, 98] [44] = Some (Some ts) \<and> sdsjoinsds plain_allocator ts [44] = Some j \<and>
     sds_str j = [97, 44, 44, 98]"
  using sdssplitlen_sdsjoinsds [of "[97, 44, 44, 98]" "[44]" plain_allocator] by auto

section \<open>Escaping and parsing\<close>

text \<open>C24: The argument parser reads back what the escaping function writes. A line of escaped arguments, separated by
  single blanks, is parsed into exactly these arguments, whatever bytes they hold, zero bytes and
  quotes included.\<close>

theorem sdscatrepr_sdssplitargs:
  assumes "\<forall>p\<in>set ps. length p < 2 ^ 60" "sds_ok s" "length (sds_str s) < 2 ^ 62"
  shows "(\<forall>p\<in>set ps. \<exists>s'. sdscatrepr A s p = Some s' \<and> sds_ok s' \<and> sds_str s' = sds_str s @ repr p) \<and>
    (\<exists>ts. sdssplitargs A (repr_line ps @ 0 # rest) = Some (Some ts) \<and> list_all sds_ok ts \<and> map sds_str ts = ps)"
proof
  show "\<forall>p\<in>set ps. \<exists>s'. sdscatrepr A s p = Some s' \<and> sds_ok s' \<and> sds_str s' = sds_str s @ repr p"
  proof
    fix p assume "p \<in> set ps"
    then have "length p < 2 ^ 60" using assms(1) by simp
    moreover have "length (concat (map repr_char p)) \<le> 4 * length p"
      by (induction p) (auto simp: repr_char_def)
    ultimately have "length (sds_str s) + length (repr p) < 2 ^ 63"
      using assms(3) by (simp add: repr_def)
    then show "\<exists>s'. sdscatrepr A s p = Some s' \<and> sds_ok s' \<and> sds_str s' = sds_str s @ repr p"
      using sdscatrepr_eq [OF assms(2)] by blast
  qed
  have "\<forall>p\<in>set ps. length p < 2 ^ 62" using assms(1) by auto
  then show "\<exists>ts. sdssplitargs A (repr_line ps @ 0 # rest) = Some (Some ts) \<and> list_all sds_ok ts \<and> map sds_str ts = ps"
    using args_loop_repr [of ps "[]" A "[]" rest] by (simp add: sdssplitargs_def)
qed

theorem sdscatrepr_sdssplitargs_witness:
  "\<exists>ts. sdssplitargs plain_allocator (repr_line [[0, 255], [34, 32, 10]] @ 0 # []) = Some (Some ts) \<and> map sds_str ts = [[0, 255], [34, 32, 10]]"
  using sdscatrepr_sdssplitargs [of "[[0, 255], [34, 32, 10]]" example_sds plain_allocator "[]"]
  by (auto simp: example_sds_def sds_ok_def sdsalloc_def sds_str_def)

text \<open>C25: The argument parser comes to an end on every line, within its bounds: it returns either the tokens, all of
  them well-formed strings, or the error for unbalanced quotes.\<close>

theorem sdssplitargs_total:
  assumes "0 \<notin> set line" "length line < 2 ^ 62"
  shows "\<exists>r. sdssplitargs A (line @ 0 # rest) = Some r \<and> (\<forall>ts. r = Some ts \<longrightarrow> list_all sds_ok ts)"
proof -
  have "cline (line @ 0 # rest) (length line)"
    using assms by (auto simp: cline_def nth_append in_set_conv_nth)
  then show ?thesis using args_loop_total [of "line @ 0 # rest" "length line" 0 "[]" A] by (simp add: sdssplitargs_def)
qed

theorem sdssplitargs_total_witness:
  "\<exists>r. sdssplitargs plain_allocator ([34, 97] @ 0 # []) = Some r \<and> (\<forall>ts. r = Some ts \<longrightarrow> list_all sds_ok ts)"
  using sdssplitargs_total [of "[34, 97]" plain_allocator "[]"] by simp

end
