(* ===== verification/Interfaces.thy ===== *)
theory Interfaces
  imports Redis_Prelude
begin

text \<open>
  Interfaces shared by several components. Each is a locale: the operations a client calls, the laws
  their provider promises, and what follows for every client. The providers interpret them on their
  own definitions.
\<close>

section \<open>Sets\<close>

text \<open>A sequence of insertions and removals, run on an implementation and on mathematical sets. The
  results are the reports of the single operations: was the element new, was it there.\<close>

datatype 'x set_op = Add_op 'x | Remove_op 'x

fun set_run :: "('s \<Rightarrow> 'x \<Rightarrow> ('s \<times> bool) option) \<Rightarrow> ('s \<Rightarrow> 'x \<Rightarrow> ('s \<times> bool) option) \<Rightarrow>
    'x set_op list \<Rightarrow> 's \<Rightarrow> ('s \<times> bool list) option" where
  "set_run add remove [] s = Some (s, [])"
| "set_run add remove (op # ops) s = do {
     (s, r) \<leftarrow> (case op of Add_op x \<Rightarrow> add s x | Remove_op x \<Rightarrow> remove s x);
     (s, rs) \<leftarrow> set_run add remove ops s;
     Some (s, r # rs) }"

fun set_spec :: "'x set_op list \<Rightarrow> 'x set \<Rightarrow> 'x set \<times> bool list" where
  "set_spec [] S = (S, [])"
| "set_spec (Add_op x # ops) S = (let (S', rs) = set_spec ops (insert x S) in (S', (x \<notin> S) # rs))"
| "set_spec (Remove_op x # ops) S = (let (S', rs) = set_spec ops (S - {x}) in (S', (x \<in> S) # rs))"

locale set_store =
  fixes ok :: "'s \<Rightarrow> bool"
    and elems :: "'s \<Rightarrow> 'x set"
    and add :: "'s \<Rightarrow> 'x \<Rightarrow> ('s \<times> bool) option"
    and remove :: "'s \<Rightarrow> 'x \<Rightarrow> ('s \<times> bool) option"
    and member :: "'s \<Rightarrow> 'x \<Rightarrow> bool option"
    and bound :: nat
  assumes finite_law: "ok s \<Longrightarrow> finite (elems s)"
    and add_law: "ok s \<Longrightarrow> card (elems s) < bound \<Longrightarrow>
      \<exists>s'. add s x = Some (s', x \<notin> elems s) \<and> ok s' \<and> elems s' = insert x (elems s)"
    and remove_law: "ok s \<Longrightarrow> card (elems s) < bound \<Longrightarrow>
      \<exists>s'. remove s x = Some (s', x \<in> elems s) \<and> ok s' \<and> elems s' = elems s - {x}"
    and member_law: "ok s \<Longrightarrow> card (elems s) < bound \<Longrightarrow> member s x = Some (x \<in> elems s)"
begin

lemma run_law:
  assumes "ok s" "card (elems s) + length ops \<le> bound"
  shows "\<exists>s' rs. set_run add remove ops s = Some (s', rs) \<and> ok s' \<and> set_spec ops (elems s) = (elems s', rs)"
  using assms
proof (induction ops arbitrary: s)
  case (Cons op ops)
  have lt: "card (elems s) < bound" using Cons.prems(2) by simp
  obtain s1 r where s1: "(case op of Add_op x \<Rightarrow> add s x | Remove_op x \<Rightarrow> remove s x) = Some (s1, r)" "ok s1"
    "set_spec (op # ops) (elems s) = (let (S', rs) = set_spec ops (elems s1) in (S', r # rs))"
    "card (elems s1) \<le> Suc (card (elems s))"
  proof (cases op)
    case (Add_op x)
    obtain s1 where "add s x = Some (s1, x \<notin> elems s)" "ok s1" "elems s1 = insert x (elems s)"
      using add_law [OF Cons.prems(1) lt] by blast
    then show ?thesis using Add_op by (intro that [of s1 "x \<notin> elems s"]) (simp_all add: finite_law [OF Cons.prems(1)] card_insert_if)
  next
    case (Remove_op x)
    obtain s1 where "remove s x = Some (s1, x \<in> elems s)" "ok s1" "elems s1 = elems s - {x}"
      using remove_law [OF Cons.prems(1) lt] by blast
    moreover have "card (elems s - {x}) \<le> Suc (card (elems s))"
      using card_Diff1_le [of "elems s" x] by simp
    ultimately show ?thesis using Remove_op by (intro that [of s1 "x \<in> elems s"]) simp_all
  qed
  then obtain s' rs where "set_run add remove ops s1 = Some (s', rs)" "ok s'" "set_spec ops (elems s1) = (elems s', rs)"
    using Cons.IH [of s1] Cons.prems(2) by auto
  then show ?case using s1 by (cases op) auto
qed simp

end

section \<open>Maps\<close>

text \<open>A key-value store. Its keys are identified by the equivalence \<open>eqk\<close>. Operations may reorganise the
  store, lookups included; \<open>tick\<close> stands for the store's maintenance operations, which keep the contents.\<close>

datatype ('k, 'v, 't) map_op = Put_op 'k 'v | Get_op 'k | Del_op 'k | Tick_op 't

datatype 'v map_result = Was_new bool | Got "'v option" | Deleted bool | Ticked

fun map_run :: "('s \<Rightarrow> 'k \<Rightarrow> 'v \<Rightarrow> ('s \<times> bool) option) \<Rightarrow> ('s \<Rightarrow> 'k \<Rightarrow> ('s \<times> 'v option) option) \<Rightarrow>
    ('s \<Rightarrow> 'k \<Rightarrow> ('s \<times> bool) option) \<Rightarrow> ('s \<Rightarrow> 't \<Rightarrow> 's option) \<Rightarrow>
    ('k, 'v, 't) map_op list \<Rightarrow> 's \<Rightarrow> ('s \<times> 'v map_result list) option" where
  "map_run put get del tick [] s = Some (s, [])"
| "map_run put get del tick (op # ops) s = do {
     (s, r) \<leftarrow> (case op of
        Put_op k v \<Rightarrow> map_option (map_prod id Was_new) (put s k v)
      | Get_op k \<Rightarrow> map_option (map_prod id Got) (get s k)
      | Del_op k \<Rightarrow> map_option (map_prod id Deleted) (del s k)
      | Tick_op t \<Rightarrow> map_option (\<lambda>s. (s, Ticked)) (tick s t));
     (s, rs) \<leftarrow> map_run put get del tick ops s;
     Some (s, r # rs) }"

fun map_spec :: "('k \<Rightarrow> 'k \<Rightarrow> bool) \<Rightarrow> ('k, 'v, 't) map_op list \<Rightarrow> ('k \<Rightarrow> 'v option) \<Rightarrow>
    ('k \<Rightarrow> 'v option) \<times> 'v map_result list" where
  "map_spec eqk [] m = (m, [])"
| "map_spec eqk (op # ops) m =
     (let (m', r) = (case op of
            Put_op k v \<Rightarrow> ((\<lambda>x. if eqk x k then Some v else m x), Was_new (m k = None))
          | Get_op k \<Rightarrow> (m, Got (m k))
          | Del_op k \<Rightarrow> ((\<lambda>x. if eqk x k then None else m x), Deleted (m k \<noteq> None))
          | Tick_op t \<Rightarrow> (m, Ticked));
          (m'', rs) = map_spec eqk ops m'
      in (m'', r # rs))"

locale map_store =
  fixes ok :: "'s \<Rightarrow> bool"
    and lookup :: "'s \<Rightarrow> 'k \<Rightarrow> 'v option"
    and count :: "'s \<Rightarrow> nat"
    and eqk :: "'k \<Rightarrow> 'k \<Rightarrow> bool"
    and put :: "'s \<Rightarrow> 'k \<Rightarrow> 'v \<Rightarrow> ('s \<times> bool) option"
    and get :: "'s \<Rightarrow> 'k \<Rightarrow> ('s \<times> 'v option) option"
    and del :: "'s \<Rightarrow> 'k \<Rightarrow> ('s \<times> bool) option"
    and tick :: "'s \<Rightarrow> 't \<Rightarrow> 's option"
    and bound :: nat
  assumes put_law: "ok s \<Longrightarrow> count s < bound \<Longrightarrow>
      \<exists>s'. put s k v = Some (s', lookup s k = None) \<and> ok s' \<and> count s' \<le> Suc (count s) \<and>
        lookup s' = (\<lambda>x. if eqk x k then Some v else lookup s x)"
    and get_law: "ok s \<Longrightarrow> \<exists>s'. get s k = Some (s', lookup s k) \<and> ok s' \<and> count s' \<le> count s \<and> lookup s' = lookup s"
    and del_law: "ok s \<Longrightarrow>
      \<exists>s'. del s k = Some (s', lookup s k \<noteq> None) \<and> ok s' \<and> count s' \<le> count s \<and>
        lookup s' = (\<lambda>x. if eqk x k then None else lookup s x)"
    and tick_law: "ok s \<Longrightarrow> \<exists>s'. tick s t = Some s' \<and> ok s' \<and> count s' \<le> count s \<and> lookup s' = lookup s"
begin

lemma map_run_law:
  assumes "ok s" "count s + length ops \<le> bound"
  shows "\<exists>s' rs. map_run put get del tick ops s = Some (s', rs) \<and> ok s' \<and> map_spec eqk ops (lookup s) = (lookup s', rs)"
  using assms
proof (induction ops arbitrary: s)
  case (Cons op ops)
  have lt: "count s < bound" using Cons.prems(2) by simp
  obtain s1 r where s1: "(case op of
        Put_op k v \<Rightarrow> map_option (map_prod id Was_new) (put s k v)
      | Get_op k \<Rightarrow> map_option (map_prod id Got) (get s k)
      | Del_op k \<Rightarrow> map_option (map_prod id Deleted) (del s k)
      | Tick_op t \<Rightarrow> map_option (\<lambda>s. (s, Ticked)) (tick s t)) = Some (s1, r)" "ok s1" "count s1 \<le> Suc (count s)"
    "map_spec eqk (op # ops) (lookup s) = (let (m, rs) = map_spec eqk ops (lookup s1) in (m, r # rs))"
  proof (cases op)
    case (Put_op k v)
    obtain s1 where "put s k v = Some (s1, lookup s k = None)" "ok s1" "count s1 \<le> Suc (count s)"
      "lookup s1 = (\<lambda>x. if eqk x k then Some v else lookup s x)" using put_law [OF Cons.prems(1) lt] by blast
    then show ?thesis using Put_op by (intro that [of s1 "Was_new (lookup s k = None)"]) simp_all
  next
    case (Get_op k)
    obtain s1 where "get s k = Some (s1, lookup s k)" "ok s1" "count s1 \<le> count s" "lookup s1 = lookup s"
      using get_law [OF Cons.prems(1)] by blast
    then show ?thesis using Get_op by (intro that [of s1 "Got (lookup s k)"]) simp_all
  next
    case (Del_op k)
    obtain s1 where "del s k = Some (s1, lookup s k \<noteq> None)" "ok s1" "count s1 \<le> count s"
      "lookup s1 = (\<lambda>x. if eqk x k then None else lookup s x)" using del_law [OF Cons.prems(1)] by blast
    then show ?thesis using Del_op by (intro that [of s1 "Deleted (lookup s k \<noteq> None)"]) simp_all
  next
    case (Tick_op t)
    obtain s1 where "tick s t = Some s1" "ok s1" "count s1 \<le> count s" "lookup s1 = lookup s"
      using tick_law [OF Cons.prems(1)] by blast
    then show ?thesis using Tick_op by (intro that [of s1 Ticked]) simp_all
  qed
  obtain s' rs where "map_run put get del tick ops s1 = Some (s', rs)" "ok s'" "map_spec eqk ops (lookup s1) = (lookup s', rs)"
    using Cons.IH [OF s1(2)] s1(3) Cons.prems(2) by auto
  then show ?case using s1(1,4) by simp
qed simp

end

section \<open>Output in pieces\<close>

text \<open>A consumer that takes one piece of output after the other: what it has taken is the concatenation of the pieces. The room
  that a piece may need is known in advance.\<close>

fun put_all :: "('c \<Rightarrow> 'p \<Rightarrow> 'c option) \<Rightarrow> 'c \<Rightarrow> 'p list \<Rightarrow> 'c option" where
  "put_all put c [] = Some c"
| "put_all put c (p # ps) = do { c \<leftarrow> put c p; put_all put c ps }"

locale output_queue =
  fixes put :: "'c \<Rightarrow> 'b list \<Rightarrow> 'c option"
    and has_room :: "nat \<Rightarrow> 'c \<Rightarrow> bool"
    and cost :: "'b list \<Rightarrow> nat"
    and appended :: "'c \<Rightarrow> 'b list \<Rightarrow> nat \<Rightarrow> 'c \<Rightarrow> bool"
  assumes put_law: "has_room (cost p) c \<Longrightarrow> \<exists>c'. put c p = Some c' \<and> appended c p (cost p) c'"
    and nil_law: "has_room n c \<Longrightarrow> appended c [] 0 c"
    and append_law: "appended a s m b \<Longrightarrow> appended b t n c \<Longrightarrow> appended a (s @ t) (m + n) c"
    and room_law: "appended c t m c' \<Longrightarrow> has_room (m + n) c \<Longrightarrow> has_room n c'"
    and less_law: "has_room n c \<Longrightarrow> m \<le> n \<Longrightarrow> has_room m c"
begin

lemma put_all_law:
  assumes "has_room (sum_list (map cost ps)) c"
  shows "\<exists>c'. put_all put c ps = Some c' \<and> appended c (concat ps) (sum_list (map cost ps)) c'"
  using assms
proof (induction ps arbitrary: c)
  case (Cons p ps)
  obtain c1 where c1: "put c p = Some c1" "appended c p (cost p) c1"
    using put_law [of p c] less_law [OF Cons.prems, of "cost p"] by auto
  then obtain c2 where "put_all put c1 ps = Some c2" "appended c1 (concat ps) (sum_list (map cost ps)) c2"
    using Cons.IH room_law [OF c1(2)] Cons.prems by auto
  then show ?case using c1 append_law [OF c1(2)] by auto
qed (simp add: nil_law)

end

end
