(* ===== verification/Intset.thy ===== *)
theory Intset
  imports Endian Interfaces
begin

text \<open>
  Models \<^verbatim>\<open>src/intset.c\<close>: a set of integers kept as one sorted array of 16, 32 or 64 bit
  little-endian elements.

  The record \<open>intset\<close> holds the two header words as the host sees them and the bytes of the array.
  \<open>be\<close> is the byte order of the host. Values have the type \<^verbatim>\<open>int64_t\<close>, positions are \<^verbatim>\<open>int\<close> or
  \<^verbatim>\<open>uint32_t\<close> as in the code. \<open>J\<close> is what a grown block contains before it is written. \<open>None\<close> is a
  failed assertion or an access outside of the array.
\<close>

section \<open>Data\<close>

record intset =
  is_encoding :: u32
  is_length :: u32
  is_contents :: bytes

text \<open>\<^verbatim>\<open>intrev32ifbe\<close> as an expression. It never fails, see \<open>intrev32ifbe_total\<close>.\<close>

definition rev32 :: "bool \<Rightarrow> u32 \<Rightarrow> u32" where
  "rev32 be v = (case intrev32ifbe be v of Some w \<Rightarrow> w | None \<Rightarrow> 0)"

definition INTSET_ENC_INT16 :: nat where "INTSET_ENC_INT16 = 2"
definition INTSET_ENC_INT32 :: nat where "INTSET_ENC_INT32 = 4"
definition INTSET_ENC_INT64 :: nat where "INTSET_ENC_INT64 = 8"

lemmas intset_enc_defs = INTSET_ENC_INT16_def INTSET_ENC_INT32_def INTSET_ENC_INT64_def

text \<open>The header fields in host order.\<close>

abbreviation enc_of :: "bool \<Rightarrow> intset \<Rightarrow> nat" where
  "enc_of be is \<equiv> unat (rev32 be (is_encoding is))"

abbreviation len_of :: "bool \<Rightarrow> intset \<Rightarrow> nat" where
  "len_of be is \<equiv> unat (rev32 be (is_length is))"

section \<open>Operations\<close>

definition intsetValueEncoding :: "s64 \<Rightarrow> nat" where
  "intsetValueEncoding v =
     (if sint v < - (2 ^ 31) \<or> sint v > 2 ^ 31 - 1 then INTSET_ENC_INT64
      else if sint v < - (2 ^ 15) \<or> sint v > 2 ^ 15 - 1 then INTSET_ENC_INT32
      else INTSET_ENC_INT16)"

text \<open>Element \<open>pos\<close> of an array of \<open>e\<close>-byte elements.\<close>

definition read_elem :: "bytes \<Rightarrow> int \<Rightarrow> nat \<Rightarrow> bytes option" where
  "read_elem m pos e = (if pos < 0 then None else mem_read m (nat pos * e) e)"

definition intsetGetEncoded :: "bool \<Rightarrow> intset \<Rightarrow> int \<Rightarrow> nat \<Rightarrow> s64 option" where
  "intsetGetEncoded be is pos enc =
     (if enc = INTSET_ENC_INT64 then do {
        v64 \<leftarrow> read_elem (is_contents is) pos 8;
        v64 \<leftarrow> memrev64ifbe be v64 0;
        Some (host_load be v64) }
      else if enc = INTSET_ENC_INT32 then do {
        v32 \<leftarrow> read_elem (is_contents is) pos 4;
        v32 \<leftarrow> memrev32ifbe be v32 0;
        Some (word_of_int (sint (host_load be v32 :: 32 word))) }
      else do {
        v16 \<leftarrow> read_elem (is_contents is) pos 2;
        v16 \<leftarrow> memrev16ifbe be v16 0;
        Some (word_of_int (sint (host_load be v16 :: 16 word))) })"

definition intset_get :: "bool \<Rightarrow> intset \<Rightarrow> int \<Rightarrow> s64 option" where
  "intset_get be is pos = intsetGetEncoded be is pos (enc_of be is mod 256)"

definition write_elem :: "bytes \<Rightarrow> int \<Rightarrow> bytes \<Rightarrow> bytes option" where
  "write_elem m pos bs = (if pos < 0 then None else mem_write m (nat pos * length bs) bs)"

definition intset_set :: "bool \<Rightarrow> intset \<Rightarrow> int \<Rightarrow> s64 \<Rightarrow> intset option" where
  "intset_set be is pos v =
     (let encoding = enc_of be is in
      if encoding = INTSET_ENC_INT64 then do {
        m \<leftarrow> write_elem (is_contents is) pos (host_store be 8 v);
        m \<leftarrow> memrev64ifbe be m (nat pos * 8);
        Some (is\<lparr>is_contents := m\<rparr>) }
      else if encoding = INTSET_ENC_INT32 then do {
        m \<leftarrow> write_elem (is_contents is) pos (host_store be 4 (ucast v :: 32 word));
        m \<leftarrow> memrev32ifbe be m (nat pos * 4);
        Some (is\<lparr>is_contents := m\<rparr>) }
      else do {
        m \<leftarrow> write_elem (is_contents is) pos (host_store be 2 (ucast v :: 16 word));
        m \<leftarrow> memrev16ifbe be m (nat pos * 2);
        Some (is\<lparr>is_contents := m\<rparr>) })"

definition intsetNew :: "bool \<Rightarrow> intset" where
  "intsetNew be = \<lparr>is_encoding = rev32 be (word_of_nat INTSET_ENC_INT16), is_length = 0, is_contents = []\<rparr>"

text \<open>The size fits \<^verbatim>\<open>size_t\<close> for every 32-bit length, so the assertion only looks at the product.\<close>

definition intsetResize :: "bool \<Rightarrow> (nat \<Rightarrow> byte) \<Rightarrow> intset \<Rightarrow> u32 \<Rightarrow> intset option" where
  "intsetResize be J is len =
     (let new_size = unat len * enc_of be is mod 2 ^ 64 in
      if new_size \<le> 2 ^ 64 - 1 - 8 then Some (is\<lparr>is_contents := mem_resize J (is_contents is) new_size\<rparr>) else None)"

text \<open>The binary search loop. The result is \<^verbatim>\<open>(min, mid, cur)\<close> when it ends. The bounds in the
  condition hold for every position of type \<^verbatim>\<open>int\<close> the loop can reach: it starts at 0 and \<^verbatim>\<open>min\<close>
  only grows.\<close>

function search_loop :: "(int \<Rightarrow> s64 option) \<Rightarrow> s64 \<Rightarrow> int \<Rightarrow> int \<Rightarrow> int \<Rightarrow> s64 \<Rightarrow> (int \<times> int \<times> s64) option" where
  "search_loop get v lo hi mid cur =
     (if lo \<le> hi \<and> 0 \<le> lo \<and> hi < 2 ^ 31 then
        (let mid = (lo + hi) mod 2 ^ 32 div 2 in
         case get mid of
           None \<Rightarrow> None
         | Some cur \<Rightarrow>
             if sint v > sint cur then search_loop get v (mid + 1) hi mid cur
             else if sint v < sint cur then search_loop get v lo (mid - 1) mid cur
             else Some (lo, mid, cur))
      else Some (lo, mid, cur))"
  by pat_completeness auto
termination
  by (relation "measure (\<lambda>(get, v, lo, hi, mid, cur). nat (hi + 1 - lo))") (auto simp: mod_pos_pos_trivial)

declare search_loop.simps [simp del]

definition intsetSearch :: "bool \<Rightarrow> intset \<Rightarrow> s64 \<Rightarrow> (bool \<times> u32) option" where
  "intsetSearch be is v =
     (let max = sint (rev32 be (is_length is) - 1) in
      if rev32 be (is_length is) = 0 then Some (False, 0)
      else do {
        last \<leftarrow> intset_get be is max;
        if sint v > sint last then Some (False, rev32 be (is_length is))
        else do {
          first \<leftarrow> intset_get be is 0;
          if sint v < sint first then Some (False, 0)
          else do {
            (lo, mid, cur) \<leftarrow> search_loop (intset_get be is) v 0 max (-1) (-1);
            if v = cur then Some (True, word_of_int mid) else Some (False, word_of_int lo) } } })"

text \<open>\<^verbatim>\<open>while(length--)\<close> of the upgrade, with the count still to convert.\<close>

fun upgrade_loop :: "bool \<Rightarrow> nat \<Rightarrow> nat \<Rightarrow> nat \<Rightarrow> intset \<Rightarrow> intset option" where
  "upgrade_loop be curenc prepend 0 is = Some is"
| "upgrade_loop be curenc prepend (Suc len) is = do {
     v \<leftarrow> intsetGetEncoded be is (int len) curenc;
     is \<leftarrow> intset_set be is (int (len + prepend)) v;
     upgrade_loop be curenc prepend len is }"

definition intsetUpgradeAndAdd :: "bool \<Rightarrow> (nat \<Rightarrow> byte) \<Rightarrow> intset \<Rightarrow> s64 \<Rightarrow> intset option" where
  "intsetUpgradeAndAdd be J is v =
     (let curenc = enc_of be is mod 256;
          newenc = intsetValueEncoding v;
          len = len_of be is;
          prepend = (if sint v < 0 then 1 else 0 :: nat);
          is = is\<lparr>is_encoding := rev32 be (word_of_nat newenc)\<rparr>
      in do {
        is \<leftarrow> intsetResize be J is (rev32 be (is_length is) + 1);
        is \<leftarrow> upgrade_loop be curenc prepend len is;
        is \<leftarrow> (if prepend \<noteq> 0 then intset_set be is 0 v
              else intset_set be is (int (len_of be is)) v);
        Some (is\<lparr>is_length := rev32 be (rev32 be (is_length is) + 1)\<rparr>) })"

text \<open>The byte count is computed in 32 bits.\<close>

definition intsetMoveTail :: "bool \<Rightarrow> intset \<Rightarrow> u32 \<Rightarrow> u32 \<Rightarrow> intset option" where
  "intsetMoveTail be is from to =
     (let count = rev32 be (is_length is) - from;
          encoding = enc_of be is;
          width = (if encoding = INTSET_ENC_INT64 then 8 else if encoding = INTSET_ENC_INT32 then 4 else 2)
      in do {
        m \<leftarrow> mem_move (is_contents is) (unat to * width) (unat from * width) (unat (count * word_of_nat width));
        Some (is\<lparr>is_contents := m\<rparr>) })"

text \<open>The results of \<^verbatim>\<open>intsetAdd\<close> and \<^verbatim>\<open>intsetRemove\<close> are the new set and \<^verbatim>\<open>*success\<close>.\<close>

definition intsetAdd :: "bool \<Rightarrow> (nat \<Rightarrow> byte) \<Rightarrow> intset \<Rightarrow> s64 \<Rightarrow> (intset \<times> bool) option" where
  "intsetAdd be J is v =
     (let valenc = intsetValueEncoding v in
      if valenc > enc_of be is then do {
        is \<leftarrow> intsetUpgradeAndAdd be J is v;
        Some (is, True) }
      else do {
        (found, pos) \<leftarrow> intsetSearch be is v;
        if found then Some (is, False)
        else do {
          is \<leftarrow> intsetResize be J is (rev32 be (is_length is) + 1);
          is \<leftarrow> (if pos < rev32 be (is_length is) then intsetMoveTail be is pos (pos + 1) else Some is);
          is \<leftarrow> intset_set be is (sint pos) v;
          Some (is\<lparr>is_length := rev32 be (rev32 be (is_length is) + 1)\<rparr>, True) } })"

definition intsetRemove :: "bool \<Rightarrow> (nat \<Rightarrow> byte) \<Rightarrow> intset \<Rightarrow> s64 \<Rightarrow> (intset \<times> bool) option" where
  "intsetRemove be J is v =
     (let valenc = intsetValueEncoding v in
      if valenc \<le> enc_of be is then do {
        (found, pos) \<leftarrow> intsetSearch be is v;
        if found then
          (let len = rev32 be (is_length is) in do {
            is \<leftarrow> (if pos < len - 1 then intsetMoveTail be is (pos + 1) pos else Some is);
            is \<leftarrow> intsetResize be J is (len - 1);
            Some (is\<lparr>is_length := rev32 be (len - 1)\<rparr>, True) })
        else Some (is, False) }
      else Some (is, False))"

definition intsetFind :: "bool \<Rightarrow> intset \<Rightarrow> s64 \<Rightarrow> bool option" where
  "intsetFind be is v =
     (if intsetValueEncoding v \<le> enc_of be is then do { (found, pos) \<leftarrow> intsetSearch be is v; Some found }
      else Some False)"

text \<open>\<open>r\<close> is the value \<^verbatim>\<open>rand()\<close> returns.\<close>

definition intsetRandom :: "bool \<Rightarrow> intset \<Rightarrow> nat \<Rightarrow> s64 option" where
  "intsetRandom be is r =
     (let len = len_of be is in if len = 0 then None else intset_get be is (int (r mod len)))"

text \<open>The inner option is \<open>None\<close> when the function returns 0.\<close>

definition intsetGet :: "bool \<Rightarrow> intset \<Rightarrow> u32 \<Rightarrow> s64 option option" where
  "intsetGet be is pos =
     (if pos < rev32 be (is_length is) then do { v \<leftarrow> intset_get be is (sint pos); Some (Some v) } else Some None)"

definition intsetLen :: "bool \<Rightarrow> intset \<Rightarrow> nat" where
  "intsetLen be is = len_of be is"

definition intsetBlobLen :: "bool \<Rightarrow> intset \<Rightarrow> nat" where
  "intsetBlobLen be is = (8 + len_of be is * enc_of be is) mod 2 ^ 64"

text \<open>A blob read from a file or the network, seen as an intset.\<close>

definition intset_of_blob :: "bool \<Rightarrow> bytes \<Rightarrow> intset" where
  "intset_of_blob be p =
     \<lparr>is_encoding = host_load be (take 4 p), is_length = host_load be (take 4 (drop 4 p)), is_contents = drop 8 p\<rparr>"

text \<open>The loop counts in a \<^verbatim>\<open>uint32_t\<close>; \<^verbatim>\<open>_intsetGet\<close> takes the position as an \<^verbatim>\<open>int\<close>, which is negative from \<open>2 ^ 31\<close> on.\<close>

fun validate_loop :: "(int \<Rightarrow> s64 option) \<Rightarrow> nat \<Rightarrow> nat \<Rightarrow> s64 \<Rightarrow> bool option" where
  "validate_loop get i 0 prev = Some True"
| "validate_loop get i (Suc k) prev = do {
     cur \<leftarrow> get (sint (word_of_nat i :: 32 word));
     if sint cur \<le> sint prev then Some False else validate_loop get (i + 1) k cur }"

definition intsetValidateIntegrity :: "bool \<Rightarrow> bytes \<Rightarrow> bool \<Rightarrow> bool option" where
  "intsetValidateIntegrity be p deep =
     (let is = intset_of_blob be p; sz = length p in
      if sz < 8 then Some False
      else
        (let encoding = enc_of be is; count = len_of be is in
         if encoding \<noteq> INTSET_ENC_INT64 \<and> encoding \<noteq> INTSET_ENC_INT32 \<and> encoding \<noteq> INTSET_ENC_INT16 then Some False
         else if (8 + count * encoding) mod 2 ^ 64 \<noteq> sz then Some False
         else if count = 0 then Some False
         else if \<not> deep then Some True
         else do {
           prev \<leftarrow> intset_get be is 0;
           validate_loop (intset_get be is) 1 (count - 1) prev }))"


section \<open>Values as bytes\<close>

definition le_int :: "nat \<Rightarrow> int \<Rightarrow> bytes" where
  "le_int e v = le_bytes e (nat (v mod 256 ^ e))"

definition fits :: "nat \<Rightarrow> int \<Rightarrow> bool" where
  "fits e v \<longleftrightarrow> - (2 ^ (8 * e - 1)) \<le> v \<and> v < 2 ^ (8 * e - 1)"

lemma length_le_int [simp]: "length (le_int e v) = e"
  by (simp add: le_int_def)

lemma le_nat_le_int: "le_nat (le_int e v) = nat (v mod 256 ^ e)"
proof -
  have "nat (v mod 256 ^ e) < 256 ^ e" by (simp add: nat_less_iff)
  then show ?thesis by (simp add: le_int_def le_nat_le_bytes)
qed

lemma word_of_le_int:
  assumes "LENGTH('a) = 8 * e"
  shows "(word_of_nat (le_nat (le_int e v)) :: 'a::len word) = word_of_int v"
proof -
  have "(256::int) ^ e = 2 ^ LENGTH('a)" using assms by (simp add: power_mult)
  then have "int (le_nat (le_int e v)) = v mod 2 ^ LENGTH('a)" by (simp add: le_nat_le_int)
  then have "(word_of_nat (le_nat (le_int e v)) :: 'a word) = word_of_int (v mod 2 ^ LENGTH('a))"
    by (metis of_int_of_nat_eq)
  also have "\<dots> = word_of_int v" by (simp add: word_of_int_eq_iff take_bit_eq_mod)
  finally show ?thesis .
qed

lemma sint_word_of_int_fits:
  assumes "LENGTH('a) = 8 * e" "fits e v"
  shows "sint (word_of_int v :: 'a::len word) = v"
  using assms by (simp add: fits_def sint_sbintrunc' signed_take_bit_int_eq_self)

lemma le_bytes_ucast:
  assumes "LENGTH('a) = 8 * e" "e \<le> 8"
  shows "le_bytes e (unat (ucast (v :: s64) :: 'a::len word)) = le_int e (sint v)"
proof -
  have p: "(256::int) ^ e = 2 ^ LENGTH('a)" using assms by (simp add: power_mult)
  have "uint (ucast v :: 'a word) = take_bit LENGTH('a) (uint v)" by (simp add: unsigned_ucast_eq)
  also have "uint v = take_bit 64 (sint v)" by (simp add: uint_sint)
  also have "take_bit LENGTH('a) (take_bit 64 (sint v)) = sint v mod 256 ^ e" using assms unfolding p by (simp add: take_bit_take_bit take_bit_eq_mod [symmetric] min_absorb1)
  finally have "uint (ucast v :: 'a word) = sint v mod 256 ^ e" .
  then show ?thesis by (simp add: le_int_def unat_eq_nat_uint)
qed

text \<open>What a conditional reversal followed by a load reads from little-endian bytes.\<close>

lemma host_load_le: "host_load be (if be then rev bs else bs) = word_of_nat (le_nat bs)"
  by (simp add: host_load_def)

lemma memrev16ifbe_all: "length bs = 2 \<Longrightarrow> memrev16ifbe be bs 0 = Some (if be then rev bs else bs)"
  using memrev16_eq [of bs "[]" "[]"] by (simp add: memrev16ifbe_def)

lemma memrev32ifbe_all: "length bs = 4 \<Longrightarrow> memrev32ifbe be bs 0 = Some (if be then rev bs else bs)"
  using memrev32_eq [of bs "[]" "[]"] by (simp add: memrev32ifbe_def)

lemma memrev64ifbe_all: "length bs = 8 \<Longrightarrow> memrev64ifbe be bs 0 = Some (if be then rev bs else bs)"
  using memrev64_eq [of bs "[]" "[]"] by (simp add: memrev64ifbe_def)

lemmas memrevifbe_all = memrev16ifbe_all memrev32ifbe_all memrev64ifbe_all

lemma rev32_rev32 [simp]: "rev32 be (rev32 be v) = v"
  using intrev32ifbe_involution [of be v] intrev32ifbe_total [of be v] by (auto simp: rev32_def)

section \<open>Single elements\<close>

lemma intsetGetEncoded_eq:
  assumes "e \<in> {2, 4, 8}" "mem_read (is_contents is) (i * e) e = Some (le_int e v)" "fits e v"
  shows "intsetGetEncoded be is (int i) e = Some (word_of_int v)"
proof -
  have r: "read_elem (is_contents is) (int i) e = Some (le_int e v)" using assms(2) by (simp add: read_elem_def)
  consider "e = 2" | "e = 4" | "e = 8" using assms(1) by auto
  then show ?thesis
  proof cases
    case 1
    have "sint (word_of_int v :: 16 word) = v" using assms(3) 1 by (intro sint_word_of_int_fits [where e = 2]) simp_all
    then have "word_of_int (sint (word_of_int v :: 16 word)) = (word_of_int v :: s64)" by (simp only:)
    then show ?thesis using r 1
      by (simp add: intsetGetEncoded_def intset_enc_defs memrevifbe_all host_load_le word_of_le_int)
  next
    case 2
    have "sint (word_of_int v :: 32 word) = v" using assms(3) 2 by (intro sint_word_of_int_fits [where e = 4]) simp_all
    then have "word_of_int (sint (word_of_int v :: 32 word)) = (word_of_int v :: s64)" by (simp only:)
    then show ?thesis using r 2
      by (simp add: intsetGetEncoded_def intset_enc_defs memrevifbe_all host_load_le word_of_le_int)
  next
    case 3
    then show ?thesis using r
      by (simp add: intsetGetEncoded_def intset_enc_defs memrevifbe_all host_load_le word_of_le_int)
  qed
qed

lemma intset_set_eq:
  assumes "e \<in> {2, 4, 8}" "enc_of be is = e" "(i + 1) * e \<le> length (is_contents is)"
  shows "intset_set be is (int i) v = Some (is\<lparr>is_contents :=
    take (i * e) (is_contents is) @ le_int e (sint v) @ drop (i * e + e) (is_contents is)\<rparr>)"
proof -
  have len: "i * e + e \<le> length (is_contents is)" using assms(3) by simp
  consider "e = 2" | "e = 4" | "e = 8" using assms(1) by auto
  then show ?thesis
  proof cases
    case 1
    then show ?thesis
      using assms(2) len memrev16ifbe_store [of be "take (i * e) (is_contents is)" "ucast v :: 16 word"]
      by (simp add: intset_set_def intset_enc_defs write_elem_def mem_write_eq le_bytes_ucast)
  next
    case 2
    then show ?thesis
      using assms(2) len memrev32ifbe_store [of be "take (i * e) (is_contents is)" "ucast v :: 32 word"]
      by (simp add: intset_set_def intset_enc_defs write_elem_def mem_write_eq le_bytes_ucast)
  next
    case 3
    then show ?thesis
      using assms(2) len memrev64ifbe_store [of be "take (i * e) (is_contents is)" v]
        le_bytes_ucast [of 8 v, where 'a = 64]
      by (simp add: intset_set_def intset_enc_defs write_elem_def mem_write_eq)
  qed
qed

section \<open>Representation\<close>

text \<open>The set holds the strictly increasing values \<open>vs\<close> with \<open>e\<close> bytes each.\<close>

definition intset_rep :: "bool \<Rightarrow> intset \<Rightarrow> nat \<Rightarrow> int list \<Rightarrow> bool" where
  "intset_rep be is e vs \<longleftrightarrow>
     e \<in> {2, 4, 8} \<and> enc_of be is = e \<and> len_of be is = length vs \<and>
     is_contents is = concat (map (le_int e) vs) \<and> list_all (fits e) vs \<and> sorted_wrt (<) vs"

lemma chunks_le_int: "\<forall>x\<in>set (map (le_int e) vs). length x = e"
  by simp

lemma length_contents: "length (concat (map (le_int e) vs)) = length vs * e"
  using length_concat_chunks [OF chunks_le_int, of e vs] by simp

lemma fits_mono: "fits e v \<Longrightarrow> e \<le> e' \<Longrightarrow> 0 < e \<Longrightarrow> fits e' v"
proof -
  assume a: "fits e v" "e \<le> e'" "0 < e"
  then have "(2::int) ^ (8 * e - 1) \<le> 2 ^ (8 * e' - 1)" by (simp add: power_increasing)
  with a(1) show ?thesis unfolding fits_def by linarith
qed

lemma sint_fits: "fits e v \<Longrightarrow> e \<in> {2, 4, 8} \<Longrightarrow> sint (word_of_int v :: s64) = v"
  by (rule sint_word_of_int_fits [where e = 8]) (auto intro: fits_mono)

lemma read_chunk:
  "i < length vs \<Longrightarrow> mem_read (concat (map (le_int e) vs)) (i * e) e = Some (le_int e (vs ! i))"
proof -
  assume i: "i < length vs"
  then have "Suc i * e \<le> length vs * e" by (intro mult_le_mono1) simp
  then show ?thesis using nth_concat_chunks [OF chunks_le_int, of i e vs] i
    by (simp add: mem_read_def length_contents add.commute)
qed

lemma intset_get_shape:
  assumes "e \<in> {2, 4, 8}" "enc_of be is = e" "is_contents is = concat (map (le_int e) vs)" "list_all (fits e) vs"
    "i < length vs"
  shows "intset_get be is (int i) = Some (word_of_int (vs ! i))" "sint (word_of_int (vs ! i) :: s64) = vs ! i"
proof -
  have e: "enc_of be is mod 256 = e" and f: "fits e (vs ! i)"
    using assms by (auto simp: list_all_length)
  show "intset_get be is (int i) = Some (word_of_int (vs ! i))"
    unfolding intset_get_def e
    by (rule intsetGetEncoded_eq [OF assms(1) _ f]) (use assms in \<open>simp add: read_chunk\<close>)
  show "sint (word_of_int (vs ! i) :: s64) = vs ! i" by (rule sint_fits [OF f assms(1)])
qed

lemma intset_get_rep:
  assumes "intset_rep be is e vs" "i < length vs"
  shows "intset_get be is (int i) = Some (word_of_int (vs ! i))" "sint (word_of_int (vs ! i) :: s64) = vs ! i"
  using assms intset_get_shape [of e be "is" vs i] by (simp_all add: intset_rep_def)

section \<open>Search\<close>

text \<open>The position of \<open>x\<close> among the sorted values: everything before is smaller, everything from
  there on is larger.\<close>

definition insert_pos :: "int list \<Rightarrow> int \<Rightarrow> nat \<Rightarrow> bool" where
  "insert_pos vs x p \<longleftrightarrow> p \<le> length vs \<and> (\<forall>i<p. vs ! i < x) \<and> (\<forall>i. p \<le> i \<and> i < length vs \<longrightarrow> x < vs ! i)"

lemma search_loop_correct:
  assumes "\<And>i. i < length vs \<Longrightarrow> get (int i) = Some (word_of_int (vs ! i)) \<and> sint (word_of_int (vs ! i) :: s64) = vs ! i"
    and "length vs < 2 ^ 31" "sorted_wrt (<) vs" "0 \<le> lo" "lo \<le> hi + 1" "hi < int (length vs)"
    and "\<forall>i<nat lo. vs ! i < sint v" "\<forall>i<length vs. hi < int i \<longrightarrow> sint v < vs ! i" "lo \<le> hi \<or> cur \<noteq> v"
  shows "\<exists>lo' mid' cur'. search_loop get v lo hi mid cur = Some (lo', mid', cur') \<and>
    (if cur' = v then 0 \<le> mid' \<and> mid' < int (length vs) \<and> vs ! nat mid' = sint v
     else 0 \<le> lo' \<and> insert_pos vs (sint v) (nat lo'))"
  using assms
proof (induction get v lo hi mid cur rule: search_loop.induct)
  case (1 get v lo hi mid cur)
  note prems = "1.prems"
  show ?case
  proof (cases "lo \<le> hi")
    case False
    then have "lo = hi + 1" "cur \<noteq> v" using prems by auto
    moreover have "insert_pos vs (sint v) (nat lo)" using prems False by (auto simp: insert_pos_def)
    ultimately show ?thesis using prems(4) by (subst search_loop.simps) auto
  next
    case True
    define m where "m = (lo + hi) mod 2 ^ 32 div 2"
    have m: "lo \<le> m" "m \<le> hi" "0 \<le> m"
      using True prems(2,4,6) by (auto simp: m_def mod_pos_pos_trivial)
    define k where "k = nat m"
    have k: "k < length vs" "m = int k" using m prems(6) by (auto simp: k_def)
    let ?c = "word_of_int (vs ! k) :: s64"
    have get: "get m = Some ?c" "sint ?c = vs ! k" using prems(1) [OF k(1)] k(2) by auto
    have guard: "lo \<le> hi \<and> 0 \<le> lo \<and> hi < 2 ^ 31" using True prems(2,4,6) by simp
    have step: "search_loop get v lo hi mid cur =
       (if vs ! k < sint v then search_loop get v (m + 1) hi m ?c
        else if sint v < vs ! k then search_loop get v lo (m - 1) m ?c else Some (lo, m, ?c))"
      by (simp only: search_loop.simps [of get v lo hi mid cur] Let_def m_def [symmetric] guard get if_True option.case simp_thms)
    consider "vs ! k < sint v" | "sint v < vs ! k" | "sint v = vs ! k" by linarith
    then show ?thesis
    proof cases
      case 1
      have below: "vs ! i < sint v" if "i \<le> k" for i
        using that 1 k(1) sorted_wrt_nth_less [OF prems(3), of i k] by (cases "i = k") auto
      have "?c \<noteq> v" using get(2) 1 by auto
      moreover have "search_loop get v lo hi mid cur = search_loop get v (m + 1) hi m ?c" using step 1 by simp
      ultimately show ?thesis using "1.IH"(1) [OF guard m_def get(1)] 1 get(2) prems m k below
        by (simp add: less_Suc_eq_le)
    next
      case 2
      have above: "sint v < vs ! i" if "k \<le> i" "i < length vs" for i
        using that 2 sorted_wrt_nth_less [OF prems(3), of k i] by (cases "i = k") auto
      have "?c \<noteq> v" using get(2) 2 by auto
      moreover have "search_loop get v lo hi mid cur = search_loop get v lo (m - 1) m ?c" using step 2 by simp
      ultimately show ?thesis using "1.IH"(2) [OF guard m_def get(1)] 2 get(2) prems m k above by simp
    next
      case 3
      then have "?c = word_of_int (sint v)" by simp
      also have "\<dots> = v" by simp
      finally have "?c = v" .
      then show ?thesis using step 3 k m by simp
    qed
  qed
qed

lemma sint_u32_small: "unat (p :: u32) < 2 ^ 31 \<Longrightarrow> sint p = int (unat p)"
  using uint_of_sint [of p] sint_ge [of p] sint_lt [of p] unat_u32_less [of p]
  by (auto simp: unat_eq_nat_uint nat_less_iff split: if_splits)

lemma unat_u32_pred: "(w :: u32) \<noteq> 0 \<Longrightarrow> unat (w - 1) = unat w - 1"
  by (simp add: unat_minus_one)

lemma unat_u32_succ: "unat (w :: u32) + 1 < 2 ^ 32 \<Longrightarrow> unat (w + 1) = unat w + 1"
  by (simp add: unat_word_ariths)

lemma unat_u32_mult: "unat (w :: u32) * k < 2 ^ 32 \<Longrightarrow> unat (w * word_of_nat k) = unat w * k"
proof (cases "w = 0")
  case False
  assume a: "unat w * k < 2 ^ 32"
  have "1 \<le> unat w" using False by (metis One_nat_def Suc_leI unat_gt_0)
  then have "k \<le> unat w * k" by simp
  with a have "k < 2 ^ 32" by linarith
  with a show ?thesis by (simp add: unat_word_ariths unat_of_nat)
qed simp

text \<open>What \<^verbatim>\<open>intsetSearch\<close> reports.\<close>

definition search_ok :: "int list \<Rightarrow> int \<Rightarrow> bool \<Rightarrow> nat \<Rightarrow> bool" where
  "search_ok vs x found p \<longleftrightarrow> (if found then p < length vs \<and> vs ! p = x else insert_pos vs x p)"

lemma search_ok_found: "search_ok vs x found p \<Longrightarrow> found \<longleftrightarrow> x \<in> set vs"
  by (auto simp: search_ok_def insert_pos_def in_set_conv_nth not_less split: if_splits)
    (metis leI less_irrefl)

lemma intsetSearch_correct:
  assumes rep: "intset_rep be is e vs" and n: "length vs < 2 ^ 31"
  shows "\<exists>found p. intsetSearch be is v = Some (found, p) \<and> search_ok vs (sint v) found (unat p)"
proof (cases "vs = []")
  case True
  then have "rev32 be (is_length is) = 0" using rep by (simp add: intset_rep_def unat_eq_0)
  then show ?thesis using True by (auto simp: intsetSearch_def search_ok_def insert_pos_def)
next
  case False
  define w where "w = rev32 be (is_length is)"
  have w: "unat w = length vs" using rep by (simp add: intset_rep_def w_def)
  have w0: "w \<noteq> 0" using w False by auto
  have sorted: "sorted_wrt (<) vs" using rep by (simp add: intset_rep_def)
  define k where "k = length vs - 1"
  have k: "k < length vs" using False by (simp add: k_def)
  have mx: "sint (w - 1) = int k"
    using w w0 n sint_u32_small [of "w - 1"] by (simp add: unat_u32_pred k_def)
  note last = intset_get_rep [OF rep k] and first = intset_get_rep [OF rep, of 0]
  have z: "0 < length vs" using False by simp
  have eq: "intsetSearch be is v =
     (if vs ! k < sint v then Some (False, w) else if sint v < vs ! 0 then Some (False, 0)
      else do { (lo, mid, cur) \<leftarrow> search_loop (intset_get be is) v 0 (int k) (-1) (-1);
                if v = cur then Some (True, word_of_int mid) else Some (False, word_of_int lo) })"
    unfolding intsetSearch_def Let_def w_def [symmetric] mx using last first [OF z] w0 by simp
  consider "vs ! k < sint v" | "sint v < vs ! 0" "\<not> vs ! k < sint v" | "\<not> vs ! k < sint v" "\<not> sint v < vs ! 0" by linarith
  then show ?thesis
  proof cases
    case 1
    have "vs ! i < sint v" if "i < length vs" for i
    proof (cases "i = k")
      case False
      then have "i < k" using that by (simp add: k_def)
      then show ?thesis using sorted_wrt_nth_less [OF sorted, of i k] 1 k by linarith
    qed (use 1 in simp)
    then show ?thesis using eq 1 w by (auto simp: search_ok_def insert_pos_def)
  next
    case 2
    have "sint v < vs ! i" if "i < length vs" for i
      using sorted_wrt_nth_less [OF sorted, of 0 i] that 2 by (cases "i = 0") auto
    then show ?thesis using eq 2 w by (auto simp: search_ok_def insert_pos_def)
  next
    case 3
    have g: "intset_get be is (int i) = Some (word_of_int (vs ! i)) \<and> sint (word_of_int (vs ! i) :: s64) = vs ! i"
      if "i < length vs" for i using intset_get_rep [OF rep that] by simp
    have "\<exists>lo mid cur. search_loop (intset_get be is) v 0 (int k) (-1) (-1) = Some (lo, mid, cur) \<and>
      (if cur = v then 0 \<le> mid \<and> mid < int (length vs) \<and> vs ! nat mid = sint v
       else 0 \<le> lo \<and> insert_pos vs (sint v) (nat lo))"
      by (rule search_loop_correct [OF g n sorted]) (use k False in \<open>auto simp: k_def\<close>)
    then obtain lo mid cur where
      s: "search_loop (intset_get be is) v 0 (int k) (-1) (-1) = Some (lo, mid, cur)"
      "if cur = v then 0 \<le> mid \<and> mid < int (length vs) \<and> vs ! nat mid = sint v
       else 0 \<le> lo \<and> insert_pos vs (sint v) (nat lo)" by blast
    have u: "unat (word_of_int x :: u32) = nat x" if "0 \<le> x" "x \<le> int (length vs)" for x
      using that n by (simp add: unat_eq_nat_uint uint_word_of_int)
    have r: "intsetSearch be is v = (if v = cur then Some (True, word_of_int mid) else Some (False, word_of_int lo))"
      unfolding eq s(1) using 3 by simp
    show ?thesis
    proof (cases "cur = v")
      case True
      then have "search_ok vs (sint v) True (unat (word_of_int mid :: u32))"
        using s(2) u [of mid] by (simp add: search_ok_def nat_less_iff)
      then show ?thesis using True r by (intro exI [of _ True] exI [of _ "word_of_int mid"]) simp
    next
      case False
      then have "nat lo \<le> length vs" "0 \<le> lo" using s(2) by (simp_all add: insert_pos_def)
      then have "unat (word_of_int lo :: u32) = nat lo" by (intro u) (simp_all add: nat_le_iff)
      then have "search_ok vs (sint v) False (unat (word_of_int lo :: u32))"
        using s(2) False by (simp add: search_ok_def)
      then show ?thesis using False r by (intro exI [of _ False] exI [of _ "word_of_int lo"]) simp
    qed
  qed
qed

section \<open>Adding without a change of encoding\<close>

lemma intsetValueEncoding_fits:
  "e \<in> {2, 4, 8} \<Longrightarrow> intsetValueEncoding v \<le> e \<longleftrightarrow> fits e (sint v)"
  "intsetValueEncoding v \<in> {2, 4, 8}"
  using sint_ge [of v] sint_lt [of v]
  by (auto simp: intsetValueEncoding_def fits_def intset_enc_defs)

lemma intsetResize_eq:
  assumes "unat len * enc_of be is < 2 ^ 63"
  shows "intsetResize be J is len = Some (is\<lparr>is_contents := mem_resize J (is_contents is) (unat len * enc_of be is)\<rparr>)"
  using assms by (simp add: intsetResize_def)

lemma sorted_insert:
  assumes "sorted_wrt (<) vs" "insert_pos vs x p"
  shows "sorted_wrt (<) (take p vs @ x # drop p vs)"
proof -
  have "\<forall>y\<in>set (take p vs). y < x" "\<forall>y\<in>set (drop p vs). x < y"
    using assms(2) by (auto simp: insert_pos_def set_conv_nth)
  moreover have "sorted_wrt (<) (take p vs @ drop p vs)" using assms(1) by simp
  ultimately show ?thesis unfolding sorted_wrt_append by (auto intro: less_trans)
qed

lemma split_contents:
  "concat (map (le_int e) vs) = concat (map (le_int e) (take p vs)) @ concat (map (le_int e) (drop p vs))"
  by (metis append_take_drop_id concat_append map_append)

lemma intsetMoveTail_eq:
  assumes "enc_of be is = e" "e \<in> {2, 4, 8}" "unat from \<le> len_of be is" "(len_of be is - unat from) * e < 2 ^ 32"
  shows "intsetMoveTail be is from to = do {
    m \<leftarrow> mem_move (is_contents is) (unat to * e) (unat from * e) ((len_of be is - unat from) * e);
    Some (is\<lparr>is_contents := m\<rparr>) }"
proof -
  define c where "c = rev32 be (is_length is) - from"
  have c: "unat c = len_of be is - unat from" using assms(3) by (simp add: c_def unat_sub word_le_nat_alt)
  have u: "unat (c * word_of_nat e) = (len_of be is - unat from) * e"
    using assms(4) c unat_u32_mult [of c e] by simp
  have w: "(if e = 8 then 8 else if e = 4 then 4 else 2) = e" using assms(2) by auto
  show ?thesis unfolding intsetMoveTail_def Let_def intset_enc_defs assms(1) w c_def [symmetric] u ..
qed

text \<open>Opening a gap of one element and closing one.\<close>

lemma move_up:
  "length Z = e \<Longrightarrow> mem_move (X @ Y @ Z) (length X + e) (length X) (length Y) = Some (X @ take e (Y @ Z) @ Y)"
  by (simp add: mem_move_eq)

lemma move_down:
  "mem_move (X @ C @ Y) (length X) (length X + length C) (length Y) = Some (X @ Y @ drop (length Y) (C @ Y))"
  by (simp add: mem_move_eq)

lemma intsetAdd_same_encoding:
  assumes rep: "intset_rep be is e vs" and n: "length vs < 2 ^ 28" and fit: "fits e (sint v)"
    and pos: "insert_pos vs (sint v) (unat p)"
  shows "\<exists>is'. do {
      is \<leftarrow> intsetResize be J is (rev32 be (is_length is) + 1);
      is \<leftarrow> (if p < rev32 be (is_length is) then intsetMoveTail be is p (p + 1) else Some is);
      is \<leftarrow> intset_set be is (sint p) v;
      Some (is\<lparr>is_length := rev32 be (rev32 be (is_length is) + 1)\<rparr>, True) } = Some (is', True) \<and>
    intset_rep be is' e (take (unat p) vs @ sint v # drop (unat p) vs)"
proof -
  define w where "w = rev32 be (is_length is)"
  have r: "e \<in> {2, 4, 8}" "enc_of be is = e" "unat w = length vs" "is_contents is = concat (map (le_int e) vs)"
    "list_all (fits e) vs" "sorted_wrt (<) vs" using rep by (simp_all add: intset_rep_def w_def)
  have e: "0 < e" "e \<le> 8" using r(1) by auto
  have ne: "length vs * e < 2 ^ 31" using n e(2) mult_le_mono [of "length vs" "2 ^ 28 - 1" e 8] by simp
  have w1: "unat (w + 1) = length vs + 1" using n r(3) by (simp add: unat_u32_succ)
  have p: "unat p \<le> length vs" using pos by (simp add: insert_pos_def)
  have sp: "sint p = int (unat p)" using p n by (intro sint_u32_small) simp
  have p1: "unat (p + 1) = unat p + 1" using p n by (simp add: unat_u32_succ)
  define X where "X = concat (map (le_int e) (take (unat p) vs))"
  define Y where "Y = concat (map (le_int e) (drop (unat p) vs))"
  have X: "length X = unat p * e" using p length_contents [of e "take (unat p) vs"] by (simp add: X_def)
  have Y: "length Y = (length vs - unat p) * e" using p length_contents [of e "drop (unat p) vs"] by (simp add: Y_def)
  have XY: "is_contents is = X @ Y" using r(4) split_contents by (simp add: X_def Y_def)
  have lXY: "length X + length Y = length vs * e" using X Y p by (simp add: add_mult_distrib [symmetric])
  obtain Z where Z: "mem_resize J (is_contents is) ((length vs + 1) * e) = X @ Y @ Z" "length Z = e"
    using mem_resize_grow [of "is_contents is" "(length vs + 1) * e" J] XY lXY by auto
  define is1 where "is1 = is\<lparr>is_contents := X @ Y @ Z\<rparr>"
  have resize: "intsetResize be J is (w + 1) = Some is1"
    using ne e Z r(2) w1 by (simp add: intsetResize_eq is1_def)
  have enc1: "enc_of be is1 = e" "rev32 be (is_length is1) = w" using r(2) by (simp_all add: is1_def w_def)
  obtain M where M: "(if p < w then intsetMoveTail be is1 p (p + 1) else Some is1) = Some (is1\<lparr>is_contents := X @ M @ Y\<rparr>)" "length M = e"
  proof (cases "p < w")
    case True
    have "intsetMoveTail be is1 p (p + 1) = Some (is1\<lparr>is_contents := X @ take e (Y @ Z) @ Y\<rparr>)"
      using intsetMoveTail_eq [OF enc1(1) r(1), of p "p + 1"] move_up [OF Z(2), of X Y] p ne X Y enc1(2) r(3) p1
      by (simp add: is1_def add.commute diff_mult_distrib)
    then show ?thesis using that [of "take e (Y @ Z)"] True Z(2) by simp
  next
    case False
    then have "unat p = length vs" using p r(3) by (simp add: word_less_nat_alt)
    then have "Y = []" by (simp add: Y_def)
    then show ?thesis using that [of Z] False Z(2) by (simp add: is1_def)
  qed
  have set: "intset_set be (is1\<lparr>is_contents := X @ M @ Y\<rparr>) (sint p) v = Some (is1\<lparr>is_contents := X @ le_int e (sint v) @ Y\<rparr>)"
    unfolding sp by (subst intset_set_eq [OF r(1)]) (use enc1 X M(2) in simp_all)
  let ?is = "is1\<lparr>is_contents := X @ le_int e (sint v) @ Y, is_length := rev32 be (w + 1)\<rparr>"
  have "intset_rep be ?is e (take (unat p) vs @ sint v # drop (unat p) vs)"
    using r enc1 w1 p fit sorted_insert [OF r(6) pos]
    by (simp add: intset_rep_def X_def Y_def list_all_iff) (auto dest: in_set_takeD in_set_dropD)
  then show ?thesis using resize M(1) set enc1 by (intro exI [of _ ?is]) (simp add: w_def [symmetric])
qed

section \<open>Removing\<close>

lemma intsetRemove_at:
  assumes rep: "intset_rep be is e vs" and n: "length vs < 2 ^ 28" and p: "unat p < length vs"
  shows "\<exists>is'. (let len = rev32 be (is_length is) in do {
      is \<leftarrow> (if p < len - 1 then intsetMoveTail be is (p + 1) p else Some is);
      is \<leftarrow> intsetResize be J is (len - 1);
      Some (is\<lparr>is_length := rev32 be (len - 1)\<rparr>, True) }) = Some (is', True) \<and>
    intset_rep be is' e (take (unat p) vs @ drop (unat p + 1) vs)"
proof -
  define w where "w = rev32 be (is_length is)"
  have r: "e \<in> {2, 4, 8}" "enc_of be is = e" "unat w = length vs" "is_contents is = concat (map (le_int e) vs)"
    "list_all (fits e) vs" "sorted_wrt (<) vs" using rep by (simp_all add: intset_rep_def w_def)
  have e: "0 < e" "e \<le> 8" using r(1) by auto
  have ne: "length vs * e < 2 ^ 31" using n e(2) mult_le_mono [of "length vs" "2 ^ 28 - 1" e 8] by simp
  have w0: "w \<noteq> 0" using r(3) p by auto
  have w1: "unat (w - 1) = length vs - 1" using unat_u32_pred [OF w0] r(3) by simp
  have p1: "unat (p + 1) = unat p + 1" using p n by (simp add: unat_u32_succ)
  define X where "X = concat (map (le_int e) (take (unat p) vs))"
  define C where "C = le_int e (vs ! unat p)"
  define Y where "Y = concat (map (le_int e) (drop (unat p + 1) vs))"
  have X: "length X = unat p * e" using p length_contents [of e "take (unat p) vs"] by (simp add: X_def)
  have Y: "length Y = (length vs - (unat p + 1)) * e"
    using p length_contents [of e "drop (unat p + 1) vs"] by (simp add: Y_def)
  have "drop (unat p) vs = vs ! unat p # drop (unat p + 1) vs" using p by (simp add: Cons_nth_drop_Suc)
  then have XY: "is_contents is = X @ C @ Y" using r(4) split_contents [of e vs "unat p"] by (simp add: X_def Y_def C_def)
  have lXY: "length X + length Y = (length vs - 1) * e" using X Y p by (simp add: add_mult_distrib [symmetric])
  define is1 where "is1 = is\<lparr>is_contents := X @ Y @ drop (length Y) (C @ Y)\<rparr>"
  have move: "(if p < w - 1 then intsetMoveTail be is (p + 1) p else Some is) = Some is1"
  proof (cases "p < w - 1")
    case True
    have "(length vs - (unat p + 1)) * e < 2 ^ 32" using ne by (simp add: diff_mult_distrib)
    then show ?thesis
      using intsetMoveTail_eq [OF r(2,1), of "p + 1" p] move_down [of X C Y] p X Y r(3) p1 True XY
      by (simp add: is1_def add.commute C_def w_def)
  next
    case False
    then have "unat p + 1 = length vs" using p w1 by (simp add: word_less_nat_alt)
    then have "Y = []" by (simp add: Y_def)
    then show ?thesis using False XY by (simp add: is1_def)
  qed
  have "mem_resize J (is_contents is1) ((length vs - 1) * e) = X @ Y"
    using lXY by (simp add: is1_def mem_resize_shrink)
  then have resize: "intsetResize be J is1 (w - 1) = Some (is\<lparr>is_contents := X @ Y\<rparr>)"
    using ne r(2) w1 by (subst intsetResize_eq) (simp_all add: is1_def diff_mult_distrib)
  let ?is = "is\<lparr>is_contents := X @ Y, is_length := rev32 be (w - 1)\<rparr>"
  have "sorted_wrt (<) (take (unat p) vs @ drop (unat p + 1) vs)"
  proof -
    have "sorted_wrt (<) (take (unat p) vs @ vs ! unat p # drop (unat p + 1) vs)"
      using r(6) id_take_nth_drop [OF p] by simp
    then show ?thesis by (simp add: sorted_wrt_append)
  qed
  then have "intset_rep be ?is e (take (unat p) vs @ drop (unat p + 1) vs)"
    using r w1 p by (simp add: intset_rep_def X_def Y_def list_all_iff) (auto dest: in_set_takeD in_set_dropD)
  then show ?thesis using move resize unfolding Let_def w_def [symmetric] by (intro exI [of _ ?is]) simp
qed

section \<open>Upgrading\<close>

lemma mem_write_outside:
  assumes "a \<le> i" "i + length b \<le> length m"
  defines "m' \<equiv> take i m @ b @ drop (i + length b) m"
  shows "take a m' = take a m" "length m' = length m" "take (length b) (drop i m') = b" "drop (i + length b) m' = drop (i + length b) m"
proof -
  have "i \<le> length m" "min (length m) i = i" using assms(2) by simp_all
  then show "take a m' = take a m" "length m' = length m" "take (length b) (drop i m') = b" "drop (i + length b) m' = drop (i + length b) m"
    using assms(1,2) by (simp_all add: m'_def min_absorb1)
qed

lemma upgrade_loop_correct:
  assumes "cur \<in> {2, 4, 8}" "new \<in> {2, 4, 8}" "cur < new" "pre \<le> 1"
    and "enc_of be is = new" "length (is_contents is) = (length vs + 1) * new" "list_all (fits cur) vs"
    and "k \<le> length vs"
    and "take (k * cur) (is_contents is) = concat (map (le_int cur) (take k vs))"
    and "take ((length vs - k) * new) (drop ((k + pre) * new) (is_contents is)) = concat (map (le_int new) (drop k vs))"
  shows "\<exists>m. upgrade_loop be cur pre k is = Some (is\<lparr>is_contents := m\<rparr>) \<and> length m = (length vs + 1) * new \<and>
    take (length vs * new) (drop (pre * new) m) = concat (map (le_int new) vs)"
  using assms
proof (induction k arbitrary: "is")
  case 0
  then show ?case by (intro exI [of _ "is_contents is"]) simp
next
  case (Suc k)
  let ?m = "is_contents is"
  have k: "k < length vs" using Suc.prems(8) by simp
  have fit: "fits cur (vs ! k)" using Suc.prems(7) k by (simp add: list_all_length)
  have bound: "(k + pre + 1) * new \<le> length ?m"
    unfolding Suc.prems(6) using Suc.prems(4,8) by (intro mult_le_mono1) simp
  have kc: "Suc k * cur \<le> length ?m"
  proof -
    have "Suc k * cur \<le> (length vs + 1) * new" using Suc.prems(3,8) by (intro mult_le_mono) simp_all
    then show ?thesis using Suc.prems(6) by simp
  qed
  have old: "take (k * cur) ?m = concat (map (le_int cur) (take k vs))" "take cur (drop (k * cur) ?m) = le_int cur (vs ! k)"
  proof -
    have "take (k * cur) ?m = take (k * cur) (take (Suc k * cur) ?m)" by (simp add: min_def)
    also have "\<dots> = concat (map (le_int cur) (take k vs))"
      unfolding Suc.prems(9) take_concat_chunks [OF chunks_le_int] by (simp add: take_map)
    finally show "take (k * cur) ?m = concat (map (le_int cur) (take k vs))" .
    have "take cur (drop (k * cur) ?m) = take cur (drop (k * cur) (take (Suc k * cur) ?m))" by (simp add: drop_take)
    also have "\<dots> = le_int cur (vs ! k)"
      unfolding Suc.prems(9) using nth_concat_chunks [OF chunks_le_int, of k cur "take (Suc k) vs"] k by simp
    finally show "take cur (drop (k * cur) ?m) = le_int cur (vs ! k)" .
  qed
  have get: "intsetGetEncoded be is (int k) cur = Some (word_of_int (vs ! k))"
    using kc old(2) by (intro intsetGetEncoded_eq [OF Suc.prems(1) _ fit]) (simp add: mem_read_def)
  define b where "b = le_int new (vs ! k)"
  define m where "m = take ((k + pre) * new) ?m @ b @ drop ((k + pre) * new + new) ?m"
  have set: "intset_set be is (int (k + pre)) (word_of_int (vs ! k)) = Some (is\<lparr>is_contents := m\<rparr>)"
    using intset_set_eq [OF Suc.prems(2,5), of "k + pre" "word_of_int (vs ! k)"] bound sint_fits [OF fit Suc.prems(1)]
    by (simp add: m_def b_def)
  have lb: "length b = new" by (simp add: b_def)
  have le: "k * cur \<le> (k + pre) * new" using Suc.prems(3) by (intro mult_le_mono) simp_all
  have bound': "(k + pre) * new + new \<le> length ?m" using bound by simp
  note wr = mem_write_outside [of _ "(k + pre) * new" b ?m, unfolded lb, OF _ bound', folded m_def]
  have "take ((length vs - k) * new) (drop ((k + pre) * new) m) = b @ concat (map (le_int new) (drop (Suc k) vs))"
  proof -
    have split: "(length vs - k) * new = new + (length vs - Suc k) * new" using k by (simp add: Suc_diff_Suc flip: mult_Suc)
    have "drop new (drop ((k + pre) * new) m) = drop ((Suc k + pre) * new) ?m"
      using wr(4) [OF order_refl] by (simp add: add.commute)
    then have "take ((length vs - Suc k) * new) (drop new (drop ((k + pre) * new) m)) = concat (map (le_int new) (drop (Suc k) vs))"
      using Suc.prems(10) by simp
    then show ?thesis unfolding split take_add using wr(3) [OF order_refl] by simp
  qed
  also have "\<dots> = concat (map (le_int new) (drop k vs))" using k by (simp add: b_def Cons_nth_drop_Suc [symmetric])
  finally have new: "take ((length vs - k) * new) (drop ((k + pre) * new) m) = concat (map (le_int new) (drop k vs))" .
  have "\<exists>m'. upgrade_loop be cur pre k (is\<lparr>is_contents := m\<rparr>) = Some (is\<lparr>is_contents := m\<rparr>\<lparr>is_contents := m'\<rparr>) \<and>
      length m' = (length vs + 1) * new \<and> take (length vs * new) (drop (pre * new) m') = concat (map (le_int new) vs)"
    using Suc.prems wr(1,2) [OF le] old(1) new k by (intro Suc.IH) simp_all
  then show ?case using get set by simp
qed

lemma upgrade_outside:
  assumes "cur \<in> {2, 4, 8}" "fits cur x" "\<not> fits cur y"
  shows "if y < 0 then y < x else x < y"
  using assms by (auto simp: fits_def)

lemma intsetUpgradeAndAdd_correct:
  assumes rep: "intset_rep be is cur vs" and n: "length vs < 2 ^ 28" and up: "intsetValueEncoding v > cur"
  shows "\<exists>is'. intsetUpgradeAndAdd be J is v = Some is' \<and>
    intset_rep be is' (intsetValueEncoding v) (if sint v < 0 then sint v # vs else vs @ [sint v])"
proof -
  define new where "new = intsetValueEncoding v"
  define w where "w = rev32 be (is_length is)"
  define pre where "pre = (if sint v < 0 then 1 else 0 :: nat)"
  have r: "cur \<in> {2, 4, 8}" "enc_of be is = cur" "unat w = length vs" "is_contents is = concat (map (le_int cur) vs)"
    "list_all (fits cur) vs" "sorted_wrt (<) vs" using rep by (simp_all add: intset_rep_def w_def)
  have new: "new \<in> {2, 4, 8}" "cur < new" using intsetValueEncoding_fits(2) up by (auto simp: new_def)
  have e: "0 < new" "new \<le> 8" using new by auto
  have fit: "fits new (sint v)" using intsetValueEncoding_fits(1) [OF new(1), of v] by (simp add: new_def)
  have nofit: "\<not> fits cur (sint v)" using intsetValueEncoding_fits(1) [OF r(1), of v] up by simp
  have ne: "(length vs + 1) * new < 2 ^ 63" using n e(2) mult_le_mono [of "length vs + 1" "2 ^ 28" new 8] by simp
  have w1: "unat (w + 1) = length vs + 1" using n r(3) by (simp add: unat_u32_succ)
  have enc_mod: "enc_of be is mod 256 = cur" using r(1,2) by auto
  have unew: "unat (word_of_nat new :: u32) = new" using e by (simp add: unat_of_nat)
  have uw: "uint w = int (length vs)" by (simp flip: r(3))
  have pre: "pre \<le> 1" by (simp add: pre_def)
  define m0 where "m0 = mem_resize J (is_contents is) ((length vs + 1) * new)"
  define is1 where "is1 = is\<lparr>is_encoding := rev32 be (word_of_nat new), is_contents := m0\<rparr>"
  have resize: "intsetResize be J (is\<lparr>is_encoding := rev32 be (word_of_nat new)\<rparr>) (w + 1) = Some is1"
    using ne unew w1 by (subst intsetResize_eq) (simp_all add: is1_def m0_def)
  have lm0: "length m0 = (length vs + 1) * new" by (simp add: m0_def)
  have "length vs * cur \<le> (length vs + 1) * new" using new(2) by (intro mult_le_mono) simp_all
  then have t0: "take (length vs * cur) m0 = concat (map (le_int cur) vs)"
    using r(4) length_contents [of cur vs] by (simp add: m0_def take_mem_resize)
  obtain m where m: "upgrade_loop be cur pre (length vs) is1 = Some (is1\<lparr>is_contents := m\<rparr>)" "length m = (length vs + 1) * new"
    "take (length vs * new) (drop (pre * new) m) = concat (map (le_int new) vs)"
    using upgrade_loop_correct [OF r(1) new(1,2), of pre be is1 vs "length vs"] r(5) lm0 t0 unew pre by (auto simp: is1_def)
  define is2 where "is2 = is1\<lparr>is_contents := m\<rparr>"
  have enc2: "enc_of be is2 = new" "rev32 be (is_length is2) = w" using unew by (simp_all add: is2_def is1_def w_def)
  define vs' where "vs' = (if sint v < 0 then sint v # vs else vs @ [sint v])"
  have set: "(if pre \<noteq> 0 then intset_set be is2 0 v else intset_set be is2 (int (length vs)) v)
      = Some (is2\<lparr>is_contents := concat (map (le_int new) vs')\<rparr>)"
  proof (cases "sint v < 0")
    case True
    have "drop new m = concat (map (le_int new) vs)" using m(2,3) True by (simp add: pre_def)
    then show ?thesis using intset_set_eq [OF new(1) enc2(1), of 0 v] m(2) True
      by (simp add: pre_def vs'_def is2_def)
  next
    case False
    have "take (length vs * new) m = concat (map (le_int new) vs)" using m(3) False by (simp add: pre_def)
    then show ?thesis using intset_set_eq [OF new(1) enc2(1), of "length vs" v] m(2) False
      by (simp add: pre_def vs'_def is2_def)
  qed
  let ?is = "is2\<lparr>is_contents := concat (map (le_int new) vs'), is_length := rev32 be (w + 1)\<rparr>"
  have out: "if sint v < 0 then sint v < x else x < sint v" if "x \<in> set vs" for x
    using upgrade_outside [OF r(1) _ nofit] r(5) that by (auto simp: list_all_iff)
  have "list_all (fits new) vs'" using r(1,5) new(2) fit fits_mono [of cur _ new] by (auto simp: vs'_def list_all_iff)
  moreover have "sorted_wrt (<) vs'" using r(6) out by (auto simp: vs'_def sorted_wrt_append split: if_splits)
  ultimately have "intset_rep be ?is new vs'" using new(1) enc2 w1 by (simp add: intset_rep_def vs'_def)
  moreover have "intsetUpgradeAndAdd be J is v = Some ?is"
    using resize m(1) set enc2(2) r(3)
    unfolding intsetUpgradeAndAdd_def Let_def enc_mod new_def [symmetric] pre_def [symmetric] w_def [symmetric]
    by (cases "pre = 0") (simp_all add: w_def [symmetric] is2_def [symmetric] uw)
  ultimately show ?thesis by (auto simp: vs'_def new_def)
qed

section \<open>The set interface\<close>

lemma intsetAdd_correct:
  assumes rep: "intset_rep be is e vs" and n: "length vs < 2 ^ 28"
  shows "\<exists>is' e' vs'. intsetAdd be J is v = Some (is', sint v \<notin> set vs) \<and> intset_rep be is' e' vs' \<and>
    set vs' = insert (sint v) (set vs) \<and> e \<le> e'"
proof (cases "intsetValueEncoding v > e")
  case True
  then have enc: "intsetValueEncoding v > enc_of be is" using rep by (simp add: intset_rep_def)
  obtain is' where is': "intsetUpgradeAndAdd be J is v = Some is'"
    "intset_rep be is' (intsetValueEncoding v) (if sint v < 0 then sint v # vs else vs @ [sint v])"
    using intsetUpgradeAndAdd_correct [OF rep n True] by blast
  have "\<not> fits e (sint v)" using intsetValueEncoding_fits(1) [of e v] True rep by (auto simp: intset_rep_def)
  then have "sint v \<notin> set vs" using rep by (auto simp: intset_rep_def list_all_iff)
  then show ?thesis using is' enc True
    by (intro exI [of _ is'] exI [of _ "intsetValueEncoding v"] exI [of _ "if sint v < 0 then sint v # vs else vs @ [sint v]"])
      (auto simp: intsetAdd_def)
next
  case False
  then have enc: "\<not> intsetValueEncoding v > enc_of be is" using rep by (simp add: intset_rep_def)
  have fit: "fits e (sint v)" using intsetValueEncoding_fits(1) [of e v] False rep by (auto simp: intset_rep_def)
  obtain found p where s: "intsetSearch be is v = Some (found, p)" "search_ok vs (sint v) found (unat p)"
    using intsetSearch_correct [OF rep, of v] n by auto
  show ?thesis
  proof (cases found)
    case True
    then show ?thesis using s enc rep search_ok_found [OF s(2)]
      by (intro exI [of _ "is"] exI [of _ e] exI [of _ vs]) (auto simp: intsetAdd_def)
  next
    case nf: False
    then have pos: "insert_pos vs (sint v) (unat p)" using s(2) by (simp add: search_ok_def)
    obtain is' where "intsetAdd be J is v = Some (is', True)" "intset_rep be is' e (take (unat p) vs @ sint v # drop (unat p) vs)"
      using intsetAdd_same_encoding [OF rep n fit pos, of J] nf s(1) enc by (auto simp: intsetAdd_def)
    moreover have "set (take (unat p) vs @ sint v # drop (unat p) vs) = insert (sint v) (set vs)"
      using set_append [of "take (unat p) vs" "drop (unat p) vs"] by auto
    ultimately show ?thesis using nf search_ok_found [OF s(2)]
      by (intro exI [of _ is'] exI [of _ e] exI [of _ "take (unat p) vs @ sint v # drop (unat p) vs"]) simp
  qed
qed


lemma intsetRemove_correct:
  assumes rep: "intset_rep be is e vs" and n: "length vs < 2 ^ 28"
  shows "\<exists>is' vs'. intsetRemove be J is v = Some (is', sint v \<in> set vs) \<and> intset_rep be is' e vs' \<and>
    set vs' = set vs - {sint v}"
proof (cases "intsetValueEncoding v \<le> e")
  case False
  then have enc: "\<not> intsetValueEncoding v \<le> enc_of be is" using rep by (simp add: intset_rep_def)
  have "\<not> fits e (sint v)" using intsetValueEncoding_fits(1) [of e v] False rep by (auto simp: intset_rep_def)
  then have "sint v \<notin> set vs" using rep by (auto simp: intset_rep_def list_all_iff)
  then show ?thesis using enc rep by (intro exI [of _ "is"] exI [of _ vs]) (simp add: intsetRemove_def)
next
  case True
  then have enc: "intsetValueEncoding v \<le> enc_of be is" using rep by (simp add: intset_rep_def)
  obtain found p where s: "intsetSearch be is v = Some (found, p)" "search_ok vs (sint v) found (unat p)"
    using intsetSearch_correct [OF rep, of v] n by auto
  show ?thesis
  proof (cases found)
    case False
    then show ?thesis using s enc rep search_ok_found [OF s(2)]
      by (intro exI [of _ "is"] exI [of _ vs]) (simp add: intsetRemove_def)
  next
    case f: True
    then have p: "unat p < length vs" "vs ! unat p = sint v" using s(2) by (simp_all add: search_ok_def)
    obtain is' where "intsetRemove be J is v = Some (is', True)" "intset_rep be is' e (take (unat p) vs @ drop (unat p + 1) vs)"
      using intsetRemove_at [OF rep n p(1), of J] f s(1) enc by (auto simp: intsetRemove_def Let_def)
    moreover have "set (take (unat p) vs @ drop (unat p + 1) vs) = set vs - {sint v}"
    proof -
      have "distinct vs" using rep by (simp add: intset_rep_def strict_sorted_iff)
      moreover have split: "vs = take (unat p) vs @ sint v # drop (unat p + 1) vs"
        using id_take_nth_drop [OF p(1)] p(2) by simp
      ultimately have "distinct (take (unat p) vs @ sint v # drop (unat p + 1) vs)" by simp
      moreover have "set vs = set (take (unat p) vs @ sint v # drop (unat p + 1) vs)" using split by simp
      ultimately show ?thesis by auto
    qed
    ultimately show ?thesis using f search_ok_found [OF s(2)]
      by (intro exI [of _ is'] exI [of _ "take (unat p) vs @ drop (unat p + 1) vs"]) simp
  qed
qed

lemma intsetFind_correct:
  assumes rep: "intset_rep be is e vs" and n: "length vs < 2 ^ 31"
  shows "intsetFind be is v = Some (sint v \<in> set vs)"
proof (cases "intsetValueEncoding v \<le> e")
  case False
  then have "\<not> intsetValueEncoding v \<le> enc_of be is" using rep by (simp add: intset_rep_def)
  moreover have "\<not> fits e (sint v)" using intsetValueEncoding_fits(1) [of e v] False rep by (auto simp: intset_rep_def)
  then have "sint v \<notin> set vs" using rep by (auto simp: intset_rep_def list_all_iff)
  ultimately show ?thesis by (simp add: intsetFind_def)
next
  case True
  then have "intsetValueEncoding v \<le> enc_of be is" using rep by (simp add: intset_rep_def)
  moreover obtain found p where "intsetSearch be is v = Some (found, p)" "search_ok vs (sint v) found (unat p)"
    using intsetSearch_correct [OF rep n, of v] by auto
  ultimately show ?thesis using search_ok_found by (simp add: intsetFind_def)
qed

lemma rev32_0 [simp]: "rev32 be 0 = 0"
proof -
  have "le_bytes n 0 = replicate n 0" "le_nat (replicate n 0) = 0" for n by (induction n) simp_all
  then show ?thesis by (simp add: rev32_def intrev32ifbe_def intrev32_eq)
qed

lemma intsetNew_rep: "intset_rep be (intsetNew be) 2 []"
  by (simp add: intset_rep_def intsetNew_def intset_enc_defs)

section \<open>Validation of foreign blobs\<close>

lemma le_int_surj:
  assumes "length bs = e" "0 < e"
  shows "\<exists>v. fits e v \<and> le_int e v = bs"
proof -
  define x where "x = int (le_nat bs)"
  define h where "h = (2::int) ^ (8 * e - 1)"
  have p: "(256::int) ^ e = 2 * h" "0 < h"
  proof -
    have "(256::int) ^ e = 2 ^ (8 * e)" by (simp add: power_mult)
    also have "\<dots> = 2 * h" unfolding h_def using assms(2) by (simp flip: power_Suc)
    finally show "(256::int) ^ e = 2 * h" .
  qed (simp add: h_def)
  have "int (le_nat bs) < int (256 ^ e)" using le_nat_less [of bs] assms(1) unfolding of_nat_less_iff by simp
  then have x: "0 \<le> x" "x < 2 * h" using p by (simp_all add: x_def)
  define v where "v = (if x < h then x else x - 2 * h)"
  have "v mod 256 ^ e = x"
  proof (cases "x < h")
    case True
    then show ?thesis using x by (simp add: v_def p)
  next
    case False
    have "(x - 2 * h) mod (2 * h) = x mod (2 * h)" by simp
    then show ?thesis using x False by (simp add: v_def p)
  qed
  then have "le_int e v = bs" using le_bytes_le_nat [of bs] assms(1) by (simp add: le_int_def x_def)
  moreover have "fits e v" using x p by (simp add: fits_def v_def h_def)
  ultimately show ?thesis by blast
qed

lemma contents_surj:
  assumes "0 < e"
  shows "length m = n * e \<Longrightarrow> \<exists>vs. length vs = n \<and> m = concat (map (le_int e) vs) \<and> list_all (fits e) vs"
proof (induction n arbitrary: m)
  case (Suc n)
  have "length (take e m) = e" using Suc.prems by simp
  from le_int_surj [OF this assms] obtain v where v: "fits e v" "le_int e v = take e m" by blast
  have "length (drop e m) = n * e" using Suc.prems by simp
  from Suc.IH [OF this] obtain vs where vs: "length vs = n" "drop e m = concat (map (le_int e) vs)" "list_all (fits e) vs" by blast
  have "m = take e m @ drop e m" by simp
  also have "\<dots> = concat (map (le_int e) (v # vs))" unfolding vs(2) v(2) [symmetric] by simp
  finally have "m = concat (map (le_int e) (v # vs))" .
  then show ?case using v vs by (intro exI [of _ "v # vs"]) simp
qed simp

lemma validate_loop_eq:
  assumes "\<And>i. i < length vs \<Longrightarrow> get (int i) = Some (word_of_int (vs ! i)) \<and> sint (word_of_int (vs ! i) :: s64) = vs ! i"
    and "length vs < 2 ^ 31" "i + k = length vs" "0 < i" "sint prev = vs ! (i - 1)"
  shows "validate_loop get i k prev = Some (\<forall>j. i \<le> j \<and> j < length vs \<longrightarrow> vs ! (j - 1) < vs ! j)"
  using assms(3-)
proof (induction k arbitrary: i prev)
  case (Suc k)
  have i: "i < length vs" using Suc.prems(1) by simp
  have "sint (word_of_int (int i) :: 32 word) = int i"
    unfolding sint_sbintrunc' using i assms(2) by (intro signed_take_bit_int_eq_self) simp_all
  then have pos: "sint (word_of_nat i :: 32 word) = int i" by simp
  have split: "(\<forall>j. i \<le> j \<and> j < length vs \<longrightarrow> vs ! (j - 1) < vs ! j) \<longleftrightarrow>
      vs ! (i - 1) < vs ! i \<and> (\<forall>j. i + 1 \<le> j \<and> j < length vs \<longrightarrow> vs ! (j - 1) < vs ! j)" (is "?l = ?r")
  proof
    assume ?r
    show ?l
    proof (intro allI impI)
      fix j assume "i \<le> j \<and> j < length vs"
      then show "vs ! (j - 1) < vs ! j" using \<open>?r\<close> by (cases "i = j") auto
    qed
  qed (use i in auto)
  have "validate_loop get (i + 1) k (word_of_int (vs ! i)) =
      Some (\<forall>j. i + 1 \<le> j \<and> j < length vs \<longrightarrow> vs ! (j - 1) < vs ! j)"
    using Suc.IH [of "i + 1" "word_of_int (vs ! i)"] Suc.prems assms(1) [OF i] by simp
  then show ?case unfolding split using assms(1) [OF i] Suc.prems(3) by (simp add: not_le pos)
qed simp

lemma sorted_adjacent:
  "sorted_wrt (<) (vs :: int list) \<longleftrightarrow> (\<forall>j. 1 \<le> j \<and> j < length vs \<longrightarrow> vs ! (j - 1) < vs ! j)"
  unfolding sorted_wrt_iff_nth_Suc_transp [OF transp_on_less]
  by (metis Suc_le_eq Suc_pred diff_Suc_1 le_numeral_extra(4) One_nat_def less_Suc_eq_le not_less_eq_eq zero_less_Suc)

lemma intsetValidateIntegrity_eq:
  assumes len: "length p < 2 ^ 32 + 8"
  shows "intsetValidateIntegrity be p True =
    Some (8 \<le> length p \<and> (\<exists>e vs. vs \<noteq> [] \<and> intset_rep be (intset_of_blob be p) e vs))"
proof (cases "8 \<le> length p")
  case False
  then show ?thesis by (simp add: intsetValidateIntegrity_def Let_def)
next
  case True
  define s where "s = intset_of_blob be p"
  define e where "e = enc_of be s"
  define c where "c = len_of be s"
  have n: "c < 2 ^ 32" using unsigned_less [of "rev32 be (is_length s)"] by (simp add: c_def)
  have lens: "length (is_contents s) = length p - 8" by (simp add: s_def intset_of_blob_def)
  have shape: "e' = e \<and> length vs = c \<and> e \<in> {2, 4, 8} \<and> 8 + c * e = length p" if "intset_rep be s e' vs" for e' vs
    using that True lens length_contents [of e vs] by (auto simp: intset_rep_def e_def c_def)
  show ?thesis
  proof (cases "e \<in> {2, 4, 8} \<and> 8 + c * e = length p \<and> c \<noteq> 0")
    case ok: False
    have "\<not> (\<exists>e vs. vs \<noteq> [] \<and> intset_rep be s e vs)" using shape ok by auto
    moreover have "8 + c * e < 2 ^ 64" if "e \<in> {2, 4, 8}" using n that by auto
    then have "(8 + c * e) mod 2 ^ 64 = 8 + c * e" if "e \<in> {2, 4, 8}" using that by simp
    then have "intsetValidateIntegrity be p True = Some False"
      using ok True unfolding intsetValidateIntegrity_def Let_def s_def [symmetric] c_def [symmetric] e_def [symmetric] intset_enc_defs
      by (cases "e \<in> {2, 4, 8}") auto
    ultimately show ?thesis by (simp add: s_def)
  next
    case ok: True
    have "length (is_contents s) = c * e" using ok lens by linarith
    moreover have "0 < e" using ok by auto
    ultimately obtain vs where vs: "length vs = c" "is_contents s = concat (map (le_int e) vs)" "list_all (fits e) vs"
      using contents_surj by blast
    have g: "intset_get be s (int i) = Some (word_of_int (vs ! i)) \<and> sint (word_of_int (vs ! i) :: s64) = vs ! i"
      if "i < length vs" for i using intset_get_shape [OF conjunct1 [OF ok] e_def [symmetric] vs(2,3) that] by blast
    have c31: "length vs < 2 ^ 31" using ok len vs(1) by auto
    have "(8 + c * e) mod 2 ^ 64 = length p" using ok len by simp
    then have "intsetValidateIntegrity be p True = do { prev \<leftarrow> intset_get be s 0; validate_loop (intset_get be s) 1 (c - 1) prev }"
      using ok True unfolding intsetValidateIntegrity_def Let_def s_def [symmetric] c_def [symmetric] e_def [symmetric] intset_enc_defs
      by auto
    also have "\<dots> = Some (sorted_wrt (<) vs)"
      using g [of 0] ok vs(1) validate_loop_eq [OF g c31, of 1 "c - 1" "word_of_int (vs ! 0)"] unfolding sorted_adjacent by simp
    also have "sorted_wrt (<) vs \<longleftrightarrow> (\<exists>e vs. vs \<noteq> [] \<and> intset_rep be s e vs)"
    proof
      assume "sorted_wrt (<) vs"
      then have "intset_rep be s e vs" using ok vs by (simp add: intset_rep_def e_def c_def)
      then show "\<exists>e vs. vs \<noteq> [] \<and> intset_rep be s e vs" using ok vs(1) by auto
    next
      assume "\<exists>e vs. vs \<noteq> [] \<and> intset_rep be s e vs"
      then obtain vs' where r: "intset_rep be s e vs'" using shape by blast
      have "vs' = vs"
      proof (rule nth_equalityI)
        show "length vs' = length vs" using shape [OF r] vs(1) by simp
        show "vs' ! i = vs ! i" if "i < length vs'" for i
          using intset_get_rep [OF r that] g [of i] that \<open>length vs' = length vs\<close> by (metis option.inject)
      qed
      then show "sorted_wrt (<) vs" using r by (simp add: intset_rep_def)
    qed
    finally show ?thesis using True by (simp add: s_def)
  qed
qed


section \<open>The elements\<close>

definition intset_vals :: "bool \<Rightarrow> intset \<Rightarrow> s64 list" where
  "intset_vals be is = map (\<lambda>i. case intset_get be is (int i) of Some v \<Rightarrow> v | None \<Rightarrow> 0) [0 ..< len_of be is]"

definition intset_ok :: "bool \<Rightarrow> intset \<Rightarrow> bool" where
  "intset_ok be is \<longleftrightarrow> intset_rep be is (enc_of be is) (map sint (intset_vals be is))"

lemma intset_vals_rep:
  assumes "intset_rep be is e vs"
  shows "map sint (intset_vals be is) = vs" "e = enc_of be is"
proof -
  have n: "len_of be is = length vs" using assms by (simp add: intset_rep_def)
  show "map sint (intset_vals be is) = vs"
    by (rule nth_equalityI) (use intset_get_rep [OF assms] in \<open>auto simp: intset_vals_def n\<close>)
  show "e = enc_of be is" using assms by (simp add: intset_rep_def)
qed

lemma intset_ok_rep: "intset_ok be is \<longleftrightarrow> (\<exists>e vs. intset_rep be is e vs)"
  using intset_vals_rep [of be "is"] unfolding intset_ok_def by metis

lemma set_intset_vals: "intset_rep be is e vs \<Longrightarrow> v \<in> set (intset_vals be is) \<longleftrightarrow> sint v \<in> set vs"
  using intset_vals_rep(1) [of be "is" e vs] by (auto dest!: word_eq_iff_signed [THEN iffD2])

lemma length_intset_vals: "length (intset_vals be is) = len_of be is"
  by (simp add: intset_vals_def)

section \<open>Properties\<close>

definition intset_elems :: "bool \<Rightarrow> intset \<Rightarrow> s64 set" where
  "intset_elems be is = set (intset_vals be is)"

lemma card_intset_elems:
  assumes "intset_rep be is e vs"
  shows "card (intset_elems be is) = length vs"
proof -
  have "distinct (map sint (intset_vals be is))"
    using assms intset_vals_rep(1) [OF assms] by (simp add: intset_rep_def strict_sorted_iff)
  then have "distinct (intset_vals be is)" by (simp add: distinct_map)
  then show ?thesis using assms
    by (simp add: intset_elems_def distinct_card length_intset_vals intset_rep_def)
qed

lemma intset_elems_eq: "intset_rep be is e vs \<Longrightarrow> intset_elems be is = {v. sint v \<in> set vs}"
  by (auto simp: intset_elems_def set_intset_vals)

interpretation intset_store: set_store "intset_ok be" "intset_elems be" "intsetAdd be J" "intsetRemove be J"
  "intsetFind be" "2 ^ 28" for be J
proof unfold_locales
  fix s :: intset and x :: s64
  assume "intset_ok be s"
  then obtain e vs where rep: "intset_rep be s e vs" by (auto simp: intset_ok_rep)
  show "finite (intset_elems be s)" by (simp add: intset_elems_def)
  assume "card (intset_elems be s) < 2 ^ 28"
  then have n: "length vs < 2 ^ 28" using card_intset_elems [OF rep] by simp
  note els = intset_elems_eq [OF rep]
  show "\<exists>s'. intsetAdd be J s x = Some (s', x \<notin> intset_elems be s) \<and> intset_ok be s' \<and>
      intset_elems be s' = insert x (intset_elems be s)"
  proof -
    obtain s' e' vs' where s': "intsetAdd be J s x = Some (s', sint x \<notin> set vs)" "intset_rep be s' e' vs'"
      "set vs' = insert (sint x) (set vs)" using intsetAdd_correct [OF rep n, of J x] by blast
    have "intset_elems be s' = insert x (intset_elems be s)"
      unfolding intset_elems_eq [OF s'(2)] els s'(3) by (auto dest!: word_eq_iff_signed [THEN iffD2])
    then show ?thesis using s' els by (auto simp: intset_ok_rep)
  qed
  show "\<exists>s'. intsetRemove be J s x = Some (s', x \<in> intset_elems be s) \<and> intset_ok be s' \<and>
      intset_elems be s' = intset_elems be s - {x}"
  proof -
    obtain s' vs' where s': "intsetRemove be J s x = Some (s', sint x \<in> set vs)" "intset_rep be s' e vs'"
      "set vs' = set vs - {sint x}" using intsetRemove_correct [OF rep n, of J x] by blast
    have "intset_elems be s' = intset_elems be s - {x}"
      unfolding intset_elems_eq [OF s'(2)] els s'(3) by (auto dest!: word_eq_iff_signed [THEN iffD2])
    then show ?thesis using s' els by (auto simp: intset_ok_rep)
  qed
  show "intsetFind be s x = Some (x \<in> intset_elems be s)"
    using intsetFind_correct [OF rep, of x] n els by simp
qed

lemma intsetNew_ok: "intset_ok be (intsetNew be)" "intset_elems be (intsetNew be) = {}"
  using intsetNew_rep [of be] intset_elems_eq [OF intsetNew_rep, of be] by (auto simp: intset_ok_rep)

text \<open>C11: Starting from a new intset, any sequence of fewer than \<open>2 ^ 28\<close> insertions and removals of
  64-bit integers succeeds on a host of either byte order, without leaving the array; every
  operation reports correctly whether the element was new or present, the array stays strictly
  sorted in one of the three encodings, and its elements are those of the mathematical set. This
  includes the in-place upgrade of the encoding.\<close>

theorem intset_implements_sets:
  assumes "length ops \<le> 2 ^ 28"
  shows "\<exists>s rs. set_run (intsetAdd be J) (intsetRemove be J) ops (intsetNew be) = Some (s, rs) \<and>
    intset_ok be s \<and> set_spec ops {} = (set (intset_vals be s), rs)"
  using intset_store.run_law [OF intsetNew_ok(1), of be ops J, unfolded intsetNew_ok(2)] assms
  unfolding intset_elems_def by simp

theorem intset_implements_sets_witness:
  "\<exists>s rs. set_run (intsetAdd True (\<lambda>i. 170)) (intsetRemove True (\<lambda>i. 170)) [Add_op 5, Add_op (-70000), Add_op 5, Remove_op 5] (intsetNew True) = Some (s, rs) \<and>
     intset_ok True s \<and> set (intset_vals True s) = {-70000} \<and> rs = [True, True, False, True]"
proof -
  let ?ops = "[Add_op 5, Add_op (-70000), Add_op 5, Remove_op 5] :: s64 set_op list"
  have "(-70000 :: s64) \<noteq> 5" by simp
  then have "set_spec ?ops {} = ({-70000}, [True, True, False, True])" by (auto simp: Let_def)
  then show ?thesis using intset_implements_sets [of ?ops True "\<lambda>i. 170"] by (simp del: set_run.simps) metis
qed

text \<open>C21: The deep integrity check of a blob of at most 4 GB reads no byte outside of the blob, whatever it contains, its
  length field included, and accepts it exactly when it is a well-formed non-empty intset: a known encoding, a length that matches the
  size, and strictly increasing elements.\<close>

theorem intsetValidateIntegrity_exact:
  assumes "length p < 2 ^ 32 + 8"
  shows "intsetValidateIntegrity be p True =
    Some (8 \<le> length p \<and> intset_ok be (intset_of_blob be p) \<and> intset_vals be (intset_of_blob be p) \<noteq> [])"
proof -
  have "(\<exists>e vs. vs \<noteq> [] \<and> intset_rep be s e vs) \<longleftrightarrow> intset_ok be s \<and> intset_vals be s \<noteq> []" for s
    using intset_vals_rep(1) [of be s] by (auto simp: intset_ok_rep)
  then show ?thesis using intsetValidateIntegrity_eq [OF assms] by simp
qed

lemma le_bytes_2: "le_bytes 2 v = [word_of_nat v, word_of_nat (v div 256)]"
  by (simp add: numeral_2_eq_2)

theorem intsetValidateIntegrity_exact_witness:
  "intsetValidateIntegrity False [2, 0, 0, 0, 2, 0, 0, 0, 255, 255, 7, 0] True = Some True \<and>
   intset_ok False (intset_of_blob False [2, 0, 0, 0, 2, 0, 0, 0, 255, 255, 7, 0])"
proof -
  let ?p = "[2, 0, 0, 0, 2, 0, 0, 0, 255, 255, 7, 0] :: bytes"
  let ?s = "intset_of_blob False ?p"
  have hdr: "rev32 False (is_encoding ?s) = 2" "rev32 False (is_length ?s) = 2"
    by (simp_all add: intset_of_blob_def host_load_def rev32_def intrev32ifbe_def)
  have "is_contents ?s = concat (map (le_int 2) [-1, 7])"
    by (simp add: intset_of_blob_def le_int_def le_bytes_2)
  then have rep: "intset_rep False ?s 2 [-1, 7]" using hdr by (simp add: intset_rep_def fits_def)
  have ok: "intset_ok False ?s" using rep by (auto simp: intset_ok_rep)
  have "intset_vals False ?s \<noteq> []" using intset_vals_rep(1) [OF rep] by auto
  moreover have "intsetValidateIntegrity False ?p True =
      Some (8 \<le> length ?p \<and> intset_ok False ?s \<and> intset_vals False ?s \<noteq> [])"
    by (rule intsetValidateIntegrity_exact) simp
  ultimately show ?thesis using ok by simp
qed

end
