(* ===== verification/Dict.thy ===== *)
theory Dict
  imports Interfaces "HOL-Library.Multiset"
begin

unbundle bit_operations_syntax

text \<open>
  Models \<^verbatim>\<open>src/dict.c\<close> and \<^verbatim>\<open>src/dict.h\<close>: the hash table with two tables and incremental rehashing
  that holds every key space, hash and set of Redis.

  A bucket is the list of its chained entries, a table the list of its buckets; a \<^verbatim>\<open>NULL\<close> table is the
  empty list. \<open>dictType\<close> holds the functions a user of the dictionary supplies (hash, comparison,
  permission to expand); duplicating or freeing a key or value does not change its meaning and has
  no counterpart. The process-wide setting \<^verbatim>\<open>dict_can_resize\<close> is the argument \<open>cr\<close>. \<open>None\<close> is a failed
  assertion or an access outside of a table.
\<close>

section \<open>Data\<close>

type_synonym ('k, 'v) entry = "'k \<times> 'v"

record ('k, 'v) dictht =
  ht_table :: "('k, 'v) entry list list"
  ht_size :: nat
  ht_sizemask :: u64
  ht_used :: nat

record ('k, 'v) dict =
  ht0 :: "('k, 'v) dictht"
  ht1 :: "('k, 'v) dictht"
  rehashidx :: int
  pauserehash :: "16 word"

record 'k dictType =
  hashFunction :: "'k \<Rightarrow> u64"
  keyCompare :: "'k \<Rightarrow> 'k \<Rightarrow> bool"
  expandAllowed :: "nat \<Rightarrow> nat \<Rightarrow> nat \<Rightarrow> bool"

datatype dictResizeEnable = DICT_RESIZE_ENABLE | DICT_RESIZE_AVOID | DICT_RESIZE_FORBID

datatype dict_status = DICT_OK | DICT_ERR

definition DICT_HT_INITIAL_SIZE :: nat where "DICT_HT_INITIAL_SIZE = 4"
definition dict_force_resize_ratio :: nat where "dict_force_resize_ratio = 5"

definition dictIsRehashing :: "('k, 'v) dict \<Rightarrow> bool" where
  "dictIsRehashing d \<longleftrightarrow> rehashidx d \<noteq> -1"

definition dictSize :: "('k, 'v) dict \<Rightarrow> nat" where
  "dictSize d = ht_used (ht0 d) + ht_used (ht1 d)"

definition dictSlots :: "('k, 'v) dict \<Rightarrow> nat" where
  "dictSlots d = ht_size (ht0 d) + ht_size (ht1 d)"

text \<open>\<^verbatim>\<open>key==he->key || dictCompareKeys(d, key, he->key)\<close>\<close>

definition keyEq :: "'k dictType \<Rightarrow> 'k \<Rightarrow> 'k \<Rightarrow> bool" where
  "keyEq T k k' \<longleftrightarrow> k = k' \<or> keyCompare T k k'"

text \<open>\<^verbatim>\<open>dictHashKey(d,key) & ht->sizemask\<close>\<close>

definition hash_index :: "'k dictType \<Rightarrow> ('k, 'v) dictht \<Rightarrow> 'k \<Rightarrow> nat" where
  "hash_index T h k = unat (hashFunction T k AND ht_sizemask h)"

section \<open>Creation and expansion\<close>

definition dictReset :: "('k, 'v) dictht" where
  "dictReset = \<lparr>ht_table = [], ht_size = 0, ht_sizemask = 0, ht_used = 0\<rparr>"

definition dictCreate :: "('k, 'v) dict" where
  "dictCreate = \<lparr>ht0 = dictReset, ht1 = dictReset, rehashidx = -1, pauserehash = 0\<rparr>"

function next_power_loop :: "nat \<Rightarrow> nat \<Rightarrow> nat" where
  "next_power_loop i sz = (if i \<ge> sz \<or> i = 0 then i else next_power_loop (i * 2) sz)"
  by pat_completeness auto
termination by (relation "measure (\<lambda>(i, sz). sz - i)") auto

declare next_power_loop.simps [simp del]

definition dictNextPower :: "nat \<Rightarrow> nat" where
  "dictNextPower sz = (if sz \<ge> 2 ^ 63 - 1 then 2 ^ 63 else next_power_loop DICT_HT_INITIAL_SIZE sz)"

text \<open>The last argument says whether \<^verbatim>\<open>ztrycalloc\<close> fails; it is \<open>None\<close> when the caller passes no
  \<^verbatim>\<open>malloc_failed\<close> pointer. The result includes the value stored there.\<close>

definition dictExpand_gen :: "('k, 'v) dict \<Rightarrow> nat \<Rightarrow> bool option \<Rightarrow> ('k, 'v) dict \<times> dict_status \<times> bool" where
  "dictExpand_gen d sz malloc =
     (if dictIsRehashing d \<or> ht_used (ht0 d) > sz then (d, DICT_ERR, False)
      else
        (let realsize = dictNextPower sz in
         if realsize < sz \<or> realsize * 8 mod 2 ^ 64 < realsize then (d, DICT_ERR, False)
         else if realsize = ht_size (ht0 d) then (d, DICT_ERR, False)
         else if malloc = Some True then (d, DICT_ERR, True)
         else
           (let n = \<lparr>ht_table = replicate realsize [], ht_size = realsize,
                     ht_sizemask = word_of_nat realsize - 1, ht_used = 0\<rparr>
            in if ht_table (ht0 d) = [] then (d\<lparr>ht0 := n\<rparr>, DICT_OK, False)
               else (d\<lparr>ht1 := n, rehashidx := 0\<rparr>, DICT_OK, False))))"

definition dictExpand :: "('k, 'v) dict \<Rightarrow> nat \<Rightarrow> ('k, 'v) dict \<times> dict_status" where
  "dictExpand d sz = (let (d, st, _) = dictExpand_gen d sz None in (d, st))"

definition dictTryExpand :: "('k, 'v) dict \<Rightarrow> nat \<Rightarrow> bool \<Rightarrow> ('k, 'v) dict \<times> dict_status" where
  "dictTryExpand d sz oom =
     (let (d, _, malloc_failed) = dictExpand_gen d sz (Some oom) in (d, if malloc_failed then DICT_ERR else DICT_OK))"

definition dictResize :: "dictResizeEnable \<Rightarrow> ('k, 'v) dict \<Rightarrow> ('k, 'v) dict \<times> dict_status" where
  "dictResize cr d =
     (if cr \<noteq> DICT_RESIZE_ENABLE \<or> dictIsRehashing d then (d, DICT_ERR)
      else
        (let minimal = ht_used (ht0 d);
             minimal = (if minimal < DICT_HT_INITIAL_SIZE then DICT_HT_INITIAL_SIZE else minimal)
         in dictExpand d minimal))"

section \<open>Incremental rehashing\<close>

text \<open>The loop over empty buckets: the new index, the remaining visits, and whether the budget of
  empty visits ran out.\<close>

function skip_empty :: "('k, 'v) entry list list \<Rightarrow> nat \<Rightarrow> 32 word \<Rightarrow> (nat \<times> 32 word \<times> bool) option" where
  "skip_empty tbl i ev =
     (if i < length tbl then
        if tbl ! i = [] then
          if ev - 1 = 0 then Some (i + 1, 0, True) else skip_empty tbl (i + 1) (ev - 1)
        else Some (i, ev, False)
      else None)"
  by pat_completeness auto
termination by (relation "measure (\<lambda>(tbl, i, ev). length tbl - i)") auto

declare skip_empty.simps [simp del]

text \<open>Move all keys of a bucket, each to the head of its new chain.\<close>

fun move_chain :: "'k dictType \<Rightarrow> ('k, 'v) entry list \<Rightarrow> ('k, 'v) dict \<Rightarrow> ('k, 'v) dict option" where
  "move_chain T [] d = Some d"
| "move_chain T (de # es) d =
     (let h = hash_index T (ht1 d) (fst de) in do {
        b \<leftarrow> mem_get (ht_table (ht1 d)) h;
        move_chain T es
          (d\<lparr>ht0 := (ht0 d)\<lparr>ht_used := ht_used (ht0 d) - 1\<rparr>,
             ht1 := (ht1 d)\<lparr>ht_table := (ht_table (ht1 d))[h := de # b], ht_used := ht_used (ht1 d) + 1\<rparr>\<rparr>) })"

text \<open>The result is the dictionary and whether the function returned 1 from within the loop.\<close>

fun rehash_loop :: "'k dictType \<Rightarrow> nat \<Rightarrow> 32 word \<Rightarrow> ('k, 'v) dict \<Rightarrow> (('k, 'v) dict \<times> bool) option" where
  "rehash_loop T 0 ev d = Some (d, False)"
| "rehash_loop T (Suc n) ev d =
     (if ht_used (ht0 d) = 0 then Some (d, False)
      else if \<not> (int (ht_size (ht0 d)) > rehashidx d \<and> rehashidx d \<ge> 0) then None
      else do {
        (i, ev, out) \<leftarrow> skip_empty (ht_table (ht0 d)) (nat (rehashidx d)) ev;
        if out then Some (d\<lparr>rehashidx := int i\<rparr>, True)
        else do {
          de \<leftarrow> mem_get (ht_table (ht0 d)) i;
          d \<leftarrow> move_chain T de d;
          rehash_loop T n ev
            (d\<lparr>ht0 := (ht0 d)\<lparr>ht_table := (ht_table (ht0 d))[i := []]\<rparr>, rehashidx := int i + 1\<rparr>) } })"

definition dictRehash :: "'k dictType \<Rightarrow> dictResizeEnable \<Rightarrow> ('k, 'v) dict \<Rightarrow> nat \<Rightarrow> (('k, 'v) dict \<times> bool) option" where
  "dictRehash T cr d n =
     (let s0 = ht_size (ht0 d); s1 = ht_size (ht1 d) in
      if cr = DICT_RESIZE_FORBID \<or> \<not> dictIsRehashing d then Some (d, False)
      else if cr = DICT_RESIZE_AVOID \<and>
          ((s1 > s0 \<and> s1 div s0 < dict_force_resize_ratio) \<or> (s1 < s0 \<and> s0 div s1 < dict_force_resize_ratio))
      then Some (d, False)
      else do {
        (d, out) \<leftarrow> rehash_loop T n (word_of_nat n * 10) d;
        if out then Some (d, True)
        else if ht_used (ht0 d) = 0 then Some (d\<lparr>ht0 := ht1 d, ht1 := dictReset, rehashidx := -1\<rparr>, False)
        else Some (d, True) })"

definition dictRehashStep :: "'k dictType \<Rightarrow> dictResizeEnable \<Rightarrow> ('k, 'v) dict \<Rightarrow> ('k, 'v) dict option" where
  "dictRehashStep T cr d =
     (if pauserehash d = 0 then do { (d, _) \<leftarrow> dictRehash T cr d 1; Some d } else Some d)"

text \<open>\<open>clock\<close> gives the successive readings of \<^verbatim>\<open>timeInMilliseconds\<close>, the first at \<open>i\<close>. The loop runs as
  long as there is work and time.\<close>

partial_function (option) rehash_ms_loop ::
    "'k dictType \<Rightarrow> dictResizeEnable \<Rightarrow> (nat \<Rightarrow> int) \<Rightarrow> int \<Rightarrow> int \<Rightarrow> nat \<Rightarrow> nat \<Rightarrow> ('k, 'v) dict \<Rightarrow>
     (('k, 'v) dict \<times> nat) option" where
  "rehash_ms_loop T cr clock start ms i rehashes d = do {
     (d, more) \<leftarrow> dictRehash T cr d 100;
     if \<not> more then Some (d, rehashes)
     else if clock i - start > ms then Some (d, rehashes + 100)
     else rehash_ms_loop T cr clock start ms (i + 1) (rehashes + 100) d }"

definition dictRehashMilliseconds ::
    "'k dictType \<Rightarrow> dictResizeEnable \<Rightarrow> (nat \<Rightarrow> int) \<Rightarrow> ('k, 'v) dict \<Rightarrow> int \<Rightarrow> (('k, 'v) dict \<times> nat) option" where
  "dictRehashMilliseconds T cr clock d ms =
     (if sint (pauserehash d) > 0 then Some (d, 0)
      else rehash_ms_loop T cr clock (clock 0) ms 1 0 d)"

section \<open>Lookup, insertion and removal\<close>

definition dictTypeExpandAllowed :: "'k dictType \<Rightarrow> ('k, 'v) dict \<Rightarrow> bool" where
  "dictTypeExpandAllowed T d =
     expandAllowed T (dictNextPower (ht_used (ht0 d) + 1) * 8 mod 2 ^ 64) (ht_used (ht0 d)) (ht_size (ht0 d))"

definition dictExpandIfNeeded :: "'k dictType \<Rightarrow> dictResizeEnable \<Rightarrow> ('k, 'v) dict \<Rightarrow> ('k, 'v) dict \<times> dict_status" where
  "dictExpandIfNeeded T cr d =
     (let used = ht_used (ht0 d); sz = ht_size (ht0 d) in
      if dictIsRehashing d then (d, DICT_OK)
      else if sz = 0 then dictExpand d DICT_HT_INITIAL_SIZE
      else if \<not> dictTypeExpandAllowed T d then (d, DICT_OK)
      else if (cr = DICT_RESIZE_ENABLE \<and> used \<ge> sz) \<or>
              (cr \<noteq> DICT_RESIZE_FORBID \<and> used div sz > dict_force_resize_ratio)
      then dictExpand d (used + 1)
      else (d, DICT_OK))"

text \<open>The search of a chain.\<close>

fun chain_find :: "'k dictType \<Rightarrow> 'k \<Rightarrow> ('k, 'v) entry list \<Rightarrow> ('k, 'v) entry option" where
  "chain_find T key [] = None"
| "chain_find T key (he # es) = (if keyEq T key (fst he) then Some he else chain_find T key es)"

text \<open>\<^verbatim>\<open>_dictKeyIndex\<close>: the index for a new entry, or \<open>Inl\<close> of the entry found (\<open>None\<close> if the expansion
  failed) where the code returns \<open>-1\<close>. The dictionary is part of the result because it may have been
  expanded.\<close>

definition dictKeyIndex :: "'k dictType \<Rightarrow> dictResizeEnable \<Rightarrow> ('k, 'v) dict \<Rightarrow> 'k \<Rightarrow>
    (('k, 'v) dict \<times> (('k, 'v) entry option + nat)) option" where
  "dictKeyIndex T cr d key =
     (let (d, st) = dictExpandIfNeeded T cr d in
      if st = DICT_ERR then Some (d, Inl None)
      else do {
        b0 \<leftarrow> mem_get (ht_table (ht0 d)) (hash_index T (ht0 d) key);
        case chain_find T key b0 of
          Some he \<Rightarrow> Some (d, Inl (Some he))
        | None \<Rightarrow>
            if \<not> dictIsRehashing d then Some (d, Inr (hash_index T (ht0 d) key))
            else do {
              b1 \<leftarrow> mem_get (ht_table (ht1 d)) (hash_index T (ht1 d) key);
              case chain_find T key b1 of
                Some he \<Rightarrow> Some (d, Inl (Some he))
              | None \<Rightarrow> Some (d, Inr (hash_index T (ht1 d) key)) } })"

text \<open>Insertion at the head of a chain. The value of the new entry is set by the caller, so it is an
  argument here.\<close>

definition insert_entry :: "nat \<Rightarrow> 'k \<Rightarrow> 'v \<Rightarrow> ('k, 'v) dictht \<Rightarrow> ('k, 'v) dictht option" where
  "insert_entry index key val h = do {
     b \<leftarrow> mem_get (ht_table h) index;
     Some (h\<lparr>ht_table := (ht_table h)[index := (key, val) # b], ht_used := ht_used h + 1\<rparr>) }"

text \<open>\<^verbatim>\<open>dictAddRaw\<close> followed by the assignment of a value: \<open>Inr ()\<close> when an entry was added, \<open>Inl\<close> of the
  existing entry otherwise.\<close>

definition dictAddRaw :: "'k dictType \<Rightarrow> dictResizeEnable \<Rightarrow> ('k, 'v) dict \<Rightarrow> 'k \<Rightarrow> 'v \<Rightarrow>
    (('k, 'v) dict \<times> (('k, 'v) entry option + unit)) option" where
  "dictAddRaw T cr d key val = do {
     d \<leftarrow> (if dictIsRehashing d then dictRehashStep T cr d else Some d);
     (d, r) \<leftarrow> dictKeyIndex T cr d key;
     case r of
       Inl existing \<Rightarrow> Some (d, Inl existing)
     | Inr index \<Rightarrow>
         if dictIsRehashing d then do { h \<leftarrow> insert_entry index key val (ht1 d); Some (d\<lparr>ht1 := h\<rparr>, Inr ()) }
         else do { h \<leftarrow> insert_entry index key val (ht0 d); Some (d\<lparr>ht0 := h\<rparr>, Inr ()) } }"

definition dictAdd :: "'k dictType \<Rightarrow> dictResizeEnable \<Rightarrow> ('k, 'v) dict \<Rightarrow> 'k \<Rightarrow> 'v \<Rightarrow> (('k, 'v) dict \<times> dict_status) option" where
  "dictAdd T cr d key val = do {
     (d, r) \<leftarrow> dictAddRaw T cr d key val;
     Some (d, case r of Inl _ \<Rightarrow> DICT_ERR | Inr _ \<Rightarrow> DICT_OK) }"

text \<open>Overwriting the value of the entry a search found.\<close>

fun chain_set :: "'k dictType \<Rightarrow> 'k \<Rightarrow> 'v \<Rightarrow> ('k, 'v) entry list \<Rightarrow> ('k, 'v) entry list" where
  "chain_set T key val [] = []"
| "chain_set T key val (he # es) =
     (if keyEq T key (fst he) then (fst he, val) # es else he # chain_set T key val es)"

definition ht_set_val :: "'k dictType \<Rightarrow> 'k \<Rightarrow> 'v \<Rightarrow> ('k, 'v) dictht \<Rightarrow> ('k, 'v) dictht option" where
  "ht_set_val T key val h =
     (let i = hash_index T h key in do {
        b \<leftarrow> mem_get (ht_table h) i;
        Some (h\<lparr>ht_table := (ht_table h)[i := chain_set T key val b]\<rparr>) })"

definition entry_set_val :: "'k dictType \<Rightarrow> 'k \<Rightarrow> 'v \<Rightarrow> ('k, 'v) dict \<Rightarrow> ('k, 'v) dict option" where
  "entry_set_val T key val d = do {
     b0 \<leftarrow> mem_get (ht_table (ht0 d)) (hash_index T (ht0 d) key);
     if chain_find T key b0 \<noteq> None then do { h \<leftarrow> ht_set_val T key val (ht0 d); Some (d\<lparr>ht0 := h\<rparr>) }
     else do { h \<leftarrow> ht_set_val T key val (ht1 d); Some (d\<lparr>ht1 := h\<rparr>) } }"

text \<open>The result is true when the key was added from scratch. \<^verbatim>\<open>*existing\<close> is dereferenced when nothing
  was added.\<close>

definition dictReplace :: "'k dictType \<Rightarrow> dictResizeEnable \<Rightarrow> ('k, 'v) dict \<Rightarrow> 'k \<Rightarrow> 'v \<Rightarrow> (('k, 'v) dict \<times> bool) option" where
  "dictReplace T cr d key val = do {
     (d, r) \<leftarrow> dictAddRaw T cr d key val;
     case r of
       Inr _ \<Rightarrow> Some (d, True)
     | Inl None \<Rightarrow> None
     | Inl (Some existing) \<Rightarrow> do { d \<leftarrow> entry_set_val T key val d; Some (d, False) } }"

fun chain_remove :: "'k dictType \<Rightarrow> 'k \<Rightarrow> ('k, 'v) entry list \<Rightarrow> ('k, 'v) entry list" where
  "chain_remove T key [] = []"
| "chain_remove T key (he # es) = (if keyEq T key (fst he) then es else he # chain_remove T key es)"

text \<open>One round of the loop over the tables: the entry found there and the table without it.\<close>

definition ht_delete :: "'k dictType \<Rightarrow> 'k \<Rightarrow> ('k, 'v) dictht \<Rightarrow> (('k, 'v) dictht \<times> ('k, 'v) entry option) option" where
  "ht_delete T key h =
     (let idx = hash_index T h key in do {
        b \<leftarrow> mem_get (ht_table h) idx;
        case chain_find T key b of
          None \<Rightarrow> Some (h, None)
        | Some he \<Rightarrow>
            Some (h\<lparr>ht_table := (ht_table h)[idx := chain_remove T key b], ht_used := ht_used h - 1\<rparr>, Some he) })"

definition dictGenericDelete :: "'k dictType \<Rightarrow> dictResizeEnable \<Rightarrow> ('k, 'v) dict \<Rightarrow> 'k \<Rightarrow>
    (('k, 'v) dict \<times> ('k, 'v) entry option) option" where
  "dictGenericDelete T cr d key =
     (if ht_used (ht0 d) = 0 \<and> ht_used (ht1 d) = 0 then Some (d, None)
      else do {
        d \<leftarrow> (if dictIsRehashing d then dictRehashStep T cr d else Some d);
        (h, r) \<leftarrow> ht_delete T key (ht0 d);
        if r \<noteq> None then Some (d\<lparr>ht0 := h\<rparr>, r)
        else if \<not> dictIsRehashing d then Some (d, None)
        else do {
          (h, r) \<leftarrow> ht_delete T key (ht1 d);
          Some (d\<lparr>ht1 := h\<rparr>, r) } })"

definition dictDelete :: "'k dictType \<Rightarrow> dictResizeEnable \<Rightarrow> ('k, 'v) dict \<Rightarrow> 'k \<Rightarrow> (('k, 'v) dict \<times> dict_status) option" where
  "dictDelete T cr d key = do {
     (d, r) \<leftarrow> dictGenericDelete T cr d key;
     Some (d, if r = None then DICT_ERR else DICT_OK) }"

definition dictUnlink :: "'k dictType \<Rightarrow> dictResizeEnable \<Rightarrow> ('k, 'v) dict \<Rightarrow> 'k \<Rightarrow> (('k, 'v) dict \<times> ('k, 'v) entry option) option" where
  "dictUnlink T cr d key = dictGenericDelete T cr d key"

definition dictFind :: "'k dictType \<Rightarrow> dictResizeEnable \<Rightarrow> ('k, 'v) dict \<Rightarrow> 'k \<Rightarrow>
    (('k, 'v) dict \<times> ('k, 'v) entry option) option" where
  "dictFind T cr d key =
     (if dictSize d = 0 then Some (d, None)
      else do {
        d \<leftarrow> (if dictIsRehashing d then dictRehashStep T cr d else Some d);
        b0 \<leftarrow> mem_get (ht_table (ht0 d)) (hash_index T (ht0 d) key);
        case chain_find T key b0 of
          Some he \<Rightarrow> Some (d, Some he)
        | None \<Rightarrow>
            if \<not> dictIsRehashing d then Some (d, None)
            else do {
              b1 \<leftarrow> mem_get (ht_table (ht1 d)) (hash_index T (ht1 d) key);
              Some (d, chain_find T key b1) } })"

definition dictFetchValue :: "'k dictType \<Rightarrow> dictResizeEnable \<Rightarrow> ('k, 'v) dict \<Rightarrow> 'k \<Rightarrow> (('k, 'v) dict \<times> 'v option) option" where
  "dictFetchValue T cr d key = do {
     (d, he) \<leftarrow> dictFind T cr d key;
     Some (d, map_option snd he) }"

text \<open>\<^verbatim>\<open>_dictClear\<close> frees the chains bucket by bucket until nothing is left; the table ends up reset.\<close>

definition dictEmpty :: "('k, 'v) dict \<Rightarrow> ('k, 'v) dict" where
  "dictEmpty d = d\<lparr>ht0 := dictReset, ht1 := dictReset, rehashidx := -1, pauserehash := 0\<rparr>"

definition dictPauseRehashing :: "('k, 'v) dict \<Rightarrow> ('k, 'v) dict" where
  "dictPauseRehashing d = d\<lparr>pauserehash := pauserehash d + 1\<rparr>"

definition dictResumeRehashing :: "('k, 'v) dict \<Rightarrow> ('k, 'v) dict" where
  "dictResumeRehashing d = d\<lparr>pauserehash := pauserehash d - 1\<rparr>"


unbundle bit_operations_syntax

section \<open>Invariant\<close>

text \<open>What the code relies on of the functions its user supplies: the comparison is an equivalence and
  equal keys have equal hashes.\<close>

definition dictType_ok :: "'k dictType \<Rightarrow> bool" where
  "dictType_ok T \<longleftrightarrow> equivp (keyEq T) \<and> (\<forall>a b. keyEq T a b \<longrightarrow> hashFunction T a = hashFunction T b)"

definition ht_ok :: "'k dictType \<Rightarrow> ('k, 'v) dictht \<Rightarrow> bool" where
  "ht_ok T h \<longleftrightarrow>
     length (ht_table h) = ht_size h \<and> ht_used h = length (concat (ht_table h)) \<and>
     (if ht_size h = 0 then ht_sizemask h = 0
      else \<exists>n. 2 \<le> n \<and> n \<le> 60 \<and> ht_size h = 2 ^ n \<and> ht_sizemask h = mask n) \<and>
     (\<forall>i<ht_size h. \<forall>e\<in>set (ht_table h ! i). hash_index T h (fst e) = i)"

text \<open>At most one entry per key.\<close>

definition distinct_keys :: "'k dictType \<Rightarrow> ('k, 'v) entry multiset \<Rightarrow> bool" where
  "distinct_keys T M \<longleftrightarrow> (\<forall>k. size {#e \<in># M. keyEq T k (fst e)#} \<le> 1)"

definition ht_entries :: "('k, 'v) dictht \<Rightarrow> ('k, 'v) entry list" where
  "ht_entries h = concat (ht_table h)"

definition entries :: "('k, 'v) dict \<Rightarrow> ('k, 'v) entry list" where
  "entries d = ht_entries (ht0 d) @ ht_entries (ht1 d)"

definition rehash_ok :: "('k, 'v) dict \<Rightarrow> bool" where
  "rehash_ok d \<longleftrightarrow>
     (if dictIsRehashing d then
        0 \<le> rehashidx d \<and> rehashidx d \<le> int (ht_size (ht0 d)) \<and> ht_size (ht0 d) \<noteq> 0 \<and> ht_size (ht1 d) \<noteq> 0 \<and>
        (\<forall>i<nat (rehashidx d). ht_table (ht0 d) ! i = [])
      else ht1 d = dictReset)"

definition dict_ok :: "'k dictType \<Rightarrow> ('k, 'v) dict \<Rightarrow> bool" where
  "dict_ok T d \<longleftrightarrow> ht_ok T (ht0 d) \<and> ht_ok T (ht1 d) \<and> distinct_keys T (mset (entries d)) \<and> rehash_ok d"

text \<open>The finite map a dictionary stands for.\<close>

definition dict_map :: "'k dictType \<Rightarrow> ('k, 'v) dict \<Rightarrow> 'k \<Rightarrow> 'v option" where
  "dict_map T d k = map_option snd (chain_find T k (entries d))"

section \<open>Chains\<close>

lemma keyEq_refl [simp]: "keyEq T k k"
  by (simp add: keyEq_def)

lemma keyEq_sym: "dictType_ok T \<Longrightarrow> keyEq T a b \<Longrightarrow> keyEq T b a"
  unfolding dictType_ok_def using equivp_symp by metis

lemma keyEq_trans: "dictType_ok T \<Longrightarrow> keyEq T a b \<Longrightarrow> keyEq T b c \<Longrightarrow> keyEq T a c"
  unfolding dictType_ok_def using equivp_transp by metis

lemma keyEq_cong: "dictType_ok T \<Longrightarrow> keyEq T a b \<Longrightarrow> keyEq T a c \<longleftrightarrow> keyEq T b c"
  using keyEq_sym keyEq_trans by metis

lemma keyEq_hash: "dictType_ok T \<Longrightarrow> keyEq T a b \<Longrightarrow> hash_index T h a = hash_index T h b"
  by (simp add: dictType_ok_def hash_index_def)

lemma chain_find_append:
  "chain_find T k (xs @ ys) = (case chain_find T k xs of Some e \<Rightarrow> Some e | None \<Rightarrow> chain_find T k ys)"
  by (induction xs) auto

lemma chain_find_None: "chain_find T k es = None \<longleftrightarrow> (\<forall>e\<in>set es. \<not> keyEq T k (fst e))"
  by (induction es) auto

lemma chain_find_Some: "chain_find T k es = Some e \<Longrightarrow> e \<in> set es \<and> keyEq T k (fst e)"
  by (induction es) (auto split: if_splits)

lemma distinct_keys_unique:
  assumes "distinct_keys T M" "e \<in># M" "e' \<in># M" "keyEq T k (fst e)" "keyEq T k (fst e')"
  shows "e = e'"
proof (rule ccontr)
  assume ne: "e \<noteq> e'"
  obtain N where N: "M = add_mset e N" using assms(2) by (meson multi_member_split)
  then have "e' \<in># N" using assms(3) ne by simp
  then obtain N' where "N = add_mset e' N'" by (meson multi_member_split)
  then have "size {#e \<in># M. keyEq T k (fst e)#} \<ge> 2" using N assms(4,5) by simp
  moreover have "size {#e \<in># M. keyEq T k (fst e)#} \<le> 1" using assms(1) by (simp add: distinct_keys_def)
  ultimately show False by simp
qed

lemma chain_find_iff:
  assumes "distinct_keys T (mset es)"
  shows "chain_find T k es = Some e \<longleftrightarrow> e \<in> set es \<and> keyEq T k (fst e)"
proof
  assume a: "e \<in> set es \<and> keyEq T k (fst e)"
  then obtain e' where e': "chain_find T k es = Some e'" using chain_find_None [of T k es] by fastforce
  then have "e' = e" using distinct_keys_unique [OF assms, of e' e k] chain_find_Some [OF e'] a by auto
  then show "chain_find T k es = Some e" using e' by simp
qed (rule chain_find_Some)

lemma chain_find_mset:
  assumes "distinct_keys T (mset es)" "mset es = mset es'"
  shows "chain_find T k es = chain_find T k es'"
proof -
  have "set es = set es'" using assms(2) by (rule mset_eq_setD)
  then have "chain_find T k es = Some e \<longleftrightarrow> chain_find T k es' = Some e" for e
    using chain_find_iff [of T es] chain_find_iff [of T es'] assms by simp
  then show ?thesis by (cases "chain_find T k es") (metis not_Some_eq, metis)
qed

lemma dict_map_mset:
  assumes "distinct_keys T (mset (entries d))" "mset (entries d') = mset (entries d)"
  shows "dict_map T d' = dict_map T d"
  by (rule ext) (simp add: dict_map_def chain_find_mset [OF assms(1) assms(2) [symmetric]])

section \<open>Tables\<close>

lemma mset_concat_update:
  "i < length tbl \<Longrightarrow> mset (concat (tbl[i := b])) + mset (tbl ! i) = mset (concat tbl) + mset b"
proof (induction tbl arbitrary: i)
  case (Cons x tbl)
  then show ?case by (cases i) (auto simp: ac_simps)
qed simp

lemma unat_and_mask: "n \<le> 64 \<Longrightarrow> unat ((w :: u64) AND mask n) = unat w mod 2 ^ n"
  using unsigned_take_bit_eq [of n w, where 'a = nat] by (simp flip: take_bit_eq_mask) (simp add: take_bit_eq_mod)

lemma hash_index_less:
  assumes "ht_ok T h" "ht_size h \<noteq> 0"
  shows "hash_index T h k < ht_size h" "hash_index T h k < length (ht_table h)"
proof -
  obtain n where "n \<le> 60" "ht_size h = 2 ^ n" "ht_sizemask h = mask n" using assms by (auto simp: ht_ok_def)
  then show "hash_index T h k < ht_size h" by (simp add: hash_index_def unat_and_mask)
  then show "hash_index T h k < length (ht_table h)" using assms(1) by (simp add: ht_ok_def)
qed

lemma chain_find_concat:
  assumes "j < length tbl" "\<And>i e. i < length tbl \<Longrightarrow> i \<noteq> j \<Longrightarrow> e \<in> set (tbl ! i) \<Longrightarrow> \<not> keyEq T k (fst e)"
  shows "chain_find T k (concat tbl) = chain_find T k (tbl ! j)"
  using assms
proof (induction tbl arbitrary: j)
  case (Cons x tbl)
  show ?case
  proof (cases j)
    case 0
    have "\<not> keyEq T k (fst e)" if mem: "e \<in> set (concat tbl)" for e
    proof -
      obtain b where "b \<in> set tbl" "e \<in> set b" using mem by auto
      then obtain i where "i < length tbl" "e \<in> set (tbl ! i)" by (metis in_set_conv_nth)
      then show ?thesis using Cons.prems(2) [of "Suc i" e] 0 by simp
    qed
    then have "chain_find T k (concat tbl) = None" by (simp add: chain_find_None)
    then show ?thesis using 0 by (simp add: chain_find_append split: option.splits)
  next
    case (Suc j')
    have "chain_find T k x = None" using Cons.prems(2) [of 0] Suc by (simp add: chain_find_None)
    moreover have "chain_find T k (concat tbl) = chain_find T k (tbl ! j')"
    proof (rule Cons.IH)
      show "j' < length tbl" using Cons.prems(1) Suc by simp
      show "\<not> keyEq T k (fst e)" if "i < length tbl" "i \<noteq> j'" "e \<in> set (tbl ! i)" for i e
        using Cons.prems(2) [of "Suc i" e] that Suc by simp
    qed
    ultimately show ?thesis using Suc by (simp add: chain_find_append)
  qed
qed simp

lemma bucket_find:
  assumes "dictType_ok T" "ht_ok T h" "ht_size h \<noteq> 0"
  shows "mem_get (ht_table h) (hash_index T h k) = Some (ht_table h ! hash_index T h k)"
    "chain_find T k (ht_table h ! hash_index T h k) = chain_find T k (ht_entries h)"
proof -
  note lt = hash_index_less [OF assms(2,3), of k]
  show "mem_get (ht_table h) (hash_index T h k) = Some (ht_table h ! hash_index T h k)"
    using lt by (simp add: mem_get_def)
  show "chain_find T k (ht_table h ! hash_index T h k) = chain_find T k (ht_entries h)"
    unfolding ht_entries_def
  proof (rule chain_find_concat [symmetric, OF lt(2)])
    fix i e assume i: "i < length (ht_table h)" "i \<noteq> hash_index T h k" "e \<in> set (ht_table h ! i)"
    then have "hash_index T h (fst e) = i" using assms(2) by (auto simp: ht_ok_def)
    then show "\<not> keyEq T k (fst e)" using keyEq_hash [OF assms(1), of k "fst e" h] i(2) by auto
  qed
qed

text \<open>Replacing one bucket.\<close>

definition ht_put :: "nat \<Rightarrow> ('k, 'v) entry list \<Rightarrow> ('k, 'v) dictht \<Rightarrow> ('k, 'v) dictht" where
  "ht_put i b h = h\<lparr>ht_table := (ht_table h)[i := b], ht_used := length (concat ((ht_table h)[i := b]))\<rparr>"

lemma hash_index_mask: "ht_sizemask h = ht_sizemask h' \<Longrightarrow> hash_index T h k = hash_index T h' k"
  by (simp add: hash_index_def)

lemma hash_index_upd [simp]:
  "hash_index T (h\<lparr>ht_table := t\<rparr>) k = hash_index T h k" "hash_index T (h\<lparr>ht_used := u\<rparr>) k = hash_index T h k"
  by (simp_all add: hash_index_def)

lemma ht_put_sel [simp]:
  "ht_size (ht_put i b h) = ht_size h" "hash_index T (ht_put i b h) k = hash_index T h k"
  "ht_table (ht_put i b h) = (ht_table h)[i := b]"
  by (simp_all add: ht_put_def)

lemma ht_ok_put:
  assumes "ht_ok T h" "i < ht_size h" "\<forall>e\<in>set b. hash_index T h (fst e) = i"
  shows "ht_ok T (ht_put i b h)" "mset (ht_entries (ht_put i b h)) + mset (ht_table h ! i) = mset (ht_entries h) + mset b"
proof -
  have len: "length (ht_table h) = ht_size h" using assms(1) by (simp add: ht_ok_def)
  have "\<forall>e\<in>set ((ht_table h)[i := b] ! j). hash_index T h (fst e) = j" if "j < ht_size h" for j
    using assms that len by (cases "i = j") (auto simp: ht_ok_def)
  then show "ht_ok T (ht_put i b h)" using assms(1) by (auto simp: ht_ok_def ht_put_def)
  show "mset (ht_entries (ht_put i b h)) + mset (ht_table h ! i) = mset (ht_entries h) + mset b"
    using mset_concat_update [of i "ht_table h" b] assms(2) len by (simp add: ht_entries_def)
qed

lemma ht_used_put:
  assumes "ht_ok T h" "i < ht_size h"
  shows "ht_used (ht_put i b h) + length (ht_table h ! i) = ht_used h + length b"
proof -
  have "i < length (ht_table h)" using assms by (simp add: ht_ok_def)
  then have "size (mset (concat ((ht_table h)[i := b])) + mset (ht_table h ! i)) = size (mset (concat (ht_table h)) + mset b)"
    by (simp only: mset_concat_update)
  then show ?thesis using assms(1) by (simp add: ht_put_def ht_ok_def)
qed

lemma ht_used_entries: "ht_ok T h \<Longrightarrow> ht_used h = length (ht_entries h)"
  by (simp add: ht_ok_def ht_entries_def)

section \<open>Rehashing keeps the contents\<close>

lemma ht_push:
  fixes h :: "('k, 'v) dictht" and de :: "('k, 'v) entry"
  assumes ok: "ht_ok T h" "ht_size h \<noteq> 0"
  defines "i \<equiv> hash_index T h (fst de)"
  defines "h' \<equiv> h\<lparr>ht_table := (ht_table h)[i := de # (ht_table h ! i)], ht_used := ht_used h + 1\<rparr>"
  shows "h' = ht_put i (de # (ht_table h ! i)) h" "ht_ok T h'" "mset (ht_entries h') = add_mset de (mset (ht_entries h))"
proof -
  have i: "i < ht_size h" using hash_index_less [OF ok] by (simp add: i_def)
  have b: "\<forall>e\<in>set (de # (ht_table h ! i)). hash_index T h (fst e) = i" using ok(1) i by (auto simp: ht_ok_def i_def)
  show eq: "h' = ht_put i (de # (ht_table h ! i)) h"
    using ht_used_put [OF ok(1) i, of "de # (ht_table h ! i)"] by (simp add: h'_def ht_put_def)
  show "ht_ok T h'" unfolding eq by (rule ht_ok_put(1) [OF ok(1) i b])
  show "mset (ht_entries h') = add_mset de (mset (ht_entries h))"
    using ht_ok_put(2) [OF ok(1) i b] unfolding eq by simp
qed

lemma move_chain_correct:
  assumes "ht_ok T (ht1 d)" "ht_size (ht1 d) \<noteq> 0"
  shows "\<exists>h. move_chain T es d = Some (d\<lparr>ht0 := (ht0 d)\<lparr>ht_used := ht_used (ht0 d) - length es\<rparr>, ht1 := h\<rparr>) \<and>
    ht_ok T h \<and> ht_size h = ht_size (ht1 d) \<and> mset (ht_entries h) = mset es + mset (ht_entries (ht1 d))"
  using assms
proof (induction es arbitrary: d)
  case (Cons de es)
  let ?i = "hash_index T (ht1 d) (fst de)"
  let ?h = "(ht1 d)\<lparr>ht_table := (ht_table (ht1 d))[?i := de # (ht_table (ht1 d) ! ?i)], ht_used := ht_used (ht1 d) + 1\<rparr>"
  let ?d = "d\<lparr>ht0 := (ht0 d)\<lparr>ht_used := ht_used (ht0 d) - 1\<rparr>, ht1 := ?h\<rparr>"
  note p = ht_push [OF Cons.prems, of de]
  have g: "mem_get (ht_table (ht1 d)) ?i = Some (ht_table (ht1 d) ! ?i)"
    using hash_index_less [OF Cons.prems] by (simp add: mem_get_def)
  have "\<exists>h. move_chain T es ?d = Some (?d\<lparr>ht0 := (ht0 ?d)\<lparr>ht_used := ht_used (ht0 ?d) - length es\<rparr>, ht1 := h\<rparr>) \<and>
    ht_ok T h \<and> ht_size h = ht_size (ht1 ?d) \<and> mset (ht_entries h) = mset es + mset (ht_entries (ht1 ?d))"
    by (rule Cons.IH) (use p(2) Cons.prems(2) in simp_all)
  then show ?case using g p(3) by (auto simp: Let_def)
qed (auto intro!: exI)

lemma skip_empty_correct:
  assumes "i \<le> j" "j < length tbl" "tbl ! j \<noteq> []"
  shows "\<exists>i' ev' out. skip_empty tbl i ev = Some (i', ev', out) \<and> i \<le> i' \<and> i' \<le> j + (if out then 1 else 0) \<and>
    (\<forall>m. i \<le> m \<and> m < i' \<longrightarrow> tbl ! m = []) \<and> (\<not> out \<longrightarrow> tbl ! i' \<noteq> []) \<and> (out \<longrightarrow> i < i')"
  using assms
proof (induction tbl i ev rule: skip_empty.induct)
  case (1 tbl i ev)
  show ?case
  proof (cases "tbl ! i = [] \<and> ev - 1 \<noteq> 0")
    case True
    have "i \<noteq> j" using True 1(4) by auto
    then obtain i' ev' out where r: "skip_empty tbl (i + 1) (ev - 1) = Some (i', ev', out)" "i + 1 \<le> i'"
      "i' \<le> j + (if out then 1 else 0)" "\<forall>m. i + 1 \<le> m \<and> m < i' \<longrightarrow> tbl ! m = []" "\<not> out \<longrightarrow> tbl ! i' \<noteq> []"
      using 1 True by auto
    have "tbl ! m = []" if "i \<le> m" "m < i'" for m using r(4) that True by (cases "m = i") auto
    moreover have "skip_empty tbl i ev = Some (i', ev', out)" using r(1) True 1(2,3) by (subst skip_empty.simps) simp
    ultimately show ?thesis using r by (intro exI [of _ i'] exI [of _ ev'] exI [of _ out]) simp
  next
    case False
    have i: "i < length tbl" using 1(2,3) by simp
    show ?thesis
    proof (cases "tbl ! i = []")
      case True
      then have "skip_empty tbl i ev = Some (i + 1, 0, True)" using False i by (subst skip_empty.simps) simp
      moreover have "\<forall>m. i \<le> m \<and> m < i + 1 \<longrightarrow> tbl ! m = []" using True by (auto simp: less_Suc_eq_le)
      ultimately show ?thesis using 1(2) by (intro exI [of _ "i + 1"] exI [of _ 0] exI [of _ True]) simp
    next
      case False
      then have "skip_empty tbl i ev = Some (i, ev, False)" using i by (subst skip_empty.simps) simp
      then show ?thesis using 1(2) False by (intro exI [of _ i] exI [of _ ev] exI [of _ False]) auto
    qed
  qed
qed

text \<open>What every rehashing operation keeps.\<close>

definition same_contents :: "('k, 'v) dict \<Rightarrow> ('k, 'v) dict \<Rightarrow> bool" where
  "same_contents d d' \<longleftrightarrow> mset (entries d') = mset (entries d) \<and> pauserehash d' = pauserehash d"

lemma same_contents_refl [simp]: "same_contents d d"
  by (simp add: same_contents_def)

lemma same_contents_trans: "same_contents d d' \<Longrightarrow> same_contents d' d'' \<Longrightarrow> same_contents d d''"
  by (simp add: same_contents_def)

lemma nonempty_bucket:
  assumes "dict_ok T d" "dictIsRehashing d" "ht_used (ht0 d) \<noteq> 0"
  shows "\<exists>j. nat (rehashidx d) \<le> j \<and> j < length (ht_table (ht0 d)) \<and> ht_table (ht0 d) ! j \<noteq> []"
proof -
  have "ht_used (ht0 d) = length (concat (ht_table (ht0 d)))" using assms(1) by (simp add: dict_ok_def ht_ok_def)
  then have "concat (ht_table (ht0 d)) \<noteq> []" using assms(3) by auto
  then obtain b where "b \<in> set (ht_table (ht0 d))" "b \<noteq> []" by auto
  then obtain j where j: "j < length (ht_table (ht0 d))" "ht_table (ht0 d) ! j \<noteq> []" by (metis in_set_conv_nth)
  have "nat (rehashidx d) \<le> j"
    using assms(1,2) j(2) by (meson dict_ok_def rehash_ok_def not_le)
  then show ?thesis using j by blast
qed

lemma rehash_bucket:
  assumes ok: "dict_ok T d" "dictIsRehashing d" and i: "nat (rehashidx d) \<le> i" "i < length (ht_table (ht0 d))"
    and empty: "\<forall>m. nat (rehashidx d) \<le> m \<and> m < i \<longrightarrow> ht_table (ht0 d) ! m = []"
  shows "\<exists>d1 d'. move_chain T (ht_table (ht0 d) ! i) d = Some d1 \<and>
    d' = d1\<lparr>ht0 := (ht0 d1)\<lparr>ht_table := (ht_table (ht0 d1))[i := []]\<rparr>, rehashidx := int i + 1\<rparr> \<and>
    dict_ok T d' \<and> dictIsRehashing d' \<and> same_contents d d' \<and> rehashidx d' = int i + 1 \<and>
    ht_size (ht0 d') = ht_size (ht0 d) \<and> ht_size (ht1 d') = ht_size (ht1 d)"
proof -
  let ?b = "ht_table (ht0 d) ! i"
  have o: "ht_ok T (ht0 d)" "ht_ok T (ht1 d)" "ht_size (ht1 d) \<noteq> 0" "0 \<le> rehashidx d" "ht_size (ht0 d) \<noteq> 0"
    "distinct_keys T (mset (entries d))" "\<forall>m<nat (rehashidx d). ht_table (ht0 d) ! m = []"
    using ok by (simp_all add: dict_ok_def rehash_ok_def)
  have i': "i < ht_size (ht0 d)" using i(2) o(1) by (simp add: ht_ok_def)
  obtain h where h: "move_chain T ?b d = Some (d\<lparr>ht0 := (ht0 d)\<lparr>ht_used := ht_used (ht0 d) - length ?b\<rparr>, ht1 := h\<rparr>)"
    "ht_ok T h" "ht_size h = ht_size (ht1 d)" "mset (ht_entries h) = mset ?b + mset (ht_entries (ht1 d))"
    using move_chain_correct [OF o(2,3)] by blast
  let ?d1 = "d\<lparr>ht0 := (ht0 d)\<lparr>ht_used := ht_used (ht0 d) - length ?b\<rparr>, ht1 := h\<rparr>"
  let ?d = "?d1\<lparr>ht0 := (ht0 ?d1)\<lparr>ht_table := (ht_table (ht0 ?d1))[i := []]\<rparr>, rehashidx := int i + 1\<rparr>"
  have e: "ht0 ?d = ht_put i [] (ht0 d)"
    using ht_used_put [OF o(1) i', of "[]"] by (simp add: ht_put_def)
  have p: "ht_ok T (ht_put i [] (ht0 d))" "mset (ht_entries (ht_put i [] (ht0 d))) + mset ?b = mset (ht_entries (ht0 d))"
    using ht_ok_put [OF o(1) i', of "[]"] by simp_all
  have m: "mset (entries ?d) = mset (entries d)"
    using p(2) h(4) unfolding entries_def e by (simp add: ac_simps flip: p(2))
  have t: "\<forall>m<i + 1. (ht_table (ht0 d))[i := []] ! m = []"
    using empty o(7) i(2) by (metis Suc_eq_plus1 less_SucE not_le nth_list_update_eq nth_list_update_neq)
  have "rehash_ok ?d" using i' o h(3) t e by (simp add: rehash_ok_def dictIsRehashing_def nat_add_distrib)
  then have "dict_ok T ?d" using p(1) h(2) o(6) m e by (simp add: dict_ok_def)
  then show ?thesis using h(1,3) m e
    by (intro exI [of _ ?d1] exI [of _ ?d]) (simp add: same_contents_def dictIsRehashing_def)
qed

definition rehash_rel :: "'k dictType \<Rightarrow> ('k, 'v) dict \<Rightarrow> ('k, 'v) dict \<Rightarrow> bool" where
  "rehash_rel T d d' \<longleftrightarrow> dict_ok T d' \<and> dictIsRehashing d' \<and> same_contents d d' \<and> rehashidx d \<le> rehashidx d' \<and>
     ht_size (ht0 d') = ht_size (ht0 d) \<and> ht_size (ht1 d') = ht_size (ht1 d)"

lemma rehash_loop_correct:
  assumes "dict_ok T d" "dictIsRehashing d"
  shows "\<exists>d' out. rehash_loop T n ev d = Some (d', out) \<and> rehash_rel T d d' \<and>
    (if 0 < n \<and> ht_used (ht0 d) \<noteq> 0 then rehashidx d < rehashidx d' else d' = d \<and> \<not> out)"
  using assms
proof (induction n arbitrary: d ev)
  case 0
  then show ?case by (auto simp: rehash_rel_def)
next
  case (Suc n)
  show ?case
  proof (cases "ht_used (ht0 d) = 0")
    case True
    then show ?thesis using Suc.prems by (auto simp: rehash_rel_def)
  next
    case False
    obtain j where j: "nat (rehashidx d) \<le> j" "j < length (ht_table (ht0 d))" "ht_table (ht0 d) ! j \<noteq> []"
      using nonempty_bucket [OF Suc.prems False] by blast
    have o: "0 \<le> rehashidx d" "length (ht_table (ht0 d)) = ht_size (ht0 d)" "\<forall>m<nat (rehashidx d). ht_table (ht0 d) ! m = []"
      "ht_size (ht0 d) \<noteq> 0" "ht_size (ht1 d) \<noteq> 0"
      using Suc.prems by (simp_all add: dict_ok_def rehash_ok_def ht_ok_def)
    have guard: "\<not> \<not> (int (ht_size (ht0 d)) > rehashidx d \<and> rehashidx d \<ge> 0)" using j(1,2) o(1,2) by linarith
    obtain i ev' out where s: "skip_empty (ht_table (ht0 d)) (nat (rehashidx d)) ev = Some (i, ev', out)"
      "nat (rehashidx d) \<le> i" "i \<le> j + (if out then 1 else 0)"
      "\<forall>m. nat (rehashidx d) \<le> m \<and> m < i \<longrightarrow> ht_table (ht0 d) ! m = []" "out \<longrightarrow> nat (rehashidx d) < i"
      using skip_empty_correct [OF j] by blast
    show ?thesis
    proof (cases out)
      case True
      let ?d = "d\<lparr>rehashidx := int i\<rparr>"
      have "\<forall>m<i. ht_table (ht0 d) ! m = []" using s(4) o(3) by (meson not_le)
      moreover have "i \<le> ht_size (ht0 d)" using s(3) j(2) o(2) True by simp
      ultimately have "rehash_ok ?d" using o by (simp add: rehash_ok_def dictIsRehashing_def)
      then have "dict_ok T ?d" using Suc.prems(1) by (simp add: dict_ok_def entries_def)
      then have "rehash_rel T d ?d" "rehashidx d < rehashidx ?d" using s(5) True o(1)
        by (simp_all add: rehash_rel_def dictIsRehashing_def same_contents_def entries_def)
      then show ?thesis using s(1) True False guard by (intro exI [of _ ?d] exI [of _ True]) simp
    next
      case nout: False
      then have i: "i < length (ht_table (ht0 d))" using s(3) j(2) by simp
      obtain d1 d2 where d2: "move_chain T (ht_table (ht0 d) ! i) d = Some d1"
        "d2 = d1\<lparr>ht0 := (ht0 d1)\<lparr>ht_table := (ht_table (ht0 d1))[i := []]\<rparr>, rehashidx := int i + 1\<rparr>"
        "dict_ok T d2" "dictIsRehashing d2" "same_contents d d2" "rehashidx d2 = int i + 1"
        "ht_size (ht0 d2) = ht_size (ht0 d)" "ht_size (ht1 d2) = ht_size (ht1 d)"
        using rehash_bucket [OF Suc.prems s(2) i s(4)] by blast
      obtain d' out' where r: "rehash_loop T n ev' d2 = Some (d', out')" "rehash_rel T d2 d'"
        using Suc.IH [OF d2(3,4), of ev'] by blast
      have "rehash_rel T d d'" "rehashidx d < rehashidx d'" using r(2) d2 s(2) o(1)
        by (auto simp: rehash_rel_def intro: same_contents_trans)
      moreover have "rehash_loop T (Suc n) ev d = Some (d', out')"
        using r(1) s(1) d2(1,2) nout False guard i by (simp add: mem_get_def)
      ultimately show ?thesis using False by auto
    qed
  qed
qed

lemma dictReset_ok: "ht_ok T dictReset" "ht_entries dictReset = []" "ht_used dictReset = 0"
  by (simp_all add: ht_ok_def dictReset_def ht_entries_def)

lemma dictRehash_correct:
  assumes ok: "dict_ok T d"
  shows "\<exists>d' more. dictRehash T cr d n = Some (d', more) \<and> dict_ok T d' \<and> same_contents d d' \<and>
    (dictIsRehashing d' \<longrightarrow> dictIsRehashing d \<and> ht_size (ht0 d') = ht_size (ht0 d)) \<and>
    (more \<longrightarrow> dictIsRehashing d' \<and> (0 < n \<longrightarrow> rehashidx d < rehashidx d'))"
proof (cases "cr = DICT_RESIZE_FORBID \<or> \<not> dictIsRehashing d \<or> cr = DICT_RESIZE_AVOID \<and>
    ((ht_size (ht1 d) > ht_size (ht0 d) \<and> ht_size (ht1 d) div ht_size (ht0 d) < dict_force_resize_ratio) \<or>
     (ht_size (ht1 d) < ht_size (ht0 d) \<and> ht_size (ht0 d) div ht_size (ht1 d) < dict_force_resize_ratio))")
  case True
  then have "dictRehash T cr d n = Some (d, False)" by (auto simp: dictRehash_def Let_def)
  then show ?thesis using ok by auto
next
  case False
  then have re: "dictIsRehashing d" by blast
  obtain d1 out where d1: "rehash_loop T n (word_of_nat n * 10) d = Some (d1, out)" "rehash_rel T d d1"
    "if 0 < n \<and> ht_used (ht0 d) \<noteq> 0 then rehashidx d < rehashidx d1 else d1 = d \<and> \<not> out"
    using rehash_loop_correct [OF ok re] by blast
  have eq: "dictRehash T cr d n = (if out then Some (d1, True)
      else if ht_used (ht0 d1) = 0 then Some (d1\<lparr>ht0 := ht1 d1, ht1 := dictReset, rehashidx := -1\<rparr>, False)
      else Some (d1, True))"
    using False d1(1) by (auto simp: dictRehash_def Let_def)
  show ?thesis
  proof (cases "\<not> out \<and> ht_used (ht0 d1) = 0")
    case True
    let ?d = "d1\<lparr>ht0 := ht1 d1, ht1 := dictReset, rehashidx := -1\<rparr>"
    have o: "dict_ok T d1" using d1(2) by (simp add: rehash_rel_def)
    have "ht_entries (ht0 d1) = []" using o True ht_used_entries [of T "ht0 d1"] by (simp add: dict_ok_def)
    then have m: "mset (entries ?d) = mset (entries d1)" by (simp add: entries_def dictReset_ok)
    have "dict_ok T ?d" using o m unfolding dict_ok_def
      by (simp add: dictReset_ok rehash_ok_def dictIsRehashing_def)
    moreover have "same_contents d ?d" using d1(2) m by (simp add: rehash_rel_def same_contents_def)
    ultimately show ?thesis using True eq by (intro exI [of _ ?d] exI [of _ False]) (simp add: dictIsRehashing_def)
  next
    case False
    then have "dictRehash T cr d n = Some (d1, True)" using eq by auto
    moreover have "0 < n \<longrightarrow> rehashidx d < rehashidx d1" using d1(3) False by (auto split: if_splits)
    ultimately show ?thesis using d1(2) re by (intro exI [of _ d1] exI [of _ True]) (simp add: rehash_rel_def)
  qed
qed

lemma dictRehashStep_correct:
  assumes "dict_ok T d"
  shows "\<exists>d'. dictRehashStep T cr d = Some d' \<and> dict_ok T d' \<and> same_contents d d' \<and>
    (dictIsRehashing d' \<longrightarrow> dictIsRehashing d)"
  using dictRehash_correct [OF assms, of cr 1] assms by (auto simp: dictRehashStep_def)

text \<open>The rehashing step most operations begin with.\<close>

lemma step_if_rehashing:
  assumes "dict_ok T d"
  shows "\<exists>d'. (if dictIsRehashing d then dictRehashStep T cr d else Some d) = Some d' \<and> dict_ok T d' \<and> same_contents d d' \<and>
    (dictIsRehashing d' \<longrightarrow> dictIsRehashing d)"
  using dictRehashStep_correct [OF assms, of cr] assms by (cases "dictIsRehashing d") auto

text \<open>Every round of \<^verbatim>\<open>dictRehashMilliseconds\<close> that is not the last moves the rehash index, so the loop
  ends even if the clock stands still.\<close>

lemma rehash_ms_loop_terminates:
  assumes "dict_ok T d"
  shows "\<exists>d' r. rehash_ms_loop T cr clock start ms i rehashes d = Some (d', r) \<and> dict_ok T d' \<and> same_contents d d'"
  using assms
proof (induction "nat (int (ht_size (ht0 d)) - rehashidx d)" arbitrary: d i rehashes rule: less_induct)
  case less
  obtain d1 more where d1: "dictRehash T cr d 100 = Some (d1, more)" "dict_ok T d1" "same_contents d d1"
    "dictIsRehashing d1 \<longrightarrow> ht_size (ht0 d1) = ht_size (ht0 d)" "more \<longrightarrow> dictIsRehashing d1 \<and> rehashidx d < rehashidx d1"
    using dictRehash_correct [OF less.prems, of cr 100] by auto
  show ?case
  proof (cases "more \<and> \<not> clock i - start > ms")
    case True
    have "rehashidx d1 \<le> int (ht_size (ht0 d1))" using d1(2,5) True by (simp add: dict_ok_def rehash_ok_def)
    then have "nat (int (ht_size (ht0 d1)) - rehashidx d1) < nat (int (ht_size (ht0 d)) - rehashidx d)"
      using d1(4,5) True by auto
    from less.hyps [OF this d1(2), of "i + 1" "rehashes + 100"] obtain d' r where
      "rehash_ms_loop T cr clock start ms (i + 1) (rehashes + 100) d1 = Some (d', r)" "dict_ok T d'" "same_contents d1 d'"
      by blast
    then show ?thesis using d1(1,3) True same_contents_trans [of d d1 d'] by (subst rehash_ms_loop.simps) simp
  next
    case False
    then show ?thesis using d1 by (subst rehash_ms_loop.simps) auto
  qed
qed

section \<open>Expansion\<close>

lemma next_power_loop_power:
  "\<exists>m. next_power_loop (2 ^ k) sz = 2 ^ m \<and> k \<le> m \<and> sz \<le> 2 ^ m \<and> (\<forall>j. k \<le> j \<and> sz \<le> 2 ^ j \<longrightarrow> m \<le> j)"
proof (induction "sz - 2 ^ k" arbitrary: k rule: less_induct)
  case less
  show ?case
  proof (cases "2 ^ k \<ge> sz")
    case True
    then show ?thesis by (subst next_power_loop.simps) auto
  next
    case False
    then have "sz - 2 ^ Suc k < sz - 2 ^ k" by (intro diff_less_mono2) simp_all
    from less [OF this] obtain m where m: "next_power_loop (2 ^ Suc k) sz = 2 ^ m" "Suc k \<le> m" "sz \<le> 2 ^ m"
      "\<forall>j. Suc k \<le> j \<and> sz \<le> 2 ^ j \<longrightarrow> m \<le> j" by blast
    have "next_power_loop (2 ^ k) sz = 2 ^ m" using False m(1) by (subst next_power_loop.simps) (simp add: mult.commute)
    moreover have "m \<le> j" if "k \<le> j" "sz \<le> 2 ^ j" for j
      using m(4) that False by (cases "k = j") auto
    ultimately show ?thesis using m by (intro exI [of _ m]) auto
  qed
qed

lemma dictNextPower_power: "\<exists>m. dictNextPower sz = 2 ^ m \<and> 2 \<le> m"
proof (cases "sz \<ge> 2 ^ 63 - 1")
  case True
  then show ?thesis by (auto simp: dictNextPower_def intro!: exI [of _ 63])
next
  case False
  then show ?thesis using next_power_loop_power [of 2 sz] by (auto simp: dictNextPower_def DICT_HT_INITIAL_SIZE_def)
qed

lemma mask_u64: "(word_of_nat (2 ^ n) :: u64) - 1 = mask n"
  by (simp add: mask_eq_exp_minus_1)

lemma power_size_bound:
  assumes "\<not> 2 ^ m * 8 mod 2 ^ 64 < (2 :: nat) ^ m"
  shows "m \<le> 60"
proof (rule ccontr)
  assume "\<not> m \<le> 60"
  then obtain j where "m = 61 + j" using nat_le_iff_add [of 61 m] by auto
  then have "(2::nat) ^ m * 8 = 2 ^ j * 2 ^ 64" by (simp add: power_add)
  then have "(2::nat) ^ m * 8 mod 2 ^ 64 = 0" by simp
  with assms show False by simp
qed

lemma ht_new_ok:
  assumes "2 \<le> m" "m \<le> 60"
  shows "ht_ok T \<lparr>ht_table = replicate (2 ^ m) [], ht_size = 2 ^ m, ht_sizemask = word_of_nat (2 ^ m) - 1, ht_used = 0\<rparr>"
    (is "ht_ok T ?h")
proof -
  have "concat (replicate k []) = []" for k by (induction k) auto
  then show ?thesis using assms by (auto simp: ht_ok_def mask_eq_exp_minus_1)
qed

lemma entries_new: "ht_entries \<lparr>ht_table = replicate k [], ht_size = s, ht_sizemask = w, ht_used = u\<rparr> = []"
  by (auto simp: ht_entries_def)

lemma ht_ok_table_Nil: "ht_ok T h \<Longrightarrow> ht_table h = [] \<longleftrightarrow> ht_size h = 0"
  by (auto simp: ht_ok_def)

lemma dictExpand_gen_correct:
  assumes ok: "dict_ok T d"
  shows "\<exists>d' st f. dictExpand_gen d sz malloc = (d', st, f) \<and> dict_ok T d' \<and> same_contents d d' \<and>
    (st = DICT_ERR \<longrightarrow> d' = d) \<and> (st = DICT_OK \<longrightarrow> ht_size (ht0 d') \<noteq> 0)"
proof -
  define r where "r = dictNextPower sz"
  define n :: "('a, 'b) dictht" where
    "n = \<lparr>ht_table = replicate r [], ht_size = r, ht_sizemask = word_of_nat r - 1, ht_used = 0\<rparr>"
  obtain m where m: "r = 2 ^ m" "2 \<le> m" using dictNextPower_power [of sz] by (auto simp: r_def)
  show ?thesis
  proof (cases "dictIsRehashing d \<or> ht_used (ht0 d) > sz \<or> r < sz \<or> r * 8 mod 2 ^ 64 < r \<or> r = ht_size (ht0 d) \<or> malloc = Some True")
    case True
    then have "\<exists>f. dictExpand_gen d sz malloc = (d, DICT_ERR, f)"
      by (auto simp: dictExpand_gen_def r_def [symmetric] Let_def)
    then show ?thesis using ok by auto
  next
    case False
    have nok: "ht_ok T n" using power_size_bound [of m] ht_new_ok [of m T] m False by (simp add: n_def)
    have o: "ht_ok T (ht0 d)" "ht1 d = dictReset" "distinct_keys T (mset (entries d))" "rehashidx d = -1"
      using ok False by (simp_all add: dict_ok_def rehash_ok_def dictIsRehashing_def)
    have ne: "ht_entries n = []" "ht_size n \<noteq> 0" using m by (simp_all add: n_def entries_new)
    show ?thesis
    proof (cases "ht_table (ht0 d) = []")
      case True
      let ?d = "d\<lparr>ht0 := n\<rparr>"
      have e: "entries ?d = entries d" using True ne(1) by (simp add: entries_def ht_entries_def)
      have "dict_ok T ?d" using nok o e by (simp add: dict_ok_def rehash_ok_def dictIsRehashing_def dictReset_ok)
      moreover have "dictExpand_gen d sz malloc = (?d, DICT_OK, False)"
        using False True by (simp add: dictExpand_gen_def r_def [symmetric] n_def [symmetric] Let_def)
      ultimately show ?thesis using e ne(2) by (auto simp: same_contents_def)
    next
      case nonempty: False
      let ?d = "d\<lparr>ht1 := n, rehashidx := 0\<rparr>"
      have e: "entries ?d = entries d" using o(2) ne(1) by (simp add: entries_def dictReset_ok)
      have "ht_size (ht0 d) \<noteq> 0" using nonempty ht_ok_table_Nil [OF o(1)] by simp
      moreover from this have "dict_ok T ?d" using nok o e ne(2) by (simp add: dict_ok_def rehash_ok_def dictIsRehashing_def)
      moreover have "dictExpand_gen d sz malloc = (?d, DICT_OK, False)"
        using False nonempty by (simp add: dictExpand_gen_def r_def [symmetric] n_def [symmetric] Let_def)
      ultimately show ?thesis using e by (auto simp: same_contents_def)
    qed
  qed
qed


lemma dictNextPower_bounds:
  assumes "sz \<le> 2 ^ 60"
  shows "\<exists>m\<le>60. dictNextPower sz = 2 ^ m \<and> sz \<le> 2 ^ m"
proof -
  obtain m where "next_power_loop (2 ^ 2) sz = 2 ^ m" "sz \<le> 2 ^ m" "m \<le> 60"
    using next_power_loop_power [of 2 sz] assms by fastforce
  then show ?thesis using assms by (auto simp: dictNextPower_def DICT_HT_INITIAL_SIZE_def)
qed

lemma dictExpand_succeeds:
  assumes "\<not> dictIsRehashing d" "ht_used (ht0 d) \<le> sz" "sz \<le> 2 ^ 60" "ht_size (ht0 d) < sz"
  shows "snd (dictExpand d sz) = DICT_OK"
proof -
  obtain m where m: "m \<le> 60" "dictNextPower sz = 2 ^ m" "sz \<le> 2 ^ m" using dictNextPower_bounds [OF assms(3)] by blast
  have "(2::nat) ^ m * 8 \<le> 2 ^ 60 * 8" using m(1) by (intro mult_le_mono1 power_increasing) simp_all
  then have "(2::nat) ^ m * 8 mod 2 ^ 64 = 2 ^ m * 8" by simp
  then show ?thesis using assms m(2,3) by (simp add: dictExpand_def dictExpand_gen_def Let_def)
qed

lemma dictExpand_correct:
  assumes "dict_ok T d" "dictExpand d sz = (d', st)"
  shows "dict_ok T d'" "same_contents d d'" "st = DICT_OK \<Longrightarrow> ht_size (ht0 d') \<noteq> 0"
  using dictExpand_gen_correct [OF assms(1), of sz None] assms(2) by (auto simp: dictExpand_def)

lemma dictExpandIfNeeded_correct:
  assumes ok: "dict_ok T d" and n: "ht_used (ht0 d) < 2 ^ 60"
  shows "\<exists>d'. dictExpandIfNeeded T cr d = (d', DICT_OK) \<and> dict_ok T d' \<and> same_contents d d' \<and> ht_size (ht0 d') \<noteq> 0"
proof -
  let ?u = "ht_used (ht0 d)" and ?s = "ht_size (ht0 d)"
  have expand: "\<exists>d'. dictExpand d sz = (d', DICT_OK) \<and> dict_ok T d' \<and> same_contents d d' \<and> ht_size (ht0 d') \<noteq> 0"
    if "\<not> dictIsRehashing d" "?u \<le> sz" "sz \<le> 2 ^ 60" "?s < sz" for sz
    using dictExpand_succeeds [OF that] dictExpand_correct [OF ok, of sz] by (cases "dictExpand d sz") auto
  consider "dictIsRehashing d" | "\<not> dictIsRehashing d" "?s = 0"
    | "\<not> dictIsRehashing d" "?s \<noteq> 0" "dictTypeExpandAllowed T d \<and>
        ((cr = DICT_RESIZE_ENABLE \<and> ?u \<ge> ?s) \<or> (cr \<noteq> DICT_RESIZE_FORBID \<and> ?u div ?s > dict_force_resize_ratio))"
    | "\<not> dictIsRehashing d" "?s \<noteq> 0" "\<not> (dictTypeExpandAllowed T d \<and>
        ((cr = DICT_RESIZE_ENABLE \<and> ?u \<ge> ?s) \<or> (cr \<noteq> DICT_RESIZE_FORBID \<and> ?u div ?s > dict_force_resize_ratio)))"
    by blast
  then show ?thesis
  proof cases
    case 1
    then show ?thesis using ok by (simp add: dictExpandIfNeeded_def Let_def dict_ok_def rehash_ok_def)
  next
    case 2
    then have "?u = 0" using ok by (simp add: dict_ok_def ht_ok_def)
    then show ?thesis using 2 expand [of DICT_HT_INITIAL_SIZE]
      by (simp add: dictExpandIfNeeded_def Let_def DICT_HT_INITIAL_SIZE_def)
  next
    case 3
    have "?s \<le> ?u" using 3(3) by (auto simp: dict_force_resize_ratio_def intro!: leI dest: div_less)
    then show ?thesis using 3 expand [of "?u + 1"] n by (simp add: dictExpandIfNeeded_def Let_def)
  next
    case 4
    then have "dictExpandIfNeeded T cr d = (d, DICT_OK)" by (auto simp: dictExpandIfNeeded_def Let_def)
    then show ?thesis using 4 ok by simp
  qed
qed

section \<open>Lookup\<close>

lemma dict_ok_size: "dict_ok T d \<Longrightarrow> dictSize d = length (entries d)"
  using ht_used_entries [of T "ht0 d"] ht_used_entries [of T "ht1 d"] by (simp add: dict_ok_def dictSize_def entries_def)

lemma nonempty_size: "dict_ok T d \<Longrightarrow> entries d \<noteq> [] \<Longrightarrow> ht_size (ht0 d) \<noteq> 0"
  by (auto simp: dict_ok_def rehash_ok_def entries_def ht_entries_def ht_ok_def dictReset_def split: if_splits)

text \<open>Searching the two buckets is searching all entries.\<close>

lemma two_table_find:
  assumes T: "dictType_ok T" and ok: "dict_ok T d" and sz: "ht_size (ht0 d) \<noteq> 0"
  shows "chain_find T key (entries d) =
    (case chain_find T key (ht_table (ht0 d) ! hash_index T (ht0 d) key) of
       Some he \<Rightarrow> Some he
     | None \<Rightarrow> if \<not> dictIsRehashing d then None
               else chain_find T key (ht_table (ht1 d) ! hash_index T (ht1 d) key))"
proof -
  have o: "ht_ok T (ht0 d)" "ht_ok T (ht1 d)" "dictIsRehashing d \<longrightarrow> ht_size (ht1 d) \<noteq> 0" "\<not> dictIsRehashing d \<longrightarrow> ht1 d = dictReset"
    using ok by (auto simp: dict_ok_def rehash_ok_def)
  then show ?thesis using bucket_find(2) [OF T o(1) sz, of key] bucket_find(2) [OF T o(2), of key]
    by (cases "dictIsRehashing d") (auto simp: entries_def chain_find_append dictReset_ok split: option.split)
qed

lemma dict_bucket_get:
  assumes "dictType_ok T" "dict_ok T d" "ht_size (ht0 d) \<noteq> 0"
  shows "mem_get (ht_table (ht0 d)) (hash_index T (ht0 d) key) = Some (ht_table (ht0 d) ! hash_index T (ht0 d) key)"
    "dictIsRehashing d \<Longrightarrow>
      mem_get (ht_table (ht1 d)) (hash_index T (ht1 d) key) = Some (ht_table (ht1 d) ! hash_index T (ht1 d) key)"
  using assms bucket_find(1) [of T "ht0 d" key] bucket_find(1) [of T "ht1 d" key]
  by (auto simp: dict_ok_def rehash_ok_def)

lemma same_contents_find:
  assumes "dict_ok T d" "same_contents d d'"
  shows "chain_find T key (entries d') = chain_find T key (entries d)"
proof -
  have "distinct_keys T (mset (entries d))" "mset (entries d) = mset (entries d')"
    using assms by (simp_all add: same_contents_def dict_ok_def)
  then show ?thesis by (rule chain_find_mset [symmetric])
qed

lemma same_contents_Nil: "same_contents d d' \<Longrightarrow> entries d' = [] \<longleftrightarrow> entries d = []"
  by (auto simp: same_contents_def)

lemma dictFind_correct:
  assumes T: "dictType_ok T" and ok: "dict_ok T d"
  shows "\<exists>d'. dictFind T cr d key = Some (d', chain_find T key (entries d)) \<and> dict_ok T d' \<and> same_contents d d'"
proof (cases "dictSize d = 0")
  case True
  then have "entries d = []" using dict_ok_size [OF ok] by simp
  then show ?thesis using True ok by (simp add: dictFind_def)
next
  case False
  obtain d1 where d1: "(if dictIsRehashing d then dictRehashStep T cr d else Some d) = Some d1" "dict_ok T d1" "same_contents d d1"
    using step_if_rehashing [OF ok] by blast
  have "entries d \<noteq> []" using False dict_ok_size [OF ok] by auto
  then have sz: "ht_size (ht0 d1) \<noteq> 0" using nonempty_size [OF d1(2)] same_contents_Nil [OF d1(3)] by simp
  have "dictFind T cr d key = Some (d1, chain_find T key (entries d1))"
    using False d1(1) dict_bucket_get [OF T d1(2) sz, of key] unfolding dictFind_def two_table_find [OF T d1(2) sz]
    by (auto split: option.split)
  then show ?thesis using d1 same_contents_find [OF ok d1(3)] by simp
qed

section \<open>Insertion\<close>

lemma dictKeyIndex_correct:
  assumes T: "dictType_ok T" and ok: "dict_ok T d" and n: "ht_used (ht0 d) < 2 ^ 60"
  shows "\<exists>d'. dict_ok T d' \<and> same_contents d d' \<and> ht_size (ht0 d') \<noteq> 0 \<and>
    dictKeyIndex T cr d key = Some (d', case chain_find T key (entries d) of
        Some e \<Rightarrow> Inl (Some e)
      | None \<Rightarrow> Inr (hash_index T (if dictIsRehashing d' then ht1 d' else ht0 d') key))"
proof -
  obtain d1 where d1: "dictExpandIfNeeded T cr d = (d1, DICT_OK)" "dict_ok T d1" "same_contents d d1" "ht_size (ht0 d1) \<noteq> 0"
    using dictExpandIfNeeded_correct [OF ok n] by blast
  have "dictKeyIndex T cr d key = Some (d1, case chain_find T key (entries d1) of
      Some e \<Rightarrow> Inl (Some e) | None \<Rightarrow> Inr (hash_index T (if dictIsRehashing d1 then ht1 d1 else ht0 d1) key))"
    using d1(1) dict_bucket_get [OF T d1(2,4), of key] unfolding dictKeyIndex_def two_table_find [OF T d1(2,4)]
    by (auto split: option.split)
  then show ?thesis using d1 same_contents_find [OF ok d1(3)] by simp
qed

lemma distinct_keys_add:
  assumes T: "dictType_ok T" and "distinct_keys T M" "\<forall>e\<in>#M. \<not> keyEq T key (fst e)"
  shows "distinct_keys T (add_mset (key, val) M)"
  unfolding distinct_keys_def
proof
  fix k
  show "size {#e \<in># add_mset (key, val) M. keyEq T k (fst e)#} \<le> 1"
  proof (cases "keyEq T k key")
    case True
    have "{#e \<in># M. keyEq T k (fst e)#} = {#e \<in># M. False#}"
      by (rule filter_mset_cong) (use assms(3) keyEq_cong [OF T True] in auto)
    then show ?thesis using True by simp
  next
    case False
    then show ?thesis using assms(2) by (simp add: distinct_keys_def)
  qed
qed

lemma insert_entry_push:
  assumes "ht_ok T h" "ht_size h \<noteq> 0"
  shows "\<exists>h'. insert_entry (hash_index T h key) key val h = Some h' \<and> ht_ok T h' \<and> ht_size h' = ht_size h \<and>
    mset (ht_entries h') = add_mset (key, val) (mset (ht_entries h))"
  using ht_push [OF assms, of "(key, val)"] hash_index_less [OF assms, of key]
  by (auto simp: insert_entry_def mem_get_def)

lemma dictAddRaw_correct:
  assumes T: "dictType_ok T" and ok: "dict_ok T d" and n: "dictSize d < 2 ^ 60"
  shows "\<exists>d' r. dictAddRaw T cr d key val = Some (d', r) \<and> dict_ok T d' \<and> pauserehash d' = pauserehash d \<and>
    (case chain_find T key (entries d) of
       Some e \<Rightarrow> r = Inl (Some e) \<and> mset (entries d') = mset (entries d) \<and> ht_size (ht0 d') \<noteq> 0
     | None \<Rightarrow> r = Inr () \<and> mset (entries d') = add_mset (key, val) (mset (entries d)))"
proof -
  obtain d1 where d1: "(if dictIsRehashing d then dictRehashStep T cr d else Some d) = Some d1" "dict_ok T d1" "same_contents d d1"
    using step_if_rehashing [OF ok] by blast
  have "dictSize d1 = dictSize d"
    using dict_ok_size [OF ok] dict_ok_size [OF d1(2)] d1(3) mset_eq_length [of "entries d1" "entries d"] by (simp add: same_contents_def)
  then have "ht_used (ht0 d1) < 2 ^ 60" using n by (simp add: dictSize_def)
  from dictKeyIndex_correct [OF T d1(2) this, of cr key] obtain d2 where
    d2: "dict_ok T d2" "same_contents d1 d2" "ht_size (ht0 d2) \<noteq> 0"
      "dictKeyIndex T cr d1 key = Some (d2, case chain_find T key (entries d1) of
        Some e \<Rightarrow> Inl (Some e) | None \<Rightarrow> Inr (hash_index T (if dictIsRehashing d2 then ht1 d2 else ht0 d2) key))" by blast
  have sc: "same_contents d d2" by (rule same_contents_trans [OF d1(3) d2(2)])
  have find: "chain_find T key (entries d1) = chain_find T key (entries d)" by (rule same_contents_find [OF ok d1(3)])
  show ?thesis
  proof (cases "chain_find T key (entries d)")
    case (Some e)
    then show ?thesis using d1(1) d2 find sc by (simp add: dictAddRaw_def same_contents_def)
  next
    case None
    have ne: "\<forall>e\<in>#mset (entries d2). \<not> keyEq T key (fst e)"
    proof -
      have "chain_find T key (entries d2) = None" using None same_contents_find [OF ok sc, of key] by simp
      then show ?thesis by (simp add: chain_find_None)
    qed
    have dk: "distinct_keys T (add_mset (key, val) (mset (entries d2)))"
      using d2(1) by (intro distinct_keys_add [OF T _ ne]) (simp add: dict_ok_def)
    have o: "ht_ok T (ht0 d2)" "ht_ok T (ht1 d2)" "rehash_ok d2" using d2(1) by (simp_all add: dict_ok_def)
    show ?thesis
    proof (cases "dictIsRehashing d2")
      case True
      then have "ht_size (ht1 d2) \<noteq> 0" using o(3) by (simp add: rehash_ok_def)
      from insert_entry_push [OF o(2) this, of key val] obtain h where
        h: "insert_entry (hash_index T (ht1 d2) key) key val (ht1 d2) = Some h" "ht_ok T h" "ht_size h = ht_size (ht1 d2)"
          "mset (ht_entries h) = add_mset (key, val) (mset (ht_entries (ht1 d2)))" by blast
      have e: "mset (entries (d2\<lparr>ht1 := h\<rparr>)) = add_mset (key, val) (mset (entries d2))" using h(4) by (simp add: entries_def)
      have "dict_ok T (d2\<lparr>ht1 := h\<rparr>)" using o h True dk e by (simp add: dict_ok_def rehash_ok_def dictIsRehashing_def)
      then show ?thesis using d1(1) d2 find None True h(1) e sc by (simp add: dictAddRaw_def same_contents_def)
    next
      case False
      from insert_entry_push [OF o(1) d2(3), of key val] obtain h where
        h: "insert_entry (hash_index T (ht0 d2) key) key val (ht0 d2) = Some h" "ht_ok T h" "ht_size h = ht_size (ht0 d2)"
          "mset (ht_entries h) = add_mset (key, val) (mset (ht_entries (ht0 d2)))" by blast
      have e: "mset (entries (d2\<lparr>ht0 := h\<rparr>)) = add_mset (key, val) (mset (entries d2))" using h(4) by (simp add: entries_def)
      have "dict_ok T (d2\<lparr>ht0 := h\<rparr>)" using o h False dk e by (simp add: dict_ok_def rehash_ok_def dictIsRehashing_def)
      then show ?thesis using d1(1) d2 find None False h(1) e sc by (simp add: dictAddRaw_def same_contents_def)
    qed
  qed
qed

section \<open>Removal\<close>

lemma mset_chain_remove: "chain_find T key b = Some e \<Longrightarrow> mset b = add_mset e (mset (chain_remove T key b))"
  by (induction b) (auto split: if_splits)

lemma set_chain_remove: "set (chain_remove T key b) \<subseteq> set b"
  by (induction b) auto

lemma distinct_keys_sub: "distinct_keys T (M + N) \<Longrightarrow> distinct_keys T M"
  unfolding distinct_keys_def by (metis add_leD1 filter_union_mset size_union)

lemma ht_delete_correct:
  assumes T: "dictType_ok T" and ok: "ht_ok T h" "ht_size h \<noteq> 0"
  shows "\<exists>h'. ht_delete T key h = Some (h', chain_find T key (ht_entries h)) \<and> ht_ok T h' \<and> ht_size h' = ht_size h \<and>
    (case chain_find T key (ht_entries h) of
       None \<Rightarrow> h' = h
     | Some e \<Rightarrow> mset (ht_entries h) = add_mset e (mset (ht_entries h')) \<and> h' = ht_put (hash_index T h key) (chain_remove T key (ht_table h ! hash_index T h key)) h)"
proof -
  define i where "i = hash_index T h key"
  define b where "b = ht_table h ! i"
  have g: "mem_get (ht_table h) i = Some b" "chain_find T key b = chain_find T key (ht_entries h)"
    using bucket_find [OF T ok, of key] by (simp_all add: i_def b_def)
  show ?thesis
  proof (cases "chain_find T key b")
    case None
    then show ?thesis using g ok by (simp add: ht_delete_def Let_def i_def [symmetric])
  next
    case (Some e)
    have i: "i < ht_size h" using hash_index_less [OF ok] by (simp add: i_def)
    have "\<forall>e\<in>set b. hash_index T h (fst e) = i" using ok(1) i by (auto simp: ht_ok_def b_def)
    then have "\<forall>e\<in>set (chain_remove T key b). hash_index T h (fst e) = i" using set_chain_remove [of T key b] by auto
    note p = ht_ok_put [OF ok(1) i this] and u = ht_used_put [OF ok(1) i, of "chain_remove T key b"]
    note m = mset_chain_remove [OF Some]
    have lb: "length b = Suc (length (chain_remove T key b))" using arg_cong [OF m, of size] by simp
    let ?h = "h\<lparr>ht_table := (ht_table h)[i := chain_remove T key b], ht_used := ht_used h - 1\<rparr>"
    have e: "?h = ht_put i (chain_remove T key b) h" using u lb by (simp add: ht_put_def b_def)
    have "mset (ht_entries h) = add_mset e (mset (ht_entries ?h))"
      using p(2) m unfolding e b_def [symmetric] by simp
    moreover have f: "chain_find T key (ht_entries h) = Some e" using g(2) Some by simp
    moreover have "ht_delete T key h = Some (?h, Some e)" using g(1) Some by (simp add: ht_delete_def Let_def i_def [symmetric])
    ultimately show ?thesis using p(1) unfolding e f i_def [symmetric] b_def [symmetric] by simp
  qed
qed

lemma dictGenericDelete_correct:
  assumes T: "dictType_ok T" and ok: "dict_ok T d"
  shows "\<exists>d'. dictGenericDelete T cr d key = Some (d', chain_find T key (entries d)) \<and> dict_ok T d' \<and> pauserehash d' = pauserehash d \<and>
    (case chain_find T key (entries d) of
       None \<Rightarrow> mset (entries d') = mset (entries d)
     | Some e \<Rightarrow> mset (entries d) = add_mset e (mset (entries d')))"
proof (cases "dictSize d = 0")
  case True
  then have "entries d = []" using dict_ok_size [OF ok] by simp
  then show ?thesis using True ok by (simp add: dictGenericDelete_def dictSize_def)
next
  case False
  obtain d1 where d1: "(if dictIsRehashing d then dictRehashStep T cr d else Some d) = Some d1" "dict_ok T d1" "same_contents d d1"
    using step_if_rehashing [OF ok] by blast
  have "entries d \<noteq> []" using False dict_ok_size [OF ok] by auto
  then have sz: "ht_size (ht0 d1) \<noteq> 0" using nonempty_size [OF d1(2)] same_contents_Nil [OF d1(3)] by simp
  have o: "ht_ok T (ht0 d1)" "ht_ok T (ht1 d1)" "rehash_ok d1" "distinct_keys T (mset (entries d1))"
    using d1(2) by (simp_all add: dict_ok_def)
  have find: "chain_find T key (entries d) = chain_find T key (entries d1)" using same_contents_find [OF ok d1(3)] by simp
  have m1: "mset (entries d) = mset (entries d1)" "pauserehash d = pauserehash d1" using d1(3) by (simp_all add: same_contents_def)
  have eq: "dictGenericDelete T cr d key = do {
      (h, r) \<leftarrow> ht_delete T key (ht0 d1);
      if r \<noteq> None then Some (d1\<lparr>ht0 := h\<rparr>, r)
      else if \<not> dictIsRehashing d1 then Some (d1, None)
      else do { (h, r) \<leftarrow> ht_delete T key (ht1 d1); Some (d1\<lparr>ht1 := h\<rparr>, r) } }"
    using False d1(1) by (auto simp: dictGenericDelete_def dictSize_def)
  obtain h where h: "ht_delete T key (ht0 d1) = Some (h, chain_find T key (ht_entries (ht0 d1)))" "ht_ok T h" "ht_size h = ht_size (ht0 d1)"
    "case chain_find T key (ht_entries (ht0 d1)) of None \<Rightarrow> h = ht0 d1
     | Some e \<Rightarrow> mset (ht_entries (ht0 d1)) = add_mset e (mset (ht_entries h)) \<and>
        h = ht_put (hash_index T (ht0 d1) key) (chain_remove T key (ht_table (ht0 d1) ! hash_index T (ht0 d1) key)) (ht0 d1)"
    using ht_delete_correct [OF T o(1) sz] by blast
  show ?thesis
  proof (cases "chain_find T key (ht_entries (ht0 d1))")
    case (Some e)
    let ?d = "d1\<lparr>ht0 := h\<rparr>"
    have m: "mset (entries d1) = add_mset e (mset (entries ?d))" using h(4) Some by (simp add: entries_def)
    have "distinct_keys T (mset (entries ?d))" using o(4) distinct_keys_sub [of T "mset (entries ?d)" "{#e#}"] m by simp
    moreover have "rehash_ok ?d"
    proof -
      have "ht_table h ! j = []" if "ht_table (ht0 d1) ! j = []" for j
        using h(4) Some that hash_index_less(2) [OF o(1) sz, of key] by (cases "j = hash_index T (ht0 d1) key") auto
      then show ?thesis using o(3) h(3) by (auto simp: rehash_ok_def dictIsRehashing_def)
    qed
    ultimately have "dict_ok T ?d" using o h(2) by (simp add: dict_ok_def)
    moreover have "chain_find T key (entries d) = Some e" using find Some by (simp add: entries_def chain_find_append)
    ultimately show ?thesis using eq h(1) Some m m1 by simp
  next
    case None
    show ?thesis
    proof (cases "dictIsRehashing d1")
      case False
      then have "chain_find T key (entries d) = None"
        using find None o(3) by (simp add: entries_def rehash_ok_def dictReset_ok)
      then show ?thesis using eq h(1) None False d1(2) m1 by simp
    next
      case True
      then have "ht_size (ht1 d1) \<noteq> 0" using o(3) by (simp add: rehash_ok_def)
      from ht_delete_correct [OF T o(2) this, of key] obtain h1 where
        h1: "ht_delete T key (ht1 d1) = Some (h1, chain_find T key (ht_entries (ht1 d1)))" "ht_ok T h1" "ht_size h1 = ht_size (ht1 d1)"
          "case chain_find T key (ht_entries (ht1 d1)) of None \<Rightarrow> h1 = ht1 d1
           | Some e \<Rightarrow> mset (ht_entries (ht1 d1)) = add_mset e (mset (ht_entries h1))"
        by (auto split: option.splits)
      let ?d = "d1\<lparr>ht1 := h1\<rparr>"
      have f: "chain_find T key (entries d) = chain_find T key (ht_entries (ht1 d1))"
        using find None by (simp add: entries_def chain_find_append)
      have m: "case chain_find T key (ht_entries (ht1 d1)) of None \<Rightarrow> mset (entries ?d) = mset (entries d1)
        | Some e \<Rightarrow> mset (entries d1) = add_mset e (mset (entries ?d))"
        using h1(4) by (auto simp: entries_def split: option.splits)
      have "distinct_keys T (mset (entries ?d))"
        using m o(4) distinct_keys_sub [of T "mset (entries ?d)" "{#_#}"] by (auto split: option.splits)
      then have "dict_ok T ?d" using o h1(2,3) True by (simp add: dict_ok_def rehash_ok_def dictIsRehashing_def)
      then show ?thesis using eq h(1) None True h1(1) m m1 f by (simp split: option.splits)
    qed
  qed
qed


section \<open>Overwriting\<close>

lemma mset_chain_set:
  "chain_find T key b = Some e \<Longrightarrow> add_mset e (mset (chain_set T key val b)) = add_mset (fst e, val) (mset b)"
  by (induction b) (auto split: if_splits)

lemma chain_set_keys: "map fst (chain_set T key val b) = map fst b"
  by (induction b) auto

lemma ht_set_val_correct:
  assumes T: "dictType_ok T" and ok: "ht_ok T h" "ht_size h \<noteq> 0" and f: "chain_find T key (ht_entries h) = Some e"
  shows "\<exists>h'. ht_set_val T key val h = Some h' \<and> ht_ok T h' \<and> ht_size h' = ht_size h \<and>
    add_mset e (mset (ht_entries h')) = add_mset (fst e, val) (mset (ht_entries h)) \<and>
    (\<forall>j. ht_table h ! j = [] \<longrightarrow> ht_table h' ! j = [])"
proof -
  define i where "i = hash_index T h key"
  define b where "b = ht_table h ! i"
  have g: "mem_get (ht_table h) i = Some b" "chain_find T key b = Some e"
    using bucket_find [OF T ok, of key] f by (simp_all add: i_def b_def)
  have i: "i < ht_size h" "i < length (ht_table h)" using hash_index_less [OF ok] by (simp_all add: i_def)
  have "\<forall>k\<in>fst ` set b. hash_index T h k = i" using ok(1) i by (auto simp: ht_ok_def b_def)
  moreover have "fst ` set (chain_set T key val b) = fst ` set b"
    using arg_cong [OF chain_set_keys [of T key val b], of set] by simp
  ultimately have "\<forall>e\<in>set (chain_set T key val b). hash_index T h (fst e) = i" by blast
  note p = ht_ok_put [OF ok(1) i(1) this] and u = ht_used_put [OF ok(1) i(1), of "chain_set T key val b"]
  have lb: "length (chain_set T key val b) = length b" using arg_cong [OF chain_set_keys [of T key val b], of length] by simp
  let ?h = "h\<lparr>ht_table := (ht_table h)[i := chain_set T key val b]\<rparr>"
  have e: "?h = ht_put i (chain_set T key val b) h" using u lb by (simp add: ht_put_def b_def)
  have "add_mset e (mset (ht_entries ?h)) + mset b = add_mset (fst e, val) (mset (ht_entries h)) + mset b"
    using p(2) mset_chain_set [OF g(2), of val] unfolding e b_def [symmetric] by (simp add: ac_simps)
  then have "add_mset e (mset (ht_entries ?h)) = add_mset (fst e, val) (mset (ht_entries h))" by simp
  moreover have "ht_set_val T key val h = Some ?h" using g(1) by (simp add: ht_set_val_def Let_def i_def [symmetric])
  moreover have "ht_table ?h ! j = []" if "ht_table h ! j = []" for j
    using that i(2) by (cases "j = i") (auto simp: b_def)
  ultimately show ?thesis using p(1) e by auto
qed

lemma distinct_keys_replace:
  assumes "distinct_keys T M" "add_mset e N = add_mset (fst e, val) M" "e \<in># M"
  shows "distinct_keys T N"
proof -
  obtain K where K: "M = add_mset e K" using assms(3) by (meson multi_member_split)
  then have N: "N = add_mset (fst e, val) K" using assms(2) by (simp add: add_mset_commute)
  have "size {#e \<in># N. keyEq T k (fst e)#} = size {#e \<in># M. keyEq T k (fst e)#}" for k
    unfolding N K by (cases "keyEq T k (fst e)") simp_all
  then show ?thesis using assms(1) by (simp add: distinct_keys_def)
qed

lemma entry_set_val_correct:
  assumes T: "dictType_ok T" and ok: "dict_ok T d" and f: "chain_find T key (entries d) = Some e" and sz: "ht_size (ht0 d) \<noteq> 0"
  shows "\<exists>d'. entry_set_val T key val d = Some d' \<and> dict_ok T d' \<and> pauserehash d' = pauserehash d \<and>
    add_mset e (mset (entries d')) = add_mset (fst e, val) (mset (entries d))"
proof -
  have o: "ht_ok T (ht0 d)" "ht_ok T (ht1 d)" "rehash_ok d" "distinct_keys T (mset (entries d))" using ok by (simp_all add: dict_ok_def)
  have em: "e \<in># mset (entries d)" using chain_find_Some [OF f] by simp
  note b = bucket_find [OF T o(1) sz, of key]
  show ?thesis
  proof (cases "chain_find T key (ht_entries (ht0 d))")
    case (Some e')
    then have "e' = e" using f by (simp add: entries_def chain_find_append)
    with ht_set_val_correct [OF T o(1) sz, of key e val] Some obtain h where
      h: "ht_set_val T key val (ht0 d) = Some h" "ht_ok T h" "ht_size h = ht_size (ht0 d)"
        "add_mset e (mset (ht_entries h)) = add_mset (fst e, val) (mset (ht_entries (ht0 d)))"
        "\<forall>j. ht_table (ht0 d) ! j = [] \<longrightarrow> ht_table h ! j = []" by auto
    let ?d = "d\<lparr>ht0 := h\<rparr>"
    have m: "add_mset e (mset (entries ?d)) = add_mset (fst e, val) (mset (entries d))"
      using h(4) by (simp add: entries_def flip: union_mset_add_mset_left)
    have "dict_ok T ?d" using o h distinct_keys_replace [OF o(4) m em] by (auto simp: dict_ok_def rehash_ok_def dictIsRehashing_def)
    moreover have "entry_set_val T key val d = Some ?d" using b h(1) Some by (simp add: entry_set_val_def)
    ultimately show ?thesis using m by simp
  next
    case None
    then have f1: "chain_find T key (ht_entries (ht1 d)) = Some e" using f by (simp add: entries_def chain_find_append)
    then have re: "dictIsRehashing d" using o(3) by (auto simp: rehash_ok_def dictReset_ok split: if_splits)
    then have "ht_size (ht1 d) \<noteq> 0" using o(3) by (simp add: rehash_ok_def)
    from ht_set_val_correct [OF T o(2) this f1, of val] obtain h where
      h: "ht_set_val T key val (ht1 d) = Some h" "ht_ok T h" "ht_size h = ht_size (ht1 d)"
        "add_mset e (mset (ht_entries h)) = add_mset (fst e, val) (mset (ht_entries (ht1 d)))" by auto
    let ?d = "d\<lparr>ht1 := h\<rparr>"
    have m: "add_mset e (mset (entries ?d)) = add_mset (fst e, val) (mset (entries d))"
      using h(4) by (simp add: entries_def flip: union_mset_add_mset_right)
    have "dict_ok T ?d" using o h re distinct_keys_replace [OF o(4) m em] by (auto simp: dict_ok_def rehash_ok_def dictIsRehashing_def)
    moreover have "entry_set_val T key val d = Some ?d" using b h(1) None by (simp add: entry_set_val_def)
    ultimately show ?thesis using m by simp
  qed
qed

section \<open>The finite map\<close>

lemma dict_map_Some:
  assumes "distinct_keys T (mset (entries d))"
  shows "dict_map T d k = Some v \<longleftrightarrow> (\<exists>k'. (k', v) \<in># mset (entries d) \<and> keyEq T k k')"
  using chain_find_iff [OF assms, of k] by (auto simp: dict_map_def)

lemma dict_map_add:
  assumes T: "dictType_ok T" and d: "distinct_keys T (mset (entries d))" "distinct_keys T (mset (entries d'))"
    and m: "mset (entries d') = add_mset (key, val) (mset (entries d))"
  shows "dict_map T d' = (\<lambda>k. if keyEq T k key then Some val else dict_map T d k)"
proof
  fix k
  show "dict_map T d' k = (if keyEq T k key then Some val else dict_map T d k)"
  proof (cases "keyEq T k key")
    case True
    then show ?thesis using dict_map_Some [OF d(2), of k val] m by auto
  next
    case False
    then have "dict_map T d' k = Some v \<longleftrightarrow> dict_map T d k = Some v" for v
      using dict_map_Some [OF d(2), of k v] dict_map_Some [OF d(1), of k v] m by auto
    then show ?thesis using False by (metis option.exhaust)
  qed
qed

lemma dict_map_delete:
  assumes T: "dictType_ok T" and d: "distinct_keys T (mset (entries d))" "distinct_keys T (mset (entries d'))"
    and f: "chain_find T key (entries d) = Some e" and m: "mset (entries d) = add_mset e (mset (entries d'))"
  shows "dict_map T d' = (\<lambda>k. if keyEq T k key then None else dict_map T d k)"
proof
  fix k
  have e: "keyEq T key (fst e)" using chain_find_Some [OF f] by simp
  show "dict_map T d' k = (if keyEq T k key then None else dict_map T d k)"
  proof (cases "keyEq T k key")
    case True
    have "\<not> keyEq T k k'" if "(k', v) \<in># mset (entries d')" for k' v
    proof
      assume "keyEq T k k'"
      moreover have "keyEq T k (fst e)" using keyEq_trans [OF T True e] .
      moreover obtain N where N: "mset (entries d') = add_mset (k', v) N" using \<open>(k', v) \<in># mset (entries d')\<close> by (meson multi_member_split)
      ultimately have "2 \<le> size {#x \<in># mset (entries d). keyEq T k (fst x)#}" unfolding m N by simp
      then show False using d(1) by (simp add: distinct_keys_def) (metis not_less_eq_eq numeral_2_eq_2)
    qed
    then have "dict_map T d' k \<noteq> Some v" for v using dict_map_Some [OF d(2), of k v] by auto
    then show ?thesis using True by (metis option.exhaust)
  next
    case False
    then have "\<not> keyEq T k (fst e)" using keyEq_cong [OF T keyEq_sym [OF T e]] keyEq_trans [OF T] keyEq_sym [OF T] e by metis
    then have "dict_map T d' k = Some v \<longleftrightarrow> dict_map T d k = Some v" for v
      using dict_map_Some [OF d(2), of k v] dict_map_Some [OF d(1), of k v] unfolding m by auto
    then show ?thesis using False by (metis option.exhaust)
  qed
qed

lemma dict_map_replace:
  assumes T: "dictType_ok T" and d: "distinct_keys T (mset (entries d))" "distinct_keys T (mset (entries d'))"
    and f: "chain_find T key (entries d) = Some e"
    and m: "add_mset e (mset (entries d')) = add_mset (fst e, val) (mset (entries d))"
  shows "dict_map T d' = (\<lambda>k. if keyEq T k key then Some val else dict_map T d k)"
proof
  fix k
  have e: "keyEq T key (fst e)" "e \<in># mset (entries d)" using chain_find_Some [OF f] by simp_all
  obtain K where K: "mset (entries d) = add_mset e K" using e(2) by (meson multi_member_split)
  then have K': "mset (entries d') = add_mset (fst e, val) K" using m by (simp add: add_mset_commute)
  have ke: "keyEq T k (fst e) \<longleftrightarrow> keyEq T k key" using e(1) keyEq_trans [OF T] keyEq_sym [OF T] by metis
  show "dict_map T d' k = (if keyEq T k key then Some val else dict_map T d k)"
  proof (cases "keyEq T k key")
    case True
    then show ?thesis using dict_map_Some [OF d(2), of k val] K' ke by auto
  next
    case False
    then have "dict_map T d' k = Some v \<longleftrightarrow> dict_map T d k = Some v" for v
      using dict_map_Some [OF d(2), of k v] dict_map_Some [OF d(1), of k v] ke unfolding K K' by auto
    then show ?thesis using False by (metis option.exhaust)
  qed
qed

lemma dict_ok_distinct: "dict_ok T d \<Longrightarrow> distinct_keys T (mset (entries d))"
  by (simp add: dict_ok_def)

lemma dict_map_None: "dict_map T d k = None \<longleftrightarrow> chain_find T k (entries d) = None"
  by (simp add: dict_map_def)

lemma dictAdd_correct:
  assumes T: "dictType_ok T" and ok: "dict_ok T d" and n: "dictSize d < 2 ^ 60"
  shows "\<exists>d'. dictAdd T cr d key val = Some (d', if dict_map T d key = None then DICT_OK else DICT_ERR) \<and> dict_ok T d' \<and>
    dict_map T d' = (if dict_map T d key = None then (\<lambda>k. if keyEq T k key then Some val else dict_map T d k) else dict_map T d)"
proof -
  obtain d' r where r: "dictAddRaw T cr d key val = Some (d', r)" "dict_ok T d'"
    "case chain_find T key (entries d) of Some e \<Rightarrow> r = Inl (Some e) \<and> mset (entries d') = mset (entries d) \<and> ht_size (ht0 d') \<noteq> 0
     | None \<Rightarrow> r = Inr () \<and> mset (entries d') = add_mset (key, val) (mset (entries d))"
    using dictAddRaw_correct [OF assms] by blast
  show ?thesis
  proof (cases "chain_find T key (entries d)")
    case None
    then have "dict_map T d' = (\<lambda>k. if keyEq T k key then Some val else dict_map T d k)"
      using r(3) by (intro dict_map_add [OF T dict_ok_distinct [OF ok] dict_ok_distinct [OF r(2)]]) simp
    then show ?thesis using r None by (simp add: dictAdd_def dict_map_None)
  next
    case (Some e)
    then have "dict_map T d' = dict_map T d" using r(3) by (intro dict_map_mset [OF dict_ok_distinct [OF ok]]) simp
    then show ?thesis using r Some by (simp add: dictAdd_def dict_map_None)
  qed
qed

lemma dictReplace_correct:
  assumes T: "dictType_ok T" and ok: "dict_ok T d" and n: "dictSize d < 2 ^ 60"
  shows "\<exists>d'. dictReplace T cr d key val = Some (d', dict_map T d key = None) \<and> dict_ok T d' \<and>
    dict_map T d' = (\<lambda>k. if keyEq T k key then Some val else dict_map T d k) \<and> dictSize d' \<le> Suc (dictSize d)"
proof -
  obtain d' r where r: "dictAddRaw T cr d key val = Some (d', r)" "dict_ok T d'"
    "case chain_find T key (entries d) of Some e \<Rightarrow> r = Inl (Some e) \<and> mset (entries d') = mset (entries d) \<and> ht_size (ht0 d') \<noteq> 0
     | None \<Rightarrow> r = Inr () \<and> mset (entries d') = add_mset (key, val) (mset (entries d))"
    using dictAddRaw_correct [OF assms] by blast
  show ?thesis
  proof (cases "chain_find T key (entries d)")
    case None
    then have m: "mset (entries d') = add_mset (key, val) (mset (entries d))" using r(3) by simp
    have "dict_map T d' = (\<lambda>k. if keyEq T k key then Some val else dict_map T d k)"
      by (rule dict_map_add [OF T dict_ok_distinct [OF ok] dict_ok_distinct [OF r(2)] m])
    moreover have "dictSize d' = Suc (dictSize d)"
      using arg_cong [OF m, of size] dict_ok_size [OF ok] dict_ok_size [OF r(2)] by simp
    ultimately show ?thesis using r None by (simp add: dictReplace_def dict_map_None)
  next
    case (Some e)
    then have m: "mset (entries d') = mset (entries d)" "ht_size (ht0 d') \<noteq> 0" "r = Inl (Some e)" using r(3) by simp_all
    have f: "chain_find T key (entries d') = Some e"
      using chain_find_mset [OF dict_ok_distinct [OF ok] m(1) [symmetric], of key] Some by simp
    obtain d'' where d'': "entry_set_val T key val d' = Some d''" "dict_ok T d''"
      "add_mset e (mset (entries d'')) = add_mset (fst e, val) (mset (entries d'))"
      using entry_set_val_correct [OF T r(2) f m(2)] by blast
    have dm: "dict_map T d' = dict_map T d" by (rule dict_map_mset [OF dict_ok_distinct [OF ok] m(1)])
    have "dict_map T d'' = (\<lambda>k. if keyEq T k key then Some val else dict_map T d k)"
      using dict_map_replace [OF T dict_ok_distinct [OF r(2)] dict_ok_distinct [OF d''(2)] f d''(3)] unfolding dm .
    moreover have "dictSize d'' = dictSize d"
      using arg_cong [OF d''(3), of size] arg_cong [OF m(1), of size] dict_ok_size [OF ok] dict_ok_size [OF d''(2)] by simp
    ultimately show ?thesis using r d'' Some m(3) by (simp add: dictReplace_def dict_map_None)
  qed
qed

lemma dictDelete_correct:
  assumes T: "dictType_ok T" and ok: "dict_ok T d"
  shows "\<exists>d'. dictDelete T cr d key = Some (d', if dict_map T d key = None then DICT_ERR else DICT_OK) \<and> dict_ok T d' \<and>
    dict_map T d' = (\<lambda>k. if keyEq T k key then None else dict_map T d k) \<and> dictSize d' \<le> dictSize d"
proof -
  obtain d' where r: "dictGenericDelete T cr d key = Some (d', chain_find T key (entries d))" "dict_ok T d'"
    "case chain_find T key (entries d) of None \<Rightarrow> mset (entries d') = mset (entries d)
     | Some e \<Rightarrow> mset (entries d) = add_mset e (mset (entries d'))"
    using dictGenericDelete_correct [OF assms] by blast
  show ?thesis
  proof (cases "chain_find T key (entries d)")
    case None
    then have m: "mset (entries d') = mset (entries d)" using r(3) by simp
    have "dict_map T d' = dict_map T d" by (rule dict_map_mset [OF dict_ok_distinct [OF ok] m])
    moreover have "dict_map T d k = None" if "keyEq T k key" for k
      using None keyEq_cong [OF T that] by (auto simp: dict_map_None chain_find_None)
    moreover have "dictSize d' = dictSize d"
      using arg_cong [OF m, of size] dict_ok_size [OF ok] dict_ok_size [OF r(2)] by simp
    ultimately show ?thesis using r None by (auto simp: dictDelete_def dict_map_None)
  next
    case (Some e)
    then have m: "mset (entries d) = add_mset e (mset (entries d'))" using r(3) by simp
    have "dict_map T d' = (\<lambda>k. if keyEq T k key then None else dict_map T d k)"
      by (rule dict_map_delete [OF T dict_ok_distinct [OF ok] dict_ok_distinct [OF r(2)] Some m])
    moreover have "dictSize d' \<le> dictSize d"
      using arg_cong [OF m, of size] dict_ok_size [OF ok] dict_ok_size [OF r(2)] by simp
    ultimately show ?thesis using r Some by (simp add: dictDelete_def dict_map_None)
  qed
qed

section \<open>The map interface\<close>

text \<open>Maintenance a server performs between the operations of its clients, including changes of
  \<^verbatim>\<open>dict_can_resize\<close>. The state is a dictionary with the present value of that setting.\<close>

datatype dict_tick =
    Rehash nat | Rehash_Ms "nat \<Rightarrow> int" int | Expand nat | Try_Expand nat bool | Shrink
  | Pause | Resume | Set_Resize dictResizeEnable

fun dict_maintain :: "'k dictType \<Rightarrow> dictResizeEnable \<times> ('k, 'v) dict \<Rightarrow> dict_tick \<Rightarrow> (dictResizeEnable \<times> ('k, 'v) dict) option" where
  "dict_maintain T (cr, d) (Rehash n) = map_option (\<lambda>(d, _). (cr, d)) (dictRehash T cr d n)"
| "dict_maintain T (cr, d) (Rehash_Ms clock ms) = map_option (\<lambda>(d, _). (cr, d)) (dictRehashMilliseconds T cr clock d ms)"
| "dict_maintain T (cr, d) (Expand n) = Some (cr, fst (dictExpand d n))"
| "dict_maintain T (cr, d) (Try_Expand n oom) = Some (cr, fst (dictTryExpand d n oom))"
| "dict_maintain T (cr, d) Shrink = Some (cr, fst (dictResize cr d))"
| "dict_maintain T (cr, d) Pause = Some (cr, dictPauseRehashing d)"
| "dict_maintain T (cr, d) Resume = Some (cr, dictResumeRehashing d)"
| "dict_maintain T (cr, d) (Set_Resize cr') = Some (cr', d)"

definition dict_put :: "'k dictType \<Rightarrow> dictResizeEnable \<times> ('k, 'v) dict \<Rightarrow> 'k \<Rightarrow> 'v \<Rightarrow> ((dictResizeEnable \<times> ('k, 'v) dict) \<times> bool) option" where
  "dict_put T s k v = map_option (\<lambda>(d, b). ((fst s, d), b)) (dictReplace T (fst s) (snd s) k v)"

definition dict_get :: "'k dictType \<Rightarrow> dictResizeEnable \<times> ('k, 'v) dict \<Rightarrow> 'k \<Rightarrow> ((dictResizeEnable \<times> ('k, 'v) dict) \<times> 'v option) option" where
  "dict_get T s k = map_option (\<lambda>(d, r). ((fst s, d), r)) (dictFetchValue T (fst s) (snd s) k)"

definition dict_del :: "'k dictType \<Rightarrow> dictResizeEnable \<times> ('k, 'v) dict \<Rightarrow> 'k \<Rightarrow> ((dictResizeEnable \<times> ('k, 'v) dict) \<times> bool) option" where
  "dict_del T s k = map_option (\<lambda>(d, st). ((fst s, d), st = DICT_OK)) (dictDelete T (fst s) (snd s) k)"

lemma dict_ok_pause: "dict_ok T (d\<lparr>pauserehash := p\<rparr>) \<longleftrightarrow> dict_ok T d" "entries (d\<lparr>pauserehash := p\<rparr>) = entries d"
  by (simp_all add: dict_ok_def rehash_ok_def dictIsRehashing_def entries_def)

lemma dict_maintain_correct:
  assumes ok: "dict_ok T d"
  shows "\<exists>cr' d'. dict_maintain T (cr, d) t = Some (cr', d') \<and> dict_ok T d' \<and> mset (entries d') = mset (entries d)"
proof (cases t)
  case (Rehash n)
  then show ?thesis using dictRehash_correct [OF ok, of cr n] by (auto simp: same_contents_def)
next
  case (Rehash_Ms clock ms)
  then show ?thesis using rehash_ms_loop_terminates [OF ok, of cr clock "clock 0" ms 1 0] ok
    by (auto simp: dictRehashMilliseconds_def same_contents_def)
next
  case (Expand n)
  then show ?thesis using dictExpand_correct(1,2) [OF ok, of n] by (cases "dictExpand d n") (auto simp: same_contents_def)
next
  case (Try_Expand n oom)
  then show ?thesis using dictExpand_gen_correct [OF ok, of n "Some oom"] by (auto simp: dictTryExpand_def same_contents_def)
next
  case Shrink
  have "dictResize cr d = (d, DICT_ERR) \<or> (\<exists>n. dictResize cr d = dictExpand d n)" by (auto simp: dictResize_def Let_def)
  then show ?thesis
  proof
    assume "\<exists>n. dictResize cr d = dictExpand d n"
    then obtain n where "dictResize cr d = dictExpand d n" ..
    then show ?thesis using Shrink dictExpand_correct(1,2) [OF ok, of n] by (cases "dictExpand d n") (auto simp: same_contents_def)
  qed (use Shrink ok in simp)
qed (auto simp: ok dictPauseRehashing_def dictResumeRehashing_def dict_ok_pause)

lemma dictFetchValue_correct:
  assumes "dictType_ok T" "dict_ok T d"
  shows "\<exists>d'. dictFetchValue T cr d key = Some (d', dict_map T d key) \<and> dict_ok T d' \<and> mset (entries d') = mset (entries d)"
  using dictFind_correct [OF assms, of cr key] by (auto simp: dictFetchValue_def dict_map_def same_contents_def)

lemma dictSize_mset: "dict_ok T d \<Longrightarrow> dict_ok T d' \<Longrightarrow> mset (entries d') = mset (entries d) \<Longrightarrow> dictSize d' = dictSize d"
  using dict_ok_size mset_eq_length by metis

definition dict_state_ok :: "'k dictType \<Rightarrow> dictResizeEnable \<times> ('k, 'v) dict \<Rightarrow> bool" where
  "dict_state_ok T s \<longleftrightarrow> dictType_ok T \<and> dict_ok T (snd s)"

interpretation dict_store: map_store "dict_state_ok T" "\<lambda>s. dict_map T (snd s)" "\<lambda>s. dictSize (snd s)" "keyEq T"
  "dict_put T" "dict_get T" "dict_del T" "dict_maintain T" "2 ^ 60" for T
proof unfold_locales
  fix s :: "dictResizeEnable \<times> ('a, 'b) dict" and k v t
  assume "dict_state_ok T s"
  then have T: "dictType_ok T" and ok: "dict_ok T (snd s)" by (simp_all add: dict_state_ok_def)
  show "\<exists>s'. dict_get T s k = Some (s', dict_map T (snd s) k) \<and> dict_state_ok T s' \<and> dictSize (snd s') \<le> dictSize (snd s) \<and>
      dict_map T (snd s') = dict_map T (snd s)"
  proof -
    obtain d' where d': "dictFetchValue T (fst s) (snd s) k = Some (d', dict_map T (snd s) k)" "dict_ok T d'"
      "mset (entries d') = mset (entries (snd s))" using dictFetchValue_correct [OF T ok] by blast
    then show ?thesis using T dict_map_mset [OF dict_ok_distinct [OF ok] d'(3)] dictSize_mset [OF ok d'(2,3)]
      by (simp add: dict_get_def dict_state_ok_def)
  qed
  show "\<exists>s'. dict_del T s k = Some (s', dict_map T (snd s) k \<noteq> None) \<and> dict_state_ok T s' \<and> dictSize (snd s') \<le> dictSize (snd s) \<and>
      dict_map T (snd s') = (\<lambda>x. if keyEq T x k then None else dict_map T (snd s) x)"
    using dictDelete_correct [OF T ok, of "fst s" k] T by (auto simp: dict_del_def dict_state_ok_def)
  show "\<exists>s'. dict_maintain T s t = Some s' \<and> dict_state_ok T s' \<and> dictSize (snd s') \<le> dictSize (snd s) \<and>
      dict_map T (snd s') = dict_map T (snd s)"
  proof -
    obtain cr' d' where d': "dict_maintain T (fst s, snd s) t = Some (cr', d')" "dict_ok T d'" "mset (entries d') = mset (entries (snd s))"
      using dict_maintain_correct [OF ok, of "fst s" t] by blast
    then show ?thesis using T dict_map_mset [OF dict_ok_distinct [OF ok] d'(3)] dictSize_mset [OF ok d'(2,3)]
      by (simp add: dict_state_ok_def)
  qed
  assume "dictSize (snd s) < 2 ^ 60"
  then show "\<exists>s'. dict_put T s k v = Some (s', dict_map T (snd s) k = None) \<and> dict_state_ok T s' \<and>
      dictSize (snd s') \<le> Suc (dictSize (snd s)) \<and> dict_map T (snd s') = (\<lambda>x. if keyEq T x k then Some v else dict_map T (snd s) x)"
    using dictReplace_correct [OF T ok, of "fst s" k v] T by (auto simp: dict_put_def dict_state_ok_def)
qed

lemma dictCreate_ok: "dict_ok T dictCreate" "dict_map T dictCreate = Map.empty" "dictSize dictCreate = 0"
  by (simp_all add: dict_ok_def dictCreate_def dictReset_ok distinct_keys_def rehash_ok_def dictIsRehashing_def entries_def
    dict_map_def dictSize_def fun_eq_iff)

section \<open>Properties\<close>

text \<open>C1: A dictionary implements a finite map. Any sequence of at most \<open>2 ^ 60\<close> insertions, lookups and
  deletions on a new dictionary, interleaved with rehashing steps of any size, timed rehashing,
  expansion (also with a failing allocation), shrinking, pausing and resuming of rehashing and
  changes of the resize policy, runs without a failed assertion or an access outside of a table,
  returns what the same sequence returns on a finite map, and ends in a consistent dictionary that
  holds that map. Needs a comparison of keys that is an equivalence and hashes that respect it.\<close>

theorem dict_implements_map:
  assumes "dictType_ok T" "length ops \<le> 2 ^ 60"
  shows "\<exists>cr' d rs. map_run (dict_put T) (dict_get T) (dict_del T) (dict_maintain T) ops (cr, dictCreate) = Some ((cr', d), rs) \<and>
    dict_ok T d \<and> map_spec (keyEq T) ops Map.empty = (dict_map T d, rs)"
  using dict_store.map_run_law [of T "(cr, dictCreate)" ops] assms
  by (auto simp: dict_state_ok_def dictCreate_ok)

definition nat_dictType :: "nat dictType" where
  "nat_dictType = \<lparr>hashFunction = (\<lambda>k. word_of_nat (k mod 3)), keyCompare = (=), expandAllowed = (\<lambda>m u s. True)\<rparr>"

lemma nat_dictType_ok: "dictType_ok nat_dictType" "keyEq nat_dictType = (=)"
proof -
  show "keyEq nat_dictType = (=)" by (auto simp: keyEq_def nat_dictType_def fun_eq_iff)
  then show "dictType_ok nat_dictType" by (simp add: dictType_ok_def identity_equivp)
qed

theorem dict_implements_map_witness:
  "\<exists>cr' d rs. map_run (dict_put nat_dictType) (dict_get nat_dictType) (dict_del nat_dictType) (dict_maintain nat_dictType)
      [Put_op 1 (10 :: nat), Put_op 4 40, Tick_op (Expand 8), Get_op 1, Tick_op (Rehash 1), Del_op 4, Put_op 1 11, Get_op 4, Get_op 1]
      (DICT_RESIZE_ENABLE, dictCreate) = Some ((cr', d), rs) \<and> dict_ok nat_dictType d \<and>
    rs = [Was_new True, Was_new True, Ticked, Got (Some 10), Ticked, Deleted True, Was_new False, Got None, Got (Some 11)]"
proof -
  let ?ops = "[Put_op 1 (10 :: nat), Put_op 4 40, Tick_op (Expand 8), Get_op 1, Tick_op (Rehash 1), Del_op 4, Put_op 1 11, Get_op 4, Get_op 1]"
  have "snd (map_spec (keyEq nat_dictType) ?ops Map.empty) =
      [Was_new True, Was_new True, Ticked, Got (Some 10), Ticked, Deleted True, Was_new False, Got None, Got (Some 11)]"
    by (simp add: nat_dictType_ok)
  then show ?thesis
    using dict_implements_map [OF nat_dictType_ok(1), of ?ops DICT_RESIZE_ENABLE] by (simp del: map_run.simps map_spec.simps) (metis snd_conv)
qed

end
