(* ===== verification/Dict_Scan.thy ===== *)
theory Dict_Scan
  imports Dict
begin

unbundle bit_operations_syntax

text \<open>
  Models \<^verbatim>\<open>dictScan\<close> of \<^verbatim>\<open>src/dict.c\<close>, the stateless iteration behind the commands SCAN, SSCAN, HSCAN and
  ZSCAN, with the bit reversal \<^verbatim>\<open>rev\<close> it uses.

  The callback is modelled by the list of the entries it is called with. The scan pauses rehashing
  while it runs and resumes it at the end, so the dictionary it leaves is the one it got.
\<close>

section \<open>The code\<close>

text \<open>One round of the loop in \<^verbatim>\<open>rev\<close>, for the shift \<open>s\<close>.\<close>

definition rev_step :: "nat \<Rightarrow> u64 \<times> u64 \<Rightarrow> u64 \<times> u64" where
  "rev_step s = (\<lambda>(msk, v).
     let msk = msk XOR push_bit s msk in (msk, (drop_bit s v AND msk) OR (push_bit s v AND NOT msk)))"

fun rev_loop :: "nat \<Rightarrow> u64 \<times> u64 \<Rightarrow> u64 \<times> u64" where
  "rev_loop s x = (if s div 2 > 0 then rev_loop (s div 2) (rev_step (s div 2) x) else x)"

declare rev_loop.simps [simp del]

definition rev_bits :: "u64 \<Rightarrow> u64" where
  "rev_bits v = snd (rev_loop 64 (NOT 0, v))"

text \<open>\<^verbatim>\<open>v |= ~m; v = rev(v); v++; v = rev(v);\<close>\<close>

definition next_cursor :: "u64 \<Rightarrow> u64 \<Rightarrow> u64" where
  "next_cursor m v = rev_bits (rev_bits (v OR NOT m) + 1)"

text \<open>The loop over the expansions of the cursor in the larger table.\<close>

partial_function (option) scan_expand :: "('k, 'v) entry list list \<Rightarrow> u64 \<Rightarrow> u64 \<Rightarrow> u64 \<Rightarrow> (('k, 'v) entry list \<times> u64) option" where
  "scan_expand tbl m0 m1 v = do {
     de \<leftarrow> mem_get tbl (unat (v AND m1));
     let v = next_cursor m1 v;
     if v AND (m0 XOR m1) \<noteq> 0 then do { (es, v) \<leftarrow> scan_expand tbl m0 m1 v; Some (de @ es, v) }
     else Some (de, v) }"

definition dictScan :: "('k, 'v) dict \<Rightarrow> u64 \<Rightarrow> (('k, 'v) entry list \<times> u64) option" where
  "dictScan d v =
     (if dictSize d = 0 then Some ([], 0)
      else if \<not> dictIsRehashing d then
        (let t0 = ht0 d; m0 = ht_sizemask t0 in do {
           de \<leftarrow> mem_get (ht_table t0) (unat (v AND m0));
           Some (de, next_cursor m0 v) })
      else
        (let (t0, t1) = (if ht_size (ht0 d) > ht_size (ht1 d) then (ht1 d, ht0 d) else (ht0 d, ht1 d));
             m0 = ht_sizemask t0; m1 = ht_sizemask t1
         in do {
           de \<leftarrow> mem_get (ht_table t0) (unat (v AND m0));
           (es, v) \<leftarrow> scan_expand (ht_table t1) m0 m1 v;
           Some (de @ es, v) }))"


section \<open>Bit reversal\<close>

text \<open>A round with shift \<open>s\<close> exchanges the halves of every block of \<open>2 * s\<close> bits.\<close>

definition flip :: "nat \<Rightarrow> nat \<Rightarrow> nat" where
  "flip s n = (if even (n div s) then n + s else n - s)"

definition block_mask :: "nat \<Rightarrow> u64 \<Rightarrow> bool" where
  "block_mask s msk \<longleftrightarrow> (\<forall>k<64. bit msk k \<longleftrightarrow> even (k div s))"

lemma even_div_halves:
  fixes k s :: nat
  assumes "0 < s"
  shows "(even (k div (2 * s)) \<noteq> (s \<le> k \<and> even ((k - s) div (2 * s)))) \<longleftrightarrow> even (k div s)"
proof -
  define q where "q = k div s"
  have a: "k div (2 * s) = q div 2" by (simp add: q_def div_mult2_eq mult.commute [of 2])
  have b: "(k - s) div (2 * s) = (q - 1) div 2" if "s \<le> k"
  proof -
    have "(k - s) div s = q - 1" using that assms by (simp add: q_def le_div_geq)
    then show ?thesis by (simp add: div_mult2_eq mult.commute [of 2])
  qed
  have c: "s \<le> k \<longleftrightarrow> 1 \<le> q" using assms by (simp add: q_def Suc_le_eq div_greater_zero_iff)
  have "(even (q div 2) \<noteq> (1 \<le> q \<and> even ((q - 1) div 2))) \<longleftrightarrow> even q"
    by presburger
  then show ?thesis using a b c by (auto simp: q_def)
qed

lemma block_mask_step:
  assumes "0 < s" "block_mask (2 * s) msk"
  shows "block_mask s (msk XOR push_bit s msk)"
  unfolding block_mask_def
proof (intro allI impI)
  fix k :: nat assume k: "k < 64"
  have "bit (push_bit s msk) k \<longleftrightarrow> s \<le> k \<and> even ((k - s) div (2 * s))"
    using assms(2) k by (auto simp: bit_push_bit_iff block_mask_def)
  then show "bit (msk XOR push_bit s msk) k \<longleftrightarrow> even (k div s)"
    using assms(2) k even_div_halves [OF assms(1), of k] by (simp add: bit_xor_iff block_mask_def)
qed

lemma rev_step_bit:
  assumes s: "0 < s" and m: "block_mask (2 * s) msk" and n: "n < 64"
  shows "bit (snd (rev_step s (msk, v))) n \<longleftrightarrow> bit v (flip s n)" "block_mask s (fst (rev_step s (msk, v)))"
proof -
  define m' where "m' = msk XOR push_bit s msk"
  have bm: "block_mask s m'" using block_mask_step [OF s m] by (simp add: m'_def)
  then have b: "bit m' n \<longleftrightarrow> even (n div s)" using n by (simp add: block_mask_def)
  have "s \<le> n" if "odd (n div s)" using that by (metis div_less even_zero not_le)
  then show "bit (snd (rev_step s (msk, v))) n \<longleftrightarrow> bit v (flip s n)"
    using b n by (auto simp: rev_step_def Let_def flip_def bit_and_iff bit_or_iff bit_not_iff bit_drop_bit_eq
        bit_push_bit_iff add.commute simp flip: m'_def)
  show "block_mask s (fst (rev_step s (msk, v)))" using bm by (simp add: rev_step_def m'_def Let_def)
qed

lemmas flip_numeral = flip_def [of "numeral s" "numeral w"] flip_def [of "numeral s" 0] flip_def [of "numeral s" "Suc 0"] 
  flip_def [of "numeral s" 1] flip_def [of 1 "numeral w"] flip_def [of 1 0] flip_def [of 1 1] flip_def [of "Suc 0" "numeral w"] 
  flip_def [of "Suc 0" 0]  flip_def [of "Suc 0" "Suc 0"]
  flip_def [of "numeral s" "Suc (Suc n)"] for s w n
lemma flip_all: "\<forall>n\<in>{0..<64}. flip 32 (flip 16 (flip 8 (flip 4 (flip 2 (flip 1 n))))) = 63 - n"
  by (simp add: atLeastLessThan_nat_numeral flip_numeral)
lemma flip_less: "\<forall>n\<in>{0..<64}. flip 1 n < 64 \<and> flip 2 (flip 1 n) < 64 \<and> flip 4 (flip 2 (flip 1 n)) < 64 \<and>
    flip 8 (flip 4 (flip 2 (flip 1 n))) < 64 \<and> flip 16 (flip 8 (flip 4 (flip 2 (flip 1 n)))) < 64"
  by (simp add: atLeastLessThan_nat_numeral flip_numeral)

lemma rev_bits_bit:
  assumes n: "n < 64"
  shows "bit (rev_bits v) n \<longleftrightarrow> bit v (63 - n)"
proof -
  define x1 where "x1 = rev_step 32 (NOT 0, v)"
  define x2 where "x2 = rev_step 16 x1"
  define x3 where "x3 = rev_step 8 x2"
  define x4 where "x4 = rev_step 4 x3"
  define x5 where "x5 = rev_step 2 x4"
  define x6 where "x6 = rev_step 1 x5"
  have r: "rev_bits v = snd x6"
    by (simp add: rev_bits_def rev_loop.simps [of 64] rev_loop.simps [of 32] rev_loop.simps [of 16] rev_loop.simps [of 8]
      rev_loop.simps [of 4] rev_loop.simps [of 2] rev_loop.simps [of 1] rev_loop.simps [of "Suc 0"] x1_def x2_def x3_def x4_def x5_def x6_def)
  have m0: "block_mask (2 * 32) (NOT 0)" by (simp add: block_mask_def bit_not_iff)
  have p: "x1 = rev_step 32 (NOT 0, v)" "x2 = rev_step 16 (fst x1, snd x1)" "x3 = rev_step 8 (fst x2, snd x2)"
    "x4 = rev_step 4 (fst x3, snd x3)" "x5 = rev_step 2 (fst x4, snd x4)" "x6 = rev_step 1 (fst x5, snd x5)"
    by (simp_all add: x1_def x2_def x3_def x4_def x5_def x6_def)
  have m1: "block_mask 32 (fst x1)" unfolding p(1) by (rule rev_step_bit(2)) (use m0 n in simp_all)
  have m2: "block_mask 16 (fst x2)" unfolding p(2) by (rule rev_step_bit(2)) (use m1 n in simp_all)
  have m3: "block_mask 8 (fst x3)" unfolding p(3) by (rule rev_step_bit(2)) (use m2 n in simp_all)
  have m4: "block_mask 4 (fst x4)" unfolding p(4) by (rule rev_step_bit(2)) (use m3 n in simp_all)
  have m5: "block_mask 2 (fst x5)" unfolding p(5) by (rule rev_step_bit(2)) (use m4 n in simp_all)
  have lt: "flip 1 n < 64" "flip 2 (flip 1 n) < 64" "flip 4 (flip 2 (flip 1 n)) < 64"
    "flip 8 (flip 4 (flip 2 (flip 1 n))) < 64" "flip 16 (flip 8 (flip 4 (flip 2 (flip 1 n)))) < 64"
    using flip_less n by simp_all
  have "bit (snd x6) n \<longleftrightarrow> bit (snd x5) (flip 1 n)" unfolding p(6) by (rule rev_step_bit(1)) (use m5 n in simp_all)
  also have "\<dots> \<longleftrightarrow> bit (snd x4) (flip 2 (flip 1 n))" unfolding p(5) by (rule rev_step_bit(1)) (use m4 lt in simp_all)
  also have "\<dots> \<longleftrightarrow> bit (snd x3) (flip 4 (flip 2 (flip 1 n)))" unfolding p(4) by (rule rev_step_bit(1)) (use m3 lt in simp_all)
  also have "\<dots> \<longleftrightarrow> bit (snd x2) (flip 8 (flip 4 (flip 2 (flip 1 n))))" unfolding p(3) by (rule rev_step_bit(1)) (use m2 lt in simp_all)
  also have "\<dots> \<longleftrightarrow> bit (snd x1) (flip 16 (flip 8 (flip 4 (flip 2 (flip 1 n)))))" unfolding p(2) by (rule rev_step_bit(1)) (use m1 lt in simp_all)
  also have "\<dots> \<longleftrightarrow> bit v (flip 32 (flip 16 (flip 8 (flip 4 (flip 2 (flip 1 n))))))" unfolding p(1) by (rule rev_step_bit(1)) (use m0 lt in simp_all)
  also have "flip 32 (flip 16 (flip 8 (flip 4 (flip 2 (flip 1 n))))) = 63 - n" using flip_all n by simp
  finally show ?thesis using r by simp
qed

lemma rev_bits_rev_bits [simp]: "rev_bits (rev_bits v) = v"
proof (rule bit_word_eqI)
  fix n assume "n < LENGTH(64)"
  then show "bit (rev_bits (rev_bits v)) n = bit v n" by (simp add: rev_bits_bit)
qed

section \<open>The cursor as a position\<close>

text \<open>Read in reverse, the cursor is a position in the interval from 0 to \<open>2 ^ 64\<close>, and so is a hash.
  A bucket of a table of \<open>2 ^ n\<close> buckets is a block of \<open>2 ^ (64 - n)\<close> positions.\<close>

definition scan_pos :: "u64 \<Rightarrow> nat" where
  "scan_pos v = unat (rev_bits v)"

lemma scan_pos_less: "scan_pos v < 2 ^ 64"
  using unsigned_less [where 'a = nat, of "rev_bits v"] by (simp add: scan_pos_def)

lemma rev_bits_0 [simp]: "rev_bits 0 = 0"
  by (rule bit_word_eqI) (simp add: rev_bits_bit)

lemma scan_pos_0 [simp]: "scan_pos v = 0 \<longleftrightarrow> v = 0"
  by (metis rev_bits_0 rev_bits_rev_bits scan_pos_def unat_eq_zero)

lemma u64_eq_iff: "(a :: u64) = b \<longleftrightarrow> (\<forall>i<64. bit a i = bit b i)"
  by (auto intro: bit_word_eqI)

lemma unat_drop_u64: "unat (drop_bit k (v :: u64)) = unat v div 2 ^ k"
proof -
  have "take_bit 64 (unat v) = unat v" using unsigned_less [where 'a = nat, of v] by (simp add: take_bit_nat_eq_self)
  then show ?thesis using unsigned_drop_bit_eq [of k v, where 'a = nat] by (simp add: drop_bit_eq_div)
qed

lemma unat_or_mask: "k \<le> 64 \<Longrightarrow> unat ((v :: u64) OR mask k) = unat v OR mask k"
  by (rule bit_eqI) (auto simp: bit_simps dest: bit_imp_le_length)

lemma or_mask_nat: "(n::nat) OR mask k = n div 2 ^ k * 2 ^ k + (2 ^ k - 1)"
proof -
  have d: "push_bit k (drop_bit k n) AND mask k = 0"
    by (rule bit_eqI) (auto simp: bit_simps)
  have "n OR mask k = push_bit k (drop_bit k n) OR mask k"
    by (rule bit_eqI) (auto simp: bit_simps)
  also have "\<dots> = push_bit k (drop_bit k n) + mask k" using d by (simp add: disjunctive_add_eq_or)
  finally show ?thesis by (simp add: push_bit_eq_mult drop_bit_eq_div mask_eq_exp_minus_1)
qed

lemma rev_bits_or_not_mask:
  assumes "n \<le> 64"
  shows "rev_bits (v OR NOT (mask n)) = rev_bits v OR mask (64 - n)"
  by (rule bit_word_eqI) (use assms in \<open>auto simp: rev_bits_bit bit_or_iff bit_not_iff bit_mask_iff\<close>)

lemma next_cursor_pos:
  assumes "n \<le> 64"
  shows "scan_pos (next_cursor (mask n) v) = (scan_pos v div 2 ^ (64 - n) + 1) * 2 ^ (64 - n) mod 2 ^ 64"
proof -
  let ?k = "64 - n"
  have "unat (rev_bits v OR mask ?k) = scan_pos v OR mask ?k"
    by (simp add: unat_or_mask scan_pos_def)
  then have "unat (rev_bits (v OR NOT (mask n))) = scan_pos v div 2 ^ ?k * 2 ^ ?k + (2 ^ ?k - 1)"
    by (simp add: rev_bits_or_not_mask [OF assms] or_mask_nat)
  then have "Suc (unat (rev_bits (v OR NOT (mask n)))) = (scan_pos v div 2 ^ ?k + 1) * 2 ^ ?k"
    by simp
  then show ?thesis by (simp add: scan_pos_def next_cursor_def unat_word_ariths)
qed

lemma same_bucket:
  assumes "n \<le> 64"
  shows "h AND mask n = v AND mask n \<longleftrightarrow> scan_pos h div 2 ^ (64 - n) = scan_pos v div 2 ^ (64 - n)" (is "?l \<longleftrightarrow> ?r")
proof -
  have "?l \<longleftrightarrow> (\<forall>i<n. bit h i = bit v i)" using assms by (auto simp: u64_eq_iff bit_and_iff bit_mask_iff dest: less_le_trans)
  also have "\<dots> \<longleftrightarrow> (\<forall>j<n. bit h (63 - (j + (64 - n))) = bit v (63 - (j + (64 - n))))" (is "?a \<longleftrightarrow> ?b")
  proof
    assume b: ?b
    show ?a
    proof (intro allI impI)
      fix i assume "i < n"
      then show "bit h i = bit v i" using b [rule_format, of "n - 1 - i"] assms by simp
    qed
  qed (use assms in auto)
  also have "\<dots> \<longleftrightarrow> drop_bit (64 - n) (rev_bits h) = drop_bit (64 - n) (rev_bits v)"
  proof -
    have "bit (drop_bit (64 - n) (rev_bits x)) j \<longleftrightarrow> j < n \<and> bit x (63 - (j + (64 - n)))" for x j
    proof (cases "j < n")
      case True
      then show ?thesis using assms by (simp add: bit_drop_bit_eq rev_bits_bit add.commute)
    next
      case False
      then have "\<not> bit (rev_bits x) (64 - n + j)" using assms by (intro impossible_bit) simp
      then show ?thesis using False by (simp add: bit_drop_bit_eq)
    qed
    then show ?thesis by (subst u64_eq_iff) (use assms in \<open>auto dest: less_le_trans\<close>)
  qed
  also have "\<dots> \<longleftrightarrow> ?r"
    by (simp add: word_unat_eq_iff unat_drop_u64 scan_pos_def del: drop_bit_eq_div)
  finally show ?thesis .
qed

text \<open>The loop over the larger table ends when the cursor reaches a block of the smaller one.\<close>

lemma expand_done:
  assumes "n0 \<le> n1" "n1 \<le> 64" "scan_pos v mod 2 ^ (64 - n1) = 0"
  shows "v AND (mask n0 XOR mask n1) = 0 \<longleftrightarrow> scan_pos v mod 2 ^ (64 - n0) = 0"
proof -
  have take_low: "take_bit k w = 0 \<longleftrightarrow> unat w mod 2 ^ k = 0" for k and w :: u64
    using and_mask_dvd_nat [of k w] by (simp add: take_bit_eq_mask dvd_eq_mod_eq_0)
  have low: "take_bit (64 - n1) (rev_bits v) = 0"
    using assms(3) by (simp add: take_low scan_pos_def)
  have "take_bit (64 - n0) (rev_bits v) = 0 \<longleftrightarrow> (\<forall>j<64 - n0. \<not> bit (rev_bits v) j)"
    by (auto simp: u64_eq_iff bit_take_bit_iff)
  also have "\<dots> \<longleftrightarrow> (\<forall>i<64. n0 \<le> i \<and> i < n1 \<longrightarrow> \<not> bit v i)" (is "?a \<longleftrightarrow> ?b")
  proof
    assume a: ?a
    show ?b
    proof (intro allI impI)
      fix i assume "i < 64" "n0 \<le> i \<and> i < n1"
      then have "63 - i < 64 - n0" "i < 64" by linarith+
      then show "\<not> bit v i" using a [rule_format, of "63 - i"] by (auto simp: rev_bits_bit)
    qed
  next
    assume b: ?b
    show ?a
    proof (intro allI impI)
      fix j assume j: "j < 64 - n0"
      show "\<not> bit (rev_bits v) j"
      proof (cases "j < 64 - n1")
        case True
        then show ?thesis using low by (auto simp: u64_eq_iff bit_take_bit_iff)
      next
        case False
        then have "n0 \<le> 63 - j" "63 - j < n1" using j assms(1,2) by linarith+
        then show ?thesis using b [rule_format, of "63 - j"] j by (auto simp: rev_bits_bit)
      qed
    qed
  qed
  also have "\<dots> \<longleftrightarrow> v AND (mask n0 XOR mask n1) = 0"
    using assms(1) by (auto simp: u64_eq_iff bit_and_iff bit_xor_iff bit_mask_iff)
  finally show ?thesis by (simp add: take_low scan_pos_def)
qed

section \<open>One call\<close>

definition block_end :: "nat \<Rightarrow> nat \<Rightarrow> nat" where
  "block_end w p = (p div w + 1) * w"

lemma block_end_gt: "0 < w \<Longrightarrow> p < block_end w p"
  using dividend_less_div_times [of w p] by (simp add: block_end_def algebra_simps)

lemma block_same: "0 < w \<Longrightarrow> p \<le> x \<Longrightarrow> x < block_end w p \<Longrightarrow> x div w = p div w"
  unfolding block_end_def
  by (metis Suc_eq_plus1 div_le_mono le_antisym less_Suc_eq_le less_mult_imp_div_less)

lemma block_end_dvd: "0 < w \<Longrightarrow> w dvd n \<Longrightarrow> p < n \<Longrightarrow> block_end w p \<le> n"
  unfolding block_end_def by (metis Suc_eq_plus1 Suc_leI dvd_div_mult_self less_mult_imp_div_less mult_le_mono1)

lemma block_end_nested:
  assumes "0 < w1" "w1 dvd w0" "0 < w0"
  shows "block_end w1 p \<le> block_end w0 p"
  using block_end_dvd [of w1 "block_end w0 p" p] assms block_end_gt [of w0 p] by (simp add: block_end_def)

lemma pow64_dvd: "k \<le> 64 \<Longrightarrow> (2::nat) ^ k dvd 2 ^ 64"
  by (rule le_imp_power_dvd)

text \<open>The buckets at the positions from \<open>p\<close> to \<open>q\<close> of a table of \<open>2 ^ n\<close> buckets are among \<open>es\<close>, and nothing else is.\<close>

definition covers :: "('k, 'v) entry list list \<Rightarrow> nat \<Rightarrow> nat \<Rightarrow> nat \<Rightarrow> ('k, 'v) entry list \<Rightarrow> bool" where
  "covers tbl n p q es \<longleftrightarrow> set es \<subseteq> set (concat tbl) \<and>
     (\<forall>h. p \<le> scan_pos h \<and> scan_pos h < q \<longrightarrow> set (tbl ! unat (h AND mask n)) \<subseteq> set es)"

lemma covers_append: "covers tbl n p q es \<Longrightarrow> covers tbl n q r es' \<Longrightarrow> covers tbl n p r (es @ es')"
  unfolding covers_def set_append by (meson Un_subset_iff le_supI1 le_supI2 not_le)

lemma covers_bucket:
  assumes "n \<le> 64" "length tbl = 2 ^ n"
  shows "mem_get tbl (unat (v AND mask n)) = Some (tbl ! unat (v AND mask n))"
    "covers tbl n (scan_pos v) (block_end (2 ^ (64 - n)) (scan_pos v)) (tbl ! unat (v AND mask n))"
proof -
  have i: "unat (v AND mask n) < length tbl" using assms by (simp add: unat_and_mask)
  then show "mem_get tbl (unat (v AND mask n)) = Some (tbl ! unat (v AND mask n))" by (simp add: mem_get_def)
  have "h AND mask n = v AND mask n" if "scan_pos v \<le> scan_pos h" "scan_pos h < block_end (2 ^ (64 - n)) (scan_pos v)" for h
    using block_same [OF _ that] same_bucket [OF assms(1)] by simp
  then show "covers tbl n (scan_pos v) (block_end (2 ^ (64 - n)) (scan_pos v)) (tbl ! unat (v AND mask n))"
    using nth_mem [OF i] unfolding covers_def set_concat by (metis UN_upper order_refl)
qed

lemma scan_expand_correct:
  fixes tbl :: "('k, 'v) entry list list"
  assumes n: "n0 \<le> n1" "n1 \<le> 64" and len: "length tbl = 2 ^ n1"
  defines "w0 \<equiv> 2 ^ (64 - n0)"
  shows "\<exists>es v'. scan_expand tbl (mask n0) (mask n1) v = Some (es, v') \<and>
    scan_pos v' = block_end w0 (scan_pos v) mod 2 ^ 64 \<and> covers tbl n1 (scan_pos v) (block_end w0 (scan_pos v)) es"
proof (induction "block_end w0 (scan_pos v) - scan_pos v" arbitrary: v rule: less_induct)
  case less
  define w1 p where "w1 = (2::nat) ^ (64 - n1)" and "p = scan_pos v"
  define v1 where "v1 = next_cursor (mask n1) v"
  define b where "b = tbl ! unat (v AND mask n1)"
  have w: "0 < w0" "0 < w1" "w1 dvd w0" "w0 dvd 2 ^ 64" "w1 dvd 2 ^ 64"
    using n unfolding w0_def w1_def by (simp_all add: le_imp_power_dvd pow64_dvd del: semiring_norm power_numeral)
  note bkt = covers_bucket [OF n(2) len, of v, folded b_def w1_def p_def]
  have gt: "p < block_end w1 p" by (rule block_end_gt [OF w(2)])
  have p1: "scan_pos v1 = block_end w1 p mod 2 ^ 64"
    using next_cursor_pos [OF n(2), of v] by (simp add: v1_def block_end_def w1_def p_def)
  have "w1 dvd scan_pos v1" unfolding p1 using w(5) by (simp add: dvd_mod_iff block_end_def del: power_numeral)
  then have fin: "v1 AND (mask n0 XOR mask n1) = 0 \<longleftrightarrow> scan_pos v1 mod w0 = 0"
    unfolding w0_def by (intro expand_done [OF n]) (simp add: w1_def dvd_eq_mod_eq_0)
  have le: "block_end w1 p \<le> block_end w0 p" by (rule block_end_nested [OF w(2,3,1)])
  have le64: "block_end w0 p \<le> 2 ^ 64" unfolding p_def by (rule block_end_dvd [OF w(1,4) scan_pos_less])
  show ?case
  proof (cases "block_end w1 p = block_end w0 p")
    case True
    then have "w0 dvd scan_pos v1" unfolding p1 using w(4) by (simp add: dvd_mod_iff block_end_def del: power_numeral)
    then have "scan_expand tbl (mask n0) (mask n1) v = Some (b, v1)"
      using fin by (subst scan_expand.simps) (simp add: bkt(1) dvd_eq_mod_eq_0 flip: v1_def)
    then show ?thesis using bkt(2) p1 unfolding True unfolding p_def by (intro exI [of _ b] exI [of _ v1] conjI)
  next
    case False
    then have lt: "block_end w1 p < block_end w0 p" using le by simp
    then have q: "scan_pos v1 = block_end w1 p" using le64 by (simp add: p1)
    have same: "scan_pos v1 div w0 = p div w0"
      using block_same [OF w(1), of p "scan_pos v1"] lt gt by (simp add: q)
    then have e: "block_end w0 (scan_pos v1) = block_end w0 p" by (simp add: block_end_def)
    have "scan_pos v1 mod w0 \<noteq> 0"
    proof
      assume "scan_pos v1 mod w0 = 0"
      then have "scan_pos v1 = p div w0 * w0" using same by (metis add.right_neutral div_mult_mod_eq)
      also have "\<dots> \<le> p" by simp
      finally show False using gt by (simp add: q)
    qed
    moreover obtain es v' where r: "scan_expand tbl (mask n0) (mask n1) v1 = Some (es, v')"
      "scan_pos v' = block_end w0 p mod 2 ^ 64" "covers tbl n1 (block_end w1 p) (block_end w0 p) es"
      using less [of v1, unfolded e, folded p_def] diff_less_mono2 [OF gt less_trans [OF gt lt]] unfolding q by fastforce
    ultimately have "scan_expand tbl (mask n0) (mask n1) v = Some (b @ es, v')"
      using fin by (subst scan_expand.simps) (simp add: bkt(1) flip: v1_def)
    then show ?thesis using r(2) covers_append [OF bkt(2) r(3)] unfolding p_def by (intro exI [of _ "b @ es"] exI [of _ v'] conjI)
  qed
qed

definition key_pos :: "'k dictType \<Rightarrow> 'k \<Rightarrow> nat" where
  "key_pos T k = scan_pos (hashFunction T k)"

lemma key_pos_less: "key_pos T k < 2 ^ 64"
  unfolding key_pos_def by (rule scan_pos_less)

lemma covers_entry:
  assumes "ht_ok T h" "ht_sizemask h = mask n" "covers (ht_table h) n p q es" "e \<in> set (ht_entries h)"
    "p \<le> key_pos T (fst e)" "key_pos T (fst e) < q"
  shows "e \<in> set es"
proof -
  obtain i where i: "i < length (ht_table h)" "e \<in> set (ht_table h ! i)"
    using assms(4) unfolding ht_entries_def set_concat by (metis UN_E in_set_conv_nth)
  then have "unat (hashFunction T (fst e) AND mask n) = i" using assms(1,2) by (auto simp: ht_ok_def hash_index_def)
  then show ?thesis using i(2) assms(3,5,6) unfolding covers_def key_pos_def by blast
qed

text \<open>What one call does: it moves the cursor from the position of \<open>v\<close> to \<open>q\<close>, and its entries are
  entries of the dictionary, among them all those at the positions passed.\<close>

definition scan_step :: "'k dictType \<Rightarrow> nat \<Rightarrow> ('k, 'v) dict \<Rightarrow> u64 \<Rightarrow> ('k, 'v) entry list \<Rightarrow> u64 \<Rightarrow> bool" where
  "scan_step T N d v es v' \<longleftrightarrow> set es \<subseteq> set (entries d) \<and>
     (\<exists>q. scan_pos v < q \<and> q \<le> 2 ^ 64 \<and> scan_pos v' = q mod 2 ^ 64 \<and> 2 ^ (64 - N) dvd q \<and>
       (\<forall>e\<in>set (entries d). scan_pos v \<le> key_pos T (fst e) \<and> key_pos T (fst e) < q \<longrightarrow> e \<in> set es))"

lemma covers_shrink: "covers tbl n p q es \<Longrightarrow> q' \<le> q \<Longrightarrow> covers tbl n p q' es"
  unfolding covers_def by (meson less_le_trans)

lemma scan_step_covers:
  assumes "n0 \<le> N" "N \<le> 64" "q = block_end (2 ^ (64 - n0)) (scan_pos v)" "scan_pos v' = q mod 2 ^ 64"
    "set es \<subseteq> set (entries d)"
    "\<And>e. e \<in> set (entries d) \<Longrightarrow> scan_pos v \<le> key_pos T (fst e) \<Longrightarrow> key_pos T (fst e) < q \<Longrightarrow> e \<in> set es"
  shows "scan_step T N d v es v'"
  unfolding scan_step_def
proof (intro conjI exI [of _ q] ballI impI)
  show "scan_pos v < q" unfolding assms(3) by (rule block_end_gt) simp
  show "q \<le> 2 ^ 64" unfolding assms(3) using assms(1,2) by (intro block_end_dvd pow64_dvd scan_pos_less) simp_all
  show "2 ^ (64 - N) dvd q" unfolding assms(3) block_end_def using assms(1) by (intro dvd_mult le_imp_power_dvd) simp
qed (use assms(4-6) in auto)

lemma scan_two:
  fixes h0 h1 :: "('k, 'v) dictht"
  assumes ok: "ht_ok T h0" "ht_ok T h1" and s: "ht_size h0 \<noteq> 0" "ht_size h0 \<le> ht_size h1" "ht_size h0 \<le> 2 ^ N" "N \<le> 64"
    and ent: "set (entries d) = set (ht_entries h0) \<union> set (ht_entries h1)"
  shows "\<exists>es v'. do { de \<leftarrow> mem_get (ht_table h0) (unat (v AND ht_sizemask h0));
       (es, v) \<leftarrow> scan_expand (ht_table h1) (ht_sizemask h0) (ht_sizemask h1) v; Some (de @ es, v) } = Some (es, v') \<and>
     scan_step T N d v es v'"
proof -
  obtain n0 n1 where n: "ht_size h0 = 2 ^ n0" "ht_sizemask h0 = mask n0" "n0 \<le> 60"
    "ht_size h1 = 2 ^ n1" "ht_sizemask h1 = mask n1" "n1 \<le> 60"
    using ok s unfolding ht_ok_def by (metis le_zero_eq)
  have le: "n0 \<le> n1" "n0 \<le> N" using s(2,3) by (simp_all add: n)
  define q where "q = block_end (2 ^ (64 - n0)) (scan_pos v)"
  have len: "length (ht_table h0) = 2 ^ n0" "length (ht_table h1) = 2 ^ n1" using ok n by (simp_all add: ht_ok_def)
  obtain es v' where r: "scan_expand (ht_table h1) (mask n0) (mask n1) v = Some (es, v')"
    "scan_pos v' = q mod 2 ^ 64" "covers (ht_table h1) n1 (scan_pos v) q es"
    using scan_expand_correct [OF le(1) _ len(2), of v] n(6) unfolding q_def by auto
  let ?b = "ht_table h0 ! unat (v AND mask n0)"
  have n64: "n0 \<le> 64" using n(3) by simp
  note b = covers_bucket [OF n64 len(1), of v, folded q_def]
  have "scan_step T N d v (?b @ es) v'"
  proof (rule scan_step_covers [OF le(2) s(4) q_def r(2)])
    show "set (?b @ es) \<subseteq> set (entries d)"
      using b(2) r(3) by (auto simp: covers_def ent ht_entries_def)
    show "e \<in> set (?b @ es)" if "e \<in> set (entries d)" "scan_pos v \<le> key_pos T (fst e)" "key_pos T (fst e) < q" for e
      using that covers_entry [OF ok(1) n(2) b(2) _ that(2,3)] covers_entry [OF ok(2) n(5) r(3) _ that(2,3)]
      by (auto simp: ent)
  qed
  then show ?thesis using r(1) b(1) by (intro exI [of _ "?b @ es"] exI [of _ v']) (simp add: n)
qed

lemma dictScan_correct:
  fixes d :: "('k, 'v) dict"
  assumes ok: "dict_ok T d" and s: "ht_size (ht0 d) \<le> 2 ^ N" "ht_size (ht1 d) \<le> 2 ^ N" "N \<le> 64"
  shows "\<exists>es v'. dictScan d v = Some (es, v') \<and> scan_step T N d v es v'"
proof -
  have h: "ht_ok T (ht0 d)" "ht_ok T (ht1 d)" "rehash_ok d" using ok by (simp_all add: dict_ok_def)
  consider (empty) "dictSize d = 0" | (one) "dictSize d \<noteq> 0" "\<not> dictIsRehashing d" | (two) "dictSize d \<noteq> 0" "dictIsRehashing d" by blast
  then show ?thesis
  proof cases
    case empty
    have "scan_step T N d v [] 0"
    proof (rule scan_step_covers [of 0 N "2 ^ 64"])
      show "2 ^ 64 = block_end (2 ^ (64 - 0)) (scan_pos v)"
        using div_less [OF scan_pos_less [of v]] unfolding block_end_def by (simp only: diff_zero) simp
      show "scan_pos 0 = 2 ^ 64 mod 2 ^ 64" using scan_pos_0 [of 0] by simp
    qed (use empty s(3) dict_ok_size [OF ok] in simp_all)
    then show ?thesis using empty by (simp add: dictScan_def)
  next
    case one
    have "ht1 d = dictReset" using h(3) one by (simp add: rehash_ok_def)
    then have e: "set (entries d) = set (ht_entries (ht0 d))" by (simp add: entries_def dictReset_ok)
    have "ht_size (ht0 d) \<noteq> 0" using nonempty_size [OF ok] one(1) dict_ok_size [OF ok] by auto
    then obtain n where n: "ht_size (ht0 d) = 2 ^ n" "ht_sizemask (ht0 d) = mask n" "n \<le> 60" using h(1) by (auto simp: ht_ok_def)
    define q where "q = block_end (2 ^ (64 - n)) (scan_pos v)"
    have len: "length (ht_table (ht0 d)) = 2 ^ n" and n64: "n \<le> 64" "n \<le> N" using h(1) n s(1) by (simp_all add: ht_ok_def)
    note b = covers_bucket [OF n64(1) len, of v, folded q_def]
    let ?b = "ht_table (ht0 d) ! unat (v AND mask n)"
    have "scan_step T N d v ?b (next_cursor (mask n) v)"
    proof (rule scan_step_covers [OF n64(2) s(3) q_def])
      show "scan_pos (next_cursor (mask n) v) = q mod 2 ^ 64" using next_cursor_pos [OF n64(1)] by (simp add: q_def block_end_def)
      show "set ?b \<subseteq> set (entries d)" using b(2) unfolding e by (simp add: covers_def ht_entries_def)
      show "x \<in> set ?b" if "x \<in> set (entries d)" "scan_pos v \<le> key_pos T (fst x)" "key_pos T (fst x) < q" for x
        using that covers_entry [OF h(1) n(2) b(2) _ that(2,3)] unfolding e by simp
    qed
    then show ?thesis using b(1) one n(2) by (simp add: dictScan_def Let_def)
  next
    case two
    have z: "ht_size (ht0 d) \<noteq> 0" "ht_size (ht1 d) \<noteq> 0" using h(3) two by (simp_all add: rehash_ok_def)
    show ?thesis
    proof (cases "ht_size (ht0 d) > ht_size (ht1 d)")
      case True
      then show ?thesis using scan_two [OF h(2,1) z(2) _ s(2,3), of d v] two by (simp add: dictScan_def Let_def entries_def Un_commute)
    next
      case False
      then show ?thesis using scan_two [OF h(1,2) z(1) _ s(1,3), of d v] two by (simp add: dictScan_def Let_def entries_def)
    qed
  qed
qed

section \<open>A full iteration\<close>

text \<open>A client calls \<^verbatim>\<open>dictScan\<close> with the cursor the call before returned, until it gets cursor 0. The
  dictionary may have changed in any way between two calls: \<open>ds\<close> are its values at the calls. The flag
  tells whether the iteration came to its end.\<close>

fun scan_iter :: "('k, 'v) dict list \<Rightarrow> u64 \<Rightarrow> (('k, 'v) entry list \<times> bool) option" where
  "scan_iter [] v = Some ([], False)"
| "scan_iter (d # ds) v = do {
     (es, v) \<leftarrow> dictScan d v;
     if v = 0 then Some (es, True) else do { (es', fin) \<leftarrow> scan_iter ds v; Some (es @ es', fin) } }"

definition scan_dicts_ok :: "'k dictType \<Rightarrow> nat \<Rightarrow> ('k, 'v) dict list \<Rightarrow> bool" where
  "scan_dicts_ok T N ds \<longleftrightarrow> N \<le> 64 \<and> list_all (\<lambda>d. dict_ok T d \<and> ht_size (ht0 d) \<le> 2 ^ N \<and> ht_size (ht1 d) \<le> 2 ^ N) ds"

lemma entry_of_key: "dict_map T d k \<noteq> None \<Longrightarrow> \<exists>e\<in>set (entries d). keyEq T k (fst e)"
  by (auto simp: dict_map_None chain_find_None)

lemma key_pos_eq: "dictType_ok T \<Longrightarrow> keyEq T a b \<Longrightarrow> key_pos T a = key_pos T b"
  by (simp add: key_pos_def dictType_ok_def)

lemma scan_step_next:
  assumes "scan_step T N d v es v'" "dictType_ok T" "dict_map T d k \<noteq> None" "scan_pos v \<le> key_pos T k"
  shows "(\<exists>e\<in>set es. keyEq T k (fst e)) \<or> (v' \<noteq> 0 \<and> scan_pos v' \<le> key_pos T k)"
proof -
  obtain q where q: "q \<le> 2 ^ 64" "scan_pos v' = q mod 2 ^ 64" "scan_pos v < q"
    "\<forall>e\<in>set (entries d). scan_pos v \<le> key_pos T (fst e) \<and> key_pos T (fst e) < q \<longrightarrow> e \<in> set es"
    using assms(1) unfolding scan_step_def by blast
  obtain e where e: "e \<in> set (entries d)" "keyEq T k (fst e)" using entry_of_key [OF assms(3)] by blast
  have pos: "key_pos T k = key_pos T (fst e)" by (rule key_pos_eq [OF assms(2) e(2)])
  show ?thesis
  proof (cases "key_pos T k < q")
    case True
    then show ?thesis using q(4) e assms(4) pos by auto
  next
    case False
    then have "q < 2 ^ 64" using key_pos_less [of T k] by linarith
    then have "scan_pos v' = q" using q(2) by simp
    then show ?thesis using False q(3) scan_pos_0 [of v'] by auto
  qed
qed

lemma scan_step_advance:
  assumes "scan_step T N d v es v'" "2 ^ (64 - N) dvd scan_pos v" "v' \<noteq> 0"
  shows "scan_pos v + 2 ^ (64 - N) \<le> scan_pos v'" "2 ^ (64 - N) dvd scan_pos v'"
proof -
  obtain q where q: "q \<le> 2 ^ 64" "scan_pos v' = q mod 2 ^ 64" "scan_pos v < q" "2 ^ (64 - N) dvd q"
    using assms(1) unfolding scan_step_def by blast
  have "q \<noteq> 2 ^ 64" using q(2) assms(3) scan_pos_0 [of v'] by auto
  then have eq: "scan_pos v' = q" using q(1,2) by simp
  then show "2 ^ (64 - N) dvd scan_pos v'" using q(4) by simp
  have "2 ^ (64 - N) dvd q - scan_pos v" using assms(2) q(4) by (rule dvd_diff_nat [rotated])
  moreover have "0 < q - scan_pos v" using q(3) by simp
  ultimately have "2 ^ (64 - N) \<le> q - scan_pos v" by (rule dvd_imp_le)
  then show "scan_pos v + 2 ^ (64 - N) \<le> scan_pos v'" using q(3) unfolding eq by linarith
qed

lemma scan_iter_complete:
  assumes "scan_dicts_ok T N ds" "dictType_ok T" "2 ^ 64 \<le> scan_pos v + length ds * 2 ^ (64 - N)"
    "2 ^ (64 - N) dvd scan_pos v"
  shows "\<exists>es. scan_iter ds v = Some (es, True) \<and> set es \<subseteq> (\<Union>d\<in>set ds. set (entries d)) \<and>
    (\<forall>k. scan_pos v \<le> key_pos T k \<and> (\<forall>d\<in>set ds. dict_map T d k \<noteq> None) \<longrightarrow> (\<exists>e\<in>set es. keyEq T k (fst e)))"
  using assms
proof (induction ds arbitrary: v)
  case Nil
  then show ?case using scan_pos_less [of v] by simp
next
  case (Cons d ds)
  have dk: "dict_ok T d" "ht_size (ht0 d) \<le> 2 ^ N" "ht_size (ht1 d) \<le> 2 ^ N" "N \<le> 64" "scan_dicts_ok T N ds"
    using Cons.prems(1) by (simp_all add: scan_dicts_ok_def)
  obtain es v' where r: "dictScan d v = Some (es, v')" "scan_step T N d v es v'"
    using dictScan_correct [OF dk(1-4), of v] by blast
  note nxt = scan_step_next [OF r(2) Cons.prems(2)]
  have sub: "set es \<subseteq> set (entries d)" using r(2) by (simp add: scan_step_def)
  show ?case
  proof (cases "v' = 0")
    case True
    then show ?thesis using r(1) nxt sub by (intro exI [of _ es]) auto
  next
    case False
    note adv = scan_step_advance [OF r(2) Cons.prems(4) False]
    have "2 ^ 64 \<le> scan_pos v' + length ds * 2 ^ (64 - N)" using Cons.prems(3) adv(1) unfolding length_Cons mult_Suc by linarith
    from Cons.IH [OF dk(5) Cons.prems(2) this adv(2)]
    obtain es' where i: "scan_iter ds v' = Some (es', True)" "set es' \<subseteq> (\<Union>d\<in>set ds. set (entries d))"
      "\<forall>k. scan_pos v' \<le> key_pos T k \<and> (\<forall>d\<in>set ds. dict_map T d k \<noteq> None) \<longrightarrow> (\<exists>e\<in>set es'. keyEq T k (fst e))"
      by (elim exE conjE)
    have "scan_iter (d # ds) v = Some (es @ es', True)" using r(1) i(1) False by simp
    moreover have "\<exists>e\<in>set (es @ es'). keyEq T k (fst e)"
      if "scan_pos v \<le> key_pos T k" "\<forall>d\<in>set (d # ds). dict_map T d k \<noteq> None" for k
    proof -
      have k: "dict_map T d k \<noteq> None" "\<forall>d\<in>set ds. dict_map T d k \<noteq> None" using that(2) by simp_all
      show ?thesis using nxt [OF k(1) that(1)] i(3) k(2) unfolding set_append by blast
    qed
    moreover have "set (es @ es') \<subseteq> (\<Union>d\<in>set (d # ds). set (entries d))" using sub i(2) by auto
    ultimately show ?thesis by blast
  qed
qed

text \<open>C12: A full SCAN iteration ends, and misses nothing that was there throughout. Start with cursor 0 and pass
  the returned cursor back, while the dictionary is changed between the calls in any way that keeps it well
  formed: entries come and go, the table grows, shrinks and rehashes. When no table ever had more than
  \<open>2 ^ N\<close> buckets, cursor 0 comes back within \<open>2 ^ N\<close> calls. Every key that was present at all the calls has been
  returned by then, and only entries of the dictionary were returned.
\<close>

theorem dictScan_complete:
  assumes "dictType_ok T" "scan_dicts_ok T N ds" "2 ^ N \<le> length ds"
  shows "\<exists>es. scan_iter ds 0 = Some (es, True) \<and> set es \<subseteq> (\<Union>d\<in>set ds. set (entries d)) \<and>
    (\<forall>k. (\<forall>d\<in>set ds. dict_map T d k \<noteq> None) \<longrightarrow> (\<exists>e\<in>set es. keyEq T k (fst e)))"
proof -
  have N: "N \<le> 64" using assms(2) by (simp add: scan_dicts_ok_def)
  have z: "scan_pos 0 = 0" by simp
  have "(2::nat) ^ 64 = 2 ^ N * 2 ^ (64 - N)" using N by (simp only: power_add [symmetric]) simp
  also have "\<dots> \<le> length ds * 2 ^ (64 - N)" by (rule mult_le_mono1) (rule assms(3))
  finally have "2 ^ 64 \<le> scan_pos 0 + length ds * 2 ^ (64 - N)" by (simp only: z)
  moreover have "2 ^ (64 - N) dvd scan_pos 0" by (simp add: z)
  ultimately show ?thesis using scan_iter_complete [OF assms(2,1), of 0] by (simp only: z le0 simp_thms)
qed

definition scan_example1 :: "(nat, nat) dict" where
  "scan_example1 = \<lparr>ht0 = \<lparr>ht_table = [[(0, 5), (3, 6)], [(1, 7)], [], []], ht_size = 4, ht_sizemask = 3, ht_used = 3\<rparr>,
     ht1 = dictReset, rehashidx = -1, pauserehash = 0\<rparr>"

definition scan_example2 :: "(nat, nat) dict" where
  "scan_example2 = \<lparr>ht0 = \<lparr>ht_table = [[], [(1, 7)], [], []], ht_size = 4, ht_sizemask = 3, ht_used = 1\<rparr>,
     ht1 = \<lparr>ht_table = [[(3, 6), (0, 5)], [], [], [], [], [], [], []], ht_size = 8, ht_sizemask = 7, ht_used = 2\<rparr>,
     rehashidx = 1, pauserehash = 0\<rparr>"

lemma scan_examples_ok: "dict_ok nat_dictType scan_example1" "dict_ok nat_dictType scan_example2"
proof -
  have m: "(3 :: u64) = mask 2" "(7 :: u64) = mask 3" by (simp_all add: mask_eq_decr_exp)
  have 2: "\<exists>n. 2 \<le> n \<and> n \<le> 60 \<and> (4::nat) = 2 ^ n \<and> (3 :: u64) = mask n" by (rule exI [of _ 2]) (simp add: m)
  have 3: "\<exists>n. 2 \<le> n \<and> n \<le> 60 \<and> (8::nat) = 2 ^ n \<and> (7 :: u64) = mask n" by (rule exI [of _ 3]) (simp add: m)
  have lt: "(\<forall>i<4. P i) \<longleftrightarrow> P 0 \<and> P 1 \<and> P 2 \<and> P 3" "(\<forall>i<8. P i) \<longleftrightarrow> P 0 \<and> P 1 \<and> P 2 \<and> P 3 \<and> P 4 \<and> P 5 \<and> P 6 \<and> P 7"
    for P :: "nat \<Rightarrow> bool" by (simp_all add: All_less_Suc numeral_eq_Suc conj_ac)
  note defs = dict_ok_def scan_example1_def scan_example2_def ht_ok_def lt hash_index_def rehash_ok_def dictIsRehashing_def
    dictReset_def entries_def ht_entries_def distinct_keys_def nat_dictType_ok
  show "dict_ok nat_dictType scan_example1" using 2 by (simp add: defs) (simp add: nat_dictType_def)
  show "dict_ok nat_dictType scan_example2" using 2 3 by (simp add: defs) (simp add: nat_dictType_def)
qed

theorem dictScan_complete_witness:
  "\<exists>es. scan_iter (replicate 3 scan_example1 @ replicate 5 scan_example2) 0 = Some (es, True) \<and>
     (\<exists>e\<in>set es. fst e = 0) \<and> (\<exists>e\<in>set es. fst e = 1) \<and> (\<exists>e\<in>set es. fst e = 3)"
proof -
  let ?ds = "replicate 3 scan_example1 @ replicate 5 scan_example2"
  have ds: "scan_dicts_ok nat_dictType 3 ?ds"
    by (simp add: scan_dicts_ok_def scan_examples_ok numeral_eq_Suc)
       (simp add: scan_example1_def scan_example2_def dictReset_def)
  have k: "\<forall>d\<in>set ?ds. dict_map nat_dictType d k \<noteq> None" if "k \<in> {0, 1, 3}" for k
    using that by (auto simp: dict_map_def scan_example1_def scan_example2_def dictReset_def entries_def ht_entries_def nat_dictType_ok)
  have "2 ^ 3 \<le> length ?ds" by simp
  from dictScan_complete [OF nat_dictType_ok(1) ds this] obtain es where es: "scan_iter ?ds 0 = Some (es, True)"
    "\<forall>k. (\<forall>d\<in>set ?ds. dict_map nat_dictType d k \<noteq> None) \<longrightarrow> (\<exists>e\<in>set es. keyEq nat_dictType k (fst e))" by blast
  have "\<exists>e\<in>set es. fst e = k" if "k \<in> {0, 1, 3}" for k
    using es(2) [rule_format, OF k [OF that, rule_format]] by (metis nat_dictType_ok(2))
  then show ?thesis using es(1) by (intro exI [of _ es]) simp
qed

end
