(* ===== verification/Siphash.thy ===== *)
theory Siphash
  imports Endian
begin

unbundle bit_operations_syntax

text \<open>
  Models \<^verbatim>\<open>src/siphash.c\<close>, the keyed hash function of the dictionaries, and its case-insensitive variant.

  \<open>ua\<close> tells whether the macro \<^verbatim>\<open>UNALIGNED_LE_CPU\<close> is defined, \<open>be\<close> is the byte order of the host; the
  macro is only defined for little-endian processors. Reads go through memory blocks, so a result
  \<open>Some h\<close> says that the function stayed inside of its input and its key.

  \<open>SipHash c d\<close> is the published description of the function with \<open>c\<close> compression and \<open>d\<close>
  finalisation rounds, written without the definitions of the code: the message is padded to whole words, the words
  are mixed in one by one, the rotations are those of the word library and the constants come from their text. It is
  checked on the test vector of the publication. \<open>siphash_reference\<close> is SipHash-1-2.
\<close>

section \<open>The code\<close>

definition siptlw :: "byte \<Rightarrow> byte" where
  "siptlw c = (if 65 \<le> c \<and> c \<le> 90 then c + (97 - 65) else c)"

definition ROTL :: "u64 \<Rightarrow> nat \<Rightarrow> u64" where
  "ROTL x b = push_bit b x OR drop_bit (64 - b) x"

text \<open>The bytes from \<open>p\<close> on as a word, byte by byte: the definition of \<^verbatim>\<open>U8TO64_LE\<close> for the other processors.\<close>

definition load_bytewise :: "bytes \<Rightarrow> nat \<Rightarrow> u64 option" where
  "load_bytewise m p = do {
     b0 \<leftarrow> mem_get m p; b1 \<leftarrow> mem_get m (p + 1); b2 \<leftarrow> mem_get m (p + 2); b3 \<leftarrow> mem_get m (p + 3);
     b4 \<leftarrow> mem_get m (p + 4); b5 \<leftarrow> mem_get m (p + 5); b6 \<leftarrow> mem_get m (p + 6); b7 \<leftarrow> mem_get m (p + 7);
     Some (ucast b0 OR push_bit 8 (ucast b1) OR push_bit 16 (ucast b2) OR push_bit 24 (ucast b3) OR
       push_bit 32 (ucast b4) OR push_bit 40 (ucast b5) OR push_bit 48 (ucast b6) OR push_bit 56 (ucast b7)) }"

definition U8TO64_LE :: "bool \<Rightarrow> bool \<Rightarrow> bytes \<Rightarrow> nat \<Rightarrow> u64 option" where
  "U8TO64_LE ua be m p =
     (if ua then map_option (host_load be) (mem_read m p 8) else load_bytewise m p)"

definition U8TO64_LE_NOCASE :: "bytes \<Rightarrow> nat \<Rightarrow> u64 option" where
  "U8TO64_LE_NOCASE m p = do {
     b0 \<leftarrow> mem_get m p; b1 \<leftarrow> mem_get m (p + 1); b2 \<leftarrow> mem_get m (p + 2); b3 \<leftarrow> mem_get m (p + 3);
     b4 \<leftarrow> mem_get m (p + 4); b5 \<leftarrow> mem_get m (p + 5); b6 \<leftarrow> mem_get m (p + 6); b7 \<leftarrow> mem_get m (p + 7);
     Some (ucast (siptlw b0) OR push_bit 8 (ucast (siptlw b1)) OR push_bit 16 (ucast (siptlw b2)) OR push_bit 24 (ucast (siptlw b3)) OR
       push_bit 32 (ucast (siptlw b4)) OR push_bit 40 (ucast (siptlw b5)) OR push_bit 48 (ucast (siptlw b6)) OR
       push_bit 56 (ucast (siptlw b7))) }"

definition U32TO8_LE :: "u32 \<Rightarrow> bytes" where
  "U32TO8_LE v = [ucast v, ucast (drop_bit 8 v), ucast (drop_bit 16 v), ucast (drop_bit 24 v)]"

definition U64TO8_LE :: "u64 \<Rightarrow> bytes" where
  "U64TO8_LE v = U32TO8_LE (ucast v) @ U32TO8_LE (ucast (drop_bit 32 v))"

record sipstate =
  sv0 :: u64
  sv1 :: u64
  sv2 :: u64
  sv3 :: u64

definition SIPROUND :: "sipstate \<Rightarrow> sipstate" where
  "SIPROUND s =
     (let v0 = sv0 s; v1 = sv1 s; v2 = sv2 s; v3 = sv3 s;
          v0 = v0 + v1;
          v1 = ROTL v1 13;
          v1 = v1 XOR v0;
          v0 = ROTL v0 32;
          v2 = v2 + v3;
          v3 = ROTL v3 16;
          v3 = v3 XOR v2;
          v0 = v0 + v3;
          v3 = ROTL v3 21;
          v3 = v3 XOR v0;
          v2 = v2 + v1;
          v1 = ROTL v1 17;
          v1 = v1 XOR v2;
          v2 = ROTL v2 32
      in \<lparr>sv0 = v0, sv1 = v1, sv2 = v2, sv3 = v3\<rparr>)"

text \<open>The initial state for the key words \<open>k0\<close> and \<open>k1\<close>.\<close>

definition sip_init :: "u64 \<Rightarrow> u64 \<Rightarrow> sipstate" where
  "sip_init k0 k1 =
     \<lparr>sv0 = 0x736f6d6570736575 XOR k0, sv1 = 0x646f72616e646f6d XOR k1,
      sv2 = 0x6c7967656e657261 XOR k0, sv3 = 0x7465646279746573 XOR k1\<rparr>"

text \<open>\<^verbatim>\<open>v3 ^= m; SIPROUND; v0 ^= m\<close>\<close>

definition sip_absorb :: "u64 \<Rightarrow> sipstate \<Rightarrow> sipstate" where
  "sip_absorb m s = (let s = SIPROUND (s\<lparr>sv3 := sv3 s XOR m\<rparr>) in s\<lparr>sv0 := sv0 s XOR m\<rparr>)"

text \<open>The main loop; the result is the state and the position it stopped at.\<close>

function sip_loop :: "(nat \<Rightarrow> u64 option) \<Rightarrow> nat \<Rightarrow> nat \<Rightarrow> sipstate \<Rightarrow> (sipstate \<times> nat) option" where
  "sip_loop rd i en s =
     (if i < en then do { m \<leftarrow> rd i; sip_loop rd (i + 8) en (sip_absorb m s) } else Some (s, i))"
  by pat_completeness auto
termination by (relation "measure (\<lambda>(_, i, en, _). en - i)") auto

declare sip_loop.simps [simp del]

text \<open>The switch on the number of remaining bytes, whose cases fall through, in the two functions.\<close>

primrec sip_switch :: "bytes \<Rightarrow> nat \<Rightarrow> nat \<Rightarrow> u64 \<Rightarrow> u64 option" where
  "sip_switch m p 0 b = Some b"
| "sip_switch m p (Suc n) b = do { c \<leftarrow> mem_get m (p + n); sip_switch m p n (b OR push_bit (8 * n) (ucast c)) }"

primrec sip_switch_nocase :: "bytes \<Rightarrow> nat \<Rightarrow> nat \<Rightarrow> u64 \<Rightarrow> u64 option" where
  "sip_switch_nocase m p 0 b = Some b"
| "sip_switch_nocase m p (Suc n) b = do {
     c \<leftarrow> mem_get m (p + n);
     sip_switch_nocase m p n (b OR push_bit (8 * n) (ucast (siptlw c))) }"

text \<open>The last word \<open>b\<close>, the finalisation and the result.\<close>

definition sip_finish :: "bool \<Rightarrow> bool \<Rightarrow> u64 \<Rightarrow> sipstate \<Rightarrow> u64" where
  "sip_finish ua be b s =
     (let s = sip_absorb b s;
          s = s\<lparr>sv2 := sv2 s XOR 0xff\<rparr>;
          s = SIPROUND (SIPROUND s);
          b = sv0 s XOR sv1 s XOR sv2 s XOR sv3 s
      in if ua then b else host_load be (U64TO8_LE b))"

definition siphash :: "bool \<Rightarrow> bool \<Rightarrow> bytes \<Rightarrow> nat \<Rightarrow> bytes \<Rightarrow> u64 option" where
  "siphash ua be buf inlen k = do {
     k0 \<leftarrow> U8TO64_LE ua be k 0;
     k1 \<leftarrow> U8TO64_LE ua be k 8;
     (s, p) \<leftarrow> sip_loop (U8TO64_LE ua be buf) 0 (inlen - inlen mod 8) (sip_init k0 k1);
     b \<leftarrow> sip_switch buf p (inlen mod 8) (push_bit 56 (word_of_nat inlen));
     Some (sip_finish ua be b s) }"

definition siphash_nocase :: "bool \<Rightarrow> bool \<Rightarrow> bytes \<Rightarrow> nat \<Rightarrow> bytes \<Rightarrow> u64 option" where
  "siphash_nocase ua be buf inlen k = do {
     k0 \<leftarrow> U8TO64_LE ua be k 0;
     k1 \<leftarrow> U8TO64_LE ua be k 8;
     (s, p) \<leftarrow> sip_loop (U8TO64_LE_NOCASE buf) 0 (inlen - inlen mod 8) (sip_init k0 k1);
     b \<leftarrow> sip_switch_nocase buf p (inlen mod 8) (push_bit 56 (word_of_nat inlen));
     Some (sip_finish ua be b s) }"

section \<open>The published description\<close>

definition sip_pad :: "bytes \<Rightarrow> bytes" where
  "sip_pad msg = msg @ replicate (7 - length msg mod 8) 0 @ [word_of_nat (length msg)]"

fun le_words :: "bytes \<Rightarrow> u64 list" where
  "le_words bs = (if bs = [] then [] else word_of_nat (le_nat (take 8 bs)) # le_words (drop 8 bs))"

declare le_words.simps [simp del]

text \<open>The round of the published description: four additions, xors and rotations in two parallel columns.\<close>

type_synonym sip_words = "u64 \<times> u64 \<times> u64 \<times> u64"

fun sip_half :: "nat \<Rightarrow> nat \<Rightarrow> sip_words \<Rightarrow> sip_words" where
  "sip_half r t (a, b, c, d) =
     (word_rotl 32 (a + b), word_rotl r b XOR (a + b), c + d, word_rotl t d XOR (c + d))"

fun sip_swap :: "sip_words \<Rightarrow> sip_words" where
  "sip_swap (a, b, c, d) = (c, b, a, d)"

definition sip_round :: "sip_words \<Rightarrow> sip_words" where
  "sip_round v = sip_swap (sip_half 17 21 (sip_swap (sip_half 13 16 v)))"

text \<open>The four constants are the text \<^verbatim>\<open>somepseudorandomlygeneratedbytes\<close>, read as big-endian words.\<close>

definition text_word :: "string \<Rightarrow> u64" where
  "text_word t = word_of_nat (le_nat (rev (map of_char t)))"

definition sip_start :: "u64 \<Rightarrow> u64 \<Rightarrow> sip_words" where
  "sip_start k0 k1 =
     (k0 XOR text_word ''somepseu'', k1 XOR text_word ''dorandom'', k0 XOR text_word ''lygenera'', k1 XOR text_word ''tedbytes'')"

text \<open>\<open>sip_block c m\<close> mixes in one word with \<open>c\<close> rounds.\<close>

fun sip_block :: "nat \<Rightarrow> u64 \<Rightarrow> sip_words \<Rightarrow> sip_words" where
  "sip_block c m (v0, v1, v2, v3) = (case (sip_round ^^ c) (v0, v1, v2, v3 XOR m) of (v0, v1, v2, v3) \<Rightarrow> (v0 XOR m, v1, v2, v3))"

fun sip_result :: "nat \<Rightarrow> sip_words \<Rightarrow> u64" where
  "sip_result d (v0, v1, v2, v3) = (case (sip_round ^^ d) (v0, v1, v2 XOR 0xff, v3) of (v0, v1, v2, v3) \<Rightarrow> v0 XOR v1 XOR v2 XOR v3)"

text \<open>SipHash-\<open>c\<close>-\<open>d\<close>, and the member of the family that Redis uses.\<close>

definition SipHash :: "nat \<Rightarrow> nat \<Rightarrow> u64 \<Rightarrow> u64 \<Rightarrow> bytes \<Rightarrow> u64" where
  "SipHash c d k0 k1 msg = sip_result d (fold (sip_block c) (le_words (sip_pad msg)) (sip_start k0 k1))"

definition siphash_reference :: "u64 \<Rightarrow> u64 \<Rightarrow> bytes \<Rightarrow> u64" where
  "siphash_reference k0 k1 msg = SipHash 1 2 k0 k1 msg"

text \<open>Lower case of the ASCII letters, as a table.\<close>

definition ascii_lower :: "byte \<Rightarrow> byte" where
  "ascii_lower c =
     (case map_of (zip (map of_char ''ABCDEFGHIJKLMNOPQRSTUVWXYZ'') (map of_char ''abcdefghijklmnopqrstuvwxyz'')) c of
        Some l \<Rightarrow> l | None \<Rightarrow> c)"


section \<open>The rounds\<close>

definition sip_words_of :: "sipstate \<Rightarrow> sip_words" where
  "sip_words_of s = (sv0 s, sv1 s, sv2 s, sv3 s)"

lemma ROTL_rotl: "b < 64 \<Longrightarrow> ROTL x b = word_rotl b x"
  by (rule bit_word_eqI) (auto simp: ROTL_def bit_simps bit_word_rotl_iff mod_if not_le add.commute [of _ 64] dest: bit_imp_le_length)

text \<open>Rules to evaluate the reference.\<close>

lemma rotl_ROTL: "numeral b < (64::nat) \<Longrightarrow> word_rotl (numeral b) x = ROTL x (numeral b)"
  by (simp add: ROTL_rotl)

lemma sip_rounds: "f ^^ 2 = f \<circ> f" "f ^^ 4 = f \<circ> f \<circ> f \<circ> f" for f :: "sip_words \<Rightarrow> sip_words"
  by (simp_all add: numeral_eq_Suc comp_assoc)

lemmas SipHash_eval = sip_rounds rotl_ROTL sip_round_def ROTL_def sip_start_def text_word_def of_char_def

text \<open>The reference is anchored by the test vector of the publication: SipHash-2-4 of the bytes 0 to 14 under the key
  with the bytes 0 to 15.\<close>

lemma SipHash_test_vector:
  "SipHash 2 4 0x0706050403020100 0x0f0e0d0c0b0a0908 (map word_of_nat [0..<15]) = 0xa129ca6149be45e5"
proof -
  have blocks: "le_words (sip_pad (map word_of_nat [0..<15])) = [0x0706050403020100, 0x0f0e0d0c0b0a0908]"
    by (simp add: sip_pad_def le_words.simps upt_conv_Cons)
  show ?thesis unfolding SipHash_def blocks by (simp add: SipHash_eval)
qed

lemma SIPROUND_eq: "sip_words_of (SIPROUND s) = sip_round (sip_words_of s)"
  by (simp add: sip_words_of_def SIPROUND_def sip_round_def Let_def ROTL_rotl)

lemma sip_absorb_eq: "sip_words_of (sip_absorb m s) = sip_block 1 m (sip_words_of s)"
  using SIPROUND_eq [of "s\<lparr>sv3 := sv3 s XOR m\<rparr>"]
  by (auto simp: sip_absorb_def Let_def sip_words_of_def split: prod.splits)

lemma fold_sip_absorb: "sip_words_of (fold sip_absorb ms s) = fold (sip_block 1) ms (sip_words_of s)"
  by (induction ms arbitrary: s) (simp_all add: sip_absorb_eq del: One_nat_def)

lemma sip_init_eq: "sip_words_of (sip_init k0 k1) = sip_start k0 k1"
  by (simp add: sip_words_of_def sip_init_def sip_start_def text_word_def of_char_def xor.commute)

lemma sip_rounds_eq:
  "(let s = SIPROUND (SIPROUND (s\<lparr>sv2 := sv2 s XOR 0xff\<rparr>)) in sv0 s XOR sv1 s XOR sv2 s XOR sv3 s) = sip_result 2 (sip_words_of s)"
proof -
  let ?s = "SIPROUND (SIPROUND (s\<lparr>sv2 := sv2 s XOR 0xff\<rparr>))"
  have h: "sip_words_of ?s = (sip_round ^^ 2) (sv0 s, sv1 s, sv2 s XOR 0xff, sv3 s)"
    unfolding SIPROUND_eq by (simp add: sip_words_of_def numeral_2_eq_2)
  show ?thesis using h [symmetric] by (simp add: sip_words_of_def Let_def)
qed

lemma siphash_reference_eq:
  "siphash_reference k0 k1 msg =
     (let s = fold sip_absorb (le_words (sip_pad msg)) (sip_init k0 k1);
          s = SIPROUND (SIPROUND (s\<lparr>sv2 := sv2 s XOR 0xff\<rparr>))
      in sv0 s XOR sv1 s XOR sv2 s XOR sv3 s)"
  using sip_rounds_eq [of "fold sip_absorb (le_words (sip_pad msg)) (sip_init k0 k1)"]
  by (simp add: siphash_reference_def SipHash_def fold_sip_absorb sip_init_eq Let_def)

section \<open>Loads\<close>

lemma word_add_or_push:
  fixes a :: u64
  assumes "unat a < 2 ^ n"
  shows "a + push_bit n x = a OR push_bit n x"
proof (rule disjunctive_add_eq_or)
  have "take_bit n (unat a) = unat a" using assms by (simp add: take_bit_nat_eq_self)
  then have a: "\<not> bit a i" if "n \<le> i" for i
    using that bit_take_bit_iff [of n "unat a" i] by (auto simp: bit_unsigned_iff)
  show "a AND push_bit n x = 0"
    by (rule bit_word_eqI) (use a in \<open>auto simp: bit_and_iff bit_push_bit_iff\<close>)
qed

lemma le_word_Cons: "(word_of_nat (le_nat (b # bs)) :: u64) = ucast b OR push_bit 8 (word_of_nat (le_nat bs))"
proof -
  have "unat (ucast b :: u64) < 2 ^ 8" by (simp add: unat_ucast_up)
  moreover have "(word_of_nat (le_nat (b # bs)) :: u64) = ucast b + push_bit 8 (word_of_nat (le_nat bs))"
    by (simp add: push_bit_eq_mult of_nat_unat)
  ultimately show ?thesis by (simp add: word_add_or_push)
qed

lemma le_nat_append: "le_nat (xs @ ys) = le_nat xs + 256 ^ length xs * le_nat ys"
  by (induction xs) (auto simp: algebra_simps)

lemma le_word_snoc:
  assumes "length bs < 8"
  shows "(word_of_nat (le_nat (bs @ [b])) :: u64) = word_of_nat (le_nat bs) OR push_bit (8 * length bs) (ucast b)"
proof -
  have l: "(256::nat) ^ length bs = 2 ^ (8 * length bs)" by (simp add: power_mult)
  have "le_nat bs < 2 ^ (8 * length bs)" using le_nat_less [of bs] by (simp add: l)
  moreover have "(2::nat) ^ (8 * length bs) \<le> 2 ^ 64" using assms by (intro power_increasing) auto
  ultimately have "unat (word_of_nat (le_nat bs) :: u64) < 2 ^ (8 * length bs)"
    by (simp add: unat_of_nat)
  moreover have "(word_of_nat (le_nat (bs @ [b])) :: u64) = word_of_nat (le_nat bs) + push_bit (8 * length bs) (ucast b)"
    by (simp add: le_nat_append l push_bit_eq_mult of_nat_unat)
  ultimately show ?thesis by (simp add: word_add_or_push)
qed

lemma take8_drop:
  assumes "p + 8 \<le> length m"
  shows "take 8 (drop p m) = [m ! p, m ! (p + 1), m ! (p + 2), m ! (p + 3), m ! (p + 4), m ! (p + 5), m ! (p + 6), m ! (p + 7)]"
  by (rule nth_equalityI) (use assms in \<open>auto simp: less_Suc_eq numeral_eq_Suc\<close>)

lemma load_bytewise_eq:
  assumes "p + 8 \<le> length m"
  shows "load_bytewise m p = Some (word_of_nat (le_nat (take 8 (drop p m))))"
  using assms unfolding take8_drop [OF assms] le_word_Cons
  by (simp add: load_bytewise_def mem_get_def push_bit_or)

lemma U8TO64_LE_NOCASE_map: "U8TO64_LE_NOCASE m p = load_bytewise (map siptlw m) p"
  by (simp add: load_bytewise_def U8TO64_LE_NOCASE_def mem_get_def)

lemma U8TO64_LE_eq:
  assumes "ua \<longrightarrow> \<not> be" "p + 8 \<le> length m"
  shows "U8TO64_LE ua be m p = Some (word_of_nat (le_nat (take 8 (drop p m))))"
  using assms by (simp add: U8TO64_LE_def load_bytewise_eq mem_read_eq host_load_def)

lemma sip_loop_eq:
  assumes "\<And>p. p + 8 \<le> length m \<Longrightarrow> rd p = Some (word_of_nat (le_nat (take 8 (drop p m))))"
    "en \<le> length m" "i \<le> en" "8 dvd en - i"
  shows "sip_loop rd i en s = Some (fold sip_absorb (le_words (take (en - i) (drop i m))) s, en)"
  using assms
proof (induction rd i en s rule: sip_loop.induct)
  case (1 rd i en s)
  show ?case
  proof (cases "i < en")
    case True
    then have le: "8 \<le> en - i" using "1.prems"(4) by (simp add: dvd_imp_le)
    let ?m = "word_of_nat (le_nat (take 8 (drop i m))) :: u64"
    have r: "rd i = Some ?m" using le "1.prems"(1) [of i] "1.prems"(2) by simp
    have d: "8 dvd en - (i + 8)" using "1.prems"(4) le by (metis diff_diff_left dvd_diff_nat dvd_refl)
    have "sip_loop rd (i + 8) en (sip_absorb ?m s) =
        Some (fold sip_absorb (le_words (take (en - (i + 8)) (drop (i + 8) m))) (sip_absorb ?m s), en)"
      by (rule "1.IH" [OF True r]) (use "1.prems" le d in auto)
    moreover have "le_words (take (en - i) (drop i m)) = ?m # le_words (take (en - (i + 8)) (drop (i + 8) m))"
      using le "1.prems"(2) True by (subst le_words.simps) (auto simp: drop_take add.commute min_absorb1)
    ultimately show ?thesis using True r by (subst sip_loop.simps) simp
  next
    case False
    then show ?thesis using "1.prems" by (subst sip_loop.simps) (simp add: le_words.simps)
  qed
qed

lemma sip_switch_eq:
  assumes "p + n \<le> length m" "n \<le> 8"
  shows "sip_switch m p n b = Some (b OR word_of_nat (le_nat (take n (drop p m))))"
  using assms
proof (induction n arbitrary: b)
  case (Suc n)
  have t: "take (Suc n) (drop p m) = take n (drop p m) @ [m ! (p + n)]"
    using Suc.prems by (simp add: take_Suc_conv_app_nth)
  have len: "length (take n (drop p m)) = n" using Suc.prems by simp
  show ?case using Suc unfolding t
    by (simp add: mem_get_def le_word_snoc len or.assoc or.commute or.left_commute)
qed simp

lemma sip_switch_nocase_map: "sip_switch_nocase m p n b = sip_switch (map siptlw m) p n b"
  by (induction n arbitrary: b) (simp_all add: mem_get_def)

lemma le_words_append: "8 dvd length a \<Longrightarrow> le_words (a @ b) = le_words a @ le_words b"
proof (induction a rule: le_words.induct)
  case (1 a)
  show ?case
  proof (cases "a = []")
    case False
    then have "8 \<le> length a" using "1.prems" by (simp add: dvd_imp_le)
    then show ?thesis using 1 False by (simp add: le_words.simps [of "a @ b"] le_words.simps [of a] dvd_diff_nat)
  qed (simp add: le_words.simps [of "[]"])
qed

lemma le_bytes_8: "le_bytes 8 n = [word_of_nat n, word_of_nat (n div 256), word_of_nat (n div 65536), word_of_nat (n div 16777216),
    word_of_nat (n div 4294967296), word_of_nat (n div 1099511627776), word_of_nat (n div 281474976710656),
    word_of_nat (n div 72057594037927936)]"
proof -
  have "(8::nat) = Suc (Suc (Suc (Suc (Suc (Suc (Suc (Suc 0)))))))" by simp
  then show ?thesis by (simp only: le_bytes.simps) (simp add: div_mult2_eq [symmetric])
qed

lemma U64TO8_LE_eq: "U64TO8_LE v = le_bytes 8 (unat v)"
proof -
  have b: "(word_of_nat (unat v div 2 ^ k) :: byte) = ucast (drop_bit k v)" for k
    by (rule bit_word_eqI) (auto simp: bit_simps simp flip: drop_bit_eq_div)
  have lo: "(ucast (drop_bit k (ucast v :: u32)) :: byte) = ucast (drop_bit k v)" if "k \<le> 24" for k
    by (rule bit_word_eqI) (use that in \<open>auto simp: bit_simps\<close>)
  have hi: "(ucast (drop_bit k (ucast (drop_bit 32 v) :: u32)) :: byte) = ucast (drop_bit (32 + k) v)" if "k \<le> 24" for k
    by (rule bit_word_eqI) (use that in \<open>auto simp: bit_simps add_ac\<close>)
  show ?thesis
    using b [of 0] b [of 8] b [of 16] b [of 24] b [of 32] b [of 40] b [of 48] b [of 56]
      lo [of 0] lo [of 8] lo [of 16] lo [of 24] hi [of 0] hi [of 8] hi [of 16] hi [of 24]
    by (simp add: U64TO8_LE_def U32TO8_LE_def le_bytes_8)
qed

lemma le_nat_zeros [simp]: "le_nat (replicate n 0) = 0"
  by (induction n) auto

lemma last_word:
  assumes "length t < 8" "length t = n mod 8"
  shows "(word_of_nat (le_nat (t @ replicate (7 - n mod 8) 0 @ [word_of_nat n])) :: u64) =
    push_bit 56 (word_of_nat n) OR word_of_nat (le_nat t)"
proof -
  let ?bs = "t @ replicate (7 - n mod 8) 0"
  have len: "length ?bs = 7" using assms by simp
  have "(word_of_nat (le_nat (?bs @ [word_of_nat n])) :: u64) = word_of_nat (le_nat ?bs) OR push_bit (8 * length ?bs) (ucast (word_of_nat n :: byte))"
    by (rule le_word_snoc) (simp only: len)
  also have "le_nat ?bs = le_nat t" by (simp add: le_nat_append)
  also have "push_bit (8 * length ?bs) (ucast (word_of_nat n :: byte)) = (push_bit 56 (word_of_nat n) :: u64)"
    unfolding len by (rule bit_word_eqI) (auto simp: bit_simps)
  finally show ?thesis by (simp add: or.commute)
qed

lemma siphash_blocks:
  assumes "inlen \<le> length buf"
  defines "q \<equiv> inlen - inlen mod 8"
  shows "le_words (sip_pad (take inlen buf)) = le_words (take q buf) @
    [push_bit 56 (word_of_nat inlen) OR word_of_nat (le_nat (take (inlen mod 8) (drop q buf)))]"
proof -
  let ?t = "take (inlen mod 8) (drop q buf)"
  have q: "q + inlen mod 8 = inlen" "8 dvd q" by (simp_all add: q_def minus_mod_eq_mult_div)
  have tl: "length ?t = inlen mod 8" using assms q(1) by simp
  have sp: "take inlen buf = take q buf @ ?t" using take_add [of q "inlen mod 8" buf] by (simp add: q(1))
  have ln: "length (take inlen buf) = inlen" using assms(1) by simp
  let ?e = "?t @ replicate (7 - inlen mod 8) 0 @ [word_of_nat inlen]"
  have el: "length ?e = 8" using tl by simp
  have "le_words (sip_pad (take inlen buf)) = le_words (take q buf @ ?e)"
    unfolding sip_pad_def ln by (simp add: sp)
  also have "\<dots> = le_words (take q buf) @ le_words ?e" using q assms(1) by (intro le_words_append) simp
  also have "le_words ?e = [word_of_nat (le_nat ?e)]"
    using el by (subst le_words.simps) (simp add: le_words.simps [of "[]"])
  also have "(word_of_nat (le_nat ?e) :: u64) = push_bit 56 (word_of_nat inlen) OR word_of_nat (le_nat ?t)"
    by (rule last_word [OF _ tl]) (subst tl, simp)
  finally show ?thesis .
qed

lemma host_load_le8: "host_load False (le_bytes 8 (unat h)) = (h :: u64)"
  using host_load_store [of 8 False h] by (simp add: host_store_def)

lemma sip_finish_eq:
  assumes "ua \<longrightarrow> \<not> be"
  shows "sip_finish ua be b s = host_load be (host_store False 8
    (let s = sip_absorb b s; s = SIPROUND (SIPROUND (s\<lparr>sv2 := sv2 s XOR 0xff\<rparr>)) in sv0 s XOR sv1 s XOR sv2 s XOR sv3 s))"
  using assms by (cases ua) (auto simp: sip_finish_def Let_def host_store_def U64TO8_LE_eq host_load_le8)

lemma siphash_eq:
  assumes "ua \<longrightarrow> \<not> be" "16 \<le> length k" "inlen \<le> length buf"
  shows "siphash ua be buf inlen k = Some (host_load be (host_store False 8
    (siphash_reference (word_of_nat (le_nat (take 8 k))) (word_of_nat (le_nat (take 8 (drop 8 k)))) (take inlen buf))))"
proof -
  define k0 k1 :: u64 where "k0 = word_of_nat (le_nat (take 8 k))" and "k1 = word_of_nat (le_nat (take 8 (drop 8 k)))"
  define q where "q = inlen - inlen mod 8"
  have q: "q \<le> length buf" "q + inlen mod 8 \<le> length buf" "8 dvd q - 0" using assms(3) by (simp_all add: q_def minus_mod_eq_mult_div)
  have keys: "U8TO64_LE ua be k 0 = Some k0" "U8TO64_LE ua be k 8 = Some k1"
    using assms(1,2) by (simp_all add: U8TO64_LE_eq k0_def k1_def)
  have l: "sip_loop (U8TO64_LE ua be buf) 0 q (sip_init k0 k1) = Some (fold sip_absorb (le_words (take q buf)) (sip_init k0 k1), q)"
    using sip_loop_eq [OF U8TO64_LE_eq [OF assms(1)], of buf q 0 "sip_init k0 k1"] q by simp
  have "sip_switch buf q (inlen mod 8) (push_bit 56 (word_of_nat inlen)) =
      Some (push_bit 56 (word_of_nat inlen) OR word_of_nat (le_nat (take (inlen mod 8) (drop q buf))))"
    using sip_switch_eq [OF q(2)] by simp
  then show ?thesis
    using keys l siphash_blocks [OF assms(3)]
    by (simp add: siphash_def siphash_reference_eq sip_finish_eq [OF assms(1)] flip: q_def k0_def k1_def)
qed

lemma U8TO64_LE_bytewise:
  assumes "ua \<longrightarrow> \<not> be"
  shows "U8TO64_LE ua be m = load_bytewise m"
proof
  fix p
  show "U8TO64_LE ua be m p = load_bytewise m p"
  proof (cases "p + 8 \<le> length m")
    case True
    then show ?thesis using assms by (simp add: U8TO64_LE_eq load_bytewise_eq)
  next
    case False
    then show ?thesis by (auto simp: U8TO64_LE_def load_bytewise_def mem_read_def mem_get_def)
  qed
qed

lemma siphash_nocase_map:
  assumes "ua \<longrightarrow> \<not> be"
  shows "siphash_nocase ua be buf inlen k = siphash ua be (map siptlw buf) inlen k"
proof -
  have "U8TO64_LE_NOCASE buf = load_bytewise (map siptlw buf)" by (rule ext) (rule U8TO64_LE_NOCASE_map)
  then show ?thesis
    unfolding siphash_nocase_def siphash_def U8TO64_LE_bytewise [OF assms] sip_switch_nocase_map by simp
qed

lemma siptlw_eq: "siptlw c = ascii_lower c"
proof (cases "65 \<le> c \<and> c \<le> 90")
  case True
  then have "unat c \<in> set [65..<91]" unfolding set_upt by (simp add: word_le_nat_alt)
  then have "c \<in> word_of_nat ` set [65..<91]" by (metis imageI of_nat_unat ucast_id)
  then have "c \<in> set (map word_of_nat [65..<91])" by (simp only: set_map)
  then show ?thesis
    by (simp only: upt_conv_Cons [simplified] list.map list.set) (auto simp: upt_conv_Cons siptlw_def ascii_lower_def of_char_def)
next
  case False
  then have "c \<notin> set (map of_char ''ABCDEFGHIJKLMNOPQRSTUVWXYZ'')"
    by (auto simp: of_char_def)
  then show ?thesis using False by (simp add: siptlw_def ascii_lower_def of_char_def)
qed

section \<open>The hash functions\<close>

text \<open>C22: The hash function is SipHash-1-2. With a key of 16 bytes and a buffer that holds the \<open>inlen\<close> bytes, every build
  (word loads on little-endian processors, byte loads on the others) reads only inside of its
  arguments and computes the published function of the padded message, with its own rounds, rotations and
  constants. The result depends on the byte order of the host only by the order in which its eight bytes are read at the end.
\<close>

theorem siphash_correct:
  assumes "ua \<longrightarrow> \<not> be" "16 \<le> length k" "inlen \<le> length buf"
  shows "siphash ua be buf inlen k = Some (host_load be (host_store False 8
    (SipHash 1 2 (word_of_nat (le_nat (take 8 k))) (word_of_nat (le_nat (take 8 (drop 8 k)))) (take inlen buf))))"
  using siphash_eq [OF assms] by (simp only: siphash_reference_def)

theorem siphash_correct_witness:
  "siphash True False [1, 2, 3] 3 (replicate 16 7) = siphash False False [1, 2, 3, 9] 3 (replicate 16 7)"
  using siphash_correct [of True False "replicate 16 7" 3 "[1, 2, 3]"] siphash_correct [of False False "replicate 16 7" 3 "[1, 2, 3, 9]"]
  by simp

text \<open>C23: Hashing without regard to case is SipHash-1-2 of the text in lower case, for every build of the function. The lower case
  is given by the table of the 26 ASCII letters; all other bytes stand for themselves. Every build reads only inside of
  its arguments. Names that differ in the case of ASCII letters only therefore have the same hash.\<close>

theorem siphash_nocase_lower:
  assumes "ua \<longrightarrow> \<not> be" "16 \<le> length k" "inlen \<le> length buf"
  shows "siphash_nocase ua be buf inlen k = Some (host_load be (host_store False 8
    (SipHash 1 2 (word_of_nat (le_nat (take 8 k))) (word_of_nat (le_nat (take 8 (drop 8 k)))) (map ascii_lower (take inlen buf)))))"
proof -
  have "map siptlw = map ascii_lower" by (rule ext) (simp add: siptlw_eq)
  moreover have "inlen \<le> length (map siptlw buf)" using assms(3) by simp
  ultimately show ?thesis
    using siphash_eq [OF assms(1,2)] by (simp add: siphash_nocase_map [OF assms(1)] siphash_reference_def take_map)
qed

theorem siphash_nocase_lower_witness:
  "siphash_nocase True False [71, 69, 84, 64] 4 (replicate 16 7) = siphash_nocase False False [103, 101, 116, 64, 1] 4 (replicate 16 7)"
  using siphash_nocase_lower [of True False "replicate 16 7" 4 "[71, 69, 84, 64]"]
    siphash_nocase_lower [of False False "replicate 16 7" 4 "[103, 101, 116, 64, 1]"]
  by (simp add: ascii_lower_def of_char_def)

end
