(* ===== verification/String_Object.thy ===== *)
theory String_Object
  imports Sds_Args
begin

text \<open>
  Models the string objects of \<^verbatim>\<open>src/object.c\<close>: creation, the three encodings (raw, embedded, integer), the attempt
  to find a smaller encoding, decoding, comparison and conversion to integers.

  A string object is a record of its encoding, what its pointer field holds (an sds or, for the
  integer encoding, the number itself) and its reference count. The eviction clock \<^verbatim>\<open>lru\<close> has no
  influence on these functions and is left out. \<open>None\<close> is a failed assertion, a panic or an access out
  of bounds.
\<close>

section \<open>Objects\<close>

datatype obj_encoding = OBJ_ENCODING_RAW | OBJ_ENCODING_INT | OBJ_ENCODING_EMBSTR

datatype obj_ptr = Ptr_sds sds | Ptr_long s64

record robj =
  encoding :: obj_encoding
  optr :: obj_ptr
  refcount :: int

definition OBJ_SHARED_REFCOUNT :: int where "OBJ_SHARED_REFCOUNT = 2147483647"
definition OBJ_STATIC_REFCOUNT :: int where "OBJ_STATIC_REFCOUNT = OBJ_SHARED_REFCOUNT - 1"
definition OBJ_SHARED_INTEGERS :: int where "OBJ_SHARED_INTEGERS = 10000"
definition OBJ_ENCODING_EMBSTR_SIZE_LIMIT :: nat where "OBJ_ENCODING_EMBSTR_SIZE_LIMIT = 44"

text \<open>The settings these functions read: \<^verbatim>\<open>server.maxmemory\<close> and the policy flag
  \<^verbatim>\<open>MAXMEMORY_FLAG_NO_SHARED_INTEGERS\<close>.\<close>

record server_conf =
  maxmemory :: u64
  no_shared_integers :: bool

definition get_sds :: "robj \<Rightarrow> sds option" where
  "get_sds ob = (case optr ob of Ptr_sds s \<Rightarrow> Some s | Ptr_long _ \<Rightarrow> None)"

definition get_long :: "robj \<Rightarrow> s64 option" where
  "get_long ob = (case optr ob of Ptr_sds _ \<Rightarrow> None | Ptr_long v \<Rightarrow> Some v)"

definition sdsEncodedObject :: "robj \<Rightarrow> bool" where
  "sdsEncodedObject ob \<longleftrightarrow> encoding ob = OBJ_ENCODING_RAW \<or> encoding ob = OBJ_ENCODING_EMBSTR"

definition incrRefCount :: "robj \<Rightarrow> robj option" where
  "incrRefCount ob =
     (if refcount ob < OBJ_STATIC_REFCOUNT then Some (ob\<lparr>refcount := refcount ob + 1\<rparr>)
      else if refcount ob = OBJ_SHARED_REFCOUNT then Some ob
      else if refcount ob = OBJ_STATIC_REFCOUNT then None
      else Some ob)"

text \<open>The inner \<open>None\<close> is an object that has been freed.\<close>

definition decrRefCount :: "robj \<Rightarrow> robj option option" where
  "decrRefCount ob =
     (if refcount ob = 1 then Some None
      else if refcount ob \<le> 0 then None
      else if refcount ob \<noteq> OBJ_SHARED_REFCOUNT then Some (Some (ob\<lparr>refcount := refcount ob - 1\<rparr>))
      else Some (Some ob))"

section \<open>Creation\<close>

definition createObject :: "obj_ptr \<Rightarrow> robj" where
  "createObject p = \<lparr>encoding = OBJ_ENCODING_RAW, optr = p, refcount = 1\<rparr>"

definition makeObjectShared :: "robj \<Rightarrow> robj option" where
  "makeObjectShared ob = do { assert_opt (refcount ob = 1); Some (ob\<lparr>refcount := OBJ_SHARED_REFCOUNT\<rparr>) }"

definition initStaticStringObject :: "sds \<Rightarrow> robj" where
  "initStaticStringObject s = \<lparr>encoding = OBJ_ENCODING_RAW, optr = Ptr_sds s, refcount = OBJ_STATIC_REFCOUNT\<rparr>"

definition createRawStringObject :: "allocator \<Rightarrow> sds_init \<Rightarrow> nat \<Rightarrow> robj option" where
  "createRawStringObject A init len = do { s \<leftarrow> sdsnewlen A init len; Some (createObject (Ptr_sds s)) }"

definition createEmbeddedStringObject :: "allocator \<Rightarrow> sds_init \<Rightarrow> nat \<Rightarrow> robj option" where
  "createEmbeddedStringObject A init len =
     (let sh = \<lparr>sds_type = SDS_TYPE_8, hdr_len = len mod 2 ^ 8, hdr_alloc = len mod 2 ^ 8, sds_buf = fresh_block A (len + 1)\<rparr>
      in do {
        sh \<leftarrow> (case init of
                 SDS_NOINIT \<Rightarrow> buf_put sh len 0
               | Init t \<Rightarrow> do { bs \<leftarrow> mem_read t 0 len; sh \<leftarrow> buf_write sh 0 bs; buf_put sh len 0 }
               | Init_NULL \<Rightarrow> buf_write sh 0 (replicate (len + 1) 0));
        Some \<lparr>encoding = OBJ_ENCODING_EMBSTR, optr = Ptr_sds sh, refcount = 1\<rparr> })"

definition createStringObject :: "allocator \<Rightarrow> sds_init \<Rightarrow> nat \<Rightarrow> robj option" where
  "createStringObject A init len =
     (if len \<le> OBJ_ENCODING_EMBSTR_SIZE_LIMIT then createEmbeddedStringObject A init len
      else createRawStringObject A init len)"

text \<open>The variants whose allocation may fail; the inner \<open>None\<close> is the \<^verbatim>\<open>NULL\<close> they return then.\<close>

definition tryCreateRawStringObject :: "allocator \<Rightarrow> sds_init \<Rightarrow> nat \<Rightarrow> bool \<Rightarrow> robj option option" where
  "tryCreateRawStringObject A init len oom = do {
     str \<leftarrow> sdstrynewlen A init len oom;
     Some (map_option (\<lambda>s. createObject (Ptr_sds s)) str) }"

definition tryCreateStringObject :: "allocator \<Rightarrow> sds_init \<Rightarrow> nat \<Rightarrow> bool \<Rightarrow> robj option option" where
  "tryCreateStringObject A init len oom =
     (if len \<le> OBJ_ENCODING_EMBSTR_SIZE_LIMIT then map_option Some (createEmbeddedStringObject A init len)
      else tryCreateRawStringObject A init len oom)"

text \<open>The table \<^verbatim>\<open>shared.integers\<close>; no object stands for an index outside of it.\<close>

definition shared_integer :: "s64 \<Rightarrow> robj option" where
  "shared_integer v =
     (if 0 \<le> sint v \<and> sint v < OBJ_SHARED_INTEGERS
      then Some \<lparr>encoding = OBJ_ENCODING_INT, optr = Ptr_long v, refcount = OBJ_SHARED_REFCOUNT\<rparr> else None)"

definition createStringObjectFromLongLongWithOptions :: "allocator \<Rightarrow> server_conf \<Rightarrow> s64 \<Rightarrow> bool \<Rightarrow> robj option" where
  "createStringObjectFromLongLongWithOptions A cf value valueobj =
     (let valueobj = (if maxmemory cf = 0 \<or> \<not> no_shared_integers cf then False else valueobj) in
      if sint value \<ge> 0 \<and> sint value < OBJ_SHARED_INTEGERS \<and> \<not> valueobj then Option.bind (shared_integer value) incrRefCount
      else if sint value \<ge> - (2 ^ 63) \<and> sint value \<le> 2 ^ 63 - 1 then
        Some ((createObject (Ptr_long value))\<lparr>encoding := OBJ_ENCODING_INT\<rparr>)
      else do { s \<leftarrow> sdsfromlonglong A value; Some (createObject (Ptr_sds s)) })"

definition createStringObjectFromLongLong :: "allocator \<Rightarrow> server_conf \<Rightarrow> s64 \<Rightarrow> robj option" where
  "createStringObjectFromLongLong A cf value = createStringObjectFromLongLongWithOptions A cf value False"

definition createStringObjectFromLongLongForValue :: "allocator \<Rightarrow> server_conf \<Rightarrow> s64 \<Rightarrow> robj option" where
  "createStringObjectFromLongLongForValue A cf value = createStringObjectFromLongLongWithOptions A cf value True"

definition dupStringObject :: "allocator \<Rightarrow> robj \<Rightarrow> robj option" where
  "dupStringObject A ob =
     (case encoding ob of
        OBJ_ENCODING_RAW \<Rightarrow> do { s \<leftarrow> get_sds ob; createRawStringObject A (Init (sds_buf s)) (sdslen s) }
      | OBJ_ENCODING_EMBSTR \<Rightarrow> do { s \<leftarrow> get_sds ob; createEmbeddedStringObject A (Init (sds_buf s)) (sdslen s) }
      | OBJ_ENCODING_INT \<Rightarrow> Some ((createObject (optr ob))\<lparr>encoding := OBJ_ENCODING_INT\<rparr>))"

section \<open>Encoding and decoding\<close>

definition isSdsRepresentableAsLongLong :: "sds \<Rightarrow> s64 option option" where
  "isSdsRepresentableAsLongLong s = do { bs \<leftarrow> mem_read (sds_buf s) 0 (sdslen s); Some (string2ll bs) }"

text \<open>The inner option is \<^verbatim>\<open>C_ERR\<close> or the number stored.\<close>

definition isObjectRepresentableAsLongLong :: "robj \<Rightarrow> s64 option option" where
  "isObjectRepresentableAsLongLong ob =
     (if encoding ob = OBJ_ENCODING_INT then map_option Some (get_long ob)
      else do { s \<leftarrow> get_sds ob; isSdsRepresentableAsLongLong s })"

definition trimStringObjectIfNeeded :: "allocator \<Rightarrow> robj \<Rightarrow> robj option" where
  "trimStringObjectIfNeeded A ob =
     (if encoding ob = OBJ_ENCODING_RAW then do {
        s \<leftarrow> get_sds ob;
        if sdsavail s > sdslen s div 10 then do {
          s \<leftarrow> sdsRemoveFreeSpace A s False;
          Some (ob\<lparr>optr := Ptr_sds s\<rparr>) }
        else Some ob }
      else Some ob)"

text \<open>The part of \<^verbatim>\<open>tryObjectEncoding\<close> that replaces a string by the number it spells.\<close>

definition encode_long :: "allocator \<Rightarrow> server_conf \<Rightarrow> robj \<Rightarrow> s64 \<Rightarrow> robj option" where
  "encode_long A cf ob value =
     (if (maxmemory cf = 0 \<or> \<not> no_shared_integers cf) \<and> sint value \<ge> 0 \<and> sint value < OBJ_SHARED_INTEGERS then do {
        _ \<leftarrow> decrRefCount ob;
        Option.bind (shared_integer value) incrRefCount }
      else if encoding ob = OBJ_ENCODING_RAW then
        Some (ob\<lparr>encoding := OBJ_ENCODING_INT, optr := Ptr_long value\<rparr>)
      else do {
        _ \<leftarrow> decrRefCount ob;
        createStringObjectFromLongLongForValue A cf value })"

definition tryObjectEncoding :: "allocator \<Rightarrow> server_conf \<Rightarrow> robj \<Rightarrow> robj option" where
  "tryObjectEncoding A cf ob =
     (if \<not> sdsEncodedObject ob then Some ob
      else if refcount ob > 1 then Some ob
      else do {
        s \<leftarrow> get_sds ob;
        let len = sdslen s;
        value \<leftarrow> (if len \<le> 20 then do { bs \<leftarrow> mem_read (sds_buf s) 0 len; Some (string2l bs) } else Some None);
        case value of
          Some value \<Rightarrow> encode_long A cf ob value
        | None \<Rightarrow>
            if len \<le> OBJ_ENCODING_EMBSTR_SIZE_LIMIT then
              (if encoding ob = OBJ_ENCODING_EMBSTR then Some ob
               else do {
                 emb \<leftarrow> createEmbeddedStringObject A (Init (sds_buf s)) (sdslen s);
                 _ \<leftarrow> decrRefCount ob;
                 Some emb })
            else trimStringObjectIfNeeded A ob })"

definition getDecodedObject :: "allocator \<Rightarrow> robj \<Rightarrow> robj option" where
  "getDecodedObject A ob =
     (if sdsEncodedObject ob then incrRefCount ob
      else do {
        v \<leftarrow> get_long ob;
        (n, buf) \<leftarrow> ll2string (fresh_block A 32) 32 v;
        t \<leftarrow> cstr buf;
        createStringObject A (Init buf) (length t) })"

section \<open>Comparison and conversion\<close>

text \<open>The text of an object, as the pointer \<^verbatim>\<open>astr\<close> and the length \<^verbatim>\<open>alen\<close>; a number is printed into a buffer of
  128 bytes.\<close>

definition obj_text :: "allocator \<Rightarrow> robj \<Rightarrow> (bytes \<times> nat) option" where
  "obj_text A ob =
     (if sdsEncodedObject ob then do { s \<leftarrow> get_sds ob; Some (sds_buf s, sdslen s) }
      else do { v \<leftarrow> get_long ob; (n, buf) \<leftarrow> ll2string (fresh_block A 128) 128 v; Some (buf, unat n) })"

text \<open>\<open>same\<close> tells whether the two pointers are equal, \<open>coll\<close> is the flag \<^verbatim>\<open>REDIS_COMPARE_COLL\<close> and \<open>strcoll\<close> the
  collation of the locale. The difference of two lengths is cut to an \<^verbatim>\<open>int\<close>.\<close>

definition compareStringObjectsWithFlags ::
    "allocator \<Rightarrow> (bytes \<Rightarrow> bytes \<Rightarrow> int) \<Rightarrow> bool \<Rightarrow> robj \<Rightarrow> robj \<Rightarrow> bool \<Rightarrow> int option" where
  "compareStringObjectsWithFlags A strcoll same a b coll =
     (if same then Some 0
      else do {
        (astr, alen) \<leftarrow> obj_text A a;
        (bstr, blen) \<leftarrow> obj_text A b;
        if coll then do { x \<leftarrow> cstr astr; y \<leftarrow> cstr bstr; Some (strcoll x y) }
        else do {
          let minlen = (if alen < blen then alen else blen);
          x \<leftarrow> mem_read astr 0 minlen;
          y \<leftarrow> mem_read bstr 0 minlen;
          let cmp = memcmp_sgn x y;
          Some (if cmp = 0 then sint (word_of_nat alen - word_of_nat blen :: 32 word) else cmp) } })"

definition compareStringObjects :: "allocator \<Rightarrow> bool \<Rightarrow> robj \<Rightarrow> robj \<Rightarrow> int option" where
  "compareStringObjects A same a b = compareStringObjectsWithFlags A (\<lambda>_ _. 0) same a b False"

definition collateStringObjects :: "allocator \<Rightarrow> (bytes \<Rightarrow> bytes \<Rightarrow> int) \<Rightarrow> bool \<Rightarrow> robj \<Rightarrow> robj \<Rightarrow> int option" where
  "collateStringObjects A strcoll same a b = compareStringObjectsWithFlags A strcoll same a b True"

definition equalStringObjects :: "allocator \<Rightarrow> bool \<Rightarrow> robj \<Rightarrow> robj \<Rightarrow> bool option" where
  "equalStringObjects A same a b =
     (if encoding a = OBJ_ENCODING_INT \<and> encoding b = OBJ_ENCODING_INT then Some (optr a = optr b)
      else do { r \<leftarrow> compareStringObjects A same a b; Some (r = 0) })"

definition stringObjectLen :: "robj \<Rightarrow> nat option" where
  "stringObjectLen ob =
     (if sdsEncodedObject ob then map_option sdslen (get_sds ob)
      else do { v \<leftarrow> get_long ob; Some (unat (sdigits10 v)) })"

text \<open>The inner option is \<^verbatim>\<open>C_ERR\<close> or the number; the object may be \<^verbatim>\<open>NULL\<close>.\<close>

definition getLongLongFromObject :: "robj option \<Rightarrow> s64 option option" where
  "getLongLongFromObject ob =
     (case ob of
        None \<Rightarrow> Some (Some 0)
      | Some ob \<Rightarrow>
          if sdsEncodedObject ob then do { s \<leftarrow> get_sds ob; bs \<leftarrow> mem_read (sds_buf s) 0 (sdslen s); Some (string2ll bs) }
          else map_option Some (get_long ob))"

text \<open>The functions that reply to the client on failure; the reply is the left value.\<close>

datatype reply_error = Not_an_integer | Out_of_range | Out_of_bounds int int | Msg bytes

text \<open>The text each of them gives to \<^verbatim>\<open>addReplyError\<close>.\<close>

fun reply_error_text :: "reply_error \<Rightarrow> bytes" where
  "reply_error_text Not_an_integer = map of_char ''value is not an integer or out of range''"
| "reply_error_text Out_of_range = map of_char ''value is out of range''"
| "reply_error_text (Out_of_bounds mn mx) =
     map of_char ''value is out of range, value must between '' @ dec_int mn @ map of_char '' and '' @ dec_int mx"
| "reply_error_text (Msg m) = m"

definition or_msg :: "bytes option \<Rightarrow> reply_error \<Rightarrow> reply_error" where
  "or_msg msg e = (case msg of Some m \<Rightarrow> Msg m | None \<Rightarrow> e)"

definition getLongLongFromObjectOrReply :: "robj option \<Rightarrow> bytes option \<Rightarrow> (reply_error + s64) option" where
  "getLongLongFromObjectOrReply ob msg = do {
     r \<leftarrow> getLongLongFromObject ob;
     Some (case r of None \<Rightarrow> Inl (or_msg msg Not_an_integer) | Some v \<Rightarrow> Inr v) }"

definition getLongFromObjectOrReply :: "robj option \<Rightarrow> bytes option \<Rightarrow> (reply_error + s64) option" where
  "getLongFromObjectOrReply ob msg = do {
     r \<leftarrow> getLongLongFromObjectOrReply ob msg;
     Some (case r of
             Inl e \<Rightarrow> Inl e
           | Inr v \<Rightarrow> if sint v < - (2 ^ 63) \<or> sint v > 2 ^ 63 - 1 then Inl (or_msg msg Out_of_range) else Inr v) }"

definition getRangeLongFromObjectOrReply :: "robj option \<Rightarrow> int \<Rightarrow> int \<Rightarrow> bytes option \<Rightarrow> (reply_error + s64) option" where
  "getRangeLongFromObjectOrReply ob mn mx msg = do {
     r \<leftarrow> getLongFromObjectOrReply ob msg;
     Some (case r of
             Inl e \<Rightarrow> Inl e
           | Inr v \<Rightarrow> if sint v < mn \<or> sint v > mx then Inl (or_msg msg (Out_of_bounds mn mx)) else Inr v) }"

definition must_be_positive :: bytes where
  "must_be_positive = map of_char ''value is out of range, must be positive''"

definition getPositiveLongFromObjectOrReply :: "robj option \<Rightarrow> bytes option \<Rightarrow> (reply_error + s64) option" where
  "getPositiveLongFromObjectOrReply ob msg =
     (case msg of
        Some m \<Rightarrow> getRangeLongFromObjectOrReply ob 0 (2 ^ 63 - 1) (Some m)
      | None \<Rightarrow> getRangeLongFromObjectOrReply ob 0 (2 ^ 63 - 1) (Some must_be_positive))"

definition getIntFromObjectOrReply :: "robj option \<Rightarrow> bytes option \<Rightarrow> (reply_error + 32 word) option" where
  "getIntFromObjectOrReply ob msg = do {
     r \<leftarrow> getRangeLongFromObjectOrReply ob (- (2 ^ 31)) (2 ^ 31 - 1) msg;
     Some (case r of Inl e \<Rightarrow> Inl e | Inr v \<Rightarrow> Inr (ucast v)) }"

section \<open>The line a MONITOR client gets\<close>

text \<open>The loop over the arguments in \<^verbatim>\<open>replicationFeedMonitors\<close>.\<close>

fun monitor_args :: "allocator \<Rightarrow> sds \<Rightarrow> robj list \<Rightarrow> sds option" where
  "monitor_args A cmdrepr [] = Some cmdrepr"
| "monitor_args A cmdrepr (ob # argv) = do {
     cmdrepr \<leftarrow> (if encoding ob = OBJ_ENCODING_INT then do {
                   v \<leftarrow> get_long ob;
                   sdscatlen A cmdrepr ([34] @ dec_int (sint v) @ [34]) }
                 else do {
                   s \<leftarrow> get_sds ob;
                   bs \<leftarrow> mem_read (sds_buf s) 0 (sdslen s);
                   sdscatrepr A cmdrepr bs });
     cmdrepr \<leftarrow> (if argv \<noteq> [] then sdscatlen A cmdrepr [32] else Some cmdrepr);
     monitor_args A cmdrepr argv }"


section \<open>Invariant and meaning\<close>

definition obj_ok :: "robj \<Rightarrow> bool" where
  "obj_ok ob \<longleftrightarrow> 1 \<le> refcount ob \<and>
     (case optr ob of
        Ptr_sds s \<Rightarrow> sds_ok s \<and> (encoding ob = OBJ_ENCODING_RAW \<or>
          encoding ob = OBJ_ENCODING_EMBSTR \<and> hdr_len s \<le> OBJ_ENCODING_EMBSTR_SIZE_LIMIT)
      | Ptr_long v \<Rightarrow> encoding ob = OBJ_ENCODING_INT)"

definition obj_str :: "robj \<Rightarrow> bytes" where
  "obj_str ob = (case optr ob of Ptr_sds s \<Rightarrow> sds_str s | Ptr_long v \<Rightarrow> dec_int (sint v))"

lemma obj_cases:
  assumes "obj_ok ob"
  obtains (str) s where "optr ob = Ptr_sds s" "sds_ok s" "obj_str ob = sds_str s" "sdsEncodedObject ob" "get_sds ob = Some s"
      "encoding ob \<noteq> OBJ_ENCODING_INT" "mem_read (sds_buf s) 0 (sdslen s) = Some (sds_str s)" "sdslen s = length (sds_str s)"
    | (int) v where "optr ob = Ptr_long v" "encoding ob = OBJ_ENCODING_INT" "obj_str ob = dec_int (sint v)"
      "\<not> sdsEncodedObject ob" "get_long ob = Some v"
proof (cases "optr ob")
  case (Ptr_sds s)
  then have "sds_ok s" "encoding ob \<noteq> OBJ_ENCODING_INT" "sdsEncodedObject ob"
    using assms by (auto simp: obj_ok_def sdsEncodedObject_def)
  moreover have "mem_read (sds_buf s) 0 (sdslen s) = Some (sds_str s)" "sdslen s = length (sds_str s)"
    using \<open>sds_ok s\<close> by (simp_all add: sds_ok_def sds_str_def sdslen_def mem_read_eq)
  ultimately show ?thesis using str Ptr_sds by (auto simp: obj_str_def get_sds_def)
next
  case (Ptr_long v)
  then show ?thesis using assms int by (auto simp: obj_ok_def obj_str_def sdsEncodedObject_def get_long_def)
qed

lemma string2l_eq: "string2l s = string2ll s"
proof (cases "string2ll s")
  case (Some v)
  have "- (2 ^ 63) \<le> sint v" "sint v \<le> 2 ^ 63 - 1" using sint_ge [of v] sint_lt [of v] by simp_all
  then show ?thesis using Some by (simp add: string2l_def)
qed (simp add: string2l_def)

lemma long_range: "- (2 ^ 63) \<le> sint (v :: s64)" "sint v \<le> 2 ^ 63 - 1"
  using sint_ge [of v] sint_lt [of v] by simp_all

lemma string2ll_iff: "string2ll s = Some v \<longleftrightarrow> s = dec_int (sint v)"
  using string2ll_sound string2ll_complete by metis

lemma dec_int_bound: "length (dec_int (sint (v :: s64))) < 2 ^ 31"
  by (rule le_less_trans [OF length_dec_int]) simp

section \<open>Creation\<close>

definition creates :: "robj option \<Rightarrow> bytes \<Rightarrow> obj_encoding \<Rightarrow> bool" where
  "creates r t e \<longleftrightarrow> (\<exists>ob. r = Some ob \<and> obj_ok ob \<and> obj_str ob = t \<and> encoding ob = e)"

lemma createRaw_ok: "n < 2 ^ 63 \<Longrightarrow> n \<le> length t \<Longrightarrow> creates (createRawStringObject A (Init t) n) (take n t) OBJ_ENCODING_RAW"
  using sdsnewlen_ok [of n t A]
  by (auto simp: creates_def createRawStringObject_def createObject_def obj_ok_def obj_str_def)

lemma createEmbedded_ok:
  assumes "n \<le> OBJ_ENCODING_EMBSTR_SIZE_LIMIT" "n \<le> length t"
  shows "creates (createEmbeddedStringObject A (Init t) n) (take n t) OBJ_ENCODING_EMBSTR"
proof -
  have n: "n \<le> 44" using assms(1) by (simp add: OBJ_ENCODING_EMBSTR_SIZE_LIMIT_def)
  let ?b = "(take n t @ drop n (fresh_block A (n + 1)))[n := 0]"
  let ?sh = "\<lparr>sds_type = SDS_TYPE_8, hdr_len = n, hdr_alloc = n, sds_buf = ?b\<rparr>"
  have len: "length (take n t) = n" using assms(2) by simp
  have "createEmbeddedStringObject A (Init t) n = Some \<lparr>encoding = OBJ_ENCODING_EMBSTR, optr = Ptr_sds ?sh, refcount = 1\<rparr>"
    using n len assms(2) by (simp add: createEmbeddedStringObject_def Let_def mem_read_eq buf_write_eq buf_put_eq)
  moreover have "sds_ok ?sh" "sds_str ?sh = take n t"
    using n len by (simp_all add: sds_ok_def sds_str_def sdsalloc_def)
  ultimately show ?thesis using assms(1) by (simp add: creates_def obj_ok_def obj_str_def)
qed

lemma createString_ok:
  assumes "n < 2 ^ 63" "n \<le> length t"
  shows "\<exists>e. creates (createStringObject A (Init t) n) (take n t) e \<and> e \<noteq> OBJ_ENCODING_INT"
  using createRaw_ok [OF assms, of A] createEmbedded_ok [of n t A] assms(2)
  by (cases "n \<le> OBJ_ENCODING_EMBSTR_SIZE_LIMIT") (auto simp: createStringObject_def)

lemma createFromLong_ok: "creates (createStringObjectFromLongLongWithOptions A cf v b) (dec_int (sint v)) OBJ_ENCODING_INT"
  using long_range [of v]
  by (auto simp: creates_def createStringObjectFromLongLongWithOptions_def Let_def incrRefCount_def shared_integer_def
      OBJ_STATIC_REFCOUNT_def OBJ_SHARED_REFCOUNT_def createObject_def obj_ok_def obj_str_def)

lemma dupStringObject_ok:
  assumes "obj_ok ob" "length (obj_str ob) < 2 ^ 63"
  shows "creates (dupStringObject A ob) (obj_str ob) (encoding ob)"
  using assms(1)
proof (cases rule: obj_cases)
  case (str s)
  have le: "sdslen s < 2 ^ 63" "sdslen s \<le> length (sds_buf s)" "take (sdslen s) (sds_buf s) = sds_str s"
    using str assms(2) by (auto simp: sds_ok_def sdslen_def sds_str_def)
  show ?thesis
  proof (cases "encoding ob")
    case OBJ_ENCODING_RAW
    then show ?thesis using createRaw_ok [OF le(1,2), of A] le(3) str by (simp add: dupStringObject_def)
  next
    case OBJ_ENCODING_EMBSTR
    then have "sdslen s \<le> OBJ_ENCODING_EMBSTR_SIZE_LIMIT" using assms(1) str(1) by (auto simp: obj_ok_def sdslen_def)
    then show ?thesis using createEmbedded_ok [OF _ le(2), of A] le(3) str OBJ_ENCODING_EMBSTR by (simp add: dupStringObject_def)
  qed (use str in simp)
next
  case (int v)
  then show ?thesis by (simp add: dupStringObject_def creates_def createObject_def obj_ok_def obj_str_def)
qed

section \<open>Encoding\<close>

lemma encode_long_ok:
  assumes "obj_ok ob" "sdsEncodedObject ob" "refcount ob = 1"
  shows "creates (encode_long A cf ob v) (dec_int (sint v)) OBJ_ENCODING_INT"
proof -
  have d: "decrRefCount ob = Some None" using assms(3) by (simp add: decrRefCount_def)
  have sh: "creates (Option.bind (shared_integer v) incrRefCount) (dec_int (sint v)) OBJ_ENCODING_INT" if "0 \<le> sint v" "sint v < OBJ_SHARED_INTEGERS"
    using that by (simp add: creates_def incrRefCount_def shared_integer_def OBJ_STATIC_REFCOUNT_def OBJ_SHARED_REFCOUNT_def obj_ok_def obj_str_def)
  have raw: "creates (Some (ob\<lparr>encoding := OBJ_ENCODING_INT, optr := Ptr_long v\<rparr>)) (dec_int (sint v)) OBJ_ENCODING_INT"
    using assms(3) by (simp add: creates_def obj_ok_def obj_str_def)
  show ?thesis using sh raw createFromLong_ok [of A cf v True] d
    by (simp add: encode_long_def createStringObjectFromLongLongForValue_def)
qed

lemma trim_ok:
  assumes "obj_ok ob" "length (obj_str ob) < 2 ^ 63"
  shows "creates (trimStringObjectIfNeeded A ob) (obj_str ob) (encoding ob)"
  using assms(1)
proof (cases rule: obj_cases)
  case (str s)
  have n: "hdr_len s < 2 ^ 63" using str assms(2) by simp
  obtain s' where "sdsRemoveFreeSpace A s False = Some s'" "sds_ok s'" "sds_str s' = sds_str s"
    using sdsRemoveFreeSpace_ok [OF str(2) n] by blast
  then show ?thesis using str assms(1) by (auto simp: trimStringObjectIfNeeded_def creates_def obj_ok_def obj_str_def)
next
  case (int v)
  then show ?thesis using assms(1) by (simp add: trimStringObjectIfNeeded_def creates_def)
qed

lemma tryObjectEncoding_ok:
  assumes "obj_ok ob" "length (obj_str ob) < 2 ^ 63"
  shows "\<exists>ob'. tryObjectEncoding A cf ob = Some ob' \<and> obj_ok ob' \<and> obj_str ob' = obj_str ob \<and>
    (refcount ob = 1 \<longrightarrow> (encoding ob' = OBJ_ENCODING_INT \<longleftrightarrow> encoding ob = OBJ_ENCODING_INT \<or> (\<exists>v :: s64. obj_str ob = dec_int (sint v))))"
  using assms(1)
proof (cases rule: obj_cases)
  case (int v)
  then show ?thesis using assms(1) by (simp add: tryObjectEncoding_def)
next
  case (str s)
  show ?thesis
  proof (cases "refcount ob = 1")
    case False
    then have "refcount ob > 1" using assms(1) by (simp add: obj_ok_def)
    then show ?thesis using assms(1) str by (simp add: tryObjectEncoding_def)
  next
    case True
    define num where "num = string2ll (sds_str s)"
    have short: "length (sds_str s) \<le> 20" if "num = Some v" for v
      using that length_dec_int [of v] by (simp add: num_def string2ll_iff)
    have v: "(if sdslen s \<le> 20 then do { bs \<leftarrow> mem_read (sds_buf s) 0 (sdslen s); Some (string2l bs) } else Some None) = Some num"
      using str short by (cases num) (auto simp: string2l_eq num_def)
    show ?thesis
    proof (cases num)
      case (Some w)
      then have "sds_str s = dec_int (sint w)" by (simp add: num_def string2ll_iff)
      moreover obtain ob' where "encode_long A cf ob w = Some ob'" "obj_ok ob'" "obj_str ob' = dec_int (sint w)" "encoding ob' = OBJ_ENCODING_INT"
        using encode_long_ok [OF assms(1) str(4) True, of A cf w] by (auto simp: creates_def)
      ultimately show ?thesis using v True str Some by (auto simp: tryObjectEncoding_def Let_def)
    next
      case None
      then have no: "\<nexists>v :: s64. obj_str ob = dec_int (sint v)" using str(3) string2ll_iff [of "sds_str s"] by (auto simp: num_def)
      have d: "decrRefCount ob = Some None" using True by (simp add: decrRefCount_def)
      have le: "sdslen s \<le> length (sds_buf s)" "take (sdslen s) (sds_buf s) = sds_str s"
        using str by (auto simp: sds_ok_def sdslen_def sds_str_def)
      show ?thesis
      proof (cases "sdslen s \<le> OBJ_ENCODING_EMBSTR_SIZE_LIMIT")
        case small: True
        obtain emb where "createEmbeddedStringObject A (Init (sds_buf s)) (sdslen s) = Some emb" "obj_ok emb" "obj_str emb = sds_str s"
          "encoding emb = OBJ_ENCODING_EMBSTR"
          using createEmbedded_ok [OF small le(1), of A] le(2) by (auto simp: creates_def)
        then show ?thesis using v None True str small d no assms(1)
          by (cases "encoding ob = OBJ_ENCODING_EMBSTR") (auto simp: tryObjectEncoding_def Let_def)
      next
        case large: False
        obtain ob' where "trimStringObjectIfNeeded A ob = Some ob'" "obj_ok ob'" "obj_str ob' = obj_str ob" "encoding ob' = encoding ob"
          using trim_ok [OF assms, of A] by (auto simp: creates_def)
        then show ?thesis using v None True str large no by (auto simp: tryObjectEncoding_def Let_def)
      qed
    qed
  qed
qed

section \<open>Observers depend on the text only\<close>

lemma printed_number:
  assumes "21 \<le> unat (n :: u64)"
  shows "ll2string (fresh_block A (unat n)) n v =
    Some (word_of_nat (length (dec_int (sint v))), dec_int (sint v) @ 0 # drop (length (dec_int (sint v)) + 1) (fresh_block A (unat n)))"
proof -
  have "length (dec_int (sint v)) < unat n" using length_dec_int [of v] assms by linarith
  then show ?thesis using ll2string_correct [of n "fresh_block A (unat n)" v] assms by simp
qed

lemma unat_len_dec: "unat (word_of_nat (length (dec_int (sint (v :: s64)))) :: u32) = length (dec_int (sint v))"
  using length_dec_int [of v] by (simp add: unat_of_nat)

lemma obj_text_eq:
  assumes "obj_ok ob"
  shows "\<exists>b r. obj_text A ob = Some (b, length (obj_str ob)) \<and> length (obj_str ob) \<le> length b \<and> take (length (obj_str ob)) b = obj_str ob"
  using assms
proof (cases rule: obj_cases)
  case (str s)
  then show ?thesis by (auto simp: obj_text_def sds_ok_def sds_str_def sdslen_def)
next
  case (int v)
  have "ll2string (fresh_block A 128) 128 v =
      Some (word_of_nat (length (dec_int (sint v))), dec_int (sint v) @ 0 # drop (length (dec_int (sint v)) + 1) (fresh_block A 128))"
    using printed_number [of 128 A v] by simp
  then show ?thesis using int by (simp add: obj_text_def unat_len_dec)
qed

lemma zero_not_in_dec: "0 \<notin> set (dec_int i)"
proof -
  have "0 \<notin> set (dec_nat n)" for n using is_digit_dec_nat [of 0 n] by (auto simp: is_digit_def)
  then show ?thesis by (simp add: dec_int_def)
qed

lemma getDecodedObject_ok:
  assumes "obj_ok ob" "refcount ob \<noteq> OBJ_STATIC_REFCOUNT" "length (obj_str ob) < 2 ^ 63"
  shows "\<exists>ob'. getDecodedObject A ob = Some ob' \<and> obj_ok ob' \<and> obj_str ob' = obj_str ob \<and> sdsEncodedObject ob'"
  using assms(1)
proof (cases rule: obj_cases)
  case (str s)
  have "\<exists>r\<ge>1. incrRefCount ob = Some (ob\<lparr>refcount := r\<rparr>)"
    using assms(1,2) by (auto simp: incrRefCount_def obj_ok_def intro: exI [of _ "refcount ob + 1"] exI [of _ "refcount ob"])
  then show ?thesis using assms(1) str by (auto simp: getDecodedObject_def obj_ok_def obj_str_def sdsEncodedObject_def)
next
  case (int v)
  let ?d = "dec_int (sint v)"
  let ?b = "?d @ 0 # drop (length ?d + 1) (fresh_block A 32)"
  have l: "ll2string (fresh_block A 32) 32 v = Some (word_of_nat (length ?d), ?b)" using printed_number [of 32 A v] by simp
  obtain e where e: "creates (createStringObject A (Init ?b) (length ?d)) ?d e" "e \<noteq> OBJ_ENCODING_INT"
    using createString_ok [of "length ?d" ?b A] dec_int_bound [of v] by auto
  then show ?thesis using int l cstr_append [OF zero_not_in_dec]
    by (auto simp: getDecodedObject_def creates_def obj_ok_def sdsEncodedObject_def split: obj_ptr.splits)
qed

lemma length_difference:
  assumes "a < 2 ^ 31" "b < 2 ^ 31"
  shows "sint (word_of_nat a - word_of_nat b :: 32 word) = int a - int b"
proof -
  have w: "(word_of_nat a - word_of_nat b :: 32 word) = word_of_int (int a - int b)" by simp
  have "- (2 ^ 31) \<le> int a - int b" "int a - int b < 2 ^ 31" using assms by simp_all
  then show ?thesis unfolding w sint_sbintrunc' by (intro signed_take_bit_int_eq_self) simp_all
qed

lemma compareStringObjects_ok:
  assumes "obj_ok a" "obj_ok b" "length (obj_str a) < 2 ^ 31" "length (obj_str b) < 2 ^ 31" "same \<longrightarrow> a = b"
  shows "\<exists>r. compareStringObjects A same a b = Some r \<and>
    sgn r = (if obj_str a = obj_str b then 0 else if obj_str a < obj_str b then -1 else 1)"
proof (cases same)
  case True
  then show ?thesis using assms(5) by (simp add: compareStringObjects_def compareStringObjectsWithFlags_def)
next
  case False
  let ?x = "obj_str a" and ?y = "obj_str b"
  obtain ba bb where t: "obj_text A a = Some (ba, length ?x)" "length ?x \<le> length ba" "take (length ?x) ba = ?x"
    "obj_text A b = Some (bb, length ?y)" "length ?y \<le> length bb" "take (length ?y) bb = ?y"
    using obj_text_eq [OF assms(1), of A] obj_text_eq [OF assms(2), of A] by auto
  define m where "m = min (length ?x) (length ?y)"
  have me: "(if length ?x < length ?y then length ?x else length ?y) = m" by (simp add: m_def)
  have rd: "mem_read ba 0 m = Some (take m ?x)" "mem_read bb 0 m = Some (take m ?y)"
    using t(2,3,5,6) by (auto simp: m_def mem_read_eq min_def take_take [symmetric] simp del: take_take)
      (metis min.absorb1 take_take nat_le_linear)+
  have eq: "length (take m ?x) = length (take m ?y)" by (simp add: m_def)
  have r: "compareStringObjects A same a b = Some (if memcmp_sgn (take m ?x) (take m ?y) = 0 then int (length ?x) - int (length ?y)
      else memcmp_sgn (take m ?x) (take m ?y))"
    using False t(1,4) rd assms(3,4) by (simp add: compareStringObjects_def compareStringObjectsWithFlags_def me length_difference)
  show ?thesis unfolding r memcmp_sgn_eq [OF eq] using lex_prefix_compare [of ?x ?y, folded m_def]
    by (cases "take m ?x = take m ?y") (auto simp: m_def sgn_if min_def split: if_splits)
qed

lemma equalStringObjects_ok:
  assumes "obj_ok a" "obj_ok b" "length (obj_str a) < 2 ^ 31" "length (obj_str b) < 2 ^ 31" "same \<longrightarrow> a = b"
  shows "equalStringObjects A same a b = Some (obj_str a = obj_str b)"
proof (cases "encoding a = OBJ_ENCODING_INT \<and> encoding b = OBJ_ENCODING_INT")
  case True
  obtain v w where vw: "optr a = Ptr_long v" "optr b = Ptr_long w" "obj_str a = dec_int (sint v)" "obj_str b = dec_int (sint w)"
    using assms(1,2) True by (auto elim!: obj_cases)
  then have "obj_str a = obj_str b \<longleftrightarrow> v = w" using string2ll_complete by (metis option.inject)
  then show ?thesis using True vw by (simp add: equalStringObjects_def)
next
  case False
  obtain r where "compareStringObjects A same a b = Some r"
    "sgn r = (if obj_str a = obj_str b then 0 else if obj_str a < obj_str b then -1 else 1)"
    using compareStringObjects_ok [OF assms] by blast
  moreover from this(2) have "r = 0 \<longleftrightarrow> obj_str a = obj_str b" by (auto simp: sgn_if split: if_splits)
  ultimately show ?thesis using False by (auto simp: equalStringObjects_def)
qed

lemma stringObjectLen_ok:
  assumes "obj_ok ob"
  shows "stringObjectLen ob = Some (length (obj_str ob))"
  using assms
proof (cases rule: obj_cases)
  case (int v)
  then show ?thesis by (simp add: stringObjectLen_def sdigits10_length)
qed (simp add: stringObjectLen_def)

lemma getLongLongFromObject_ok:
  assumes "obj_ok ob"
  shows "\<exists>r. getLongLongFromObject (Some ob) = Some r \<and> (\<forall>v. r = Some v \<longleftrightarrow> obj_str ob = dec_int (sint v))"
  using assms
proof (cases rule: obj_cases)
  case (str s)
  then show ?thesis by (simp add: getLongLongFromObject_def string2ll_iff)
next
  case (int v)
  have "dec_int (sint v) = dec_int (sint w) \<longleftrightarrow> v = w" for w :: s64 using string2ll_complete by (metis option.inject)
  then show ?thesis using int by (auto simp: getLongLongFromObject_def)
qed

section \<open>Properties\<close>

text \<open>C29: Finding a smaller encoding never changes the text. For every well-formed string object, whatever its
  encoding, reference count and the server's settings, \<^verbatim>\<open>tryObjectEncoding\<close> returns a well-formed object with the same
  text; an unshared object ends up integer-encoded exactly when its text is the canonical decimal
  representation of a 64-bit integer.\<close>

theorem tryObjectEncoding_transparent:
  assumes "obj_ok ob" "length (obj_str ob) < 2 ^ 63"
  shows "\<exists>ob'. tryObjectEncoding A cf ob = Some ob' \<and> obj_ok ob' \<and> obj_str ob' = obj_str ob \<and>
    (refcount ob = 1 \<longrightarrow> (encoding ob' = OBJ_ENCODING_INT \<longleftrightarrow> encoding ob = OBJ_ENCODING_INT \<or> (\<exists>v :: s64. obj_str ob = dec_int (sint v))))"
  by (rule tryObjectEncoding_ok) (rule assms)+

definition raw_example :: robj where
  "raw_example = \<lparr>encoding = OBJ_ENCODING_RAW,
     optr = Ptr_sds \<lparr>sds_type = SDS_TYPE_8, hdr_len = 2, hdr_alloc = 3, sds_buf = [52, 50, 0, 0]\<rparr>, refcount = 1\<rparr>"

lemma raw_example_ok: "obj_ok raw_example" "obj_str raw_example = [52, 50]"
  by (simp_all add: raw_example_def obj_ok_def obj_str_def sds_ok_def sds_str_def sdsalloc_def)

lemma dec_42: "dec_int 42 = [52, 50]"
  by (simp add: dec_int_def dec_nat.simps)

theorem tryObjectEncoding_transparent_witness:
  "\<exists>ob'. tryObjectEncoding plain_allocator \<lparr>maxmemory = 0, no_shared_integers = False\<rparr> raw_example = Some ob' \<and>
     obj_str ob' = [52, 50] \<and> encoding ob' = OBJ_ENCODING_INT"
proof -
  have "\<exists>v :: s64. obj_str raw_example = dec_int (sint v)"
    by (rule exI [of _ 42]) (simp add: raw_example_ok dec_42)
  moreover have "refcount raw_example = 1" by (simp add: raw_example_def)
  ultimately show ?thesis
    using tryObjectEncoding_transparent [of raw_example plain_allocator "\<lparr>maxmemory = 0, no_shared_integers = False\<rparr>"] raw_example_ok by auto
qed

text \<open>C30: What a client sees of a string object depends on its text only. Comparison orders the texts as byte
  sequences, equality is equality of the texts even between different encodings, the length is the length
  of the text, and the integer value exists exactly for canonical decimal texts.\<close>

theorem string_objects_by_text:
  assumes "obj_ok a" "obj_ok b" "length (obj_str a) < 2 ^ 31" "length (obj_str b) < 2 ^ 31" "same \<longrightarrow> a = b"
  shows "equalStringObjects A same a b = Some (obj_str a = obj_str b) \<and>
    (\<exists>r. compareStringObjects A same a b = Some r \<and>
      sgn r = (if obj_str a = obj_str b then 0 else if obj_str a < obj_str b then -1 else 1)) \<and>
    stringObjectLen a = Some (length (obj_str a)) \<and>
    (\<exists>r. getLongLongFromObject (Some a) = Some r \<and> (\<forall>v. r = Some v \<longleftrightarrow> obj_str a = dec_int (sint v)))"
  using equalStringObjects_ok [OF assms] compareStringObjects_ok [OF assms] stringObjectLen_ok [OF assms(1)]
    getLongLongFromObject_ok [OF assms(1)] by simp

definition int_example :: robj where
  "int_example = \<lparr>encoding = OBJ_ENCODING_INT, optr = Ptr_long 42, refcount = OBJ_SHARED_REFCOUNT\<rparr>"

lemma int_example_ok: "obj_ok int_example" "obj_str int_example = [52, 50]"
  by (simp_all add: int_example_def obj_ok_def obj_str_def OBJ_SHARED_REFCOUNT_def dec_42)

theorem string_objects_by_text_witness:
  "equalStringObjects plain_allocator False raw_example int_example = Some True \<and> stringObjectLen raw_example = Some 2"
  using string_objects_by_text [of raw_example int_example False plain_allocator] raw_example_ok int_example_ok by simp

lemma sint_ucast_int:
  assumes "- (2 ^ 31) \<le> sint (v :: s64)" "sint v \<le> 2 ^ 31 - 1"
  shows "sint (ucast v :: 32 word) = sint v"
proof -
  have "(ucast v :: 32 word) = word_of_int (sint v)" by (rule bit_word_eqI) (auto simp: bit_simps)
  then show ?thesis using assms by (simp only: sint_sbintrunc') (intro signed_take_bit_int_eq_self, simp_all)
qed

lemma ucast_int: "(ucast (v :: s64) :: 32 word) = word_of_int (sint v)"
  by (rule bit_word_eqI) (auto simp: bit_simps)

lemma getRange_number:
  assumes "obj_ok ob" "obj_str ob = dec_int (sint v)"
  shows "getRangeLongFromObjectOrReply (Some ob) mn mx msg =
    Some (if mn \<le> sint v \<and> sint v \<le> mx then Inr v else Inl (or_msg msg (Out_of_bounds mn mx)))"
proof -
  have "getLongLongFromObject (Some ob) = Some (Some v)" using getLongLongFromObject_ok [OF assms(1)] assms(2) by auto
  then show ?thesis using long_range [of v]
    by (auto simp: getRangeLongFromObjectOrReply_def getLongFromObjectOrReply_def getLongLongFromObjectOrReply_def)
qed

lemma getRange_other:
  assumes "obj_ok ob" "\<nexists>v :: s64. obj_str ob = dec_int (sint v)"
  shows "getRangeLongFromObjectOrReply (Some ob) mn mx msg = Some (Inl (or_msg msg Not_an_integer))"
proof -
  obtain r where "getLongLongFromObject (Some ob) = Some r" "\<forall>v. r = Some v \<longleftrightarrow> obj_str ob = dec_int (sint v)"
    using getLongLongFromObject_ok [OF assms(1)] by blast
  moreover from this(2) have "r = None" using assms(2) by (cases r) auto
  ultimately show ?thesis
    by (simp add: getRangeLongFromObjectOrReply_def getLongFromObjectOrReply_def getLongLongFromObjectOrReply_def)
qed

text \<open>The reply of the three readers with its error given by text.\<close>

abbreviation with_text :: "(reply_error + 'a) option \<Rightarrow> (bytes + 'a) option" where
  "with_text \<equiv> map_option (map_sum reply_error_text id)"

text \<open>The three error messages, which a message of the caller replaces.\<close>

definition instead_of :: "bytes option \<Rightarrow> bytes \<Rightarrow> bytes" where
  "instead_of msg t = (case msg of Some m \<Rightarrow> m | None \<Rightarrow> t)"

definition bounds_message :: "int \<Rightarrow> int \<Rightarrow> bytes" where
  "bounds_message lo hi = map of_char ''value is out of range, value must between '' @ dec_int lo @ map of_char '' and '' @ dec_int hi"

definition integer_message :: bytes where
  "integer_message = map of_char ''value is not an integer or out of range''"

definition positive_message :: bytes where
  "positive_message = map of_char ''value is out of range, must be positive''"

text \<open>C31: Conversion of an argument to a number never truncates, and every failure gets its own reply. If the text of the object
  is the canonical decimal representation of a 64-bit integer, the ranged conversion returns that number when it is in the range
  and otherwise replies with the message of the caller or, without one, with the text that names the two bounds; the
  conversion to \<^verbatim>\<open>int\<close> does the same for the range of an \<^verbatim>\<open>int\<close>, and the conversion to a positive number for the numbers from 0 on,
  with its own default message. For every other text all three reply with the message of the caller or, without one,
  that the value is not an integer (the positive conversion with its own message again).\<close>

theorem getIntFromObject_exact:
  assumes "obj_ok ob"
  shows "(\<forall>v :: s64. obj_str ob = dec_int (sint v) \<longrightarrow>
      with_text (getRangeLongFromObjectOrReply (Some ob) mn mx msg) =
        Some (if mn \<le> sint v \<and> sint v \<le> mx then Inr v else Inl (instead_of msg (bounds_message mn mx))) \<and>
      with_text (getIntFromObjectOrReply (Some ob) msg) =
        Some (if - (2 ^ 31) \<le> sint v \<and> sint v \<le> 2 ^ 31 - 1 then Inr (word_of_int (sint v)) else Inl (instead_of msg (bounds_message (- (2 ^ 31)) (2 ^ 31 - 1)))) \<and>
      with_text (getPositiveLongFromObjectOrReply (Some ob) msg) = Some (if 0 \<le> sint v then Inr v else Inl (instead_of msg positive_message))) \<and>
    ((\<nexists>v :: s64. obj_str ob = dec_int (sint v)) \<longrightarrow>
      with_text (getRangeLongFromObjectOrReply (Some ob) mn mx msg) = Some (Inl (instead_of msg integer_message)) \<and>
      with_text (getIntFromObjectOrReply (Some ob) msg) = Some (Inl (instead_of msg integer_message)) \<and>
      with_text (getPositiveLongFromObjectOrReply (Some ob) msg) = Some (Inl (instead_of msg positive_message)))"
proof (intro conjI allI impI, goal_cases)
  case (1 v)
  then show ?case using getRange_number [OF assms] by (cases msg) (simp_all add: or_msg_def instead_of_def bounds_message_def)
next
  case (2 v)
  then show ?case using getRange_number [OF assms, of v "- (2 ^ 31)" "2 ^ 31 - 1" msg]
    by (cases msg) (simp_all add: getIntFromObjectOrReply_def or_msg_def instead_of_def bounds_message_def ucast_int)
next
  case (3 v)
  have "sint v \<le> 2 ^ 63 - 1" using long_range [of v] by simp
  then show ?case using getRange_number [OF assms 3] by (cases msg) (simp_all add: getPositiveLongFromObjectOrReply_def or_msg_def instead_of_def positive_message_def must_be_positive_def)
next
  case 4
  then show ?case using getRange_other [OF assms] by (cases msg) (simp_all add: or_msg_def instead_of_def integer_message_def)
next
  case 5
  then show ?case using getRange_other [OF assms] by (cases msg) (simp_all add: getIntFromObjectOrReply_def or_msg_def instead_of_def integer_message_def)
next
  case 6
  then show ?case using getRange_other [OF assms] by (cases msg) (simp_all add: getPositiveLongFromObjectOrReply_def or_msg_def instead_of_def positive_message_def must_be_positive_def)
qed

theorem getIntFromObject_exact_witness:
  "with_text (getIntFromObjectOrReply (Some raw_example) None) = Some (Inr 42) \<and>
   with_text (getRangeLongFromObjectOrReply (Some raw_example) 50 60 (Some [33])) = Some (Inl [33])"
proof -
  have h: "obj_str raw_example = dec_int (sint (42 :: s64))" by (simp add: raw_example_ok dec_42)
  note w = getIntFromObject_exact [OF raw_example_ok(1), THEN conjunct1, rule_format, OF h]
  show ?thesis using w [of 0 0 None] w [of 50 60 "Some [33]"] by (simp add: instead_of_def)
qed

lemma repr_char_digit: "is_digit c \<or> c = 45 \<Longrightarrow> repr_char c = [c]"
  by (auto simp: repr_char_def isprint_def is_digit_iff word_le_nat_alt)

lemma repr_dec: "repr (dec_int i) = [34] @ dec_int i @ [34]"
proof -
  have "concat (map repr_char ds) = ds" if "\<forall>c\<in>set ds. is_digit c \<or> c = 45" for ds
    using that by (induction ds) (auto simp: repr_char_digit)
  moreover have "\<forall>c\<in>set (dec_int i). is_digit c \<or> c = 45" using is_digit_dec_nat by (auto simp: dec_int_def)
  ultimately show ?thesis by (simp add: repr_def)
qed

lemma length_repr: "length (repr p) \<le> 4 * length p + 2"
proof -
  have "length (concat (map repr_char p)) \<le> 4 * length p" by (induction p) (auto simp: repr_char_def)
  then show ?thesis by (simp add: repr_def)
qed

lemma monitor_args_eq:
  assumes "sds_ok s" "list_all obj_ok argv" "length (sds_str s) + length (repr_line (map obj_str argv)) < 2 ^ 63"
  shows "\<exists>s'. monitor_args A s argv = Some s' \<and> sds_ok s' \<and> sds_str s' = sds_str s @ repr_line (map obj_str argv)"
  using assms
proof (induction argv arbitrary: s)
  case (Cons ob argv)
  let ?t = "obj_str ob"
  let ?cat = "if encoding ob = OBJ_ENCODING_INT then do { v \<leftarrow> get_long ob; sdscatlen A s ([34] @ dec_int (sint v) @ [34]) }
    else do { x \<leftarrow> get_sds ob; bs \<leftarrow> mem_read (sds_buf x) 0 (sdslen x); sdscatrepr A s bs }"
  have ok: "obj_ok ob" "list_all obj_ok argv" using Cons.prems(2) by simp_all
  have len: "length (sds_str s) + length (repr ?t) < 2 ^ 63" using Cons.prems(3) by simp
  have "\<exists>s1. ?cat = Some s1 \<and> sds_ok s1 \<and> sds_str s1 = sds_str s @ repr ?t"
    using ok(1)
  proof (cases rule: obj_cases)
    case (str x)
    then show ?thesis using sdscatrepr_eq [OF Cons.prems(1) len] by simp
  next
    case (int v)
    then show ?thesis using sds_buffer.cat_law [OF Cons.prems(1), of "repr ?t" A] len by (simp add: repr_dec)
  qed
  then obtain s1 where s1: "?cat = Some s1" "sds_ok s1" "sds_str s1 = sds_str s @ repr ?t" by blast
  define b :: bytes where "b = (if argv = [] then [] else [32])"
  obtain s2 where s2: "(if argv \<noteq> [] then sdscatlen A s1 [32] else Some s1) = Some s2" "sds_ok s2" "sds_str s2 = sds_str s1 @ b"
    using sds_buffer.cat_law [OF s1(2), of "[32]" A] Cons.prems(3) s1 by (cases "argv = []") (auto simp: b_def)
  have "length (sds_str s2) + length (repr_line (map obj_str argv)) < 2 ^ 63"
    using Cons.prems(3) s1(3) s2(3) by (cases argv) (auto simp: b_def)
  then show ?case using Cons.IH [OF s2(2) ok(2)] s1 s2 by (cases argv) (auto simp: b_def)
qed simp

text \<open>What MONITOR prints can be read back. The arguments of a command, whatever bytes they hold and however they
  are encoded, are printed behind the text already there, and the argument parser applied to that part of the line returns
  exactly the texts of the arguments.\<close>

lemma monitor_line_roundtrip:
  assumes "sds_ok s" "list_all obj_ok argv" "\<forall>ob\<in>set argv. length (obj_str ob) < 2 ^ 62"
    "length (sds_str s) + length (repr_line (map obj_str argv)) < 2 ^ 63"
  shows "\<exists>s' ts. monitor_args A s argv = Some s' \<and> sds_ok s' \<and> take (length (sds_str s)) (sds_str s') = sds_str s \<and>
    sdssplitargs A (drop (length (sds_str s)) (sds_buf s')) = Some (Some ts) \<and> map sds_str ts = map obj_str argv"
proof -
  obtain s' where s': "monitor_args A s argv = Some s'" "sds_ok s'" "sds_str s' = sds_str s @ repr_line (map obj_str argv)"
    using monitor_args_eq [OF assms(1,2,4)] by blast
  have "sds_buf s' = sds_str s' @ 0 # drop (hdr_len s' + 1) (sds_buf s')"
    using s'(2) by (simp add: sds_ok_def sds_str_def id_take_nth_drop [symmetric] flip: Suc_eq_plus1)
      (metis id_take_nth_drop less_le_trans not_le order_le_less_trans)
  then have "drop (length (sds_str s)) (sds_buf s') = repr_line (map obj_str argv) @ 0 # drop (hdr_len s' + 1) (sds_buf s')"
    unfolding s'(3) by (metis append.assoc append_eq_conv_conj)
  moreover have "\<forall>p\<in>set (map obj_str argv). length p < 2 ^ 62" using assms(3) by simp
  from args_loop_repr [OF this, of "[]" A "[]"]
  obtain ts where "sdssplitargs A (repr_line (map obj_str argv) @ 0 # drop (hdr_len s' + 1) (sds_buf s')) = Some (Some ts)"
    "map sds_str ts = map obj_str argv"
    by (auto simp: sdssplitargs_def)
  ultimately show ?thesis using s' by (intro exI [of _ s'] exI [of _ ts]) simp
qed

lemma monitor_line_example:
  "\<exists>s' ts. monitor_args plain_allocator example_sds [raw_example, int_example] = Some s' \<and>
     sdssplitargs plain_allocator (drop 1 (sds_buf s')) = Some (Some ts) \<and> map sds_str ts = [[52, 50], [52, 50]]"
proof -
  have s: "sds_ok example_sds" "sds_str example_sds = [65]" by (simp_all add: example_sds_def sds_ok_def sds_str_def sdsalloc_def)
  have "length (sds_str example_sds) + length (repr_line (map obj_str [raw_example, int_example])) < 2 ^ 63"
    by (simp add: raw_example_ok int_example_ok s repr_def repr_char_digit is_digit_def)
  then show ?thesis
    using monitor_line_roundtrip [OF s(1), of "[raw_example, int_example]" plain_allocator] raw_example_ok int_example_ok s(2) by auto
qed

end
