(* ===== verification/Dict_Types.thy ===== *)
theory Dict_Types
  imports Siphash Dict String_Object
begin

unbundle bit_operations_syntax

text \<open>
  Models the hash and comparison functions of the dictionary types of the server and Sentinel (\<^verbatim>\<open>src/server.c\<close>, \<^verbatim>\<open>t_zset.c\<close>, \<^verbatim>\<open>expire.c\<close>,
  \<^verbatim>\<open>config.c\<close>, \<^verbatim>\<open>sentinel.c\<close>, \<^verbatim>\<open>latency.c\<close>, \<^verbatim>\<open>module.c\<close>) and the generic hash functions of
  \<^verbatim>\<open>src/dict.c\<close> they use, and proves how far these types meet the contract the dictionary relies on: the
  comparison is an equivalence, and equal keys have equal hashes. The types that ignore case compare C strings but hash
  the whole string: they meet the contract on names without zero bytes; an example shows how it fails on others.

  Lengths are passed as \<^verbatim>\<open>int\<close> in this code. The keys of a dictionary are therefore the well-formed
  strings shorter than \<open>2 ^ 31\<close> bytes. These sets of keys are types of their own below.
\<close>

section \<open>The code\<close>

text \<open>The build of the hash function and the seed \<^verbatim>\<open>dict_hash_function_seed\<close>.\<close>

record hash_env =
  unaligned_le :: bool
  big_endian :: bool
  hash_function_seed :: bytes

definition dictSetHashFunctionSeed :: "hash_env \<Rightarrow> bytes \<Rightarrow> hash_env option" where
  "dictSetHashFunctionSeed E seed = do { bs \<leftarrow> mem_read seed 0 16; Some (E\<lparr>hash_function_seed := bs\<rparr>) }"

definition dictGenHashFunction :: "hash_env \<Rightarrow> bytes \<Rightarrow> 32 word \<Rightarrow> u64 option" where
  "dictGenHashFunction E key len =
     siphash (unaligned_le E) (big_endian E) key (unat (scast len :: u64)) (hash_function_seed E)"

definition dictGenCaseHashFunction :: "hash_env \<Rightarrow> bytes \<Rightarrow> 32 word \<Rightarrow> u64 option" where
  "dictGenCaseHashFunction E buf len =
     siphash_nocase (unaligned_le E) (big_endian E) buf (unat (scast len :: u64)) (hash_function_seed E)"

definition dictSdsKeyCompare :: "sds \<Rightarrow> sds \<Rightarrow> bool option" where
  "dictSdsKeyCompare key1 key2 =
     (let l1 = word_of_nat (sdslen key1) :: 32 word; l2 = word_of_nat (sdslen key2) :: 32 word in
      if l1 \<noteq> l2 then Some False
      else do {
        a \<leftarrow> mem_read (sds_buf key1) 0 (unat (scast l1 :: u64));
        b \<leftarrow> mem_read (sds_buf key2) 0 (unat (scast l1 :: u64));
        Some (a = b) })"

text \<open>\<^verbatim>\<open>strcasecmp\<close> of the C locale; only the sign of a nonzero result is specified.\<close>

fun strcasecmp :: "bytes \<Rightarrow> bytes \<Rightarrow> int option" where
  "strcasecmp (a # as) (b # bs) =
     (if tolower a \<noteq> tolower b then Some (if tolower a < tolower b then -1 else 1)
      else if a = 0 then Some 0 else strcasecmp as bs)"
| "strcasecmp _ _ = None"

definition dictSdsKeyCaseCompare :: "sds \<Rightarrow> sds \<Rightarrow> bool option" where
  "dictSdsKeyCaseCompare key1 key2 = do { r \<leftarrow> strcasecmp (sds_buf key1) (sds_buf key2); Some (r = 0) }"

text \<open>The two dictionaries with plain C strings as keys; only whether the result of \<^verbatim>\<open>strcmp\<close> is zero is used.\<close>

fun strcmp :: "bytes \<Rightarrow> bytes \<Rightarrow> int option" where
  "strcmp (a # as) (b # bs) = (if a \<noteq> b then Some (if a < b then -1 else 1) else if a = 0 then Some 0 else strcmp as bs)"
| "strcmp _ _ = None"

definition dictStringKeyCompare :: "bytes \<Rightarrow> bytes \<Rightarrow> bool option" where
  "dictStringKeyCompare key1 key2 = do { r \<leftarrow> strcmp key1 key2; Some (r = 0) }"

definition dictStringHash :: "hash_env \<Rightarrow> bytes \<Rightarrow> u64 option" where
  "dictStringHash E key = do { t \<leftarrow> cstr key; dictGenHashFunction E key (word_of_nat (length t)) }"

definition dictCStringKeyHash :: "hash_env \<Rightarrow> bytes \<Rightarrow> u64 option" where
  "dictCStringKeyHash E key = do { t \<leftarrow> cstr key; dictGenHashFunction E key (word_of_nat (length t)) }"

definition dictCStringKeyCompare :: "bytes \<Rightarrow> bytes \<Rightarrow> bool option" where
  "dictCStringKeyCompare key1 key2 = do { r \<leftarrow> strcmp key1 key2; Some (r = 0) }"

definition dictObjKeyCompare :: "robj \<Rightarrow> robj \<Rightarrow> bool option" where
  "dictObjKeyCompare o1 o2 = do { s1 \<leftarrow> get_sds o1; s2 \<leftarrow> get_sds o2; dictSdsKeyCompare s1 s2 }"

definition dictSdsHash :: "hash_env \<Rightarrow> sds \<Rightarrow> u64 option" where
  "dictSdsHash E key = dictGenHashFunction E (sds_buf key) (word_of_nat (sdslen key))"

definition dictObjHash :: "hash_env \<Rightarrow> robj \<Rightarrow> u64 option" where
  "dictObjHash E ob = do { s \<leftarrow> get_sds ob; dictGenHashFunction E (sds_buf s) (word_of_nat (sdslen s)) }"

definition dictSdsCaseHash :: "hash_env \<Rightarrow> sds \<Rightarrow> u64 option" where
  "dictSdsCaseHash E key = dictGenCaseHashFunction E (sds_buf key) (word_of_nat (sdslen key))"

text \<open>Decoding before a comparison, and the release afterwards: \<^verbatim>\<open>if (o1->refcount != OBJ_STATIC_REFCOUNT) ...\<close>\<close>

definition decode_for_compare :: "allocator \<Rightarrow> robj \<Rightarrow> robj option" where
  "decode_for_compare A ob = (if refcount ob \<noteq> OBJ_STATIC_REFCOUNT then getDecodedObject A ob else Some ob)"

definition release_after_compare :: "robj \<Rightarrow> unit option" where
  "release_after_compare ob =
     (if refcount ob \<noteq> OBJ_STATIC_REFCOUNT then map_option (\<lambda>_. ()) (decrRefCount ob) else Some ())"

definition dictEncObjKeyCompare :: "allocator \<Rightarrow> robj \<Rightarrow> robj \<Rightarrow> bool option" where
  "dictEncObjKeyCompare A o1 o2 =
     (if encoding o1 = OBJ_ENCODING_INT \<and> encoding o2 = OBJ_ENCODING_INT then Some (optr o1 = optr o2)
      else do {
        o1 \<leftarrow> decode_for_compare A o1;
        o2 \<leftarrow> decode_for_compare A o2;
        s1 \<leftarrow> get_sds o1;
        s2 \<leftarrow> get_sds o2;
        cmp \<leftarrow> dictSdsKeyCompare s1 s2;
        release_after_compare o1;
        release_after_compare o2;
        Some cmp })"

definition dictEncObjHash :: "allocator \<Rightarrow> hash_env \<Rightarrow> robj \<Rightarrow> u64 option" where
  "dictEncObjHash A E ob =
     (if sdsEncodedObject ob then do { s \<leftarrow> get_sds ob; dictGenHashFunction E (sds_buf s) (word_of_nat (sdslen s)) }
      else do {
        v \<leftarrow> get_long ob;
        (len, buf) \<leftarrow> ll2string (fresh_block A 32) 32 v;
        dictGenHashFunction E buf len })"

text \<open>\<open>used\<close> is \<^verbatim>\<open>zmalloc_used_memory()\<close> and \<open>overhead\<close> is \<^verbatim>\<open>freeMemoryGetNotCountedMemory()\<close>.\<close>

definition overMaxmemoryAfterAlloc :: "server_conf \<Rightarrow> u64 \<Rightarrow> u64 \<Rightarrow> u64 \<Rightarrow> bool" where
  "overMaxmemoryAfterAlloc cf used overhead moremem =
     (if maxmemory cf = 0 then False
      else if used + moremem \<le> maxmemory cf then False
      else (let mem_used = (if used > overhead then used - overhead else 0) in mem_used + moremem > maxmemory cf))"

text \<open>The ratio \<^verbatim>\<open>(double)used / size\<close> is compared with 1.618 as a rational number.\<close>

definition dictExpandAllowed :: "server_conf \<Rightarrow> u64 \<Rightarrow> u64 \<Rightarrow> nat \<Rightarrow> nat \<Rightarrow> nat \<Rightarrow> bool" where
  "dictExpandAllowed cf mem overhead moreMem used sz =
     (if 1000 * used \<le> 1618 * sz then \<not> overMaxmemoryAfterAlloc cf mem overhead (word_of_nat moreMem) else True)"

section \<open>Keys\<close>

definition key_ok :: "sds \<Rightarrow> bool" where
  "key_ok s \<longleftrightarrow> sds_ok s \<and> hdr_len s < 2 ^ 31"

definition string_ok :: "bytes \<Rightarrow> bool" where
  "string_ok m \<longleftrightarrow> (case cstr m of Some t \<Rightarrow> length t < 2 ^ 31 | None \<Rightarrow> False)"

definition obj_key_ok :: "robj \<Rightarrow> bool" where
  "obj_key_ok ob \<longleftrightarrow> obj_ok ob \<and> length (obj_str ob) < 2 ^ 31 \<and> (encoding ob = OBJ_ENCODING_INT \<longrightarrow> refcount ob \<noteq> OBJ_STATIC_REFCOUNT)"

definition plain_obj_key_ok :: "robj \<Rightarrow> bool" where
  "plain_obj_key_ok ob \<longleftrightarrow> obj_key_ok ob \<and> encoding ob \<noteq> OBJ_ENCODING_INT"

definition empty_sds :: sds where
  "empty_sds = \<lparr>sds_type = SDS_TYPE_8, hdr_len = 0, hdr_alloc = 0, sds_buf = [0]\<rparr>"

lemma empty_sds_ok: "key_ok empty_sds" "plain_obj_key_ok (createObject (Ptr_sds empty_sds))"
  by (simp_all add: key_ok_def plain_obj_key_ok_def obj_key_ok_def empty_sds_def sds_ok_def sdsalloc_def sds_str_def
      createObject_def obj_ok_def obj_str_def)

typedef sds_key = "{s. key_ok s}"
  using empty_sds_ok by blast

typedef string_key = "{m. string_ok m}"
  by (rule exI [of _ "[0]"]) (simp add: string_ok_def)

typedef obj_key = "{ob. obj_key_ok ob}"
  using empty_sds_ok unfolding plain_obj_key_ok_def by blast

typedef plain_obj_key = "{ob. plain_obj_key_ok ob}"
  using empty_sds_ok by blast

section \<open>The dictionary types\<close>

definition sds_dictType :: "hash_env \<Rightarrow> (nat \<Rightarrow> nat \<Rightarrow> nat \<Rightarrow> bool) \<Rightarrow> sds_key dictType" where
  "sds_dictType E expand =
     \<lparr>hashFunction = (\<lambda>k. the (dictSdsHash E (Rep_sds_key k))),
      keyCompare = (\<lambda>a b. the (dictSdsKeyCompare (Rep_sds_key a) (Rep_sds_key b))), expandAllowed = expand\<rparr>"

definition setDictType :: "hash_env \<Rightarrow> sds_key dictType" where
  "setDictType E = sds_dictType E (\<lambda>_ _ _. True)"

definition zsetDictType :: "hash_env \<Rightarrow> sds_key dictType" where
  "zsetDictType E = sds_dictType E (\<lambda>_ _ _. True)"

definition hashDictType :: "hash_env \<Rightarrow> sds_key dictType" where
  "hashDictType E = sds_dictType E (\<lambda>_ _ _. True)"

text \<open>The memory in use and the overhead are read anew at each expansion: they are any functions of the request.\<close>

type_synonym memory_reading = "nat \<Rightarrow> nat \<Rightarrow> nat \<Rightarrow> u64"

definition dbDictType :: "hash_env \<Rightarrow> server_conf \<Rightarrow> memory_reading \<Rightarrow> memory_reading \<Rightarrow> sds_key dictType" where
  "dbDictType E cf mem overhead =
     sds_dictType E (\<lambda>moreMem used sz. dictExpandAllowed cf (mem moreMem used sz) (overhead moreMem used sz) moreMem used sz)"

definition dbExpiresDictType :: "hash_env \<Rightarrow> server_conf \<Rightarrow> memory_reading \<Rightarrow> memory_reading \<Rightarrow> sds_key dictType" where
  "dbExpiresDictType E cf mem overhead =
     sds_dictType E (\<lambda>moreMem used sz. dictExpandAllowed cf (mem moreMem used sz) (overhead moreMem used sz) moreMem used sz)"

definition sdsReplyDictType :: "hash_env \<Rightarrow> sds_key dictType" where
  "sdsReplyDictType E = sds_dictType E (\<lambda>_ _ _. True)"

definition clusterNodesDictType :: "hash_env \<Rightarrow> sds_key dictType" where
  "clusterNodesDictType E = sds_dictType E (\<lambda>_ _ _. True)"

definition migrateCacheDictType :: "hash_env \<Rightarrow> sds_key dictType" where
  "migrateCacheDictType E = sds_dictType E (\<lambda>_ _ _. True)"

definition setAccumulatorDictType :: "hash_env \<Rightarrow> sds_key dictType" where
  "setAccumulatorDictType E = sds_dictType E (\<lambda>_ _ _. True)"

text \<open>The type \<^verbatim>\<open>dt\<close> of \<^verbatim>\<open>rememberSlaveKeyWithExpire\<close>, and the types of Sentinel.\<close>

definition slaveKeysDictType :: "hash_env \<Rightarrow> sds_key dictType" where
  "slaveKeysDictType E = sds_dictType E (\<lambda>_ _ _. True)"

definition instancesDictType :: "hash_env \<Rightarrow> sds_key dictType" where
  "instancesDictType E = sds_dictType E (\<lambda>_ _ _. True)"

definition leaderVotesDictType :: "hash_env \<Rightarrow> sds_key dictType" where
  "leaderVotesDictType E = sds_dictType E (\<lambda>_ _ _. True)"

definition name_dictType :: "hash_env \<Rightarrow> sds_key dictType" where
  "name_dictType E =
     \<lparr>hashFunction = (\<lambda>k. the (dictSdsCaseHash E (Rep_sds_key k))),
      keyCompare = (\<lambda>a b. the (dictSdsKeyCaseCompare (Rep_sds_key a) (Rep_sds_key b))), expandAllowed = (\<lambda>_ _ _. True)\<rparr>"

definition commandTableDictType :: "hash_env \<Rightarrow> sds_key dictType" where
  "commandTableDictType E = name_dictType E"

definition shaScriptObjectDictType :: "hash_env \<Rightarrow> sds_key dictType" where
  "shaScriptObjectDictType E = name_dictType E"

definition clusterNodesBlackListDictType :: "hash_env \<Rightarrow> sds_key dictType" where
  "clusterNodesBlackListDictType E = name_dictType E"

definition modulesDictType :: "hash_env \<Rightarrow> sds_key dictType" where
  "modulesDictType E = name_dictType E"

definition replScriptCacheDictType :: "hash_env \<Rightarrow> sds_key dictType" where
  "replScriptCacheDictType E = name_dictType E"

definition optionToLineDictType :: "hash_env \<Rightarrow> sds_key dictType" where
  "optionToLineDictType E = name_dictType E"

definition optionSetDictType :: "hash_env \<Rightarrow> sds_key dictType" where
  "optionSetDictType E = name_dictType E"

definition renamedCommandsDictType :: "hash_env \<Rightarrow> sds_key dictType" where
  "renamedCommandsDictType E = name_dictType E"

definition latencyTimeSeriesDictType :: "hash_env \<Rightarrow> string_key dictType" where
  "latencyTimeSeriesDictType E =
     \<lparr>hashFunction = (\<lambda>k. the (dictStringHash E (Rep_string_key k))),
      keyCompare = (\<lambda>a b. the (dictStringKeyCompare (Rep_string_key a) (Rep_string_key b))), expandAllowed = (\<lambda>_ _ _. True)\<rparr>"

definition moduleAPIDictType :: "hash_env \<Rightarrow> string_key dictType" where
  "moduleAPIDictType E =
     \<lparr>hashFunction = (\<lambda>k. the (dictCStringKeyHash E (Rep_string_key k))),
      keyCompare = (\<lambda>a b. the (dictCStringKeyCompare (Rep_string_key a) (Rep_string_key b))), expandAllowed = (\<lambda>_ _ _. True)\<rparr>"

definition objectKeyPointerValueDictType :: "allocator \<Rightarrow> hash_env \<Rightarrow> obj_key dictType" where
  "objectKeyPointerValueDictType A E =
     \<lparr>hashFunction = (\<lambda>k. the (dictEncObjHash A E (Rep_obj_key k))),
      keyCompare = (\<lambda>a b. the (dictEncObjKeyCompare A (Rep_obj_key a) (Rep_obj_key b))), expandAllowed = (\<lambda>_ _ _. True)\<rparr>"

definition objectKeyHeapPointerValueDictType :: "allocator \<Rightarrow> hash_env \<Rightarrow> obj_key dictType" where
  "objectKeyHeapPointerValueDictType A E = objectKeyPointerValueDictType A E"

definition keylistDictType :: "hash_env \<Rightarrow> plain_obj_key dictType" where
  "keylistDictType E =
     \<lparr>hashFunction = (\<lambda>k. the (dictObjHash E (Rep_plain_obj_key k))),
      keyCompare = (\<lambda>a b. the (dictObjKeyCompare (Rep_plain_obj_key a) (Rep_plain_obj_key b))), expandAllowed = (\<lambda>_ _ _. True)\<rparr>"


section \<open>The types and the contract\<close>

definition hash_env_ok :: "hash_env \<Rightarrow> bool" where
  "hash_env_ok E \<longleftrightarrow> (unaligned_le E \<longrightarrow> \<not> big_endian E) \<and> length (hash_function_seed E) = 16"

text \<open>The hash of a byte sequence.\<close>

definition text_hash :: "hash_env \<Rightarrow> bytes \<Rightarrow> u64" where
  "text_hash E msg = host_load (big_endian E) (host_store False 8
     (siphash_reference (word_of_nat (le_nat (take 8 (hash_function_seed E)))) (word_of_nat (le_nat (take 8 (drop 8 (hash_function_seed E))))) msg))"

lemma length_as_int:
  assumes "n < 2 ^ 31"
  shows "unat (scast (word_of_nat n :: 32 word) :: u64) = n"
proof -
  have "sint (word_of_int (int n) :: 32 word) = int n"
    unfolding sint_sbintrunc' using assms by (intro signed_take_bit_int_eq_self) simp_all
  then have "sint (word_of_nat n :: 32 word) = int n" by simp
  then have "(scast (word_of_nat n :: 32 word) :: u64) = word_of_nat n" by (metis of_int_of_nat_eq of_int_sint)
  then show ?thesis using assms by (simp add: unat_of_nat)
qed

lemma gen_hash_eq:
  assumes "hash_env_ok E" "n < 2 ^ 31" "n \<le> length buf"
  shows "dictGenHashFunction E buf (word_of_nat n) = Some (text_hash E (take n buf))"
proof -
  have e: "unaligned_le E \<longrightarrow> \<not> big_endian E" "16 \<le> length (hash_function_seed E)" using assms(1) by (simp_all add: hash_env_ok_def)
  show ?thesis unfolding dictGenHashFunction_def length_as_int [OF assms(2)] text_hash_def by (rule siphash_eq [OF e assms(3)])
qed

lemma tolower_siptlw: "siptlw c = tolower c"
  by (simp add: siptlw_def tolower_def)

lemma gen_case_hash_eq:
  assumes "hash_env_ok E" "n < 2 ^ 31" "n \<le> length buf"
  shows "dictGenCaseHashFunction E buf (word_of_nat n) = Some (text_hash E (map tolower (take n buf)))"
proof -
  have e: "unaligned_le E \<longrightarrow> \<not> big_endian E" "16 \<le> length (hash_function_seed E)" using assms(1) by (simp_all add: hash_env_ok_def)
  have "siphash_nocase (unaligned_le E) (big_endian E) buf n (hash_function_seed E) =
      siphash (unaligned_le E) (big_endian E) (map siptlw buf) n (hash_function_seed E)"
    by (rule siphash_nocase_map [OF e(1)])
  also have "\<dots> = Some (text_hash E (take n (map siptlw buf)))"
    unfolding text_hash_def by (rule siphash_eq [OF e]) (simp add: assms(3))
  also have "take n (map siptlw buf) = map tolower (take n buf)" by (simp add: take_map tolower_siptlw)
  finally show ?thesis by (simp add: dictGenCaseHashFunction_def length_as_int [OF assms(2)])
qed

lemma key_str: "key_ok s \<Longrightarrow> sdslen s < 2 ^ 31 \<and> sdslen s \<le> length (sds_buf s) \<and> take (sdslen s) (sds_buf s) = sds_str s \<and> length (sds_str s) = sdslen s"
  by (simp add: key_ok_def sds_ok_def sdslen_def sds_str_def)

lemma dictSdsHash_eq: "hash_env_ok E \<Longrightarrow> key_ok s \<Longrightarrow> dictSdsHash E s = Some (text_hash E (sds_str s))"
  using gen_hash_eq key_str by (simp add: dictSdsHash_def)

lemma dictSdsCaseHash_eq: "hash_env_ok E \<Longrightarrow> key_ok s \<Longrightarrow> dictSdsCaseHash E s = Some (text_hash E (map tolower (sds_str s)))"
  using gen_case_hash_eq key_str by (simp add: dictSdsCaseHash_def)

lemma dictSdsKeyCompare_eq:
  assumes "key_ok a" "key_ok b"
  shows "dictSdsKeyCompare a b = Some (sds_str a = sds_str b)"
proof -
  note k = key_str [OF assms(1)] key_str [OF assms(2)]
  have la: "unat (scast (word_of_nat (sdslen a) :: 32 word) :: u64) = sdslen a" by (rule length_as_int) (use k in blast)
  have lb: "unat (scast (word_of_nat (sdslen b) :: 32 word) :: u64) = sdslen b" by (rule length_as_int) (use k in blast)
  have w: "(word_of_nat (sdslen a) :: 32 word) \<noteq> word_of_nat (sdslen b)" if "sdslen a \<noteq> sdslen b"
    using la lb that by metis
  show ?thesis
  proof (cases "sdslen a = sdslen b")
    case True
    have ra: "mem_read (sds_buf a) 0 (sdslen a) = Some (sds_str a)" "mem_read (sds_buf b) 0 (sdslen b) = Some (sds_str b)"
      using k by (simp_all add: mem_read_eq)
    then show ?thesis using la unfolding dictSdsKeyCompare_def Let_def True by simp
  next
    case False
    then have "sds_str a \<noteq> sds_str b" using k by metis
    then show ?thesis using w [OF False] by (simp add: dictSdsKeyCompare_def Let_def)
  qed
qed

lemma tolower_0: "tolower c = 0 \<longleftrightarrow> c = 0"
proof -
  have "c + 32 \<noteq> 0" if "65 \<le> c" "c \<le> 90"
  proof -
    have "unat (c + 32) = unat c + 32" using that by (simp add: unat_word_ariths word_le_nat_alt)
    then show ?thesis by auto
  qed
  then show ?thesis by (auto simp: tolower_def)
qed

lemma tolower_zero [simp]: "tolower 0 = 0"
  by (simp add: tolower_def)

lemma strcasecmp_eq:
  "0 \<notin> set x \<Longrightarrow> 0 \<notin> set y \<Longrightarrow> \<exists>r. strcasecmp (x @ 0 # p) (y @ 0 # q) = Some r \<and> (r = 0 \<longleftrightarrow> map tolower x = map tolower y)"
proof (induction x arbitrary: y)
  case Nil
  then show ?case by (cases y) (auto simp: tolower_0)
next
  case (Cons c x)
  then show ?case
  proof (cases y)
    case Nil
    then show ?thesis using Cons.prems by (auto simp: tolower_0)
  next
    case (Cons d y')
    then show ?thesis using Cons.IH [of y'] Cons.prems by auto
  qed
qed

lemma sds_buf_eq:
  assumes "sds_ok s"
  shows "sds_buf s = sds_str s @ 0 # drop (hdr_len s + 1) (sds_buf s)"
proof -
  have "hdr_len s < length (sds_buf s)" "sds_buf s ! hdr_len s = 0" using assms by (auto simp: sds_ok_def)
  then show ?thesis using id_take_nth_drop [of "hdr_len s" "sds_buf s"] by (simp add: sds_str_def)
qed

text \<open>The part of a string that C functions see.\<close>

definition c_text :: "bytes \<Rightarrow> bytes" where
  "c_text t = takeWhile (\<lambda>c. c \<noteq> 0) t"

lemma c_text_zero: "0 \<notin> set (c_text t)" "0 \<notin> set t \<Longrightarrow> c_text t = t"
  by (auto simp: c_text_def takeWhile_eq_all_conv dest: set_takeWhileD)

lemma sds_buf_c_text:
  assumes "sds_ok s"
  shows "\<exists>p. sds_buf s = c_text (sds_str s) @ 0 # p"
proof (cases "0 \<in> set (sds_str s)")
  case True
  then have "dropWhile (\<lambda>c. c \<noteq> 0) (sds_str s) \<noteq> []" by (simp add: dropWhile_eq_Nil_conv)
  then obtain c q where d: "dropWhile (\<lambda>c. c \<noteq> 0) (sds_str s) = c # q" by (meson neq_Nil_conv)
  then have "c = 0" using hd_dropWhile [of "\<lambda>c. c \<noteq> 0" "sds_str s"] by simp
  then have "sds_str s = c_text (sds_str s) @ 0 # q" using takeWhile_dropWhile_id [of "\<lambda>c. c \<noteq> 0" "sds_str s"] d by (simp add: c_text_def)
  then have "sds_buf s = c_text (sds_str s) @ 0 # q @ 0 # drop (hdr_len s + 1) (sds_buf s)"
    using sds_buf_eq [OF assms] by (metis append_Cons append_assoc)
  then show ?thesis by blast
next
  case False
  then show ?thesis using sds_buf_eq [OF assms] c_text_zero(2) by auto
qed

lemma dictSdsKeyCaseCompare_eq:
  assumes "key_ok a" "key_ok b"
  shows "dictSdsKeyCaseCompare a b = Some (map tolower (c_text (sds_str a)) = map tolower (c_text (sds_str b)))"
proof -
  have "sds_ok a" "sds_ok b" using assms by (simp_all add: key_ok_def)
  then obtain p q where "sds_buf a = c_text (sds_str a) @ 0 # p" "sds_buf b = c_text (sds_str b) @ 0 # q" using sds_buf_c_text by blast
  then show ?thesis using strcasecmp_eq [OF c_text_zero(1) [of "sds_str a"] c_text_zero(1) [of "sds_str b"], of p q]
    by (auto simp: dictSdsKeyCaseCompare_def)
qed

lemma strcmp_eq:
  "0 \<notin> set x \<Longrightarrow> 0 \<notin> set y \<Longrightarrow> \<exists>r. strcmp (x @ 0 # p) (y @ 0 # q) = Some r \<and> (r = 0 \<longleftrightarrow> x = y)"
proof (induction x arbitrary: y)
  case Nil
  then show ?case by (cases y) auto
next
  case (Cons c x)
  then show ?case by (cases y) auto
qed

lemma string_key_text:
  assumes "string_ok m"
  shows "\<exists>t p. m = t @ 0 # p \<and> 0 \<notin> set t \<and> cstr m = Some t \<and> length t < 2 ^ 31"
proof -
  obtain t where t: "cstr m = Some t" "length t < 2 ^ 31" using assms by (auto simp: string_ok_def split: option.splits)
  moreover have "\<exists>p. m = t @ 0 # p \<and> 0 \<notin> set t" using t(1)
    by (induction m arbitrary: t) (auto split: if_splits bind_splits)
  ultimately show ?thesis by blast
qed

lemma string_callbacks_eq:
  assumes "string_ok a" "string_ok b" "hash_env_ok E"
  shows "dictStringKeyCompare a b = Some (the (cstr a) = the (cstr b))" "dictStringHash E a = Some (text_hash E (the (cstr a)))"
    "dictCStringKeyCompare a b = Some (the (cstr a) = the (cstr b))" "dictCStringKeyHash E a = Some (text_hash E (the (cstr a)))"
proof -
  obtain t p where t: "a = t @ 0 # p" "0 \<notin> set t" "cstr a = Some t" "length t < 2 ^ 31" using string_key_text [OF assms(1)] by blast
  obtain u q where u: "b = u @ 0 # q" "0 \<notin> set u" "cstr b = Some u" using string_key_text [OF assms(2)] by blast
  have "\<exists>r. strcmp a b = Some r \<and> (r = 0 \<longleftrightarrow> t = u)" unfolding t(1) u(1) by (rule strcmp_eq [OF t(2) u(2)])
  then show "dictStringKeyCompare a b = Some (the (cstr a) = the (cstr b))" "dictCStringKeyCompare a b = Some (the (cstr a) = the (cstr b))"
    by (auto simp: dictStringKeyCompare_def dictCStringKeyCompare_def t(3) u(3))
  have "dictGenHashFunction E a (word_of_nat (length t)) = Some (text_hash E t)"
    using gen_hash_eq [OF assms(3) t(4), of a] t(1) by simp
  then show "dictStringHash E a = Some (text_hash E (the (cstr a)))" "dictCStringKeyHash E a = Some (text_hash E (the (cstr a)))"
    by (simp_all add: dictStringHash_def dictCStringKeyHash_def t(3))
qed

lemma encoded_key:
  assumes "obj_ok ob" "length (obj_str ob) < 2 ^ 31" "sdsEncodedObject ob"
  shows "\<exists>s. get_sds ob = Some s \<and> key_ok s \<and> sds_str s = obj_str ob"
  using assms(1)
proof (cases rule: obj_cases)
  case (str s)
  then show ?thesis using assms(2) by (simp add: key_ok_def)
qed (use assms(3) in simp)

lemma decode_for_compare_eq:
  assumes "obj_key_ok ob"
  shows "\<exists>ob' s. decode_for_compare A ob = Some ob' \<and> get_sds ob' = Some s \<and> key_ok s \<and> sds_str s = obj_str ob \<and> release_after_compare ob' = Some ()"
proof -
  have ok: "obj_ok ob" "length (obj_str ob) < 2 ^ 31" using assms by (simp_all add: obj_key_ok_def)
  have rel: "release_after_compare x = Some ()" if "obj_ok x" for x
    using that by (auto simp: release_after_compare_def decrRefCount_def obj_ok_def)
  show ?thesis
  proof (cases "refcount ob = OBJ_STATIC_REFCOUNT")
    case True
    then have "sdsEncodedObject ob" using assms ok(1) by (auto simp: obj_key_ok_def elim!: obj_cases)
    then show ?thesis using True encoded_key [OF ok] rel [OF ok(1)] by (simp add: decode_for_compare_def)
  next
    case False
    obtain ob' where "getDecodedObject A ob = Some ob'" "obj_ok ob'" "obj_str ob' = obj_str ob" "sdsEncodedObject ob'"
      using getDecodedObject_ok [OF ok(1) False, of A] ok(2) by auto
    then show ?thesis using False encoded_key [of ob'] ok(2) rel by (auto simp: decode_for_compare_def)
  qed
qed

lemma dictEncObjKeyCompare_eq:
  assumes "obj_key_ok a" "obj_key_ok b"
  shows "dictEncObjKeyCompare A a b = Some (obj_str a = obj_str b)"
proof (cases "encoding a = OBJ_ENCODING_INT \<and> encoding b = OBJ_ENCODING_INT")
  case True
  obtain v w where vw: "optr a = Ptr_long v" "optr b = Ptr_long w" "obj_str a = dec_int (sint v)" "obj_str b = dec_int (sint w)"
    using assms True by (auto simp: obj_key_ok_def elim!: obj_cases)
  then have "obj_str a = obj_str b \<longleftrightarrow> v = w" using string2ll_complete by (metis option.inject)
  then show ?thesis using True vw by (simp add: dictEncObjKeyCompare_def)
next
  case False
  obtain a' sa b' sb where "decode_for_compare A a = Some a'" "get_sds a' = Some sa" "key_ok sa" "sds_str sa = obj_str a"
    "release_after_compare a' = Some ()" "decode_for_compare A b = Some b'" "get_sds b' = Some sb" "key_ok sb" "sds_str sb = obj_str b"
    "release_after_compare b' = Some ()"
    using decode_for_compare_eq [OF assms(1), of A] decode_for_compare_eq [OF assms(2), of A] by blast
  then show ?thesis using False by (auto simp: dictEncObjKeyCompare_def dictSdsKeyCompare_eq)
qed

lemma dictEncObjHash_eq:
  assumes "hash_env_ok E" "obj_key_ok ob"
  shows "dictEncObjHash A E ob = Some (text_hash E (obj_str ob))"
proof -
  have ok: "obj_ok ob" "length (obj_str ob) < 2 ^ 31" using assms(2) by (simp_all add: obj_key_ok_def)
  from ok(1) show ?thesis
  proof (cases rule: obj_cases)
    case (str s)
    then have "key_ok s" using ok(2) by (simp add: key_ok_def)
    from dictSdsHash_eq [OF assms(1) this] show ?thesis using str(3-5) by (simp add: dictEncObjHash_def dictSdsHash_def)
  next
    case (int v)
    let ?d = "dec_int (sint v)"
    have "ll2string (fresh_block A 32) 32 v = Some (word_of_nat (length ?d), ?d @ 0 # drop (length ?d + 1) (fresh_block A 32))"
      using printed_number [of 32 A v] by simp
    then show ?thesis using int gen_hash_eq [OF assms(1) dec_int_bound, of v "?d @ 0 # drop (length ?d + 1) (fresh_block A 32)"]
      by (simp add: dictEncObjHash_def)
  qed
qed

lemma dictType_ok_by:
  assumes "\<And>a b. keyEq T a b \<longleftrightarrow> f a = f b" "\<And>a. hashFunction T a = h (f a)"
  shows "dictType_ok T"
proof -
  have "equivp (keyEq T)" by (rule equivpI) (auto simp: reflp_def symp_def transp_def assms(1))
  then show ?thesis by (simp add: dictType_ok_def assms)
qed

lemma sds_dictType_keyEq: "keyEq (sds_dictType E x) a b \<longleftrightarrow> sds_str (Rep_sds_key a) = sds_str (Rep_sds_key b)"
  using Rep_sds_key [of a] Rep_sds_key [of b] by (auto simp: keyEq_def sds_dictType_def dictSdsKeyCompare_eq)

lemma sds_dictType_ok: "hash_env_ok E \<Longrightarrow> dictType_ok (sds_dictType E x)"
proof (rule dictType_ok_by [where f = "\<lambda>k. sds_str (Rep_sds_key k)" and h = "text_hash E"])
  fix k :: sds_key
  assume "hash_env_ok E"
  then show "hashFunction (sds_dictType E x) k = text_hash E (sds_str (Rep_sds_key k))"
    using Rep_sds_key [of k] by (simp add: sds_dictType_def dictSdsHash_eq)
qed (rule sds_dictType_keyEq)

lemma sds_key_ok: "key_ok (Rep_sds_key k)"
  using Rep_sds_key [of k] by simp

text \<open>The contract on the keys of a set, and the keys without zero bytes.\<close>

definition contract_on :: "'k set \<Rightarrow> 'k dictType \<Rightarrow> bool" where
  "contract_on K T \<longleftrightarrow> equivp (keyEq T) \<and> (\<forall>a\<in>K. \<forall>b\<in>K. keyEq T a b \<longrightarrow> hashFunction T a = hashFunction T b)"

definition zero_free_keys :: "sds_key set" where
  "zero_free_keys = {k. 0 \<notin> set (sds_str (Rep_sds_key k))}"

lemma lower_eq: "map tolower = map ascii_lower"
  by (rule ext) (simp flip: tolower_siptlw add: siptlw_eq)

lemma name_dictType_eq:
  assumes "hash_env_ok E"
  shows "keyEq (name_dictType E) a b \<longleftrightarrow>
      map ascii_lower (c_text (sds_str (Rep_sds_key a))) = map ascii_lower (c_text (sds_str (Rep_sds_key b)))"
    "hashFunction (name_dictType E) a = text_hash E (map ascii_lower (sds_str (Rep_sds_key a)))"
  using dictSdsKeyCaseCompare_eq [OF sds_key_ok sds_key_ok, of a b] dictSdsKeyCaseCompare_eq [OF sds_key_ok sds_key_ok, of a a]
    dictSdsCaseHash_eq [OF assms sds_key_ok, of a]
  by (auto simp: name_dictType_def keyEq_def lower_eq)

lemma name_dictType_contract:
  assumes "hash_env_ok E"
  shows "contract_on zero_free_keys (name_dictType E)"
proof -
  have "equivp (keyEq (name_dictType E))"
    by (rule equivpI) (auto simp: reflp_def symp_def transp_def name_dictType_eq [OF assms])
  then show ?thesis by (simp add: contract_on_def name_dictType_eq [OF assms] zero_free_keys_def c_text_zero(2))
qed

lemma string_key_ok: "string_ok (Rep_string_key k)"
  using Rep_string_key [of k] by simp

lemma string_dictTypes_ok:
  assumes "hash_env_ok E"
  shows "dictType_ok (latencyTimeSeriesDictType E)" "dictType_ok (moduleAPIDictType E)"
proof -
  note c = string_callbacks_eq [OF string_key_ok string_key_ok assms]
  show "dictType_ok (latencyTimeSeriesDictType E)"
    by (rule dictType_ok_by [where f = "\<lambda>k. the (cstr (Rep_string_key k))" and h = "text_hash E"])
      (auto simp: latencyTimeSeriesDictType_def keyEq_def c)
  show "dictType_ok (moduleAPIDictType E)"
    by (rule dictType_ok_by [where f = "\<lambda>k. the (cstr (Rep_string_key k))" and h = "text_hash E"])
      (auto simp: moduleAPIDictType_def keyEq_def c)
qed

lemma objectKey_ok: "hash_env_ok E \<Longrightarrow> dictType_ok (objectKeyPointerValueDictType A E)"
proof (rule dictType_ok_by [where f = "\<lambda>k. obj_str (Rep_obj_key k)" and h = "text_hash E"])
  fix k a b :: obj_key
  show "keyEq (objectKeyPointerValueDictType A E) a b \<longleftrightarrow> obj_str (Rep_obj_key a) = obj_str (Rep_obj_key b)"
    using Rep_obj_key [of a] Rep_obj_key [of b] by (auto simp: keyEq_def objectKeyPointerValueDictType_def dictEncObjKeyCompare_eq)
  assume "hash_env_ok E"
  then show "hashFunction (objectKeyPointerValueDictType A E) k = text_hash E (obj_str (Rep_obj_key k))"
    using Rep_obj_key [of k] by (simp add: objectKeyPointerValueDictType_def dictEncObjHash_eq)
qed

lemma plain_obj_key: "\<exists>s. get_sds (Rep_plain_obj_key k) = Some s \<and> key_ok s \<and> sds_str s = obj_str (Rep_plain_obj_key k)"
proof -
  have "plain_obj_key_ok (Rep_plain_obj_key k)" using Rep_plain_obj_key by blast
  then have "obj_ok (Rep_plain_obj_key k)" "length (obj_str (Rep_plain_obj_key k)) < 2 ^ 31" "sdsEncodedObject (Rep_plain_obj_key k)"
    by (auto simp: plain_obj_key_ok_def obj_key_ok_def elim!: obj_cases)
  then show ?thesis by (rule encoded_key)
qed

lemma keylist_ok: "hash_env_ok E \<Longrightarrow> dictType_ok (keylistDictType E)"
proof (rule dictType_ok_by [where f = "\<lambda>k. obj_str (Rep_plain_obj_key k)" and h = "text_hash E"])
  fix k a b :: plain_obj_key
  show "keyEq (keylistDictType E) a b \<longleftrightarrow> obj_str (Rep_plain_obj_key a) = obj_str (Rep_plain_obj_key b)"
    using plain_obj_key [of a] plain_obj_key [of b] by (auto simp: keyEq_def keylistDictType_def dictObjKeyCompare_def dictSdsKeyCompare_eq)
  assume "hash_env_ok E"
  then show "hashFunction (keylistDictType E) k = text_hash E (obj_str (Rep_plain_obj_key k))"
    using plain_obj_key [of k] dictSdsHash_eq [of E] by (auto simp: keylistDictType_def dictObjHash_def dictSdsHash_def)
qed

lemma plain_obj_callbacks_eq:
  assumes "hash_env_ok E"
  shows "dictObjKeyCompare (Rep_plain_obj_key a) (Rep_plain_obj_key b) = Some (obj_str (Rep_plain_obj_key a) = obj_str (Rep_plain_obj_key b))"
    "dictObjHash E (Rep_plain_obj_key a) = Some (text_hash E (obj_str (Rep_plain_obj_key a)))"
  using plain_obj_key [of a] plain_obj_key [of b] dictSdsHash_eq [OF assms]
  by (auto simp: dictObjKeyCompare_def dictSdsKeyCompare_eq dictObjHash_def dictSdsHash_def)

lemmas dict_types_ok = sds_dictType_ok string_dictTypes_ok objectKey_ok keylist_ok

lemmas sds_type_defs = setDictType_def zsetDictType_def hashDictType_def sdsReplyDictType_def clusterNodesDictType_def migrateCacheDictType_def
  dbDictType_def dbExpiresDictType_def setAccumulatorDictType_def slaveKeysDictType_def instancesDictType_def leaderVotesDictType_def

lemmas name_type_defs = commandTableDictType_def shaScriptObjectDictType_def clusterNodesBlackListDictType_def
  modulesDictType_def replScriptCacheDictType_def optionToLineDictType_def optionSetDictType_def renamedCommandsDictType_def

text \<open>C32: How the dictionary types of the server and Sentinel meet the contract of the dictionary, with a 16-byte seed and for every
  build of the hash function. For the types with sds strings, C strings or objects as keys that respect case, the key comparison is an equivalence and equal keys
  have equal hashes; a number stored as a string and the same number stored as an integer are one key. The types
  that ignore case compare the lower-case texts up to the first zero byte, which is an equivalence, but hash the whole
  text in lower case: equal keys have equal hashes if they hold no zero byte. No hash and no comparison of any of
  the types reads outside of its keys, with zero bytes or without.\<close>

theorem dict_types_meet_contract:
  assumes "hash_env_ok E"
  shows "(\<forall>T \<in> {setDictType E, zsetDictType E, hashDictType E, dbDictType E cf mem ov, dbExpiresDictType E cf mem ov,
        sdsReplyDictType E, clusterNodesDictType E, migrateCacheDictType E, setAccumulatorDictType E, slaveKeysDictType E,
        instancesDictType E, leaderVotesDictType E}.
      dictType_ok T \<and> (\<forall>a b. keyEq T a b \<longleftrightarrow> sds_str (Rep_sds_key a) = sds_str (Rep_sds_key b))) \<and>
    (\<forall>T \<in> {commandTableDictType E, shaScriptObjectDictType E, clusterNodesBlackListDictType E, modulesDictType E,
        replScriptCacheDictType E, optionToLineDictType E, optionSetDictType E, renamedCommandsDictType E}.
      contract_on zero_free_keys T \<and>
      (\<forall>a b. keyEq T a b \<longleftrightarrow> map ascii_lower (c_text (sds_str (Rep_sds_key a))) = map ascii_lower (c_text (sds_str (Rep_sds_key b)))) \<and>
      (\<forall>a. hashFunction T a = text_hash E (map ascii_lower (sds_str (Rep_sds_key a))))) \<and>
    dictType_ok (latencyTimeSeriesDictType E) \<and> dictType_ok (moduleAPIDictType E) \<and>
    dictType_ok (objectKeyPointerValueDictType A E) \<and> dictType_ok (objectKeyHeapPointerValueDictType A E) \<and> dictType_ok (keylistDictType E) \<and>
    (\<forall>a b. keyEq (objectKeyPointerValueDictType A E) a b \<longleftrightarrow> obj_str (Rep_obj_key a) = obj_str (Rep_obj_key b)) \<and>
    (\<forall>a b. dictSdsHash E (Rep_sds_key a) \<noteq> None \<and> dictSdsKeyCompare (Rep_sds_key a) (Rep_sds_key b) \<noteq> None \<and>
      dictSdsCaseHash E (Rep_sds_key a) \<noteq> None \<and> dictSdsKeyCaseCompare (Rep_sds_key a) (Rep_sds_key b) \<noteq> None) \<and>
    (\<forall>a b. dictStringHash E (Rep_string_key a) \<noteq> None \<and> dictStringKeyCompare (Rep_string_key a) (Rep_string_key b) \<noteq> None \<and>
      dictCStringKeyHash E (Rep_string_key a) \<noteq> None \<and> dictCStringKeyCompare (Rep_string_key a) (Rep_string_key b) \<noteq> None) \<and>
    (\<forall>a b. dictEncObjHash A E (Rep_obj_key a) \<noteq> None \<and> dictEncObjKeyCompare A (Rep_obj_key a) (Rep_obj_key b) \<noteq> None) \<and>
    (\<forall>a b. dictObjHash E (Rep_plain_obj_key a) \<noteq> None \<and> dictObjKeyCompare (Rep_plain_obj_key a) (Rep_plain_obj_key b) \<noteq> None)"
proof (intro conjI ballI, goal_cases)
  case (1 T)
  then show ?case using sds_dictType_ok [OF assms] by (auto simp: sds_type_defs)
next
  case (2 T)
  then show ?case using sds_dictType_keyEq by (auto simp: sds_type_defs)
next
  case (3 T)
  then show ?case using name_dictType_contract [OF assms] by (auto simp: name_type_defs)
next
  case (4 T)
  then show ?case using name_dictType_eq [OF assms] by (auto simp: name_type_defs)
next
  case (5 T)
  then show ?case using name_dictType_eq [OF assms] by (auto simp: name_type_defs)
next
  case 11
  show ?case using Rep_obj_key by (auto simp: keyEq_def objectKeyPointerValueDictType_def dictEncObjKeyCompare_eq)
next
  case 12
  show ?case using sds_key_ok by (simp add: dictSdsKeyCompare_eq dictSdsKeyCaseCompare_eq dictSdsHash_eq [OF assms] dictSdsCaseHash_eq [OF assms])
next
  case 13
  show ?case by (simp add: string_callbacks_eq [OF string_key_ok string_key_ok assms])
next
  case 14
  show ?case using Rep_obj_key by (simp add: dictEncObjKeyCompare_eq dictEncObjHash_eq [OF assms])
next
  case 15
  show ?case by (simp add: plain_obj_callbacks_eq [OF assms])
qed (simp_all add: dict_types_ok [OF assms] objectKeyHeapPointerValueDictType_def)

definition example_env :: hash_env where
  "example_env = \<lparr>unaligned_le = True, big_endian = False, hash_function_seed = replicate 16 7\<rparr>"

lemma example_env_ok: "hash_env_ok example_env"
  by (simp add: hash_env_ok_def example_env_def)

theorem dict_types_meet_contract_witness:
  "dictType_ok (dbDictType example_env \<lparr>maxmemory = 0, no_shared_integers = False\<rparr> (\<lambda>_ _ _. 0) (\<lambda>_ _ _. 0)) \<and> contract_on zero_free_keys (commandTableDictType example_env) \<and>
   dictType_ok (keylistDictType example_env) \<and> dictType_ok (moduleAPIDictType example_env)"
  using dict_types_meet_contract [OF example_env_ok, of "\<lparr>maxmemory = 0, no_shared_integers = False\<rparr>" "\<lambda>_ _ _. 0" "\<lambda>_ _ _. 0" plain_allocator] by simp

text \<open>The condition on the names is needed. The comparison without case stops at the first zero byte, while the hash covers the whole
  string: \<^verbatim>\<open>a\0b\<close> and \<^verbatim>\<open>a\0c\<close> are equal keys, although they differ also when case is ignored, and with a seed of sixteen bytes 7 their hashes differ.\<close>

definition zero_name :: "byte \<Rightarrow> sds_key" where
  "zero_name c = Abs_sds_key \<lparr>sds_type = SDS_TYPE_8, hdr_len = 3, hdr_alloc = 3, sds_buf = [97, 0, c, 0]\<rparr>"

lemma zero_name_str: "sds_str (Rep_sds_key (zero_name c)) = [97, 0, c]"
  by (simp add: zero_name_def Abs_sds_key_inverse key_ok_def sds_ok_def sdsalloc_def sds_str_def)

lemma names_with_zero_break_contract:
  "keyEq (commandTableDictType example_env) (zero_name 98) (zero_name 99) \<and>
   hashFunction (commandTableDictType example_env) (zero_name 98) \<noteq> hashFunction (commandTableDictType example_env) (zero_name 99)"
proof
  show "keyEq (commandTableDictType example_env) (zero_name 98) (zero_name 99)"
    by (simp add: commandTableDictType_def name_dictType_eq [OF example_env_ok] zero_name_str c_text_def)
  have "replicate 8 (7 :: byte) = [7, 7, 7, 7, 7, 7, 7, 7]" by (simp add: numeral_eq_Suc)
  then have h: "text_hash example_env t = SipHash 1 2 0x0707070707070707 0x0707070707070707 t" for t
    by (simp add: text_hash_def example_env_def host_load_store siphash_reference_def)
  have blocks: "le_words (sip_pad [97, 0, c]) = [word_of_nat (le_nat [97, 0, c, 0, 0, 0, 0, 3])]" for c
  proof -
    have "replicate 4 (0 :: byte) = [0, 0, 0, 0]" by (simp add: numeral_eq_Suc)
    then have "sip_pad [97, 0, c] = [97, 0, c, 0, 0, 0, 0, 3]" by (simp add: sip_pad_def)
    then show ?thesis by (simp add: le_words.simps del: le_nat.simps)
  qed
  have lower: "map ascii_lower [97, 0, 98] = [97, 0, 98]" "map ascii_lower [97, 0, 99] = [97, 0, 99]"
    by (simp_all add: siptlw_def flip: siptlw_eq)
  show "hashFunction (commandTableDictType example_env) (zero_name 98) \<noteq> hashFunction (commandTableDictType example_env) (zero_name 99)"
    unfolding commandTableDictType_def name_dictType_eq [OF example_env_ok] zero_name_str h lower SipHash_def blocks
    by (simp add: SipHash_eval)
qed

end
