(* ===== verification/Bits_Count.thy ===== *)
theory Bits_Count
  imports Endian
begin

text \<open>
  The two scans of bit maps of \<^verbatim>\<open>bitops.c\<close>: \<^verbatim>\<open>redisPopcount\<close>, which counts the set bits of a range with a table for single
  bytes and with parallel sums for groups of seven 32-bit words, and \<^verbatim>\<open>redisBitpos\<close>, which finds the
  first set or clear bit by skipping bytes, then 64-bit words, then bits.

  Memory is one block; \<open>base\<close> is the address of its first byte, which decides how many bytes are consumed
  before the loads are aligned. \<open>be\<close> is the byte order of the host. Counts are not negative at any
  caller and are natural numbers here. The theorems hold for all addresses and both byte orders.
\<close>

unbundle bit_operations_syntax

section \<open>Counting bits\<close>

definition bitsinbyte :: "nat list" where
  "bitsinbyte =
    [0, 1, 1, 2, 1, 2, 2, 3, 1, 2, 2, 3, 2, 3, 3, 4, 1, 2, 2, 3, 2, 3, 3, 4, 2, 3, 3, 4, 3, 4, 4, 5,
     1, 2, 2, 3, 2, 3, 3, 4, 2, 3, 3, 4, 3, 4, 4, 5, 2, 3, 3, 4, 3, 4, 4, 5, 3, 4, 4, 5, 4, 5, 5, 6,
     1, 2, 2, 3, 2, 3, 3, 4, 2, 3, 3, 4, 3, 4, 4, 5, 2, 3, 3, 4, 3, 4, 4, 5, 3, 4, 4, 5, 4, 5, 5, 6,
     2, 3, 3, 4, 3, 4, 4, 5, 3, 4, 4, 5, 4, 5, 5, 6, 3, 4, 4, 5, 4, 5, 5, 6, 4, 5, 5, 6, 5, 6, 6, 7,
     1, 2, 2, 3, 2, 3, 3, 4, 2, 3, 3, 4, 3, 4, 4, 5, 2, 3, 3, 4, 3, 4, 4, 5, 3, 4, 4, 5, 4, 5, 5, 6,
     2, 3, 3, 4, 3, 4, 4, 5, 3, 4, 4, 5, 4, 5, 5, 6, 3, 4, 4, 5, 4, 5, 5, 6, 4, 5, 5, 6, 5, 6, 6, 7,
     2, 3, 3, 4, 3, 4, 4, 5, 3, 4, 4, 5, 4, 5, 5, 6, 3, 4, 4, 5, 4, 5, 5, 6, 4, 5, 5, 6, 5, 6, 6, 7,
     3, 4, 4, 5, 4, 5, 5, 6, 4, 5, 5, 6, 5, 6, 6, 7, 4, 5, 5, 6, 5, 6, 6, 7, 5, 6, 6, 7, 6, 7, 7, 8]"

text \<open>The bytes in front of the first aligned word, and the bytes behind the last group.\<close>

fun pop_head :: "nat \<Rightarrow> bytes \<Rightarrow> nat \<Rightarrow> nat \<Rightarrow> nat \<Rightarrow> (nat \<times> nat \<times> nat) option" where
  "pop_head base m p 0 bits = Some (p, 0, bits)"
| "pop_head base m p (Suc count) bits =
     (if (base + p) AND 3 \<noteq> 0 then do {
        b \<leftarrow> mem_get m p;
        n \<leftarrow> mem_get bitsinbyte (unat b);
        pop_head base m (p + 1) count (bits + n) }
      else Some (p, Suc count, bits))"

fun pop_tail :: "bytes \<Rightarrow> nat \<Rightarrow> nat \<Rightarrow> nat \<Rightarrow> nat option" where
  "pop_tail m p 0 bits = Some bits"
| "pop_tail m p (Suc count) bits = do {
     b \<leftarrow> mem_get m p;
     n \<leftarrow> mem_get bitsinbyte (unat b);
     pop_tail m (p + 1) count (bits + n) }"

definition load_u32 :: "bool \<Rightarrow> bytes \<Rightarrow> nat \<Rightarrow> u32 option" where
  "load_u32 be m p = map_option (host_load be) (mem_read m p 4)"

text \<open>The sums inside of one word, first of two bits, then of four.\<close>

definition pop_nibbles :: "u32 \<Rightarrow> u32" where
  "pop_nibbles aux =
     (let aux = aux - (drop_bit 1 aux AND 0x55555555)
      in (aux AND 0x33333333) + (drop_bit 2 aux AND 0x33333333))"

definition pop_bytes :: "u32 \<Rightarrow> u32" where
  "pop_bytes aux = (aux + drop_bit 4 aux) AND 0x0F0F0F0F"

definition pop_group :: "u32 \<Rightarrow> u32 \<Rightarrow> u32 \<Rightarrow> u32 \<Rightarrow> u32 \<Rightarrow> u32 \<Rightarrow> u32 \<Rightarrow> u32" where
  "pop_group aux1 aux2 aux3 aux4 aux5 aux6 aux7 =
     drop_bit 24 ((pop_bytes (pop_nibbles aux1) + pop_bytes (pop_nibbles aux2) + pop_bytes (pop_nibbles aux3) +
       pop_bytes (pop_nibbles aux4) + pop_bytes (pop_nibbles aux5) + pop_bytes (pop_nibbles aux6) +
       pop_bytes (pop_nibbles aux7)) * 0x01010101)"

function pop_words :: "bool \<Rightarrow> bytes \<Rightarrow> nat \<Rightarrow> nat \<Rightarrow> nat \<Rightarrow> (nat \<times> nat \<times> nat) option" where
  "pop_words be m p count bits =
     (if 28 \<le> count then do {
        aux1 \<leftarrow> load_u32 be m p;
        aux2 \<leftarrow> load_u32 be m (p + 4);
        aux3 \<leftarrow> load_u32 be m (p + 8);
        aux4 \<leftarrow> load_u32 be m (p + 12);
        aux5 \<leftarrow> load_u32 be m (p + 16);
        aux6 \<leftarrow> load_u32 be m (p + 20);
        aux7 \<leftarrow> load_u32 be m (p + 24);
        pop_words be m (p + 28) (count - 28) (bits + unat (pop_group aux1 aux2 aux3 aux4 aux5 aux6 aux7)) }
      else Some (p, count, bits))"
  by pat_completeness auto
termination by (relation "measure (\<lambda>(be, m, p, count, bits). count)") auto

definition redisPopcount :: "bool \<Rightarrow> nat \<Rightarrow> bytes \<Rightarrow> nat \<Rightarrow> nat \<Rightarrow> nat option" where
  "redisPopcount be base m s count = do {
     (p, count, bits) \<leftarrow> pop_head base m s count 0;
     (p, count, bits) \<leftarrow> pop_words be m p count bits;
     pop_tail m p count bits }"

declare pop_words.simps [simp del]

section \<open>Finding a bit\<close>

text \<open>Skip single bytes up to the first aligned word; the flag tells that a byte with the bit was found.\<close>

fun bitpos_head :: "nat \<Rightarrow> bytes \<Rightarrow> byte \<Rightarrow> nat \<Rightarrow> nat \<Rightarrow> nat \<Rightarrow> (bool \<times> nat \<times> nat \<times> nat) option" where
  "bitpos_head base m skipval c 0 pos = Some (False, c, 0, pos)"
| "bitpos_head base m skipval c (Suc count) pos =
     (if (base + c) AND 7 \<noteq> 0 then do {
        b \<leftarrow> mem_get m c;
        if b \<noteq> skipval then Some (True, c, Suc count, pos)
        else bitpos_head base m skipval (c + 1) count (pos + 8) }
      else Some (False, c, Suc count, pos))"

function bitpos_words :: "bool \<Rightarrow> bytes \<Rightarrow> u64 \<Rightarrow> nat \<Rightarrow> nat \<Rightarrow> nat \<Rightarrow> (nat \<times> nat \<times> nat) option" where
  "bitpos_words be m skipval l count pos =
     (if 8 \<le> count then do {
        bs \<leftarrow> mem_read m l 8;
        if host_load be bs \<noteq> skipval then Some (l, count, pos)
        else bitpos_words be m skipval (l + 8) (count - 8) (pos + 64) }
      else Some (l, count, pos))"
  by pat_completeness auto
termination by (relation "measure (\<lambda>(be, m, s, l, count, pos). count)") auto

text \<open>Load up to eight bytes, the first one as the most significant; missing bytes are zero.\<close>

fun bitpos_load :: "nat \<Rightarrow> bytes \<Rightarrow> nat \<Rightarrow> nat \<Rightarrow> u64 \<Rightarrow> u64 option" where
  "bitpos_load 0 m c count word = Some word"
| "bitpos_load (Suc j) m c count word =
     (if count \<noteq> 0 then do {
        b \<leftarrow> mem_get m c;
        bitpos_load j m (c + 1) (count - 1) (push_bit 8 word OR ucast b) }
      else bitpos_load j m c count (push_bit 8 word))"

text \<open>The scan of the last word; no result stands for the panic behind the loop.\<close>

function bitpos_scan :: "bool \<Rightarrow> u64 \<Rightarrow> u64 \<Rightarrow> nat \<Rightarrow> nat option" where
  "bitpos_scan wanted word one pos =
     (if one \<noteq> 0 then
        if ((one AND word) \<noteq> 0) = wanted then Some pos
        else bitpos_scan wanted word (drop_bit 1 one) (pos + 1)
      else None)"
  by pat_completeness auto
termination
proof (relation "measure (\<lambda>(wanted, word, one, pos). unat one)")
  fix wanted and word one :: u64 and pos
  assume "one \<noteq> 0"
  then have "unat one div 2 < unat one" by (intro div_less_dividend) (simp_all add: unat_gt_0)
  then show "((wanted, word, drop_bit 1 one, pos + 1), wanted, word, one, pos) \<in> measure (\<lambda>(wanted, word, one, pos). unat one)"
    by (simp add: drop_bit_Suc unat_div)
qed simp

definition redisBitpos :: "bool \<Rightarrow> nat \<Rightarrow> bytes \<Rightarrow> nat \<Rightarrow> nat \<Rightarrow> bool \<Rightarrow> int option" where
  "redisBitpos be base m s count wanted = do {
     (found, c, count, pos) \<leftarrow> bitpos_head base m (if wanted then 0 else 255) s count 0;
     (l, count, pos) \<leftarrow> (if found then Some (c, count, pos) else bitpos_words be m (if wanted then 0 else - 1) c count pos);
     word \<leftarrow> bitpos_load 8 m l count 0;
     if wanted \<and> word = 0 then Some (- 1)
     else map_option int (bitpos_scan wanted word (NOT (drop_bit 1 (- 1))) pos) }"

declare bitpos_words.simps [simp del] bitpos_scan.simps [simp del]


section \<open>The table\<close>

text \<open>The number of set bits of a number with at most \<open>n\<close> bits.\<close>

fun popcount :: "nat \<Rightarrow> nat \<Rightarrow> nat" where
  "popcount 0 v = 0"
| "popcount (Suc n) v = v mod 2 + popcount n (v div 2)"

lemma popcount_0 [simp]: "popcount n 0 = 0"
  by (induction n) simp_all

lemma popcount_add: "popcount (n + k) v = popcount n (v mod 2 ^ n) + popcount k (v div 2 ^ n)"
proof (induction n arbitrary: v)
  case (Suc n)
  have "v mod 2 ^ Suc n mod 2 = v mod 2" by (simp add: mod_mod_cancel)
  moreover have "v mod 2 ^ Suc n div 2 = v div 2 mod 2 ^ n" by (simp add: mod_mult2_eq)
  ultimately show ?case by (simp add: Suc.IH div_mult2_eq)
qed simp

lemma popcount_split: "a < 2 ^ n \<Longrightarrow> popcount (n + k) (a + 2 ^ n * b) = popcount n a + popcount k b"
  by (simp add: popcount_add)

fun pop_table :: "nat \<Rightarrow> nat list" where
  "pop_table 0 = [0]"
| "pop_table (Suc n) = pop_table n @ map Suc (pop_table n)"

lemma length_pop_table [simp]: "length (pop_table n) = 2 ^ n"
  by (induction n) simp_all

lemma nth_pop_table: "i < 2 ^ n \<Longrightarrow> pop_table n ! i = popcount n i"
proof (induction n arbitrary: i)
  case (Suc n)
  have "popcount (Suc n) i = popcount n (i mod 2 ^ n) + popcount 1 (i div 2 ^ n)"
    using popcount_add [of n 1 i] by simp
  then show ?case
  proof (cases "i < 2 ^ n")
    case False
    then have "i div 2 ^ n = 1" "i mod 2 ^ n = i - 2 ^ n" using Suc.prems by (simp_all add: div_nat_eqI mod_if)
    then show ?thesis using Suc False \<open>popcount (Suc n) i = _\<close> by (simp add: nth_append)
  qed (use Suc \<open>popcount (Suc n) i = _\<close> in \<open>simp add: nth_append\<close>)
qed simp

lemma pop_table_numeral: "pop_table (numeral k) = pop_table (pred_numeral k) @ map Suc (pop_table (pred_numeral k))"
  by (simp add: numeral_eq_Suc)

lemma bitsinbyte_eq: "bitsinbyte = pop_table 8"
  by (simp add: bitsinbyte_def pop_table_numeral)

lemma bitsinbyte_get: "mem_get bitsinbyte (unat (b :: byte)) = Some (popcount 8 (unat b))"
  by (simp add: bitsinbyte_eq mem_get_def nth_pop_table del: pop_table.simps)

section \<open>Sums inside of words\<close>

text \<open>A number given by fields of \<open>w\<close> bits, the lowest first.\<close>

fun fields :: "nat \<Rightarrow> nat list \<Rightarrow> nat" where
  "fields w [] = 0"
| "fields w (d # ds) = d + 2 ^ w * fields w ds"

fun digits :: "nat \<Rightarrow> nat \<Rightarrow> nat \<Rightarrow> nat list" where
  "digits w 0 v = []"
| "digits w (Suc n) v = v mod 2 ^ w # digits w n (v div 2 ^ w)"

lemma fields_digits: "v < 2 ^ (w * n) \<Longrightarrow> fields w (digits w n v) = v"
proof (induction n arbitrary: v)
  case (Suc n)
  then have "v div 2 ^ w < 2 ^ (w * n)" by (simp add: less_mult_imp_div_less power_add mult.commute)
  then show ?case by (simp add: Suc.IH)
qed simp

lemma length_digits [simp]: "length (digits w n v) = n"
  by (induction n arbitrary: v) simp_all

lemma digits_less: "d \<in> set (digits w n v) \<Longrightarrow> d < 2 ^ w"
  by (induction n arbitrary: v) auto

lemma popcount_fields: "\<forall>d\<in>set ds. d < 2 ^ w \<Longrightarrow> popcount (w * length ds) (fields w ds) = sum_list (map (popcount w) ds)"
  by (induction ds) (simp_all add: popcount_split)

lemma and_fields:
  fixes a m p q :: nat
  assumes "a < 2 ^ w" "m < 2 ^ w"
  shows "(a + 2 ^ w * p) AND (m + 2 ^ w * q) = (a AND m) + 2 ^ w * (p AND q)"
proof -
  let ?x = "a + 2 ^ w * p" and ?y = "m + 2 ^ w * q"
  have "?x AND ?y = push_bit w (drop_bit w (?x AND ?y)) + take_bit w (?x AND ?y)" by (simp only: bits_ident)
  then show ?thesis using assms by (simp only: drop_bit_and take_bit_and) (simp add: drop_bit_eq_div take_bit_eq_mod push_bit_eq_mult)
qed

lemma shift_and_fields:
  assumes "\<forall>e\<in>set es. e < 2 ^ w" "\<forall>m\<in>set ms. m < 2 ^ (w - s)" "s \<le> w" "length es = length ms"
  shows "(fields w es div 2 ^ s) AND fields w ms = fields w (map2 (\<lambda>e m. (e div 2 ^ s) AND m) es ms)"
  using assms
proof (induction es arbitrary: ms)
  case (Cons e es)
  then obtain m ms' where ms: "ms = m # ms'" by (cases ms) auto
  let ?F = "fields w es"
  have w: "(2 :: nat) ^ w = 2 ^ s * 2 ^ (w - s)" using Cons.prems(3) by (simp flip: power_add)
  have lt: "e div 2 ^ s < 2 ^ (w - s)" using Cons.prems(1) w by (simp add: less_mult_imp_div_less mult.commute)
  have "(e + 2 ^ w * ?F) div 2 ^ s = e div 2 ^ s + 2 ^ (w - s) * ?F" by (simp add: w mult.assoc)
  also have "2 ^ (w - s) * ?F = 2 ^ (w - s) * (?F mod 2 ^ s + 2 ^ s * (?F div 2 ^ s))" by simp
  also have "\<dots> = 2 ^ (w - s) * (?F mod 2 ^ s) + 2 ^ w * (?F div 2 ^ s)" by (simp only: distrib_left w mult.assoc mult.left_commute)
  finally have d: "(e + 2 ^ w * ?F) div 2 ^ s = (e div 2 ^ s + 2 ^ (w - s) * (?F mod 2 ^ s)) + 2 ^ w * (?F div 2 ^ s)" by simp
  have m: "m < 2 ^ (w - s)" using Cons.prems(2) ms by simp
  have "?F mod 2 ^ s < 2 ^ s" by simp
  then have "?F mod 2 ^ s + 1 \<le> 2 ^ s" by linarith
  then have "2 ^ (w - s) * (?F mod 2 ^ s + 1) \<le> 2 ^ (w - s) * 2 ^ s" by (rule mult_le_mono2)
  then have low: "e div 2 ^ s + 2 ^ (w - s) * (?F mod 2 ^ s) < 2 ^ w" using lt by (simp add: w algebra_simps)
  have "(2 :: nat) ^ (w - s) \<le> 2 ^ w" by simp
  then have mw: "m < 2 ^ w" using m by linarith
  have "(e div 2 ^ s + 2 ^ (w - s) * (?F mod 2 ^ s)) AND (m + 2 ^ (w - s) * 0) = (e div 2 ^ s AND m) + 2 ^ (w - s) * ((?F mod 2 ^ s) AND 0)"
    by (rule and_fields) (use lt m in simp_all)
  then have "(e div 2 ^ s + 2 ^ (w - s) * (?F mod 2 ^ s)) AND m = e div 2 ^ s AND m" by simp
  then show ?case using Cons.IH [of ms'] Cons.prems ms and_fields [OF low mw, of "?F div 2 ^ s" "fields w ms'"]
    by (simp only: ms fields.simps d) simp
qed simp

lemma unat_drop_bit: "unat (drop_bit n (x :: 'a::len word)) = unat x div 2 ^ n"
  unfolding unsigned_drop_bit_eq by (simp add: take_bit_nat_eq_self flip: drop_bit_eq_div)

lemma list4: "length xs = 4 \<Longrightarrow> \<exists>a b c d. xs = [a, b, c, d]"
  by (auto simp: numeral_eq_Suc length_Suc_conv)

text \<open>One word: the counts of its four bytes, each in a field of eight bits.\<close>

lemma nat_and_mod: "c AND 1 = c mod 2" "c AND 3 = c mod 4" "c AND 15 = c mod 16" for c :: nat
  using take_bit_eq_mask [of 2 c] take_bit_eq_mask [of 4 c] by (simp_all add: take_bit_eq_mod mask_eq_exp_minus_1 and_one_eq)

lemma digit_cases: "d < 4 \<Longrightarrow> d = 0 \<or> d = 1 \<or> d = 2 \<or> d = (3 :: nat)"
  by auto

lemma popcount_numeral: "popcount (numeral k) v = v mod 2 + popcount (pred_numeral k) (v div 2)"
  by (simp add: numeral_eq_Suc)

lemma replicate_numeral: "replicate (numeral k) x = x # replicate (pred_numeral k) x"
  by (simp add: numeral_eq_Suc)

lemma digit_sum: "d < 4 \<Longrightarrow> popcount 2 d = d - d div 2"
  using digit_cases [of d] by (auto simp: popcount_numeral)

lemma digit_le: "d < 4 \<Longrightarrow> d - d div 2 \<le> 2" "d < 4 \<Longrightarrow> d div 2 \<le> (1 :: nat)" "d < 4 \<Longrightarrow> d div 2 mod 2 = d div 2"
  using digit_cases [of d] by auto

lemma fields_minus: "list_all2 (\<le>) es ds \<Longrightarrow> fields w ds - fields w es = fields w (map2 (-) ds es) \<and> fields w es \<le> fields w ds"
proof (induction rule: list_all2_induct)
  case (Cons e es d ds)
  then have "2 ^ w * fields w es \<le> 2 ^ w * fields w ds" by simp
  moreover have "2 ^ w * fields w ds - 2 ^ w * fields w es = 2 ^ w * fields w (map2 (-) ds es)"
    using Cons by (simp flip: diff_mult_distrib2)
  ultimately show ?case using \<open>e \<le> d\<close> by (simp only: list.map zip_Cons_Cons prod.case fields.simps) linarith
qed simp

lemma fields_plus: "length ds = length es \<Longrightarrow> fields w ds + fields w es = fields w (map2 (+) ds es)"
  by (induction ds es rule: list_induct2) (simp_all flip: distrib_left)

lemma fields_less: "\<forall>d\<in>set ds. d < 2 ^ w \<Longrightarrow> fields w ds < 2 ^ (w * length ds)"
proof (induction ds)
  case (Cons d ds)
  then have "fields w ds + 1 \<le> 2 ^ (w * length ds)" by simp
  then have "2 ^ w * (fields w ds + 1) \<le> 2 ^ w * 2 ^ (w * length ds)" by (rule mult_le_mono2)
  then show ?case using Cons.prems by (simp add: power_add)
qed simp

text \<open>A mask that keeps every second field, and a shift by one field.\<close>

fun evens :: "nat list \<Rightarrow> nat list" where
  "evens (a # b # xs) = a # evens xs"
| "evens xs = xs"

fun pair_sums :: "nat list \<Rightarrow> nat list" where
  "pair_sums (a # b # xs) = (a + b) # pair_sums xs"
| "pair_sums xs = xs"

lemma and_evens:
  "even (length ds) \<Longrightarrow> \<forall>d\<in>set ds. d < 2 ^ w \<Longrightarrow>
   fields w ds AND fields (2 * w) (replicate (length ds div 2) (2 ^ w - 1)) = fields (2 * w) (evens ds)"
proof (induction ds rule: evens.induct)
  case (1 a b xs)
  have w: "(2 :: nat) ^ (2 * w) = 2 ^ w * 2 ^ w" by (simp add: mult_2 power_add)
  have "b + 1 \<le> 2 ^ w" using 1(3) by simp
  then have "2 ^ w * (b + 1) \<le> 2 ^ w * 2 ^ w" by (rule mult_le_mono2)
  then have lt: "a + 2 ^ w * b < 2 ^ (2 * w)" using 1(3) by (simp add: w)
  have "(1 :: nat) \<le> 2 ^ w" "(2 :: nat) ^ w \<le> 2 ^ (2 * w)" by simp_all
  then have m: "(2 :: nat) ^ w - 1 < 2 ^ (2 * w)" by linarith
  have "(a + 2 ^ w * b) AND (2 ^ w - 1) = (a + 2 ^ w * b) mod 2 ^ w"
    using take_bit_eq_mask [of w "a + 2 ^ w * b"] by (simp add: take_bit_eq_mod mask_eq_exp_minus_1)
  also have "\<dots> = a" using 1(3) by simp
  finally have "(a + 2 ^ w * b) AND (2 ^ w - 1) = a" .
  then show ?case using 1 and_fields [OF lt m, of "fields w xs" "fields (2 * w) (replicate (length xs div 2) (2 ^ w - 1))"]
    by (simp add: w distrib_left mult.assoc add.assoc)
qed simp_all

lemma set_tlD: "x \<in> set (tl xs) \<Longrightarrow> x \<in> set xs"
  by (cases xs) auto

lemma fields_shift: "0 < length ds \<Longrightarrow> \<forall>d\<in>set ds. d < 2 ^ w \<Longrightarrow> fields w ds div 2 ^ w = fields w (tl ds @ [0])"
proof -
  have "fields w (xs @ [0]) = fields w xs" for xs by (induction xs) simp_all
  then show "0 < length ds \<Longrightarrow> \<forall>d\<in>set ds. d < 2 ^ w \<Longrightarrow> ?thesis" by (cases ds) simp_all
qed

lemma pair_sums_plus: "even (length ds) \<Longrightarrow> map2 (+) (evens ds) (evens (tl ds @ [0])) = pair_sums ds"
proof (induction ds rule: pair_sums.induct)
  case (1 a b xs)
  then show ?case by (cases xs) auto
qed auto

lemma pair_sums_evens: "even (length ds) \<Longrightarrow> evens (map2 (+) ds (tl ds @ [0])) = pair_sums ds"
proof (induction ds rule: pair_sums.induct)
  case (1 a b xs)
  then show ?case by (cases xs) auto
qed auto

lemma sum_pair_sums [simp]: "sum_list (pair_sums ds) = sum_list ds"
  by (induction ds rule: pair_sums.induct) simp_all

lemma length_pair_sums: "even (length ds) \<Longrightarrow> length (pair_sums ds) = length ds div 2"
  by (induction ds rule: pair_sums.induct) auto

lemma length_evens: "even (length ds) \<Longrightarrow> length (evens ds) = length ds div 2"
  by (induction ds rule: evens.induct) auto

lemma pair_sums_le: "even (length ds) \<Longrightarrow> \<forall>d\<in>set ds. d \<le> k \<Longrightarrow> \<forall>e\<in>set (pair_sums ds). e \<le> 2 * k"
  by (induction ds rule: pair_sums.induct) (auto simp: mult_2 intro: add_mono)

lemma pop_pairs_eq:
  fixes x :: u32
  assumes "unat x = fields 2 ds" "length ds = 16" "\<forall>d\<in>set ds. d < 4"
  shows "unat (x - (drop_bit 1 x AND 0x55555555)) = fields 2 (map (popcount 2) ds)"
proof -
  let ?hs = "map (\<lambda>d. d div 2) ds"
  have "(fields 2 ds div 2 ^ 1) AND fields 2 (replicate 16 1) = fields 2 (map2 (\<lambda>e m. (e div 2 ^ 1) AND m) ds (replicate 16 1))"
    by (rule shift_and_fields) (use assms in auto)
  also have "map2 (\<lambda>e m. (e div 2 ^ 1) AND m) ds (replicate 16 1) = ?hs"
    using assms(2,3) by (intro nth_equalityI) (auto simp: digit_le nat_and_mod)
  also have "fields 2 (replicate 16 1) = 0x55555555" by (simp add: replicate_numeral)
  finally have h: "unat (drop_bit 1 x AND 0x55555555) = fields 2 ?hs"
    by (simp add: unsigned_and_eq unat_drop_bit assms(1))
  have "list_all2 (\<le>) ?hs ds" by (simp add: list_all2_conv_all_nth)
  then have m: "fields 2 ds - fields 2 ?hs = fields 2 (map2 (-) ds ?hs)" "fields 2 ?hs \<le> fields 2 ds"
    using fields_minus [of ?hs ds 2] by simp_all
  have "map2 (-) ds ?hs = map (popcount 2) ds" using assms(3) by (intro nth_equalityI) (auto simp: digit_sum)
  then show ?thesis by (subst unat_sub) (simp_all only: word_le_nat_alt h assms(1) m)
qed

lemma pop_nibbles_eq:
  fixes x :: u32
  assumes "unat x = fields 2 ds" "length ds = 16" "\<forall>d\<in>set ds. d < 4"
  shows "unat (pop_nibbles x) = fields 4 (pair_sums (map (popcount 2) ds))"
proof -
  let ?x = "x - (drop_bit 1 x AND 0x55555555)" and ?cs = "map (popcount 2) ds"
  have c: "\<forall>c\<in>set ?cs. c \<le> 2" using assms(3) by (auto simp: digit_sum digit_le)
  then have c4: "\<forall>c\<in>set ?cs. c < 2 ^ 2" by fastforce
  have x: "unat ?x = fields 2 ?cs" using pop_pairs_eq [OF assms] .
  have m: "fields 4 (replicate 8 3) = 0x33333333" by (simp add: replicate_numeral)
  have "fields 2 ?cs AND fields (2 * 2) (replicate (length ?cs div 2) (2 ^ 2 - 1)) = fields (2 * 2) (evens ?cs)"
    by (rule and_evens) (use c4 assms(2) in simp_all)
  then have lo: "unat (?x AND 0x33333333) = fields 4 (evens ?cs)" using x by (simp add: unsigned_and_eq assms(2) m)
  have s: "unat (drop_bit 2 ?x) = fields 2 (tl ?cs @ [0])" using x fields_shift [of ?cs 2] c4 assms(2) by (auto simp: unat_drop_bit)
  have "fields 2 (tl ?cs @ [0]) AND fields (2 * 2) (replicate (length (tl ?cs @ [0]) div 2) (2 ^ 2 - 1)) = fields (2 * 2) (evens (tl ?cs @ [0]))"
    by (rule and_evens) (use c4 assms(2) in \<open>auto dest!: set_tlD\<close>)
  then have hi: "unat (drop_bit 2 ?x AND 0x33333333) = fields 4 (evens (tl ?cs @ [0]))" using s by (simp add: unsigned_and_eq assms(2) m)
  have "fields 4 (evens ?cs) + fields 4 (evens (tl ?cs @ [0])) = fields 4 (pair_sums ?cs)"
    using fields_plus [of "evens ?cs" "evens (tl ?cs @ [0])" 4] assms(2) by (simp add: length_evens pair_sums_plus)
  moreover have "fields 4 (pair_sums ?cs) < 2 ^ (4 * length (pair_sums ?cs))"
    by (rule fields_less) (use pair_sums_le [of ?cs 2] c assms(2) in force)
  ultimately show ?thesis using lo hi assms(2)
    by (simp add: pop_nibbles_def Let_def unat_plus_if' length_pair_sums)
qed

lemma pop_bytes_eq:
  fixes x :: u32
  assumes "unat x = fields 4 ns" "length ns = 8" "\<forall>n\<in>set ns. n \<le> 4"
  shows "unat (pop_bytes x) = fields 8 (pair_sums ns)"
proof -
  let ?sh = "tl ns @ [0]" and ?ss = "map2 (+) ns (tl ns @ [0])"
  have n16: "\<forall>n\<in>set ns. n < 2 ^ 4" using assms(3) by fastforce
  have l: "length ?sh = length ns" using assms(2) by simp
  have s: "unat (drop_bit 4 x) = fields 4 ?sh" using assms(1,2) fields_shift [of ns 4] n16 by (auto simp: unat_drop_bit)
  have le: "\<forall>e\<in>set ?ss. e \<le> 8"
  proof
    fix e
    assume "e \<in> set ?ss"
    then obtain a b where ab: "(a, b) \<in> set (zip ns ?sh)" "e = a + b" by auto
    then have "a \<in> set ns" "b = 0 \<or> b \<in> set ns" using set_zip_leftD [OF ab(1)] set_zip_rightD [OF ab(1)] by (auto dest: set_tlD)
    then have "a \<le> 4" "b \<le> 4" using assms(3) by auto
    then show "e \<le> 8" using ab(2) by simp
  qed
  then have s16: "\<forall>e\<in>set ?ss. e < 2 ^ 4" by fastforce
  have p: "fields 4 ns + fields 4 ?sh = fields 4 ?ss" by (rule fields_plus) (simp only: l)
  have "fields 4 ?ss < 2 ^ (4 * length ?ss)" using s16 by (rule fields_less)
  then have "unat (x + drop_bit 4 x) = fields 4 ?ss" using p s assms(1,2) l by (simp add: unat_plus_if')
  moreover have "fields 4 ?ss AND fields (2 * 4) (replicate (length ?ss div 2) (2 ^ 4 - 1)) = fields (2 * 4) (evens ?ss)"
    by (rule and_evens) (use s16 assms(2) l in simp_all)
  moreover have "fields 8 (replicate 4 15) = 0x0F0F0F0F" by (simp add: replicate_numeral)
  ultimately show ?thesis using assms(2) by (simp add: pop_bytes_def unsigned_and_eq pair_sums_evens)
qed

text \<open>The counts of the four bytes of a word.\<close>

lemma pop_word_eq:
  fixes x :: u32
  shows "\<exists>a b c d. unat (pop_bytes (pop_nibbles x)) = fields 8 [a, b, c, d] \<and> a \<le> 8 \<and> b \<le> 8 \<and> c \<le> 8 \<and> d \<le> 8 \<and>
    a + b + c + d = popcount 32 (unat x)"
proof -
  define ds where "ds = digits 2 16 (unat x)"
  have x: "unat x = fields 2 ds" "length ds = 16" "\<forall>d\<in>set ds. d < 4"
    using unat_u32_less [of x] digits_less [of _ 2 16 "unat x"] by (simp_all add: ds_def fields_digits)
  let ?cs = "map (popcount 2) ds" and ?ns = "pair_sums (map (popcount 2) ds)"
  have "\<forall>c\<in>set ?cs. c \<le> 2" using x(3) by (auto simp: digit_sum digit_le)
  then have n: "length ?ns = 8" "\<forall>n\<in>set ?ns. n \<le> 4" using pair_sums_le [of ?cs 2] x(2) by (simp_all add: length_pair_sums)
  have "unat (pop_bytes (pop_nibbles x)) = fields 8 (pair_sums ?ns)" by (rule pop_bytes_eq) (use pop_nibbles_eq [OF x] n in simp_all)
  moreover have "length (pair_sums ?ns) = 4" "\<forall>n\<in>set (pair_sums ?ns). n \<le> 8" using n pair_sums_le [of ?ns 4] by (simp_all add: length_pair_sums)
  moreover obtain a b c d where "pair_sums ?ns = [a, b, c, d]" using list4 calculation(2) by blast
  moreover have "sum_list (pair_sums ?ns) = popcount 32 (unat x)" using popcount_fields [of ds 2] x by simp
  ultimately show ?thesis by (intro exI [of _ a] exI [of _ b] exI [of _ c] exI [of _ d]) simp
qed

section \<open>redisPopcount is the number of set bits\<close>

text \<open>The four byte fields of \<open>s\<close> are at most \<open>k\<close> and add up to \<open>n\<close>.\<close>

definition byte_sums :: "u32 \<Rightarrow> nat \<Rightarrow> nat \<Rightarrow> bool" where
  "byte_sums s k n \<longleftrightarrow> (\<exists>a b c d. unat s = fields 8 [a, b, c, d] \<and> a \<le> k \<and> b \<le> k \<and> c \<le> k \<and> d \<le> k \<and> a + b + c + d = n)"

lemma byte_sums_word: "byte_sums (pop_bytes (pop_nibbles x)) 8 (popcount 32 (unat x))"
  unfolding byte_sums_def by (rule pop_word_eq)

lemma byte_sums_add:
  assumes "byte_sums s k n" "byte_sums t l m" "k + l < 256"
  shows "byte_sums (s + t) (k + l) (n + m)"
proof -
  obtain a b c d where s: "unat s = fields 8 [a, b, c, d]" "a \<le> k" "b \<le> k" "c \<le> k" "d \<le> k" "a + b + c + d = n"
    using assms(1) unfolding byte_sums_def by blast
  obtain a' b' c' d' where t: "unat t = fields 8 [a', b', c', d']" "a' \<le> l" "b' \<le> l" "c' \<le> l" "d' \<le> l" "a' + b' + c' + d' = m"
    using assms(2) unfolding byte_sums_def by blast
  have "unat s + unat t < 2 ^ 32" using s t assms(3) by simp
  then have "unat (s + t) = fields 8 [a + a', b + b', c + c', d + d']" using s(1) t(1) by (simp add: unat_plus_if')
  then show ?thesis unfolding byte_sums_def
    using s t by (intro exI [of _ "a + a'"] exI [of _ "b + b'"] exI [of _ "c + c'"] exI [of _ "d + d'"]) linarith
qed

lemma byte_sums_total:
  assumes "byte_sums s k n" "4 * k < 256"
  shows "unat (drop_bit 24 (s * 0x01010101)) = n"
proof -
  obtain a b c d where s: "unat s = fields 8 [a, b, c, d]" "a \<le> k" "b \<le> k" "c \<le> k" "d \<le> k" "a + b + c + d = n"
    using assms(1) unfolding byte_sums_def by blast
  define r where "r = a + 2 ^ 8 * (a + b) + 2 ^ 16 * (a + b + c) + 2 ^ 24 * (a + b + c + d)"
  have lt: "a + b + c + d < 256" using s assms(2) by linarith
  have "unat s * 16843009 = r + 4294967296 * (b + 2 ^ 8 * c + 2 ^ 16 * d + c + 2 ^ 8 * d + d)"
    using s(1) by (simp add: algebra_simps r_def)
  then have "unat s * 16843009 mod 4294967296 = r mod 4294967296" by (simp only: mod_mult_self2)
  moreover have "r < 4294967296" using lt by (simp add: r_def)
  ultimately have "unat (s * 0x01010101) = r" by (simp add: unat_word_ariths)
  moreover have "r div 2 ^ 24 = a + b + c + d" using lt by (intro div_nat_eqI) (simp_all add: r_def)
  ultimately show ?thesis using s(6) by (simp only: unat_drop_bit)
qed

lemma pop_group_eq:
  "unat (pop_group x1 x2 x3 x4 x5 x6 x7) =
   popcount 32 (unat x1) + popcount 32 (unat x2) + popcount 32 (unat x3) + popcount 32 (unat x4) + popcount 32 (unat x5) +
   popcount 32 (unat x6) + popcount 32 (unat x7)"
  unfolding pop_group_def
  by (rule byte_sums_total [where k = "8 + 8 + 8 + 8 + 8 + 8 + 8"], intro byte_sums_add byte_sums_word) simp_all

text \<open>A block as a map of bits. Bit 0 is the most significant bit of the first byte.\<close>

definition bit_at :: "bytes \<Rightarrow> nat \<Rightarrow> bool" where
  "bit_at bs i = bit (bs ! (i div 8)) (7 - i mod 8)"

definition bit_sum :: "bytes \<Rightarrow> nat" where
  "bit_sum bs = sum_list (map (\<lambda>b. popcount 8 (unat b)) bs)"

lemma bit_sum_simps [simp]: "bit_sum [] = 0" "bit_sum (b # bs) = popcount 8 (unat b) + bit_sum bs" "bit_sum (as @ bs) = bit_sum as + bit_sum bs"
  by (simp_all add: bit_sum_def)

lemma bit_sum_rev [simp]: "bit_sum (rev bs) = bit_sum bs"
  by (simp add: bit_sum_def rev_map [symmetric])

lemma popcount_le_nat: "popcount (8 * length bs) (le_nat bs) = bit_sum bs"
proof (induction bs)
  case (Cons b bs)
  have "popcount (8 + 8 * length bs) (unat b + 2 ^ 8 * le_nat bs) = popcount 8 (unat b) + popcount (8 * length bs) (le_nat bs)"
    by (rule popcount_split) simp
  then show ?case using Cons by simp
qed simp

lemma load_u32_popcount:
  assumes "p + 4 \<le> length m"
  shows "\<exists>x. load_u32 be m p = Some x \<and> popcount 32 (unat x) = bit_sum (take 4 (drop p m))"
proof -
  let ?bs = "take 4 (drop p m)" and ?cs = "if be then rev (take 4 (drop p m)) else take 4 (drop p m)"
  have l: "length ?cs = 4" using assms by simp
  have "le_nat ?cs < 2 ^ 32" using le_nat_less [of ?cs] unfolding l by simp
  then have "unat (host_load be ?bs :: u32) = le_nat ?cs" by (simp add: host_load_def unat_of_nat)
  moreover have "popcount 32 (le_nat ?cs) = bit_sum ?cs" using popcount_le_nat [of ?cs] unfolding l by simp
  ultimately show ?thesis using assms by (simp add: load_u32_def mem_read_eq)
qed

lemma take_28: "take 28 xs = take 4 xs @ take 4 (drop 4 xs) @ take 4 (drop 8 xs) @ take 4 (drop 12 xs) @ take 4 (drop 16 xs) @
    take 4 (drop 20 xs) @ take 4 (drop 24 xs)"
  using take_add [of 4 24 xs] take_add [of 4 20 "drop 4 xs"] take_add [of 4 16 "drop 8 xs"] take_add [of 4 12 "drop 12 xs"]
    take_add [of 4 8 "drop 16 xs"] take_add [of 4 4 "drop 20 xs"] by simp

lemma pop_words_eq:
  "p + count \<le> length m \<Longrightarrow> \<exists>p' c' n. pop_words be m p count bits = Some (p', c', n) \<and> p' + c' = p + count \<and>
     n + bit_sum (take c' (drop p' m)) = bits + bit_sum (take count (drop p m))"
proof (induction be m p count bits rule: pop_words.induct)
  case (1 be m p count bits)
  show ?case
  proof (cases "28 \<le> count")
    case True
    let ?l = "\<lambda>k x. load_u32 be m (p + k) = Some x \<and> popcount 32 (unat x) = bit_sum (take 4 (drop (p + k) m))"
    have l: "\<exists>x. ?l k x" if "k \<le> 24" for k by (rule load_u32_popcount) (use that 1(2) True in simp)
    obtain x1 where x1: "?l 0 x1" using l [of 0] by auto
    obtain x2 where x2: "?l 4 x2" using l [of 4] by auto
    obtain x3 where x3: "?l 8 x3" using l [of 8] by auto
    obtain x4 where x4: "?l 12 x4" using l [of 12] by auto
    obtain x5 where x5: "?l 16 x5" using l [of 16] by auto
    obtain x6 where x6: "?l 20 x6" using l [of 20] by auto
    obtain x7 where x7: "?l 24 x7" using l [of 24] by auto
    note x = x1 x2 x3 x4 x5 x6 x7
    let ?g = "unat (pop_group x1 x2 x3 x4 x5 x6 x7)"
    have g: "?g = bit_sum (take 28 (drop p m))" using x by (simp add: pop_group_eq take_28 add.commute)
    have "take count (drop p m) = take 28 (drop p m) @ take (count - 28) (drop (p + 28) m)"
      using take_add [of 28 "count - 28" "drop p m"] True by (simp add: add.commute)
    moreover obtain p' c' n where "pop_words be m (p + 28) (count - 28) (bits + ?g) = Some (p', c', n)" "p' + c' = p + 28 + (count - 28)"
      "n + bit_sum (take c' (drop p' m)) = bits + ?g + bit_sum (take (count - 28) (drop (p + 28) m))"
      using 1(1) [of x1 x2 x3 x4 x5 x6 x7] 1(2) x True by force
    moreover have "pop_words be m p count bits = pop_words be m (p + 28) (count - 28) (bits + ?g)"
      using x True by (subst (1) pop_words.simps) simp
    ultimately show ?thesis using g True by simp
  qed (simp add: pop_words.simps)
qed

lemma take_Suc_drop: "p < length m \<Longrightarrow> take (Suc c) (drop p m) = m ! p # take c (drop (Suc p) m)"
  by (metis Cons_nth_drop_Suc take_Suc_Cons)

lemma pop_head_eq:
  "p + count \<le> length m \<Longrightarrow> \<exists>p' c' n. pop_head base m p count bits = Some (p', c', n) \<and> p' + c' = p + count \<and>
     n + bit_sum (take c' (drop p' m)) = bits + bit_sum (take count (drop p m))"
proof (induction count arbitrary: p bits)
  case (Suc count)
  then have "p < length m" by simp
  then show ?case using Suc.IH [of "p + 1" "bits + popcount 8 (unat (m ! p))"] Suc.prems
    by (auto simp: mem_get_eq bitsinbyte_get take_Suc_drop add.assoc)
qed simp

lemma pop_tail_eq: "p + count \<le> length m \<Longrightarrow> pop_tail m p count bits = Some (bits + bit_sum (take count (drop p m)))"
proof (induction count arbitrary: p bits)
  case (Suc count)
  then show ?case by (simp add: mem_get_eq bitsinbyte_get take_Suc_drop)
qed simp

lemma popcount_sum: "popcount n v = (\<Sum>i<n. of_bool (odd (v div 2 ^ i)))"
proof (induction n arbitrary: v)
  case (Suc n)
  have "(\<Sum>i<Suc n. of_bool (odd (v div 2 ^ i)) :: nat) = of_bool (odd v) + (\<Sum>i<n. of_bool (odd (v div 2 div 2 ^ i)))"
    by (simp only: sum.lessThan_Suc_shift) (simp add: div_mult2_eq)
  then show ?case by (simp add: Suc.IH mod2_eq_if)
qed simp

lemma sum_lessThan_add: "(\<Sum>i<m + (n :: nat). f i) = (\<Sum>i<m. f i) + (\<Sum>i<n. f (m + i) :: nat)"
  by (induction n) (simp_all add: add.assoc)

lemma popcount_byte: "popcount 8 (unat (b :: byte)) = (\<Sum>i<8. of_bool (bit b (7 - i)))"
proof -
  have "popcount 8 (unat b) = (\<Sum>i<8. of_bool (bit b i))"
    unfolding popcount_sum by (intro sum.cong) (simp_all only: bit_iff_odd [symmetric] bit_unsigned_iff possible_bit_nat simp_thms)
  also have "\<dots> = (\<Sum>i<8. of_bool (bit b (8 - Suc i)))" by (rule sum.nat_diff_reindex [symmetric])
  finally show ?thesis by simp
qed

lemma bit_at_Cons: "bit_at (b # bs) (8 + i) = bit_at bs i"
proof -
  have "(8 + i) div 8 = Suc (i div 8)" by simp
  then show ?thesis by (simp only: bit_at_def nth_Cons_Suc) simp
qed

lemma bit_sum_card: "bit_sum bs = card {i. i < 8 * length bs \<and> bit_at bs i}"
proof -
  have "bit_sum bs = (\<Sum>i<8 * length bs. of_bool (bit_at bs i))"
  proof (induction bs)
    case (Cons b bs)
    have "(\<Sum>i<8. of_bool (bit_at (b # bs) i)) = popcount 8 (unat b)"
      unfolding popcount_byte by (intro sum.cong) (simp_all add: bit_at_def)
    then show ?case using Cons sum_lessThan_add [of "\<lambda>i. of_bool (bit_at (b # bs) i)" 8 "8 * length bs"]
      by (simp add: bit_at_Cons)
  qed simp
  also have "\<dots> = card {i. i < 8 * length bs \<and> bit_at bs i}"
    by (simp add: lessThan_def Int_def conj_commute flip: sum.inter_filter)
  finally show ?thesis .
qed

text \<open>C33: \<^verbatim>\<open>redisPopcount\<close> is the number of set bits of the range. It reads only bytes of the range, for every
  alignment of the data and both byte orders.\<close>

theorem redisPopcount_correct:
  assumes "s + count \<le> length m"
  shows "redisPopcount be base m s count = Some (card {i. i < 8 * count \<and> bit_at (take count (drop s m)) i})"
proof -
  obtain p c n where h: "pop_head base m s count 0 = Some (p, c, n)" "p + c = s + count" "n + bit_sum (take c (drop p m)) = bit_sum (take count (drop s m))"
    using pop_head_eq [OF assms, of base 0] by auto
  obtain p' c' n' where w: "pop_words be m p c n = Some (p', c', n')" "p' + c' = p + c"
    "n' + bit_sum (take c' (drop p' m)) = n + bit_sum (take c (drop p m))"
    using pop_words_eq [of p c m be n] h(2) assms by auto
  have "pop_tail m p' c' n' = Some (bit_sum (take count (drop s m)))"
    using pop_tail_eq [of p' c' m n'] h w assms by simp
  moreover have "length (take count (drop s m)) = count" using assms by simp
  ultimately show ?thesis using h(1) w(1) bit_sum_card [of "take count (drop s m)"] by (simp add: redisPopcount_def)
qed

theorem redisPopcount_correct_witness: "redisPopcount False 1 (replicate 40 (3 :: byte)) 2 33 = Some 66"
proof -
  have "bit_sum (replicate 33 3) = 66" by (simp add: bit_sum_def sum_list_replicate popcount_numeral)
  then show ?thesis using redisPopcount_correct [of 2 33 "replicate 40 3" False 1] bit_sum_card [of "replicate 33 3"] by simp
qed

section \<open>redisBitpos finds the first bit\<close>

text \<open>The bits of a word and of a block from left to right.\<close>

definition bits_msb :: "nat \<Rightarrow> 'a::len word \<Rightarrow> bool list" where
  "bits_msb n w = map (bit w) (rev [0..<n])"

definition bytes_bits :: "bytes \<Rightarrow> bool list" where
  "bytes_bits bs = concat (map (bits_msb 8) bs)"

fun index_of :: "bool \<Rightarrow> bool list \<Rightarrow> nat option" where
  "index_of v [] = None"
| "index_of v (x # xs) = (if x = v then Some 0 else map_option Suc (index_of v xs))"

lemma bytes_bits_simps [simp]:
  "bytes_bits [] = []" "bytes_bits (b # bs) = bits_msb 8 b @ bytes_bits bs" "bytes_bits (as @ bs) = bytes_bits as @ bytes_bits bs"
  by (simp_all add: bytes_bits_def)

lemma length_bits [simp]: "length (bits_msb n w) = n" "length (bytes_bits bs) = 8 * length bs"
  by (simp add: bits_msb_def) (induction bs, simp_all add: bits_msb_def)

lemma nth_bits_msb: "i < n \<Longrightarrow> bits_msb n w ! i = bit w (n - Suc i)"
  by (simp add: bits_msb_def rev_nth)

lemma nth_bytes_bits: "i < 8 * length bs \<Longrightarrow> bytes_bits bs ! i = bit_at bs i"
proof (induction bs arbitrary: i)
  case (Cons b bs)
  show ?case
  proof (cases "i < 8")
    case True
    then show ?thesis by (simp add: nth_append nth_bits_msb bit_at_def)
  next
    case False
    then obtain k where "i = 8 + k" using le_Suc_ex not_less by blast
    then show ?thesis using Cons by (simp add: nth_append bit_at_Cons)
  qed
qed simp

lemma index_of_Some: "index_of v xs = Some k \<longleftrightarrow> k < length xs \<and> xs ! k = v \<and> (\<forall>i<k. xs ! i \<noteq> v)"
proof (induction xs arbitrary: k)
  case (Cons x xs)
  then show ?case by (cases k) (auto simp: less_Suc_eq_0_disj)
qed simp

lemma index_of_None: "index_of v xs = None \<longleftrightarrow> v \<notin> set xs"
  by (induction xs) auto

lemma index_of_skip: "v \<notin> set xs \<Longrightarrow> index_of v (xs @ ys) = map_option ((+) (length xs)) (index_of v ys)"
proof (induction xs)
  case Nil
  show ?case by (cases "index_of v ys") simp_all
next
  case (Cons x xs)
  then show ?case by (cases "index_of v ys") auto
qed

lemma index_of_append: "v \<in> set xs \<Longrightarrow> index_of v (xs @ ys) = index_of v xs"
  by (induction xs) auto

lemma bitpos_scan_eq:
  "k < 64 \<Longrightarrow> bitpos_scan wanted word (2 ^ k) pos = map_option ((+) pos) (index_of wanted (bits_msb (Suc k) word))"
proof (induction k arbitrary: pos)
  case 0
  have z: "bitpos_scan wanted word 0 p = None" for p by (simp add: bitpos_scan.simps)
  have a: "2 ^ 0 AND word \<noteq> 0 \<longleftrightarrow> bit word 0" by (metis and.commute and_exp_eq_0_iff_not_bit)
  show ?case using a by (subst bitpos_scan.simps) (simp add: z bits_msb_def drop_bit_Suc)
next
  case (Suc k)
  have "bit ((2 :: u64) ^ Suc k) (Suc k)" using Suc.prems by (simp add: bit_simps del: power_Suc)
  then have n: "(2 :: u64) ^ Suc k \<noteq> 0" by (metis bit_0_eq bot_apply bot_bool_def)
  have d: "drop_bit (Suc 0) ((2 :: u64) ^ Suc k) = 2 ^ k"
    using Suc.prems by (intro bit_word_eqI) (auto simp: bit_simps simp del: power_Suc)
  have a: "2 ^ Suc k AND word = 0 \<longleftrightarrow> \<not> bit word (Suc k)" by (metis and.commute and_exp_eq_0_iff_not_bit)
  have b: "bits_msb (Suc (Suc k)) word = bit word (Suc k) # bits_msb (Suc k) word" by (simp add: bits_msb_def)
  show ?case using Suc.IH [of "pos + 1"] Suc.prems
    by (subst bitpos_scan.simps) (simp add: n d a b option.map_comp o_def del: power_Suc)
qed

text \<open>Loading bytes with the first one as the most significant appends their bits.\<close>

lemma bits_push_byte:
  assumes "n + 8 \<le> 64"
  shows "bits_msb (n + 8) (push_bit 8 w OR ucast b :: u64) = bits_msb n w @ bits_msb 8 (b :: byte)"
proof (rule nth_equalityI)
  fix i
  assume "i < length (bits_msb (n + 8) (push_bit 8 w OR ucast b :: u64))"
  then have i: "i < n + 8" by simp
  show "bits_msb (n + 8) (push_bit 8 w OR ucast b :: u64) ! i = (bits_msb n w @ bits_msb 8 b) ! i"
  proof (cases "i < n")
    case True
    then have k: "8 \<le> 7 + n - i" "7 + n - i < 64" using assms by linarith+
    then have "\<not> bit b (7 + n - i)" using bit_imp_le_length [of b "7 + n - i"] by auto
    then show ?thesis using True i k by (simp add: nth_bits_msb nth_append bit_simps)
  next
    case False
    then have "7 + n - i < 8" "7 + n - i < 64" using i assms by linarith+
    then show ?thesis using False i by (simp add: nth_bits_msb nth_append bit_simps)
  qed
qed simp

lemma bitpos_load_eq:
  assumes "c + count \<le> length m" "j \<le> 8"
  shows "\<exists>w'. bitpos_load j m c count w = Some w' \<and>
    bits_msb 64 w' = bits_msb (64 - 8 * j) w @ bytes_bits (take j (take count (drop c m))) @ replicate (8 * (j - count)) False"
  using assms
proof (induction j arbitrary: c count w)
  case (Suc j)
  have n: "64 - 8 * j = (64 - 8 * Suc j) + 8" using Suc.prems(2) by simp
  show ?case
  proof (cases count)
    case 0
    have "bits_msb (64 - 8 * j) (push_bit 8 w OR ucast (0 :: byte)) = bits_msb (64 - 8 * Suc j) w @ replicate 8 False"
      unfolding n using Suc.prems(2) by (subst bits_push_byte) (simp_all add: bits_msb_def numeral_eq_Suc)
    then show ?thesis using Suc.IH [of c 0 "push_bit 8 w"] Suc.prems 0 by (auto simp flip: replicate_add)
  next
    case (Suc k)
    have "bits_msb (64 - 8 * j) (push_bit 8 w OR ucast (m ! c)) = bits_msb (64 - 8 * Suc j) w @ bits_msb 8 (m ! c)"
      unfolding n using Suc.prems(2) by (subst bits_push_byte) simp_all
    then show ?thesis using Suc.IH [of "c + 1" k "push_bit 8 w OR ucast (m ! c)"] Suc.prems Suc
      by (auto simp: mem_get_eq take_Suc_drop)
  qed
qed simp

lemma set_bits_msb: "v \<in> set (bits_msb n w) \<longleftrightarrow> (\<exists>i<n. bit w i = v)"
  by (auto simp: bits_msb_def)

lemma byte_skip: "wanted \<notin> set (bits_msb 8 b) \<longleftrightarrow> b = (if wanted then 0 else 255)" for b :: byte
proof -
  have "(\<forall>i<8. \<not> bit b i) \<longleftrightarrow> b = 0" by (auto intro!: bit_word_eqI)
  moreover have "(\<forall>i<8. bit b i) \<longleftrightarrow> b = - 1" by (auto intro!: bit_word_eqI)
  moreover have "(- 1 :: byte) = 255" by simp
  ultimately show ?thesis by (simp add: set_bits_msb) 
qed

lemma le_nat_all: "le_nat bs = 0 \<longleftrightarrow> (\<forall>b\<in>set bs. b = 0)" "le_nat bs + 1 = 256 ^ length bs \<longleftrightarrow> (\<forall>b\<in>set bs. b = 255)"
proof -
  show "le_nat bs = 0 \<longleftrightarrow> (\<forall>b\<in>set bs. b = 0)" by (induction bs) (auto simp: unat_eq_0)
  show "le_nat bs + 1 = 256 ^ length bs \<longleftrightarrow> (\<forall>b\<in>set bs. b = 255)"
  proof (induction bs)
    case (Cons b bs)
    have lt: "le_nat bs + 1 \<le> 256 ^ length bs" using le_nat_less [of bs] by simp
    have b: "unat b \<le> 255" using unat_byte_less [of b] by linarith
    have "unat b + 256 * le_nat bs + 1 = 256 * 256 ^ length bs \<longleftrightarrow> unat b = 255 \<and> le_nat bs + 1 = 256 ^ length bs"
      using lt b by linarith
    moreover have "unat b = 255 \<longleftrightarrow> b = 255" unfolding word_unat_eq_iff by simp
    ultimately show ?case using Cons by simp
  qed simp
qed

lemma word_skip:
  assumes "length bs = 8"
  shows "wanted \<notin> set (bytes_bits bs) \<longleftrightarrow> host_load be bs = (if wanted then 0 else - 1 :: u64)"
proof -
  define cs where "cs = (if be then rev bs else bs)"
  have l: "length cs = 8" "set cs = set bs" using assms by (simp_all add: cs_def)
  have "le_nat cs < 2 ^ 64" using le_nat_less [of cs] l(1) by simp
  then have u: "unat (host_load be bs :: u64) = le_nat cs" by (simp add: host_load_def unat_of_nat cs_def)
  have a: "wanted \<notin> set (bytes_bits bs) \<longleftrightarrow> (\<forall>b\<in>set cs. b = (if wanted then 0 else 255))"
    unfolding l(2) byte_skip [symmetric] by (induction bs) auto
  show ?thesis
  proof (cases wanted)
    case True
    then show ?thesis using a le_nat_all(1) [of cs] u by (simp add: unat_eq_0 [symmetric])
  next
    case False
    have "unat (- 1 :: u64) = 256 ^ 8 - 1" by (simp add: unsigned_minus_1_eq_mask mask_eq_exp_minus_1)
    then have "host_load be bs = (- 1 :: u64) \<longleftrightarrow> le_nat cs + 1 = 256 ^ length cs" unfolding word_unat_eq_iff u l(1) by auto
    then show ?thesis using False a le_nat_all(2) [of cs] by simp
  qed
qed

lemma take_drop_split: "c \<le> c' \<Longrightarrow> c' + n' = c + n \<Longrightarrow> take n (drop c m) = take (c' - c) (drop c m) @ take n' (drop c' m)"
  using take_add [of "c' - c" n' "drop c m"] by (simp add: add.commute)

text \<open>A skip from \<open>(c, n, pos)\<close> to \<open>(c', n', pos')\<close> passes whole bytes without the wanted bit.\<close>

definition skipped :: "bool \<Rightarrow> bytes \<Rightarrow> nat \<times> nat \<times> nat \<Rightarrow> nat \<times> nat \<times> nat \<Rightarrow> bool" where
  "skipped wanted m = (\<lambda>(c, n, pos) (c', n', pos'). c \<le> c' \<and> c' + n' = c + n \<and> pos' = pos + 8 * (c' - c) \<and>
     wanted \<notin> set (bytes_bits (take (c' - c) (drop c m))))"

lemma skipped_refl: "skipped wanted m s s"
  by (cases s) (simp add: skipped_def)

lemma skipped_trans:
  assumes "skipped wanted m s s'" "skipped wanted m s' s''"
  shows "skipped wanted m s s''"
proof -
  obtain c n pos where s: "s = (c, n, pos)" by (cases s) auto
  obtain c' n' pos' where s': "s' = (c', n', pos')" by (cases s') auto
  obtain c'' n'' pos'' where s'': "s'' = (c'', n'', pos'')" by (cases s'') auto
  have "take (c'' - c) (drop c m) = take (c' - c) (drop c m) @ take (c'' - c') (drop c' m)"
    by (rule take_drop_split) (use assms in \<open>auto simp: skipped_def s s' s''\<close>)
  then show ?thesis using assms by (auto simp: skipped_def s s' s'')
qed

lemma bitpos_head_eq:
  "c + n \<le> length m \<Longrightarrow> \<exists>found s'. bitpos_head base m (if wanted then 0 else 255) c n pos = Some (found, s') \<and>
     skipped wanted m (c, n, pos) s' \<and> (found \<longrightarrow> 0 < fst (snd s') \<and> wanted \<in> set (bits_msb 8 (m ! fst s')))"
proof (induction n arbitrary: c pos)
  case 0
  then show ?case by (auto simp: skipped_refl)
next
  case (Suc n)
  let ?skip = "if wanted then 0 else 255 :: byte"
  show ?case
  proof (cases "(base + c) AND 7 \<noteq> 0 \<and> m ! c = ?skip")
    case True
    obtain found s' where r: "bitpos_head base m ?skip (c + 1) n (pos + 8) = Some (found, s')" "skipped wanted m (c + 1, n, pos + 8) s'"
      "found \<longrightarrow> 0 < fst (snd s') \<and> wanted \<in> set (bits_msb 8 (m ! fst s'))"
      using Suc.IH [of "c + 1" "pos + 8"] Suc.prems by auto
    have "wanted \<notin> set (bits_msb 8 (m ! c))" using True by (simp add: byte_skip)
    then have "skipped wanted m (c, Suc n, pos) (c + 1, n, pos + 8)" using Suc.prems by (simp add: skipped_def take_Suc_drop)
    then have "skipped wanted m (c, Suc n, pos) s'" using r(2) by (rule skipped_trans)
    moreover have "bitpos_head base m ?skip c (Suc n) pos = Some (found, s')" using True r(1) Suc.prems by (simp add: mem_get_eq)
    ultimately show ?thesis using r(3) by blast
  next
    case False
    then show ?thesis using Suc.prems byte_skip [of wanted "m ! c"]
      by (cases "(base + c) AND 7 = 0") (auto simp: skipped_refl mem_get_eq)
  qed
qed

lemma bitpos_words_eq:
  "c + n \<le> length m \<Longrightarrow> \<exists>s'. bitpos_words be m (if wanted then 0 else - 1) c n pos = Some s' \<and>
     skipped wanted m (c, n, pos) s' \<and> (8 \<le> fst (snd s') \<longrightarrow> wanted \<in> set (bytes_bits (take 8 (drop (fst s') m))))"
proof (induction n arbitrary: c pos rule: less_induct)
  case (less n)
  let ?skip = "if wanted then 0 else - 1 :: u64" and ?bs = "take 8 (drop c m)"
  show ?case
  proof (cases "8 \<le> n")
    case True
    have l: "length ?bs = 8" "mem_read m c 8 = Some ?bs" using True less.prems by (simp_all add: mem_read_eq)
    show ?thesis
    proof (cases "host_load be ?bs = ?skip")
      case eq: True
      obtain s' where r: "bitpos_words be m ?skip (c + 8) (n - 8) (pos + 64) = Some s'" "skipped wanted m (c + 8, n - 8, pos + 64) s'"
        "8 \<le> fst (snd s') \<longrightarrow> wanted \<in> set (bytes_bits (take 8 (drop (fst s') m)))"
        using less.IH [of "n - 8" "c + 8" "pos + 64"] less.prems True by auto
      have "skipped wanted m (c, n, pos) (c + 8, n - 8, pos + 64)"
        using word_skip [OF l(1), of wanted be] eq True by (simp add: skipped_def)
      then have "skipped wanted m (c, n, pos) s'" using r(2) by (rule skipped_trans)
      moreover have "bitpos_words be m ?skip c n pos = Some s'" using True l(2) eq r(1) by (subst bitpos_words.simps) simp
      ultimately show ?thesis using r(3) by blast
    next
      case False
      then have "wanted \<in> set (bytes_bits ?bs)" using word_skip [OF l(1), of wanted be] by blast
      moreover have "bitpos_words be m ?skip c n pos = Some (c, n, pos)" using True l(2) False by (subst bitpos_words.simps) simp
      ultimately show ?thesis by (simp add: skipped_refl)
    qed
  qed (simp add: bitpos_words.simps skipped_refl)
qed

lemma bitpos_start: "NOT (drop_bit 1 (- 1)) = (2 :: u64) ^ 63"
  by (simp add: mask_eq_exp_minus_1)

text \<open>What the last part of the search returns from a state in which the wanted bit is among the next eight bytes, or fewer
  than eight are left.\<close>

lemma bitpos_last:
  assumes "c + n \<le> length m" "wanted \<in> set (bytes_bits (take 8 (take n (drop c m)))) \<or> n < 8"
  shows "\<exists>w. bitpos_load 8 m c n 0 = Some w \<and>
    (if wanted \<and> w = 0 then wanted \<notin> set (bytes_bits (take n (drop c m)))
     else bitpos_scan wanted w (2 ^ 63) pos = map_option ((+) pos) (index_of wanted (bytes_bits (take n (drop c m)) @ [False])) \<and>
       (wanted \<longrightarrow> wanted \<in> set (bytes_bits (take n (drop c m)))))"
proof -
  let ?bs = "take n (drop c m)"
  obtain w where w: "bitpos_load 8 m c n 0 = Some w" "bits_msb 64 w = bytes_bits (take 8 ?bs) @ replicate (8 * (8 - n)) False"
    using bitpos_load_eq [OF assms(1), of 8 0] by (auto simp: bits_msb_def)
  have zero: "w = 0 \<longleftrightarrow> True \<notin> set (bits_msb 64 w)" unfolding set_bits_msb by (auto intro!: bit_word_eqI)
  have scan: "bitpos_scan wanted w (2 ^ 63) pos = map_option ((+) pos) (index_of wanted (bits_msb 64 w))"
    using bitpos_scan_eq [of 63 wanted w pos] by simp
  show ?thesis
  proof (cases "n < 8")
    case True
    then have t: "take 8 ?bs = ?bs" and r: "replicate (8 * (8 - n)) False = False # replicate (8 * (8 - n) - 1) False"
      by (simp_all add: replicate_Suc [symmetric] del: replicate_Suc)
    have i: "index_of wanted (bits_msb 64 w) = index_of wanted (bytes_bits ?bs @ [False])" if "\<not> (wanted \<and> w = 0)"
    proof (cases wanted)
      case True
      then have "True \<in> set (bytes_bits ?bs)" using that zero w(2) t by auto
      then show ?thesis using True unfolding w(2) t by (simp add: index_of_append)
    next
      case False
      then show ?thesis unfolding w(2) t r by (cases "False \<in> set (bytes_bits ?bs)") (simp_all add: index_of_append index_of_skip)
    qed
    have "wanted \<and> w = 0 \<Longrightarrow> wanted \<notin> set (bytes_bits ?bs)" "wanted \<Longrightarrow> w \<noteq> 0 \<Longrightarrow> wanted \<in> set (bytes_bits ?bs)" using zero w(2) t by auto
    then show ?thesis using w(1) scan i by auto
  next
    case False
    have full: "bits_msb 64 w = bytes_bits (take 8 ?bs)" using w(2) False by simp
    have "wanted \<in> set (bytes_bits (take 8 ?bs))" using assms(2) False by simp
    moreover have "bytes_bits ?bs = bytes_bits (take 8 ?bs) @ bytes_bits (drop 8 ?bs)" by (simp only: bytes_bits_simps(3) [symmetric] append_take_drop_id)
    ultimately have "index_of wanted (bytes_bits ?bs @ [False]) = index_of wanted (bits_msb 64 w)" "wanted \<in> set (bytes_bits ?bs)" "\<not> (wanted \<and> w = 0)"
      using zero full by (auto simp: index_of_append)
    then show ?thesis using w(1) scan by auto
  qed
qed

lemma redisBitpos_eq:
  assumes "s + count \<le> length m"
  shows "redisBitpos be base m s count wanted =
    Some (case index_of wanted (bytes_bits (take count (drop s m)) @ [False]) of None \<Rightarrow> - 1 | Some k \<Rightarrow> int k)"
proof -
  obtain found c n pos where h: "bitpos_head base m (if wanted then 0 else 255) s count 0 = Some (found, c, n, pos)"
    "skipped wanted m (s, count, 0) (c, n, pos)" "found \<longrightarrow> 0 < n \<and> wanted \<in> set (bits_msb 8 (m ! c))"
    using bitpos_head_eq [OF assms, of base wanted 0] by (metis fst_conv prod_cases3 snd_conv)
  obtain l k pos' where w: "(if found then Some (c, n, pos) else bitpos_words be m (if wanted then 0 else - 1) c n pos) = Some (l, k, pos')"
    "skipped wanted m (s, count, 0) (l, k, pos')" "wanted \<in> set (bytes_bits (take 8 (take k (drop l m)))) \<or> k < 8"
  proof (cases found)
    case True
    have "c < length m" "0 < n" using h assms True by (auto simp: skipped_def)
    then have "m ! c \<in> set (take 8 (take n (drop c m)))" by (metis (no_types, lifting) Cons_nth_drop_Suc list.set_intros(1) not_gr_zero take_Cons' zero_neq_numeral)
    then have "wanted \<in> set (bytes_bits (take 8 (take n (drop c m))))" using h(3) True by (auto simp: bytes_bits_def)
    then show ?thesis using that [of c n pos] True h(2) by simp
  next
    case False
    have "c + n \<le> length m" using h(2) assms by (simp add: skipped_def)
    then obtain l k pos' where w: "bitpos_words be m (if wanted then 0 else - 1) c n pos = Some (l, k, pos')"
      "skipped wanted m (c, n, pos) (l, k, pos')" "8 \<le> k \<longrightarrow> wanted \<in> set (bytes_bits (take 8 (drop l m)))"
      using bitpos_words_eq [of c n m be wanted pos] by (metis fst_conv prod_cases3 snd_conv)
    have "8 \<le> k \<Longrightarrow> take 8 (take k (drop l m)) = take 8 (drop l m)" by (simp add: min_def)
    then show ?thesis using that [of l k pos'] False w skipped_trans [OF h(2) w(2)] by (metis not_le)
  qed
  let ?bs = "take count (drop s m)" and ?rest = "take k (drop l m)"
  have sk: "s \<le> l" "l + k = s + count" "pos' = 8 * (l - s)" "wanted \<notin> set (bytes_bits (take (l - s) (drop s m)))" using w(2) by (simp_all add: skipped_def)
  have "bytes_bits ?bs = bytes_bits (take (l - s) (drop s m)) @ bytes_bits ?rest"
    using take_drop_split [OF sk(1,2), of m] by simp
  moreover have "length (bytes_bits (take (l - s) (drop s m))) = pos'" using sk assms by simp
  ultimately have i: "index_of wanted (bytes_bits ?bs @ [False]) = map_option ((+) pos') (index_of wanted (bytes_bits ?rest @ [False]))"
    using index_of_skip [OF sk(4), of "bytes_bits ?rest @ [False]"] by simp
  have "l + k \<le> length m" using sk assms by simp
  then obtain x where x: "bitpos_load 8 m l k 0 = Some x" "if wanted \<and> x = 0 then wanted \<notin> set (bytes_bits ?rest)
     else bitpos_scan wanted x (2 ^ 63) pos' = map_option ((+) pos') (index_of wanted (bytes_bits ?rest @ [False])) \<and>
       (wanted \<longrightarrow> wanted \<in> set (bytes_bits ?rest))"
    using bitpos_last [of l k m wanted pos'] w(3) by blast
  have r: "redisBitpos be base m s count wanted = (if wanted \<and> x = 0 then Some (- 1) else map_option int (bitpos_scan wanted x (2 ^ 63) pos'))"
    unfolding redisBitpos_def bitpos_start using h(1) w(1) x(1) by simp
  show ?thesis
  proof (cases "wanted \<and> x = 0")
    case True
    then have "index_of wanted (bytes_bits ?rest @ [False]) = None" using x(2) by (simp add: index_of_None)
    then show ?thesis using r True i by simp
  next
    case False
    have "index_of wanted (bytes_bits ?rest @ [False]) \<noteq> None" using x(2) False by (cases wanted) (auto simp: index_of_None)
    then show ?thesis unfolding r using False x(2) i by auto
  qed
qed

text \<open>C34: \<^verbatim>\<open>redisBitpos\<close> returns the position of the first wanted bit of the range. It returns \<open>- 1\<close> exactly when a set bit is
  wanted and the range has none, and the length of the range in bits when a clear bit is wanted and all are
  set; the panic at its end is never reached and no byte outside of the range is read.\<close>

theorem redisBitpos_correct:
  assumes "s + count \<le> length m"
  shows "\<exists>r. redisBitpos be base m s count wanted = Some r \<and>
    (r = - 1 \<longleftrightarrow> wanted \<and> (\<forall>i<8 * count. \<not> bit_at (take count (drop s m)) i)) \<and>
    (r \<noteq> - 1 \<longrightarrow> (\<exists>k \<le> 8 * count. r = int k \<and> (\<forall>i<k. bit_at (take count (drop s m)) i \<noteq> wanted) \<and>
      (if k < 8 * count then bit_at (take count (drop s m)) k = wanted else \<not> wanted)))"
proof -
  let ?bs = "take count (drop s m)" and ?bits = "bytes_bits (take count (drop s m))"
  have l: "length ?bs = count" using assms by simp
  then have n: "?bits ! i = bit_at ?bs i" if "i < 8 * count" for i using that nth_bytes_bits [of i ?bs] by simp
  show ?thesis
  proof (cases "index_of wanted (?bits @ [False])")
    case None
    then have "wanted" "True \<notin> set ?bits" by (auto simp: index_of_None)
    moreover have "\<not> bit_at ?bs i" if "i < 8 * count" for i
      using that calculation(2) n [OF that] l nth_mem [of i ?bits] by auto
    ultimately show ?thesis using redisBitpos_eq [OF assms, of be base wanted] None by simp
  next
    case (Some k)
    then have k: "k < Suc (8 * count)" "(?bits @ [False]) ! k = wanted" "\<forall>i<k. (?bits @ [False]) ! i \<noteq> wanted"
      using l by (simp_all add: index_of_Some)
    have b: "(?bits @ [False]) ! i = (if i < 8 * count then bit_at ?bs i else False)" if "i \<le> 8 * count" for i
      using that n l by (simp add: nth_append)
    have "bit_at ?bs i \<noteq> wanted" if "i < k" for i using that k(1,3) b [of i] by simp
    moreover have "if k < 8 * count then bit_at ?bs k = wanted else \<not> wanted" using k(1,2) b [of k] by (auto split: if_splits)
    moreover have "wanted \<Longrightarrow> \<exists>i<8 * count. bit_at ?bs i" using k(1,2) b [of k] by (auto split: if_splits)
    ultimately show ?thesis using redisBitpos_eq [OF assms, of be base wanted] Some k(1) by auto
  qed
qed

theorem redisBitpos_correct_witness: "redisBitpos True 3 [0, 64] 1 1 True = Some 1"
proof -
  have b: "\<not> bit_at [64] 0" "bit_at [64] 1" by (simp_all add: bit_at_def)
  have t: "take 1 (drop 1 [0, 64 :: byte]) = [64]" by simp
  obtain r where r: "redisBitpos True 3 [0, 64] 1 1 True = Some r" "r = - 1 \<longleftrightarrow> (\<forall>i<8. \<not> bit_at [64] i)"
    "r \<noteq> - 1 \<longrightarrow> (\<exists>k \<le> 8. r = int k \<and> (\<forall>i<k. \<not> bit_at [64] i) \<and> (if k < 8 then bit_at [64] k else False))"
    using redisBitpos_correct [of 1 1 "[0, 64]" True 3 True] unfolding t by (auto split: if_splits)
  then have "r \<noteq> - 1" using b(2) by force
  then obtain k where k: "r = int k" "\<forall>i<k. \<not> bit_at [64] i" "bit_at [64] k" using r(3) by (auto split: if_splits)
  then have "k = 1" using b by (metis One_nat_def less_one linorder_neqE_nat)
  then show ?thesis using r(1) k(1) by simp
qed

end
