(* ===== verification/Bitfield.thy ===== *)
theory Bitfield
  imports Bits_Count
begin

text \<open>
  Integers of arbitrary width at arbitrary bit positions (\<^verbatim>\<open>bitops.c\<close>): reading and writing signed and
  unsigned fields, and the detection of overflow with its three policies.

  Offsets and widths are natural numbers: the callers bound offsets by the maximal string size and widths by 64, so the
  64-bit counters of the source do not wrap. Values are 64-bit words, with all wrap-around of the source. A
  shift by the width of the type or more, which C leaves undefined, gives zero here; the theorems state the widths
  for which no such shift is evaluated.
\<close>

unbundle bit_operations_syntax

section \<open>Reading and writing fields\<close>

definition set_bit_step :: "bytes \<Rightarrow> nat \<Rightarrow> nat \<Rightarrow> u64 \<Rightarrow> nat \<Rightarrow> bytes option" where
  "set_bit_step p offset bits v j = do {
     let bitval = (of_bool (v AND push_bit (bits - 1 - j) 1 \<noteq> 0) :: u64);
     let byte = drop_bit 3 offset;
     let bit = 7 - (offset AND 7);
     b \<leftarrow> mem_get p byte;
     let byteval = (ucast b :: u64);
     let byteval = byteval AND NOT (push_bit bit 1);
     let byteval = byteval OR push_bit bit bitval;
     mem_put p byte (ucast (byteval AND 0xff)) }"

function set_bits_loop :: "bytes \<Rightarrow> nat \<Rightarrow> nat \<Rightarrow> u64 \<Rightarrow> nat \<Rightarrow> bytes option" where
  "set_bits_loop p offset bits v j =
     (if j < bits then do {
        p \<leftarrow> set_bit_step p offset bits v j;
        set_bits_loop p (offset + 1) bits v (j + 1) }
      else Some p)"
  by pat_completeness auto
termination by (relation "measure (\<lambda>(p, offset, bits, v, j). bits - j)") auto

definition setUnsignedBitfield :: "bytes \<Rightarrow> nat \<Rightarrow> nat \<Rightarrow> u64 \<Rightarrow> bytes option" where
  "setUnsignedBitfield p offset bits v = set_bits_loop p offset bits v 0"

definition setSignedBitfield :: "bytes \<Rightarrow> nat \<Rightarrow> nat \<Rightarrow> s64 \<Rightarrow> bytes option" where
  "setSignedBitfield p offset bits v = setUnsignedBitfield p offset bits v"

function get_bits_loop :: "bytes \<Rightarrow> nat \<Rightarrow> nat \<Rightarrow> nat \<Rightarrow> u64 \<Rightarrow> u64 option" where
  "get_bits_loop p offset bits j v =
     (if j < bits then do {
        let byte = drop_bit 3 offset;
        let bit = 7 - (offset AND 7);
        b \<leftarrow> mem_get p byte;
        let bitval = drop_bit bit (ucast b) AND 1;
        get_bits_loop p (offset + 1) bits (j + 1) (push_bit 1 v OR bitval) }
      else Some v)"
  by pat_completeness auto
termination by (relation "measure (\<lambda>(p, offset, bits, j, v). bits - j)") auto

definition getUnsignedBitfield :: "bytes \<Rightarrow> nat \<Rightarrow> nat \<Rightarrow> u64 option" where
  "getUnsignedBitfield p offset bits = get_bits_loop p offset bits 0 0"

definition getSignedBitfield :: "bytes \<Rightarrow> nat \<Rightarrow> nat \<Rightarrow> s64 option" where
  "getSignedBitfield p offset bits = do {
     v \<leftarrow> getUnsignedBitfield p offset bits;
     Some (if bits < 64 \<and> v AND push_bit (bits - 1) 1 \<noteq> 0 then v OR push_bit bits (- 1) else v) }"

declare set_bits_loop.simps [simp del] get_bits_loop.simps [simp del]

section \<open>Overflow\<close>

datatype owtype = BFOVERFLOW_WRAP | BFOVERFLOW_SAT | BFOVERFLOW_FAIL

text \<open>The result is the return code and the value stored through \<open>limit\<close>, if one is stored.\<close>

definition checkUnsignedBitfieldOverflow :: "u64 \<Rightarrow> s64 \<Rightarrow> nat \<Rightarrow> owtype \<Rightarrow> int \<times> u64 option" where
  "checkUnsignedBitfieldOverflow v incr bits ow =
     (let max = (if bits = 64 then - 1 else push_bit bits 1 - 1);
          maxincr = max - v;
          minincr = - v;
          wrapped = (let mask = push_bit bits (- 1); res = v + incr in res AND NOT mask)
      in if max < v \<or> 0 < sint incr \<and> sint maxincr < sint incr then
           (case ow of
              BFOVERFLOW_WRAP \<Rightarrow> (1, Some wrapped)
            | BFOVERFLOW_SAT \<Rightarrow> (1, Some max)
            | BFOVERFLOW_FAIL \<Rightarrow> (1, None))
         else if sint incr < 0 \<and> sint incr < sint minincr then
           (case ow of
              BFOVERFLOW_WRAP \<Rightarrow> (1, Some wrapped)
            | BFOVERFLOW_SAT \<Rightarrow> (- 1, Some 0)
            | BFOVERFLOW_FAIL \<Rightarrow> (- 1, None))
         else (0, None))"

definition checkSignedBitfieldOverflow :: "s64 \<Rightarrow> s64 \<Rightarrow> nat \<Rightarrow> owtype \<Rightarrow> int \<times> s64 option" where
  "checkSignedBitfieldOverflow v incr bits ow =
     (let max = (if bits = 64 then drop_bit 1 (- 1) else push_bit (bits - 1) 1 - 1);
          min = - max - 1;
          maxincr = max - v;
          minincr = min - v;
          wrapped =
            (let msb = push_bit (bits - 1) 1; c = v + incr
             in if bits < 64 then
                  (let mask = push_bit bits (- 1) in if c AND msb \<noteq> 0 then c OR mask else c AND NOT mask)
                else c)
      in if sint max < sint v \<or> bits \<noteq> 64 \<and> sint maxincr < sint incr \<or> 0 \<le> sint v \<and> 0 < sint incr \<and> sint maxincr < sint incr then
           (case ow of
              BFOVERFLOW_WRAP \<Rightarrow> (1, Some wrapped)
            | BFOVERFLOW_SAT \<Rightarrow> (1, Some max)
            | BFOVERFLOW_FAIL \<Rightarrow> (1, None))
         else if sint v < sint min \<or> bits \<noteq> 64 \<and> sint incr < sint minincr \<or> sint v < 0 \<and> sint incr < 0 \<and> sint incr < sint minincr then
           (case ow of
              BFOVERFLOW_WRAP \<Rightarrow> (1, Some wrapped)
            | BFOVERFLOW_SAT \<Rightarrow> (- 1, Some min)
            | BFOVERFLOW_FAIL \<Rightarrow> (- 1, None))
         else (0, None))"


section \<open>Fields as bits of the block\<close>

lemma offset_split: "drop_bit 3 offset = offset div 8" "offset AND 7 = offset mod 8" for offset :: nat
  using take_bit_eq_mask [of 3 offset] by (simp_all add: drop_bit_eq_div take_bit_eq_mod mask_eq_exp_minus_1)

lemma and_single_bit: "v AND push_bit k 1 \<noteq> 0 \<longleftrightarrow> bit v k" for v :: "'a::len word"
  by (simp add: push_bit_eq_mult and_exp_eq_0_iff_not_bit)

lemma bit_update_byte:
  fixes b :: byte
  assumes "k < 8"
  shows "bit (ucast (((ucast b :: u64) AND NOT (push_bit k 1) OR push_bit k (of_bool x)) AND 0xff) :: byte) n \<longleftrightarrow> n < 8 \<and> (if n = k then x else bit b n)"
proof -
  have ff: "(0xff :: u64) = mask 8" by (simp add: mask_eq_exp_minus_1)
  show ?thesis unfolding ff using assms bit_imp_le_length [of b n] by (auto simp: bit_simps)
qed

lemma set_bit_step_eq:
  assumes "offset < 8 * length p"
  shows "\<exists>p'. set_bit_step p offset bits v j = Some p' \<and> length p' = length p \<and>
    (\<forall>i<8 * length p. bit_at p' i = (if i = offset then bit v (bits - 1 - j) else bit_at p i))"
proof -
  let ?b = "ucast (((ucast (p ! (offset div 8)) :: u64) AND NOT (push_bit (7 - offset mod 8) 1) OR
      push_bit (7 - offset mod 8) (of_bool (bit v (bits - 1 - j)))) AND 0xff) :: byte"
  have o: "offset div 8 < length p" using assms by simp
  then have s: "set_bit_step p offset bits v j = Some (p[offset div 8 := ?b])"
    by (simp add: set_bit_step_def Let_def offset_split and_exp_eq_0_iff_not_bit mem_get_eq mem_put_eq)
  have "bit_at (p[offset div 8 := ?b]) i = (if i = offset then bit v (bits - 1 - j) else bit_at p i)" if "i < 8 * length p" for i
  proof (cases "i div 8 = offset div 8")
    case True
    then have "i = offset \<longleftrightarrow> i mod 8 = offset mod 8" by (metis div_mult_mod_eq)
    moreover have "i mod 8 < 8" "offset mod 8 < 8" by simp_all
    ultimately have "i = offset \<longleftrightarrow> 7 - i mod 8 = 7 - offset mod 8" by linarith
    moreover have "7 - i mod 8 < 8" "7 - offset mod 8 < 8" by simp_all
    ultimately show ?thesis using True o by (simp only: bit_at_def nth_list_update_eq bit_update_byte) simp
  next
    case False
    then show ?thesis by (auto simp: bit_at_def)
  qed
  then show ?thesis using s by simp
qed

lemma set_bits_loop_eq:
  "offset + n \<le> 8 * length p \<Longrightarrow> \<exists>p'. set_bits_loop p offset (j + n) v j = Some p' \<and> length p' = length p \<and>
    (\<forall>i<8 * length p. bit_at p' i = (if offset \<le> i \<and> i < offset + n then bit v (n - Suc (i - offset)) else bit_at p i))"
proof (induction n arbitrary: p offset j)
  case (Suc n)
  obtain p1 where p1: "set_bit_step p offset (j + Suc n) v j = Some p1" "length p1 = length p"
    "\<forall>i<8 * length p. bit_at p1 i = (if i = offset then bit v n else bit_at p i)"
    using set_bit_step_eq [of offset p "j + Suc n" v j] Suc.prems by auto
  obtain p' where p': "set_bits_loop p1 (offset + 1) (j + 1 + n) v (j + 1) = Some p'" "length p' = length p1"
    "\<forall>i<8 * length p1. bit_at p' i =
      (if offset + 1 \<le> i \<and> i < offset + 1 + n then bit v (n - Suc (i - (offset + 1))) else bit_at p1 i)"
    using Suc.IH [of "offset + 1" p1 "j + 1"] Suc.prems p1(2) by auto
  have "bit_at p' i = (if offset \<le> i \<and> i < offset + Suc n then bit v (Suc n - Suc (i - offset)) else bit_at p i)"
    if "i < 8 * length p" for i
  proof -
    consider "i = offset" | "i < offset" | k where "i = offset + 1 + k" using less_iff_Suc_add [of offset i] by force
    then show ?thesis using that p'(3) p1(2,3) by cases auto
  qed
  then show ?case using p1(1,2) p'(1,2) by (subst set_bits_loop.simps) simp
qed (auto simp: set_bits_loop.simps)

text \<open>Reading appends the bits of the block at the right end of the value.\<close>

lemma get_bits_loop_eq:
  "offset + n \<le> 8 * length p \<Longrightarrow> n \<le> 64 \<Longrightarrow> \<exists>w. get_bits_loop p offset (j + n) j v = Some w \<and>
    (\<forall>k<64. bit w k = (if k < n then bit_at p (offset + (n - Suc k)) else bit v (k - n)))"
proof (induction n arbitrary: offset j v)
  case (Suc n)
  let ?v = "push_bit 1 v OR (drop_bit (7 - offset mod 8) (ucast (p ! (offset div 8))) AND 1)"
  obtain w where w: "get_bits_loop p (offset + 1) (j + 1 + n) (j + 1) ?v = Some w"
    "\<forall>k<64. bit w k = (if k < n then bit_at p (offset + 1 + (n - Suc k)) else bit ?v (k - n))"
    using Suc.IH [of "offset + 1" "j + 1" ?v] Suc.prems by auto
  have v: "bit ?v k = (if k = 0 then bit_at p offset else bit v (k - 1))" if "k < 64" for k
  proof -
    have "bit (push_bit 1 v) k = (0 < k \<and> bit v (k - 1))" using that by (subst bit_push_bit_iff) auto
    then show ?thesis using that by (simp only: bit_or_iff bit_and_iff bit_at_def) (auto simp: bit_simps)
  qed
  have "bit w k = (if k < Suc n then bit_at p (offset + (Suc n - Suc k)) else bit v (k - Suc n))" if "k < 64" for k
  proof -
    consider "k < n" | "k = n" | "n < k" by linarith
    then show ?thesis
    proof cases
      case 1
      then have "offset + 1 + (n - Suc k) = offset + (Suc n - Suc k)" by linarith
      then show ?thesis using 1 that w(2) by simp
    next
      case 2
      then show ?thesis using that w(2) v [of 0] by simp
    next
      case 3
      then show ?thesis using that w(2) v [of "k - n"] by simp
    qed
  qed
  moreover have "offset div 8 < length p" using Suc.prems by simp
  ultimately show ?case using w(1) by (subst get_bits_loop.simps) (simp add: Let_def offset_split mem_get_eq)
qed (simp add: get_bits_loop.simps)

lemma setUnsignedBitfield_eq:
  assumes "offset + bits \<le> 8 * length p"
  shows "\<exists>p'. setUnsignedBitfield p offset bits v = Some p' \<and> length p' = length p \<and>
    (\<forall>i<8 * length p. bit_at p' i = (if offset \<le> i \<and> i < offset + bits then bit v (bits - Suc (i - offset)) else bit_at p i))"
  using set_bits_loop_eq [OF assms, of 0 v] by (simp add: setUnsignedBitfield_def)

lemma getUnsignedBitfield_eq:
  assumes "offset + bits \<le> 8 * length p" "bits \<le> 64"
  shows "\<exists>w. getUnsignedBitfield p offset bits = Some w \<and> (\<forall>k. bit w k \<longleftrightarrow> k < bits \<and> bit_at p (offset + (bits - Suc k)))"
proof -
  obtain w where w: "getUnsignedBitfield p offset bits = Some w"
    "\<forall>k<64. bit w k = (if k < bits then bit_at p (offset + (bits - Suc k)) else bit (0 :: u64) (k - bits))"
    using get_bits_loop_eq [OF assms, of 0 0] by (auto simp: getUnsignedBitfield_def)
  have "bit w k \<longleftrightarrow> k < bits \<and> bit_at p (offset + (bits - Suc k))" for k
    using w(2) assms(2) bit_imp_le_length [of w k] by (cases "k < 64") auto
  then show ?thesis using w(1) by blast
qed

lemma getSignedBitfield_eq:
  assumes "0 < bits" "bits \<le> 64" "getUnsignedBitfield p offset bits = Some w" "take_bit bits w = w"
  shows "getSignedBitfield p offset bits = Some (signed_take_bit (bits - 1) w)"
proof -
  have "(if bits < 64 \<and> w AND push_bit (bits - 1) 1 \<noteq> 0 then w OR push_bit bits (- 1) else w) = signed_take_bit (bits - 1) w"
  proof (rule bit_word_eqI)
    fix k
    assume "k < LENGTH(64)"
    moreover have "bit w k \<longleftrightarrow> bit w k \<and> k < bits" using assms(4) by (metis bit_take_bit_iff)
    ultimately show "bit (if bits < 64 \<and> w AND push_bit (bits - 1) 1 \<noteq> 0 then w OR push_bit bits (- 1) else w) k \<longleftrightarrow> bit (signed_take_bit (bits - 1) w) k"
      using assms(1,2) unfolding and_single_bit by (auto simp: bit_signed_take_bit_iff bit_simps min_def not_less le_less) 
  qed
  then show ?thesis using assms(3) by (simp add: getSignedBitfield_def)
qed

text \<open>C35: Fields can be read back. Writing a field of up to 64 bits that lies inside of the block succeeds, changes no other bit, and
  then the unsigned reader returns the low bits of the value and the signed reader their two's complement
  reading.\<close>

theorem bitfield_roundtrip:
  assumes "offset + bits \<le> 8 * length p" "0 < bits" "bits \<le> 64"
  shows "\<exists>p'. setUnsignedBitfield p offset bits v = Some p' \<and> setSignedBitfield p offset bits v = Some p' \<and> length p' = length p \<and>
    (\<forall>i<8 * length p. i < offset \<or> offset + bits \<le> i \<longrightarrow> bit_at p' i = bit_at p i) \<and>
    getUnsignedBitfield p' offset bits = Some (take_bit bits v) \<and>
    getSignedBitfield p' offset bits = Some (signed_take_bit (bits - 1) v)"
proof -
  obtain p' where p': "setUnsignedBitfield p offset bits v = Some p'" "length p' = length p"
    "\<forall>i<8 * length p. bit_at p' i = (if offset \<le> i \<and> i < offset + bits then bit v (bits - Suc (i - offset)) else bit_at p i)"
    using setUnsignedBitfield_eq [OF assms(1)] by blast
  obtain w where w: "getUnsignedBitfield p' offset bits = Some w" "\<And>k. bit w k \<longleftrightarrow> k < bits \<and> bit_at p' (offset + (bits - Suc k))"
    using getUnsignedBitfield_eq [of offset bits p'] assms p'(2) by auto
  have b: "bit_at p' (offset + (bits - Suc k)) = bit v k" if k: "k < bits" for k
  proof -
    obtain d where "bits = Suc k + d" using k le_Suc_ex [of "Suc k" bits] by auto
    then show ?thesis using p'(3) assms(1) by simp
  qed
  have "w = take_bit bits v" using w(2) b by (intro bit_word_eqI) (auto simp: bit_take_bit_iff)
  then have "getSignedBitfield p' offset bits = Some (signed_take_bit (bits - 1) (take_bit bits v))"
    using getSignedBitfield_eq [OF assms(2,3) w(1)] by simp
  also have "signed_take_bit (bits - 1) (take_bit bits v) = signed_take_bit (bits - 1) v"
    using assms(2) by (cases bits) (simp_all add: signed_take_bit_take_bit)
  finally show ?thesis using p' w(1) \<open>w = _\<close> by (auto simp: setSignedBitfield_def)
qed

theorem bitfield_roundtrip_witness:
  "\<exists>p'. setSignedBitfield [0xff, 0xff, 0] 5 10 (- 3) = Some p' \<and> getUnsignedBitfield p' 5 10 = Some 1021 \<and> getSignedBitfield p' 5 10 = Some (- 3)"
proof -
  have "take_bit 10 (- 3 :: u64) = 1021" "signed_take_bit 9 (- 3 :: u64) = - 3" by simp_all
  then show ?thesis using bitfield_roundtrip [of 5 10 "[0xff, 0xff, 0]" "- 3"] by auto
qed

section \<open>Overflow policies\<close>

text \<open>What a policy makes of a result \<open>s\<close> that is to be stored in the range from \<open>lo\<close> to \<open>hi\<close>.\<close>

definition fit :: "owtype \<Rightarrow> int \<Rightarrow> int \<Rightarrow> int \<Rightarrow> int option" where
  "fit ow lo hi s =
     (if lo \<le> s \<and> s \<le> hi then Some s
      else (case ow of
          BFOVERFLOW_WRAP \<Rightarrow> Some (lo + (s - lo) mod (hi - lo + 1))
        | BFOVERFLOW_SAT \<Rightarrow> Some (if s < lo then lo else hi)
        | BFOVERFLOW_FAIL \<Rightarrow> None))"

text \<open>What the callers of the overflow checks store.\<close>

definition checked :: "int \<times> u64 option \<Rightarrow> u64 \<Rightarrow> u64 option" where
  "checked r v = (if fst r = 0 then Some v else snd r)"

lemma sint_eqI: "x = word_of_int k \<Longrightarrow> - 9223372036854775808 \<le> k \<Longrightarrow> k < 9223372036854775808 \<Longrightarrow> sint (x :: s64) = k"
  by (simp add: sint_sbintrunc' signed_take_bit_int_eq_self)

lemma uint_eqI: "x = word_of_int k \<Longrightarrow> 0 \<le> k \<Longrightarrow> k < 18446744073709551616 \<Longrightarrow> uint (x :: u64) = k"
  by (simp add: uint_word_of_int)

lemma s64_range: "- (2 ^ 63) \<le> sint (x :: s64)" "sint x < 2 ^ 63"
  using sint_ge [of x] sint_lt [of x] by simp_all

lemma clear_high: "w AND NOT (push_bit n (- 1)) = take_bit n w" for w :: u64
  by (rule bit_word_eqI) (auto simp: bit_simps)

lemma uint_wrapped:
  assumes "bits \<le> 64"
  shows "uint (take_bit bits (v + incr) :: u64) = (uint v + sint incr) mod 2 ^ bits"
proof -
  have "v + incr = word_of_int (uint v + sint incr)" by simp
  then have "uint (v + incr) = (uint v + sint incr) mod 2 ^ 64" using uint_word_of_int [where 'a = 64, of "uint v + sint incr"] by simp
  then show ?thesis unfolding unsigned_take_bit_eq unfolding take_bit_eq_mod using assms by (simp only: mod_mod_cancel le_imp_power_dvd)
qed

lemma unsigned_checked:
  assumes "0 < bits" "bits \<le> 63" "uint v < 2 ^ bits \<or> incr = 0"
  shows "map_option uint (checked (checkUnsignedBitfieldOverflow v incr bits ow) (v + incr)) = fit ow 0 (2 ^ bits - 1) (uint v + sint incr)"
proof -
  define P :: int where "P = 2 ^ bits"
  define V I where "V = uint v" and "I = sint incr"
  let ?max = "push_bit bits 1 - 1 :: u64"
  have P: "1 \<le> P" "P \<le> 9223372036854775808" using assms(2) power_increasing [of bits 63 "2 :: int"] by (simp_all add: P_def)
  have V: "0 \<le> V" by (simp add: V_def)
  have m: "?max = word_of_int (P - 1)" by (simp add: push_bit_eq_mult P_def)
  have um: "uint ?max = P - 1" by (rule uint_eqI [OF m]) (use P in linarith)+
  have c: "checkUnsignedBitfieldOverflow v incr bits ow =
     (if P - 1 < V \<or> 0 < I \<and> sint (?max - v) < I then
        (case ow of BFOVERFLOW_WRAP \<Rightarrow> (1, Some (take_bit bits (v + incr))) | BFOVERFLOW_SAT \<Rightarrow> (1, Some ?max) | BFOVERFLOW_FAIL \<Rightarrow> (1, None))
      else if I < 0 \<and> I < sint (- v) then
        (case ow of BFOVERFLOW_WRAP \<Rightarrow> (1, Some (take_bit bits (v + incr))) | BFOVERFLOW_SAT \<Rightarrow> (- 1, Some 0) | BFOVERFLOW_FAIL \<Rightarrow> (- 1, None))
      else (0, None))"
    unfolding checkUnsignedBitfieldOverflow_def Let_def clear_high word_less_def um [symmetric] V_def I_def using assms(2) by simp
  have w: "uint (take_bit bits (v + incr)) = (V + I) mod P" unfolding P_def V_def I_def by (rule uint_wrapped) (use assms(2) in simp)
  have "map_option uint (checked (checkUnsignedBitfieldOverflow v incr bits ow) (v + incr)) = fit ow 0 (P - 1) (V + I)"
  proof (cases "V < P")
    case True
    have mx: "sint (?max - v) = P - 1 - V" by (rule sint_eqI) (use m V_def in simp, (use True P V in linarith)+)
    have mn: "sint (- v) = - V" by (rule sint_eqI) (simp add: V_def, (use True P V in linarith)+)
    have s: "uint (v + incr) = V + I" if "0 \<le> V + I" "V + I < P"
      by (rule uint_eqI) (simp add: V_def I_def, (use that P in linarith)+)
    show ?thesis unfolding c mx mn using True V um w s P
      by (cases ow) (auto simp: checked_def fit_def)
  next
    case False
    then have "I = 0" using assms(3) by (auto simp: I_def V_def P_def)
    then show ?thesis unfolding c using False V um w P by (cases ow) (auto simp: checked_def fit_def)
  qed
  then show ?thesis by (simp add: P_def V_def I_def)
qed

lemma signed_wrapped_word:
  assumes "0 < bits" "bits \<le> 64"
  shows "(if bits < 64 then (if c AND push_bit (bits - 1) 1 \<noteq> 0 then c OR push_bit bits (- 1) else c AND NOT (push_bit bits (- 1))) else c) =
    (signed_take_bit (bits - 1) c :: s64)"
proof (rule bit_word_eqI)
  fix k
  assume "k < LENGTH(64)"
  then show "bit (if bits < 64 then (if c AND push_bit (bits - 1) 1 \<noteq> 0 then c OR push_bit bits (- 1) else c AND NOT (push_bit bits (- 1))) else c) k \<longleftrightarrow>
      bit (signed_take_bit (bits - 1) c :: s64) k"
    using assms unfolding and_single_bit
    by (auto simp: bit_signed_take_bit_iff bit_simps min_def not_less le_less)
qed

lemma sint_signed_take_bit:
  assumes "n < 64"
  shows "sint (signed_take_bit n (c :: s64)) = signed_take_bit n (sint c)"
  by (rule bit_eqI) (use assms in \<open>auto simp: bit_sint_iff bit_signed_take_bit_iff min_def\<close>)

lemma sint_wrapped:
  assumes "0 < bits" "bits \<le> 64"
  shows "sint (signed_take_bit (bits - 1) (v + incr) :: s64) = - (2 ^ (bits - 1)) + (sint v + sint incr + 2 ^ (bits - 1)) mod 2 ^ bits"
proof -
  let ?x = "sint v + sint incr"
  have n: "min (bits - Suc 0) 63 = bits - Suc 0" using assms(2) by linarith
  have "v + incr = word_of_int ?x" by simp
  then have "sint (v + incr) = signed_take_bit 63 ?x" by (simp only: sint_sbintrunc') simp
  then have "sint (signed_take_bit (bits - 1) (v + incr)) = signed_take_bit (bits - 1) ?x"
    using assms n by (simp add: sint_signed_take_bit signed_take_bit_signed_take_bit)
  then show ?thesis using assms(1) by (simp add: signed_take_bit_eq_take_bit_shift take_bit_eq_mod)
qed

text \<open>The two conditions of the signed check, with the increments that may have wrapped as \<open>MX\<close> and \<open>MI\<close>.\<close>

lemma signed_conditions:
  fixes P V I MX MI :: int
  assumes P: "1 \<le> P" "P \<le> 9223372036854775808" "\<not> b64 \<Longrightarrow> P \<le> 4611686018427387904" "b64 \<Longrightarrow> P = 9223372036854775808"
    and VI: "- 9223372036854775808 \<le> V" "V < 9223372036854775808" "- 9223372036854775808 \<le> I" "I < 9223372036854775808"
    and mx: "P - 1 - V < 9223372036854775808 \<Longrightarrow> - 9223372036854775808 \<le> P - 1 - V \<Longrightarrow> MX = P - 1 - V"
    and mi: "- P - V < 9223372036854775808 \<Longrightarrow> - 9223372036854775808 \<le> - P - V \<Longrightarrow> MI = - P - V"
    and r: "- P \<le> V \<and> V < P \<or> I = 0 \<and> P - V \<le> 9223372036854775808"
  shows "if P - 1 < V \<or> \<not> b64 \<and> MX < I \<or> 0 \<le> V \<and> 0 < I \<and> MX < I then P \<le> V + I
    else if V < - P \<or> \<not> b64 \<and> I < MI \<or> V < 0 \<and> I < 0 \<and> I < MI then V + I < - P
    else - P \<le> V + I \<and> V + I < P"
proof (cases "- P \<le> V \<and> V < P")
  case True
  show ?thesis
  proof (cases b64)
    case b: True
    have "0 \<le> V \<Longrightarrow> MX = P - 1 - V" "V < 0 \<Longrightarrow> MI = - P - V" using mx mi True P VI by linarith+
    then show ?thesis using b True P(4) VI by (cases "V < 0") auto
  next
    case False
    then have "MX = P - 1 - V" "MI = - P - V" using mx mi True P VI by linarith+
    then show ?thesis using False True by auto
  qed
next
  case False
  then have "I = 0" "P - V \<le> 9223372036854775808" "\<not> b64" using r P(4) VI by auto
  moreover have "V < - P \<Longrightarrow> MX = P - 1 - V" using mx P(1,2) VI calculation(2) by linarith
  ultimately show ?thesis using False P(1) by auto
qed

lemma signed_checked:
  assumes "0 < bits" "bits \<le> 64"
    "- (2 ^ (bits - 1)) \<le> sint v \<and> sint v < 2 ^ (bits - 1) \<or> incr = 0 \<and> 2 ^ (bits - 1) - sint v \<le> 2 ^ 63"
  shows "map_option sint (checked (checkSignedBitfieldOverflow v incr bits ow) (v + incr)) =
    fit ow (- (2 ^ (bits - 1))) (2 ^ (bits - 1) - 1) (sint v + sint incr)"
proof -
  define P :: int where "P = 2 ^ (bits - 1)"
  define V I where "V = sint v" and "I = sint incr"
  let ?max = "if bits = 64 then drop_bit 1 (- 1) else push_bit (bits - 1) 1 - 1 :: s64"
  let ?min = "- ?max - 1" and ?w = "signed_take_bit (bits - 1) (v + incr) :: s64"
  have "(2 :: int) ^ (bits - 1) \<le> 2 ^ 63" using assms(2) by (intro power_increasing) simp_all
  then have P: "1 \<le> P" "P \<le> 9223372036854775808" by (simp_all add: P_def)
  have P63: "P \<le> 4611686018427387904" if "bits \<noteq> 64" 
  proof -
    have "(2 :: int) ^ (bits - 1) \<le> 2 ^ 62" using assms(2) that by (intro power_increasing) simp_all
    then show ?thesis by (simp add: P_def)
  qed
  have m: "?max = word_of_int (P - 1)" using P_def by (cases "bits = 64") (simp_all add: push_bit_eq_mult mask_eq_exp_minus_1)
  have VI: "- 9223372036854775808 \<le> V" "V < 9223372036854775808" "- 9223372036854775808 \<le> I" "I < 9223372036854775808"
    using s64_range [of v] s64_range [of incr] by (simp_all add: V_def I_def)
  have sm: "sint ?max = P - 1" by (rule sint_eqI [OF m]) (use P in linarith)+
  have mn: "?min = word_of_int (- P)" unfolding m by simp
  have smn: "sint ?min = - P" by (rule sint_eqI [OF mn]) (use P in linarith)+
  define over where "over \<longleftrightarrow> P - 1 < V \<or> bits \<noteq> 64 \<and> sint (?max - v) < I \<or> 0 \<le> V \<and> 0 < I \<and> sint (?max - v) < I"
  define under where "under \<longleftrightarrow> V < - P \<or> bits \<noteq> 64 \<and> I < sint (?min - v) \<or> V < 0 \<and> I < 0 \<and> I < sint (?min - v)"
  have c: "checkSignedBitfieldOverflow v incr bits ow =
     (if over then
        (case ow of BFOVERFLOW_WRAP \<Rightarrow> (1, Some ?w) | BFOVERFLOW_SAT \<Rightarrow> (1, Some ?max) | BFOVERFLOW_FAIL \<Rightarrow> (1, None))
      else if under then
        (case ow of BFOVERFLOW_WRAP \<Rightarrow> (1, Some ?w) | BFOVERFLOW_SAT \<Rightarrow> (- 1, Some ?min) | BFOVERFLOW_FAIL \<Rightarrow> (- 1, None))
      else (0, None))"
    unfolding checkSignedBitfieldOverflow_def Let_def signed_wrapped_word [OF assms(1,2)] over_def under_def V_def I_def sm [symmetric] smn [symmetric] by simp
  have w: "sint ?w = - P + (V + I + P) mod (2 * P)"
    using sint_wrapped [OF assms(1,2), of v incr] assms(1) by (simp add: P_def V_def I_def flip: power_Suc)
  have s: "sint (v + incr) = V + I" if "- P \<le> V + I" "V + I < P"
    by (rule sint_eqI) (simp add: V_def I_def, (use that P in linarith)+)
  have mx: "sint (?max - v) = P - 1 - V" if "P - 1 - V < 9223372036854775808" "- 9223372036854775808 \<le> P - 1 - V"
    by (rule sint_eqI) (unfold m, simp add: V_def, (use that in linarith)+)
  have mi: "sint (?min - v) = - P - V" if "- P - V < 9223372036854775808" "- 9223372036854775808 \<le> - P - V"
    by (rule sint_eqI) (unfold mn, simp add: V_def, (use that in linarith)+)
  define W Mx where "W = ?w" and "Mx = ?max"
  define Mn where "Mn = - Mx - 1"
  have o: "if over then P \<le> V + I else if under then V + I < - P else - P \<le> V + I \<and> V + I < P"
    unfolding over_def under_def
    by (rule signed_conditions [OF P P63 _ VI mx mi]) (use assms(3) in \<open>auto simp: P_def V_def I_def\<close>)
  have "map_option sint (checked (checkSignedBitfieldOverflow v incr bits ow) (v + incr)) = fit ow (- P) (P - 1) (V + I)"
  proof (cases "over \<or> under")
    case True
    then have n: "\<not> (- P \<le> V + I \<and> V + I \<le> P - 1)" "V + I < - P \<longleftrightarrow> \<not> over" using o P by (auto split: if_splits)
    show ?thesis using True n(2) unfolding c checked_def fit_def if_not_P [OF n(1)] W_def [symmetric] Mx_def [symmetric] Mn_def [symmetric]
      using w [folded W_def] sm [folded Mx_def] smn [folded Mx_def, folded Mn_def]
      by (cases ow; cases over) (simp_all add: algebra_simps)
  next
    case False
    then show ?thesis unfolding c checked_def fit_def using o s by simp
  qed
  then show ?thesis by (simp add: P_def V_def I_def)
qed

text \<open>C36: The overflow checks implement the three policies. For unsigned fields of up to 63 bits and signed fields of up to 64
  bits, the value stored after adding an increment to the value of a field is the mathematical sum if it fits, and
  otherwise the sum wrapped around, the nearest limit, or nothing, as the policy says. The same holds for storing a
  new value (increment 0), if a signed one is not so small that its distance to the upper limit needs more than 63 bits.\<close>

theorem bitfield_overflow_policies:
  assumes "0 < bits" "bits \<le> 64"
  shows "(bits \<le> 63 \<and> (uint v < 2 ^ bits \<or> incr = 0) \<longrightarrow>
      map_option uint (checked (checkUnsignedBitfieldOverflow v incr bits ow) (v + incr)) = fit ow 0 (2 ^ bits - 1) (uint v + sint incr)) \<and>
    (- (2 ^ (bits - 1)) \<le> sint v \<and> sint v < 2 ^ (bits - 1) \<or> incr = 0 \<and> 2 ^ (bits - 1) - sint v \<le> 2 ^ 63 \<longrightarrow>
      map_option sint (checked (checkSignedBitfieldOverflow v incr bits ow) (v + incr)) =
        fit ow (- (2 ^ (bits - 1))) (2 ^ (bits - 1) - 1) (sint v + sint incr))"
  using unsigned_checked [OF assms(1), of v incr ow] signed_checked [OF assms, of v incr ow] by blast

theorem bitfield_overflow_policies_witness:
  "map_option uint (checked (checkUnsignedBitfieldOverflow 250 10 8 BFOVERFLOW_WRAP) (250 + 10)) = Some 4 \<and>
   map_option sint (checked (checkSignedBitfieldOverflow 100 100 8 BFOVERFLOW_SAT) (100 + 100)) = Some 127"
  using bitfield_overflow_policies [of 8 250 10 BFOVERFLOW_WRAP] bitfield_overflow_policies [of 8 100 100 BFOVERFLOW_SAT]
  by (simp add: fit_def)

text \<open>C37: Saturation stores the wrong limit of a signed field for values far below its range. Let the field have fewer than 64
  bits and let the sum of value and increment be below the smallest value of the field, so that saturation should give the smallest value.
  The check gives the largest value instead, and reports an overflow rather than an underflow, exactly when the distance
  from the value to the upper limit does not fit in 63 bits and the increment is above that distance less \<open>2 ^ 64\<close>, which is negative:
  the distance wraps around and is compared with the increment before the lower limit is looked at. In particular this
  happens for every such value that is stored directly (increment 0).\<close>

theorem checkSigned_saturates_to_wrong_limit:
  assumes "0 < bits" "bits < 64" "sint v < 2 ^ (bits - 1)" "sint v + sint incr < - (2 ^ (bits - 1))"
  shows "fit BFOVERFLOW_SAT (- (2 ^ (bits - 1))) (2 ^ (bits - 1) - 1) (sint v + sint incr) = Some (- (2 ^ (bits - 1))) \<and>
    checkSignedBitfieldOverflow v incr bits BFOVERFLOW_SAT =
      (if 2 ^ 63 \<le> 2 ^ (bits - 1) - 1 - sint v \<and> 2 ^ (bits - 1) - 1 - sint v - 2 ^ 64 < sint incr
       then (1, Some (word_of_int (2 ^ (bits - 1) - 1)))
       else (- 1, Some (word_of_int (- (2 ^ (bits - 1))))))"
proof -
  define P V I :: int where "P = 2 ^ (bits - 1)" and "V = sint v" and "I = sint incr"
  define mx mn :: s64 where "mx = word_of_int (P - 1)" and "mn = word_of_int (- P)"
  have "(2 :: int) ^ (bits - 1) \<le> 2 ^ 62" using assms(2) by (intro power_increasing) simp_all
  then have P: "1 \<le> P" "P \<le> 4611686018427387904" by (simp_all add: P_def)
  have VI: "- 9223372036854775808 \<le> V" "V < P" "- 9223372036854775808 \<le> I" "I < 9223372036854775808" "V + I < - P"
    using s64_range [of v] s64_range [of incr] assms(3,4) by (simp_all add: V_def I_def P_def)
  have ne: "bits \<noteq> 64" using assms(2) by simp
  have m: "push_bit (bits - 1) 1 - 1 = mx" "- mx - 1 = mn" by (simp_all add: mx_def mn_def P_def push_bit_eq_mult)
  have sm: "sint mx = P - 1" by (rule sint_eqI [OF mx_def]) (use P in linarith)+
  have smn: "sint mn = - P" by (rule sint_eqI [OF mn_def]) (use P in linarith)+
  have big: "sint (mx - v) = P - 1 - V - 18446744073709551616" if "9223372036854775808 \<le> P - 1 - V"
    by (rule sint_eqI) (simp add: mx_def V_def, (use that P VI in linarith)+)
  have small: "sint (mx - v) = P - 1 - V" if "\<not> 9223372036854775808 \<le> P - 1 - V"
    by (rule sint_eqI) (simp add: mx_def V_def, (use that P VI in linarith)+)
  have mi: "sint (mn - v) = - P - V" if "- P \<le> V"
    by (rule sint_eqI) (simp add: mn_def V_def, (use that P VI in linarith)+)
  have over: "P - 1 < V \<or> bits \<noteq> 64 \<and> sint (mx - v) < I \<or> 0 \<le> V \<and> 0 < I \<and> sint (mx - v) < I \<longleftrightarrow>
      9223372036854775808 \<le> P - 1 - V \<and> P - 1 - V - 18446744073709551616 < I"
    using big small VI P assms(2) by (cases "9223372036854775808 \<le> P - 1 - V") auto
  have under: "V < - P \<or> bits \<noteq> 64 \<and> I < sint (mn - v) \<or> V < 0 \<and> I < 0 \<and> I < sint (mn - v)"
    using mi VI(5) assms(2) by (cases "- P \<le> V") auto
  have "checkSignedBitfieldOverflow v incr bits BFOVERFLOW_SAT =
      (if 9223372036854775808 \<le> P - 1 - V \<and> P - 1 - V - 18446744073709551616 < I then (1, Some mx) else (- 1, Some mn))"
    unfolding checkSignedBitfieldOverflow_def Let_def if_not_P [OF ne] m sm smn V_def [symmetric] I_def [symmetric] owtype.case
    by (simp only: over under if_True)
  moreover have "fit BFOVERFLOW_SAT (- P) (P - 1) (V + I) = Some (- P)" using VI(5) P(1) by (simp add: fit_def)
  ultimately show ?thesis unfolding mx_def mn_def P_def V_def I_def by simp
qed

theorem checkSigned_saturates_to_wrong_limit_witness:
  "checkSignedBitfieldOverflow (word_of_int (- (2 ^ 63))) 0 8 BFOVERFLOW_SAT = (1, Some 127) \<and>
   checkSignedBitfieldOverflow (word_of_int (- 300)) 0 8 BFOVERFLOW_SAT = (- 1, Some (- 128))"
  using checkSigned_saturates_to_wrong_limit [of 8 "word_of_int (- (2 ^ 63))" 0]
    checkSigned_saturates_to_wrong_limit [of 8 "word_of_int (- 300)" 0]
  by simp

end
