(* ===== verification/Bit_Commands.thy ===== *)
theory Bit_Commands
  imports Dict_Types Bitfield
begin

text \<open>
  The commands of \<^verbatim>\<open>bitops.c\<close>: SETBIT, GETBIT, BITOP, BITCOUNT, BITPOS, BITFIELD and BITFIELD_RO, with the parsing of
  their arguments.

  The state is what the commands see and change: the keys of the selected database that have not expired, with
  their values (a string object, or a value of another type), the counter \<^verbatim>\<open>server.dirty\<close>, the keys reported by
  \<^verbatim>\<open>signalModifiedKey\<close> and the events of \<^verbatim>\<open>notifyKeyspaceEvent\<close>. Keys are identified by their bytes, as
  the keyspace dictionary does. A command gives the replies in the order the code adds them; \<open>None\<close> is a failed assertion or
  an access out of bounds. \<open>addr\<close> is the address of the string a scan reads, \<open>be\<close> the byte order of the host and
  \<open>aligned\<close> the build option \<^verbatim>\<open>USE_ALIGNED_ACCESS\<close>.
\<close>

unbundle bit_operations_syntax

section \<open>State and replies\<close>

datatype db_value = String_value robj | Other_value

record cmd_state =
  keyspace :: "bytes \<Rightarrow> db_value option"
  dirty :: int
  modified :: "bytes list"
  events :: "(string \<times> bytes) list"

datatype bit_error = Bad_offset | Bad_bit | Bad_type_argument | Bad_overflow_type | Bitop_not_arity | Bit_not_0_or_1 |
  Readonly_only_get | Syntax_error | Wrong_type | Bad_number reply_error

datatype reply = Reply_int int | Reply_null | Reply_array nat | Reply_error bit_error

text \<open>The arguments are string objects the protocol parser has created.\<close>

definition arg_sds :: "robj list \<Rightarrow> nat \<Rightarrow> sds option" where
  "arg_sds argv i = do { ob \<leftarrow> mem_get argv i; get_sds ob }"

definition arg_key :: "robj list \<Rightarrow> nat \<Rightarrow> bytes option" where
  "arg_key argv i = map_option sds_str (arg_sds argv i)"

definition c_string :: "string \<Rightarrow> bytes" where
  "c_string t = map of_char t @ [0]"

definition arg_is :: "robj list \<Rightarrow> nat \<Rightarrow> string \<Rightarrow> bool option" where
  "arg_is argv i t = do { s \<leftarrow> arg_sds argv i; r \<leftarrow> strcasecmp (sds_buf s) (c_string t); Some (r = 0) }"

definition set_value :: "bytes \<Rightarrow> robj \<Rightarrow> cmd_state \<Rightarrow> cmd_state" where
  "set_value k ob st = st\<lparr>keyspace := (keyspace st)(k \<mapsto> String_value ob)\<rparr>"

definition signal_change :: "bytes \<Rightarrow> string \<Rightarrow> int \<Rightarrow> cmd_state \<Rightarrow> cmd_state" where
  "signal_change k ev n st = st\<lparr>dirty := dirty st + n, modified := modified st @ [k], events := events st @ [(ev, k)]\<rparr>"

section \<open>Arguments\<close>

text \<open>Offsets may be written as a multiple of the width, with a leading \<^verbatim>\<open>#\<close>; \<open>maxlen\<close> is \<^verbatim>\<open>server.proto_max_bulk_len\<close>.\<close>

definition getBitOffsetFromArgument :: "int \<Rightarrow> sds \<Rightarrow> bool \<Rightarrow> nat \<Rightarrow> (bit_error + u64) option" where
  "getBitOffsetFromArgument maxlen p hash bits = do {
     c \<leftarrow> mem_get (sds_buf p) 0;
     let usehash = (if c = 35 \<and> hash \<and> 0 < bits then 1 else 0);
     text \<leftarrow> mem_read (sds_buf p) usehash (sdslen p - usehash);
     Some (case string2ll text of
             None \<Rightarrow> Inl Bad_offset
           | Some loffset \<Rightarrow>
               let loffset = (if usehash = 1 then loffset * word_of_nat bits else loffset)
               in if sint loffset < 0 \<or> maxlen \<le> sint loffset div 8 then Inl Bad_offset else Inr loffset) }"

definition getBitfieldTypeFromArgument :: "sds \<Rightarrow> (bit_error + bool \<times> nat) option" where
  "getBitfieldTypeFromArgument p = do {
     c \<leftarrow> mem_get (sds_buf p) 0;
     if c \<noteq> 105 \<and> c \<noteq> 117 then Some (Inl Bad_type_argument)
     else do {
       text \<leftarrow> cstr (drop 1 (sds_buf p));
       let sign = (c = 105);
       Some (case string2ll text of
               None \<Rightarrow> Inl Bad_type_argument
             | Some llbits \<Rightarrow>
                 if sint llbits < 1 \<or> sign \<and> sint llbits > 64 \<or> \<not> sign \<and> sint llbits > 63 then Inl Bad_type_argument
                 else Inr (sign, nat (sint llbits))) } }"

section \<open>The string of a key\<close>

definition dbUnshareStringValue :: "allocator \<Rightarrow> robj \<Rightarrow> robj option" where
  "dbUnshareStringValue A ob =
     (if refcount ob \<noteq> 1 \<or> encoding ob \<noteq> OBJ_ENCODING_RAW then do {
        decoded \<leftarrow> getDecodedObject A ob;
        s \<leftarrow> get_sds decoded;
        fresh \<leftarrow> createRawStringObject A (Init (sds_buf s)) (sdslen s);
        _ \<leftarrow> decrRefCount decoded;
        Some fresh }
      else Some ob)"

text \<open>The value for a write up to the bit \<^verbatim>\<open>maxbit\<close>; the inner left value is the reply for a key of the wrong type.\<close>

definition lookupStringForBitCommand :: "allocator \<Rightarrow> cmd_state \<Rightarrow> bytes \<Rightarrow> nat \<Rightarrow> (bit_error + robj) option" where
  "lookupStringForBitCommand A st key maxbit =
     (let byte = drop_bit 3 maxbit
      in case keyspace st key of
           Some Other_value \<Rightarrow> Some (Inl Wrong_type)
         | None \<Rightarrow> do { s \<leftarrow> sdsnewlen A Init_NULL (byte + 1); Some (Inr (createObject (Ptr_sds s))) }
         | Some (String_value ob) \<Rightarrow> do {
             ob \<leftarrow> dbUnshareStringValue A ob;
             s \<leftarrow> get_sds ob;
             s \<leftarrow> sdsgrowzero A s (byte + 1);
             Some (Inr (ob\<lparr>optr := Ptr_sds s\<rparr>)) })"

text \<open>The bytes of a string object and their number; an integer is printed into a buffer of \<open>n\<close> bytes.\<close>

definition getObjectReadOnlyString :: "allocator \<Rightarrow> nat \<Rightarrow> robj \<Rightarrow> (bytes \<times> nat) option" where
  "getObjectReadOnlyString A n ob =
     (if encoding ob = OBJ_ENCODING_INT then do {
        v \<leftarrow> get_long ob;
        (l, buf) \<leftarrow> ll2string (fresh_block A n) (word_of_nat n) v;
        Some (buf, unat l) }
      else do { s \<leftarrow> get_sds ob; Some (sds_buf s, sdslen s) })"

definition LONG_STR_SIZE :: nat where "LONG_STR_SIZE = 21"

section \<open>SETBIT and GETBIT\<close>

definition bit_err_msg :: bytes where
  "bit_err_msg = map of_char ''bit is not an integer or out of range''"

definition setbitCommand :: "allocator \<Rightarrow> int \<Rightarrow> robj list \<Rightarrow> cmd_state \<Rightarrow> (cmd_state \<times> reply list) option" where
  "setbitCommand A maxlen argv st = do {
     a2 \<leftarrow> arg_sds argv 2;
     r \<leftarrow> getBitOffsetFromArgument maxlen a2 False 0;
     case r of
       Inl e \<Rightarrow> Some (st, [Reply_error e])
     | Inr bitoffset \<Rightarrow> do {
         a3 \<leftarrow> mem_get argv 3;
         r \<leftarrow> getLongFromObjectOrReply (Some a3) (Some bit_err_msg);
         case r of
           Inl e \<Rightarrow> Some (st, [Reply_error (Bad_number e)])
         | Inr on \<Rightarrow>
             if on AND NOT 1 \<noteq> 0 then Some (st, [Reply_error Bad_bit])
             else do {
               key \<leftarrow> arg_key argv 1;
               r \<leftarrow> lookupStringForBitCommand A st key (unat bitoffset);
               case r of
                 Inl e \<Rightarrow> Some (st, [Reply_error e])
               | Inr ob \<Rightarrow> do {
                   let byte = unat (drop_bit 3 bitoffset);
                   s \<leftarrow> get_sds ob;
                   b \<leftarrow> mem_get (sds_buf s) byte;
                   let byteval = (ucast b :: 32 word);
                   let bit = 7 - unat (bitoffset AND 7);
                   let bitval = byteval AND push_bit bit 1;
                   let byteval = byteval AND NOT (push_bit bit 1);
                   let byteval = byteval OR ucast (push_bit bit (on AND 1));
                   buf \<leftarrow> mem_put (sds_buf s) byte (ucast byteval);
                   let st = set_value key (ob\<lparr>optr := Ptr_sds (s\<lparr>sds_buf := buf\<rparr>)\<rparr>) st;
                   Some (signal_change key ''setbit'' 1 st, [Reply_int (if bitval \<noteq> 0 then 1 else 0)]) } } } }"

definition getbit_value :: "allocator \<Rightarrow> robj \<Rightarrow> nat \<Rightarrow> nat \<Rightarrow> u64 option" where
  "getbit_value A ob byte bt =
     (if sdsEncodedObject ob then do {
        s \<leftarrow> get_sds ob;
        if byte < sdslen s then do { b \<leftarrow> mem_get (sds_buf s) byte; Some (ucast b AND push_bit bt 1) }
        else Some 0 }
      else do {
        v \<leftarrow> get_long ob;
        (l, llbuf) \<leftarrow> ll2string (fresh_block A 32) 32 v;
        if byte < unat l then do { b \<leftarrow> mem_get llbuf byte; Some (ucast b AND push_bit bt 1) }
        else Some 0 })"

definition getbitCommand :: "allocator \<Rightarrow> int \<Rightarrow> robj list \<Rightarrow> cmd_state \<Rightarrow> (cmd_state \<times> reply list) option" where
  "getbitCommand A maxlen argv st = do {
     a2 \<leftarrow> arg_sds argv 2;
     r \<leftarrow> getBitOffsetFromArgument maxlen a2 False 0;
     case r of
       Inl e \<Rightarrow> Some (st, [Reply_error e])
     | Inr bitoffset \<Rightarrow> do {
         key \<leftarrow> arg_key argv 1;
         case keyspace st key of
           None \<Rightarrow> Some (st, [Reply_int 0])
         | Some Other_value \<Rightarrow> Some (st, [Reply_error Wrong_type])
         | Some (String_value ob) \<Rightarrow> do {
             let byte = unat (drop_bit 3 bitoffset);
             let bit = 7 - unat (bitoffset AND 7);
             bitval \<leftarrow> getbit_value A ob byte bit;
             Some (st, [Reply_int (if bitval \<noteq> 0 then 1 else 0)]) } } }"

section \<open>BITOP\<close>

datatype bitop = BITOP_AND | BITOP_OR | BITOP_XOR | BITOP_NOT

definition parse_bitop :: "robj list \<Rightarrow> bitop option option" where
  "parse_bitop argv = do {
     s \<leftarrow> arg_sds argv 1;
     c \<leftarrow> mem_get (sds_buf s) 0;
     is_and \<leftarrow> (if c = 97 \<or> c = 65 then arg_is argv 1 ''and'' else Some False);
     is_or \<leftarrow> (if c = 111 \<or> c = 79 then arg_is argv 1 ''or'' else Some False);
     is_xor \<leftarrow> (if c = 120 \<or> c = 88 then arg_is argv 1 ''xor'' else Some False);
     is_not \<leftarrow> (if c = 110 \<or> c = 78 then arg_is argv 1 ''not'' else Some False);
     Some (if is_and then Some BITOP_AND else if is_or then Some BITOP_OR else if is_xor then Some BITOP_XOR
           else if is_not then Some BITOP_NOT else None) }"

text \<open>The source strings; a missing key is a string of length 0.\<close>

record bit_src =
  src_obj :: "robj option"
  src :: bytes
  src_len :: nat

fun bitop_sources :: "allocator \<Rightarrow> cmd_state \<Rightarrow> nat \<Rightarrow> robj list \<Rightarrow> nat \<Rightarrow> nat \<Rightarrow> (bit_error + bit_src list \<times> nat \<times> nat) option" where
  "bitop_sources A st j [] minlen maxlen = Some (Inr ([], minlen, maxlen))"
| "bitop_sources A st j (arg # args) minlen maxlen = do {
     k \<leftarrow> get_sds arg;
     case keyspace st (sds_str k) of
       None \<Rightarrow> do {
         r \<leftarrow> bitop_sources A st (j + 1) args 0 maxlen;
         Some (case r of
                 Inl e \<Rightarrow> Inl e
               | Inr (srcs, mn, mx) \<Rightarrow> Inr (\<lparr>src_obj = None, src = [], src_len = 0\<rparr> # srcs, mn, mx)) }
     | Some Other_value \<Rightarrow> Some (Inl Wrong_type)
     | Some (String_value ob) \<Rightarrow> do {
         decoded \<leftarrow> getDecodedObject A ob;
         s \<leftarrow> get_sds decoded;
         let len = sdslen s;
         r \<leftarrow> bitop_sources A st (j + 1) args (if j = 0 \<or> len < minlen then len else minlen) (if maxlen < len then len else maxlen);
         Some (case r of
                 Inl e \<Rightarrow> Inl e
               | Inr (srcs, mn, mx) \<Rightarrow> Inr (\<lparr>src_obj = Some decoded, src = sds_buf s, src_len = len\<rparr> # srcs, mn, mx)) } }"

text \<open>The fast path: four 64-bit words at a time while all strings have data.\<close>

definition bit_op :: "bitop \<Rightarrow> 'a::len word \<Rightarrow> 'a word \<Rightarrow> 'a word" where
  "bit_op op x y = (case op of BITOP_AND \<Rightarrow> x AND y | BITOP_OR \<Rightarrow> x OR y | BITOP_XOR \<Rightarrow> x XOR y | BITOP_NOT \<Rightarrow> NOT x)"

definition word_op :: "bool \<Rightarrow> bitop \<Rightarrow> bytes \<Rightarrow> nat \<Rightarrow> bytes \<Rightarrow> bytes option" where
  "word_op be op s j res = do {
     x \<leftarrow> mem_read res j 8;
     y \<leftarrow> (if op = BITOP_NOT then Some x else mem_read s j 8);
     mem_write res j (host_store be 8 (bit_op op (host_load be x :: u64) (host_load be y))) }"

definition quad_op :: "bool \<Rightarrow> bitop \<Rightarrow> bytes \<Rightarrow> nat \<Rightarrow> bytes \<Rightarrow> bytes option" where
  "quad_op be op s j res = do {
     res \<leftarrow> word_op be op s j res;
     res \<leftarrow> word_op be op s (j + 8) res;
     res \<leftarrow> word_op be op s (j + 16) res;
     word_op be op s (j + 24) res }"

fun quad_keys :: "bool \<Rightarrow> bitop \<Rightarrow> bit_src list \<Rightarrow> nat \<Rightarrow> bytes \<Rightarrow> bytes option" where
  "quad_keys be op [] j res = Some res"
| "quad_keys be op (s # srcs) j res = do { res \<leftarrow> quad_op be op (src s) j res; quad_keys be op srcs j res }"

function bitop_fast :: "bool \<Rightarrow> bitop \<Rightarrow> bit_src list \<Rightarrow> bytes \<Rightarrow> nat \<Rightarrow> nat \<Rightarrow> (bytes \<times> nat) option" where
  "bitop_fast be op srcs res j minlen =
     (if 32 \<le> minlen then do {
        res \<leftarrow> (if op = BITOP_NOT then quad_op be op [] j res else quad_keys be op (tl srcs) j res);
        bitop_fast be op srcs res (j + 32) (minlen - 32) }
      else Some (res, j))"
  by pat_completeness auto
termination by (relation "measure (\<lambda>(be, op, srcs, res, j, minlen). minlen)") auto

text \<open>The byte by byte path, which skips the rest of the keys when they cannot change the byte any more.\<close>

definition src_byte :: "bit_src \<Rightarrow> nat \<Rightarrow> byte option" where
  "src_byte s j = (if src_len s \<le> j then Some 0 else mem_get (src s) j)"

fun slow_keys :: "bitop \<Rightarrow> bit_src list \<Rightarrow> nat \<Rightarrow> byte \<Rightarrow> byte option" where
  "slow_keys op [] j out = Some out"
| "slow_keys op (s # srcs) j out = do {
     byte \<leftarrow> src_byte s j;
     (case op of
        BITOP_AND \<Rightarrow> let out = out AND byte in if out = 0 then Some out else slow_keys op srcs j out
      | BITOP_OR \<Rightarrow> let out = out OR byte in if out = 0xff then Some out else slow_keys op srcs j out
      | BITOP_XOR \<Rightarrow> slow_keys op srcs j (out XOR byte)
      | BITOP_NOT \<Rightarrow> slow_keys op srcs j out) }"

function bitop_slow :: "bitop \<Rightarrow> bit_src list \<Rightarrow> bytes \<Rightarrow> nat \<Rightarrow> nat \<Rightarrow> bytes option" where
  "bitop_slow op srcs res j maxlen =
     (if j < maxlen then do {
        first \<leftarrow> mem_get srcs 0;
        out \<leftarrow> src_byte first j;
        let out = (if op = BITOP_NOT then NOT out else out);
        out \<leftarrow> slow_keys op (tl srcs) j out;
        res \<leftarrow> mem_put res j out;
        bitop_slow op srcs res (j + 1) maxlen }
      else Some res)"
  by pat_completeness auto
termination by (relation "measure (\<lambda>(op, srcs, res, j, maxlen). maxlen - j)") auto

declare bitop_fast.simps [simp del] bitop_slow.simps [simp del]

definition bitop_compute :: "bool \<Rightarrow> bool \<Rightarrow> bitop \<Rightarrow> bit_src list \<Rightarrow> nat \<Rightarrow> nat \<Rightarrow> bytes \<Rightarrow> bytes option" where
  "bitop_compute aligned be op srcs minlen maxlen res = do {
     (res, j) \<leftarrow>
       (if \<not> aligned \<and> 32 \<le> minlen \<and> length srcs \<le> 16 then do {
          first \<leftarrow> mem_get srcs 0;
          bs \<leftarrow> mem_read (src first) 0 minlen;
          res \<leftarrow> mem_write res 0 bs;
          bitop_fast be op srcs res 0 minlen }
        else Some (res, 0));
     bitop_slow op srcs res j maxlen }"

fun release_sources :: "bit_src list \<Rightarrow> unit option" where
  "release_sources [] = Some ()"
| "release_sources (s # srcs) = do {
     _ \<leftarrow> (case src_obj s of None \<Rightarrow> Some None | Some ob \<Rightarrow> decrRefCount ob);
     release_sources srcs }"

definition bitopCommand :: "bool \<Rightarrow> bool \<Rightarrow> allocator \<Rightarrow> robj list \<Rightarrow> cmd_state \<Rightarrow> (cmd_state \<times> reply list) option" where
  "bitopCommand aligned be A argv st = do {
     op \<leftarrow> parse_bitop argv;
     case op of
       None \<Rightarrow> Some (st, [Reply_error Syntax_error])
     | Some op \<Rightarrow>
         if op = BITOP_NOT \<and> length argv \<noteq> 4 then Some (st, [Reply_error Bitop_not_arity])
         else do {
           r \<leftarrow> bitop_sources A st 0 (drop 3 argv) 0 0;
           case r of
             Inl e \<Rightarrow> Some (st, [Reply_error e])
           | Inr (srcs, minlen, maxlen) \<Rightarrow> do {
               target \<leftarrow> arg_key argv 2;
               if maxlen \<noteq> 0 then do {
                 s \<leftarrow> sdsnewlen A Init_NULL maxlen;
                 buf \<leftarrow> bitop_compute aligned be op srcs minlen maxlen (sds_buf s);
                 _ \<leftarrow> release_sources srcs;
                 let st = set_value target (createObject (Ptr_sds (s\<lparr>sds_buf := buf\<rparr>))) st;
                 Some (signal_change target ''set'' 1 st, [Reply_int (int maxlen)]) }
               else do {
                 _ \<leftarrow> release_sources srcs;
                 if keyspace st target \<noteq> None then
                   Some (signal_change target ''del'' 1 (st\<lparr>keyspace := (keyspace st)(target := None)\<rparr>), [Reply_int (int maxlen)])
                 else Some (st, [Reply_int (int maxlen)]) } } } }"

section \<open>BITCOUNT and BITPOS\<close>

text \<open>Negative indexes count from the end; both ends are then cut to the string.\<close>

definition clamp_range :: "int \<Rightarrow> int \<Rightarrow> int \<Rightarrow> int \<times> int" where
  "clamp_range len start en =
     (let start = (if start < 0 then len + start else start);
          en = (if en < 0 then len + en else en);
          start = (if start < 0 then 0 else start);
          en = (if en < 0 then 0 else en);
          en = (if len \<le> en then len - 1 else en)
      in (start, en))"

definition count_range :: "bool \<Rightarrow> nat \<Rightarrow> bytes \<Rightarrow> int \<Rightarrow> int \<Rightarrow> reply list option" where
  "count_range be addr p start en =
     (if start > en then Some [Reply_int 0]
      else do { n \<leftarrow> redisPopcount be addr p (nat start) (nat (en - start + 1)); Some [Reply_int (int n)] })"

definition bitcountCommand :: "bool \<Rightarrow> nat \<Rightarrow> allocator \<Rightarrow> robj list \<Rightarrow> cmd_state \<Rightarrow> (cmd_state \<times> reply list) option" where
  "bitcountCommand be addr A argv st = do {
     key \<leftarrow> arg_key argv 1;
     case keyspace st key of
       None \<Rightarrow> Some (st, [Reply_int 0])
     | Some Other_value \<Rightarrow> Some (st, [Reply_error Wrong_type])
     | Some (String_value ob) \<Rightarrow> do {
         (p, strlen) \<leftarrow> getObjectReadOnlyString A LONG_STR_SIZE ob;
         if length argv = 4 then do {
           r1 \<leftarrow> getLongFromObjectOrReply (Some (argv ! 2)) None;
           case r1 of
             Inl e \<Rightarrow> Some (st, [Reply_error (Bad_number e)])
           | Inr start \<Rightarrow> do {
               r2 \<leftarrow> getLongFromObjectOrReply (Some (argv ! 3)) None;
               case r2 of
                 Inl e \<Rightarrow> Some (st, [Reply_error (Bad_number e)])
               | Inr en \<Rightarrow>
                   if sint start < 0 \<and> sint en < 0 \<and> sint start > sint en then Some (st, [Reply_int 0])
                   else (let (start, en) = clamp_range (int strlen) (sint start) (sint en)
                         in map_option (Pair st) (count_range be addr p start en)) } }
         else if length argv = 2 then map_option (Pair st) (count_range be addr p 0 (int strlen - 1))
         else Some (st, [Reply_error Syntax_error]) } }"

definition bitpos_range :: "bool \<Rightarrow> nat \<Rightarrow> bytes \<Rightarrow> bool \<Rightarrow> bool \<Rightarrow> int \<Rightarrow> int \<Rightarrow> reply list option" where
  "bitpos_range be addr p end_given wanted start en =
     (if start > en then Some [Reply_int (- 1)]
      else do {
        let n = en - start + 1;
        pos \<leftarrow> redisBitpos be addr p (nat start) (nat n) wanted;
        Some (if end_given \<and> \<not> wanted \<and> pos = n * 8 then [Reply_int (- 1)]
              else [Reply_int (if pos \<noteq> - 1 then pos + start * 8 else pos)]) })"

definition bitposCommand :: "bool \<Rightarrow> nat \<Rightarrow> allocator \<Rightarrow> robj list \<Rightarrow> cmd_state \<Rightarrow> (cmd_state \<times> reply list) option" where
  "bitposCommand be addr A argv st = do {
     a2 \<leftarrow> mem_get argv 2;
     r \<leftarrow> getLongFromObjectOrReply (Some a2) None;
     case r of
       Inl e \<Rightarrow> Some (st, [Reply_error (Bad_number e)])
     | Inr wanted \<Rightarrow>
         if wanted \<noteq> 0 \<and> wanted \<noteq> 1 then Some (st, [Reply_error Bit_not_0_or_1])
         else do {
           key \<leftarrow> arg_key argv 1;
           case keyspace st key of
             None \<Rightarrow> Some (st, [Reply_int (if wanted \<noteq> 0 then - 1 else 0)])
           | Some Other_value \<Rightarrow> Some (st, [Reply_error Wrong_type])
           | Some (String_value ob) \<Rightarrow> do {
               (p, strlen) \<leftarrow> getObjectReadOnlyString A LONG_STR_SIZE ob;
               if length argv = 4 \<or> length argv = 5 then do {
                 r1 \<leftarrow> getLongFromObjectOrReply (Some (argv ! 3)) None;
                 case r1 of
                   Inl e \<Rightarrow> Some (st, [Reply_error (Bad_number e)])
                 | Inr start \<Rightarrow> do {
                     r2 \<leftarrow> (if length argv = 5 then map_option (map_sum id sint) (getLongFromObjectOrReply (Some (argv ! 4)) None)
                           else Some (Inr (int strlen - 1)));
                     case r2 of
                       Inl e \<Rightarrow> Some (st, [Reply_error (Bad_number e)])
                     | Inr en \<Rightarrow>
                         (let (start, en) = clamp_range (int strlen) (sint start) en
                          in map_option (Pair st) (bitpos_range be addr p (length argv = 5) (wanted \<noteq> 0) start en)) } }
               else if length argv = 3 then map_option (Pair st) (bitpos_range be addr p False (wanted \<noteq> 0) 0 (int strlen - 1))
               else Some (st, [Reply_error Syntax_error]) } } }"

section \<open>BITFIELD\<close>

datatype bitfield_opcode = BITFIELDOP_GET | BITFIELDOP_SET | BITFIELDOP_INCRBY

record bitfieldOp =
  bf_offset :: u64
  bf_i64 :: s64
  bf_opcode :: bitfield_opcode
  bf_owtype :: owtype
  bf_bits :: nat
  bf_sign :: bool

definition parse_owtype :: "robj list \<Rightarrow> nat \<Rightarrow> (bit_error + owtype) option" where
  "parse_owtype argv i = do {
     wrap \<leftarrow> arg_is argv i ''wrap'';
     sat \<leftarrow> arg_is argv i ''sat'';
     fail \<leftarrow> arg_is argv i ''fail'';
     Some (if wrap then Inr BFOVERFLOW_WRAP else if sat then Inr BFOVERFLOW_SAT else if fail then Inr BFOVERFLOW_FAIL
           else Inl Bad_overflow_type) }"

text \<open>The subcommand at position \<^verbatim>\<open>j\<close>; the inner \<open>None\<close> is OVERFLOW.\<close>

definition parse_opcode :: "robj list \<Rightarrow> nat \<Rightarrow> (bit_error + bitfield_opcode option) option" where
  "parse_opcode argv j = do {
     let remargs = length argv - j - 1;
     get \<leftarrow> arg_is argv j ''get'';
     set \<leftarrow> arg_is argv j ''set'';
     incrby \<leftarrow> arg_is argv j ''incrby'';
     overflow \<leftarrow> arg_is argv j ''overflow'';
     Some (if get \<and> 2 \<le> remargs then Inr (Some BITFIELDOP_GET)
           else if set \<and> 3 \<le> remargs then Inr (Some BITFIELDOP_SET)
           else if incrby \<and> 3 \<le> remargs then Inr (Some BITFIELDOP_INCRBY)
           else if overflow \<and> 1 \<le> remargs then Inr None
           else Inl Syntax_error) }"

text \<open>The arguments of one operation: its width, offset and, except for GET, its value.\<close>

definition parse_op :: "int \<Rightarrow> robj list \<Rightarrow> nat \<Rightarrow> bitfield_opcode \<Rightarrow> owtype \<Rightarrow> (bit_error + bitfieldOp) option" where
  "parse_op maxlen argv j opcode ow = do {
     a1 \<leftarrow> arg_sds argv (j + 1);
     r \<leftarrow> getBitfieldTypeFromArgument a1;
     case r of
       Inl e \<Rightarrow> Some (Inl e)
     | Inr (sign, bits) \<Rightarrow> do {
         a2 \<leftarrow> arg_sds argv (j + 2);
         r \<leftarrow> getBitOffsetFromArgument maxlen a2 True bits;
         case r of
           Inl e \<Rightarrow> Some (Inl e)
         | Inr bitoffset \<Rightarrow> do {
             r \<leftarrow> (if opcode \<noteq> BITFIELDOP_GET then do { a3 \<leftarrow> mem_get argv (j + 3); getLongLongFromObjectOrReply (Some a3) None }
                  else Some (Inr 0));
             Some (case r of
                     Inl e \<Rightarrow> Inl (Bad_number e)
                   | Inr i64 \<Rightarrow> Inr \<lparr>bf_offset = bitoffset, bf_i64 = i64, bf_opcode = opcode, bf_owtype = ow, bf_bits = bits, bf_sign = sign\<rparr>) } } }"

record bf_parse =
  bf_ops :: "bitfieldOp list"
  bf_readonly :: bool
  highest_write_offset :: u64

definition add_op :: "bitfieldOp \<Rightarrow> bf_parse \<Rightarrow> bf_parse" where
  "add_op op ps =
     (let last = bf_offset op + word_of_nat (bf_bits op) - 1;
          write = (bf_opcode op \<noteq> BITFIELDOP_GET)
      in \<lparr>bf_ops = bf_ops ps @ [op], bf_readonly = (bf_readonly ps \<and> \<not> write),
          highest_write_offset = (if write \<and> highest_write_offset ps < last then last else highest_write_offset ps)\<rparr>)"

function parse_ops :: "int \<Rightarrow> robj list \<Rightarrow> nat \<Rightarrow> owtype \<Rightarrow> bf_parse \<Rightarrow> (bit_error + bf_parse) option" where
  "parse_ops maxlen argv j ow ps =
     (if j < length argv then do {
        r \<leftarrow> parse_opcode argv j;
        case r of
          Inl e \<Rightarrow> Some (Inl e)
        | Inr None \<Rightarrow> do {
            r \<leftarrow> parse_owtype argv (j + 1);
            case r of Inl e \<Rightarrow> Some (Inl e) | Inr ow \<Rightarrow> parse_ops maxlen argv (j + 2) ow ps }
        | Inr (Some opcode) \<Rightarrow> do {
            r \<leftarrow> parse_op maxlen argv j opcode ow;
            case r of
              Inl e \<Rightarrow> Some (Inl e)
            | Inr op \<Rightarrow> parse_ops maxlen argv (j + (if opcode = BITFIELDOP_GET then 3 else 4)) ow (add_op op ps) } }
      else Some (Inr ps))"
  by pat_completeness auto
termination by (relation "measure (\<lambda>(m, argv, j, ow, ps). length argv - j)") auto

declare parse_ops.simps [simp del]

text \<open>SET and INCRBY on the bytes of the string.\<close>

definition bitfield_write :: "bitfieldOp \<Rightarrow> bytes \<Rightarrow> (bytes \<times> reply) option" where
  "bitfield_write op p =
     (let off = unat (bf_offset op); bits = bf_bits op
      in if bf_sign op then do {
           oldval \<leftarrow> getSignedBitfield p off bits;
           let new = (if bf_opcode op = BITFIELDOP_INCRBY
                      then checked (checkSignedBitfieldOverflow oldval (bf_i64 op) bits (bf_owtype op)) (oldval + bf_i64 op)
                      else checked (checkSignedBitfieldOverflow (bf_i64 op) 0 bits (bf_owtype op)) (bf_i64 op));
           case new of
             None \<Rightarrow> Some (p, Reply_null)
           | Some newval \<Rightarrow> do {
               p \<leftarrow> setSignedBitfield p off bits newval;
               Some (p, Reply_int (sint (if bf_opcode op = BITFIELDOP_INCRBY then newval else oldval))) } }
         else do {
           oldval \<leftarrow> getUnsignedBitfield p off bits;
           let new = (if bf_opcode op = BITFIELDOP_INCRBY
                      then checked (checkUnsignedBitfieldOverflow oldval (bf_i64 op) bits (bf_owtype op)) (oldval + bf_i64 op)
                      else checked (checkUnsignedBitfieldOverflow (bf_i64 op) 0 bits (bf_owtype op)) (bf_i64 op));
           case new of
             None \<Rightarrow> Some (p, Reply_null)
           | Some newval \<Rightarrow> do {
               p \<leftarrow> setUnsignedBitfield p off bits newval;
               Some (p, Reply_int (sint (if bf_opcode op = BITFIELDOP_INCRBY then newval else oldval))) } })"

text \<open>GET copies up to nine bytes into a zeroed buffer; the source may be \<^verbatim>\<open>NULL\<close>.\<close>

fun copy_window :: "nat \<Rightarrow> nat \<Rightarrow> bytes option \<Rightarrow> nat \<Rightarrow> nat \<Rightarrow> bytes \<Rightarrow> bytes option" where
  "copy_window 0 i s strlen byte buf = Some buf"
| "copy_window (Suc n) i s strlen byte buf =
     (case s of
        None \<Rightarrow> Some buf
      | Some p \<Rightarrow>
          if strlen \<le> i + byte then Some buf
          else do {
            b \<leftarrow> mem_get p (i + byte);
            buf \<leftarrow> mem_put buf i b;
            copy_window n (i + 1) s strlen byte buf })"

definition bitfield_get :: "bitfieldOp \<Rightarrow> bytes option \<Rightarrow> nat \<Rightarrow> reply option" where
  "bitfield_get op s strlen = do {
     let byte = unat (drop_bit 3 (bf_offset op));
     buf \<leftarrow> copy_window 9 0 s strlen byte (replicate 9 0);
     let off = unat (bf_offset op) - byte * 8;
     v \<leftarrow> (if bf_sign op then getSignedBitfield buf off (bf_bits op) else getUnsignedBitfield buf off (bf_bits op));
     Some (Reply_int (sint v)) }"

fun bitfield_exec :: "allocator \<Rightarrow> bitfieldOp list \<Rightarrow> robj option \<Rightarrow> (robj option \<times> reply list \<times> int) option" where
  "bitfield_exec A [] ob = Some (ob, [], 0)"
| "bitfield_exec A (op # ops) ob =
     (if bf_opcode op = BITFIELDOP_GET then do {
        (s, strlen) \<leftarrow> (case ob of
                         None \<Rightarrow> Some (None, 0)
                       | Some ob \<Rightarrow> map_option (map_prod Some id) (getObjectReadOnlyString A LONG_STR_SIZE ob));
        r \<leftarrow> bitfield_get op s strlen;
        (ob, rs, changes) \<leftarrow> bitfield_exec A ops ob;
        Some (ob, r # rs, changes) }
      else do {
        o1 \<leftarrow> ob;
        s \<leftarrow> get_sds o1;
        (p, r) \<leftarrow> bitfield_write op (sds_buf s);
        (ob, rs, changes) \<leftarrow> bitfield_exec A ops (Some (o1\<lparr>optr := Ptr_sds (s\<lparr>sds_buf := p\<rparr>)\<rparr>));
        Some (ob, r # rs, changes + 1) })"

definition bitfieldGeneric :: "bool \<Rightarrow> allocator \<Rightarrow> int \<Rightarrow> robj list \<Rightarrow> cmd_state \<Rightarrow> (cmd_state \<times> reply list) option" where
  "bitfieldGeneric ro A maxlen argv st = do {
     r \<leftarrow> parse_ops maxlen argv 2 BFOVERFLOW_WRAP \<lparr>bf_ops = [], bf_readonly = True, highest_write_offset = 0\<rparr>;
     case r of
       Inl e \<Rightarrow> Some (st, [Reply_error e])
     | Inr ps \<Rightarrow> do {
         key \<leftarrow> arg_key argv 1;
         r \<leftarrow> (if bf_readonly ps then
                Some (case keyspace st key of
                        None \<Rightarrow> Inr None
                      | Some Other_value \<Rightarrow> Inl Wrong_type
                      | Some (String_value ob) \<Rightarrow> Inr (Some ob))
              else if ro then Some (Inl Readonly_only_get)
              else map_option (map_sum id Some) (lookupStringForBitCommand A st key (unat (highest_write_offset ps))));
         case r of
           Inl e \<Rightarrow> Some (st, [Reply_error e])
         | Inr ob \<Rightarrow> do {
             (ob, rs, changes) \<leftarrow> bitfield_exec A (bf_ops ps) ob;
             let st = (if bf_readonly ps then st else (case ob of None \<Rightarrow> st | Some ob \<Rightarrow> set_value key ob st));
             Some (if changes \<noteq> 0 then signal_change key ''setbit'' changes st else st, Reply_array (length (bf_ops ps)) # rs) } } }"

definition bitfieldCommand :: "allocator \<Rightarrow> int \<Rightarrow> robj list \<Rightarrow> cmd_state \<Rightarrow> (cmd_state \<times> reply list) option" where
  "bitfieldCommand A maxlen argv st = bitfieldGeneric False A maxlen argv st"

definition bitfieldroCommand :: "allocator \<Rightarrow> int \<Rightarrow> robj list \<Rightarrow> cmd_state \<Rightarrow> (cmd_state \<times> reply list) option" where
  "bitfieldroCommand A maxlen argv st = bitfieldGeneric True A maxlen argv st"

end
