(* ===== verification/Bit_Semantics.thy ===== *)
theory Bit_Semantics
  imports Bit_Commands
begin

text \<open>
  What the bit commands mean. A string value is seen as an unlimited bit map (\<open>text_bit\<close>: all bits beyond the end are
  clear). SETBIT and GETBIT write and read one bit; BITOP is the bitwise operation on the padded sources
  (\<open>bitop_bit\<close>), for the word-at-a-time path as well as for the byte path; BITFIELD runs integer operations on fields
  (\<open>bf_run\<close>), with the overflow policies of \<open>Bitfield\<close>. The lemmas follow the code: argument parsing, the string
  of a key, one operation, the list of operations, the command.
\<close>

unbundle bit_operations_syntax


section \<open>Arguments and values\<close>

definition args_ok :: "robj list \<Rightarrow> bool" where
  "args_ok argv \<longleftrightarrow> (\<forall>ob\<in>set argv. obj_ok ob \<and> sdsEncodedObject ob)"

lemma args_nth: "args_ok argv \<Longrightarrow> i < length argv \<Longrightarrow> obj_ok (argv ! i) \<and> sdsEncodedObject (argv ! i)"
  by (simp add: args_ok_def)

lemma arg_sds_ok:
  assumes "args_ok argv" "i < length argv"
  shows "\<exists>s. arg_sds argv i = Some s \<and> sds_ok s \<and> sds_str s = obj_str (argv ! i)"
proof -
  have "obj_ok (argv ! i)" "sdsEncodedObject (argv ! i)" using args_nth [OF assms] by blast+
  then show ?thesis using assms(2) by (cases rule: obj_cases) (auto simp: arg_sds_def mem_get_eq)
qed

lemma arg_key_ok: "args_ok argv \<Longrightarrow> i < length argv \<Longrightarrow> arg_key argv i = Some (obj_str (argv ! i))"
  using arg_sds_ok by (fastforce simp: arg_key_def)

text \<open>A value a bit command may find under a key, and its text.\<close>

definition slot_ok :: "db_value option \<Rightarrow> bool" where
  "slot_ok v \<longleftrightarrow> (case v of
       None \<Rightarrow> True
     | Some Other_value \<Rightarrow> False
     | Some (String_value ob) \<Rightarrow> obj_ok ob \<and> refcount ob \<noteq> OBJ_STATIC_REFCOUNT \<and> length (obj_str ob) < 2 ^ 62)"

definition slot_text :: "db_value option \<Rightarrow> bytes" where
  "slot_text v = (case v of Some (String_value ob) \<Rightarrow> obj_str ob | _ \<Rightarrow> [])"

text \<open>A text as an unlimited bit map: beyond its end all bits are clear.\<close>

definition text_bit :: "bytes \<Rightarrow> nat \<Rightarrow> bool" where
  "text_bit t i \<longleftrightarrow> i < 8 * length t \<and> bit_at t i"

lemma text_bit_zeros: "text_bit (t @ replicate n 0) i = text_bit t i"
proof (cases "i < 8 * length t")
  case True
  then have "i div 8 < length t" by simp
  then show ?thesis using True by (simp add: text_bit_def bit_at_def nth_append)
next
  case False
  then have "\<not> i div 8 < length t" by simp
  then show ?thesis using False by (auto simp: text_bit_def bit_at_def nth_append)
qed

lemma getBitOffset_eq:
  assumes "sds_ok s"
  shows "getBitOffsetFromArgument maxlen s False b =
    Some (case string2ll (sds_str s) of
            None \<Rightarrow> Inl Bad_offset
          | Some v \<Rightarrow> if sint v < 0 \<or> maxlen \<le> sint v div 8 then Inl Bad_offset else Inr v)"
proof -
  have "0 < length (sds_buf s)" using assms by (auto simp: sds_ok_def)
  then have "mem_get (sds_buf s) 0 = Some (sds_buf s ! 0)" "mem_read (sds_buf s) 0 (sdslen s) = Some (sds_str s)"
    using assms by (simp_all add: sds_ok_def mem_get_eq mem_read_eq sds_str_def sdslen_def)
  then show ?thesis by (simp add: getBitOffsetFromArgument_def Let_def split: option.split)
qed

lemma sdsnewlen_zero: "n < 2 ^ 63 \<Longrightarrow> \<exists>s. sdsnewlen A Init_NULL n = Some s \<and> sds_ok s \<and> sds_str s = replicate n 0"
  using sds_newlen_ok [of n Init_NULL A False] by (auto simp: sdsnewlen_def init_bytes_def)

lemma unshare_ok:
  assumes "obj_ok ob" "refcount ob \<noteq> OBJ_STATIC_REFCOUNT" "length (obj_str ob) < 2 ^ 63"
  shows "\<exists>ob' s. dbUnshareStringValue A ob = Some ob' \<and> ob' = \<lparr>encoding = OBJ_ENCODING_RAW, optr = Ptr_sds s, refcount = 1\<rparr> \<and> sds_ok s \<and> sds_str s = obj_str ob"
proof (cases "refcount ob \<noteq> 1 \<or> encoding ob \<noteq> OBJ_ENCODING_RAW")
  case True
  obtain d where d: "getDecodedObject A ob = Some d" "obj_ok d" "obj_str d = obj_str ob" "sdsEncodedObject d"
    using getDecodedObject_ok [OF assms] by blast
  from d(2,4) obtain s where s: "get_sds d = Some s" "sds_ok s" "sds_str s = obj_str d"
    by (cases rule: obj_cases) auto
  have len: "hdr_len s < 2 ^ 63" "hdr_len s \<le> length (sds_buf s)" using s(2,3) d(3) assms(3) length_sds_str [of s] by (auto simp: sds_ok_def)
  obtain n where n: "sdsnewlen A (Init (sds_buf s)) (sdslen s) = Some n" "sds_ok n" "sds_str n = sds_str s"
    using sdsnewlen_ok [OF len, of A] by (auto simp: sdslen_def sds_str_def)
  have "\<exists>r. decrRefCount d = Some r" using d(2) by (auto simp: decrRefCount_def obj_ok_def)
  then show ?thesis using True d s n by (auto simp: dbUnshareStringValue_def createRawStringObject_def createObject_def)
next
  case False
  with assms(1) show ?thesis by (cases rule: obj_cases) (auto simp: dbUnshareStringValue_def intro!: robj.equality)
qed

lemma lookupString_ok:
  assumes "slot_ok (keyspace st key)" "n < 2 ^ 62"
  shows "\<exists>s. lookupStringForBitCommand A st key n = Some (Inr \<lparr>encoding = OBJ_ENCODING_RAW, optr = Ptr_sds s, refcount = 1\<rparr>) \<and> sds_ok s \<and>
    sds_str s = slot_text (keyspace st key) @ replicate (n div 8 + 1 - length (slot_text (keyspace st key))) 0"
proof (cases "keyspace st key")
  case None
  have "n div 8 + 1 < 2 ^ 63" using assms(2) by simp
  then show ?thesis using sdsnewlen_zero [of "n div 8 + 1" A] None
    by (auto simp: lookupStringForBitCommand_def Let_def offset_split slot_text_def createObject_def)
next
  case (Some v)
  then obtain ob where v: "v = String_value ob" "obj_ok ob" "refcount ob \<noteq> OBJ_STATIC_REFCOUNT" "length (obj_str ob) < 2 ^ 62"
    using assms(1) by (auto simp: slot_ok_def split: db_value.splits)
  then obtain s where s: "dbUnshareStringValue A ob = Some \<lparr>encoding = OBJ_ENCODING_RAW, optr = Ptr_sds s, refcount = 1\<rparr>" "sds_ok s"
    "sds_str s = obj_str ob" using unshare_ok [of ob A] by auto
  have "n div 8 + 1 < 2 ^ 63" using assms(2) by simp
  from sdsgrowzero_ok [OF s(2) this] obtain s' where s': "sdsgrowzero A s (n div 8 + 1) = Some s'" "sds_ok s'"
    "sds_str s' = sds_str s @ replicate (n div 8 + 1 - sdslen s) 0" by blast
  have "sdslen s = length (obj_str ob)" using s(2,3) length_sds_str [of s] by (simp add: sdslen_def)
  then show ?thesis using Some v(1) s s'
    by (auto simp: lookupStringForBitCommand_def Let_def offset_split slot_text_def get_sds_def)
qed

text \<open>Changing a byte of the text in place.\<close>

lemma sds_put:
  assumes "sds_ok s" "i < hdr_len s"
  shows "sds_ok (s\<lparr>sds_buf := (sds_buf s)[i := b]\<rparr>)" "sds_str (s\<lparr>sds_buf := (sds_buf s)[i := b]\<rparr>) = (sds_str s)[i := b]"
  using assms by (auto simp: sds_ok_def sds_str_def sdsalloc_def take_update_swap)

lemma text_bit_update:
  assumes "n div 8 < length t" "\<And>k. bit b k \<longleftrightarrow> k < 8 \<and> (if k = 7 - n mod 8 then v else bit (t ! (n div 8)) k)"
  shows "text_bit (t[n div 8 := b]) i = (if i = n then v else text_bit t i)"
proof (cases "i div 8 = n div 8")
  case True
  then have "i = n \<longleftrightarrow> i mod 8 = n mod 8" by (metis div_mult_mod_eq)
  moreover have "i mod 8 < 8" "n mod 8 < 8" by simp_all
  ultimately have "i = n \<longleftrightarrow> 7 - i mod 8 = 7 - n mod 8" by linarith
  moreover have "i < 8 * length t" using True assms(1) by linarith
  moreover have "7 - i mod 8 < 8" "7 - n mod 8 < 8" by simp_all
  ultimately show ?thesis using True assms by (auto simp: text_bit_def bit_at_def)
next
  case False
  then show ?thesis by (auto simp: text_bit_def bit_at_def)
qed

section \<open>SETBIT and GETBIT\<close>

lemma offset_word: "unat (drop_bit 3 (off :: u64)) = unat off div 8" "unat (off AND 7) = unat off mod 8"
  using offset_split [of "unat off"] by (simp_all add: unat_drop_bit unsigned_and_eq)

lemma bit_or_zero: "on AND NOT 1 = 0 \<longleftrightarrow> on = 0 \<or> on = 1" for on :: s64
proof
  assume a: "on AND NOT 1 = 0"
  have "\<not> bit on k" if "0 < k" for k
  proof
    assume b: "bit on k"
    then have "k < 64" using bit_imp_le_length [OF b] by simp
    then have "bit (on AND NOT 1) k" using b that by (simp add: bit_simps)
    then show False using a by simp
  qed
  then have "bit on k \<longleftrightarrow> bit (if bit on 0 then 1 else 0 :: s64) k" for k by (cases "k = 0") (auto simp: bit_1_iff)
  then have "on = (if bit on 0 then 1 else 0)" by (rule bit_eqI)
  then show "on = 0 \<or> on = 1" by presburger
qed auto

lemma setbit_byte:
  fixes b :: byte
  assumes "k < 8" "on = 0 \<or> on = (1 :: s64)"
  shows "bit (ucast (((ucast b :: 32 word) AND NOT (push_bit k 1)) OR ucast (push_bit k (on AND 1))) :: byte) n \<longleftrightarrow> n < 8 \<and> (if n = k then on = 1 else bit b n)"
  using assms bit_imp_le_length [of b n] by (auto simp: bit_simps)

lemma sint_unat: "0 \<le> sint v \<Longrightarrow> sint (v :: s64) = int (unat v)"
  by (simp add: unat_sint_nonneg)

lemma getLong_ok:
  assumes "obj_ok ob" "obj_str ob = dec_int (sint v)"
  shows "getLongFromObjectOrReply (Some ob) msg = Some (Inr v)"
proof -
  have "getLongLongFromObject (Some ob) = Some (Some v)" using getLongLongFromObject_ok [OF assms(1)] assms(2) by auto
  then show ?thesis using long_range [of v] by (simp add: getLongFromObjectOrReply_def getLongLongFromObjectOrReply_def)
qed

lemma getbit_value_eq:
  assumes "obj_ok ob"
  shows "\<exists>w. getbit_value A ob (n div 8) (7 - n mod 8) = Some w \<and> (w \<noteq> 0 \<longleftrightarrow> text_bit (obj_str ob) n)"
proof -
  let ?t = "obj_str ob"
  have k: "7 - n mod 8 < 64" by linarith
  have g: "(ucast (?t ! (n div 8)) :: u64) AND push_bit (7 - n mod 8) 1 \<noteq> 0 \<longleftrightarrow> bit_at ?t n"
    unfolding and_single_bit using k by (simp add: bit_at_def bit_simps)
  have l: "n div 8 < length ?t \<longleftrightarrow> n < 8 * length ?t" by linarith
  from assms show ?thesis
  proof (cases rule: obj_cases)
    case (str s)
    have "mem_get (sds_buf s) (n div 8) = Some (?t ! (n div 8))" if "n div 8 < sdslen s"
      using that str by (auto simp: sds_ok_def sdslen_def sds_str_def mem_get_eq)
    then show ?thesis using str g l by (simp add: getbit_value_def text_bit_def del: push_bit_of_1 length_sds_str)
  next
    case (int v)
    let ?d = "dec_int (sint v)"
    have p: "ll2string (fresh_block A 32) 32 v = Some (word_of_nat (length ?d), ?d @ 0 # drop (length ?d + 1) (fresh_block A 32))"
      using printed_number [of 32 A v] by simp
    have "mem_get (?d @ 0 # drop (length ?d + 1) (fresh_block A 32)) (n div 8) = Some (?t ! (n div 8))" if "n div 8 < length ?d"
      using that int by (simp add: mem_get_eq nth_append)
    then show ?thesis using int g l p by (simp add: getbit_value_def text_bit_def unat_len_dec del: push_bit_of_1)
  qed
qed

lemma getbit_eq:
  assumes "args_ok argv" "3 \<le> length argv" "obj_str (argv ! 2) = dec_int (sint off)" "0 \<le> sint off" "sint off div 8 < maxlen"
    "k = obj_str (argv ! 1)" "slot_ok (keyspace st k)"
  shows "getbitCommand A maxlen argv st = Some (st, [Reply_int (of_bool (text_bit (slot_text (keyspace st k)) (unat (off :: u64))))])"
proof -
  obtain a2 where a2: "arg_sds argv 2 = Some a2" "sds_ok a2" "sds_str a2 = dec_int (sint off)"
    using arg_sds_ok [OF assms(1), of 2] assms(2,3) by auto
  have off: "getBitOffsetFromArgument maxlen a2 False 0 = Some (Inr off)"
    using getBitOffset_eq [OF a2(2)] assms(4,5) by (simp add: a2(3) string2ll_complete)
  have key: "arg_key argv 1 = Some k" using arg_key_ok [OF assms(1), of 1] assms(2,6) by simp
  show ?thesis
  proof (cases "keyspace st k")
    case None
    then show ?thesis unfolding getbitCommand_def a2(1) bind.bind_lunit off key by (simp add: slot_text_def text_bit_def)
  next
    case (Some v)
    then obtain ob where v: "v = String_value ob" "obj_ok ob" using assms(7) by (auto simp: slot_ok_def split: db_value.splits)
    show ?thesis using getbit_value_eq [OF v(2), of A "unat off"] Some v(1)
      unfolding getbitCommand_def a2(1) bind.bind_lunit off key
      by (auto simp: slot_text_def offset_word Let_def)
  qed
qed

lemma setbit_eq:
  assumes "args_ok argv" "4 \<le> length argv" "obj_str (argv ! 2) = dec_int (sint off)" "0 \<le> sint off" "sint off div 8 < maxlen"
    "maxlen \<le> 2 ^ 59" "obj_str (argv ! 3) = dec_int (of_bool v)" "k = obj_str (argv ! 1)" "slot_ok (keyspace st k)"
  shows "\<exists>ob. setbitCommand A maxlen argv st =
      Some (signal_change k ''setbit'' 1 (set_value k ob st), [Reply_int (of_bool (text_bit (slot_text (keyspace st k)) (unat off)))]) \<and>
    obj_ok ob \<and> refcount ob = 1 \<and> length (obj_str ob) = max (length (slot_text (keyspace st k))) (unat (off :: u64) div 8 + 1) \<and>
    (\<forall>i. text_bit (obj_str ob) i = (if i = unat off then v else text_bit (slot_text (keyspace st k)) i))"
proof -
  let ?n = "unat off" and ?t = "slot_text (keyspace st k)" and ?on = "of_bool v :: s64"
  obtain a2 where a2: "arg_sds argv 2 = Some a2" "sds_ok a2" "sds_str a2 = dec_int (sint off)"
    using arg_sds_ok [OF assms(1), of 2] assms(2,3) by auto
  have off: "getBitOffsetFromArgument maxlen a2 False 0 = Some (Inr off)"
    using getBitOffset_eq [OF a2(2)] assms(4,5) by (simp add: a2(3) string2ll_complete)
  have key: "arg_key argv 1 = Some k" using arg_key_ok [OF assms(1), of 1] assms(2,8) by simp
  have a3: "mem_get argv 3 = Some (argv ! 3)" using assms(2) by (simp add: mem_get_eq)
  have num: "getLongFromObjectOrReply (Some (argv ! 3)) (Some bit_err_msg) = Some (Inr ?on)"
    using getLong_ok args_nth [OF assms(1), of 3] assms(2,7) by simp
  have "sint off < 8 * 2 ^ 59" using assms(5,6) by linarith
  then have "int ?n < int (2 ^ 62)" unfolding sint_unat [OF assms(4)] by (simp del: of_nat_unat)
  then have n: "?n < 2 ^ 62" unfolding of_nat_less_iff .
  obtain s where s: "lookupStringForBitCommand A st k ?n = Some (Inr \<lparr>encoding = OBJ_ENCODING_RAW, optr = Ptr_sds s, refcount = 1\<rparr>)"
    "sds_ok s" "sds_str s = ?t @ replicate (?n div 8 + 1 - length ?t) 0"
    using lookupString_ok [OF assms(9) n] by blast
  have len: "?n div 8 < hdr_len s" "length (sds_str s) = hdr_len s" using s(2,3) length_sds_str [of s] by auto
  let ?b = "sds_str s ! (?n div 8)"
  define b' :: byte where "b' = ucast (((ucast ?b :: 32 word) AND NOT (push_bit (7 - ?n mod 8) 1)) OR ucast (push_bit (7 - ?n mod 8) (?on AND 1)))"
  have get: "mem_get (sds_buf s) (?n div 8) = Some ?b" "mem_put (sds_buf s) (?n div 8) x = Some ((sds_buf s)[?n div 8 := x])" for x
    using len s(2) by (auto simp: sds_ok_def sds_str_def mem_get_eq mem_put_eq)
  have old: "(ucast ?b :: 32 word) AND push_bit (7 - ?n mod 8) 1 \<noteq> 0 \<longleftrightarrow> text_bit ?t ?n"
  proof -
    have "7 - ?n mod 8 < 32" "?n < 8 * length (sds_str s)" using len by linarith+
    then have "(ucast ?b :: 32 word) AND push_bit (7 - ?n mod 8) 1 \<noteq> 0 \<longleftrightarrow> text_bit (sds_str s) ?n"
      unfolding and_single_bit by (simp add: text_bit_def bit_at_def bit_simps)
    then show ?thesis by (simp only: s(3) text_bit_zeros)
  qed
  have bb: "bit b' j \<longleftrightarrow> j < 8 \<and> (if j = 7 - ?n mod 8 then v else bit ?b j)" for j
    unfolding b'_def by (subst setbit_byte) auto
  define ob where "ob = \<lparr>encoding = OBJ_ENCODING_RAW, optr = Ptr_sds (s\<lparr>sds_buf := (sds_buf s)[?n div 8 := b']\<rparr>), refcount = 1\<rparr>"
  have ob: "obj_ok ob" "refcount ob = 1" "obj_str ob = (sds_str s)[?n div 8 := b']"
    using sds_put [OF s(2) len(1)] by (simp_all add: ob_def obj_ok_def obj_str_def)
  have bits: "text_bit (obj_str ob) i = (if i = ?n then v else text_bit ?t i)" for i
    using text_bit_update [of ?n "sds_str s" b' v i] len bb unfolding ob(3) by (simp add: s(3) text_bit_zeros)
  have "on AND NOT 1 = 0" if "on = ?on" for on unfolding bit_or_zero using that by simp
  then have "setbitCommand A maxlen argv st =
      Some (signal_change k ''setbit'' 1 (set_value k ob st), [Reply_int (of_bool (text_bit ?t ?n))])"
    using old unfolding setbitCommand_def a2(1) bind.bind_lunit off a3 num key sum.case s(1)
    by (simp add: get Let_def offset_word ob_def b'_def get_sds_def del: push_bit_of_1)
  then show ?thesis using ob bits len s(3) by (intro exI [of _ ob]) simp
qed

text \<open>An argument as the protocol parser creates it from a short text.\<close>

definition text_arg :: "bytes \<Rightarrow> robj" where
  "text_arg t = \<lparr>encoding = OBJ_ENCODING_RAW,
     optr = Ptr_sds \<lparr>sds_type = SDS_TYPE_8, hdr_len = length t, hdr_alloc = length t, sds_buf = t @ [0]\<rparr>, refcount = 1\<rparr>"

lemma text_arg_ok [simp]: "length t < 256 \<Longrightarrow> obj_ok (text_arg t)" "obj_str (text_arg t) = t" "sdsEncodedObject (text_arg t)"
  by (simp_all add: text_arg_def obj_ok_def obj_str_def sds_ok_def sds_str_def sdsalloc_def sdsEncodedObject_def)

text \<open>C38: SETBIT changes exactly one bit of the value seen as an unlimited bit map. The reply is the bit the key had before
  (0 for a missing key and beyond the end of the string), the string grows with zero bits to hold the offset, every
  other bit keeps its value, and GETBIT on the new state answers the written bit at the written offset and the old
  bit everywhere else, whatever encoding the old value had.\<close>

theorem setbit_getbit:
  assumes "args_ok argv" "4 \<le> length argv" "obj_str (argv ! 2) = dec_int (sint off)" "0 \<le> sint off" "sint off div 8 < maxlen"
    "maxlen \<le> 2 ^ 59" "obj_str (argv ! 3) = dec_int (of_bool v)" "k = obj_str (argv ! 1)" "slot_ok (keyspace st k)"
  shows "\<exists>st'. setbitCommand A maxlen argv st = Some (st', [Reply_int (of_bool (text_bit (slot_text (keyspace st k)) (unat off)))]) \<and>
    (\<forall>k'. k' \<noteq> k \<longrightarrow> keyspace st' k' = keyspace st k') \<and> slot_ok (keyspace st' k) \<and> modified st' = modified st @ [k] \<and> dirty st' = dirty st + 1 \<and>
    length (slot_text (keyspace st' k)) = max (length (slot_text (keyspace st k))) (unat (off :: u64) div 8 + 1) \<and>
    (\<forall>B argv' off'. args_ok argv' \<longrightarrow> 3 \<le> length argv' \<longrightarrow> obj_str (argv' ! 1) = k \<longrightarrow> obj_str (argv' ! 2) = dec_int (sint off') \<longrightarrow>
       0 \<le> sint off' \<longrightarrow> sint off' div 8 < maxlen \<longrightarrow>
       getbitCommand B maxlen argv' st' =
         Some (st', [Reply_int (of_bool (if off' = off then v else text_bit (slot_text (keyspace st k)) (unat off')))]))"
proof -
  obtain ob where ob: "setbitCommand A maxlen argv st =
      Some (signal_change k ''setbit'' 1 (set_value k ob st), [Reply_int (of_bool (text_bit (slot_text (keyspace st k)) (unat off)))])"
    "obj_ok ob" "refcount ob = 1" "length (obj_str ob) = max (length (slot_text (keyspace st k))) (unat off div 8 + 1)"
    "\<And>i. text_bit (obj_str ob) i = (if i = unat off then v else text_bit (slot_text (keyspace st k)) i)"
    using setbit_eq [OF assms] by blast
  define st' where "st' = signal_change k ''setbit'' 1 (set_value k ob st)"
  have k: "keyspace st' k = Some (String_value ob)" by (simp add: st'_def signal_change_def set_value_def)
  have "length (slot_text (keyspace st k)) < 2 ^ 62" using assms(9) by (auto simp: slot_ok_def slot_text_def split: option.splits db_value.splits)
  moreover have "unat off div 8 + 1 < 2 ^ 62" using unsigned_less [of off, where ?'a = nat] by simp
  ultimately have ok: "slot_ok (keyspace st' k)" using k ob(2-4) by (simp add: slot_ok_def OBJ_STATIC_REFCOUNT_def OBJ_SHARED_REFCOUNT_def)
  have read: "getbitCommand B maxlen argv' st' =
       Some (st', [Reply_int (of_bool (if off' = off then v else text_bit (slot_text (keyspace st k)) (unat off')))])"
    if "args_ok argv'" "3 \<le> length argv'" "obj_str (argv' ! 1) = k" "obj_str (argv' ! 2) = dec_int (sint off')" "0 \<le> sint off'"
      "sint off' div 8 < maxlen" for B argv' off'
    using getbit_eq [OF that(1,2,4-6) that(3) [symmetric] ok, of B] by (simp add: k slot_text_def ob(5) word_unat_eq_iff)
  show ?thesis
    using ob(1,4) ok read by (intro exI [of _ st']) (auto simp: st'_def signal_change_def set_value_def slot_text_def)
qed

theorem setbit_getbit_witness:
  "\<exists>st'. setbitCommand plain_allocator 536870912 (map text_arg [[], [107], [55], [49]]) (\<lparr>keyspace = (\<lambda>k. None), dirty = 0, modified = [], events = []\<rparr>) =
       Some (st', [Reply_int 0]) \<and> length (slot_text (keyspace st' [107])) = 1 \<and>
     getbitCommand plain_allocator 536870912 (map text_arg [[], [107], [55]]) st' = Some (st', [Reply_int 1])"
proof -
  let ?st = "\<lparr>keyspace = (\<lambda>k. None), dirty = 0, modified = [], events = []\<rparr> :: cmd_state"
  have a: "args_ok (map text_arg [[], [107], [55], [49]])" "args_ok (map text_arg [[], [107], [55]])" by (simp_all add: args_ok_def)
  have d: "dec_int (sint (7 :: s64)) = [55]" "dec_int (of_bool True) = [49]" by (code_simp, code_simp)
  have s: "slot_ok (keyspace ?st [107])" "slot_text (keyspace ?st [107]) = []" by (simp_all add: slot_ok_def slot_text_def)
  have o: "0 \<le> sint (7 :: s64)" "sint (7 :: s64) div 8 < 536870912" "(536870912 :: int) \<le> 2 ^ 59" by simp_all
  obtain st' where st': "setbitCommand plain_allocator 536870912 (map text_arg [[], [107], [55], [49]]) ?st = Some (st', [Reply_int 0])"
    "length (slot_text (keyspace st' [107])) = 1"
    "\<forall>B argv' off'. args_ok argv' \<longrightarrow> 3 \<le> length argv' \<longrightarrow> obj_str (argv' ! 1) = [107] \<longrightarrow> obj_str (argv' ! 2) = dec_int (sint off') \<longrightarrow>
       0 \<le> sint off' \<longrightarrow> sint off' div 8 < 536870912 \<longrightarrow>
       getbitCommand B 536870912 argv' st' = Some (st', [Reply_int (of_bool (if off' = (7 :: s64) then True else text_bit [] (unat off')))])"
    using setbit_getbit [OF a(1) _ _ o, where v = True and k = "[107]" and st = ?st and A = plain_allocator] s d
    by (auto simp: text_bit_def)
  have "getbitCommand plain_allocator 536870912 (map text_arg [[], [107], [55]]) st' = Some (st', [Reply_int 1])"
    using st'(3) [rule_format, OF a(2), of "7 :: s64"] d by simp
  then show ?thesis using st' by blast
qed

section \<open>BITOP\<close>

text \<open>The bits of a word and of its bytes in memory.\<close>

lemma bit_le_nat: "bit (le_nat bs) i \<longleftrightarrow> i div 8 < length bs \<and> bit (bs ! (i div 8)) (i mod 8)"
proof (induction bs arbitrary: i)
  case (Cons b bs)
  have "le_nat (b # bs) = unat b + push_bit 8 (le_nat bs)" by (simp add: push_bit_eq_mult)
  also have "\<dots> = unat b OR push_bit 8 (le_nat bs)"
    by (rule disjunctive_add) (auto simp: bit_simps dest: bit_imp_le_length)
  finally have *: "bit (le_nat (b # bs)) i \<longleftrightarrow> bit b i \<or> 8 \<le> i \<and> bit (le_nat bs) (i - 8)" by (simp add: bit_simps)
  show ?case
  proof (cases "i < 8")
    case True
    then show ?thesis by (simp add: * del: le_nat.simps)
  next
    case False
    then have "\<not> bit b i" "i div 8 = Suc ((i - 8) div 8)" "i mod 8 = (i - 8) mod 8"
      by (auto dest: bit_imp_le_length simp: div_if mod_if)
    with False show ?thesis by (simp add: * Cons.IH del: le_nat.simps)
  qed
qed simp

lemma bit_le_bytes: "k < n \<Longrightarrow> bit (le_bytes n v ! k) i \<longleftrightarrow> i < 8 \<and> bit v (8 * k + i)"
proof (induction n arbitrary: k v)
  case (Suc n)
  show ?case
  proof (cases k)
    case 0
    then show ?thesis by (simp add: bit_simps)
  next
    case (Suc m)
    have "v div 256 = drop_bit 8 v" by (simp add: drop_bit_eq_div)
    with Suc Suc.IH [of m "v div 256"] Suc.prems show ?thesis by (simp add: bit_simps add.commute add.left_commute)
  qed
qed simp

lemma bit_bit_op: "bit (bit_op op x y) i \<longleftrightarrow> i < LENGTH('a) \<and>
    (case op of BITOP_AND \<Rightarrow> bit x i \<and> bit y i | BITOP_OR \<Rightarrow> bit x i \<or> bit y i | BITOP_XOR \<Rightarrow> bit x i \<noteq> bit y i | BITOP_NOT \<Rightarrow> \<not> bit x i)"
  for x y :: "'a::len word"
  by (cases op) (auto simp: bit_op_def bit_simps dest: bit_imp_le_length)

lemma word_op_bytes:
  assumes "length x = 8" "length y = 8"
  shows "host_store be 8 (bit_op op (host_load be x :: u64) (host_load be y)) = map2 (bit_op op) x y"
proof -
  have core: "le_bytes 8 (unat (bit_op op (word_of_nat (le_nat a) :: u64) (word_of_nat (le_nat b)))) = map2 (bit_op op) a b"
    if "length a = 8" "length b = 8" for a b
  proof (rule nth_equalityI)
    fix k assume "k < length (le_bytes 8 (unat (bit_op op (word_of_nat (le_nat a) :: u64) (word_of_nat (le_nat b)))))"
    then have k: "k < 8" by simp
    have "bit (le_bytes 8 (unat (bit_op op (word_of_nat (le_nat a) :: u64) (word_of_nat (le_nat b)))) ! k) i =
        bit (map2 (bit_op op) a b ! k) i" for i
    proof (cases "i < 8")
      case True
      then have "(8 * k + i) div 8 = k" "(8 * k + i) mod 8 = i" "8 * k + i < 64" using k by auto
      then show ?thesis using True k that by (cases op) (simp_all add: bit_le_bytes bit_simps bit_bit_op bit_le_nat)
    qed (use k that in \<open>simp_all add: bit_le_bytes bit_bit_op\<close>)
    then show "le_bytes 8 (unat (bit_op op (word_of_nat (le_nat a) :: u64) (word_of_nat (le_nat b)))) ! k = map2 (bit_op op) a b ! k"
      by (rule bit_eqI)
  qed (use that in simp)
  show ?thesis using core [of x y] core [of "rev x" "rev y"] assms
    by (simp add: host_store_def host_load_def rev_map [symmetric] zip_rev)
qed

text \<open>A function applied to the bytes of a window of the result.\<close>

definition seg :: "(nat \<Rightarrow> byte \<Rightarrow> byte) \<Rightarrow> nat \<Rightarrow> nat \<Rightarrow> bytes \<Rightarrow> bytes" where
  "seg f j n m = map (\<lambda>i. if j \<le> i \<and> i < j + n then f i (m ! i) else m ! i) [0..<length m]"

lemma length_seg [simp]: "length (seg f j n m) = length m"
  by (simp add: seg_def)

lemma nth_seg [simp]: "i < length m \<Longrightarrow> seg f j n m ! i = (if j \<le> i \<and> i < j + n then f i (m ! i) else m ! i)"
  by (simp add: seg_def)

lemma seg_append: "seg f (j + n) n' (seg f j n m) = seg f j (n + n') m"
  by (rule nth_equalityI) auto

lemma seg_seg: "seg g j n (seg f j n m) = seg (\<lambda>i x. g i (f i x)) j n m"
  by (rule nth_equalityI) auto

lemma seg_0 [simp]: "seg f j 0 m = m"
  by (rule nth_equalityI) auto

lemma seg_cong: "(\<And>i x. j \<le> i \<Longrightarrow> i < j + n \<Longrightarrow> f i x = g i x) \<Longrightarrow> seg f j n m = seg g j n m"
  by (rule nth_equalityI) auto

lemma word_op_eq:
  assumes "j + 8 \<le> length res" "op = BITOP_NOT \<or> j + 8 \<le> length s"
  shows "word_op be op s j res = Some (seg (\<lambda>i x. bit_op op x (s ! i)) j 8 res)"
proof -
  define y where "y = (if op = BITOP_NOT then take 8 (drop j res) else take 8 (drop j s))"
  let ?x = "take 8 (drop j res)"
  have len: "length ?x = 8" "length y = 8" using assms by (auto simp: y_def)
  have n: "map2 (bit_op op) ?x y ! (i - j) = bit_op op (res ! i) (s ! i)" if "j \<le> i" "i < j + 8" for i
    using that assms len by (cases op) (auto simp: y_def bit_op_def)
  have "word_op be op s j res = mem_write res j (map2 (bit_op op) ?x y)"
    using assms by (auto simp: word_op_def mem_read_eq y_def word_op_bytes)
  also have "\<dots> = Some (take j res @ map2 (bit_op op) ?x y @ drop (j + 8) res)"
    using len assms(1) by (simp add: mem_write_eq)
  also have "take j res @ map2 (bit_op op) ?x y @ drop (j + 8) res = seg (\<lambda>i x. bit_op op x (s ! i)) j 8 res"
    using assms(1) len n by (intro nth_equalityI) (auto simp: nth_append)
  finally show ?thesis .
qed

lemma quad_op_eq:
  assumes "j + 32 \<le> length res" "op = BITOP_NOT \<or> j + 32 \<le> length s"
  shows "quad_op be op s j res = Some (seg (\<lambda>i x. bit_op op x (s ! i)) j 32 res)"
proof -
  let ?f = "\<lambda>i x. bit_op op x (s ! i)"
  have w: "word_op be op s (j + k) r = Some (seg ?f (j + k) 8 r)" if "k + 8 \<le> 32" "length r = length res" for k r
    using word_op_eq [of "j + k" r op s] assms that by auto
  have "quad_op be op s j res = Some (seg ?f (j + 24) 8 (seg ?f (j + 16) 8 (seg ?f (j + 8) 8 (seg ?f j 8 res))))"
    using w [of 0] by (simp add: quad_op_def w)
  then show ?thesis using seg_append [of ?f j 8 8 res] seg_append [of ?f j 16 8 res] seg_append [of ?f j 24 8 res] by simp
qed

text \<open>What the sources of a command must satisfy.\<close>

definition src_ok :: "bit_src \<Rightarrow> bool" where
  "src_ok s \<longleftrightarrow> src_len s \<le> length (src s)"

definition src_text :: "bit_src \<Rightarrow> bytes" where
  "src_text s = take (src_len s) (src s)"

lemma quad_keys_eq:
  assumes "j + 32 \<le> length res" "op \<noteq> BITOP_NOT" "\<forall>s\<in>set srcs. j + 32 \<le> length (src s)"
  shows "quad_keys be op srcs j res = Some (seg (\<lambda>i x. foldl (\<lambda>x s. bit_op op x (src s ! i)) x srcs) j 32 res)"
  using assms by (induction srcs arbitrary: res) (simp_all add: quad_op_eq seg_seg seg_cong seg_def map_nth)

text \<open>The byte at a position of a zero-padded text, and the result of an operation there.\<close>

definition pad :: "bytes \<Rightarrow> nat \<Rightarrow> byte" where
  "pad t i = (if i < length t then t ! i else 0)"

definition bitop_byte :: "bitop \<Rightarrow> bytes list \<Rightarrow> nat \<Rightarrow> byte" where
  "bitop_byte op ts i =
     (if op = BITOP_NOT then NOT (pad (hd ts) i) else foldl (\<lambda>x t. bit_op op x (pad t i)) (pad (hd ts) i) (tl ts))"

definition fast_op :: "bitop \<Rightarrow> bit_src list \<Rightarrow> nat \<Rightarrow> byte \<Rightarrow> byte" where
  "fast_op op srcs i x = (if op = BITOP_NOT then NOT x else foldl (\<lambda>x s. bit_op op x (src s ! i)) x (tl srcs))"

lemma bitop_fast_eq:
  assumes "j + n \<le> length res" "\<forall>s\<in>set (tl srcs). j + n \<le> length (src s)"
  shows "bitop_fast be op srcs res j n = Some (seg (fast_op op srcs) j (32 * (n div 32)) res, j + 32 * (n div 32))"
  using assms
proof (induction be op srcs res j n rule: bitop_fast.induct)
  case (1 be op srcs res j n)
  show ?case
  proof (cases "32 \<le> n")
    case True
    let ?r = "seg (fast_op op srcs) j 32 res"
    have step: "(if op = BITOP_NOT then quad_op be op [] j res else quad_keys be op (tl srcs) j res) = Some ?r"
    proof (cases "op = BITOP_NOT")
      case nt: True
      then show ?thesis using quad_op_eq [of j res op "[]" be] True "1.prems"(1) by (auto simp: bit_op_def fast_op_def intro!: seg_cong)
    next
      case nt: False
      have "\<forall>s\<in>set (tl srcs). j + 32 \<le> length (src s)" using True "1.prems"(2) by fastforce
      then show ?thesis using nt quad_keys_eq [of j res op "tl srcs" be] True "1.prems"(1) by (auto simp: fast_op_def intro!: seg_cong)
    qed
    have d: "n div 32 = Suc ((n - 32) div 32)" using True by (simp add: div_if)
    have "\<forall>s\<in>set (tl srcs). j + 32 + (n - 32) \<le> length (src s)" "j + 32 + (n - 32) \<le> length ?r" using True "1.prems" by fastforce+
    then have "bitop_fast be op srcs ?r (j + 32) (n - 32) =
        Some (seg (fast_op op srcs) (j + 32) (32 * ((n - 32) div 32)) ?r, j + 32 + 32 * ((n - 32) div 32))"
      using "1.IH" [OF True step] by blast
    then show ?thesis using True step seg_append [of "fast_op op srcs" j 32 "32 * ((n - 32) div 32)" res]
      by (simp add: bitop_fast.simps [of be op srcs res j n] d)
  qed (simp add: bitop_fast.simps)
qed

lemma src_byte_eq: "src_ok s \<Longrightarrow> src_byte s i = Some (pad (src_text s) i)"
  by (simp add: src_byte_def src_ok_def pad_def src_text_def mem_get_eq)

lemma foldl_absorb: "(\<And>t. f z t = z) \<Longrightarrow> foldl f z ts = z"
  by (induction ts) auto

lemma slow_keys_eq:
  assumes "\<forall>s\<in>set srcs. src_ok s"
  shows "slow_keys op srcs i out = Some (if op = BITOP_NOT then out else foldl (\<lambda>x s. bit_op op x (pad (src_text s) i)) out srcs)"
  using assms
proof (induction srcs arbitrary: out)
  case (Cons s srcs)
  have "foldl (\<lambda>x s. bit_op BITOP_AND x (pad (src_text s) i)) 0 srcs = 0"
    "foldl (\<lambda>x s. bit_op BITOP_OR x (pad (src_text s) i)) 255 srcs = 255"
  proof -
    have "(- 1 :: byte) = 255" by simp
    then have "255 OR b = (255 :: byte)" for b by (metis bit.disj_one_left)
    then show "foldl (\<lambda>x s. bit_op BITOP_OR x (pad (src_text s) i)) 255 srcs = 255" by (intro foldl_absorb) (simp add: bit_op_def)
  qed (rule foldl_absorb, simp add: bit_op_def)
  then show ?case using Cons by (cases op) (simp_all add: src_byte_eq bit_op_def Let_def)
qed simp

lemma foldl_map: "foldl f a (map g xs) = foldl (\<lambda>x y. f x (g y)) a xs"
  by (induction xs arbitrary: a) auto

lemma bitop_slow_eq:
  assumes "maxlen \<le> length res" "srcs \<noteq> []" "\<forall>s\<in>set srcs. src_ok s" "j \<le> maxlen"
  shows "bitop_slow op srcs res j maxlen = Some (seg (\<lambda>i x. bitop_byte op (map src_text srcs) i) j (maxlen - j) res)"
  using assms
proof (induction op srcs res j maxlen rule: bitop_slow.induct)
  case (1 op srcs res j maxlen)
  let ?f = "\<lambda>i x. bitop_byte op (map src_text srcs) i"
  obtain s ss where ss: "srcs = s # ss" using "1.prems"(2) by (cases srcs) auto
  show ?case
  proof (cases "j < maxlen")
    case True
    let ?out = "if op = BITOP_NOT then NOT (pad (src_text s) j) else pad (src_text s) j"
    have g: "mem_get srcs 0 = Some s" "src_byte s j = Some (pad (src_text s) j)"
      using ss "1.prems"(3) by (simp_all add: mem_get_eq src_byte_eq)
    have k: "slow_keys op (tl srcs) j ?out = Some (?f j undefined)"
      using ss "1.prems"(3) by (simp add: slow_keys_eq bitop_byte_def foldl_map)
    have p: "mem_put res j (?f j undefined) = Some (res[j := ?f j undefined])" using True "1.prems"(1) by (simp add: mem_put_eq)
    have one: "res[j := ?f j undefined] = seg ?f j 1 res" by (intro nth_equalityI) (auto simp: nth_list_update less_Suc_eq)
    have "bitop_slow op srcs (seg ?f j 1 res) (j + 1) maxlen = Some (seg ?f (j + 1) (maxlen - (j + 1)) (seg ?f j 1 res))"
      using "1.IH" [OF True g refl k p] "1.prems" True by (simp add: one)
    then show ?thesis using True g k p seg_append [of ?f j 1 "maxlen - (j + 1)" res]
      by (simp add: bitop_slow.simps [of op srcs res j] one Let_def Suc_diff_Suc)
  qed (use "1.prems" in \<open>simp add: bitop_slow.simps\<close>)
qed

lemma bitop_compute_eq:
  assumes "maxlen \<le> length res" "srcs \<noteq> []" "\<forall>s\<in>set srcs. src_ok s \<and> minlen \<le> src_len s" "minlen \<le> maxlen"
  shows "bitop_compute aligned be op srcs minlen maxlen res = Some (seg (\<lambda>i x. bitop_byte op (map src_text srcs) i) 0 maxlen res)"
proof (cases "\<not> aligned \<and> 32 \<le> minlen \<and> length srcs \<le> 16")
  case True
  let ?f = "\<lambda>i x. bitop_byte op (map src_text srcs) i" and ?j = "32 * (minlen div 32)"
  obtain s ss where ss: "srcs = s # ss" using assms(2) by (cases srcs) auto
  have l: "minlen \<le> length (src s)" "minlen \<le> length (src_text s)" using assms(3) ss by (auto simp: src_ok_def src_text_def)
  have tl: "\<forall>t\<in>set (tl srcs). 0 + minlen \<le> length (src t)" using assms(3) ss by (fastforce simp: src_ok_def)
  define m where "m = take minlen (src s) @ drop minlen res"
  have m: "length m = length res" "\<And>i. i < minlen \<Longrightarrow> m ! i = pad (src_text s) i"
    using assms l by (auto simp: m_def nth_append pad_def src_text_def)
  have j: "?j \<le> minlen" by (simp add: algebra_simps)
  have "fast_op op srcs i (pad (src_text s) i) = bitop_byte op (map src_text srcs) i" if "i < minlen" for i
  proof -
    have "src t ! i = pad (src_text t) i" if "t \<in> set ss" for t
      using assms(3) ss that \<open>i < minlen\<close> by (fastforce simp: pad_def src_text_def src_ok_def)
    then have "foldl (\<lambda>x s. bit_op op x (src s ! i)) a ss = foldl (\<lambda>x s. bit_op op x (pad (src_text s) i)) a ss" for a
      by (intro foldl_cong) auto
    then show ?thesis by (simp add: fast_op_def bitop_byte_def ss foldl_map)
  qed
  then have "seg (fast_op op srcs) 0 ?j m = seg ?f 0 ?j m" using m j assms by (intro nth_equalityI) auto
  then have "seg ?f ?j (maxlen - ?j) (seg (fast_op op srcs) 0 ?j m) = seg ?f 0 maxlen m"
    using seg_append [of ?f 0 ?j "maxlen - ?j" m] j assms(4) by simp
  also have "\<dots> = seg ?f 0 maxlen res" using m(1) assms(4) by (intro nth_equalityI) (auto simp: m_def nth_append)
  finally have slow: "bitop_slow op srcs (seg (fast_op op srcs) 0 ?j m) ?j maxlen = Some (seg ?f 0 maxlen res)"
    using bitop_slow_eq [of maxlen "seg (fast_op op srcs) 0 ?j m" srcs ?j op] m(1) assms j by simp
  have fast: "bitop_fast be op srcs m 0 minlen = Some (seg (fast_op op srcs) 0 ?j m, ?j)"
    using bitop_fast_eq [of 0 minlen m srcs be op] tl m(1) assms by simp
  have "mem_get srcs 0 = Some s" "mem_read (src s) 0 minlen = Some (take minlen (src s))" "mem_write res 0 (take minlen (src s)) = Some m"
    using ss l assms by (simp_all add: mem_get_eq mem_read_eq mem_write_eq m_def min_absorb2)
  then show ?thesis using True fast slow by (simp add: bitop_compute_def)
qed (use assms in \<open>auto simp: bitop_compute_def bitop_slow_eq\<close>)

lemma slot_text_length: "slot_ok v \<Longrightarrow> length (slot_text v) < 2 ^ 62"
  by (auto simp: slot_ok_def slot_text_def split: option.splits db_value.splits)

text \<open>One source key: what the loop body of BITOP stores for it.\<close>

definition src_of :: "db_value option \<Rightarrow> bit_src \<Rightarrow> bool" where
  "src_of v s \<longleftrightarrow> src_ok s \<and> src_text s = slot_text v \<and> (\<forall>ob. src_obj s = Some ob \<longrightarrow> obj_ok ob)"

lemma src_of_len: "src_of v s \<Longrightarrow> src_len s = length (slot_text v)"
  by (metis src_of_def src_ok_def src_text_def length_take min_absorb2)

lemma bitop_sources_eq:
  assumes "args_ok args" "\<forall>a\<in>set args. slot_ok (keyspace st (obj_str a))" "j = 0 \<Longrightarrow> args \<noteq> []"
  shows "\<exists>srcs mn mx. bitop_sources A st j args minlen maxlen = Some (Inr (srcs, mn, mx)) \<and>
    list_all2 src_of (map (\<lambda>a. keyspace st (obj_str a)) args) srcs \<and>
    mx = foldl max maxlen (map (\<lambda>a. length (slot_text (keyspace st (obj_str a)))) args) \<and>
    (j \<noteq> 0 \<longrightarrow> mn \<le> minlen) \<and> (\<forall>s\<in>set srcs. mn \<le> src_len s)"
  using assms
proof (induction args arbitrary: j minlen maxlen)
  case (Cons a args)
  have a: "obj_ok a" "sdsEncodedObject a" and args: "args_ok args" using Cons.prems(1) by (auto simp: args_ok_def)
  from a obtain k where k: "get_sds a = Some k" "sds_str k = obj_str a" by (cases rule: obj_cases) auto
  let ?v = "keyspace st (obj_str a)"
  have IH: "\<exists>srcs mn mx. bitop_sources A st (j + 1) args m M = Some (Inr (srcs, mn, mx)) \<and>
      list_all2 src_of (map (\<lambda>a. keyspace st (obj_str a)) args) srcs \<and>
      mx = foldl max M (map (\<lambda>a. length (slot_text (keyspace st (obj_str a)))) args) \<and> mn \<le> m \<and> (\<forall>s\<in>set srcs. mn \<le> src_len s)" for m M
    using Cons.IH [OF args, of "j + 1" m M] Cons.prems(2) by simp
  show ?case
  proof (cases ?v)
    case None
    have "src_of None \<lparr>src_obj = None, src = [], src_len = 0\<rparr>" "slot_text None = []"
      by (simp_all add: slot_text_def src_of_def src_ok_def src_text_def)
    then show ?thesis using IH [of 0 maxlen] k None by auto
  next
    case (Some v)
    then obtain ob where v: "v = String_value ob" "obj_ok ob" "refcount ob \<noteq> OBJ_STATIC_REFCOUNT" "length (obj_str ob) < 2 ^ 62"
      using Cons.prems(2) by (auto simp: slot_ok_def split: db_value.splits)
    then obtain d where d: "getDecodedObject A ob = Some d" "obj_ok d" "obj_str d = obj_str ob" "sdsEncodedObject d"
      using getDecodedObject_ok [of ob A] by auto
    from d(2,4) obtain s where s: "get_sds d = Some s" "sds_ok s" "sds_str s = obj_str ob" using d(3) by (cases rule: obj_cases) auto
    let ?m = "if j = 0 \<or> sdslen s < minlen then sdslen s else minlen" and ?M = "if maxlen < sdslen s then sdslen s else maxlen"
    have l: "sdslen s = length (obj_str ob)" "?M = max maxlen (length (obj_str ob))"
      using length_sds_str [OF s(2)] s(3) by (simp_all add: sdslen_def max_def)
    have o: "src_of ?v \<lparr>src_obj = Some d, src = sds_buf s, src_len = sdslen s\<rparr>"
      using s d(2) Some v(1) by (simp add: src_of_def src_ok_def src_text_def slot_text_def sds_ok_def sdslen_def sds_str_def)
    obtain srcs mn mx where r: "bitop_sources A st (j + 1) args ?m ?M = Some (Inr (srcs, mn, mx))"
      "list_all2 src_of (map (\<lambda>a. keyspace st (obj_str a)) args) srcs"
      "mx = foldl max ?M (map (\<lambda>a. length (slot_text (keyspace st (obj_str a)))) args)" "mn \<le> ?m" "\<forall>s\<in>set srcs. mn \<le> src_len s"
      using IH [of ?m ?M] by auto
    have "bitop_sources A st j (a # args) minlen maxlen =
        Some (Inr (\<lparr>src_obj = Some d, src = sds_buf s, src_len = sdslen s\<rparr> # srcs, mn, mx))"
      using k Some v(1) d s r(1) by (simp add: Let_def)
    then show ?thesis using o r(2-5) l Some v(1) by (auto simp: slot_text_def split: if_splits)
  qed
qed simp

lemma release_ok: "\<forall>s\<in>set srcs. \<forall>ob. src_obj s = Some ob \<longrightarrow> obj_ok ob \<Longrightarrow> release_sources srcs = Some ()"
proof (induction srcs)
  case (Cons s srcs)
  have "\<exists>r. decrRefCount ob = Some r" if "src_obj s = Some ob" for ob
    using Cons.prems that by (auto simp: decrRefCount_def obj_ok_def)
  then show ?case using Cons by (fastforce split: option.split)
qed simp

text \<open>The operation seen bit by bit.\<close>

definition bitop_bit :: "bitop \<Rightarrow> bool list \<Rightarrow> bool" where
  "bitop_bit op bs = (case op of
       BITOP_AND \<Rightarrow> (\<forall>b\<in>set bs. b)
     | BITOP_OR \<Rightarrow> (\<exists>b\<in>set bs. b)
     | BITOP_XOR \<Rightarrow> odd (length (filter id bs))
     | BITOP_NOT \<Rightarrow> \<not> hd bs)"

lemma bit_pad: "bit (pad t (i div 8)) (7 - i mod 8) \<longleftrightarrow> text_bit t i"
proof -
  have "i div 8 < length t \<longleftrightarrow> i < 8 * length t" by linarith
  then show ?thesis by (auto simp: pad_def text_bit_def bit_at_def)
qed

lemma bit_foldl_op:
  assumes "op \<noteq> BITOP_NOT" "k < 8"
  shows "bit (foldl (\<lambda>x t. bit_op op x (pad t j)) x ts) k \<longleftrightarrow> bitop_bit op (bit x k # map (\<lambda>t. bit (pad t j) k) ts)"
  using assms by (induction ts arbitrary: x) (cases op; auto simp: bitop_bit_def bit_bit_op)+

lemma bitop_byte_bits:
  assumes "ts \<noteq> []"
  shows "text_bit (map (bitop_byte op ts) [0..<n]) i \<longleftrightarrow> i < 8 * n \<and> bitop_bit op (map (\<lambda>t. text_bit t i) ts)"
proof -
  obtain t ts' where ts: "ts = t # ts'" using assms by (cases ts) auto
  have l: "7 - i mod 8 < 8" "i < 8 * n \<Longrightarrow> i div 8 < n" by linarith+
  then have "text_bit (map (bitop_byte op ts) [0..<n]) i \<longleftrightarrow> i < 8 * n \<and> bit (bitop_byte op ts (i div 8)) (7 - i mod 8)"
    by (auto simp: text_bit_def bit_at_def)
  moreover have "bit (bitop_byte op ts (i div 8)) (7 - i mod 8) \<longleftrightarrow> bitop_bit op (map (\<lambda>t. text_bit t i) ts)"
  proof (cases "op = BITOP_NOT")
    case True
    then show ?thesis using l(1) by (simp add: bitop_byte_def ts bit_not_iff bit_pad bitop_bit_def)
  next
    case False
    then show ?thesis using bit_foldl_op [OF False l(1), of "i div 8" "pad t (i div 8)" ts'] by (simp add: bitop_byte_def ts bit_pad)
  qed
  ultimately show ?thesis by simp
qed

lemma sources_facts:
  assumes "list_all2 src_of vs srcs"
  shows "map src_text srcs = map slot_text vs" "\<forall>s\<in>set srcs. src_ok s \<and> (\<forall>ob. src_obj s = Some ob \<longrightarrow> obj_ok ob)"
    "map src_len srcs = map (\<lambda>v. length (slot_text v)) vs"
  using assms by (induction rule: list_all2_induct) (auto simp: src_of_len, simp_all add: src_of_def)

lemma foldl_max: "m \<le> foldl max (m :: nat) xs" "\<forall>x\<in>set xs. x \<le> foldl max m xs"
  by (induction xs arbitrary: m) (auto intro: order_trans [OF max.cobounded1] order_trans [OF max.cobounded2])

lemma foldl_max_less: "\<forall>x\<in>set xs. x < b \<Longrightarrow> m < b \<Longrightarrow> foldl max (m :: nat) xs < b"
  by (induction xs arbitrary: m) auto

lemma sds_result:
  assumes "sds_ok s" "hdr_len s = n"
  shows "sds_ok (s\<lparr>sds_buf := seg (\<lambda>i x. f i) 0 n (sds_buf s)\<rparr>)" "sds_str (s\<lparr>sds_buf := seg (\<lambda>i x. f i) 0 n (sds_buf s)\<rparr>) = map f [0..<n]"
proof -
  have n: "n < length (sds_buf s)" using assms by (simp add: sds_ok_def)
  then show "sds_ok (s\<lparr>sds_buf := seg (\<lambda>i x. f i) 0 n (sds_buf s)\<rparr>)" using assms by (auto simp: sds_ok_def sdsalloc_def split: if_splits)
  show "sds_str (s\<lparr>sds_buf := seg (\<lambda>i x. f i) 0 n (sds_buf s)\<rparr>) = map f [0..<n]"
    using n assms(2) by (intro nth_equalityI) (simp_all add: sds_str_def)
qed

definition bitop_result :: "bitop \<Rightarrow> bytes list \<Rightarrow> bytes" where
  "bitop_result op ts = map (bitop_byte op ts) [0..<foldl max 0 (map length ts)]"

lemma bitopCommand_eq:
  assumes "args_ok argv" "4 \<le> length argv" "parse_bitop argv = Some (Some op)" "op = BITOP_NOT \<Longrightarrow> length argv = 4"
    "\<forall>a\<in>set (drop 3 argv). slot_ok (keyspace st (obj_str a))"
  defines "dest \<equiv> obj_str (argv ! 2)" and "res \<equiv> bitop_result op (map (\<lambda>a. slot_text (keyspace st (obj_str a))) (drop 3 argv))"
  shows "\<exists>st'. bitopCommand aligned be A argv st = Some (st', [Reply_int (int (length res))]) \<and>
    slot_ok (keyspace st' dest) \<and> slot_text (keyspace st' dest) = res \<and> (keyspace st' dest = None \<longleftrightarrow> res = []) \<and>
    (\<forall>k. k \<noteq> dest \<longrightarrow> keyspace st' k = keyspace st k)"
proof -
  let ?vs = "map (\<lambda>a. keyspace st (obj_str a)) (drop 3 argv)"
  have ts: "map (\<lambda>a. slot_text (keyspace st (obj_str a))) (drop 3 argv) = map slot_text ?vs" by simp
  have ne: "drop 3 argv \<noteq> []" "args_ok (drop 3 argv)" using assms(1,2) by (auto simp: args_ok_def dest: in_set_dropD)
  obtain srcs mn mx where s: "bitop_sources A st 0 (drop 3 argv) 0 0 = Some (Inr (srcs, mn, mx))" "list_all2 src_of ?vs srcs"
    "mx = foldl max 0 (map (\<lambda>a. length (slot_text (keyspace st (obj_str a)))) (drop 3 argv))" "\<forall>s\<in>set srcs. mn \<le> src_len s"
    using bitop_sources_eq [OF ne(2) assms(5), of 0 A 0 0] ne(1) by auto
  note sf = sources_facts [OF s(2)]
  have mx: "mx = foldl max 0 (map src_len srcs)" "mx = length res" unfolding s(3) sf(3) res_def bitop_result_def by (simp_all add: comp_def)
  have "srcs \<noteq> []" using s(2) ne(1) by auto
  then obtain s0 where s0: "s0 \<in> set srcs" by (cases srcs) auto
  have mn: "mn \<le> mx" using foldl_max(2) [of "map src_len srcs" 0] s(4) s0 unfolding mx(1) by fastforce
  have lt: "mx < 2 ^ 62" unfolding s(3) by (rule foldl_max_less) (use assms(5) slot_text_length in auto)
  have rel: "release_sources srcs = Some ()" using release_ok sf(2) by blast
  have key: "arg_key argv 2 = Some dest" using arg_key_ok [OF assms(1), of 2] assms(2) by (simp add: dest_def)
  have run: "bitopCommand aligned be A argv st = do {
      target \<leftarrow> arg_key argv 2;
      if mx \<noteq> 0 then do {
        s \<leftarrow> sdsnewlen A Init_NULL mx;
        buf \<leftarrow> bitop_compute aligned be op srcs mn mx (sds_buf s);
        _ \<leftarrow> release_sources srcs;
        let st = set_value target (createObject (Ptr_sds (s\<lparr>sds_buf := buf\<rparr>))) st;
        Some (signal_change target ''set'' 1 st, [Reply_int (int mx)]) }
      else do {
        _ \<leftarrow> release_sources srcs;
        if keyspace st target \<noteq> None then
          Some (signal_change target ''del'' 1 (st\<lparr>keyspace := (keyspace st)(target := None)\<rparr>), [Reply_int (int mx)])
        else Some (st, [Reply_int (int mx)]) } }"
    unfolding bitopCommand_def assms(3) bind.bind_lunit option.case s(1) sum.case prod.case using assms(4) by auto
  show ?thesis
  proof (cases "mx = 0")
    case True
    then show ?thesis using mx(2) unfolding run key rel by (auto simp: signal_change_def slot_ok_def slot_text_def)
  next
    case False
    from lt obtain d where d: "sdsnewlen A Init_NULL mx = Some d" "sds_ok d" "sds_str d = replicate mx 0"
      using sdsnewlen_zero [of mx A] by auto
    then have len: "hdr_len d = mx" "mx \<le> length (sds_buf d)" using length_sds_str [OF d(2)] by (auto simp: sds_ok_def)
    define buf where "buf = seg (\<lambda>i x. bitop_byte op (map src_text srcs) i) 0 mx (sds_buf d)"
    have c: "bitop_compute aligned be op srcs mn mx (sds_buf d) = Some buf"
      unfolding buf_def by (rule bitop_compute_eq) (use len \<open>srcs \<noteq> []\<close> sf(2) s(4) mn in auto)
    have r: "sds_ok (d\<lparr>sds_buf := buf\<rparr>)" "sds_str (d\<lparr>sds_buf := buf\<rparr>) = res"
      unfolding buf_def using sds_result [OF d(2) len(1)] mx(2) by (simp_all add: res_def bitop_result_def sf(1) comp_def)
    then show ?thesis using False mx(2) lt unfolding run key rel bind.bind_lunit d(1) c
      by (auto simp: signal_change_def set_value_def slot_ok_def slot_text_def createObject_def obj_ok_def obj_str_def
          OBJ_STATIC_REFCOUNT_def OBJ_SHARED_REFCOUNT_def)
  qed
qed

text \<open>C39: BITOP computes the bitwise operation of the source strings, on every host and with every build option. Each source
  counts as padded with zero bits to the length of the longest; the bit \<open>i\<close> of the result is the conjunction, the
  disjunction or the parity of the bits \<open>i\<close> of all sources, or the negation of the bit of the only source of NOT.
  The word-at-a-time path and the early exits of the byte path do not show. The reply is the length of the result, the
  result is stored under the destination key, which is removed if the result is empty, and no other key changes.\<close>

theorem bitop_correct:
  assumes "args_ok argv" "4 \<le> length argv" "parse_bitop argv = Some (Some op)" "op = BITOP_NOT \<longrightarrow> length argv = 4"
    "\<forall>a\<in>set (drop 3 argv). slot_ok (keyspace st (obj_str a))"
  defines "dest \<equiv> obj_str (argv ! 2)" and "ts \<equiv> map (\<lambda>a. slot_text (keyspace st (obj_str a))) (drop 3 argv)"
  shows "\<exists>st' n. bitopCommand aligned be A argv st = Some (st', [Reply_int (int n)]) \<and> n = Max (length ` set ts) \<and>
    length (slot_text (keyspace st' dest)) = n \<and>
    (\<forall>i < 8 * n. text_bit (slot_text (keyspace st' dest)) i = bitop_bit op (map (\<lambda>t. text_bit t i) ts)) \<and>
    slot_ok (keyspace st' dest) \<and> (keyspace st' dest = None \<longleftrightarrow> n = 0) \<and> (\<forall>k. k \<noteq> dest \<longrightarrow> keyspace st' k = keyspace st k)"
proof -
  have ne: "ts \<noteq> []" using assms(2) by (simp add: ts_def)
  have "foldl max 0 (map length ts) = Max (length ` set ts)"
  proof -
    obtain t ts' where t: "ts = t # ts'" using ne by (cases ts) auto
    have "foldl max 0 (map length ts) = fold max (map length ts') (length t)"
      by (simp add: t foldl_conv_fold max.commute)
    also have "\<dots> = Max (set (map length ts))" by (simp only: t list.map Max.set_eq_fold)
    finally show ?thesis by simp
  qed
  then have l: "length (bitop_result op ts) = Max (length ` set ts)" by (simp add: bitop_result_def)
  have "text_bit (bitop_result op ts) i = bitop_bit op (map (\<lambda>t. text_bit t i) ts)" if "i < 8 * Max (length ` set ts)" for i
    using that l bitop_byte_bits [OF ne, of op] by (simp add: bitop_result_def)
  then show ?thesis using bitopCommand_eq [OF assms(1-3) _ assms(5), of aligned be A] assms(4) l
    unfolding dest_def [symmetric] ts_def [symmetric] by (metis length_0_conv)
qed

theorem bitop_correct_witness:
  "\<exists>st'. bitopCommand False False plain_allocator (map text_arg [[], [120, 111, 114], [100], [97], [98]])
      \<lparr>keyspace = [[97] \<mapsto> String_value (text_arg [5, 9]), [98] \<mapsto> String_value (text_arg [3])], dirty = 0, modified = [], events = []\<rparr> =
      Some (st', [Reply_int 2])"
proof -
  let ?argv = "map text_arg [[], [120, 111, 114], [100], [97], [98]]"
  let ?st = "\<lparr>keyspace = [[97] \<mapsto> String_value (text_arg [5, 9]), [98] \<mapsto> String_value (text_arg [3])], dirty = 0, modified = [], events = []\<rparr> :: cmd_state"
  have "parse_bitop ?argv = Some (Some BITOP_XOR)" by code_simp
  moreover have "args_ok ?argv" by (simp add: args_ok_def)
  moreover have "\<forall>a\<in>set (drop 3 ?argv). slot_ok (keyspace ?st (obj_str a))"
    by (simp add: slot_ok_def) (simp add: text_arg_def OBJ_STATIC_REFCOUNT_def OBJ_SHARED_REFCOUNT_def)
  ultimately show ?thesis using bitop_correct [of ?argv BITOP_XOR ?st False False plain_allocator] by (auto simp: slot_text_def)
qed

section \<open>BITFIELD\<close>

text \<open>The meaning of an operation on an unlimited bit map.\<close>

definition field_uint :: "(nat \<Rightarrow> bool) \<Rightarrow> nat \<Rightarrow> nat \<Rightarrow> int" where
  "field_uint m off bits = horner_sum of_bool 2 (map (\<lambda>k. m (off + (bits - Suc k))) [0..<bits])"

definition field_val :: "bitfieldOp \<Rightarrow> (nat \<Rightarrow> bool) \<Rightarrow> int" where
  "field_val op m = (let u = field_uint m (unat (bf_offset op)) (bf_bits op)
     in if bf_sign op then signed_take_bit (bf_bits op - 1) u else u)"

definition put_field :: "bitfieldOp \<Rightarrow> int \<Rightarrow> (nat \<Rightarrow> bool) \<Rightarrow> nat \<Rightarrow> bool" where
  "put_field op v m i =
     (let off = unat (bf_offset op)
      in if off \<le> i \<and> i < off + bf_bits op then bit v (bf_bits op - Suc (i - off)) else m i)"

definition op_lo :: "bitfieldOp \<Rightarrow> int" where
  "op_lo op = (if bf_sign op then - (2 ^ (bf_bits op - 1)) else 0)"

definition op_hi :: "bitfieldOp \<Rightarrow> int" where
  "op_hi op = (if bf_sign op then 2 ^ (bf_bits op - 1) - 1 else 2 ^ bf_bits op - 1)"

definition bf_new :: "bitfieldOp \<Rightarrow> int \<Rightarrow> int option" where
  "bf_new op old = fit (bf_owtype op) (op_lo op) (op_hi op)
     (if bf_opcode op = BITFIELDOP_INCRBY then old + sint (bf_i64 op) else if bf_sign op then sint (bf_i64 op) else uint (bf_i64 op))"

definition bf_step :: "bitfieldOp \<Rightarrow> (nat \<Rightarrow> bool) \<Rightarrow> (nat \<Rightarrow> bool) \<times> reply" where
  "bf_step op m =
     (let old = field_val op m
      in if bf_opcode op = BITFIELDOP_GET then (m, Reply_int old)
         else (case bf_new op old of
             None \<Rightarrow> (m, Reply_null)
           | Some n \<Rightarrow> (put_field op n m, Reply_int (if bf_opcode op = BITFIELDOP_INCRBY then n else old))))"

fun bf_run :: "bitfieldOp list \<Rightarrow> (nat \<Rightarrow> bool) \<Rightarrow> (nat \<Rightarrow> bool) \<times> reply list" where
  "bf_run [] m = (m, [])"
| "bf_run (op # ops) m = (let (m, r) = bf_step op m; (m, rs) = bf_run ops m in (m, r # rs))"

text \<open>The width of an operation, and the restriction on signed SET, whose check goes wrong for very small values.\<close>

definition op_ok :: "bitfieldOp \<Rightarrow> bool" where
  "op_ok op \<longleftrightarrow> 0 < bf_bits op \<and> bf_bits op \<le> (if bf_sign op then 64 else 63) \<and>
     (bf_sign op \<and> bf_opcode op = BITFIELDOP_SET \<longrightarrow> 2 ^ (bf_bits op - 1) - sint (bf_i64 op) \<le> 2 ^ 63)"

lemma field_uint_word:
  assumes "\<And>k. bit w k \<longleftrightarrow> k < bits \<and> m (off + (bits - Suc k))"
  shows "uint (w :: u64) = field_uint m off bits"
proof (rule bit_eqI)
  fix k
  have "bit (uint w) k = bit w k" using bit_imp_le_length [of w k] by (auto simp: bit_uint_iff)
  also have "\<dots> = bit (field_uint m off bits) k" by (auto simp: field_uint_def bit_horner_sum_bit_iff assms)
  finally show "bit (uint w) k = bit (field_uint m off bits) k" .
qed

lemma sint_field_take_bit:
  assumes "0 < bits" "bits \<le> 64"
  shows "sint (signed_take_bit (bits - 1) (w :: u64)) = signed_take_bit (bits - 1) (uint w)"
proof (rule bit_eqI)
  fix k
  have "bit (signed_take_bit (bits - 1) w) j = bit w (min j (bits - 1))" if "j < 64" for j
    using that by (simp add: bit_signed_take_bit_iff min_def)
  moreover have "bit (sint v) k = bit v (min k 63)" for v :: u64
    using bit_imp_le_length [of v k] by (cases "k < 64") (auto simp: bit_sint_iff min_def less_Suc_eq_le)
  moreover have "min (min k 63) (bits - 1) = min k (bits - 1)" using assms by simp
  moreover have "bit (signed_take_bit (bits - 1) (uint w)) k = bit (uint w) (min k (bits - 1))"
    by (simp add: bit_signed_take_bit_iff min_def)
  moreover have "bit (uint w) (min k (bits - 1)) = bit w (min k (bits - 1))"
    using assms by (auto simp: bit_uint_iff min_less_iff_disj)
  ultimately show "bit (sint (signed_take_bit (bits - 1) w)) k = bit (signed_take_bit (bits - 1) (uint w)) k" by simp
qed

lemma field_uint_bounds: "0 \<le> field_uint m off bits" "field_uint m off bits < 2 ^ bits"
  using horner_sum_bound [of "map (\<lambda>k. m (off + (bits - Suc k))) [0..<bits]", where ?'a = int]
  by (simp_all add: field_uint_def horner_sum_nonnegative)

lemma text_bit_take: "n \<le> length p \<Longrightarrow> text_bit (take n p) i \<longleftrightarrow> i < 8 * n \<and> bit_at p i"
  by (auto simp: text_bit_def bit_at_def)

lemma read_field:
  assumes "unat (bf_offset op) + bf_bits op \<le> 8 * length p" "op_ok op"
    "\<And>i. unat (bf_offset op) \<le> i \<Longrightarrow> i < unat (bf_offset op) + bf_bits op \<Longrightarrow> m i = bit_at p i"
  shows "bf_sign op \<Longrightarrow> \<exists>w. getSignedBitfield p (unat (bf_offset op)) (bf_bits op) = Some w \<and> sint w = field_val op m"
    "\<not> bf_sign op \<Longrightarrow> \<exists>w. getUnsignedBitfield p (unat (bf_offset op)) (bf_bits op) = Some w \<and> uint w = field_val op m \<and> uint w < 2 ^ bf_bits op"
proof -
  let ?o = "unat (bf_offset op)" and ?b = "bf_bits op"
  have b: "0 < ?b" "?b \<le> 64" using assms(2) by (auto simp: op_ok_def split: if_splits)
  obtain w where w: "getUnsignedBitfield p ?o ?b = Some w" "\<And>k. bit w k \<longleftrightarrow> k < ?b \<and> bit_at p (?o + (?b - Suc k))"
    using getUnsignedBitfield_eq [OF assms(1) b(2)] by blast
  have "bit w k \<longleftrightarrow> k < ?b \<and> m (?o + (?b - Suc k))" for k
    using assms(3) [of "?o + (?b - Suc k)"] unfolding w(2) [of k] by auto
  then have u: "uint w = field_uint m ?o ?b" by (rule field_uint_word)
  have t: "take_bit ?b w = w" using w(2) by (intro bit_eqI) (auto simp: bit_take_bit_iff)
  show "\<exists>w. getSignedBitfield p ?o ?b = Some w \<and> sint w = field_val op m" if "bf_sign op"
    using getSignedBitfield_eq [OF b w(1) t] sint_field_take_bit [OF b, of w] u that by (simp add: field_val_def Let_def)
  show "\<exists>w. getUnsignedBitfield p ?o ?b = Some w \<and> uint w = field_val op m \<and> uint w < 2 ^ ?b" if "\<not> bf_sign op"
    using w(1) u that field_uint_bounds [of m ?o ?b] by (simp add: field_val_def Let_def)
qed

lemma drop_eq_bits:
  assumes "length p' = length p" "\<And>i. 8 * n \<le> i \<Longrightarrow> i < 8 * length p \<Longrightarrow> bit_at p' i = bit_at p i"
  shows "drop n p' = drop n p"
proof (rule nth_equalityI)
  fix j assume "j < length (drop n p')"
  then have j: "n + j < length p" using assms(1) by simp
  have "bit (p' ! (n + j)) k = bit (p ! (n + j)) k" for k
  proof (cases "k < 8")
    case True
    define e where "e = 7 - k"
    have e: "e < 8" "k = 7 - e" using True by (auto simp: e_def)
    define i where "i = 8 * (n + j) + e"
    have "i div 8 = n + j" "i mod 8 = e" using e(1) div_mult_self1_is_m [of 8 "n + j"] unfolding i_def by (simp, metis mod_mult_self4 mod_less)
    moreover have "bit_at p' i = bit_at p i" by (rule assms(2)) (use j e(1) in \<open>simp_all add: i_def\<close>)
    ultimately show ?thesis using e by (simp add: bit_at_def)
  next
    case False
    then show ?thesis using bit_imp_le_length [of "p' ! (n + j)" k] bit_imp_le_length [of "p ! (n + j)" k] by auto
  qed
  then have "p' ! (n + j) = p ! (n + j)" by (rule bit_eqI)
  then show "drop n p' ! j = drop n p ! j" using j assms(1) by simp
qed (use assms(1) in simp)

lemma store_field:
  assumes "unat (bf_offset op) + bf_bits op \<le> 8 * n" "n \<le> length p" "\<And>k. k < bf_bits op \<Longrightarrow> bit (v :: u64) k = bit (x :: int) k"
  shows "\<exists>p'. setUnsignedBitfield p (unat (bf_offset op)) (bf_bits op) v = Some p' \<and> length p' = length p \<and> drop n p' = drop n p \<and>
    text_bit (take n p') = put_field op x (text_bit (take n p))"
proof -
  let ?o = "unat (bf_offset op)" and ?b = "bf_bits op"
  have "?o + ?b \<le> 8 * length p" using assms(1,2) by linarith
  from setUnsignedBitfield_eq [OF this] obtain p' where p': "setUnsignedBitfield p ?o ?b v = Some p'" "length p' = length p"
    "\<forall>i<8 * length p. bit_at p' i = (if ?o \<le> i \<and> i < ?o + ?b then bit v (?b - Suc (i - ?o)) else bit_at p i)" by blast
  have "drop n p' = drop n p" using p'(2,3) assms(1) by (intro drop_eq_bits) auto
  moreover have "text_bit (take n p') i = put_field op x (text_bit (take n p)) i" for i
  proof -
    have "?b - Suc (i - ?o) < ?b" if "i < ?o + ?b" "?o \<le> i" using that by linarith
    then show ?thesis using p'(2,3) assms by (auto simp: text_bit_take put_field_def Let_def)
  qed
  ultimately show ?thesis using p' by blast
qed

lemma fit_range: "fit ow lo hi s = Some n \<Longrightarrow> lo \<le> hi \<Longrightarrow> lo \<le> n \<and> n \<le> hi"
  using pos_mod_bound [of "hi - lo + 1" "s - lo"] pos_mod_sign [of "hi - lo + 1" "s - lo"]
  by (auto simp: fit_def split: if_splits owtype.splits)

lemma bit_sint_low: "k < 64 \<Longrightarrow> bit (sint (v :: u64)) k = bit v k"
  by (auto simp: bit_sint_iff)

text \<open>The value a write operation stores, in both number formats.\<close>

lemma signed_new:
  assumes "op_ok op" "bf_sign op" "sint oldval = field_val op m" "bf_opcode op \<noteq> BITFIELDOP_GET"
  shows "map_option sint (if bf_opcode op = BITFIELDOP_INCRBY
       then checked (checkSignedBitfieldOverflow oldval (bf_i64 op) (bf_bits op) (bf_owtype op)) (oldval + bf_i64 op)
       else checked (checkSignedBitfieldOverflow (bf_i64 op) 0 (bf_bits op) (bf_owtype op)) (bf_i64 op)) = bf_new op (field_val op m)"
proof -
  have b: "0 < bf_bits op" "bf_bits op \<le> 64" using assms(1,2) by (auto simp: op_ok_def)
  have r: "- (2 ^ (bf_bits op - 1)) \<le> sint oldval \<and> sint oldval < 2 ^ (bf_bits op - 1)"
    using assms(2,3) by (simp add: field_val_def Let_def signed_take_bit_int_greater_eq_minus_exp signed_take_bit_int_less_exp)
  show ?thesis
  proof (cases "bf_opcode op = BITFIELDOP_INCRBY")
    case True
    then show ?thesis using signed_checked [OF b, of oldval "bf_i64 op" "bf_owtype op"] r assms(2,3) by (simp add: bf_new_def op_lo_def op_hi_def)
  next
    case False
    then have "bf_opcode op = BITFIELDOP_SET" using assms(4) by (cases "bf_opcode op") auto
    then show ?thesis using signed_checked [OF b, of "bf_i64 op" 0 "bf_owtype op"] assms(1,2)
      by (simp add: bf_new_def op_lo_def op_hi_def op_ok_def)
  qed
qed

lemma unsigned_new:
  assumes "op_ok op" "\<not> bf_sign op" "uint oldval = field_val op m" "uint oldval < 2 ^ bf_bits op"
  shows "map_option uint (if bf_opcode op = BITFIELDOP_INCRBY
       then checked (checkUnsignedBitfieldOverflow oldval (bf_i64 op) (bf_bits op) (bf_owtype op)) (oldval + bf_i64 op)
       else checked (checkUnsignedBitfieldOverflow (bf_i64 op) 0 (bf_bits op) (bf_owtype op)) (bf_i64 op)) = bf_new op (field_val op m)"
proof -
  have b: "0 < bf_bits op" "bf_bits op \<le> 63" using assms(1,2) by (auto simp: op_ok_def)
  show ?thesis
    using unsigned_checked [OF b, of oldval "bf_i64 op" "bf_owtype op"] unsigned_checked [OF b, of "bf_i64 op" 0 "bf_owtype op"] assms
    by (auto simp: bf_new_def op_lo_def op_hi_def)
qed

lemma sint_eq_uint: "uint (v :: u64) < 2 ^ 63 \<Longrightarrow> sint v = uint v"
  using signed_take_bit_int_eq_self [of 63 "uint v"] order_trans [of "- (2 ^ 63)" 0 "uint v"] by (simp add: sint_uint)

lemma bitfield_write_eq:
  assumes "op_ok op" "bf_opcode op \<noteq> BITFIELDOP_GET" "unat (bf_offset op) + bf_bits op \<le> 8 * n" "n \<le> length p"
  shows "\<exists>p' r. bitfield_write op p = Some (p', r) \<and> length p' = length p \<and> drop n p' = drop n p \<and>
    bf_step op (text_bit (take n p)) = (text_bit (take n p'), r)"
proof -
  let ?m = "text_bit (take n p)" and ?o = "unat (bf_offset op)" and ?b = "bf_bits op"
  have l: "?o + ?b \<le> 8 * length p" using assms(3,4) by linarith
  have m: "?m i = bit_at p i" if "i < ?o + ?b" for i using that assms(3,4) by (simp add: text_bit_take)
  show ?thesis
  proof (cases "bf_sign op")
    case True
    obtain w where w: "getSignedBitfield p ?o ?b = Some w" "sint w = field_val op ?m"
      using read_field(1) [OF l assms(1) m True] by blast
    define new where "new = (if bf_opcode op = BITFIELDOP_INCRBY
       then checked (checkSignedBitfieldOverflow w (bf_i64 op) ?b (bf_owtype op)) (w + bf_i64 op)
       else checked (checkSignedBitfieldOverflow (bf_i64 op) 0 ?b (bf_owtype op)) (bf_i64 op))"
    have new: "map_option sint new = bf_new op (field_val op ?m)" unfolding new_def by (rule signed_new [OF assms(1) True w(2) assms(2)])
    have st: "\<exists>p'. setUnsignedBitfield p ?o ?b v = Some p' \<and> length p' = length p \<and> drop n p' = drop n p \<and>
        text_bit (take n p') = put_field op (sint v) ?m" for v
      by (rule store_field [OF assms(3,4)]) (use assms(1) True in \<open>simp add: op_ok_def bit_sint_low\<close>)
    show ?thesis
    proof (cases new)
      case None
      then show ?thesis using new w assms(2) True unfolding new_def by (simp add: bitfield_write_def Let_def bf_step_def)
    next
      case (Some v)
      then show ?thesis using new [symmetric] w assms(2) True st [of v] unfolding new_def
        by (auto simp: bitfield_write_def Let_def bf_step_def setSignedBitfield_def)
    qed
  next
    case False
    obtain w where w: "getUnsignedBitfield p ?o ?b = Some w" "uint w = field_val op ?m" "uint w < 2 ^ ?b"
      using read_field(2) [OF l assms(1) m False] by blast
    have b: "?b \<le> 63" "0 < ?b" using assms(1) False by (auto simp: op_ok_def)
    then have P: "(2 :: int) ^ ?b \<le> 2 ^ 63" by (intro power_increasing) auto
    define new where "new = (if bf_opcode op = BITFIELDOP_INCRBY
       then checked (checkUnsignedBitfieldOverflow w (bf_i64 op) ?b (bf_owtype op)) (w + bf_i64 op)
       else checked (checkUnsignedBitfieldOverflow (bf_i64 op) 0 ?b (bf_owtype op)) (bf_i64 op))"
    have new: "map_option uint new = bf_new op (field_val op ?m)" unfolding new_def by (rule unsigned_new [OF assms(1) False w(2,3)])
    have st: "\<exists>p'. setUnsignedBitfield p ?o ?b v = Some p' \<and> length p' = length p \<and> drop n p' = drop n p \<and>
        text_bit (take n p') = put_field op (uint v) ?m" for v
      by (rule store_field [OF assms(3,4)]) (use b in \<open>simp add: bit_uint_iff\<close>)
    show ?thesis
    proof (cases new)
      case None
      then show ?thesis using new w assms(2) False unfolding new_def by (simp add: bitfield_write_def Let_def bf_step_def)
    next
      case (Some v)
      then have "uint v < 2 ^ ?b" using new fit_range [of "bf_owtype op" 0 "2 ^ ?b - 1" _ "uint v"] False by (auto simp: bf_new_def op_lo_def op_hi_def)
      then have "sint v = uint v" "sint w = uint w" using P w(3) by (auto intro!: sint_eq_uint)
      then show ?thesis using Some new [symmetric] w assms(2) False st [of v] unfolding new_def
        by (auto simp: bitfield_write_def Let_def bf_step_def)
    qed
  qed
qed

text \<open>GET reads a window of nine bytes, padded with zeros.\<close>

lemma copy_window_eq:
  assumes "n + i \<le> length buf" "strlen \<le> length p"
  shows "copy_window n i (Some p) strlen byte buf =
    Some (map (\<lambda>j. if i \<le> j \<and> j < i + n \<and> j + byte < strlen then p ! (j + byte) else buf ! j) [0..<length buf])"
  using assms
proof (induction n arbitrary: i buf)
  case 0
  show ?case by (auto intro!: nth_equalityI)
next
  case (Suc n)
  show ?case
  proof (cases "strlen \<le> i + byte")
    case True
    then show ?thesis by (auto intro!: nth_equalityI)
  next
    case False
    then have "mem_get p (i + byte) = Some (p ! (i + byte))" "mem_put buf i x = Some (buf[i := x])" for x
      using Suc.prems by (simp_all add: mem_get_eq mem_put_eq)
    then show ?thesis using False Suc.prems Suc.IH [of "i + 1" "buf[i := p ! (i + byte)]"]
      by (auto simp: nth_list_update less_Suc_eq intro!: nth_equalityI)
  qed
qed

definition window :: "bytes \<Rightarrow> nat \<Rightarrow> bytes" where
  "window t byte = map (\<lambda>j. pad t (j + byte)) [0..<9]"

lemma copy_window_text:
  assumes "strlen \<le> length p"
  shows "copy_window 9 0 (Some p) strlen byte (replicate 9 0) = Some (window (take strlen p) byte)" "copy_window 9 0 None 0 byte (replicate 9 0) = Some (window [] byte)"
proof -
  show "copy_window 9 0 (Some p) strlen byte (replicate 9 0) = Some (window (take strlen p) byte)"
    using assms by (simp add: copy_window_eq window_def pad_def)
  show "copy_window 9 0 None 0 byte (replicate 9 0) = Some (window [] byte)"
    by (simp add: eval_nat_numeral window_def pad_def)
qed

lemma bit_window:
  assumes "i < 72"
  shows "bit_at (window t byte) i = text_bit t (byte * 8 + i)"
proof -
  have "i div 8 < 9" "(byte * 8 + i) div 8 = i div 8 + byte" "(byte * 8 + i) mod 8 = i mod 8" using assms by auto
  then show ?thesis using bit_pad [of t "byte * 8 + i"] by (simp add: bit_at_def window_def add.commute)
qed

lemma bitfield_get_eq:
  assumes "op_ok op" "bf_opcode op = BITFIELDOP_GET"
    "copy_window 9 0 s strlen (unat (bf_offset op) div 8) (replicate 9 0) = Some (window t (unat (bf_offset op) div 8))"
  shows "\<exists>r. bitfield_get op s strlen = Some r \<and> bf_step op (text_bit t) = (text_bit t, r)"
proof -
  define o' where "o' = bf_offset op AND 7"
  define op' where "op' = op\<lparr>bf_offset := o'\<rparr>"
  let ?o = "unat (bf_offset op)" and ?b = "bf_bits op" and ?w = "window t (unat (bf_offset op) div 8)"
  have o: "unat o' = ?o mod 8" "?o - ?o div 8 * 8 = ?o mod 8" by (simp_all add: o'_def offset_word minus_div_mult_eq_mod)
  have b: "0 < ?b" "?b \<le> 64" using assms(1) by (auto simp: op_ok_def split: if_splits)
  have m: "?o mod 8 < 8" by simp
  have l: "unat (bf_offset op') + bf_bits op' \<le> 8 * length ?w" using b(2) m unfolding op'_def by (simp add: o window_def)
  have shift: "text_bit t (?o div 8 * 8 + i) = bit_at ?w i" if "i < unat (bf_offset op') + bf_bits op'" for i
    using that l bit_window [of i t "?o div 8"] by (simp add: window_def)
  have v: "field_val op (text_bit t) = field_val op' (\<lambda>i. text_bit t (?o div 8 * 8 + i))"
  proof -
    have "field_uint (text_bit t) ?o ?b = field_uint (\<lambda>i. text_bit t (?o div 8 * 8 + i)) (?o mod 8) ?b"
      using div_mult_mod_eq [of ?o 8] by (simp add: field_uint_def add.assoc [symmetric])
    then show ?thesis by (simp add: field_val_def op'_def o Let_def)
  qed
  have ok: "op_ok op'" using assms(1) by (simp add: op_ok_def op'_def)
  have g: "\<exists>w. (if bf_sign op then getSignedBitfield ?w (?o mod 8) ?b else getUnsignedBitfield ?w (?o mod 8) ?b) = Some w \<and> sint w = field_val op (text_bit t)"
  proof (cases "bf_sign op")
    case True
    then show ?thesis using read_field(1) [OF l ok shift] v by (simp add: op'_def o)
  next
    case False
    then have "(2 :: int) ^ ?b \<le> 2 ^ 63" using assms(1) by (intro power_increasing) (auto simp: op_ok_def)
    moreover obtain w where "getUnsignedBitfield ?w (?o mod 8) ?b = Some w" "uint w = field_val op (text_bit t)" "uint w < 2 ^ ?b"
      using read_field(2) [OF l ok shift] v False by (auto simp: op'_def o)
    ultimately show ?thesis using False sint_eq_uint [of w] by auto
  qed
  then show ?thesis using assms(2,3) by (auto simp: bitfield_get_def bf_step_def Let_def offset_word o)
qed

lemma readOnlyString_ok:
  assumes "obj_ok ob"
  shows "\<exists>p n. getObjectReadOnlyString A LONG_STR_SIZE ob = Some (p, n) \<and> n \<le> length p \<and> take n p = obj_str ob"
  using assms
proof (cases rule: obj_cases)
  case (str s)
  then show ?thesis using assms
    by (auto simp: getObjectReadOnlyString_def sds_ok_def sdslen_def sds_str_def obj_ok_def)
next
  case (int v)
  let ?d = "dec_int (sint v)"
  have "ll2string (fresh_block A LONG_STR_SIZE) (word_of_nat LONG_STR_SIZE) v = Some (word_of_nat (length ?d), ?d @ 0 # drop (length ?d + 1) (fresh_block A LONG_STR_SIZE))"
    using printed_number [of 21 A v] by (simp add: LONG_STR_SIZE_def)
  then show ?thesis using int assms by (simp add: getObjectReadOnlyString_def unat_len_dec obj_ok_def)
qed

text \<open>What the parsed operations satisfy.\<close>

definition op_in :: "nat \<Rightarrow> bitfieldOp \<Rightarrow> bool" where
  "op_in n op \<longleftrightarrow> op_ok op \<and> (bf_opcode op \<noteq> BITFIELDOP_GET \<longrightarrow> unat (bf_offset op) + bf_bits op \<le> 8 * n)"

definition writes :: "bitfieldOp list \<Rightarrow> nat" where
  "writes ops = length (filter (\<lambda>op. bf_opcode op \<noteq> BITFIELDOP_GET) ops)"

lemma exec_raw:
  assumes "sds_ok s" "\<forall>op\<in>set ops. op_in (hdr_len s) op"
  shows "\<exists>s' rs. bitfield_exec A ops (Some \<lparr>encoding = OBJ_ENCODING_RAW, optr = Ptr_sds s, refcount = 1\<rparr>) =
      Some (Some \<lparr>encoding = OBJ_ENCODING_RAW, optr = Ptr_sds s', refcount = 1\<rparr>, rs, int (writes ops)) \<and>
    sds_ok s' \<and> hdr_len s' = hdr_len s \<and> bf_run ops (text_bit (sds_str s)) = (text_bit (sds_str s'), rs)"
  using assms
proof (induction ops arbitrary: s)
  case (Cons op ops)
  have op: "op_ok op" using Cons.prems(2) by (simp add: op_in_def)
  have len: "hdr_len s \<le> length (sds_buf s)" using Cons.prems(1) by (simp add: sds_ok_def)
  show ?case
  proof (cases "bf_opcode op = BITFIELDOP_GET")
    case True
    obtain r where "bitfield_get op (Some (sds_buf s)) (sdslen s) = Some r" "bf_step op (text_bit (sds_str s)) = (text_bit (sds_str s), r)"
      using bitfield_get_eq [OF op True, of "Some (sds_buf s)" "sdslen s" "sds_str s"] copy_window_text(1) [OF len]
      by (auto simp: sdslen_def sds_str_def)
    then show ?thesis using True Cons.IH [of s] Cons.prems
      by (auto simp: getObjectReadOnlyString_def get_sds_def writes_def)
  next
    case False
    have "unat (bf_offset op) + bf_bits op \<le> 8 * hdr_len s" using Cons.prems(2) False by (simp add: op_in_def)
    from bitfield_write_eq [OF op False this len] obtain p r where p: "bitfield_write op (sds_buf s) = Some (p, r)" "length p = length (sds_buf s)"
      "drop (hdr_len s) p = drop (hdr_len s) (sds_buf s)" "bf_step op (text_bit (sds_str s)) = (text_bit (take (hdr_len s) p), r)"
      by (auto simp: sds_str_def)
    let ?s = "s\<lparr>sds_buf := p\<rparr>"
    have "p ! hdr_len s = sds_buf s ! hdr_len s" using p(2,3) Cons.prems(1) by (metis hd_drop_conv_nth sds_ok_def le_less_trans)
    then have s: "sds_ok ?s" "hdr_len ?s = hdr_len s" "sds_str ?s = take (hdr_len s) p"
      using Cons.prems(1) p(2) by (auto simp: sds_ok_def sdsalloc_def sds_str_def split: if_splits)
    have "\<forall>op\<in>set ops. op_in (hdr_len ?s) op" using Cons.prems(2) by simp
    from Cons.IH [OF s(1) this] show ?thesis using False p s by (auto simp: get_sds_def writes_def)
  qed
qed (simp add: writes_def)

definition value_text :: "robj option \<Rightarrow> bytes" where
  "value_text ob = (case ob of None \<Rightarrow> [] | Some ob \<Rightarrow> obj_str ob)"

lemma exec_read:
  assumes "\<forall>ob'. ob = Some ob' \<longrightarrow> obj_ok ob'" "\<forall>op\<in>set ops. op_ok op \<and> bf_opcode op = BITFIELDOP_GET"
  shows "\<exists>rs. bitfield_exec A ops ob = Some (ob, rs, 0) \<and> bf_run ops (text_bit (value_text ob)) = (text_bit (value_text ob), rs)"
  using assms(2)
proof (induction ops)
  case (Cons op ops)
  have "\<exists>s n r. (case ob of None \<Rightarrow> Some (None, 0) | Some ob \<Rightarrow> map_option (map_prod Some id) (getObjectReadOnlyString A LONG_STR_SIZE ob)) = Some (s, n) \<and>
      bitfield_get op s n = Some r \<and> bf_step op (text_bit (value_text ob)) = (text_bit (value_text ob), r)"
  proof (cases ob)
    case None
    then show ?thesis using bitfield_get_eq [of op None 0 "[]"] copy_window_text(2) Cons.prems by (auto simp: value_text_def)
  next
    case (Some o1)
    then obtain p n where p: "getObjectReadOnlyString A LONG_STR_SIZE o1 = Some (p, n)" "n \<le> length p" "take n p = obj_str o1"
      using readOnlyString_ok [of o1 A] assms(1) by auto
    then show ?thesis using bitfield_get_eq [of op "Some p" n "obj_str o1"] copy_window_text(1) [of n p] Cons.prems Some
      by (auto simp: value_text_def)
  qed
  then show ?case using Cons by auto
qed simp

lemma type_range:
  assumes "getBitfieldTypeFromArgument p = Some (Inr (sign, bits))"
  shows "0 < bits" "bits \<le> (if sign then 64 else 63)"
  using assms by (auto simp: getBitfieldTypeFromArgument_def Let_def split: bind_splits if_splits option.splits)

lemma offset_range:
  assumes "getBitOffsetFromArgument maxlen p hash bits = Some (Inr off)" "maxlen \<le> 2 ^ 58"
  shows "unat off < 2 ^ 61"
proof -
  have r: "0 \<le> sint off" "sint off div 8 < maxlen"
    using assms(1) by (auto simp: getBitOffsetFromArgument_def Let_def split: bind_splits if_splits option.splits)
  then have "sint off < 8 * 2 ^ 58" using assms(2) by linarith
  then have "int (unat off) < int (2 ^ 61)" unfolding sint_unat [OF r(1)] by (simp del: of_nat_unat)
  then show ?thesis unfolding of_nat_less_iff .
qed

definition parse_inv :: "bf_parse \<Rightarrow> bool" where
  "parse_inv ps \<longleftrightarrow> unat (highest_write_offset ps) < 2 ^ 61 + 64 \<and>
     (\<forall>op\<in>set (bf_ops ps). 0 < bf_bits op \<and> bf_bits op \<le> (if bf_sign op then 64 else 63) \<and>
        (bf_opcode op \<noteq> BITFIELDOP_GET \<longrightarrow> \<not> bf_readonly ps \<and> unat (bf_offset op) + bf_bits op \<le> unat (highest_write_offset ps) + 1))"

lemma parse_op_range:
  assumes "parse_op maxlen argv j opcode ow = Some (Inr op)" "maxlen \<le> 2 ^ 58"
  shows "0 < bf_bits op" "bf_bits op \<le> (if bf_sign op then 64 else 63)" "unat (bf_offset op) < 2 ^ 61" "bf_opcode op = opcode"
  using assms
  by (auto simp: parse_op_def dest: type_range offset_range [OF _ assms(2)] split: bind_splits sum.splits prod.splits if_splits)

lemma add_op_inv:
  assumes "parse_inv ps" "0 < bf_bits op" "bf_bits op \<le> (if bf_sign op then 64 else 63)" "unat (bf_offset op) < 2 ^ 61"
  shows "parse_inv (add_op op ps)"
proof -
  define e where "e = bf_offset op + word_of_nat (bf_bits op) - 1"
  have b: "bf_bits op \<le> 64" using assms(3) by (auto split: if_splits)
  have "e = word_of_nat (unat (bf_offset op) + bf_bits op - 1)" using assms(2) by (simp add: e_def of_nat_diff)
  moreover have "unat (bf_offset op) + bf_bits op - 1 < 2 ^ LENGTH(64)" using assms(4) b by simp
  ultimately have e: "unat e = unat (bf_offset op) + bf_bits op - 1" by (simp only: unat_of_nat take_bit_nat_eq_self mod_less)
  then have "unat e < 2 ^ 61 + 64" "unat (bf_offset op) + bf_bits op \<le> unat e + 1" using assms(4) b by linarith+
  then show ?thesis using assms(1-3) unfolding parse_inv_def add_op_def e_def [symmetric]
    by (auto simp: Let_def word_less_nat_alt)
qed

lemma parse_ops_inv:
  assumes "parse_ops maxlen argv j ow ps = Some (Inr ps')" "maxlen \<le> 2 ^ 58" "parse_inv ps"
  shows "parse_inv ps'"
  using assms
proof (induction maxlen argv j ow ps rule: parse_ops.induct)
  case (1 maxlen argv j ow ps)
  show ?case
  proof (cases "j < length argv")
    case True
    with "1.prems"(1) obtain r where r: "parse_opcode argv j = Some (Inr r)"
      by (subst (asm) parse_ops.simps) (auto split: bind_splits sum.splits)
    show ?thesis
    proof (cases r)
      case None
      with "1.prems"(1) True r obtain ow' where ow: "parse_owtype argv (j + 1) = Some (Inr ow')" "parse_ops maxlen argv (j + 2) ow' ps = Some (Inr ps')"
        by (subst (asm) parse_ops.simps) (auto split: bind_splits sum.splits)
      show ?thesis using "1.IH"(1) [OF True r refl None ow(1) refl ow(2) "1.prems"(2,3)] .
    next
      case (Some opcode)
      with "1.prems"(1) True r obtain op where op: "parse_op maxlen argv j opcode ow = Some (Inr op)"
        "parse_ops maxlen argv (j + (if opcode = BITFIELDOP_GET then 3 else 4)) ow (add_op op ps) = Some (Inr ps')"
        by (subst (asm) parse_ops.simps) (auto split: bind_splits sum.splits)
      have "parse_inv (add_op op ps)" using add_op_inv [OF "1.prems"(3)] parse_op_range [OF op(1) "1.prems"(2)] by blast
      then show ?thesis using "1.IH"(2) [OF True r refl Some op(1) refl op(2) "1.prems"(2)] by blast
    qed
  qed (use "1.prems" in \<open>simp add: parse_ops.simps\<close>)
qed

text \<open>C15: BITFIELD and BITFIELD_RO do what their operations mean on an unlimited bit map: reading a field gives the unsigned or
  two's complement integer that its bits spell, a missing key and the bits beyond the end of the string count as 0, SET and
  INCRBY store the new value as the overflow policy in force makes it fit, or leave the field alone and answer nil, and the
  replies and the contents after the whole list of operations are those of running them one after the other. The string
  grows to the last bit written. (Signed SET is restricted to values whose distance to the upper limit fits into 63 bits.)\<close>

theorem bitfield_runs_operations:
  assumes "args_ok argv" "2 \<le> length argv" "maxlen \<le> 2 ^ 58"
    "parse_ops maxlen argv 2 BFOVERFLOW_WRAP \<lparr>bf_ops = [], bf_readonly = True, highest_write_offset = 0\<rparr> = Some (Inr ps)"
    "\<forall>op\<in>set (bf_ops ps). bf_sign op \<and> bf_opcode op = BITFIELDOP_SET \<longrightarrow> 2 ^ (bf_bits op - 1) - sint (bf_i64 op) \<le> 2 ^ 63"
    "ro \<longrightarrow> bf_readonly ps" "slot_ok (keyspace st k)" "k = obj_str (argv ! 1)"
  shows "\<exists>st' rs. bitfieldGeneric ro A maxlen argv st = Some (st', Reply_array (length (bf_ops ps)) # rs) \<and>
    bf_run (bf_ops ps) (text_bit (slot_text (keyspace st k))) = (text_bit (slot_text (keyspace st' k)), rs) \<and>
    (if bf_readonly ps then st' = st
     else slot_ok (keyspace st' k) \<and> (\<forall>k'. k' \<noteq> k \<longrightarrow> keyspace st' k' = keyspace st k') \<and>
       length (slot_text (keyspace st' k)) = max (length (slot_text (keyspace st k))) (unat (highest_write_offset ps) div 8 + 1) \<and>
       dirty st' = dirty st + int (writes (bf_ops ps)))"
proof -
  let ?t = "slot_text (keyspace st k)" and ?h = "unat (highest_write_offset ps)"
  have inv: "parse_inv ps" by (rule parse_ops_inv [OF assms(4,3)]) (simp add: parse_inv_def)
  have key: "arg_key argv 1 = Some k" using arg_key_ok [OF assms(1), of 1] assms(2,8) by simp
  note run = bitfieldGeneric_def assms(4) bind.bind_lunit sum.case key
  show ?thesis
  proof (cases "bf_readonly ps")
    case True
    obtain ob where ob: "(case keyspace st k of None \<Rightarrow> Inr None | Some Other_value \<Rightarrow> Inl Wrong_type | Some (String_value ob) \<Rightarrow> Inr (Some ob)) = Inr ob"
      "\<forall>ob'. ob = Some ob' \<longrightarrow> obj_ok ob'" "value_text ob = ?t"
      using assms(7) by (cases "keyspace st k") (auto simp: slot_ok_def slot_text_def value_text_def split: db_value.splits)
    have "\<forall>op\<in>set (bf_ops ps). op_ok op \<and> bf_opcode op = BITFIELDOP_GET" using inv True assms(5) by (auto simp: parse_inv_def op_ok_def)
    from exec_read [OF ob(2) this, of A] ob(3) obtain rs where rs: "bitfield_exec A (bf_ops ps) ob = Some (ob, rs, 0)"
      "bf_run (bf_ops ps) (text_bit ?t) = (text_bit ?t, rs)" by auto
    then show ?thesis using True unfolding run by (simp add: ob(1))
  next
    case False
    have h: "?h < 2 ^ 62" using inv by (simp add: parse_inv_def)
    obtain s where s: "lookupStringForBitCommand A st k ?h = Some (Inr \<lparr>encoding = OBJ_ENCODING_RAW, optr = Ptr_sds s, refcount = 1\<rparr>)"
      "sds_ok s" "sds_str s = ?t @ replicate (?h div 8 + 1 - length ?t) 0" using lookupString_ok [OF assms(7) h] by blast
    have len: "hdr_len s = max (length ?t) (?h div 8 + 1)" using length_sds_str [OF s(2)] s(3) by auto
    have "?h div 8 + 1 \<le> hdr_len s" unfolding len by simp
    then have "?h + 1 \<le> 8 * hdr_len s" by linarith
    then have "\<forall>op\<in>set (bf_ops ps). op_in (hdr_len s) op" using inv assms(5) by (fastforce simp: parse_inv_def op_in_def op_ok_def)
    from exec_raw [OF s(2) this, of A] obtain s' rs where s': "bitfield_exec A (bf_ops ps) (Some \<lparr>encoding = OBJ_ENCODING_RAW, optr = Ptr_sds s, refcount = 1\<rparr>) =
        Some (Some \<lparr>encoding = OBJ_ENCODING_RAW, optr = Ptr_sds s', refcount = 1\<rparr>, rs, int (writes (bf_ops ps)))"
      "sds_ok s'" "hdr_len s' = hdr_len s" "bf_run (bf_ops ps) (text_bit (sds_str s)) = (text_bit (sds_str s'), rs)" by blast
    have t: "text_bit (sds_str s) = text_bit ?t" using s(3) text_bit_zeros by auto
    have l: "length (sds_str s') = hdr_len s" using length_sds_str [OF s'(2)] s'(3) by simp
    have "hdr_len s < 2 ^ 62" unfolding len using slot_text_length [OF assms(7)] h by simp
    then show ?thesis using False assms(6) t l len s'(2,4) unfolding run
      by (simp add: s(1) s'(1) Let_def) (simp add: set_value_def signal_change_def slot_ok_def slot_text_def obj_ok_def obj_str_def
          OBJ_STATIC_REFCOUNT_def OBJ_SHARED_REFCOUNT_def)
  qed
qed

text \<open>C40: Offsets written as a multiple of the width, \<^verbatim>\<open>#n\<close>, are multiplied in 64 bits. While the product fits, the offset is the
  product and is accepted exactly if it is inside of the largest string. A product that does not fit wraps around, and so
  \<^verbatim>\<open>#4611686018427387904\<close> with a width of 4 bits is accepted as offset 0 although it lies far outside.\<close>

theorem hash_offset_wraps:
  assumes "sds_ok s" "sds_str s = 35 # dec_int (sint (v :: s64))" "0 < bits" "bits \<le> 64"
  shows "(- (2 ^ 63) \<le> sint v * int bits \<and> sint v * int bits < 2 ^ 63 \<longrightarrow>
      getBitOffsetFromArgument maxlen s True bits =
        Some (if 0 \<le> sint v \<and> sint v * int bits div 8 < maxlen then Inr (word_of_int (sint v * int bits)) else Inl Bad_offset)) \<and>
    (v = 4611686018427387904 \<and> bits = 4 \<and> 0 < maxlen \<longrightarrow> getBitOffsetFromArgument maxlen s True bits = Some (Inr 0))"
proof -
  have "0 < hdr_len s" "hdr_len s < length (sds_buf s)"
    using assms(1,2) length_sds_str [OF assms(1)] by (auto simp: sds_ok_def)
  moreover from this have "mem_get (sds_buf s) 0 = Some 35" using assms(2) by (metis sds_str_def nth_take nth_Cons_0 mem_get_eq less_trans)
  moreover have "take (hdr_len s - 1) (drop 1 (sds_buf s)) = dec_int (sint v)"
    using assms(2) by (simp add: sds_str_def drop_take [symmetric])
  ultimately have r: "getBitOffsetFromArgument maxlen s True bits =
      Some (if sint (v * word_of_nat bits) < 0 \<or> maxlen \<le> sint (v * word_of_nat bits) div 8 then Inl Bad_offset else Inr (v * word_of_nat bits))"
    using assms(3) by (simp add: getBitOffsetFromArgument_def mem_read_eq sdslen_def string2ll_complete Let_def)
  have w: "v * word_of_nat bits = word_of_int (sint v * int bits)" by simp
  have "sint (v * word_of_nat bits) = sint v * int bits" if "- (2 ^ 63) \<le> sint v * int bits" "sint v * int bits < 2 ^ 63"
    by (rule sint_eqI [OF w]) (use that in simp_all)
  moreover have "sint v * int bits < 0 \<longleftrightarrow> \<not> 0 \<le> sint v" using assms(3) by (simp add: mult_less_0_iff not_le)
  ultimately show ?thesis unfolding r w [symmetric] by auto
qed

definition huge_offset :: sds where
  "huge_offset = \<lparr>sds_type = SDS_TYPE_8, hdr_len = 20, hdr_alloc = 20, sds_buf = map of_char ''#4611686018427387904'' @ [0]\<rparr>"

theorem hash_offset_wraps_witness: "getBitOffsetFromArgument 536870912 huge_offset True 4 = Some (Inr 0)"
proof -
  have "sds_ok huge_offset" by (simp add: huge_offset_def sds_ok_def sdsalloc_def)
  moreover have "sds_str huge_offset = 35 # dec_int (sint (4611686018427387904 :: s64))"
    by (simp add: huge_offset_def sds_str_def dec_int_def dec_nat.simps)
  ultimately show ?thesis using hash_offset_wraps [of huge_offset 4611686018427387904 4 536870912] by simp
qed

definition incr_args :: "robj list" where
  "incr_args = map (\<lambda>t. text_arg (map of_char t)) [''bitfield'', ''k'', ''incrby'', ''u8'', ''#1'', ''200'']"

definition incr_op :: bitfieldOp where
  "incr_op = \<lparr>bf_offset = 8, bf_i64 = 200, bf_opcode = BITFIELDOP_INCRBY, bf_owtype = BFOVERFLOW_WRAP, bf_bits = 8, bf_sign = False\<rparr>"

lemma incr_args_eval:
  "arg_sds incr_args 3 \<bind> getBitfieldTypeFromArgument = Some (Inr (False, 8))"
  "arg_sds incr_args 4 \<bind> (\<lambda>s. getBitOffsetFromArgument 536870912 s True 8) = Some (Inr 8)"
  "mem_get incr_args 5 \<bind> (\<lambda>s. getLongLongFromObjectOrReply (Some s) None) = Some (Inr 200)"
  "parse_opcode incr_args 2 = Some (Inr (Some BITFIELDOP_INCRBY))"
  by (code_simp, code_simp, code_simp, code_simp)

lemma incr_args_parse:
  "parse_ops 536870912 incr_args 2 BFOVERFLOW_WRAP \<lparr>bf_ops = [], bf_readonly = True, highest_write_offset = 0\<rparr> =
     Some (Inr \<lparr>bf_ops = [incr_op], bf_readonly = False, highest_write_offset = 15\<rparr>)"
proof -
  have "parse_op 536870912 incr_args 2 BITFIELDOP_INCRBY BFOVERFLOW_WRAP = Some (Inr incr_op)"
    using incr_args_eval(1-3) by (auto simp: parse_op_def incr_op_def split: bind_splits)
  moreover have "length incr_args = 6" by (simp add: incr_args_def)
  ultimately show ?thesis using incr_args_eval(4)
    by (simp add: parse_ops.simps [of _ _ 2] parse_ops.simps [of _ _ 6]) (simp add: add_op_def incr_op_def)
qed

theorem bitfield_runs_operations_witness:
  "\<exists>st'. bitfieldGeneric False plain_allocator 536870912 incr_args \<lparr>keyspace = [[107] \<mapsto> String_value (text_arg [1, 100])], dirty = 0, modified = [], events = []\<rparr> =
     Some (st', [Reply_array 1, Reply_int 44]) \<and> length (slot_text (keyspace st' [107])) = 2"
proof -
  let ?st = "\<lparr>keyspace = [[107] \<mapsto> String_value (text_arg [1, 100])], dirty = 0, modified = [], events = []\<rparr> :: cmd_state"
  let ?ps = "\<lparr>bf_ops = [incr_op], bf_readonly = False, highest_write_offset = 15\<rparr>"
  have a: "args_ok incr_args" "obj_str (incr_args ! 1) = [107]" by (simp_all add: args_ok_def incr_args_def)
  have s: "slot_ok (keyspace ?st [107])" "slot_text (keyspace ?st [107]) = [1, 100]"
    by (simp_all add: slot_ok_def slot_text_def) (simp add: text_arg_def OBJ_STATIC_REFCOUNT_def OBJ_SHARED_REFCOUNT_def)
  have r: "snd (bf_run [incr_op] (text_bit [1, 100])) = [Reply_int 44]" by code_simp
  have "\<forall>op\<in>set (bf_ops ?ps). bf_sign op \<and> bf_opcode op = BITFIELDOP_SET \<longrightarrow> 2 ^ (bf_bits op - 1) - sint (bf_i64 op) \<le> 2 ^ 63"
    by (simp add: incr_op_def)
  moreover have "2 \<le> length incr_args" "(536870912 :: int) \<le> 2 ^ 58" "False \<longrightarrow> bf_readonly ?ps" "[107] = obj_str (incr_args ! 1)"
    using a(2) by (simp_all add: incr_args_def)
  ultimately obtain st' rs where x: "bitfieldGeneric False plain_allocator 536870912 incr_args ?st = Some (st', Reply_array (length (bf_ops ?ps)) # rs)"
    "bf_run (bf_ops ?ps) (text_bit [1, 100]) = (text_bit (slot_text (keyspace st' [107])), rs)"
    "if bf_readonly ?ps then st' = ?st else slot_ok (keyspace st' [107]) \<and> (\<forall>k'. k' \<noteq> [107] \<longrightarrow> keyspace st' k' = keyspace ?st k') \<and>
       length (slot_text (keyspace st' [107])) = max (length [1, 100 :: byte]) (unat (highest_write_offset ?ps) div 8 + 1) \<and>
       dirty st' = dirty ?st + int (writes (bf_ops ?ps))"
    using bitfield_runs_operations [OF a(1) _ _ incr_args_parse _ _ s(1), of False plain_allocator] unfolding s(2) by blast
  have "rs = [Reply_int 44]" using r x(2) by (simp del: bf_run.simps)
  moreover have "length (slot_text (keyspace st' [107])) = 2" using x(3) by simp
  ultimately show ?thesis using x(1) by (intro exI conjI) simp_all
qed

end
