(* ===== verification/Reply_Buffer.thy ===== *)
theory Reply_Buffer
  imports String_Object Bitfield
begin

text \<open>
  The output buffers of a client, the reply functions of \<^verbatim>\<open>networking.c\<close>: a fixed block for short replies, a list of
  blocks for the rest, placeholders for lengths that are not known yet, the protocol text of the replies, the limits that
  close slow clients, and the writing to the socket.

  A client is a record with the fields these functions use. The lists \<^verbatim>\<open>server.clients_pending_write\<close> and
  \<^verbatim>\<open>server.clients_to_close\<close> hold the clients with the flags \<^verbatim>\<open>CLIENT_PENDING_WRITE\<close> and
  \<^verbatim>\<open>CLIENT_CLOSE_ASAP\<close>, which stand for them. A placeholder is \<open>None\<close> in the list of blocks, and a node of the
  list is its position. The operations give \<open>None\<close> for a failed assertion or an access out of bounds. The socket is a
  parameter: a state and a function that takes the bytes offered and gives the number accepted, as \<^verbatim>\<open>connWrite\<close> does.
\<close>

unbundle bit_operations_syntax

section \<open>Clients\<close>

definition CLIENT_SLAVE :: u64 where "CLIENT_SLAVE = push_bit 0 1"
definition CLIENT_MASTER :: u64 where "CLIENT_MASTER = push_bit 1 1"
definition CLIENT_MONITOR :: u64 where "CLIENT_MONITOR = push_bit 2 1"
definition CLIENT_CLOSE_AFTER_REPLY :: u64 where "CLIENT_CLOSE_AFTER_REPLY = push_bit 6 1"
definition CLIENT_LUA :: u64 where "CLIENT_LUA = push_bit 8 1"
definition CLIENT_CLOSE_ASAP :: u64 where "CLIENT_CLOSE_ASAP = push_bit 10 1"
definition CLIENT_MASTER_FORCE_REPLY :: u64 where "CLIENT_MASTER_FORCE_REPLY = push_bit 13 1"
definition CLIENT_PUBSUB :: u64 where "CLIENT_PUBSUB = push_bit 18 1"
definition CLIENT_PENDING_WRITE :: u64 where "CLIENT_PENDING_WRITE = push_bit 21 1"
definition CLIENT_REPLY_OFF :: u64 where "CLIENT_REPLY_OFF = push_bit 22 1"
definition CLIENT_REPLY_SKIP :: u64 where "CLIENT_REPLY_SKIP = push_bit 24 1"
definition CLIENT_MODULE :: u64 where "CLIENT_MODULE = push_bit 27 1"
definition CLIENT_PENDING_READ :: u64 where "CLIENT_PENDING_READ = push_bit 29 1"
definition CLIENT_PUSHING :: u64 where "CLIENT_PUSHING = push_bit 43 1"

record clientReplyBlock =
  blk_size :: nat
  blk_used :: nat
  blk_buf :: bytes

record client =
  c_flags :: u64
  c_conn :: bool
  c_resp :: nat
  c_replstate :: nat
  c_repl_put_online_on_ack :: bool
  c_buf :: bytes
  c_bufpos :: nat
  c_sentlen :: nat
  c_reply :: "clientReplyBlock option list"
  c_reply_bytes :: nat
  c_obuf_soft_limit_reached_time :: int
  c_lastinteraction :: int
  c_write_handler :: bool

definition has_flag :: "'a client_scheme \<Rightarrow> u64 \<Rightarrow> bool" where
  "has_flag c m \<longleftrightarrow> c_flags c AND m \<noteq> 0"

definition set_flag :: "u64 \<Rightarrow> 'a client_scheme \<Rightarrow> 'a client_scheme" where
  "set_flag m c = c\<lparr>c_flags := c_flags c OR m\<rparr>"

definition clear_flag :: "u64 \<Rightarrow> 'a client_scheme \<Rightarrow> 'a client_scheme" where
  "clear_flag m c = c\<lparr>c_flags := c_flags c AND NOT m\<rparr>"

definition REPL_STATE_NONE :: nat where "REPL_STATE_NONE = 0"
definition SLAVE_STATE_WAIT_BGSAVE_START :: nat where "SLAVE_STATE_WAIT_BGSAVE_START = 6"
definition SLAVE_STATE_ONLINE :: nat where "SLAVE_STATE_ONLINE = 9"
definition PROTO_REPLY_CHUNK_BYTES :: nat where "PROTO_REPLY_CHUNK_BYTES = 16 * 1024"
definition NET_MAX_WRITES_PER_EVENT :: nat where "NET_MAX_WRITES_PER_EVENT = 1024 * 64"
definition OBJ_SHARED_BULKHDR_LEN :: int where "OBJ_SHARED_BULKHDR_LEN = 32"

definition clientHasPendingReplies :: "'a client_scheme \<Rightarrow> bool" where
  "clientHasPendingReplies c \<longleftrightarrow> c_bufpos c \<noteq> 0 \<or> c_reply c \<noteq> []"

section \<open>Limits\<close>

datatype client_type = CLIENT_TYPE_NORMAL | CLIENT_TYPE_SLAVE | CLIENT_TYPE_PUBSUB | CLIENT_TYPE_MASTER

record clientBufferLimitsConfig =
  hard_limit_bytes :: nat
  soft_limit_bytes :: nat
  soft_limit_seconds :: int

record net_server =
  client_obuf_limits :: "client_type \<Rightarrow> clientBufferLimitsConfig"
  net_unixtime :: int
  net_maxmemory :: nat
  used_memory :: nat

definition getClientType :: "'a client_scheme \<Rightarrow> client_type" where
  "getClientType c =
     (if has_flag c CLIENT_MASTER then CLIENT_TYPE_MASTER
      else if has_flag c CLIENT_SLAVE \<and> \<not> has_flag c CLIENT_MONITOR then CLIENT_TYPE_SLAVE
      else if has_flag c CLIENT_PUBSUB then CLIENT_TYPE_PUBSUB
      else CLIENT_TYPE_NORMAL)"

text \<open>A list node has 24 bytes, the header of a block 16.\<close>

definition getClientOutputBufferMemoryUsage :: "'a client_scheme \<Rightarrow> nat" where
  "getClientOutputBufferMemoryUsage c = c_reply_bytes c + (24 + 16) * length (c_reply c)"

definition checkClientOutputBufferLimits :: "net_server \<Rightarrow> 'a client_scheme \<Rightarrow> bool \<times> 'a client_scheme" where
  "checkClientOutputBufferLimits sv c =
     (let used_mem = getClientOutputBufferMemoryUsage c;
          cls = (if getClientType c = CLIENT_TYPE_MASTER then CLIENT_TYPE_NORMAL else getClientType c);
          lim = client_obuf_limits sv cls;
          hard = (hard_limit_bytes lim \<noteq> 0 \<and> hard_limit_bytes lim \<le> used_mem);
          soft = (soft_limit_bytes lim \<noteq> 0 \<and> soft_limit_bytes lim \<le> used_mem)
      in if soft then
           (if c_obuf_soft_limit_reached_time c = 0
            then (hard, c\<lparr>c_obuf_soft_limit_reached_time := net_unixtime sv\<rparr>)
            else (hard \<or> soft_limit_seconds lim < net_unixtime sv - c_obuf_soft_limit_reached_time c, c))
         else (hard, c\<lparr>c_obuf_soft_limit_reached_time := 0\<rparr>))"

definition freeClientAsync :: "'a client_scheme \<Rightarrow> 'a client_scheme" where
  "freeClientAsync c =
     (if has_flag c CLIENT_CLOSE_ASAP \<or> has_flag c CLIENT_LUA then c else set_flag CLIENT_CLOSE_ASAP c)"

text \<open>The check as the buffer functions call it, with the client to be closed later.\<close>

definition closeClientOnOutputBufferLimitReached :: "net_server \<Rightarrow> 'a client_scheme \<Rightarrow> 'a client_scheme option" where
  "closeClientOnOutputBufferLimitReached sv c =
     (if \<not> c_conn c then Some c
      else if \<not> c_reply_bytes c < 2 ^ 64 - 1 - 1024 * 64 then None
      else if c_reply_bytes c = 0 \<or> has_flag c CLIENT_CLOSE_ASAP then Some c
      else (let (reached, c) = checkClientOutputBufferLimits sv c
            in Some (if reached then freeClientAsync c else c)))"

section \<open>Appending to the buffers\<close>

definition clientInstallWriteHandler :: "'a client_scheme \<Rightarrow> 'a client_scheme" where
  "clientInstallWriteHandler c =
     (if \<not> has_flag c CLIENT_PENDING_WRITE \<and>
         (c_replstate c = REPL_STATE_NONE \<or> c_replstate c = SLAVE_STATE_ONLINE \<and> \<not> c_repl_put_online_on_ack c)
      then set_flag CLIENT_PENDING_WRITE c else c)"

definition prepareClientToWrite :: "'a client_scheme \<Rightarrow> bool \<times> 'a client_scheme" where
  "prepareClientToWrite c =
     (if has_flag c (CLIENT_LUA OR CLIENT_MODULE) then (True, c)
      else if has_flag c CLIENT_CLOSE_ASAP then (False, c)
      else if has_flag c (CLIENT_REPLY_OFF OR CLIENT_REPLY_SKIP) \<and> \<not> has_flag c CLIENT_PUSHING then (False, c)
      else if has_flag c CLIENT_MASTER \<and> \<not> has_flag c CLIENT_MASTER_FORCE_REPLY then (False, c)
      else if \<not> c_conn c then (False, c)
      else (True, if \<not> clientHasPendingReplies c \<and> \<not> has_flag c CLIENT_PENDING_READ then clientInstallWriteHandler c else c))"

text \<open>The inner \<open>None\<close> is \<^verbatim>\<open>C_ERR\<close>.\<close>

definition addReplyToBuffer :: "'a client_scheme \<Rightarrow> bytes \<Rightarrow> 'a client_scheme option option" where
  "addReplyToBuffer c s =
     (let available = length (c_buf c) - c_bufpos c
      in if has_flag c CLIENT_CLOSE_AFTER_REPLY then Some (Some c)
         else if c_reply c \<noteq> [] then Some None
         else if available < length s then Some None
         else do {
           buf \<leftarrow> mem_write (c_buf c) (c_bufpos c) s;
           Some (Some (c\<lparr>c_buf := buf, c_bufpos := c_bufpos c + length s\<rparr>)) })"

definition new_block :: "allocator \<Rightarrow> nat \<Rightarrow> bytes \<Rightarrow> clientReplyBlock option" where
  "new_block A sz s = do {
     let usable = sz + alloc_slack A (sz + 16);
     buf \<leftarrow> mem_write (fresh_block A usable) 0 s;
     Some \<lparr>blk_size = usable, blk_used = length s, blk_buf = buf\<rparr> }"

definition append_block :: "clientReplyBlock \<Rightarrow> bytes \<Rightarrow> (clientReplyBlock \<times> bytes) option" where
  "append_block b s = do {
     let avail = blk_size b - blk_used b;
     let copy = (if length s \<le> avail then length s else avail);
     buf \<leftarrow> mem_write (blk_buf b) (blk_used b) (take copy s);
     Some (b\<lparr>blk_buf := buf, blk_used := blk_used b + copy\<rparr>, drop copy s) }"

definition addReplyProtoToList :: "allocator \<Rightarrow> net_server \<Rightarrow> 'a client_scheme \<Rightarrow> bytes \<Rightarrow> 'a client_scheme option" where
  "addReplyProtoToList A sv c s =
     (if has_flag c CLIENT_CLOSE_AFTER_REPLY then Some c
      else do {
        (c, s) \<leftarrow> (case (if c_reply c = [] then None else last (c_reply c)) of
                     None \<Rightarrow> Some (c, s)
                   | Some tail \<Rightarrow> do {
                       (tail, s) \<leftarrow> append_block tail s;
                       Some (c\<lparr>c_reply := butlast (c_reply c) @ [Some tail]\<rparr>, s) });
        if s \<noteq> [] then do {
          tail \<leftarrow> new_block A (if length s < PROTO_REPLY_CHUNK_BYTES then PROTO_REPLY_CHUNK_BYTES else length s) s;
          closeClientOnOutputBufferLimitReached sv
            (c\<lparr>c_reply := c_reply c @ [Some tail], c_reply_bytes := c_reply_bytes c + blk_size tail\<rparr>) }
        else Some c })"

definition addReplyProto :: "allocator \<Rightarrow> net_server \<Rightarrow> 'a client_scheme \<Rightarrow> bytes \<Rightarrow> 'a client_scheme option" where
  "addReplyProto A sv c s =
     (let (ok, c) = prepareClientToWrite c
      in if \<not> ok then Some c
         else do {
           r \<leftarrow> addReplyToBuffer c s;
           case r of Some c \<Rightarrow> Some c | None \<Rightarrow> addReplyProtoToList A sv c s })"

definition addReplySds :: "allocator \<Rightarrow> net_server \<Rightarrow> 'a client_scheme \<Rightarrow> sds \<Rightarrow> 'a client_scheme option" where
  "addReplySds A sv c s = addReplyProto A sv c (sds_str s)"

definition addReply :: "allocator \<Rightarrow> net_server \<Rightarrow> 'a client_scheme \<Rightarrow> robj \<Rightarrow> 'a client_scheme option" where
  "addReply A sv c ob =
     (let (ok, c) = prepareClientToWrite c
      in if \<not> ok then Some c
         else do {
           s \<leftarrow> (if sdsEncodedObject ob then map_option sds_str (get_sds ob)
                 else do {
                   v \<leftarrow> get_long ob;
                   (l, buf) \<leftarrow> ll2string (fresh_block A 32) 32 v;
                   mem_read buf 0 (unat l) });
           r \<leftarrow> addReplyToBuffer c s;
           case r of Some c \<Rightarrow> Some c | None \<Rightarrow> addReplyProtoToList A sv c s })"

section \<open>Placeholders\<close>

definition trimReplyUnusedTailSpace :: "allocator \<Rightarrow> 'a client_scheme \<Rightarrow> 'a client_scheme" where
  "trimReplyUnusedTailSpace A c =
     (case (if c_reply c = [] then None else last (c_reply c)) of
        None \<Rightarrow> c
      | Some tail \<Rightarrow>
          if blk_size tail div 4 < blk_size tail - blk_used tail \<and> blk_used tail < PROTO_REPLY_CHUNK_BYTES then
            (let usable = blk_used tail + alloc_slack A (blk_used tail + 16);
                 tail' = tail\<lparr>blk_size := usable, blk_buf := mem_resize (alloc_junk A) (blk_buf tail) usable\<rparr>
             in c\<lparr>c_reply := butlast (c_reply c) @ [Some tail'], c_reply_bytes := c_reply_bytes c + usable - blk_size tail\<rparr>)
          else c)"

definition addReplyDeferredLen :: "allocator \<Rightarrow> 'a client_scheme \<Rightarrow> nat option \<times> 'a client_scheme" where
  "addReplyDeferredLen A c =
     (let (ok, c) = prepareClientToWrite c
      in if \<not> ok then (None, c)
         else (let c = trimReplyUnusedTailSpace A c
               in (Some (length (c_reply c)), c\<lparr>c_reply := c_reply c @ [None]\<rparr>)))"

definition del_node :: "nat \<Rightarrow> 'b list \<Rightarrow> 'b list" where
  "del_node i xs = take i xs @ drop (Suc i) xs"

text \<open>First what fits goes to the end of the block before the placeholder, then the rest to the start of the block after it or
  to a block of its own.\<close>

definition deferred_prev :: "'a client_scheme \<Rightarrow> nat \<Rightarrow> bytes \<Rightarrow> ('a client_scheme \<times> bytes \<times> bool) option" where
  "deferred_prev c i s =
     (if i = 0 then Some (c, s, False)
      else (case c_reply c ! (i - 1) of
          None \<Rightarrow> Some (c, s, False)
        | Some prev \<Rightarrow>
            if 0 < blk_size prev - blk_used prev then do {
              (prev, s) \<leftarrow> append_block prev s;
              let c = c\<lparr>c_reply := (c_reply c)[i - 1 := Some prev]\<rparr>;
              Some (if s = [] then (c\<lparr>c_reply := del_node i (c_reply c)\<rparr>, s, True) else (c, s, False)) }
            else Some (c, s, False)))"

definition prepend_block :: "clientReplyBlock \<Rightarrow> bytes \<Rightarrow> clientReplyBlock option" where
  "prepend_block b s = do {
     buf \<leftarrow> mem_move (blk_buf b) (length s) 0 (blk_used b);
     buf \<leftarrow> mem_write buf 0 s;
     Some (b\<lparr>blk_buf := buf, blk_used := blk_used b + length s\<rparr>) }"

definition deferred_next :: "allocator \<Rightarrow> net_server \<Rightarrow> 'a client_scheme \<Rightarrow> nat \<Rightarrow> bytes \<Rightarrow> 'a client_scheme option" where
  "deferred_next A sv c i s =
     (case (if Suc i < length (c_reply c) then c_reply c ! Suc i else None) of
        Some nxt \<Rightarrow>
          if length s \<le> blk_size nxt - blk_used nxt \<and> blk_used nxt < PROTO_REPLY_CHUNK_BYTES * 4 then do {
            nxt \<leftarrow> prepend_block nxt s;
            Some (c\<lparr>c_reply := del_node i ((c_reply c)[Suc i := Some nxt])\<rparr>) }
          else do {
            b \<leftarrow> new_block A (length s) s;
            closeClientOnOutputBufferLimitReached sv
              (c\<lparr>c_reply := (c_reply c)[i := Some b], c_reply_bytes := c_reply_bytes c + blk_size b\<rparr>) }
      | None \<Rightarrow> do {
          b \<leftarrow> new_block A (length s) s;
          closeClientOnOutputBufferLimitReached sv
            (c\<lparr>c_reply := (c_reply c)[i := Some b], c_reply_bytes := c_reply_bytes c + blk_size b\<rparr>) })"

definition setDeferredReply :: "allocator \<Rightarrow> net_server \<Rightarrow> 'a client_scheme \<Rightarrow> nat option \<Rightarrow> bytes \<Rightarrow> 'a client_scheme option" where
  "setDeferredReply A sv c node s =
     (case node of
        None \<Rightarrow> Some c
      | Some i \<Rightarrow> do {
          v \<leftarrow> mem_get (c_reply c) i;
          _ \<leftarrow> assert_opt (v = None);
          (c, s, finished) \<leftarrow> deferred_prev c i s;
          if finished then Some c else deferred_next A sv c i s })"

section \<open>The protocol text of the replies\<close>

definition crlf :: bytes where "crlf = [13, 10]"

definition ascii :: "string \<Rightarrow> bytes" where "ascii t = map of_char t"

text \<open>The shared headers are printed once at startup. Shared string objects are given by their text.\<close>

definition shared_hdr :: "byte \<Rightarrow> int \<Rightarrow> bytes" where
  "shared_hdr pre n = pre # dec_int n @ crlf"

definition OBJ_SHARED_HDR_STRLEN :: "int \<Rightarrow> nat" where
  "OBJ_SHARED_HDR_STRLEN n = (if n < 10 then 4 else 5)"

definition print_hdr :: "allocator \<Rightarrow> nat \<Rightarrow> byte \<Rightarrow> s64 \<Rightarrow> bytes option" where
  "print_hdr A n pre ll = do {
     buf \<leftarrow> mem_put (fresh_block A n) 0 pre;
     (len, rest) \<leftarrow> ll2string (drop 1 buf) (word_of_nat (n - 1)) ll;
     let buf = take 1 buf @ rest;
     buf \<leftarrow> mem_put buf (unat len + 1) 13;
     buf \<leftarrow> mem_put buf (unat len + 2) 10;
     mem_read buf 0 (unat len + 3) }"

definition addReplyLongLongWithPrefix :: "allocator \<Rightarrow> net_server \<Rightarrow> 'a client_scheme \<Rightarrow> s64 \<Rightarrow> byte \<Rightarrow> 'a client_scheme option" where
  "addReplyLongLongWithPrefix A sv c ll pre =
     (let opt_hdr = (sint ll < OBJ_SHARED_BULKHDR_LEN \<and> 0 \<le> sint ll);
          hdr_len = OBJ_SHARED_HDR_STRLEN (sint ll)
      in if (pre = 42 \<or> pre = 36 \<or> pre = 37 \<or> pre = 126) \<and> opt_hdr then do {
           h \<leftarrow> mem_read (shared_hdr pre (sint ll)) 0 hdr_len;
           addReplyProto A sv c h }
         else do { h \<leftarrow> print_hdr A 128 pre ll; addReplyProto A sv c h })"

definition addReplyLongLong :: "allocator \<Rightarrow> net_server \<Rightarrow> 'a client_scheme \<Rightarrow> s64 \<Rightarrow> 'a client_scheme option" where
  "addReplyLongLong A sv c ll =
     (if ll = 0 then addReplyProto A sv c (ascii '':0'' @ crlf)
      else if ll = 1 then addReplyProto A sv c (ascii '':1'' @ crlf)
      else addReplyLongLongWithPrefix A sv c ll 58)"

definition addReplyAggregateLen :: "allocator \<Rightarrow> net_server \<Rightarrow> 'a client_scheme \<Rightarrow> s64 \<Rightarrow> byte \<Rightarrow> 'a client_scheme option" where
  "addReplyAggregateLen A sv c len pre = do {
     _ \<leftarrow> assert_opt (0 \<le> sint len);
     addReplyLongLongWithPrefix A sv c len pre }"

definition addReplyArrayLen :: "allocator \<Rightarrow> net_server \<Rightarrow> 'a client_scheme \<Rightarrow> s64 \<Rightarrow> 'a client_scheme option" where
  "addReplyArrayLen A sv c len = addReplyAggregateLen A sv c len 42"

definition addReplyMapLen :: "allocator \<Rightarrow> net_server \<Rightarrow> 'a client_scheme \<Rightarrow> s64 \<Rightarrow> 'a client_scheme option" where
  "addReplyMapLen A sv c len =
     addReplyAggregateLen A sv c (if c_resp c = 2 then len * 2 else len) (if c_resp c = 2 then 42 else 37)"

definition addReplySetLen :: "allocator \<Rightarrow> net_server \<Rightarrow> 'a client_scheme \<Rightarrow> s64 \<Rightarrow> 'a client_scheme option" where
  "addReplySetLen A sv c len = addReplyAggregateLen A sv c len (if c_resp c = 2 then 42 else 126)"

definition addReplyAttributeLen :: "allocator \<Rightarrow> net_server \<Rightarrow> 'a client_scheme \<Rightarrow> s64 \<Rightarrow> 'a client_scheme option" where
  "addReplyAttributeLen A sv c len = do { _ \<leftarrow> assert_opt (3 \<le> c_resp c); addReplyAggregateLen A sv c len 124 }"

definition addReplyPushLen :: "allocator \<Rightarrow> net_server \<Rightarrow> 'a client_scheme \<Rightarrow> s64 \<Rightarrow> 'a client_scheme option" where
  "addReplyPushLen A sv c len = do {
     _ \<leftarrow> assert_opt (3 \<le> c_resp c);
     _ \<leftarrow> assert_opt (has_flag c CLIENT_PUSHING);
     addReplyAggregateLen A sv c len 62 }"

definition addReplyNull :: "allocator \<Rightarrow> net_server \<Rightarrow> 'a client_scheme \<Rightarrow> 'a client_scheme option" where
  "addReplyNull A sv c = addReplyProto A sv c (if c_resp c = 2 then ascii ''$-1'' @ crlf else ascii ''_'' @ crlf)"

definition addReplyBool :: "allocator \<Rightarrow> net_server \<Rightarrow> 'a client_scheme \<Rightarrow> bool \<Rightarrow> 'a client_scheme option" where
  "addReplyBool A sv c b =
     (if c_resp c = 2 then addReplyProto A sv c (ascii (if b then '':1'' else '':0'') @ crlf)
      else addReplyProto A sv c (ascii (if b then ''#t'' else ''#f'') @ crlf))"

definition addReplyNullArray :: "allocator \<Rightarrow> net_server \<Rightarrow> 'a client_scheme \<Rightarrow> 'a client_scheme option" where
  "addReplyNullArray A sv c = addReplyProto A sv c (if c_resp c = 2 then ascii ''*-1'' @ crlf else ascii ''_'' @ crlf)"

definition addReplyBulkLen :: "allocator \<Rightarrow> net_server \<Rightarrow> 'a client_scheme \<Rightarrow> robj \<Rightarrow> 'a client_scheme option" where
  "addReplyBulkLen A sv c ob = do { len \<leftarrow> stringObjectLen ob; addReplyLongLongWithPrefix A sv c (word_of_nat len) 36 }"

definition addReplyBulk :: "allocator \<Rightarrow> net_server \<Rightarrow> 'a client_scheme \<Rightarrow> robj \<Rightarrow> 'a client_scheme option" where
  "addReplyBulk A sv c ob = do {
     c \<leftarrow> addReplyBulkLen A sv c ob;
     c \<leftarrow> addReply A sv c ob;
     addReplyProto A sv c crlf }"

definition addReplyBulkCBuffer :: "allocator \<Rightarrow> net_server \<Rightarrow> 'a client_scheme \<Rightarrow> bytes \<Rightarrow> 'a client_scheme option" where
  "addReplyBulkCBuffer A sv c p = do {
     c \<leftarrow> addReplyLongLongWithPrefix A sv c (word_of_nat (length p)) 36;
     c \<leftarrow> addReplyProto A sv c p;
     addReplyProto A sv c crlf }"

definition addReplyBulkSds :: "allocator \<Rightarrow> net_server \<Rightarrow> 'a client_scheme \<Rightarrow> sds \<Rightarrow> 'a client_scheme option" where
  "addReplyBulkSds A sv c s = do {
     c \<leftarrow> addReplyLongLongWithPrefix A sv c (word_of_nat (sdslen s)) 36;
     c \<leftarrow> addReplySds A sv c s;
     addReplyProto A sv c crlf }"

definition addReplyBulkCString :: "allocator \<Rightarrow> net_server \<Rightarrow> 'a client_scheme \<Rightarrow> bytes option \<Rightarrow> 'a client_scheme option" where
  "addReplyBulkCString A sv c s =
     (case s of None \<Rightarrow> addReplyNull A sv c | Some p \<Rightarrow> do { t \<leftarrow> cstr p; addReplyBulkCBuffer A sv c t })"

definition addReplyBulkLongLong :: "allocator \<Rightarrow> net_server \<Rightarrow> 'a client_scheme \<Rightarrow> s64 \<Rightarrow> 'a client_scheme option" where
  "addReplyBulkLongLong A sv c ll = do {
     (len, buf) \<leftarrow> ll2string (fresh_block A 64) 64 ll;
     t \<leftarrow> mem_read buf 0 (unat len);
     addReplyBulkCBuffer A sv c t }"

definition addReplyBigNum :: "allocator \<Rightarrow> net_server \<Rightarrow> 'a client_scheme \<Rightarrow> bytes \<Rightarrow> 'a client_scheme option" where
  "addReplyBigNum A sv c num =
     (if c_resp c = 2 then addReplyBulkCBuffer A sv c num
      else do {
        c \<leftarrow> addReplyProto A sv c (ascii ''('');
        c \<leftarrow> addReplyProto A sv c num;
        addReplyProto A sv c crlf })"

text \<open>Three characters of the type, filled up with spaces.\<close>

definition verbatim_ext :: "bytes \<Rightarrow> bytes" where
  "verbatim_ext ext = take 3 (ext @ replicate 3 32)"

definition addReplyVerbatim :: "allocator \<Rightarrow> net_server \<Rightarrow> 'a client_scheme \<Rightarrow> bytes \<Rightarrow> bytes \<Rightarrow> 'a client_scheme option" where
  "addReplyVerbatim A sv c s ext =
     (if c_resp c = 2 then addReplyBulkCBuffer A sv c s
      else do {
        e \<leftarrow> cstr ext;
        c \<leftarrow> addReplyProto A sv c (ascii ''='' @ dec_int (int (length s) + 4) @ crlf @ verbatim_ext e @ ascii '':'');
        c \<leftarrow> addReplyProto A sv c s;
        addReplyProto A sv c crlf })"

definition addReplyErrorLength :: "allocator \<Rightarrow> net_server \<Rightarrow> 'a client_scheme \<Rightarrow> bytes \<Rightarrow> 'a client_scheme option" where
  "addReplyErrorLength A sv c s = do {
     c \<leftarrow> (if s = [] \<or> hd s \<noteq> 45 then addReplyProto A sv c (ascii ''-ERR '') else Some c);
     c \<leftarrow> addReplyProto A sv c s;
     addReplyProto A sv c crlf }"

definition addReplyStatusLength :: "allocator \<Rightarrow> net_server \<Rightarrow> 'a client_scheme \<Rightarrow> bytes \<Rightarrow> 'a client_scheme option" where
  "addReplyStatusLength A sv c s = do {
     c \<leftarrow> addReplyProto A sv c (ascii ''+'');
     c \<leftarrow> addReplyProto A sv c s;
     addReplyProto A sv c crlf }"

definition setDeferredAggregateLen :: "allocator \<Rightarrow> net_server \<Rightarrow> 'a client_scheme \<Rightarrow> nat option \<Rightarrow> s64 \<Rightarrow> byte \<Rightarrow> 'a client_scheme option" where
  "setDeferredAggregateLen A sv c node len pre = do {
     _ \<leftarrow> assert_opt (0 \<le> sint len);
     if node = None then Some c
     else if (pre = 42 \<or> pre = 37 \<or> pre = 126) \<and> sint len < OBJ_SHARED_BULKHDR_LEN then do {
       h \<leftarrow> mem_read (shared_hdr pre (sint len)) 0 (OBJ_SHARED_HDR_STRLEN (sint len));
       setDeferredReply A sv c node h }
     else setDeferredReply A sv c node (pre # dec_int (sint len) @ crlf) }"

definition setDeferredArrayLen :: "allocator \<Rightarrow> net_server \<Rightarrow> 'a client_scheme \<Rightarrow> nat option \<Rightarrow> s64 \<Rightarrow> 'a client_scheme option" where
  "setDeferredArrayLen A sv c node len = setDeferredAggregateLen A sv c node len 42"

definition setDeferredMapLen :: "allocator \<Rightarrow> net_server \<Rightarrow> 'a client_scheme \<Rightarrow> nat option \<Rightarrow> s64 \<Rightarrow> 'a client_scheme option" where
  "setDeferredMapLen A sv c node len =
     setDeferredAggregateLen A sv c node (if c_resp c = 2 then len * 2 else len) (if c_resp c = 2 then 42 else 37)"

definition setDeferredSetLen :: "allocator \<Rightarrow> net_server \<Rightarrow> 'a client_scheme \<Rightarrow> nat option \<Rightarrow> s64 \<Rightarrow> 'a client_scheme option" where
  "setDeferredSetLen A sv c node len = setDeferredAggregateLen A sv c node len (if c_resp c = 2 then 42 else 126)"

definition setDeferredAttributeLen :: "allocator \<Rightarrow> net_server \<Rightarrow> 'a client_scheme \<Rightarrow> nat option \<Rightarrow> s64 \<Rightarrow> 'a client_scheme option" where
  "setDeferredAttributeLen A sv c node len = do { _ \<leftarrow> assert_opt (3 \<le> c_resp c); setDeferredAggregateLen A sv c node len 124 }"

definition setDeferredPushLen :: "allocator \<Rightarrow> net_server \<Rightarrow> 'a client_scheme \<Rightarrow> nat option \<Rightarrow> s64 \<Rightarrow> 'a client_scheme option" where
  "setDeferredPushLen A sv c node len = do { _ \<leftarrow> assert_opt (3 \<le> c_resp c); setDeferredAggregateLen A sv c node len 62 }"

text \<open>The text is printed with \<^verbatim>\<open>%s\<close>, which ends at its first zero byte; the length with \<^verbatim>\<open>%d\<close> of an \<^verbatim>\<open>unsigned\<close>.\<close>

definition setDeferredReplyBulkSds :: "allocator \<Rightarrow> net_server \<Rightarrow> 'a client_scheme \<Rightarrow> nat option \<Rightarrow> sds \<Rightarrow> 'a client_scheme option" where
  "setDeferredReplyBulkSds A sv c node s = do {
     t \<leftarrow> cstr (sds_buf s);
     setDeferredReply A sv c node (ascii ''$'' @ dec_int (sint (word_of_nat (sdslen s) :: 32 word)) @ crlf @ t @ crlf) }"

section \<open>Writing to the socket\<close>

record 's socket =
  sock_state :: 's
  conn_write :: "'s \<Rightarrow> bytes \<Rightarrow> int \<times> 's"
  connected :: "'s \<Rightarrow> bool"

definition block_used :: "clientReplyBlock option \<Rightarrow> nat" where
  "block_used b = (case b of None \<Rightarrow> 0 | Some b \<Rightarrow> blk_used b)"

text \<open>One call of \<^verbatim>\<open>connWrite\<close> with the bytes from \<open>i\<close> to \<open>n\<close> of a block; a socket that claims to have accepted
  more than it was offered breaks its contract.\<close>

definition offer :: "'s socket \<Rightarrow> bytes \<Rightarrow> nat \<Rightarrow> nat \<Rightarrow> (int \<times> bytes \<times> 's socket) option" where
  "offer so m i n = do {
     bs \<leftarrow> mem_read m i (n - i);
     let (r, st) = conn_write so (sock_state so) bs;
     _ \<leftarrow> assert_opt (r \<le> int (length bs));
     Some (r, take (nat r) bs, so\<lparr>sock_state := st\<rparr>) }"

text \<open>One round of the loop; the boolean says that \<^verbatim>\<open>break\<close> was reached before anything was sent, \<open>None\<close> for the number
  written means \<^verbatim>\<open>continue\<close>.\<close>

definition write_round :: "'s socket \<Rightarrow> 'a client_scheme \<Rightarrow> ('s socket \<times> 'a client_scheme \<times> int option \<times> bytes) option" where
  "write_round so c =
     (if 0 < c_bufpos c then do {
        (r, sent, so) \<leftarrow> offer so (c_buf c) (c_sentlen c) (c_bufpos c);
        if r \<le> 0 then Some (so, c, Some r, [])
        else (let c = c\<lparr>c_sentlen := c_sentlen c + nat r\<rparr>
              in Some (so, if c_sentlen c = c_bufpos c then c\<lparr>c_bufpos := 0, c_sentlen := 0\<rparr> else c, Some r, sent)) }
      else do {
        v \<leftarrow> mem_get (c_reply c) 0;
        b \<leftarrow> v;
        if blk_used b = 0 then Some (so, c\<lparr>c_reply_bytes := c_reply_bytes c - blk_size b, c_reply := tl (c_reply c)\<rparr>, None, [])
        else do {
          (r, sent, so) \<leftarrow> offer so (blk_buf b) (c_sentlen c) (blk_used b);
          if r \<le> 0 then Some (so, c, Some r, [])
          else (let c = c\<lparr>c_sentlen := c_sentlen c + nat r\<rparr>
                in if c_sentlen c = blk_used b then do {
                     let c = c\<lparr>c_reply_bytes := c_reply_bytes c - blk_size b, c_reply := tl (c_reply c), c_sentlen := 0\<rparr>;
                     _ \<leftarrow> assert_opt (c_reply c = [] \<longrightarrow> c_reply_bytes c = 0);
                     Some (so, c, Some r, sent) }
                   else Some (so, c, Some r, sent)) } })"

definition unsent :: "'a client_scheme \<Rightarrow> nat" where
  "unsent c = length (c_reply c) +
     (let n = sum_list (map block_used (c_reply c))
      in if 0 < c_bufpos c then c_bufpos c - c_sentlen c + n else n - c_sentlen c)"

lemma offer_sent: "offer so m i n = Some (r, sent, so') \<Longrightarrow> 0 < r \<Longrightarrow> nat r \<le> n - i \<and> i + (n - i) \<le> length m \<and> sent = take (nat r) (drop i m)"
  by (auto simp: offer_def mem_read_def assert_opt_def split: bind_splits if_splits prod.splits)

lemma write_round_less:
  assumes "write_round so c = Some (so', c', r, sent)" "r = None \<or> (\<exists>n. r = Some n \<and> 0 < n)" "clientHasPendingReplies c"
  shows "unsent c' < unsent c"
proof (cases "0 < c_bufpos c")
  case True
  then show ?thesis using assms
    by (auto simp: write_round_def unsent_def Let_def dest!: offer_sent split: bind_splits if_splits)
next
  case False
  then obtain v bs where v: "c_reply c = v # bs" using assms(3) by (cases "c_reply c") (auto simp: clientHasPendingReplies_def)
  with False assms(1) obtain b where b: "v = Some b" by (auto simp: write_round_def mem_get_def split: bind_splits)
  show ?thesis
  proof (cases "blk_used b = 0")
    case True
    then show ?thesis using assms(1) False v b by (auto simp: write_round_def mem_get_def unsent_def block_used_def)
  next
    case used: False
    then obtain n so1 where o: "offer so (blk_buf b) (c_sentlen c) (blk_used b) = Some (n, sent, so1)" "0 < n" "r = Some n"
      using assms(1,2) False v b by (auto simp: write_round_def mem_get_def Let_def split: bind_splits if_splits)
    then have "nat n \<le> blk_used b - c_sentlen c" using offer_sent by blast
    then show ?thesis using assms(1) o False v b used
      by (auto simp: write_round_def mem_get_def unsent_def block_used_def Let_def split: bind_splits if_splits)
  qed
qed

function write_loop :: "net_server \<Rightarrow> 's socket \<Rightarrow> 'a client_scheme \<Rightarrow> nat \<Rightarrow> bytes \<Rightarrow> ('s socket \<times> 'a client_scheme \<times> int \<times> bytes) option" where
  "write_loop sv so c nw sent =
     (if \<not> clientHasPendingReplies c then Some (so, c, int nw, sent)
      else (case write_round so c of
          None \<Rightarrow> None
        | Some (so, c, None, bs) \<Rightarrow> write_loop sv so c nw sent
        | Some (so, c, Some r, bs) \<Rightarrow>
            if r \<le> 0 then Some (so, c, r, sent)
            else if NET_MAX_WRITES_PER_EVENT < length (sent @ bs) \<and> (net_maxmemory sv = 0 \<or> used_memory sv < net_maxmemory sv) \<and>
                    \<not> has_flag c CLIENT_SLAVE
            then Some (so, c, r, sent @ bs)
            else write_loop sv so c (nat r) (sent @ bs)))"
  by pat_completeness auto
termination
  by (relation "measure (\<lambda>(sv, so, c, n, sent). unsent c)") (auto intro!: write_round_less)

declare write_loop.simps [simp del]

definition write_finish :: "net_server \<Rightarrow> bool \<Rightarrow> nat \<Rightarrow> 'a client_scheme \<Rightarrow> 'a client_scheme \<times> bool" where
  "write_finish sv handler_installed totwritten c =
     (let c = (if 0 < totwritten \<and> \<not> has_flag c CLIENT_MASTER then c\<lparr>c_lastinteraction := net_unixtime sv\<rparr> else c)
      in if \<not> clientHasPendingReplies c then
           (let c = c\<lparr>c_sentlen := 0, c_write_handler := (if handler_installed then False else c_write_handler c)\<rparr>
            in if has_flag c CLIENT_CLOSE_AFTER_REPLY then (freeClientAsync c, False) else (c, True))
         else (c, True))"

text \<open>The result is the socket, the client, the bytes sent and whether \<^verbatim>\<open>C_OK\<close> is returned.\<close>

definition writeToClient :: "net_server \<Rightarrow> 's socket \<Rightarrow> 'a client_scheme \<Rightarrow> bool \<Rightarrow> ('s socket \<times> 'a client_scheme \<times> bytes \<times> bool) option" where
  "writeToClient sv so c handler_installed = do {
     (so, c, nwritten, sent) \<leftarrow> write_loop sv so c 0 [];
     if nwritten = - 1 \<and> \<not> connected so (sock_state so) then Some (so, freeClientAsync c, sent, False)
     else (let (c, ok) = write_finish sv handler_installed (length sent) c in Some (so, c, sent, ok)) }"

end
