(* ===== verification/Reply_Stream.thy ===== *)
theory Reply_Stream
  imports Reply_Buffer
begin

text \<open>
  The output buffers of a client are a queue of bytes. The pending output (\<open>view\<close>) is what the fixed buffer and the
  blocks hold beyond what has been sent, with a mark for every open placeholder. Each operation of \<open>Reply_Buffer\<close> keeps
  the invariant \<open>out_inv\<close> and changes the pending output as its name says (\<open>emits\<close>, \<open>sends\<close>); a run of operations
  is then simulated by the text it means. The last section gives the protocol text of the reply functions.
\<close>

unbundle bit_operations_syntax


section \<open>Flags\<close>

lemma has_flag_bit: "has_flag c (push_bit i 1) \<longleftrightarrow> bit (c_flags c) i"
  by (simp only: has_flag_def and_single_bit)

lemma has_flag_or: "has_flag c (m OR n) \<longleftrightarrow> has_flag c m \<or> has_flag c n"
proof -
  have "c_flags c AND (m OR n) = 0 \<longleftrightarrow> c_flags c AND m = 0 \<and> c_flags c AND n = 0"
    unfolding bit.conj_disj_distrib by (rule or_eq_0_iff)
  then show ?thesis by (simp add: has_flag_def)
qed

lemma bit_set_flag: "bit (c_flags (set_flag (push_bit i 1) c)) j \<longleftrightarrow> bit (c_flags c) j \<or> i = j \<and> j < 64"
  by (auto simp: set_flag_def bit_simps)

lemma bit_clear_flag: "bit (c_flags (clear_flag m c)) j \<longleftrightarrow> bit (c_flags c) j \<and> \<not> bit m j"
  using bit_imp_le_length [of "c_flags c" j] by (auto simp: clear_flag_def bit_simps)

lemmas flag_defs = CLIENT_SLAVE_def CLIENT_MASTER_def CLIENT_MONITOR_def CLIENT_CLOSE_AFTER_REPLY_def CLIENT_LUA_def
  CLIENT_CLOSE_ASAP_def CLIENT_MASTER_FORCE_REPLY_def CLIENT_PUBSUB_def CLIENT_PENDING_WRITE_def CLIENT_REPLY_OFF_def
  CLIENT_REPLY_SKIP_def CLIENT_MODULE_def CLIENT_PENDING_READ_def CLIENT_PUSHING_def

lemma flag_bits:
  "has_flag c CLIENT_SLAVE \<longleftrightarrow> bit (c_flags c) 0"
  "has_flag c CLIENT_MASTER \<longleftrightarrow> bit (c_flags c) 1"
  "has_flag c CLIENT_MONITOR \<longleftrightarrow> bit (c_flags c) 2"
  "has_flag c CLIENT_CLOSE_AFTER_REPLY \<longleftrightarrow> bit (c_flags c) 6"
  "has_flag c CLIENT_LUA \<longleftrightarrow> bit (c_flags c) 8"
  "has_flag c CLIENT_CLOSE_ASAP \<longleftrightarrow> bit (c_flags c) 10"
  "has_flag c CLIENT_MASTER_FORCE_REPLY \<longleftrightarrow> bit (c_flags c) 13"
  "has_flag c CLIENT_PUBSUB \<longleftrightarrow> bit (c_flags c) 18"
  "has_flag c CLIENT_PENDING_WRITE \<longleftrightarrow> bit (c_flags c) 21"
  "has_flag c CLIENT_REPLY_OFF \<longleftrightarrow> bit (c_flags c) 22"
  "has_flag c CLIENT_REPLY_SKIP \<longleftrightarrow> bit (c_flags c) 24"
  "has_flag c CLIENT_MODULE \<longleftrightarrow> bit (c_flags c) 27"
  "has_flag c CLIENT_PENDING_READ \<longleftrightarrow> bit (c_flags c) 29"
  "has_flag c CLIENT_PUSHING \<longleftrightarrow> bit (c_flags c) 43"
  unfolding flag_defs by (rule has_flag_bit)+

lemma set_close_asap: "bit (c_flags (set_flag CLIENT_CLOSE_ASAP c)) j \<longleftrightarrow> bit (c_flags c) j \<or> j = 10"
  unfolding flag_defs bit_set_flag by auto

lemma set_pending_write: "bit (c_flags (set_flag CLIENT_PENDING_WRITE c)) j \<longleftrightarrow> bit (c_flags c) j \<or> j = 21"
  unfolding flag_defs bit_set_flag by auto

lemmas flag_simps = has_flag_or flag_bits set_close_asap set_pending_write

text \<open>Changing the flags or the time of the soft limit does not touch the buffers.\<close>

definition same_out :: "'a client_scheme \<Rightarrow> 'a client_scheme \<Rightarrow> bool" where
  "same_out c c' \<longleftrightarrow> (\<exists>f t. c' = c\<lparr>c_flags := f, c_obuf_soft_limit_reached_time := t\<rparr>)"

lemma same_out_refl [simp]: "same_out c c"
  unfolding same_out_def by (intro exI [of _ "c_flags c"] exI [of _ "c_obuf_soft_limit_reached_time c"]) simp

lemma same_out_trans: "same_out a b \<Longrightarrow> same_out b c \<Longrightarrow> same_out a c"
  unfolding same_out_def by fastforce

lemma same_out_flag [simp]: "same_out c (set_flag m c)"
  unfolding same_out_def set_flag_def by (intro exI [of _ "c_flags c OR m"] exI [of _ "c_obuf_soft_limit_reached_time c"]) simp

lemma same_out_soft: "same_out c (c\<lparr>c_obuf_soft_limit_reached_time := t\<rparr>)"
  unfolding same_out_def by (intro exI [of _ "c_flags c"] exI [of _ t]) simp

lemma same_outD:
  "same_out c c' \<Longrightarrow> c_buf c' = c_buf c \<and> c_bufpos c' = c_bufpos c \<and> c_sentlen c' = c_sentlen c \<and> c_reply c' = c_reply c \<and>
     c_reply_bytes c' = c_reply_bytes c \<and> c_conn c' = c_conn c \<and> c_resp c' = c_resp c"
  by (auto simp: same_out_def)

text \<open>Which flags the functions may set: the request to write and the request to close.\<close>

definition flags_grow :: "'a client_scheme \<Rightarrow> 'a client_scheme \<Rightarrow> bool" where
  "flags_grow c c' \<longleftrightarrow> (\<forall>i. i \<noteq> 10 \<longrightarrow> i \<noteq> 21 \<longrightarrow> bit (c_flags c') i = bit (c_flags c) i) \<and> (bit (c_flags c) 10 \<longrightarrow> bit (c_flags c') 10)"

lemma flags_grow_refl [simp]: "c_flags c' = c_flags c \<Longrightarrow> flags_grow c c'"
  by (simp add: flags_grow_def)

lemma flags_grow_trans: "flags_grow a b \<Longrightarrow> flags_grow b c \<Longrightarrow> flags_grow a c"
  by (auto simp: flags_grow_def)

definition accepts :: "'a client_scheme \<Rightarrow> bool" where
  "accepts c \<longleftrightarrow> fst (prepareClientToWrite c) \<and> \<not> has_flag c CLIENT_CLOSE_AFTER_REPLY"

lemma accepts_bits:
  "accepts c \<longleftrightarrow> \<not> bit (c_flags c) 6 \<and> (bit (c_flags c) 8 \<or> bit (c_flags c) 27 \<or>
     \<not> bit (c_flags c) 10 \<and> \<not> ((bit (c_flags c) 22 \<or> bit (c_flags c) 24) \<and> \<not> bit (c_flags c) 43) \<and>
     \<not> (bit (c_flags c) 1 \<and> \<not> bit (c_flags c) 13) \<and> c_conn c)"
  unfolding accepts_def prepareClientToWrite_def flag_simps by auto

text \<open>A client that accepts output at the end has accepted it all the time.\<close>

lemma accepts_anti:
  assumes "flags_grow c c'" "c_conn c' = c_conn c" "accepts c'"
  shows "accepts c"
  using assms unfolding accepts_bits flags_grow_def by auto

lemma install_facts: "same_out c (clientInstallWriteHandler c)" "flags_grow c (clientInstallWriteHandler c)"
  by (auto simp: clientInstallWriteHandler_def flags_grow_def flag_simps)

lemma prepare_facts: "same_out c (snd (prepareClientToWrite c))" "flags_grow c (snd (prepareClientToWrite c))"
  by (auto simp: prepareClientToWrite_def install_facts)

lemma free_facts: "same_out c (freeClientAsync c)" "flags_grow c (freeClientAsync c)"
  by (auto simp: freeClientAsync_def flags_grow_def flag_simps)

lemma close_facts:
  assumes "c_reply_bytes c < 2 ^ 64 - 1 - 1024 * 64"
  shows "\<exists>c'. closeClientOnOutputBufferLimitReached sv c = Some c' \<and> same_out c c' \<and> flags_grow c c'"
proof -
  obtain r c1 where c1: "checkClientOutputBufferLimits sv c = (r, c1)" by (meson surj_pair)
  then have "same_out c c1" "c_flags c1 = c_flags c"
    by (auto simp: checkClientOutputBufferLimits_def Let_def same_out_soft split: if_splits)
  then show ?thesis using assms c1 same_out_trans [of c c1] free_facts [of c1] flags_grow_trans [of c c1]
    by (auto simp: closeClientOnOutputBufferLimitReached_def)
qed

section \<open>The pending output\<close>

text \<open>What is still to be sent, with \<open>None\<close> for a placeholder.\<close>

definition block_ok :: "clientReplyBlock \<Rightarrow> bool" where
  "block_ok b \<longleftrightarrow> blk_used b \<le> blk_size b \<and> length (blk_buf b) = blk_size b"

definition block_text :: "clientReplyBlock \<Rightarrow> bytes" where
  "block_text b = take (blk_used b) (blk_buf b)"

definition block_view :: "clientReplyBlock option \<Rightarrow> byte option list" where
  "block_view v = (case v of None \<Rightarrow> [None] | Some b \<Rightarrow> map Some (block_text b))"

definition blocks_view :: "clientReplyBlock option list \<Rightarrow> byte option list" where
  "blocks_view bs = concat (map block_view bs)"

definition view :: "'a client_scheme \<Rightarrow> byte option list" where
  "view c =
     (if 0 < c_bufpos c then map Some (drop (c_sentlen c) (take (c_bufpos c) (c_buf c))) @ blocks_view (c_reply c)
      else drop (c_sentlen c) (blocks_view (c_reply c)))"

definition block_bytes :: "clientReplyBlock option \<Rightarrow> nat" where
  "block_bytes v = (case v of None \<Rightarrow> 0 | Some b \<Rightarrow> blk_size b)"

definition out_inv :: "'a client_scheme \<Rightarrow> bool" where
  "out_inv c \<longleftrightarrow> c_bufpos c \<le> length (c_buf c) \<and>
     (if 0 < c_bufpos c then c_sentlen c < c_bufpos c
      else c_sentlen c = 0 \<or> (\<exists>b bs. c_reply c = Some b # bs \<and> c_sentlen c < blk_used b)) \<and>
     (\<forall>b. Some b \<in> set (c_reply c) \<longrightarrow> block_ok b) \<and>
     c_reply_bytes c = sum_list (map block_bytes (c_reply c))"

lemma view_simps [simp]:
  "blocks_view [] = []" "blocks_view (v # bs) = block_view v @ blocks_view bs" "blocks_view (bs @ bs') = blocks_view bs @ blocks_view bs'"
  "block_view None = [None]" "block_view (Some b) = map Some (block_text b)" "block_bytes None = 0" "block_bytes (Some b) = blk_size b"
  by (simp_all add: blocks_view_def block_view_def block_bytes_def)

lemma length_block_text [simp]: "block_ok b \<Longrightarrow> length (block_text b) = blk_used b"
  by (simp add: block_ok_def block_text_def)

lemma same_out_view: "same_out c c' \<Longrightarrow> view c' = view c" "same_out c c' \<Longrightarrow> out_inv c' = out_inv c"
  by (auto simp: same_out_def view_def out_inv_def)

text \<open>What has been sent of the list belongs to its first block.\<close>

lemma sent_le:
  assumes "out_inv c" "c_bufpos c = 0" "c_reply c = bs @ v # bs'" "v = None \<or> bs \<noteq> []"
  shows "c_sentlen c \<le> length (blocks_view bs)"
  using assms by (cases bs) (auto simp: out_inv_def)

lemma sent_le_all: "out_inv c \<Longrightarrow> c_bufpos c = 0 \<Longrightarrow> c_sentlen c \<le> length (blocks_view (c_reply c))"
  by (auto simp: out_inv_def)

lemma append_block_eq:
  assumes "block_ok b"
  shows "\<exists>b'. append_block b s = Some (b', drop (blk_size b - blk_used b) s) \<and> block_ok b' \<and> blk_size b' = blk_size b \<and> blk_used b \<le> blk_used b' \<and>
    block_text b' @ drop (blk_size b - blk_used b) s = block_text b @ s"
proof -
  define n where "n = (if length s \<le> blk_size b - blk_used b then length s else blk_size b - blk_used b)"
  define b' where "b' = b\<lparr>blk_buf := take (blk_used b) (blk_buf b) @ take n s @ drop (blk_used b + n) (blk_buf b), blk_used := blk_used b + n\<rparr>"
  have u: "blk_used b \<le> length (blk_buf b)" "blk_used b + n \<le> length (blk_buf b)" "n \<le> length s" "drop n s = drop (blk_size b - blk_used b) s"
    using assms by (auto simp: block_ok_def n_def)
  have "mem_write (blk_buf b) (blk_used b) (take n s) = Some (blk_buf b')" using u by (simp add: mem_write_eq b'_def)
  then have "append_block b s = Some (b', drop n s)" by (simp add: append_block_def Let_def b'_def n_def)
  moreover have "block_ok b'" using assms u by (auto simp: block_ok_def b'_def)
  moreover have "block_text b' = block_text b @ take n s" using u by (simp add: block_text_def b'_def)
  moreover have "take n s @ drop (blk_size b - blk_used b) s = s" using u(4) by (metis append_take_drop_id)
  ultimately show ?thesis using u by (simp add: b'_def)
qed

lemma new_block_eq:
  assumes "length s \<le> n"
  shows "\<exists>b. new_block A n s = Some b \<and> block_ok b \<and> block_text b = s \<and> blk_used b = length s \<and> blk_size b = n + alloc_slack A (n + 16)"
  using assms by (simp add: new_block_def mem_write_eq fresh_block_def block_ok_def block_text_def Let_def)

text \<open>The memory a reply may need, with an allocator that at most doubles a request; every block has a header of 16 bytes.\<close>

definition modest :: "allocator \<Rightarrow> bool" where
  "modest A \<longleftrightarrow> (\<forall>n. alloc_slack A (n + 16) \<le> n + 16)"

definition grow :: "bytes \<Rightarrow> nat" where
  "grow s = 2 * (length s + PROTO_REPLY_CHUNK_BYTES + 16)"

definition MAX_REPLY_BYTES :: nat where "MAX_REPLY_BYTES = 2 ^ 64 - 1 - 1024 * 64"

text \<open>The positions of the placeholders.\<close>

definition holes :: "clientReplyBlock option list \<Rightarrow> nat list" where
  "holes bs = filter (\<lambda>i. bs ! i = None) [0..<length bs]"

lemma holes_append: "holes (bs @ bs') = holes bs @ map (\<lambda>i. i + length bs) (holes bs')"
proof -
  have f: "filter (\<lambda>i. (bs @ bs') ! i = None) [0..<length bs] = holes bs" unfolding holes_def by (rule filter_cong) (simp_all add: nth_append)
  have "[length bs..<length bs + length bs'] = map (\<lambda>i. i + length bs) [0..<length bs']" by (simp add: map_add_upt add.commute)
  then have "filter (\<lambda>i. (bs @ bs') ! i = None) [length bs..<length bs + length bs'] = map (\<lambda>i. i + length bs) (holes bs')"
    by (simp add: holes_def filter_map comp_def nth_append)
  then show ?thesis using f by (simp add: holes_def [of "bs @ bs'"] upt_add_eq_append [OF le0])
qed

lemma holes_simps [simp]: "holes [] = []" "holes [Some b] = []" "holes [None] = [0]"
  by (simp_all add: holes_def)

lemma holes_none: "None \<notin> set bs \<longleftrightarrow> holes bs = []"
  by (auto simp: holes_def filter_empty_conv in_set_conv_nth)

text \<open>How an operation changes the buffers: the view it leaves, the memory it may add.\<close>

definition emits :: "'a client_scheme \<Rightarrow> byte option list \<Rightarrow> nat list \<Rightarrow> nat \<Rightarrow> 'a client_scheme \<Rightarrow> bool" where
  "emits c v h n c' \<longleftrightarrow> out_inv c' \<and> view c' = v \<and> holes (c_reply c') = h \<and> c_reply_bytes c' \<le> c_reply_bytes c + n \<and> flags_grow c c' \<and> c_conn c' = c_conn c \<and> c_resp c' = c_resp c"

lemma emits_same: "out_inv c \<Longrightarrow> same_out c c' \<Longrightarrow> flags_grow c c' \<Longrightarrow> emits c (view c) (holes (c_reply c)) 0 c'"
  using same_out_view [of c c'] same_outD [of c c'] by (simp add: emits_def)

lemma emits_trans: "emits a v g m b \<Longrightarrow> emits b w h n c \<Longrightarrow> emits a w h (m + n) c"
  using flags_grow_trans by (fastforce simp: emits_def)

lemma emits_same_right: "emits a v h n b \<Longrightarrow> same_out b c \<Longrightarrow> flags_grow b c \<Longrightarrow> emits a v h n c"
  using emits_trans [of a v h n b v h 0 c] emits_same [of b c] by (simp add: emits_def)

lemma emits_mono: "emits a v h m b \<Longrightarrow> m \<le> n \<Longrightarrow> emits a v h n b"
  by (auto simp: emits_def)

lemma view_list:
  assumes "out_inv c" "out_inv c'" "c_bufpos c' = c_bufpos c" "c_sentlen c' = c_sentlen c" "c_buf c' = c_buf c"
    "blocks_view (c_reply c') = blocks_view (c_reply c) @ w"
  shows "view c' = view c @ w"
  using assms sent_le_all [OF assms(1)] by (simp add: view_def)

lemma close_block:
  assumes "out_inv c" "c_reply_bytes c + blk_size b < MAX_REPLY_BYTES" "block_ok b"
  shows "\<exists>c'. closeClientOnOutputBufferLimitReached sv (c\<lparr>c_reply := c_reply c @ [Some b], c_reply_bytes := c_reply_bytes c + blk_size b\<rparr>) = Some c' \<and>
    emits c (view c @ map Some (block_text b)) (holes (c_reply c)) (blk_size b) c'"
proof -
  let ?c = "c\<lparr>c_reply := c_reply c @ [Some b], c_reply_bytes := c_reply_bytes c + blk_size b\<rparr>"
  have i: "out_inv ?c" using assms(1,3) by (auto simp: out_inv_def)
  have v: "view ?c = view c @ map Some (block_text b)" by (rule view_list [OF assms(1) i]) simp_all
  have "emits c (view c @ map Some (block_text b)) (holes (c_reply c)) (blk_size b) ?c" using i v by (simp add: emits_def holes_append)
  moreover obtain c' where "closeClientOnOutputBufferLimitReached sv ?c = Some c'" "same_out ?c c'" "flags_grow ?c c'"
    using close_facts [of ?c sv] assms(2) by (auto simp: MAX_REPLY_BYTES_def)
  ultimately show ?thesis using emits_same_right by blast
qed

lemma toBuffer_eq:
  assumes "out_inv c" "\<not> has_flag c CLIENT_CLOSE_AFTER_REPLY"
  shows "\<exists>r. addReplyToBuffer c s = Some r \<and> (\<forall>c'. r = Some c' \<longrightarrow> emits c (view c @ map Some s) (holes (c_reply c)) 0 c')"
proof (cases "c_reply c = [] \<and> length s \<le> length (c_buf c) - c_bufpos c")
  case True
  let ?buf = "take (c_bufpos c) (c_buf c) @ s @ drop (c_bufpos c + length s) (c_buf c)"
  let ?c = "c\<lparr>c_buf := ?buf, c_bufpos := c_bufpos c + length s\<rparr>"
  have p: "c_bufpos c \<le> length (c_buf c)" "c_sentlen c \<le> c_bufpos c" "c_bufpos c = 0 \<Longrightarrow> c_sentlen c = 0" using assms(1) True by (auto simp: out_inv_def split: if_splits)
  have "mem_write (c_buf c) (c_bufpos c) s = Some ?buf" by (rule mem_write_eq) (use True p(1) in linarith)
  then have w: "addReplyToBuffer c s = Some (Some ?c)" using True p assms(2) by (simp add: addReplyToBuffer_def mem_write_eq Let_def not_less)
  have "out_inv ?c" using assms(1) True p by (auto simp: out_inv_def split: if_splits)
  moreover have "view ?c = view c @ map Some s" using True p by (cases "c_bufpos c = 0") (auto simp: view_def)
  ultimately show ?thesis using w by (simp add: emits_def)
next
  case False
  then show ?thesis using assms by (auto simp: addReplyToBuffer_def Let_def)
qed

lemma toList_eq:
  assumes "out_inv c" "\<not> has_flag c CLIENT_CLOSE_AFTER_REPLY" "c_reply_bytes c + grow s < MAX_REPLY_BYTES" "modest A"
  shows "\<exists>c'. addReplyProtoToList A sv c s = Some c' \<and> emits c (view c @ map Some s) (holes (c_reply c)) (grow s) c'"
proof -
  let ?tail = "if c_reply c = [] then None else last (c_reply c)"
  have "\<exists>c1 s1 t. (case ?tail of None \<Rightarrow> Some (c, s) | Some tail \<Rightarrow> do {
       (tail, s) \<leftarrow> append_block tail s;
       Some (c\<lparr>c_reply := butlast (c_reply c) @ [Some tail]\<rparr>, s) }) = Some (c1, s1) \<and> emits c (view c @ map Some t) (holes (c_reply c)) 0 c1 \<and> t @ s1 = s"
  proof (cases ?tail)
    case None
    then show ?thesis using assms(1) by (intro exI [of _ c] exI [of _ s] exI [of _ "[]"]) (simp add: emits_def)
  next
    case (Some b)
    then have r: "c_reply c = butlast (c_reply c) @ [Some b]" by (metis append_butlast_last_id option.distinct(1))
    then have b: "block_ok b" using assms(1) by (metis out_inv_def in_set_conv_decomp)
    let ?d = "drop (blk_size b - blk_used b) s" and ?t = "take (blk_size b - blk_used b) s"
    obtain b' where b': "append_block b s = Some (b', ?d)" "block_ok b'" "blk_size b' = blk_size b" "blk_used b \<le> blk_used b'" "block_text b' @ ?d = block_text b @ s"
      using append_block_eq [OF b, of s] by blast
    then have t: "block_text b' = block_text b @ ?t" by (metis append_assoc append_same_eq append_take_drop_id)
    let ?c = "c\<lparr>c_reply := butlast (c_reply c) @ [Some b']\<rparr>"
    have i: "out_inv ?c" using assms(1) b'(2-4) r unfolding out_inv_def
      by (cases "butlast (c_reply c)") (auto split: if_splits)
    have "blocks_view (c_reply ?c) = blocks_view (c_reply c) @ map Some ?t" by (subst (2) r) (simp add: t)
    then have "view ?c = view c @ map Some ?t" by (intro view_list [OF assms(1) i]) simp_all
    moreover have "c_reply_bytes ?c = c_reply_bytes c" by simp
    moreover have "holes (c_reply ?c) = holes (c_reply c)" by (subst (2) r) (simp add: holes_append)
    ultimately have "emits c (view c @ map Some ?t) (holes (c_reply c)) 0 ?c" using i by (simp add: emits_def)
    then show ?thesis using Some b'(1) by (intro exI [of _ ?c] exI [of _ ?d] exI [of _ ?t]) simp
  qed
  then obtain c1 s1 t where 1: "(case ?tail of None \<Rightarrow> Some (c, s) | Some tail \<Rightarrow> do {
       (tail, s) \<leftarrow> append_block tail s;
       Some (c\<lparr>c_reply := butlast (c_reply c) @ [Some tail]\<rparr>, s) }) = Some (c1, s1)" "emits c (view c @ map Some t) (holes (c_reply c)) 0 c1" "t @ s1 = s" by blast
  show ?thesis
  proof (cases "s1 = []")
    case True
    then show ?thesis using 1 assms(2) emits_mono [of c _ _ 0 c1 "grow s"] by (auto simp: addReplyProtoToList_def)
  next
    case False
    define n where "n = (if length s1 < PROTO_REPLY_CHUNK_BYTES then PROTO_REPLY_CHUNK_BYTES else length s1)"
    have "length s1 \<le> length s" using 1(3) by auto
    then have n: "length s1 \<le> n" "n \<le> length s + PROTO_REPLY_CHUNK_BYTES" by (auto simp: n_def)
    obtain b where b: "new_block A n s1 = Some b" "block_ok b" "block_text b = s1" "blk_size b = n + alloc_slack A (n + 16)"
      using new_block_eq [OF n(1), of A] by auto
    have "alloc_slack A (n + 16) \<le> n + 16" using assms(4) unfolding modest_def by blast
    then have g: "blk_size b \<le> grow s" using n(2) by (simp add: b(4) grow_def)
    then have room: "c_reply_bytes c1 + blk_size b < MAX_REPLY_BYTES" using 1(2) assms(3) by (simp add: emits_def)
    have "out_inv c1" "view c1 = view c @ map Some t" using 1(2) by (auto simp: emits_def)
    with close_block [OF _ room b(2), of sv] b(3) obtain c' where cl: "closeClientOnOutputBufferLimitReached sv (c1\<lparr>c_reply := c_reply c1 @ [Some b], c_reply_bytes := c_reply_bytes c1 + blk_size b\<rparr>) = Some c'"
      "emits c1 ((view c @ map Some t) @ map Some s1) (holes (c_reply c)) (blk_size b) c'" using 1(2) by (auto simp: emits_def)
    moreover have "(view c @ map Some t) @ map Some s1 = view c @ map Some s" using 1(3) by auto
    ultimately have "emits c (view c @ map Some s) (holes (c_reply c)) (grow s) c'"
      using emits_trans [OF 1(2), of "view c @ map Some s" "holes (c_reply c)" "blk_size b" c'] emits_mono g by fastforce
    then show ?thesis using 1(1) assms(2) b(1) False cl unfolding n_def by (simp add: addReplyProtoToList_def)
  qed
qed

lemma addReplyProto_eq:
  assumes "out_inv c" "c_reply_bytes c + grow s < MAX_REPLY_BYTES" "modest A"
  shows "\<exists>c'. addReplyProto A sv c s = Some c' \<and> emits c (view c @ (if accepts c then map Some s else [])) (holes (c_reply c)) (grow s) c'"
proof -
  obtain ok c1 where p: "prepareClientToWrite c = (ok, c1)" by (cases "prepareClientToWrite c") auto
  then have c1: "same_out c c1" "flags_grow c c1" using prepare_facts [of c] by auto
  have e: "emits c (view c) (holes (c_reply c)) 0 c1" "out_inv c1" "view c1 = view c" "c_reply_bytes c1 = c_reply_bytes c" "c_reply c1 = c_reply c"
    using emits_same [OF assms(1) c1] same_outD [OF c1(1)] by (simp_all add: emits_def)
  have f: "has_flag c1 CLIENT_CLOSE_AFTER_REPLY = has_flag c CLIENT_CLOSE_AFTER_REPLY" using c1(2) unfolding flag_bits flags_grow_def by auto
  show ?thesis
  proof (cases "accepts c")
    case False
    then have "addReplyProto A sv c s = Some c1" using p f
      by (auto simp: addReplyProto_def accepts_def addReplyToBuffer_def addReplyProtoToList_def Let_def)
    then show ?thesis using emits_mono [OF e(1), of "grow s"] False by simp
  next
    case True
    then have ok: "ok" "\<not> has_flag c1 CLIENT_CLOSE_AFTER_REPLY" using p f by (auto simp: accepts_def)
    obtain r where r: "addReplyToBuffer c1 s = Some r" "\<forall>c'. r = Some c' \<longrightarrow> emits c1 (view c1 @ map Some s) (holes (c_reply c1)) 0 c'"
      using toBuffer_eq [OF e(2) ok(2)] by blast
    obtain c2 where c2: "addReplyProtoToList A sv c1 s = Some c2" "emits c1 (view c1 @ map Some s) (holes (c_reply c1)) (grow s) c2"
      using toList_eq [OF e(2) ok(2) _ assms(3), of s sv] assms(2) e(4) by auto
    show ?thesis
    proof (cases r)
      case None
      then have "addReplyProto A sv c s = Some c2" using p ok(1) r(1) c2(1) by (simp add: addReplyProto_def)
      then show ?thesis using emits_trans [OF e(1) c2(2)] True e(3,5) by simp
    next
      case (Some c3)
      then have "addReplyProto A sv c s = Some c3" using p ok(1) r(1) by (simp add: addReplyProto_def)
      moreover have "emits c (view c @ map Some s) (holes (c_reply c)) 0 c3" using emits_trans [OF e(1), of "view c1 @ map Some s" "holes (c_reply c1)" 0 c3] r(2) Some e(3,5) by simp
      ultimately show ?thesis using emits_mono [of c "view c @ map Some s" "holes (c_reply c)" 0 c3 "grow s"] True by simp
    qed
  qed
qed

section \<open>Placeholders\<close>

text \<open>The last placeholder of a view replaced by a text.\<close>

fun fill_last :: "bytes \<Rightarrow> byte option list \<Rightarrow> byte option list" where
  "fill_last s [] = []"
| "fill_last s (x # xs) = (if None \<in> set xs then x # fill_last s xs else case x of None \<Rightarrow> map Some s @ xs | Some b \<Rightarrow> x # xs)"

lemma fill_last_eq: "None \<notin> set w \<Longrightarrow> fill_last s (v @ None # w) = v @ map Some s @ w"
  by (induction v) auto

lemma no_holes: "None \<notin> set bs \<Longrightarrow> None \<notin> set (blocks_view bs)"
proof (induction bs)
  case (Cons v bs)
  then obtain b where "v = Some b" by (cases v) auto
  then show ?case using Cons by simp
qed simp

lemma trim_eq:
  assumes "out_inv c" "modest A"
  shows "emits c (view c) (holes (c_reply c)) (grow []) (trimReplyUnusedTailSpace A c)"
proof (cases "\<exists>b bs. c_reply c = bs @ [Some b] \<and> blk_size b div 4 < blk_size b - blk_used b \<and> blk_used b < PROTO_REPLY_CHUNK_BYTES")
  case True
  then obtain b bs where b: "c_reply c = bs @ [Some b]" "blk_size b div 4 < blk_size b - blk_used b" "blk_used b < PROTO_REPLY_CHUNK_BYTES" by blast
  define u where "u = blk_used b + alloc_slack A (blk_used b + 16)"
  define b' where "b' = b\<lparr>blk_size := u, blk_buf := mem_resize (alloc_junk A) (blk_buf b) u\<rparr>"
  let ?c = "c\<lparr>c_reply := bs @ [Some b'], c_reply_bytes := c_reply_bytes c + u - blk_size b\<rparr>"
  have t: "trimReplyUnusedTailSpace A c = ?c" using b by (simp add: trimReplyUnusedTailSpace_def u_def b'_def Let_def)
  have ok: "block_ok b" using assms(1) b(1) by (auto simp: out_inv_def)
  have "alloc_slack A (blk_used b + 16) \<le> blk_used b + 16" using assms(2) unfolding modest_def by blast
  then have u: "blk_used b \<le> u" "u \<le> grow []" using b(3) by (simp_all add: u_def grow_def)
  have b': "block_ok b'" "block_text b' = block_text b" "blk_used b' = blk_used b" "blk_size b' = u"
    using ok u(1) by (auto simp: b'_def block_ok_def block_text_def mem_resize_def min_def)
  have "out_inv ?c" using assms(1) b(1) b' unfolding out_inv_def by (cases bs) (auto split: if_splits)
  moreover have "view ?c = view c" using b(1) b' by (simp add: view_def)
  moreover have "c_reply_bytes ?c \<le> c_reply_bytes c + grow []" using u by simp
  ultimately show ?thesis using b(1) unfolding t by (simp add: emits_def holes_append)
next
  case False
  then have "trimReplyUnusedTailSpace A c = c"
    by (cases "c_reply c" rule: rev_cases) (auto simp: trimReplyUnusedTailSpace_def split: option.splits)
  then show ?thesis using assms(1) by (simp add: emits_def)
qed

lemma addReplyDeferredLen_eq:
  assumes "out_inv c" "modest A"
  shows "\<exists>node c'. addReplyDeferredLen A c = (node, c') \<and>
    (if fst (prepareClientToWrite c) then \<exists>i. node = Some i \<and> emits c (view c @ [None]) (holes (c_reply c) @ [i]) (grow []) c'
     else node = None \<and> emits c (view c) (holes (c_reply c)) (grow []) c')"
proof -
  obtain ok c1 where p: "prepareClientToWrite c = (ok, c1)" by (cases "prepareClientToWrite c") auto
  then have c1: "same_out c c1" "flags_grow c c1" using prepare_facts [of c] by auto
  have e: "emits c (view c) (holes (c_reply c)) 0 c1" "out_inv c1" "view c1 = view c" "c_reply c1 = c_reply c"
    using emits_same [OF assms(1) c1] same_outD [OF c1(1)] by (simp_all add: emits_def)
  show ?thesis
  proof (cases ok)
    case False
    then show ?thesis using p emits_mono [OF e(1), of "grow []"] by (simp add: addReplyDeferredLen_def)
  next
    case True
    define c2 where "c2 = trimReplyUnusedTailSpace A c1"
    have c2: "emits c1 (view c) (holes (c_reply c)) (grow []) c2" using trim_eq [OF e(2) assms(2)] e(3,4) by (simp add: c2_def)
    let ?c = "c2\<lparr>c_reply := c_reply c2 @ [None]\<rparr>"
    have "out_inv c2" using c2 by (simp add: emits_def)
    then have i: "out_inv ?c" by (auto simp: out_inv_def)
    have "view ?c = view c2 @ [None]" by (rule view_list [OF \<open>out_inv c2\<close> i]) simp_all
    then have "emits c1 (view c @ [None]) (holes (c_reply c) @ [length (c_reply c2)]) (grow []) ?c"
      using c2 i by (simp add: emits_def holes_append flags_grow_def)
    from emits_trans [OF e(1) this] show ?thesis using p True by (auto simp: addReplyDeferredLen_def c2_def Let_def)
  qed
qed

lemma holes_snoc:
  assumes "holes bs = hs @ [i]"
  shows "\<exists>pre post. bs = pre @ None # post \<and> length pre = i \<and> None \<notin> set post \<and> holes pre = hs"
proof -
  have "i \<in> set (holes bs)" using assms by simp
  then have i: "i < length bs" "bs ! i = None" by (auto simp: holes_def)
  let ?p = "take i bs" and ?q = "drop (Suc i) bs"
  have b: "bs = ?p @ [None] @ ?q" using id_take_nth_drop [OF i(1)] i(2) by simp
  have len: "length ?p = i" using i(1) by simp
  have "holes bs = holes ?p @ [i] @ map (\<lambda>k. k + Suc i) (holes ?q)" using i(1) by (subst b, subst holes_append, subst holes_append) (simp add: min_absorb2)
  then have e: "hs @ [i] = holes ?p @ i # map (\<lambda>k. k + Suc i) (holes ?q)" using assms by simp
  have "holes ?q = []"
  proof (cases "holes ?q" rule: rev_cases)
    case (snoc ys y)
    with e have "last (hs @ [i]) = y + Suc i" by simp
    then show ?thesis by simp
  qed simp
  then show ?thesis using b len e holes_none [of ?q] by (intro exI [of _ ?p] exI [of _ ?q]) simp
qed

definition before :: "'a client_scheme \<Rightarrow> clientReplyBlock option list \<Rightarrow> byte option list" where
  "before c pre = (if 0 < c_bufpos c then map Some (drop (c_sentlen c) (take (c_bufpos c) (c_buf c))) @ blocks_view pre
     else drop (c_sentlen c) (blocks_view pre))"

lemma view_split:
  assumes "out_inv c" "c_reply c = pre @ None # post"
  shows "view c = before c pre @ None # blocks_view post"
  using assms sent_le [OF assms(1) _ assms(2)] by (auto simp: view_def before_def)

lemma before_append:
  assumes "out_inv c" "c_reply c = pre @ None # post" "blocks_view pre' = blocks_view pre @ w"
  shows "before c pre' = before c pre @ w"
  using assms(3) sent_le [OF assms(1) _ assms(2)] by (auto simp: before_def)

lemma fill_view:
  assumes "out_inv c" "c_reply c = pre @ None # post" "None \<notin> set post" "c_bufpos c' = c_bufpos c" "c_sentlen c' = c_sentlen c" "c_buf c' = c_buf c"
    "blocks_view (c_reply c') = blocks_view pre @ map Some s @ blocks_view post"
  shows "view c' = fill_last s (view c)"
proof -
  have "view c' = before c pre @ map Some s @ blocks_view post"
    using assms(4-) sent_le [OF assms(1) _ assms(2)] by (auto simp: view_def before_def)
  then show ?thesis unfolding view_split [OF assms(1,2)] fill_last_eq [OF no_holes [OF assms(3)]] .
qed

lemma prepend_block_eq:
  assumes "block_ok b" "length s \<le> blk_size b - blk_used b"
  shows "\<exists>b'. prepend_block b s = Some b' \<and> block_ok b' \<and> blk_size b' = blk_size b \<and> blk_used b \<le> blk_used b' \<and> block_text b' = s @ block_text b"
proof -
  have l: "blk_used b + length s \<le> length (blk_buf b)" "length (take (blk_used b) (blk_buf b)) = blk_used b"
    using assms by (auto simp: block_ok_def)
  let ?m = "take (length s) (blk_buf b) @ take (blk_used b) (blk_buf b) @ drop (length s + blk_used b) (blk_buf b)"
  let ?n = "s @ take (blk_used b) (blk_buf b) @ drop (length s + blk_used b) (blk_buf b)"
  have "mem_move (blk_buf b) (length s) 0 (blk_used b) = Some ?m" using l by (simp add: mem_move_def mem_read_eq mem_write_eq)
  moreover have "mem_write ?m 0 s = Some ?n" using l by (simp add: mem_write_eq)
  ultimately have "prepend_block b s = Some (b\<lparr>blk_buf := ?n, blk_used := blk_used b + length s\<rparr>)" by (simp add: prepend_block_def)
  then show ?thesis using assms l by (simp add: block_ok_def block_text_def)
qed

lemma deferred_prev_eq:
  assumes "out_inv c" "c_reply c = pre @ None # post"
  shows "\<exists>t s1 fin pre'. deferred_prev c (length pre) s = Some (c\<lparr>c_reply := pre' @ (if fin then [] else [None]) @ post\<rparr>, s1, fin) \<and>
    out_inv (c\<lparr>c_reply := pre' @ (if fin then [] else [None]) @ post\<rparr>) \<and>
    t @ s1 = s \<and> (fin \<longrightarrow> s1 = []) \<and> length pre' = length pre \<and> blocks_view pre' = blocks_view pre @ map Some t \<and> holes pre' = holes pre"
proof (cases "\<exists>p qs. pre = qs @ [Some p] \<and> 0 < blk_size p - blk_used p")
  case True
  then obtain p qs where p: "pre = qs @ [Some p]" "0 < blk_size p - blk_used p" by blast
  have ok: "block_ok p" using assms p(1) by (auto simp: out_inv_def)
  let ?d = "drop (blk_size p - blk_used p) s" and ?t = "take (blk_size p - blk_used p) s"
  obtain p' where p': "append_block p s = Some (p', ?d)" "block_ok p'" "blk_size p' = blk_size p" "blk_used p \<le> blk_used p'" "block_text p' @ ?d = block_text p @ s"
    using append_block_eq [OF ok, of s] by blast
  then have t: "block_text p' = block_text p @ ?t" by (metis append_assoc append_same_eq append_take_drop_id)
  let ?r = "qs @ [Some p']"
  have r: "(c_reply c)[length pre - 1 := Some p'] = ?r @ None # post" "c_reply c ! (length pre - 1) = Some p"
    using assms(2) p(1) by (simp_all add: list_update_append nth_append)
  have inv: "out_inv (c\<lparr>c_reply := ?r @ (if fin then [] else [None]) @ post\<rparr>)" for fin
    using assms p(1) p'(2-4) unfolding out_inv_def by (cases qs) (auto split: if_splits)
  have "del_node (length pre) (?r @ None # post) = ?r @ post" using p(1) by (simp add: del_node_def)
  then have "deferred_prev c (length pre) s = Some (c\<lparr>c_reply := ?r @ (if ?d = [] then [] else [None]) @ post\<rparr>, ?d, ?d = [])"
    using p r p'(1) by (simp add: deferred_prev_def Let_def)
  then show ?thesis using p(1) t inv [of "?d = []"]
    by (intro exI [of _ ?t] exI [of _ ?d] exI [of _ "?d = []"] exI [of _ ?r]) (simp add: holes_append)
next
  case False
  have "deferred_prev c (length pre) s = Some (c, s, False)"
  proof (cases pre rule: rev_cases)
    case (snoc qs v)
    then show ?thesis using False assms(2) by (cases v) (auto simp: deferred_prev_def nth_append)
  qed (simp add: deferred_prev_def)
  moreover have "c\<lparr>c_reply := pre @ None # post\<rparr> = c" using assms(2) by (intro client.equality) simp_all
  ultimately show ?thesis using assms(1) by (intro exI [of _ "[]"] exI [of _ s] exI [of _ False] exI [of _ pre]) simp
qed

lemma deferred_next_eq:
  assumes "out_inv c" "c_reply c = pre @ None # post" "c_reply_bytes c + grow s < MAX_REPLY_BYTES" "modest A" "None \<notin> set post"
  shows "\<exists>c'. deferred_next A sv c (length pre) s = Some c' \<and> emits c (fill_last s (view c)) (holes pre) (grow s) c'"
proof (cases "\<exists>n qs. post = Some n # qs \<and> length s \<le> blk_size n - blk_used n \<and> blk_used n < PROTO_REPLY_CHUNK_BYTES * 4")
  case True
  then obtain n qs where n: "post = Some n # qs" "length s \<le> blk_size n - blk_used n" "blk_used n < PROTO_REPLY_CHUNK_BYTES * 4" by blast
  have "block_ok n" using assms(1,2) n(1) by (auto simp: out_inv_def)
  then obtain n' where n': "prepend_block n s = Some n'" "block_ok n'" "blk_size n' = blk_size n" "blk_used n \<le> blk_used n'" "block_text n' = s @ block_text n"
    using prepend_block_eq n(2) by blast
  let ?c = "c\<lparr>c_reply := pre @ Some n' # qs\<rparr>"
  have "(c_reply c)[Suc (length pre) := Some n'] = pre @ None # Some n' # qs" using assms(2) n(1) by (simp add: list_update_append)
  then have "del_node (length pre) ((c_reply c)[Suc (length pre) := Some n']) = pre @ Some n' # qs" by (simp add: del_node_def)
  moreover have "c_reply c ! Suc (length pre) = Some n" "Suc (length pre) < length (c_reply c)" using assms(2) n(1) by (simp_all add: nth_append)
  ultimately have run: "deferred_next A sv c (length pre) s = Some ?c" using n n'(1) by (simp add: deferred_next_def)
  have inv: "out_inv ?c" using assms(1,2) n(1) n'(2-4) unfolding out_inv_def by (cases pre) (auto split: if_splits)
  have "view ?c = fill_last s (view c)" by (rule fill_view [OF assms(1,2,5)]) (simp_all add: n(1) n'(5))
  moreover have "holes (pre @ Some n' # qs) = holes pre" using assms(5) holes_none [of "Some n' # qs"] n(1) by (simp add: holes_append)
  ultimately show ?thesis using run inv by (simp add: emits_def)
next
  case False
  obtain b where b: "new_block A (length s) s = Some b" "block_ok b" "block_text b = s" "blk_size b = length s + alloc_slack A (length s + 16)"
    using new_block_eq [of s "length s" A] by auto
  let ?c = "c\<lparr>c_reply := pre @ Some b # post, c_reply_bytes := c_reply_bytes c + blk_size b\<rparr>"
  have "alloc_slack A (length s + 16) \<le> length s + 16" using assms(4) unfolding modest_def by blast
  then have g: "blk_size b \<le> grow s" by (simp add: b(4) grow_def)
  have u: "(c_reply c)[length pre := Some b] = pre @ Some b # post" using assms(2) by (simp add: list_update_append)
  have run: "deferred_next A sv c (length pre) s = closeClientOnOutputBufferLimitReached sv ?c"
  proof (cases post)
    case Nil
    then show ?thesis using assms(2) b(1) u by (simp add: deferred_next_def)
  next
    case (Cons v qs)
    then obtain n where "v = Some n" using assms(5) by (cases v) auto
    then show ?thesis using assms(2) b(1) u False Cons by (auto simp: deferred_next_def nth_append)
  qed
  have inv: "out_inv ?c" using assms(1,2) b(2) unfolding out_inv_def by (cases pre) (auto split: if_splits)
  have "view ?c = fill_last s (view c)" by (rule fill_view [OF assms(1,2,5)]) (simp_all add: b(3))
  moreover have "holes (pre @ Some b # post) = holes pre" using assms(5) holes_none [of "Some b # post"] by (simp add: holes_append)
  ultimately have e: "emits c (fill_last s (view c)) (holes pre) (grow s) ?c" using inv g by (simp add: emits_def)
  have "c_reply_bytes ?c < 2 ^ 64 - 1 - 1024 * 64" using assms(3) g by (simp add: MAX_REPLY_BYTES_def)
  from close_facts [OF this, of sv] show ?thesis unfolding run using emits_same_right [OF e] by blast
qed

lemma setDeferredReply_eq:
  assumes "out_inv c" "holes (c_reply c) = hs @ [i]" "c_reply_bytes c + grow s < MAX_REPLY_BYTES" "modest A"
  shows "\<exists>c'. setDeferredReply A sv c (Some i) s = Some c' \<and> emits c (fill_last s (view c)) hs (grow s) c'"
proof -
  obtain pre post where r: "c_reply c = pre @ None # post" "length pre = i" "None \<notin> set post" "holes pre = hs"
    using holes_snoc [OF assms(2)] by blast
  have get: "mem_get (c_reply c) (length pre) = Some None" using r(1) by (simp add: mem_get_eq nth_append)
  obtain t s1 fin pre' where p: "deferred_prev c (length pre) s = Some (c\<lparr>c_reply := pre' @ (if fin then [] else [None]) @ post\<rparr>, s1, fin)"
    "out_inv (c\<lparr>c_reply := pre' @ (if fin then [] else [None]) @ post\<rparr>)" "t @ s1 = s" "fin \<longrightarrow> s1 = []" "length pre' = length pre"
    "blocks_view pre' = blocks_view pre @ map Some t" "holes pre' = holes pre"
    using deferred_prev_eq [OF assms(1) r(1), of s] by blast
  show ?thesis
  proof (cases fin)
    case True
    let ?c = "c\<lparr>c_reply := pre' @ post\<rparr>"
    have "view ?c = fill_last s (view c)" by (rule fill_view [OF assms(1) r(1,3)]) (use p(3,4,6) True in auto)
    moreover have "holes (pre' @ post) = hs" using r(3,4) p(7) holes_none [of post] by (simp add: holes_append)
    ultimately have "emits c (fill_last s (view c)) hs (grow s) ?c" using p(2) True by (simp add: emits_def)
    then show ?thesis using True p(1) get r(2) by (simp add: setDeferredReply_def assert_opt_def)
  next
    case False
    let ?c = "c\<lparr>c_reply := pre' @ None # post\<rparr>"
    have i1: "out_inv ?c" using p(2) False by simp
    have len: "length s1 \<le> length s" using p(3) by auto
    then have g: "grow s1 \<le> grow s" by (simp add: grow_def)
    obtain c' where c': "deferred_next A sv ?c (length pre') s1 = Some c'" "emits ?c (fill_last s1 (view ?c)) (holes pre') (grow s1) c'"
      using deferred_next_eq [OF i1 _ _ assms(4) r(3), of pre' s1 sv] assms(3) g by auto
    have "fill_last s1 (view ?c) = fill_last s (view c)"
    proof -
      have "view ?c = before ?c pre' @ None # blocks_view post" by (rule view_split [OF i1]) simp
      moreover have "before ?c pre' = before c pre'" by (simp add: before_def)
      ultimately have v: "view ?c = (before c pre @ map Some t) @ None # blocks_view post" using before_append [OF assms(1) r(1) p(6)] by simp
      show ?thesis using p(3) unfolding v view_split [OF assms(1) r(1)] fill_last_eq [OF no_holes [OF r(3)]] by auto
    qed
    then have "emits c (fill_last s (view c)) hs (grow s) c'" using c'(2) g p(7) r(4) by (auto simp: emits_def flags_grow_def)
    then show ?thesis using False p(1,5) get r(2) c'(1) by (simp add: setDeferredReply_def assert_opt_def)
  qed
qed

section \<open>Sending\<close>

lemma offer_eq:
  assumes "offer so m i n = Some (r, sent, so')"
  shows "(r \<le> 0 \<longrightarrow> sent = []) \<and> sent = take (nat r) (drop i (take n m)) \<and> (0 < r \<longrightarrow> i + nat r \<le> n \<and> n \<le> length m)"
  using assms by (auto simp: offer_def mem_read_def assert_opt_def take_drop min_def split: bind_splits if_splits prod.splits)

lemma offer_ok:
  assumes "\<And>st bs. fst (conn_write so st bs) \<le> int (length bs)" "i \<le> n" "n \<le> length m"
  shows "\<exists>r sent st. offer so m i n = Some (r, sent, so\<lparr>sock_state := st\<rparr>)"
proof -
  obtain r st where "conn_write so (sock_state so) (take (n - i) (drop i m)) = (r, st)" by (cases "conn_write so (sock_state so) (take (n - i) (drop i m))")
  then show ?thesis using assms(1) [of "sock_state so" "take (n - i) (drop i m)"] assms(2,3) by (auto simp: offer_def mem_read_eq assert_opt_def Let_def)
qed

text \<open>One round of writing sends a prefix of the pending output.\<close>

definition sends :: "'a client_scheme \<Rightarrow> bytes \<Rightarrow> 'a client_scheme \<Rightarrow> bool" where
  "sends c sent c' \<longleftrightarrow> out_inv c' \<and> map Some sent @ view c' = view c \<and> holes (c_reply c') = [] \<and> c_reply_bytes c' \<le> c_reply_bytes c \<and>
     c_flags c' = c_flags c \<and> c_conn c' = c_conn c \<and> c_resp c' = c_resp c"

lemma write_round_eq:
  assumes "out_inv c" "holes (c_reply c) = []" "clientHasPendingReplies c" "\<And>st bs. fst (conn_write so st bs) \<le> int (length bs)"
  shows "\<exists>st c' r sent. write_round so c = Some (so\<lparr>sock_state := st\<rparr>, c', r, sent) \<and> sends c sent c' \<and> (r = None \<or> (\<exists>n. r = Some n \<and> (n \<le> 0 \<longrightarrow> sent = [])))"
proof (cases "0 < c_bufpos c")
  case True
  have p: "c_sentlen c < c_bufpos c" "c_bufpos c \<le> length (c_buf c)" using assms(1) True by (auto simp: out_inv_def)
  obtain r sent st where o: "offer so (c_buf c) (c_sentlen c) (c_bufpos c) = Some (r, sent, so\<lparr>sock_state := st\<rparr>)"
    using offer_ok [OF assms(4), of "c_sentlen c" "c_bufpos c" "c_buf c"] p by auto
  show ?thesis
  proof (cases "r \<le> 0")
    case neg: True
    then show ?thesis using True o assms(1,2) by (auto simp: write_round_def sends_def intro!: exI)
  next
    case False
    let ?n = "c_sentlen c + nat r"
    have s: "sent = take (nat r) (drop (c_sentlen c) (take (c_bufpos c) (c_buf c)))" "?n \<le> c_bufpos c" using offer_eq [OF o] False by auto
    have d: "sent @ drop ?n (take (c_bufpos c) (c_buf c)) = drop (c_sentlen c) (take (c_bufpos c) (c_buf c))"
      unfolding s(1) by (metis append_take_drop_id drop_drop add.commute)
    let ?c = "if ?n = c_bufpos c then c\<lparr>c_bufpos := 0, c_sentlen := 0\<rparr> else c\<lparr>c_sentlen := ?n\<rparr>"
    have run: "write_round so c = Some (so\<lparr>sock_state := st\<rparr>, ?c, Some r, sent)" using True False o by (simp add: write_round_def Let_def)
    have inv: "out_inv ?c" using assms(1) True s(2) by (auto simp: out_inv_def)
    have "map Some sent @ view ?c = view c"
      using True d s(2) by (auto simp: view_def simp flip: map_append append_assoc)
    then show ?thesis using run inv assms(2) False by (auto simp: sends_def)
  qed
next
  case False
  then obtain v bs where v: "c_reply c = v # bs" using assms(3) by (cases "c_reply c") (auto simp: clientHasPendingReplies_def)
  then obtain b where b: "c_reply c = Some b # bs" using assms(2) holes_none [of "c_reply c"] by (cases v) auto
  have hb: "holes bs = []" using assms(2) b holes_none [of bs] holes_none [of "c_reply c"] by auto
  have ok: "block_ok b" "c_sentlen c = 0 \<or> c_sentlen c < blk_used b" using assms(1) b False by (auto simp: out_inv_def)
  have bytes: "c_reply_bytes c - blk_size b = sum_list (map block_bytes bs)" using assms(1) b by (simp add: out_inv_def)
  have get: "mem_get (c_reply c) 0 = Some (Some b)" using b by (simp add: mem_get_eq)
  let ?c1 = "c\<lparr>c_reply_bytes := c_reply_bytes c - blk_size b, c_reply := bs, c_sentlen := 0\<rparr>"
  have inv1: "out_inv ?c1" using assms(1) False b bytes by (auto simp: out_inv_def)
  have view1: "view ?c1 = blocks_view bs" using False by (simp add: view_def)
  show ?thesis
  proof (cases "blk_used b = 0")
    case True
    then have "write_round so c = Some (so, c\<lparr>c_reply_bytes := c_reply_bytes c - blk_size b, c_reply := bs\<rparr>, None, [])"
      using False get b by (simp add: write_round_def)
    moreover have "c\<lparr>c_reply_bytes := c_reply_bytes c - blk_size b, c_reply := bs\<rparr> = ?c1" using ok(2) True by (intro client.equality) auto
    moreover have "view c = blocks_view bs" using False b True ok by (simp add: view_def block_text_def)
    moreover have "so = so\<lparr>sock_state := sock_state so\<rparr>" by simp
    ultimately show ?thesis using inv1 view1 hb by (intro exI [of _ "sock_state so"] exI [of _ ?c1] exI [of _ None] exI [of _ "[]"]) (simp add: sends_def)
  next
    case used: False
    have lb: "c_sentlen c \<le> blk_used b" "blk_used b \<le> length (blk_buf b)" using ok by (auto simp: block_ok_def)
    obtain r sent st where o: "offer so (blk_buf b) (c_sentlen c) (blk_used b) = Some (r, sent, so\<lparr>sock_state := st\<rparr>)"
      using offer_ok [OF assms(4) lb] by auto
    show ?thesis
    proof (cases "r \<le> 0")
      case neg: True
      then show ?thesis using False used get o assms(1,2) by (auto simp: write_round_def sends_def intro!: exI)
    next
      case pos: False
      let ?n = "c_sentlen c + nat r"
      have s: "sent = take (nat r) (drop (c_sentlen c) (block_text b))" "?n \<le> blk_used b" using offer_eq [OF o] pos by (auto simp: block_text_def)
      have d: "sent @ drop ?n (block_text b) = drop (c_sentlen c) (block_text b)" unfolding s(1) by (metis append_take_drop_id drop_drop add.commute)
      show ?thesis
      proof (cases "?n = blk_used b")
        case True
        have "bs = [] \<longrightarrow> c_reply_bytes c - blk_size b = 0" using bytes by simp
        then have "write_round so c = Some (so\<lparr>sock_state := st\<rparr>, ?c1, Some r, sent)"
          using False used get o pos True b by (simp add: write_round_def Let_def assert_opt_def)
        moreover have "map Some sent @ view ?c1 = view c" using d True ok lb unfolding view1 by (simp add: view_def False b block_text_def drop_map)
        ultimately show ?thesis using inv1 hb pos by (auto simp: sends_def)
      next
        case part: False
        let ?c2 = "c\<lparr>c_sentlen := ?n\<rparr>"
        have "write_round so c = Some (so\<lparr>sock_state := st\<rparr>, ?c2, Some r, sent)"
          using False used get o pos part by (simp add: write_round_def Let_def)
        moreover have "out_inv ?c2" using assms(1) False b part s(2) by (auto simp: out_inv_def)
        moreover have "map Some sent @ view ?c2 = view c"
        proof -
          have "drop ?n (blocks_view (c_reply c)) = map Some (drop ?n (block_text b)) @ blocks_view bs"
            "drop (c_sentlen c) (blocks_view (c_reply c)) = map Some (drop (c_sentlen c) (block_text b)) @ blocks_view bs"
            using b s(2) lb ok by (simp_all add: drop_map)
          then show ?thesis using False d by (simp add: view_def flip: map_append append_assoc)
        qed
        ultimately show ?thesis using assms(2) pos by (auto simp: sends_def)
      qed
    qed
  qed
qed

lemma sends_refl: "out_inv c \<Longrightarrow> holes (c_reply c) = [] \<Longrightarrow> sends c [] c"
  by (simp add: sends_def)

lemma sends_trans: "sends a s b \<Longrightarrow> sends b t c \<Longrightarrow> sends a (s @ t) c"
  by (auto simp: sends_def)

lemma write_loop_eq:
  assumes "out_inv c" "holes (c_reply c) = []" "\<And>st bs. fst (conn_write so st bs) \<le> int (length bs)"
  shows "\<exists>st c' r sent'. write_loop sv so c nw acc = Some (so\<lparr>sock_state := st\<rparr>, c', r, acc @ sent') \<and> sends c sent' c'"
  using assms
proof (induction sv so c nw acc rule: write_loop.induct)
  case (1 sv so c nw acc)
  show ?case
  proof (cases "clientHasPendingReplies c")
    case False
    then show ?thesis using sends_refl [OF "1.prems"(1,2)]
      by (intro exI [of _ "sock_state so"] exI [of _ c] exI [of _ "int nw"] exI [of _ "[]"]) (simp add: write_loop.simps)
  next
    case True
    obtain st c1 r sent where w: "write_round so c = Some (so\<lparr>sock_state := st\<rparr>, c1, r, sent)" "sends c sent c1" "r = None \<or> (\<exists>n. r = Some n \<and> (n \<le> 0 \<longrightarrow> sent = []))"
      using write_round_eq [OF "1.prems"(1,2) True "1.prems"(3)] by blast
    have i: "out_inv c1" "holes (c_reply c1) = []" using w(2) by (auto simp: sends_def)
    have sock: "fst (conn_write (so\<lparr>sock_state := st\<rparr>) st' bs) \<le> int (length bs)" for st' bs using "1.prems"(3) by simp
    have prom: "\<not> \<not> clientHasPendingReplies c" using True by simp
    show ?thesis
    proof (cases r)
      case None
      obtain st' c' r' sent' where x: "write_loop sv (so\<lparr>sock_state := st\<rparr>) c1 nw acc = Some (so\<lparr>sock_state := st\<rparr>\<lparr>sock_state := st'\<rparr>, c', r', acc @ sent')" "sends c1 sent' c'"
        using "1.IH"(1) [OF prom w(1) refl refl refl None i sock] by blast
      moreover have "write_loop sv so c nw acc = write_loop sv (so\<lparr>sock_state := st\<rparr>) c1 nw acc"
        using True w(1) None by (simp add: write_loop.simps [of sv so c])
      moreover have "sent = []" using w(1) None True by (auto simp: write_round_def Let_def split: bind_splits if_splits)
      ultimately show ?thesis using sends_trans [OF w(2) x(2)] by (intro exI [of _ st'] exI [of _ c'] exI [of _ r'] exI [of _ sent']) simp
    next
      case (Some n)
      show ?thesis
      proof (cases "n \<le> 0 \<or> NET_MAX_WRITES_PER_EVENT < length (acc @ sent) \<and> (net_maxmemory sv = 0 \<or> used_memory sv < net_maxmemory sv) \<and> \<not> has_flag c1 CLIENT_SLAVE")
        case stop: True
        have "n \<le> 0 \<longrightarrow> sent = []" using w(3) Some by auto
        then have "write_loop sv so c nw acc = Some (so\<lparr>sock_state := st\<rparr>, c1, n, acc @ sent)"
          using True w(1) Some stop by (auto simp: write_loop.simps [of sv so c])
        then show ?thesis using w(2) by blast
      next
        case go: False
        then have g: "\<not> n \<le> 0" "\<not> (NET_MAX_WRITES_PER_EVENT < length (acc @ sent) \<and> (net_maxmemory sv = 0 \<or> used_memory sv < net_maxmemory sv) \<and> \<not> has_flag c1 CLIENT_SLAVE)" by auto
        obtain st' c' r' sent' where x: "write_loop sv (so\<lparr>sock_state := st\<rparr>) c1 (nat n) (acc @ sent) = Some (so\<lparr>sock_state := st\<rparr>\<lparr>sock_state := st'\<rparr>, c', r', (acc @ sent) @ sent')" "sends c1 sent' c'"
          using "1.IH"(2) [OF prom w(1) refl refl refl Some g i sock] by blast
        moreover have "write_loop sv so c nw acc = write_loop sv (so\<lparr>sock_state := st\<rparr>) c1 (nat n) (acc @ sent)"
          using True w(1) Some g by (subst write_loop.simps) auto
        ultimately show ?thesis using sends_trans [OF w(2) x(2)] by (intro exI [of _ st'] exI [of _ c'] exI [of _ r'] exI [of _ "sent @ sent'"]) simp
      qed
    qed
  qed
qed

lemma free_fields [simp]: "out_inv (freeClientAsync d) = out_inv d" "view (freeClientAsync d) = view d" "c_reply (freeClientAsync d) = c_reply d"
  "c_reply_bytes (freeClientAsync d) = c_reply_bytes d" "c_conn (freeClientAsync d) = c_conn d"
  using same_out_view [OF free_facts(1)] same_outD [OF free_facts(1) [of d]] by simp_all

lemma write_finish_eq:
  assumes "out_inv c" "holes (c_reply c) = []"
  shows "\<exists>c' ok. write_finish sv h n c = (c', ok) \<and> out_inv c' \<and> view c' = view c \<and> holes (c_reply c') = [] \<and> c_reply_bytes c' = c_reply_bytes c \<and>
    flags_grow c c' \<and> c_conn c' = c_conn c"
proof -
  define c1 where "c1 = (if 0 < n \<and> \<not> has_flag c CLIENT_MASTER then c\<lparr>c_lastinteraction := net_unixtime sv\<rparr> else c)"
  have c1: "out_inv c1" "view c1 = view c" "c_reply c1 = c_reply c" "c_reply_bytes c1 = c_reply_bytes c" "c_flags c1 = c_flags c" "c_conn c1 = c_conn c"
    using assms(1) by (auto simp: c1_def out_inv_def view_def)
  show ?thesis
  proof (cases "clientHasPendingReplies c1")
    case True
    then have "write_finish sv h n c = (c1, True)" by (simp add: write_finish_def c1_def [symmetric])
    then show ?thesis using c1 assms(2) by auto
  next
    case False
    define c2 where "c2 = c1\<lparr>c_sentlen := 0, c_write_handler := (if h then False else c_write_handler c1)\<rparr>"
    have c2: "out_inv c2" "view c2 = view c" "c_reply c2 = c_reply c" "c_reply_bytes c2 = c_reply_bytes c" "c_flags c2 = c_flags c" "c_conn c2 = c_conn c"
      using c1 False by (simp_all add: c2_def out_inv_def view_def clientHasPendingReplies_def)
    have w: "write_finish sv h n c = (if has_flag c2 CLIENT_CLOSE_AFTER_REPLY then (freeClientAsync c2, False) else (c2, True))"
      using False unfolding write_finish_def c1_def [symmetric] Let_def c2_def [symmetric] by simp
    show ?thesis using c2 assms(2) flags_grow_trans [OF flags_grow_refl [of c2 c] free_facts(2) [of c2]] unfolding w by auto
  qed
qed

lemma writeToClient_eq:
  assumes "out_inv c" "holes (c_reply c) = []" "\<And>st bs. fst (conn_write so st bs) \<le> int (length bs)"
  shows "\<exists>st c' sent ok. writeToClient sv so c h = Some (so\<lparr>sock_state := st\<rparr>, c', sent, ok) \<and>
    out_inv c' \<and> map Some sent @ view c' = view c \<and> holes (c_reply c') = [] \<and> c_reply_bytes c' \<le> c_reply_bytes c \<and>
    flags_grow c c' \<and> c_conn c' = c_conn c"
proof -
  obtain st c1 r sent where w: "write_loop sv so c 0 [] = Some (so\<lparr>sock_state := st\<rparr>, c1, r, sent)" "sends c sent c1"
    using write_loop_eq [OF assms, of sv 0 "[]"] by auto
  have c1: "out_inv c1" "map Some sent @ view c1 = view c" "holes (c_reply c1) = []" "c_reply_bytes c1 \<le> c_reply_bytes c" "flags_grow c c1" "c_conn c1 = c_conn c"
    using w(2) by (auto simp: sends_def)
  show ?thesis
  proof (cases "r = - 1 \<and> \<not> connected so st")
    case True
    then have "writeToClient sv so c h = Some (so\<lparr>sock_state := st\<rparr>, freeClientAsync c1, sent, False)" using w(1) by (simp add: writeToClient_def)
    then show ?thesis using c1 flags_grow_trans [OF c1(5) free_facts(2)] by auto
  next
    case False
    obtain c2 ok where c2: "write_finish sv h (length sent) c1 = (c2, ok)" "out_inv c2" "view c2 = view c1" "holes (c_reply c2) = []"
      "c_reply_bytes c2 = c_reply_bytes c1" "flags_grow c1 c2" "c_conn c2 = c_conn c1"
      using write_finish_eq [OF c1(1,3), of sv h "length sent"] by blast
    then have "writeToClient sv so c h = Some (so\<lparr>sock_state := st\<rparr>, c2, sent, ok)" using w(1) False by (auto simp: writeToClient_def)
    then show ?thesis using c1 c2 flags_grow_trans [OF c1(5) c2(6)] by auto
  qed
qed

section \<open>Everything is sent in order\<close>

datatype out_op = Emit bytes | Defer | Fill bytes | Send bool

type_synonym ('s, 'a) out_state = "'a client_scheme \<times> nat option list \<times> 's socket \<times> bytes"

fun out_step :: "allocator \<Rightarrow> net_server \<Rightarrow> out_op \<Rightarrow> ('s, 'a) out_state \<Rightarrow> ('s, 'a) out_state option" where
  "out_step A sv (Emit s) (c, nodes, so, sent) = map_option (\<lambda>c. (c, nodes, so, sent)) (addReplyProto A sv c s)"
| "out_step A sv Defer (c, nodes, so, sent) = (let (node, c) = addReplyDeferredLen A c in Some (c, node # nodes, so, sent))"
| "out_step A sv (Fill s) (c, nodes, so, sent) =
     (case nodes of [] \<Rightarrow> None | node # nodes \<Rightarrow> map_option (\<lambda>c. (c, nodes, so, sent)) (setDeferredReply A sv c node s))"
| "out_step A sv (Send h) (c, nodes, so, sent) =
     (case writeToClient sv so c h of None \<Rightarrow> None | Some (so, c, bs, ok) \<Rightarrow> Some (c, nodes, so, sent @ bs))"

fun out_run :: "allocator \<Rightarrow> net_server \<Rightarrow> out_op list \<Rightarrow> ('s, 'a) out_state \<Rightarrow> ('s, 'a) out_state option" where
  "out_run A sv [] st = Some st"
| "out_run A sv (op # ops) st = (case out_step A sv op st of None \<Rightarrow> None | Some st \<Rightarrow> out_run A sv ops st)"

text \<open>The text that the operations mean, and which sequences are sensible: a placeholder is filled once, the innermost
  first, and nothing is sent while one is open.\<close>

fun out_text :: "out_op list \<Rightarrow> byte option list \<Rightarrow> byte option list" where
  "out_text [] v = v"
| "out_text (Emit s # ops) v = out_text ops (v @ map Some s)"
| "out_text (Defer # ops) v = out_text ops (v @ [None])"
| "out_text (Fill s # ops) v = out_text ops (fill_last s v)"
| "out_text (Send h # ops) v = out_text ops v"

fun out_ok :: "nat \<Rightarrow> out_op list \<Rightarrow> bool" where
  "out_ok d [] = True"
| "out_ok d (Emit s # ops) = out_ok d ops"
| "out_ok d (Defer # ops) = out_ok (d + 1) ops"
| "out_ok d (Fill s # ops) = (0 < d \<and> out_ok (d - 1) ops)"
| "out_ok d (Send h # ops) = (d = 0 \<and> out_ok d ops)"

fun out_cost :: "out_op \<Rightarrow> nat" where
  "out_cost (Emit s) = grow s" | "out_cost Defer = grow []" | "out_cost (Fill s) = grow s" | "out_cost (Send h) = 0"

text \<open>The open placeholders of a state are those of its node stack.\<close>

definition nodes_ok :: "'a client_scheme \<Rightarrow> nat option list \<Rightarrow> bool" where
  "nodes_ok c nodes \<longleftrightarrow> holes (c_reply c) = rev (map the (filter (\<lambda>n. n \<noteq> None) nodes))"

definition out_sim :: "('s, 'a) out_state \<Rightarrow> byte option list \<Rightarrow> bool" where
  "out_sim st v \<longleftrightarrow> (case st of (c, nodes, so, sent) \<Rightarrow>
     out_inv c \<and> nodes_ok c nodes \<and> (\<forall>st bs. fst (conn_write so st bs) \<le> int (length bs)) \<and>
     (accepts c \<longrightarrow> None \<notin> set nodes \<and> map Some sent @ view c = v))"

lemma fill_last_append: "None \<in> set w \<Longrightarrow> fill_last s (v @ w) = v @ fill_last s w"
  by (induction v) auto

lemma view_hole: "out_inv c \<Longrightarrow> holes (c_reply c) = hs @ [i] \<Longrightarrow> None \<in> set (view c)"
  using view_split holes_snoc by fastforce

lemma out_step_sim:
  assumes "out_sim (c, nodes, so, sent) v" "c_reply_bytes c + out_cost op < MAX_REPLY_BYTES" "modest A" "out_ok (length nodes) [op]"
  shows "\<exists>c' nodes' so' sent'. out_step A sv op (c, nodes, so, sent) = Some (c', nodes', so', sent') \<and> out_sim (c', nodes', so', sent') (out_text [op] v) \<and>
    c_reply_bytes c' \<le> c_reply_bytes c + out_cost op \<and> (accepts c' \<longrightarrow> accepts c) \<and> (\<forall>ops. out_ok (length nodes) (op # ops) \<longrightarrow> out_ok (length nodes') ops)"
proof -
  have inv: "out_inv c" "nodes_ok c nodes" "\<And>st bs. fst (conn_write so st bs) \<le> int (length bs)" using assms(1) by (auto simp: out_sim_def)
  have acc: "accepts c \<longrightarrow> None \<notin> set nodes \<and> map Some sent @ view c = v" using assms(1) by (simp add: out_sim_def)
  show ?thesis
  proof (cases op)
    case (Emit s)
    obtain c' where c': "addReplyProto A sv c s = Some c'" "emits c (view c @ (if accepts c then map Some s else [])) (holes (c_reply c)) (grow s) c'"
      using addReplyProto_eq [OF inv(1) _ assms(3), of s sv] assms(2) Emit by auto
    then have "accepts c' \<longrightarrow> accepts c" using accepts_anti [of c c'] by (auto simp: emits_def)
    then show ?thesis using Emit c' inv acc by (auto simp: out_sim_def emits_def nodes_ok_def)
  next
    case Defer
    obtain node c' where c': "addReplyDeferredLen A c = (node, c')"
      "if fst (prepareClientToWrite c) then \<exists>i. node = Some i \<and> emits c (view c @ [None]) (holes (c_reply c) @ [i]) (grow []) c'
       else node = None \<and> emits c (view c) (holes (c_reply c)) (grow []) c'" using addReplyDeferredLen_eq [OF inv(1) assms(3)] by blast
    then have a: "accepts c' \<longrightarrow> accepts c" using accepts_anti [of c c'] by (auto simp: emits_def split: if_splits)
    moreover have "accepts c \<longrightarrow> fst (prepareClientToWrite c)" by (simp add: accepts_def)
    ultimately show ?thesis using Defer c' inv acc by (auto simp: out_sim_def emits_def nodes_ok_def split: if_splits)
  next
    case (Fill s)
    obtain node ns where n: "nodes = node # ns" using assms(4) Fill by (cases nodes) auto
    show ?thesis
    proof (cases node)
      case None
      then have "\<not> accepts c" using acc n by auto
      then show ?thesis using Fill n None inv by (auto simp: out_sim_def setDeferredReply_def nodes_ok_def)
    next
      case (Some i)
      then have h: "holes (c_reply c) = rev (map the (filter (\<lambda>n. n \<noteq> None) ns)) @ [i]" using inv(2) n by (simp add: nodes_ok_def)
      obtain c' where c': "setDeferredReply A sv c (Some i) s = Some c'" "emits c (fill_last s (view c)) (rev (map the (filter (\<lambda>n. n \<noteq> None) ns))) (grow s) c'"
        using setDeferredReply_eq [OF inv(1) h _ assms(3), of s sv] assms(2) Fill by auto
      have "accepts c' \<longrightarrow> accepts c" using accepts_anti [of c c'] c'(2) by (auto simp: emits_def)
      moreover have "fill_last s (map Some sent @ view c) = map Some sent @ fill_last s (view c)" by (rule fill_last_append [OF view_hole [OF inv(1) h]])
      ultimately show ?thesis using Fill n Some c' inv acc by (auto simp: out_sim_def emits_def nodes_ok_def)
    qed
  next
    case (Send h)
    then have "holes (c_reply c) = []" using assms(4) inv(2) by (simp add: nodes_ok_def)
    then obtain st c' bs ok where w: "writeToClient sv so c h = Some (so\<lparr>sock_state := st\<rparr>, c', bs, ok)" "out_inv c'" "map Some bs @ view c' = view c"
      "holes (c_reply c') = []" "c_reply_bytes c' \<le> c_reply_bytes c" "flags_grow c c'" "c_conn c' = c_conn c"
      using writeToClient_eq [OF inv(1) _ inv(3), of sv h] by blast
    have "accepts c' \<longrightarrow> accepts c" using accepts_anti [of c c'] w by blast
    then show ?thesis using Send w inv acc assms(4) by (auto simp: out_sim_def nodes_ok_def)
  qed
qed

lemma out_run_sim:
  assumes "out_sim (c, nodes, so, sent) v" "c_reply_bytes c + sum_list (map out_cost ops) < MAX_REPLY_BYTES" "modest A" "out_ok (length nodes) ops"
  shows "\<exists>c' nodes' so' sent'. out_run A sv ops (c, nodes, so, sent) = Some (c', nodes', so', sent') \<and> out_sim (c', nodes', so', sent') (out_text ops v)"
  using assms
proof (induction ops arbitrary: c nodes so sent v)
  case (Cons op ops)
  have o: "out_ok (length nodes) [op]" using Cons.prems(4) by (cases op) auto
  obtain c1 n1 so1 s1 where s: "out_step A sv op (c, nodes, so, sent) = Some (c1, n1, so1, s1)" "out_sim (c1, n1, so1, s1) (out_text [op] v)"
    "c_reply_bytes c1 \<le> c_reply_bytes c + out_cost op" "\<forall>ops. out_ok (length nodes) (op # ops) \<longrightarrow> out_ok (length n1) ops"
    using out_step_sim [OF Cons.prems(1) _ Cons.prems(3) o, of sv] Cons.prems(2) by auto
  have t: "out_text (op # ops) v = out_text ops (out_text [op] v)" by (cases op) auto
  from Cons.IH [OF s(2) _ Cons.prems(3)] show ?case using s Cons.prems(2,4) t by auto
qed simp

text \<open>C6: The output of a client is a faithful queue. Starting with nothing pending, run any sensible sequence of replies,
  placeholders that are filled later, and writes to a socket that accepts what it wants: no assertion fails, and as
  long as the client accepts output, the bytes sent followed by the bytes still pending are the concatenation of all
  replies in their order, with each placeholder replaced by its text, no matter how the replies were spread over the fixed
  buffer and the list of blocks, merged with neighbouring blocks or cut by partial writes.\<close>

theorem reply_stream:
  assumes "out_inv c" "view c = []" "holes (c_reply c) = []" "modest A" "out_ok 0 ops"
    "c_reply_bytes c + sum_list (map out_cost ops) < MAX_REPLY_BYTES" "\<forall>st bs. fst (conn_write so st bs) \<le> int (length bs)"
  shows "\<exists>c' nodes so' sent. out_run A sv ops (c, [], so, []) = Some (c', nodes, so', sent) \<and> out_inv c' \<and>
    (accepts c' \<longrightarrow> map Some sent @ view c' = out_text ops [])"
proof -
  have "out_sim (c, [], so, []) []" using assms(1-3,7) by (simp add: out_sim_def nodes_ok_def)
  from out_run_sim [OF this assms(6,4), of sv] assms(5) show ?thesis by (fastforce simp: out_sim_def)
qed

definition example_client :: client where
  "example_client = \<lparr>c_flags = 0, c_conn = True, c_resp = 2, c_replstate = REPL_STATE_NONE, c_repl_put_online_on_ack = False,
     c_buf = replicate 4 0, c_bufpos = 0, c_sentlen = 0, c_reply = [], c_reply_bytes = 0, c_obuf_soft_limit_reached_time = 0,
     c_lastinteraction = 0, c_write_handler = False\<rparr>"

definition example_net :: net_server where
  "example_net = \<lparr>client_obuf_limits = (\<lambda>t. \<lparr>hard_limit_bytes = 0, soft_limit_bytes = 0, soft_limit_seconds = 0\<rparr>), net_unixtime = 0,
     net_maxmemory = 0, used_memory = 0\<rparr>"

text \<open>A socket that takes one byte at a time.\<close>

definition slow_socket :: "unit socket" where
  "slow_socket = \<lparr>sock_state = (), conn_write = (\<lambda>st bs. (if bs = [] then 0 else 1, st)), connected = (\<lambda>st. True)\<rparr>"

theorem reply_stream_witness:
  "\<exists>c' nodes so' sent. out_run plain_allocator example_net [Emit [43, 79], Defer, Emit [1, 2], Fill [42], Send True, Emit [75]] (example_client, [], slow_socket, []) =
     Some (c', nodes, so', sent) \<and> out_inv c' \<and> out_text [Emit [43, 79], Defer, Emit [1, 2], Fill [42], Send True, Emit [75]] [] = map Some [43, 79, 42, 1, 2, 75]"
proof -
  let ?ops = "[Emit [43, 79], Defer, Emit [1, 2], Fill [42], Send True, Emit [75]]"
  have "out_inv example_client" "view example_client = []" "holes (c_reply example_client) = []"
    by (simp_all add: example_client_def out_inv_def view_def)
  moreover have "modest plain_allocator" by (simp add: modest_def plain_allocator_def)
  moreover have "out_ok 0 ?ops" "c_reply_bytes example_client + sum_list (map out_cost ?ops) < MAX_REPLY_BYTES"
    by (simp_all add: grow_def PROTO_REPLY_CHUNK_BYTES_def MAX_REPLY_BYTES_def example_client_def)
  moreover have "\<forall>st bs. fst (conn_write slow_socket st bs) \<le> int (length bs)" by (auto simp: slow_socket_def Suc_leI)
  ultimately have "\<exists>c' nodes so' sent. out_run plain_allocator example_net ?ops (example_client, [], slow_socket, []) = Some (c', nodes, so', sent) \<and> out_inv c'"
    using reply_stream [of example_client plain_allocator ?ops slow_socket example_net] by blast
  then show ?thesis by simp
qed

section \<open>The text of the replies\<close>

lemma ll2string_block:
  assumes "length m = unat n" "21 \<le> unat (n :: u64)"
  shows "ll2string m n v = Some (word_of_nat (length (dec_int (sint v))), dec_int (sint v) @ 0 # drop (length (dec_int (sint v)) + 1) m)"
proof -
  have "length (dec_int (sint v)) < unat n" using length_dec_int [of v] assms by linarith
  then show ?thesis using ll2string_correct [of n m v] assms by simp
qed

lemma print_hdr_eq:
  assumes "24 \<le> n" "n < 2 ^ 32"
  shows "print_hdr A n pre ll = Some (pre # dec_int (sint ll) @ crlf)"
proof -
  let ?d = "dec_int (sint ll)"
  define m where "m = drop 1 (fresh_block A n)"
  have m: "length m = n - 1" "fresh_block A n = hd (fresh_block A n) # m" using assms(1) by (auto simp: m_def fresh_block_def upt_conv_Cons)
  have d: "length ?d \<le> 20" using length_dec_int [of ll] by simp
  have u: "unat (word_of_nat (n - 1) :: u64) = n - 1" using assms(2) by (simp add: unat_of_nat)
  have p: "mem_put (fresh_block A n) 0 pre = Some (pre # m)" using m(2) assms(1) by (simp add: mem_put_eq fresh_block_def) (metis list_update_code(2) fresh_block_def)
  have l: "ll2string m (word_of_nat (n - 1)) ll = Some (word_of_nat (length ?d), ?d @ 0 # drop (length ?d + 1) m)"
    by (rule ll2string_block) (use u m(1) assms in auto)
  have ud: "unat (word_of_nat (length ?d) :: u32) = length ?d" by (rule unat_len_dec)
  obtain x y r where r: "0 # drop (length ?d + 1) m = x # y # r" using m(1) assms(1) d by (cases "drop (length ?d + 1) m") auto
  have "(pre # ?d @ x # y # r)[length ?d + 1 := 13, length ?d + 2 := 10] = pre # ?d @ 13 # 10 # r"
    by (simp add: list_update_append)
  moreover have "take (length ?d + 3) (pre # ?d @ 13 # 10 # r) = pre # ?d @ [13, 10]" by (simp add: numeral_3_eq_3)
  ultimately show ?thesis using p l ud r by (simp add: print_hdr_def Let_def mem_put_eq mem_read_eq crlf_def)
qed

lemma length_dec_small:
  assumes "0 \<le> k" "k < 32"
  shows "length (dec_int k) = (if k < 10 then 1 else 2)"
  using assms by (auto simp: dec_int_def dec_nat.simps)

lemma prefix_text: "addReplyLongLongWithPrefix A sv c ll pre = addReplyProto A sv c (pre # dec_int (sint ll) @ crlf)"
proof -
  have "mem_read (shared_hdr pre (sint ll)) 0 (OBJ_SHARED_HDR_STRLEN (sint ll)) = Some (pre # dec_int (sint ll) @ crlf)"
    if "sint ll < OBJ_SHARED_BULKHDR_LEN" "0 \<le> sint ll"
    using that length_dec_small [of "sint ll"] by (auto simp: shared_hdr_def OBJ_SHARED_HDR_STRLEN_def OBJ_SHARED_BULKHDR_LEN_def mem_read_eq crlf_def)
  then show ?thesis using print_hdr_eq [of 128 A pre ll] by (auto simp: addReplyLongLongWithPrefix_def Let_def)
qed

lemma addReply_text:
  assumes "obj_ok ob"
  shows "addReply A sv c ob = addReplyProto A sv c (obj_str ob)"
  using assms
proof (cases rule: obj_cases)
  case (str s)
  then show ?thesis by (cases "prepareClientToWrite c") (simp add: addReply_def addReplyProto_def)
next
  case (int v)
  have "ll2string (fresh_block A 32) 32 v = Some (word_of_nat (length (dec_int (sint v))), dec_int (sint v) @ 0 # drop (length (dec_int (sint v)) + 1) (fresh_block A 32))"
    using printed_number [of 32 A v] by simp
  then show ?thesis using int by (cases "prepareClientToWrite c") (simp add: addReply_def addReplyProto_def unat_len_dec mem_read_eq)
qed

end
