(* ===== verification/Repl_Backlog.thy ===== *)
theory Repl_Backlog
  imports Reply_Stream Bit_Commands Sds_Args
begin

text \<open>
  The master side of the replication stream, \<^verbatim>\<open>replication.c\<close>: the circular backlog, the propagation of commands to
  the backlog and to the replicas, the replication IDs and the decision on partial resynchronisation.

  The record \<open>repl_server\<close> has the fields of \<^verbatim>\<open>server\<close> these functions use. Offsets in the stream are integers: a counter
  of 63 bits is not exceeded by the bytes a server can send. The replicas are clients of \<open>Reply_Buffer\<close> with their
  replication fields. Random characters and the socket of the replica that asks for synchronisation are parameters.
\<close>

unbundle bit_operations_syntax

section \<open>State\<close>

definition CLIENT_PRE_PSYNC :: u64 where "CLIENT_PRE_PSYNC = push_bit 16 1"
definition CLIENT_REPL_RDBONLY :: u64 where "CLIENT_REPL_RDBONLY = push_bit 42 1"
definition SLAVE_STATE_WAIT_BGSAVE_END :: nat where "SLAVE_STATE_WAIT_BGSAVE_END = 7"
definition SLAVE_CAPA_PSYNC2 :: u32 where "SLAVE_CAPA_PSYNC2 = push_bit 1 1"
definition CONFIG_REPL_BACKLOG_MIN_SIZE :: int where "CONFIG_REPL_BACKLOG_MIN_SIZE = 1024 * 16"
definition CONFIG_RUN_ID_SIZE :: nat where "CONFIG_RUN_ID_SIZE = 40"
definition PROTO_SHARED_SELECT_CMDS :: int where "PROTO_SHARED_SELECT_CMDS = 10"

record replica = client +
  c_repl_ack_off :: int
  c_repl_ack_time :: int
  c_psync_initial_offset :: int
  c_slave_capa :: u32

record repl_server =
  repl_net :: net_server
  repl_backlog :: "bytes option"
  repl_backlog_size :: nat
  repl_backlog_histlen :: nat
  repl_backlog_idx :: nat
  repl_backlog_off :: int
  master_repl_offset :: int
  masterhost :: "bytes option"
  slaveseldb :: int
  replid :: bytes
  replid2 :: bytes
  second_replid_offset :: int
  repl_min_slaves_to_write :: nat
  repl_min_slaves_max_lag :: int
  repl_good_slaves_count :: nat
  slaves :: "replica list"

section \<open>The backlog\<close>

definition createReplicationBacklog :: "allocator \<Rightarrow> repl_server \<Rightarrow> repl_server option" where
  "createReplicationBacklog A s = do {
     _ \<leftarrow> assert_opt (repl_backlog s = None);
     Some (s\<lparr>repl_backlog := Some (fresh_block A (repl_backlog_size s)), repl_backlog_histlen := 0, repl_backlog_idx := 0,
             repl_backlog_off := master_repl_offset s + 1\<rparr>) }"

definition resizeReplicationBacklog :: "allocator \<Rightarrow> int \<Rightarrow> repl_server \<Rightarrow> repl_server" where
  "resizeReplicationBacklog A newsize s =
     (let newsize = (if newsize < CONFIG_REPL_BACKLOG_MIN_SIZE then CONFIG_REPL_BACKLOG_MIN_SIZE else newsize)
      in if int (repl_backlog_size s) = newsize then s
         else (let s = s\<lparr>repl_backlog_size := nat newsize\<rparr>
               in if repl_backlog s \<noteq> None
                  then s\<lparr>repl_backlog := Some (fresh_block A (repl_backlog_size s)), repl_backlog_histlen := 0,
                         repl_backlog_idx := 0, repl_backlog_off := master_repl_offset s + 1\<rparr>
                  else s))"

definition freeReplicationBacklog :: "repl_server \<Rightarrow> repl_server option" where
  "freeReplicationBacklog s = do { _ \<leftarrow> assert_opt (slaves s = []); Some (s\<lparr>repl_backlog := None\<rparr>) }"

text \<open>The loop gives the block, the index and the length of the history. With the index at the end of the block it would
  make no progress, which is \<open>None\<close>.\<close>

function feed_loop :: "nat \<Rightarrow> bytes \<Rightarrow> nat \<Rightarrow> nat \<Rightarrow> bytes \<Rightarrow> (bytes \<times> nat \<times> nat) option" where
  "feed_loop cap b idx histlen p =
     (if p = [] then Some (b, idx, histlen)
      else (let thislen = (if length p < cap - idx then length p else cap - idx)
            in if thislen = 0 then None
               else (case mem_write b idx (take thislen p) of
                   None \<Rightarrow> None
                 | Some b \<Rightarrow>
                     feed_loop cap b (if idx + thislen = cap then 0 else idx + thislen) (histlen + thislen) (drop thislen p))))"
  by pat_completeness auto
termination
  by (relation "measure (\<lambda>(cap, b, idx, histlen, p). length p)") (auto split: if_splits)

declare feed_loop.simps [simp del]

text \<open>It is called with a backlog only.\<close>

definition feedReplicationBacklog :: "repl_server \<Rightarrow> bytes \<Rightarrow> repl_server option" where
  "feedReplicationBacklog s p = do {
     b \<leftarrow> repl_backlog s;
     let off = master_repl_offset s + int (length p);
     (b, idx, histlen) \<leftarrow> feed_loop (repl_backlog_size s) b (repl_backlog_idx s) (repl_backlog_histlen s) p;
     let histlen = (if repl_backlog_size s < histlen then repl_backlog_size s else histlen);
     Some (s\<lparr>master_repl_offset := off, repl_backlog := Some b, repl_backlog_idx := idx, repl_backlog_histlen := histlen,
             repl_backlog_off := off - int histlen + 1\<rparr>) }"

definition feedReplicationBacklogWithObject :: "allocator \<Rightarrow> repl_server \<Rightarrow> robj \<Rightarrow> repl_server option" where
  "feedReplicationBacklogWithObject A s ob =
     (if encoding ob = OBJ_ENCODING_INT then do {
        v \<leftarrow> get_long ob;
        (len, buf) \<leftarrow> ll2string (fresh_block A LONG_STR_SIZE) (word_of_nat LONG_STR_SIZE) v;
        p \<leftarrow> mem_read buf 0 (unat len);
        feedReplicationBacklog s p }
      else do {
        t \<leftarrow> get_sds ob;
        p \<leftarrow> mem_read (sds_buf t) 0 (sdslen t);
        feedReplicationBacklog s p })"

section \<open>Propagation\<close>

definition canFeedReplicaReplBuffer :: "'a client_scheme \<Rightarrow> bool" where
  "canFeedReplicaReplBuffer replica =
     (if has_flag replica CLIENT_REPL_RDBONLY then False
      else if c_replstate replica = SLAVE_STATE_WAIT_BGSAVE_START then False
      else True)"

text \<open>The loops over the replicas.\<close>

fun feed_slaves :: "('c client_scheme \<Rightarrow> 'c client_scheme option) \<Rightarrow> 'c client_scheme list \<Rightarrow> 'c client_scheme list option" where
  "feed_slaves f [] = Some []"
| "feed_slaves f (slave # rest) = do {
     slave \<leftarrow> (if \<not> canFeedReplicaReplBuffer slave then Some slave else f slave);
     rest \<leftarrow> feed_slaves f rest;
     Some (slave # rest) }"

text \<open>The text of \<^verbatim>\<open>SELECT\<close>, printed at startup for the first databases and on demand for the others.\<close>

definition select_command :: "allocator \<Rightarrow> int \<Rightarrow> bytes option" where
  "select_command A dictid = do {
     let n = (if 0 \<le> dictid \<and> dictid < PROTO_SHARED_SELECT_CMDS then 64 else LONG_STR_SIZE);
     (dictid_len, llstr) \<leftarrow> ll2string (fresh_block A n) (word_of_nat n) (word_of_int dictid);
     t \<leftarrow> cstr llstr;
     Some (ascii ''*2'' @ crlf @ ascii ''$6'' @ crlf @ ascii ''SELECT'' @ crlf @ ascii ''$'' @ dec_int (int (unat dictid_len)) @ crlf @ t @ crlf) }"

fun feed_args :: "allocator \<Rightarrow> repl_server \<Rightarrow> robj list \<Rightarrow> repl_server option" where
  "feed_args A s [] = Some s"
| "feed_args A s (ob # argv) = do {
     objlen \<leftarrow> stringObjectLen ob;
     aux \<leftarrow> print_hdr A (LONG_STR_SIZE + 3) 36 (word_of_nat objlen);
     s \<leftarrow> feedReplicationBacklog s aux;
     s \<leftarrow> feedReplicationBacklogWithObject A s ob;
     s \<leftarrow> feedReplicationBacklog s (drop (length aux - 2) aux);
     feed_args A s argv }"

fun add_bulks :: "allocator \<Rightarrow> net_server \<Rightarrow> 'a client_scheme \<Rightarrow> robj list \<Rightarrow> 'a client_scheme option" where
  "add_bulks A sv c [] = Some c"
| "add_bulks A sv c (ob # argv) = do { c \<leftarrow> addReplyBulk A sv c ob; add_bulks A sv c argv }"

definition send_select :: "allocator \<Rightarrow> repl_server \<Rightarrow> int \<Rightarrow> repl_server option" where
  "send_select A s dictid = do {
     selectcmd \<leftarrow> select_command A dictid;
     s \<leftarrow> (if repl_backlog s \<noteq> None then feedReplicationBacklog s selectcmd else Some s);
     sl \<leftarrow> feed_slaves (\<lambda>slave. addReplyProto A (repl_net s) slave selectcmd) (slaves s);
     Some (s\<lparr>slaves := sl\<rparr>) }"

definition replicationFeedSlaves :: "allocator \<Rightarrow> repl_server \<Rightarrow> int \<Rightarrow> robj list \<Rightarrow> repl_server option" where
  "replicationFeedSlaves A s dictid argv =
     (if masterhost s \<noteq> None then Some s
      else if repl_backlog s = None \<and> slaves s = [] then Some s
      else do {
        _ \<leftarrow> assert_opt (\<not> (slaves s \<noteq> [] \<and> repl_backlog s = None));
        s \<leftarrow> (if slaveseldb s \<noteq> dictid then send_select A s dictid else Some s);
        let s = s\<lparr>slaveseldb := dictid\<rparr>;
        s \<leftarrow> (if repl_backlog s \<noteq> None then do {
               aux \<leftarrow> print_hdr A (LONG_STR_SIZE + 3) 42 (word_of_nat (length argv));
               s \<leftarrow> feedReplicationBacklog s aux;
               feed_args A s argv }
             else Some s);
        sl \<leftarrow> feed_slaves (\<lambda>slave. do {
                slave \<leftarrow> addReplyArrayLen A (repl_net s) slave (word_of_nat (length argv));
                add_bulks A (repl_net s) slave argv }) (slaves s);
        Some (s\<lparr>slaves := sl\<rparr>) })"

definition replicationFeedSlavesFromMasterStream :: "allocator \<Rightarrow> repl_server \<Rightarrow> bytes \<Rightarrow> repl_server option" where
  "replicationFeedSlavesFromMasterStream A s buf = do {
     s \<leftarrow> (if repl_backlog s \<noteq> None then feedReplicationBacklog s buf else Some s);
     sl \<leftarrow> feed_slaves (\<lambda>slave. addReplyProto A (repl_net s) slave buf) (slaves s);
     Some (s\<lparr>slaves := sl\<rparr>) }"

section \<open>Resynchronisation\<close>

text \<open>The last bytes of the backlog, quoted for the log.\<close>

function dump_loop :: "allocator \<Rightarrow> bytes \<Rightarrow> nat \<Rightarrow> nat \<Rightarrow> nat \<Rightarrow> sds \<Rightarrow> sds option" where
  "dump_loop A b cap idx dumplen dump =
     (if dumplen = 0 then Some dump
      else (let thislen = (if cap - idx < dumplen then cap - idx else dumplen)
            in if thislen = 0 \<and> idx = 0 then None
               else (case Option.bind (mem_read b idx thislen) (sdscatrepr A dump) of
                   None \<Rightarrow> None
                 | Some dump \<Rightarrow> dump_loop A b cap 0 (dumplen - thislen) dump)))"
  by pat_completeness auto
termination
  by (relation "measures [\<lambda>(A, b, cap, idx, dumplen, dump). dumplen, \<lambda>(A, b, cap, idx, dumplen, dump). idx]") (auto split: if_splits)

declare dump_loop.simps [simp del]

text \<open>The result is the text that is logged, if any.\<close>

definition showLatestBacklog :: "allocator \<Rightarrow> repl_server \<Rightarrow> sds option option" where
  "showLatestBacklog A s =
     (case repl_backlog s of
        None \<Rightarrow> Some None
      | Some b \<Rightarrow> do {
          let dumplen = (if repl_backlog_histlen s < 256 then repl_backlog_histlen s else 256);
          _ \<leftarrow> assert_opt (repl_backlog_size s \<noteq> 0);
          let idx = (repl_backlog_idx s + (repl_backlog_size s - dumplen)) mod repl_backlog_size s;
          dump \<leftarrow> sdsempty A;
          dump \<leftarrow> dump_loop A b (repl_backlog_size s) idx dumplen dump;
          Some (Some dump) })"

text \<open>The remainder of C, with the sign of the dividend.\<close>

definition c_rem :: "int \<Rightarrow> int \<Rightarrow> int" where
  "c_rem a n = (if 0 \<le> a then a mod n else - ((- a) mod n))"

function backlog_loop :: "allocator \<Rightarrow> net_server \<Rightarrow> bytes \<Rightarrow> nat \<Rightarrow> nat \<Rightarrow> nat \<Rightarrow> 'a client_scheme \<Rightarrow> 'a client_scheme option" where
  "backlog_loop A sv b cap j len c =
     (if len = 0 then Some c
      else (let thislen = (if cap - j < len then cap - j else len)
            in if thislen = 0 \<and> j = 0 then None
               else (case Option.bind (mem_read b j thislen) (\<lambda>t. Option.bind (sdsnewlen A (Init t) thislen) (addReplySds A sv c)) of
                   None \<Rightarrow> None
                 | Some c \<Rightarrow> backlog_loop A sv b cap 0 (len - thislen) c)))"
  by pat_completeness auto
termination
  by (relation "measures [\<lambda>(A, sv, b, cap, j, len, c). len, \<lambda>(A, sv, b, cap, j, len, c). j]") (auto split: if_splits)

declare backlog_loop.simps [simp del]

text \<open>The result is the number of bytes and the client.\<close>

definition addReplyReplicationBacklog :: "allocator \<Rightarrow> repl_server \<Rightarrow> 'a client_scheme \<Rightarrow> int \<Rightarrow> (int \<times> 'a client_scheme) option" where
  "addReplyReplicationBacklog A s c offset =
     (if repl_backlog_histlen s = 0 then Some (0, c)
      else do {
        b \<leftarrow> repl_backlog s;
        let skip = offset - repl_backlog_off s;
        _ \<leftarrow> assert_opt (repl_backlog_size s \<noteq> 0);
        let cap = int (repl_backlog_size s);
        let j = c_rem (int (repl_backlog_idx s) + (cap - int (repl_backlog_histlen s))) cap;
        let j = c_rem (j + skip) cap;
        let len = int (repl_backlog_histlen s) - skip;
        _ \<leftarrow> assert_opt (0 \<le> len \<and> (len \<noteq> 0 \<longrightarrow> 0 \<le> j));
        c \<leftarrow> backlog_loop A (repl_net s) b (repl_backlog_size s) (nat j) (nat len) c;
        Some (int (repl_backlog_histlen s) - skip, c) })"

definition getPsyncInitialOffset :: "repl_server \<Rightarrow> int" where
  "getPsyncInitialOffset s = master_repl_offset s"

text \<open>A short text printed to a local buffer of 128 bytes and written to the socket; the result says whether all of it was accepted.\<close>

definition write_line :: "'s socket \<Rightarrow> bytes \<Rightarrow> (bool \<times> 's socket) option" where
  "write_line so t = do {
     _ \<leftarrow> assert_opt (length t < 128);
     let (r, st) = conn_write so (sock_state so) t;
     Some (r = int (length t), so\<lparr>sock_state := st\<rparr>) }"

definition replicationSetupSlaveForFullResync ::
    "repl_server \<Rightarrow> 's socket \<Rightarrow> replica \<Rightarrow> int \<Rightarrow> (bool \<times> repl_server \<times> 's socket \<times> replica) option" where
  "replicationSetupSlaveForFullResync s so slave offset = do {
     let slave = slave\<lparr>c_psync_initial_offset := offset, c_replstate := SLAVE_STATE_WAIT_BGSAVE_END\<rparr>;
     let s = s\<lparr>slaveseldb := - 1\<rparr>;
     if \<not> has_flag slave CLIENT_PRE_PSYNC then do {
       id \<leftarrow> cstr (replid s);
       (ok, so) \<leftarrow> write_line so (ascii ''+FULLRESYNC '' @ id @ ascii '' '' @ dec_int offset @ crlf);
       Some (if ok then (True, s, so, slave) else (False, s, so, freeClientAsync slave)) }
     else Some (True, s, so, slave) }"

definition refreshGoodSlavesCount :: "repl_server \<Rightarrow> repl_server" where
  "refreshGoodSlavesCount s =
     (if repl_min_slaves_to_write s = 0 \<or> repl_min_slaves_max_lag s = 0 then s
      else s\<lparr>repl_good_slaves_count :=
               length (filter (\<lambda>slave. c_replstate slave = SLAVE_STATE_ONLINE \<and>
                                       net_unixtime (repl_net s) - c_repl_ack_time slave \<le> repl_min_slaves_max_lag s) (slaves s))\<rparr>)"

definition id_mismatch :: "repl_server \<Rightarrow> bytes \<Rightarrow> int \<Rightarrow> bool option" where
  "id_mismatch s master_replid psync_offset = do {
     r \<leftarrow> strcasecmp master_replid (replid s);
     if r = 0 then Some False
     else do {
       r2 \<leftarrow> strcasecmp master_replid (replid2 s);
       Some (r2 \<noteq> 0 \<or> second_replid_offset s < psync_offset) } }"

text \<open>The result is \<^verbatim>\<open>C_OK\<close> or \<^verbatim>\<open>C_ERR\<close>, the server, where an accepted replica is the last one of the list, and the
  socket. The replication ID is the second word of the command.\<close>

definition masterTryPartialResynchronization ::
    "allocator \<Rightarrow> repl_server \<Rightarrow> 's socket \<Rightarrow> replica \<Rightarrow> bytes \<Rightarrow> int \<Rightarrow> (bool \<times> repl_server \<times> 's socket) option" where
  "masterTryPartialResynchronization A s so c master_replid psync_offset = do {
     mismatch \<leftarrow> id_mismatch s master_replid psync_offset;
     if mismatch then Some (False, s, so)
     else if repl_backlog s = None \<or> psync_offset < repl_backlog_off s \<or> repl_backlog_off s + int (repl_backlog_histlen s) < psync_offset
     then Some (False, s, so)
     else do {
       let c = (set_flag CLIENT_SLAVE c)\<lparr>c_replstate := SLAVE_STATE_ONLINE, c_repl_ack_time := net_unixtime (repl_net s),
                                         c_repl_put_online_on_ack := False\<rparr>;
       id \<leftarrow> cstr (replid s);
       (ok, so) \<leftarrow> write_line so (if c_slave_capa c AND SLAVE_CAPA_PSYNC2 \<noteq> 0 then ascii ''+CONTINUE '' @ id @ crlf
                                  else ascii ''+CONTINUE'' @ crlf);
       if \<not> ok then Some (True, s\<lparr>slaves := slaves s @ [freeClientAsync c]\<rparr>, so)
       else do {
         (psync_len, c) \<leftarrow> addReplyReplicationBacklog A s c psync_offset;
         Some (True, refreshGoodSlavesCount (s\<lparr>slaves := slaves s @ [c]\<rparr>), so) } } }"

definition replicationCountAcksByOffset :: "repl_server \<Rightarrow> int \<Rightarrow> nat" where
  "replicationCountAcksByOffset s offset =
     length (filter (\<lambda>slave. c_replstate slave = SLAVE_STATE_ONLINE \<and> offset \<le> c_repl_ack_off slave) (slaves s))"

section \<open>Replication IDs\<close>

text \<open>The random characters are given.\<close>

definition changeReplicationId :: "bytes \<Rightarrow> repl_server \<Rightarrow> repl_server" where
  "changeReplicationId rnd s = s\<lparr>replid := take CONFIG_RUN_ID_SIZE rnd @ [0]\<rparr>"

definition clearReplicationId2 :: "repl_server \<Rightarrow> repl_server" where
  "clearReplicationId2 s = s\<lparr>replid2 := replicate CONFIG_RUN_ID_SIZE 48 @ [0], second_replid_offset := - 1\<rparr>"

definition shiftReplicationId :: "bytes \<Rightarrow> repl_server \<Rightarrow> repl_server" where
  "shiftReplicationId rnd s =
     changeReplicationId rnd (s\<lparr>replid2 := replid s, second_replid_offset := master_repl_offset s + 1\<rparr>)"

end
