(* ===== verification/Repl_Stream.thy ===== *)
theory Repl_Stream
  imports Repl_Backlog
begin

text \<open>
  The replication stream as one history of bytes. The circular backlog holds the last bytes of the history
  (\<open>backlog_holds\<close>); feeding it extends the history. The replicas get the same bytes as the backlog (\<open>fed\<close>,
  \<open>advances\<close>), and a partial resynchronisation completes what a replica has to the history of the master.
\<close>


section \<open>The circular buffer\<close>

text \<open>The contents of the block from the oldest to the newest byte. Writing at the index drops as many of the oldest bytes as it
  adds.\<close>

definition ring :: "bytes \<Rightarrow> nat \<Rightarrow> bytes" where
  "ring b idx = drop idx b @ take idx b"

lemma length_ring [simp]: "length (ring b idx) = length b"
  by (simp add: ring_def)

lemma ring_write:
  assumes "length b = cap" "idx < cap" "length q \<le> cap - idx"
  shows "mem_write b idx q = Some (take idx b @ q @ drop (idx + length q) b)"
    and "ring (take idx b @ q @ drop (idx + length q) b) (if idx + length q = cap then 0 else idx + length q) = drop (length q) (ring b idx) @ q"
  using assms by (auto simp: mem_write_eq ring_def add.commute)

lemma feed_loop_eq:
  assumes "length b = cap" "idx < cap"
  shows "\<exists>b' idx'. feed_loop cap b idx h p = Some (b', idx', h + length p) \<and> length b' = cap \<and> idx' < cap \<and>
    ring b' idx' = drop (length p) (ring b idx @ p)"
  using assms
proof (induction cap b idx h p rule: feed_loop.induct)
  case (1 cap b idx h p)
  define n where "n = (if length p < cap - idx then length p else cap - idx)"
  show ?case
  proof (cases "p = []")
    case False
    then have n: "n \<noteq> 0" "n \<le> length p" "n \<le> cap - idx" using "1.prems" by (auto simp: n_def)
    then have q: "length (take n p) = n" by simp
    define b1 where "b1 = take idx b @ take n p @ drop (idx + n) b"
    define i1 where "i1 = (if idx + n = cap then 0 else idx + n)"
    have w: "mem_write b idx (take n p) = Some b1" "ring b1 i1 = drop n (ring b idx) @ take n p"
      using ring_write [of b cap idx "take n p", unfolded q] "1.prems" n unfolding b1_def i1_def by blast+
    have i1: "length b1 = cap" "i1 < cap" using "1.prems" n by (auto simp: b1_def i1_def)
    obtain b' idx' where r: "feed_loop cap b1 i1 (h + n) (drop n p) = Some (b', idx', h + n + length (drop n p))" "length b' = cap" "idx' < cap"
      "ring b' idx' = drop (length (drop n p)) (ring b1 i1 @ drop n p)"
      using "1.IH" [OF False n_def n(1) w(1)] i1 by (auto simp: i1_def)
    have "ring b' idx' = drop (length p) (ring b idx @ p)"
    proof -
      have "ring b1 i1 @ drop n p = drop n (ring b idx @ p)" using w(2) n "1.prems" by simp
      then have "ring b' idx' = drop (length (drop n p)) (drop n (ring b idx @ p))" by (simp only: r(4))
      then show ?thesis using n by (simp del: drop_append)
    qed
    moreover have "feed_loop cap b idx h p = Some (b', idx', h + length p)"
      using feed_loop.simps [of cap b idx h p] False n w(1) r(1) by (simp add: n_def [symmetric] i1_def)
    ultimately show ?thesis using r by blast
  qed (use "1.prems" in \<open>simp add: feed_loop.simps\<close>)
qed

section \<open>The history\<close>

text \<open>\<open>T\<close> is all of the stream up to the current offset, with byte 1 first; the backlog has its last \<open>histlen\<close> bytes.\<close>

definition backlog_holds :: "bytes \<Rightarrow> repl_server \<Rightarrow> bool" where
  "backlog_holds T s \<longleftrightarrow> master_repl_offset s = int (length T) \<and>
     (\<exists>b. repl_backlog s = Some b \<and> length b = repl_backlog_size s \<and> repl_backlog_idx s < repl_backlog_size s \<and>
       repl_backlog_histlen s \<le> repl_backlog_size s \<and> repl_backlog_histlen s \<le> length T \<and> repl_backlog_size s < 2 ^ 63 \<and>
       repl_backlog_off s = int (length T) - int (repl_backlog_histlen s) + 1 \<and>
       drop (repl_backlog_size s - repl_backlog_histlen s) (ring b (repl_backlog_idx s)) = drop (length T - repl_backlog_histlen s) T)"

lemma last_bytes:
  assumes "h \<le> cap" "h \<le> length T" "length r = cap" "drop (cap - h) r = drop (length T - h) T" "h' = (if cap < h + length p then cap else h + length p)"
  shows "drop (cap - h') (drop (length p) (r @ p)) = drop (length (T @ p) - h') (T @ p)"
proof (cases "cap < h + length p")
  case False
  then have "cap - h' + length p = cap - h" "length (T @ p) - h' = length T - h" using assms by auto
  then show ?thesis using False assms by simp
next
  case True
  show ?thesis
  proof (cases "cap \<le> length p")
    case c: True
    then show ?thesis using True assms by simp
  next
    case c: False
    then have "drop (length p) r = drop (length p - (cap - h)) (drop (cap - h) r)" using True by simp
    also have "\<dots> = drop (length p - (cap - h)) (drop (length T - h) T)" using assms(4) by simp
    also have "\<dots> = drop (length T + length p - cap) T" using True c assms(1,2) by (simp add: add.commute)
    finally show ?thesis using True c assms by simp
  qed
qed

lemma feed_backlog:
  assumes "backlog_holds T s"
  shows "\<exists>s'. feedReplicationBacklog s p = Some s' \<and> backlog_holds (T @ p) s' \<and>
    (\<exists>b i h f g. s' = s\<lparr>master_repl_offset := g, repl_backlog := Some b, repl_backlog_idx := i, repl_backlog_histlen := h, repl_backlog_off := f\<rparr>)"
proof -
  obtain b where b: "repl_backlog s = Some b" "length b = repl_backlog_size s" "repl_backlog_idx s < repl_backlog_size s"
    "drop (repl_backlog_size s - repl_backlog_histlen s) (ring b (repl_backlog_idx s)) = drop (length T - repl_backlog_histlen s) T"
    using assms by (auto simp: backlog_holds_def)
  have h: "repl_backlog_histlen s \<le> repl_backlog_size s" "repl_backlog_histlen s \<le> length T" using assms by (auto simp: backlog_holds_def)
  obtain b' idx' where f: "feed_loop (repl_backlog_size s) b (repl_backlog_idx s) (repl_backlog_histlen s) p = Some (b', idx', repl_backlog_histlen s + length p)"
    "length b' = repl_backlog_size s" "idx' < repl_backlog_size s" "ring b' idx' = drop (length p) (ring b (repl_backlog_idx s) @ p)"
    using feed_loop_eq [OF b(2,3)] by blast
  define h' where "h' = (if repl_backlog_size s < repl_backlog_histlen s + length p then repl_backlog_size s else repl_backlog_histlen s + length p)"
  have "drop (repl_backlog_size s - h') (ring b' idx') = drop (length (T @ p) - h') (T @ p)"
    unfolding f(4) by (rule last_bytes [OF h _ b(4) h'_def]) (simp add: b(2))
  moreover have "h' \<le> repl_backlog_size s" "h' \<le> length (T @ p)" using h by (auto simp: h'_def)
  moreover define s' where "s' = s\<lparr>master_repl_offset := int (length (T @ p)), repl_backlog := Some b', repl_backlog_idx := idx',
    repl_backlog_histlen := h', repl_backlog_off := int (length (T @ p)) - int h' + 1\<rparr>"
  ultimately have "backlog_holds (T @ p) s'" using assms f by (simp add: backlog_holds_def del: drop_append) auto
  moreover have "feedReplicationBacklog s p = Some s'" using b(1) f(1) assms
    by (simp add: feedReplicationBacklog_def h'_def [symmetric] s'_def Let_def backlog_holds_def)
  ultimately show ?thesis unfolding s'_def by blast
qed

section \<open>Appending to the output of a replica\<close>

text \<open>Everything is appended to the output as long as the replica accepts it; a replica that reached its limit has a prefix of it.\<close>

definition appends :: "'a client_scheme \<Rightarrow> bytes \<Rightarrow> nat \<Rightarrow> 'a client_scheme \<Rightarrow> bool" where
  "appends c t n c' \<longleftrightarrow> out_inv c' \<and>
     (\<exists>u v. t = u @ v \<and> view c' = view c @ map Some u \<and> (accepts c' \<longrightarrow> v = []) \<and> (\<not> accepts c \<longrightarrow> u = [])) \<and>
     c_reply_bytes c' \<le> c_reply_bytes c + n \<and> flags_grow c c' \<and> c_conn c' = c_conn c \<and> c_replstate c' = c_replstate c"

lemma appends_refl: "out_inv c \<Longrightarrow> appends c [] 0 c"
  by (auto simp: appends_def)

lemma appends_trans:
  assumes "appends a s m b" "appends b t n c"
  shows "appends a (s @ t) (m + n) c"
proof -
  obtain u v where u: "s = u @ v" "view b = view a @ map Some u" "accepts b \<longrightarrow> v = []" "\<not> accepts a \<longrightarrow> u = []"
    using assms(1) unfolding appends_def by blast
  obtain x y where x: "t = x @ y" "view c = view b @ map Some x" "accepts c \<longrightarrow> y = []" "\<not> accepts b \<longrightarrow> x = []"
    using assms(2) unfolding appends_def by blast
  have f: "flags_grow a c" "c_conn c = c_conn a" "c_replstate c = c_replstate a" "c_reply_bytes c \<le> c_reply_bytes a + (m + n)" "out_inv c"
    using assms flags_grow_trans [of a b c] by (auto simp: appends_def)
  have acc: "accepts c \<longrightarrow> accepts b" "accepts b \<longrightarrow> accepts a"
    using assms accepts_anti [of b c] accepts_anti [of a b] by (auto simp: appends_def)
  have "\<exists>u' v'. s @ t = u' @ v' \<and> view c = view a @ map Some u' \<and> (accepts c \<longrightarrow> v' = []) \<and> (\<not> accepts a \<longrightarrow> u' = [])"
  proof (cases "accepts b")
    case True
    then show ?thesis using u x acc by (intro exI [of _ "u @ x"] exI [of _ y]) simp
  next
    case False
    then show ?thesis using u x acc by (intro exI [of _ u] exI [of _ "v @ t"]) simp
  qed
  then show ?thesis using f by (simp add: appends_def)
qed

lemma appends_mono: "appends c t m c' \<Longrightarrow> m \<le> n \<Longrightarrow> appends c t n c'"
  by (auto simp: appends_def)

text \<open>Replies touch the output and the flags of a client only.\<close>

definition kept :: "'a client_scheme \<Rightarrow> 'a client_scheme \<Rightarrow> bool" where
  "kept c c' \<longleftrightarrow> c_replstate c' = c_replstate c \<and> client.more c' = client.more c"

lemma same_out_kept: "same_out c c' \<Longrightarrow> kept c c'"
  by (auto simp: same_out_def kept_def)

lemma kept_trans: "kept a b \<Longrightarrow> kept b c \<Longrightarrow> kept a c"
  by (simp add: kept_def)

lemma check_kept: "checkClientOutputBufferLimits sv c = (r, c') \<Longrightarrow> kept c c'"
  by (auto simp: checkClientOutputBufferLimits_def Let_def kept_def split: if_splits)

lemma free_kept [simp]: "c_replstate (freeClientAsync c) = c_replstate c" "client.more (freeClientAsync c) = client.more c"
  using same_out_kept [OF free_facts(1) [of c]] by (simp_all add: kept_def)

lemma close_kept: "closeClientOnOutputBufferLimitReached sv c = Some c' \<Longrightarrow> kept c c'"
  by (auto simp: closeClientOnOutputBufferLimitReached_def kept_def dest!: check_kept split: if_splits prod.splits)

lemma toList_kept: "addReplyProtoToList A sv c s = Some c' \<Longrightarrow> kept c c'"
  by (auto simp: addReplyProtoToList_def kept_def dest!: close_kept split: bind_splits if_splits option.splits)

lemma addReplyProto_kept:
  assumes "addReplyProto A sv c s = Some c'"
  shows "kept c c'"
proof -
  obtain ok c1 where p: "prepareClientToWrite c = (ok, c1)" by (cases "prepareClientToWrite c") auto
  then have "kept c c1" using same_out_kept [OF prepare_facts(1) [of c]] by simp
  then show ?thesis using assms p
    by (auto simp: addReplyProto_def addReplyToBuffer_def Let_def kept_def dest!: toList_kept split: bind_splits if_splits option.splits)
qed

lemma addReplyProto_appends:
  assumes "out_inv c" "c_reply_bytes c + grow s < MAX_REPLY_BYTES" "modest A"
  shows "\<exists>c'. addReplyProto A sv c s = Some c' \<and> appends c s (grow s) c'"
proof -
  obtain c' where c': "addReplyProto A sv c s = Some c'" "emits c (view c @ (if accepts c then map Some s else [])) (holes (c_reply c)) (grow s) c'"
    using addReplyProto_eq [OF assms] by blast
  have "accepts c' \<longrightarrow> accepts c" using c'(2) accepts_anti [of c c'] by (auto simp: emits_def)
  then have "appends c s (grow s) c'" using c'(2) addReplyProto_kept [OF c'(1)]
    by (cases "accepts c") (auto simp: emits_def appends_def kept_def)
  then show ?thesis using c'(1) by blast
qed

text \<open>A reply in several pieces.\<close>

abbreviation add_all :: "allocator \<Rightarrow> net_server \<Rightarrow> 'a client_scheme \<Rightarrow> bytes list \<Rightarrow> 'a client_scheme option" where
  "add_all A sv c ps \<equiv> put_all (addReplyProto A sv) c ps"

definition client_room :: "allocator \<Rightarrow> nat \<Rightarrow> 'a client_scheme \<Rightarrow> bool" where
  "client_room A n c \<longleftrightarrow> modest A \<and> out_inv c \<and> c_reply_bytes c + n < MAX_REPLY_BYTES"

text \<open>The output of a client is a consumer of pieces.\<close>

interpretation client_output: output_queue "addReplyProto A sv" "client_room A" grow appends for A sv
proof
  show "\<exists>c'. addReplyProto A sv c p = Some c' \<and> appends c p (grow p) c'" if "client_room A (grow p) c" for p and c :: "'a client_scheme"
    using that addReplyProto_appends [of c p A sv] by (simp add: client_room_def)
  show "appends c [] 0 c" if "client_room A n c" for n and c :: "'a client_scheme" using that by (simp add: client_room_def appends_refl)
  show "client_room A n c'" if "appends c t m c'" "client_room A (m + n) c" for t m n and c c' :: "'a client_scheme"
    using that by (auto simp: client_room_def appends_def)
  show "client_room A m c" if "client_room A n c" "m \<le> n" for m n and c :: "'a client_scheme" using that by (simp add: client_room_def)
qed (rule appends_trans)

lemma add_all_appends:
  assumes "out_inv c" "c_reply_bytes c + sum_list (map grow ps) < MAX_REPLY_BYTES" "modest A"
  shows "\<exists>c'. add_all A sv c ps = Some c' \<and> appends c (concat ps) (sum_list (map grow ps)) c'"
  using client_output.put_all_law [of A ps c sv] assms by (simp add: client_room_def)

section \<open>The text of a command\<close>

definition bulk_pieces :: "robj \<Rightarrow> bytes list" where
  "bulk_pieces ob = [36 # dec_int (int (length (obj_str ob))) @ crlf, obj_str ob, crlf]"

definition command_pieces :: "robj list \<Rightarrow> bytes list" where
  "command_pieces argv = (42 # dec_int (int (length argv)) @ crlf) # concat (map bulk_pieces argv)"

definition select_text :: "int \<Rightarrow> bytes" where
  "select_text d = ascii ''*2'' @ crlf @ ascii ''$6'' @ crlf @ ascii ''SELECT'' @ crlf @ ascii ''$'' @ dec_int (int (length (dec_int d))) @ crlf @ dec_int d @ crlf"

definition args_ok :: "robj list \<Rightarrow> bool" where
  "args_ok argv \<longleftrightarrow> length argv < 2 ^ 63 \<and> (\<forall>ob\<in>set argv. obj_ok ob \<and> length (obj_str ob) < 2 ^ 63)"

lemma sint_of_int_range: "- (2 ^ 63) \<le> i \<Longrightarrow> i < 2 ^ 63 \<Longrightarrow> sint (word_of_int i :: s64) = i"
  by (simp add: signed_of_int signed_take_bit_int_eq_self)

lemma sint_of_nat: "n < 2 ^ 63 \<Longrightarrow> sint (word_of_nat n :: s64) = int n"
  using sint_of_int_range [of "int n"] by simp

lemma select_command_eq:
  assumes "- (2 ^ 31) \<le> d" "d < 2 ^ 31"
  shows "select_command A d = Some (select_text d)"
proof -
  have s: "sint (word_of_int d :: s64) = d" using assms using sint_of_int_range [of d] by simp
  define n where "n = (if 0 \<le> d \<and> d < PROTO_SHARED_SELECT_CMDS then 64 else LONG_STR_SIZE)"
  have n: "unat (word_of_nat n :: u64) = n" "21 \<le> n" by (auto simp: n_def LONG_STR_SIZE_def)
  have "ll2string (fresh_block A n) (word_of_nat n) (word_of_int d) =
    Some (word_of_nat (length (dec_int d)), dec_int d @ 0 # drop (length (dec_int d) + 1) (fresh_block A n))"
    using printed_number [of "word_of_nat n" A "word_of_int d"] n s by simp
  moreover have "unat (word_of_nat (length (dec_int d)) :: u32) = length (dec_int d)" using unat_len_dec [of "word_of_int d"] s by simp
  ultimately show ?thesis by (simp add: select_command_def n_def [symmetric] cstr_append [OF zero_not_in_dec] select_text_def Let_def del: of_nat_unat)
qed

abbreviation feed_all :: "repl_server \<Rightarrow> bytes list \<Rightarrow> repl_server option" where
  "feed_all s ps \<equiv> put_all feedReplicationBacklog s ps"

lemma feed_object:
  assumes "obj_ok ob"
  shows "feedReplicationBacklogWithObject A s ob = feedReplicationBacklog s (obj_str ob)"
  using assms
proof (cases rule: obj_cases)
  case (str t)
  then show ?thesis by (auto simp: feedReplicationBacklogWithObject_def sdsEncodedObject_def mem_read_eq sds_str_def)
next
  case (int v)
  then show ?thesis using printed_number [of "word_of_nat LONG_STR_SIZE" A v]
    by (simp add: feedReplicationBacklogWithObject_def LONG_STR_SIZE_def unat_len_dec mem_read_eq)
qed

lemma feed_args_eq:
  assumes "\<forall>ob\<in>set argv. obj_ok ob \<and> length (obj_str ob) < 2 ^ 63"
  shows "feed_args A s argv = feed_all s (concat (map bulk_pieces argv))"
  using assms
proof (induction argv arbitrary: s)
  case (Cons ob argv)
  have "print_hdr A (LONG_STR_SIZE + 3) 36 (word_of_nat (length (obj_str ob))) = Some (36 # dec_int (int (length (obj_str ob))) @ crlf)"
    using print_hdr_eq [of "LONG_STR_SIZE + 3" A 36 "word_of_nat (length (obj_str ob))"] Cons.prems sint_of_nat [of "length (obj_str ob)"]
    by (simp add: LONG_STR_SIZE_def)
  moreover have "drop (length (36 # dec_int n @ crlf) - 2) (36 # dec_int n @ crlf) = crlf" for n by (simp add: crlf_def)
  ultimately show ?case using Cons
    by (simp add: stringObjectLen_ok feed_object bulk_pieces_def split: bind_split)
qed simp

lemma add_bulks_eq:
  assumes "\<forall>ob\<in>set argv. obj_ok ob \<and> length (obj_str ob) < 2 ^ 63"
  shows "add_bulks A sv c argv = add_all A sv c (concat (map bulk_pieces argv))"
  using assms
proof (induction argv arbitrary: c)
  case (Cons ob argv)
  then show ?case
    by (simp add: addReplyBulk_def addReplyBulkLen_def stringObjectLen_ok prefix_text addReply_text bulk_pieces_def sint_of_nat split: bind_split)
qed simp

lemma feed_command_eq:
  assumes "args_ok argv"
  shows "do { aux \<leftarrow> print_hdr A (LONG_STR_SIZE + 3) 42 (word_of_nat (length argv)); s \<leftarrow> feedReplicationBacklog s aux; feed_args A s argv } =
    feed_all s (command_pieces argv)"
  using assms print_hdr_eq [of "LONG_STR_SIZE + 3" A 42 "word_of_nat (length argv)"] sint_of_nat [of "length argv"]
  by (simp add: args_ok_def feed_args_eq command_pieces_def LONG_STR_SIZE_def)

lemma add_command_eq:
  assumes "args_ok argv"
  shows "do { c \<leftarrow> addReplyArrayLen A sv c (word_of_nat (length argv)); add_bulks A sv c argv } = add_all A sv c (command_pieces argv)"
  using assms sint_of_nat [of "length argv"]
  by (simp add: args_ok_def add_bulks_eq command_pieces_def addReplyArrayLen_def addReplyAggregateLen_def prefix_text assert_opt_def)

section \<open>All replicas get the stream\<close>

definition fed :: "bytes \<Rightarrow> nat \<Rightarrow> 'a client_scheme \<Rightarrow> 'a client_scheme \<Rightarrow> bool" where
  "fed t n c c' \<longleftrightarrow> (if canFeedReplicaReplBuffer c then appends c t n c' else c' = c)"

lemma rdbonly_bit: "has_flag c CLIENT_REPL_RDBONLY \<longleftrightarrow> bit (c_flags c) 42"
  unfolding CLIENT_REPL_RDBONLY_def by (rule has_flag_bit)

lemma appends_can_feed: "appends c t n c' \<Longrightarrow> canFeedReplicaReplBuffer c' = canFeedReplicaReplBuffer c"
  by (simp add: appends_def canFeedReplicaReplBuffer_def rdbonly_bit flags_grow_def)

lemma fed_refl: "out_inv c \<Longrightarrow> fed [] 0 c c"
  by (simp add: fed_def appends_refl)

lemma fed_trans: "fed s m a b \<Longrightarrow> fed t n b c \<Longrightarrow> fed (s @ t) (m + n) a c"
  using appends_trans [of a s m b t n c] appends_can_feed [of a s m b] by (auto simp: fed_def split: if_splits)

definition room :: "nat \<Rightarrow> 'a client_scheme list \<Rightarrow> bool" where
  "room n cs \<longleftrightarrow> (\<forall>c\<in>set cs. out_inv c \<and> c_reply_bytes c + n < MAX_REPLY_BYTES)"

lemma room_mono: "room n cs \<Longrightarrow> m \<le> n \<Longrightarrow> room m cs"
  by (auto simp: room_def)

lemma fed_room:
  assumes "list_all2 (fed t m) cs cs'" "room (m + n) cs"
  shows "room n cs'"
  using assms by (induction rule: list_all2_induct) (auto simp: room_def fed_def appends_def split: if_splits)

lemma feed_slaves_eq:
  assumes "\<And>c. f c = add_all A sv c ps" "room (sum_list (map grow ps)) cs" "modest A"
  shows "\<exists>cs'. feed_slaves f cs = Some cs' \<and> list_all2 (fed (concat ps) (sum_list (map grow ps))) cs cs'"
  using assms(2)
proof (induction cs)
  case (Cons c cs)
  obtain cs' where cs': "feed_slaves f cs = Some cs'" "list_all2 (fed (concat ps) (sum_list (map grow ps))) cs cs'"
    using Cons by (auto simp: room_def)
  show ?case
  proof (cases "canFeedReplicaReplBuffer c")
    case True
    obtain c' where "add_all A sv c ps = Some c'" "appends c (concat ps) (sum_list (map grow ps)) c'"
      using add_all_appends [of c ps A sv] Cons.prems assms(3) by (auto simp: room_def)
    then have "f c = Some c'" "fed (concat ps) (sum_list (map grow ps)) c c'" using True assms(1) [of c] by (simp_all add: fed_def)
    then show ?thesis using True cs' by auto
  next
    case False
    then have "fed (concat ps) (sum_list (map grow ps)) c c" by (simp add: fed_def)
    then show ?thesis using False cs' by auto
  qed
qed simp

lemma fed_all_trans:
  assumes "list_all2 (fed s m) as bs" "list_all2 (fed t n) bs cs"
  shows "list_all2 (fed (s @ t) (m + n)) as cs"
  by (rule list_all2_trans [OF _ assms]) (rule fed_trans)

lemma fed_all_refl: "room n cs \<Longrightarrow> list_all2 (fed [] 0) cs cs"
  by (auto simp: room_def fed_refl intro!: list_all2_refl list.rel_refl_strong)

text \<open>What the functions leave alone.\<close>

definition same_repl :: "repl_server \<Rightarrow> repl_server \<Rightarrow> bool" where
  "same_repl s s' \<longleftrightarrow> repl_net s' = repl_net s \<and> masterhost s' = masterhost s \<and> replid s' = replid s \<and> replid2 s' = replid2 s \<and>
     second_replid_offset s' = second_replid_offset s"

lemma same_repl_refl [simp]: "same_repl s s" by (simp add: same_repl_def)

lemma same_repl_trans: "same_repl a b \<Longrightarrow> same_repl b c \<Longrightarrow> same_repl a c" by (simp add: same_repl_def)

definition backlog_fed :: "repl_server \<Rightarrow> bytes \<Rightarrow> nat \<Rightarrow> repl_server \<Rightarrow> bool" where
  "backlog_fed s t n s' \<longleftrightarrow> same_repl s s' \<and> slaves s' = slaves s \<and> slaveseldb s' = slaveseldb s \<and> (\<forall>T. backlog_holds T s \<longrightarrow> backlog_holds (T @ t) s')"

text \<open>The backlog is a consumer of pieces, too, with room for everything.\<close>

interpretation backlog_output: output_queue feedReplicationBacklog "\<lambda>n s. \<exists>T. backlog_holds T s" "\<lambda>p. 0" backlog_fed
proof
  show "\<exists>s'. feedReplicationBacklog s p = Some s' \<and> backlog_fed s p 0 s'" if h: "\<exists>T. backlog_holds T s" for s p
  proof -
    obtain T where "backlog_holds T s" using h by blast
    from feed_backlog [OF this, of p] obtain s' where s': "feedReplicationBacklog s p = Some s'" "same_repl s s'" "slaves s' = slaves s" "slaveseldb s' = slaveseldb s"
      by (auto simp: same_repl_def)
    have "backlog_holds (T' @ p) s'" if "backlog_holds T' s" for T' using feed_backlog [OF that, of p] s'(1) by auto
    then show ?thesis using s' by (auto simp: backlog_fed_def)
  qed
qed (auto simp: backlog_fed_def same_repl_def)

lemma feed_all_eq:
  assumes "backlog_holds T s"
  shows "\<exists>s'. feed_all s ps = Some s' \<and> backlog_holds (T @ concat ps) s' \<and> same_repl s s' \<and> slaves s' = slaves s \<and> slaveseldb s' = slaveseldb s"
  using backlog_output.put_all_law [of s ps] assms by (auto simp: backlog_fed_def)

text \<open>A step that feeds the pieces first to the backlog and then to the replicas.\<close>

definition advances :: "bytes list \<Rightarrow> bytes \<Rightarrow> repl_server \<Rightarrow> repl_server \<Rightarrow> bool" where
  "advances ps T s s' \<longleftrightarrow> backlog_holds (T @ concat ps) s' \<and> same_repl s s' \<and>
     list_all2 (fed (concat ps) (sum_list (map grow ps))) (slaves s) (slaves s')"

lemma advances_trans: "advances ps T s s1 \<Longrightarrow> advances qs (T @ concat ps) s1 s2 \<Longrightarrow> advances (ps @ qs) T s s2"
  using fed_all_trans same_repl_trans by (fastforce simp: advances_def)

lemma advances_room: "advances ps T s s' \<Longrightarrow> room (sum_list (map grow ps) + n) (slaves s) \<Longrightarrow> room n (slaves s')"
  using fed_room by (auto simp: advances_def)

lemma holds_slaves [simp]: "backlog_holds T (s\<lparr>slaves := cs\<rparr>) = backlog_holds T s" "backlog_holds T (s\<lparr>slaveseldb := d\<rparr>) = backlog_holds T s"
  by (simp_all add: backlog_holds_def)

lemma holds_some: "backlog_holds T s \<Longrightarrow> repl_backlog s \<noteq> None"
  by (auto simp: backlog_holds_def)

lemma feed_both:
  assumes "backlog_holds T s" "room (sum_list (map grow ps)) (slaves s)" "modest A" "\<And>c. f c = add_all A (repl_net s) c ps"
  shows "\<exists>s1 cs. feed_all s ps = Some s1 \<and> repl_net s1 = repl_net s \<and> slaves s1 = slaves s \<and> slaveseldb s1 = slaveseldb s \<and> repl_backlog s1 \<noteq> None \<and>
    feed_slaves f (slaves s) = Some cs \<and> advances ps T s (s1\<lparr>slaves := cs\<rparr>)"
proof -
  obtain s1 where s1: "feed_all s ps = Some s1" "backlog_holds (T @ concat ps) s1" "same_repl s s1" "slaves s1 = slaves s" "slaveseldb s1 = slaveseldb s"
    using feed_all_eq [OF assms(1)] by blast
  obtain cs where cs: "feed_slaves f (slaves s) = Some cs" "list_all2 (fed (concat ps) (sum_list (map grow ps))) (slaves s) cs"
    using feed_slaves_eq [OF assms(4,2,3)] by blast
  show ?thesis using s1 cs holds_some [OF s1(2)] by (auto simp: advances_def same_repl_def)
qed

lemma send_select_eq:
  assumes "backlog_holds T s" "room (grow (select_text d)) (slaves s)" "modest A" "- (2 ^ 31) \<le> d" "d < 2 ^ 31"
  shows "\<exists>s'. send_select A s d = Some s' \<and> advances [select_text d] T s s' \<and> slaveseldb s' = slaveseldb s"
  using feed_both [of T s "[select_text d]" A "\<lambda>c. addReplyProto A (repl_net s) c (select_text d)"] assms holds_some [OF assms(1)]
  by (auto simp: send_select_def select_command_eq)

lemma proxy_eq:
  assumes "backlog_holds T s" "room (grow p) (slaves s)" "modest A"
  shows "\<exists>s'. replicationFeedSlavesFromMasterStream A s p = Some s' \<and> advances [p] T s s' \<and> slaveseldb s' = slaveseldb s"
  using feed_both [of T s "[p]" A "\<lambda>c. addReplyProto A (repl_net s) c p"] assms holds_some [OF assms(1)]
  by (auto simp: replicationFeedSlavesFromMasterStream_def)

text \<open>The pieces a command adds to the stream, with the database selected before.\<close>

definition propagated :: "int \<Rightarrow> int \<Rightarrow> robj list \<Rightarrow> bytes list" where
  "propagated sel d argv = (if sel \<noteq> d then [select_text d] else []) @ command_pieces argv"

lemma propagate_eq:
  assumes "backlog_holds T s" "room (sum_list (map grow (propagated (slaveseldb s) d argv))) (slaves s)" "modest A" "- (2 ^ 31) \<le> d" "d < 2 ^ 31" "args_ok argv"
    "masterhost s = None"
  shows "\<exists>s'. replicationFeedSlaves A s d argv = Some s' \<and> advances (propagated (slaveseldb s) d argv) T s s' \<and> slaveseldb s' = d"
proof -
  define sel where "sel = (if slaveseldb s \<noteq> d then [select_text d] else [])"
  have "\<exists>s1. (if slaveseldb s \<noteq> d then send_select A s d else Some s) = Some s1 \<and> advances sel T s s1"
  proof (cases "slaveseldb s = d")
    case True
    then show ?thesis using assms(1,2) fed_all_refl [of _ "slaves s"] by (auto simp: advances_def sel_def)
  next
    case False
    then have "room (grow (select_text d)) (slaves s)" using room_mono [OF assms(2)] by (simp add: propagated_def)
    then show ?thesis using False send_select_eq [OF assms(1) _ assms(3-5)] by (auto simp: sel_def)
  qed
  then obtain s1 where s1: "(if slaveseldb s \<noteq> d then send_select A s d else Some s) = Some s1" "advances sel T s s1" by blast
  define s2 where "s2 = s1\<lparr>slaveseldb := d\<rparr>"
  have adv: "advances sel T s s2" using s1(2) by (simp add: s2_def advances_def same_repl_def)
  have h: "backlog_holds (T @ concat sel) s2" using adv by (simp add: advances_def)
  have r: "room (sum_list (map grow (command_pieces argv))) (slaves s2)"
    using advances_room [OF adv] assms(2) by (simp add: propagated_def sel_def split: if_splits)
  obtain s3 cs where s3: "feed_all s2 (command_pieces argv) = Some s3" "repl_net s3 = repl_net s2" "slaves s3 = slaves s2" "slaveseldb s3 = slaveseldb s2"
    "feed_slaves (\<lambda>c. add_all A (repl_net s2) c (command_pieces argv)) (slaves s2) = Some cs" "advances (command_pieces argv) (T @ concat sel) s2 (s3\<lparr>slaves := cs\<rparr>)"
    using feed_both [OF h r assms(3), of "\<lambda>c. add_all A (repl_net s2) c (command_pieces argv)"] by auto
  have b1: "repl_backlog s1 \<noteq> None" using holds_some [OF h] by (simp add: s2_def)
  have "replicationFeedSlaves A s d argv = Some (s3\<lparr>slaves := cs\<rparr>)"
    using assms(7) holds_some [OF assms(1)] holds_some [OF h] b1 s1(1) s3 feed_command_eq [OF assms(6), of A s2]
    by (simp add: replicationFeedSlaves_def assert_opt_def s2_def [symmetric] Let_def add_command_eq [OF assms(6)]) auto
  moreover have "advances (propagated (slaveseldb s) d argv) T s (s3\<lparr>slaves := cs\<rparr>)"
    using advances_trans [OF adv s3(6)] by (simp add: propagated_def sel_def split: if_splits)
  ultimately show ?thesis using s3(4) by (auto simp: s2_def)
qed

section \<open>Runs of a server\<close>

datatype repl_op = Propagate int "robj list" | Proxy bytes | Resize int

fun repl_step :: "allocator \<Rightarrow> repl_op \<Rightarrow> repl_server \<Rightarrow> repl_server option" where
  "repl_step A (Propagate d argv) s = replicationFeedSlaves A s d argv"
| "repl_step A (Proxy p) s = replicationFeedSlavesFromMasterStream A s p"
| "repl_step A (Resize n) s = Some (resizeReplicationBacklog A n s)"

fun repl_run :: "allocator \<Rightarrow> repl_op list \<Rightarrow> repl_server \<Rightarrow> repl_server option" where
  "repl_run A [] s = Some s"
| "repl_run A (op # ops) s = do { s \<leftarrow> repl_step A op s; repl_run A ops s }"

text \<open>What the operations add to the stream: a server that is itself a replica passes on the stream of its master and ignores
  its own commands. A command is preceded by the selection of its database when the last one was for another.\<close>

fun repl_stream :: "bool \<Rightarrow> int \<Rightarrow> repl_op list \<Rightarrow> bytes list" where
  "repl_stream m sel [] = []"
| "repl_stream m sel (Propagate d argv # ops) = (if m then repl_stream m sel ops else propagated sel d argv @ repl_stream m d ops)"
| "repl_stream m sel (Proxy p # ops) = p # repl_stream m sel ops"
| "repl_stream m sel (Resize n # ops) = repl_stream m sel ops"

fun repl_op_ok :: "repl_op \<Rightarrow> bool" where
  "repl_op_ok (Propagate d argv) = (- (2 ^ 31) \<le> d \<and> d < 2 ^ 31 \<and> args_ok argv)"
| "repl_op_ok (Proxy p) = True"
| "repl_op_ok (Resize n) = (n < 2 ^ 63)"

lemma resize_eq:
  assumes "backlog_holds T s" "n < 2 ^ 63"
  shows "backlog_holds T (resizeReplicationBacklog A n s)" "same_repl s (resizeReplicationBacklog A n s)"
    "slaves (resizeReplicationBacklog A n s) = slaves s" "slaveseldb (resizeReplicationBacklog A n s) = slaveseldb s"
  using assms by (auto simp: backlog_holds_def resizeReplicationBacklog_def CONFIG_REPL_BACKLOG_MIN_SIZE_def Let_def fresh_block_def same_repl_def)

lemma advances_refl:
  assumes "backlog_holds T s'" "same_repl s s'" "slaves s' = slaves s" "room n (slaves s)"
  shows "advances [] T s s'"
  using assms fed_all_refl [OF assms(4)] by (simp add: advances_def)

lemma repl_step_eq:
  assumes "backlog_holds T s" "repl_op_ok op" "modest A"
    "room (sum_list (map grow (repl_stream (masterhost s \<noteq> None) (slaveseldb s) [op]))) (slaves s)"
  shows "\<exists>s'. repl_step A op s = Some s' \<and> advances (repl_stream (masterhost s \<noteq> None) (slaveseldb s) [op]) T s s' \<and>
    (\<forall>ops. repl_stream (masterhost s \<noteq> None) (slaveseldb s) (op # ops) =
       repl_stream (masterhost s \<noteq> None) (slaveseldb s) [op] @ repl_stream (masterhost s' \<noteq> None) (slaveseldb s') ops)"
proof (cases op)
  case (Propagate d argv)
  show ?thesis
  proof (cases "masterhost s = None")
    case True
    obtain s' where s': "replicationFeedSlaves A s d argv = Some s'" "advances (propagated (slaveseldb s) d argv) T s s'" "slaveseldb s' = d"
      using propagate_eq [OF assms(1) _ assms(3) _ _ _ True, of d argv] assms(2,4) Propagate True by auto
    then have "masterhost s' = None" using True by (simp add: advances_def same_repl_def)
    then show ?thesis using True Propagate s' by auto
  next
    case False
    then show ?thesis using Propagate assms advances_refl [OF assms(1) _ _ assms(4)] by (auto simp: replicationFeedSlaves_def)
  qed
next
  case (Proxy p)
  obtain s' where s': "replicationFeedSlavesFromMasterStream A s p = Some s'" "advances [p] T s s'" "slaveseldb s' = slaveseldb s"
    using proxy_eq [OF assms(1) _ assms(3), of p] assms(4) Proxy by auto
  then have "masterhost s' = masterhost s" by (simp add: advances_def same_repl_def)
  then show ?thesis using Proxy s' by auto
next
  case (Resize n)
  then have n: "n < 2 ^ 63" using assms(2) by simp
  note r = resize_eq [OF assms(1) n, of A]
  have "masterhost (resizeReplicationBacklog A n s) = masterhost s" using r(2) by (simp add: same_repl_def)
  then show ?thesis using Resize advances_refl [OF r(1-3) assms(4)] r(4) by auto
qed

lemma repl_run_eq:
  assumes "backlog_holds T s" "\<forall>op\<in>set ops. repl_op_ok op" "modest A"
    "room (sum_list (map grow (repl_stream (masterhost s \<noteq> None) (slaveseldb s) ops))) (slaves s)"
  shows "\<exists>s'. repl_run A ops s = Some s' \<and> advances (repl_stream (masterhost s \<noteq> None) (slaveseldb s) ops) T s s'"
  using assms
proof (induction ops arbitrary: s T)
  case (Cons op ops)
  have o: "repl_op_ok op" using Cons.prems(2) by simp
  have r0: "room (sum_list (map grow (repl_stream (masterhost s \<noteq> None) (slaveseldb s) [op]))) (slaves s)"
    by (rule room_mono [OF Cons.prems(4)]) (cases op; simp)
  obtain s1 where s1: "repl_step A op s = Some s1" "advances (repl_stream (masterhost s \<noteq> None) (slaveseldb s) [op]) T s s1"
    "repl_stream (masterhost s \<noteq> None) (slaveseldb s) (op # ops) =
       repl_stream (masterhost s \<noteq> None) (slaveseldb s) [op] @ repl_stream (masterhost s1 \<noteq> None) (slaveseldb s1) ops"
    using repl_step_eq [OF Cons.prems(1) o Cons.prems(3) r0] by blast
  have h: "backlog_holds (T @ concat (repl_stream (masterhost s \<noteq> None) (slaveseldb s) [op])) s1" using s1(2) by (simp add: advances_def)
  have r: "room (sum_list (map grow (repl_stream (masterhost s1 \<noteq> None) (slaveseldb s1) ops))) (slaves s1)"
    by (rule advances_room [OF s1(2)]) (use Cons.prems(4) s1(3) in simp)
  obtain s2 where "repl_run A ops s1 = Some s2" "advances (repl_stream (masterhost s1 \<noteq> None) (slaveseldb s1) ops) (T @ concat (repl_stream (masterhost s \<noteq> None) (slaveseldb s) [op])) s1 s2"
    using Cons.IH [OF h _ Cons.prems(3) r] Cons.prems(2) by auto
  then show ?case using advances_trans [OF s1(2)] s1(1,3) by auto
qed (auto intro: advances_refl)

text \<open>C7: The backlog and the replicas see the same stream. Let a server have a history \<open>T\<close> with its last bytes in the
  circular backlog. Run any sequence of commands to propagate (or bytes from its own master to pass on) and changes of the
  size of the backlog: no assertion fails, the offset advances by the bytes added, the backlog holds the last bytes of the
  extended history, however often it wrapped around, and every replica that is fed has exactly the same bytes appended to
  its output, in the protocol's encoding and with the selections of the database; only a replica that is being closed for
  its slow reading may have just a part of them from the start.\<close>

theorem replication_stream:
  assumes "backlog_holds T s" "\<forall>op\<in>set ops. repl_op_ok op" "modest A"
    "room (sum_list (map grow (repl_stream (masterhost s \<noteq> None) (slaveseldb s) ops))) (slaves s)"
  shows "\<exists>s'. repl_run A ops s = Some s' \<and> backlog_holds (T @ concat (repl_stream (masterhost s \<noteq> None) (slaveseldb s) ops)) s' \<and>
    length (slaves s') = length (slaves s) \<and>
    (\<forall>i<length (slaves s).
       if canFeedReplicaReplBuffer (slaves s ! i)
       then \<exists>u v. concat (repl_stream (masterhost s \<noteq> None) (slaveseldb s) ops) = u @ v \<and>
          view (slaves s' ! i) = view (slaves s ! i) @ map Some u \<and> (accepts (slaves s' ! i) \<longrightarrow> v = [])
       else slaves s' ! i = slaves s ! i)"
proof -
  obtain s' where s': "repl_run A ops s = Some s'" "advances (repl_stream (masterhost s \<noteq> None) (slaveseldb s) ops) T s s'"
    using repl_run_eq [OF assms] by blast
  then have a: "list_all2 (fed (concat (repl_stream (masterhost s \<noteq> None) (slaveseldb s) ops))
      (sum_list (map grow (repl_stream (masterhost s \<noteq> None) (slaveseldb s) ops)))) (slaves s) (slaves s')"
    "backlog_holds (T @ concat (repl_stream (masterhost s \<noteq> None) (slaveseldb s) ops)) s'"
    by (simp_all add: advances_def)
  then show ?thesis using s'(1) by (fastforce simp: list_all2_conv_all_nth fed_def appends_def)
qed

definition example_replica :: replica where
  "example_replica = \<lparr>c_flags = CLIENT_SLAVE, c_conn = True, c_resp = 2, c_replstate = SLAVE_STATE_ONLINE, c_repl_put_online_on_ack = False,
     c_buf = replicate 32 0, c_bufpos = 0, c_sentlen = 0, c_reply = [], c_reply_bytes = 0, c_obuf_soft_limit_reached_time = 0,
     c_lastinteraction = 0, c_write_handler = False, c_repl_ack_off = 0, c_repl_ack_time = 0, c_psync_initial_offset = 0,
     c_slave_capa = SLAVE_CAPA_PSYNC2\<rparr>"

definition example_master :: repl_server where
  "example_master = \<lparr>repl_net = example_net, repl_backlog = Some [7, 8, 9, 6], repl_backlog_size = 4, repl_backlog_histlen = 3,
     repl_backlog_idx = 3, repl_backlog_off = 8, master_repl_offset = 10, masterhost = None, slaveseldb = 0, replid = [97, 0], replid2 = [48, 0],
     second_replid_offset = - 1, repl_min_slaves_to_write = 0, repl_min_slaves_max_lag = 10, repl_good_slaves_count = 0,
     slaves = [example_replica]\<rparr>"

lemma example_holds: "backlog_holds [1, 2, 3, 4, 5, 6, 6, 7, 8, 9] example_master"
  by (simp add: backlog_holds_def example_master_def ring_def)

lemma example_out: "out_inv example_replica"
  by (simp add: example_replica_def out_inv_def)

lemma example_args: "args_ok [int_example]"
  by (simp add: args_ok_def int_example_ok)

lemma example_pieces: "command_pieces [int_example] = [[42, 49, 13, 10], [36, 50, 13, 10], [52, 50], [13, 10]]"
proof -
  have "dec_int 1 = [49]" "dec_int 2 = [50]" by code_simp+
  then show ?thesis by (simp add: command_pieces_def bulk_pieces_def int_example_ok crlf_def)
qed

lemma select_1: "select_text 1 = [42, 50, 13, 10, 36, 54, 13, 10, 83, 69, 76, 69, 67, 84, 13, 10, 36, 49, 13, 10, 49, 13, 10]"
  by code_simp

theorem replication_stream_witness:
  "\<exists>s'. repl_run plain_allocator [Propagate 1 [int_example], Resize 20000, Propagate 1 [int_example]] example_master = Some s' \<and>
     master_repl_offset s' = 57"
proof -
  let ?ops = "[Propagate 1 [int_example], Resize 20000, Propagate 1 [int_example]]"
  have "\<forall>op\<in>set ?ops. repl_op_ok op" by (simp add: example_args)
  moreover have "room (sum_list (map grow (repl_stream (masterhost example_master \<noteq> None) (slaveseldb example_master) ?ops))) (slaves example_master)"
    by (simp add: room_def example_master_def example_out propagated_def example_pieces select_1 grow_def PROTO_REPLY_CHUNK_BYTES_def MAX_REPLY_BYTES_def)
      (simp add: example_replica_def)
  moreover have "modest plain_allocator" by (simp add: modest_def plain_allocator_def)
  ultimately obtain s' where s': "repl_run plain_allocator ?ops example_master = Some s'"
    "backlog_holds ([1, 2, 3, 4, 5, 6, 6, 7, 8, 9] @ concat (repl_stream (masterhost example_master \<noteq> None) (slaveseldb example_master) ?ops)) s'"
    using replication_stream [OF example_holds] by blast
  have "master_repl_offset s' = 10 + int (length (concat (repl_stream False 0 ?ops)))"
    using s'(2) by (simp add: backlog_holds_def example_master_def)
  then show ?thesis using s'(1) by (simp add: propagated_def example_pieces select_1)
qed

section \<open>Partial resynchronisation\<close>

lemma backlog_piece:
  assumes "j + n \<le> length b" "n < 2 ^ 63"
  shows "Option.bind (mem_read b j n) (\<lambda>t. Option.bind (sdsnewlen A (Init t) n) (addReplySds A sv c)) = addReplyProto A sv c (take n (drop j b))"
proof -
  obtain s where "sdsnewlen A (Init (take n (drop j b))) n = Some s" "sds_str s = take n (drop j b)"
    using sdsnewlen_ok [of n "take n (drop j b)" A] assms by auto
  then show ?thesis using assms by (simp add: mem_read_eq addReplySds_def)
qed

lemma backlog_loop_step:
  assumes "length b = cap" "j < cap" "0 < len" "cap < 2 ^ 63"
  shows "backlog_loop A sv b cap j len c =
    do { c \<leftarrow> addReplyProto A sv c (take (min (cap - j) len) (drop j b)); backlog_loop A sv b cap 0 (len - min (cap - j) len) c }"
proof -
  define m where "m = min (cap - j) len"
  have i: "(if cap - j < len then cap - j else len) = m" by (simp add: m_def)
  have m: "m \<noteq> 0" "j + m \<le> length b" "m < 2 ^ 63" using assms by (auto simp: m_def)
  show ?thesis unfolding m_def [symmetric] using backlog_piece [of j m b A sv c] assms(3) m
    by (subst backlog_loop.simps) (simp add: Let_def i bind_split split: option.split)
qed

lemma backlog_loop_0 [simp]: "backlog_loop A sv b cap j 0 c = Some c"
  by (simp add: backlog_loop.simps)

lemma backlog_loop_eq:
  assumes "length b = cap" "idx < cap" "len \<le> cap" "cap < 2 ^ 63"
  shows "\<exists>ps. (\<forall>c. backlog_loop A sv b cap ((idx + (cap - len)) mod cap) len c = add_all A sv c ps) \<and> concat ps = drop (cap - len) (ring b idx) \<and>
    sum_list (map grow ps) \<le> 2 * grow (drop (cap - len) (ring b idx))"
proof -
  consider "len = 0" | "0 < len" "len \<le> idx" | "idx < len" by linarith
  then show ?thesis
  proof cases
    case 1
    then show ?thesis using assms(1) by (intro exI [of _ "[]"]) simp
  next
    case 2
    then have j: "(idx + (cap - len)) mod cap = idx - len" using assms(2,3) by (simp add: mod_if)
    have m: "min (cap - (idx - len)) len = len" using 2 assms(2) by simp
    have t: "drop (cap - len) (ring b idx) = take len (drop (idx - len) b)" using 2 assms(1-3) by (simp add: ring_def drop_take)
    have "backlog_loop A sv b cap (idx - len) len c = addReplyProto A sv c (take len (drop (idx - len) b))" for c :: "'a client_scheme"
      using 2 m assms backlog_loop_step [of b cap "idx - len" len A sv c] by (auto split: bind_split)
    then show ?thesis unfolding j t
      by (intro exI [of _ "[take len (drop (idx - len) b)]"]) (auto split: bind_split)
  next
    case 3
    then have j: "(idx + (cap - len)) mod cap = idx + cap - len" using assms(2,3) by simp
    have m: "min (cap - (idx + cap - len)) len = len - idx" "len - (len - idx) = idx" using 3 assms(2,3) by auto
    have t: "drop (cap - len) (ring b idx) = drop (idx + cap - len) b @ take idx b" using 3 assms(1-3) by (simp add: ring_def add.commute)
    have d: "take (len - idx) (drop (idx + cap - len) b) = drop (idx + cap - len) b" using 3 assms by simp
    have step: "backlog_loop A sv b cap (idx + cap - len) len c =
        do { c \<leftarrow> addReplyProto A sv c (drop (idx + cap - len) b); backlog_loop A sv b cap 0 idx c }" for c :: "'a client_scheme"
      using backlog_loop_step [of b cap "idx + cap - len" len A sv c] 3 m d assms by simp
    show ?thesis
    proof (cases "idx = 0")
      case True
      then show ?thesis unfolding j t step
        by (intro exI [of _ "[drop (idx + cap - len) b]"]) (auto split: bind_split)
    next
      case False
      have "backlog_loop A sv b cap 0 idx c = addReplyProto A sv c (take idx b)" for c :: "'a client_scheme"
        using backlog_loop_step [of b cap 0 idx A sv c] False assms by (auto split: bind_split)
      then show ?thesis unfolding j t step
        by (intro exI [of _ "[drop (idx + cap - len) b, take idx b]"]) (auto simp: grow_def split: bind_split)
    qed
  qed
qed

text \<open>The backlog from an offset of its window on: the part of the history from there.\<close>

lemma backlog_reply:
  assumes "backlog_holds T s" "repl_backlog_off s \<le> off" "off \<le> repl_backlog_off s + int (repl_backlog_histlen s)"
    "out_inv c" "c_reply_bytes c + 2 * grow T < MAX_REPLY_BYTES" "modest A"
  shows "\<exists>n c'. addReplyReplicationBacklog A s c off = Some (n, c') \<and> appends c (drop (nat (off - 1)) T) (2 * grow T) c'"
proof -
  let ?cap = "repl_backlog_size s" and ?h = "repl_backlog_histlen s" and ?idx = "repl_backlog_idx s"
  obtain b where b: "repl_backlog s = Some b" "length b = ?cap" "?idx < ?cap" "?cap < 2 ^ 63" "?h \<le> ?cap" "?h \<le> length T"
    "repl_backlog_off s = int (length T) - int ?h + 1" "drop (?cap - ?h) (ring b ?idx) = drop (length T - ?h) T"
    using assms(1) by (auto simp: backlog_holds_def)
  define len where "len = nat (int ?h - (off - repl_backlog_off s))"
  have len: "len \<le> ?h" "int len = int ?h - (off - repl_backlog_off s)" "nat (off - 1) = length T - len"
    using assms(2,3) b(6,7) by (auto simp: len_def)
  have t: "drop (?cap - len) (ring b ?idx) = drop (nat (off - 1)) T"
  proof -
    have "drop (?cap - len) (ring b ?idx) = drop (?h - len) (drop (?cap - ?h) (ring b ?idx))" using len(1) b(5) by simp
    also have "\<dots> = drop (?h - len) (drop (length T - ?h) T)" by (simp only: b(8))
    finally show ?thesis using len(1,3) b(6) by simp
  qed
  show ?thesis
  proof (cases "?h = 0")
    case True
    then show ?thesis using len appends_mono [OF appends_refl [OF assms(4)]] by (simp add: addReplyReplicationBacklog_def)
  next
    case False
    have j: "c_rem (c_rem (int ?idx + (int ?cap - int ?h)) (int ?cap) + (off - repl_backlog_off s)) (int ?cap) = int ((?idx + (?cap - len)) mod ?cap)"
    proof -
      have "(int ?idx + (int ?cap - int ?h)) mod int ?cap + (off - repl_backlog_off s) \<ge> 0" using assms(2) b(3) by simp
      then have "c_rem (c_rem (int ?idx + (int ?cap - int ?h)) (int ?cap) + (off - repl_backlog_off s)) (int ?cap) =
        ((int ?idx + (int ?cap - int ?h)) + (off - repl_backlog_off s)) mod int ?cap" using b(5) by (simp add: c_rem_def mod_add_left_eq)
      moreover have "(int ?idx + (int ?cap - int ?h)) + (off - repl_backlog_off s) = int (?idx + (?cap - len))" using len b(5) by simp
      ultimately show ?thesis by (simp only: zmod_int)
    qed
    obtain ps where ps: "\<And>c :: 'a client_scheme. backlog_loop A (repl_net s) b ?cap ((?idx + (?cap - len)) mod ?cap) len c = add_all A (repl_net s) c ps"
      "concat ps = drop (nat (off - 1)) T" "sum_list (map grow ps) \<le> 2 * grow (drop (nat (off - 1)) T)"
      using backlog_loop_eq [OF b(2,3) _ b(4), of len A "repl_net s"] t len(1) b(5) by auto
    have g: "sum_list (map grow ps) \<le> 2 * grow T" using ps(3) by (simp add: grow_def)
    obtain c' where c': "add_all A (repl_net s) c ps = Some c'" "appends c (drop (nat (off - 1)) T) (2 * grow T) c'"
      using add_all_appends [OF assms(4) _ assms(6), of ps "repl_net s"] assms(5) g ps(2) appends_mono by (metis add_le_cancel_left le_less_trans)
    have "addReplyReplicationBacklog A s c off = Some (int len, c')"
      using False b(1,3) ps(1) [of c] c'(1) assms(3) by (simp add: addReplyReplicationBacklog_def assert_opt_def Let_def j len(2) [symmetric] del: of_nat_mod)
    then show ?thesis using c'(2) by blast
  qed
qed

text \<open>The two IDs of a server as strings.\<close>

definition ids_ok :: "repl_server \<Rightarrow> bytes \<Rightarrow> bytes \<Rightarrow> bool" where
  "ids_ok s x y \<longleftrightarrow> replid s = x @ [0] \<and> replid2 s = y @ [0] \<and> 0 \<notin> set x \<and> 0 \<notin> set y \<and> length x \<le> CONFIG_RUN_ID_SIZE"

definition same_id :: "bytes \<Rightarrow> bytes \<Rightarrow> bool" where
  "same_id x y \<longleftrightarrow> map tolower x = map tolower y"

definition resync_ok :: "repl_server \<Rightarrow> bytes \<Rightarrow> bytes \<Rightarrow> bytes \<Rightarrow> int \<Rightarrow> bool" where
  "resync_ok s x y z off \<longleftrightarrow> (same_id z x \<or> same_id z y \<and> off \<le> second_replid_offset s) \<and>
     repl_backlog s \<noteq> None \<and> repl_backlog_off s \<le> off \<and> off \<le> repl_backlog_off s + int (repl_backlog_histlen s)"

lemma id_mismatch_eq:
  assumes "ids_ok s x y" "0 \<notin> set z"
  shows "id_mismatch s (z @ 0 # r) off = Some (\<not> (same_id z x \<or> same_id z y \<and> off \<le> second_replid_offset s))"
proof -
  have i: "replid s = x @ 0 # []" "replid2 s = y @ 0 # []" "0 \<notin> set x" "0 \<notin> set y" using assms(1) by (simp_all add: ids_ok_def)
  obtain a where "strcasecmp (z @ 0 # r) (replid s) = Some a" "a = 0 \<longleftrightarrow> same_id z x"
    using strcasecmp_eq [OF assms(2) i(3)] unfolding i(1) same_id_def by blast
  moreover obtain b where "strcasecmp (z @ 0 # r) (replid2 s) = Some b" "b = 0 \<longleftrightarrow> same_id z y"
    using strcasecmp_eq [OF assms(2) i(4)] unfolding i(2) same_id_def by blast
  ultimately show ?thesis by (auto simp: id_mismatch_def)
qed

text \<open>The client as it joins the replicas.\<close>

definition joined :: "repl_server \<Rightarrow> replica \<Rightarrow> replica" where
  "joined s c = (set_flag CLIENT_SLAVE c)\<lparr>c_replstate := SLAVE_STATE_ONLINE, c_repl_ack_time := net_unixtime (repl_net s), c_repl_put_online_on_ack := False\<rparr>"

lemma joined_facts [simp]:
  "out_inv (joined s c) = out_inv c" "view (joined s c) = view c" "c_reply_bytes (joined s c) = c_reply_bytes c"
  by (simp_all add: joined_def set_flag_def out_inv_def view_def)

lemma joined_bits: "bit (c_flags (joined s c)) i \<longleftrightarrow> bit (c_flags c) i \<or> i = 0"
  using bit_set_flag [of 0 c i] by (auto simp: joined_def CLIENT_SLAVE_def)

lemma refused_after_free:
  assumes "\<not> has_flag c CLIENT_LUA" "\<not> has_flag c CLIENT_MODULE"
  shows "\<not> accepts (freeClientAsync (joined s c))"
  using assms unfolding accepts_bits freeClientAsync_def flag_simps by (auto simp: joined_bits set_close_asap)

lemma resync_joined:
  assumes "ids_ok s x y" "0 \<notin> set z" "resync_ok s x y z off"
  shows "masterTryPartialResynchronization A s so c (z @ 0 # r) off = do {
    (ok, so) \<leftarrow> write_line so (if c_slave_capa c AND SLAVE_CAPA_PSYNC2 \<noteq> 0 then ascii ''+CONTINUE '' @ x @ crlf else ascii ''+CONTINUE'' @ crlf);
    if \<not> ok then Some (True, s\<lparr>slaves := slaves s @ [freeClientAsync (joined s c)]\<rparr>, so)
    else do { (n, c) \<leftarrow> addReplyReplicationBacklog A s (joined s c) off; Some (True, refreshGoodSlavesCount (s\<lparr>slaves := slaves s @ [c]\<rparr>), so) } }"
proof -
  have "cstr (replid s) = Some x" using assms(1) cstr_append [of x "[]"] by (simp add: ids_ok_def)
  moreover have "c_slave_capa (joined s c) = c_slave_capa c" by (simp add: joined_def set_flag_def)
  moreover have "id_mismatch s (z @ 0 # r) off = Some False" using id_mismatch_eq [OF assms(1,2), of r off] assms(3) by (simp add: resync_ok_def)
  moreover have "\<not> (repl_backlog s = None \<or> off < repl_backlog_off s \<or> repl_backlog_off s + int (repl_backlog_histlen s) < off)"
    using assms(3) by (auto simp: resync_ok_def)
  ultimately show ?thesis unfolding masterTryPartialResynchronization_def joined_def [symmetric] Let_def by (simp del: not_None_eq)
qed

lemma resync_refused:
  assumes "ids_ok s x y" "0 \<notin> set z" "\<not> resync_ok s x y z off"
  shows "masterTryPartialResynchronization A s so c (z @ 0 # r) off = Some (False, s, so)"
  using id_mismatch_eq [OF assms(1,2)] assms(3) by (auto simp: masterTryPartialResynchronization_def resync_ok_def)

lemma resync_accepted:
  assumes "backlog_holds T s" "ids_ok s x y" "0 \<notin> set z" "resync_ok s x y z off" "out_inv c" "c_reply_bytes c + 2 * grow T < MAX_REPLY_BYTES" "modest A"
    "\<not> has_flag c CLIENT_LUA" "\<not> has_flag c CLIENT_MODULE"
  shows "\<exists>s' so' c'. masterTryPartialResynchronization A s so c (z @ 0 # r) off = Some (True, s', so') \<and> slaves s' = slaves s @ [c'] \<and>
    (\<exists>u v. drop (nat (off - 1)) T = u @ v \<and> view c' = view c @ map Some u \<and> (accepts c' \<longrightarrow> v = []))"
proof -
  define t where "t = (if c_slave_capa c AND SLAVE_CAPA_PSYNC2 \<noteq> 0 then ascii ''+CONTINUE '' @ x @ crlf else ascii ''+CONTINUE'' @ crlf)"
  have "length t < 128" using assms(2) by (simp add: t_def ids_ok_def CONFIG_RUN_ID_SIZE_def ascii_def crlf_def)
  then obtain ok so' where w: "write_line so t = Some (ok, so')" by (cases "conn_write so (sock_state so) t") (simp add: write_line_def assert_opt_def)
  have win: "repl_backlog_off s \<le> off" "off \<le> repl_backlog_off s + int (repl_backlog_histlen s)" using assms(4) by (auto simp: resync_ok_def)
  have eq: "masterTryPartialResynchronization A s so c (z @ 0 # r) off =
    (if \<not> ok then Some (True, s\<lparr>slaves := slaves s @ [freeClientAsync (joined s c)]\<rparr>, so')
     else do { (n, c) \<leftarrow> addReplyReplicationBacklog A s (joined s c) off; Some (True, refreshGoodSlavesCount (s\<lparr>slaves := slaves s @ [c]\<rparr>), so') })"
    using resync_joined [OF assms(2-4), of A so c r] w by (simp add: t_def [symmetric])
  show ?thesis
  proof (cases ok)
    case False
    then show ?thesis using eq refused_after_free [OF assms(8,9)] by auto
  next
    case True
    obtain n c' where c': "addReplyReplicationBacklog A s (joined s c) off = Some (n, c')" "appends (joined s c) (drop (nat (off - 1)) T) (2 * grow T) c'"
      using backlog_reply [OF assms(1) win, of "joined s c" A] assms(5-7) by auto
    have "slaves (refreshGoodSlavesCount q) = slaves q" for q by (simp add: refreshGoodSlavesCount_def)
    then show ?thesis using eq True c' by (auto simp: appends_def)
  qed
qed

text \<open>C13: Partial resynchronisation is safe and complete. A replica that has received the first \<open>off - 1\<close> bytes of a history asks
  for the byte \<open>off\<close> under the ID of that history. The master, with history \<open>T\<close> under its own ID and sharing the first
  bytes, those before \<^verbatim>\<open>second_replid_offset\<close>, with the history \<open>U\<close> under its second ID, accepts exactly when the ID is
  its own, or the second one with an offset up to that limit, and the byte asked for is in the window of the backlog or
  the next one to come. Then what the replica has already, followed by what is put into its output, is the history of the
  master with no byte missing or repeated, unless the connection is being closed. Otherwise nothing changes.\<close>

theorem partial_resync:
  assumes "backlog_holds T s" "take (nat (second_replid_offset s - 1)) U = take (nat (second_replid_offset s - 1)) T"
    "ids_ok s x y" "0 \<notin> set z" "R = take (nat (off - 1)) (if same_id z x then T else U)"
    "out_inv c" "c_reply_bytes c + 2 * grow T < MAX_REPLY_BYTES" "modest A" "\<not> has_flag c CLIENT_LUA" "\<not> has_flag c CLIENT_MODULE"
  shows "\<exists>s' so'. masterTryPartialResynchronization A s so c (z @ 0 # r) off = Some (resync_ok s x y z off, s', so') \<and>
    (if resync_ok s x y z off then \<exists>c' u v. slaves s' = slaves s @ [c'] \<and> R @ u @ v = T \<and> view c' = view c @ map Some u \<and> (accepts c' \<longrightarrow> v = [])
     else s' = s)"
proof (cases "resync_ok s x y z off")
  case False
  then show ?thesis using resync_refused [OF assms(3,4) False, of A so c r] by simp
next
  case True
  have "R = take (nat (off - 1)) T"
  proof (cases "same_id z x")
    case False
    then have "nat (off - 1) \<le> nat (second_replid_offset s - 1)" using True by (intro nat_mono) (simp add: resync_ok_def)
    then have "take (nat (off - 1)) U = take (nat (off - 1)) T"
      using arg_cong [OF assms(2), of "take (nat (off - 1))"] by (simp add: min_def)
    then show ?thesis using assms(5) False by simp
  qed (use assms(5) in simp)
  then have "R @ drop (nat (off - 1)) T = T" by simp
  then show ?thesis using resync_accepted [OF assms(1,3,4) True assms(6-10), of so r] True by fastforce
qed

definition fast_socket :: "unit socket" where
  "fast_socket = \<lparr>sock_state = (), conn_write = (\<lambda>st bs. (int (length bs), st)), connected = (\<lambda>st. True)\<rparr>"

theorem partial_resync_witness:
  "\<exists>s' so' c' u v. masterTryPartialResynchronization plain_allocator example_master fast_socket example_replica [65, 0] 9 = Some (True, s', so') \<and>
     slaves s' = slaves example_master @ [c'] \<and> [1, 2, 3, 4, 5, 6, 6, 7] @ u @ v = [1, 2, 3, 4, 5, 6, 6, 7, 8, 9 :: byte]"
proof -
  let ?T = "[1, 2, 3, 4, 5, 6, 6, 7, 8, 9] :: bytes"
  have "ids_ok example_master [97] [48]" by (simp add: ids_ok_def example_master_def CONFIG_RUN_ID_SIZE_def)
  moreover have id: "same_id [65] [97]" by code_simp
  then have "resync_ok example_master [97] [48] [65] 9" by (simp add: resync_ok_def example_master_def)
  moreover have "c_reply_bytes example_replica + 2 * grow ?T < MAX_REPLY_BYTES"
    by (simp add: grow_def PROTO_REPLY_CHUNK_BYTES_def MAX_REPLY_BYTES_def example_replica_def)
  moreover have "\<not> has_flag example_replica CLIENT_LUA" "\<not> has_flag example_replica CLIENT_MODULE" by code_simp+
  moreover have "modest plain_allocator" by (simp add: modest_def plain_allocator_def)
  moreover have "second_replid_offset example_master = - 1" by (simp add: example_master_def)
  ultimately show ?thesis
    using partial_resync [OF example_holds, of "[]" "[97]" "[48]" "[65]" "[1, 2, 3, 4, 5, 6, 6, 7]" 9 example_replica plain_allocator fast_socket "[]"] example_out id
    by fastforce
qed

lemma shift_facts:
  assumes "backlog_holds T s" "ids_ok s x y" "length rnd = CONFIG_RUN_ID_SIZE" "0 \<notin> set rnd"
  shows "backlog_holds T (shiftReplicationId rnd s)" "ids_ok (shiftReplicationId rnd s) rnd x" "masterhost (shiftReplicationId rnd s) = masterhost s"
    "slaveseldb (shiftReplicationId rnd s) = slaveseldb s" "slaves (shiftReplicationId rnd s) = slaves s"
    "second_replid_offset (shiftReplicationId rnd s) = int (length T) + 1"
  using assms by (auto simp: shiftReplicationId_def changeReplicationId_def ids_ok_def backlog_holds_def)

text \<open>C14: Failover keeps the replicas of the old master. A replica with history \<open>T\<close> is promoted: it takes a fresh ID and keeps the old one
  as the second. Then it serves commands of its own. Another replica of the old master, which may have gone on to \<open>T @ X\<close>,
  asks it under the old ID for the byte \<open>off\<close>. It is accepted exactly when it has nothing of \<open>X\<close> and the bytes are still in
  the backlog, and then ends with the history of the new master; a replica that has received more of the old history is
  refused and cannot diverge.\<close>

theorem failover_resync:
  assumes "backlog_holds T s" "ids_ok s x y" "length rnd = CONFIG_RUN_ID_SIZE" "0 \<notin> set rnd" "\<not> same_id x rnd"
    "\<forall>op\<in>set ops. repl_op_ok op" "modest A" "P = concat (repl_stream (masterhost s \<noteq> None) (slaveseldb s) ops)"
    "room (sum_list (map grow (repl_stream (masterhost s \<noteq> None) (slaveseldb s) ops))) (slaves s)"
    "out_inv c" "c_reply_bytes c + 2 * grow (T @ P) < MAX_REPLY_BYTES" "\<not> has_flag c CLIENT_LUA" "\<not> has_flag c CLIENT_MODULE"
    "R = take (nat (off - 1)) (T @ X)"
  shows "\<exists>s1 ok s2 so'. repl_run A ops (shiftReplicationId rnd s) = Some s1 \<and>
    masterTryPartialResynchronization A s1 so c (x @ 0 # r) off = Some (ok, s2, so') \<and>
    (ok \<longleftrightarrow> off \<le> int (length T) + 1 \<and> repl_backlog_off s1 \<le> off) \<and>
    (if ok then \<exists>c' u v. slaves s2 = slaves s1 @ [c'] \<and> R @ u @ v = T @ P \<and> view c' = view c @ map Some u \<and> (accepts c' \<longrightarrow> v = [])
     else s2 = s1)"
proof -
  note sh = shift_facts [OF assms(1-4)]
  obtain s1 where s1: "repl_run A ops (shiftReplicationId rnd s) = Some s1"
    "advances (repl_stream (masterhost s \<noteq> None) (slaveseldb s) ops) T (shiftReplicationId rnd s) s1"
    using repl_run_eq [OF sh(1) assms(6,7)] assms(9) unfolding sh(3-5) by blast
  then have h: "backlog_holds (T @ P) s1" and same: "same_repl (shiftReplicationId rnd s) s1" using assms(8) by (simp_all add: advances_def)
  have ids: "ids_ok s1 rnd x" using same sh(2) by (simp add: same_repl_def ids_ok_def)
  have sec: "second_replid_offset s1 = int (length T) + 1" using same sh(6) by (simp add: same_repl_def)
  have x: "0 \<notin> set x" using assms(2) by (simp add: ids_ok_def)
  have ok: "resync_ok s1 rnd x x off \<longleftrightarrow> off \<le> int (length T) + 1 \<and> repl_backlog_off s1 \<le> off"
    using h assms(5) sec by (auto simp: resync_ok_def same_id_def backlog_holds_def)
  have acc: "\<exists>c' u v. slaves s2 = slaves s1 @ [c'] \<and> R @ u @ v = T @ P \<and> view c' = view c @ map Some u \<and> (accepts c' \<longrightarrow> v = [])"
    if "resync_ok s1 rnd x x off" "slaves s2 = slaves s1 @ [c']" "drop (nat (off - 1)) (T @ P) = u @ v" "view c' = view c @ map Some u" "accepts c' \<longrightarrow> v = []" for s2 c' u v
  proof -
    have "nat (off - 1) \<le> length T" using that(1) ok by linarith
    then have "R = take (nat (off - 1)) (T @ P)" using assms(14) by simp
    then have "R @ u @ v = T @ P" using that(3) append_take_drop_id [of "nat (off - 1)" "T @ P"] by simp
    then show ?thesis using that by blast
  qed
  show ?thesis
  proof (cases "resync_ok s1 rnd x x off")
    case True
    obtain s2 so' c' u v where a: "masterTryPartialResynchronization A s1 so c (x @ 0 # r) off = Some (True, s2, so')" "slaves s2 = slaves s1 @ [c']"
      "drop (nat (off - 1)) (T @ P) = u @ v" "view c' = view c @ map Some u" "accepts c' \<longrightarrow> v = []"
      using resync_accepted [OF h ids x True assms(10,11,7,12,13), of so r] by blast
    show ?thesis using s1(1) a(1) ok True acc [OF True a(2-5)]
      by (intro exI [of _ s1] exI [of _ True] exI [of _ s2] exI [of _ so']) simp
  next
    case False
    then show ?thesis using resync_refused [OF ids x False, of A so c r] s1(1) ok by auto
  qed
qed

theorem failover_resync_witness:
  "\<exists>s1 s2 so'. repl_run plain_allocator [Propagate 1 [int_example]] (shiftReplicationId (replicate 40 98) (resizeReplicationBacklog plain_allocator 0 example_master)) = Some s1 \<and>
     masterTryPartialResynchronization plain_allocator s1 fast_socket example_replica [97, 0] 12 = Some (False, s2, so') \<and> s2 = s1"
proof -
  let ?T = "[1, 2, 3, 4, 5, 6, 6, 7, 8, 9] :: bytes" and ?s = "resizeReplicationBacklog plain_allocator 0 example_master"
  let ?ps = "[select_text 1] @ command_pieces [int_example]"
  note r = resize_eq [OF example_holds, of 0 plain_allocator, simplified]
  have m: "masterhost example_master = None" "slaveseldb example_master = 0" "slaves example_master = [example_replica]"
    "replid example_master = [97, 0]" "replid2 example_master = [48, 0]" by (simp_all add: example_master_def)
  have st: "repl_stream (masterhost ?s \<noteq> None) (slaveseldb ?s) [Propagate 1 [int_example]] = ?ps"
    using r(2,4) m by (simp add: same_repl_def propagated_def)
  have ids: "ids_ok ?s [97] [48]" using r(2) m by (simp add: same_repl_def ids_ok_def CONFIG_RUN_ID_SIZE_def)
  have rnd: "length (replicate 40 98 :: bytes) = CONFIG_RUN_ID_SIZE" "0 \<notin> set (replicate 40 98 :: bytes)" by (simp_all add: CONFIG_RUN_ID_SIZE_def)
  have other: "\<not> same_id [97] (replicate 40 98)" by code_simp
  have g: "sum_list (map grow ?ps) < 10 ^ 6" "2 * grow (?T @ concat ?ps) < 10 ^ 6"
    by (simp_all add: grow_def example_pieces select_1 PROTO_REPLY_CHUNK_BYTES_def)
  have b: "c_reply_bytes example_replica = 0" "\<not> has_flag example_replica CLIENT_LUA" "\<not> has_flag example_replica CLIENT_MODULE" by code_simp+
  have room: "room (sum_list (map grow ?ps)) (slaves ?s)" using r(3) m(3) g(1) b(1) example_out by (simp add: room_def MAX_REPLY_BYTES_def)
  have big: "c_reply_bytes example_replica + 2 * grow (?T @ concat ?ps) < MAX_REPLY_BYTES" using g(2) b(1) by (simp add: MAX_REPLY_BYTES_def)
  have modest: "modest plain_allocator" by (simp add: modest_def plain_allocator_def)
  have ops: "\<forall>op\<in>set [Propagate 1 [int_example]]. repl_op_ok op" by (simp add: example_args)
  note f = failover_resync [OF r(1) ids rnd other ops modest, unfolded st, OF refl room example_out big b(2,3) refl, where X = "[0]" and so = fast_socket and r = "[]" and off = 12]
  show ?thesis using f by auto
qed

end
