(* ===== verification/Multi_Exec.thy ===== *)
theory Multi_Exec
  imports Repl_Stream "HOL-Library.AList"
begin

text \<open>
  Transactions, \<^verbatim>\<open>multi.c\<close>: queueing of commands, optimistic locking by watched keys and the execution of the queue.

  Clients are numbered, and the number stands for the pointer. Each database has a dictionary from watched keys to the lists
  of clients that watch them, an association list here; each client has the list of the keys it watches. String objects
  are represented by their text, so that counting references is not visible. Running a command and the check of permissions
  are parameters: they go through the pointer to the function of the command and the rules of the user. Error statistics
  and logs are left out. The operations give \<open>None\<close> for a failed assertion.
\<close>

unbundle bit_operations_syntax

section \<open>State\<close>

definition CLIENT_MULTI :: u64 where "CLIENT_MULTI = push_bit 3 1"
definition CLIENT_BLOCKED :: u64 where "CLIENT_BLOCKED = push_bit 4 1"
definition CLIENT_DIRTY_CAS :: u64 where "CLIENT_DIRTY_CAS = push_bit 5 1"
definition CLIENT_DIRTY_EXEC :: u64 where "CLIENT_DIRTY_EXEC = push_bit 12 1"
definition CLIENT_DENY_BLOCKING :: u64 where "CLIENT_DENY_BLOCKING = push_bit 41 1"

datatype redisCommandProc = execCommandProc | discardCommandProc | multiCommandProc | watchCommandProc | resetCommandProc | otherProc nat

record redisCommand =
  cmd_proc :: redisCommandProc
  cmd_flags :: u64

record multiCmd =
  mc_argv :: "bytes list"
  mc_cmd :: redisCommand

record multiState =
  ms_commands :: "multiCmd list"
  ms_cmd_flags :: u32
  ms_cmd_inv_flags :: u32

record tx_client = client +
  c_db :: nat
  c_argv :: "bytes list"
  c_cmd :: redisCommand
  c_mstate :: multiState
  c_watched_keys :: "(nat \<times> bytes) list"

record redisDb =
  db_dict :: "bytes \<Rightarrow> robj option"
  db_expires :: "bytes \<Rightarrow> int option"
  db_watched_keys :: "(bytes \<times> nat list) list"

record tx_server =
  tx_repl :: repl_server
  tx_clients :: "nat \<Rightarrow> tx_client"
  tx_db :: "nat \<Rightarrow> redisDb"
  tx_dbnum :: nat
  tx_loading :: bool
  lua_caller :: bool
  lua_time_snapshot :: int
  fixed_time_expire :: int
  server_mstime :: int
  wall_clock :: int
  in_exec :: bool
  propagate_in_transaction :: bool
  server_dirty :: int

definition upd_client :: "nat \<Rightarrow> (tx_client \<Rightarrow> tx_client) \<Rightarrow> tx_server \<Rightarrow> tx_server" where
  "upd_client i f s = s\<lparr>tx_clients := (tx_clients s)(i := f (tx_clients s i))\<rparr>"

text \<open>A reply function applied to a client.\<close>

definition reply :: "(net_server \<Rightarrow> tx_client \<Rightarrow> tx_client option) \<Rightarrow> nat \<Rightarrow> tx_server \<Rightarrow> tx_server option" where
  "reply f i s = do { c \<leftarrow> f (repl_net (tx_repl s)) (tx_clients s i); Some (upd_client i (\<lambda>_. c) s) }"

definition reply_ok :: "allocator \<Rightarrow> nat \<Rightarrow> tx_server \<Rightarrow> tx_server option" where
  "reply_ok A = reply (\<lambda>sv c. addReplyProto A sv c (ascii ''+OK'' @ crlf))"

definition reply_error :: "allocator \<Rightarrow> string \<Rightarrow> nat \<Rightarrow> tx_server \<Rightarrow> tx_server option" where
  "reply_error A msg = reply (\<lambda>sv c. addReplyErrorLength A sv c (ascii msg))"

section \<open>Watched keys\<close>

definition set_watched :: "nat \<Rightarrow> (bytes \<times> nat list) list \<Rightarrow> tx_server \<Rightarrow> tx_server" where
  "set_watched d w s = s\<lparr>tx_db := (tx_db s)(d := (tx_db s d)\<lparr>db_watched_keys := w\<rparr>)\<rparr>"

definition watchForKey :: "nat \<Rightarrow> bytes \<Rightarrow> tx_server \<Rightarrow> tx_server" where
  "watchForKey i key s =
     (let c = tx_clients s i; d = c_db c; w = db_watched_keys (tx_db s d)
      in if (d, key) \<in> set (c_watched_keys c) then s
         else (let clients = (case map_of w key of None \<Rightarrow> [] | Some cs \<Rightarrow> cs)
               in upd_client i (\<lambda>c. c\<lparr>c_watched_keys := c_watched_keys c @ [(d, key)]\<rparr>)
                    (set_watched d (AList.update key (clients @ [i]) w) s)))"

fun unwatch_loop :: "nat \<Rightarrow> (nat \<times> bytes) list \<Rightarrow> tx_server \<Rightarrow> tx_server option" where
  "unwatch_loop i [] s = Some s"
| "unwatch_loop i ((d, key) # wks) s = do {
     let w = db_watched_keys (tx_db s d);
     clients \<leftarrow> map_of w key;
     _ \<leftarrow> assert_opt (i \<in> set clients);
     let clients = remove1 i clients;
     let s = set_watched d (if clients = [] then AList.delete key w else AList.update key clients w) s;
     unwatch_loop i wks (upd_client i (\<lambda>c. c\<lparr>c_watched_keys := tl (c_watched_keys c)\<rparr>) s) }"

definition unwatchAllKeys :: "nat \<Rightarrow> tx_server \<Rightarrow> tx_server option" where
  "unwatchAllKeys i s = unwatch_loop i (c_watched_keys (tx_clients s i)) s"

definition getExpire :: "redisDb \<Rightarrow> bytes \<Rightarrow> int option" where
  "getExpire d key =
     (case db_expires d key of
        None \<Rightarrow> Some (- 1)
      | Some t \<Rightarrow> do { _ \<leftarrow> assert_opt (db_dict d key \<noteq> None); Some t })"

definition keyIsExpired :: "tx_server \<Rightarrow> nat \<Rightarrow> bytes \<Rightarrow> bool option" where
  "keyIsExpired s d key = do {
     when \<leftarrow> getExpire (tx_db s d) key;
     if when < 0 then Some False
     else if tx_loading s then Some False
     else (let now = (if lua_caller s then lua_time_snapshot s
                      else if 0 < fixed_time_expire s then server_mstime s
                      else wall_clock s)
           in Some (when < now)) }"

fun any_expired :: "tx_server \<Rightarrow> (nat \<times> bytes) list \<Rightarrow> bool option" where
  "any_expired s [] = Some False"
| "any_expired s ((d, key) # wks) = do { e \<leftarrow> keyIsExpired s d key; if e then Some True else any_expired s wks }"

definition isWatchedKeyExpired :: "nat \<Rightarrow> tx_server \<Rightarrow> bool option" where
  "isWatchedKeyExpired i s = any_expired s (c_watched_keys (tx_clients s i))"

definition mark_dirty :: "nat \<Rightarrow> tx_server \<Rightarrow> tx_server" where
  "mark_dirty i s = upd_client i (set_flag CLIENT_DIRTY_CAS) s"

definition touchWatchedKey :: "nat \<Rightarrow> bytes \<Rightarrow> tx_server \<Rightarrow> tx_server" where
  "touchWatchedKey d key s =
     (case map_of (db_watched_keys (tx_db s d)) key of
        None \<Rightarrow> s
      | Some clients \<Rightarrow> fold mark_dirty clients s)"

definition touchAllWatchedKeysInDb :: "nat \<Rightarrow> nat option \<Rightarrow> tx_server \<Rightarrow> tx_server" where
  "touchAllWatchedKeysInDb emptied replaced_with s =
     fold (\<lambda>(key, clients). fold (\<lambda>i s.
         if db_dict (tx_db s emptied) key \<noteq> None then mark_dirty i s
         else (case replaced_with of
             None \<Rightarrow> s
           | Some r \<Rightarrow> if db_dict (tx_db s r) key \<noteq> None then mark_dirty i s else s)) clients)
       (db_watched_keys (tx_db s emptied)) s"

text \<open>The databases from \<^verbatim>\<open>startdb\<close> to \<^verbatim>\<open>enddb\<close>: one of them, or all of them for -1. An access to a database outside of the
  array fails. The invalidation of client side caches, the module events and the number of removed keys are not modelled.\<close>

definition db_span :: "tx_server \<Rightarrow> int \<Rightarrow> int list" where
  "db_span s dbid = (if dbid = - 1 then [0..int (tx_dbnum s) - 1] else [dbid..dbid])"

primrec touch_loop :: "int list \<Rightarrow> tx_server \<Rightarrow> tx_server option" where
  "touch_loop [] s = Some s"
| "touch_loop (j # js) s = do {
     assert_opt (0 \<le> j \<and> j < int (tx_dbnum s));
     touch_loop js (touchAllWatchedKeysInDb (nat j) None s) }"

definition signalFlushedDb :: "int \<Rightarrow> tx_server \<Rightarrow> tx_server option" where
  "signalFlushedDb dbid s = touch_loop (db_span s dbid) s"

primrec empty_loop :: "int list \<Rightarrow> tx_server \<Rightarrow> tx_server option" where
  "empty_loop [] s = Some s"
| "empty_loop (j # js) s = do {
     assert_opt (0 \<le> j \<and> j < int (tx_dbnum s));
     empty_loop js (s\<lparr>tx_db := (tx_db s)(nat j := (tx_db s (nat j))\<lparr>db_dict := \<lambda>_. None, db_expires := \<lambda>_. None\<rparr>)\<rparr>) }"

definition emptyDbStructure :: "int \<Rightarrow> tx_server \<Rightarrow> tx_server option" where
  "emptyDbStructure dbnum s = empty_loop (db_span s dbnum) s"

text \<open>The first component tells whether the number was in range.\<close>

definition emptyDb :: "int \<Rightarrow> tx_server \<Rightarrow> (bool \<times> tx_server) option" where
  "emptyDb dbnum s =
     (if dbnum < - 1 \<or> int (tx_dbnum s) \<le> dbnum then Some (False, s)
      else do {
        s \<leftarrow> signalFlushedDb dbnum s;
        s \<leftarrow> emptyDbStructure dbnum s;
        Some (True, s) })"

text \<open>The swap of the keys of two databases; each database keeps its index of watched keys. The clients blocked on lists are not
  modelled. The first component tells \<^verbatim>\<open>C_OK\<close>.\<close>

definition swap_dbs :: "nat \<Rightarrow> nat \<Rightarrow> tx_server \<Rightarrow> tx_server" where
  "swap_dbs a b s = s\<lparr>tx_db := (tx_db s)
     (a := (tx_db s a)\<lparr>db_dict := db_dict (tx_db s b), db_expires := db_expires (tx_db s b)\<rparr>,
      b := (tx_db s b)\<lparr>db_dict := db_dict (tx_db s a), db_expires := db_expires (tx_db s a)\<rparr>)\<rparr>"

definition dbSwapDatabases :: "int \<Rightarrow> int \<Rightarrow> tx_server \<Rightarrow> bool \<times> tx_server" where
  "dbSwapDatabases id1 id2 s =
     (if id1 < 0 \<or> int (tx_dbnum s) \<le> id1 \<or> id2 < 0 \<or> int (tx_dbnum s) \<le> id2 then (False, s)
      else if id1 = id2 then (True, s)
      else
        (let db1 = nat id1; db2 = nat id2;
             s = swap_dbs db1 db2 s;
             s = touchAllWatchedKeysInDb db1 (Some db2) s;
             s = touchAllWatchedKeysInDb db2 (Some db1) s
         in (True, s)))"

section \<open>The transaction of a client\<close>

definition initClientMultiState :: "tx_client \<Rightarrow> tx_client" where
  "initClientMultiState c = c\<lparr>c_mstate := \<lparr>ms_commands = [], ms_cmd_flags = 0, ms_cmd_inv_flags = 0\<rparr>\<rparr>"

text \<open>The accumulated flags are of type \<^verbatim>\<open>int\<close> and keep the low half of the 64 bits of a command.\<close>

definition queueMultiCommand :: "tx_client \<Rightarrow> tx_client" where
  "queueMultiCommand c =
     (if has_flag c CLIENT_DIRTY_EXEC then c
      else (let m = c_mstate c
            in c\<lparr>c_mstate := \<lparr>ms_commands = ms_commands m @ [\<lparr>mc_argv = c_argv c, mc_cmd = c_cmd c\<rparr>],
                              ms_cmd_flags = ms_cmd_flags m OR ucast (cmd_flags (c_cmd c)),
                              ms_cmd_inv_flags = ms_cmd_inv_flags m OR ucast (NOT (cmd_flags (c_cmd c)))\<rparr>\<rparr>))"

definition discardTransaction :: "nat \<Rightarrow> tx_server \<Rightarrow> tx_server option" where
  "discardTransaction i s =
     unwatchAllKeys i (upd_client i (\<lambda>c. clear_flag (CLIENT_MULTI OR CLIENT_DIRTY_CAS OR CLIENT_DIRTY_EXEC) (initClientMultiState c)) s)"

definition flagTransaction :: "tx_client \<Rightarrow> tx_client" where
  "flagTransaction c = (if has_flag c CLIENT_MULTI then set_flag CLIENT_DIRTY_EXEC c else c)"

definition multiCommand :: "allocator \<Rightarrow> nat \<Rightarrow> tx_server \<Rightarrow> tx_server option" where
  "multiCommand A i s =
     (if has_flag (tx_clients s i) CLIENT_MULTI then reply_error A ''MULTI calls can not be nested'' i s
      else reply_ok A i (upd_client i (set_flag CLIENT_MULTI) s))"

definition discardCommand :: "allocator \<Rightarrow> nat \<Rightarrow> tx_server \<Rightarrow> tx_server option" where
  "discardCommand A i s =
     (if \<not> has_flag (tx_clients s i) CLIENT_MULTI then reply_error A ''DISCARD without MULTI'' i s
      else do { s \<leftarrow> discardTransaction i s; reply_ok A i s })"

definition watchCommand :: "allocator \<Rightarrow> nat \<Rightarrow> tx_server \<Rightarrow> tx_server option" where
  "watchCommand A i s =
     (if has_flag (tx_clients s i) CLIENT_MULTI then reply_error A ''WATCH inside MULTI is not allowed'' i s
      else reply_ok A i (fold (watchForKey i) (tl (c_argv (tx_clients s i))) s))"

definition unwatchCommand :: "allocator \<Rightarrow> nat \<Rightarrow> tx_server \<Rightarrow> tx_server option" where
  "unwatchCommand A i s = do {
     s \<leftarrow> unwatchAllKeys i s;
     reply_ok A i (upd_client i (clear_flag CLIENT_DIRTY_CAS) s) }"

text \<open>A command of a client in a transaction is queued, unless it is one of those that control the transaction.\<close>

definition must_queue :: "tx_client \<Rightarrow> bool" where
  "must_queue c \<longleftrightarrow> has_flag c CLIENT_MULTI \<and> cmd_proc (c_cmd c) \<noteq> execCommandProc \<and> cmd_proc (c_cmd c) \<noteq> discardCommandProc \<and>
     cmd_proc (c_cmd c) \<noteq> multiCommandProc \<and> cmd_proc (c_cmd c) \<noteq> watchCommandProc \<and> cmd_proc (c_cmd c) \<noteq> resetCommandProc"

definition queue_command :: "allocator \<Rightarrow> nat \<Rightarrow> tx_server \<Rightarrow> tx_server option" where
  "queue_command A i s =
     reply (\<lambda>sv c. addReplyProto A sv c (ascii ''+QUEUED'' @ crlf)) i (upd_client i queueMultiCommand s)"

section \<open>EXEC\<close>

datatype acl_result = ACL_OK | ACL_DENIED_CMD | ACL_DENIED_KEY | ACL_DENIED_AUTH | ACL_DENIED_CHANNEL

definition noperm_reason :: "acl_result \<Rightarrow> string" where
  "noperm_reason r =
     (case r of
        ACL_DENIED_CMD \<Rightarrow> ''no permission to execute the command or subcommand''
      | ACL_DENIED_KEY \<Rightarrow> ''no permission to touch the specified keys''
      | ACL_DENIED_CHANNEL \<Rightarrow> ''no permission to access one of the channels used as arguments''
      | _ \<Rightarrow> ''no permission'')"

definition beforePropagateMulti :: "tx_server \<Rightarrow> tx_server option" where
  "beforePropagateMulti s = do { _ \<leftarrow> assert_opt (\<not> propagate_in_transaction s); Some (s\<lparr>propagate_in_transaction := True\<rparr>) }"

definition afterPropagateExec :: "tx_server \<Rightarrow> tx_server option" where
  "afterPropagateExec s = do { _ \<leftarrow> assert_opt (propagate_in_transaction s); Some (s\<lparr>propagate_in_transaction := False\<rparr>) }"

type_synonym call_fun = "bool \<Rightarrow> nat \<Rightarrow> tx_server \<Rightarrow> tx_server option"
type_synonym acl_fun = "nat \<Rightarrow> tx_server \<Rightarrow> acl_result"

text \<open>One command of the queue. The flag of \<open>call\<close> stands for \<^verbatim>\<open>CMD_CALL_FULL\<close>.\<close>

definition exec_one :: "allocator \<Rightarrow> acl_fun \<Rightarrow> call_fun \<Rightarrow> nat \<Rightarrow> multiCmd \<Rightarrow> tx_server \<Rightarrow> tx_server option" where
  "exec_one A acl call i mc s = do {
     let s = upd_client i (\<lambda>c. c\<lparr>c_argv := mc_argv mc, c_cmd := mc_cmd mc\<rparr>) s;
     (case acl i s of
        ACL_OK \<Rightarrow> do {
          s \<leftarrow> call (\<not> tx_loading s) i s;
          _ \<leftarrow> assert_opt (\<not> has_flag (tx_clients s i) CLIENT_BLOCKED);
          Some s }
      | r \<Rightarrow> reply_error A (''-NOPERM ACLs rules changed between the moment the '' @ ''transaction was accumulated and the EXEC call. '' @
               ''This command is no longer allowed for the '' @ ''following reason: '' @ noperm_reason r) i s) }"

text \<open>The loop over the queue, which is read again for every command and gets the arguments back that the command may have changed.\<close>

fun exec_loop :: "nat \<Rightarrow> allocator \<Rightarrow> acl_fun \<Rightarrow> call_fun \<Rightarrow> nat \<Rightarrow> nat \<Rightarrow> tx_server \<Rightarrow> tx_server option" where
  "exec_loop fuel A acl call i j s =
     (let cmds = ms_commands (c_mstate (tx_clients s i))
      in if \<not> j < length cmds then Some s
         else (case fuel of
             0 \<Rightarrow> None
           | Suc fuel \<Rightarrow> do {
               s \<leftarrow> exec_one A acl call i (cmds ! j) s;
               _ \<leftarrow> assert_opt (j < length (ms_commands (c_mstate (tx_clients s i))));
               let s = upd_client i (\<lambda>c. c\<lparr>c_mstate := (c_mstate c)\<lparr>ms_commands :=
                         (ms_commands (c_mstate c))[j := \<lparr>mc_argv = c_argv c, mc_cmd = c_cmd c\<rparr>]\<rparr>\<rparr>) s;
               exec_loop fuel A acl call i (j + 1) s }))"

declare exec_loop.simps [simp del]

definition exec_finish :: "bool \<Rightarrow> tx_server \<Rightarrow> tx_server option" where
  "exec_finish was_master s =
     (if propagate_in_transaction s then do {
        let is_master = (masterhost (tx_repl s) = None);
        let s = s\<lparr>server_dirty := server_dirty s + 1\<rparr>;
        r \<leftarrow> (if repl_backlog (tx_repl s) \<noteq> None \<and> was_master \<and> \<not> is_master
              then feedReplicationBacklog (tx_repl s) (ascii ''*1'' @ crlf @ ascii ''$4'' @ crlf @ ascii ''EXEC'' @ crlf)
              else Some (tx_repl s));
        afterPropagateExec (s\<lparr>tx_repl := r\<rparr>) }
      else Some s)"

text \<open>The run of the queue, after the checks.\<close>

definition exec_run :: "allocator \<Rightarrow> acl_fun \<Rightarrow> call_fun \<Rightarrow> nat \<Rightarrow> tx_server \<Rightarrow> tx_server option" where
  "exec_run A acl call i s = do {
     let was_master = (masterhost (tx_repl s) = None);
     let old = tx_clients s i;
     let s = upd_client i (set_flag CLIENT_DENY_BLOCKING) s;
     s \<leftarrow> unwatchAllKeys i s;
     let s = s\<lparr>in_exec := True\<rparr>;
     let n = length (ms_commands (c_mstate (tx_clients s i)));
     s \<leftarrow> reply (\<lambda>sv c. addReplyArrayLen A sv c (word_of_nat n)) i s;
     s \<leftarrow> exec_loop n A acl call i 0 s;
     let s = (if \<not> has_flag old CLIENT_DENY_BLOCKING then upd_client i (clear_flag CLIENT_DENY_BLOCKING) s else s);
     let s = upd_client i (\<lambda>c. c\<lparr>c_argv := c_argv old, c_cmd := c_cmd old\<rparr>) s;
     s \<leftarrow> discardTransaction i s;
     s \<leftarrow> exec_finish was_master s;
     Some (s\<lparr>in_exec := False\<rparr>) }"

definition execCommand :: "allocator \<Rightarrow> acl_fun \<Rightarrow> call_fun \<Rightarrow> nat \<Rightarrow> tx_server \<Rightarrow> tx_server option" where
  "execCommand A acl call i s =
     (if \<not> has_flag (tx_clients s i) CLIENT_MULTI then reply_error A ''EXEC without MULTI'' i s
      else do {
        expired \<leftarrow> isWatchedKeyExpired i s;
        let s = (if expired then mark_dirty i s else s);
        if has_flag (tx_clients s i) (CLIENT_DIRTY_CAS OR CLIENT_DIRTY_EXEC) then do {
          s \<leftarrow> (if has_flag (tx_clients s i) CLIENT_DIRTY_EXEC
                then reply (\<lambda>sv c. addReplyProto A sv c (ascii ''-EXECABORT Transaction discarded because of previous errors.'' @ crlf)) i s
                else reply (\<lambda>sv c. addReplyNullArray A sv c) i s);
          discardTransaction i s }
        else exec_run A acl call i s })"

end
