(* ===== verification/Multi_Watch.thy ===== *)
theory Multi_Watch
  imports Multi_Exec
begin

text \<open>
  The index of watched keys. The invariant \<open>watch_inv\<close> says that the dictionaries of the databases and the lists of the clients
  describe the same relation; the operations keep it and are simulated by a specification on sets (\<open>tx_spec\<close>).
\<close>

unbundle bit_operations_syntax


lemma kept_tx:
  "kept c c' \<Longrightarrow> c_db c' = c_db c \<and> c_argv c' = c_argv c \<and> c_cmd c' = c_cmd c \<and> c_mstate c' = c_mstate c \<and> c_watched_keys c' = c_watched_keys c"
  by (cases c; cases c') (simp add: kept_def)

section \<open>The index of watched keys\<close>

definition watchers :: "tx_server \<Rightarrow> nat \<Rightarrow> bytes \<Rightarrow> nat list" where
  "watchers s d k = (case map_of (db_watched_keys (tx_db s d)) k of None \<Rightarrow> [] | Some cs \<Rightarrow> cs)"

definition keys :: "tx_server \<Rightarrow> nat \<Rightarrow> (nat \<times> bytes) list" where
  "keys s i = c_watched_keys (tx_clients s i)"

text \<open>The index and the lists of the clients say the same, and no entry is empty or double.\<close>

definition watch_inv :: "tx_server \<Rightarrow> bool" where
  "watch_inv s \<longleftrightarrow>
     (\<forall>d. distinct (map fst (db_watched_keys (tx_db s d)))) \<and> (\<forall>d k. map_of (db_watched_keys (tx_db s d)) k \<noteq> Some []) \<and>
     (\<forall>d k. distinct (watchers s d k)) \<and> (\<forall>i. distinct (keys s i)) \<and>
     (\<forall>d k i. i \<in> set (watchers s d k) \<longleftrightarrow> (d, k) \<in> set (keys s i))"

lemma tx_clients_upd [simp]: "tx_clients (upd_client i f s) = (tx_clients s)(i := f (tx_clients s i))"
  by (simp add: upd_client_def)

lemma tx_db_upd [simp]: "tx_db (upd_client i f s) = tx_db s" "tx_repl (upd_client i f s) = tx_repl s" "tx_dbnum (upd_client i f s) = tx_dbnum s"
  by (simp_all add: upd_client_def)

lemma set_watched_simps [simp]:
  "tx_clients (set_watched d w s) = tx_clients s"
  "db_watched_keys (tx_db (set_watched d w s) d') = (if d' = d then w else db_watched_keys (tx_db s d'))"
  "db_dict (tx_db (set_watched d w s) d') = db_dict (tx_db s d')"
  "db_expires (tx_db (set_watched d w s) d') = db_expires (tx_db s d')"
  "tx_repl (set_watched d w s) = tx_repl s"
  by (simp_all add: set_watched_def)

lemma keys_upd: "keys (upd_client i f s) j = (if j = i then c_watched_keys (f (tx_clients s i)) else keys s j)"
  by (simp add: keys_def)

lemma keys_set_watched [simp]: "keys (set_watched d w s) = keys s"
  by (simp add: keys_def fun_eq_iff)

lemma watchers_upd [simp]: "watchers (upd_client i f s) = watchers s"
  by (simp add: watchers_def fun_eq_iff)

lemma watchers_set_watched: "watchers (set_watched d w s) d' k = (if d' = d then (case map_of w k of None \<Rightarrow> [] | Some cs \<Rightarrow> cs) else watchers s d' k)"
  by (simp add: watchers_def)

lemma watch_inv_cong:
  assumes "\<And>d. db_watched_keys (tx_db s' d) = db_watched_keys (tx_db s d)" "keys s' = keys s"
  shows "watch_inv s' = watch_inv s" "watchers s' = watchers s"
  using assms by (simp_all add: watch_inv_def watchers_def fun_eq_iff)

text \<open>What the operations on the index leave alone.\<close>

definition same_tx :: "tx_server \<Rightarrow> tx_server \<Rightarrow> bool" where
  "same_tx s s' \<longleftrightarrow> (\<exists>w L. s' = s\<lparr>tx_db := \<lambda>d. (tx_db s d)\<lparr>db_watched_keys := w d\<rparr>, tx_clients := \<lambda>i. (tx_clients s i)\<lparr>c_watched_keys := L i\<rparr>\<rparr>)"

lemma same_tx_refl: "same_tx s s"
  unfolding same_tx_def by (rule exI [of _ "\<lambda>d. db_watched_keys (tx_db s d)"], rule exI [of _ "\<lambda>i. c_watched_keys (tx_clients s i)"]) simp

lemma same_tx_trans: "same_tx a b \<Longrightarrow> same_tx b c \<Longrightarrow> same_tx a c"
  by (fastforce simp: same_tx_def)

lemma same_tx_change: "same_tx s (upd_client i (\<lambda>c. c\<lparr>c_watched_keys := f (c_watched_keys c)\<rparr>) (set_watched d w s))"
  unfolding same_tx_def
  by (rule exI [of _ "\<lambda>d'. if d' = d then w else db_watched_keys (tx_db s d')"],
      rule exI [of _ "\<lambda>j. if j = i then f (c_watched_keys (tx_clients s j)) else c_watched_keys (tx_clients s j)"])
    (auto simp: upd_client_def set_watched_def fun_eq_iff)

lemma same_tx_fields:
  assumes "same_tx s s'"
  shows "tx_repl s' = tx_repl s" "\<And>d. db_dict (tx_db s' d) = db_dict (tx_db s d)" "\<And>d. db_expires (tx_db s' d) = db_expires (tx_db s d)"
    "\<And>i. \<exists>L. tx_clients s' i = (tx_clients s i)\<lparr>c_watched_keys := L\<rparr>" "tx_dbnum s' = tx_dbnum s"
  using assms by (auto simp: same_tx_def)

lemma watchForKey_inv:
  assumes "watch_inv s"
  shows "watch_inv (watchForKey i k s)" "same_tx s (watchForKey i k s)"
    "set (keys (watchForKey i k s) j) = (if j = i then insert (c_db (tx_clients s i), k) (set (keys s i)) else set (keys s j))"
proof -
  define d where "d = c_db (tx_clients s i)"
  define w where "w = db_watched_keys (tx_db s d)"
  have "watch_inv (watchForKey i k s) \<and> same_tx s (watchForKey i k s) \<and>
    set (keys (watchForKey i k s) j) = (if j = i then insert (d, k) (set (keys s i)) else set (keys s j))"
  proof (cases "(d, k) \<in> set (keys s i)")
    case True
    then show ?thesis using assms same_tx_refl by (auto simp: watchForKey_def keys_def Let_def d_def)
  next
    case False
    define s1 where "s1 = upd_client i (\<lambda>c. c\<lparr>c_watched_keys := c_watched_keys c @ [(d, k)]\<rparr>) (set_watched d (AList.update k (watchers s d k @ [i]) w) s)"
    have s1: "watchForKey i k s = s1" using False by (simp add: watchForKey_def keys_def d_def w_def s1_def watchers_def Let_def)
    have k1: "keys s1 j = (if j = i then keys s i @ [(d, k)] else keys s j)" for j by (simp add: s1_def keys_upd keys_def)
    have w1: "watchers s1 d' k' = (if d' = d \<and> k' = k then watchers s d k @ [i] else watchers s d' k')" for d' k'
      by (auto simp: s1_def watchers_set_watched AList.update_conv' watchers_def w_def)
    have "watch_inv s1"
      unfolding watch_inv_def
    proof (intro conjI allI)
      fix d' k' j
      show "distinct (map fst (db_watched_keys (tx_db s1 d')))" using assms by (simp add: s1_def watch_inv_def w_def AList.distinct_update)
      show "map_of (db_watched_keys (tx_db s1 d')) k' \<noteq> Some []" using assms by (simp add: s1_def watch_inv_def w_def AList.update_conv')
      show "distinct (watchers s1 d' k')" using assms False by (auto simp: w1 watch_inv_def)
      show "distinct (keys s1 j)" using assms False by (auto simp: k1 watch_inv_def)
      show "(j \<in> set (watchers s1 d' k')) = ((d', k') \<in> set (keys s1 j))" using assms False by (auto simp: w1 k1 watch_inv_def)
    qed
    then show ?thesis unfolding s1 using k1 [of j] same_tx_change [of s i "\<lambda>L. L @ [(d, k)]"] by (simp add: s1_def)
  qed
  then show "watch_inv (watchForKey i k s)" "same_tx s (watchForKey i k s)"
    "set (keys (watchForKey i k s) j) = (if j = i then insert (c_db (tx_clients s i), k) (set (keys s i)) else set (keys s j))"
    by (simp_all add: d_def)
qed

lemma unwatch_step:
  assumes "watch_inv s" "keys s i = (d, k) # wks"
  defines "s' \<equiv> upd_client i (\<lambda>c. c\<lparr>c_watched_keys := tl (c_watched_keys c)\<rparr>)
    (set_watched d (if remove1 i (watchers s d k) = [] then AList.delete k (db_watched_keys (tx_db s d)) else AList.update k (remove1 i (watchers s d k)) (db_watched_keys (tx_db s d))) s)"
  shows "map_of (db_watched_keys (tx_db s d)) k = Some (watchers s d k)" "i \<in> set (watchers s d k)" "watch_inv s'" "keys s' i = wks"
    "\<And>j. j \<noteq> i \<Longrightarrow> keys s' j = keys s j"
proof -
  show i: "i \<in> set (watchers s d k)" using assms(1,2) by (simp add: watch_inv_def)
  then show m: "map_of (db_watched_keys (tx_db s d)) k = Some (watchers s d k)" by (cases "map_of (db_watched_keys (tx_db s d)) k") (auto simp: watchers_def)
  have k1: "keys s' j = (if j = i then wks else keys s j)" for j using assms(2) by (simp add: s'_def keys_upd keys_def)
  then show "keys s' i = wks" "\<And>j. j \<noteq> i \<Longrightarrow> keys s' j = keys s j" by simp_all
  have w1: "watchers s' d' k' = (if d' = d \<and> k' = k then remove1 i (watchers s d k) else watchers s d' k')" for d' k'
    by (auto simp: s'_def watchers_set_watched AList.update_conv' AList.delete_conv' watchers_def)
  have dk: "(d, k) \<notin> set wks" "distinct wks" using assms(1,2) unfolding watch_inv_def by (metis distinct.simps(2))+
  show "watch_inv s'"
    unfolding watch_inv_def
  proof (intro conjI allI)
    fix d' k' j
    show "distinct (map fst (db_watched_keys (tx_db s' d')))" using assms(1) by (simp add: s'_def watch_inv_def AList.distinct_update AList.distinct_delete)
    show "map_of (db_watched_keys (tx_db s' d')) k' \<noteq> Some []" using assms(1) by (simp add: s'_def watch_inv_def AList.update_conv' AList.delete_conv')
    show "distinct (watchers s' d' k')" using assms(1) by (simp add: w1 watch_inv_def)
    show "distinct (keys s' j)" using assms(1) dk by (simp add: k1 watch_inv_def)
    have "(j \<in> set (watchers s d' k')) = ((d', k') \<in> set (keys s j))" "distinct (watchers s d k)" using assms(1) by (auto simp: watch_inv_def)
    then show "(j \<in> set (watchers s' d' k')) = ((d', k') \<in> set (keys s' j))" using assms(2) dk by (auto simp: w1 k1)
  qed
qed

lemma unwatch_loop_inv:
  assumes "watch_inv s" "keys s i = wks"
  shows "\<exists>s'. unwatch_loop i wks s = Some s' \<and> watch_inv s' \<and> same_tx s s' \<and> (\<forall>j. keys s' j = (if j = i then [] else keys s j))"
  using assms
proof (induction wks arbitrary: s)
  case Nil
  then show ?case using same_tx_refl by auto
next
  case (Cons dk wks)
  obtain d k where dk: "dk = (d, k)" by (cases dk) auto
  define s1 where "s1 = upd_client i (\<lambda>c. c\<lparr>c_watched_keys := tl (c_watched_keys c)\<rparr>)
    (set_watched d (if remove1 i (watchers s d k) = [] then AList.delete k (db_watched_keys (tx_db s d)) else AList.update k (remove1 i (watchers s d k)) (db_watched_keys (tx_db s d))) s)"
  note u = unwatch_step [OF Cons.prems(1), of i d k wks, folded s1_def, OF Cons.prems(2) [unfolded dk]]
  have "unwatch_loop i (dk # wks) s = unwatch_loop i wks s1" using u(1,2) by (simp add: dk assert_opt_def Let_def s1_def)
  moreover obtain s' where "unwatch_loop i wks s1 = Some s'" "watch_inv s'" "same_tx s1 s'" "\<forall>j. keys s' j = (if j = i then [] else keys s1 j)"
    using Cons.IH [OF u(3,4)] by blast
  moreover have "same_tx s s1" unfolding s1_def by (rule same_tx_change)
  ultimately show ?case using same_tx_trans u(5) by auto
qed

lemma unwatchAllKeys_inv:
  assumes "watch_inv s"
  shows "\<exists>s'. unwatchAllKeys i s = Some s' \<and> watch_inv s' \<and> same_tx s s' \<and> (\<forall>j. keys s' j = (if j = i then [] else keys s j))"
  using unwatch_loop_inv [OF assms refl, of i] by (simp add: unwatchAllKeys_def keys_def)

section \<open>What a transaction means\<close>

text \<open>The view of the specification: which keys a client watches, whether one of them was changed since (\<open>stale\<close>), whether it is
  in a transaction, whether queueing failed, the queue, and which keys exist.\<close>

record tx_spec =
  watched :: "nat \<Rightarrow> (nat \<times> bytes) set"
  stale :: "nat \<Rightarrow> bool"
  multi :: "nat \<Rightarrow> bool"
  broken :: "nat \<Rightarrow> bool"
  queued :: "nat \<Rightarrow> multiCmd list"
  present :: "nat \<Rightarrow> bytes \<Rightarrow> bool"

definition spec_of :: "tx_server \<Rightarrow> tx_spec" where
  "spec_of s = \<lparr>watched = (\<lambda>i. set (keys s i)), stale = (\<lambda>i. has_flag (tx_clients s i) CLIENT_DIRTY_CAS),
     multi = (\<lambda>i. has_flag (tx_clients s i) CLIENT_MULTI), broken = (\<lambda>i. has_flag (tx_clients s i) CLIENT_DIRTY_EXEC),
     queued = (\<lambda>i. ms_commands (c_mstate (tx_clients s i))), present = (\<lambda>d k. db_dict (tx_db s d) k \<noteq> None)\<rparr>"

lemma tx_flag_bits:
  "has_flag c CLIENT_MULTI \<longleftrightarrow> bit (c_flags c) 3" "has_flag c CLIENT_BLOCKED \<longleftrightarrow> bit (c_flags c) 4"
  "has_flag c CLIENT_DIRTY_CAS \<longleftrightarrow> bit (c_flags c) 5" "has_flag c CLIENT_DIRTY_EXEC \<longleftrightarrow> bit (c_flags c) 12"
  "has_flag c CLIENT_DENY_BLOCKING \<longleftrightarrow> bit (c_flags c) 41"
  unfolding CLIENT_MULTI_def CLIENT_BLOCKED_def CLIENT_DIRTY_CAS_def CLIENT_DIRTY_EXEC_def CLIENT_DENY_BLOCKING_def by (rule has_flag_bit)+

lemma tx_set_bits:
  "bit (c_flags (set_flag CLIENT_MULTI c)) j \<longleftrightarrow> bit (c_flags c) j \<or> j = 3"
  "bit (c_flags (set_flag CLIENT_DIRTY_CAS c)) j \<longleftrightarrow> bit (c_flags c) j \<or> j = 5"
  "bit (c_flags (set_flag CLIENT_DIRTY_EXEC c)) j \<longleftrightarrow> bit (c_flags c) j \<or> j = 12"
  "bit (c_flags (set_flag CLIENT_DENY_BLOCKING c)) j \<longleftrightarrow> bit (c_flags c) j \<or> j = 41"
  unfolding CLIENT_MULTI_def CLIENT_DIRTY_CAS_def CLIENT_DIRTY_EXEC_def CLIENT_DENY_BLOCKING_def bit_set_flag by auto

lemma flag_mask_bit: "i < 64 \<Longrightarrow> bit (push_bit i 1 :: u64) j \<longleftrightarrow> j = i"
  by (auto simp: bit_push_bit_iff bit_1_iff simp del: push_bit_of_1)

lemma tx_clear_bits:
  "bit (c_flags (clear_flag CLIENT_DIRTY_CAS c)) j \<longleftrightarrow> bit (c_flags c) j \<and> j \<noteq> 5"
  "bit (c_flags (clear_flag CLIENT_DENY_BLOCKING c)) j \<longleftrightarrow> bit (c_flags c) j \<and> j \<noteq> 41"
  "bit (c_flags (clear_flag (CLIENT_MULTI OR CLIENT_DIRTY_CAS OR CLIENT_DIRTY_EXEC) c)) j \<longleftrightarrow> bit (c_flags c) j \<and> j \<noteq> 3 \<and> j \<noteq> 5 \<and> j \<noteq> 12"
  unfolding CLIENT_MULTI_def CLIENT_DIRTY_CAS_def CLIENT_DIRTY_EXEC_def CLIENT_DENY_BLOCKING_def bit_clear_flag bit_or_iff by (simp_all add: flag_mask_bit del: push_bit_of_1)

lemma flag_fields [simp]:
  "c_watched_keys (set_flag m c) = c_watched_keys c" "c_mstate (set_flag m c) = c_mstate c" "out_inv (set_flag m c) = out_inv c"
  "c_reply_bytes (set_flag m c) = c_reply_bytes c" "c_watched_keys (clear_flag m c) = c_watched_keys c" "c_mstate (clear_flag m c) = c_mstate c"
  "out_inv (clear_flag m c) = out_inv c" "c_reply_bytes (clear_flag m c) = c_reply_bytes c" "view (set_flag m c) = view c" "view (clear_flag m c) = view c"
  by (simp_all add: set_flag_def clear_flag_def out_inv_def view_def)

section \<open>Changed keys\<close>

text \<open>The clients of a set are marked and nothing else happens.\<close>

definition marked :: "(nat \<Rightarrow> bool) \<Rightarrow> tx_server \<Rightarrow> tx_server" where
  "marked P s = s\<lparr>tx_clients := \<lambda>i. if P i then set_flag CLIENT_DIRTY_CAS (tx_clients s i) else tx_clients s i\<rparr>"

lemma mark_dirty_marked: "mark_dirty i s = marked (\<lambda>j. j = i) s"
  by (auto simp: mark_dirty_def upd_client_def marked_def fun_eq_iff)

lemma set_flag_twice [simp]: "set_flag m (set_flag m c) = set_flag m c"
  by (simp add: set_flag_def or.assoc)

lemma marked_marked: "marked P (marked Q s) = marked (\<lambda>i. P i \<or> Q i) s"
  by (auto simp: marked_def fun_eq_iff)

lemma marked_none [simp]: "marked (\<lambda>i. False) s = s"
  by (simp add: marked_def)

lemma marked_fields [simp]: "tx_db (marked P s) = tx_db s" "tx_repl (marked P s) = tx_repl s" "keys (marked P s) = keys s" "watchers (marked P s) = watchers s" "tx_dbnum (marked P s) = tx_dbnum s"
  by (auto simp: marked_def keys_def watchers_def fun_eq_iff)

lemma marked_inv [simp]: "watch_inv (marked P s) = watch_inv s"
  by (rule watch_inv_cong) simp_all

lemma spec_of_marked: "spec_of (marked P s) = (spec_of s)\<lparr>stale := \<lambda>i. stale (spec_of s) i \<or> P i\<rparr>"
proof -
  have "has_flag (tx_clients (marked P s) i) CLIENT_DIRTY_CAS \<longleftrightarrow> has_flag (tx_clients s i) CLIENT_DIRTY_CAS \<or> P i" for i
    by (simp add: marked_def tx_flag_bits tx_set_bits)
  moreover have "has_flag (tx_clients (marked P s) i) CLIENT_MULTI = has_flag (tx_clients s i) CLIENT_MULTI"
    "has_flag (tx_clients (marked P s) i) CLIENT_DIRTY_EXEC = has_flag (tx_clients s i) CLIENT_DIRTY_EXEC"
    "c_mstate (tx_clients (marked P s) i) = c_mstate (tx_clients s i)" for i
    by (simp_all add: marked_def tx_flag_bits tx_set_bits)
  ultimately show ?thesis by (simp add: spec_of_def)
qed

lemma fold_mark: "fold mark_dirty cs s = marked (\<lambda>i. i \<in> set cs) s"
  by (induction cs arbitrary: s) (auto simp: mark_dirty_marked marked_marked intro!: arg_cong [of _ _ "\<lambda>P. marked P _"])

lemma touchWatchedKey_eq: "touchWatchedKey d k s = marked (\<lambda>i. i \<in> set (watchers s d k)) s"
  by (simp add: touchWatchedKey_def fold_mark watchers_def split: option.split)

text \<open>A loop over the clients of an entry, and over all entries.\<close>

lemma fold_mark_if:
  assumes "\<And>P. b (marked P s) = b s"
  shows "fold (\<lambda>i s. if b s then mark_dirty i s else s) cs s = marked (\<lambda>i. b s \<and> i \<in> set cs) s"
  using assms
proof (induction cs arbitrary: s)
  case (Cons c cs)
  show ?case
  proof (cases "b s")
    case True
    have "b (marked P (mark_dirty c s)) = b (mark_dirty c s)" for P using Cons.prems by (simp add: mark_dirty_marked marked_marked)
    then show ?thesis using Cons.IH [of "mark_dirty c s"] True Cons.prems by (simp add: mark_dirty_marked marked_marked disj_commute)
  next
    case False
    then show ?thesis using Cons.IH [of s] Cons.prems by simp
  qed
qed simp

definition lost :: "tx_server \<Rightarrow> nat \<Rightarrow> nat option \<Rightarrow> bytes \<Rightarrow> bool" where
  "lost s emptied replaced_with k \<longleftrightarrow> db_dict (tx_db s emptied) k \<noteq> None \<or> (\<exists>r. replaced_with = Some r \<and> db_dict (tx_db s r) k \<noteq> None)"

lemma touch_lost:
  "touchAllWatchedKeysInDb e r s = fold (\<lambda>(k, cs). fold (\<lambda>i s. if lost s e r k then mark_dirty i s else s) cs) (db_watched_keys (tx_db s e)) s"
  unfolding touchAllWatchedKeysInDb_def
  by (rule arg_cong [of _ _ "\<lambda>f. fold f _ _"]) (auto simp: fun_eq_iff lost_def split: option.split intro!: arg_cong [of _ _ "\<lambda>f. fold f _ _"])

lemma touch_entries:
  "fold (\<lambda>(k, cs). fold (\<lambda>i s. if lost s e r k then mark_dirty i s else s) cs) w s = marked (\<lambda>i. \<exists>k cs. (k, cs) \<in> set w \<and> lost s e r k \<and> i \<in> set cs) s"
proof (induction w arbitrary: s)
  case (Cons x w)
  obtain k cs where x: "x = (k, cs)" by (cases x) auto
  have l: "lost (marked P s) e r k' = lost s e r k'" for P k' by (simp add: lost_def)
  have "fold (\<lambda>i s. if lost s e r k then mark_dirty i s else s) cs s = marked (\<lambda>i. lost s e r k \<and> i \<in> set cs) s"
    by (rule fold_mark_if) (simp add: l)
  then show ?case unfolding x using Cons.IH [of "marked (\<lambda>i. lost s e r k \<and> i \<in> set cs) s"]
    by (auto simp: l marked_marked intro!: arg_cong [of _ _ "\<lambda>P. marked P _"])
qed simp

lemma touchAll_eq:
  assumes "watch_inv s"
  shows "touchAllWatchedKeysInDb e r s = marked (\<lambda>i. \<exists>k. (e, k) \<in> set (keys s i) \<and> lost s e r k) s"
proof -
  have d: "distinct (map fst (db_watched_keys (tx_db s e)))" using assms by (simp add: watch_inv_def)
  have "(\<exists>cs. (k, cs) \<in> set (db_watched_keys (tx_db s e)) \<and> i \<in> set cs) \<longleftrightarrow> i \<in> set (watchers s e k)" for k i
    using d by (auto simp: watchers_def split: option.split dest: map_of_SomeD map_of_is_SomeI weak_map_of_SomeI)
  moreover have "i \<in> set (watchers s e k) \<longleftrightarrow> (e, k) \<in> set (keys s i)" for i k using assms by (simp add: watch_inv_def)
  ultimately have "(\<exists>k cs. (k, cs) \<in> set (db_watched_keys (tx_db s e)) \<and> lost s e r k \<and> i \<in> set cs) \<longleftrightarrow> (\<exists>k. (e, k) \<in> set (keys s i) \<and> lost s e r k)" for i
    by blast
  then show ?thesis by (simp add: touch_lost touch_entries)
qed

section \<open>Replies\<close>

definition roomy :: "nat \<Rightarrow> tx_server \<Rightarrow> bool" where
  "roomy n s \<longleftrightarrow> (\<forall>i. out_inv (tx_clients s i) \<and> c_reply_bytes (tx_clients s i) + n < MAX_REPLY_BYTES)"

lemma roomy_mono: "roomy n s \<Longrightarrow> m \<le> n \<Longrightarrow> roomy m s"
  unfolding roomy_def by (meson add_le_cancel_left order.strict_trans1)

lemma roomy_cong: "(\<And>i. out_inv (tx_clients s' i) = out_inv (tx_clients s i) \<and> c_reply_bytes (tx_clients s' i) = c_reply_bytes (tx_clients s i)) \<Longrightarrow> roomy n s' = roomy n s"
  by (simp add: roomy_def)

definition replied :: "nat \<Rightarrow> bytes \<Rightarrow> nat \<Rightarrow> tx_server \<Rightarrow> tx_server \<Rightarrow> bool" where
  "replied i t n s s' \<longleftrightarrow> (\<exists>c. s' = upd_client i (\<lambda>_. c) s \<and> appends (tx_clients s i) t n c \<and> kept (tx_clients s i) c)"

lemma add_all_kept: "add_all A sv c ps = Some c' \<Longrightarrow> kept c c'"
proof (induction ps arbitrary: c)
  case (Cons p ps)
  then obtain c1 where "addReplyProto A sv c p = Some c1" "add_all A sv c1 ps = Some c'" by (auto split: bind_splits)
  then show ?case using Cons.IH addReplyProto_kept kept_trans by blast
qed (simp add: kept_def)

lemma reply_pieces:
  assumes "\<And>sv c. f sv c = add_all A sv c ps" "roomy (sum_list (map grow ps)) s" "modest A"
  shows "\<exists>s'. reply f i s = Some s' \<and> replied i (concat ps) (sum_list (map grow ps)) s s'"
proof -
  obtain c' where c': "add_all A (repl_net (tx_repl s)) (tx_clients s i) ps = Some c'" "appends (tx_clients s i) (concat ps) (sum_list (map grow ps)) c'"
    using add_all_appends [of "tx_clients s i" ps A] assms(2,3) by (auto simp: roomy_def)
  then show ?thesis using assms(1) add_all_kept [OF c'(1)] by (auto simp: reply_def replied_def)
qed

lemma replied_tx:
  assumes "replied i t n s s'"
  shows "spec_of s' = spec_of s" "watch_inv s' = watch_inv s" "tx_db s' = tx_db s" "tx_dbnum s' = tx_dbnum s" "tx_repl s' = tx_repl s"
    "\<And>m. roomy (n + m) s \<Longrightarrow> roomy m s'" "keys s' = keys s"
    "\<And>j. has_flag (tx_clients s' j) CLIENT_DENY_BLOCKING = has_flag (tx_clients s j) CLIENT_DENY_BLOCKING"
proof -
  obtain c where c: "s' = upd_client i (\<lambda>_. c) s" "appends (tx_clients s i) t n c" "kept (tx_clients s i) c" using assms by (auto simp: replied_def)
  then show d: "tx_db s' = tx_db s" "tx_dbnum s' = tx_dbnum s" "tx_repl s' = tx_repl s" by simp_all
  have b: "bit (c_flags c) j = bit (c_flags (tx_clients s i)) j" if "j \<noteq> 10" "j \<noteq> 21" for j using c(2) that by (simp add: appends_def flags_grow_def)
  show "has_flag (tx_clients s' j) CLIENT_DENY_BLOCKING = has_flag (tx_clients s j) CLIENT_DENY_BLOCKING" for j
    using c(1) b [of 41] by (simp add: tx_flag_bits)
  show k: "keys s' = keys s" using c(1) kept_tx [OF c(3)] by (auto simp: keys_def)
  then show "watch_inv s' = watch_inv s" using watch_inv_cong(1) [of s' s] d by simp
  show "spec_of s' = spec_of s" using c(1) kept_tx [OF c(3)] b [of 3] b [of 5] b [of 12] k by (auto simp: spec_of_def tx_flag_bits fun_eq_iff)
  show "roomy m s'" if "roomy (n + m) s" for m
  proof -
    have o: "out_inv c" "c_reply_bytes c \<le> c_reply_bytes (tx_clients s i) + n" using c(2) by (simp_all add: appends_def)
    have r: "out_inv (tx_clients s j)" "c_reply_bytes (tx_clients s j) + (n + m) < MAX_REPLY_BYTES" for j using that by (simp_all add: roomy_def)
    have "c_reply_bytes c + m < MAX_REPLY_BYTES" using o(2) r(2) [of i] by linarith
    moreover have "c_reply_bytes (tx_clients s j) + m < MAX_REPLY_BYTES" for j using r(2) [of j] by linarith
    ultimately show ?thesis using o(1) r(1) by (simp add: roomy_def c(1))
  qed
qed

section \<open>Runs of clients\<close>

text \<open>The operations of a run: the commands of a client, with the database it has selected, a command that is rejected while it is
  queued, changes of the databases as the other commands signal them, and the end of a client.\<close>

datatype tx_op = Watch nat nat "bytes list" | Unwatch nat | Multi nat | Queue nat multiCmd | Reject nat | Discard nat
  | Modify nat bytes "robj option" | Flush int | Swap int int | Leave nat

definition set_key :: "nat \<Rightarrow> bytes \<Rightarrow> robj option \<Rightarrow> tx_server \<Rightarrow> tx_server" where
  "set_key d k v s = s\<lparr>tx_db := (tx_db s)(d := (tx_db s d)\<lparr>db_dict := (db_dict (tx_db s d))(k := v)\<rparr>)\<rparr>"

fun tx_step :: "allocator \<Rightarrow> tx_op \<Rightarrow> tx_server \<Rightarrow> tx_server option" where
  "tx_step A (Watch i d ks) s = watchCommand A i (upd_client i (\<lambda>c. c\<lparr>c_db := d, c_argv := ascii ''WATCH'' # ks\<rparr>) s)"
| "tx_step A (Unwatch i) s = unwatchCommand A i s"
| "tx_step A (Multi i) s = multiCommand A i s"
| "tx_step A (Queue i mc) s = queue_command A i (upd_client i (\<lambda>c. c\<lparr>c_argv := mc_argv mc, c_cmd := mc_cmd mc\<rparr>) s)"
| "tx_step A (Reject i) s = Some (upd_client i flagTransaction s)"
| "tx_step A (Discard i) s = discardCommand A i s"
| "tx_step A (Modify d k v) s = Some (touchWatchedKey d k (set_key d k v s))"
| "tx_step A (Flush dbid) s = do { (ok, s) \<leftarrow> emptyDb dbid s; Some s }"
| "tx_step A (Swap id1 id2) s = Some (snd (dbSwapDatabases id1 id2 s))"
| "tx_step A (Leave i) s = unwatchAllKeys i s"

fun tx_run :: "allocator \<Rightarrow> tx_op list \<Rightarrow> tx_server \<Rightarrow> tx_server option" where
  "tx_run A [] s = Some s"
| "tx_run A (op # ops) s = do { s \<leftarrow> tx_step A op s; tx_run A ops s }"

text \<open>The same operations on sets: a client is stale as soon as a key that it watches is changed, or is removed or brought in by a
  flush of its database or its swap with another one; watching, unwatching and discarding concern the client alone. Flushes and swaps
  with a number outside of the \<open>n\<close> databases do nothing.\<close>

definition flushed :: "nat \<Rightarrow> int \<Rightarrow> nat set" where
  "flushed n dbid = {d. d < n \<and> (dbid = - 1 \<or> dbid = int d)}"

definition drop_tx :: "nat \<Rightarrow> tx_spec \<Rightarrow> tx_spec" where
  "drop_tx i a = a\<lparr>watched := (watched a)(i := {}), stale := (stale a)(i := False), multi := (multi a)(i := False),
     broken := (broken a)(i := False), queued := (queued a)(i := [])\<rparr>"

fun spec_step :: "nat \<Rightarrow> tx_op \<Rightarrow> tx_spec \<Rightarrow> tx_spec" where
  "spec_step n (Watch i d ks) a = (if multi a i then a else a\<lparr>watched := (watched a)(i := watched a i \<union> Pair d ` set ks)\<rparr>)"
| "spec_step n (Unwatch i) a = a\<lparr>watched := (watched a)(i := {}), stale := (stale a)(i := False)\<rparr>"
| "spec_step n (Multi i) a = a\<lparr>multi := (multi a)(i := True)\<rparr>"
| "spec_step n (Queue i mc) a = (if broken a i then a else a\<lparr>queued := (queued a)(i := queued a i @ [mc])\<rparr>)"
| "spec_step n (Reject i) a = (if multi a i then a\<lparr>broken := (broken a)(i := True)\<rparr> else a)"
| "spec_step n (Discard i) a = (if multi a i then drop_tx i a else a)"
| "spec_step n (Modify d k v) a = a\<lparr>stale := \<lambda>i. stale a i \<or> (d, k) \<in> watched a i, present := (present a)(d := (present a d)(k := v \<noteq> None))\<rparr>"
| "spec_step n (Flush dbid) a = a\<lparr>stale := \<lambda>i. stale a i \<or> (\<exists>d k. d \<in> flushed n dbid \<and> (d, k) \<in> watched a i \<and> present a d k),
     present := \<lambda>d k. present a d k \<and> d \<notin> flushed n dbid\<rparr>"
| "spec_step n (Swap id1 id2) a =
     (if id1 \<noteq> id2 \<and> id1 \<in> {0..<int n} \<and> id2 \<in> {0..<int n} then
        (let x = nat id1; y = nat id2 in
         a\<lparr>stale := \<lambda>i. stale a i \<or> (\<exists>k. ((x, k) \<in> watched a i \<or> (y, k) \<in> watched a i) \<and> (present a x k \<or> present a y k)),
           present := (present a)(x := present a y, y := present a x)\<rparr>)
      else a)"
| "spec_step n (Leave i) a = a\<lparr>watched := (watched a)(i := {})\<rparr>"

fun spec_run :: "nat \<Rightarrow> tx_op list \<Rightarrow> tx_spec \<Rightarrow> tx_spec" where
  "spec_run n [] a = a"
| "spec_run n (op # ops) a = spec_run n ops (spec_step n op a)"

text \<open>A bound on the memory of a reply.\<close>

definition TX_COST :: nat where "TX_COST = 100000"

definition error_pieces :: "bytes \<Rightarrow> bytes list" where
  "error_pieces t = (if t = [] \<or> hd t \<noteq> 45 then [ascii ''-ERR ''] else []) @ [t, crlf]"

lemma error_text: "addReplyErrorLength A sv c t = add_all A sv c (error_pieces t)"
  by (simp add: addReplyErrorLength_def error_pieces_def)

lemma replied_mono: "replied i t m s s' \<Longrightarrow> m \<le> n \<Longrightarrow> replied i t n s s'"
  unfolding replied_def by (blast intro: appends_mono)

lemma reply_within:
  assumes "\<And>sv c. f sv c = add_all A sv c ps" "sum_list (map grow ps) \<le> TX_COST" "roomy TX_COST s" "modest A"
  shows "\<exists>s'. reply f i s = Some s' \<and> replied i (concat ps) TX_COST s s'"
  using reply_pieces [OF assms(1) roomy_mono [OF assms(3,2)] assms(4)] replied_mono [OF _ assms(2)] by blast

lemma ok_reply:
  assumes "roomy TX_COST s" "modest A"
  shows "\<exists>s'. reply_ok A i s = Some s' \<and> replied i (ascii ''+OK'' @ crlf) TX_COST s s'"
  using reply_within [of "\<lambda>sv c. addReplyProto A sv c (ascii ''+OK'' @ crlf)" A "[ascii ''+OK'' @ crlf]", OF _ _ assms]
  by (simp add: reply_ok_def grow_def PROTO_REPLY_CHUNK_BYTES_def TX_COST_def ascii_def crlf_def)

lemma error_reply:
  assumes "length msg \<le> 300" "roomy TX_COST s" "modest A"
  shows "\<exists>s'. reply_error A msg i s = Some s' \<and> replied i (concat (error_pieces (ascii msg))) TX_COST s s'"
proof -
  have "sum_list (map grow (error_pieces (ascii msg))) \<le> TX_COST"
    using assms(1) by (simp add: error_pieces_def grow_def PROTO_REPLY_CHUNK_BYTES_def TX_COST_def ascii_def crlf_def)
  then show ?thesis unfolding reply_error_def by (rule reply_within [OF error_text _ assms(2,3)])
qed

text \<open>One step, as the specification has it.\<close>

definition simulates :: "tx_server \<Rightarrow> tx_server option \<Rightarrow> tx_spec \<Rightarrow> bool" where
  "simulates s r a \<longleftrightarrow> (\<exists>s'. r = Some s' \<and> watch_inv s' \<and> spec_of s' = a \<and> tx_dbnum s' = tx_dbnum s \<and> (\<forall>n. roomy (TX_COST + n) s \<longrightarrow> roomy n s'))"

lemma simulatesI:
  assumes "r = Some s'" "replied i t TX_COST s1 s'" "watch_inv s1" "spec_of s1 = a" "tx_dbnum s1 = tx_dbnum s" "\<And>n. roomy n s \<Longrightarrow> roomy n s1"
  shows "simulates s r a"
  using assms replied_tx [OF assms(2)] by (auto simp: simulates_def)

lemma sim_error:
  assumes "watch_inv s" "roomy TX_COST s" "modest A" "length msg \<le> 300"
  shows "simulates s (reply_error A msg i s) (spec_of s)"
proof -
  obtain s' where "reply_error A msg i s = Some s'" "replied i (concat (error_pieces (ascii msg))) TX_COST s s'" using error_reply [OF assms(4,2,3)] by blast
  then show ?thesis using simulatesI assms(1) by blast
qed

lemma sim_ok:
  assumes "watch_inv s1" "roomy TX_COST s" "modest A" "spec_of s1 = a" "tx_dbnum s1 = tx_dbnum s" "\<And>n. roomy n s \<Longrightarrow> roomy n s1"
  shows "simulates s (reply_ok A i s1) a"
proof -
  obtain s' where s': "reply_ok A i s1 = Some s'" "replied i (ascii ''+OK'' @ crlf) TX_COST s1 s'" using ok_reply [OF assms(6) [OF assms(2)] assms(3)] by blast
  show ?thesis by (rule simulatesI [OF s' assms(1,4-6)])
qed

lemma same_tx_spec:
  assumes "same_tx s s'"
  shows "spec_of s' = (spec_of s)\<lparr>watched := \<lambda>i. set (keys s' i)\<rparr>" "roomy n s' = roomy n s" "tx_dbnum s' = tx_dbnum s"
proof -
  obtain w L where s': "s' = s\<lparr>tx_db := \<lambda>d. (tx_db s d)\<lparr>db_watched_keys := w d\<rparr>, tx_clients := \<lambda>i. (tx_clients s i)\<lparr>c_watched_keys := L i\<rparr>\<rparr>"
    using assms by (auto simp: same_tx_def)
  then show "spec_of s' = (spec_of s)\<lparr>watched := \<lambda>i. set (keys s' i)\<rparr>" "tx_dbnum s' = tx_dbnum s" by (simp_all add: spec_of_def has_flag_def)
  show "roomy n s' = roomy n s" by (rule roomy_cong) (simp add: s' out_inv_def)
qed

text \<open>Changing the fields of a client that the specification does not see, or only one of those it sees.\<close>

lemma upd_inv:
  assumes "c_watched_keys (f (tx_clients s i)) = c_watched_keys (tx_clients s i)"
  shows "watch_inv (upd_client i f s) = watch_inv s" "keys (upd_client i f s) = keys s"
proof -
  show "keys (upd_client i f s) = keys s" using assms by (auto simp: keys_def fun_eq_iff)
  then show "watch_inv (upd_client i f s) = watch_inv s" by (intro watch_inv_cong) simp_all
qed

lemma upd_roomy:
  assumes "out_inv (f (tx_clients s i)) = out_inv (tx_clients s i)" "c_reply_bytes (f (tx_clients s i)) = c_reply_bytes (tx_clients s i)"
  shows "roomy n (upd_client i f s) = roomy n s"
  using assms by (intro roomy_cong) auto

lemma spec_of_upd:
  "spec_of (upd_client i f s) = (let a = spec_of s; c = f (tx_clients s i) in
     a\<lparr>watched := (watched a)(i := set (c_watched_keys c)), stale := (stale a)(i := has_flag c CLIENT_DIRTY_CAS), multi := (multi a)(i := has_flag c CLIENT_MULTI),
       broken := (broken a)(i := has_flag c CLIENT_DIRTY_EXEC), queued := (queued a)(i := ms_commands (c_mstate c))\<rparr>)"
  by (auto simp: spec_of_def Let_def keys_def fun_eq_iff)

lemma spec_of_simps:
  "watched (spec_of s) i = set (keys s i)" "stale (spec_of s) i = has_flag (tx_clients s i) CLIENT_DIRTY_CAS" "multi (spec_of s) i = has_flag (tx_clients s i) CLIENT_MULTI"
  "broken (spec_of s) i = has_flag (tx_clients s i) CLIENT_DIRTY_EXEC" "queued (spec_of s) i = ms_commands (c_mstate (tx_clients s i))"
  "present (spec_of s) d k \<longleftrightarrow> db_dict (tx_db s d) k \<noteq> None"
  by (simp_all add: spec_of_def)

lemma spec_eqI:
  assumes "\<And>i. watched a i = watched b i" "\<And>i. stale a i = stale b i" "\<And>i. multi a i = multi b i" "\<And>i. broken a i = broken b i" "\<And>i. queued a i = queued b i"
    "\<And>d k. present a d k = present b d k"
  shows "a = (b :: tx_spec)"
  using assms by (intro tx_spec.equality ext) auto

lemma fold_watch:
  assumes "watch_inv s" "c_db (tx_clients s i) = d"
  shows "watch_inv (fold (watchForKey i) ks s) \<and> same_tx s (fold (watchForKey i) ks s) \<and>
    (\<forall>j. set (keys (fold (watchForKey i) ks s) j) = (if j = i then set (keys s i) \<union> Pair d ` set ks else set (keys s j)))"
  using assms
proof (induction ks arbitrary: s)
  case (Cons k ks)
  note w = watchForKey_inv [OF Cons.prems(1), of i k]
  have "c_db (tx_clients (watchForKey i k s) i) = d" using same_tx_fields(4) [OF w(2), of i] Cons.prems(2) by auto
  from Cons.IH [OF w(1) this] show ?case using w(2,3) same_tx_trans [OF w(2)] Cons.prems(2) by auto
qed (simp add: same_tx_refl)

lemma sim_watch:
  assumes "watch_inv s" "roomy TX_COST s" "modest A"
  shows "simulates s (tx_step A (Watch i d ks) s) (spec_step n (Watch i d ks) (spec_of s))"
proof -
  define s0 where "s0 = upd_client i (\<lambda>c. c\<lparr>c_db := d, c_argv := ascii ''WATCH'' # ks\<rparr>) s"
  have inv: "watch_inv s0" "keys s0 = keys s" "roomy m s0 = roomy m s" "tx_dbnum s0 = tx_dbnum s" for m
    using upd_inv [of "\<lambda>c. c\<lparr>c_db := d, c_argv := ascii ''WATCH'' # ks\<rparr>" s i] assms(1) by (auto simp: s0_def out_inv_def intro!: upd_roomy)
  have cl: "tx_clients s0 = (tx_clients s)(i := (tx_clients s i)\<lparr>c_db := d, c_argv := ascii ''WATCH'' # ks\<rparr>)" "tx_db s0 = tx_db s" by (simp_all add: s0_def)
  have sp: "spec_of s0 = spec_of s" by (rule spec_eqI) (auto simp: spec_of_simps inv(2) cl has_flag_def)
  have c: "c_db (tx_clients s0 i) = d" "tl (c_argv (tx_clients s0 i)) = ks" by (simp_all add: s0_def)
  have m: "has_flag (tx_clients s0 i) CLIENT_MULTI = multi (spec_of s) i" using sp by (metis spec_of_simps(3))
  have t: "tx_step A (Watch i d ks) s = watchCommand A i s0" by (simp add: s0_def)
  show ?thesis
  proof (cases "multi (spec_of s) i")
    case True
    then have "simulates s0 (tx_step A (Watch i d ks) s) (spec_of s0)"
      unfolding t using sim_error [OF inv(1), of A "''WATCH inside MULTI is not allowed''" i] assms(2,3) m inv(3) by (simp add: watchCommand_def)
    then show ?thesis using True inv(3,4) sp by (simp add: simulates_def)
  next
    case False
    define s1 where "s1 = fold (watchForKey i) ks s0"
    have f: "watch_inv s1" "same_tx s0 s1" "\<And>j. set (keys s1 j) = (if j = i then set (keys s0 i) \<union> Pair d ` set ks else set (keys s0 j))"
      using fold_watch [OF inv(1) c(1), of ks] by (simp_all add: s1_def)
    have a: "spec_of s1 = spec_step n (Watch i d ks) (spec_of s)"
      using False same_tx_spec(1) [OF f(2)] sp f(3) inv(2) by (intro spec_eqI) (auto simp: spec_of_simps(1))
    have "tx_step A (Watch i d ks) s = reply_ok A i s1" unfolding t using False m c(2) by (simp add: watchCommand_def s1_def)
    then show ?thesis using sim_ok [OF f(1) assms(2,3) a] same_tx_spec(2,3) [OF f(2)] inv(3,4) by simp
  qed
qed

lemma sim_unwatch:
  assumes "watch_inv s" "roomy TX_COST s" "modest A"
  shows "simulates s (tx_step A (Unwatch i) s) (spec_step n (Unwatch i) (spec_of s))"
proof -
  obtain s1 where s1: "unwatchAllKeys i s = Some s1" "watch_inv s1" "same_tx s s1" "\<And>j. keys s1 j = (if j = i then [] else keys s j)"
    using unwatchAllKeys_inv [OF assms(1)] by blast
  define s2 where "s2 = upd_client i (clear_flag CLIENT_DIRTY_CAS) s1"
  have inv: "watch_inv s2" "keys s2 = keys s1" using upd_inv [of "clear_flag CLIENT_DIRTY_CAS" s1 i] s1(2) by (simp_all add: s2_def)
  have b: "stale (spec_of s2) j = (stale (spec_of s1) j \<and> j \<noteq> i)" "multi (spec_of s2) j = multi (spec_of s1) j" "broken (spec_of s2) j = broken (spec_of s1) j"
    "queued (spec_of s2) j = queued (spec_of s1) j" "present (spec_of s2) d k = present (spec_of s1) d k" for j d k
    by (auto simp: spec_of_simps s2_def tx_flag_bits tx_clear_bits)
  have "spec_of s2 = spec_step n (Unwatch i) (spec_of s)"
    using same_tx_spec(1) [OF s1(3)] s1(4) inv(2) b by (intro spec_eqI) (auto simp: spec_of_simps(1))
  then show ?thesis using sim_ok [OF inv(1) assms(2,3)] s1(1) same_tx_spec(2,3) [OF s1(3)] upd_roomy [of "clear_flag CLIENT_DIRTY_CAS" s1 i]
    by (simp add: unwatchCommand_def s2_def [symmetric]) (simp add: s2_def)
qed

lemma sim_leave:
  assumes "watch_inv s" "roomy TX_COST s"
  shows "simulates s (tx_step A (Leave i) s) (spec_step n (Leave i) (spec_of s))"
proof -
  obtain s1 where s1: "unwatchAllKeys i s = Some s1" "watch_inv s1" "same_tx s s1" "\<And>j. keys s1 j = (if j = i then [] else keys s j)"
    using unwatchAllKeys_inv [OF assms(1)] by blast
  have "spec_of s1 = spec_step n (Leave i) (spec_of s)" using same_tx_spec(1) [OF s1(3)] s1(4) by (intro spec_eqI) (auto simp: spec_of_simps(1))
  then show ?thesis using s1(1,2) same_tx_spec(2,3) [OF s1(3)] roomy_mono by (auto simp: simulates_def)
qed

lemma out_fields [simp]:
  "out_inv (c\<lparr>c_mstate := m\<rparr>) = out_inv c" "view (c\<lparr>c_mstate := m\<rparr>) = view c" "out_inv (c\<lparr>c_watched_keys := L\<rparr>) = out_inv c" "view (c\<lparr>c_watched_keys := L\<rparr>) = view c"
  "out_inv (c\<lparr>c_argv := v, c_cmd := q\<rparr>) = out_inv c" "view (c\<lparr>c_argv := v, c_cmd := q\<rparr>) = view c"
  by (simp_all add: out_inv_def view_def)

lemma sim_multi:
  assumes "watch_inv s" "roomy TX_COST s" "modest A"
  shows "simulates s (tx_step A (Multi i) s) (spec_step n (Multi i) (spec_of s))"
proof (cases "multi (spec_of s) i")
  case True
  then have "spec_step n (Multi i) (spec_of s) = spec_of s" by (intro spec_eqI) auto
  then show ?thesis using True sim_error [OF assms, of "''MULTI calls can not be nested''" i] by (simp add: multiCommand_def spec_of_simps)
next
  case False
  define s1 where "s1 = upd_client i (set_flag CLIENT_MULTI) s"
  have inv: "watch_inv s1" "keys s1 = keys s" "roomy m s1 = roomy m s" "tx_dbnum s1 = tx_dbnum s" for m
    using upd_inv [of "set_flag CLIENT_MULTI" s i] upd_roomy [of "set_flag CLIENT_MULTI" s i] assms(1) by (simp_all add: s1_def)
  have cl: "tx_clients s1 = (tx_clients s)(i := set_flag CLIENT_MULTI (tx_clients s i))" "tx_db s1 = tx_db s" by (simp_all add: s1_def)
  have "spec_of s1 = spec_step n (Multi i) (spec_of s)" by (rule spec_eqI) (auto simp: spec_of_simps inv(2) cl tx_flag_bits tx_set_bits)
  then show ?thesis using False sim_ok [OF inv(1) assms(2,3)] inv(3,4) by (simp add: multiCommand_def spec_of_simps s1_def [symmetric])
qed

lemma sim_reject:
  assumes "watch_inv s"
  shows "simulates s (tx_step A (Reject i) s) (spec_step n (Reject i) (spec_of s))"
proof -
  define s1 where "s1 = upd_client i flagTransaction s"
  have inv: "watch_inv s1" "keys s1 = keys s" "roomy m s1 = roomy m s" "tx_dbnum s1 = tx_dbnum s" for m
    using upd_inv [of flagTransaction s i] upd_roomy [of flagTransaction s i] assms by (simp_all add: s1_def flagTransaction_def)
  have cl: "tx_clients s1 = (tx_clients s)(i := flagTransaction (tx_clients s i))" "tx_db s1 = tx_db s" by (simp_all add: s1_def)
  have "spec_of s1 = spec_step n (Reject i) (spec_of s)"
    by (rule spec_eqI) (auto simp: spec_of_simps inv(2) cl flagTransaction_def tx_flag_bits tx_set_bits)
  then show ?thesis using inv(1,3,4) roomy_mono [of _ s] by (auto simp: simulates_def s1_def [symmetric])
qed

lemma sim_queue:
  assumes "watch_inv s" "roomy TX_COST s" "modest A"
  shows "simulates s (tx_step A (Queue i mc) s) (spec_step n (Queue i mc) (spec_of s))"
proof -
  define f where "f = (\<lambda>c. queueMultiCommand (c\<lparr>c_argv := mc_argv mc, c_cmd := mc_cmd mc\<rparr>))"
  define s1 where "s1 = upd_client i f s"
  have f: "c_watched_keys (f c) = c_watched_keys c" "c_flags (f c) = c_flags c" "out_inv (f c) = out_inv c" "c_reply_bytes (f c) = c_reply_bytes c"
    "ms_commands (c_mstate (f c)) = (if has_flag c CLIENT_DIRTY_EXEC then ms_commands (c_mstate c) else ms_commands (c_mstate c) @ [mc])" for c
    by (simp_all add: f_def queueMultiCommand_def Let_def out_inv_def has_flag_def)
  have inv: "watch_inv s1" "keys s1 = keys s" "roomy m s1 = roomy m s" "tx_dbnum s1 = tx_dbnum s" for m
    using upd_inv [of f s i] upd_roomy [of f s i] assms(1) f by (simp_all add: s1_def)
  have cl: "tx_clients s1 = (tx_clients s)(i := f (tx_clients s i))" "tx_db s1 = tx_db s" by (simp_all add: s1_def)
  have a: "spec_of s1 = spec_step n (Queue i mc) (spec_of s)"
    by (rule spec_eqI) (auto simp: spec_of_simps inv(2) cl f has_flag_def)
  have "tx_step A (Queue i mc) s = reply (\<lambda>sv c. addReplyProto A sv c (ascii ''+QUEUED'' @ crlf)) i s1"
    by (simp add: queue_command_def s1_def upd_client_def f_def)
  moreover obtain s' where "reply (\<lambda>sv c. addReplyProto A sv c (ascii ''+QUEUED'' @ crlf)) i s1 = Some s'" "replied i (ascii ''+QUEUED'' @ crlf) TX_COST s1 s'"
    using reply_within [of "\<lambda>sv c. addReplyProto A sv c (ascii ''+QUEUED'' @ crlf)" A "[ascii ''+QUEUED'' @ crlf]" s1 i] assms(2,3) inv(3)
    by (auto simp: grow_def PROTO_REPLY_CHUNK_BYTES_def TX_COST_def ascii_def crlf_def)
  ultimately show ?thesis using simulatesI [OF _ _ inv(1) a inv(4)] inv(3) by (simp del: spec_step.simps tx_step.simps)
qed

text \<open>Discarding, as DISCARD, EXEC and the end of a link use it.\<close>

lemma discard_eq:
  assumes "watch_inv s"
  shows "\<exists>s'. discardTransaction i s = Some s' \<and> watch_inv s' \<and> spec_of s' = drop_tx i (spec_of s) \<and> tx_dbnum s' = tx_dbnum s \<and> (\<forall>n. roomy n s' = roomy n s) \<and>
    (\<forall>d. db_dict (tx_db s' d) = db_dict (tx_db s d) \<and> db_expires (tx_db s' d) = db_expires (tx_db s d)) \<and> tx_repl s' = tx_repl s \<and>
    (\<forall>j. view (tx_clients s' j) = view (tx_clients s j) \<and> accepts (tx_clients s' j) = accepts (tx_clients s j)) \<and> (\<forall>j. j \<noteq> i \<longrightarrow> tx_clients s' j = tx_clients s j) \<and>
    propagate_in_transaction s' = propagate_in_transaction s \<and> in_exec s' = in_exec s"
proof -
  define f where "f = (\<lambda>c. clear_flag (CLIENT_MULTI OR CLIENT_DIRTY_CAS OR CLIENT_DIRTY_EXEC) (initClientMultiState c))"
  define s1 where "s1 = upd_client i f s"
  have f: "c_watched_keys (f c) = c_watched_keys c" "out_inv (f c) = out_inv c" "c_reply_bytes (f c) = c_reply_bytes c" "ms_commands (c_mstate (f c)) = []" "view (f c) = view c"
    "\<not> bit (c_flags (f c)) 3" "\<not> bit (c_flags (f c)) 5" "\<not> bit (c_flags (f c)) 12" for c
    by (simp_all add: f_def initClientMultiState_def tx_clear_bits)
  have inv: "watch_inv s1" "keys s1 = keys s" "roomy m s1 = roomy m s" for m
    using upd_inv [of f s i] upd_roomy [of f s i] assms f by (simp_all add: s1_def)
  have cl: "tx_clients s1 = (tx_clients s)(i := f (tx_clients s i))" "tx_db s1 = tx_db s" by (simp_all add: s1_def)
  obtain s2 where s2: "unwatchAllKeys i s1 = Some s2" "watch_inv s2" "same_tx s1 s2" "\<And>j. keys s2 j = (if j = i then [] else keys s1 j)"
    using unwatchAllKeys_inv [OF inv(1)] by blast
  have "spec_of s1 = (spec_of s)\<lparr>stale := (stale (spec_of s))(i := False), multi := (multi (spec_of s))(i := False), broken := (broken (spec_of s))(i := False), queued := (queued (spec_of s))(i := [])\<rparr>"
    by (rule spec_eqI) (auto simp: spec_of_simps inv(2) cl f tx_flag_bits)
  then have a: "spec_of s2 = drop_tx i (spec_of s)"
    using same_tx_spec(1) [OF s2(3)] s2(4) inv(2) by (intro spec_eqI) (auto simp: spec_of_simps(1) drop_tx_def)
  obtain w L where e: "s2 = s1\<lparr>tx_db := \<lambda>d. (tx_db s1 d)\<lparr>db_watched_keys := w d\<rparr>, tx_clients := \<lambda>i. (tx_clients s1 i)\<lparr>c_watched_keys := L i\<rparr>\<rparr>"
    using s2(3) by (auto simp: same_tx_def)
  have "L j = keys s2 j" for j by (simp add: e keys_def)
  then have o: "tx_clients s2 j = tx_clients s j" if "j \<noteq> i" for j using that s2(4) [of j] inv(2) by (simp add: e cl keys_def)
  have v: "view (tx_clients s2 j) = view (tx_clients s j)" for j by (cases "j = i") (simp_all add: o, simp add: e cl f)
  have p: "accepts (tx_clients s2 j) = accepts (tx_clients s j)" for j
    by (cases "j = i") (simp_all add: o, simp add: e cl f_def accepts_bits tx_clear_bits, simp add: initClientMultiState_def clear_flag_def)
  have d: "discardTransaction i s = Some s2" using s2(1) by (simp add: discardTransaction_def s1_def f_def)
  have r: "propagate_in_transaction s2 = propagate_in_transaction s" "in_exec s2 = in_exec s" "tx_repl s2 = tx_repl s" "tx_dbnum s2 = tx_dbnum s"
    by (simp_all add: e s1_def upd_client_def)
  have b: "db_dict (tx_db s2 q) = db_dict (tx_db s q)" "db_expires (tx_db s2 q) = db_expires (tx_db s q)" for q by (simp_all add: e cl(2))
  have m: "roomy q s2 = roomy q s" for q using same_tx_spec(2) [OF s2(3)] inv(3) by simp
  show ?thesis using d s2(2) a m r b o v p by blast
qed

lemma sim_discard:
  assumes "watch_inv s" "roomy TX_COST s" "modest A"
  shows "simulates s (tx_step A (Discard i) s) (spec_step n (Discard i) (spec_of s))"
proof (cases "multi (spec_of s) i")
  case False
  then show ?thesis using sim_error [OF assms, of "''DISCARD without MULTI''" i] by (simp add: discardCommand_def spec_of_simps)
next
  case True
  obtain s' where s': "discardTransaction i s = Some s'" "watch_inv s'" "spec_of s' = drop_tx i (spec_of s)" "tx_dbnum s' = tx_dbnum s" "\<forall>n. roomy n s' = roomy n s"
    using discard_eq [OF assms(1)] by blast
  then show ?thesis using True sim_ok [OF s'(2) assms(2,3) s'(3,4)] by (simp add: discardCommand_def spec_of_simps)
qed

lemma marked_roomy [simp]: "roomy n (marked P s) = roomy n s"
  by (rule roomy_cong) (simp add: marked_def)

text \<open>Changes of the contents of the databases.\<close>

definition same_but_data :: "tx_server \<Rightarrow> tx_server \<Rightarrow> bool" where
  "same_but_data s s' \<longleftrightarrow> tx_clients s' = tx_clients s \<and> tx_dbnum s' = tx_dbnum s \<and> (\<forall>d. db_watched_keys (tx_db s' d) = db_watched_keys (tx_db s d))"

lemma data_inv:
  assumes "same_but_data s s'"
  shows "watch_inv s' = watch_inv s" "keys s' = keys s" "watchers s' = watchers s" "roomy n s' = roomy n s" "tx_dbnum s' = tx_dbnum s"
    "watched (spec_of s') = watched (spec_of s)" "stale (spec_of s') = stale (spec_of s)" "multi (spec_of s') = multi (spec_of s)"
    "broken (spec_of s') = broken (spec_of s)" "queued (spec_of s') = queued (spec_of s)"
proof -
  show k: "keys s' = keys s" "tx_dbnum s' = tx_dbnum s" using assms by (auto simp: keys_def same_but_data_def fun_eq_iff)
  show "watch_inv s' = watch_inv s" "watchers s' = watchers s" using watch_inv_cong [of s' s] assms k by (simp_all add: same_but_data_def)
  show "roomy n s' = roomy n s" using assms by (intro roomy_cong) (simp add: same_but_data_def)
  show "watched (spec_of s') = watched (spec_of s)" "stale (spec_of s') = stale (spec_of s)" "multi (spec_of s') = multi (spec_of s)"
    "broken (spec_of s') = broken (spec_of s)" "queued (spec_of s') = queued (spec_of s)"
    using assms k(1) by (simp_all add: spec_of_def same_but_data_def)
qed

text \<open>The effect of emptying the databases in a set.\<close>

definition empty_dbs :: "nat set \<Rightarrow> tx_server \<Rightarrow> tx_server" where
  "empty_dbs D s = s\<lparr>tx_db := \<lambda>d. if d \<in> D then (tx_db s d)\<lparr>db_dict := \<lambda>_. None, db_expires := \<lambda>_. None\<rparr> else tx_db s d\<rparr>"

lemma data_ops: "same_but_data s (set_key d k v s)" "same_but_data s (empty_dbs D s)" "same_but_data s (swap_dbs a b s)"
  by (simp_all add: same_but_data_def set_key_def empty_dbs_def swap_dbs_def)

lemma simulates_silent:
  assumes "watch_inv s'" "spec_of s' = a" "tx_dbnum s' = tx_dbnum s" "\<And>n. roomy n s' = roomy n s"
  shows "simulates s (Some s') a"
  using assms roomy_mono [of _ s] by (auto simp: simulates_def)

lemma sim_modify:
  assumes "watch_inv s"
  shows "simulates s (tx_step A (Modify d k v) s) (spec_step n (Modify d k v) (spec_of s))"
proof -
  note i = data_inv [OF data_ops(1) [of s d k v]]
  have w: "i \<in> set (watchers s d k) \<longleftrightarrow> (d, k) \<in> set (keys s i)" for i using assms by (simp add: watch_inv_def)
  have p: "present (spec_of (set_key d k v s)) d' k' = ((present (spec_of s))(d := (present (spec_of s) d)(k := v \<noteq> None))) d' k'" for d' k'
    by (simp add: spec_of_simps set_key_def)
  have e: "spec_of (touchWatchedKey d k (set_key d k v s)) = spec_step n (Modify d k v) (spec_of s)"
    by (rule spec_eqI) (simp_all add: touchWatchedKey_eq spec_of_marked i(3,6-10) w p spec_of_simps(1))
  show ?thesis unfolding tx_step.simps by (rule simulates_silent [OF _ e]) (simp_all add: touchWatchedKey_eq i(1,4,5) assms)
qed

lemma touch_loop_eq:
  assumes "watch_inv s" "\<forall>j\<in>set js. 0 \<le> j \<and> j < int (tx_dbnum s)"
  shows "touch_loop js s = Some (marked (\<lambda>i. \<exists>d k. int d \<in> set js \<and> (d, k) \<in> set (keys s i) \<and> db_dict (tx_db s d) k \<noteq> None) s)"
  using assms
proof (induction js arbitrary: s)
  case (Cons j js)
  let ?P = "\<lambda>i. \<exists>k. (nat j, k) \<in> set (keys s i) \<and> db_dict (tx_db s (nat j)) k \<noteq> None"
  have j: "0 \<le> j" "j < int (tx_dbnum s)" using Cons.prems(2) by simp_all
  have t: "touchAllWatchedKeysInDb (nat j) None s = marked ?P s"
    using touchAll_eq [OF Cons.prems(1), of "nat j" None] by (simp add: lost_def)
  have e: "int d = j \<longleftrightarrow> d = nat j" for d using j(1) by auto
  show ?case using Cons.IH [of "marked ?P s"] Cons.prems j
    by (auto simp: t assert_opt_def marked_marked e intro!: arg_cong [of _ _ "\<lambda>P. marked P s"])
qed simp

lemma empty_loop_eq:
  "\<forall>j\<in>set js. 0 \<le> j \<and> j < int (tx_dbnum s) \<Longrightarrow> empty_loop js s = Some (empty_dbs {d. int d \<in> set js} s)"
proof (induction js arbitrary: s)
  case (Cons j js)
  have j: "0 \<le> j" "j < int (tx_dbnum s)" using Cons.prems by simp_all
  have e: "int d = j \<longleftrightarrow> d = nat j" for d using j(1) by auto
  show ?case using Cons.IH Cons.prems j
    by (auto simp: assert_opt_def empty_dbs_def e fun_eq_iff intro!: arg_cong [of _ _ "\<lambda>f. s\<lparr>tx_db := f\<rparr>"])
qed (simp add: empty_dbs_def)

lemma db_span_flushed:
  assumes "- 1 \<le> dbid" "dbid < int (tx_dbnum s)"
  shows "\<forall>j\<in>set (db_span s dbid). 0 \<le> j \<and> j < int (tx_dbnum s)" "{d. int d \<in> set (db_span s dbid)} = flushed (tx_dbnum s) dbid"
  using assms by (auto simp: db_span_def flushed_def)

lemma sim_flush:
  assumes "watch_inv s"
  shows "simulates s (tx_step A (Flush dbid) s) (spec_step (tx_dbnum s) (Flush dbid) (spec_of s))"
proof (cases "dbid < - 1 \<or> int (tx_dbnum s) \<le> dbid")
  case True
  then have "flushed (tx_dbnum s) dbid = {}" by (auto simp: flushed_def)
  then have "spec_of s = spec_step (tx_dbnum s) (Flush dbid) (spec_of s)" by (intro spec_eqI) simp_all
  moreover have "tx_step A (Flush dbid) s = Some s" using True by (simp add: emptyDb_def)
  ultimately show ?thesis using simulates_silent [OF assms, of _ s] by simp
next
  case False
  define D where "D = flushed (tx_dbnum s) dbid"
  define s1 where "s1 = marked (\<lambda>i. \<exists>d k. d \<in> D \<and> (d, k) \<in> watched (spec_of s) i \<and> present (spec_of s) d k) s"
  have n: "tx_dbnum s1 = tx_dbnum s" by (simp add: s1_def)
  have sp: "\<forall>j\<in>set (db_span s dbid). 0 \<le> j \<and> j < int (tx_dbnum s)" "{d. int d \<in> set (db_span s dbid)} = D" "db_span s1 dbid = db_span s dbid"
    using False db_span_flushed [of dbid s] by (simp_all add: D_def db_span_def n)
  have m: "int d \<in> set (db_span s dbid) \<longleftrightarrow> d \<in> D" for d using sp(2) by blast
  have f: "signalFlushedDb dbid s = Some s1" using touch_loop_eq [OF assms sp(1)] by (simp add: signalFlushedDb_def s1_def spec_of_simps m)
  have g: "emptyDbStructure dbid s1 = Some (empty_dbs D s1)" using empty_loop_eq [of "db_span s dbid" s1] sp n by (simp add: emptyDbStructure_def)
  note i = data_inv [OF data_ops(2) [of s1 D]]
  have p: "present (spec_of (empty_dbs D s1)) d k = (present (spec_of s) d k \<and> d \<notin> D)" for d k
    by (simp add: spec_of_simps empty_dbs_def s1_def)
  have q: "spec_of s1 = (spec_of s)\<lparr>stale := \<lambda>i. stale (spec_of s) i \<or> (\<exists>d k. d \<in> D \<and> (d, k) \<in> watched (spec_of s) i \<and> present (spec_of s) d k)\<rparr>"
    unfolding s1_def by (rule spec_of_marked)
  have "spec_of (empty_dbs D s1) = spec_step (tx_dbnum s) (Flush dbid) (spec_of s)"
    by (rule spec_eqI) (simp_all add: p D_def [symmetric] i(6-10) q)
  moreover have "tx_step A (Flush dbid) s = Some (empty_dbs D s1)" using False f g by (simp add: emptyDb_def)
  ultimately show ?thesis using simulates_silent [of "empty_dbs D s1"] i(1,4,5) assms by (simp add: s1_def)
qed

lemma sim_swap_touch:
  assumes "watch_inv s"
  shows "simulates s (Some (touchAllWatchedKeysInDb b (Some a) (touchAllWatchedKeysInDb a (Some b) (swap_dbs a b s))))
    ((spec_of s)\<lparr>stale := \<lambda>i. stale (spec_of s) i \<or>
        (\<exists>k. ((a, k) \<in> watched (spec_of s) i \<or> (b, k) \<in> watched (spec_of s) i) \<and> (present (spec_of s) a k \<or> present (spec_of s) b k)),
      present := (present (spec_of s))(a := present (spec_of s) b, b := present (spec_of s) a)\<rparr>)"
proof -
  define s0 where "s0 = swap_dbs a b s"
  note i = data_inv [OF data_ops(3) [of s a b], folded s0_def]
  have p: "present (spec_of s0) d k = ((present (spec_of s))(a := present (spec_of s) b, b := present (spec_of s) a)) d k" for d k
    by (auto simp: spec_of_simps s0_def swap_dbs_def)
  have h: "db_dict (tx_db s0 a) k \<noteq> None \<or> db_dict (tx_db s0 b) k \<noteq> None \<longleftrightarrow> db_dict (tx_db s a) k \<noteq> None \<or> db_dict (tx_db s b) k \<noteq> None" for k
    by (auto simp: s0_def swap_dbs_def)
  have l: "lost s0 a (Some b) k \<longleftrightarrow> present (spec_of s) a k \<or> present (spec_of s) b k" "lost s0 b (Some a) k \<longleftrightarrow> present (spec_of s) a k \<or> present (spec_of s) b k" for k
    unfolding lost_def spec_of_simps using h [of k] by blast+
  define s1 where "s1 = marked (\<lambda>i. \<exists>k. (a, k) \<in> set (keys s i) \<and> lost s0 a (Some b) k) s0"
  have t1: "touchAllWatchedKeysInDb a (Some b) s0 = s1" using touchAll_eq [of s0 a "Some b"] assms i(1,2) by (simp add: s1_def)
  have l1: "lost s1 b (Some a) k = lost s0 b (Some a) k" for k by (simp add: s1_def lost_def)
  have "touchAllWatchedKeysInDb b (Some a) s1 = marked (\<lambda>i. \<exists>k. (b, k) \<in> set (keys s i) \<and> lost s0 b (Some a) k) s1"
    using touchAll_eq [of s1 b "Some a"] assms i(1,2) l1 by (simp add: s1_def)
  moreover have "(\<lambda>i. (\<exists>k. (b, k) \<in> set (keys s i) \<and> lost s0 b (Some a) k) \<or> (\<exists>k. (a, k) \<in> set (keys s i) \<and> lost s0 a (Some b) k)) =
    (\<lambda>i. \<exists>k. ((a, k) \<in> set (keys s i) \<or> (b, k) \<in> set (keys s i)) \<and> (present (spec_of s) a k \<or> present (spec_of s) b k))"
    unfolding l by blast
  ultimately have t: "touchAllWatchedKeysInDb b (Some a) (touchAllWatchedKeysInDb a (Some b) (swap_dbs a b s)) = marked (\<lambda>i. \<exists>k. ((a, k) \<in> set (keys s i) \<or> (b, k) \<in> set (keys s i)) \<and> (present (spec_of s) a k \<or> present (spec_of s) b k)) s0"
    using t1 by (simp add: s0_def [symmetric] s1_def marked_marked)
  show ?thesis unfolding t
  proof (rule simulates_silent)
    show "spec_of (marked (\<lambda>i. \<exists>k. ((a, k) \<in> set (keys s i) \<or> (b, k) \<in> set (keys s i)) \<and> (present (spec_of s) a k \<or> present (spec_of s) b k)) s0) =
      (spec_of s)\<lparr>stale := \<lambda>i. stale (spec_of s) i \<or>
        (\<exists>k. ((a, k) \<in> watched (spec_of s) i \<or> (b, k) \<in> watched (spec_of s) i) \<and> (present (spec_of s) a k \<or> present (spec_of s) b k)),
        present := (present (spec_of s))(a := present (spec_of s) b, b := present (spec_of s) a)\<rparr>"
      by (rule spec_eqI) (simp_all add: spec_of_marked p i(6-10) spec_of_simps(1))
  qed (simp_all add: i(1,4,5) assms)
qed

lemma sim_swap:
  assumes "watch_inv s"
  shows "simulates s (tx_step A (Swap id1 id2) s) (spec_step (tx_dbnum s) (Swap id1 id2) (spec_of s))"
proof (cases "id1 \<noteq> id2 \<and> id1 \<in> {0..<int (tx_dbnum s)} \<and> id2 \<in> {0..<int (tx_dbnum s)}")
  case True
  then show ?thesis using sim_swap_touch [OF assms, of "nat id2" "nat id1"] by (simp add: dbSwapDatabases_def Let_def)
next
  case False
  then have "tx_step A (Swap id1 id2) s = Some s" by (auto simp: dbSwapDatabases_def)
  then show ?thesis using False simulates_silent [OF assms, of _ s] by (simp del: tx_step.simps) blast
qed

lemma tx_step_sim:
  assumes "watch_inv s" "roomy TX_COST s" "modest A"
  shows "simulates s (tx_step A op s) (spec_step (tx_dbnum s) op (spec_of s))"
proof (cases op)
  case (Watch i d ks) then show ?thesis using sim_watch [OF assms] by blast
next
  case (Unwatch i) then show ?thesis using sim_unwatch [OF assms] by blast
next
  case (Multi i) then show ?thesis using sim_multi [OF assms] by blast
next
  case (Queue i mc) then show ?thesis using sim_queue [OF assms] by blast
next
  case (Reject i) then show ?thesis using sim_reject [OF assms(1)] by blast
next
  case (Discard i) then show ?thesis using sim_discard [OF assms] by blast
next
  case (Modify d k v) then show ?thesis using sim_modify [OF assms(1)] by blast
next
  case (Flush n) then show ?thesis using sim_flush [OF assms(1)] by blast
next
  case (Swap a b) then show ?thesis using sim_swap [OF assms(1)] by blast
next
  case (Leave i) then show ?thesis using sim_leave [OF assms(1,2)] by blast
qed

lemma tx_run_sim:
  assumes "watch_inv s" "roomy (length ops * TX_COST) s" "modest A"
  shows "\<exists>s'. tx_run A ops s = Some s' \<and> watch_inv s' \<and> spec_of s' = spec_run (tx_dbnum s) ops (spec_of s)"
  using assms
proof (induction ops arbitrary: s)
  case (Cons op ops)
  have r: "roomy (TX_COST + length ops * TX_COST) s" using Cons.prems(2) by simp
  then obtain s1 where s1: "tx_step A op s = Some s1" "watch_inv s1" "spec_of s1 = spec_step (tx_dbnum s) op (spec_of s)" "tx_dbnum s1 = tx_dbnum s"
    "roomy (length ops * TX_COST) s1"
    using tx_step_sim [OF Cons.prems(1) roomy_mono [OF r] Cons.prems(3), of op] r unfolding simulates_def by fastforce
  then show ?case using Cons.IH [OF s1(2,5) Cons.prems(3)] by (simp del: tx_step.simps spec_step.simps)
qed simp

text \<open>C10: Watched keys are tracked exactly. Take any sequence of WATCH, UNWATCH, MULTI, queued and rejected commands, DISCARD, changes
  of keys, flushes and swaps of databases and disconnections of any number of clients. No assertion fails, the index of each
  database and the lists of the clients stay consistent, without empty or double entries, and the server is in the state
  that the specification on sets gives: a client is marked for failure exactly when a key that it watched at that time was
  changed, removed or replaced, in its own database and not in another, since the last time its watches were dropped, whatever the
  other clients watch, and its queue holds its commands in order. Flushing a database that does not exist, or swapping a database with itself or with
  one that does not exist, changes nothing and marks nobody.\<close>

theorem watch_refinement:
  assumes "watch_inv s" "roomy (length ops * TX_COST) s" "modest A"
  shows "\<exists>s'. tx_run A ops s = Some s' \<and> watch_inv s' \<and> spec_of s' = spec_run (tx_dbnum s) ops (spec_of s)"
  using assms by (rule tx_run_sim)

definition example_tx_client :: tx_client where
  "example_tx_client = client.extend example_client (tx_client.fields 0 [] \<lparr>cmd_proc = otherProc 0, cmd_flags = 0\<rparr> \<lparr>ms_commands = [], ms_cmd_flags = 0, ms_cmd_inv_flags = 0\<rparr> [])"

definition example_tx :: tx_server where
  "example_tx = \<lparr>tx_repl = example_master, tx_clients = (\<lambda>_. example_tx_client),
     tx_db = (\<lambda>_. \<lparr>db_dict = (\<lambda>_. None), db_expires = (\<lambda>_. None), db_watched_keys = []\<rparr>), tx_dbnum = 16, tx_loading = False, lua_caller = False,
     lua_time_snapshot = 0, fixed_time_expire = 0, server_mstime = 0, wall_clock = 0, in_exec = False, propagate_in_transaction = False, server_dirty = 0\<rparr>"

lemma example_tx_inv: "watch_inv example_tx"
  by (simp add: watch_inv_def watchers_def keys_def example_tx_def example_tx_client_def client.defs tx_client.defs)

lemma example_tx_roomy: "n < 10 ^ 7 \<Longrightarrow> roomy n example_tx"
  by (simp add: roomy_def example_tx_def example_tx_client_def client.defs tx_client.defs example_client_def out_inv_def MAX_REPLY_BYTES_def)

theorem watch_refinement_witness:
  "\<exists>s'. tx_run plain_allocator [Watch 1 0 [[97], [98]], Watch 2 3 [[97]], Multi 1, Modify 0 [98] None, Modify 3 [98] None] example_tx = Some s' \<and>
     stale (spec_of s') 1 \<and> \<not> stale (spec_of s') 2"
proof -
  let ?ops = "[Watch 1 0 [[97], [98]], Watch 2 3 [[97]], Multi 1, Modify 0 [98] None, Modify 3 [98] None]"
  have a: "watched (spec_of example_tx) i = {}" "\<not> stale (spec_of example_tx) i" "\<not> multi (spec_of example_tx) i" for i
    by (simp_all add: spec_of_simps keys_def example_tx_def example_tx_client_def client.defs tx_client.defs example_client_def has_flag_def)
  have "roomy (length ?ops * TX_COST) example_tx" by (rule example_tx_roomy) (simp add: TX_COST_def)
  moreover have "modest plain_allocator" by (simp add: modest_def plain_allocator_def)
  ultimately obtain s' where "tx_run plain_allocator ?ops example_tx = Some s'" "spec_of s' = spec_run (tx_dbnum example_tx) ?ops (spec_of example_tx)"
    using watch_refinement [OF example_tx_inv] by blast
  then show ?thesis using a by auto
qed

end
