(* ===== verification/Multi_Run.thy ===== *)
theory Multi_Run
  imports Multi_Watch
begin

text \<open>
  EXEC on top of the index: when it fails, what a failure leaves, and that the queue runs once from its first command to its last. The
  parameter for running a command has the contract \<open>call_ok\<close>.
\<close>

unbundle bit_operations_syntax


section \<open>EXEC\<close>

text \<open>When a key counts as expired.\<close>

definition tx_now :: "tx_server \<Rightarrow> int" where
  "tx_now s = (if lua_caller s then lua_time_snapshot s else if 0 < fixed_time_expire s then server_mstime s else wall_clock s)"

definition expired_key :: "tx_server \<Rightarrow> nat \<times> bytes \<Rightarrow> bool" where
  "expired_key s dk \<longleftrightarrow> \<not> tx_loading s \<and> (\<exists>t. db_expires (tx_db s (fst dk)) (snd dk) = Some t \<and> 0 \<le> t \<and> t < tx_now s)"

text \<open>Only keys that exist have a time of expiry.\<close>

definition db_ok :: "tx_server \<Rightarrow> bool" where
  "db_ok s \<longleftrightarrow> (\<forall>d k. db_expires (tx_db s d) k \<noteq> None \<longrightarrow> db_dict (tx_db s d) k \<noteq> None)"

lemma keyIsExpired_eq: "db_ok s \<Longrightarrow> keyIsExpired s d k = Some (expired_key s (d, k))"
  unfolding keyIsExpired_def getExpire_def expired_key_def tx_now_def db_ok_def
  by (cases "db_expires (tx_db s d) k") (auto simp: assert_opt_def Let_def)

lemma any_expired_eq: "db_ok s \<Longrightarrow> any_expired s wks = Some (\<exists>dk\<in>set wks. expired_key s dk)"
  by (induction wks) (auto simp: keyIsExpired_eq)

lemma isWatchedKeyExpired_eq: "db_ok s \<Longrightarrow> isWatchedKeyExpired i s = Some (\<exists>dk\<in>watched (spec_of s) i. expired_key s dk)"
  by (simp add: isWatchedKeyExpired_def any_expired_eq spec_of_simps keys_def)

text \<open>What EXEC relies on when it runs a command for a client that must not block: the command returns, keeps the index of watched keys and
  the backlog in order, leaves the queue and the flag \<^verbatim>\<open>CLIENT_DENY_BLOCKING\<close> alone, does not block the client and adds a bounded amount
  of output. Nothing is asked of commands that run without that flag.\<close>

definition repl_ok :: "tx_server \<Rightarrow> bool" where
  "repl_ok s \<longleftrightarrow> repl_backlog (tx_repl s) = None \<or> (\<exists>T. backlog_holds T (tx_repl s))"

definition ready :: "nat \<Rightarrow> tx_server \<Rightarrow> bool" where
  "ready i s \<longleftrightarrow> repl_ok s \<and> has_flag (tx_clients s i) CLIENT_DENY_BLOCKING"

definition call_ok :: "call_fun \<Rightarrow> nat \<Rightarrow> nat \<Rightarrow> bool" where
  "call_ok call i n \<longleftrightarrow> (\<forall>full s m. watch_inv s \<longrightarrow> ready i s \<longrightarrow> roomy (n + m) s \<longrightarrow>
     (\<exists>s'. call full i s = Some s' \<and> watch_inv s' \<and> ready i s' \<and> roomy m s' \<and> queued (spec_of s') i = queued (spec_of s) i \<and>
       \<not> has_flag (tx_clients s' i) CLIENT_BLOCKED))"

text \<open>The queue run from its first command to its last.\<close>

definition write_back :: "nat \<Rightarrow> nat \<Rightarrow> tx_server \<Rightarrow> tx_server" where
  "write_back i j s = upd_client i (\<lambda>c. c\<lparr>c_mstate := (c_mstate c)\<lparr>ms_commands :=
     (ms_commands (c_mstate c))[j := \<lparr>mc_argv = c_argv c, mc_cmd = c_cmd c\<rparr>]\<rparr>\<rparr>) s"

fun run_queue :: "allocator \<Rightarrow> acl_fun \<Rightarrow> call_fun \<Rightarrow> nat \<Rightarrow> nat \<Rightarrow> multiCmd list \<Rightarrow> tx_server \<Rightarrow> tx_server option" where
  "run_queue A acl call i j [] s = Some s"
| "run_queue A acl call i j (mc # mcs) s = do { s \<leftarrow> exec_one A acl call i mc s; run_queue A acl call i (j + 1) mcs (write_back i j s) }"

lemma length_reason: "length (noperm_reason r) \<le> 80"
  by (cases r) (simp_all add: noperm_reason_def)

lemma exec_one_eq:
  assumes "call_ok call i n" "watch_inv s" "ready i s" "roomy (n + TX_COST + m) s" "modest A"
  shows "\<exists>s'. exec_one A acl call i mc s = Some s' \<and> watch_inv s' \<and> ready i s' \<and> roomy m s' \<and> queued (spec_of s') i = queued (spec_of s) i"
proof -
  define s0 where "s0 = upd_client i (\<lambda>c. c\<lparr>c_argv := mc_argv mc, c_cmd := mc_cmd mc\<rparr>) s"
  have i0: "watch_inv s0" "ready i s0" "queued (spec_of s0) i = queued (spec_of s) i"
    using upd_inv [of "\<lambda>c. c\<lparr>c_argv := mc_argv mc, c_cmd := mc_cmd mc\<rparr>" s i] assms(2,3) by (simp_all add: s0_def ready_def repl_ok_def has_flag_def spec_of_simps)
  have r0: "roomy q s0 = roomy q s" for q unfolding s0_def by (rule upd_roomy) simp_all
  show ?thesis
  proof (cases "acl i s0 = ACL_OK")
    case True
    have "roomy (n + m) s0" using assms(4) r0 roomy_mono by simp
    then obtain s' where "call (\<not> tx_loading s0) i s0 = Some s'" "watch_inv s'" "ready i s'" "roomy m s'" "queued (spec_of s') i = queued (spec_of s0) i"
      "\<not> has_flag (tx_clients s' i) CLIENT_BLOCKED"
      using assms(1) i0(1,2) unfolding call_ok_def by blast
    then show ?thesis using True i0(3) by (simp add: exec_one_def s0_def [symmetric] Let_def assert_opt_def)
  next
    case False
    define msg where "msg = ''-NOPERM ACLs rules changed between the moment the '' @ ''transaction was accumulated and the EXEC call. '' @
      ''This command is no longer allowed for the '' @ ''following reason: '' @ noperm_reason (acl i s0)"
    have len: "length msg \<le> 300" using length_reason [of "acl i s0"] by (simp add: msg_def)
    have r1: "roomy (TX_COST + m) s0" using assms(4) r0 roomy_mono [of "n + TX_COST + m" s] by simp
    then obtain s' where s': "reply_error A msg i s0 = Some s'" "replied i (concat (error_pieces (ascii msg))) TX_COST s0 s'"
      using error_reply [OF len roomy_mono [OF r1] assms(5), of i] by auto
    note t = replied_tx [OF s'(2)]
    have "exec_one A acl call i mc s = Some s'" using False s'(1) by (cases "acl i s0") (simp_all add: exec_one_def s0_def [symmetric] Let_def msg_def)
    then show ?thesis using t(1,2,5) t(6) [OF r1] t(8) [of i] i0 by (auto simp: ready_def repl_ok_def)
  qed
qed

lemma write_back_eq:
  "watch_inv (write_back i j s) = watch_inv s" "ready i (write_back i j s) = ready i s" "roomy q (write_back i j s) = roomy q s"
  "queued (spec_of (write_back i j s)) i = (queued (spec_of s) i)[j := \<lparr>mc_argv = c_argv (tx_clients s i), mc_cmd = c_cmd (tx_clients s i)\<rparr>]"
  unfolding write_back_def using upd_inv [of _ s i] by (simp_all add: ready_def repl_ok_def has_flag_def spec_of_simps upd_roomy)

lemma exec_loop_eq:
  assumes "call_ok call i n" "watch_inv s" "ready i s" "roomy (length mcs * (n + TX_COST) + m) s" "modest A"
    "queued (spec_of s) i = done @ mcs" "length done = j" "length mcs \<le> fuel"
  shows "\<exists>s'. exec_loop fuel A acl call i j s = Some s' \<and> run_queue A acl call i j mcs s = Some s' \<and> watch_inv s' \<and> ready i s' \<and> roomy m s'"
  using assms(2-)
proof (induction mcs arbitrary: fuel s "done" j)
  case Nil
  then show ?case by (simp add: exec_loop.simps spec_of_simps)
next
  case (Cons mc mcs)
  obtain f where f: "fuel = Suc f" using Cons.prems(7) by (cases fuel) auto
  have r: "roomy (n + TX_COST + (length mcs * (n + TX_COST) + m)) s" using Cons.prems(3) by (simp add: add.assoc)
  obtain s1 where s1: "exec_one A acl call i mc s = Some s1" "watch_inv s1" "ready i s1" "roomy (length mcs * (n + TX_COST) + m) s1" "queued (spec_of s1) i = queued (spec_of s) i"
    using exec_one_eq [OF assms(1) Cons.prems(1,2) r assms(5)] by blast
  have q: "ms_commands (c_mstate (tx_clients s i)) = done @ mc # mcs" "ms_commands (c_mstate (tx_clients s1 i)) = done @ mc # mcs"
    using Cons.prems(5) s1(5) by (simp_all add: spec_of_simps)
  define e where "e = \<lparr>mc_argv = c_argv (tx_clients s1 i), mc_cmd = c_cmd (tx_clients s1 i)\<rparr>"
  have "queued (spec_of (write_back i j s1)) i = (done @ [e]) @ mcs"
    unfolding write_back_eq(4) e_def [symmetric] using Cons.prems(6) q(2) by (auto simp: spec_of_simps list_update_append)
  then obtain s' where s': "exec_loop f A acl call i (j + 1) (write_back i j s1) = Some s'" "run_queue A acl call i (j + 1) mcs (write_back i j s1) = Some s'"
    "watch_inv s'" "ready i s'" "roomy m s'"
    using Cons.IH [of "write_back i j s1" "done @ [e]" "j + 1" f] s1(2-4) Cons.prems(4,6,7) f by (auto simp: write_back_eq)
  have "exec_loop fuel A acl call i j s = Some s'"
    using Cons.prems(6) q s1(1) s'(1) by (subst exec_loop.simps) (simp add: f nth_append assert_opt_def Let_def write_back_def)
  then show ?case using s1(1) s' by auto
qed

lemma feed_exec:
  assumes "repl_ok s"
  shows "\<exists>s'. exec_finish wm s = Some s' \<and> tx_db s' = tx_db s \<and> tx_clients s' = tx_clients s"
proof -
  let ?t = "ascii ''*1'' @ crlf @ ascii ''$4'' @ crlf @ ascii ''EXEC'' @ crlf"
  have "\<exists>r. (if repl_backlog (tx_repl s) \<noteq> None \<and> wm \<and> \<not> masterhost (tx_repl s) = None then feedReplicationBacklog (tx_repl s) ?t else Some (tx_repl s)) = Some r"
  proof (cases "repl_backlog (tx_repl s) = None")
    case False
    then obtain T where "backlog_holds T (tx_repl s)" using assms by (auto simp: repl_ok_def)
    from feed_backlog [OF this, of ?t] show ?thesis by auto
  qed simp
  then obtain r where "(if repl_backlog (tx_repl s) \<noteq> None \<and> wm \<and> \<not> masterhost (tx_repl s) = None then feedReplicationBacklog (tx_repl s) ?t else Some (tx_repl s)) = Some r" by blast
  then show ?thesis
    by (cases "propagate_in_transaction s"; cases "repl_backlog (tx_repl s) \<noteq> None \<and> wm \<and> \<not> masterhost (tx_repl s) = None")
      (simp_all only: exec_finish_def Let_def afterPropagateExec_def assert_opt_def if_True if_False, auto)
qed

lemma spec_cong: "tx_db s' = tx_db s \<Longrightarrow> tx_clients s' = tx_clients s \<Longrightarrow> spec_of s' = spec_of s \<and> watch_inv s' = watch_inv s \<and> keys s' = keys s"
proof -
  assume a: "tx_db s' = tx_db s" "tx_clients s' = tx_clients s"
  then have k: "keys s' = keys s" by (simp add: keys_def fun_eq_iff)
  then show ?thesis using watch_inv_cong(1) [of s' s] a by (simp add: spec_of_def)
qed

text \<open>The state in which the queue starts: the watches are gone, the number of results is announced.\<close>

definition exec_started :: "nat \<Rightarrow> tx_server \<Rightarrow> tx_server \<Rightarrow> bool" where
  "exec_started i s s1 \<longleftrightarrow> spec_of s1 = (spec_of s)\<lparr>watched := (watched (spec_of s))(i := {})\<rparr> \<and> in_exec s1 \<and>
     (\<exists>c n. view c = view (tx_clients s i) \<and> appends c (42 # dec_int (int (length (queued (spec_of s) i))) @ crlf) n (tx_clients s1 i))"

lemma exec_start:
  assumes "watch_inv s" "repl_ok s" "roomy (TX_COST + m) s" "modest A" "length (queued (spec_of s) i) < 2 ^ 63"
  shows "\<exists>s0 s1. unwatchAllKeys i (upd_client i (set_flag CLIENT_DENY_BLOCKING) s) = Some s0 \<and>
    ms_commands (c_mstate (tx_clients s0 i)) = queued (spec_of s) i \<and>
    reply (\<lambda>sv c. addReplyArrayLen A sv c (word_of_nat (length (queued (spec_of s) i)))) i (s0\<lparr>in_exec := True\<rparr>) = Some s1 \<and>
    exec_started i s s1 \<and> watch_inv s1 \<and> ready i s1 \<and> roomy m s1"
proof -
  let ?q = "queued (spec_of s) i"
  define sd where "sd = upd_client i (set_flag CLIENT_DENY_BLOCKING) s"
  have d: "watch_inv sd" "keys sd = keys s" "roomy q sd = roomy q s" for q
    using upd_inv [of "set_flag CLIENT_DENY_BLOCKING" s i] upd_roomy [of "set_flag CLIENT_DENY_BLOCKING" s i] assms(1) by (simp_all add: sd_def)
  have cl: "tx_clients sd = (tx_clients s)(i := set_flag CLIENT_DENY_BLOCKING (tx_clients s i))" "tx_db sd = tx_db s" "tx_repl sd = tx_repl s" by (simp_all add: sd_def)
  have sp: "spec_of sd = spec_of s" by (rule spec_eqI) (auto simp: spec_of_simps d(2) cl tx_flag_bits tx_set_bits)
  obtain s0 where s0: "unwatchAllKeys i sd = Some s0" "watch_inv s0" "same_tx sd s0" "\<And>j. keys s0 j = (if j = i then [] else keys sd j)"
    using unwatchAllKeys_inv [OF d(1)] by blast
  define sx where "sx = s0\<lparr>in_exec := True\<rparr>"
  have x: "watch_inv sx" "spec_of sx = spec_of s0" "roomy q sx = roomy q s0" for q
    using spec_cong [of sx s0] s0(2) by (simp_all add: sx_def roomy_def)
  have a: "spec_of s0 = (spec_of s)\<lparr>watched := (watched (spec_of s))(i := {})\<rparr>"
    using same_tx_spec(1) [OF s0(3)] s0(4) sp d(2) by (intro spec_eqI) (auto simp: spec_of_simps(1))
  have r: "roomy q s0 = roomy q s" for q using same_tx_spec(2) [OF s0(3)] d(3) by simp
  have t: "addReplyArrayLen A sv c (word_of_nat (length ?q)) = add_all A sv c [42 # dec_int (int (length ?q)) @ crlf]" for sv and c :: tx_client
    using assms(5) sint_of_nat [of "length ?q"] by (simp add: addReplyArrayLen_def addReplyAggregateLen_def prefix_text assert_opt_def)
  have cost: "sum_list (map grow [42 # dec_int (int (length ?q)) @ crlf]) \<le> TX_COST"
    using length_dec_int [of "word_of_nat (length ?q)"] sint_of_nat [OF assms(5)] by (simp add: grow_def PROTO_REPLY_CHUNK_BYTES_def TX_COST_def crlf_def)
  have rx: "roomy TX_COST sx" unfolding x(3) r by (rule roomy_mono [OF assms(3)]) simp
  obtain s1 where s1: "reply (\<lambda>sv c. addReplyArrayLen A sv c (word_of_nat (length ?q))) i sx = Some s1" "replied i (42 # dec_int (int (length ?q)) @ crlf) TX_COST sx s1"
    using reply_within [OF t cost rx assms(4), of i] by auto
  obtain c1 where c1: "s1 = upd_client i (\<lambda>_. c1) sx" "appends (tx_clients sx i) (42 # dec_int (int (length ?q)) @ crlf) TX_COST c1"
    using s1(2) by (auto simp: replied_def)
  have v: "view (tx_clients sx i) = view (tx_clients s i)" using same_tx_fields(4) [OF s0(3), of i] by (auto simp: sx_def cl)
  note t1 = replied_tx [OF s1(2)]
  have "exec_started i s s1" unfolding exec_started_def using t1(1) x(2) a c1 v by (auto simp: sx_def upd_client_def)
  moreover have "ms_commands (c_mstate (tx_clients s0 i)) = ?q" using arg_cong [OF a, of "\<lambda>a. queued a i"] by (simp add: spec_of_simps)
  moreover have "has_flag (tx_clients s1 i) CLIENT_DENY_BLOCKING"
    using t1(8) [of i] same_tx_fields(4) [OF s0(3), of i] by (auto simp: sx_def cl tx_flag_bits tx_set_bits)
  then have "ready i s1" using t1(5) same_tx_fields(1) [OF s0(3)] assms(2) by (simp add: ready_def repl_ok_def sx_def cl(3))
  moreover have "roomy m s1" using t1(6) assms(3) x(3) r by simp
  ultimately show ?thesis using s0(1) s1(1) t1(2) x(1) unfolding sd_def sx_def by blast
qed

lemma exec_run_eq:
  assumes "call_ok call i n" "watch_inv s" "repl_ok s" "roomy (TX_COST + (length (queued (spec_of s) i) * (n + TX_COST) + m)) s" "modest A"
    "length (queued (spec_of s) i) < 2 ^ 63"
  shows "\<exists>s1 s2 s'. exec_run A acl call i s = Some s' \<and> exec_started i s s1 \<and> run_queue A acl call i 0 (queued (spec_of s) i) s1 = Some s2 \<and>
    watch_inv s' \<and> spec_of s' = drop_tx i (spec_of s2) \<and> \<not> in_exec s'"
proof -
  let ?q = "queued (spec_of s) i"
  obtain s0 s1 where s1: "unwatchAllKeys i (upd_client i (set_flag CLIENT_DENY_BLOCKING) s) = Some s0" "ms_commands (c_mstate (tx_clients s0 i)) = ?q"
    "reply (\<lambda>sv c. addReplyArrayLen A sv c (word_of_nat (length ?q))) i (s0\<lparr>in_exec := True\<rparr>) = Some s1"
    "exec_started i s s1" "watch_inv s1" "ready i s1" "roomy (length ?q * (n + TX_COST) + m) s1"
    using exec_start [OF assms(2-6)] by blast
  have "queued (spec_of s1) i = [] @ ?q" using s1(4) by (simp add: exec_started_def)
  then obtain s2 where s2: "exec_loop (length ?q) A acl call i 0 s1 = Some s2" "run_queue A acl call i 0 ?q s1 = Some s2" "watch_inv s2" "ready i s2"
    using exec_loop_eq [OF assms(1) s1(5-7) assms(5), of "[]" 0 "length ?q" acl] by auto
  define s3 where "s3 = (if \<not> has_flag (tx_clients s i) CLIENT_DENY_BLOCKING then upd_client i (clear_flag CLIENT_DENY_BLOCKING) s2 else s2)"
  define s4 where "s4 = upd_client i (\<lambda>c. c\<lparr>c_argv := c_argv (tx_clients s i), c_cmd := c_cmd (tx_clients s i)\<rparr>) s3"
  have i3: "watch_inv s3" "keys s3 = keys s2" "tx_repl s3 = tx_repl s2" using upd_inv [of "clear_flag CLIENT_DENY_BLOCKING" s2 i] s2(3) by (simp_all add: s3_def)
  have i4: "watch_inv s4" "keys s4 = keys s3" "tx_repl s4 = tx_repl s3"
    using upd_inv [of "\<lambda>c. c\<lparr>c_argv := c_argv (tx_clients s i), c_cmd := c_cmd (tx_clients s i)\<rparr>" s3 i] i3(1) by (simp_all add: s4_def)
  have "spec_of s3 = spec_of s2" by (rule spec_eqI) (simp_all add: spec_of_simps i3(2), auto simp: s3_def tx_flag_bits tx_clear_bits)
  moreover have "spec_of s4 = spec_of s3" by (rule spec_eqI) (simp_all add: spec_of_simps i4(2), auto simp: s4_def has_flag_def)
  ultimately have sp: "spec_of s4 = spec_of s2" by simp
  obtain s5 where s5: "discardTransaction i s4 = Some s5" "watch_inv s5" "spec_of s5 = drop_tx i (spec_of s4)" "tx_repl s5 = tx_repl s4"
    using discard_eq [OF i4(1), of i] by blast
  have "repl_ok s5" using s2(4) i3(3) i4(3) s5(4) by (simp add: ready_def repl_ok_def)
  then obtain s6 where s6: "exec_finish (masterhost (tx_repl s) = None) s5 = Some s6" "tx_db s6 = tx_db s5" "tx_clients s6 = tx_clients s5" using feed_exec by blast
  have "exec_run A acl call i s = Some (s6\<lparr>in_exec := False\<rparr>)"
    using s1(1-3) s2(1) s5(1) s6(1) by (simp add: exec_run_def Let_def s3_def [symmetric] s4_def [symmetric])
  moreover have "spec_of (s6\<lparr>in_exec := False\<rparr>) = spec_of s5" "watch_inv (s6\<lparr>in_exec := False\<rparr>)"
    using spec_cong [of "s6\<lparr>in_exec := False\<rparr>" s5] s6(2,3) s5(2) by simp_all
  ultimately show ?thesis using s1(4) s2(2) s5(3) sp by force
qed

definition abort_text :: "bool \<Rightarrow> nat \<Rightarrow> bytes" where
  "abort_text failed resp = (if failed then ascii ''-EXECABORT Transaction discarded because of previous errors.''
     else if resp = 2 then ascii ''*-1'' else ascii ''_'') @ crlf"

lemma abort_reply:
  assumes "watch_inv s" "roomy TX_COST s" "modest A"
  shows "\<exists>s1 s'. (if has_flag (tx_clients s i) CLIENT_DIRTY_EXEC
        then reply (\<lambda>sv c. addReplyProto A sv c (ascii ''-EXECABORT Transaction discarded because of previous errors.'' @ crlf)) i s
        else reply (\<lambda>sv c. addReplyNullArray A sv c) i s) = Some s1 \<and> discardTransaction i s1 = Some s' \<and> watch_inv s' \<and> spec_of s' = drop_tx i (spec_of s) \<and>
    (\<forall>d. db_dict (tx_db s' d) = db_dict (tx_db s d)) \<and>
    (\<exists>u v. abort_text (broken (spec_of s) i) (c_resp (tx_clients s i)) = u @ v \<and> view (tx_clients s' i) = view (tx_clients s i) @ map Some u \<and> (accepts (tx_clients s' i) \<longrightarrow> v = []))"
proof -
  let ?t = "abort_text (broken (spec_of s) i) (c_resp (tx_clients s i))"
  have l: "grow (abort_text b q) \<le> TX_COST" for b q
    by (simp add: abort_text_def grow_def PROTO_REPLY_CHUNK_BYTES_def TX_COST_def ascii_def crlf_def)
  have "addReplyNullArray A sv c = add_all A sv c [abort_text False (c_resp c)]" for sv and c :: tx_client by (simp add: addReplyNullArray_def abort_text_def)
  then have e: "(if has_flag (tx_clients s i) CLIENT_DIRTY_EXEC
        then reply (\<lambda>sv c. addReplyProto A sv c (ascii ''-EXECABORT Transaction discarded because of previous errors.'' @ crlf)) i s
        else reply (\<lambda>sv c. addReplyNullArray A sv c) i s) = reply (\<lambda>sv c. add_all A sv c [?t]) i s"
    by (simp add: reply_def spec_of_simps abort_text_def)
  obtain s1 where s1: "reply (\<lambda>sv c. add_all A sv c [?t]) i s = Some s1" "replied i ?t TX_COST s s1"
    using reply_within [of "\<lambda>sv c. add_all A sv c [?t]" A "[?t]" s i] l assms(2,3) by auto
  note t = replied_tx [OF s1(2)]
  obtain u v where u: "?t = u @ v" "view (tx_clients s1 i) = view (tx_clients s i) @ map Some u" "accepts (tx_clients s1 i) \<longrightarrow> v = []"
  proof -
    obtain c where "s1 = upd_client i (\<lambda>_. c) s" "appends (tx_clients s i) ?t TX_COST c" using s1(2) unfolding replied_def by blast
    then show thesis using that unfolding appends_def by (metis fun_upd_same tx_clients_upd)
  qed
  obtain s' where s': "discardTransaction i s1 = Some s'" "watch_inv s'" "spec_of s' = drop_tx i (spec_of s1)" "\<forall>d. db_dict (tx_db s' d) = db_dict (tx_db s1 d)"
    "view (tx_clients s' i) = view (tx_clients s1 i)" "accepts (tx_clients s' i) = accepts (tx_clients s1 i)"
    using discard_eq [of s1 i] t(2) assms(1) by blast
  show ?thesis unfolding e using s1(1) s' t(1,3) u by auto
qed

text \<open>C9: EXEC is all or nothing. Outside a transaction it is an error that changes nothing. In a transaction it fails exactly when queueing
  a command had failed, when a watched key was changed (the state that the previous property tracks) or when one has expired:
  then no command of the queue runs, the data stay as they are, the client is told by an error or a null reply, and it leaves
  the transaction with its watches and its queue dropped. Otherwise the number of results is announced, every command of the
  queue runs exactly once and in order (or is refused by the permission check with an error in its place), and the client
  leaves the transaction as well.\<close>

theorem exec_all_or_nothing:
  assumes "watch_inv s" "db_ok s" "repl_ok s" "call_ok call i n" "modest A" "length (queued (spec_of s) i) < 2 ^ 63"
    "roomy (TX_COST + length (queued (spec_of s) i) * (n + TX_COST)) s"
  shows "\<exists>s'. execCommand A acl call i s = Some s' \<and> watch_inv s' \<and>
    (if \<not> multi (spec_of s) i then spec_of s' = spec_of s
     else if broken (spec_of s) i \<or> stale (spec_of s) i \<or> (\<exists>dk\<in>watched (spec_of s) i. expired_key s dk)
     then spec_of s' = drop_tx i (spec_of s) \<and> (\<forall>d. db_dict (tx_db s' d) = db_dict (tx_db s d)) \<and>
       (\<exists>u v. abort_text (broken (spec_of s) i) (c_resp (tx_clients s i)) = u @ v \<and> view (tx_clients s' i) = view (tx_clients s i) @ map Some u \<and> (accepts (tx_clients s' i) \<longrightarrow> v = []))
     else \<exists>s1 s2. exec_started i s s1 \<and> run_queue A acl call i 0 (queued (spec_of s) i) s1 = Some s2 \<and> spec_of s' = drop_tx i (spec_of s2))"
proof (cases "multi (spec_of s) i")
  case False
  have "roomy TX_COST s" by (rule roomy_mono [OF assms(7)]) simp
  from sim_error [OF assms(1) this assms(5), of "''EXEC without MULTI''" i] show ?thesis using False
    by (auto simp: execCommand_def simulates_def spec_of_simps)
next
  case True
  define e where "e = (\<exists>dk\<in>watched (spec_of s) i. expired_key s dk)"
  define sm where "sm = (if e then mark_dirty i s else s)"
  have m: "watch_inv sm" "spec_of sm = (spec_of s)\<lparr>stale := \<lambda>j. stale (spec_of s) j \<or> e \<and> j = i\<rparr>" "roomy q sm = roomy q s" "tx_db sm = tx_db s" for q
    using assms(1) by (simp_all add: sm_def mark_dirty_marked spec_of_marked)
  have v: "view (tx_clients sm i) = view (tx_clients s i)" "c_resp (tx_clients sm i) = c_resp (tx_clients s i)" by (simp_all add: sm_def mark_dirty_def set_flag_def view_def)
  have x: "execCommand A acl call i s =
    (if stale (spec_of sm) i \<or> broken (spec_of sm) i then do {
       s \<leftarrow> (if has_flag (tx_clients sm i) CLIENT_DIRTY_EXEC
             then reply (\<lambda>sv c. addReplyProto A sv c (ascii ''-EXECABORT Transaction discarded because of previous errors.'' @ crlf)) i sm
             else reply (\<lambda>sv c. addReplyNullArray A sv c) i sm);
       discardTransaction i s }
     else exec_run A acl call i sm)"
  proof -
    have "isWatchedKeyExpired i s = Some e" unfolding e_def by (rule isWatchedKeyExpired_eq [OF assms(2)])
    moreover have "has_flag (tx_clients sm i) (CLIENT_DIRTY_CAS OR CLIENT_DIRTY_EXEC) \<longleftrightarrow> stale (spec_of sm) i \<or> broken (spec_of sm) i"
      by (simp add: has_flag_or spec_of_simps)
    ultimately show ?thesis using True by (simp add: execCommand_def spec_of_simps(3) Let_def sm_def [symmetric])
  qed
  show ?thesis
  proof (cases "broken (spec_of s) i \<or> stale (spec_of s) i \<or> e")
    case bad: True
    have "roomy TX_COST sm" unfolding m(3) by (rule roomy_mono [OF assms(7)]) simp
    from abort_reply [OF m(1) this assms(5), of i] obtain s1 s' where a: "discardTransaction i s1 = Some s'" "watch_inv s'" "spec_of s' = drop_tx i (spec_of sm)"
      "(if has_flag (tx_clients sm i) CLIENT_DIRTY_EXEC
             then reply (\<lambda>sv c. addReplyProto A sv c (ascii ''-EXECABORT Transaction discarded because of previous errors.'' @ crlf)) i sm
             else reply (\<lambda>sv c. addReplyNullArray A sv c) i sm) = Some s1" "\<forall>d. db_dict (tx_db s' d) = db_dict (tx_db sm d)"
      "\<exists>u v. abort_text (broken (spec_of sm) i) (c_resp (tx_clients sm i)) = u @ v \<and> view (tx_clients s' i) = view (tx_clients sm i) @ map Some u \<and> (accepts (tx_clients s' i) \<longrightarrow> v = [])"
      by blast
    have "execCommand A acl call i s = Some s'" unfolding x a(4) using bad m(2) a(1) by auto
    moreover have "drop_tx i (spec_of sm) = drop_tx i (spec_of s)" using m(2) by (intro spec_eqI) (auto simp: drop_tx_def)
    ultimately show ?thesis using True bad a(2,3,5,6) m(2,4) v by (auto simp: e_def [symmetric])
  next
    case good: False
    then have sm: "sm = s" by (simp add: sm_def)
    have "execCommand A acl call i s = exec_run A acl call i s" unfolding x unfolding sm using good by simp
    then show ?thesis using True good exec_run_eq [OF assms(4,1,3) _ assms(5,6), of 0 acl] assms(7) by (auto simp: e_def [symmetric])
  qed
qed

definition example_call :: call_fun where
  "example_call full i s = Some (upd_client i (clear_flag CLIENT_BLOCKED) (set_key 0 [120] (Some int_example) s))"

definition example_cmd :: multiCmd where
  "example_cmd = \<lparr>mc_argv = [[120]], mc_cmd = \<lparr>cmd_proc = otherProc 1, cmd_flags = 1\<rparr>\<rparr>"

definition example_in_tx :: tx_server where
  "example_in_tx = upd_client 1 (\<lambda>c. set_flag CLIENT_MULTI (c\<lparr>c_mstate := \<lparr>ms_commands = [example_cmd], ms_cmd_flags = 1, ms_cmd_inv_flags = 0\<rparr>\<rparr>)) example_tx"

lemma example_call_ok: "call_ok example_call i 0"
  unfolding call_ok_def
proof (intro allI impI)
  fix full s m
  assume s: "watch_inv s" "ready i s" "roomy (0 + m) s"
  define s0 where "s0 = set_key 0 [120] (Some int_example) s"
  note d = data_inv [OF data_ops(1) [of s 0 "[120]" "Some int_example"], folded s0_def]
  have "\<not> has_flag (clear_flag CLIENT_BLOCKED c) CLIENT_BLOCKED" for c :: tx_client
    unfolding tx_flag_bits unfolding CLIENT_BLOCKED_def bit_clear_flag by (simp add: flag_mask_bit del: push_bit_of_1)
  moreover have "watch_inv (upd_client i (clear_flag CLIENT_BLOCKED) s0)" "roomy m (upd_client i (clear_flag CLIENT_BLOCKED) s0)"
    using upd_inv(1) [of "clear_flag CLIENT_BLOCKED" s0 i] upd_roomy [of "clear_flag CLIENT_BLOCKED" s0 i] d(1,4) s by simp_all
  moreover have "queued (spec_of (upd_client i (clear_flag CLIENT_BLOCKED) s0)) i = queued (spec_of s) i" by (simp add: spec_of_simps s0_def set_key_def)
  moreover have "has_flag (clear_flag CLIENT_BLOCKED c) CLIENT_DENY_BLOCKING = has_flag c CLIENT_DENY_BLOCKING" for c :: tx_client
    unfolding tx_flag_bits unfolding CLIENT_BLOCKED_def bit_clear_flag by (simp add: flag_mask_bit del: push_bit_of_1)
  then have "ready i (upd_client i (clear_flag CLIENT_BLOCKED) s0)" using s(2) by (simp add: ready_def repl_ok_def s0_def set_key_def)
  ultimately show "\<exists>s'. example_call full i s = Some s' \<and> watch_inv s' \<and> ready i s' \<and> roomy m s' \<and> queued (spec_of s') i = queued (spec_of s) i \<and>
    \<not> has_flag (tx_clients s' i) CLIENT_BLOCKED"
    by (simp add: example_call_def s0_def [symmetric])
qed

theorem exec_all_or_nothing_witness:
  "\<exists>s' s1 s2. execCommand plain_allocator (\<lambda>i s. ACL_OK) example_call 1 example_in_tx = Some s' \<and>
     run_queue plain_allocator (\<lambda>i s. ACL_OK) example_call 1 0 [example_cmd] s1 = Some s2 \<and> spec_of s' = drop_tx 1 (spec_of s2)"
proof -
  let ?f = "\<lambda>c :: tx_client. set_flag CLIENT_MULTI (c\<lparr>c_mstate := \<lparr>ms_commands = [example_cmd], ms_cmd_flags = 1, ms_cmd_inv_flags = 0\<rparr>\<rparr>)"
  have inv: "watch_inv example_in_tx" "keys example_in_tx = keys example_tx" using upd_inv [of ?f example_tx 1] example_tx_inv by (simp_all add: example_in_tx_def)
  have ok: "db_ok example_in_tx" "repl_ok example_in_tx" using example_holds by (auto simp: db_ok_def repl_ok_def example_in_tx_def example_tx_def upd_client_def)
  have q: "queued (spec_of example_in_tx) 1 = [example_cmd]" by (simp add: spec_of_simps example_in_tx_def)
  have r: "roomy (TX_COST + length (queued (spec_of example_in_tx) 1) * (0 + TX_COST)) example_in_tx"
    unfolding q unfolding example_in_tx_def by (subst upd_roomy) (simp_all add: example_tx_roomy TX_COST_def)
  have w: "keys example_tx i = []" for i by (simp add: keys_def example_tx_def example_tx_client_def client.defs tx_client.defs)
  have z: "c_flags (tx_clients example_tx i) = 0" for i by (simp add: example_tx_def example_tx_client_def client.defs tx_client.defs example_client_def)
  have m: "multi (spec_of example_in_tx) 1" "\<not> broken (spec_of example_in_tx) 1" "\<not> stale (spec_of example_in_tx) 1" "watched (spec_of example_in_tx) 1 = {}"
    by (simp_all add: spec_of_simps tx_flag_bits inv(2) w, simp_all add: example_in_tx_def tx_set_bits z)
  have "modest plain_allocator" by (simp add: modest_def plain_allocator_def)
  from exec_all_or_nothing [OF inv(1) ok example_call_ok this _ r, of "\<lambda>i s. ACL_OK"] show ?thesis using m q by auto
qed

end
