(* ===== verification/Request_Buffer.thy ===== *)
theory Request_Buffer
  imports Multi_Exec
begin

text \<open>
  The input side of a client, \<^verbatim>\<open>networking.c\<close>: reading from the socket into the query buffer, the parsers of inline and
  multi bulk requests, the loop that runs the complete requests of the buffer, and the offsets of the replication stream
  when the client is the master.

  A client has the fields of \<open>Reply_Buffer\<close> and those of the request being read. The query buffer is an sds, with a
  position up to which it has been consumed. Running a command and a Gopher request are parameters, and so is the answer of
  the socket to a read. Logging and the statistics are left out. \<^verbatim>\<open>server.clients_pending_read\<close> holds the clients with the flag
  \<^verbatim>\<open>CLIENT_PENDING_READ\<close>. The operations give \<open>None\<close> for a failed assertion or an access out of bounds.
\<close>

unbundle bit_operations_syntax

section \<open>State\<close>

definition CLIENT_ASKING :: u64 where "CLIENT_ASKING = push_bit 9 1"
definition CLIENT_REPLY_SKIP_NEXT :: u64 where "CLIENT_REPLY_SKIP_NEXT = push_bit 23 1"
definition CLIENT_PENDING_COMMAND :: u64 where "CLIENT_PENDING_COMMAND = push_bit 30 1"
definition CLIENT_TRACKING_CACHING :: u64 where "CLIENT_TRACKING_CACHING = push_bit 36 1"
definition CLIENT_PROTOCOL_ERROR :: u64 where "CLIENT_PROTOCOL_ERROR = push_bit 39 1"
definition PROTO_IOBUF_LEN :: nat where "PROTO_IOBUF_LEN = 1024 * 16"
definition PROTO_INLINE_MAX_SIZE :: nat where "PROTO_INLINE_MAX_SIZE = 1024 * 64"
definition PROTO_MBULK_BIG_ARG :: int where "PROTO_MBULK_BIG_ARG = 1024 * 32"

datatype req_type = No_request | PROTO_REQ_INLINE | PROTO_REQ_MULTIBULK

text \<open>The array of the arguments has room for \<open>q_argv_alloc\<close> of them. Of the command only whether it is one of the two
  that \<^verbatim>\<open>resetClient\<close> asks for is visible here.\<close>

datatype last_cmd = askingCommand | clientCommand | another_command

record in_client = client +
  q_querybuf :: sds
  q_pos :: nat
  q_peak :: nat
  q_pending_querybuf :: sds
  q_reqtype :: req_type
  q_multibulklen :: int
  q_bulklen :: int
  q_argv :: "robj list"
  q_argv_alloc :: nat
  q_argv_len_sum :: nat
  q_cmd :: "last_cmd option"
  q_deferred_reply_errors :: "bytes list option"
  q_authenticated :: bool
  q_reploff :: int
  q_read_reploff :: int
  q_repl_ack_time :: int

text \<open>The data the commands work on is of an arbitrary type.\<close>

record 'd in_server =
  in_repl :: repl_server
  in_data :: 'd
  proto_max_bulk_len :: int
  client_max_querybuf_len :: nat
  gopher_enabled :: bool
  io_threads_active :: bool
  io_threads_do_reads :: bool
  events_while_blocked :: bool
  lua_timedout :: bool
  default_user_nopass :: bool
  default_user_disabled :: bool

abbreviation in_net :: "'d in_server \<Rightarrow> net_server" where
  "in_net s \<equiv> repl_net (in_repl s)"

text \<open>\<open>processCommand\<close> gives whether it returned \<^verbatim>\<open>C_OK\<close> and whether the client is gone, \<^verbatim>\<open>server.current_client == NULL\<close>.\<close>

record 'd handlers =
  processCommand :: "'d in_server \<Rightarrow> in_client \<Rightarrow> (bool \<times> bool \<times> 'd in_server \<times> in_client) option"
  processGopherRequest :: "in_client \<Rightarrow> in_client option"

section \<open>Helpers\<close>

text \<open>The distance to the first occurrence of a character in a C string; the inner \<open>None\<close> is \<^verbatim>\<open>NULL\<close>.\<close>

fun strchr :: "bytes \<Rightarrow> byte \<Rightarrow> nat option option" where
  "strchr [] ch = None"
| "strchr (x # xs) ch =
     (if x = ch then Some (Some 0) else if x = 0 then Some None else map_option (map_option Suc) (strchr xs ch))"

definition authRequired :: "'d in_server \<Rightarrow> in_client \<Rightarrow> bool" where
  "authRequired s c \<longleftrightarrow> (\<not> default_user_nopass s \<or> default_user_disabled s) \<and> \<not> q_authenticated c"

definition freeClientArgv :: "in_client \<Rightarrow> in_client option" where
  "freeClientArgv c = do {
     _ \<leftarrow> those (map decrRefCount (q_argv c));
     Some (c\<lparr>q_argv := [], q_cmd := None, q_argv_len_sum := 0\<rparr>) }"

definition resetClient :: "in_client \<Rightarrow> in_client option" where
  "resetClient c = do {
     let prevcmd = q_cmd c;
     c \<leftarrow> freeClientArgv c;
     let c = c\<lparr>q_reqtype := No_request, q_multibulklen := 0, q_bulklen := - 1, q_deferred_reply_errors := None\<rparr>;
     let c = (if \<not> has_flag c CLIENT_MULTI \<and> prevcmd \<noteq> Some askingCommand then clear_flag CLIENT_ASKING c else c);
     let c = (if \<not> has_flag c CLIENT_MULTI \<and> prevcmd \<noteq> Some clientCommand then clear_flag CLIENT_TRACKING_CACHING c else c);
     let c = clear_flag CLIENT_REPLY_SKIP c;
     Some (if has_flag c CLIENT_REPLY_SKIP_NEXT then clear_flag CLIENT_REPLY_SKIP_NEXT (set_flag CLIENT_REPLY_SKIP c) else c) }"

definition setProtocolError :: "in_client \<Rightarrow> in_client" where
  "setProtocolError c = set_flag (CLIENT_CLOSE_AFTER_REPLY OR CLIENT_PROTOCOL_ERROR) c"

text \<open>An error reply followed by \<^verbatim>\<open>setProtocolError\<close>.\<close>

definition reject :: "allocator \<Rightarrow> 'd in_server \<Rightarrow> bytes \<Rightarrow> in_client \<Rightarrow> in_client option" where
  "reject A s msg c = do { c \<leftarrow> addReplyErrorLength A (in_net s) c msg; Some (setProtocolError c) }"

section \<open>Inline requests\<close>

text \<open>An object is made of every argument.\<close>

definition set_inline_argv :: "sds list \<Rightarrow> in_client \<Rightarrow> in_client" where
  "set_inline_argv argv c =
     (let c = (if argv \<noteq> [] then c\<lparr>q_argv_alloc := length argv, q_argv_len_sum := 0\<rparr> else c)
      in c\<lparr>q_argv := map (\<lambda>a. createObject (Ptr_sds a)) argv, q_argv_len_sum := q_argv_len_sum c + sum_list (map sdslen argv)\<rparr>)"

text \<open>A line that ends after \<open>n\<close> characters, with or without a carriage return before its end. The result is whether the
  function returns \<^verbatim>\<open>C_OK\<close>.\<close>

definition inline_words :: "allocator \<Rightarrow> 'd in_server \<Rightarrow> nat \<Rightarrow> nat \<Rightarrow> in_client \<Rightarrow> (bool \<times> in_client) option" where
  "inline_words A s querylen linefeed_chars c = do {
     aux \<leftarrow> sdsnewlen A (Init (drop (q_pos c) (sds_buf (q_querybuf c)))) querylen;
     argv \<leftarrow> sdssplitargs A (sds_buf aux);
     (case argv of
        None \<Rightarrow> do { c \<leftarrow> reject A s (ascii ''Protocol error: unbalanced quotes in request'') c; Some (False, c) }
      | Some argv \<Rightarrow> do {
          let c = (if querylen = 0 \<and> getClientType c = CLIENT_TYPE_SLAVE then c\<lparr>q_repl_ack_time := net_unixtime (in_net s)\<rparr> else c);
          if querylen \<noteq> 0 \<and> has_flag c CLIENT_MASTER then Some (False, setProtocolError c)
          else Some (True, set_inline_argv argv (c\<lparr>q_pos := q_pos c + (querylen + linefeed_chars)\<rparr>)) }) }"

definition inline_line :: "allocator \<Rightarrow> 'd in_server \<Rightarrow> nat \<Rightarrow> in_client \<Rightarrow> (bool \<times> in_client) option" where
  "inline_line A s n c =
     (if n \<noteq> 0 \<and> drop (q_pos c) (sds_buf (q_querybuf c)) ! (n - 1) = 13 then inline_words A s (n - 1) 2 c else inline_words A s n 1 c)"

definition processInlineBuffer :: "allocator \<Rightarrow> 'd in_server \<Rightarrow> in_client \<Rightarrow> (bool \<times> in_client) option" where
  "processInlineBuffer A s c = do {
     newline \<leftarrow> strchr (drop (q_pos c) (sds_buf (q_querybuf c))) 10;
     (case newline of
        None \<Rightarrow>
          if PROTO_INLINE_MAX_SIZE < sdslen (q_querybuf c) - q_pos c
          then do { c \<leftarrow> reject A s (ascii ''Protocol error: too big inline request'') c; Some (False, c) }
          else Some (False, c)
      | Some n \<Rightarrow> inline_line A s n c) }"

section \<open>Multi bulk requests\<close>

text \<open>How a part of a function ends: it goes on, leaves the loop, or returns \<^verbatim>\<open>C_OK\<close> or \<^verbatim>\<open>C_ERR\<close>.\<close>

datatype ctl = Go | Break | Return bool

text \<open>The line with the number of arguments, which ends after \<open>n\<close> characters, and the search for its end.\<close>

definition accept_mbulk :: "nat \<Rightarrow> int \<Rightarrow> in_client \<Rightarrow> ctl \<times> in_client" where
  "accept_mbulk n ll c =
     (let c = c\<lparr>q_pos := q_pos c + n + 2\<rparr>
      in if ll \<le> 0 then (Return True, c)
         else (Go, c\<lparr>q_multibulklen := ll, q_argv_alloc := nat ll, q_argv_len_sum := 0\<rparr>))"

definition mbulk_line :: "allocator \<Rightarrow> 'd in_server \<Rightarrow> nat \<Rightarrow> in_client \<Rightarrow> (ctl \<times> in_client) option" where
  "mbulk_line A s n c = do {
     let text = drop (q_pos c) (sds_buf (q_querybuf c));
     _ \<leftarrow> assert_opt (n \<noteq> 0 \<and> text ! 0 = 42);
     (case string2ll (take (n - 1) (drop 1 text)) of
        None \<Rightarrow> do { c \<leftarrow> reject A s (ascii ''Protocol error: invalid multibulk length'') c; Some (Return False, c) }
      | Some ll \<Rightarrow>
          if sint ll > 1024 * 1024 then do {
            c \<leftarrow> reject A s (ascii ''Protocol error: invalid multibulk length'') c; Some (Return False, c) }
          else if sint ll > 10 \<and> authRequired s c then do {
            c \<leftarrow> reject A s (ascii ''Protocol error: unauthenticated multibulk length'') c; Some (Return False, c) }
          else Some (accept_mbulk n (sint ll) c)) }"

definition mbulk_header :: "allocator \<Rightarrow> 'd in_server \<Rightarrow> in_client \<Rightarrow> (ctl \<times> in_client) option" where
  "mbulk_header A s c = do {
     _ \<leftarrow> assert_opt (q_argv c = []);
     let left = sdslen (q_querybuf c) - q_pos c;
     newline \<leftarrow> strchr (drop (q_pos c) (sds_buf (q_querybuf c))) 13;
     (case newline of
        None \<Rightarrow>
          if PROTO_INLINE_MAX_SIZE < left
          then do { c \<leftarrow> reject A s (ascii ''Protocol error: too big mbulk count string'') c; Some (Return False, c) }
          else Some (Return False, c)
      | Some n \<Rightarrow> if int n > int left - 2 then Some (Return False, c) else mbulk_line A s n c) }"

text \<open>The formatted message, in which line ends become blanks.\<close>

definition expected_dollar :: "byte \<Rightarrow> bytes" where
  "expected_dollar got =
     map (\<lambda>ch. if ch = 13 \<or> ch = 10 then 32 else ch)
       (ascii ''Protocol error: expected '' @ [39, 36, 39] @ ascii '', got '' @ [39, got, 39])"

text \<open>The line with the length of an argument. A large argument that has not arrived yet gets a buffer of its own.\<close>

definition accept_bulk :: "allocator \<Rightarrow> nat \<Rightarrow> int \<Rightarrow> in_client \<Rightarrow> (ctl \<times> in_client) option" where
  "accept_bulk A n ll c = do {
     let c = c\<lparr>q_pos := q_pos c + n + 2\<rparr>;
     c \<leftarrow> (if ll \<ge> PROTO_MBULK_BIG_ARG \<and> int (sdslen (q_querybuf c) - q_pos c) \<le> ll + 2
           then do {
             b \<leftarrow> sdsrange (q_querybuf c) (int (q_pos c)) (- 1);
             b \<leftarrow> sdsMakeRoomFor A b (nat (ll + 2 - int (sdslen b)));
             Some (c\<lparr>q_querybuf := b, q_pos := 0\<rparr>) }
           else Some c);
     Some (Go, c\<lparr>q_bulklen := ll\<rparr>) }"

definition bulk_line :: "allocator \<Rightarrow> 'd in_server \<Rightarrow> nat \<Rightarrow> in_client \<Rightarrow> (ctl \<times> in_client) option" where
  "bulk_line A s n c =
     (let text = drop (q_pos c) (sds_buf (q_querybuf c))
      in if text ! 0 \<noteq> 36 then do { c \<leftarrow> reject A s (expected_dollar (text ! 0)) c; Some (Return False, c) }
         else (case string2ll (take (n - 1) (drop 1 text)) of
             None \<Rightarrow> do { c \<leftarrow> reject A s (ascii ''Protocol error: invalid bulk length'') c; Some (Return False, c) }
           | Some ll \<Rightarrow>
               if sint ll < 0 \<or> \<not> has_flag c CLIENT_MASTER \<and> sint ll > proto_max_bulk_len s then do {
                 c \<leftarrow> reject A s (ascii ''Protocol error: invalid bulk length'') c; Some (Return False, c) }
               else if sint ll > 16384 \<and> authRequired s c then do {
                 c \<leftarrow> reject A s (ascii ''Protocol error: unauthenticated bulk length'') c; Some (Return False, c) }
               else accept_bulk A n (sint ll) c))"

definition bulk_header :: "allocator \<Rightarrow> 'd in_server \<Rightarrow> in_client \<Rightarrow> (ctl \<times> in_client) option" where
  "bulk_header A s c = do {
     let left = sdslen (q_querybuf c) - q_pos c;
     newline \<leftarrow> strchr (drop (q_pos c) (sds_buf (q_querybuf c))) 13;
     (case newline of
        None \<Rightarrow>
          if PROTO_INLINE_MAX_SIZE < left
          then do { c \<leftarrow> reject A s (ascii ''Protocol error: too big bulk count string'') c; Some (Return False, c) }
          else Some (Break, c)
      | Some n \<Rightarrow> if int n > int left - 2 then Some (Break, c) else bulk_line A s n c) }"

text \<open>The argument itself. A query buffer that holds nothing else becomes the argument, and a new one replaces it.\<close>

definition take_bulk :: "allocator \<Rightarrow> in_client \<Rightarrow> in_client option" where
  "take_bulk A c =
     (if q_pos c = 0 \<and> q_bulklen c \<ge> PROTO_MBULK_BIG_ARG \<and> int (sdslen (q_querybuf c)) = q_bulklen c + 2
      then do {
        b \<leftarrow> sdsIncrLen (q_querybuf c) (- 2);
        nb \<leftarrow> sdsnewlen A SDS_NOINIT (nat (q_bulklen c + 2));
        nb \<leftarrow> sdsclear nb;
        Some (c\<lparr>q_argv := q_argv c @ [createObject (Ptr_sds b)], q_argv_len_sum := q_argv_len_sum c + nat (q_bulklen c),
                q_querybuf := nb\<rparr>) }
      else do {
        ob \<leftarrow> createStringObject A (Init (drop (q_pos c) (sds_buf (q_querybuf c)))) (nat (q_bulklen c));
        Some (c\<lparr>q_argv := q_argv c @ [ob], q_argv_len_sum := q_argv_len_sum c + nat (q_bulklen c),
                q_pos := q_pos c + nat (q_bulklen c) + 2\<rparr>) })"

definition bulk_arg :: "allocator \<Rightarrow> in_client \<Rightarrow> (ctl \<times> in_client) option" where
  "bulk_arg A c =
     (if int (sdslen (q_querybuf c) - q_pos c) < q_bulklen c + 2 then Some (Break, c)
      else do {
        _ \<leftarrow> assert_opt (length (q_argv c) < q_argv_alloc c);
        c \<leftarrow> take_bulk A c;
        Some (Go, c\<lparr>q_bulklen := - 1, q_multibulklen := q_multibulklen c - 1\<rparr>) })"

definition bulk_step :: "allocator \<Rightarrow> 'd in_server \<Rightarrow> in_client \<Rightarrow> (ctl \<times> in_client) option" where
  "bulk_step A s c = do {
     (k, c) \<leftarrow> (if q_bulklen c = - 1 then bulk_header A s c else Some (Go, c));
     if k = Go then bulk_arg A c else Some (k, c) }"

fun bulk_loop :: "nat \<Rightarrow> allocator \<Rightarrow> 'd in_server \<Rightarrow> in_client \<Rightarrow> (ctl \<times> in_client) option" where
  "bulk_loop fuel A s c =
     (if q_multibulklen c = 0 then Some (Break, c)
      else (case fuel of
          0 \<Rightarrow> None
        | Suc fuel \<Rightarrow> do {
            (k, c) \<leftarrow> bulk_step A s c;
            if k = Go then bulk_loop fuel A s c else Some (k, c) }))"

declare bulk_loop.simps [simp del]

definition processMultibulkBuffer :: "allocator \<Rightarrow> 'd in_server \<Rightarrow> in_client \<Rightarrow> (bool \<times> in_client) option" where
  "processMultibulkBuffer A s c = do {
     (k, c) \<leftarrow> (if q_multibulklen c = 0 then mbulk_header A s c else Some (Go, c));
     (k, c) \<leftarrow> (if k = Go then do {
                  _ \<leftarrow> assert_opt (0 < q_multibulklen c);
                  bulk_loop (nat (q_multibulklen c)) A s c }
                else Some (k, c));
     Some (case k of Return ok \<Rightarrow> ok | _ \<Rightarrow> q_multibulklen c = 0, c) }"

section \<open>Running the requests\<close>

text \<open>The applied part of the stream of a master goes to the replicas and to the backlog.\<close>

definition commandProcessed :: "allocator \<Rightarrow> 'd in_server \<Rightarrow> in_client \<Rightarrow> ('d in_server \<times> in_client) option" where
  "commandProcessed A s c =
     (if has_flag c CLIENT_BLOCKED then Some (s, c)
      else do {
        c \<leftarrow> resetClient c;
        let prev_offset = q_reploff c;
        let c = (if has_flag c CLIENT_MASTER \<and> \<not> has_flag c CLIENT_MULTI
                 then c\<lparr>q_reploff := q_read_reploff c - int (sdslen (q_querybuf c)) + int (q_pos c)\<rparr> else c);
        if has_flag c CLIENT_MASTER then do {
          let applied = q_reploff c - prev_offset;
          if applied \<noteq> 0 then do {
            _ \<leftarrow> assert_opt (0 \<le> applied);
            p \<leftarrow> mem_read (sds_buf (q_pending_querybuf c)) 0 (nat applied);
            r \<leftarrow> replicationFeedSlavesFromMasterStream A (in_repl s) p;
            b \<leftarrow> sdsrange (q_pending_querybuf c) applied (- 1);
            Some (s\<lparr>in_repl := r\<rparr>, c\<lparr>q_pending_querybuf := b\<rparr>) }
          else Some (s, c) }
        else Some (s, c) })"

text \<open>The result says whether the client is still there.\<close>

definition processCommandAndResetClient ::
    "allocator \<Rightarrow> 'd handlers \<Rightarrow> 'd in_server \<Rightarrow> in_client \<Rightarrow> (bool \<times> 'd in_server \<times> in_client) option" where
  "processCommandAndResetClient A H s c = do {
     (ok, dead, s, c) \<leftarrow> processCommand H s c;
     (s, c) \<leftarrow> (if ok then commandProcessed A s c else Some (s, c));
     Some (\<not> dead, s, c) }"

definition processPendingCommandsAndResetClient ::
    "allocator \<Rightarrow> 'd handlers \<Rightarrow> 'd in_server \<Rightarrow> in_client \<Rightarrow> (bool \<times> 'd in_server \<times> in_client) option" where
  "processPendingCommandsAndResetClient A H s c =
     (if has_flag c CLIENT_PENDING_COMMAND
      then processCommandAndResetClient A H s (clear_flag CLIENT_PENDING_COMMAND c)
      else Some (True, s, c))"

text \<open>The conditions to leave the loop at once.\<close>

definition input_blocked :: "'d in_server \<Rightarrow> in_client \<Rightarrow> bool" where
  "input_blocked s c \<longleftrightarrow> has_flag c CLIENT_BLOCKED \<or> has_flag c CLIENT_PENDING_COMMAND \<or>
     lua_timedout s \<and> has_flag c CLIENT_MASTER \<or> has_flag c (CLIENT_CLOSE_AFTER_REPLY OR CLIENT_CLOSE_ASAP)"

definition gopher_request :: "'d in_server \<Rightarrow> in_client \<Rightarrow> bool option" where
  "gopher_request s c =
     (if gopher_enabled s \<and> \<not> io_threads_do_reads s then
        (case q_argv c of
           [] \<Rightarrow> Some True
         | [a] \<Rightarrow> do { t \<leftarrow> get_sds a; ch \<leftarrow> mem_get (sds_buf t) 0; Some (ch = 47) }
         | _ \<Rightarrow> Some False)
      else Some False)"

text \<open>Reading one request.\<close>

definition parse_request :: "allocator \<Rightarrow> 'd handlers \<Rightarrow> 'd in_server \<Rightarrow> in_client \<Rightarrow> (ctl \<times> in_client) option" where
  "parse_request A H s c = do {
     ch \<leftarrow> mem_get (sds_buf (q_querybuf c)) (q_pos c);
     let c = (if q_reqtype c = No_request
              then c\<lparr>q_reqtype := (if ch = 42 then PROTO_REQ_MULTIBULK else PROTO_REQ_INLINE)\<rparr> else c);
     if q_reqtype c = PROTO_REQ_INLINE then do {
       (ok, c) \<leftarrow> processInlineBuffer A s c;
       if \<not> ok then Some (Break, c)
       else do {
         gopher \<leftarrow> gopher_request s c;
         if gopher then do {
           c \<leftarrow> processGopherRequest H c;
           c \<leftarrow> resetClient c;
           Some (Break, set_flag CLIENT_CLOSE_AFTER_REPLY c) }
         else Some (Go, c) } }
     else do {
       (ok, c) \<leftarrow> processMultibulkBuffer A s c;
       Some (if ok then Go else Break, c) } }"

text \<open>Running it, unless it is empty or belongs to a thread for input.\<close>

definition run_request ::
    "allocator \<Rightarrow> 'd handlers \<Rightarrow> 'd in_server \<Rightarrow> in_client \<Rightarrow> (ctl \<times> 'd in_server \<times> in_client) option" where
  "run_request A H s c =
     (if q_argv c = [] then do { c \<leftarrow> resetClient c; Some (Go, s, c) }
      else if has_flag c CLIENT_PENDING_READ then Some (Break, s, set_flag CLIENT_PENDING_COMMAND c)
      else do {
        (alive, s, c) \<leftarrow> processCommandAndResetClient A H s c;
        Some (if alive then Go else Return False, s, c) })"

text \<open>How the loop ends when the commands put more into the buffer is up to them, so that it may not end at all.\<close>

partial_function (option) input_loop ::
    "allocator \<Rightarrow> 'd handlers \<Rightarrow> 'd in_server \<Rightarrow> in_client \<Rightarrow> (ctl \<times> 'd in_server \<times> in_client) option" where
  "input_loop A H s c =
     (if \<not> q_pos c < sdslen (q_querybuf c) \<or> input_blocked s c then Some (Break, s, c)
      else Option.bind (parse_request A H s c) (\<lambda>(k, c).
        if k \<noteq> Go then Some (k, s, c)
        else Option.bind (run_request A H s c) (\<lambda>(k, s, c).
          if k \<noteq> Go then Some (k, s, c) else input_loop A H s c)))"

definition processInputBuffer :: "allocator \<Rightarrow> 'd handlers \<Rightarrow> 'd in_server \<Rightarrow> in_client \<Rightarrow> ('d in_server \<times> in_client) option" where
  "processInputBuffer A H s c = do {
     (k, s, c) \<leftarrow> input_loop A H s c;
     if k \<noteq> Break then Some (s, c)
     else if q_pos c \<noteq> 0 then do {
       b \<leftarrow> sdsrange (q_querybuf c) (int (q_pos c)) (- 1);
       Some (s, c\<lparr>q_querybuf := b, q_pos := 0\<rparr>) }
     else Some (s, c) }"

section \<open>Reading\<close>

text \<open>The answers of \<^verbatim>\<open>connRead\<close>: -1 with the connection alive, -1 with the connection broken, 0, or bytes.\<close>

datatype read_result = Read_again | Read_failed | Read_eof | Read_data bytes

definition postponeClientRead :: "'d in_server \<Rightarrow> in_client \<Rightarrow> bool \<times> in_client" where
  "postponeClientRead s c =
     (if io_threads_active s \<and> io_threads_do_reads s \<and> \<not> events_while_blocked s \<and>
         \<not> has_flag c (CLIENT_MASTER OR CLIENT_SLAVE OR CLIENT_PENDING_READ OR CLIENT_BLOCKED)
      then (True, set_flag CLIENT_PENDING_READ c) else (False, c))"

definition read_length :: "in_client \<Rightarrow> nat" where
  "read_length c =
     (let readlen = PROTO_IOBUF_LEN
      in if q_reqtype c = PROTO_REQ_MULTIBULK \<and> q_multibulklen c \<noteq> 0 \<and> q_bulklen c \<noteq> - 1 \<and> q_bulklen c \<ge> PROTO_MBULK_BIG_ARG
         then (let remaining = q_bulklen c + 2 - int (sdslen (q_querybuf c))
               in if 0 < remaining \<and> remaining < int readlen then nat remaining else readlen)
         else readlen)"

definition prepare_read :: "allocator \<Rightarrow> nat \<Rightarrow> in_client \<Rightarrow> in_client option" where
  "prepare_read A readlen c = do {
     let qblen = sdslen (q_querybuf c);
     let c = (if q_peak c < qblen then c\<lparr>q_peak := qblen\<rparr> else c);
     b \<leftarrow> sdsMakeRoomFor A (q_querybuf c) readlen;
     Some (c\<lparr>q_querybuf := b\<rparr>) }"

text \<open>The bytes that were read stand behind the text of the query buffer.\<close>

definition receive :: "allocator \<Rightarrow> 'd in_server \<Rightarrow> bytes \<Rightarrow> in_client \<Rightarrow> in_client option" where
  "receive A s bs c = do {
     b \<leftarrow> buf_write (q_querybuf c) (sdslen (q_querybuf c)) bs;
     c \<leftarrow> (if has_flag c CLIENT_MASTER then do {
             p \<leftarrow> sdscatlen A (q_pending_querybuf c) bs;
             Some (c\<lparr>q_pending_querybuf := p\<rparr>) }
           else Some c);
     b \<leftarrow> sdsIncrLen b (int (length bs));
     let c = c\<lparr>q_querybuf := b, c_lastinteraction := net_unixtime (in_net s)\<rparr>;
     Some (if has_flag c CLIENT_MASTER then c\<lparr>q_read_reploff := q_read_reploff c + int (length bs)\<rparr> else c) }"

definition readQueryFromClient ::
    "allocator \<Rightarrow> 'd handlers \<Rightarrow> (nat \<Rightarrow> read_result) \<Rightarrow> 'd in_server \<Rightarrow> in_client \<Rightarrow> ('d in_server \<times> in_client) option" where
  "readQueryFromClient A H connRead s c =
     (case postponeClientRead s c of
        (True, c) \<Rightarrow> Some (s, c)
      | (False, c) \<Rightarrow> do {
          let readlen = read_length c;
          c \<leftarrow> prepare_read A readlen c;
          (case connRead readlen of
             Read_again \<Rightarrow> Some (s, c)
           | Read_failed \<Rightarrow> Some (s, freeClientAsync c)
           | Read_eof \<Rightarrow> Some (s, freeClientAsync c)
           | Read_data bs \<Rightarrow> do {
               _ \<leftarrow> assert_opt (bs \<noteq> [] \<and> length bs \<le> readlen);
               c \<leftarrow> receive A s bs c;
               if client_max_querybuf_len s < sdslen (q_querybuf c) then Some (s, freeClientAsync c)
               else processInputBuffer A H s c }) })"

end
