(* ===== verification/Request_Spec.thy ===== *)
theory Request_Spec
  imports Request_Buffer
begin

text \<open>
  What a stream of bytes means as a sequence of requests: the protocol as a function of all the bytes received, with no
  buffers and no state between reads. The lemmas say how it behaves when more bytes arrive.
\<close>

section \<open>The protocol\<close>

text \<open>The settings of the server that matter. The limits of masters are off.\<close>

record limits =
  lim_bulk :: int
  lim_auth :: bool
  lim_master :: bool

text \<open>The position of a character before any zero byte.\<close>

definition line_end :: "bytes \<Rightarrow> byte \<Rightarrow> nat option" where
  "line_end R ch =
     (let n = length (takeWhile (\<lambda>x. x \<noteq> ch \<and> x \<noteq> 0) R) in if n < length R \<and> R ! n = ch then Some n else None)"

text \<open>A line that is incomplete, too long to say whether it will be accepted, or complete, with what follows.\<close>

datatype line = Open_line | Long_line | Line bytes bytes

definition header :: "bytes \<Rightarrow> line" where
  "header R =
     (case line_end R 13 of
        None \<Rightarrow> if PROTO_INLINE_MAX_SIZE < length R then Long_line else Open_line
      | Some n \<Rightarrow> if PROTO_INLINE_MAX_SIZE < n then Long_line
                  else if n + 2 \<le> length R then Line (take n R) (drop (n + 2) R) else Open_line)"

definition inline_header :: "bytes \<Rightarrow> line" where
  "inline_header R =
     (case line_end R 10 of
        None \<Rightarrow> if PROTO_INLINE_MAX_SIZE < length R then Long_line else Open_line
      | Some n \<Rightarrow> if PROTO_INLINE_MAX_SIZE < n then Long_line
                  else Line (take (if n \<noteq> 0 \<and> R ! (n - 1) = 13 then n - 1 else n) R) (drop (n + 1) R))"

text \<open>A request that is incomplete, wrong, not determined by the bytes alone, or complete, with what follows.\<close>

datatype parsed = More | Bad | Huge | Ready "bytes list" bytes

fun prepend :: "bytes list \<Rightarrow> parsed \<Rightarrow> parsed" where
  "prepend as (Ready bs R) = Ready (as @ bs) R"
| "prepend as r = r"

definition bulk_size :: "limits \<Rightarrow> bytes \<Rightarrow> int option" where
  "bulk_size L h =
     (if h = [] \<or> hd h \<noteq> 36 then None
      else (case string2ll (tl h) of
          None \<Rightarrow> None
        | Some ll \<Rightarrow> if sint ll < 0 \<or> \<not> lim_master L \<and> lim_bulk L < sint ll \<or> 16384 < sint ll \<and> lim_auth L then None
                     else Some (sint ll)))"

fun bulks :: "limits \<Rightarrow> nat \<Rightarrow> bytes \<Rightarrow> parsed" where
  "bulks L 0 R = Ready [] R"
| "bulks L (Suc n) R =
     (case header R of
        Open_line \<Rightarrow> More
      | Long_line \<Rightarrow> Huge
      | Line h R \<Rightarrow>
          (case bulk_size L h of
             None \<Rightarrow> Bad
           | Some l \<Rightarrow> if 2 ^ 62 < l then Huge
                       else if length R < nat l + 2 then More
                       else prepend [take (nat l) R] (bulks L n (drop (nat l + 2) R))))"

definition mbulk_size :: "limits \<Rightarrow> bytes \<Rightarrow> int option" where
  "mbulk_size L h =
     (case string2ll (tl h) of
        None \<Rightarrow> None
      | Some ll \<Rightarrow> if 1024 * 1024 < sint ll \<or> 10 < sint ll \<and> lim_auth L then None else Some (sint ll))"

definition multibulk :: "limits \<Rightarrow> bytes \<Rightarrow> parsed" where
  "multibulk L R =
     (case header R of
        Open_line \<Rightarrow> More
      | Long_line \<Rightarrow> Huge
      | Line h R \<Rightarrow> (case mbulk_size L h of None \<Rightarrow> Bad | Some n \<Rightarrow> bulks L (nat n) R))"

text \<open>The words of an inline request, by the argument parser of \<open>Sds_Args\<close>.\<close>

definition inline_args :: "allocator \<Rightarrow> bytes \<Rightarrow> bytes list option" where
  "inline_args A h =
     map_option (map sds_str) (the (Option.bind (sdsnewlen A (Init h) (length h)) (\<lambda>aux. sdssplitargs A (sds_buf aux))))"

definition inline_request :: "allocator \<Rightarrow> limits \<Rightarrow> bytes \<Rightarrow> parsed" where
  "inline_request A L R =
     (case inline_header R of
        Open_line \<Rightarrow> More
      | Long_line \<Rightarrow> Huge
      | Line h R \<Rightarrow>
          (case inline_args A h of
             None \<Rightarrow> Bad
           | Some as \<Rightarrow> if h \<noteq> [] \<and> lim_master L then Bad else Ready as R))"

definition request :: "allocator \<Rightarrow> limits \<Rightarrow> bytes \<Rightarrow> parsed" where
  "request A L R = (if R = [] then More else if hd R = 42 then multibulk L R else inline_request A L R)"

section \<open>More bytes\<close>

lemma line_end_append: "line_end R ch = Some n \<Longrightarrow> line_end (R @ Y) ch = Some n"
proof -
  assume a: "line_end R ch = Some n"
  then have n: "n = length (takeWhile (\<lambda>x. x \<noteq> ch \<and> x \<noteq> 0) R)" "n < length R" "R ! n = ch"
    by (auto simp: line_end_def Let_def split: if_splits)
  then have "takeWhile (\<lambda>x. x \<noteq> ch \<and> x \<noteq> 0) (R @ Y) = takeWhile (\<lambda>x. x \<noteq> ch \<and> x \<noteq> 0) R"
    using nth_mem [of n R] by (intro takeWhile_append1 [of "R ! n"]) simp_all
  then show ?thesis using n by (simp add: line_end_def nth_append)
qed

lemma line_end_bound: "line_end R ch = Some n \<Longrightarrow> n < length R \<and> R ! n = ch"
  by (auto simp: line_end_def Let_def split: if_splits)

lemma line_end_late: "line_end R ch = None \<Longrightarrow> line_end (R @ Y) ch = Some n \<Longrightarrow> length R \<le> n"
proof (rule ccontr)
  assume a: "line_end R ch = None" "line_end (R @ Y) ch = Some n" "\<not> length R \<le> n"
  let ?P = "\<lambda>x. x \<noteq> ch \<and> x \<noteq> 0"
  have n: "n = length (takeWhile ?P (R @ Y))" "(R @ Y) ! n = ch" using a(2) by (auto simp: line_end_def Let_def split: if_splits)
  have "\<exists>x\<in>set R. \<not> ?P x"
  proof (rule ccontr)
    assume "\<not> (\<exists>x\<in>set R. \<not> ?P x)"
    then have "takeWhile ?P (R @ Y) = R @ takeWhile ?P Y" by (intro takeWhile_append2) auto
    then show False using n(1) a(3) by simp
  qed
  then have "takeWhile ?P (R @ Y) = takeWhile ?P R" by (auto intro: takeWhile_append1)
  then show False using a n by (auto simp: line_end_def Let_def nth_append split: if_splits)
qed

lemma header_append:
  "header R = Line h R' \<Longrightarrow> header (R @ Y) = Line h (R' @ Y)"
  "header R = Long_line \<Longrightarrow> header (R @ Y) = Long_line"
  by (auto simp: header_def line_end_append dest: line_end_late line_end_bound split: option.splits if_splits)

lemma header_bound: "header R = Line h R' \<Longrightarrow> length R = length h + 2 + length R'"
  by (auto simp: header_def split: option.splits if_splits)

lemma inline_header_append:
  "inline_header R = Line h R' \<Longrightarrow> inline_header (R @ Y) = Line h (R' @ Y)"
  "inline_header R = Long_line \<Longrightarrow> inline_header (R @ Y) = Long_line"
  by (auto simp: inline_header_def line_end_append nth_append Suc_le_eq dest: line_end_late line_end_bound split: option.splits if_splits)

lemma inline_header_bound: "inline_header R = Line h R' \<Longrightarrow> length R' < length R"
  by (auto simp: inline_header_def dest: line_end_bound split: option.splits if_splits)

lemma prepend_simps [simp]:
  "prepend as r = More \<longleftrightarrow> r = More" "prepend as r = Bad \<longleftrightarrow> r = Bad" "prepend as r = Huge \<longleftrightarrow> r = Huge"
  "prepend as r = Ready bs R \<longleftrightarrow> (\<exists>cs. r = Ready cs R \<and> bs = as @ cs)" "prepend [] r = r" "prepend as (prepend bs r) = prepend (as @ bs) r"
  by (cases r; auto)+

text \<open>Once a request is complete, wrong or undetermined, it stays so.\<close>

definition settled :: "(bytes \<Rightarrow> parsed) \<Rightarrow> bytes \<Rightarrow> bool" where
  "settled f R \<longleftrightarrow> (case f R of More \<Rightarrow> True | Ready as R' \<Rightarrow> \<forall>Y. f (R @ Y) = Ready as (R' @ Y) | r \<Rightarrow> \<forall>Y. f (R @ Y) = r)"

lemma settledD:
  assumes "settled f R"
  shows "f R = Ready as R' \<Longrightarrow> f (R @ Y) = Ready as (R' @ Y)" "f R = Bad \<Longrightarrow> f (R @ Y) = Bad" "f R = Huge \<Longrightarrow> f (R @ Y) = Huge"
  using assms by (simp_all add: settled_def)

lemma settled_cong:
  assumes "\<And>Y. f (R @ Y) = g (R' @ Y)" "settled g R'"
  shows "settled f R"
proof -
  have "f R = g R'" using assms(1) [of "[]"] by simp
  then show ?thesis using assms(2) by (cases "g R'") (simp_all add: settled_def assms(1))
qed

lemma bulks_settled: "settled (bulks L n) R"
proof (induction n arbitrary: R)
  case (Suc n)
  show ?case
  proof (cases "header R")
    case (Line h R')
    show ?thesis
    proof (cases "\<exists>l. bulk_size L h = Some l \<and> l \<le> 2 ^ 62 \<and> nat l + 2 \<le> length R'")
      case True
      then obtain l where l: "bulk_size L h = Some l" "l \<le> 2 ^ 62" "nat l + 2 \<le> length R'" by blast
      then have "bulks L (Suc n) (R @ Y) = prepend [take (nat l) R'] (bulks L n (drop (nat l + 2) R' @ Y))" for Y
        by (simp add: header_append(1) [OF Line])
      moreover have "bulks L (Suc n) R = prepend [take (nat l) R'] (bulks L n (drop (nat l + 2) R'))"
        using l by (simp add: Line)
      ultimately show ?thesis using Suc.IH [of "drop (nat l + 2) R'"]
        by (cases "bulks L n (drop (nat l + 2) R')") (simp_all add: settled_def)
    qed (auto simp: settled_def Line header_append(1) [OF Line] split: option.split)
  qed (simp_all add: settled_def header_append(2))
qed (simp add: settled_def)

lemma multibulk_settled: "settled (multibulk L) R"
proof (cases "header R")
  case (Line h R')
  then have eq: "multibulk L (R @ Y) = (case mbulk_size L h of None \<Rightarrow> Bad | Some n \<Rightarrow> bulks L (nat n) (R' @ Y))" for Y
    by (simp add: multibulk_def header_append(1) [OF Line])
  show ?thesis
  proof (cases "mbulk_size L h")
    case (Some n)
    show ?thesis by (rule settled_cong [OF _ bulks_settled]) (simp add: eq Some)
  qed (use eq [of "[]"] in \<open>simp add: settled_def eq\<close>)
qed (simp_all add: settled_def multibulk_def header_append(2))

lemma inline_settled: "settled (inline_request A L) R"
proof (cases "inline_header R")
  case (Line h R')
  then show ?thesis
    by (auto simp: settled_def inline_request_def inline_header_append(1) [OF Line] split: option.split)
qed (simp_all add: settled_def inline_request_def inline_header_append(2))

lemma request_settled: "settled (request A L) R"
proof (cases "R = []")
  case False
  then have "request A L (R @ Y) = (if hd R = 42 then multibulk L (R @ Y) else inline_request A L (R @ Y))" for Y
    by (simp add: request_def)
  then show ?thesis
    by (cases "hd R = 42") (auto intro: settled_cong [OF _ multibulk_settled] settled_cong [OF _ inline_settled])
qed (simp add: settled_def request_def)

text \<open>A complete request does not depend on what follows.\<close>

lemma line_end_take: "line_end R ch = Some n \<Longrightarrow> n < m \<Longrightarrow> line_end (take m R) ch = Some n"
proof (cases "line_end (take m R) ch")
  case None
  assume a: "line_end R ch = Some n" "n < m"
  have "line_end (take m R @ drop m R) ch = Some n" using a(1) by simp
  from line_end_late [OF None this] show ?thesis using a line_end_bound [OF a(1)] by simp
next
  case (Some k)
  assume "line_end R ch = Some n"
  then show ?thesis using line_end_append [OF Some, of "drop m R"] Some by simp
qed

lemma header_split:
  assumes "header R = Line h R'"
  obtains R1 where "R = R1 @ R'" "header R1 = Line h []"
proof -
  obtain n where n: "line_end R 13 = Some n" "\<not> PROTO_INLINE_MAX_SIZE < n" "n + 2 \<le> length R" "h = take n R" "R' = drop (n + 2) R"
    using assms by (auto simp: header_def split: option.splits if_splits)
  have "header (take (n + 2) R) = Line h []" using n line_end_take [OF n(1), of "n + 2"] by (simp add: header_def min_def)
  then show thesis using that [of "take (n + 2) R"] n(5) by simp
qed

lemma inline_header_split:
  assumes "inline_header R = Line h R'"
  obtains R1 where "R = R1 @ R'" "inline_header R1 = Line h []" "R1 \<noteq> []"
proof -
  obtain n where n: "line_end R 10 = Some n" "\<not> PROTO_INLINE_MAX_SIZE < n" "h = take (if n \<noteq> 0 \<and> R ! (n - 1) = 13 then n - 1 else n) R" "R' = drop (n + 1) R"
    using assms by (auto simp: inline_header_def split: option.splits if_splits)
  have "inline_header (take (n + 1) R) = Line h []" using n line_end_take [OF n(1), of "n + 1"] line_end_bound [OF n(1)]
    by (auto simp: inline_header_def min_def)
  moreover have "take (n + 1) R \<noteq> []" using line_end_bound [OF n(1)] by auto
  ultimately show thesis using that [of "take (n + 1) R"] n(4) by simp
qed

lemma bulks_split:
  assumes "bulks L n R = Ready as R'"
  shows "\<exists>R1. R = R1 @ R' \<and> bulks L n R1 = Ready as []"
  using assms
proof (induction n arbitrary: R as)
  case (Suc n)
  obtain h R2 l bs where *: "header R = Line h R2" "bulk_size L h = Some l" "\<not> 2 ^ 62 < l" "nat l + 2 \<le> length R2"
    "bulks L n (drop (nat l + 2) R2) = Ready bs R'" "as = take (nat l) R2 # bs"
    using Suc.prems by (auto split: line.splits option.splits if_splits)
  obtain R1 where R1: "R = R1 @ R2" "header R1 = Line h []" using header_split [OF *(1)] by blast
  obtain R3 where R3: "drop (nat l + 2) R2 = R3 @ R'" "bulks L n R3 = Ready bs []" using Suc.IH [OF *(5)] by blast
  have e: "R2 = (take (nat l + 2) R2 @ R3) @ R'" using R3(1) append_take_drop_id [of "nat l + 2" R2] by simp
  have "bulks L (Suc n) (R1 @ (take (nat l + 2) R2 @ R3)) = Ready as []"
    using *(2-4,6) R3(2) header_append(1) [OF R1(2), of "take (nat l + 2) R2 @ R3"] by (simp add: min_def)
  then show ?case using R1(1) e by (intro exI [of _ "R1 @ (take (nat l + 2) R2 @ R3)"]) simp
qed simp

lemma request_split:
  assumes "request A L R = Ready as R'"
  obtains R1 where "R = R1 @ R'" "\<And>Y. request A L (R1 @ Y) = Ready as Y"
proof -
  have ne: "R \<noteq> []" using assms by (auto simp: request_def)
  have "\<exists>R1. R = R1 @ R' \<and> request A L R1 = Ready as []"
  proof (cases "hd R = 42")
    case True
    obtain h R2 n where *: "header R = Line h R2" "mbulk_size L h = Some n" "bulks L (nat n) R2 = Ready as R'"
      using assms ne True by (auto simp: request_def multibulk_def split: line.splits option.splits)
    obtain R1 where R1: "R = R1 @ R2" "header R1 = Line h []" using header_split [OF *(1)] by blast
    obtain R3 where R3: "R2 = R3 @ R'" "bulks L (nat n) R3 = Ready as []" using bulks_split [OF *(3)] by blast
    have "R1 \<noteq> []" using R1(2) by (auto simp: header_def line_end_def)
    then have "request A L (R1 @ R3) = Ready as []"
      using True R1 R3 *(2) header_append(1) [OF R1(2), of R3] by (simp add: request_def multibulk_def)
    then show ?thesis using R1(1) R3(1) by (intro exI [of _ "R1 @ R3"]) simp
  next
    case False
    obtain h where *: "inline_header R = Line h R'" "inline_args A h = Some as" "\<not> (h \<noteq> [] \<and> lim_master L)"
      using assms ne False by (auto simp: request_def inline_request_def split: line.splits option.splits if_splits)
    obtain R1 where R1: "R = R1 @ R'" "inline_header R1 = Line h []" "R1 \<noteq> []" using inline_header_split [OF *(1)] by blast
    then have "request A L R1 = Ready as []" using False *(2,3) by (auto simp: request_def inline_request_def)
    then show ?thesis using R1(1) by blast
  qed
  then show thesis using that settledD(1) [OF request_settled] by fastforce
qed

section \<open>Streams of requests\<close>

lemma bulks_length: "bulks L n R = Ready as R' \<Longrightarrow> length R' \<le> length R"
proof (induction n arbitrary: R as)
  case (Suc n)
  then obtain h R1 l bs where *: "header R = Line h R1" "bulks L n (drop (nat l + 2) R1) = Ready bs R'"
    by (auto split: line.splits option.splits if_splits)
  then show ?case using Suc.IH [OF *(2)] header_bound [OF *(1)] by simp
qed simp

lemma request_length: "request A L R = Ready as R' \<Longrightarrow> length R' < length R"
  by (auto simp: request_def multibulk_def inline_request_def
      dest!: bulks_length header_bound inline_header_bound split: if_splits line.splits option.splits)

datatype ending = Waiting | Failed | Undetermined

text \<open>The commands of a stream, which skip the empty requests, how it ends, and the bytes of the last, incomplete request.\<close>

function requests :: "allocator \<Rightarrow> limits \<Rightarrow> bytes \<Rightarrow> bytes list list \<times> ending \<times> bytes" where
  "requests A L R =
     (case request A L R of
        More \<Rightarrow> ([], Waiting, R)
      | Bad \<Rightarrow> ([], Failed, R)
      | Huge \<Rightarrow> ([], Undetermined, R)
      | Ready as R' \<Rightarrow> (let (cmds, r) = requests A L R' in ((if as = [] then cmds else as # cmds), r)))"
  by pat_completeness auto
termination
  by (relation "measure (\<lambda>(A, L, R). length R)") (auto dest: request_length)

declare requests.simps [simp del]

text \<open>A part of the stream that consists of whole requests.\<close>

definition consumed :: "allocator \<Rightarrow> limits \<Rightarrow> bytes \<Rightarrow> bytes list list \<Rightarrow> bool" where
  "consumed A L B cmds \<longleftrightarrow> (\<forall>Y. requests A L (B @ Y) = map_prod (append cmds) id (requests A L Y))"

lemma consumed_Nil: "consumed A L [] []"
  by (simp add: consumed_def map_prod_def)

lemma consumed_append: "consumed A L B X \<Longrightarrow> consumed A L C Y \<Longrightarrow> consumed A L (B @ C) (X @ Y)"
  by (simp add: consumed_def map_prod_def case_prod_beta)

lemma consumed_request:
  assumes "\<And>Y. request A L (R @ Y) = Ready as Y"
  shows "consumed A L R (if as = [] then [] else [as])"
  using assms by (simp add: consumed_def requests.simps [of A L "R @ _"] map_prod_def case_prod_beta)

lemma consumed_stream: "consumed A L B X \<Longrightarrow> requests A L B = (X, Waiting, [])"
  unfolding consumed_def by (drule spec [of _ "[]"]) (simp add: requests.simps [of A L "[]"] request_def)

text \<open>The stream with more bytes: the commands stay, and so does a failure.\<close>

lemma requests_append:
  assumes "requests A L B = (X, e, R)"
  obtains Y f R' where "requests A L (B @ C) = (X @ Y, f, R')" "e \<noteq> Waiting \<Longrightarrow> Y = [] \<and> f = e"
proof -
  have "\<exists>Y f R'. requests A L (B @ C) = (X @ Y, f, R') \<and> (e \<noteq> Waiting \<longrightarrow> Y = [] \<and> f = e)"
    using assms
  proof (induction A L B arbitrary: X rule: requests.induct)
    case (1 A L B)
    show ?case
    proof (cases "request A L B")
      case More
      then show ?thesis using 1(2) by (cases "requests A L (B @ C)") (simp add: requests.simps [of A L B])
    next
      case (Ready as B')
      obtain cmds where c: "requests A L B' = (cmds, e, R)" "X = (if as = [] then cmds else as # cmds)"
        using 1(2) by (auto simp: requests.simps [of A L B] Ready Let_def split: prod.splits)
      obtain Y f R' where "requests A L (B' @ C) = (cmds @ Y, f, R')" "e \<noteq> Waiting \<longrightarrow> Y = [] \<and> f = e"
        using 1(1) [OF Ready c(1)] by blast
      then show ?thesis using c(2)
        by (auto simp: requests.simps [of A L "B @ C"] settledD(1) [OF request_settled Ready])
    next
      case Bad
      have "requests A L (B @ C) = ([], Failed, B @ C)"
        by (simp add: requests.simps [of A L "B @ C"] settledD(2) [OF request_settled Bad])
      then show ?thesis using 1(2) by (simp add: requests.simps [of A L B] Bad)
    next
      case Huge
      have "requests A L (B @ C) = ([], Undetermined, B @ C)"
        by (simp add: requests.simps [of A L "B @ C"] settledD(3) [OF request_settled Huge])
      then show ?thesis using 1(2) by (simp add: requests.simps [of A L B] Huge)
    qed
  qed
  then show thesis using that by blast
qed

section \<open>The protocol text of a command\<close>

definition bulk_text :: "bytes \<Rightarrow> bytes" where
  "bulk_text a = 36 # dec_int (int (length a)) @ crlf @ a @ crlf"

definition command_text :: "bytes list \<Rightarrow> bytes" where
  "command_text as = 42 # dec_int (int (length as)) @ crlf @ concat (map bulk_text as)"

lemma command_text_pieces: "concat (command_pieces argv) = command_text (map obj_str argv)"
proof -
  have "concat (concat (map bulk_pieces argv)) = concat (map bulk_text (map obj_str argv))"
    by (induction argv) (simp_all add: bulk_pieces_def bulk_text_def)
  then show ?thesis by (simp add: command_pieces_def command_text_def)
qed

lemma dec_nat_2: "dec_nat 2 = [50]" by (simp add: dec_nat.simps)
lemma dec_nat_6: "dec_nat 6 = [54]" by (simp add: dec_nat.simps)

lemma command_text_select: "select_text d = command_text [ascii ''SELECT'', dec_int d]"
  by (simp add: select_text_def command_text_def bulk_text_def ascii_def dec_int_def dec_nat_2 dec_nat_6)

text \<open>The limits a command has to keep for a parser to accept it.\<close>

definition acceptable :: "limits \<Rightarrow> bytes list \<Rightarrow> bool" where
  "acceptable L as \<longleftrightarrow> length as \<le> (if lim_auth L then 10 else 1024 * 1024) \<and>
     (\<forall>a\<in>set as. length a \<le> 2 ^ 62 \<and> (\<not> lim_master L \<longrightarrow> int (length a) \<le> lim_bulk L) \<and> (lim_auth L \<longrightarrow> length a \<le> 16384))"

lemma cr_not_in_dec: "13 \<notin> set (dec_int i)"
proof -
  have "13 \<notin> set (dec_nat n)" for n using is_digit_dec_nat [of 13 n] by (auto simp: is_digit_def)
  then show ?thesis by (simp add: dec_int_def)
qed

lemma header_number:
  assumes "ch \<noteq> 13" "ch \<noteq> 0" "n < 2 ^ 63"
  shows "header (ch # dec_int (int n) @ crlf @ Y) = Line (ch # dec_int (int n)) Y"
proof -
  define d where "d = ch # dec_int (int n)"
  have "\<forall>x\<in>set d. x \<noteq> 13 \<and> x \<noteq> 0" using assms cr_not_in_dec zero_not_in_dec by (auto simp: d_def)
  then have "takeWhile (\<lambda>x. x \<noteq> 13 \<and> x \<noteq> 0) (d @ crlf @ Y) = d" by (simp add: takeWhile_append2 crlf_def)
  then have "line_end (d @ crlf @ Y) 13 = Some (length d)" by (simp add: line_end_def nth_append crlf_def)
  moreover have "length (dec_int (sint (word_of_nat n :: s64))) \<le> 20" by (rule length_dec_int)
  then have "length d \<le> 21" by (simp only: d_def sint_of_nat [OF assms(3)] list.size)
  ultimately have "header (d @ crlf @ Y) = Line d Y" by (simp add: header_def PROTO_INLINE_MAX_SIZE_def crlf_def)
  then show ?thesis by (simp add: d_def)
qed

lemma number_read: "n < 2 ^ 63 \<Longrightarrow> string2ll (dec_int (int n)) = Some (word_of_nat n)"
  using string2ll_complete [of "word_of_nat n"] by (simp only: sint_of_nat)

lemma bulks_text:
  assumes "\<forall>a\<in>set as. length a \<le> 2 ^ 62 \<and> (\<not> lim_master L \<longrightarrow> int (length a) \<le> lim_bulk L) \<and> (lim_auth L \<longrightarrow> length a \<le> 16384)"
  shows "bulks L (length as) (concat (map bulk_text as) @ Y) = Ready as Y"
  using assms
proof (induction as)
  case (Cons a as)
  let ?R = "concat (map bulk_text as) @ Y"
  have a: "length a \<le> 2 ^ 62" using Cons.prems by simp
  have h: "header (bulk_text a @ ?R) = Line (36 # dec_int (int (length a))) (a @ crlf @ ?R)"
    using header_number [of 36 "length a" "a @ crlf @ ?R"] a by (simp add: bulk_text_def)
  have b: "bulk_size L (36 # dec_int (int (length a))) = Some (int (length a))"
    using Cons.prems number_read [of "length a"] sint_of_nat [of "length a"] by (auto simp: bulk_size_def)
  have l: "\<not> 2 ^ 62 < int (length a)" using a by simp
  show ?case using Cons h b l by (simp add: crlf_def)
qed simp

lemma request_text:
  assumes "acceptable L as"
  shows "request A L (command_text as @ Y) = Ready as Y"
proof -
  have n: "length as < 2 ^ 63" using assms by (auto simp: acceptable_def split: if_splits)
  have h: "header (command_text as @ Y) = Line (42 # dec_int (int (length as))) (concat (map bulk_text as) @ Y)"
    using header_number [of 42 "length as" "concat (map bulk_text as) @ Y"] n by (simp add: command_text_def)
  have m: "mbulk_size L (42 # dec_int (int (length as))) = Some (int (length as))"
    using assms number_read [OF n] sint_of_nat [OF n] by (auto simp: mbulk_size_def acceptable_def split: if_splits)
  have "multibulk L (command_text as @ Y) = Ready as Y"
    using bulks_text [of as L Y] assms by (simp add: multibulk_def h m acceptable_def)
  then show ?thesis by (simp add: request_def command_text_def)
qed

lemma consumed_text:
  assumes "\<forall>as\<in>set cmds. acceptable L as \<and> as \<noteq> []"
  shows "consumed A L (concat (map command_text cmds)) cmds"
  using assms
proof (induction cmds)
  case (Cons as cmds)
  have "consumed A L (command_text as) [as]"
    using consumed_request [of A L "command_text as" as] request_text [of L as A] Cons.prems by simp
  then show ?case using consumed_append Cons by fastforce
qed (simp add: consumed_Nil)

section \<open>What a master sends\<close>

fun repl_commands :: "bool \<Rightarrow> int \<Rightarrow> repl_op list \<Rightarrow> bytes list list" where
  "repl_commands m sel [] = []"
| "repl_commands m sel (Propagate d argv # ops) =
     (if m then repl_commands m sel ops
      else (if sel \<noteq> d then [[ascii ''SELECT'', dec_int d]] else []) @ map obj_str argv # repl_commands m d ops)"
| "repl_commands m sel (op # ops) = repl_commands m sel ops"

lemma repl_stream_text:
  assumes "\<forall>op\<in>set ops. \<forall>p. op \<noteq> Proxy p"
  shows "concat (repl_stream m sel ops) = concat (map command_text (repl_commands m sel ops))"
  using assms
  by (induction m sel ops rule: repl_stream.induct) (auto simp: propagated_def command_text_pieces command_text_select)

end
