(* ===== verification/Request_Parse.thy ===== *)
theory Request_Parse
  imports Request_Spec Multi_Watch
begin

text \<open>
  The parsers of \<open>Request_Buffer\<close> compute the meaning of the stream given in \<open>Request_Spec\<close>, however the stream is cut into
  reads, and whatever the bytes are.
\<close>

section \<open>Flags\<close>

lemma rq_flag_bits:
  "has_flag c CLIENT_ASKING \<longleftrightarrow> bit (c_flags c) 9" "has_flag c CLIENT_REPLY_SKIP_NEXT \<longleftrightarrow> bit (c_flags c) 23"
  "has_flag c CLIENT_PENDING_COMMAND \<longleftrightarrow> bit (c_flags c) 30" "has_flag c CLIENT_TRACKING_CACHING \<longleftrightarrow> bit (c_flags c) 36"
  "has_flag c CLIENT_PROTOCOL_ERROR \<longleftrightarrow> bit (c_flags c) 39"
  unfolding CLIENT_ASKING_def CLIENT_REPLY_SKIP_NEXT_def CLIENT_PENDING_COMMAND_def CLIENT_TRACKING_CACHING_def CLIENT_PROTOCOL_ERROR_def
  by (rule has_flag_bit)+

lemma protocol_error_bits: "bit (c_flags (setProtocolError c)) j \<longleftrightarrow> bit (c_flags c) j \<or> j = 6 \<or> j = 39"
  unfolding setProtocolError_def set_flag_def CLIENT_CLOSE_AFTER_REPLY_def CLIENT_PROTOCOL_ERROR_def
  by (auto simp: bit_or_iff flag_mask_bit simp del: push_bit_of_1)

section \<open>Invariants\<close>

definition unread :: "in_client \<Rightarrow> bytes" where
  "unread c = drop (q_pos c) (sds_str (q_querybuf c))"

definition limits_of :: "'d in_server \<Rightarrow> in_client \<Rightarrow> limits" where
  "limits_of s c = \<lparr>lim_bulk = proto_max_bulk_len s, lim_auth = authRequired s c, lim_master = has_flag c CLIENT_MASTER\<rparr>"

text \<open>The memory of a reply to a wrong request.\<close>

definition ERROR_COST :: nat where "ERROR_COST = 100000"

definition q_ok :: "in_client \<Rightarrow> bool" where
  "q_ok c \<longleftrightarrow> sds_ok (q_querybuf c) \<and> q_pos c \<le> hdr_len (q_querybuf c) \<and> hdr_len (q_querybuf c) < 2 ^ 62"

definition buf_inv :: "allocator \<Rightarrow> in_client \<Rightarrow> bool" where
  "buf_inv A c \<longleftrightarrow> q_ok c \<and> list_all obj_ok (q_argv c) \<and> client_room A ERROR_COST c"

text \<open>In the middle of the arguments.\<close>

definition args_inv :: "in_client \<Rightarrow> bool" where
  "args_inv c \<longleftrightarrow> q_reqtype c = PROTO_REQ_MULTIBULK \<and> 0 \<le> q_multibulklen c \<and>
     int (length (q_argv c)) + q_multibulklen c = int (q_argv_alloc c) \<and>
     (q_bulklen c = - 1 \<or> 0 \<le> q_bulklen c \<and> q_bulklen c \<le> 2 ^ 62 \<and> q_multibulklen c \<noteq> 0)"

lemma room_fields [simp]:
  "client_room A n (c\<lparr>q_querybuf := b\<rparr>) = client_room A n c" "client_room A n (c\<lparr>q_pos := p\<rparr>) = client_room A n c"
  "client_room A n (c\<lparr>q_bulklen := l\<rparr>) = client_room A n c" "client_room A n (c\<lparr>q_argv := as\<rparr>) = client_room A n c"
  "client_room A n (c\<lparr>q_argv_len_sum := k\<rparr>) = client_room A n c" "client_room A n (c\<lparr>q_multibulklen := l\<rparr>) = client_room A n c"
  "client_room A n (c\<lparr>q_argv_alloc := k\<rparr>) = client_room A n c" "client_room A n (c\<lparr>q_reqtype := t\<rparr>) = client_room A n c"
  "client_room A n (c\<lparr>q_repl_ack_time := i\<rparr>) = client_room A n c"
  by (simp_all add: client_room_def out_inv_def)

text \<open>Reading changes the fields of the request; a wrong request sets flags and gets a reply.\<close>

definition input_frame :: "in_client \<Rightarrow> in_client \<Rightarrow> bool" where
  "input_frame c c' \<longleftrightarrow> q_reploff c' = q_reploff c \<and> q_read_reploff c' = q_read_reploff c \<and> q_pending_querybuf c' = q_pending_querybuf c \<and>
     q_authenticated c' = q_authenticated c \<and> (\<forall>i. i \<notin> {6, 10, 21, 39} \<longrightarrow> bit (c_flags c') i = bit (c_flags c) i) \<and>
     length (unread c') \<le> length (unread c) \<and> (\<forall>i\<in>{6, 10, 39}. bit (c_flags c) i \<longrightarrow> bit (c_flags c') i) \<and>
     (bit (c_flags c') 39 \<or> (\<forall>A n. client_room A n c' = client_room A n c))"

definition closing :: "in_client \<Rightarrow> bool" where
  "closing c \<longleftrightarrow> has_flag c CLIENT_CLOSE_AFTER_REPLY \<and> has_flag c CLIENT_PROTOCOL_ERROR"

lemma input_frame_refl [simp]: "input_frame c c"
  by (simp add: input_frame_def)

lemma input_frame_trans: "input_frame a b \<Longrightarrow> input_frame b c \<Longrightarrow> input_frame a c"
  by (auto simp: input_frame_def)

lemma length_unread: "q_ok c \<Longrightarrow> length (unread c) = sdslen (q_querybuf c) - q_pos c"
  by (simp add: unread_def q_ok_def sdslen_def)

lemma buf_text:
  assumes "q_ok c"
  obtains junk where "drop (q_pos c) (sds_buf (q_querybuf c)) = unread c @ 0 # junk"
proof -
  let ?b = "sds_buf (q_querybuf c)" and ?n = "hdr_len (q_querybuf c)"
  have n: "?n < length ?b" "?b ! ?n = 0" "q_pos c \<le> ?n" using assms by (auto simp: q_ok_def sds_ok_def)
  have "?b = sds_str (q_querybuf c) @ 0 # drop (Suc ?n) ?b"
    using id_take_nth_drop [OF n(1)] n(2) by (simp add: sds_str_def)
  then have "drop (q_pos c) ?b = drop (q_pos c) (sds_str (q_querybuf c) @ 0 # drop (Suc ?n) ?b)" by simp
  then show thesis using that n by (simp add: unread_def sds_str_def)
qed

lemma line_end_Cons: "line_end (x # R) ch = (if x = ch then Some 0 else if x = 0 then None else map_option Suc (line_end R ch))"
  by (auto simp: line_end_def)

lemma strchr_text: "ch \<noteq> 0 \<Longrightarrow> strchr (R @ 0 # junk) ch = Some (line_end R ch)"
proof (induction R)
  case Nil
  then show ?case by (auto simp: line_end_def)
qed (auto simp: line_end_Cons)

section \<open>Replies to wrong requests\<close>

lemma same_more:
  assumes "client.more c' = client.more c"
  shows "q_querybuf c' = q_querybuf c" "q_pos c' = q_pos c" "q_argv c' = q_argv c" "q_reploff c' = q_reploff c" "q_read_reploff c' = q_read_reploff c"
    "q_pending_querybuf c' = q_pending_querybuf c" "q_authenticated c' = q_authenticated c"
  using assms by (cases c; cases c'; simp)+

lemma protocol_error_facts:
  "q_ok c \<Longrightarrow> q_ok (setProtocolError c)" "closing (setProtocolError c)" "input_frame c (setProtocolError c)"
proof -
  have "client.more (setProtocolError c) = client.more c" by (simp add: setProtocolError_def set_flag_def)
  note m = same_more [OF this]
  show "q_ok c \<Longrightarrow> q_ok (setProtocolError c)" by (simp add: q_ok_def m)
  show "closing (setProtocolError c)" by (simp add: closing_def rq_flag_bits flag_simps protocol_error_bits)
  show "input_frame c (setProtocolError c)" by (simp add: input_frame_def m protocol_error_bits unread_def)
qed

lemma reject_ok:
  assumes "buf_inv A c" "length msg \<le> 300"
  shows "\<exists>c'. reject A s msg c = Some c' \<and> input_frame c c' \<and> closing c' \<and> q_ok c'"
proof -
  have cost: "sum_list (map grow (error_pieces msg)) \<le> ERROR_COST"
    using assms(2) by (simp add: error_pieces_def grow_def PROTO_REPLY_CHUNK_BYTES_def ERROR_COST_def ascii_def crlf_def)
  have room: "out_inv c" "c_reply_bytes c + sum_list (map grow (error_pieces msg)) < MAX_REPLY_BYTES" "modest A"
    using assms(1) cost by (auto simp: buf_inv_def client_room_def)
  obtain c1 where c1: "add_all A (in_net s) c (error_pieces msg) = Some c1" "appends c (concat (error_pieces msg)) (sum_list (map grow (error_pieces msg))) c1"
    using add_all_appends [OF room, of "in_net s"] by blast
  have "client.more c1 = client.more c" using add_all_kept [OF c1(1)] by (simp add: kept_def)
  note m = same_more [OF this]
  have "flags_grow c c1" using c1(2) by (simp add: appends_def)
  moreover have "client.more (setProtocolError c1) = client.more c1" by (simp add: setProtocolError_def set_flag_def)
  note m' = same_more [OF this]
  ultimately have f: "input_frame c (setProtocolError c1)"
    by (simp add: input_frame_def flags_grow_def m m' unread_def protocol_error_bits)
  have "q_ok c1" using assms(1) by (simp add: buf_inv_def q_ok_def m)
  moreover have "reject A s msg c = Some (setProtocolError c1)" using c1(1) by (simp add: reject_def error_text)
  ultimately show ?thesis using protocol_error_facts(1,2) [of c1] f by auto
qed

section \<open>The arguments of a multi bulk request\<close>

text \<open>An argument of known length.\<close>

definition body :: "limits \<Rightarrow> nat \<Rightarrow> nat \<Rightarrow> bytes \<Rightarrow> parsed" where
  "body L n l R = (if length R < l + 2 then More else prepend [take l R] (bulks L n (drop (l + 2) R)))"

lemma bulks_Suc:
  "bulks L (Suc n) R =
     (case header R of
        Open_line \<Rightarrow> More
      | Long_line \<Rightarrow> Huge
      | Line h R \<Rightarrow> (case bulk_size L h of None \<Rightarrow> Bad | Some l \<Rightarrow> if 2 ^ 62 < l then Huge else body L n (nat l) R))"
  unfolding bulks.simps body_def by (rule refl)

declare bulks.simps(2) [simp del]

lemma trim_pos_ok:
  assumes "q_ok c"
  shows "\<exists>b. sdsrange (q_querybuf c) (int (q_pos c)) (- 1) = Some b \<and> sds_ok b \<and> sds_str b = unread c"
proof -
  have q: "sds_ok (q_querybuf c)" "q_pos c \<le> hdr_len (q_querybuf c)" "hdr_len (q_querybuf c) < 2 ^ 62" using assms by (auto simp: q_ok_def)
  obtain b where b: "sdsrange (q_querybuf c) (int (q_pos c)) (- 1) = Some b" "sds_ok b"
    "sds_str b = (if int (q_pos c) \<le> int (hdr_len (q_querybuf c)) - 1
       then take (nat (int (hdr_len (q_querybuf c)) - 1 - int (q_pos c) + 1)) (drop (q_pos c) (sds_str (q_querybuf c))) else [])"
    using sdsrange_ok [OF q(1), of "int (q_pos c)" "- 1"] q by auto
  have "sds_str b = unread c" using b(3) q by (auto simp: unread_def nat_diff_distrib)
  then show ?thesis using b(1,2) by blast
qed

text \<open>A line of the buffer: not there, not complete, or complete.\<close>

lemma header_cases:
  assumes "q_ok c"
  obtains (none) "strchr (drop (q_pos c) (sds_buf (q_querybuf c))) 13 = Some None"
      "header (unread c) = (if PROTO_INLINE_MAX_SIZE < sdslen (q_querybuf c) - q_pos c then Long_line else Open_line)"
    | (part) n where "strchr (drop (q_pos c) (sds_buf (q_querybuf c))) 13 = Some (Some n)" "int n > int (sdslen (q_querybuf c) - q_pos c) - 2"
      "header (unread c) = Open_line \<or> header (unread c) = Long_line"
    | (line) n where "strchr (drop (q_pos c) (sds_buf (q_querybuf c))) 13 = Some (Some n)" "n + 2 \<le> length (unread c)"
      "header (unread c) = (if PROTO_INLINE_MAX_SIZE < n then Long_line else Line (take n (unread c)) (drop (n + 2) (unread c)))"
      "unread c ! n = 13" "drop (q_pos c) (sds_buf (q_querybuf c)) ! 0 = unread c ! 0"
      "n \<noteq> 0 \<Longrightarrow> take (n - 1) (drop 1 (drop (q_pos c) (sds_buf (q_querybuf c)))) = tl (take n (unread c))"
proof -
  obtain junk where t: "drop (q_pos c) (sds_buf (q_querybuf c)) = unread c @ 0 # junk" using buf_text [OF assms] by blast
  have s: "strchr (unread c @ 0 # junk) 13 = Some (line_end (unread c) 13)" by (simp add: strchr_text)
  have len: "length (unread c) = sdslen (q_querybuf c) - q_pos c" by (rule length_unread [OF assms])
  show thesis
  proof (cases "line_end (unread c) 13")
    case None
    then show ?thesis using none s t len by (simp add: header_def)
  next
    case (Some n)
    have n: "n < length (unread c)" "unread c ! n = 13" using line_end_bound [OF Some] by auto
    show ?thesis
    proof (cases "n + 2 \<le> length (unread c)")
      case True
      have "take (n - 1) (drop 1 (unread c @ 0 # junk)) = tl (take n (unread c))" if "n \<noteq> 0"
        using that n(1) by (cases "unread c"; cases n) auto
      moreover have "(unread c @ 0 # junk) ! 0 = unread c ! 0" using n(1) by (cases "unread c") auto
      ultimately show ?thesis using line [of n] True Some s t n by (simp add: header_def)
    next
      case False
      then show ?thesis using part [of n] Some s t len by (simp add: header_def)
    qed
  qed
qed

lemma accept_bulk_ok:
  fixes c :: in_client
  assumes "q_ok c" "m + 2 \<le> length (unread c)" "0 \<le> l" "l \<le> 2 ^ 62"
  shows "\<exists>b p. accept_bulk A m l c = Some (Go, c\<lparr>q_querybuf := b, q_pos := p, q_bulklen := l\<rparr>) \<and>
    sds_ok b \<and> p \<le> hdr_len b \<and> hdr_len b < 2 ^ 62 \<and> drop p (sds_str b) = drop (m + 2) (unread c)"
proof -
  define d where "d = c\<lparr>q_pos := q_pos c + m + 2\<rparr>"
  have q: "q_ok d" using assms(1,2) by (auto simp: d_def q_ok_def unread_def)
  have u: "unread d = drop (m + 2) (unread c)" by (simp add: d_def unread_def add.commute add.left_commute)
  show ?thesis
  proof (cases "l \<ge> PROTO_MBULK_BIG_ARG \<and> int (sdslen (q_querybuf d) - q_pos d) \<le> l + 2")
    case True
    obtain b where b: "sdsrange (q_querybuf d) (int (q_pos d)) (- 1) = Some b" "sds_ok b" "sds_str b = unread d" using trim_pos_ok [OF q] by blast
    have len: "hdr_len b = length (unread d)" using b length_sds_str by metis
    have le: "hdr_len b < 2 ^ 62" "int (hdr_len b) \<le> l + 2" using len length_unread [OF q] q True by (auto simp: q_ok_def sdslen_def)
    have "hdr_len b + nat (l + 2 - int (hdr_len b)) = nat (l + 2)" using le by simp
    also have "\<dots> < 2 ^ 63" using assms(3,4) by simp
    finally obtain b' where b': "sdsMakeRoomFor A b (nat (l + 2 - int (sdslen b))) = Some b'" "sds_ok b'" "sds_str b' = sds_str b"
      using sds_ok_room [OF b(2), of "nat (l + 2 - int (hdr_len b))" A] by (auto simp: sdslen_def)
    have "hdr_len b' = hdr_len b" by (rule hdr_len_sds_str [OF b(2) b'(2,3)])
    moreover have "accept_bulk A m l c = Some (Go, c\<lparr>q_querybuf := b', q_pos := 0, q_bulklen := l\<rparr>)"
      using True b(1) b'(1) unfolding accept_bulk_def Let_def d_def [symmetric] by (simp add: d_def)
    ultimately show ?thesis using b b' u le by (intro exI [of _ b'] exI [of _ 0]) simp
  next
    case False
    have "accept_bulk A m l c = Some (Go, c\<lparr>q_querybuf := q_querybuf c, q_pos := q_pos d, q_bulklen := l\<rparr>)"
      unfolding accept_bulk_def Let_def d_def [symmetric] if_not_P [OF False] by (simp add: d_def)
    moreover have "drop (q_pos d) (sds_str (q_querybuf c)) = drop (m + 2) (unread c)" using u by (simp add: d_def unread_def)
    ultimately show ?thesis using q by (intro exI [of _ "q_querybuf c"] exI [of _ "q_pos d"]) (simp add: d_def q_ok_def)
  qed
qed

text \<open>What reading the length of an argument comes to, when \<open>Suc n\<close> arguments are left.\<close>

definition bulk_result :: "limits \<Rightarrow> nat \<Rightarrow> in_client \<Rightarrow> ctl \<times> in_client \<Rightarrow> bool" where
  "bulk_result L n c r \<longleftrightarrow> q_ok (snd r) \<and> input_frame c (snd r) \<and>
    (let R = bulks L (Suc n) (unread c) in case r of
       (Break, c') \<Rightarrow> c' = c \<and> (R = More \<or> R = Huge)
     | (Return ok, c') \<Rightarrow> \<not> ok \<and> closing c' \<and> (R = Bad \<or> R = Huge)
     | (Go, c') \<Rightarrow> (\<exists>b p l. c' = c\<lparr>q_querybuf := b, q_pos := p, q_bulklen := l\<rparr> \<and> 0 \<le> l \<and> l \<le> 2 ^ 62 \<and>
         (R \<noteq> Huge \<longrightarrow> (\<forall>Y. bulks L (Suc n) (unread c @ Y) = body L n (nat l) (unread c' @ Y)))))"

lemma reject_result:
  assumes "buf_inv A c" "length msg \<le> 300" "bulks L (Suc n) (unread c) = Bad \<or> bulks L (Suc n) (unread c) = Huge"
  shows "\<exists>r. do { c \<leftarrow> reject A s msg c; Some (Return False, c) } = Some r \<and> bulk_result L n c r"
  using reject_ok [OF assms(1,2), of s] assms(3) by (auto simp: bulk_result_def)

lemma bulk_line_ok:
  fixes c :: in_client
  assumes inv: "buf_inv A c" and L: "L = limits_of s c" "lim_bulk L \<le> 2 ^ 62" "lim_master L \<Longrightarrow> bulks L (Suc n) (unread c) \<noteq> Huge"
    and line: "m + 2 \<le> length (unread c)"
      "header (unread c) = (if PROTO_INLINE_MAX_SIZE < m then Long_line else Line (take m (unread c)) (drop (m + 2) (unread c)))"
      "unread c ! m = 13" "drop (q_pos c) (sds_buf (q_querybuf c)) ! 0 = unread c ! 0"
      "m \<noteq> 0 \<Longrightarrow> take (m - 1) (drop 1 (drop (q_pos c) (sds_buf (q_querybuf c)))) = tl (take m (unread c))"
  shows "\<exists>r. bulk_line A s m c = Some r \<and> bulk_result L n c r"
proof -
  let ?U = "unread c"
  have q: "q_ok c" using inv by (simp add: buf_inv_def)
  have bad: "bulks L (Suc n) ?U = Bad \<or> bulks L (Suc n) ?U = Huge" if "bulk_size L (take m ?U) = None"
    using line(2) that by (simp add: bulks_Suc)
  show ?thesis
  proof (cases "?U ! 0 = 36")
    case False
    have "bulk_size L (take m ?U) = None" using False line(1) by (cases ?U; cases m) (auto simp: bulk_size_def)
    then show ?thesis using False line(4) reject_result [OF inv _ bad, of "expected_dollar (?U ! 0)" s]
      by (simp add: bulk_line_def Let_def expected_dollar_def ascii_def)
  next
    case True
    have m: "m \<noteq> 0" using True line(3) by (cases m) auto
    have h: "take m ?U = 36 # tl (take m ?U)" using m True line(1) by (cases ?U; cases m; simp)
    show ?thesis
    proof (cases "string2ll (tl (take m ?U))")
      case None
      then have "bulk_size L (take m ?U) = None" using h by (subst h) (simp add: bulk_size_def)
      then show ?thesis using True line(4) line(5) [OF m] None reject_result [OF inv _ bad, of "ascii ''Protocol error: invalid bulk length''" s]
        by (simp add: bulk_line_def ascii_def del: drop_drop)
    next
      case (Some ll)
      have size: "bulk_size L (take m ?U) =
          (if sint ll < 0 \<or> \<not> has_flag c CLIENT_MASTER \<and> proto_max_bulk_len s < sint ll \<or> 16384 < sint ll \<and> authRequired s c
           then None else Some (sint ll))"
        by (subst h) (simp add: bulk_size_def Some L(1) limits_of_def)
      have eq: "bulk_line A s m c =
          (if sint ll < 0 \<or> \<not> has_flag c CLIENT_MASTER \<and> sint ll > proto_max_bulk_len s then do {
             c \<leftarrow> reject A s (ascii ''Protocol error: invalid bulk length'') c; Some (Return False, c) }
           else if sint ll > 16384 \<and> authRequired s c then do {
             c \<leftarrow> reject A s (ascii ''Protocol error: unauthenticated bulk length'') c; Some (Return False, c) }
           else accept_bulk A m (sint ll) c)"
        using True line(4) line(5) [OF m] Some by (simp add: bulk_line_def del: drop_drop)
      show ?thesis
      proof (cases "bulk_size L (take m ?U)")
        case None
        then show ?thesis using reject_result [OF inv _ bad [OF None], of "ascii ''Protocol error: invalid bulk length''" s]
            reject_result [OF inv _ bad [OF None], of "ascii ''Protocol error: unauthenticated bulk length''" s]
          by (auto simp: eq size ascii_def split: if_splits)
      next
        case (Some l)
        have l: "l = sint ll" "0 \<le> l" "lim_master L \<or> l \<le> lim_bulk L" using Some unfolding size by (auto simp: L(1) limits_of_def split: if_splits)
        have huge: "l \<le> 2 ^ 62" using l(3) L(2,3) line(2) Some by (auto simp: bulks_Suc split: if_splits)
        obtain b p where b: "accept_bulk A m l c = Some (Go, c\<lparr>q_querybuf := b, q_pos := p, q_bulklen := l\<rparr>)"
          "sds_ok b" "p \<le> hdr_len b" "hdr_len b < 2 ^ 62" "drop p (sds_str b) = drop (m + 2) ?U"
          using accept_bulk_ok [OF q line(1) l(2) huge] by blast
        let ?c = "c\<lparr>q_querybuf := b, q_pos := p, q_bulklen := l\<rparr>"
        have u: "unread ?c = drop (m + 2) ?U" using b(5) by (simp add: unread_def)
        have "bulks L (Suc n) (?U @ Y) = body L n (nat l) (unread ?c @ Y)" if "bulks L (Suc n) ?U \<noteq> Huge" for Y
        proof -
          have "header ?U = Line (take m ?U) (drop (m + 2) ?U)" using that line(2) by (simp add: bulks_Suc split: if_splits)
          from header_append(1) [OF this, of Y] show ?thesis using Some huge by (simp add: bulks_Suc u)
        qed
        then have "bulk_result L n c (Go, ?c)"
          using b u l(2) huge by (auto simp: bulk_result_def q_ok_def input_frame_def)
        moreover have "bulk_line A s m c = accept_bulk A m l c" using Some l(1) unfolding eq size by (auto split: if_splits)
        ultimately show ?thesis using b(1) by auto
      qed
    qed
  qed
qed

lemma bulk_header_ok:
  fixes c :: in_client
  assumes inv: "buf_inv A c" and L: "L = limits_of s c" "lim_bulk L \<le> 2 ^ 62" "lim_master L \<Longrightarrow> bulks L (Suc n) (unread c) \<noteq> Huge"
  shows "\<exists>r. bulk_header A s c = Some r \<and> bulk_result L n c r"
proof -
  have q: "q_ok c" using inv by (simp add: buf_inv_def)
  from q show ?thesis
  proof (cases rule: header_cases)
    case none
    then show ?thesis using q reject_result [OF inv, of "ascii ''Protocol error: too big bulk count string''" L n s]
      by (auto simp: bulk_header_def bulks_Suc bulk_result_def ascii_def Let_def)
  next
    case (part m)
    then show ?thesis using q by (auto simp: bulk_header_def Let_def bulks_Suc bulk_result_def)
  next
    case (line m)
    have "\<not> int (sdslen (q_querybuf c)) - int (q_pos c) - 2 < int m" using line(2) length_unread [OF q] by simp
    then have "bulk_header A s c = bulk_line A s m c" using line(1,2) length_unread [OF q] by (simp add: bulk_header_def Let_def)
    then show ?thesis using bulk_line_ok [OF inv L line(2-6)] by simp
  qed
qed

section \<open>Reading the arguments\<close>

text \<open>Moving the end of a string inside of its block.\<close>

lemma sds_set_end:
  assumes "sds_fit s" "sds_type s \<noteq> SDS_TYPE_5" "- (2 ^ 32) < i" "i < 2 ^ 32" "0 \<le> int (hdr_len s) + i" "int (hdr_len s) + i \<le> int (sdsalloc s)"
  shows "\<exists>s'. sdsIncrLen s i = Some s' \<and> sds_ok s' \<and> sds_str s' = take (nat (int (hdr_len s) + i)) (sds_buf s)"
proof -
  define t where "t = s\<lparr>sds_buf := (sds_buf s)[hdr_len s := 0]\<rparr>"
  have t: "sds_ok t" using assms(1) by (auto simp: t_def sds_ok_def sds_fit_def sdsalloc_def)
  define n where "n = nat (int (hdr_len s) + i)"
  have n: "n \<le> sdsalloc s" "n < length (sds_buf s)" "sdsalloc s \<le> sdsTypeMaxSize (sds_type s)" "n = nat (int (hdr_len s) + i)"
    using assms by (auto simp: n_def sds_fit_def)
  have "sdsIncrLen t i \<noteq> None" using sdsIncrLen_ok [OF t, of i] assms by (simp add: t_def sdsalloc_def Let_def)
  then have "incr_ok t i" by (auto simp: sdsIncrLen_def assert_opt_def split: if_splits)
  then have i: "incr_ok s i" by (simp add: incr_ok_def t_def cong: sds_type.case_cong)

  have m: "(int (hdr_len s) + i) mod 2 ^ sds_type_bits (sds_type s) = int (hdr_len s) + i"
    using n assms(5,6) le_max_size_iff [of n "sds_type s"] by (intro mod_pos_pos_trivial) (simp_all add: n_def zless_nat_eq_int_zless nat_less_iff)
  have "sdsIncrLen s i = Some (s\<lparr>hdr_len := n, sds_buf := (sds_buf s)[n := 0]\<rparr>)"
    using i m n(2) assms(2) by (simp add: sdsIncrLen_def assert_opt_def buf_put_def mem_put_eq n_def Let_def)
  then show ?thesis using n assms(1,2) by (auto simp: sds_ok_def sds_fit_def sds_str_def sdsalloc_def n_def)
qed

lemma long_type: "sds_ok s \<Longrightarrow> 31 < hdr_len s \<Longrightarrow> sds_type s \<noteq> SDS_TYPE_5"
  by (auto simp: sds_ok_def sdsalloc_def)

lemma raw_object [simp]: "obj_ok (createObject (Ptr_sds s)) = sds_ok s" "obj_str (createObject (Ptr_sds s)) = sds_str s"
  by (auto simp: createObject_def obj_ok_def obj_str_def)

lemma take_bulk_ok:
  fixes c :: in_client
  assumes q: "q_ok c" and l: "q_bulklen c = int l" "l \<le> 2 ^ 62" "l + 2 \<le> length (unread c)"
  shows "\<exists>b p ob. take_bulk A c = Some (c\<lparr>q_argv := q_argv c @ [ob], q_argv_len_sum := q_argv_len_sum c + l, q_querybuf := b, q_pos := p\<rparr>) \<and>
    sds_ok b \<and> p \<le> hdr_len b \<and> hdr_len b < 2 ^ 62 \<and> drop p (sds_str b) = drop (l + 2) (unread c) \<and>
    obj_ok ob \<and> obj_str ob = take l (unread c)"
proof (cases "q_pos c = 0 \<and> q_bulklen c \<ge> PROTO_MBULK_BIG_ARG \<and> int (sdslen (q_querybuf c)) = q_bulklen c + 2")
  case True
  have k: "sds_ok (q_querybuf c)" "hdr_len (q_querybuf c) = l + 2" "q_pos c = 0" "31 < l"
    using True q l by (auto simp: q_ok_def sdslen_def PROTO_MBULK_BIG_ARG_def)
  have t: "sds_type (q_querybuf c) \<noteq> SDS_TYPE_5" using long_type [OF k(1)] k by simp
  have ni: "nat (int (hdr_len (q_querybuf c)) + - 2) = l" using k by simp
  obtain b where b: "sdsIncrLen (q_querybuf c) (- 2) = Some b" "sds_ok b" "sds_str b = take l (sds_buf (q_querybuf c))"
    using sds_set_end [OF _ t, of "- 2"] k unfolding ni sds_ok_fit by (auto simp: sds_fit_def)
  obtain nb where nb: "sdsnewlen A SDS_NOINIT (l + 2) = Some nb" "sds_ok nb"
    using sds_newlen_ok [of "l + 2" SDS_NOINIT A False] l(2) by (auto simp: sdsnewlen_def)
  obtain nb' where nb': "sdsclear nb = Some nb'" "sds_ok nb'" "sds_str nb' = []" using sdsclear_ok [OF nb(2)] by blast
  have "take l (unread c) = sds_str b" "drop (l + 2) (unread c) = []" using b(3) k by (simp_all add: unread_def sds_str_def)
  moreover have "hdr_len nb' = 0" using length_sds_str [OF nb'(2)] nb'(3) by simp
  moreover have "take_bulk A c =
      Some (c\<lparr>q_argv := q_argv c @ [createObject (Ptr_sds b)], q_argv_len_sum := q_argv_len_sum c + l, q_querybuf := nb', q_pos := 0\<rparr>)"
    using True l(1) b(1) nb(1) nb'(1) k(3) by (simp add: take_bulk_def nat_add_distrib)
  ultimately show ?thesis using b(2) nb' by (intro exI [of _ nb'] exI [of _ 0] exI [of _ "createObject (Ptr_sds b)"]) simp
next
  case False
  obtain junk where t: "drop (q_pos c) (sds_buf (q_querybuf c)) = unread c @ 0 # junk" using buf_text [OF q] by blast
  obtain ob where ob: "createStringObject A (Init (unread c @ 0 # junk)) l = Some ob" "obj_ok ob" "obj_str ob = take l (unread c)"
    using createString_ok [of l "unread c @ 0 # junk" A] l(2,3) by (auto simp: creates_def)
  have "take_bulk A c = Some (c\<lparr>q_argv := q_argv c @ [ob], q_argv_len_sum := q_argv_len_sum c + l, q_querybuf := q_querybuf c, q_pos := q_pos c + l + 2\<rparr>)"
    using l(1) ob(1) t unfolding take_bulk_def if_not_P [OF False] by simp
  moreover have "q_pos c + l + 2 \<le> hdr_len (q_querybuf c)" using l(3) q length_unread [OF q] by (simp add: sdslen_def)
  moreover have "drop (q_pos c + l + 2) (sds_str (q_querybuf c)) = drop (l + 2) (unread c)" by (simp add: unread_def ac_simps)
  ultimately show ?thesis using ob q by (intro exI [of _ "q_querybuf c"] exI [of _ "q_pos c + l + 2"] exI [of _ ob]) (simp add: q_ok_def)
qed

lemma bulk_arg_ok:
  fixes c :: in_client
  assumes inv: "buf_inv A c" "args_inv c" and l: "q_bulklen c = int l" "l + 2 \<le> length (unread c)"
  shows "\<exists>c'. bulk_arg A c = Some (Go, c') \<and> buf_inv A c' \<and> args_inv c' \<and> input_frame c c' \<and> c_flags c' = c_flags c \<and>
    unread c' = drop (l + 2) (unread c) \<and> map obj_str (q_argv c') = map obj_str (q_argv c) @ [take l (unread c)] \<and>
    q_multibulklen c' = q_multibulklen c - 1 \<and> q_bulklen c' = - 1"
proof -
  have q: "q_ok c" and argv: "list_all obj_ok (q_argv c)" and room: "client_room A ERROR_COST c" using inv(1) by (auto simp: buf_inv_def)
  have a: "length (q_argv c) < q_argv_alloc c" "l \<le> 2 ^ 62" using inv(2) l by (auto simp: args_inv_def)
  have len: "\<not> int (sdslen (q_querybuf c) - q_pos c) < q_bulklen c + 2" using l length_unread [OF q] by simp
  obtain b p ob where *: "take_bulk A c = Some (c\<lparr>q_argv := q_argv c @ [ob], q_argv_len_sum := q_argv_len_sum c + l, q_querybuf := b, q_pos := p\<rparr>)"
    "sds_ok b" "p \<le> hdr_len b" "hdr_len b < 2 ^ 62" "drop p (sds_str b) = drop (l + 2) (unread c)" "obj_ok ob" "obj_str ob = take l (unread c)"
    using take_bulk_ok [OF q l(1) a(2) l(2)] by blast
  let ?c = "c\<lparr>q_argv := q_argv c @ [ob], q_argv_len_sum := q_argv_len_sum c + l, q_querybuf := b, q_pos := p, q_bulklen := - 1,
    q_multibulklen := q_multibulklen c - 1\<rparr>"
  have "bulk_arg A c = Some (Go, ?c)"
    using *(1) a(1) unfolding bulk_arg_def if_not_P [OF len] by (simp add: assert_opt_def)
  moreover have u: "unread ?c = drop (l + 2) (unread c)" using *(5) by (simp add: unread_def)
  moreover have "buf_inv A ?c" using * argv room by (simp add: buf_inv_def q_ok_def)
  moreover have "args_inv ?c" using inv(2) l(1) by (auto simp: args_inv_def)
  moreover have "input_frame c ?c" using u by (simp add: input_frame_def)
  ultimately show ?thesis using *(7) by auto
qed

text \<open>The rest of a request whose first arguments have been read.\<close>

definition resume_args :: "limits \<Rightarrow> in_client \<Rightarrow> bytes \<Rightarrow> parsed" where
  "resume_args L c R =
     prepend (map obj_str (q_argv c))
       (if q_bulklen c = - 1 then bulks L (nat (q_multibulklen c)) R else body L (nat (q_multibulklen c) - 1) (nat (q_bulklen c)) R)"

definition args_result :: "allocator \<Rightarrow> limits \<Rightarrow> in_client \<Rightarrow> ctl \<times> in_client \<Rightarrow> bool" where
  "args_result A L c r \<longleftrightarrow> q_ok (snd r) \<and> input_frame c (snd r) \<and>
     (let R = resume_args L c (unread c); c' = snd r in
      if \<exists>ok. fst r = Return ok then fst r = Return False \<and> closing c' \<and> (R = Bad \<or> R = Huge)
      else buf_inv A c' \<and> args_inv c' \<and> c_flags c' = c_flags c \<and>
        (R \<noteq> Huge \<longrightarrow> (\<forall>Y. resume_args L c (unread c @ Y) = resume_args L c' (unread c' @ Y))))"

lemma arg_step_ok:
  fixes c :: in_client
  assumes inv: "buf_inv A c" "args_inv c" "q_bulklen c \<noteq> - 1"
  shows "\<exists>k c'. bulk_arg A c = Some (k, c') \<and> args_result A L c (k, c') \<and>
    (k = Break \<and> q_multibulklen c' = q_multibulklen c \<and> resume_args L c (unread c) = More \<or>
     k = Go \<and> q_multibulklen c' = q_multibulklen c - 1 \<and> length (unread c') < length (unread c))"
proof -
  have "0 \<le> q_bulklen c" "q_multibulklen c \<noteq> 0" using inv(2,3) by (auto simp: args_inv_def)
  then obtain l where l: "q_bulklen c = int l" "q_multibulklen c \<noteq> 0" by (blast elim: nonneg_int_cases)
  have q: "q_ok c" using inv(1) by (simp add: buf_inv_def)
  show ?thesis
  proof (cases "l + 2 \<le> length (unread c)")
    case False
    then have "bulk_arg A c = Some (Break, c)" using l length_unread [OF q] by (simp add: bulk_arg_def)
    then show ?thesis using False inv q l by (simp add: args_result_def resume_args_def body_def)
  next
    case True
    obtain c' where c': "bulk_arg A c = Some (Go, c')" "buf_inv A c'" "args_inv c'" "input_frame c c'" "c_flags c' = c_flags c"
      "unread c' = drop (l + 2) (unread c)" "map obj_str (q_argv c') = map obj_str (q_argv c) @ [take l (unread c)]"
      "q_multibulklen c' = q_multibulklen c - 1" "q_bulklen c' = - 1"
      using bulk_arg_ok [OF inv(1,2) l(1) True] by blast
    have "nat (q_multibulklen c - 1) = nat (q_multibulklen c) - 1" by arith
    then have "resume_args L c (unread c @ Y) = resume_args L c' (unread c' @ Y)" for Y
      using True l c'(6-9) by (simp add: resume_args_def body_def)
    then have "args_result A L c (Go, c')" using c'(2-5) by (simp add: args_result_def buf_inv_def)
    then show ?thesis using c'(1,6,8) True by (intro exI [of _ Go] exI [of _ c']) simp
  qed
qed

lemma args_result_trans:
  assumes "input_frame c c1" "c_flags c1 = c_flags c" "args_result A L c1 r"
    "\<And>Y. resume_args L c (unread c) \<noteq> Huge \<Longrightarrow> resume_args L c (unread c @ Y) = resume_args L c1 (unread c1 @ Y)"
  shows "args_result A L c r"
proof -
  have "resume_args L c (unread c) = Huge \<or> resume_args L c1 (unread c1) = resume_args L c (unread c)"
    using assms(4) [of "[]"] by (cases "resume_args L c (unread c) = Huge") simp_all
  then show ?thesis using assms input_frame_trans [OF assms(1), of "snd r"] by (auto simp: args_result_def Let_def split: if_splits)
qed

lemma limits_frame: "input_frame c c' \<Longrightarrow> c_flags c' = c_flags c \<Longrightarrow> limits_of s c' = limits_of s c"
  by (simp add: limits_of_def input_frame_def authRequired_def has_flag_def)

lemma bulk_step_ok:
  fixes c :: in_client
  assumes inv: "buf_inv A c" "args_inv c" "q_multibulklen c \<noteq> 0"
    and L: "L = limits_of s c" "lim_bulk L \<le> 2 ^ 62" "lim_master L \<Longrightarrow> resume_args L c (unread c) \<noteq> Huge"
  shows "\<exists>k c'. bulk_step A s c = Some (k, c') \<and> args_result A L c (k, c') \<and>
    (k = Return False \<or>
     k = Break \<and> q_multibulklen c' = q_multibulklen c \<and> (resume_args L c (unread c) = More \<or> resume_args L c (unread c) = Huge) \<or>
     k = Go \<and> q_multibulklen c' = q_multibulklen c - 1 \<and> length (unread c') < length (unread c))"
proof (cases "q_bulklen c = - 1")
  case False
  then show ?thesis using arg_step_ok [OF inv(1,2) False, of L] by (auto simp: bulk_step_def)
next
  case True
  obtain n where n: "nat (q_multibulklen c) = Suc n" using inv(2,3) by (cases "nat (q_multibulklen c)") (auto simp: args_inv_def)
  have R: "resume_args L c U = prepend (map obj_str (q_argv c)) (bulks L (Suc n) U)" for U using True n by (simp add: resume_args_def)
  have "lim_master L \<Longrightarrow> bulks L (Suc n) (unread c) \<noteq> Huge" using L(3) by (simp add: R)
  from bulk_header_ok [OF inv(1) L(1,2) this] obtain k c1 where h: "bulk_header A s c = Some (k, c1)" "bulk_result L n c (k, c1)" by auto
  show ?thesis
  proof (cases k)
    case Go
    obtain b p l where c1: "c1 = c\<lparr>q_querybuf := b, q_pos := p, q_bulklen := l\<rparr>" "0 \<le> l" "l \<le> 2 ^ 62" "q_ok c1" "input_frame c c1"
      "bulks L (Suc n) (unread c) \<noteq> Huge \<Longrightarrow> bulks L (Suc n) (unread c @ Y) = body L n (nat l) (unread c1 @ Y)" for Y
      using h(2) Go by (auto simp: bulk_result_def)
    have i1: "buf_inv A c1" "args_inv c1" "q_bulklen c1 \<noteq> - 1" using inv c1(1-4) by (auto simp: buf_inv_def args_inv_def)
    have r1: "resume_args L c (unread c @ Y) = resume_args L c1 (unread c1 @ Y)" if "resume_args L c (unread c) \<noteq> Huge" for Y
      using that c1(1,2) c1(6) [of Y] n by (simp add: R) (simp add: resume_args_def)
    obtain k2 c2 where c2: "bulk_arg A c1 = Some (k2, c2)" "args_result A L c1 (k2, c2)"
      "k2 = Break \<and> q_multibulklen c2 = q_multibulklen c1 \<and> resume_args L c1 (unread c1) = More \<or>
       k2 = Go \<and> q_multibulklen c2 = q_multibulklen c1 - 1 \<and> length (unread c2) < length (unread c1)"
      using arg_step_ok [OF i1, of L] by blast
    have "args_result A L c (k2, c2)" using args_result_trans [OF c1(5) _ c2(2) r1] c1(1) by simp
    moreover have "bulk_step A s c = Some (k2, c2)" using h(1) Go c2(1) True by (simp add: bulk_step_def)
    moreover have "length (unread c1) \<le> length (unread c)" using c1(5) by (simp add: input_frame_def)
    ultimately show ?thesis using c2(3) c1(1) r1 [of "[]"] by (intro exI [of _ k2] exI [of _ c2]) auto
  qed (use h inv R True in \<open>auto simp: bulk_step_def bulk_result_def args_result_def Let_def\<close>)
qed

text \<open>The loop ends with all arguments read, or with more bytes needed.\<close>

lemma bulk_loop_ok:
  fixes c :: in_client
  assumes "buf_inv A c" "args_inv c" "q_multibulklen c = int fuel"
    and "L = limits_of s c" "lim_bulk L \<le> 2 ^ 62" "lim_master L \<Longrightarrow> resume_args L c (unread c) \<noteq> Huge"
  shows "\<exists>k c'. bulk_loop fuel A s c = Some (k, c') \<and> args_result A L c (k, c') \<and> k \<noteq> Go \<and>
    (k = Break \<longrightarrow> (if q_multibulklen c' = 0 then fuel = 0 \<or> length (unread c') < length (unread c)
       else resume_args L c (unread c) = More \<or> resume_args L c (unread c) = Huge))"
  using assms
proof (induction fuel arbitrary: c)
  case 0
  then show ?case by (simp add: bulk_loop.simps [of 0] args_result_def buf_inv_def)
next
  case (Suc fuel)
  have nz: "q_multibulklen c \<noteq> 0" using Suc.prems(3) by simp
  obtain k1 c1 where c1: "bulk_step A s c = Some (k1, c1)" "args_result A L c (k1, c1)"
    "k1 = Return False \<or>
     k1 = Break \<and> q_multibulklen c1 = q_multibulklen c \<and> (resume_args L c (unread c) = More \<or> resume_args L c (unread c) = Huge) \<or>
     k1 = Go \<and> q_multibulklen c1 = q_multibulklen c - 1 \<and> length (unread c1) < length (unread c)"
    using bulk_step_ok [OF Suc.prems(1,2) nz Suc.prems(4-6)] by blast
  show ?case
  proof (cases "k1 = Go")
    case False
    then have "bulk_loop (Suc fuel) A s c = Some (k1, c1)" using c1(1) nz by (simp add: bulk_loop.simps [of "Suc fuel"])
    then show ?thesis using c1(2,3) False nz by auto
  next
    case True
    have g: "buf_inv A c1" "args_inv c1" "c_flags c1 = c_flags c" "input_frame c c1"
      "resume_args L c (unread c) \<noteq> Huge \<Longrightarrow> resume_args L c (unread c @ Y) = resume_args L c1 (unread c1 @ Y)" for Y
      using c1(2) True by (auto simp: args_result_def Let_def)
    have n: "q_multibulklen c1 = int fuel" "length (unread c1) < length (unread c)" using c1(3) True Suc.prems(3) by auto
    have L1: "L = limits_of s c1" "lim_master L \<Longrightarrow> resume_args L c1 (unread c1) \<noteq> Huge"
      using Suc.prems(4,6) limits_frame [OF g(4,3), of s] g(5) [of "[]"] by (simp, auto)
    obtain k c' where c': "bulk_loop fuel A s c1 = Some (k, c')" "args_result A L c1 (k, c')" "k \<noteq> Go"
      "k = Break \<longrightarrow> (if q_multibulklen c' = 0 then fuel = 0 \<or> length (unread c') < length (unread c1)
         else resume_args L c1 (unread c1) = More \<or> resume_args L c1 (unread c1) = Huge)"
      using Suc.IH [OF g(1,2) n(1) L1(1) Suc.prems(5) L1(2)] by blast
    have "bulk_loop (Suc fuel) A s c = Some (k, c')" using c1(1) c'(1) True nz by (simp add: bulk_loop.simps [of "Suc fuel"])
    moreover have "args_result A L c (k, c')" by (rule args_result_trans [OF g(4,3) c'(2) g(5)])
    moreover have "length (unread c') \<le> length (unread c1)" using c'(2) by (simp add: args_result_def input_frame_def)
    ultimately show ?thesis using c'(3,4) n(2) g(5) [of "[]"] by (intro exI [of _ k] exI [of _ c']) (auto split: if_splits)
  qed
qed

section \<open>Whole requests\<close>

text \<open>The meaning of the rest of a request, and the states in which a request may be left for the next read.\<close>

definition resume :: "allocator \<Rightarrow> limits \<Rightarrow> in_client \<Rightarrow> bytes \<Rightarrow> parsed" where
  "resume A L c R =
     (case q_reqtype c of
        No_request \<Rightarrow> request A L R
      | PROTO_REQ_INLINE \<Rightarrow> inline_request A L R
      | PROTO_REQ_MULTIBULK \<Rightarrow> if q_multibulklen c = 0 then multibulk L R else resume_args L c R)"

definition idle :: "in_client \<Rightarrow> bool" where
  "idle c \<longleftrightarrow> q_argv c = [] \<and> q_multibulklen c = 0 \<and> q_bulklen c = - 1"

definition request_inv :: "in_client \<Rightarrow> bool" where
  "request_inv c \<longleftrightarrow>
     (case q_reqtype c of
        No_request \<Rightarrow> idle c
      | PROTO_REQ_INLINE \<Rightarrow> idle c \<and> unread c \<noteq> [] \<and> hd (unread c) \<noteq> 42
      | PROTO_REQ_MULTIBULK \<Rightarrow> idle c \<and> unread c \<noteq> [] \<and> hd (unread c) = 42 \<or> args_inv c \<and> q_multibulklen c \<noteq> 0)"

definition parse_result :: "allocator \<Rightarrow> limits \<Rightarrow> in_client \<Rightarrow> bool \<times> in_client \<Rightarrow> bool" where
  "parse_result A L c r \<longleftrightarrow> q_ok (snd r) \<and> input_frame c (snd r) \<and>
     (let R = resume A L c (unread c); c' = snd r in
      if fst r then buf_inv A c' \<and> c_flags c' = c_flags c \<and> length (unread c') < length (unread c) \<and>
        (R \<noteq> Huge \<longrightarrow> R = Ready (map obj_str (q_argv c')) (unread c'))
      else closing c' \<and> (R = Bad \<or> R = Huge) \<or>
        buf_inv A c' \<and> request_inv c' \<and> c_flags c' = c_flags c \<and> (R = More \<or> R = Huge) \<and>
        (R \<noteq> Huge \<longrightarrow> (\<forall>Y. resume A L c (unread c @ Y) = resume A L c' (unread c' @ Y))))"

lemma reject_parse:
  assumes "buf_inv A c" "length msg \<le> 300" "resume A L c (unread c) = Bad \<or> resume A L c (unread c) = Huge"
  shows "\<exists>r. do { c \<leftarrow> reject A s msg c; Some (False, c) } = Some r \<and> parse_result A L c r"
  using reject_ok [OF assms(1,2), of s] assms(3) by (auto simp: parse_result_def)

text \<open>The line with the number of arguments.\<close>

definition mbulk_result :: "allocator \<Rightarrow> limits \<Rightarrow> in_client \<Rightarrow> ctl \<times> in_client \<Rightarrow> bool" where
  "mbulk_result A L c r \<longleftrightarrow>
     (case fst r of
        Go \<Rightarrow> buf_inv A (snd r) \<and> args_inv (snd r) \<and> q_multibulklen (snd r) \<noteq> 0 \<and> input_frame c (snd r) \<and> c_flags (snd r) = c_flags c \<and>
          length (unread (snd r)) < length (unread c) \<and>
          (multibulk L (unread c) \<noteq> Huge \<longrightarrow> (\<forall>Y. multibulk L (unread c @ Y) = resume_args L (snd r) (unread (snd r) @ Y)))
      | Break \<Rightarrow> False
      | Return ok \<Rightarrow> parse_result A L c (ok, snd r))"

lemma reject_mbulk:
  assumes "buf_inv A c" "length msg \<le> 300" "resume A L c (unread c) = Bad \<or> resume A L c (unread c) = Huge"
  shows "\<exists>r. do { c \<leftarrow> reject A s msg c; Some (Return False, c) } = Some r \<and> mbulk_result A L c r"
  using reject_parse [OF assms, of s] by (auto simp: mbulk_result_def split: bind_splits)

lemma accept_mbulk_ok:
  fixes c :: in_client
  assumes inv: "buf_inv A c" "q_reqtype c = PROTO_REQ_MULTIBULK" "idle c" and m: "m + 2 \<le> length (unread c)"
    and size: "mbulk_size L (take m (unread c)) = Some n"
      "header (unread c) = (if PROTO_INLINE_MAX_SIZE < m then Long_line else Line (take m (unread c)) (drop (m + 2) (unread c)))"
  shows "mbulk_result A L c (accept_mbulk m n c)"
proof -
  let ?U = "unread c"
  define d where "d = c\<lparr>q_pos := q_pos c + m + 2\<rparr>"
  have d: "buf_inv A d" "unread d = drop (m + 2) ?U" "length (unread d) < length ?U" using inv(1) m
    by (auto simp: d_def buf_inv_def q_ok_def unread_def ac_simps)
  have mb: "multibulk L (?U @ Y) = bulks L (nat n) (unread d @ Y)" if "multibulk L ?U \<noteq> Huge" for Y
  proof -
    have "header ?U = Line (take m ?U) (drop (m + 2) ?U)" using that size(2) by (simp add: multibulk_def split: if_splits)
    from header_append(1) [OF this, of Y] show ?thesis using size(1) by (simp add: multibulk_def d(2))
  qed
  show ?thesis
  proof (cases "n \<le> 0")
    case True
    have "resume A L c ?U = multibulk L ?U" "q_argv d = []" "c_flags d = c_flags c" "input_frame c d"
      using inv(2,3) d(3) by (auto simp: resume_def idle_def d_def input_frame_def)
    then show ?thesis using True d mb [of "[]"] unfolding accept_mbulk_def Let_def d_def [symmetric]
      by (auto simp: mbulk_result_def parse_result_def buf_inv_def Let_def)
  next
    case False
    define e where "e = d\<lparr>q_multibulklen := n, q_argv_alloc := nat n, q_argv_len_sum := 0\<rparr>"
    have u: "unread e = unread d" by (simp add: e_def unread_def)
    have "args_inv e" "q_multibulklen e \<noteq> 0" using inv(2,3) False by (auto simp: e_def d_def args_inv_def idle_def)
    moreover have "buf_inv A e" using d(1) by (simp add: e_def buf_inv_def q_ok_def)
    moreover have "input_frame c e" "c_flags e = c_flags c" using d(3) u by (auto simp: input_frame_def e_def d_def)
    moreover have "resume_args L e V = bulks L (nat n) V" for V using inv(3) by (simp add: resume_args_def e_def d_def idle_def)
    ultimately show ?thesis using False d(3) u mb unfolding accept_mbulk_def Let_def d_def [symmetric] e_def [symmetric]
      by (simp add: mbulk_result_def)
  qed
qed

lemma mbulk_line_ok:
  fixes c :: in_client
  assumes inv: "buf_inv A c" "q_reqtype c = PROTO_REQ_MULTIBULK" "idle c" "hd (unread c) = 42" and L: "L = limits_of s c"
    and line: "m + 2 \<le> length (unread c)"
      "header (unread c) = (if PROTO_INLINE_MAX_SIZE < m then Long_line else Line (take m (unread c)) (drop (m + 2) (unread c)))"
      "unread c ! m = 13" "drop (q_pos c) (sds_buf (q_querybuf c)) ! 0 = unread c ! 0"
      "m \<noteq> 0 \<Longrightarrow> take (m - 1) (drop 1 (drop (q_pos c) (sds_buf (q_querybuf c)))) = tl (take m (unread c))"
  shows "\<exists>r. mbulk_line A s m c = Some r \<and> mbulk_result A L c r"
proof -
  let ?U = "unread c"
  have R: "resume A L c V = multibulk L V" for V using inv(2,3) by (simp add: resume_def idle_def)
  have u0: "?U ! 0 = 42" using inv(4) line(1) by (cases ?U) auto
  have m: "m \<noteq> 0" using u0 line(3) by (cases m) auto
  have bad: "resume A L c ?U = Bad \<or> resume A L c ?U = Huge" if "mbulk_size L (take m ?U) = None"
    using line(2) that by (simp add: R multibulk_def)
  have eq: "mbulk_line A s m c =
      (case string2ll (tl (take m ?U)) of
         None \<Rightarrow> do { c \<leftarrow> reject A s (ascii ''Protocol error: invalid multibulk length'') c; Some (Return False, c) }
       | Some ll \<Rightarrow>
           if sint ll > 1024 * 1024 then do {
             c \<leftarrow> reject A s (ascii ''Protocol error: invalid multibulk length'') c; Some (Return False, c) }
           else if sint ll > 10 \<and> authRequired s c then do {
             c \<leftarrow> reject A s (ascii ''Protocol error: unauthenticated multibulk length'') c; Some (Return False, c) }
           else Some (accept_mbulk m (sint ll) c))"
    unfolding mbulk_line_def Let_def using line(4) line(5) [OF m] m u0 by (simp add: assert_opt_def del: drop_drop)
  show ?thesis
  proof (cases "mbulk_size L (take m ?U)")
    case None
    then show ?thesis using reject_mbulk [OF inv(1) _ bad [OF None], of "ascii ''Protocol error: invalid multibulk length''" s]
        reject_mbulk [OF inv(1) _ bad [OF None], of "ascii ''Protocol error: unauthenticated multibulk length''" s]
      unfolding eq by (auto simp: mbulk_size_def ascii_def L limits_of_def split: option.splits if_splits)
  next
    case (Some n)
    then obtain ll where "string2ll (tl (take m ?U)) = Some ll" "n = sint ll" "\<not> 1024 * 1024 < n" "\<not> (10 < n \<and> authRequired s c)"
      by (auto simp: mbulk_size_def L limits_of_def split: option.splits if_splits)
    then have "mbulk_line A s m c = Some (accept_mbulk m n c)" by (auto simp: eq)
    then show ?thesis using accept_mbulk_ok [OF inv(1-3) line(1) Some line(2)] by blast
  qed
qed

lemma mbulk_header_ok:
  fixes c :: in_client
  assumes inv: "buf_inv A c" "q_reqtype c = PROTO_REQ_MULTIBULK" "idle c" "unread c \<noteq> []" "hd (unread c) = 42" and L: "L = limits_of s c"
  shows "\<exists>r. mbulk_header A s c = Some r \<and> mbulk_result A L c r"
proof -
  have q: "q_ok c" using inv(1) by (simp add: buf_inv_def)
  have R: "resume A L c V = multibulk L V" for V using inv(2,3) by (simp add: resume_def idle_def)
  have a: "q_argv c = []" using inv(3) by (simp add: idle_def)
  have wait: "mbulk_result A L c (Return False, c)" if "multibulk L (unread c) = More \<or> multibulk L (unread c) = Huge"
    using that inv q R by (auto simp: mbulk_result_def parse_result_def request_inv_def Let_def)
  from q show ?thesis
  proof (cases rule: header_cases)
    case none
    then show ?thesis using wait a reject_mbulk [OF inv(1), of "ascii ''Protocol error: too big mbulk count string''" L s]
      by (auto simp: mbulk_header_def R multibulk_def ascii_def Let_def assert_opt_def)
  next
    case (part m)
    then show ?thesis using wait a by (auto simp: mbulk_header_def Let_def multibulk_def assert_opt_def)
  next
    case (line m)
    have "\<not> int (sdslen (q_querybuf c)) - int (q_pos c) - 2 < int m" using line(2) length_unread [OF q] by simp
    then have "mbulk_header A s c = mbulk_line A s m c" using line(1,2) length_unread [OF q] a by (simp add: mbulk_header_def Let_def assert_opt_def)
    then show ?thesis using mbulk_line_ok [OF inv(1-3,5) L line(2-6)] by simp
  qed
qed

text \<open>The loop over the arguments, for a request that has this meaning.\<close>

lemma args_loop_result:
  fixes c :: in_client
  assumes c1: "buf_inv A c1" "args_inv c1" "q_multibulklen c1 \<noteq> 0" "input_frame c c1" "c_flags c1 = c_flags c"
    "\<And>Y. resume A L c (unread c) \<noteq> Huge \<Longrightarrow> resume A L c (unread c @ Y) = resume_args L c1 (unread c1 @ Y)"
    and L: "L = limits_of s c" "lim_bulk L \<le> 2 ^ 62" "lim_master L \<Longrightarrow> resume A L c (unread c) \<noteq> Huge"
  shows "\<exists>k c'. bulk_loop (nat (q_multibulklen c1)) A s c1 = Some (k, c') \<and>
    parse_result A L c ((case k of Return ok \<Rightarrow> ok | _ \<Rightarrow> q_multibulklen c' = 0), c')"
proof -
  have n: "q_multibulklen c1 = int (nat (q_multibulklen c1))" "nat (q_multibulklen c1) \<noteq> 0" using c1(2,3) by (auto simp: args_inv_def)
  have L1: "L = limits_of s c1" using L(1) limits_frame [OF c1(4,5), of s] by simp
  have R: "resume A L c (unread c) = Huge \<or> resume_args L c1 (unread c1) = resume A L c (unread c)"
    using c1(6) [of "[]"] by (cases "resume A L c (unread c) = Huge") simp_all
  then have H: "lim_master L \<Longrightarrow> resume_args L c1 (unread c1) \<noteq> Huge" using L(3) by auto
  obtain k c' where k: "bulk_loop (nat (q_multibulklen c1)) A s c1 = Some (k, c')" "args_result A L c1 (k, c')" "k \<noteq> Go"
    "k = Break \<Longrightarrow> (if q_multibulklen c' = 0 then length (unread c') < length (unread c1)
       else resume_args L c1 (unread c1) = More \<or> resume_args L c1 (unread c1) = Huge)"
    using bulk_loop_ok [OF c1(1,2) n(1) L1 L(2) H] n(2) by (auto split: if_splits)
  have f: "input_frame c c'" "q_ok c'" using k(2) input_frame_trans [OF c1(4)] by (auto simp: args_result_def)
  show ?thesis
  proof (cases "k = Break")
    case False
    then obtain ok where "k = Return ok" using k(3) by (cases k) auto
    then show ?thesis using k(1,2) f R by (auto simp: args_result_def parse_result_def Let_def)
  next
    case True
    have g: "buf_inv A c'" "args_inv c'" "c_flags c' = c_flags c"
      "resume_args L c1 (unread c1) \<noteq> Huge \<Longrightarrow> resume_args L c1 (unread c1 @ Y) = resume_args L c' (unread c' @ Y)" for Y
      using k(2) True c1(5) by (auto simp: args_result_def Let_def)
    show ?thesis
    proof (cases "q_multibulklen c' = 0")
      case z: True
      have "resume_args L c' (unread c') = Ready (map obj_str (q_argv c')) (unread c')"
        using z g(2) by (auto simp: args_inv_def resume_args_def)
      then show ?thesis using k(1,4) True z f g R c1(4) g(4) [of "[]"] by (auto simp: parse_result_def input_frame_def Let_def)
    next
      case nz: False
      have "q_reqtype c' = PROTO_REQ_MULTIBULK" using g(2) by (simp add: args_inv_def)
      then have "request_inv c'" "\<And>V. resume A L c' V = resume_args L c' V" using nz g(2) by (auto simp: request_inv_def resume_def)
      then show ?thesis using k(1,4) True nz f g(1,3) g(4) R c1(6) by (auto simp: parse_result_def Let_def)
    qed
  qed
qed

lemma processMultibulkBuffer_ok:
  fixes c :: in_client
  assumes inv: "buf_inv A c" "request_inv c" "q_reqtype c = PROTO_REQ_MULTIBULK"
    and L: "L = limits_of s c" "lim_bulk L \<le> 2 ^ 62" "lim_master L \<Longrightarrow> resume A L c (unread c) \<noteq> Huge"
  shows "\<exists>r. processMultibulkBuffer A s c = Some r \<and> parse_result A L c r"
proof (cases "q_multibulklen c = 0")
  case False
  have "args_inv c" "\<And>V. resume A L c V = resume_args L c V" using inv(2,3) False by (auto simp: request_inv_def idle_def resume_def)
  then obtain k c' where "bulk_loop (nat (q_multibulklen c)) A s c = Some (k, c')" "parse_result A L c ((case k of Return ok \<Rightarrow> ok | _ \<Rightarrow> q_multibulklen c' = 0), c')"
    using args_loop_result [OF inv(1) _ False, of c L s] L by auto
  then show ?thesis using False \<open>args_inv c\<close> by (auto simp: processMultibulkBuffer_def assert_opt_def args_inv_def)
next
  case True
  have i: "idle c" "unread c \<noteq> []" "hd (unread c) = 42" "\<And>V. resume A L c V = multibulk L V"
    using inv(2,3) True by (auto simp: request_inv_def resume_def)
  obtain k1 c1 where h: "mbulk_header A s c = Some (k1, c1)" "mbulk_result A L c (k1, c1)"
    using mbulk_header_ok [OF inv(1,3) i(1-3) L(1)] by auto
  show ?thesis
  proof (cases k1)
    case Go
    obtain k c' where "bulk_loop (nat (q_multibulklen c1)) A s c1 = Some (k, c')" "parse_result A L c ((case k of Return ok \<Rightarrow> ok | _ \<Rightarrow> q_multibulklen c' = 0), c')"
      using args_loop_result [of A c1 c L s] h(2) Go L i(4) by (auto simp: mbulk_result_def)
    moreover have "0 < q_multibulklen c1" using h(2) Go by (auto simp: mbulk_result_def args_inv_def)
    ultimately show ?thesis using h(1) Go True by (auto simp: processMultibulkBuffer_def assert_opt_def)
  next
    case Break
    then show ?thesis using h(2) by (simp add: mbulk_result_def)
  next
    case (Return ok)
    then show ?thesis using h True by (auto simp: processMultibulkBuffer_def mbulk_result_def)
  qed
qed

section \<open>Inline requests\<close>

lemma newlen_prefix:
  assumes "n \<le> length t"
  shows "sdsnewlen A (Init t) n = sdsnewlen A (Init (take n t)) n"
proof -
  have "mem_read (take n t) 0 n = mem_read t 0 n" using assms by (simp add: mem_read_def)
  then show ?thesis unfolding sdsnewlen_def sds_newlen_def by (simp only: sds_init.case sds_init.distinct)
qed

lemma line_end_zero:
  assumes "line_end R ch = Some n"
  shows "0 \<notin> set (take n R)"
proof -
  have "n = length (takeWhile (\<lambda>x. x \<noteq> ch \<and> x \<noteq> 0) R)" using assms by (auto simp: line_end_def Let_def split: if_splits)
  then have "take n R = takeWhile (\<lambda>x. x \<noteq> ch \<and> x \<noteq> 0) R" using takeWhile_eq_take by metis
  then show ?thesis by (auto dest: set_takeWhileD)
qed

lemma split_line_ok:
  assumes "0 \<notin> set h" "length h < 2 ^ 62"
  shows "\<exists>aux r. sdsnewlen A (Init h) (length h) = Some aux \<and> sdssplitargs A (sds_buf aux) = Some r \<and>
    (\<forall>ts. r = Some ts \<longrightarrow> list_all sds_ok ts) \<and> inline_args A h = map_option (map sds_str) r"
proof -
  obtain aux where aux: "sdsnewlen A (Init h) (length h) = Some aux" "sds_ok aux" "sds_str aux = h"
    using sdsnewlen_ok [of "length h" h A] assms(2) by auto
  have n: "hdr_len aux = length h" using aux length_sds_str by metis
  have "sds_buf aux ! i = h ! i" if "i < length h" for i using that aux(3) n nth_take by (metis sds_str_def)
  then have "cline (sds_buf aux) (length h)"
    using aux(2) n assms by (auto simp: cline_def sds_ok_def in_set_conv_nth)
  then obtain r where "sdssplitargs A (sds_buf aux) = Some r" "\<forall>ts. r = Some ts \<longrightarrow> list_all sds_ok ts"
    using args_loop_total [of "sds_buf aux" "length h" 0 "[]" A] by (auto simp: sdssplitargs_def)
  then show ?thesis using aux(1) by (simp add: inline_args_def)
qed

lemma set_argv_ok:
  fixes c :: in_client
  assumes "q_ok c" "client_room A ERROR_COST c" "list_all sds_ok ts" "q_pos c + m \<le> hdr_len (q_querybuf c)"
  defines "c' \<equiv> set_inline_argv ts (c\<lparr>q_pos := q_pos c + m\<rparr>)"
  shows "buf_inv A c'" "unread c' = drop m (unread c)" "map obj_str (q_argv c') = map sds_str ts" "c_flags c' = c_flags c" "input_frame c c'"
proof -
  have "list_all obj_ok (map (\<lambda>a. createObject (Ptr_sds a)) ts)" using assms(3) by (simp add: list.pred_map comp_def)
  then show "buf_inv A c'" using assms(1,2,4) by (simp add: c'_def set_inline_argv_def buf_inv_def q_ok_def Let_def)
  show u: "unread c' = drop m (unread c)" by (simp add: c'_def set_inline_argv_def unread_def Let_def add.commute)
  show "map obj_str (q_argv c') = map sds_str ts" "c_flags c' = c_flags c" by (simp_all add: c'_def set_inline_argv_def Let_def)
  show "input_frame c c'" using u by (simp add: c'_def set_inline_argv_def input_frame_def Let_def)
qed

lemma length_unread_less: "q_ok c \<Longrightarrow> length (unread c) < 2 ^ 62"
  by (simp add: unread_def q_ok_def less_imp_diff_less)

lemma inline_words_ok:
  fixes c :: in_client
  assumes inv: "buf_inv A c" "q_reqtype c = PROTO_REQ_INLINE" and L: "L = limits_of s c"
    and n: "line_end (unread c) 10 = Some n" "k + lf = n + 1" "k \<le> n"
      "inline_header (unread c) = (if PROTO_INLINE_MAX_SIZE < n then Long_line else Line (take k (unread c)) (drop (n + 1) (unread c)))"
  shows "\<exists>r. inline_words A s k lf c = Some r \<and> parse_result A L c r"
proof -
  let ?U = "unread c" and ?h = "take k (unread c)"
  have q: "q_ok c" and room: "client_room A ERROR_COST c" using inv(1) by (auto simp: buf_inv_def)
  have R: "resume A L c V = inline_request A L V" for V using inv(2) by (simp add: resume_def)
  have nl: "n < length ?U" using line_end_bound [OF n(1)] by simp
  obtain junk where t: "drop (q_pos c) (sds_buf (q_querybuf c)) = ?U @ 0 # junk" using buf_text [OF q] by blast
  have z: "0 \<notin> set ?h" using line_end_zero [OF n(1)] set_take_subset_set_take [OF n(3), of ?U] by auto
  have h: "length ?h = k" "length ?h < 2 ^ 62" using n(3) nl length_unread_less [OF q] by auto
  obtain aux r where a: "sdsnewlen A (Init ?h) k = Some aux" "sdssplitargs A (sds_buf aux) = Some r"
    "\<And>ts. r = Some ts \<Longrightarrow> list_all sds_ok ts" "inline_args A ?h = map_option (map sds_str) r"
    using split_line_ok [OF z h(2), of A] h(1) by auto
  have new: "sdsnewlen A (Init (drop (q_pos c) (sds_buf (q_querybuf c)))) k = Some aux"
    using newlen_prefix [of k "?U @ 0 # junk" A] a(1) h(1) t by simp
  show ?thesis
  proof (cases r)
    case None
    then have "resume A L c ?U = Bad \<or> resume A L c ?U = Huge" using a(4) n(4) by (simp add: R inline_request_def)
    then show ?thesis using reject_parse [OF inv(1), of "ascii ''Protocol error: unbalanced quotes in request''" L s] None new a(2)
      by (simp add: inline_words_def ascii_def)
  next
    case (Some ts)
    define d where "d = (if k = 0 \<and> getClientType c = CLIENT_TYPE_SLAVE then c\<lparr>q_repl_ack_time := net_unixtime (in_net s)\<rparr> else c)"
    have d: "q_ok d" "client_room A ERROR_COST d" "unread d = ?U" "c_flags d = c_flags c" "input_frame c d" "q_pos d = q_pos c" "q_querybuf d = q_querybuf c"
      using q room by (auto simp: d_def q_ok_def unread_def input_frame_def)
    have eq: "inline_words A s k lf c =
        (if k \<noteq> 0 \<and> has_flag d CLIENT_MASTER then Some (False, setProtocolError d) else Some (True, set_inline_argv ts (d\<lparr>q_pos := q_pos d + (n + 1)\<rparr>)))"
      unfolding inline_words_def n(2) Let_def d_def [symmetric] using new a(2) Some by simp
    have m: "lim_master L \<longleftrightarrow> has_flag d CLIENT_MASTER" using d(4) by (simp add: L limits_of_def has_flag_def)
    have k0: "?h = [] \<longleftrightarrow> k = 0" using h(1) by (cases ?h) auto
    show ?thesis
    proof (cases "k \<noteq> 0 \<and> has_flag d CLIENT_MASTER")
      case True
      then have "resume A L c ?U = Bad \<or> resume A L c ?U = Huge" using a(4) n(4) Some m k0 by (simp add: R inline_request_def)
      then have "parse_result A L c (False, setProtocolError d)"
        using protocol_error_facts [of d] d(1) input_frame_trans [OF d(5)] by (auto simp: parse_result_def Let_def)
      then show ?thesis using True unfolding eq by auto
    next
      case False
      let ?c = "set_inline_argv ts (d\<lparr>q_pos := q_pos d + (n + 1)\<rparr>)"
      have pos: "q_pos d + (n + 1) \<le> hdr_len (q_querybuf d)" using nl length_unread [OF q] d(6,7) by (simp add: sdslen_def)
      note c' = set_argv_ok [OF d(1,2) a(3) [OF Some] pos]
      have "resume A L c ?U = Huge \<or> resume A L c ?U = Ready (map obj_str (q_argv ?c)) (unread ?c)"
        using a(4) n(4) Some m k0 False c'(2,3) d(3) by (auto simp: R inline_request_def)
      moreover have "length (unread ?c) < length ?U" using c'(2) d(3) nl by simp
      ultimately have "parse_result A L c (True, ?c)"
        using c'(1,4) d(4) input_frame_trans [OF d(5) c'(5)] by (auto simp: parse_result_def buf_inv_def Let_def)
      then show ?thesis using False unfolding eq by auto
    qed
  qed
qed

lemma inline_line_ok:
  fixes c :: in_client
  assumes inv: "buf_inv A c" "q_reqtype c = PROTO_REQ_INLINE" and L: "L = limits_of s c" and n: "line_end (unread c) 10 = Some n"
  shows "\<exists>r. inline_line A s n c = Some r \<and> parse_result A L c r"
proof -
  have q: "q_ok c" using inv(1) by (simp add: buf_inv_def)
  obtain junk where t: "drop (q_pos c) (sds_buf (q_querybuf c)) = unread c @ 0 # junk" using buf_text [OF q] by blast
  have "n - 1 < length (unread c)" using line_end_bound [OF n] by linarith
  then have e: "drop (q_pos c) (sds_buf (q_querybuf c)) ! (n - 1) = unread c ! (n - 1)" unfolding t by (simp only: nth_append if_True)
  define k where "k = (if n \<noteq> 0 \<and> unread c ! (n - 1) = 13 then n - 1 else n)"
  have h: "inline_header (unread c) = (if PROTO_INLINE_MAX_SIZE < n then Long_line else Line (take k (unread c)) (drop (n + 1) (unread c)))"
    unfolding inline_header_def n k_def by (simp only: option.case)
  have i: "inline_line A s n c = inline_words A s k (n + 1 - k) c" unfolding inline_line_def e k_def
    by (cases "n \<noteq> 0 \<and> unread c ! (n - 1) = 13") auto
  have "k \<le> n" by (simp add: k_def)
  then show ?thesis unfolding i by (intro inline_words_ok [OF inv L n _ _ h]) simp_all
qed

lemma processInlineBuffer_ok:
  fixes c :: in_client
  assumes inv: "buf_inv A c" "request_inv c" "q_reqtype c = PROTO_REQ_INLINE" and L: "L = limits_of s c"
  shows "\<exists>r. processInlineBuffer A s c = Some r \<and> parse_result A L c r"
proof -
  have q: "q_ok c" using inv(1) by (simp add: buf_inv_def)
  have R: "resume A L c V = inline_request A L V" for V using inv(3) by (simp add: resume_def)
  obtain junk where t: "drop (q_pos c) (sds_buf (q_querybuf c)) = unread c @ 0 # junk" using buf_text [OF q] by blast
  have s: "strchr (drop (q_pos c) (sds_buf (q_querybuf c))) 10 = Some (line_end (unread c) 10)" unfolding t by (rule strchr_text) simp
  show ?thesis
  proof (cases "line_end (unread c) 10")
    case (Some n)
    then show ?thesis using inline_line_ok [OF inv(1,3) L Some] s by (simp add: processInlineBuffer_def)
  next
    case None
    have len: "length (unread c) = sdslen (q_querybuf c) - q_pos c" by (rule length_unread [OF q])
    show ?thesis
    proof (cases "PROTO_INLINE_MAX_SIZE < length (unread c)")
      case True
      have "resume A L c (unread c) = Huge" using True None by (simp add: R inline_request_def inline_header_def)
      then show ?thesis using reject_parse [OF inv(1), of "ascii ''Protocol error: too big inline request''" L s] s None True len
        by (simp add: processInlineBuffer_def ascii_def)
    next
      case False
      have "resume A L c (unread c) = More" using False None by (simp add: R inline_request_def inline_header_def)
      then have "parse_result A L c (False, c)" using inv q by (simp add: parse_result_def)
      then show ?thesis using s None False len by (simp add: processInlineBuffer_def)
    qed
  qed
qed

section \<open>One request\<close>

lemma parse_result_cong:
  assumes "parse_result A L c1 r" "unread c1 = unread c" "c_flags c1 = c_flags c" "input_frame c c1"
    "\<And>Y. resume A L c1 (unread c @ Y) = resume A L c (unread c @ Y)"
  shows "parse_result A L c r"
  using assms(1,2,3,5) assms(5) [of "[]"] input_frame_trans [OF assms(4), of "snd r"]
  by (auto simp: parse_result_def Let_def split: if_splits)

lemma parse_request_ok:
  fixes c :: in_client
  assumes inv: "buf_inv A c" "request_inv c" "unread c \<noteq> []" "\<not> gopher_enabled s"
    and L: "L = limits_of s c" "lim_bulk L \<le> 2 ^ 62" "lim_master L \<Longrightarrow> resume A L c (unread c) \<noteq> Huge"
  shows "\<exists>k c'. parse_request A H s c = Some (k, c') \<and> (k = Go \<or> k = Break) \<and> parse_result A L c (k = Go, c')"
proof -
  have q: "q_ok c" using inv(1) by (simp add: buf_inv_def)
  obtain junk where t: "drop (q_pos c) (sds_buf (q_querybuf c)) = unread c @ 0 # junk" using buf_text [OF q] by blast
  have ch: "mem_get (sds_buf (q_querybuf c)) (q_pos c) = Some (hd (unread c))"
  proof -
    have "q_pos c < length (sds_buf (q_querybuf c))" using t by (metis append_is_Nil_conv drop_eq_Nil list.distinct(1) not_le)
    moreover have "sds_buf (q_querybuf c) ! q_pos c = hd (unread c)"
      using t inv(3) calculation by (metis hd_append2 hd_drop_conv_nth)
    ultimately show ?thesis by (simp add: mem_get_def)
  qed
  define d where "d = (if q_reqtype c = No_request
    then c\<lparr>q_reqtype := (if hd (unread c) = 42 then PROTO_REQ_MULTIBULK else PROTO_REQ_INLINE)\<rparr> else c)"
  have d: "unread d = unread c" "c_flags d = c_flags c" "buf_inv A d" "input_frame c d" "limits_of s d = limits_of s c"
    using inv(1) by (auto simp: d_def unread_def buf_inv_def q_ok_def input_frame_def limits_of_def authRequired_def has_flag_def)
  have p: "request_inv d" "q_reqtype d \<noteq> No_request" using inv(2,3) by (auto simp: request_inv_def d_def idle_def unread_def)
  have r: "resume A L d (unread c @ Y) = resume A L c (unread c @ Y)" for Y
    using inv(2,3) by (auto simp: resume_def d_def request_def request_inv_def idle_def)
  have H: "lim_master L \<Longrightarrow> resume A L d (unread d) \<noteq> Huge" using L(3) r [of "[]"] d(1) by simp
  show ?thesis
  proof (cases "q_reqtype d = PROTO_REQ_INLINE")
    case True
    obtain ok c' where c': "processInlineBuffer A s d = Some (ok, c')" "parse_result A L d (ok, c')"
      using processInlineBuffer_ok [OF d(3) p(1) True, of L s] L(1) d(5) by auto
    have "parse_request A H s c = Some (if ok then Go else Break, c')"
      using ch c'(1) True inv(4) by (simp add: parse_request_def Let_def d_def [symmetric] gopher_request_def)
    then show ?thesis using parse_result_cong [OF c'(2) d(1,2,4) r] by (cases ok) auto
  next
    case False
    then have m: "q_reqtype d = PROTO_REQ_MULTIBULK" using p(2) by (cases "q_reqtype d") auto
    obtain ok c' where c': "processMultibulkBuffer A s d = Some (ok, c')" "parse_result A L d (ok, c')"
      using processMultibulkBuffer_ok [OF d(3) p(1) m _ L(2) H, of s] L(1) d(5) by auto
    have "parse_request A H s c = Some (if ok then Go else Break, c')"
      using ch c'(1) False by (simp add: parse_request_def Let_def d_def [symmetric])
    then show ?thesis using parse_result_cong [OF c'(2) d(1,2,4) r] by (cases ok) auto
  qed
qed

section \<open>Between requests\<close>

lemma clear_bits:
  "bit (c_flags (clear_flag CLIENT_ASKING c)) j \<longleftrightarrow> bit (c_flags c) j \<and> j \<noteq> 9"
  "bit (c_flags (clear_flag CLIENT_TRACKING_CACHING c)) j \<longleftrightarrow> bit (c_flags c) j \<and> j \<noteq> 36"
  "bit (c_flags (clear_flag CLIENT_REPLY_SKIP c)) j \<longleftrightarrow> bit (c_flags c) j \<and> j \<noteq> 24"
  "bit (c_flags (clear_flag CLIENT_REPLY_SKIP_NEXT c)) j \<longleftrightarrow> bit (c_flags c) j \<and> j \<noteq> 23"
  "bit (c_flags (set_flag CLIENT_REPLY_SKIP c)) j \<longleftrightarrow> bit (c_flags c) j \<or> j = 24"
  unfolding CLIENT_ASKING_def CLIENT_TRACKING_CACHING_def CLIENT_REPLY_SKIP_def CLIENT_REPLY_SKIP_NEXT_def bit_clear_flag bit_set_flag
  by (auto simp: flag_mask_bit simp del: push_bit_of_1)

lemma refs_ok: "list_all obj_ok os \<Longrightarrow> \<exists>rs. those (map decrRefCount os) = Some rs"
  by (induction os) (auto simp: obj_ok_def decrRefCount_def split: option.split)

text \<open>Only the fields of the request and a few flags change when a client is reset.\<close>

definition reset_of :: "in_client \<Rightarrow> in_client \<Rightarrow> bool" where
  "reset_of c c' \<longleftrightarrow> idle c' \<and> q_reqtype c' = No_request \<and> q_querybuf c' = q_querybuf c \<and> q_pos c' = q_pos c \<and>
     q_reploff c' = q_reploff c \<and> q_read_reploff c' = q_read_reploff c \<and> q_pending_querybuf c' = q_pending_querybuf c \<and>
     q_authenticated c' = q_authenticated c \<and> (\<forall>i. i \<notin> {9, 23, 24, 36} \<longrightarrow> bit (c_flags c') i = bit (c_flags c) i) \<and>
     (\<forall>A n. client_room A n c' = client_room A n c)"

lemma room_flags [simp]: "client_room A n (set_flag m c) = client_room A n c" "client_room A n (clear_flag m c) = client_room A n c"
  by (simp_all add: client_room_def out_inv_def set_flag_def clear_flag_def)

lemma more_flags [simp]: "client.more (set_flag m c) = client.more c" "client.more (clear_flag m c) = client.more c"
  by (simp_all add: set_flag_def clear_flag_def)

lemma reset_flags:
  assumes "reset_of c d"
  shows "reset_of c (clear_flag CLIENT_ASKING d)" "reset_of c (clear_flag CLIENT_TRACKING_CACHING d)" "reset_of c (clear_flag CLIENT_REPLY_SKIP d)"
    "reset_of c (clear_flag CLIENT_REPLY_SKIP_NEXT d)" "reset_of c (set_flag CLIENT_REPLY_SKIP d)"
proof -
  have k: "reset_of c d'" if "client.more d' = client.more d" "\<forall>i. i \<notin> {9, 23, 24, 36} \<longrightarrow> bit (c_flags d') i = bit (c_flags d) i"
    "\<forall>A n. client_room A n d' = client_room A n d" for d'
  proof -
    have "q_multibulklen d' = q_multibulklen d" "q_bulklen d' = q_bulklen d" "q_reqtype d' = q_reqtype d" using that(1) by (cases d; cases d'; simp)+
    then show ?thesis using assms that(2,3) same_more [OF that(1)] by (simp add: reset_of_def idle_def)
  qed
  show "reset_of c (clear_flag CLIENT_ASKING d)" "reset_of c (clear_flag CLIENT_TRACKING_CACHING d)" "reset_of c (clear_flag CLIENT_REPLY_SKIP d)"
    "reset_of c (clear_flag CLIENT_REPLY_SKIP_NEXT d)" "reset_of c (set_flag CLIENT_REPLY_SKIP d)"
    by (rule k; simp add: clear_bits)+
qed

lemma resetClient_ok:
  assumes "list_all obj_ok (q_argv c)"
  shows "\<exists>c'. resetClient c = Some c' \<and> reset_of c c'"
proof -
  obtain rs where "those (map decrRefCount (q_argv c)) = Some rs" using refs_ok [OF assms] by blast
  moreover have "reset_of c (c\<lparr>q_argv := [], q_cmd := None, q_argv_len_sum := 0, q_reqtype := No_request, q_multibulklen := 0, q_bulklen := - 1,
      q_deferred_reply_errors := None\<rparr>)"
    by (simp add: reset_of_def idle_def client_room_def out_inv_def)
  ultimately show ?thesis
    by (simp add: resetClient_def freeClientArgv_def Let_def reset_flags)
qed

end
