(* ===== verification/Request_Stream.thy ===== *)
theory Request_Stream
  imports Request_Parse
begin

text \<open>
  A client that reads a stream in pieces. The loop over the requests in the query buffer is followed in the locale
  \<open>request_loop\<close>, whose laws say what the commands and the settings leave alone. The client of a user interprets it: the
  commands that are run are the ones that \<open>Request_Spec\<close> finds in the bytes received.
\<close>

section \<open>Position in the stream\<close>

text \<open>The bytes \<open>B\<close> consist of the requests \<open>X\<close> and of a beginning of a request, of which the client has read a part.\<close>

definition track :: "allocator \<Rightarrow> limits \<Rightarrow> bytes \<Rightarrow> bytes list list \<Rightarrow> in_client \<Rightarrow> bool" where
  "track A L B X c \<longleftrightarrow>
     (\<exists>B0 R. B = B0 @ R \<and> consumed A L B0 X \<and> (\<forall>Y. request A L (R @ Y) = resume A L c (unread c @ Y)))"

abbreviation fate :: "allocator \<Rightarrow> limits \<Rightarrow> bytes \<Rightarrow> ending" where
  "fate A L B \<equiv> fst (snd (requests A L B))"

lemma requests_settled:
  "request A L R = More \<Longrightarrow> requests A L R = ([], Waiting, R)" "request A L R = Bad \<Longrightarrow> requests A L R = ([], Failed, R)"
  "request A L R = Huge \<Longrightarrow> requests A L R = ([], Undetermined, R)"
  by (simp_all add: requests.simps [of A L R])

lemma track_request:
  assumes "track A L B X c"
  obtains B0 R where "B = B0 @ R" "consumed A L B0 X" "request A L R = resume A L c (unread c)"
    "requests A L B = map_prod (append X) id (requests A L R)"
proof -
  obtain B0 R where *: "B = B0 @ R" "consumed A L B0 X" "\<forall>Y. request A L (R @ Y) = resume A L c (unread c @ Y)"
    using assms by (auto simp: track_def)
  then have "request A L R = resume A L c (unread c)" "requests A L B = map_prod (append X) id (requests A L R)"
    using spec [OF *(3), of "[]"] by (simp_all add: consumed_def)
  with * show thesis using that by blast
qed

lemma track_settled:
  assumes "track A L B X c"
  shows "resume A L c (unread c) = More \<Longrightarrow> \<exists>R. requests A L B = (X, Waiting, R)"
    "resume A L c (unread c) = Bad \<Longrightarrow> \<exists>R. requests A L B = (X, Failed, R)"
    "resume A L c (unread c) = Huge \<Longrightarrow> fate A L B = Undetermined"
    "\<exists>Y e R. requests A L B = (X @ Y, e, R)"
proof -
  obtain B0 R where *: "request A L R = resume A L c (unread c)" "requests A L B = map_prod (append X) id (requests A L R)"
    using track_request [OF assms] by blast
  show "resume A L c (unread c) = More \<Longrightarrow> \<exists>R. requests A L B = (X, Waiting, R)" using * requests_settled(1) [of A L R] by simp
  show "resume A L c (unread c) = Bad \<Longrightarrow> \<exists>R. requests A L B = (X, Failed, R)" using * requests_settled(2) [of A L R] by simp
  show "resume A L c (unread c) = Huge \<Longrightarrow> fate A L B = Undetermined" using * requests_settled(3) [of A L R] by simp
  show "\<exists>Y e R. requests A L B = (X @ Y, e, R)" using *(2) by (cases "requests A L R") simp
qed

lemma track_more:
  assumes "track A L B X c" "\<And>Y. resume A L c (unread c @ Y) = resume A L c' (unread c' @ Y)"
  shows "track A L B X c'"
  using assms by (auto simp: track_def)

lemma track_append: "track A L B X c \<Longrightarrow> unread c' = unread c @ bs \<Longrightarrow> (\<And>R. resume A L c' R = resume A L c R) \<Longrightarrow> track A L (B @ bs) X c'"
  unfolding track_def by (metis append.assoc)

text \<open>A complete request, after which the client is idle.\<close>

lemma track_next:
  assumes "track A L B X c" "resume A L c (unread c) = Ready as U" "X' = X @ (if as = [] then [] else [as])"
  shows "\<exists>B0. B = B0 @ U \<and> consumed A L B0 X'"
    "unread c' = U \<Longrightarrow> q_reqtype c' = No_request \<Longrightarrow> track A L B X' c'"
proof -
  obtain B0 R where *: "B = B0 @ R" "consumed A L B0 X" "request A L R = Ready as U"
    using track_request [OF assms(1)] assms(2) by metis
  obtain R1 where R1: "R = R1 @ U" "\<And>Y. request A L (R1 @ Y) = Ready as Y" using request_split [OF *(3)] by blast
  have c: "consumed A L (B0 @ R1) X'" unfolding assms(3) by (rule consumed_append [OF *(2) consumed_request [OF R1(2)]])
  then show "\<exists>B0. B = B0 @ U \<and> consumed A L B0 X'" using *(1) R1(1) by (intro exI [of _ "B0 @ R1"]) simp
  show "track A L B X' c'" if "unread c' = U" "q_reqtype c' = No_request"
    unfolding track_def using c *(1) R1(1) that by (intro exI [of _ "B0 @ R1"] exI [of _ U]) (simp add: resume_def)
qed

lemma bulks_Nil: "n \<noteq> 0 \<Longrightarrow> bulks L n [] = More"
  by (cases n) (simp_all add: bulks_Suc header_def line_end_def)

lemma idle_waits: "request_inv c \<Longrightarrow> unread c = [] \<Longrightarrow> resume A L c [] = More"
  by (auto simp: request_inv_def resume_def request_def resume_args_def args_inv_def body_def bulks_Nil split: req_type.splits)

section \<open>The loop over the requests\<close>

text \<open>What was received belongs to the fields of a master; the query buffer is dealt with separately.\<close>

definition received :: "bytes \<Rightarrow> in_client \<Rightarrow> in_client \<Rightarrow> bool" where
  "received bs c c' \<longleftrightarrow> q_reploff c' = q_reploff c \<and> q_authenticated c' = q_authenticated c \<and> c_flags c' = c_flags c \<and>
     (\<forall>A n. client_room A n c' = client_room A n c) \<and>
     (if has_flag c CLIENT_MASTER
      then q_read_reploff c' = q_read_reploff c + int (length bs) \<and> sds_ok (q_pending_querybuf c') \<and>
        sds_str (q_pending_querybuf c') = sds_str (q_pending_querybuf c) @ bs
      else q_read_reploff c' = q_read_reploff c \<and> q_pending_querybuf c' = q_pending_querybuf c)"

text \<open>The client goes on, has sent a wrong request, or waits for something else than input.\<close>

definition active :: "allocator \<Rightarrow> limits \<Rightarrow> bytes \<Rightarrow> bytes list list \<Rightarrow> in_client \<Rightarrow> bool" where
  "active A L B X c \<longleftrightarrow> buf_inv A c \<and> request_inv c \<and> \<not> has_flag c CLIENT_PROTOCOL_ERROR \<and> (fate A L B = Undetermined \<or> track A L B X c)"

definition ended :: "allocator \<Rightarrow> limits \<Rightarrow> bytes \<Rightarrow> bytes list list \<Rightarrow> 'd in_server \<Rightarrow> in_client \<Rightarrow> bool" where
  "ended A L B X s c \<longleftrightarrow> input_blocked s c \<and>
     (fate A L B = Undetermined \<or>
      (if has_flag c CLIENT_PROTOCOL_ERROR then \<exists>R. requests A L B = (X, Failed, R) else \<exists>Y e R. requests A L B = (X @ Y, e, R)))"

definition resting :: "allocator \<Rightarrow> limits \<Rightarrow> bytes \<Rightarrow> bytes list list \<Rightarrow> 'd in_server \<Rightarrow> in_client \<Rightarrow> bool" where
  "resting A L B X s c \<longleftrightarrow>
     ended A L B X s c \<or> \<not> input_blocked s c \<and> active A L B X c \<and> (fate A L B = Undetermined \<or> resume A L c (unread c) = More)"

lemma blocked_closing: "closing c \<Longrightarrow> input_blocked s c"
  by (simp add: closing_def input_blocked_def has_flag_or)

lemma active_blocked: "active A L B X c \<Longrightarrow> input_blocked s c \<Longrightarrow> ended A L B X s c"
  using track_settled(4) by (auto simp: active_def ended_def)

lemma blocked_flags: "c_flags c' = c_flags c \<Longrightarrow> input_blocked s c' = input_blocked s c"
  by (simp add: input_blocked_def has_flag_def)

text \<open>The end of a read in the middle of a request, or at a wrong one.\<close>

lemma resting_parse:
  assumes "active A L B X c" "\<not> input_blocked s c" "parse_result A L c (False, c')"
  shows "resting A L B X s c'"
proof (cases "closing c'")
  case True
  then have R: "resume A L c (unread c) = Bad \<or> resume A L c (unread c) = Huge \<or> c_flags c' = c_flags c"
    using assms(3) by (auto simp: parse_result_def Let_def)
  have "c_flags c' \<noteq> c_flags c" using True assms(1) by (auto simp: active_def closing_def has_flag_def)
  then have "fate A L B = Undetermined \<or> (\<exists>R. requests A L B = (X, Failed, R))"
    using R assms(1) track_settled(2,3) [of A L B X c] by (auto simp: active_def)
  then show ?thesis using True blocked_closing [OF True, of s] by (auto simp: resting_def ended_def closing_def)
next
  case False
  then have *: "buf_inv A c'" "request_inv c'" "c_flags c' = c_flags c" "resume A L c (unread c) = More \<or> resume A L c (unread c) = Huge"
    "resume A L c (unread c) \<noteq> Huge \<Longrightarrow> resume A L c (unread c @ Y) = resume A L c' (unread c' @ Y)" for Y
    using assms(3) by (auto simp: parse_result_def Let_def)
  have "fate A L B = Undetermined \<or> track A L B X c' \<and> resume A L c' (unread c') = More"
  proof (cases "resume A L c (unread c) = Huge")
    case True
    then show ?thesis using assms(1) track_settled(3) [of A L B X c] by (auto simp: active_def)
  next
    case n: False
    have m: "resume A L c' (unread c') = More" using n *(4) *(5) [OF n, of "[]"] by simp
    have "track A L B X c \<Longrightarrow> track A L B X c'" by (rule track_more [OF _ *(5) [OF n]])
    then show ?thesis using assms(1) m by (auto simp: active_def)
  qed
  then show ?thesis using assms(1,2) *(1-3) blocked_flags [OF *(3), of s]
    by (auto simp: resting_def active_def has_flag_def)
qed

text \<open>The environment of the loop: an invariant \<open>I\<close> of the server and the client, about the bytes received so far and the commands
  run so far. It is kept by reading and by resetting the client, and running a command adds the command.\<close>

locale request_loop =
  fixes A :: allocator and H :: "'d handlers" and L :: limits and N :: nat
    and I :: "bytes \<Rightarrow> bytes list list \<Rightarrow> 'd in_server \<Rightarrow> in_client \<Rightarrow> bool"
  assumes config_law: "I B X s c \<Longrightarrow> limits_of s c = L \<and> N < 2 ^ 62 \<and> lim_bulk L \<le> 2 ^ 62 \<and> \<not> gopher_enabled s \<and> \<not> has_flag c CLIENT_PENDING_READ \<and> \<not> has_flag c CLIENT_LUA \<and>
      \<not> (io_threads_active s \<and> io_threads_do_reads s) \<and> (lim_master L \<longrightarrow> fate A L B \<noteq> Undetermined) \<and>
      (has_flag c CLIENT_MASTER \<longrightarrow> sds_ok (q_pending_querybuf c) \<and> hdr_len (q_pending_querybuf c) \<le> length B)"
    and frame_law: "I B X s c \<Longrightarrow> input_frame c c' \<Longrightarrow> I B X s c'"
    and reset_law: "I B X s c \<Longrightarrow> reset_of c c' \<Longrightarrow> I B X s c'"
    and receive_law: "I B X s c \<Longrightarrow> received bs c c' \<Longrightarrow> lim_master L \<longrightarrow> fate A L (B @ bs) \<noteq> Undetermined \<Longrightarrow> length (B @ bs) \<le> N \<Longrightarrow>
      I (B @ bs) X s c'"
    and command_law: "I B X s c \<Longrightarrow> length X < length B \<Longrightarrow> buf_inv A c \<Longrightarrow> q_argv c \<noteq> [] \<Longrightarrow> \<not> input_blocked s c \<Longrightarrow>
      lim_master L \<longrightarrow> (\<exists>B0. B = B0 @ unread c \<and> consumed A L B0 (X @ [map obj_str (q_argv c)])) \<Longrightarrow>
      \<not> has_flag c CLIENT_PROTOCOL_ERROR \<Longrightarrow>
      \<exists>s' c'. processCommandAndResetClient A H s c = Some (True, s', c') \<and> I B (X @ [map obj_str (q_argv c)]) s' c' \<and>
        q_querybuf c' = q_querybuf c \<and> q_pos c' = q_pos c \<and> \<not> has_flag c' CLIENT_PROTOCOL_ERROR \<and>
        (\<not> input_blocked s' c' \<longrightarrow> idle c' \<and> q_reqtype c' = No_request \<and> buf_inv A c')"
begin

lemma run_request_ok:
  assumes I: "I B X s c" and a: "active A L B X c" "\<not> input_blocked s c" and p: "parse_result A L c (True, c1)"
    and n: "length X + length (unread c) \<le> length B"
  shows "\<exists>X2 s2 c2. run_request A H s c1 = Some (Go, s2, c2) \<and> I B X2 s2 c2 \<and> unread c2 = unread c1 \<and> q_ok c2 \<and>
    length X2 + length (unread c2) \<le> length B \<and> (active A L B X2 c2 \<or> ended A L B X2 s2 c2)"
proof -
  let ?as = "map obj_str (q_argv c1)"
  have c1: "buf_inv A c1" "c_flags c1 = c_flags c" "input_frame c c1" "q_ok c1"
    "resume A L c (unread c) = Huge \<or> resume A L c (unread c) = Ready ?as (unread c1)"
    using p by (auto simp: parse_result_def Let_def)
  have l: "length X + length (unread c1) < length B" using p n by (auto simp: parse_result_def Let_def)
  have I1: "I B X s c1" by (rule frame_law [OF I c1(3)])
  have np: "\<not> has_flag c1 CLIENT_PROTOCOL_ERROR" "\<not> input_blocked s c1" using a c1(2) blocked_flags [OF c1(2), of s] by (auto simp: active_def has_flag_def)
  have tr: "fate A L B = Undetermined \<or> track A L B X c \<and> resume A L c (unread c) = Ready ?as (unread c1)"
    using a(1) c1(5) track_settled(3) [of A L B X c] by (auto simp: active_def)
  show ?thesis
  proof (cases "q_argv c1 = []")
    case True
    obtain c2 where c2: "resetClient c1 = Some c2" "reset_of c1 c2" using resetClient_ok [of c1] True by auto
    have u: "unread c2 = unread c1" "q_ok c2" using c2(2) c1(4) by (simp_all add: reset_of_def unread_def q_ok_def)
    have "active A L B X c2" using c2(2) u c1(1) np(1) tr True track_next(2) [of A L B X c "[]" "unread c1" X c2]
      by (auto simp: active_def reset_of_def idle_def request_inv_def buf_inv_def rq_flag_bits)
    then show ?thesis using True c2(1) u l reset_law [OF I1 c2(2)] by (auto simp: run_request_def)
  next
    case False
    have next1: "\<exists>B0. B = B0 @ unread c1 \<and> consumed A L B0 (X @ [?as])" if "fate A L B \<noteq> Undetermined"
      using track_next(1) [of A L B X c ?as "unread c1" "X @ [?as]"] tr that False by auto
    obtain s2 c2 where c2: "processCommandAndResetClient A H s c1 = Some (True, s2, c2)" "I B (X @ [?as]) s2 c2"
      "q_querybuf c2 = q_querybuf c1" "q_pos c2 = q_pos c1" "\<not> has_flag c2 CLIENT_PROTOCOL_ERROR"
      "\<not> input_blocked s2 c2 \<longrightarrow> idle c2 \<and> q_reqtype c2 = No_request \<and> buf_inv A c2"
      using command_law [OF I1 _ c1(1) False np(2) _ np(1)] next1 config_law [OF I] l by (metis add_lessD1)
    have u: "unread c2 = unread c1" "q_ok c2" using c2(3,4) c1(4) by (simp_all add: unread_def q_ok_def)
    have "active A L B (X @ [?as]) c2 \<or> ended A L B (X @ [?as]) s2 c2"
    proof (cases "input_blocked s2 c2")
      case True
      have "\<exists>Y e R. requests A L B = ((X @ [?as]) @ Y, e, R)" if "fate A L B \<noteq> Undetermined"
        using next1 [OF that] by (cases "requests A L (unread c1)") (auto simp: consumed_def)
      then show ?thesis using True c2(5) by (auto simp: ended_def)
    next
      case nb: False
      then show ?thesis using c2(5,6) u tr False track_next(2) [of A L B X c ?as "unread c1" "X @ [?as]" c2]
        by (auto simp: active_def request_inv_def)
    qed
    moreover have "run_request A H s c1 = Some (Go, s2, c2)"
      using False c2(1) config_law [OF I1] by (simp add: run_request_def)
    moreover have "length (X @ [?as]) + length (unread c2) \<le> length B" using l u(1) by simp
    ultimately show ?thesis using c2(2) u by blast
  qed
qed

lemma input_loop_ok:
  assumes "I B X s c" "active A L B X c" "length X + length (unread c) \<le> length B"
  shows "\<exists>X' s' c'. input_loop A H s c = Some (Break, s', c') \<and> I B X' s' c' \<and> q_ok c' \<and> length X' + length (unread c') \<le> length B \<and>
    resting A L B X' s' c'"
  using assms
proof (induction "length (unread c)" arbitrary: X s c rule: less_induct)
  case less
  have q: "q_ok c" using less.prems(2) by (simp add: active_def buf_inv_def)
  show ?case
  proof (cases "\<not> q_pos c < sdslen (q_querybuf c) \<or> input_blocked s c")
    case True
    then have "input_loop A H s c = Some (Break, s, c)" by (simp add: input_loop.simps)
    moreover have "resting A L B X s c"
      using True active_blocked [OF less.prems(2), of s] less.prems(2) idle_waits [of c A L] length_unread [OF q]
      by (cases "input_blocked s c") (auto simp: resting_def active_def)
    ultimately show ?thesis using less.prems(1,3) q by blast
  next
    case False
    then have u: "unread c \<noteq> []" "\<not> input_blocked s c" using length_unread [OF q] by auto
    have conf: "L = limits_of s c" "lim_bulk L \<le> 2 ^ 62" "\<not> gopher_enabled s" "lim_master L \<Longrightarrow> fate A L B \<noteq> Undetermined"
      using config_law [OF less.prems(1)] by auto
    have inv: "buf_inv A c" "request_inv c" "lim_master L \<Longrightarrow> resume A L c (unread c) \<noteq> Huge"
      using less.prems(2) conf(4) track_settled(3) [of A L B X c] by (auto simp: active_def)
    obtain k c1 where k: "parse_request A H s c = Some (k, c1)" "k = Go \<or> k = Break" "parse_result A L c (k = Go, c1)"
      using parse_request_ok [OF inv(1,2) u(1) conf(3,1,2) inv(3), of H] by blast
    have c1: "q_ok c1" "input_frame c c1" "k = Go \<Longrightarrow> length (unread c1) < length (unread c)" using k(3) by (auto simp: parse_result_def Let_def)
    show ?thesis
    proof (cases "k = Go")
      case False
      have "input_loop A H s c = Some (Break, s, c1)" using k False u \<open>\<not> (\<not> q_pos c < _ \<or> _)\<close> by (subst input_loop.simps) auto
      then show ?thesis using resting_parse [OF less.prems(2) u(2), of c1] k(3) False c1 frame_law [OF less.prems(1) c1(2)] less.prems(3)
        by (fastforce simp: input_frame_def)
    next
      case True
      obtain X2 s2 c2 where c2: "run_request A H s c1 = Some (Go, s2, c2)" "I B X2 s2 c2" "unread c2 = unread c1" "q_ok c2"
        "length X2 + length (unread c2) \<le> length B" "active A L B X2 c2 \<or> ended A L B X2 s2 c2"
        using run_request_ok [OF less.prems(1,2) u(2) _ less.prems(3), of c1] k(3) True by auto
      have l: "input_loop A H s c = input_loop A H s2 c2" using k(1) c2(1) True \<open>\<not> (\<not> q_pos c < _ \<or> _)\<close> by (subst input_loop.simps) simp
      have d: "length (unread c2) < length (unread c)" using c1(3) True c2(3) by simp
      show ?thesis
      proof (cases "active A L B X2 c2")
        case True
        then show ?thesis using less.hyps [OF d c2(2) True c2(5)] unfolding l by blast
      next
        case False
        then have "ended A L B X2 s2 c2" using c2(6) by simp
        moreover from this have "input_loop A H s2 c2 = Some (Break, s2, c2)" by (subst input_loop.simps) (simp add: ended_def)
        ultimately show ?thesis using l c2(2,4,5) by (auto simp: resting_def)
      qed
    qed
  qed
qed

end

section \<open>Reading\<close>

definition same_request :: "in_client \<Rightarrow> in_client \<Rightarrow> bool" where
  "same_request c c' \<longleftrightarrow> q_reqtype c' = q_reqtype c \<and> q_multibulklen c' = q_multibulklen c \<and> q_bulklen c' = q_bulklen c \<and>
     q_argv c' = q_argv c \<and> q_argv_alloc c' = q_argv_alloc c"

lemma same_request_facts:
  assumes "same_request c c'"
  shows "resume A L c' R = resume A L c R" "idle c' = idle c" "args_inv c' = args_inv c"
  using assms by (auto simp: same_request_def resume_def resume_args_def idle_def args_inv_def split: req_type.split)

lemma same_request_parse:
  "same_request c c' \<Longrightarrow> request_inv c \<Longrightarrow> unread c' = unread c @ bs \<Longrightarrow> request_inv c'"
  using same_request_facts [of c c'] by (auto simp: request_inv_def same_request_def split: req_type.splits)

lemma resting_cong:
  assumes "resting A L B X s c" "same_request c c'" "c_flags c' = c_flags c" "client_room A ERROR_COST c' = client_room A ERROR_COST c"
    "unread c' = unread c" "q_ok c'"
  shows "resting A L B X s c'"
proof -
  have f: "has_flag c' m = has_flag c m" "input_blocked s c' = input_blocked s c" for m using assms(3) by (simp_all add: has_flag_def input_blocked_def)
  have "request_inv c \<Longrightarrow> request_inv c'" using same_request_parse [OF assms(2), of "[]"] assms(5) by simp
  moreover have "buf_inv A c \<Longrightarrow> buf_inv A c'" using assms(2,4,6) by (simp add: buf_inv_def same_request_def)
  ultimately show ?thesis using assms(1,5) same_request_facts(1) [OF assms(2)] f
    by (auto simp: resting_def active_def ended_def track_def)
qed

lemma trim_facts:
  assumes "q_ok c" "sds_ok b" "sds_str b = unread c"
  shows "q_ok (c\<lparr>q_querybuf := b, q_pos := 0\<rparr>)" "unread (c\<lparr>q_querybuf := b, q_pos := 0\<rparr>) = unread c"
proof -
  have "hdr_len b = length (unread c)" using assms(2,3) length_sds_str by metis
  then show "q_ok (c\<lparr>q_querybuf := b, q_pos := 0\<rparr>)" using assms(2) length_unread_less [OF assms(1)] by (simp add: q_ok_def)
  show "unread (c\<lparr>q_querybuf := b, q_pos := 0\<rparr>) = unread c" using assms(3) by (simp add: unread_def)
qed

text \<open>More bytes for a client that is at rest.\<close>

lemma ended_append:
  assumes "ended A L B X s c" "input_blocked s c'" "has_flag c' CLIENT_PROTOCOL_ERROR = has_flag c CLIENT_PROTOCOL_ERROR"
  shows "ended A L (B @ bs) X s c'"
proof -
  obtain Z e R where B: "requests A L B = (Z, e, R)" by (cases "requests A L B")
  obtain Y f R' where Y: "requests A L (B @ bs) = (Z @ Y, f, R')" "e \<noteq> Waiting \<Longrightarrow> Y = [] \<and> f = e" using requests_append [OF B] by blast
  then show ?thesis using assms B by (auto simp: ended_def)
qed

lemma fate_append: "fate A L B = Undetermined \<Longrightarrow> fate A L (B @ bs) = Undetermined"
  using requests_append [of A L B] by (metis ending.distinct(3) fst_conv snd_conv surj_pair)

lemma active_append:
  assumes "active A L B X c" "buf_inv A c'" "unread c' = unread c @ bs" "c_flags c' = c_flags c" "same_request c c'"
  shows "active A L (B @ bs) X c'"
proof -
  have "track A L B X c \<Longrightarrow> track A L (B @ bs) X c'" using track_append assms(3) same_request_facts(1) [OF assms(5)] by blast
  then show ?thesis using assms(1,2,4) fate_append same_request_parse [OF assms(5) _ assms(3)] by (auto simp: active_def has_flag_def)
qed

context request_loop
begin

lemma processInputBuffer_ok:
  assumes "I B X s c" "active A L B X c \<or> ended A L B X s c" "q_ok c" "length X + length (unread c) \<le> length B"
  shows "\<exists>X' s' c'. processInputBuffer A H s c = Some (s', c') \<and> I B X' s' c' \<and> q_ok c' \<and> q_pos c' = 0 \<and>
    length X' + length (unread c') \<le> length B \<and> resting A L B X' s' c'"
proof -
  obtain X1 s1 c1 where c1: "input_loop A H s c = Some (Break, s1, c1)" "I B X1 s1 c1" "q_ok c1" "length X1 + length (unread c1) \<le> length B"
    "resting A L B X1 s1 c1"
  proof (cases "active A L B X c")
    case True
    then show thesis using input_loop_ok [OF assms(1) True assms(4)] that by blast
  next
    case False
    then have e: "ended A L B X s c" using assms(2) by simp
    then have "input_loop A H s c = Some (Break, s, c)" by (subst input_loop.simps) (simp add: ended_def)
    then show thesis using that e assms(1,3,4) by (auto simp: resting_def)
  qed
  obtain b where b: "sdsrange (q_querybuf c1) (int (q_pos c1)) (- 1) = Some b" "sds_ok b" "sds_str b = unread c1" using trim_pos_ok [OF c1(3)] by blast
  show ?thesis
  proof (cases "q_pos c1 = 0")
    case True
    then show ?thesis using c1 by (auto simp: processInputBuffer_def)
  next
    case False
    let ?c = "c1\<lparr>q_querybuf := b, q_pos := 0\<rparr>"
    note t = trim_facts [OF c1(3) b(2,3)]
    have "resting A L B X1 s1 ?c" by (rule resting_cong [OF c1(5) _ _ _ t(2,1)]) (simp_all add: same_request_def)
    moreover have "input_frame c1 ?c" using t(2) by (simp add: input_frame_def)
    moreover have "processInputBuffer A H s c = Some (s1, ?c)" using c1(1) b(1) False by (simp add: processInputBuffer_def)
    ultimately show ?thesis using frame_law [OF c1(2)] t c1(4) by auto
  qed
qed

end

lemma read_length_bounds: "0 < read_length c" "read_length c \<le> PROTO_IOBUF_LEN"
  by (auto simp: read_length_def Let_def PROTO_IOBUF_LEN_def)

lemma room_type: "sds_ok s \<Longrightarrow> 0 < n \<Longrightarrow> n \<le> sdsavail s \<Longrightarrow> sds_type s \<noteq> SDS_TYPE_5"
  by (auto simp: sdsavail_eq sdsalloc_def)

text \<open>Bytes that arrive at the end of a string with room for them.\<close>

lemma append_in_place:
  assumes "sds_ok s" "bs \<noteq> []" "length bs \<le> sdsavail s" "length bs < 2 ^ 32"
  shows "\<exists>t s'. buf_write s (sdslen s) bs = Some t \<and> sdsIncrLen t (int (length bs)) = Some s' \<and> sds_ok s' \<and> sds_str s' = sds_str s @ bs"
proof -
  have ty: "sds_type s \<noteq> SDS_TYPE_5" using room_type [OF assms(1) _ assms(3)] assms(2) by simp
  have len: "hdr_len s + length bs \<le> sdsalloc s" "sdsalloc s < length (sds_buf s)" using alloc_of_avail [OF assms(1,3)] assms(1) by (auto simp: sds_ok_def)
  define t where "t = s\<lparr>sds_buf := take (hdr_len s) (sds_buf s) @ bs @ drop (hdr_len s + length bs) (sds_buf s)\<rparr>"
  have w: "buf_write s (sdslen s) bs = Some t" using len by (simp add: buf_write_def sdslen_def mem_write_eq t_def)
  have fit: "sds_fit t" using assms(1) len by (auto simp: t_def sds_fit_def sds_ok_def sdsalloc_def)
  obtain s' where s': "sdsIncrLen t (int (length bs)) = Some s'" "sds_ok s'" "sds_str s' = take (nat (int (hdr_len t) + int (length bs))) (sds_buf t)"
    using sds_set_end [OF fit, of "int (length bs)"] ty len assms(4) by (auto simp: t_def sdsalloc_def)
  have "sds_str s' = sds_str s @ bs" using s'(3) len by (simp add: t_def sds_str_def nat_add_distrib)
  then show ?thesis using w s'(1,2) by blast
qed

lemma free_async_facts:
  assumes "\<not> has_flag c CLIENT_LUA"
  shows "has_flag (freeClientAsync c) CLIENT_CLOSE_ASAP" "client.more (freeClientAsync c) = client.more c" "flags_grow c (freeClientAsync c)"
  using assms free_facts(2) [of c] by (auto simp: freeClientAsync_def flag_simps)

lemma read_fields [simp]:
  "client_room A n (c\<lparr>q_peak := k\<rparr>) = client_room A n c" "client_room A n (c\<lparr>q_pending_querybuf := b\<rparr>) = client_room A n c"
  "client_room A n (c\<lparr>c_lastinteraction := i\<rparr>) = client_room A n c" "client_room A n (c\<lparr>q_read_reploff := i\<rparr>) = client_room A n c"
  "client_room A n (c\<lparr>q_reploff := i\<rparr>) = client_room A n c"
  "client_room A n (freeClientAsync c) = client_room A n c"
  by (simp_all add: client_room_def out_inv_def freeClientAsync_def set_flag_def)

lemma input_frame_free: "\<not> has_flag c CLIENT_LUA \<Longrightarrow> input_frame c (freeClientAsync c)"
  using free_async_facts [of c] same_more [OF free_async_facts(2) [of c]] by (simp add: input_frame_def flags_grow_def unread_def)

text \<open>Making room and receiving, as far as the request is concerned.\<close>

definition same_input :: "allocator \<Rightarrow> bytes \<Rightarrow> in_client \<Rightarrow> in_client \<Rightarrow> bool" where
  "same_input A bs c c' \<longleftrightarrow> q_ok c' \<and> q_pos c' = 0 \<and> unread c' = unread c @ bs \<and> same_request c c' \<and> c_flags c' = c_flags c \<and>
     q_reploff c' = q_reploff c \<and> q_authenticated c' = q_authenticated c \<and> client_room A ERROR_COST c' = client_room A ERROR_COST c"

lemma prepare_read_ok:
  assumes "q_ok c" "q_pos c = 0" "n \<le> PROTO_IOBUF_LEN"
  shows "\<exists>c'. prepare_read A n c = Some c' \<and> same_input A [] c c' \<and> n \<le> sdsavail (q_querybuf c') \<and> input_frame c c'"
proof -
  have u: "unread c = sds_str (q_querybuf c)" "sds_ok (q_querybuf c)" using assms(1,2) by (auto simp: unread_def q_ok_def)
  have "hdr_len (q_querybuf c) + n < 2 ^ 63" using assms(1,3) by (simp add: q_ok_def PROTO_IOBUF_LEN_def)
  then obtain b where b: "sdsMakeRoomFor A (q_querybuf c) n = Some b" "sds_ok b" "sds_str b = unread c" "n \<le> sdsavail b"
    using sds_ok_room [OF u(2), of n A] u(1) by auto
  define d where "d = (if q_peak c < sdslen (q_querybuf c) then c\<lparr>q_peak := sdslen (q_querybuf c)\<rparr> else c)"
  let ?d = "d\<lparr>q_querybuf := b\<rparr>"
  have "hdr_len b = length (unread c)" using b(2,3) length_sds_str by metis
  then have "q_ok ?d" using b(2) assms(1,2) length_unread_less [OF assms(1)] by (simp add: q_ok_def d_def)
  then have "same_input A [] c ?d" "input_frame c ?d"
    using b(3) assms(2) by (simp_all add: same_input_def d_def same_request_def client_room_def out_inv_def unread_def input_frame_def)
  moreover have "prepare_read A n c = Some ?d" using b(1) by (simp add: prepare_read_def Let_def d_def)
  ultimately show ?thesis using b(4) by auto
qed

lemma receive_ok:
  assumes c: "q_ok c" "q_pos c = 0" and bs: "bs \<noteq> []" "length bs \<le> sdsavail (q_querybuf c)" "length bs \<le> PROTO_IOBUF_LEN" "length (unread c @ bs) < 2 ^ 62"
    and m: "has_flag c CLIENT_MASTER \<Longrightarrow> sds_ok (q_pending_querybuf c) \<and> hdr_len (q_pending_querybuf c) + length bs < 2 ^ 63"
  shows "\<exists>c'. receive A s bs c = Some c' \<and> same_input A bs c c' \<and> received bs c c'"
proof -
  have u: "unread c = sds_str (q_querybuf c)" "sds_ok (q_querybuf c)" using c by (auto simp: unread_def q_ok_def)
  have "length bs < 2 ^ 32" using bs(3) by (simp add: PROTO_IOBUF_LEN_def)
  then obtain t b where b: "buf_write (q_querybuf c) (sdslen (q_querybuf c)) bs = Some t" "sdsIncrLen t (int (length bs)) = Some b"
    "sds_ok b" "sds_str b = unread c @ bs"
    using append_in_place [OF u(2) bs(1,2)] u(1) by auto
  have hb: "hdr_len b = length (unread c @ bs)" using length_sds_str [OF b(3)] b(4) by simp
  show ?thesis
  proof (cases "has_flag c CLIENT_MASTER")
    case True
    then obtain p where p: "sdscatlen A (q_pending_querybuf c) bs = Some p" "sds_ok p" "sds_str p = sds_str (q_pending_querybuf c) @ bs"
      using m sdscatlen_ok [of "q_pending_querybuf c" bs A] by auto
    let ?c = "c\<lparr>q_pending_querybuf := p, q_querybuf := b, c_lastinteraction := net_unixtime (in_net s), q_read_reploff := q_read_reploff c + int (length bs)\<rparr>"
    have "receive A s bs c = Some ?c" using b(1,2) p(1) True by (simp add: receive_def has_flag_def)
    moreover have "same_input A bs c ?c" using b(3,4) hb c(2) bs(4)
      by (simp add: same_input_def q_ok_def unread_def same_request_def client_room_def out_inv_def)
    ultimately show ?thesis using p(2,3) True by (auto simp: received_def)
  next
    case False
    let ?c = "c\<lparr>q_querybuf := b, c_lastinteraction := net_unixtime (in_net s)\<rparr>"
    have "receive A s bs c = Some ?c" using b(1,2) False by (simp add: receive_def has_flag_def)
    moreover have "same_input A bs c ?c" using b(3,4) hb c(2) bs(4)
      by (simp add: same_input_def q_ok_def unread_def same_request_def client_room_def out_inv_def)
    ultimately show ?thesis using False by (auto simp: received_def)
  qed
qed

context request_loop
begin

definition standing :: "bytes \<Rightarrow> bytes list list \<Rightarrow> 'd in_server \<Rightarrow> in_client \<Rightarrow> bool" where
  "standing B X s c \<longleftrightarrow> I B X s c \<and> q_ok c \<and> q_pos c = 0 \<and> length X + length (unread c) \<le> length B \<and> resting A L B X s c"

lemma prepared:
  assumes "standing B X s c"
  shows "\<exists>c'. prepare_read A (read_length c) c = Some c' \<and> standing B X s c' \<and> read_length c \<le> sdsavail (q_querybuf c')"
proof -
  have i: "I B X s c" "q_ok c" "q_pos c = 0" "resting A L B X s c" "length X + length (unread c) \<le> length B" using assms by (auto simp: standing_def)
  obtain c' where c': "prepare_read A (read_length c) c = Some c'" "same_input A [] c c'" "read_length c \<le> sdsavail (q_querybuf c')" "input_frame c c'"
    using prepare_read_ok [OF i(2,3) read_length_bounds(2), of A] by blast
  have "resting A L B X s c'" using resting_cong [OF i(4), of c'] c'(2) by (simp add: same_input_def)
  then have "standing B X s c'" using c'(2) frame_law [OF i(1) c'(4)] i(5) by (simp add: standing_def same_input_def)
  then show ?thesis using c'(1,3) by blast
qed

lemma received_ok:
  assumes st: "standing B X s c" and bs: "length (B @ bs) \<le> N"
    "lim_master L \<longrightarrow> fate A L (B @ bs) \<noteq> Undetermined"
    and c': "received bs c c'" "q_ok c'" "q_pos c' = 0" "unread c' = unread c @ bs" "same_request c c'"
      "client_room A ERROR_COST c' = client_room A ERROR_COST c"
  shows "I (B @ bs) X s c'" "active A L (B @ bs) X c' \<or> ended A L (B @ bs) X s c'"
    "standing (B @ bs) X s (freeClientAsync c')"
proof -
  have i: "I B X s c" "resting A L B X s c" "length X + length (unread c) \<le> length B" using st by (auto simp: standing_def)
  show I: "I (B @ bs) X s c'" by (rule receive_law [OF i(1) c'(1) bs(2,1)])
  have fl: "c_flags c' = c_flags c" using c'(1) by (simp add: received_def)
  have fl': "input_blocked s c' = input_blocked s c" "has_flag c' CLIENT_PROTOCOL_ERROR = has_flag c CLIENT_PROTOCOL_ERROR"
    using fl by (simp_all add: input_blocked_def has_flag_def)
  show ae: "active A L (B @ bs) X c' \<or> ended A L (B @ bs) X s c'"
  proof (cases "ended A L B X s c")
    case True
    then show ?thesis using ended_append [OF True _ fl'(2)] fl'(1) by (simp add: ended_def)
  next
    case False
    then have a: "active A L B X c" using i(2) by (simp add: resting_def)
    have "buf_inv A c'" using a c'(2,5,6) by (simp add: active_def buf_inv_def same_request_def)
    then show ?thesis using active_append [OF a _ c'(4) fl c'(5)] by simp
  qed
  have lua: "\<not> has_flag c' CLIENT_LUA" using config_law [OF I] by simp
  note free = free_async_facts [OF lua]
  note more = same_more [OF free(2)]
  have bl: "input_blocked s (freeClientAsync c')" using free(1) by (simp add: input_blocked_def has_flag_or)
  have pe: "has_flag (freeClientAsync c') CLIENT_PROTOCOL_ERROR = has_flag c' CLIENT_PROTOCOL_ERROR"
    using free(3) by (simp add: rq_flag_bits flags_grow_def)
  have "ended A L (B @ bs) X s (freeClientAsync c')"
    using ae ended_append [of A L "B @ bs" X s c' "freeClientAsync c'" "[]", OF _ bl pe] track_settled(4) [of A L "B @ bs" X c'] bl pe
    by (auto simp: active_def ended_def)
  moreover have "q_ok (freeClientAsync c')" "unread (freeClientAsync c') = unread c'" using c'(2) more by (simp_all add: q_ok_def unread_def)
  ultimately show "standing (B @ bs) X s (freeClientAsync c')"
    using frame_law [OF I input_frame_free [OF lua]] c'(3,4) more i(3) by (simp add: standing_def resting_def)
qed

lemma postpone_not: "I B X s c \<Longrightarrow> postponeClientRead s c = (False, c)"
  using config_law [of B X s c] by (auto simp: postponeClientRead_def)

lemma read_again_ok:
  assumes "standing B X s c" "rd (read_length c) = Read_again"
  shows "\<exists>c'. readQueryFromClient A H rd s c = Some (s, c') \<and> standing B X s c'"
  using prepared [OF assms(1)] assms postpone_not [of B X s c] by (auto simp: readQueryFromClient_def standing_def)

lemma read_data_ok:
  assumes st: "standing B X s c" and rd: "rd (read_length c) = Read_data bs"
    and bs: "bs \<noteq> []" "length bs \<le> read_length c" "length (B @ bs) \<le> N" "lim_master L \<longrightarrow> fate A L (B @ bs) \<noteq> Undetermined"
  shows "\<exists>X' s' c'. readQueryFromClient A H rd s c = Some (s', c') \<and> standing (B @ bs) X' s' c'"
proof -
  obtain d where d: "prepare_read A (read_length c) c = Some d" "standing B X s d" "read_length c \<le> sdsavail (q_querybuf d)"
    using prepared [OF st] by blast
  have i: "I B X s d" "q_ok d" "q_pos d = 0" "length X + length (unread d) \<le> length B" using d(2) by (auto simp: standing_def)
  have m: "has_flag d CLIENT_MASTER \<Longrightarrow> sds_ok (q_pending_querybuf d) \<and> hdr_len (q_pending_querybuf d) + length bs < 2 ^ 63"
    using config_law [OF i(1)] bs(3) by auto
  have l: "length bs \<le> PROTO_IOBUF_LEN" "length (unread d @ bs) < 2 ^ 62" using bs(2,3) read_length_bounds(2) [of c] i(4) config_law [OF i(1)] by auto
  obtain e where e: "receive A s bs d = Some e" "same_input A bs d e" "received bs d e"
    using receive_ok [OF i(2,3) bs(1) _ l m] bs(2) d(3) by (meson le_trans)
  have e': "q_ok e" "q_pos e = 0" "unread e = unread d @ bs" "same_request d e" "client_room A ERROR_COST e = client_room A ERROR_COST d"
    using e(2) by (auto simp: same_input_def)
  note r = received_ok [OF d(2) bs(3,4) e(3) e']
  have eq: "readQueryFromClient A H rd s c =
      (if client_max_querybuf_len s < sdslen (q_querybuf e) then Some (s, freeClientAsync e) else processInputBuffer A H s e)"
    using d(1) e(1) rd bs(1,2) st postpone_not [of B X s c] by (simp add: readQueryFromClient_def standing_def assert_opt_def)
  show ?thesis
  proof (cases "client_max_querybuf_len s < sdslen (q_querybuf e)")
    case True
    then show ?thesis using eq r(3) by auto
  next
    case False
    obtain X' s' c' where "processInputBuffer A H s e = Some (s', c')" "I (B @ bs) X' s' c'" "q_ok c'" "q_pos c' = 0"
      "length X' + length (unread c') \<le> length (B @ bs)" "resting A L (B @ bs) X' s' c'"
      using processInputBuffer_ok [OF r(1,2) e'(1)] e'(3) i(4) by auto
    then show ?thesis using eq False by (auto simp: standing_def)
  qed
qed

end

section \<open>A stream in pieces\<close>

text \<open>The socket answers the reads of the client with the next bytes of the stream, at most as many as the number given for the
  read; zero stands for a read that finds nothing.\<close>

definition deliver :: "nat \<Rightarrow> bytes \<Rightarrow> nat \<Rightarrow> read_result" where
  "deliver n T = (\<lambda>len. if n = 0 \<or> T = [] then Read_again else Read_data (take (min n len) T))"

fun read_stream ::
    "allocator \<Rightarrow> 'd handlers \<Rightarrow> nat list \<Rightarrow> bytes \<Rightarrow> 'd in_server \<Rightarrow> in_client \<Rightarrow> (bytes \<times> 'd in_server \<times> in_client) option" where
  "read_stream A H [] T s c = Some (T, s, c)"
| "read_stream A H (n # ns) T s c =
     (case readQueryFromClient A H (deliver n T) s c of
        None \<Rightarrow> None
      | Some (s', c') \<Rightarrow> read_stream A H ns (drop (min n (read_length c)) T) s' c')"

text \<open>Every read that is not empty gets a byte at least.\<close>

lemma read_stream_progress:
  assumes "read_stream A H ns T s c = Some (T', s', c')" "0 \<notin> set ns" "length T \<le> length ns"
  shows "T' = []"
  using assms
proof (induction ns arbitrary: T s c)
  case (Cons n ns)
  obtain s1 c1 where "read_stream A H ns (drop (min n (read_length c)) T) s1 c1 = Some (T', s', c')"
    using Cons.prems(1) by (auto split: option.splits)
  moreover have "length (drop (min n (read_length c)) T) \<le> length ns" using Cons.prems(2,3) read_length_bounds(1) [of c] by auto
  ultimately show ?case using Cons.IH Cons.prems(2) by auto
qed simp

context request_loop
begin

lemma read_stream_ok:
  assumes "standing B X s c" "length (B @ T) \<le> N" "lim_master L \<longrightarrow> fate A L (B @ T) \<noteq> Undetermined"
  shows "\<exists>B' T' X' s' c'. read_stream A H ns T s c = Some (T', s', c') \<and> T = B' @ T' \<and> standing (B @ B') X' s' c'"
  using assms
proof (induction ns arbitrary: B X T s c)
  case Nil
  then show ?case by (intro exI [of _ "[]"] exI [of _ T] exI [of _ X]) simp
next
  case (Cons n ns)
  let ?bs = "take (min n (read_length c)) T" and ?T = "drop (min n (read_length c)) T"
  have split: "(B @ ?bs) @ ?T = B @ T" by simp
  have rest: "length ((B @ ?bs) @ ?T) \<le> N" "lim_master L \<longrightarrow> fate A L ((B @ ?bs) @ ?T) \<noteq> Undetermined"
    using Cons.prems(2,3) by (simp_all only: split)
  have "\<exists>X' s' c'. readQueryFromClient A H (deliver n T) s c = Some (s', c') \<and> standing (B @ ?bs) X' s' c'"
  proof (cases "n = 0 \<or> T = []")
    case True
    then show ?thesis using read_again_ok [OF Cons.prems(1), of "deliver n T"] by (auto simp: deliver_def)
  next
    case False
    have "length (B @ ?bs) \<le> N" using rest(1) by simp
    moreover have "lim_master L \<longrightarrow> fate A L (B @ ?bs) \<noteq> Undetermined" using rest(2) fate_append [of A L "B @ ?bs" ?T] by auto
    moreover have "?bs \<noteq> []" using False read_length_bounds(1) [of c] by simp
    ultimately show ?thesis using read_data_ok [OF Cons.prems(1), of "deliver n T" ?bs] False by (simp add: deliver_def)
  qed
  then obtain X1 s1 c1 where c1: "readQueryFromClient A H (deliver n T) s c = Some (s1, c1)" "standing (B @ ?bs) X1 s1 c1" by blast
  obtain B' T' X' s' c' where r: "read_stream A H ns ?T s1 c1 = Some (T', s', c')" "?T = B' @ T'" "standing ((B @ ?bs) @ B') X' s' c'"
    using Cons.IH [OF c1(2) rest] by blast
  have "T = (?bs @ B') @ T'" using r(2) append_take_drop_id [of "min n (read_length c)" T] by (simp del: append_take_drop_id)
  moreover have "read_stream A H (n # ns) T s c = Some (T', s', c')" using c1(1) r(1) by simp
  moreover have "standing (B @ (?bs @ B')) X' s' c'" using r(3) by simp
  ultimately show ?case by blast
qed

end

text \<open>A client before its first request.\<close>

definition fresh :: "in_client \<Rightarrow> bool" where
  "fresh c \<longleftrightarrow> q_ok c \<and> q_pos c = 0 \<and> unread c = [] \<and> idle c \<and> q_reqtype c = No_request \<and> \<not> has_flag c CLIENT_PROTOCOL_ERROR"

lemma fresh_resting:
  assumes "fresh c" "client_room A ERROR_COST c" "\<not> input_blocked s c"
  shows "resting A L [] [] s c"
proof -
  have "request_inv c" "list_all obj_ok (q_argv c)" using assms(1) by (auto simp: fresh_def request_inv_def idle_def)
  moreover have "track A L [] [] c" using assms(1) by (auto simp: track_def fresh_def resume_def consumed_Nil)
  ultimately have "active A L [] [] c" using assms by (simp add: active_def buf_inv_def fresh_def)
  then show ?thesis using assms idle_waits [of c A L] by (auto simp: resting_def active_def fresh_def)
qed

text \<open>What is known of the commands executed by a client that has come to rest.\<close>

lemma resting_prefix:
  assumes "resting A L B X s c" "requests A L B = (cmds, e, R)"
  shows "e = Undetermined \<or> (\<exists>k. X = take k cmds \<and> (has_flag c CLIENT_PROTOCOL_ERROR \<longrightarrow> k = length cmds \<and> e = Failed) \<and>
    (\<not> input_blocked s c \<longrightarrow> k = length cmds \<and> e = Waiting))"
proof (cases "e = Undetermined")
  case False
  then have w: "\<not> input_blocked s c \<Longrightarrow> X = cmds \<and> e = Waiting" "has_flag c CLIENT_PROTOCOL_ERROR \<Longrightarrow> X = cmds \<and> e = Failed"
    using assms track_settled(1) [of A L B X c] by (auto simp: resting_def active_def ended_def)
  show ?thesis
  proof (cases "\<not> input_blocked s c \<or> has_flag c CLIENT_PROTOCOL_ERROR")
    case True
    then have "X = take (length cmds) cmds" using w by auto
    then show ?thesis using w by blast
  next
    case n: False
    then obtain Y where "cmds = X @ Y" using assms False by (auto simp: resting_def ended_def)
    then have "X = take (length X) cmds" by simp
    then show ?thesis using n by blast
  qed
qed simp

section \<open>Running the commands\<close>

text \<open>What \<open>processCommand\<close> does with a command of a client that is not blocked: it changes the data by \<open>exec\<close>, adds at most \<open>W\<close> bytes to
  the memory of the replies, and leaves the query buffer, the offsets and the settings alone. A command from the master does not feed
  the replicas by itself. It may block or close the client; only
  for a client that is blocked or about to be closed it may return \<^verbatim>\<open>C_ERR\<close>, as for \<^verbatim>\<open>QUIT\<close>.\<close>

definition same_settings :: "'d in_server \<Rightarrow> 'd in_server \<Rightarrow> bool" where
  "same_settings s s' \<longleftrightarrow> gopher_enabled s' = gopher_enabled s \<and> io_threads_active s' = io_threads_active s \<and>
     io_threads_do_reads s' = io_threads_do_reads s"

definition handler_frame :: "in_client \<Rightarrow> in_client \<Rightarrow> bool" where
  "handler_frame c c' \<longleftrightarrow> q_querybuf c' = q_querybuf c \<and> q_pos c' = q_pos c \<and> q_reploff c' = q_reploff c \<and> q_read_reploff c' = q_read_reploff c \<and>
     q_pending_querybuf c' = q_pending_querybuf c \<and> has_flag c' CLIENT_MASTER = has_flag c CLIENT_MASTER \<and> has_flag c' CLIENT_LUA = has_flag c CLIENT_LUA \<and>
     has_flag c' CLIENT_PENDING_READ = has_flag c CLIENT_PENDING_READ \<and> has_flag c' CLIENT_PROTOCOL_ERROR = has_flag c CLIENT_PROTOCOL_ERROR"

definition serves :: "allocator \<Rightarrow> nat \<Rightarrow> (bytes list \<Rightarrow> 'd \<Rightarrow> 'd) \<Rightarrow> 'd handlers \<Rightarrow> bool" where
  "serves A W exec H \<longleftrightarrow>
     (\<forall>s c. buf_inv A c \<and> client_room A (ERROR_COST + W) c \<and> q_argv c \<noteq> [] \<and> \<not> input_blocked s c \<longrightarrow>
       (\<exists>ok s' c'. processCommand H s c = Some (ok, False, s', c') \<and> (ok \<or> input_blocked s' c') \<and>
         in_data s' = exec (map obj_str (q_argv c)) (in_data s) \<and> same_settings s s' \<and> limits_of s' c' = limits_of s c \<and>
         (has_flag c CLIENT_MASTER \<longrightarrow> in_repl s' = in_repl s) \<and>
         handler_frame c c' \<and> list_all obj_ok (q_argv c') \<and> (\<forall>n. client_room A (W + n) c \<longrightarrow> client_room A n c')))"

lemma servesD:
  assumes "serves A W exec H" "buf_inv A c" "client_room A (ERROR_COST + W) c" "q_argv c \<noteq> []" "\<not> input_blocked s c"
  obtains ok s' c' where "processCommand H s c = Some (ok, False, s', c')" "ok \<or> input_blocked s' c'"
    "in_data s' = exec (map obj_str (q_argv c)) (in_data s)" "same_settings s s'" "limits_of s' c' = limits_of s c" "handler_frame c c'" "has_flag c CLIENT_MASTER \<longrightarrow> in_repl s' = in_repl s"
    "list_all obj_ok (q_argv c')" "\<And>n. client_room A (W + n) c \<Longrightarrow> client_room A n c'"
  using assms unfolding serves_def by blast

text \<open>The settings of a server under which the loop is followed: no Gopher requests, and no threads for input.\<close>

definition plain :: "'d in_server \<Rightarrow> in_client \<Rightarrow> bool" where
  "plain s c \<longleftrightarrow> \<not> gopher_enabled s \<and> \<not> has_flag c CLIENT_PENDING_READ \<and> \<not> has_flag c CLIENT_LUA \<and>
     \<not> (io_threads_active s \<and> io_threads_do_reads s)"

lemma room_le: "client_room A n c \<Longrightarrow> m \<le> n \<Longrightarrow> client_room A m c"
  by (simp add: client_room_def)

text \<open>Room for the replies to the commands that are still to come, of \<open>N\<close> at most.\<close>

definition reply_room :: "allocator \<Rightarrow> nat \<Rightarrow> nat \<Rightarrow> bytes list list \<Rightarrow> in_client \<Rightarrow> bool" where
  "reply_room A W N X c \<longleftrightarrow> (has_flag c CLIENT_PROTOCOL_ERROR \<or> client_room A (ERROR_COST + W * (N - length X)) c)"

definition base_inv ::
    "allocator \<Rightarrow> 'd handlers \<Rightarrow> limits \<Rightarrow> nat \<Rightarrow> nat \<Rightarrow> (bytes list \<Rightarrow> 'd \<Rightarrow> 'd) \<Rightarrow> 'd \<Rightarrow> bytes \<Rightarrow> bytes list list \<Rightarrow> 'd in_server \<Rightarrow> in_client \<Rightarrow> bool" where
  "base_inv A H L N W exec d0 B X s c \<longleftrightarrow> serves A W exec H \<and> limits_of s c = L \<and> lim_bulk L \<le> 2 ^ 62 \<and> N < 2 ^ 62 \<and>
     length B \<le> N \<and> plain s c \<and> in_data s = fold exec X d0 \<and> reply_room A W N X c"

lemma limits_cong: "q_authenticated c' = q_authenticated c \<Longrightarrow> bit (c_flags c') 1 = bit (c_flags c) 1 \<Longrightarrow> limits_of s c' = limits_of s c"
  by (simp add: limits_of_def authRequired_def flag_simps)

lemma base_inv_cong:
  assumes "base_inv A H L N W exec d0 B X s c" "q_authenticated c' = q_authenticated c"
    "\<forall>i. i \<notin> {6, 9, 10, 21, 23, 24, 36, 39} \<longrightarrow> bit (c_flags c') i = bit (c_flags c) i" "bit (c_flags c) 39 \<longrightarrow> bit (c_flags c') 39"
    "bit (c_flags c') 39 \<or> (\<forall>A n. client_room A n c' = client_room A n c)"
  shows "base_inv A H L N W exec d0 B X s c'"
  using assms limits_cong [OF assms(2), of s] by (auto simp: base_inv_def plain_def reply_room_def flag_simps rq_flag_bits)

lemma base_inv_step:
  assumes "base_inv A H L N W exec d0 B X s c"
  shows "input_frame c c' \<Longrightarrow> base_inv A H L N W exec d0 B X s c'" "reset_of c c' \<Longrightarrow> base_inv A H L N W exec d0 B X s c'"
    "received bs c c' \<Longrightarrow> length (B @ bs) \<le> N \<Longrightarrow> base_inv A H L N W exec d0 (B @ bs) X s c'"
  using base_inv_cong [OF assms, of c'] assms by (simp_all add: input_frame_def reset_of_def received_def base_inv_def)

text \<open>Running a command takes its part of the room.\<close>

lemma base_command:
  assumes I: "base_inv A H L N W exec d0 B X s c" and "length X < length B" and c: "buf_inv A c" "q_argv c \<noteq> []" "\<not> input_blocked s c"
    "\<not> has_flag c CLIENT_PROTOCOL_ERROR"
  obtains ok s' c' where "processCommand H s c = Some (ok, False, s', c')" "ok \<or> input_blocked s' c'"
    "base_inv A H L N W exec d0 B (X @ [map obj_str (q_argv c)]) s' c'" "handler_frame c c'" "has_flag c CLIENT_MASTER \<longrightarrow> in_repl s' = in_repl s" "buf_inv A c'"
proof -
  let ?X = "X @ [map obj_str (q_argv c)]"
  have i: "serves A W exec H" "reply_room A W N X c" "length X < N" using I assms(2) by (auto simp: base_inv_def)
  have "N - length X = Suc (N - length ?X)" using i(3) by simp
  then have k: "W + (ERROR_COST + W * (N - length ?X)) = ERROR_COST + W * (N - length X)" by (simp del: length_append)
  have r: "client_room A (W + (ERROR_COST + W * (N - length ?X))) c" using i(2) c(4) unfolding k by (simp add: reply_room_def)
  obtain ok s' c' where c': "processCommand H s c = Some (ok, False, s', c')" "ok \<or> input_blocked s' c'"
    "in_data s' = exec (map obj_str (q_argv c)) (in_data s)" "same_settings s s'" "limits_of s' c' = limits_of s c" "handler_frame c c'"
    "has_flag c CLIENT_MASTER \<longrightarrow> in_repl s' = in_repl s" "list_all obj_ok (q_argv c')" "\<And>n. client_room A (W + n) c \<Longrightarrow> client_room A n c'"
    using servesD [OF i(1) c(1) _ c(2,3)] room_le [OF r, of "ERROR_COST + W"] by auto
  have r': "client_room A (ERROR_COST + W * (N - length ?X)) c'" by (rule c'(9) [OF r])
  have "buf_inv A c'" using c'(6,8) c(1) room_le [OF r', of ERROR_COST] by (simp add: buf_inv_def q_ok_def handler_frame_def)
  moreover have "base_inv A H L N W exec d0 B ?X s' c'"
    using I c'(3-6) r' by (simp add: base_inv_def plain_def same_settings_def handler_frame_def reply_room_def)
  ultimately show thesis using that c'(1,2,6,7) by blast
qed

lemma commandProcessed_client:
  assumes "buf_inv A c" "\<not> has_flag c CLIENT_MASTER"
  shows "\<exists>c'. commandProcessed A s c = Some (s, c') \<and> (if has_flag c CLIENT_BLOCKED then c' = c else reset_of c c')"
proof (cases "has_flag c CLIENT_BLOCKED")
  case False
  obtain c' where c': "resetClient c = Some c'" "reset_of c c'" using resetClient_ok [of c] assms(1) by (auto simp: buf_inv_def)
  then have "\<not> has_flag c' CLIENT_MASTER" using assms(2) by (simp add: reset_of_def flag_simps)
  then show ?thesis using c' False by (simp add: commandProcessed_def)
qed (simp add: commandProcessed_def)

lemma reset_buf: "reset_of c c' \<Longrightarrow> buf_inv A c \<Longrightarrow> idle c' \<and> q_reqtype c' = No_request \<and> buf_inv A c'"
  by (auto simp: reset_of_def buf_inv_def q_ok_def idle_def)

section \<open>The client of a user\<close>

definition client_inv ::
    "allocator \<Rightarrow> 'd handlers \<Rightarrow> limits \<Rightarrow> nat \<Rightarrow> nat \<Rightarrow> (bytes list \<Rightarrow> 'd \<Rightarrow> 'd) \<Rightarrow> 'd \<Rightarrow> bytes \<Rightarrow> bytes list list \<Rightarrow> 'd in_server \<Rightarrow> in_client \<Rightarrow> bool" where
  "client_inv A H L N W exec d0 B X s c \<longleftrightarrow> \<not> lim_master L \<and> base_inv A H L N W exec d0 B X s c"

lemma client_command:
  assumes I: "client_inv A H L N W exec d0 B X s c" and l: "length X < length B" and c: "buf_inv A c" "q_argv c \<noteq> []" "\<not> input_blocked s c"
    "\<not> has_flag c CLIENT_PROTOCOL_ERROR"
  shows "\<exists>s' c'. processCommandAndResetClient A H s c = Some (True, s', c') \<and> client_inv A H L N W exec d0 B (X @ [map obj_str (q_argv c)]) s' c' \<and>
    q_querybuf c' = q_querybuf c \<and> q_pos c' = q_pos c \<and> \<not> has_flag c' CLIENT_PROTOCOL_ERROR \<and>
    (\<not> input_blocked s' c' \<longrightarrow> idle c' \<and> q_reqtype c' = No_request \<and> buf_inv A c')"
proof -
  have i: "base_inv A H L N W exec d0 B X s c" "\<not> lim_master L" "\<not> has_flag c CLIENT_MASTER"
    using I by (auto simp: client_inv_def base_inv_def limits_of_def)
  obtain ok s1 c1 where c1: "processCommand H s c = Some (ok, False, s1, c1)" "ok \<or> input_blocked s1 c1"
    "base_inv A H L N W exec d0 B (X @ [map obj_str (q_argv c)]) s1 c1" "handler_frame c c1" "buf_inv A c1"
    using base_command [OF i(1) l c] by metis
  have f: "\<not> has_flag c1 CLIENT_MASTER" "q_querybuf c1 = q_querybuf c" "q_pos c1 = q_pos c" "\<not> has_flag c1 CLIENT_PROTOCOL_ERROR"
    using c1(4) i(3) c(4) by (auto simp: handler_frame_def)
  show ?thesis
  proof (cases "ok \<and> \<not> has_flag c1 CLIENT_BLOCKED")
    case True
    then obtain c' where c': "commandProcessed A s1 c1 = Some (s1, c')" "reset_of c1 c'" using commandProcessed_client [OF c1(5) f(1), of s1] by auto
    have "q_querybuf c' = q_querybuf c" "q_pos c' = q_pos c" "\<not> has_flag c' CLIENT_PROTOCOL_ERROR" using c'(2) f by (simp_all add: reset_of_def rq_flag_bits)
    then show ?thesis using True c1(1) c'(1) i(2) base_inv_step(2) [OF c1(3) c'(2)] reset_buf [OF c'(2) c1(5)]
      by (simp add: processCommandAndResetClient_def client_inv_def)
  next
    case False
    then have "input_blocked s1 c1" using c1(2) by (auto simp: input_blocked_def)
    moreover have "processCommandAndResetClient A H s c = Some (True, s1, c1)"
      using False c1(1) by (cases ok) (simp_all add: processCommandAndResetClient_def commandProcessed_def)
    ultimately show ?thesis using c1(3) i(2) f unfolding client_inv_def by blast
  qed
qed

interpretation client_loop: request_loop A H L N "client_inv A H L N W exec d0" for A H L N W exec d0
proof
  fix B X s c assume "client_inv A H L N W exec d0 B X s c"
  then show "limits_of s c = L \<and> N < 2 ^ 62 \<and> lim_bulk L \<le> 2 ^ 62 \<and> \<not> gopher_enabled s \<and> \<not> has_flag c CLIENT_PENDING_READ \<and> \<not> has_flag c CLIENT_LUA \<and>
      \<not> (io_threads_active s \<and> io_threads_do_reads s) \<and> (lim_master L \<longrightarrow> fate A L B \<noteq> Undetermined) \<and>
      (has_flag c CLIENT_MASTER \<longrightarrow> sds_ok (q_pending_querybuf c) \<and> hdr_len (q_pending_querybuf c) \<le> length B)"
    by (auto simp: client_inv_def base_inv_def plain_def limits_of_def)
next
  fix B X s c c' assume "client_inv A H L N W exec d0 B X s c" "input_frame c c'"
  then show "client_inv A H L N W exec d0 B X s c'" unfolding client_inv_def by (blast intro: base_inv_step(1))
next
  fix B X s c c' assume "client_inv A H L N W exec d0 B X s c" "reset_of c c'"
  then show "client_inv A H L N W exec d0 B X s c'" unfolding client_inv_def by (blast intro: base_inv_step(2))
next
  fix B X s c bs c' assume "client_inv A H L N W exec d0 B X s c" "received bs c c'" "length (B @ bs) \<le> N"
  then show "client_inv A H L N W exec d0 (B @ bs) X s c'" unfolding client_inv_def by (elim conjE) (intro conjI base_inv_step(3))
next
  fix B X s c assume "client_inv A H L N W exec d0 B X s c" "length X < length B" "buf_inv A c" "q_argv c \<noteq> []" "\<not> input_blocked s c"
    "\<not> has_flag c CLIENT_PROTOCOL_ERROR"
  then show "\<exists>s' c'. processCommandAndResetClient A H s c = Some (True, s', c') \<and>
      client_inv A H L N W exec d0 B (X @ [map obj_str (q_argv c)]) s' c' \<and> q_querybuf c' = q_querybuf c \<and> q_pos c' = q_pos c \<and>
      \<not> has_flag c' CLIENT_PROTOCOL_ERROR \<and> (\<not> input_blocked s' c' \<longrightarrow> idle c' \<and> q_reqtype c' = No_request \<and> buf_inv A c')"
    by (rule client_command)
qed

text \<open>C2: Requests are understood as the protocol says, however the network cuts them. A client that has just connected reads any
  stream of bytes in pieces of any sizes, with the query buffer, its positions, the reuse of the buffer for a large argument and the
  parser that stops and resumes anywhere. No assertion fails and no access is out of bounds, whatever the bytes are; enough reads take
  in the whole stream. The commands that are run are a prefix of the commands that the protocol finds in the bytes received, with the
  exact arguments and in order: all of them as long as the client is not blocked or closed, and all of them before the first error in
  the case of a protocol error, which is noticed exactly where the protocol has one. Only for a header line of more than 64 kilobytes,
  or an argument of more than \<open>2 ^ 62\<close> bytes, the bytes alone do not determine the outcome.\<close>

theorem request_stream:
  assumes "serves A W exec H" "fresh c" "plain s c" "\<not> input_blocked s c" "\<not> has_flag c CLIENT_MASTER" "proto_max_bulk_len s \<le> 2 ^ 62"
    "length T < 2 ^ 62" "client_room A (ERROR_COST + W * length T) c"
  shows "\<exists>B T' s' c'. read_stream A H ns T s c = Some (T', s', c') \<and> T = B @ T' \<and>
    (0 \<notin> set ns \<and> length T \<le> length ns \<longrightarrow> T' = []) \<and>
    (case requests A (limits_of s c) B of (cmds, e, R) \<Rightarrow>
       e = Undetermined \<or>
       (\<exists>k. in_data s' = fold exec (take k cmds) (in_data s) \<and>
         (has_flag c' CLIENT_PROTOCOL_ERROR \<longrightarrow> k = length cmds \<and> e = Failed) \<and>
         (\<not> input_blocked s' c' \<longrightarrow> k = length cmds \<and> e = Waiting)))"
proof -
  let ?L = "limits_of s c" and ?N = "length T"
  have "client_inv A H ?L ?N W exec (in_data s) [] [] s c"
    using assms by (simp add: client_inv_def base_inv_def limits_of_def reply_room_def)
  moreover have "resting A ?L [] [] s c" using fresh_resting [OF assms(2) _ assms(4)] room_le [OF assms(8), of ERROR_COST] by simp
  ultimately have st: "client_loop.standing A ?L H ?N W exec (in_data s) [] [] s c"
    using assms(2) by (simp add: client_loop.standing_def fresh_def)
  have "length ([] @ T) \<le> ?N" "lim_master ?L \<longrightarrow> fate A ?L ([] @ T) \<noteq> Undetermined" using assms(5) by (simp_all add: limits_of_def)
  then obtain B T' X s' c' where r: "read_stream A H ns T s c = Some (T', s', c')" "T = B @ T'"
    "client_loop.standing A ?L H ?N W exec (in_data s) B X s' c'"
    using client_loop.read_stream_ok [OF st, of T ns] by auto
  obtain cmds e R where q: "requests A ?L B = (cmds, e, R)" by (cases "requests A ?L B")
  have x: "resting A ?L B X s' c'" "in_data s' = fold exec X (in_data s)" using r(3) by (auto simp: client_loop.standing_def client_inv_def base_inv_def)
  have "e = Undetermined \<or> (\<exists>k. in_data s' = fold exec (take k cmds) (in_data s) \<and> (has_flag c' CLIENT_PROTOCOL_ERROR \<longrightarrow> k = length cmds \<and> e = Failed) \<and>
      (\<not> input_blocked s' c' \<longrightarrow> k = length cmds \<and> e = Waiting))"
    using resting_prefix [OF x(1) q] x(2) by auto
  then show ?thesis using r(1,2) q read_stream_progress [OF r(1)] by auto
qed

text \<open>A handler that keeps a log of the commands.\<close>

definition log_handlers :: "bytes list list handlers" where
  "log_handlers =
     \<lparr>processCommand = (\<lambda>s c. Some (True, False, s\<lparr>in_data := in_data s @ [map obj_str (q_argv c)]\<rparr>, c)), processGopherRequest = Some\<rparr>"

lemma log_serves: "serves A 0 (\<lambda>as d. d @ [as]) log_handlers"
  by (simp add: serves_def log_handlers_def same_settings_def handler_frame_def limits_of_def authRequired_def buf_inv_def) blast

lemma fold_log: "fold (\<lambda>as d. d @ [as]) X d = d @ X"
  by (induction X arbitrary: d) simp_all

definition no_text :: sds where
  "no_text = \<lparr>sds_type = SDS_TYPE_8, hdr_len = 0, hdr_alloc = 0, sds_buf = [0]\<rparr>"

definition example_input :: in_client where
  "example_input = client.extend example_client (in_client.fields no_text 0 0 no_text No_request 0 (- 1) [] 0 0 None None False 0 0 0)"

definition example_server :: "bytes list list in_server" where
  "example_server = \<lparr>in_repl = example_master, in_data = [], proto_max_bulk_len = 536870912, client_max_querybuf_len = 1073741824,
     gopher_enabled = False, io_threads_active = False, io_threads_do_reads = False, events_while_blocked = False, lua_timedout = False,
     default_user_nopass = True, default_user_disabled = False\<rparr>"

lemma no_text_ok [simp]: "sds_ok no_text" "sds_str no_text = []"
  by (simp_all add: no_text_def sds_ok_def sdsalloc_def sds_str_def)

lemma example_input_facts:
  "c_flags example_input = 0" "fresh example_input" "plain example_server example_input" "\<not> input_blocked example_server example_input"
  "\<not> has_flag example_input CLIENT_MASTER" "n < 2 ^ 62 \<Longrightarrow> client_room plain_allocator (ERROR_COST + n) example_input"
proof -
  show f: "c_flags example_input = 0" by (simp add: example_input_def client.defs in_client.defs example_client_def)
  then have b: "\<not> has_flag example_input m" for m by (simp add: has_flag_def)
  show "fresh example_input" using b
    by (simp add: fresh_def example_input_def client.defs in_client.defs q_ok_def unread_def idle_def) (simp add: no_text_def)
  show "plain example_server example_input" "\<not> input_blocked example_server example_input" "\<not> has_flag example_input CLIENT_MASTER"
    using b by (simp_all add: plain_def input_blocked_def example_server_def)
  show "client_room plain_allocator (ERROR_COST + n) example_input" if "n < 2 ^ 62"
    using that by (simp add: client_room_def example_input_def client.defs in_client.defs example_client_def out_inv_def modest_def plain_allocator_def
      ERROR_COST_def MAX_REPLY_BYTES_def)
qed

theorem request_stream_witness:
  "\<exists>s' c'. read_stream plain_allocator log_handlers (replicate 99 3) (concat (map command_text [[ascii ''PING''], [ascii ''GET'', [13, 10]]]))
      example_server example_input = Some ([], s', c') \<and>
    (\<not> input_blocked s' c' \<longrightarrow> in_data s' = [[ascii ''PING''], [ascii ''GET'', [13, 10]]])"
proof -
  let ?cmds = "[[ascii ''PING''], [ascii ''GET'', [13, 10]]]" and ?s = example_server and ?c = example_input
  let ?T = "concat (map command_text ?cmds)" and ?L = "limits_of ?s ?c"
  have T: "length ?T \<le> 99" by code_simp
  have "\<forall>as\<in>set ?cmds. acceptable ?L as \<and> as \<noteq> []"
    by (simp add: acceptable_def limits_of_def authRequired_def example_server_def ascii_def)
  then have r: "requests plain_allocator ?L ?T = (?cmds, Waiting, [])" using consumed_stream [OF consumed_text] by blast
  have room: "client_room plain_allocator (ERROR_COST + 0 * length ?T) ?c" using example_input_facts(6) [of 0] by simp
  have l: "length ?T < 2 ^ 62" using T by simp
  have pm: "proto_max_bulk_len ?s \<le> 2 ^ 62" by (simp add: example_server_def)
  obtain B T' s' c' where x: "read_stream plain_allocator log_handlers (replicate 99 3) ?T ?s ?c = Some (T', s', c')" "?T = B @ T'"
    "0 \<notin> set (replicate 99 (3::nat)) \<and> length ?T \<le> length (replicate 99 (3::nat)) \<longrightarrow> T' = []"
    "case requests plain_allocator ?L B of (cmds, e, R) \<Rightarrow> e = Undetermined \<or>
       (\<exists>k. in_data s' = fold (\<lambda>as d. d @ [as]) (take k cmds) (in_data ?s) \<and> (has_flag c' CLIENT_PROTOCOL_ERROR \<longrightarrow> k = length cmds \<and> e = Failed) \<and>
         (\<not> input_blocked s' c' \<longrightarrow> k = length cmds \<and> e = Waiting))"
    using request_stream [OF log_serves example_input_facts(2-5) pm l room, of "replicate 99 3"] by (elim exE conjE) (rule that)
  have t: "T' = []" using x(3) T by simp
  then have "B = ?T" using x(2) by simp
  then have "\<not> input_blocked s' c' \<longrightarrow> in_data s' = ?cmds" using x(4) unfolding \<open>B = ?T\<close> r by (auto simp: fold_log example_server_def)
  then show ?thesis using x(1) t by blast
qed

end
