(* ===== verification/Request_Master.thy ===== *)
theory Request_Master
  imports Request_Stream
begin

text \<open>
  The client of a replica that stands for its master: the second interpretation of \<open>request_loop\<close>, with the offsets, the
  pending bytes and the replicas further down. The last section puts the sending and the receiving side together.
\<close>

section \<open>The stream of a master\<close>

text \<open>The first \<open>n\<close> bytes of the stream \<open>B\<close> received from the master have been applied. They are in the backlog behind the
  history \<open>T0\<close>, and the replicas, whose outputs started as in \<open>r0\<close>, were sent them; the other bytes are pending.\<close>

definition PIECE_COST :: nat where "PIECE_COST = 40000"

definition chained :: "bytes \<Rightarrow> repl_server \<Rightarrow> int \<Rightarrow> bytes \<Rightarrow> nat \<Rightarrow> repl_server \<Rightarrow> in_client \<Rightarrow> bool" where
  "chained T0 r0 off B n r c \<longleftrightarrow> n \<le> length B \<and> q_reploff c = off + int n \<and> q_read_reploff c = off + int (length B) \<and>
     sds_ok (q_pending_querybuf c) \<and> sds_str (q_pending_querybuf c) = drop n B \<and>
     (\<exists>ps. concat ps = take n B \<and> sum_list (map grow ps) \<le> PIECE_COST * n \<and> advances ps T0 r0 r)"

lemma grow_cost: "p \<noteq> [] \<Longrightarrow> grow p \<le> PIECE_COST * length p"
  by (cases p) (simp_all add: grow_def PIECE_COST_def PROTO_REPLY_CHUNK_BYTES_def)

lemma chained_fields:
  assumes "chained T0 r0 off B n r c" "q_reploff c' = q_reploff c" "q_read_reploff c' = q_read_reploff c" "q_pending_querybuf c' = q_pending_querybuf c"
  shows "chained T0 r0 off B n r c'"
  using assms by (simp add: chained_def)

lemma chained_receive:
  assumes "chained T0 r0 off B n r c" "received bs c c'" "has_flag c CLIENT_MASTER"
  shows "chained T0 r0 off (B @ bs) n r c'"
  using assms by (simp add: chained_def received_def)

lemma sdsrange_tail:
  assumes "sds_ok b" "hdr_len b < 2 ^ 62" "k \<le> hdr_len b"
  shows "\<exists>b'. sdsrange b (int k) (- 1) = Some b' \<and> sds_ok b' \<and> sds_str b' = drop k (sds_str b)"
proof -
  obtain b' where b': "sdsrange b (int k) (- 1) = Some b'" "sds_ok b'"
    "sds_str b' = (if int k \<le> int (hdr_len b) - 1 then take (nat (int (hdr_len b) - 1 - int k + 1)) (drop k (sds_str b)) else [])"
    using sdsrange_ok [OF assms(1), of "int k" "- 1"] assms by auto
  then have "sds_str b' = drop k (sds_str b)" using assms(3) by (auto simp: nat_diff_distrib sds_str_def)
  then show ?thesis using b'(1,2) by blast
qed

text \<open>Applying the bytes up to \<open>m\<close>.\<close>

lemma apply_stream:
  assumes ch: "chained T0 r0 off B n r c" and m: "n < m" "m \<le> length B" "length B \<le> N" "N < 2 ^ 62"
    and room: "room (PIECE_COST * N) (slaves r0)" "modest A"
  shows "\<exists>p r' b. mem_read (sds_buf (q_pending_querybuf c)) 0 (m - n) = Some p \<and> replicationFeedSlavesFromMasterStream A r p = Some r' \<and>
    sdsrange (q_pending_querybuf c) (int (m - n)) (- 1) = Some b \<and>
    chained T0 r0 off B m r' (c\<lparr>q_reploff := off + int m, q_pending_querybuf := b\<rparr>)"
proof -
  define p where "p = take (m - n) (drop n B)"
  obtain ps where ps: "concat ps = take n B" "sum_list (map grow ps) \<le> PIECE_COST * n" "advances ps T0 r0 r" using ch by (auto simp: chained_def)
  have pend: "sds_ok (q_pending_querybuf c)" "sds_str (q_pending_querybuf c) = drop n B" "hdr_len (q_pending_querybuf c) = length B - n"
    using ch length_sds_str [of "q_pending_querybuf c"] by (auto simp: chained_def)
  have "m - n \<le> hdr_len (q_pending_querybuf c)" "hdr_len (q_pending_querybuf c) < length (sds_buf (q_pending_querybuf c))"
    using pend(1,3) m by (auto simp: sds_ok_def)
  moreover from this have "take (m - n) (sds_buf (q_pending_querybuf c)) = p" unfolding p_def pend(2) [symmetric] sds_str_def by (simp add: min_absorb1)
  ultimately have rd: "mem_read (sds_buf (q_pending_querybuf c)) 0 (m - n) = Some p" by (simp add: mem_read_eq)
  have g: "sum_list (map grow ps) + grow p \<le> PIECE_COST * m"
  proof -
    have "grow p \<le> PIECE_COST * (m - n)" using grow_cost [of p] m by (simp add: p_def)
    then have "sum_list (map grow ps) + grow p \<le> PIECE_COST * n + PIECE_COST * (m - n)" using ps(2) by (rule add_mono [rotated])
    also have "\<dots> = PIECE_COST * m" using m(1) by (simp flip: add_mult_distrib2)
    finally show ?thesis .
  qed
  have "PIECE_COST * m \<le> PIECE_COST * N" using m by simp
  then have "room (sum_list (map grow ps) + grow p) (slaves r0)" using room_mono [OF room(1)] g by (meson le_trans)
  then have "room (grow p) (slaves r)" using advances_room [OF ps(3)] by blast
  moreover have "backlog_holds (T0 @ concat ps) r" using ps(3) by (simp add: advances_def)
  ultimately obtain r' where r': "replicationFeedSlavesFromMasterStream A r p = Some r'" "advances [p] (T0 @ concat ps) r r'"
    using proxy_eq [of "T0 @ concat ps" r p A] room(2) by blast
  have "concat (ps @ [p]) = take m B" using ps(1) m by (simp add: p_def flip: take_add)
  then have "\<exists>ps. concat ps = take m B \<and> sum_list (map grow ps) \<le> PIECE_COST * m \<and> advances ps T0 r0 r'"
    using g advances_trans [OF ps(3) r'(2)] by (intro exI [of _ "ps @ [p]"]) simp
  moreover obtain b where b: "sdsrange (q_pending_querybuf c) (int (m - n)) (- 1) = Some b" "sds_ok b" "sds_str b = drop (m - n) (drop n B)"
    using sdsrange_tail [OF pend(1), of "m - n"] unfolding pend(2,3) using m by fastforce
  ultimately have "chained T0 r0 off B m r' (c\<lparr>q_reploff := off + int m, q_pending_querybuf := b\<rparr>)"
    using ch m by (simp add: chained_def)
  then show ?thesis using rd r'(1) b(1) by blast
qed

lemma commandProcessed_master:
  assumes "buf_inv A c" "has_flag c CLIENT_MASTER" "\<not> has_flag c CLIENT_BLOCKED"
    and ch: "chained T0 r0 off B n (in_repl s) c" and B: "B = B0 @ unread c" "n < length B0" "length B \<le> N" "N < 2 ^ 62"
    and room: "room (PIECE_COST * N) (slaves r0)"
  shows "\<exists>r' d c'. commandProcessed A s c = Some (s\<lparr>in_repl := r'\<rparr>, c') \<and> reset_of c d \<and> (\<exists>i b. c' = d\<lparr>q_reploff := i, q_pending_querybuf := b\<rparr>) \<and>
    chained T0 r0 off B (if has_flag c CLIENT_MULTI then n else length B0) r' c'"
proof -
  obtain d where d: "resetClient c = Some d" "reset_of c d" using resetClient_ok [of c] assms(1) by (auto simp: buf_inv_def)
  have fl: "has_flag d CLIENT_MASTER" "has_flag d CLIENT_MULTI = has_flag c CLIENT_MULTI" using d(2) assms(2) by (simp_all add: reset_of_def flag_simps tx_flag_bits)
  have chd: "chained T0 r0 off B n (in_repl s) d" by (rule chained_fields [OF ch]) (use d(2) in \<open>simp_all add: reset_of_def\<close>)
  show ?thesis
  proof (cases "has_flag c CLIENT_MULTI")
    case True
    have "commandProcessed A s c = Some (s, d)" using assms(3) d(1) fl True by (simp add: commandProcessed_def)
    then show ?thesis using d(2) chd True by (intro exI [of _ "in_repl s"] exI [of _ d]) (auto intro!: exI [of _ "q_reploff d"] exI [of _ "q_pending_querybuf d"])
  next
    case False
    have u: "int (sdslen (q_querybuf c)) - int (q_pos c) = int (length (unread c))" using assms(1) length_unread [of c]
      by (auto simp: buf_inv_def q_ok_def sdslen_def)
    have off: "q_read_reploff d - int (sdslen (q_querybuf d)) + int (q_pos d) = off + int (length B0)" "q_reploff d = off + int n"
      using d(2) u B(1) chd by (auto simp: reset_of_def chained_def)
    have mod: "modest A" "length B0 \<le> length B" using assms(1) B(1) by (simp_all add: buf_inv_def client_room_def)
    define k where "k = length B0 - n"
    have i: "q_read_reploff d - int (sdslen (q_querybuf d)) + int (q_pos d) - q_reploff d = int k" "0 < k" using off B(2) by (auto simp: k_def)
    obtain p r' b where *: "mem_read (sds_buf (q_pending_querybuf d)) 0 k = Some p" "replicationFeedSlavesFromMasterStream A (in_repl s) p = Some r'"
      "sdsrange (q_pending_querybuf d) (int k) (- 1) = Some b"
      "chained T0 r0 off B (length B0) r' (d\<lparr>q_reploff := off + int (length B0), q_pending_querybuf := b\<rparr>)"
      using apply_stream [OF chd B(2) _ B(3,4) room] mod unfolding k_def by blast
    have "commandProcessed A s c = Some (s\<lparr>in_repl := r'\<rparr>, d\<lparr>q_reploff := off + int (length B0), q_pending_querybuf := b\<rparr>)"
      using assms(3) d(1) fl False off(1) *(1-3) i by (simp add: commandProcessed_def assert_opt_def has_flag_def)
    then show ?thesis using d(2) *(4) False by auto
  qed
qed

text \<open>The invariant of the client that stands for the master. The applied bytes are whole requests; the commands of a transaction
  that is still open, or the one that blocked the client, are not applied yet.\<close>

definition master_inv ::
    "allocator \<Rightarrow> 'd handlers \<Rightarrow> limits \<Rightarrow> nat \<Rightarrow> nat \<Rightarrow> (bytes list \<Rightarrow> 'd \<Rightarrow> 'd) \<Rightarrow> 'd \<Rightarrow> bytes \<Rightarrow> repl_server \<Rightarrow> int \<Rightarrow>
     bytes \<Rightarrow> bytes list list \<Rightarrow> 'd in_server \<Rightarrow> in_client \<Rightarrow> bool" where
  "master_inv A H L N W exec d0 T0 r0 off B X s c \<longleftrightarrow> lim_master L \<and> base_inv A H L N W exec d0 B X s c \<and> fate A L B \<noteq> Undetermined \<and>
     room (PIECE_COST * N) (slaves r0) \<and>
     (\<exists>n X0 X1. X = X0 @ X1 \<and> chained T0 r0 off B n (in_repl s) c \<and> consumed A L (take n B) X0 \<and>
       (\<not> has_flag c CLIENT_MULTI \<and> \<not> input_blocked s c \<longrightarrow> X1 = []))"

lemma master_invI:
  assumes "lim_master L" "base_inv A H L N W exec d0 B X s c" "fate A L B \<noteq> Undetermined" "room (PIECE_COST * N) (slaves r0)"
    "X = X0 @ X1" "chained T0 r0 off B n (in_repl s) c" "consumed A L (take n B) X0" "\<not> has_flag c CLIENT_MULTI \<and> \<not> input_blocked s c \<longrightarrow> X1 = []"
  shows "master_inv A H L N W exec d0 T0 r0 off B X s c"
  using assms unfolding master_inv_def by blast

lemma blocked_bits:
  "input_blocked s c \<longleftrightarrow>
     bit (c_flags c) 4 \<or> bit (c_flags c) 30 \<or> lua_timedout s \<and> bit (c_flags c) 1 \<or> bit (c_flags c) 6 \<or> bit (c_flags c) 10"
  by (simp add: input_blocked_def rq_flag_bits flag_simps tx_flag_bits)

lemma master_inv_cong:
  assumes "master_inv A H L N W exec d0 T0 r0 off B X s c" "base_inv A H L N W exec d0 B X s c'"
    and f: "q_reploff c' = q_reploff c" "q_read_reploff c' = q_read_reploff c" "q_pending_querybuf c' = q_pending_querybuf c"
      "\<forall>i\<in>{1, 3, 4, 30}. bit (c_flags c') i = bit (c_flags c) i" "\<forall>i\<in>{6, 10}. bit (c_flags c) i \<longrightarrow> bit (c_flags c') i"
  shows "master_inv A H L N W exec d0 T0 r0 off B X s c'"
proof -
  obtain n X0 X1 where n: "X = X0 @ X1" "chained T0 r0 off B n (in_repl s) c" "consumed A L (take n B) X0"
    "\<not> has_flag c CLIENT_MULTI \<and> \<not> input_blocked s c \<longrightarrow> X1 = []"
    using assms(1) by (auto simp: master_inv_def)
  have "\<not> has_flag c' CLIENT_MULTI \<and> \<not> input_blocked s c' \<longrightarrow> X1 = []" using n(4) f(4,5) by (auto simp: blocked_bits tx_flag_bits)
  then show ?thesis using assms(1,2) n(1,3) chained_fields [OF n(2) f(1-3)] unfolding master_inv_def by blast
qed

lemma master_receive:
  assumes "master_inv A H L N W exec d0 T0 r0 off B X s c" "received bs c c'" "length (B @ bs) \<le> N" "fate A L (B @ bs) \<noteq> Undetermined"
  shows "master_inv A H L N W exec d0 T0 r0 off (B @ bs) X s c'"
proof -
  obtain n X0 X1 where n: "X = X0 @ X1" "chained T0 r0 off B n (in_repl s) c" "consumed A L (take n B) X0"
    "\<not> has_flag c CLIENT_MULTI \<and> \<not> input_blocked s c \<longrightarrow> X1 = []"
    using assms(1) by (auto simp: master_inv_def)
  have i: "base_inv A H L N W exec d0 B X s c" "lim_master L" "room (PIECE_COST * N) (slaves r0)" using assms(1) by (auto simp: master_inv_def)
  then have m: "has_flag c CLIENT_MASTER" by (auto simp: base_inv_def limits_of_def)
  have "take n (B @ bs) = take n B" using n(2) by (simp add: chained_def)
  then have t: "consumed A L (take n (B @ bs)) X0" using n(3) by (simp only:)
  have "has_flag c' CLIENT_MULTI = has_flag c CLIENT_MULTI" "input_blocked s c' = input_blocked s c"
    using assms(2) by (simp_all add: received_def has_flag_def input_blocked_def)
  then show ?thesis using n(4)
    by (intro master_invI [OF i(2) base_inv_step(3) [OF i(1) assms(2,3)] assms(4) i(3) n(1) chained_receive [OF n(2) assms(2) m] t]) simp
qed

text \<open>The requests up to the current one reach behind the applied bytes.\<close>

lemma consumed_less:
  assumes "consumed A L (take n B) X0" "B = B0 @ U" "consumed A L B0 (X0 @ X1 @ [as])" "n \<le> length B"
  shows "n < length B0"
proof (rule ccontr)
  assume "\<not> n < length B0"
  then have "take n B = B0 @ take (n - length B0) U" using assms(2) by simp
  then have "requests A L (take n B) = map_prod (append (X0 @ X1 @ [as])) id (requests A L (take (n - length B0) U))"
    using assms(3) by (simp add: consumed_def)
  moreover have "requests A L (take n B) = (X0, Waiting, [])" by (rule consumed_stream [OF assms(1)])
  ultimately show False by (cases "requests A L (take (n - length B0) U)") simp
qed

lemma master_command:
  assumes I: "master_inv A H L N W exec d0 T0 r0 off B X s c" and l: "length X < length B" and c: "buf_inv A c" "q_argv c \<noteq> []" "\<not> input_blocked s c"
    "\<not> has_flag c CLIENT_PROTOCOL_ERROR" and B: "\<exists>B0. B = B0 @ unread c \<and> consumed A L B0 (X @ [map obj_str (q_argv c)])"
  shows "\<exists>s' c'. processCommandAndResetClient A H s c = Some (True, s', c') \<and> master_inv A H L N W exec d0 T0 r0 off B (X @ [map obj_str (q_argv c)]) s' c' \<and>
    q_querybuf c' = q_querybuf c \<and> q_pos c' = q_pos c \<and> \<not> has_flag c' CLIENT_PROTOCOL_ERROR \<and>
    (\<not> input_blocked s' c' \<longrightarrow> idle c' \<and> q_reqtype c' = No_request \<and> buf_inv A c')"
proof -
  let ?as = "map obj_str (q_argv c)"
  have i: "lim_master L" "base_inv A H L N W exec d0 B X s c" "fate A L B \<noteq> Undetermined" "room (PIECE_COST * N) (slaves r0)"
    using I by (auto simp: master_inv_def)
  have m: "has_flag c CLIENT_MASTER" "length B \<le> N" "N < 2 ^ 62" using i(1,2) by (auto simp: base_inv_def limits_of_def)
  obtain n X0 X1 where n: "X = X0 @ X1" "chained T0 r0 off B n (in_repl s) c" "consumed A L (take n B) X0"
    using I by (auto simp: master_inv_def)
  obtain B0 where B0: "B = B0 @ unread c" "consumed A L B0 (X @ [?as])" using B by blast
  have less: "n < length B0" using consumed_less [OF n(3) B0(1), of X1 ?as] B0(2) n(1,2) by (simp add: chained_def)
  obtain ok s1 c1 where c1: "processCommand H s c = Some (ok, False, s1, c1)" "ok \<or> input_blocked s1 c1"
    "base_inv A H L N W exec d0 B (X @ [?as]) s1 c1" "handler_frame c c1" "in_repl s1 = in_repl s" "buf_inv A c1"
    using base_command [OF i(2) l c] m(1) by metis
  have f: "has_flag c1 CLIENT_MASTER" "q_querybuf c1 = q_querybuf c" "q_pos c1 = q_pos c" "\<not> has_flag c1 CLIENT_PROTOCOL_ERROR" "unread c1 = unread c"
    using c1(4) m(1) c(4) by (auto simp: handler_frame_def unread_def)
  have ch: "chained T0 r0 off B n (in_repl s1) c1" unfolding c1(5) by (rule chained_fields [OF n(2)]) (use c1(4) in \<open>simp_all add: handler_frame_def\<close>)
  show ?thesis
  proof (cases "ok \<and> \<not> has_flag c1 CLIENT_BLOCKED")
    case True
    obtain r' d c' x b where c': "commandProcessed A s1 c1 = Some (s1\<lparr>in_repl := r'\<rparr>, c')" "reset_of c1 d" "c' = d\<lparr>q_reploff := x, q_pending_querybuf := b\<rparr>"
      "chained T0 r0 off B (if has_flag c1 CLIENT_MULTI then n else length B0) r' c'"
      using commandProcessed_master [OF c1(6) f(1) _ ch _ less m(2,3) i(4)] B0(1) f(5) True by metis
    have fd: "\<forall>i. i \<notin> {9, 23, 24, 36} \<longrightarrow> bit (c_flags c') i = bit (c_flags c1) i" "\<forall>A n. client_room A n c' = client_room A n c1"
      using c'(2,3) by (auto simp: reset_of_def)
    have "base_inv A H L N W exec d0 B (X @ [?as]) s1 c'"
      by (rule base_inv_cong [OF c1(3)]) (use c'(2,3) fd in \<open>auto simp: reset_of_def\<close>)
    then have base: "base_inv A H L N W exec d0 B (X @ [?as]) (s1\<lparr>in_repl := r'\<rparr>) c'"
      by (simp add: base_inv_def plain_def limits_of_def authRequired_def)
    have "master_inv A H L N W exec d0 T0 r0 off B (X @ [?as]) (s1\<lparr>in_repl := r'\<rparr>) c'"
    proof (cases "has_flag c1 CLIENT_MULTI")
      case True
      then show ?thesis using c'(4) fd(1) n(1) by (intro master_invI [OF i(1) base i(3,4) _ _ n(3), of "X1 @ [?as]"]) (simp_all add: tx_flag_bits)
    next
      case False
      then show ?thesis using c'(4) B0 by (intro master_invI [OF i(1) base i(3,4), of "X @ [?as]" "[]" _ _ "length B0"]) simp_all
    qed
    moreover have "q_querybuf c' = q_querybuf c" "q_pos c' = q_pos c" "\<not> has_flag c' CLIENT_PROTOCOL_ERROR"
      "idle c' \<and> q_reqtype c' = No_request \<and> buf_inv A c'"
      using c'(2,3) f reset_buf [OF c'(2) c1(6)] fd(2) by (auto simp: reset_of_def rq_flag_bits idle_def buf_inv_def q_ok_def)
    ultimately show ?thesis using True c1(1) c'(1) by (simp add: processCommandAndResetClient_def)
  next
    case False
    then have "input_blocked s1 c1" using c1(2) by (auto simp: input_blocked_def)
    moreover from this have "master_inv A H L N W exec d0 T0 r0 off B (X @ [?as]) s1 c1"
      using n(1) by (intro master_invI [OF i(1) c1(3) i(3,4) _ ch n(3), of "X1 @ [?as]"]) simp_all
    moreover have "processCommandAndResetClient A H s c = Some (True, s1, c1)"
      using False c1(1) by (cases ok) (simp_all add: processCommandAndResetClient_def commandProcessed_def)
    ultimately show ?thesis using f by blast
  qed
qed

lemma master_invD:
  assumes "master_inv A H L N W exec d0 T0 r0 off B X s c"
  shows "lim_master L" "base_inv A H L N W exec d0 B X s c" "fate A L B \<noteq> Undetermined" "sds_ok (q_pending_querybuf c)"
    "hdr_len (q_pending_querybuf c) \<le> length B"
proof -
  obtain n where n: "chained T0 r0 off B n (in_repl s) c" using assms by (auto simp: master_inv_def)
  then show "sds_ok (q_pending_querybuf c)" by (simp add: chained_def)
  then show "hdr_len (q_pending_querybuf c) \<le> length B" using n length_sds_str [of "q_pending_querybuf c"] by (simp add: chained_def)
qed (use assms in \<open>simp_all add: master_inv_def\<close>)

interpretation master_loop: request_loop A H L N "master_inv A H L N W exec d0 T0 r0 off" for A H L N W exec d0 T0 r0 off
proof
  fix B X s c assume I: "master_inv A H L N W exec d0 T0 r0 off B X s c"
  show "limits_of s c = L \<and> N < 2 ^ 62 \<and> lim_bulk L \<le> 2 ^ 62 \<and> \<not> gopher_enabled s \<and> \<not> has_flag c CLIENT_PENDING_READ \<and> \<not> has_flag c CLIENT_LUA \<and>
      \<not> (io_threads_active s \<and> io_threads_do_reads s) \<and> (lim_master L \<longrightarrow> fate A L B \<noteq> Undetermined) \<and>
      (has_flag c CLIENT_MASTER \<longrightarrow> sds_ok (q_pending_querybuf c) \<and> hdr_len (q_pending_querybuf c) \<le> length B)"
    using master_invD [OF I] by (auto simp: base_inv_def plain_def)
next
  fix B X s c c' assume I: "master_inv A H L N W exec d0 T0 r0 off B X s c" and f: "input_frame c c'"
  show "master_inv A H L N W exec d0 T0 r0 off B X s c'"
    by (rule master_inv_cong [OF I base_inv_step(1) [OF master_invD(2) [OF I] f]]) (use f in \<open>simp_all add: input_frame_def\<close>)
next
  fix B X s c c' assume I: "master_inv A H L N W exec d0 T0 r0 off B X s c" and f: "reset_of c c'"
  show "master_inv A H L N W exec d0 T0 r0 off B X s c'"
    by (rule master_inv_cong [OF I base_inv_step(2) [OF master_invD(2) [OF I] f]]) (use f in \<open>simp_all add: reset_of_def\<close>)
next
  fix B X s c bs c' assume I: "master_inv A H L N W exec d0 T0 r0 off B X s c" and r: "received bs c c'"
    "lim_master L \<longrightarrow> fate A L (B @ bs) \<noteq> Undetermined" "length (B @ bs) \<le> N"
  show "master_inv A H L N W exec d0 T0 r0 off (B @ bs) X s c'" by (rule master_receive [OF I r(1,3)]) (use r(2) master_invD(1) [OF I] in simp)
next
  fix B X s c assume I: "master_inv A H L N W exec d0 T0 r0 off B X s c" and c: "length X < length B" "buf_inv A c" "q_argv c \<noteq> []" "\<not> input_blocked s c"
    "lim_master L \<longrightarrow> (\<exists>B0. B = B0 @ unread c \<and> consumed A L B0 (X @ [map obj_str (q_argv c)]))" "\<not> has_flag c CLIENT_PROTOCOL_ERROR"
  show "\<exists>s' c'. processCommandAndResetClient A H s c = Some (True, s', c') \<and>
      master_inv A H L N W exec d0 T0 r0 off B (X @ [map obj_str (q_argv c)]) s' c' \<and> q_querybuf c' = q_querybuf c \<and> q_pos c' = q_pos c \<and>
      \<not> has_flag c' CLIENT_PROTOCOL_ERROR \<and> (\<not> input_blocked s' c' \<longrightarrow> idle c' \<and> q_reqtype c' = No_request \<and> buf_inv A c')"
    by (rule master_command [OF I c(1-4,6)]) (use c(5) master_invD(1) [OF I] in simp)
qed

text \<open>What a replica gets: everything, or a prefix if it reads too slowly and is being closed, or nothing if it is not fed yet.\<close>

definition forwarded :: "bytes \<Rightarrow> replica \<Rightarrow> replica \<Rightarrow> bool" where
  "forwarded t a b \<longleftrightarrow>
     (if canFeedReplicaReplBuffer a then \<exists>u v. t = u @ v \<and> view b = view a @ map Some u \<and> (accepts b \<longrightarrow> v = []) else b = a)"

lemma fed_forwarded: "fed t n a b \<Longrightarrow> forwarded t a b"
  by (auto simp: fed_def forwarded_def appends_def)

lemma chained_result:
  assumes "chained T0 r0 off B n r c"
  shows "n \<le> length B" "q_reploff c = off + int n" "backlog_holds (T0 @ take n B) r" "list_all2 (forwarded (take n B)) (slaves r0) (slaves r)"
proof -
  obtain ps where "concat ps = take n B" "advances ps T0 r0 r" using assms by (auto simp: chained_def)
  then show "backlog_holds (T0 @ take n B) r" "list_all2 (forwarded (take n B)) (slaves r0) (slaves r)"
    by (auto simp: advances_def intro: list_all2_mono fed_forwarded)
qed (use assms in \<open>simp_all add: chained_def\<close>)

lemma chained_start:
  assumes "backlog_holds T0 r" "room n (slaves r)" "q_read_reploff c = q_reploff c" "sds_ok (q_pending_querybuf c)" "sds_str (q_pending_querybuf c) = []"
  shows "chained T0 r (q_reploff c) [] 0 r c"
  using assms fed_all_refl [OF assms(2)] by (auto simp: chained_def advances_def intro!: exI [of _ "[]"])

text \<open>A replica whose connection to its master has just been set up, at the end of the history \<open>T0\<close>.\<close>

definition attached :: "allocator \<Rightarrow> bytes \<Rightarrow> nat \<Rightarrow> 'd in_server \<Rightarrow> in_client \<Rightarrow> bool" where
  "attached A T0 N s c \<longleftrightarrow> fresh c \<and> plain s c \<and> \<not> input_blocked s c \<and> has_flag c CLIENT_MASTER \<and> proto_max_bulk_len s \<le> 2 ^ 62 \<and>
     q_read_reploff c = q_reploff c \<and> sds_ok (q_pending_querybuf c) \<and> sds_str (q_pending_querybuf c) = [] \<and>
     backlog_holds T0 (in_repl s) \<and> room (PIECE_COST * N) (slaves (in_repl s))"

lemma master_run:
  assumes "serves A W exec H" "attached A T0 (length T) s c" "length T < 2 ^ 62" "client_room A (ERROR_COST + W * length T) c"
    "fate A (limits_of s c) T \<noteq> Undetermined"
  obtains B T' X X0 X1 n s' c' where "read_stream A H ns T s c = Some (T', s', c')" "T = B @ T'" "in_data s' = fold exec X (in_data s)"
    "resting A (limits_of s c) B X s' c'" "X = X0 @ X1" "chained T0 (in_repl s) (q_reploff c) B n (in_repl s') c'"
    "requests A (limits_of s c) (take n B) = (X0, Waiting, [])" "\<not> has_flag c' CLIENT_MULTI \<and> \<not> input_blocked s' c' \<longrightarrow> X1 = []"
    "fate A (limits_of s c) B \<noteq> Undetermined"
proof -
  let ?L = "limits_of s c" and ?N = "length T"
  let ?I = "master_inv A H ?L ?N W exec (in_data s) T0 (in_repl s) (q_reploff c)"
  let ?S = "master_loop.standing A ?L H ?N W exec (in_data s) T0 (in_repl s) (q_reploff c)"
  have a: "fresh c" "plain s c" "\<not> input_blocked s c" "has_flag c CLIENT_MASTER" "room (PIECE_COST * ?N) (slaves (in_repl s))"
    "chained T0 (in_repl s) (q_reploff c) [] 0 (in_repl s) c"
    using assms(2) chained_start [of T0 "in_repl s"] by (auto simp: attached_def)
  have b: "base_inv A H ?L ?N W exec (in_data s) [] [] s c" using assms a(2) by (simp add: base_inv_def attached_def limits_of_def reply_room_def)
  have "fate A ?L [] \<noteq> Undetermined" using fate_append [of A ?L "[]" T] assms(5) by auto
  then have "?I [] [] s c" using a(4) by (intro master_invI [OF _ b _ a(5) _ a(6), of "[]" "[]"]) (simp_all add: limits_of_def consumed_Nil)
  moreover have "resting A ?L [] [] s c" using fresh_resting [OF a(1) _ a(3)] room_le [OF assms(4), of ERROR_COST] by simp
  ultimately have st: "?S [] [] s c" using a(1) by (simp add: master_loop.standing_def fresh_def)
  obtain B T' X s' c' where r: "read_stream A H ns T s c = Some (T', s', c')" "T = B @ T'" "?S B X s' c'"
    using master_loop.read_stream_ok [OF st, of T ns] assms(5) by auto
  have I: "?I B X s' c'" "resting A ?L B X s' c'" using r(3) by (auto simp: master_loop.standing_def)
  obtain n X0 X1 where n: "X = X0 @ X1" "chained T0 (in_repl s) (q_reploff c) B n (in_repl s') c'" "consumed A ?L (take n B) X0"
    "\<not> has_flag c' CLIENT_MULTI \<and> \<not> input_blocked s' c' \<longrightarrow> X1 = []"
    using I(1) unfolding master_inv_def by blast
  have "in_data s' = fold exec X (in_data s)" using master_invD(2) [OF I(1)] by (simp add: base_inv_def)
  then show thesis using that [OF r(1,2) _ I(2) n(1,2) consumed_stream [OF n(3)] n(4) master_invD(3) [OF I(1)]] by blast
qed

lemma prefix_of_take:
  assumes "X = take k cmds" "X = X0 @ X1" "P \<longrightarrow> X1 = []"
  shows "\<exists>m\<le>k. X0 = take m cmds \<and> (P \<longrightarrow> m = k)"
proof (cases "X1 = []")
  case True
  then show ?thesis using assms by auto
next
  case False
  have "length X0 \<le> length X" "X0 = take (length X0) X" using assms(2) by simp_all
  moreover have "length X \<le> k" using assms(1) by simp
  ultimately have "length X0 \<le> k" "X0 = take (length X0) cmds" using assms(1) by (simp_all add: min_absorb1)
  then show ?thesis using False assms(3) by blast
qed

text \<open>C8: A replica passes on the stream of its master byte by byte. A replica reads any stream from its master, in pieces of any
  sizes: no assertion fails, the commands run are those of the protocol, in order, and its offset counts exactly the bytes of the
  applied requests. These bytes, and no others, extend the history in its own backlog and are sent to its replicas; they always end
  at the end of a request. A transaction is passed on as a whole: the applied bytes fall behind the commands run only inside of a
  transaction, or when the client is blocked or being closed.\<close>

theorem chained_replication:
  assumes "serves A W exec H" "attached A T0 (length T) s c" "length T < 2 ^ 62" "client_room A (ERROR_COST + W * length T) c"
    "fate A (limits_of s c) T \<noteq> Undetermined"
  shows "\<exists>B T' s' c' n k m cmds e R. read_stream A H ns T s c = Some (T', s', c') \<and> T = B @ T' \<and>
    (0 \<notin> set ns \<and> length T \<le> length ns \<longrightarrow> T' = []) \<and>
    requests A (limits_of s c) B = (cmds, e, R) \<and> in_data s' = fold exec (take k cmds) (in_data s) \<and>
    (has_flag c' CLIENT_PROTOCOL_ERROR \<longrightarrow> k = length cmds \<and> e = Failed) \<and>
    (\<not> input_blocked s' c' \<longrightarrow> k = length cmds \<and> e = Waiting) \<and>
    n \<le> length B \<and> m \<le> k \<and> requests A (limits_of s c) (take n B) = (take m cmds, Waiting, []) \<and>
    (\<not> has_flag c' CLIENT_MULTI \<and> \<not> input_blocked s' c' \<longrightarrow> m = k) \<and>
    q_reploff c' = q_reploff c + int n \<and> backlog_holds (T0 @ take n B) (in_repl s') \<and>
    list_all2 (forwarded (take n B)) (slaves (in_repl s)) (slaves (in_repl s'))"
proof -
  let ?L = "limits_of s c"
  obtain B T' X X0 X1 n s' c' where r: "read_stream A H ns T s c = Some (T', s', c')" "T = B @ T'" "in_data s' = fold exec X (in_data s)"
    "resting A ?L B X s' c'" "X = X0 @ X1" "chained T0 (in_repl s) (q_reploff c) B n (in_repl s') c'"
    "requests A ?L (take n B) = (X0, Waiting, [])" "\<not> has_flag c' CLIENT_MULTI \<and> \<not> input_blocked s' c' \<longrightarrow> X1 = []" "fate A ?L B \<noteq> Undetermined"
    by (rule master_run [OF assms])
  obtain cmds e R where q: "requests A ?L B = (cmds, e, R)" by (cases "requests A ?L B")
  have "e \<noteq> Undetermined" using r(9) q by simp
  then obtain k where k: "X = take k cmds" "has_flag c' CLIENT_PROTOCOL_ERROR \<longrightarrow> k = length cmds \<and> e = Failed"
    "\<not> input_blocked s' c' \<longrightarrow> k = length cmds \<and> e = Waiting"
    using resting_prefix [OF r(4) q] by blast
  obtain m where m: "m \<le> k" "X0 = take m cmds" "\<not> has_flag c' CLIENT_MULTI \<and> \<not> input_blocked s' c' \<longrightarrow> m = k"
    using prefix_of_take [OF k(1) r(5,8)] by blast
  show ?thesis
    using r(1,2) read_stream_progress [OF r(1)] q k m r(3,7) chained_result [OF r(6)]
    by (intro exI [of _ B] exI [of _ T'] exI [of _ s'] exI [of _ c'] exI [of _ n] exI [of _ k] exI [of _ m] exI [of _ cmds] exI [of _ e] exI [of _ R]) simp
qed

section \<open>A master and its replica\<close>

text \<open>No shorter part of the text contains all of the commands.\<close>

lemma request_minimal:
  assumes "acceptable L as" "j < length (command_text as)"
  shows "request A L (take j (command_text as)) = More"
proof -
  let ?T = "command_text as"
  have full: "request A L (take j ?T @ drop j ?T) = Ready as []" using request_text [OF assms(1), of A "[]"] by simp
  note d = settledD [OF request_settled [of A L "take j ?T"]]
  show ?thesis
  proof (cases "request A L (take j ?T)")
    case (Ready bs R)
    then show ?thesis using d(1) [OF Ready, of "drop j ?T"] full assms(2) by simp
  next
    case Bad
    then show ?thesis using d(2) [OF Bad, of "drop j ?T"] full by simp
  next
    case Huge
    then show ?thesis using d(3) [OF Huge, of "drop j ?T"] full by simp
  qed simp
qed

lemma text_minimal:
  assumes "\<forall>as\<in>set cmds. acceptable L as \<and> as \<noteq> []" "requests A L (take n (concat (map command_text cmds))) = (cmds, e, R)"
  shows "length (concat (map command_text cmds)) \<le> n"
proof (cases cmds rule: rev_cases)
  case (snoc cs as)
  let ?S = "concat (map command_text cs)" and ?t = "command_text as"
  have c: "consumed A L ?S cs" using assms(1) snoc by (intro consumed_text) simp
  show ?thesis
  proof (rule ccontr)
    assume "\<not> length (concat (map command_text cmds)) \<le> n"
    then have l: "n < length ?S + length ?t" using snoc by simp
    show False
    proof (cases "n < length ?S")
      case True
      then have "requests A L (take n ?S) = (cmds, e, R)" using assms(2) snoc by simp
      then obtain Y f R' where "requests A L (take n ?S @ drop n ?S) = (cmds @ Y, f, R')" using requests_append by blast
      then show False using consumed_stream [OF c] snoc by simp
    next
      case False
      then have t: "take n (concat (map command_text cmds)) = ?S @ take (n - length ?S) ?t" using snoc by simp
      have "request A L (take (n - length ?S) ?t) = More" using request_minimal [of L as "n - length ?S" A] assms(1) snoc l False by simp
      then have "requests A L (?S @ take (n - length ?S) ?t) = (cs, Waiting, take (n - length ?S) ?t)"
        using c requests_settled(1) [of A L "take (n - length ?S) ?t"] by (simp add: consumed_def)
      then show False using assms(2) snoc unfolding t by simp
    qed
  qed
qed simp

text \<open>C3: A replica does what its master did. A master propagates any sequence of commands, with resizings of its backlog in
  between, and a replica that had the same history reads the bytes in pieces of any sizes. Then the bytes the master appended to the
  output of the replica are read completely and without a protocol error, and a replica that is not blocked has run exactly the
  propagated commands and the selections of the database between them, with their exact arguments, in order and once. Outside of a
  transaction the offsets have advanced by the same number, and the backlogs of both hold the same history, so that either of them
  can serve a partial resynchronisation.\<close>

theorem replica_follows_master:
  assumes master: "backlog_holds T m" "masterhost m = None" "\<forall>op\<in>set ops. repl_op_ok op \<and> (\<forall>p. op \<noteq> Proxy p)" "modest A"
      "room (sum_list (map grow (repl_stream False (slaveseldb m) ops))) (slaves m)" "i < length (slaves m)" "canFeedReplicaReplBuffer (slaves m ! i)"
    and S: "S = concat (repl_stream False (slaveseldb m) ops)"
    and replica: "serves A' W exec H" "attached A' T (length S) s c" "length S < 2 ^ 62" "client_room A' (ERROR_COST + W * length S) c"
      "\<forall>as\<in>set (repl_commands False (slaveseldb m) ops). acceptable (limits_of s c) as \<and> as \<noteq> []"
    and reads: "0 \<notin> set ns" "length S \<le> length ns"
  shows "\<exists>m' s' c'. repl_run A ops m = Some m' \<and> backlog_holds (T @ S) m' \<and>
    (accepts (slaves m' ! i) \<longrightarrow> view (slaves m' ! i) = view (slaves m ! i) @ map Some S) \<and>
    read_stream A' H ns S s c = Some ([], s', c') \<and> \<not> has_flag c' CLIENT_PROTOCOL_ERROR \<and>
    (\<not> input_blocked s' c' \<longrightarrow> in_data s' = fold exec (repl_commands False (slaveseldb m) ops) (in_data s) \<and>
      (\<not> has_flag c' CLIENT_MULTI \<longrightarrow> backlog_holds (T @ S) (in_repl s') \<and>
        q_reploff c' - q_reploff c = master_repl_offset m' - master_repl_offset m))"
proof -
  let ?cmds = "repl_commands False (slaveseldb m) ops" and ?L = "limits_of s c"
  have St: "S = concat (map command_text ?cmds)" unfolding S using repl_stream_text master(3) by blast
  have all: "requests A' ?L S = (?cmds, Waiting, [])" unfolding St by (rule consumed_stream [OF consumed_text [OF replica(5)]])
  obtain m' where m': "repl_run A ops m = Some m'" "advances (repl_stream False (slaveseldb m) ops) T m m'"
    using repl_run_eq [of T m ops A] master by auto
  then have mh: "backlog_holds (T @ S) m'" "list_all2 (forwarded S) (slaves m) (slaves m')"
    by (auto simp: advances_def S intro: list_all2_mono fed_forwarded)
  have mv: "accepts (slaves m' ! i) \<longrightarrow> view (slaves m' ! i) = view (slaves m ! i) @ map Some S"
    using list_all2_nthD [OF mh(2) master(6)] master(7) by (auto simp: forwarded_def)
  obtain B T' X X0 X1 n s' c' where r: "read_stream A' H ns S s c = Some (T', s', c')" "S = B @ T'" "in_data s' = fold exec X (in_data s)"
    "resting A' ?L B X s' c'" "X = X0 @ X1" "chained T (in_repl s) (q_reploff c) B n (in_repl s') c'"
    "requests A' ?L (take n B) = (X0, Waiting, [])" "\<not> has_flag c' CLIENT_MULTI \<and> \<not> input_blocked s' c' \<longrightarrow> X1 = []"
    using master_run [OF replica(1-4)] all by (metis ending.distinct(3) fst_conv snd_conv)
  have T': "T' = []" "B = S" using read_stream_progress [OF r(1) reads] r(2) by auto
  have q: "\<not> has_flag c' CLIENT_PROTOCOL_ERROR" "\<not> input_blocked s' c' \<Longrightarrow> X = ?cmds" using resting_prefix [OF r(4), of ?cmds Waiting "[]"] all T'(2) by auto
  have "backlog_holds (T @ S) (in_repl s') \<and> q_reploff c' - q_reploff c = master_repl_offset m' - master_repl_offset m"
    if "\<not> input_blocked s' c'" "\<not> has_flag c' CLIENT_MULTI"
  proof -
    have "X0 = ?cmds" using that q(2) r(5,8) by simp
    then have "length S \<le> n" using text_minimal [OF replica(5), of A' n Waiting "[]"] r(7) T'(2) St by simp
    then show ?thesis using chained_result(2,3) [OF r(6)] chained_result(1) [OF r(6)] T'(2) mh(1) master(1) by (simp add: backlog_holds_def)
  qed
  then show ?thesis using m'(1) mh(1) mv r(1,3) T'(1) q by blast
qed

section \<open>Examples\<close>

definition example_link :: in_client where
  "example_link = example_input\<lparr>c_flags := CLIENT_MASTER\<rparr>"

lemma example_link_flags: "bit (c_flags example_link) i \<longleftrightarrow> i = 1"
proof -
  have "c_flags example_link = push_bit 1 1" unfolding example_link_def CLIENT_MASTER_def by (simp del: push_bit_of_1)
  then show ?thesis using flag_mask_bit [of 1 i] by (simp del: push_bit_of_1)
qed

lemma example_attached:
  assumes "N < 2 ^ 40"
  shows "attached plain_allocator [1, 2, 3, 4, 5, 6, 6, 7, 8, 9] N example_server example_link"
proof -
  have "q_ok example_link = q_ok example_input" "unread example_link = unread example_input" "idle example_link = idle example_input"
    "q_pos example_link = q_pos example_input" "q_reqtype example_link = q_reqtype example_input"
    by (simp_all add: example_link_def q_ok_def unread_def idle_def)
  then have f: "fresh example_link" using example_input_facts(2) by (simp add: fresh_def rq_flag_bits example_link_flags)
  have p: "plain example_server example_link" "\<not> input_blocked example_server example_link" "has_flag example_link CLIENT_MASTER"
    by (simp_all add: plain_def blocked_bits flag_simps example_link_flags) (simp_all add: example_server_def)
  have "room (PIECE_COST * N) (slaves example_master)" using assms
    by (simp add: room_def example_master_def example_out) (simp add: example_replica_def PIECE_COST_def MAX_REPLY_BYTES_def)
  moreover have "in_repl example_server = example_master" "proto_max_bulk_len example_server \<le> 2 ^ 62" by (simp_all add: example_server_def)
  moreover have "q_read_reploff example_link = q_reploff example_link" "q_pending_querybuf example_link = no_text"
    by (simp_all add: example_link_def example_input_def client.defs in_client.defs)
  ultimately show ?thesis using f p example_holds by (simp add: attached_def)
qed

lemma example_link_room: "client_room plain_allocator (ERROR_COST + 0 * n) example_link"
proof -
  have "client_room A n example_link = client_room A n example_input" for A n by (simp add: example_link_def client_room_def out_inv_def)
  then show ?thesis using example_input_facts(6) [of 0] by simp
qed

lemma example_limits: "limits_of example_server example_link = \<lparr>lim_bulk = 536870912, lim_auth = False, lim_master = True\<rparr>"
  by (simp add: limits_of_def authRequired_def flag_simps example_link_flags) (simp add: example_server_def)

theorem chained_replication_witness:
  "\<exists>s' c' n. read_stream plain_allocator log_handlers (replicate 99 2) (concat (map command_text [[ascii ''PING''], [ascii ''DEL'', [107]]]))
      example_server example_link = Some ([], s', c') \<and>
    backlog_holds ([1, 2, 3, 4, 5, 6, 6, 7, 8, 9] @ take n (concat (map command_text [[ascii ''PING''], [ascii ''DEL'', [107]]]))) (in_repl s') \<and>
    (\<not> input_blocked s' c' \<longrightarrow> in_data s' = [[ascii ''PING''], [ascii ''DEL'', [107]]])"
proof -
  let ?cmds = "[[ascii ''PING''], [ascii ''DEL'', [107]]]" and ?s = example_server and ?c = example_link
  let ?T = "concat (map command_text ?cmds)" and ?L = "limits_of ?s ?c"
  have T: "length ?T \<le> 99" by code_simp
  have "\<forall>as\<in>set ?cmds. acceptable ?L as \<and> as \<noteq> []" by (simp add: acceptable_def example_limits ascii_def)
  then have r: "requests plain_allocator ?L ?T = (?cmds, Waiting, [])" using consumed_stream [OF consumed_text] by blast
  have h: "attached plain_allocator [1, 2, 3, 4, 5, 6, 6, 7, 8, 9] (length ?T) ?s ?c" "length ?T < 2 ^ 62" "fate plain_allocator ?L ?T \<noteq> Undetermined"
    using example_attached [of "length ?T"] T r by simp_all
  obtain B T' s' c' n k m cmds e R where x: "read_stream plain_allocator log_handlers (replicate 99 2) ?T ?s ?c = Some (T', s', c')" "?T = B @ T'"
    "0 \<notin> set (replicate 99 (2::nat)) \<and> length ?T \<le> length (replicate 99 (2::nat)) \<longrightarrow> T' = []" "requests plain_allocator ?L B = (cmds, e, R)"
    "in_data s' = fold (\<lambda>as d. d @ [as]) (take k cmds) (in_data ?s)" "\<not> input_blocked s' c' \<longrightarrow> k = length cmds \<and> e = Waiting"
    "backlog_holds ([1, 2, 3, 4, 5, 6, 6, 7, 8, 9] @ take n B) (in_repl s')"
    using chained_replication [OF log_serves h(1,2) example_link_room h(3), of "replicate 99 2"] by (elim exE conjE) (rule that)
  have t: "T' = []" "B = ?T" using x(2,3) T by simp_all
  have "cmds = ?cmds" using x(4) r unfolding t(2) by simp
  then have "\<not> input_blocked s' c' \<longrightarrow> in_data s' = ?cmds" using x(5,6) by (auto simp: fold_log example_server_def)
  then show ?thesis using x(1,7) t by blast
qed

theorem replica_follows_master_witness:
  "\<exists>m' s' c'. repl_run plain_allocator [Propagate 1 [int_example], Resize 20000] example_master = Some m' \<and>
    read_stream plain_allocator log_handlers (replicate 99 2) (concat (repl_stream False 0 [Propagate 1 [int_example], Resize 20000]))
      example_server example_link = Some ([], s', c') \<and>
    (\<not> input_blocked s' c' \<longrightarrow> in_data s' = [[ascii ''SELECT'', [49]], [[52, 50]]])"
proof -
  let ?ops = "[Propagate 1 [int_example], Resize 20000]" and ?s = example_server and ?c = example_link
  let ?S = "concat (repl_stream False 0 ?ops)"
  have sel: "slaveseldb example_master = 0" "masterhost example_master = None" by (simp_all add: example_master_def)
  have o: "\<forall>op\<in>set ?ops. repl_op_ok op \<and> (\<forall>p. op \<noteq> Proxy p)" by (simp add: example_args)
  have rm: "room (sum_list (map grow (repl_stream False (slaveseldb example_master) ?ops))) (slaves example_master)"
    by (simp add: room_def example_master_def example_out propagated_def example_pieces select_1 grow_def PROTO_REPLY_CHUNK_BYTES_def MAX_REPLY_BYTES_def)
      (simp add: example_replica_def)
  have cmds: "repl_commands False (slaveseldb example_master) ?ops = [[ascii ''SELECT'', [49]], [[52, 50]]]"
    by (simp add: sel int_example_ok dec_int_def dec_nat.simps)
  have S: "length ?S < 99" "?S = concat (repl_stream False (slaveseldb example_master) ?ops)"
    by (simp_all add: sel propagated_def example_pieces select_1)
  have ok: "\<forall>as\<in>set (repl_commands False (slaveseldb example_master) ?ops). acceptable (limits_of ?s ?c) as \<and> as \<noteq> []"
    unfolding cmds by (simp add: acceptable_def example_limits ascii_def)
  have feed: "0 < length (slaves example_master)" "canFeedReplicaReplBuffer (slaves example_master ! 0)"
    by (simp_all add: example_master_def canFeedReplicaReplBuffer_def rdbonly_bit)
      (simp_all add: example_replica_def SLAVE_STATE_ONLINE_def SLAVE_STATE_WAIT_BGSAVE_START_def CLIENT_SLAVE_def)
  have md: "modest plain_allocator" by (simp add: modest_def plain_allocator_def)
  have ns: "0 \<notin> set (replicate 99 (2::nat))" "length ?S \<le> length (replicate 99 (2::nat))" using S(1) by simp_all
  have att: "attached plain_allocator [1, 2, 3, 4, 5, 6, 6, 7, 8, 9] (length ?S) ?s ?c" "length ?S < 2 ^ 62" using example_attached [of "length ?S"] S(1) by simp_all
  obtain m' s' c' where x: "repl_run plain_allocator ?ops example_master = Some m'"
    "read_stream plain_allocator log_handlers (replicate 99 2) ?S ?s ?c = Some ([], s', c')"
    "\<not> input_blocked s' c' \<longrightarrow> in_data s' = fold (\<lambda>as d. d @ [as]) (repl_commands False (slaveseldb example_master) ?ops) (in_data ?s)"
    using replica_follows_master [OF example_holds sel(2) o md rm feed S(2) log_serves att example_link_room ok ns] by blast
  then show ?thesis unfolding cmds fold_log by (auto simp: example_server_def)
qed

end
