(* ===== verification/Spec2Isabelle.thy ===== *)
theory Spec2Isabelle
  imports Endian Util_Num Util_Match Sds_Args Intset Dict_Scan Siphash String_Object Dict_Types Bit_Semantics Multi_Run Request_Master
begin

text \<open>
  A verification development for the C program of this repository, Redis 6.2 (\<^verbatim>\<open>src/framework/redis/redis-6.2/src\<close>; the file
  names below are relative to this directory). Redis is a server that keeps a dictionary of values in memory, runs commands that its
  clients send over sockets and passes its changes on to replicas. The development follows the way of a request: the bytes
  are read and parsed into arguments (dynamic strings and string objects), a command finds its key in the dictionary, changes a
  value, adds replies to the output buffers of the client and is propagated to the replicas, possibly as a part of a transaction.

  \<^bold>\<open>Conventions.\<close> \<open>Redis_Prelude\<close> names the C types: a \<^verbatim>\<open>char\<close> is a \<open>byte\<close>, an 8-bit word, and integers of fixed width are words of
  that width, read with \<open>unat\<close> or \<open>sint\<close>. Sizes and offsets that no caller can bring near their limits are numbers, with the reduction modulo
  \<open>2 ^ 64\<close> written out where it can occur. Memory is a list of bytes with checked accesses; a state is a record with the fields of the
  C structure. Every operation that can fail an assertion, panic or leave a block returns an option, so that a result \<open>Some\<close>
  says that nothing of this kind happened. The byte order of the host, build options, the allocator, sockets, clocks and random
  numbers are arguments, and the theorems hold for all of them that meet their contract.

  \<^bold>\<open>Interfaces.\<close> \<open>Interfaces\<close> has the locales \<open>set_store\<close> (integer sets), \<open>map_store\<close> (dictionaries) and \<open>output_queue\<close> (the output of a
  client and the replication backlog), \<open>Sds\<close> the locale \<open>string_buffer\<close> and \<open>Request_Stream\<close> the locale \<open>request_loop\<close>, for the
  client of a user and for the client that stands for a master. Each is interpreted on the definitions of its providers.

  \<^bold>\<open>Numbers and text.\<close>
  \<^item> \<open>Endian\<close>: \<^verbatim>\<open>endianconv.c\<close>. Reversing twice changes nothing, and what is stored is little endian on both kinds of hosts.
  \<^item> \<open>Util_Num\<close>: \<^verbatim>\<open>digits10\<close>, \<^verbatim>\<open>ll2string\<close> and \<^verbatim>\<open>string2ll\<close> of \<^verbatim>\<open>util.c\<close>. Printing and parsing are inverse, on exactly the canonical texts.
  \<^item> \<open>Util_Match\<close>: the glob matcher of \<^verbatim>\<open>util.c\<close>. It agrees with a reference that first reads the pattern into elements and then matches them, except
    on the empty string; the recursion ends because pattern and string get shorter.
  \<^item> \<open>Sds\<close>, \<open>Sds_Text\<close>, \<open>Sds_Args\<close>: \<^verbatim>\<open>sds.c\<close> with headers, growth and all operations on the contents; formatting; splitting, joining, quoting
    and the parser of argument lines. Programs of string operations refine byte sequences for every allocator, with the one exception of growing
    by \<^verbatim>\<open>sdsResize\<close> with jemalloc; quoting and parsing are inverse. The slots of \<^verbatim>\<open>sdssplitlen\<close> are an \<^verbatim>\<open>int\<close> that doubles from 5, which bounds
    the separators by \<open>5 * 2 ^ 28 - 2\<close>; the argument counter of \<^verbatim>\<open>sdssplitargs\<close> is a number.

  \<^bold>\<open>Data structures.\<close>
  \<^item> \<open>Intset\<close>: \<^verbatim>\<open>intset.c\<close> at the level of its bytes. It implements sets for fewer than \<open>2 ^ 28\<close> operations, which keeps the size of the
    block below the 32 bits of its counter; the integrity check accepts exactly the well-formed blobs among those of up to 4 GB, where
    the positions fit the \<^verbatim>\<open>int\<close> that \<^verbatim>\<open>_intsetGet\<close> takes.
  \<^item> \<open>Siphash\<close>: \<^verbatim>\<open>siphash.c\<close>, both builds against the published function, which is written independently of the code and checked on the published test
    vector; the variant without case against the same function of the text in lower case.
  \<^item> \<open>Dict\<close>, \<open>Dict_Scan\<close>: \<^verbatim>\<open>dict.c\<close> with its two tables, incremental rehashing and the reverse binary cursor of SCAN. Up to \<open>2 ^ 60\<close> operations behave
    as a finite map (the bound keeps the sizes of the tables inside of 64 bits), and a scan returns every key that stays.
  \<^item> \<open>Dict_Types\<close> and the end of this theory: the types of the dictionaries of the server and Sentinel meet the contract of the dictionary, those that ignore case on
    names without zero bytes only, and the keyspace is a map keyed by the bytes of the keys.
  \<^item> \<open>String_Object\<close>: the string objects of \<^verbatim>\<open>object.c\<close>. The three encodings are not visible through comparison, length and the readers of
    integers, whose replies are given for every failure; arguments printed by MONITOR are read back.

  \<^bold>\<open>Bit maps.\<close> \<open>Bits_Count\<close> and \<open>Bitfield\<close> have the scans and the integer fields of \<^verbatim>\<open>bitops.c\<close>, \<open>Bit_Commands\<close> its commands, and \<open>Bit_Semantics\<close>
  what they mean on unlimited bit maps. Strings are shorter than \<open>2 ^ 62\<close> bytes there, far above the 512 megabytes the server allows.

  \<^bold>\<open>Clients.\<close>
  \<^item> \<open>Reply_Buffer\<close>, \<open>Reply_Stream\<close>: the reply functions of \<^verbatim>\<open>networking.c\<close>, from \<^verbatim>\<open>addReply\<close> to \<^verbatim>\<open>writeToClient\<close>. The fixed buffer, the list of blocks and
    the placeholders are one queue of bytes. The memory of the replies stays below \<open>MAX_REPLY_BYTES\<close>, \<open>2 ^ 64\<close> less some
    slack, so that its counter does not wrap.
  \<^item> \<open>Request_Buffer\<close>: the input side, from \<^verbatim>\<open>readQueryFromClient\<close> to \<^verbatim>\<open>commandProcessed\<close>. The loop over the arguments has as much fuel as arguments
    are left, and each round takes one; the loop over the requests is a \<open>partial_function\<close> that is proved to return.
  \<^item> \<open>Request_Spec\<close>: the protocol as a function from the bytes received to the requests they hold. \<open>Request_Parse\<close>: the parser can stop
    after any byte and resume. \<open>Request_Stream\<close>: a client runs the commands of its stream, however the stream is cut into reads. Streams are
    shorter than \<open>2 ^ 62\<close> bytes; \<open>ERROR_COST\<close> bounds the memory of a reply to a wrong request.

  \<^bold>\<open>Replication and transactions.\<close>
  \<^item> \<open>Repl_Backlog\<close>, \<open>Repl_Stream\<close>: the master side of \<^verbatim>\<open>replication.c\<close>, the circular backlog, the propagation of commands, partial resynchronisation
    and the change of the history at a failover. The stream is one history of bytes, of which the backlog has the end.
  \<^item> \<open>Request_Master\<close>: the same stream on the side of a replica, which runs the commands, passes the applied bytes on to its own
    replicas and ends with the history of the master. \<open>PIECE_COST\<close> bounds the memory one byte of the stream takes in the output of a replica.
  \<^item> \<open>Multi_Exec\<close>, \<open>Multi_Watch\<close>, \<open>Multi_Run\<close>: \<^verbatim>\<open>multi.c\<close>, with the flush and swap of databases of \<^verbatim>\<open>db.c\<close>. The index of watched keys refines a relation between
    clients and keys, and EXEC runs all of the queue or nothing of it. The loop of EXEC has as much fuel as commands are queued.

  \<^bold>\<open>Parameters.\<close> Running a command goes through a table of functions; its contracts are \<open>call_ok\<close> for EXEC and \<open>serves\<close> for
  requests, and examples at the ends of \<open>Multi_Run\<close> and \<open>Request_Stream\<close> show that they can be met. \<open>call_ok\<close> speaks of clients that must not block;
  \<open>serves\<close> covers the commands that neither free the client nor change the limits of its requests, as AUTH and CONFIG do. The contract of a hash function is
  \<open>dictType_ok\<close>, and \<open>modest\<close> says that an allocator does not hand out more than twice the
  size asked for.

  \<^bold>\<open>Not modelled.\<close> Values other than strings with their packed containers and commands, and the string commands themselves; snapshots and the
  append only file; cluster and Sentinel but for the types of their dictionaries; Lua and modules; expiry by cycles, eviction and background threads; access control and
  configuration; the event loop, sockets and threads for input and output; the handshake of replicas and the transfer of snapshots; INFO,
  CLIENT, DEBUG and the other administrative commands. They consist of system calls, timers, random sampling and formatted output, or rest
  on such parts. Floating point conversions and formatted printing belong to the C library. Freeing memory and counting
  references of shared objects are visible only where the code asserts about them. Vendored libraries, the client programs and
  the Java projects of the repository are outside of the development.
\<close>

section \<open>The keyspace\<close>

lemma map_spec_by_content:
  "map_spec (\<lambda>a b. f a = f b) ops (\<lambda>k. m (f k)) =
   map_prod (\<lambda>m k. m (f k)) id (map_spec (=) (map (map_map_op f id id) ops) m)"
proof (induction ops arbitrary: m)
  case (Cons op ops)
  have upd: "map_spec (\<lambda>a b. f a = f b) ops (\<lambda>x. if f x = f k then v else m (f x)) =
      map_prod (\<lambda>m k. m (f k)) id (map_spec (=) (map (map_map_op f id id) ops) (\<lambda>y. if y = f k then v else m y))" for k v
    by (rule Cons.IH [of "\<lambda>y. if y = f k then v else m y"])
  show ?case by (cases op) (simp_all add: upd Cons.IH case_prod_beta id_def)
qed simp

text \<open>C5: The keyspace of a database is a finite map from texts to values. The dictionary of a
  database, with its seeded SipHash, its string comparison and its memory-limited expansion, runs any sequence of at most \<open>2 ^ 60\<close>
  operations and maintenance steps without a failed assertion or an access outside of a table and returns what a finite
  map keyed by the bytes of the keys returns: two string objects with the same bytes are the same key, whatever their
  headers, spare room and addresses.\<close>

theorem keyspace_by_content:
  assumes "hash_env_ok E" "length ops \<le> 2 ^ 60"
  shows "\<exists>cr' d rs M. map_run (dict_put (dbDictType E cf mem ov)) (dict_get (dbDictType E cf mem ov)) (dict_del (dbDictType E cf mem ov))
        (dict_maintain (dbDictType E cf mem ov)) ops (cr, dictCreate) = Some ((cr', d), rs) \<and>
    dict_ok (dbDictType E cf mem ov) d \<and>
    map_spec (=) (map (map_map_op (\<lambda>k. sds_str (Rep_sds_key k)) id id) ops) Map.empty = (M, rs) \<and>
    (\<forall>k. dict_map (dbDictType E cf mem ov) d k = M (sds_str (Rep_sds_key k)))"
proof -
  let ?T = "dbDictType E cf mem ov" and ?f = "\<lambda>k. sds_str (Rep_sds_key k)"
  have T: "dictType_ok ?T" "\<And>a b. keyEq ?T a b \<longleftrightarrow> ?f a = ?f b"
    using assms(1) by (simp_all add: dbDictType_def sds_dictType_ok sds_dictType_keyEq)
  obtain cr' d rs where r: "map_run (dict_put ?T) (dict_get ?T) (dict_del ?T) (dict_maintain ?T) ops (cr, dictCreate) = Some ((cr', d), rs)"
    "dict_ok ?T d" "map_spec (keyEq ?T) ops Map.empty = (dict_map ?T d, rs)"
    using dict_store.map_run_law [of ?T "(cr, dictCreate)" ops] T(1) assms(2) by (auto simp: dict_state_ok_def dictCreate_ok)
  obtain M rs' where M: "map_spec (=) (map (map_map_op ?f id id) ops) Map.empty = (M, rs')" by fastforce
  have k: "keyEq ?T = (\<lambda>a b. ?f a = ?f b)" using T(2) by blast
  have "map_spec (keyEq ?T) ops Map.empty = (\<lambda>k. M (?f k), rs')"
    using map_spec_by_content [of ?f ops Map.empty] by (simp add: M k)
  then have "rs' = rs" "\<forall>k. dict_map ?T d k = M (?f k)" using r(3) by (simp_all add: fun_eq_iff)
  then show ?thesis using r(1,2) M by blast
qed

definition key_a :: sds_key where
  "key_a = Abs_sds_key \<lparr>sds_type = SDS_TYPE_8, hdr_len = 1, hdr_alloc = 2, sds_buf = [65, 0, 0]\<rparr>"

definition key_a' :: sds_key where
  "key_a' = Abs_sds_key \<lparr>sds_type = SDS_TYPE_8, hdr_len = 1, hdr_alloc = 1, sds_buf = [65, 0]\<rparr>"

lemma example_keys: "sds_str (Rep_sds_key key_a) = [65]" "sds_str (Rep_sds_key key_a') = [65]"
  by (simp_all add: key_a_def key_a'_def Abs_sds_key_inverse key_ok_def sds_ok_def sdsalloc_def sds_str_def)

theorem keyspace_by_content_witness:
  "let T = dbDictType example_env \<lparr>maxmemory = 0, no_shared_integers = False\<rparr> (\<lambda>_ _ _. 0) (\<lambda>_ _ _. 0) in
   \<exists>cr' d. map_run (dict_put T) (dict_get T) (dict_del T) (dict_maintain T)
     [Put_op key_a (1 :: nat), Get_op key_a', Tick_op (Rehash 1), Del_op key_a', Get_op key_a] (DICT_RESIZE_ENABLE, dictCreate) =
     Some ((cr', d), [Was_new True, Got (Some 1), Ticked, Deleted True, Got None])"
  using keyspace_by_content [OF example_env_ok, of "[Put_op key_a (1 :: nat), Get_op key_a', Tick_op (Rehash 1), Del_op key_a', Get_op key_a]"
      "\<lparr>maxmemory = 0, no_shared_integers = False\<rparr>" "\<lambda>_ _ _. 0" "\<lambda>_ _ _. 0" DICT_RESIZE_ENABLE]
  by (auto simp: example_keys Let_def)

end
